(* ===== verification/Prelude.thy ===== *)
theory Prelude
  imports Main "HOL-Library.Monad_Syntax"
begin

text \<open>
  Shared vocabulary of the development: the machine bounds the Rust sources use, the
  operations of \<open>Vec\<close> that the components share (checked read, \<open>resize\<close>), the collections of
  rewrite rules the component proofs draw on, and generic facts about lists, options and maps.

  Conventions.  A Rust panic (\<open>assert!\<close>, \<open>unwrap\<close>, an index out of range) is the value \<open>None\<close> of
  an \<open>option\<close>; a \<open>Result\<close> is a sum with the error on the left.  \<open>u32\<close> values are natural numbers
  with the bound \<open>u32_MAX\<close> and the saturating or checked arithmetic of the source written out;
  bit-level code uses words.  \<open>usize\<close> is taken as unbounded (64-bit indices into arenas of at most
  \<open>3 * 2 ^ 32\<close> slots).  Conditions under \<open>cfg(debug_assertions)\<close> are not executed by the release
  build; they appear as predicates that theorems establish.
\<close>

section \<open>Machine bounds\<close>

abbreviation u32_MAX :: nat where
  "u32_MAX \<equiv> 4294967295"

abbreviation u64_MAX :: nat where
  "u64_MAX \<equiv> 18446744073709551615"

section \<open>Rule collections\<close>

named_theorems view_simps \<open>how the operations on nets act on the observable view\<close>
named_theorems frame_simps \<open>fields an operation leaves alone\<close>
named_theorems inv_intros \<open>preservation of the well-formedness invariants\<close>

section \<open>Vectors\<close>

text \<open>\<open>slice::get\<close>: the checked read.\<close>

definition vec_get :: "'a list \<Rightarrow> nat \<Rightarrow> 'a option" where
  "vec_get xs i = (if i < length xs then Some (xs ! i) else None)"

text \<open>\<open>Vec::resize\<close>: truncate or pad with copies of the value.\<close>

definition vec_resize :: "nat \<Rightarrow> 'a \<Rightarrow> 'a list \<Rightarrow> 'a list" where
  "vec_resize n x xs = take n xs @ replicate (n - length xs) x"

text \<open>The guarded growth every arena uses: resize only when the vector is too short.\<close>

definition vec_grow :: "nat \<Rightarrow> 'a \<Rightarrow> 'a list \<Rightarrow> 'a list" where
  "vec_grow n x xs = (if length xs < n then vec_resize n x xs else xs)"

lemma length_vec_resize [simp]: "length (vec_resize n x xs) = n"
  by (simp add: vec_resize_def)

lemma length_vec_grow [simp]: "length (vec_grow n x xs) = max n (length xs)"
  by (simp add: vec_grow_def)

lemma nth_vec_resize:
  "i < n \<Longrightarrow> vec_resize n x xs ! i = (if i < length xs then xs ! i else x)"
  by (auto simp: vec_resize_def nth_append)

lemma nth_vec_grow:
  "i < max n (length xs) \<Longrightarrow> vec_grow n x xs ! i = (if i < length xs then xs ! i else x)"
  by (auto simp: vec_grow_def nth_vec_resize)

lemma vec_grow_id [simp]: "n \<le> length xs \<Longrightarrow> vec_grow n x xs = xs"
  by (simp add: vec_grow_def)

lemma vec_get_grow:
  "vec_get (vec_grow n x xs) i =
     (if i < length xs then Some (xs ! i) else if i < n then Some x else None)"
  by (auto simp: vec_get_def nth_vec_grow)

lemma vec_get_update [simp]:
  "vec_get (xs[j := y]) i = (if i = j \<and> j < length xs then Some y else vec_get xs i)"
  by (auto simp: vec_get_def)

lemma vec_get_Some_iff: "vec_get xs i = Some x \<longleftrightarrow> i < length xs \<and> xs ! i = x"
  by (auto simp: vec_get_def)

lemma vec_get_replicate [simp]:
  "vec_get (replicate n x) i = (if i < n then Some x else None)"
  by (simp add: vec_get_def)

section \<open>Options and lists\<close>

lemma bind_eq_SomeD:
  "m \<bind> f = Some y \<Longrightarrow> \<exists>x. m = Some x \<and> f x = Some y"
  by (cases m) auto

lemma filter_Cons_length:
  "length (filter P xs) = card {i. i < length xs \<and> P (xs ! i)}"
  by (rule length_filter_conv_card)

lemma distinct_butlast_last:
  "distinct xs \<Longrightarrow> xs \<noteq> [] \<Longrightarrow> last xs \<notin> set (butlast xs)"
  by (metis append_butlast_last_id distinct_butlast not_distinct_conv_prefix)

lemma set_butlast_insert: "xs \<noteq> [] \<Longrightarrow> set xs = insert (last xs) (set (butlast xs))"
  by (metis Un_insert_right append_butlast_last_id list.simps(15) set_append sup_bot.right_neutral empty_set)

lemma map_upds_nth:
  "distinct xs \<Longrightarrow> length xs = length ys \<Longrightarrow> k < length ys \<Longrightarrow> (m(xs [\<mapsto>] ys)) (xs ! k) = Some (ys ! k)"
proof (induction xs arbitrary: ys k m)
  case (Cons x xs)
  then show ?case
    by (cases ys; cases k) (auto simp: map_upds_apply_nontin)
qed simp

section \<open>Loops that may panic\<close>

text \<open>A \<open>for\<close> loop whose body may panic: the state after the last iteration, or \<open>None\<close>.\<close>

fun ofold :: "('a \<Rightarrow> 's \<Rightarrow> 's option) \<Rightarrow> 'a list \<Rightarrow> 's \<Rightarrow> 's option" where
  "ofold f [] s = Some s"
| "ofold f (x # xs) s = f x s \<bind> ofold f xs"

lemma ofold_append [simp]: "ofold f (xs @ ys) s = ofold f xs s \<bind> ofold f ys"
  by (induction xs arbitrary: s) (auto simp: bind_assoc split: Option.bind_split)

text \<open>A body that does not panic while an invariant holds makes the loop an ordinary fold.\<close>

lemma ofold_fold:
  assumes "\<And>x s. x \<in> set xs \<Longrightarrow> I s \<Longrightarrow> f x s = Some (g x s) \<and> I (g x s)" "I s"
  shows "ofold f xs s = Some (fold g xs s) \<and> I (fold g xs s)"
  using assms by (induction xs arbitrary: s) auto

lemma ofold_cong [fundef_cong]:
  assumes "xs = ys" "s = t" "\<And>x u. x \<in> set ys \<Longrightarrow> f x u = g x u"
  shows "ofold f xs s = ofold g ys t"
proof -
  have "ofold f ys u = ofold g ys u" for u
    using assms(3) by (induction ys arbitrary: u) (auto split: Option.bind_split)
  then show ?thesis
    using assms by simp
qed

text \<open>Wrapping \<open>u32\<close> increment of the release build.\<close>

definition u32_succ :: "nat \<Rightarrow> nat" where
  "u32_succ k = (k + 1) mod 4294967296"

lemma u32_succ_less [simp]: "k < u32_MAX \<Longrightarrow> u32_succ k = k + 1"
  by (simp add: u32_succ_def)

end
