(* ===== verification/Net_Types.thy ===== *)
theory Net_Types
  imports Prelude
begin

text \<open>
  The data of an interaction-combinator net (\<open>net/types.rs\<close>): the three symbols with their arity,
  port references, agents and the layout of the flat port array.
\<close>

section \<open>Symbols, ports and agents\<close>

type_synonym agent_id = nat
type_synonym port_id = nat

datatype symbol = Con | Dup | Era

datatype port_ref = AgentPort agent_id port_id | FreePort nat

record agent =
  a_symbol :: symbol
  a_id :: agent_id

definition PORTS_PER_SLOT :: nat where
  "PORTS_PER_SLOT = 3"

definition port_index :: "agent_id \<Rightarrow> port_id \<Rightarrow> nat" where
  "port_index agent_id port_id = agent_id * PORTS_PER_SLOT + port_id"

definition DISCONNECTED :: port_ref where
  "DISCONNECTED = FreePort u32_MAX"

fun arity :: "symbol \<Rightarrow> nat" where
  "arity Con = 2"
| "arity Dup = 2"
| "arity Era = 0"

definition total_ports :: "symbol \<Rightarrow> nat" where
  "total_ports s = arity s + 1"

text \<open>The \<open>repr(u8)\<close> discriminant of a symbol, which orders the symbols for dispatch.\<close>

fun symbol_code :: "symbol \<Rightarrow> nat" where
  "symbol_code Con = 0"
| "symbol_code Dup = 1"
| "symbol_code Era = 2"

instantiation symbol :: linorder
begin

definition less_eq_symbol :: "symbol \<Rightarrow> symbol \<Rightarrow> bool" where
  "less_eq_symbol a b \<longleftrightarrow> symbol_code a \<le> symbol_code b"

definition less_symbol :: "symbol \<Rightarrow> symbol \<Rightarrow> bool" where
  "less_symbol a b \<longleftrightarrow> symbol_code a < symbol_code b"

instance
proof
  fix x y :: symbol
  show "x \<le> y \<Longrightarrow> y \<le> x \<Longrightarrow> x = y"
    by (cases x; cases y) (simp_all add: less_eq_symbol_def)
qed (auto simp: less_eq_symbol_def less_symbol_def)

end

lemma symbol_le_iff [simp]: "(a :: symbol) \<le> b \<longleftrightarrow> symbol_code a \<le> symbol_code b"
  by (simp add: less_eq_symbol_def)

section \<open>Port arithmetic\<close>

lemma total_ports_simps [simp]:
  "total_ports Con = 3" "total_ports Dup = 3" "total_ports Era = 1"
  by (simp_all add: total_ports_def)

lemma total_ports_le: "total_ports s \<le> 3" and total_ports_pos: "0 < total_ports s"
  by (cases s; simp)+

lemma port_index_inj:
  "p < 3 \<Longrightarrow> q < 3 \<Longrightarrow> port_index i p = port_index j q \<longleftrightarrow> i = j \<and> p = q"
  unfolding port_index_def PORTS_PER_SLOT_def by presburger

lemma port_index_bound: "p < 3 \<Longrightarrow> i < n \<Longrightarrow> port_index i p < 3 * n"
  unfolding port_index_def PORTS_PER_SLOT_def by linarith

text \<open>The ports that have a slot of their own in the flat array.\<close>

fun slot_port :: "port_ref \<Rightarrow> bool" where
  "slot_port (AgentPort i p) \<longleftrightarrow> p < 3"
| "slot_port (FreePort f) \<longleftrightarrow> True"

lemma AgentPort_neq_DISCONNECTED [simp]:
  "AgentPort i p \<noteq> DISCONNECTED" "DISCONNECTED \<noteq> AgentPort i p"
  by (simp_all add: DISCONNECTED_def)

end
