(* ===== verification/Net_Core.thy ===== *)
theory Net_Core
  imports Net_Types
begin

text \<open>
  The arena representation of a net and its operations (\<open>net/core.rs\<close>): agent slots, the flat
  port array, the redex queue, the LIFO free-list of recycled identifiers with its two delta-mode
  recycling policies, and the \<open>freeport_redirects\<close> ledger.  The first part holds the state and the
  operations; the second shows how each operation acts on the observable view of a net (which
  symbol lives in a slot, where a port leads), which is what the later theories reason about.

  The model is the release build with default features: fields that the source writes only under
  \<open>cfg(debug_assertions)\<close> (\<open>protected_tombstones\<close> and the counters) keep their initial value.
\<close>

section \<open>State\<close>

datatype recycle_policy = DisableUnderDelta | BorderClean

record net =
  agents :: "agent option list"
  ports :: "port_ref list"
  redex_queue :: "(agent_id \<times> agent_id) list"
  next_id :: agent_id
  root :: "port_ref option"
  freeport_redirects :: "nat \<rightharpoonup> port_ref"
  free_list :: "agent_id list"
  id_range :: "(agent_id \<times> agent_id) option"
  border_entries_shadow :: "agent_id set option"
  recycle_policy :: recycle_policy
  is_in_delta_round :: bool
  streaming_active :: bool
  protected_tombstones :: "agent_id set option"
  free_list_pops :: nat
  free_list_pops_border :: nat
  free_list_pops_non_border :: nat
  lifo_stalemate_fallbacks :: nat
  stalemate_warned :: bool

definition net_new :: net where
  "net_new =
     \<lparr>agents = [], ports = [], redex_queue = [], next_id = 0, root = None,
      freeport_redirects = Map.empty, free_list = [], id_range = None,
      border_entries_shadow = None, recycle_policy = DisableUnderDelta,
      is_in_delta_round = False, streaming_active = False, protected_tombstones = None,
      free_list_pops = 0, free_list_pops_border = 0, free_list_pops_non_border = 0,
      lifo_stalemate_fallbacks = 0, stalemate_warned = False\<rparr>"

text \<open>Pre-allocated capacity is not observable.\<close>

definition with_capacity :: "nat \<Rightarrow> net" where
  "with_capacity capacity = net_new"

section \<open>Reading a net\<close>

definition get_target :: "net \<Rightarrow> port_ref \<Rightarrow> port_ref" where
  "get_target n port =
     (case port of
        AgentPort i p \<Rightarrow>
          (let idx = port_index i p
           in if idx < length (ports n) then ports n ! idx else DISCONNECTED)
      | FreePort f \<Rightarrow> DISCONNECTED)"

definition get_agent :: "net \<Rightarrow> agent_id \<Rightarrow> agent option" where
  "get_agent n i = (case vec_get (agents n) i of Some slot \<Rightarrow> slot | None \<Rightarrow> None)"

definition is_reduced :: "net \<Rightarrow> bool" where
  "is_reduced n \<longleftrightarrow> redex_queue n = []"

definition is_valid_redex :: "net \<Rightarrow> agent_id \<Rightarrow> agent_id \<Rightarrow> bool" where
  "is_valid_redex n a b \<longleftrightarrow>
     (if get_agent n a = None \<or> get_agent n b = None then False
      else get_target n (AgentPort a 0) = AgentPort b 0)"

definition live_agents :: "net \<Rightarrow> agent list" where
  "live_agents n = List.map_filter (\<lambda>slot. slot) (agents n)"

definition count_live_agents :: "net \<Rightarrow> nat" where
  "count_live_agents n = length (filter (\<lambda>slot. slot \<noteq> None) (agents n))"

definition is_border_protected :: "net \<Rightarrow> agent_id \<Rightarrow> bool" where
  "is_border_protected n i \<longleftrightarrow>
     (case border_entries_shadow n of None \<Rightarrow> False | Some s \<Rightarrow> i \<in> s)"

section \<open>Wiring\<close>

definition set_port :: "port_ref \<Rightarrow> port_ref \<Rightarrow> net \<Rightarrow> net" where
  "set_port port target n =
     (case port of
        AgentPort i p \<Rightarrow>
          (let idx = port_index i p
           in if idx < length (ports n) then n\<lparr>ports := (ports n)[idx := target]\<rparr> else n)
      | FreePort f \<Rightarrow> n)"

definition redirect_freeports :: "port_ref \<Rightarrow> port_ref \<Rightarrow> (nat \<rightharpoonup> port_ref) \<Rightarrow> (nat \<rightharpoonup> port_ref)" where
  "redirect_freeports a b m =
     (case (a, b) of
        (FreePort fa, FreePort fb) \<Rightarrow>
          (let m1 = (if fa \<noteq> u32_MAX then m(fa \<mapsto> b) else m)
           in if fb \<noteq> u32_MAX then m1(fb \<mapsto> a) else m1)
      | _ \<Rightarrow> m)"

definition new_redexes :: "port_ref \<Rightarrow> port_ref \<Rightarrow> (agent_id \<times> agent_id) list" where
  "new_redexes a b =
     (case (a, b) of
        (AgentPort i p, AgentPort j q) \<Rightarrow> if p = 0 \<and> q = 0 then [(i, j)] else []
      | _ \<Rightarrow> [])"

definition connect :: "port_ref \<Rightarrow> port_ref \<Rightarrow> net \<Rightarrow> net" where
  "connect a b n =
     (let n1 = set_port b a (set_port a b n)
      in n1\<lparr>freeport_redirects := redirect_freeports a b (freeport_redirects n1),
            redex_queue := redex_queue n1 @ new_redexes a b\<rparr>)"

definition disconnect :: "port_ref \<Rightarrow> net \<Rightarrow> net" where
  "disconnect port n =
     (let target = get_target n port;
          n1 = (if target \<noteq> DISCONNECTED then set_port target DISCONNECTED n else n)
      in set_port port DISCONNECTED n1)"

section \<open>Creating and removing agents\<close>

text \<open>
  The scan of \<open>create_agent\<close> for a deeper entry that is not border-protected: the last index of
  the free-list that satisfies the predicate.
\<close>

fun rposition :: "('a \<Rightarrow> bool) \<Rightarrow> 'a list \<Rightarrow> nat option" where
  "rposition P [] = None"
| "rposition P (x # xs) =
     (case rposition P xs of Some k \<Rightarrow> Some (Suc k) | None \<Rightarrow> if P x then Some 0 else None)"

definition vec_remove :: "nat \<Rightarrow> 'a list \<Rightarrow> 'a list" where
  "vec_remove k xs = take k xs @ drop (Suc k) xs"

definition round_protected :: "net \<Rightarrow> bool" where
  "round_protected n \<longleftrightarrow> is_in_delta_round n \<or> streaming_active n"

text \<open>
  The identifier \<open>create_agent\<close> recycles, if any, with the free-list it leaves: the top of the
  stack, unless Strategy A forbids recycling in this round or Strategy B finds the top protected
  and has to take a deeper entry (or none).
\<close>

definition pop_free_list :: "net \<Rightarrow> agent_id option \<times> agent_id list" where
  "pop_free_list n =
     (if round_protected n \<and> recycle_policy n = DisableUnderDelta then (None, free_list n)
      else if free_list n = [] then (None, [])
      else
        (let top = last (free_list n); rest = butlast (free_list n)
         in if round_protected n \<and> recycle_policy n = BorderClean \<and> is_border_protected n top
            then (case rposition (\<lambda>c. \<not> is_border_protected n c) rest of
                    Some k \<Rightarrow> (Some (rest ! k), vec_remove k rest @ [top])
                  | None \<Rightarrow> (None, rest @ [top]))
            else (Some top, rest)))"

definition reinit_slot :: "agent_id \<Rightarrow> symbol \<Rightarrow> net \<Rightarrow> net" where
  "reinit_slot i s n =
     (let base = i * PORTS_PER_SLOT
      in n\<lparr>agents := (vec_grow (i + 1) None (agents n))[i := Some \<lparr>a_symbol = s, a_id = i\<rparr>],
           ports := (vec_grow ((i + 1) * PORTS_PER_SLOT) DISCONNECTED (ports n))
                      [base := DISCONNECTED, base + 1 := DISCONNECTED, base + 2 := DISCONNECTED]\<rparr>)"

text \<open>The fresh-allocation path; \<open>None\<close> is the exhaustion panic.\<close>

definition alloc_fresh :: "symbol \<Rightarrow> net \<Rightarrow> (agent_id \<times> net) option" where
  "alloc_fresh s n =
     (if next_id n < u32_MAX
      then
        (let i = next_id n
         in Some (i, n\<lparr>next_id := i + 1,
                       agents := (vec_grow (i + 1) None (agents n))
                                   [i := Some \<lparr>a_symbol = s, a_id = i\<rparr>],
                       ports := vec_grow ((i + 1) * PORTS_PER_SLOT) DISCONNECTED (ports n)\<rparr>))
      else None)"

definition create_agent :: "symbol \<Rightarrow> net \<Rightarrow> (agent_id \<times> net) option" where
  "create_agent s n =
     (case pop_free_list n of
        (Some i, fl) \<Rightarrow> Some (i, reinit_slot i s (n\<lparr>free_list := fl\<rparr>))
      | (None, fl) \<Rightarrow> alloc_fresh s (n\<lparr>free_list := fl\<rparr>))"

text \<open>Disconnecting the ports \<open>0, ..., k - 1\<close> of an agent, in order.\<close>

fun disconnect_ports :: "agent_id \<Rightarrow> port_id list \<Rightarrow> net \<Rightarrow> net" where
  "disconnect_ports i [] n = n"
| "disconnect_ports i (p # ps) n = disconnect_ports i ps (disconnect (AgentPort i p) n)"

definition remove_agent :: "agent_id \<Rightarrow> net \<Rightarrow> net" where
  "remove_agent i n =
     (case get_agent n i of
        None \<Rightarrow> n
      | Some ag \<Rightarrow>
          (let n1 = disconnect_ports i [0..<total_ports (a_symbol ag)] n;
               n2 = n1\<lparr>agents := (agents n1)[i := None],
                       freeport_redirects := (freeport_redirects n1)(i := None)\<rparr>
           in if \<not> is_border_protected n2 i then n2\<lparr>free_list := free_list n2 @ [i]\<rparr> else n2))"

section \<open>Free-list validation and recovery\<close>

datatype net_error =
    AgentNotFound agent_id
  | InvariantViolation string
  | Serialize string
  | Deserialize string
  | FreeListInvalid agent_id string
  | DenseAllocationExceedsThreshold nat nat nat
  | InvalidIdRange nat nat
  | AgentIdOverflow

fun validate_free_list_from :: "net \<Rightarrow> agent_id set \<Rightarrow> agent_id list \<Rightarrow> net_error + unit" where
  "validate_free_list_from n seen [] = Inr ()"
| "validate_free_list_from n seen (i # is) =
     (if i \<in> seen then Inl (FreeListInvalid i ''duplicate entry'')
      else if get_agent n i \<noteq> None then Inl (FreeListInvalid i ''slot is Some'')
      else validate_free_list_from n (insert i seen) is)"

definition validate_free_list :: "net \<Rightarrow> net_error + unit" where
  "validate_free_list n = validate_free_list_from n {} (free_list n)"

text \<open>
  Draining border tombstones: \<open>order\<close> is the (unspecified) iteration order of the shadow set.
\<close>

fun drain_ids :: "net \<Rightarrow> agent_id list \<Rightarrow> agent_id list \<Rightarrow> agent_id list" where
  "drain_ids n fl [] = fl"
| "drain_ids n fl (i # is) =
     (if get_agent n i = None \<and> i \<notin> set fl then drain_ids n (fl @ [i]) is else drain_ids n fl is)"

definition reconstruct_drain_tombstones :: "agent_id list \<Rightarrow> net \<Rightarrow> net" where
  "reconstruct_drain_tombstones order n =
     (let n1 = n\<lparr>is_in_delta_round := False\<rparr>
      in case border_entries_shadow n1 of
           None \<Rightarrow> n1
         | Some s \<Rightarrow> n1\<lparr>border_entries_shadow := None,
                        free_list := drain_ids n1 (free_list n1) order\<rparr>)"

section \<open>Union and behavioural equality\<close>

text \<open>Copying the live slots, respectively the connected ports, of the right-hand net.\<close>

fun overlay_agents :: "nat \<Rightarrow> agent option list \<Rightarrow> agent option list \<Rightarrow> agent option list" where
  "overlay_agents k [] acc = acc"
| "overlay_agents k (slot # slots) acc =
     overlay_agents (Suc k) slots (case slot of None \<Rightarrow> acc | Some ag \<Rightarrow> acc[k := Some ag])"

fun overlay_ports :: "nat \<Rightarrow> port_ref list \<Rightarrow> port_ref list \<Rightarrow> port_ref list" where
  "overlay_ports k [] acc = acc"
| "overlay_ports k (t # ts) acc =
     overlay_ports (Suc k) ts (if t \<noteq> DISCONNECTED \<and> k < length acc then acc[k := t] else acc)"

definition net_union :: "net \<Rightarrow> net \<Rightarrow> net" where
  "net_union a b =
     (let merged_next_id = max (next_id a) (next_id b);
          agents_target_len = max (max (length (agents a)) (length (agents b))) merged_next_id;
          ports_target_len =
            max (length (ports a)) (max (length (ports b)) (merged_next_id * PORTS_PER_SLOT))
      in net_new\<lparr>
           agents := overlay_agents 0 (agents b) (vec_resize agents_target_len None (agents a)),
           ports := overlay_ports 0 (ports b) (vec_resize ports_target_len DISCONNECTED (ports a)),
           redex_queue := redex_queue a @ redex_queue b,
           next_id := merged_next_id,
           root := root a,
           freeport_redirects := freeport_redirects a ++ freeport_redirects b,
           free_list := free_list a,
           recycle_policy := recycle_policy a\<rparr>)"

text \<open>
  \<open>sort_unstable\<close> on both queues followed by \<open>==\<close> compares the queues as multisets; redirect
  ledgers are compared as maps, which the source does entry by entry.
\<close>

definition same_ports :: "net \<Rightarrow> net \<Rightarrow> bool" where
  "same_ports a b \<longleftrightarrow>
     list_all (\<lambda>ag. list_all (\<lambda>p. get_target a (AgentPort (a_id ag) p)
                                  = get_target b (AgentPort (a_id ag) p))
                             [0..<total_ports (a_symbol ag)])
              (live_agents a)"

fun insert_pair :: "nat \<times> nat \<Rightarrow> (nat \<times> nat) list \<Rightarrow> (nat \<times> nat) list" where
  "insert_pair x [] = [x]"
| "insert_pair x (y # ys) =
     (if fst x < fst y \<or> fst x = fst y \<and> snd x \<le> snd y then x # y # ys else y # insert_pair x ys)"

definition sort_redexes :: "(nat \<times> nat) list \<Rightarrow> (nat \<times> nat) list" where
  "sort_redexes xs = foldr insert_pair xs []"

definition is_behaviorally_equal :: "net \<Rightarrow> net \<Rightarrow> bool" where
  "is_behaviorally_equal a b \<longleftrightarrow>
     live_agents a = live_agents b \<and>
     same_ports a b \<and>
     sort_redexes (redex_queue a) = sort_redexes (redex_queue b) \<and>
     root a = root b \<and>
     next_id a = next_id b \<and>
     freeport_redirects a = freeport_redirects b \<and>
     free_list a = free_list b"

end
