(* ===== verification/Net_View.thy ===== *)
theory Net_View
  imports Net_Core
begin

text \<open>
  How the operations of \<open>net/core.rs\<close> act on the observable view of a net: \<open>sym_at n i\<close> is the symbol
  alive in slot \<open>i\<close>, \<open>tgt n i p\<close> the far end of port \<open>p\<close> of agent \<open>i\<close>.  The structural invariant
  \<open>core_inv\<close> says that the arena, the port array and the free-list agree; every operation keeps it.
\<close>

section \<open>The view\<close>

definition sym_at :: "net \<Rightarrow> agent_id \<Rightarrow> symbol option" where
  "sym_at n i = map_option a_symbol (get_agent n i)"

definition tgt :: "net \<Rightarrow> agent_id \<Rightarrow> port_id \<Rightarrow> port_ref" where
  "tgt n i p = get_target n (AgentPort i p)"

definition valid_port :: "net \<Rightarrow> agent_id \<Rightarrow> port_id \<Rightarrow> bool" where
  "valid_port n i p \<longleftrightarrow> (case sym_at n i of None \<Rightarrow> False | Some s \<Rightarrow> p < total_ports s)"

abbreviation live :: "net \<Rightarrow> agent_id \<Rightarrow> bool" where
  "live n i \<equiv> sym_at n i \<noteq> None"

lemma live_iff_get_agent: "live n i \<longleftrightarrow> get_agent n i \<noteq> None"
  by (simp add: sym_at_def)

lemma live_length: "live n i \<Longrightarrow> i < length (agents n)"
  by (auto simp: sym_at_def get_agent_def vec_get_def split: if_splits)

lemma valid_port_less: "valid_port n i p \<Longrightarrow> p < 3"
  by (auto simp: valid_port_def split: option.splits intro: less_le_trans [OF _ total_ports_le])

lemma valid_port_live: "valid_port n i p \<Longrightarrow> live n i"
  by (auto simp: valid_port_def split: option.splits)

lemma valid_port_0: "live n i \<Longrightarrow> valid_port n i 0"
  by (auto simp: valid_port_def total_ports_pos)

lemma sym_cong: "agents n = agents m \<Longrightarrow> sym_at n = sym_at m"
  by (auto simp: sym_at_def get_agent_def fun_eq_iff)

lemma tgt_cong: "ports n = ports m \<Longrightarrow> tgt n = tgt m"
  by (simp add: tgt_def get_target_def Let_def fun_eq_iff)

lemma valid_port_cong: "sym_at n = sym_at m \<Longrightarrow> valid_port n = valid_port m"
  by (auto simp: valid_port_def fun_eq_iff)

lemma sym_update [simp]:
  "sym_at (n\<lparr>ports := ps\<rparr>) = sym_at n" "sym_at (n\<lparr>redex_queue := q\<rparr>) = sym_at n"
  "sym_at (n\<lparr>freeport_redirects := r\<rparr>) = sym_at n" "sym_at (n\<lparr>free_list := fl\<rparr>) = sym_at n"
  "sym_at (n\<lparr>next_id := k\<rparr>) = sym_at n" "sym_at (n\<lparr>root := rt\<rparr>) = sym_at n"
  by (rule sym_cong; simp)+

lemma tgt_update [simp]:
  "tgt (n\<lparr>agents := ags\<rparr>) = tgt n" "tgt (n\<lparr>redex_queue := q\<rparr>) = tgt n"
  "tgt (n\<lparr>freeport_redirects := r\<rparr>) = tgt n" "tgt (n\<lparr>free_list := fl\<rparr>) = tgt n"
  "tgt (n\<lparr>next_id := k\<rparr>) = tgt n" "tgt (n\<lparr>root := rt\<rparr>) = tgt n"
  by (rule tgt_cong; simp)+

section \<open>Wiring operations\<close>

lemma set_port_frame [frame_simps, simp]:
  "agents (set_port x t n) = agents n" "redex_queue (set_port x t n) = redex_queue n"
  "next_id (set_port x t n) = next_id n" "root (set_port x t n) = root n"
  "free_list (set_port x t n) = free_list n" "length (ports (set_port x t n)) = length (ports n)"
  "freeport_redirects (set_port x t n) = freeport_redirects n"
  "border_entries_shadow (set_port x t n) = border_entries_shadow n"
  "recycle_policy (set_port x t n) = recycle_policy n"
  "is_in_delta_round (set_port x t n) = is_in_delta_round n"
  "streaming_active (set_port x t n) = streaming_active n"
  by (auto simp: set_port_def Let_def split: port_ref.split)

lemma connect_frame [frame_simps, simp]:
  "agents (connect x y n) = agents n" "next_id (connect x y n) = next_id n"
  "root (connect x y n) = root n" "free_list (connect x y n) = free_list n"
  "length (ports (connect x y n)) = length (ports n)"
  "redex_queue (connect x y n) = redex_queue n @ new_redexes x y"
  "border_entries_shadow (connect x y n) = border_entries_shadow n"
  "recycle_policy (connect x y n) = recycle_policy n"
  "is_in_delta_round (connect x y n) = is_in_delta_round n"
  "streaming_active (connect x y n) = streaming_active n"
  by (simp_all add: connect_def Let_def)

lemma disconnect_frame [frame_simps, simp]:
  "agents (disconnect x n) = agents n" "redex_queue (disconnect x n) = redex_queue n"
  "next_id (disconnect x n) = next_id n" "root (disconnect x n) = root n"
  "free_list (disconnect x n) = free_list n" "length (ports (disconnect x n)) = length (ports n)"
  "freeport_redirects (disconnect x n) = freeport_redirects n"
  "border_entries_shadow (disconnect x n) = border_entries_shadow n"
  "recycle_policy (disconnect x n) = recycle_policy n"
  "is_in_delta_round (disconnect x n) = is_in_delta_round n"
  "streaming_active (disconnect x n) = streaming_active n"
  by (simp_all add: disconnect_def Let_def)

lemma sym_wiring [view_simps, simp]:
  "sym_at (set_port x t n) = sym_at n" "sym_at (connect x y n) = sym_at n" "sym_at (disconnect x n) = sym_at n"
  by (rule sym_cong; simp)+

lemma valid_port_wiring [view_simps, simp]:
  "valid_port (set_port x t n) = valid_port n" "valid_port (connect x y n) = valid_port n"
  "valid_port (disconnect x n) = valid_port n"
  by (rule valid_port_cong; simp)+

lemma tgt_set_port:
  assumes "slot_port x" "q < 3"
  shows "tgt (set_port x t n) j q =
    (if x = AgentPort j q \<and> port_index j q < length (ports n) then t else tgt n j q)"
  using assms
  by (cases x) (auto simp: set_port_def tgt_def get_target_def Let_def nth_list_update port_index_inj)

lemma tgt_connect [view_simps]:
  assumes "slot_port x" "slot_port y" "q < 3"
  shows "tgt (connect x y n) j q =
    (if y = AgentPort j q \<and> port_index j q < length (ports n) then x
     else if x = AgentPort j q \<and> port_index j q < length (ports n) then y else tgt n j q)"
  using assms by (simp add: connect_def Let_def tgt_set_port)

lemma tgt_out_of_range: "\<not> port_index j q < length (ports n) \<Longrightarrow> tgt n j q = DISCONNECTED"
  by (simp add: tgt_def get_target_def)

lemma tgt_disconnect:
  assumes "slot_port (tgt n i p)" "p < 3" "q < 3"
  shows "tgt (disconnect (AgentPort i p) n) j q =
    (if j = i \<and> q = p \<or> tgt n i p = AgentPort j q then DISCONNECTED else tgt n j q)"
  using assms
  by (auto simp: disconnect_def Let_def tgt_set_port tgt_out_of_range tgt_def [symmetric])

section \<open>Symmetric wiring\<close>

text \<open>
  Every wire between two agents is recorded at both ends, and no port is wired to itself
  (SPEC-01 I1, with the self-connection rule of \<open>connect\<close>).
\<close>

definition symmetric_wires :: "net \<Rightarrow> bool" where
  "symmetric_wires n \<longleftrightarrow>
     (\<forall>i p j q. p < 3 \<longrightarrow> tgt n i p = AgentPort j q \<longrightarrow>
        q < 3 \<and> tgt n j q = AgentPort i p \<and> (i, p) \<noteq> (j, q))"

lemma symmetric_wiresD:
  assumes "symmetric_wires n" "p < 3" "tgt n i p = AgentPort j q"
  shows "q < 3" "tgt n j q = AgentPort i p" "(i, p) \<noteq> (j, q)"
  using assms unfolding symmetric_wires_def by blast+

lemma symmetric_wires_slot: "symmetric_wires n \<Longrightarrow> p < 3 \<Longrightarrow> slot_port (tgt n i p)"
  by (cases "tgt n i p") (auto dest: symmetric_wiresD)

lemma tgt_disconnect_sym [view_simps]:
  assumes "symmetric_wires n" "p < 3" "q < 3"
  shows "tgt (disconnect (AgentPort i p) n) j q =
    (if j = i \<and> q = p \<or> tgt n j q = AgentPort i p then DISCONNECTED else tgt n j q)"
proof -
  have "tgt n i p = AgentPort j q \<longleftrightarrow> tgt n j q = AgentPort i p"
    using assms by (auto dest: symmetric_wiresD)
  then show ?thesis
    using tgt_disconnect [OF symmetric_wires_slot [OF assms(1,2)] assms(2,3)] by simp
qed

lemma symmetric_wires_disconnect [inv_intros]:
  assumes "symmetric_wires n" "p < 3"
  shows "symmetric_wires (disconnect (AgentPort i p) n)"
  unfolding symmetric_wires_def
proof (intro allI impI)
  fix j q k r
  assume q: "q < 3" and t: "tgt (disconnect (AgentPort i p) n) j q = AgentPort k r"
  then have t': "tgt n j q = AgentPort k r" "(j, q) \<noteq> (i, p)" "AgentPort k r \<noteq> AgentPort i p"
    using assms by (auto simp: tgt_disconnect_sym split: if_splits)
  note wires = symmetric_wiresD [OF assms(1) q t'(1)]
  show "r < 3 \<and> tgt (disconnect (AgentPort i p) n) k r = AgentPort j q \<and> (j, q) \<noteq> (k, r)"
    using wires t' assms by (auto simp: tgt_disconnect_sym)
qed

lemma tgt_disconnect_ports:
  assumes "symmetric_wires n" "\<forall>p \<in> set ps. p < 3" "q < 3"
  shows "tgt (disconnect_ports i ps n) j q =
    (if j = i \<and> q \<in> set ps \<or> (\<exists>p \<in> set ps. tgt n j q = AgentPort i p) then DISCONNECTED
     else tgt n j q)"
  using assms
proof (induction ps arbitrary: n)
  case (Cons p ps)
  then show ?case
    by (auto simp: symmetric_wires_disconnect tgt_disconnect_sym)
qed simp

lemma symmetric_wires_disconnect_ports [inv_intros]:
  "symmetric_wires n \<Longrightarrow> \<forall>p \<in> set ps. p < 3 \<Longrightarrow> symmetric_wires (disconnect_ports i ps n)"
  by (induction ps arbitrary: n) (auto intro: symmetric_wires_disconnect)

lemma disconnect_ports_frame [frame_simps, simp]:
  "agents (disconnect_ports i ps n) = agents n"
  "redex_queue (disconnect_ports i ps n) = redex_queue n"
  "next_id (disconnect_ports i ps n) = next_id n" "root (disconnect_ports i ps n) = root n"
  "free_list (disconnect_ports i ps n) = free_list n"
  "length (ports (disconnect_ports i ps n)) = length (ports n)"
  "freeport_redirects (disconnect_ports i ps n) = freeport_redirects n"
  "border_entries_shadow (disconnect_ports i ps n) = border_entries_shadow n"
  "recycle_policy (disconnect_ports i ps n) = recycle_policy n"
  "is_in_delta_round (disconnect_ports i ps n) = is_in_delta_round n"
  "streaming_active (disconnect_ports i ps n) = streaming_active n"
  by (induction ps arbitrary: n) simp_all

section \<open>The structural invariant\<close>

text \<open>
  \<open>slots_ok\<close>: the port array covers the arena and slots carry their own index; \<open>ports_clean\<close>: a
  port that does not exist (dead slot, or an auxiliary slot of an eraser, SPEC-01 I6) is
  disconnected; \<open>ids_below\<close>: I3; \<open>free_list_ok\<close>: the free-list holds distinct, dead, once-issued
  identifiers (SPEC-22 R6, R9).
\<close>

definition slots_ok :: "net \<Rightarrow> bool" where
  "slots_ok n \<longleftrightarrow>
     3 * length (agents n) \<le> length (ports n) \<and>
     (\<forall>i ag. get_agent n i = Some ag \<longrightarrow> a_id ag = i)"

definition ports_clean :: "net \<Rightarrow> bool" where
  "ports_clean n \<longleftrightarrow> (\<forall>i p. p < 3 \<longrightarrow> \<not> valid_port n i p \<longrightarrow> tgt n i p = DISCONNECTED)"

definition ids_below :: "net \<Rightarrow> bool" where
  "ids_below n \<longleftrightarrow> (\<forall>i. live n i \<longrightarrow> i < next_id n) \<and> next_id n \<le> u32_MAX"

definition free_list_ok :: "net \<Rightarrow> bool" where
  "free_list_ok n \<longleftrightarrow>
     distinct (free_list n) \<and> (\<forall>i \<in> set (free_list n). \<not> live n i \<and> i < next_id n)"

definition core_inv :: "net \<Rightarrow> bool" where
  "core_inv n \<longleftrightarrow>
     slots_ok n \<and> ports_clean n \<and> symmetric_wires n \<and> ids_below n \<and> free_list_ok n"

lemma core_invD:
  assumes "core_inv n"
  shows "slots_ok n" "ports_clean n" "symmetric_wires n" "ids_below n" "free_list_ok n"
  using assms by (auto simp: core_inv_def)

lemma live_slot:
  assumes "slots_ok n" "live n i" "p < 3"
  shows "port_index i p < length (ports n)"
proof -
  have "port_index i p < 3 * length (agents n)"
    using assms(3) live_length [OF assms(2)] by (rule port_index_bound)
  then show ?thesis
    using assms(1) by (simp add: slots_ok_def)
qed

text \<open>I2: a wire only leads to an existing port of a live agent.\<close>

lemma tgt_valid:
  assumes "core_inv n" "p < 3" "tgt n i p = AgentPort j q"
  shows "valid_port n j q" "valid_port n i p"
proof -
  note wires = symmetric_wiresD [OF core_invD(3) [OF assms(1)] assms(2,3)]
  show "valid_port n j q"
    using wires(1,2) core_invD(2) [OF assms(1)] by (force simp: ports_clean_def)
  show "valid_port n i p"
    using assms(2,3) core_invD(2) [OF assms(1)] by (force simp: ports_clean_def)
qed

lemma dead_tgt: "core_inv n \<Longrightarrow> \<not> live n i \<Longrightarrow> p < 3 \<Longrightarrow> tgt n i p = DISCONNECTED"
  by (auto simp: core_inv_def ports_clean_def valid_port_def)

text \<open>A port that a new wire may use: free, and existing when it belongs to an agent.\<close>

fun open_end :: "net \<Rightarrow> port_ref \<Rightarrow> bool" where
  "open_end n (AgentPort i p) \<longleftrightarrow> valid_port n i p \<and> tgt n i p = DISCONNECTED"
| "open_end n (FreePort f) \<longleftrightarrow> True"

lemma open_end_slot: "open_end n x \<Longrightarrow> slot_port x"
  by (cases x) (auto dest: valid_port_less)

text \<open>Both ends of a new wire see each other; everything else is as before.\<close>

lemma tgt_connect_open [view_simps]:
  assumes "slots_ok n" "open_end n x" "open_end n y" "q < 3"
  shows "tgt (connect x y n) j q =
    (if y = AgentPort j q then x else if x = AgentPort j q then y else tgt n j q)"
proof -
  have "port_index j q < length (ports n)" if "x = AgentPort j q \<or> y = AgentPort j q"
    using that assms by (auto intro!: live_slot dest: valid_port_live)
  then show ?thesis
    using assms by (auto simp: tgt_connect open_end_slot)
qed

lemma symmetric_wires_connect [inv_intros]:
  assumes inv: "symmetric_wires n" "slots_ok n" and ends: "open_end n x" "open_end n y"
    and neq: "\<And>i p. x = AgentPort i p \<Longrightarrow> y \<noteq> AgentPort i p"
  shows "symmetric_wires (connect x y n)"
  unfolding symmetric_wires_def
proof (intro allI impI)
  fix i p j q
  assume p: "p < 3" and t: "tgt (connect x y n) i p = AgentPort j q"
  note view = tgt_connect_open [OF inv(2) ends]
  consider "y = AgentPort i p" "x = AgentPort j q" | "x = AgentPort i p" "y = AgentPort j q"
    | "y \<noteq> AgentPort i p" "x \<noteq> AgentPort i p" "tgt n i p = AgentPort j q"
    using t view [OF p] by (auto split: if_splits)
  then show "q < 3 \<and> tgt (connect x y n) j q = AgentPort i p \<and> (i, p) \<noteq> (j, q)"
  proof cases
    case 3
    note old = symmetric_wiresD [OF inv(1) p 3(3)]
    then have "x \<noteq> AgentPort j q" "y \<noteq> AgentPort j q"
      using ends by auto
    then show ?thesis
      using old view by simp
  qed (use neq view ends in \<open>auto dest: valid_port_less\<close>)
qed

lemma core_inv_connect [inv_intros]:
  assumes inv: "core_inv n" and ends: "open_end n x" "open_end n y"
    and neq: "\<And>i p. x = AgentPort i p \<Longrightarrow> y \<noteq> AgentPort i p"
  shows "core_inv (connect x y n)"
proof -
  note D = core_invD [OF inv]
  have "ports_clean (connect x y n)"
    using D(1,2) ends by (auto simp: ports_clean_def tgt_connect_open)
  moreover have "slots_ok (connect x y n)"
    using D(1) by (simp add: slots_ok_def get_agent_def)
  moreover have "ids_below (connect x y n)" "free_list_ok (connect x y n)"
    using D(4,5) by (simp_all add: ids_below_def free_list_ok_def)
  ultimately show ?thesis
    using symmetric_wires_connect [OF D(3,1) ends neq] by (simp add: core_inv_def)
qed

section \<open>Removing an agent\<close>

lemma remove_agent_dead [simp]: "\<not> live n i \<Longrightarrow> remove_agent i n = n"
  by (simp add: remove_agent_def sym_at_def)

lemma remove_agent_frame [frame_simps, simp]:
  "redex_queue (remove_agent i n) = redex_queue n" "next_id (remove_agent i n) = next_id n"
  "root (remove_agent i n) = root n" "length (ports (remove_agent i n)) = length (ports n)"
  "length (agents (remove_agent i n)) = length (agents n)"
  "border_entries_shadow (remove_agent i n) = border_entries_shadow n"
  "recycle_policy (remove_agent i n) = recycle_policy n"
  "is_in_delta_round (remove_agent i n) = is_in_delta_round n"
  "streaming_active (remove_agent i n) = streaming_active n"
  by (auto simp: remove_agent_def Let_def split: option.split)

lemma remove_agent_free_list:
  "free_list (remove_agent i n) =
     (if live n i \<and> \<not> is_border_protected n i then free_list n @ [i] else free_list n)"
  by (auto simp: remove_agent_def Let_def is_border_protected_def sym_at_def
      split: option.split)

lemma get_agent_remove:
  "get_agent (remove_agent i n) j = (if j = i then None else get_agent n j)"
  by (auto simp: remove_agent_def Let_def get_agent_def vec_get_def split: option.splits)

lemma sym_remove [view_simps, simp]: "sym_at (remove_agent i n) = (sym_at n)(i := None)"
  by (auto simp: sym_at_def get_agent_remove fun_eq_iff)

lemma valid_port_remove [view_simps, simp]:
  "valid_port (remove_agent i n) j q \<longleftrightarrow> j \<noteq> i \<and> valid_port n j q"
  by (simp add: valid_port_def)

lemma tgt_remove [view_simps]:
  assumes inv: "core_inv n" and live: "live n i" and q: "q < 3"
  shows "tgt (remove_agent i n) j q =
    (if j = i \<or> (\<exists>p. tgt n j q = AgentPort i p) then DISCONNECTED else tgt n j q)"
proof -
  note D = core_invD [OF inv]
  obtain ag where ag: "get_agent n i = Some ag"
    using live by (auto simp: sym_at_def)
  let ?k = "total_ports (a_symbol ag)"
  have small: "\<forall>p \<in> set [0..<?k]. p < 3"
    using total_ports_le by (auto intro: less_le_trans)
  have valid: "valid_port n i p \<longleftrightarrow> p < ?k" for p
    using ag by (simp add: valid_port_def sym_at_def)
  have "tgt (remove_agent i n) j q = tgt (disconnect_ports i [0..<?k] n) j q"
    by (simp add: remove_agent_def ag Let_def)
  also have "\<dots> = (if j = i \<and> q < ?k \<or> (\<exists>p < ?k. tgt n j q = AgentPort i p)
      then DISCONNECTED else tgt n j q)"
    using tgt_disconnect_ports [OF D(3) small q] by (auto simp: Bex_def)
  also have "\<dots> = (if j = i \<or> (\<exists>p. tgt n j q = AgentPort i p) then DISCONNECTED else tgt n j q)"
  proof -
    have "p < ?k" if "tgt n j q = AgentPort i p" for p
      using tgt_valid(1) [OF inv q that] valid by simp
    moreover have "tgt n i q = DISCONNECTED" if "\<not> q < ?k"
      using that valid q D(2) by (auto simp: ports_clean_def)
    ultimately show ?thesis by auto
  qed
  finally show ?thesis .
qed

lemma core_inv_remove [inv_intros]:
  assumes inv: "core_inv n"
  shows "core_inv (remove_agent i n)"
proof (cases "live n i")
  case True
  note D = core_invD [OF inv]
  note view = tgt_remove [OF inv True]
  have "symmetric_wires (remove_agent i n)"
    unfolding symmetric_wires_def
  proof (intro allI impI)
    fix j q k r
    assume q: "q < 3" and t: "tgt (remove_agent i n) j q = AgentPort k r"
    then have t': "tgt n j q = AgentPort k r" "j \<noteq> i" "k \<noteq> i"
      by (auto simp: view split: if_splits)
    show "r < 3 \<and> tgt (remove_agent i n) k r = AgentPort j q \<and> (j, q) \<noteq> (k, r)"
      using symmetric_wiresD [OF D(3) q t'(1)] t'(2,3) by (simp add: view)
  qed
  moreover have "ports_clean (remove_agent i n)"
    using D(2) by (auto simp: ports_clean_def view)
  moreover have "slots_ok (remove_agent i n)"
    using D(1) by (auto simp: slots_ok_def get_agent_remove)
  moreover have "ids_below (remove_agent i n)"
    using D(4) by (auto simp: ids_below_def)
  moreover have "free_list_ok (remove_agent i n)"
    using D(4,5) True by (auto simp: free_list_ok_def remove_agent_free_list ids_below_def)
  ultimately show ?thesis
    by (simp add: core_inv_def)
qed (simp add: inv)

section \<open>Creating an agent\<close>

lemma rposition_Some:
  "rposition P xs = Some k \<Longrightarrow> k < length xs \<and> P (xs ! k)"
  by (induction xs arbitrary: k) (auto split: option.splits if_splits)

lemma rposition_None: "rposition P xs = None \<longleftrightarrow> (\<forall>x \<in> set xs. \<not> P x)"
  by (induction xs) (auto split: option.splits)

lemma vec_remove_distinct:
  assumes "distinct xs" "k < length xs"
  shows "distinct (vec_remove k xs)" "set (vec_remove k xs) = set xs - {xs ! k}"
proof -
  have split: "xs = take k xs @ xs ! k # drop (Suc k) xs"
    using assms(2) by (rule id_take_nth_drop)
  have d: "distinct (take k xs @ xs ! k # drop (Suc k) xs)"
    using assms(1) split by simp
  then show "distinct (vec_remove k xs)"
    by (simp add: vec_remove_def)
  have "set xs = set (take k xs) \<union> {xs ! k} \<union> set (drop (Suc k) xs)"
    by (subst split) auto
  with d show "set (vec_remove k xs) = set xs - {xs ! k}"
    by (auto simp: vec_remove_def)
qed

text \<open>
  Whatever the policy, the free-list loses exactly the identifier that is recycled; nothing is
  lost and nothing is duplicated.
\<close>

lemma pop_free_list_spec:
  assumes "distinct (free_list n)" "pop_free_list n = (r, fl)"
  shows "distinct fl"
    and "case r of None \<Rightarrow> set fl = set (free_list n)
         | Some i \<Rightarrow> i \<in> set (free_list n) \<and> set fl = set (free_list n) - {i}"
proof -
  define top rest where "top = last (free_list n)" and "rest = butlast (free_list n)"
  have "distinct fl \<and> (case r of None \<Rightarrow> set fl = set (free_list n)
         | Some i \<Rightarrow> i \<in> set (free_list n) \<and> set fl = set (free_list n) - {i})"
  proof (cases "free_list n = []")
    case False
    have rest: "distinct rest" "top \<notin> set rest" "set (free_list n) = insert top (set rest)"
      using assms(1) False distinct_butlast_last set_butlast_insert
      by (auto simp: top_def rest_def distinct_butlast)
    have pick: "distinct (vec_remove k rest @ [top])" "rest ! k \<in> set rest"
      "set (vec_remove k rest @ [top]) = set (free_list n) - {rest ! k}"
      if "k < length rest" for k
      using that rest vec_remove_distinct [OF rest(1) that] nth_mem [OF that] by auto
    show ?thesis
      using assms rest pick False
      by (auto simp: pop_free_list_def Let_def top_def [symmetric] rest_def [symmetric]
          split: if_splits option.splits dest!: rposition_Some)
  qed (use assms in \<open>auto simp: pop_free_list_def split: if_splits\<close>)
  then show "distinct fl" and "case r of None \<Rightarrow> set fl = set (free_list n)
         | Some i \<Rightarrow> i \<in> set (free_list n) \<and> set fl = set (free_list n) - {i}"
    by auto
qed

text \<open>Placing an agent in a slot of a grown arena.\<close>

lemma get_agent_place:
  "get_agent (n\<lparr>agents := (vec_grow (i + 1) None (agents n))[i := Some ag]\<rparr>) j =
     (if j = i then Some ag else get_agent n j)"
  by (auto simp: get_agent_def vec_get_grow) (auto simp: vec_get_def)

lemma get_agent_more [simp]:
  "get_agent (n\<lparr>next_id := k\<rparr>) = get_agent n" "get_agent (n\<lparr>free_list := fl\<rparr>) = get_agent n"
  "get_agent (n\<lparr>ports := ps\<rparr>) = get_agent n" "get_agent (n\<lparr>redex_queue := q\<rparr>) = get_agent n"
  "get_agent (n\<lparr>freeport_redirects := r\<rparr>) = get_agent n"
  "get_agent (n\<lparr>root := rt\<rparr>) = get_agent n"
  by (simp_all add: get_agent_def fun_eq_iff)

lemma tgt_grow [simp]: "tgt (n\<lparr>ports := vec_grow k DISCONNECTED (ports n)\<rparr>) = tgt n"
  by (auto simp: tgt_def get_target_def Let_def fun_eq_iff nth_vec_grow)

lemma tgt_clear_slot:
  assumes "q < 3"
  shows "tgt (n\<lparr>ports := (ports n)[i * PORTS_PER_SLOT := DISCONNECTED,
      i * PORTS_PER_SLOT + 1 := DISCONNECTED, i * PORTS_PER_SLOT + 2 := DISCONNECTED]\<rparr>) j q =
    (if j = i then DISCONNECTED else tgt n j q)"
proof -
  have hit: "port_index j q \<in> {i * PORTS_PER_SLOT, i * PORTS_PER_SLOT + 1, i * PORTS_PER_SLOT + 2}
    \<longleftrightarrow> j = i"
    using assms unfolding port_index_def PORTS_PER_SLOT_def by auto
  show ?thesis
    using hit by (auto simp: tgt_def get_target_def Let_def nth_list_update)
qed

lemma sym_at_place:
  "sym_at (n\<lparr>agents := (vec_grow (i + 1) None (agents n))[i := Some \<lparr>a_symbol = s, a_id = i\<rparr>]\<rparr>) =
     (sym_at n)(i \<mapsto> s)"
  by (rule ext) (simp only: sym_at_def get_agent_place, simp add: sym_at_def)

lemma reinit_slot_view:
  assumes "q < 3"
  shows "sym_at (reinit_slot i s n) = (sym_at n)(i \<mapsto> s)"
    and "tgt (reinit_slot i s n) j q = (if j = i then DISCONNECTED else tgt n j q)"
    and "get_agent (reinit_slot i s n) j =
           (if j = i then Some \<lparr>a_symbol = s, a_id = i\<rparr> else get_agent n j)"
proof -
  let ?m = "n\<lparr>agents := (vec_grow (i + 1) None (agents n))[i := Some \<lparr>a_symbol = s, a_id = i\<rparr>],
    ports := vec_grow ((i + 1) * PORTS_PER_SLOT) DISCONNECTED (ports n)\<rparr>"
  have "tgt ?m = tgt n"
    using tgt_grow [where n = "n\<lparr>agents := _\<rparr>"] by simp
  then show "tgt (reinit_slot i s n) j q = (if j = i then DISCONNECTED else tgt n j q)"
    using tgt_clear_slot [OF assms, of ?m] by (simp add: reinit_slot_def Let_def)
qed (simp_all only: reinit_slot_def Let_def sym_update get_agent_more sym_at_place get_agent_place)

lemma reinit_slot_frame [simp]:
  "redex_queue (reinit_slot i s n) = redex_queue n" "next_id (reinit_slot i s n) = next_id n"
  "root (reinit_slot i s n) = root n" "free_list (reinit_slot i s n) = free_list n"
  "border_entries_shadow (reinit_slot i s n) = border_entries_shadow n"
  "recycle_policy (reinit_slot i s n) = recycle_policy n"
  "is_in_delta_round (reinit_slot i s n) = is_in_delta_round n"
  "streaming_active (reinit_slot i s n) = streaming_active n"
  "freeport_redirects (reinit_slot i s n) = freeport_redirects n"
  "length (agents (reinit_slot i s n)) = max (i + 1) (length (agents n))"
  "length (ports (reinit_slot i s n)) = max ((i + 1) * PORTS_PER_SLOT) (length (ports n))"
  by (simp_all add: reinit_slot_def Let_def)

text \<open>Both paths of \<open>create_agent\<close> seen at once: the slot was dead, and only it changes.\<close>

lemma core_inv_place:
  assumes inv: "core_inv n" and dead: "\<not> live n i"
    and syms: "sym_at m = (sym_at n)(i \<mapsto> s)"
    and tgts: "\<And>j q. q < 3 \<Longrightarrow> tgt m j q = tgt n j q"
    and ags: "\<And>j. get_agent m j =
      (if j = i then Some \<lparr>a_symbol = s, a_id = i\<rparr> else get_agent n j)"
    and lens: "3 * length (agents m) \<le> length (ports m)"
    and nid: "i < next_id m" "next_id n \<le> next_id m" "next_id m \<le> u32_MAX"
    and fl: "distinct (free_list m)" "set (free_list m) \<subseteq> set (free_list n) - {i}"
  shows "core_inv m"
proof -
  note D = core_invD [OF inv]
  have "symmetric_wires m"
    unfolding symmetric_wires_def
  proof (intro allI impI)
    fix j p k q
    assume p: "p < 3" and t: "tgt m j p = AgentPort k q"
    have "tgt n j p = AgentPort k q"
      using t tgts [OF p] by simp
    note old = symmetric_wiresD [OF D(3) p this]
    show "q < 3 \<and> tgt m k q = AgentPort j p \<and> (j, p) \<noteq> (k, q)"
      using old tgts [OF old(1)] by simp
  qed
  moreover have "ports_clean m"
    using D(2) dead tgts by (auto simp: ports_clean_def valid_port_def syms)
  moreover have "slots_ok m"
    using D(1) ags lens by (auto simp: slots_ok_def)
  moreover have "ids_below m"
  proof -
    have "j < next_id m" if "live m j" for j
    proof (cases "j = i")
      case False
      then have "j < next_id n"
        using that D(4) by (simp add: ids_below_def syms)
      then show ?thesis
        using nid(2) by simp
    qed (simp add: nid(1))
    then show ?thesis
      using nid(3) by (simp add: ids_below_def)
  qed
  moreover have "free_list_ok m"
    using D(5) fl nid by (fastforce simp: free_list_ok_def syms)
  ultimately show ?thesis
    by (simp add: core_inv_def)
qed

lemma create_agent_cases:
  assumes inv: "core_inv n" and ret: "create_agent s n = Some (i, m)"
  obtains (recycled) fl where "pop_free_list n = (Some i, fl)"
      "m = reinit_slot i s (n\<lparr>free_list := fl\<rparr>)" "i \<in> set (free_list n)"
      "distinct fl" "set fl = set (free_list n) - {i}"
  | (fresh) fl where "pop_free_list n = (None, fl)" "i = next_id n" "next_id n < u32_MAX"
      "alloc_fresh s (n\<lparr>free_list := fl\<rparr>) = Some (i, m)"
      "distinct fl" "set fl = set (free_list n)"
proof (cases "pop_free_list n")
  case (Pair r fl)
  note pop = pop_free_list_spec [OF _ Pair]
  have fl: "distinct (free_list n)"
    using core_invD(5) [OF inv] by (simp add: free_list_ok_def)
  show thesis
  proof (cases r)
    case None
    then show thesis
      using ret Pair pop [OF fl]
      by (intro fresh [of fl]) (auto simp: create_agent_def alloc_fresh_def Let_def split: if_splits)
  next
    case (Some k)
    then show thesis
      using ret Pair pop [OF fl] by (intro recycled [of fl]) (auto simp: create_agent_def)
  qed
qed

lemma create_agent_spec:
  assumes inv: "core_inv n" and ret: "create_agent s n = Some (i, m)"
  shows "\<not> live n i" "sym_at m = (sym_at n)(i \<mapsto> s)" "\<And>j q. q < 3 \<Longrightarrow> tgt m j q = tgt n j q"
    "redex_queue m = redex_queue n" "root m = root n" "core_inv m"
    "next_id n \<le> next_id m" "next_id m \<le> Suc (next_id n)"
proof -
  note D = core_invD [OF inv]
  have slots: "3 * length (agents n) \<le> length (ports n)"
    using D(1) by (simp add: slots_ok_def)
  have "\<not> live n i \<and> sym_at m = (sym_at n)(i \<mapsto> s) \<and> (\<forall>j q. q < 3 \<longrightarrow> tgt m j q = tgt n j q)
    \<and> redex_queue m = redex_queue n \<and> root m = root n \<and> core_inv m
    \<and> next_id n \<le> next_id m \<and> next_id m \<le> Suc (next_id n)"
    using inv ret
  proof (cases rule: create_agent_cases)
    case (recycled fl)
    have dead: "\<not> live n i" "i < next_id n"
      using recycled(3) D(5) by (auto simp: free_list_ok_def)
    have same: "tgt m j q = tgt n j q" if "q < 3" for j q
    proof -
      have "tgt n i q = DISCONNECTED"
        using dead(1) that D(2) by (auto simp: ports_clean_def dest: valid_port_live)
      then show ?thesis
        using reinit_slot_view(2) [OF that] by (simp add: recycled(2))
    qed
    have syms: "sym_at m = (sym_at n)(i \<mapsto> s)"
      using reinit_slot_view(1) [of 0 i s "n\<lparr>free_list := fl\<rparr>"] by (simp add: recycled(2))
    have ags: "get_agent m j = (if j = i then Some \<lparr>a_symbol = s, a_id = i\<rparr> else get_agent n j)" for j
      using reinit_slot_view(3) [of 0 i s "n\<lparr>free_list := fl\<rparr>"] by (simp add: recycled(2))
    have "core_inv m"
      using dead recycled slots D(4)
      by (intro core_inv_place [OF inv dead(1) syms same ags])
        (auto simp: PORTS_PER_SLOT_def ids_below_def max_def)
    then show ?thesis
      using dead syms same by (simp add: recycled(2))
  next
    case (fresh fl)
    let ?m = "n\<lparr>agents := (vec_grow (i + 1) None (agents n))[i := Some \<lparr>a_symbol = s, a_id = i\<rparr>],
      ports := vec_grow ((i + 1) * PORTS_PER_SLOT) DISCONNECTED (ports n)\<rparr>"
    have m: "m = ?m\<lparr>next_id := i + 1, free_list := fl\<rparr>"
      using fresh(2-4) by (intro net.equality) (auto simp: alloc_fresh_def Let_def)
    have dead: "\<not> live n i"
      using fresh(2) D(4) by (auto simp: ids_below_def)
    have same: "tgt m = tgt n"
      using tgt_grow [where n = "n\<lparr>agents := _\<rparr>"] by (simp add: m)
    have syms: "sym_at m = (sym_at n)(i \<mapsto> s)"
      using sym_at_place [where n = n and i = i and s = s] by (simp add: m)
    have ags: "get_agent m j = (if j = i then Some \<lparr>a_symbol = s, a_id = i\<rparr> else get_agent n j)" for j
      using get_agent_place [where n = n and i = i] by (simp add: m)
    have nofl: "i \<notin> set (free_list n)"
      using fresh(2) D(5) by (auto simp: free_list_ok_def)
    have "core_inv m"
      using dead fresh slots same nofl
      by (intro core_inv_place [OF inv dead syms _ ags]) (auto simp: PORTS_PER_SLOT_def m max_def)
    then show ?thesis
      using dead syms same fresh(2) by (simp add: m)
  qed
  then show "\<not> live n i" "sym_at m = (sym_at n)(i \<mapsto> s)" "\<And>j q. q < 3 \<Longrightarrow> tgt m j q = tgt n j q"
    "redex_queue m = redex_queue n" "root m = root n" "core_inv m"
    "next_id n \<le> next_id m" "next_id m \<le> Suc (next_id n)"
    by blast+
qed

text \<open>The only way to fail is exhaustion of the identifier space.\<close>

lemma create_agent_total:
  assumes "next_id n < u32_MAX"
  shows "\<exists>i m. create_agent s n = Some (i, m)"
proof (cases "pop_free_list n")
  case (Pair r fl)
  then show ?thesis
    using assms by (cases r) (auto simp: create_agent_def alloc_fresh_def Let_def)
qed

end
