(* ===== verification/Rules.thy ===== *)
theory Rules
  imports Net_View
begin

text \<open>
  The interaction rules (\<open>reduction/rules.rs\<close>): \<open>link\<close> and the four rule functions, and the exact
  wiring each of them leaves behind.  A rule removes the two agents of an active pair, creates up to
  four new ones and joins the dangling neighbours; \<open>link_all\<close> captures the last phase once for all
  rules.  Rule functions that create agents return \<open>None\<close> when the identifier space is exhausted.
\<close>

section \<open>The rule functions\<close>

fun is_removed :: "net \<Rightarrow> port_ref \<Rightarrow> bool" where
  "is_removed n (AgentPort i p) \<longleftrightarrow> get_agent n i = None"
| "is_removed n (FreePort f) \<longleftrightarrow> False"

definition link :: "port_ref \<Rightarrow> port_ref \<Rightarrow> net \<Rightarrow> net" where
  "link a b n = (if is_removed n a \<or> is_removed n b then n else connect a b n)"

definition self_loop :: "net \<Rightarrow> agent_id \<Rightarrow> bool" where
  "self_loop n i \<longleftrightarrow>
     get_target n (AgentPort i 1) = AgentPort i 2 \<and> get_target n (AgentPort i 2) = AgentPort i 1"

definition interact_void :: "agent_id \<Rightarrow> agent_id \<Rightarrow> net \<Rightarrow> net" where
  "interact_void a b n = remove_agent b (remove_agent a n)"

definition interact_anni :: "agent_id \<Rightarrow> agent_id \<Rightarrow> net \<Rightarrow> net option" where
  "interact_anni a b n =
     (case get_agent n a of
        None \<Rightarrow> None
      | Some ag \<Rightarrow>
          (let a1 = get_target n (AgentPort a 1);
               a2 = get_target n (AgentPort a 2);
               b1 = get_target n (AgentPort b 1);
               b2 = get_target n (AgentPort b 2);
               a_self_loop = self_loop n a;
               b_self_loop = self_loop n b;
               n2 = remove_agent b (remove_agent a n)
           in if a_self_loop \<and> b_self_loop then Some n2
              else if b_self_loop then Some (link a1 a2 n2)
              else if a_self_loop then Some (link b1 b2 n2)
              else (case a_symbol ag of
                      Con \<Rightarrow> Some (link a2 b1 (link a1 b2 n2))
                    | Dup \<Rightarrow> Some (link a2 b2 (link a1 b1 n2))
                    | Era \<Rightarrow> None)))"

definition interact_eras :: "agent_id \<Rightarrow> agent_id \<Rightarrow> net \<Rightarrow> net option" where
  "interact_eras node_id era_id n =
     (let a1 = get_target n (AgentPort node_id 1);
          a2 = get_target n (AgentPort node_id 2);
          n2 = remove_agent era_id (remove_agent node_id n)
      in if self_loop n node_id then Some n2
         else do {
           (e1, n3) \<leftarrow> create_agent Era n2;
           (e2, n4) \<leftarrow> create_agent Era n3;
           Some (link (AgentPort e2 0) a2 (link (AgentPort e1 0) a1 n4))
         })"

definition interact_comm :: "agent_id \<Rightarrow> agent_id \<Rightarrow> net \<Rightarrow> net option" where
  "interact_comm con_id dup_id n =
     (let a1 = get_target n (AgentPort con_id 1);
          a2 = get_target n (AgentPort con_id 2);
          b1 = get_target n (AgentPort dup_id 1);
          b2 = get_target n (AgentPort dup_id 2);
          con_self_loop = self_loop n con_id;
          dup_self_loop = self_loop n dup_id;
          n2 = remove_agent dup_id (remove_agent con_id n)
      in if con_self_loop \<and> dup_self_loop then Some n2
         else if con_self_loop then do {
           (r, n3) \<leftarrow> create_agent Con n2;
           (s, n4) \<leftarrow> create_agent Con n3;
           let n5 = connect (AgentPort r 1) (AgentPort r 2) n4;
           let n6 = connect (AgentPort s 1) (AgentPort s 2) n5;
           Some (link (AgentPort s 0) b2 (link (AgentPort r 0) b1 n6))
         }
         else if dup_self_loop then do {
           (p, n3) \<leftarrow> create_agent Dup n2;
           (q, n4) \<leftarrow> create_agent Dup n3;
           let n5 = connect (AgentPort p 1) (AgentPort p 2) n4;
           let n6 = connect (AgentPort q 1) (AgentPort q 2) n5;
           Some (link (AgentPort q 0) a2 (link (AgentPort p 0) a1 n6))
         }
         else do {
           (p, n3) \<leftarrow> create_agent Dup n2;
           (q, n4) \<leftarrow> create_agent Dup n3;
           (r, n5) \<leftarrow> create_agent Con n4;
           (s, n6) \<leftarrow> create_agent Con n5;
           let n7 = link (AgentPort p 0) a1 n6;
           let n8 = link (AgentPort q 0) a2 n7;
           let n9 = link (AgentPort r 0) b1 n8;
           let n10 = link (AgentPort s 0) b2 n9;
           let n11 = connect (AgentPort p 1) (AgentPort r 1) n10;
           let n12 = connect (AgentPort p 2) (AgentPort s 1) n11;
           let n13 = connect (AgentPort q 1) (AgentPort r 2) n12;
           Some (connect (AgentPort q 2) (AgentPort s 2) n13)
         })"

section \<open>Joining open ends\<close>

text \<open>
  The last phase of every rule is a sequence of new wires between pairwise different open ends.
  Its effect on the view is a lookup in the list of wires.
\<close>

fun link_all :: "(port_ref \<times> port_ref) list \<Rightarrow> net \<Rightarrow> net" where
  "link_all [] n = n"
| "link_all ((x, y) # ws) n = link_all ws (link x y n)"

fun other_end :: "(port_ref \<times> port_ref) list \<Rightarrow> port_ref \<Rightarrow> port_ref option" where
  "other_end [] x = None"
| "other_end ((u, v) # ws) x =
     (if v = x then Some u else if u = x then Some v else other_end ws x)"

fun agent_ends :: "(port_ref \<times> port_ref) list \<Rightarrow> port_ref list" where
  "agent_ends [] = []"
| "agent_ends ((u, v) # ws) =
     (case u of AgentPort i p \<Rightarrow> [u] | _ \<Rightarrow> []) @
     (case v of AgentPort i p \<Rightarrow> [v] | _ \<Rightarrow> []) @ agent_ends ws"

definition joinable :: "(port_ref \<times> port_ref) list \<Rightarrow> net \<Rightarrow> bool" where
  "joinable ws n \<longleftrightarrow> distinct (agent_ends ws) \<and> (\<forall>x \<in> set (agent_ends ws). open_end n x)"

lemma open_end_live: "open_end n x \<Longrightarrow> \<not> is_removed n x"
  by (cases x) (auto simp: sym_at_def dest!: valid_port_live)

lemma link_open [simp]: "open_end n x \<Longrightarrow> open_end n y \<Longrightarrow> link x y n = connect x y n"
  by (simp add: link_def open_end_live)

lemma agent_ends_agent: "FreePort f \<notin> set (agent_ends ws)"
  by (induction ws rule: agent_ends.induct) (auto split: port_ref.splits)

lemma joinable_Cons:
  assumes "joinable ((x, y) # ws) n"
  shows "open_end n x" "open_end n y" "\<And>i p. x = AgentPort i p \<Longrightarrow> y \<noteq> AgentPort i p"
    "joinable ws n" "x \<notin> set (agent_ends ws)" "y \<notin> set (agent_ends ws)"
  using assms by (cases x; cases y; force simp: joinable_def agent_ends_agent)+

lemma other_end_None: "AgentPort j q \<notin> set (agent_ends ws) \<Longrightarrow> other_end ws (AgentPort j q) = None"
  by (induction ws rule: agent_ends.induct) (auto split: port_ref.splits if_splits)

lemma joinable_connect:
  assumes "core_inv n" "joinable ((x, y) # ws) n"
  shows "joinable ws (connect x y n)"
proof -
  note J = joinable_Cons [OF assms(2)]
  have "open_end (connect x y n) z" if z: "z \<in> set (agent_ends ws)" for z
  proof (cases z)
    case (AgentPort i p)
    have "open_end n z" "z \<noteq> x" "z \<noteq> y"
      using z J(4-6) by (auto simp: joinable_def)
    then show ?thesis
      using tgt_connect_open [OF core_invD(1) [OF assms(1)] J(1,2)]
      by (auto simp: AgentPort dest: valid_port_less)
  qed simp
  then show ?thesis
    using J(4) by (simp add: joinable_def)
qed

lemma link_all_conj:
  assumes "core_inv n" "joinable ws n"
  shows "core_inv (link_all ws n) \<and> sym_at (link_all ws n) = sym_at n \<and>
    redex_queue (link_all ws n) = redex_queue n @ concat (map (\<lambda>(x, y). new_redexes x y) ws) \<and>
    root (link_all ws n) = root n \<and> next_id (link_all ws n) = next_id n \<and>
    (\<forall>j q. q < 3 \<longrightarrow> tgt (link_all ws n) j q =
       (case other_end ws (AgentPort j q) of Some t \<Rightarrow> t | None \<Rightarrow> tgt n j q))"
  using assms
proof (induction ws arbitrary: n)
  case (Cons w ws)
  obtain x y where w: "w = (x, y)"
    by (cases w)
  note J = joinable_Cons [OF Cons.prems(2) [unfolded w]]
  have core: "core_inv (connect x y n)"
    using Cons.prems(1) J(1-3) by (rule core_inv_connect)
  note IH = Cons.IH [OF core joinable_connect [OF Cons.prems [unfolded w]]]
  have "x = AgentPort j q \<or> y = AgentPort j q \<Longrightarrow> other_end ws (AgentPort j q) = None" for j q
    using J(5,6) other_end_None by blast
  then show ?case
    using IH J(1,2) tgt_connect_open [OF core_invD(1) [OF Cons.prems(1)] J(1,2)]
    by (auto simp: w split: option.splits)
qed simp

lemma link_all_view:
  assumes "core_inv n" "joinable ws n"
  shows "core_inv (link_all ws n)" "sym_at (link_all ws n) = sym_at n"
    "redex_queue (link_all ws n) = redex_queue n @ concat (map (\<lambda>(x, y). new_redexes x y) ws)"
    "root (link_all ws n) = root n" "next_id (link_all ws n) = next_id n"
    "\<And>j q. q < 3 \<Longrightarrow> tgt (link_all ws n) j q =
       (case other_end ws (AgentPort j q) of Some t \<Rightarrow> t | None \<Rightarrow> tgt n j q)"
  using link_all_conj [OF assms] by simp_all


section \<open>Removing the pair, creating the new agents\<close>

definition active_pair :: "net \<Rightarrow> agent_id \<Rightarrow> agent_id \<Rightarrow> bool" where
  "active_pair n a b \<longleftrightarrow> tgt n a 0 = AgentPort b 0"

text \<open>
  An auxiliary port of one agent of the pair wired to an auxiliary port of the other.  The rule
  functions handle a loop inside one agent, but not this configuration.
\<close>

definition no_cross :: "net \<Rightarrow> agent_id \<Rightarrow> agent_id \<Rightarrow> bool" where
  "no_cross n a b \<longleftrightarrow>
     list_all (\<lambda>p. list_all (\<lambda>q. tgt n a p \<noteq> AgentPort b q) [1, 2]) [1, 2]"

fun owner_in :: "agent_id set \<Rightarrow> port_ref \<Rightarrow> bool" where
  "owner_in X (AgentPort i p) \<longleftrightarrow> i \<in> X"
| "owner_in X (FreePort f) \<longleftrightarrow> False"

lemma active_pairD:
  assumes "core_inv n" "active_pair n a b"
  shows "live n a" "live n b" "a \<noteq> b" "tgt n a 0 = AgentPort b 0" "tgt n b 0 = AgentPort a 0"
    "active_pair n b a"
proof -
  have t: "tgt n a 0 = AgentPort b 0"
    using assms(2) by (simp add: active_pair_def)
  note wires = symmetric_wiresD [OF core_invD(3) [OF assms(1)] _ t]
  show "live n a" "live n b"
    using tgt_valid [OF assms(1) _ t] by (auto dest: valid_port_live)
  show "a \<noteq> b" "tgt n a 0 = AgentPort b 0" "tgt n b 0 = AgentPort a 0" "active_pair n b a"
    using wires t by (auto simp: active_pair_def)
qed

lemma remove_pair_view:
  assumes inv: "core_inv n" and live: "live n a" "live n b" and neq: "a \<noteq> b"
  defines "m \<equiv> remove_agent b (remove_agent a n)"
  shows "core_inv m" "sym_at m = (sym_at n)(a := None, b := None)"
    "\<And>j q. q < 3 \<Longrightarrow> tgt m j q =
       (if j \<in> {a, b} \<or> owner_in {a, b} (tgt n j q) then DISCONNECTED else tgt n j q)"
    "redex_queue m = redex_queue n" "root m = root n" "next_id m = next_id n"
proof -
  have inv1: "core_inv (remove_agent a n)" and live1: "live (remove_agent a n) b"
    using inv live neq by (simp_all add: core_inv_remove)
  show "core_inv m"
    unfolding m_def using inv1 by (rule core_inv_remove)
  show "tgt m j q = (if j \<in> {a, b} \<or> owner_in {a, b} (tgt n j q) then DISCONNECTED else tgt n j q)"
    if "q < 3" for j q
    using tgt_remove [OF inv1 live1 that] tgt_remove [OF inv live(1) that]
    by (cases "tgt n j q") (auto simp: m_def)
qed (auto simp: m_def)

text \<open>The new agents of a rule, in the order the rule creates them.\<close>

fun create_agents :: "symbol list \<Rightarrow> net \<Rightarrow> (agent_id list \<times> net) option" where
  "create_agents [] n = Some ([], n)"
| "create_agents (s # ss) n =
     do { (i, n1) \<leftarrow> create_agent s n; (is, n2) \<leftarrow> create_agents ss n1; Some (i # is, n2) }"

lemma create_agents_conj:
  assumes "core_inv n" "create_agents ss n = Some (is, m)"
  shows "length is = length ss \<and> distinct is \<and> (\<forall>i \<in> set is. \<not> live n i) \<and>
    sym_at m = (sym_at n)(is [\<mapsto>] ss) \<and> (\<forall>j q. q < 3 \<longrightarrow> tgt m j q = tgt n j q) \<and>
    redex_queue m = redex_queue n \<and> root m = root n \<and> core_inv m \<and>
    next_id n \<le> next_id m \<and> next_id m \<le> next_id n + length ss"
  using assms
proof (induction ss arbitrary: n "is")
  case (Cons s ss)
  obtain i n1 is' where 1: "create_agent s n = Some (i, n1)"
    and 2: "create_agents ss n1 = Some (is', m)" and ids: "is = i # is'"
    using Cons.prems(2) by (auto dest!: bind_eq_SomeD)
  note spec = create_agent_spec [OF Cons.prems(1) 1]
  have "i \<notin> set is'"
    using Cons.IH [OF spec(6) 2] spec(2) by auto
  moreover have "\<forall>k \<in> set is'. \<not> live n k"
    using Cons.IH [OF spec(6) 2] spec(2) by (auto split: if_splits)
  moreover have "sym_at m = (sym_at n)(is [\<mapsto>] (s # ss))"
    using Cons.IH [OF spec(6) 2] unfolding ids spec(2) map_upds_Cons by blast
  ultimately show ?case
    using Cons.IH [OF spec(6) 2] spec(1,3-) by (simp add: ids)
qed simp

lemma create_agents_view:
  assumes "core_inv n" "create_agents ss n = Some (is, m)"
  shows "length is = length ss" "distinct is" "\<forall>i \<in> set is. \<not> live n i"
    "sym_at m = (sym_at n)(is [\<mapsto>] ss)" "\<And>j q. q < 3 \<Longrightarrow> tgt m j q = tgt n j q"
    "redex_queue m = redex_queue n" "root m = root n" "core_inv m"
    "next_id n \<le> next_id m" "next_id m \<le> next_id n + length ss"
  using create_agents_conj [OF assms] by simp_all

lemma create_agents_total:
  assumes "core_inv n" "next_id n + length ss \<le> u32_MAX"
  shows "\<exists>is m. create_agents ss n = Some (is, m)"
  using assms
proof (induction ss arbitrary: n)
  case (Cons s ss)
  obtain i n1 where 1: "create_agent s n = Some (i, n1)"
    using create_agent_total [of n s] Cons.prems(2) by auto
  note spec = create_agent_spec [OF Cons.prems(1) 1]
  have "next_id n1 + length ss \<le> u32_MAX"
    using spec(8) Cons.prems(2) by simp
  then show ?case
    using Cons.IH [OF spec(6)] 1 by auto
qed simp

section \<open>The three phases together\<close>

text \<open>
  What a rule leaves behind, given the agents it creates and the wires it adds: a port that was
  wired to the pair either appears in a new wire or dangles; every other port is untouched.
\<close>

definition rewired ::
  "net \<Rightarrow> agent_id \<Rightarrow> agent_id \<Rightarrow> agent_id list \<Rightarrow> symbol list \<Rightarrow> (port_ref \<times> port_ref) list \<Rightarrow> net \<Rightarrow> bool"
  where
  "rewired n a b is ss ws m \<longleftrightarrow>
     core_inv m \<and> distinct is \<and> length is = length ss \<and> (\<forall>i \<in> set is. live n i \<longrightarrow> i \<in> {a, b}) \<and>
     sym_at m = ((sym_at n)(a := None, b := None))(is [\<mapsto>] ss) \<and>
     (\<forall>j q. q < 3 \<longrightarrow> tgt m j q =
        (case other_end ws (AgentPort j q) of
           Some t \<Rightarrow> t
         | None \<Rightarrow> if j \<in> {a, b} \<or> owner_in {a, b} (tgt n j q) then DISCONNECTED else tgt n j q)) \<and>
     redex_queue m = redex_queue n @ concat (map (\<lambda>(x, y). new_redexes x y) ws) \<and>
     root m = root n \<and> next_id n \<le> next_id m \<and> next_id m \<le> next_id n + length ss"

fun is_agent :: "port_ref \<Rightarrow> bool" where
  "is_agent (AgentPort i p) \<longleftrightarrow> True"
| "is_agent (FreePort f) \<longleftrightarrow> False"

fun all_ends :: "(port_ref \<times> port_ref) list \<Rightarrow> port_ref list" where
  "all_ends [] = []"
| "all_ends ((u, v) # ws) = u # v # all_ends ws"

text \<open>Two ends of different wires: not the same agent port (free ports may repeat).\<close>

definition apart :: "port_ref \<Rightarrow> port_ref \<Rightarrow> bool" where
  "apart x y \<longleftrightarrow> (x = y \<longrightarrow> \<not> is_agent x)"

lemma apart_simps [simp]:
  "apart (AgentPort i p) y \<longleftrightarrow> y \<noteq> AgentPort i p"
  "apart x (AgentPort i p) \<longleftrightarrow> x \<noteq> AgentPort i p"
  by (auto simp: apart_def)

lemma agent_ends_filter: "agent_ends ws = filter is_agent (all_ends ws)"
  by (induction ws rule: all_ends.induct) (auto split: port_ref.splits)

lemma distinct_filter_iff:
  "distinct (filter is_agent xs) \<longleftrightarrow> sorted_wrt apart xs"
  by (induction xs) (auto simp: apart_def)

lemma joinableI:
  assumes "sorted_wrt apart (all_ends ws)"
    and "\<forall>x \<in> set (all_ends ws). open_end n x"
  shows "joinable ws n"
  using assms by (simp add: joinable_def agent_ends_filter distinct_filter_iff)

lemma tgt_inj:
  assumes "core_inv n" "p < 3" "q < 3" "tgt n c p = tgt n d q" "is_agent (tgt n c p)"
  shows "c = d \<and> p = q"
proof (cases "tgt n c p")
  case (AgentPort j r)
  then have "tgt n d q = AgentPort j r"
    using assms(4) by simp
  note both = symmetric_wiresD(2) [OF core_invD(3) [OF assms(1)] assms(3) this]
    symmetric_wiresD(2) [OF core_invD(3) [OF assms(1)] assms(2) AgentPort]
  then show ?thesis
    by simp
qed (use assms(5) in simp)

lemma neighbour:
  assumes "core_inv n" "p < 3" "tgt n c p = AgentPort j q"
  shows "valid_port n j q" "tgt n j q = AgentPort c p" "q < 3"
  using tgt_valid [OF assms] symmetric_wiresD [OF core_invD(3) [OF assms(1)] assms(2,3)] by simp_all

lemma rewrite_stage:
  assumes inv: "core_inv n" and pair: "active_pair n a b"
    and new: "create_agents ss (remove_agent b (remove_agent a n)) = Some (is, m)"
  shows "core_inv m" "length is = length ss" "distinct is" "\<forall>i \<in> set is. live n i \<longrightarrow> i \<in> {a, b}"
    "sym_at m = ((sym_at n)(a := None, b := None))(is [\<mapsto>] ss)"
    "\<And>j q. q < 3 \<Longrightarrow> tgt m j q =
       (if j \<in> {a, b} \<or> owner_in {a, b} (tgt n j q) then DISCONNECTED else tgt n j q)"
    "redex_queue m = redex_queue n" "root m = root n"
    "next_id n \<le> next_id m" "next_id m \<le> next_id n + length ss"
proof -
  note P = active_pairD [OF inv pair]
  note R = remove_pair_view [OF inv P(1-3)]
  note C = create_agents_view [OF R(1) new]
  show "\<forall>i \<in> set is. live n i \<longrightarrow> i \<in> {a, b}"
    using C(3) by (auto simp: R(2) split: if_splits)
  show "sym_at m = ((sym_at n)(a := None, b := None))(is [\<mapsto>] ss)"
    using C(4) by (simp only: R(2))
qed (use create_agents_view [OF remove_pair_view(1) [OF inv active_pairD(1-3) [OF inv pair]] new]
      remove_pair_view [OF inv active_pairD(1-3) [OF inv pair]] in simp_all)

lemma open_new:
  assumes inv: "core_inv n" and pair: "active_pair n a b"
    and new: "create_agents ss (remove_agent b (remove_agent a n)) = Some (is, m)"
    and k: "k < length ss" and p: "p < total_ports (ss ! k)"
  shows "open_end m (AgentPort (is ! k) p)"
proof -
  note P = active_pairD [OF inv pair]
  note R = remove_pair_view [OF inv P(1-3)]
  note C = create_agents_view [OF R(1) new]
  have p3: "p < 3"
    using p total_ports_le by (rule less_le_trans)
  have "sym_at m (is ! k) = Some (ss ! k)"
    using C(1,2) k by (simp only: C(4)) (rule map_upds_nth, simp_all)
  moreover have "tgt m (is ! k) p = DISCONNECTED"
  proof -
    have "\<not> live (remove_agent b (remove_agent a n)) (is ! k)"
      using C(1,3) k nth_mem by metis
    then have "tgt (remove_agent b (remove_agent a n)) (is ! k) p = DISCONNECTED"
      using R(1) p3 by (intro dead_tgt)
    then show ?thesis
      using C(5) [OF p3] by simp
  qed
  ultimately show ?thesis
    using p by (simp add: valid_port_def)
qed

lemma open_neighbour:
  assumes inv: "core_inv n" and pair: "active_pair n a b"
    and new: "create_agents ss (remove_agent b (remove_agent a n)) = Some (is, m)"
    and c: "c \<in> {a, b}" "p < 3" "\<not> owner_in {a, b} (tgt n c p)"
  shows "open_end m (tgt n c p)" "\<And>i r. i \<in> set is \<Longrightarrow> tgt n c p \<noteq> AgentPort i r"
    "\<And>i r. i \<in> set is \<Longrightarrow> AgentPort i r \<noteq> tgt n c p"
proof -
  note S = rewrite_stage [OF inv pair new]
  show neq: "tgt n c p \<noteq> AgentPort i r" if "i \<in> set is" for i r
    using neighbour(1) [OF inv c(2)] S(4) that c(3) by (fastforce dest: valid_port_live)
  then show "AgentPort i r \<noteq> tgt n c p" if "i \<in> set is" for i r
    using that by metis
  show "open_end m (tgt n c p)"
  proof (cases "tgt n c p")
    case (AgentPort j q)
    note N = neighbour [OF inv c(2) AgentPort]
    have "j \<notin> {a, b}" "j \<notin> set is"
      using c(3) AgentPort neq by auto
    then have "valid_port m j q" "tgt m j q = DISCONNECTED"
      using N S(2) S(6) [OF N(3)] c(1)
      by (auto simp: valid_port_def S(5) map_upds_apply_nontin)
    then show ?thesis
      by (simp add: AgentPort)
  qed simp
qed

lemma rewiredI:
  assumes inv: "core_inv n" and pair: "active_pair n a b"
    and new: "create_agents ss (remove_agent b (remove_agent a n)) = Some (is, m)"
    and ends: "sorted_wrt apart (all_ends ws)"
      "\<forall>x \<in> set (all_ends ws). open_end m x"
  shows "rewired n a b is ss ws (link_all ws m)"
proof -
  note S = rewrite_stage [OF inv pair new]
  note L = link_all_view [OF S(1) joinableI [OF ends]]
  show ?thesis
    using S(2-4,7-10) L(1,3-5) unfolding rewired_def L(2) S(5)
    by (simp add: L(6) S(6) split: option.split)
qed

end
