(* ===== verification/Rule_Laws.thy ===== *)
theory Rule_Laws
  imports Rules
begin

text \<open>
  What each interaction rule does to a net, and the invariant it keeps.  \<open>net_inv\<close> is the
  conjunction that \<open>assert_all_invariants\<close> of \<open>net/debug.rs\<close> checks after every step of a debug
  build (T1, I1, I2, I3, I6, I7), strengthened by the arena and free-list invariant \<open>core_inv\<close>;
  \<open>queue_complete\<close> says that no active pair is missing from the redex queue.
\<close>

section \<open>The rules as lists of new wires\<close>

definition anni_wires :: "net \<Rightarrow> symbol \<Rightarrow> agent_id \<Rightarrow> agent_id \<Rightarrow> (port_ref \<times> port_ref) list" where
  "anni_wires n s a b =
     (if self_loop n a \<and> self_loop n b then []
      else if self_loop n b then [(tgt n a 1, tgt n a 2)]
      else if self_loop n a then [(tgt n b 1, tgt n b 2)]
      else if s = Con then [(tgt n a 1, tgt n b 2), (tgt n a 2, tgt n b 1)]
      else [(tgt n a 1, tgt n b 1), (tgt n a 2, tgt n b 2)])"

lemma interact_anni_links:
  assumes "sym_at n a = Some s" "s \<noteq> Era"
  shows "interact_anni a b n =
    Some (link_all (anni_wires n s a b) (remove_agent b (remove_agent a n)))"
  using assms
  by (cases s) (auto simp: interact_anni_def anni_wires_def sym_at_def tgt_def Let_def)

lemma interact_eras_links:
  assumes "\<not> self_loop n a"
  shows "interact_eras a b n =
    (case create_agents [Era, Era] (remove_agent b (remove_agent a n)) of
       None \<Rightarrow> None
     | Some (is, m) \<Rightarrow>
         Some (link_all [(AgentPort (is ! 0) 0, tgt n a 1), (AgentPort (is ! 1) 0, tgt n a 2)] m))"
  using assms by (auto simp: interact_eras_def tgt_def Let_def split: bind_split)

text \<open>An agent port of a freshly created agent is open, so \<open>connect\<close> and \<open>link\<close> coincide on it.\<close>

lemma link_live: "get_agent n i \<noteq> None \<Longrightarrow> get_agent n j \<noteq> None \<Longrightarrow>
    connect (AgentPort i p) (AgentPort j q) n = link (AgentPort i p) (AgentPort j q) n"
  by (auto simp: link_def)

lemma get_agent_link [simp]: "get_agent (link x y n) = get_agent n"
  by (simp add: link_def get_agent_def fun_eq_iff)

lemma create_agents_live:
  assumes "core_inv n" "create_agents ss n = Some (is, m)" "i \<in> set is"
  shows "get_agent m i \<noteq> None"
proof -
  note C = create_agents_view [OF assms(1,2)]
  obtain k where k: "k < length ss" "i = is ! k"
    using assms(3) C(1) by (metis in_set_conv_nth)
  have "sym_at m i = Some (ss ! k)"
    unfolding C(4) k(2) using C(1,2) k(1) by (intro map_upds_nth) auto
  then show ?thesis
    by (auto simp: sym_at_def)
qed

definition comm_wires :: "net \<Rightarrow> agent_id \<Rightarrow> agent_id \<Rightarrow> agent_id list \<Rightarrow> (port_ref \<times> port_ref) list" where
  "comm_wires n a b is =
     [(AgentPort (is ! 0) 0, tgt n a 1), (AgentPort (is ! 1) 0, tgt n a 2),
      (AgentPort (is ! 2) 0, tgt n b 1), (AgentPort (is ! 3) 0, tgt n b 2),
      (AgentPort (is ! 0) 1, AgentPort (is ! 2) 1), (AgentPort (is ! 0) 2, AgentPort (is ! 3) 1),
      (AgentPort (is ! 1) 1, AgentPort (is ! 2) 2), (AgentPort (is ! 1) 2, AgentPort (is ! 3) 2)]"

text \<open>The two half-looped cases of commutation: two copies of the looped agent \<open>c\<close>.\<close>

definition copy_wires :: "net \<Rightarrow> agent_id \<Rightarrow> agent_id list \<Rightarrow> (port_ref \<times> port_ref) list" where
  "copy_wires n c is =
     [(AgentPort (is ! 0) 1, AgentPort (is ! 0) 2), (AgentPort (is ! 1) 1, AgentPort (is ! 1) 2),
      (AgentPort (is ! 0) 0, tgt n c 1), (AgentPort (is ! 1) 0, tgt n c 2)]"

lemma create_agents_Some:
  "create_agents [s, t] n = Some (is, m) \<longleftrightarrow>
     (\<exists>i j n1. is = [i, j] \<and> create_agent s n = Some (i, n1) \<and> create_agent t n1 = Some (j, m))"
  "create_agents [s, t, u, v] n = Some (is, m) \<longleftrightarrow>
     (\<exists>i j k l n1 n2 n3. is = [i, j, k, l] \<and> create_agent s n = Some (i, n1) \<and>
        create_agent t n1 = Some (j, n2) \<and> create_agent u n2 = Some (k, n3) \<and>
        create_agent v n3 = Some (l, m))"
  by (auto split: bind_splits)

lemma interact_comm_links:
  assumes inv: "core_inv (remove_agent b (remove_agent a n))" (is "core_inv ?n2")
  shows "self_loop n a \<Longrightarrow> self_loop n b \<Longrightarrow> interact_comm a b n = Some ?n2"
    and "self_loop n a \<Longrightarrow> \<not> self_loop n b \<Longrightarrow> interact_comm a b n =
      map_option (\<lambda>(is, m). link_all (copy_wires n b is) m) (create_agents [Con, Con] ?n2)"
    and "\<not> self_loop n a \<Longrightarrow> self_loop n b \<Longrightarrow> interact_comm a b n =
      map_option (\<lambda>(is, m). link_all (copy_wires n a is) m) (create_agents [Dup, Dup] ?n2)"
    and "\<not> self_loop n a \<Longrightarrow> \<not> self_loop n b \<Longrightarrow> interact_comm a b n =
      map_option (\<lambda>(is, m). link_all (comm_wires n a b is) m) (create_agents [Dup, Dup, Con, Con] ?n2)"
proof -
  note live = create_agents_live [OF inv]
  show "self_loop n a \<Longrightarrow> self_loop n b \<Longrightarrow> interact_comm a b n = Some ?n2"
    by (simp add: interact_comm_def Let_def)
  have two: "connect (AgentPort i p) (AgentPort i q) m = link (AgentPort i p) (AgentPort i q) m"
      "connect (AgentPort j p) (AgentPort j q) (link x y m) = link (AgentPort j p) (AgentPort j q) (link x y m)"
    if "create_agent s ?n2 = Some (i, n1)" "create_agent s n1 = Some (j, m)" for s i j n1 m x y p q
    using live [of "[s, s]" "[i, j]" m] that by (auto intro!: link_live)
  show "self_loop n a \<Longrightarrow> \<not> self_loop n b \<Longrightarrow> interact_comm a b n =
      map_option (\<lambda>(is, m). link_all (copy_wires n b is) m) (create_agents [Con, Con] ?n2)"
    and "\<not> self_loop n a \<Longrightarrow> self_loop n b \<Longrightarrow> interact_comm a b n =
      map_option (\<lambda>(is, m). link_all (copy_wires n a is) m) (create_agents [Dup, Dup] ?n2)"
    by (auto simp: interact_comm_def copy_wires_def tgt_def Let_def two split: bind_splits)
  have four: "connect (AgentPort x p) (AgentPort y q) (link u v k) = link (AgentPort x p) (AgentPort y q) (link u v k)"
    if "create_agent Dup ?n2 = Some (i1, n1)" "create_agent Dup n1 = Some (i2, n2)"
      "create_agent Con n2 = Some (i3, n3)" "create_agent Con n3 = Some (i4, m)"
      "x \<in> {i1, i2}" "y \<in> {i3, i4}" "get_agent k = get_agent m"
    for i1 i2 i3 i4 n1 n2 n3 m x y u v k p q
    using live [of "[Dup, Dup, Con, Con]" "[i1, i2, i3, i4]" m] that by (intro link_live) auto
  show "\<not> self_loop n a \<Longrightarrow> \<not> self_loop n b \<Longrightarrow> interact_comm a b n =
      map_option (\<lambda>(is, m). link_all (comm_wires n a b is) m) (create_agents [Dup, Dup, Con, Con] ?n2)"
    by (auto simp: interact_comm_def comm_wires_def tgt_def Let_def four split: bind_splits)
qed

section \<open>Neighbours of the pair\<close>

lemma self_loop_iff:
  assumes "core_inv n"
  shows "self_loop n i \<longleftrightarrow> tgt n i 1 = AgentPort i 2" "self_loop n i \<longleftrightarrow> tgt n i 2 = AgentPort i 1"
  using symmetric_wiresD(2) [OF core_invD(3) [OF assms]] by (auto simp: self_loop_def tgt_def [symmetric])

lemma no_cross_sym:
  assumes "core_inv n" "no_cross n a b"
  shows "no_cross n b a"
  using assms symmetric_wiresD(2) [OF core_invD(3) [OF assms(1)]]
  by (fastforce simp: no_cross_def)

lemma aux_outside:
  assumes inv: "core_inv n" and pair: "active_pair n a b" and cross: "no_cross n a b"
    and noloop: "\<not> self_loop n a" and p: "p = 1 \<or> p = 2"
  shows "\<not> owner_in {a, b} (tgt n a p)"
proof (cases "tgt n a p")
  case (AgentPort j q)
  note P = active_pairD [OF inv pair]
  have p3: "p < 3"
    using p by auto
  note wires = symmetric_wiresD [OF core_invD(3) [OF inv] p3 AgentPort]
  have q: "q = 0 \<or> q = 1 \<or> q = 2"
    using wires(1) by auto
  have "j \<noteq> a"
    using q p wires(2,3) P(4) noloop AgentPort self_loop_iff [OF inv, of a] P(3) by auto
  moreover have "j \<noteq> b"
    using q p wires(2) P(5) cross AgentPort by (auto simp: no_cross_def)
  ultimately show ?thesis
    by (simp add: AgentPort)
qed simp

lemma aux_outside':
  assumes "core_inv n" "active_pair n a b" "no_cross n a b" "\<not> self_loop n b" "p = 1 \<or> p = 2"
  shows "\<not> owner_in {a, b} (tgt n b p)"
  using aux_outside [OF assms(1) active_pairD(6) [OF assms(1,2)] no_cross_sym [OF assms(1,3)] assms(4,5)]
  by (simp add: insert_commute)

lemma era_no_cross:
  assumes "core_inv n" "sym_at n b = Some Era"
  shows "no_cross n a b"
proof -
  have "tgt n a p \<noteq> AgentPort b q" if "p < 3" "q \<noteq> 0" for p q
    using tgt_valid(1) [OF assms(1) that(1), of a b q] that(2) assms(2) by (auto simp: valid_port_def)
  then show ?thesis
    by (simp add: no_cross_def)
qed

text \<open>Different ports have different neighbours.\<close>

lemma tgt_distinct:
  assumes "core_inv n" "x < 3" "y < 3" "(c, x) \<noteq> (d, y)"
  shows "apart (tgt n c x) (tgt n d y)"
  using tgt_inj [OF assms(1-3)] assms(4) by (auto simp: apart_def)

section \<open>Each rule in terms of its wires\<close>

text \<open>
  Annihilation drops a wire with an end on the removed pair; on a pair without cross wires no wire
  is dropped.
\<close>

definition anni_links :: "net \<Rightarrow> symbol \<Rightarrow> agent_id \<Rightarrow> agent_id \<Rightarrow> (port_ref \<times> port_ref) list" where
  "anni_links n s a b =
     filter (\<lambda>(x, y). \<not> owner_in {a, b} x \<and> \<not> owner_in {a, b} y) (anni_wires n s a b)"

lemma is_removed_link [simp]: "is_removed (link x y n) = is_removed n"
proof
  show "is_removed (link x y n) z = is_removed n z" for z
    by (cases z) simp_all
qed

lemma is_removed_connect [simp]: "is_removed (connect x y n) = is_removed n"
proof
  show "is_removed (connect x y n) z = is_removed n z" for z
    by (cases z) (simp_all add: get_agent_def)
qed

lemma link_all_filter:
  "link_all (filter (\<lambda>(x, y). \<not> is_removed n x \<and> \<not> is_removed n y) ws) n = link_all ws n"
proof (induction ws arbitrary: n)
  case (Cons w ws)
  obtain x y where w: "w = (x, y)"
    by (cases w)
  show ?case
    using Cons.IH [of "link x y n"] Cons.IH [of n]
    by (cases "is_removed n x \<or> is_removed n y") (auto simp: w link_def [of x y n])
qed simp

lemma anni_ends:
  "x \<in> set (all_ends (anni_wires n s a b)) \<Longrightarrow> \<exists>c \<in> {a, b}. \<exists>p. (p = 1 \<or> p = 2) \<and> x = tgt n c p"
  by (auto simp: anni_wires_def split: if_splits)

lemma all_ends_filter: "set (all_ends (filter P ws)) \<subseteq> set (all_ends ws)"
  by (induction ws rule: all_ends.induct) auto

lemma sorted_ends_filter: "sorted_wrt apart (all_ends ws) \<Longrightarrow> sorted_wrt apart (all_ends (filter P ws))"
proof (induction ws rule: all_ends.induct)
  case (2 u v ws)
  then show ?case
    using all_ends_filter [of P ws] by auto
qed simp

lemma all_endsD:
  "x \<in> set (all_ends ws) \<Longrightarrow> \<exists>y. (x, y) \<in> set ws \<or> (y, x) \<in> set ws"
  by (induction ws rule: all_ends.induct) auto

lemma all_endsI: "(x, y) \<in> set ws \<Longrightarrow> x \<in> set (all_ends ws) \<and> y \<in> set (all_ends ws)"
  by (induction ws rule: all_ends.induct) auto

lemma anni_links_drop:
  assumes inv: "core_inv n" and pair: "active_pair n a b"
  shows "link_all (anni_wires n s a b) (remove_agent b (remove_agent a n)) =
    link_all (anni_links n s a b) (remove_agent b (remove_agent a n))" (is "link_all _ ?m = _")
proof -
  note R = remove_pair_view [OF inv active_pairD(1-3) [OF inv pair]]
  have "is_removed ?m x \<longleftrightarrow> owner_in {a, b} x" if x: "x \<in> set (all_ends (anni_wires n s a b))" for x
  proof (cases x)
    case (AgentPort j q)
    obtain c p where "p = 1 \<or> p = 2" "tgt n c p = AgentPort j q"
      using anni_ends [OF x] AgentPort by metis
    then have "live n j"
      using neighbour(1) [OF inv, of p c j q] by (auto dest: valid_port_live)
    then have "get_agent ?m j = None \<longleftrightarrow> j \<in> {a, b}"
      using live_iff_get_agent [of ?m j] by (auto simp: R(2) split: if_splits)
    then show ?thesis
      by (simp add: AgentPort)
  qed simp
  then have "filter (\<lambda>(x, y). \<not> is_removed ?m x \<and> \<not> is_removed ?m y) (anni_wires n s a b) =
      anni_links n s a b"
    unfolding anni_links_def by (intro filter_cong) (auto dest!: all_endsI)
  then show ?thesis
    using link_all_filter [of ?m "anni_wires n s a b"] by simp
qed

lemma anni_rewired:
  assumes inv: "core_inv n" and pair: "active_pair n a b"
  shows "rewired n a b [] [] (anni_links n s a b)
    (link_all (anni_wires n s a b) (remove_agent b (remove_agent a n)))"
  unfolding anni_links_drop [OF inv pair]
proof (rule rewiredI [OF inv pair])
  show new: "create_agents [] (remove_agent b (remove_agent a n)) =
      Some ([], remove_agent b (remove_agent a n))"
    by simp
  have "sorted_wrt apart (all_ends (anni_wires n s a b))"
    using active_pairD(3) [OF inv pair] by (simp add: anni_wires_def tgt_distinct [OF inv])
  then show "sorted_wrt apart (all_ends (anni_links n s a b))"
    unfolding anni_links_def by (rule sorted_ends_filter)
  show "\<forall>x \<in> set (all_ends (anni_links n s a b)). open_end (remove_agent b (remove_agent a n)) x"
  proof
    fix x
    assume x: "x \<in> set (all_ends (anni_links n s a b))"
    then have "x \<in> set (all_ends (anni_wires n s a b))" "\<not> owner_in {a, b} x"
      using all_ends_filter all_endsD [OF x] unfolding anni_links_def by auto
    then show "open_end (remove_agent b (remove_agent a n)) x"
      using anni_ends [of x n s a b] open_neighbour(1) [OF inv pair new, of _ 1]
        open_neighbour(1) [OF inv pair new, of _ 2] by auto
  qed
qed

lemma anni_links_clean:
  assumes inv: "core_inv n" and pair: "active_pair n a b" and cross: "no_cross n a b"
  shows "anni_links n s a b = anni_wires n s a b"
  using aux_outside [OF inv pair cross] aux_outside' [OF inv pair cross]
  by (auto simp: anni_links_def anni_wires_def)

lemma eras_rewired:
  assumes inv: "core_inv n" and pair: "active_pair n a b" and era: "sym_at n b = Some Era"
    and noloop: "\<not> self_loop n a"
    and new: "create_agents [Era, Era] (remove_agent b (remove_agent a n)) = Some (is, m)"
  defines "ws \<equiv> [(AgentPort (is ! 0) 0, tgt n a 1), (AgentPort (is ! 1) 0, tgt n a 2)]"
  shows "rewired n a b is [Era, Era] ws (link_all ws m)"
proof (rule rewiredI [OF inv pair new])
  note cross = era_no_cross [OF inv era]
  note S = rewrite_stage [OF inv pair new]
  obtain e f where ids: "is = [e, f]" "e \<noteq> f"
    using S(2,3) by (auto simp: length_Suc_conv)
  note nb = open_neighbour [OF inv pair new, of a] and out = aux_outside [OF inv pair cross noloop]
  note inj = tgt_distinct [OF inv]
  show "sorted_wrt apart (all_ends ws)"
    using ids nb out by (simp add: ws_def inj)
  show "\<forall>x \<in> set (all_ends ws). open_end m x"
    using nb out open_new [OF inv pair new, of 0 0] open_new [OF inv pair new, of 1 0]
    by (simp add: ws_def)
qed

lemma copy_rewired:
  assumes inv: "core_inv n" and pair: "active_pair n a b" and s: "s \<noteq> Era"
    and c: "c \<in> {a, b}" and out: "\<And>p. p = 1 \<or> p = 2 \<Longrightarrow> \<not> owner_in {a, b} (tgt n c p)"
    and new: "create_agents [s, s] (remove_agent b (remove_agent a n)) = Some (is, m)"
  shows "rewired n a b is [s, s] (copy_wires n c is) (link_all (copy_wires n c is) m)"
proof (rule rewiredI [OF inv pair new])
  note S = rewrite_stage [OF inv pair new]
  obtain e f where ids: "is = [e, f]" "e \<noteq> f"
    using S(2,3) by (auto simp: length_Suc_conv)
  note nb = open_neighbour [OF inv pair new c]
  note inj = tgt_distinct [OF inv]
  show "sorted_wrt apart (all_ends (copy_wires n c is))"
    using ids nb out by (simp add: copy_wires_def inj)
  have "total_ports s = 3"
    using s by (cases s) auto
  then show "\<forall>x \<in> set (all_ends (copy_wires n c is)). open_end m x"
    using nb out open_new [OF inv pair new, of 0] open_new [OF inv pair new, of 1]
    by (simp add: copy_wires_def)
qed

lemma comm_rewired:
  assumes inv: "core_inv n" and pair: "active_pair n a b" and cross: "no_cross n a b"
    and noloop: "\<not> self_loop n a" "\<not> self_loop n b"
    and new: "create_agents [Dup, Dup, Con, Con] (remove_agent b (remove_agent a n)) = Some (is, m)"
  shows "rewired n a b is [Dup, Dup, Con, Con] (comm_wires n a b is) (link_all (comm_wires n a b is) m)"
proof (rule rewiredI [OF inv pair new])
  note S = rewrite_stage [OF inv pair new]
  obtain p q r s where ids: "is = [p, q, r, s]" "distinct [p, q, r, s]"
    using S(2,3) by (auto simp: length_Suc_conv)
  note out = aux_outside [OF inv pair cross noloop(1)] aux_outside' [OF inv pair cross noloop(2)]
  have out': "\<not> owner_in {a, b} (tgt n c x)" if "c \<in> {a, b}" "x \<in> {1, 2}" for c x
    using out [of x] that by auto
  have neq: "\<And>i k. i \<in> set is \<Longrightarrow> AgentPort i k \<noteq> tgt n c x" "\<And>i k. i \<in> set is \<Longrightarrow> tgt n c x \<noteq> AgentPort i k"
    "open_end m (tgt n c x)" if "c \<in> {a, b}" "x \<in> {1, 2}" for c x
    using open_neighbour [OF inv pair new that(1) _ out' [OF that]] that(2) by force+
  note nb = neq [of a 1] neq [of a 2] neq [of b 1] neq [of b 2]
  note inj = tgt_distinct [OF inv]
  show "sorted_wrt apart (all_ends (comm_wires n a b is))"
    using ids(2) nb [unfolded ids(1)] active_pairD(3) [OF inv pair]
    by (simp add: comm_wires_def ids(1) inj)
  have "open_end m (AgentPort (is ! k) x)" if "k < 4" "x < 3" for k x
    using open_new [OF inv pair new, of k x] that by (simp add: less_Suc_eq numeral_eq_Suc) auto
  then show "\<forall>x \<in> set (all_ends (comm_wires n a b is)). open_end m x"
    using nb by (simp add: comm_wires_def)
qed

end
