(* ===== verification/Net_Inv.thy ===== *)
theory Net_Inv
  imports Rule_Laws
begin

text \<open>
  The runtime invariant checks of \<open>net/debug.rs\<close> as executable predicates, the invariant
  \<open>net_inv\<close> that implies them, and its preservation by any rewrite of an active pair that uses every
  dangling neighbour and every port of the new agents exactly once.
\<close>

section \<open>Runtime checks\<close>

definition root_agent_id :: "net \<Rightarrow> agent_id option" where
  "root_agent_id n =
     (case root n of Some (AgentPort i p) \<Rightarrow> if p = 0 then Some i else None | _ \<Rightarrow> None)"

text \<open>The body of the check for one port of one agent.\<close>

definition port_consistent :: "net \<Rightarrow> agent_id \<Rightarrow> port_id \<Rightarrow> bool" where
  "port_consistent n i p \<longleftrightarrow>
     (let port = AgentPort i p; target = get_target n port
      in if p = 0 \<and> root_agent_id n = Some i \<and> target = DISCONNECTED then True
         else target \<noteq> DISCONNECTED \<and>
              (case target of FreePort f \<Rightarrow> True | AgentPort j q \<Rightarrow> get_target n target = port))"

definition assert_adjacency_consistent :: "net \<Rightarrow> bool" where
  "assert_adjacency_consistent n \<longleftrightarrow>
     list_all (\<lambda>ag. list_all (port_consistent n (a_id ag)) [0..<total_ports (a_symbol ag)])
              (live_agents n)"

definition ref_valid :: "net \<Rightarrow> port_ref \<Rightarrow> bool" where
  "ref_valid n target \<longleftrightarrow>
     (case target of
        AgentPort tid tp \<Rightarrow>
          (case get_agent n tid of None \<Rightarrow> False | Some ag \<Rightarrow> tp \<le> arity (a_symbol ag))
      | FreePort f \<Rightarrow> True)"

definition assert_refs_valid :: "net \<Rightarrow> bool" where
  "assert_refs_valid n \<longleftrightarrow>
     list_all (\<lambda>ag. list_all (\<lambda>p. ref_valid n (get_target n (AgentPort (a_id ag) p)))
                             [0..<total_ports (a_symbol ag)])
              (live_agents n)"

definition assert_next_id_valid :: "net \<Rightarrow> bool" where
  "assert_next_id_valid n \<longleftrightarrow>
     list_all (\<lambda>(idx, slot). slot \<noteq> None \<longrightarrow> next_id n > idx) (List.enumerate 0 (agents n))"

definition assert_era_unused_ports_clean :: "net \<Rightarrow> bool" where
  "assert_era_unused_ports_clean n \<longleftrightarrow>
     list_all (\<lambda>ag. a_symbol ag = Era \<longrightarrow>
                 list_all (\<lambda>p. let idx = port_index (a_id ag) p
                               in idx < length (ports n) \<longrightarrow> ports n ! idx = DISCONNECTED) [1, 2])
              (live_agents n)"

definition assert_root_consistent :: "net \<Rightarrow> bool" where
  "assert_root_consistent n \<longleftrightarrow>
     (case root n of
        None \<Rightarrow> True
      | Some (AgentPort i p) \<Rightarrow>
          p = 0 \<and> get_agent n i \<noteq> None \<and>
          (let idx = port_index i 0 in idx < length (ports n) \<and> ports n ! idx = DISCONNECTED)
      | Some (FreePort f) \<Rightarrow> False)"

definition count_stale_redexes :: "net \<Rightarrow> nat" where
  "count_stale_redexes n = length (filter (\<lambda>(a, b). \<not> is_valid_redex n a b) (redex_queue n))"

definition assert_all_invariants :: "net \<Rightarrow> bool" where
  "assert_all_invariants n \<longleftrightarrow>
     assert_adjacency_consistent n \<and> assert_refs_valid n \<and> assert_next_id_valid n \<and>
     assert_era_unused_ports_clean n \<and> assert_root_consistent n"

section \<open>The invariant\<close>

definition fully_wired :: "net \<Rightarrow> bool" where
  "fully_wired n \<longleftrightarrow>
     (\<forall>i p. valid_port n i p \<longrightarrow> tgt n i p = DISCONNECTED \<longrightarrow> root n = Some (AgentPort i p))"

definition root_ok :: "net \<Rightarrow> bool" where
  "root_ok n \<longleftrightarrow>
     (case root n of
        None \<Rightarrow> True
      | Some (AgentPort i p) \<Rightarrow> p = 0 \<and> live n i \<and> tgt n i 0 = DISCONNECTED
      | Some (FreePort f) \<Rightarrow> False)"

definition net_inv :: "net \<Rightarrow> bool" where
  "net_inv n \<longleftrightarrow> core_inv n \<and> fully_wired n \<and> root_ok n"

definition queue_complete :: "net \<Rightarrow> bool" where
  "queue_complete n \<longleftrightarrow>
     (\<forall>a b. active_pair n a b \<longrightarrow> (a, b) \<in> set (redex_queue n) \<or> (b, a) \<in> set (redex_queue n))"

text \<open>The same with a set of pairs that are held outside the queue.\<close>

definition queue_covers :: "(agent_id \<times> agent_id) set \<Rightarrow> net \<Rightarrow> bool" where
  "queue_covers Q n \<longleftrightarrow>
     (\<forall>a b. active_pair n a b \<longrightarrow>
        (a, b) \<in> set (redex_queue n) \<union> Q \<or> (b, a) \<in> set (redex_queue n) \<union> Q)"

lemma queue_complete_covers: "queue_complete n \<longleftrightarrow> queue_covers {} n"
  by (simp add: queue_complete_def queue_covers_def)

lemma net_invD:
  assumes "net_inv n"
  shows "core_inv n" "fully_wired n" "root_ok n"
  using assms by (simp_all add: net_inv_def)

lemma live_agents_iff:
  assumes "slots_ok n"
  shows "ag \<in> set (live_agents n) \<longleftrightarrow> get_agent n (a_id ag) = Some ag"
proof -
  have "ag \<in> set (live_agents n) \<longleftrightarrow> Some ag \<in> set (agents n)"
    by (force simp: live_agents_def map_filter_def)
  also have "\<dots> \<longleftrightarrow> (\<exists>i. get_agent n i = Some ag)"
    by (auto simp: in_set_conv_nth get_agent_def vec_get_def split: if_splits)
  also have "\<dots> \<longleftrightarrow> get_agent n (a_id ag) = Some ag"
    using assms by (auto simp: slots_ok_def)
  finally show ?thesis .
qed

lemma all_live_ports:
  assumes "slots_ok n"
  shows "list_all (\<lambda>ag. list_all (P (a_id ag)) [0..<total_ports (a_symbol ag)]) (live_agents n) \<longleftrightarrow>
    (\<forall>i p. valid_port n i p \<longrightarrow> P i p)"
proof -
  have own: "a_id ag = i" if "get_agent n i = Some ag" for i ag
    using assms that by (simp add: slots_ok_def)
  have "(\<forall>ag. get_agent n (a_id ag) = Some ag \<longrightarrow> (\<forall>p < total_ports (a_symbol ag). P (a_id ag) p)) \<longleftrightarrow>
    (\<forall>i ag. get_agent n i = Some ag \<longrightarrow> (\<forall>p < total_ports (a_symbol ag). P i p))"
    using own by blast
  also have "\<dots> \<longleftrightarrow> (\<forall>i p. valid_port n i p \<longrightarrow> P i p)"
    by (auto simp: valid_port_def sym_at_def split: option.splits)
  finally show ?thesis
    by (auto simp: list_all_iff live_agents_iff [OF assms])
qed

lemma ports_nth: "idx = port_index i p \<Longrightarrow> idx < length (ports n) \<Longrightarrow> ports n ! idx = tgt n i p"
  by (simp add: tgt_def get_target_def)

text \<open>Every runtime check passes on a net that satisfies the invariant.\<close>

lemma net_inv_asserts:
  assumes "net_inv n"
  shows "assert_all_invariants n"
proof -
  note inv = net_invD [OF assms] and D = core_invD [OF net_invD(1) [OF assms]]
  have "port_consistent n i p" if v: "valid_port n i p" for i p
  proof (cases "tgt n i p = DISCONNECTED")
    case True
    then have "root n = Some (AgentPort i p)"
      using inv(2) v by (simp add: fully_wired_def)
    then show ?thesis
      using inv(3) True by (auto simp: port_consistent_def root_agent_id_def root_ok_def tgt_def)
  next
    case False
    show ?thesis
    proof (cases "tgt n i p")
      case (AgentPort j q)
      then have "tgt n j q = AgentPort i p"
        by (rule symmetric_wiresD(2) [OF D(3) valid_port_less [OF v]])
      then show ?thesis
        using AgentPort by (simp add: port_consistent_def tgt_def)
    qed (use False in \<open>simp add: port_consistent_def tgt_def\<close>)
  qed
  then have 1: "assert_adjacency_consistent n"
    by (simp add: assert_adjacency_consistent_def all_live_ports [OF D(1)])
  have "ref_valid n (get_target n (AgentPort i p))" if v: "valid_port n i p" for i p
  proof (cases "tgt n i p")
    case (AgentPort j q)
    then have "valid_port n j q"
      by (rule tgt_valid(1) [OF inv(1) valid_port_less [OF v]])
    then show ?thesis
      using AgentPort
      by (auto simp: ref_valid_def valid_port_def sym_at_def total_ports_def tgt_def split: option.splits)
  qed (simp add: ref_valid_def tgt_def)
  then have 2: "assert_refs_valid n"
    by (simp add: assert_refs_valid_def all_live_ports [OF D(1),
          where P = "\<lambda>i p. ref_valid n (get_target n (AgentPort i p))"])
  have 3: "assert_next_id_valid n"
    using D(4) by (force simp: assert_next_id_valid_def list_all_iff in_set_enumerate_eq ids_below_def
        sym_at_def get_agent_def vec_get_def)
  have 4: "assert_era_unused_ports_clean n"
    using D(2) by (auto simp: assert_era_unused_ports_clean_def list_all_iff live_agents_iff [OF D(1)]
        Let_def ports_nth [OF refl] ports_clean_def valid_port_def sym_at_def)
  have 5: "assert_root_consistent n"
    using inv(3) live_slot [OF D(1)]
    by (auto simp: assert_root_consistent_def root_ok_def Let_def ports_nth [OF refl] sym_at_def
        split: option.splits port_ref.splits)
  show ?thesis
    using 1 2 3 4 5 by (simp add: assert_all_invariants_def)
qed

section \<open>Preservation under rewriting\<close>

text \<open>
  The wires of a rule use new ports and outside neighbours only, use every outside neighbour of the
  pair, and use every port of every new agent.
\<close>

definition uses_all ::
  "net \<Rightarrow> agent_id \<Rightarrow> agent_id \<Rightarrow> agent_id list \<Rightarrow> symbol list \<Rightarrow> (port_ref \<times> port_ref) list \<Rightarrow> bool" where
  "uses_all n a b is ss ws \<longleftrightarrow>
     (\<forall>x \<in> set (all_ends ws).
        (\<exists>i \<in> set is. \<exists>p. x = AgentPort i p) \<or>
        (\<exists>c \<in> {a, b}. \<exists>p. 0 < p \<and> valid_port n c p \<and> x = tgt n c p \<and> \<not> owner_in {a, b} x)) \<and>
     (\<forall>c \<in> {a, b}. \<forall>p. 0 < p \<and> valid_port n c p \<and> \<not> owner_in {a, b} (tgt n c p) \<longrightarrow>
        tgt n c p \<in> set (all_ends ws)) \<and>
     (\<forall>k < length is. \<forall>p < total_ports (ss ! k). AgentPort (is ! k) p \<in> set (all_ends ws))"

lemma other_end_iff: "other_end ws x = None \<longleftrightarrow> x \<notin> set (all_ends ws)"
  by (induction ws rule: all_ends.induct) auto

lemma other_end_Some:
  "other_end ws x = Some y \<Longrightarrow> y \<in> set (all_ends ws) \<and> ((x, y) \<in> set ws \<or> (y, x) \<in> set ws)"
  by (induction ws rule: all_ends.induct) (auto split: if_splits)

lemma rewiredD:
  assumes "rewired n a b is ss ws m"
  shows "core_inv m" "distinct is" "length is = length ss" "\<forall>i \<in> set is. live n i \<longrightarrow> i \<in> {a, b}"
    "sym_at m = ((sym_at n)(a := None, b := None))(is [\<mapsto>] ss)"
    "\<And>j q. q < 3 \<Longrightarrow> tgt m j q =
        (case other_end ws (AgentPort j q) of
           Some t \<Rightarrow> t
         | None \<Rightarrow> if j \<in> {a, b} \<or> owner_in {a, b} (tgt n j q) then DISCONNECTED else tgt n j q)"
    "redex_queue m = redex_queue n @ concat (map (\<lambda>(x, y). new_redexes x y) ws)"
    "root m = root n" "next_id n \<le> next_id m" "next_id m \<le> next_id n + length ss"
  using assms by (simp_all add: rewired_def)

lemma rewired_other:
  assumes "rewired n a b is ss ws m" "j \<notin> set is"
  shows "sym_at m j = (if j \<in> {a, b} then None else sym_at n j)"
  using rewiredD(5) [OF assms(1)] assms(2) by (simp add: map_upds_apply_nontin)

lemma uses_all_connected:
  assumes inv: "net_inv n" and pair: "active_pair n a b" and all: "uses_all n a b is ss ws"
    and x: "x \<in> set (all_ends ws)"
  shows "x \<noteq> DISCONNECTED"
proof
  assume "x = DISCONNECTED"
  then obtain c p where c: "c \<in> {a, b}" "valid_port n c p" "tgt n c p = DISCONNECTED" "0 < p"
    using all x unfolding uses_all_def by (metis AgentPort_neq_DISCONNECTED(1))
  then have "root n = Some (AgentPort c p)"
    using net_invD(2) [OF inv] by (simp add: fully_wired_def)
  then show False
    using net_invD(3) [OF inv] c(4) by (simp add: root_ok_def)
qed

lemma rewired_fully_wired:
  assumes inv: "net_inv n" and pair: "active_pair n a b"
    and rew: "rewired n a b is ss ws m" and all: "uses_all n a b is ss ws"
  shows "fully_wired m"
  unfolding fully_wired_def
proof (intro allI impI)
  fix j q
  assume v: "valid_port m j q" and t: "tgt m j q = DISCONNECTED"
  note core = net_invD(1) [OF inv] and R = rewiredD [OF rew]
  have q: "q < 3"
    using v by (rule valid_port_less)
  have none: "other_end ws (AgentPort j q) = None"
    using R(6) [OF q, of j] t other_end_Some uses_all_connected [OF inv pair all]
    by (fastforce split: option.splits)
  have "j \<notin> set is"
  proof
    assume "j \<in> set is"
    then obtain k where k: "k < length is" "j = is ! k"
      by (metis in_set_conv_nth)
    have "sym_at m j = Some (ss ! k)"
      unfolding R(5) k(2) using R(2,3) k(1) by (intro map_upds_nth) auto
    then have "AgentPort j q \<in> set (all_ends ws)"
      using v k all by (simp add: uses_all_def valid_port_def)
    then show False
      using none by (simp add: other_end_iff)
  qed
  then have v': "valid_port n j q" "j \<notin> {a, b}"
    using v rewired_other [OF rew] by (auto simp: valid_port_def split: if_splits)
  have "\<not> owner_in {a, b} (tgt n j q)"
  proof
    assume "owner_in {a, b} (tgt n j q)"
    then obtain c p where c: "tgt n j q = AgentPort c p" "c \<in> {a, b}"
      by (cases "tgt n j q") auto
    note N = neighbour [OF core q c(1)]
    have "0 < p"
      using N(2) v'(2) c(2) active_pairD(4,5) [OF core pair] by (cases p) auto
    then have "AgentPort j q \<in> set (all_ends ws)"
      using all N(1,2) c(2) v'(2) unfolding uses_all_def by (metis owner_in.simps(1))
    then show False
      using none by (simp add: other_end_iff)
  qed
  then have "tgt n j q = DISCONNECTED"
    using R(6) [OF q, of j] none t v'(2) by simp
  then show "root m = Some (AgentPort j q)"
    using net_invD(2) [OF inv] v'(1) by (simp add: fully_wired_def R(8))
qed

lemma rewired_root_ok:
  assumes inv: "net_inv n" and pair: "active_pair n a b"
    and rew: "rewired n a b is ss ws m" and all: "uses_all n a b is ss ws"
  shows "root_ok m"
proof (cases "root n")
  case None
  then show ?thesis
    by (simp add: root_ok_def rewiredD(8) [OF rew])
next
  case (Some x)
  note core = net_invD(1) [OF inv] and R = rewiredD [OF rew]
  obtain r where x: "x = AgentPort r 0" and r: "live n r" "tgt n r 0 = DISCONNECTED"
    using net_invD(3) [OF inv] Some by (auto simp: root_ok_def split: port_ref.splits)
  have out: "r \<notin> {a, b}" "r \<notin> set is"
    using r R(4) active_pairD(4,5) [OF core pair] by auto
  have "AgentPort r 0 \<notin> set (all_ends ws)"
  proof
    assume "AgentPort r 0 \<in> set (all_ends ws)"
    then obtain c p where "valid_port n c p" "tgt n c p = AgentPort r 0"
      using all out(2) unfolding uses_all_def by (metis port_ref.inject(1))
    then show False
      using neighbour(2) [OF core _] r(2) by (metis AgentPort_neq_DISCONNECTED(1) valid_port_less)
  qed
  then have "tgt m r 0 = DISCONNECTED" "live m r"
    using R(6) [of 0 r] r out rewired_other [OF rew] by (simp_all add: other_end_iff [symmetric])
  then show ?thesis
    by (simp add: root_ok_def R(8) Some x)
qed

lemma rewired_net_inv [inv_intros]:
  assumes "net_inv n" "active_pair n a b" "rewired n a b is ss ws m" "uses_all n a b is ss ws"
  shows "net_inv m"
  using rewired_fully_wired [OF assms] rewired_root_ok [OF assms] rewiredD(1) [OF assms(3)]
  by (simp add: net_inv_def)

lemma rewired_covers [inv_intros]:
  assumes core: "core_inv n" and rew: "rewired n a b is ss ws m"
    and old: "\<And>c d. active_pair n c d \<Longrightarrow> {c, d} \<noteq> {a, b} \<Longrightarrow>
      (c, d) \<in> set (redex_queue n) \<union> Q \<or> (d, c) \<in> set (redex_queue n) \<union> Q"
  shows "queue_covers Q m"
  unfolding queue_covers_def
proof (intro allI impI)
  fix c d
  assume pair: "active_pair m c d"
  note R = rewiredD [OF rew]
  have t: "tgt m c 0 = AgentPort d 0"
    using pair by (simp add: active_pair_def)
  show "(c, d) \<in> set (redex_queue m) \<union> Q \<or> (d, c) \<in> set (redex_queue m) \<union> Q"
  proof (cases "other_end ws (AgentPort c 0)")
    case None
    then have "c \<notin> {a, b}" "tgt n c 0 = AgentPort d 0"
      using t R(6) [of 0 c] by (auto split: if_splits)
    then show ?thesis
      using old [of c d] by (auto simp: R(7) active_pair_def)
  next
    case (Some y)
    then have "(AgentPort c 0, AgentPort d 0) \<in> set ws \<or> (AgentPort d 0, AgentPort c 0) \<in> set ws"
      using t R(6) [of 0 c] other_end_Some [OF Some] by simp
    then show ?thesis
      by (force simp: R(7) new_redexes_def)
  qed
qed

end
