(* ===== verification/Net_Check.thy ===== *)
theory Net_Check
  imports Net_Inv
begin

text \<open>
  An executable form of the net invariant: the runtime checks of \<open>net/debug.rs\<close> together with a scan
  of the arena are equivalent to \<open>net_inv\<close>.  Concrete nets for evaluation follow.
\<close>

named_theorems eval_simps \<open>definitions that evaluate the model on concrete nets\<close>

section \<open>Scanning the arena\<close>

definition slot_valid :: "net \<Rightarrow> nat \<Rightarrow> bool" where
  "slot_valid n idx \<longleftrightarrow>
     (case get_agent n (idx div 3) of None \<Rightarrow> False | Some ag \<Rightarrow> idx mod 3 < total_ports (a_symbol ag))"

definition arena_check :: "net \<Rightarrow> bool" where
  "arena_check n \<longleftrightarrow>
     3 * length (agents n) \<le> length (ports n) \<and>
     list_all (\<lambda>(i, slot). case slot of None \<Rightarrow> True | Some ag \<Rightarrow> a_id ag = i) (List.enumerate 0 (agents n)) \<and>
     list_all (\<lambda>(idx, t). (slot_valid n idx \<or> t = DISCONNECTED) \<and> t \<noteq> AgentPort (idx div 3) (idx mod 3))
              (List.enumerate 0 (ports n)) \<and>
     next_id n \<le> u32_MAX \<and>
     distinct (free_list n) \<and> list_all (\<lambda>i. get_agent n i = None \<and> i < next_id n) (free_list n)"

definition net_check :: "net \<Rightarrow> bool" where
  "net_check n \<longleftrightarrow> assert_all_invariants n \<and> arena_check n"

definition queue_check :: "net \<Rightarrow> bool" where
  "queue_check n \<longleftrightarrow>
     list_all (\<lambda>i. case get_target n (AgentPort i 0) of
                 AgentPort j q \<Rightarrow> q = 0 \<longrightarrow> (i, j) \<in> set (redex_queue n) \<or> (j, i) \<in> set (redex_queue n)
               | FreePort f \<Rightarrow> True) [0..<length (ports n)]"

lemma list_all_enumerate:
  "list_all (\<lambda>(i, x). P i x) (List.enumerate 0 xs) \<longleftrightarrow> (\<forall>i < length xs. P i (xs ! i))"
  by (auto simp: list_all_iff in_set_enumerate_eq)

lemma port_index_divmod: "p < 3 \<Longrightarrow> port_index i p div 3 = i \<and> port_index i p mod 3 = p"
  by (simp add: port_index_def PORTS_PER_SLOT_def)

lemma divmod_port_index: "port_index (idx div 3) (idx mod 3) = idx"
  by (simp add: port_index_def PORTS_PER_SLOT_def)

lemma slot_valid_iff: "slot_valid n idx \<longleftrightarrow> valid_port n (idx div 3) (idx mod 3)"
  by (simp add: slot_valid_def valid_port_def sym_at_def split: option.split)

lemma all_ports_iff:
  "list_all (\<lambda>(idx, t). P (idx div 3) (idx mod 3) t) (List.enumerate 0 (ports n)) \<longleftrightarrow>
     (\<forall>i p. p < 3 \<longrightarrow> port_index i p < length (ports n) \<longrightarrow> P i p (tgt n i p))"
proof -
  have "list_all (\<lambda>(idx, t). P (idx div 3) (idx mod 3) t) (List.enumerate 0 (ports n)) \<longleftrightarrow>
      (\<forall>idx < length (ports n). P (idx div 3) (idx mod 3) (ports n ! idx))"
    by (rule list_all_enumerate)
  also have "\<dots> \<longleftrightarrow> (\<forall>i p. p < 3 \<longrightarrow> port_index i p < length (ports n) \<longrightarrow> P i p (tgt n i p))"
  proof (intro iffI allI impI)
    fix idx
    assume all: "\<forall>i p. p < 3 \<longrightarrow> port_index i p < length (ports n) \<longrightarrow> P i p (tgt n i p)"
      and idx: "idx < length (ports n)"
    show "P (idx div 3) (idx mod 3) (ports n ! idx)"
      using all [rule_format, of "idx mod 3" "idx div 3"] idx
      by (simp add: divmod_port_index ports_nth [OF divmod_port_index [symmetric]])
  qed (use port_index_divmod ports_nth in fastforce)
  finally show ?thesis .
qed

lemma arena_check_iff:
  "arena_check n \<longleftrightarrow>
     slots_ok n \<and> ports_clean n \<and> next_id n \<le> u32_MAX \<and> free_list_ok n \<and>
     (\<forall>i p. p < 3 \<longrightarrow> tgt n i p \<noteq> AgentPort i p)"
proof -
  have "list_all (\<lambda>(i, slot). case slot of None \<Rightarrow> True | Some ag \<Rightarrow> a_id ag = i) (List.enumerate 0 (agents n)) \<longleftrightarrow>
      (\<forall>i ag. get_agent n i = Some ag \<longrightarrow> a_id ag = i)"
    unfolding list_all_enumerate by (auto simp: get_agent_def vec_get_def split: option.splits)
  moreover have "list_all (\<lambda>(idx, t). (slot_valid n idx \<or> t = DISCONNECTED) \<and> t \<noteq> AgentPort (idx div 3) (idx mod 3))
        (List.enumerate 0 (ports n)) \<longleftrightarrow>
      ports_clean n \<and> (\<forall>i p. p < 3 \<longrightarrow> tgt n i p \<noteq> AgentPort i p)"
    unfolding slot_valid_iff all_ports_iff
      [where P = "\<lambda>i p t. (valid_port n i p \<or> t = DISCONNECTED) \<and> t \<noteq> AgentPort i p"]
    using tgt_out_of_range by (fastforce simp: ports_clean_def)
  moreover have "list_all (\<lambda>i. get_agent n i = None \<and> i < next_id n) (free_list n) \<longleftrightarrow>
      (\<forall>i \<in> set (free_list n). \<not> live n i \<and> i < next_id n)"
    by (auto simp: list_all_iff sym_at_def)
  ultimately show ?thesis
    unfolding arena_check_def slots_ok_def free_list_ok_def by blast
qed

lemma asserts_symmetric:
  assumes adj: "assert_adjacency_consistent n" and refs: "assert_refs_valid n"
    and ok: "slots_ok n" "ports_clean n" and nl: "\<And>i p. p < 3 \<Longrightarrow> tgt n i p \<noteq> AgentPort i p"
  shows "symmetric_wires n"
  unfolding symmetric_wires_def
proof (intro allI impI)
  fix i p j q
  assume p: "p < 3" and t: "tgt n i p = AgentPort j q"
  have v: "valid_port n i p"
    using p t ok(2) by (force simp: ports_clean_def)
  have "port_consistent n i p"
    using adj v by (simp add: assert_adjacency_consistent_def all_live_ports [OF ok(1)])
  then have "tgt n j q = AgentPort i p"
    using t by (auto simp: port_consistent_def tgt_def Let_def split: if_splits)
  moreover have "ref_valid n (get_target n (AgentPort i p))"
    using refs v by (simp add: assert_refs_valid_def all_live_ports [OF ok(1),
          where P = "\<lambda>i p. ref_valid n (get_target n (AgentPort i p))"])
  then have "valid_port n j q"
    using t by (auto simp: ref_valid_def tgt_def valid_port_def sym_at_def total_ports_def split: option.splits)
  ultimately show "q < 3 \<and> tgt n j q = AgentPort i p \<and> (i, p) \<noteq> (j, q)"
    using nl [OF p, of i] t by (auto dest: valid_port_less)
qed

lemma net_check_iff: "net_check n \<longleftrightarrow> net_inv n"
proof
  assume inv: "net_inv n"
  note D = core_invD [OF net_invD(1) [OF inv]]
  have "tgt n i p \<noteq> AgentPort i p" if "p < 3" for i p
    using symmetric_wiresD(3) [OF D(3) that] by blast
  then show "net_check n"
    using D net_inv_asserts [OF inv] by (auto simp: net_check_def arena_check_iff ids_below_def)
next
  assume "net_check n"
  then have A: "assert_adjacency_consistent n" "assert_refs_valid n" "assert_next_id_valid n"
      "assert_root_consistent n"
    and B: "slots_ok n" "ports_clean n" "next_id n \<le> u32_MAX" "free_list_ok n"
      "\<And>i p. p < 3 \<Longrightarrow> tgt n i p \<noteq> AgentPort i p"
    by (auto simp: net_check_def assert_all_invariants_def arena_check_iff)
  have sym: "symmetric_wires n"
    using A(1,2) B by (intro asserts_symmetric)
  have "ids_below n"
    using A(3) B(3) unfolding assert_next_id_valid_def list_all_enumerate
    by (auto simp: ids_below_def sym_at_def get_agent_def vec_get_def split: if_splits)
  then have core: "core_inv n"
    using B sym by (simp add: core_inv_def)
  have "fully_wired n"
    unfolding fully_wired_def
  proof (intro allI impI)
    fix i p
    assume v: "valid_port n i p" and t: "tgt n i p = DISCONNECTED"
    have "port_consistent n i p"
      using A(1) v by (simp add: assert_adjacency_consistent_def all_live_ports [OF B(1)])
    then show "root n = Some (AgentPort i p)"
      using t by (auto simp: port_consistent_def tgt_def root_agent_id_def split: if_splits option.splits port_ref.splits)
  qed
  moreover have "root_ok n"
    using A(4) by (auto simp: assert_root_consistent_def root_ok_def Let_def ports_nth [OF refl] sym_at_def
        split: option.splits port_ref.splits)
  ultimately show "net_inv n"
    using core by (simp add: net_inv_def)
qed

lemma queue_check_iff: "queue_check n \<longleftrightarrow> queue_complete n"
proof -
  have "i < length (ports n)" if "tgt n i 0 = AgentPort j 0" for i j
    using that tgt_out_of_range [of i 0 n] by (force simp: port_index_def PORTS_PER_SLOT_def)
  then show ?thesis
    by (auto simp: queue_check_def queue_complete_def list_all_iff active_pair_def tgt_def split: port_ref.splits)
qed

section \<open>Concrete nets\<close>

text \<open>An active pair of the two symbols whose auxiliary ports lead to free ports.\<close>

definition pair_net :: "symbol \<Rightarrow> symbol \<Rightarrow> net" where
  "pair_net s t = net_new\<lparr>
     agents := [Some \<lparr>a_symbol = s, a_id = 0\<rparr>, Some \<lparr>a_symbol = t, a_id = 1\<rparr>],
     ports :=
       [AgentPort 1 0, if s = Era then DISCONNECTED else FreePort 0, if s = Era then DISCONNECTED else FreePort 1,
        AgentPort 0 0, if t = Era then DISCONNECTED else FreePort 2, if t = Era then DISCONNECTED else FreePort 3],
     redex_queue := [(0, 1)], next_id := 2\<rparr>"

lemmas net_eval [eval_simps] =
  net_check_def arena_check_def slot_valid_def assert_all_invariants_def assert_adjacency_consistent_def
  assert_refs_valid_def assert_next_id_valid_def assert_era_unused_ports_clean_def
  assert_root_consistent_def port_consistent_def ref_valid_def root_agent_id_def live_agents_def
  map_filter_simps get_target_def get_agent_def vec_get_def port_index_def PORTS_PER_SLOT_def
  DISCONNECTED_def net_new_def Let_def upt_conv_Cons List.enumerate_simps

lemma pair_net_inv: "net_inv (pair_net s t)"
  unfolding net_check_iff [symmetric]
  by (cases s; cases t) (simp_all add: pair_net_def eval_simps)

lemma pair_net_queue: "queue_complete (pair_net s t)"
  unfolding queue_check_iff [symmetric]
  by (cases s; cases t) (simp_all add: pair_net_def queue_check_def eval_simps)

lemma pair_net_view [simp]:
  "active_pair (pair_net s t) 0 1" "no_cross (pair_net s t) 0 1"
  "sym_at (pair_net s t) 0 = Some s" "sym_at (pair_net s t) 1 = Some t"
  "next_id (pair_net s t) = 2"
  "redex_queue (pair_net s t) = [(0, 1)]" "\<not> self_loop (pair_net s t) 0" "\<not> self_loop (pair_net s t) 1"
  by (simp_all add: pair_net_def eval_simps active_pair_def no_cross_def tgt_def sym_at_def self_loop_def)

lemmas pair_net_view_Suc [simp] = pair_net_view [unfolded One_nat_def]

lemma pair_net_core [simp]: "core_inv (pair_net s t)"
  using pair_net_inv by (rule net_invD)

end
