(* ===== verification/Net_Props.thy ===== *)
theory Net_Props
  imports Net_Check "HOL-Library.Multiset"
begin

text \<open>
  Properties of the arena operations of \<open>net/core.rs\<close>: allocation under the two recycling policies,
  the LIFO discipline of the free-list, validation and recovery of the free-list, and the union and
  behavioural equality of nets.
\<close>

section \<open>Allocation\<close>

text \<open>
  Creating an agent: the identifier was not in use, exactly that slot changes, all its ports
  are disconnected, every existing wire is untouched and the arena invariant is kept.
\<close>

lemma create_agent_correct:
  assumes "core_inv n" "create_agent s n = Some (i, m)"
  shows "\<not> live n i \<and> sym_at m = (sym_at n)(i \<mapsto> s) \<and> core_inv m \<and>
    (\<forall>j q. q < 3 \<longrightarrow> tgt m j q = (if j = i then DISCONNECTED else tgt n j q))"
  using create_agent_spec [OF assms] dead_tgt [OF assms(1)] by auto

lemma create_agent_correct_witness:
  "\<exists>i m. create_agent Con (pair_net Con Dup) = Some (i, m) \<and> \<not> live (pair_net Con Dup) i \<and> core_inv m"
proof -
  obtain i m where ret: "create_agent Con (pair_net Con Dup) = Some (i, m)"
    using create_agent_total [of "pair_net Con Dup" Con] by auto
  then show ?thesis
    using create_agent_correct [OF pair_net_core ret] by blast
qed

lemma pop_border_clean:
  assumes "round_protected n" "recycle_policy n = BorderClean" "pop_free_list n = (r, fl)"
  shows "case r of Some k \<Rightarrow> k \<in> set (free_list n) \<and> \<not> is_border_protected n k
    | None \<Rightarrow> (\<forall>c \<in> set (free_list n). is_border_protected n c)"
proof (cases "free_list n = []")
  case True
  then show ?thesis
    using assms by (auto simp: pop_free_list_def)
next
  case False
  define top rest where "top = last (free_list n)" and "rest = butlast (free_list n)"
  have fl: "set (free_list n) = insert top (set rest)"
    unfolding top_def rest_def by (rule set_butlast_insert [OF False])
  have pop: "pop_free_list n =
      (if is_border_protected n top
       then (case rposition (\<lambda>c. \<not> is_border_protected n c) rest of
               Some k \<Rightarrow> (Some (rest ! k), vec_remove k rest @ [top]) | None \<Rightarrow> (None, rest @ [top]))
       else (Some top, rest))"
    using assms(1,2) False unfolding top_def rest_def by (simp add: pop_free_list_def Let_def)
  show ?thesis
  proof (cases "rposition (\<lambda>c. \<not> is_border_protected n c) rest")
    case None
    then show ?thesis
      using assms(3) pop fl None [unfolded rposition_None] None by (auto split: if_splits)
  next
    case (Some k)
    then show ?thesis
      using assms(3) pop fl rposition_Some [OF Some] by (auto split: if_splits)
  qed
qed

text \<open>
  Recycling during a delta or streaming round: under \<open>DisableUnderDelta\<close> the identifier is
  fresh and the free-list is untouched; under \<open>BorderClean\<close> a border-protected identifier is never
  recycled, and a fresh identifier is issued only when every entry of the free-list is protected.
\<close>

lemma create_agent_policy:
  assumes "core_inv n" "round_protected n" "create_agent s n = Some (i, m)"
  shows "case recycle_policy n of
      DisableUnderDelta \<Rightarrow> i = next_id n \<and> free_list m = free_list n
    | BorderClean \<Rightarrow>
        (if i \<in> set (free_list n) then \<not> is_border_protected n i
         else i = next_id n \<and> (\<forall>c \<in> set (free_list n). is_border_protected n c))"
proof -
  have fresh: "next_id n \<notin> set (free_list n)"
    using core_invD(5) [OF assms(1)] by (auto simp: free_list_ok_def)
  show ?thesis
  proof (cases "recycle_policy n")
    case DisableUnderDelta
    then show ?thesis
      using assms(2,3) by (auto simp: create_agent_def pop_free_list_def alloc_fresh_def Let_def split: if_splits)
  next
    case BorderClean
    obtain r fl where pop: "pop_free_list n = (r, fl)"
      by (cases "pop_free_list n")
    have ret: "case r of Some k \<Rightarrow> i = k | None \<Rightarrow> i = next_id n"
      using assms(3) pop by (auto simp: create_agent_def alloc_fresh_def Let_def split: option.splits if_splits)
    show ?thesis
      using pop_border_clean [OF assms(2) BorderClean pop] ret fresh BorderClean
      by (auto split: option.splits)
  qed
qed

lemma create_agent_policy_witness:
  "\<exists>i m. create_agent Con ((pair_net Con Dup)\<lparr>is_in_delta_round := True\<rparr>) = Some (i, m) \<and> i = 2"
proof -
  let ?n = "(pair_net Con Dup)\<lparr>is_in_delta_round := True\<rparr>"
  have inv: "core_inv ?n"
    using pair_net_inv [of Con Dup] unfolding net_check_iff [symmetric] net_check_def
    by (intro net_invD(1)) (simp add: net_check_iff [symmetric] pair_net_def eval_simps)
  obtain i m where ret: "create_agent Con ?n = Some (i, m)"
    using create_agent_total [of ?n Con] by (auto simp: pair_net_def)
  then show ?thesis
    using create_agent_policy [OF inv _ ret] by (auto simp: round_protected_def pair_net_def net_new_def)
qed

text \<open>
  Outside protected rounds identifiers are recycled last-in first-out: creating an agent right
  after a removal reuses the removed identifier and restores the free-list.
\<close>

lemma remove_create_lifo:
  assumes "live n i" "\<not> round_protected n" "\<not> is_border_protected n i"
  shows "\<exists>m. create_agent s (remove_agent i n) = Some (i, m) \<and> free_list m = free_list n \<and>
    next_id m = next_id n \<and> sym_at m i = Some s"
proof -
  have fl: "free_list (remove_agent i n) = free_list n @ [i]"
    using assms(1,3) by (simp add: remove_agent_free_list)
  have np: "\<not> round_protected (remove_agent i n)"
    using assms(2) by (simp add: round_protected_def)
  have "pop_free_list (remove_agent i n) = (Some i, free_list n)"
    using np by (simp add: pop_free_list_def fl Let_def)
  then show ?thesis
    using reinit_slot_view(1) [of 0 i s] by (simp add: create_agent_def)
qed

lemma remove_create_lifo_witness:
  "\<exists>m. create_agent Era (remove_agent 1 (pair_net Con Dup)) = Some (1, m) \<and> sym_at m 1 = Some Era"
proof -
  have "\<not> round_protected (pair_net Con Dup)" "\<not> is_border_protected (pair_net Con Dup) 1"
    by (simp_all add: round_protected_def is_border_protected_def pair_net_def net_new_def)
  then show ?thesis
    using remove_create_lifo [of "pair_net Con Dup" 1 Era] by auto
qed

section \<open>Free-list validation and recovery\<close>

lemma validate_free_list_from_iff:
  "validate_free_list_from n seen is = Inr () \<longleftrightarrow>
     distinct is \<and> set is \<inter> seen = {} \<and> (\<forall>i \<in> set is. get_agent n i = None)"
  by (induction n seen "is" rule: validate_free_list_from.induct) auto

text \<open>
  Validation of a deserialised free-list accepts exactly the lists without duplicates whose entries
  are empty slots.
\<close>

lemma validate_free_list_iff:
  "validate_free_list n = Inr () \<longleftrightarrow>
     distinct (free_list n) \<and> set (free_list n) \<inter> dom (sym_at n) = {}"
  by (auto simp: validate_free_list_def validate_free_list_from_iff sym_at_def)

lemma drain_ids_set:
  "set (drain_ids n fl is) = set fl \<union> {i \<in> set is. get_agent n i = None}"
  by (induction n fl "is" rule: drain_ids.induct) auto

lemma drain_ids_distinct: "distinct fl \<Longrightarrow> distinct (drain_ids n fl is)"
  by (induction n fl "is" rule: drain_ids.induct) auto

text \<open>
  At a clean boundary every protected tombstone becomes recyclable again: the free-list gains
  exactly the dead identifiers of the border shadow, whatever the iteration order of the set, the
  protection is lifted and the arena invariant is kept.
\<close>

lemma reconstruct_drain_correct:
  assumes "core_inv n" "border_entries_shadow n = Some S" "set order = S" "\<forall>i \<in> S. i < next_id n"
  defines "m \<equiv> reconstruct_drain_tombstones order n"
  shows "core_inv m \<and> set (free_list m) = set (free_list n) \<union> {i \<in> S. \<not> live n i} \<and>
    (\<forall>i. \<not> is_border_protected m i) \<and> \<not> is_in_delta_round m"
proof -
  have same: "sym_at m = sym_at n" "tgt m = tgt n" "agents m = agents n" "ports m = ports n"
      "next_id m = next_id n" "get_agent m = get_agent n"
    using assms(2) by (auto simp: m_def reconstruct_drain_tombstones_def Let_def sym_at_def get_agent_def
        tgt_def get_target_def fun_eq_iff)
  have fl: "free_list m = drain_ids (n\<lparr>is_in_delta_round := False\<rparr>) (free_list n) order"
    using assms(2) by (simp add: m_def reconstruct_drain_tombstones_def Let_def)
  have agent: "get_agent (n\<lparr>is_in_delta_round := False\<rparr>) = get_agent n"
    by (simp add: get_agent_def fun_eq_iff)
  have set: "set (free_list m) = set (free_list n) \<union> {i \<in> S. \<not> live n i}"
    using assms(3) by (auto simp: fl drain_ids_set agent sym_at_def)
  have "free_list_ok m"
    using core_invD(5) [OF assms(1)] assms(4) drain_ids_distinct
    by (auto simp: free_list_ok_def set same) (simp add: fl)
  then have "core_inv m"
    using assms(1)
    unfolding core_inv_def slots_ok_def ports_clean_def symmetric_wires_def ids_below_def
      valid_port_def same by blast
  then show ?thesis
    using set assms(2) by (simp add: m_def reconstruct_drain_tombstones_def is_border_protected_def Let_def)
qed

lemma reconstruct_drain_correct_witness:
  "set (free_list (reconstruct_drain_tombstones [0] ((pair_net Con Dup)\<lparr>border_entries_shadow := Some {0}\<rparr>))) = {}"
proof -
  let ?n = "(pair_net Con Dup)\<lparr>border_entries_shadow := Some {0}\<rparr>"
  have "net_check ?n"
    by (simp add: pair_net_def eval_simps)
  then have inv: "core_inv ?n"
    by (simp add: net_check_iff net_inv_def)
  have "live ?n 0"
    by (simp add: pair_net_def sym_at_def eval_simps)
  then show ?thesis
    using reconstruct_drain_correct [OF inv, of "{0}" "[0]"] by (auto simp: pair_net_def net_new_def)
qed

section \<open>Union\<close>

lemma length_overlay_agents [simp]: "length (overlay_agents k xs acc) = length acc"
  by (induction k xs acc rule: overlay_agents.induct) (auto split: option.splits)

lemma length_overlay_ports [simp]: "length (overlay_ports k xs acc) = length acc"
  by (induction k xs acc rule: overlay_ports.induct) auto

lemma nth_overlay_agents:
  "i < length acc \<Longrightarrow> overlay_agents k xs acc ! i =
     (if k \<le> i \<and> i < k + length xs \<and> xs ! (i - k) \<noteq> None then xs ! (i - k) else acc ! i)"
proof (induction k xs acc rule: overlay_agents.induct)
  case (2 k slot slots acc)
  have shift: "(slot # slots) ! (i - k) = slots ! (i - Suc k)" if "k < i"
    using that by (metis Suc_diff_Suc nth_Cons_Suc)
  show ?case
    using 2 shift by (cases slot; cases "i = k"; cases "k < i") (auto simp: nth_list_update)
qed auto

lemma nth_overlay_ports:
  "i < length acc \<Longrightarrow> overlay_ports k xs acc ! i =
     (if k \<le> i \<and> i < k + length xs \<and> xs ! (i - k) \<noteq> DISCONNECTED then xs ! (i - k) else acc ! i)"
proof (induction k xs acc rule: overlay_ports.induct)
  case (2 k t ts acc)
  have shift: "(t # ts) ! (i - k) = ts ! (i - Suc k)" if "k < i"
    using that by (metis Suc_diff_Suc nth_Cons_Suc)
  show ?case
    using 2 shift by (cases "i = k"; cases "k < i") (auto simp: nth_list_update)
qed auto

lemma get_agent_union:
  "get_agent (net_union a b) i = (case get_agent b i of Some ag \<Rightarrow> Some ag | None \<Rightarrow> get_agent a i)"
  by (auto simp: net_union_def Let_def get_agent_def vec_get_def nth_overlay_agents nth_vec_resize
      split: option.splits)

lemma tgt_union:
  "tgt (net_union a b) i p = (if tgt b i p \<noteq> DISCONNECTED then tgt b i p else tgt a i p)"
  by (auto simp: net_union_def Let_def tgt_def get_target_def nth_overlay_ports nth_vec_resize)

lemma sym_union: "sym_at (net_union a b) i = (case sym_at b i of Some s \<Rightarrow> Some s | None \<Rightarrow> sym_at a i)"
  by (simp add: sym_at_def get_agent_union split: option.split)

lemma union_frame [simp]:
  "next_id (net_union a b) = max (next_id a) (next_id b)" "free_list (net_union a b) = free_list a"
  "root (net_union a b) = root a" "redex_queue (net_union a b) = redex_queue a @ redex_queue b"
  by (simp_all add: net_union_def Let_def)

text \<open>
  Union of two nets with disjoint live identifiers: every agent and every wire of either side
  is in the result and nothing else is, and the arena invariant holds, provided no live identifier
  of the right-hand net sits in the left-hand net's free-list.
\<close>

lemma net_union_correct:
  assumes "core_inv a" "core_inv b" "\<forall>i. live a i \<longrightarrow> \<not> live b i"
    and "\<forall>i \<in> set (free_list a). \<not> live b i"
  shows "core_inv (net_union a b) \<and>
    (\<forall>i. sym_at (net_union a b) i = (if live b i then sym_at b i else sym_at a i)) \<and>
    (\<forall>i p. p < 3 \<longrightarrow> tgt (net_union a b) i p = (if live b i then tgt b i p else tgt a i p))"
proof -
  note A = core_invD [OF assms(1)] and B = core_invD [OF assms(2)]
  have sym: "sym_at (net_union a b) i = (if live b i then sym_at b i else sym_at a i)" for i
    by (auto simp: sym_union split: option.split)
  have tgt: "tgt (net_union a b) i p = (if live b i then tgt b i p else tgt a i p)" if "p < 3" for i p
  proof (cases "live b i")
    case True
    then have "tgt a i p = DISCONNECTED"
      using assms(3) that by (intro dead_tgt [OF assms(1)]) blast+
    then show ?thesis
      using True by (simp add: tgt_union)
  qed (use dead_tgt [OF assms(2) _ that] in \<open>simp add: tgt_union\<close>)
  have owner: "live b j \<longleftrightarrow> live b i" if "p < 3" "tgt (net_union a b) i p = AgentPort j q" for i p j q
  proof (cases "live b i")
    case True
    then show ?thesis
      using that tgt tgt_valid(1) [OF assms(2) that(1), of i j q] by (auto dest: valid_port_live)
  next
    case False
    then show ?thesis
      using that tgt tgt_valid(1) [OF assms(1) that(1), of i j q] assms(3) by (auto dest: valid_port_live)
  qed
  have "symmetric_wires (net_union a b)"
    unfolding symmetric_wires_def
  proof (intro allI impI)
    fix i p j q
    assume p: "p < 3" and t: "tgt (net_union a b) i p = AgentPort j q"
    note own = owner [OF p t]
    have "tgt (if live b i then b else a) i p = AgentPort j q"
      using t tgt [OF p] by (auto split: if_splits)
    moreover have "symmetric_wires (if live b i then b else a)"
      using A(3) B(3) by simp
    ultimately have "q < 3 \<and> tgt (if live b i then b else a) j q = AgentPort i p \<and> (i, p) \<noteq> (j, q)"
      using symmetric_wiresD p by metis
    then show "q < 3 \<and> tgt (net_union a b) j q = AgentPort i p \<and> (i, p) \<noteq> (j, q)"
      using tgt [of q j] own by (cases "live b i") auto
  qed
  moreover have "ports_clean (net_union a b)"
    using A(2) B(2) tgt sym by (auto simp: ports_clean_def valid_port_def)
  moreover have "slots_ok (net_union a b)"
  proof -
    have "3 * length (agents (net_union a b)) \<le> length (ports (net_union a b))"
      using A(1) B(1) by (auto simp: slots_ok_def net_union_def Let_def PORTS_PER_SLOT_def max_def)
    then show ?thesis
      using A(1) B(1) by (auto simp: slots_ok_def get_agent_union split: option.splits)
  qed
  moreover have "ids_below (net_union a b)"
    using A(4) B(4) by (auto simp: ids_below_def sym less_max_iff_disj)
  moreover have "free_list_ok (net_union a b)"
    using A(5) assms(4) by (auto simp: free_list_ok_def sym less_max_iff_disj)
  ultimately show ?thesis
    using sym tgt by (simp add: core_inv_def)
qed

text \<open>A second pair, on identifiers 2 and 3.\<close>

definition upper_net :: net where
  "upper_net = net_new\<lparr>
     agents := [None, None, Some \<lparr>a_symbol = Era, a_id = 2\<rparr>, Some \<lparr>a_symbol = Era, a_id = 3\<rparr>],
     ports :=
       [DISCONNECTED, DISCONNECTED, DISCONNECTED, DISCONNECTED, DISCONNECTED, DISCONNECTED,
        AgentPort 3 0, DISCONNECTED, DISCONNECTED, AgentPort 2 0, DISCONNECTED, DISCONNECTED],
     redex_queue := [(2, 3)], next_id := 4\<rparr>"

lemma net_union_correct_witness:
  "core_inv (net_union (pair_net Con Dup) upper_net) \<and>
   sym_at (net_union (pair_net Con Dup) upper_net) 0 = Some Con \<and>
   sym_at (net_union (pair_net Con Dup) upper_net) 3 = Some Era"
proof -
  have "net_check upper_net"
    by (simp add: upper_net_def eval_simps)
  then have inv: "core_inv upper_net"
    by (simp add: net_check_iff net_inv_def)
  have syms: "sym_at upper_net 0 = None" "sym_at upper_net 1 = None" "sym_at upper_net 3 = Some Era"
    by (simp_all add: upper_net_def sym_at_def eval_simps)
  have "i < 2" if "live (pair_net Con Dup) i" for i
    using live_length [OF that] by (simp add: pair_net_def)
  then have "\<forall>i. live (pair_net Con Dup) i \<longrightarrow> \<not> live upper_net i"
    using syms by (auto simp: less_2_cases_iff)
  moreover have "free_list (pair_net Con Dup) = []"
    by (simp add: pair_net_def net_new_def)
  ultimately show ?thesis
    using net_union_correct [of "pair_net Con Dup" upper_net] inv syms by simp
qed

section \<open>Behavioural equality\<close>

lemma mset_insert_pair [simp]: "mset (insert_pair x xs) = add_mset x (mset xs)"
  by (induction xs) auto

lemma mset_sort_redexes [simp]: "mset (sort_redexes xs) = mset xs"
  by (induction xs) (simp_all add: sort_redexes_def)

fun pair_sorted :: "(nat \<times> nat) list \<Rightarrow> bool" where
  "pair_sorted (x # y # zs) \<longleftrightarrow>
     (fst x < fst y \<or> fst x = fst y \<and> snd x \<le> snd y) \<and> pair_sorted (y # zs)"
| "pair_sorted xs \<longleftrightarrow> True"

lemma pair_sorted_insert: "pair_sorted xs \<Longrightarrow> pair_sorted (insert_pair x xs)"
  by (induction xs rule: pair_sorted.induct) auto

lemma pair_sorted_sort: "pair_sorted (sort_redexes xs)"
  by (induction xs) (simp_all add: sort_redexes_def pair_sorted_insert)

abbreviation pair_le :: "nat \<times> nat \<Rightarrow> nat \<times> nat \<Rightarrow> bool" where
  "pair_le x y \<equiv> fst x < fst y \<or> fst x = fst y \<and> snd x \<le> snd y"

lemma pair_sorted_wrt: "pair_sorted xs \<longleftrightarrow> sorted_wrt pair_le xs"
proof (induction xs rule: pair_sorted.induct)
  case (1 x y zs)
  then show ?case
    by (cases x; cases y) fastforce
qed simp_all

lemma pair_sorted_unique:
  "pair_sorted xs \<Longrightarrow> pair_sorted ys \<Longrightarrow> mset xs = mset ys \<Longrightarrow> xs = ys"
proof (induction xs arbitrary: ys)
  case (Cons x xs)
  obtain y ys' where ys: "ys = y # ys'"
    using Cons.prems(3) by (cases ys) auto
  have "x \<in> set ys" "y \<in> set (x # xs)"
    using Cons.prems(3) ys by (metis list.set_intros(1) mset_eq_setD)+
  then have "pair_le y x" "pair_le x y"
    using Cons.prems(1,2) ys by (auto simp: pair_sorted_wrt)
  then have "x = y"
    by (cases x; cases y) auto
  then show ?case
    using Cons ys by (auto simp: pair_sorted_wrt)
qed simp

lemma sort_redexes_eq_iff: "sort_redexes xs = sort_redexes ys \<longleftrightarrow> mset xs = mset ys"
  using pair_sorted_unique [OF pair_sorted_sort pair_sorted_sort, of xs ys]
  by (metis mset_sort_redexes)

text \<open>
  Behavioural equality is what its comparison order suggests: equal live agents, equal wiring
  of live ports, equal queues as multisets, and equal root, counter, redirect ledger and free-list.
  Unlike the documentation of the function says, the free-list is compared as a list, not as a set.
\<close>

lemma is_behaviorally_equal_iff:
  assumes "slots_ok a" "slots_ok b"
  shows "is_behaviorally_equal a b \<longleftrightarrow>
    live_agents a = live_agents b \<and> (\<forall>i p. valid_port a i p \<longrightarrow> tgt a i p = tgt b i p) \<and>
    mset (redex_queue a) = mset (redex_queue b) \<and> root a = root b \<and> next_id a = next_id b \<and>
    freeport_redirects a = freeport_redirects b \<and> free_list a = free_list b"
proof -
  have "same_ports a b \<longleftrightarrow> (\<forall>i p. valid_port a i p \<longrightarrow> tgt a i p = tgt b i p)"
    unfolding same_ports_def
    using all_live_ports [OF assms(1), where P = "\<lambda>i p. get_target a (AgentPort i p) = get_target b (AgentPort i p)"]
    by (simp add: tgt_def)
  then show ?thesis
    by (auto simp: is_behaviorally_equal_def sort_redexes_eq_iff)
qed

lemma is_behaviorally_equal_iff_witness:
  "is_behaviorally_equal (pair_net Con Dup) ((pair_net Con Dup)\<lparr>agents := agents (pair_net Con Dup) @ [None],
     ports := ports (pair_net Con Dup) @ [DISCONNECTED, DISCONNECTED, DISCONNECTED]\<rparr>)"
proof -
  let ?a = "pair_net Con Dup"
  let ?b = "?a\<lparr>agents := agents ?a @ [None], ports := ports ?a @ [DISCONNECTED, DISCONNECTED, DISCONNECTED]\<rparr>"
  have "net_check ?b"
    by (simp add: pair_net_def eval_simps)
  then have ok: "slots_ok ?a" "slots_ok ?b"
    using core_invD(1) pair_net_core by (auto simp: net_check_iff net_inv_def)
  have "tgt ?a i p = tgt ?b i p" for i p
    by (auto simp: tgt_def get_target_def Let_def nth_append nth_Cons split: nat.splits)
  moreover have "live_agents ?a = live_agents ?b"
    by (simp add: live_agents_def map_filter_def)
  ultimately show ?thesis
    using is_behaviorally_equal_iff [OF ok] by simp
qed

end
