(* ===== verification/Engine.thy ===== *)
theory Engine
  imports Net_Inv
begin

text \<open>
  Rule dispatch (\<open>reduction/dispatch.rs\<close>) and the reduction loop (\<open>reduction/engine.rs\<close>): the two
  dispatch tables, the normalisation of a pair, one reduction step with its stale-redex filter,
  the bounded and unbounded loops and the strict-BSP single pass, each with its statistics.

  \<open>reduce_all\<close> need not terminate.  It is the least fixed point in the option order: the value
  \<open>None\<close> is divergence, \<open>Some None\<close> the identifier-exhaustion panic of \<open>create_agent\<close>.
\<close>

section \<open>Dispatch\<close>

datatype rule = Anni | Comm | Eras | Void

datatype specific_rule = ConCon | ConDup | ConEra | DupDup | DupEra | EraEra

definition DISPATCH_TABLE :: "rule list list" where
  "DISPATCH_TABLE = [[Anni, Comm, Eras], [Comm, Anni, Eras], [Eras, Eras, Void]]"

definition SPECIFIC_RULE_TABLE :: "specific_rule list list" where
  "SPECIFIC_RULE_TABLE =
     [[ConCon, ConDup, ConEra], [ConDup, DupDup, DupEra], [ConEra, DupEra, EraEra]]"

definition get_rule :: "symbol \<Rightarrow> symbol \<Rightarrow> rule" where
  "get_rule a b = DISPATCH_TABLE ! symbol_code a ! symbol_code b"

definition get_specific_rule :: "symbol \<Rightarrow> symbol \<Rightarrow> specific_rule" where
  "get_specific_rule a b = SPECIFIC_RULE_TABLE ! symbol_code a ! symbol_code b"

text \<open>\<open>agents[i].unwrap().symbol\<close>; \<open>None\<close> is the panic.\<close>

definition symbol_of :: "net \<Rightarrow> agent_id \<Rightarrow> symbol option" where
  "symbol_of n i = map_option a_symbol (get_agent n i)"

definition normalize_pair :: "agent_id \<Rightarrow> agent_id \<Rightarrow> net \<Rightarrow> (agent_id \<times> agent_id) option" where
  "normalize_pair a b n = do {
     sym_a \<leftarrow> symbol_of n a;
     sym_b \<leftarrow> symbol_of n b;
     Some (if symbol_code sym_a \<le> symbol_code sym_b then (a, b) else (b, a))
   }"

section \<open>One step\<close>

datatype step_result = Reduced rule specific_rule | NormalForm

definition apply_rule :: "rule \<Rightarrow> agent_id \<Rightarrow> agent_id \<Rightarrow> net \<Rightarrow> net option" where
  "apply_rule r a b n =
     (case r of
        Anni \<Rightarrow> interact_anni a b n
      | Comm \<Rightarrow> interact_comm a b n
      | Eras \<Rightarrow> interact_eras a b n
      | Void \<Rightarrow> Some (interact_void a b n))"

text \<open>The body of the loop once a valid pair has been dequeued.\<close>

definition reduce_pair :: "agent_id \<Rightarrow> agent_id \<Rightarrow> net \<Rightarrow> (step_result \<times> net) option" where
  "reduce_pair a b n = do {
     (a, b) \<leftarrow> normalize_pair a b n;
     sym_a \<leftarrow> symbol_of n a;
     sym_b \<leftarrow> symbol_of n b;
     let r = get_rule sym_a sym_b;
     m \<leftarrow> apply_rule r a b n;
     Some (Reduced r (get_specific_rule sym_a sym_b), m)
   }"

function reduce_step :: "net \<Rightarrow> (step_result \<times> net) option" where
  "reduce_step n =
     (case redex_queue n of
        [] \<Rightarrow> Some (NormalForm, n)
      | (a, b) # q \<Rightarrow>
          (let n1 = n\<lparr>redex_queue := q\<rparr>
           in if \<not> is_valid_redex n1 a b then reduce_step n1 else reduce_pair a b n1))"
  by pat_completeness auto

termination
  by (relation "measure (\<lambda>n. length (redex_queue n))") auto

declare reduce_step.simps [simp del]

section \<open>Statistics and loops\<close>

record reduction_stats =
  total_interactions :: nat
  anni_count :: nat
  comm_count :: nat
  eras_count :: nat
  void_count :: nat
  interactions_by_rule :: "nat list"

definition stats_zero :: reduction_stats where
  "stats_zero = \<lparr>total_interactions = 0, anni_count = 0, comm_count = 0, eras_count = 0,
                 void_count = 0, interactions_by_rule = replicate 6 0\<rparr>"

fun specific_code :: "specific_rule \<Rightarrow> nat" where
  "specific_code ConCon = 0"
| "specific_code ConDup = 1"
| "specific_code ConEra = 2"
| "specific_code DupDup = 3"
| "specific_code DupEra = 4"
| "specific_code EraEra = 5"

definition record_rule :: "rule \<Rightarrow> specific_rule \<Rightarrow> reduction_stats \<Rightarrow> reduction_stats" where
  "record_rule r sp st =
     (let st1 = st\<lparr>total_interactions := total_interactions st + 1\<rparr>;
          st2 = (case r of
                   Anni \<Rightarrow> st1\<lparr>anni_count := anni_count st1 + 1\<rparr>
                 | Comm \<Rightarrow> st1\<lparr>comm_count := comm_count st1 + 1\<rparr>
                 | Eras \<Rightarrow> st1\<lparr>eras_count := eras_count st1 + 1\<rparr>
                 | Void \<Rightarrow> st1\<lparr>void_count := void_count st1 + 1\<rparr>);
          k = specific_code sp
      in st2\<lparr>interactions_by_rule :=
                (interactions_by_rule st2)[k := interactions_by_rule st2 ! k + 1]\<rparr>)"

partial_function (option) reduce_all_from ::
  "reduction_stats \<Rightarrow> net \<Rightarrow> (reduction_stats \<times> net) option option" where
  "reduce_all_from st n =
     (case reduce_step n of
        None \<Rightarrow> Some None
      | Some (NormalForm, m) \<Rightarrow> Some (Some (st, m))
      | Some (Reduced r sp, m) \<Rightarrow> reduce_all_from (record_rule r sp st) m)"

definition reduce_all :: "net \<Rightarrow> (reduction_stats \<times> net) option option" where
  "reduce_all n = reduce_all_from stats_zero n"

fun reduce_n_from :: "reduction_stats \<Rightarrow> nat \<Rightarrow> net \<Rightarrow> (reduction_stats \<times> net) option" where
  "reduce_n_from st 0 n = Some (st, n)"
| "reduce_n_from st (Suc budget) n =
     (case reduce_step n of
        None \<Rightarrow> None
      | Some (NormalForm, m) \<Rightarrow> Some (st, m)
      | Some (Reduced r sp, m) \<Rightarrow> reduce_n_from (record_rule r sp st) budget m)"

definition reduce_n :: "net \<Rightarrow> nat \<Rightarrow> (reduction_stats \<times> net) option" where
  "reduce_n n budget = reduce_n_from stats_zero budget n"

text \<open>The loop of \<open>reduce_border_once\<close> over the snapshot of the queue.\<close>

fun border_once_from ::
  "(agent_id \<times> agent_id) list \<Rightarrow> (agent_id \<times> agent_id) list \<Rightarrow> reduction_stats \<Rightarrow> net \<Rightarrow>
   (reduction_stats \<times> net) option" where
  "border_once_from [] deferred st n =
     Some (st, n\<lparr>redex_queue := deferred @ redex_queue n\<rparr>)"
| "border_once_from ((a, b) # initial) deferred st n =
     (if \<not> is_valid_redex n a b then border_once_from initial deferred st n
      else
        (let deferred1 = deferred @ redex_queue n
         in case reduce_step (n\<lparr>redex_queue := [(a, b)]\<rparr>) of
              None \<Rightarrow> None
            | Some (NormalForm, m) \<Rightarrow> border_once_from initial deferred1 st m
            | Some (Reduced r sp, m) \<Rightarrow>
                border_once_from initial deferred1 (record_rule r sp st) m))"

definition reduce_border_once :: "net \<Rightarrow> (reduction_stats \<times> net) option" where
  "reduce_border_once n =
     border_once_from (redex_queue n) [] stats_zero (n\<lparr>redex_queue := []\<rparr>)"

section \<open>Dispatch is symmetric and exhaustive\<close>

lemma get_rule_simps [simp]:
  "get_rule Con Con = Anni" "get_rule Dup Dup = Anni" "get_rule Era Era = Void"
  "get_rule Con Dup = Comm" "get_rule Dup Con = Comm" "get_rule Con Era = Eras"
  "get_rule Era Con = Eras" "get_rule Dup Era = Eras" "get_rule Era Dup = Eras"
  by (simp_all add: get_rule_def DISPATCH_TABLE_def)

lemma get_specific_rule_simps [simp]:
  "get_specific_rule Con Con = ConCon" "get_specific_rule Dup Dup = DupDup"
  "get_specific_rule Era Era = EraEra" "get_specific_rule Con Dup = ConDup"
  "get_specific_rule Dup Con = ConDup" "get_specific_rule Con Era = ConEra"
  "get_specific_rule Era Con = ConEra" "get_specific_rule Dup Era = DupEra"
  "get_specific_rule Era Dup = DupEra"
  by (simp_all add: get_specific_rule_def SPECIFIC_RULE_TABLE_def)

lemma symbol_of_sym_at [simp]: "symbol_of = sym_at"
  by (simp add: symbol_of_def sym_at_def fun_eq_iff)

text \<open>A dequeued pair is reduced exactly when it is an active pair.\<close>

lemma is_valid_redex_iff:
  assumes "core_inv n"
  shows "is_valid_redex n a b \<longleftrightarrow> active_pair n a b"
  using active_pairD(1,2) [OF assms, of a b] live_iff_get_agent [of n a] live_iff_get_agent [of n b]
  by (auto simp: is_valid_redex_def active_pair_def tgt_def)

end
