(* ===== verification/Engine_Laws.thy ===== *)
theory Engine_Laws
  imports Engine
begin

text \<open>
  Correctness of the reduction engine: what one application of a rule does, that a step keeps the
  invariants and never loses an active pair, how the number of agents changes, that the statistics
  add up, and that reduction terminates on nets without duplicators.
\<close>

section \<open>Outcome of a rule\<close>

text \<open>The agents a rule may create for a pair of symbols \<open>s \<le> t\<close>.\<close>

fun products :: "symbol \<Rightarrow> symbol \<Rightarrow> symbol list list" where
  "products Con Dup = [[], [Con, Con], [Dup, Dup], [Dup, Dup, Con, Con]]"
| "products Con Era = [[], [Era, Era]]"
| "products Dup Era = [[], [Era, Era]]"
| "products s t = [[]]"

lemma port_cases: "0 < p \<Longrightarrow> p < 3 \<Longrightarrow> p = 1 \<or> p = (2 :: nat)"
  by auto

lemma valid_aux: "0 < p \<Longrightarrow> valid_port n c p \<Longrightarrow> p = 1 \<or> p = 2"
  using valid_port_less port_cases by blast

lemma binary_aux:
  assumes "sym_at n c = Some s" "s \<noteq> Era"
  shows "valid_port n c 1" "valid_port n c 2"
  using assms by (cases s; simp add: valid_port_def)+

lemma uses_allI:
  assumes ends: "\<And>x. x \<in> set (all_ends ws) \<Longrightarrow> (\<exists>i \<in> set is. \<exists>p. x = AgentPort i p) \<or>
      (\<exists>c \<in> {a, b}. \<exists>s p. sym_at n c = Some s \<and> s \<noteq> Era \<and> p \<in> {1, 2} \<and> x = tgt n c p \<and> \<not> owner_in {a, b} x)"
    and nbs: "\<And>c p. c \<in> {a, b} \<Longrightarrow> p \<in> {1, 2} \<Longrightarrow> valid_port n c p \<Longrightarrow>
      \<not> owner_in {a, b} (tgt n c p) \<Longrightarrow> tgt n c p \<in> set (all_ends ws)"
    and news: "\<And>k p. k < length is \<Longrightarrow> p < total_ports (ss ! k) \<Longrightarrow> AgentPort (is ! k) p \<in> set (all_ends ws)"
  shows "uses_all n a b is ss ws"
proof -
  have "(\<exists>i \<in> set is. \<exists>p. x = AgentPort i p) \<or>
      (\<exists>c \<in> {a, b}. \<exists>p. 0 < p \<and> valid_port n c p \<and> x = tgt n c p \<and> \<not> owner_in {a, b} x)"
    if "x \<in> set (all_ends ws)" for x
    using ends [OF that] binary_aux by (metis insert_iff singletonD zero_less_numeral zero_less_one)
  moreover have "tgt n c p \<in> set (all_ends ws)"
    if "c \<in> {a, b}" "0 < p" "valid_port n c p" "\<not> owner_in {a, b} (tgt n c p)" for c p
    using nbs [of c p] valid_aux [OF that(2,3)] that by auto
  ultimately show ?thesis
    using news by (simp add: uses_all_def)
qed

lemma self_loop_owner: "self_loop n c \<Longrightarrow> p \<in> {1, 2} \<Longrightarrow> c \<in> X \<Longrightarrow> owner_in X (tgt n c p)"
  by (auto simp: self_loop_def tgt_def)

lemma anni_uses_all:
  assumes inv: "core_inv n" and pair: "active_pair n a b" and cross: "no_cross n a b"
    and syms: "sym_at n a = Some s" "sym_at n b = Some s" "s \<noteq> Era"
  shows "uses_all n a b [] [] (anni_wires n s a b)"
proof (rule uses_allI)
  note out = aux_outside [OF inv pair cross] aux_outside' [OF inv pair cross]
  fix x
  assume "x \<in> set (all_ends (anni_wires n s a b))"
  then have "x \<in> {tgt n a 1, tgt n a 2} \<and> \<not> self_loop n a \<or> x \<in> {tgt n b 1, tgt n b 2} \<and> \<not> self_loop n b"
    by (auto simp: anni_wires_def split: if_splits)
  then have "\<exists>c \<in> {a, b}. \<exists>p \<in> {1, 2}. x = tgt n c p \<and> \<not> owner_in {a, b} x"
    using out by (metis insertI1 insertI2 insert_iff singletonD)
  then show "(\<exists>i \<in> set []. \<exists>p. x = AgentPort i p) \<or> (\<exists>c \<in> {a, b}. \<exists>s p.
      sym_at n c = Some s \<and> s \<noteq> Era \<and> p \<in> {1, 2} \<and> x = tgt n c p \<and> \<not> owner_in {a, b} x)"
    using syms by blast
next
  fix c p
  assume "c \<in> {a, b}" "p \<in> {1, 2}" "\<not> owner_in {a, b} (tgt n c p)"
  then show "tgt n c p \<in> set (all_ends (anni_wires n s a b))"
    using self_loop_owner [of n c p "{a, b}"] by (auto simp: anni_wires_def)
qed simp

lemma eras_uses_all:
  assumes inv: "core_inv n" and pair: "active_pair n a b"
    and syms: "sym_at n a = Some s" "s \<noteq> Era" "sym_at n b = Some Era" and noloop: "\<not> self_loop n a"
    and ids: "is = [e, f]"
  shows "uses_all n a b is [Era, Era] [(AgentPort (is ! 0) 0, tgt n a 1), (AgentPort (is ! 1) 0, tgt n a 2)]"
    (is "uses_all _ _ _ _ _ ?ws")
proof (rule uses_allI)
  note out = aux_outside [OF inv pair era_no_cross [OF inv syms(3)] noloop]
  fix x
  assume "x \<in> set (all_ends ?ws)"
  then show "(\<exists>i \<in> set is. \<exists>p. x = AgentPort i p) \<or> (\<exists>c \<in> {a, b}. \<exists>s p.
      sym_at n c = Some s \<and> s \<noteq> Era \<and> p \<in> {1, 2} \<and> x = tgt n c p \<and> \<not> owner_in {a, b} x)"
    using out syms(1,2) by (fastforce simp: ids)
next
  fix c p
  assume "c \<in> {a, b}" "p \<in> {1, 2}" "valid_port n c p"
  then show "tgt n c p \<in> set (all_ends ?ws)"
    using syms(3) by (auto simp: valid_port_def)
qed (auto simp: ids less_Suc_eq)

lemma loop_uses_all:
  assumes "self_loop n a" "self_loop n b \<or> sym_at n b = Some Era"
  shows "uses_all n a b [] [] []"
proof (rule uses_allI)
  fix c p
  assume c: "c \<in> {a, b}" "p \<in> {1, 2}" "valid_port n c p" "\<not> owner_in {a, b} (tgt n c p)"
  then have "\<not> self_loop n c"
    using self_loop_owner by blast
  then show "tgt n c p \<in> set (all_ends [])"
    using assms c by (auto simp: valid_port_def)
qed simp_all

lemma copy_uses_all:
  assumes c: "{c, d} = {a, b}" "sym_at n c = Some s" "s \<noteq> Era"
    and loop: "self_loop n d" and out: "\<And>p. p = 1 \<or> p = 2 \<Longrightarrow> \<not> owner_in {a, b} (tgt n c p)"
    and ids: "is = [e, f]"
  shows "uses_all n a b is [u, u] (copy_wires n c is)"
proof (rule uses_allI)
  fix x
  assume "x \<in> set (all_ends (copy_wires n c is))"
  then have "(\<exists>i \<in> set is. \<exists>p. x = AgentPort i p) \<or> x = tgt n c 1 \<or> x = tgt n c 2"
    by (auto simp: copy_wires_def ids)
  moreover have "c \<in> {a, b}"
    using c(1) by blast
  ultimately show "(\<exists>i \<in> set is. \<exists>p. x = AgentPort i p) \<or> (\<exists>c \<in> {a, b}. \<exists>s p.
      sym_at n c = Some s \<and> s \<noteq> Era \<and> p \<in> {1, 2} \<and> x = tgt n c p \<and> \<not> owner_in {a, b} x)"
    using c(2,3) out by blast
next
  fix c' p
  assume c': "c' \<in> {a, b}" "p \<in> {1, 2}" "\<not> owner_in {a, b} (tgt n c' p)"
  then have "c' \<noteq> d"
    using loop self_loop_owner by blast
  then have "c' = c"
    using c' c(1) by blast
  then show "tgt n c' p \<in> set (all_ends (copy_wires n c is))"
    using c'(2) by (auto simp: copy_wires_def)
next
  fix k p
  assume "k < length is" "p < total_ports ([u, u] ! k)"
  then have "k = 0 \<or> k = 1" "p = 0 \<or> p = 1 \<or> p = 2"
    using total_ports_le [of "[u, u] ! k"] by (auto simp: ids)
  then show "AgentPort (is ! k) p \<in> set (all_ends (copy_wires n c is))"
    by (auto simp: copy_wires_def ids)
qed

lemma comm_uses_all:
  assumes inv: "core_inv n" and pair: "active_pair n a b" and cross: "no_cross n a b"
    and syms: "sym_at n a = Some Con" "sym_at n b = Some Dup"
    and noloop: "\<not> self_loop n a" "\<not> self_loop n b"
    and ids: "is = [p1, q1, r1, s1]"
  shows "uses_all n a b is [Dup, Dup, Con, Con] (comm_wires n a b is)"
proof (rule uses_allI)
  note out = aux_outside [OF inv pair cross noloop(1)] aux_outside' [OF inv pair cross noloop(2)]
  fix x
  assume "x \<in> set (all_ends (comm_wires n a b is))"
  then have "(\<exists>i \<in> set is. \<exists>p. x = AgentPort i p) \<or> (\<exists>c \<in> {a, b}. \<exists>p \<in> {1, 2}. x = tgt n c p)"
    by (auto simp: comm_wires_def ids)
  moreover have "\<not> owner_in {a, b} (tgt n c p)" if "c \<in> {a, b}" "p \<in> {1, 2}" for c p
    using that out [of p] by auto
  ultimately show "(\<exists>i \<in> set is. \<exists>p. x = AgentPort i p) \<or> (\<exists>c \<in> {a, b}. \<exists>s p.
      sym_at n c = Some s \<and> s \<noteq> Era \<and> p \<in> {1, 2} \<and> x = tgt n c p \<and> \<not> owner_in {a, b} x)"
    using syms by blast
next
  fix c p :: nat
  assume "c \<in> {a, b}" "p \<in> {1, 2}"
  then show "tgt n c p \<in> set (all_ends (comm_wires n a b is))"
    by (auto simp: comm_wires_def)
next
  fix k p
  assume k: "k < length is" "p < total_ports ([Dup, Dup, Con, Con] ! k)"
  then have "k = 0 \<or> k = 1 \<or> k = 2 \<or> k = 3" "p = 0 \<or> p = 1 \<or> p = 2"
    using total_ports_le [of "[Dup, Dup, Con, Con] ! k"] by (auto simp: ids)
  then show "AgentPort (is ! k) p \<in> set (all_ends (comm_wires n a b is))"
    by (elim disjE) (simp_all add: comm_wires_def ids)
qed

text \<open>
  What one rule application amounts to.  Only commutation needs the pair to be free of cross wires
  for the wiring to be well formed; leaving no port dangling needs it for annihilation too.
\<close>

definition rule_outcome :: "net \<Rightarrow> agent_id \<Rightarrow> agent_id \<Rightarrow> symbol \<Rightarrow> symbol \<Rightarrow> net \<Rightarrow> bool" where
  "rule_outcome n a b s t m \<longleftrightarrow>
     (\<exists>is ss ws. rewired n a b is ss ws m \<and> ss \<in> set (products s t) \<and>
                 (no_cross n a b \<longrightarrow> uses_all n a b is ss ws))"

lemma rule_outcomeI:
  "rewired n a b is ss ws m \<Longrightarrow> ss \<in> set (products s t) \<Longrightarrow>
   (no_cross n a b \<Longrightarrow> uses_all n a b is ss ws) \<Longrightarrow> rule_outcome n a b s t m"
  by (auto simp: rule_outcome_def)

lemma products_empty [simp]: "[] \<in> set (products s t)"
  by (cases s; cases t) simp_all

lemma products_era [simp]: "s \<noteq> Era \<Longrightarrow> [Era, Era] \<in> set (products s Era)"
  by (cases s) simp_all

lemma rewired_nothing:
  assumes "core_inv n" "active_pair n a b"
  shows "rewired n a b [] [] [] (remove_agent b (remove_agent a n))"
  using rewiredI [OF assms, of "[]" "[]" _ "[]"] by simp

lemma two_ids:
  assumes "core_inv n" "create_agents [s, t] n = Some (is, m)"
  obtains e f where "is = [e, f]"
  using create_agents_view(1) [OF assms] by (auto simp: length_Suc_conv)

lemma anni_outcome:
  assumes inv: "core_inv n" and pair: "active_pair n a b"
    and syms: "sym_at n a = Some s" "sym_at n b = Some s" "s \<noteq> Era"
  obtains m where "interact_anni a b n = Some m" "rule_outcome n a b s s m"
proof
  show "interact_anni a b n = Some (link_all (anni_wires n s a b) (remove_agent b (remove_agent a n)))"
    using syms by (intro interact_anni_links)
  show "rule_outcome n a b s s (link_all (anni_wires n s a b) (remove_agent b (remove_agent a n)))"
    using anni_uses_all [OF inv pair _ syms] anni_links_clean [OF inv pair]
    by (intro rule_outcomeI [OF anni_rewired [OF inv pair]]) auto
qed

lemma void_outcome:
  assumes inv: "core_inv n" and pair: "active_pair n a b"
    and syms: "sym_at n a = Some Era" "sym_at n b = Some Era"
  shows "rule_outcome n a b Era Era (interact_void a b n)"
proof (rule rule_outcomeI)
  show "rewired n a b [] [] [] (interact_void a b n)"
    using rewired_nothing [OF inv pair] by (simp add: interact_void_def)
  show "uses_all n a b [] [] []"
    by (rule uses_allI) (use syms in \<open>auto simp: valid_port_def\<close>)
qed simp

lemma eras_outcome:
  assumes inv: "core_inv n" and pair: "active_pair n a b"
    and syms: "sym_at n a = Some s" "s \<noteq> Era" "sym_at n b = Some Era"
    and ret: "interact_eras a b n = Some m"
  shows "rule_outcome n a b s Era m"
proof (cases "self_loop n a")
  case True
  then have "m = remove_agent b (remove_agent a n)"
    using ret by (simp add: interact_eras_def Let_def)
  then show ?thesis
    using rule_outcomeI [OF rewired_nothing [OF inv pair]] loop_uses_all [OF True] syms by simp
next
  case False
  obtain "is" m' where new: "create_agents [Era, Era] (remove_agent b (remove_agent a n)) = Some (is, m')"
    and m: "m = link_all [(AgentPort (is ! 0) 0, tgt n a 1), (AgentPort (is ! 1) 0, tgt n a 2)] m'"
    using ret unfolding interact_eras_links [OF False] by (auto split: option.splits)
  obtain e f where ids: "is = [e, f]"
    using two_ids [OF remove_pair_view(1) [OF inv active_pairD(1-3) [OF inv pair]] new] .
  show ?thesis
    unfolding m using eras_uses_all [OF inv pair syms False ids] syms(2)
    by (intro rule_outcomeI [OF eras_rewired [OF inv pair syms(3) False new]]) simp_all
qed

lemma comm_outcome:
  assumes inv: "core_inv n" and pair: "active_pair n a b" and cross: "no_cross n a b"
    and syms: "sym_at n a = Some Con" "sym_at n b = Some Dup"
    and ret: "interact_comm a b n = Some m"
  shows "rule_outcome n a b Con Dup m"
proof -
  note core2 = remove_pair_view(1) [OF inv active_pairD(1-3) [OF inv pair]]
  note links = interact_comm_links [OF core2]
  note out = aux_outside [OF inv pair cross] aux_outside' [OF inv pair cross]
  consider (both) "self_loop n a" "self_loop n b" | (con) "self_loop n a" "\<not> self_loop n b"
    | (dup) "\<not> self_loop n a" "self_loop n b" | (none) "\<not> self_loop n a" "\<not> self_loop n b"
    by blast
  then show ?thesis
  proof cases
    case both
    then show ?thesis
      using ret links(1) rule_outcomeI [OF rewired_nothing [OF inv pair]] loop_uses_all [OF both(1)]
      by simp
  next
    case con
    obtain "is" m' where new: "create_agents [Con, Con] (remove_agent b (remove_agent a n)) = Some (is, m')"
      and m: "m = link_all (copy_wires n b is) m'"
      using ret links(2) [OF con] by (auto split: option.splits)
    obtain e f where ids: "is = [e, f]"
      using two_ids [OF core2 new] .
    show ?thesis
      unfolding m
    proof (rule rule_outcomeI)
      show "rewired n a b is [Con, Con] (copy_wires n b is) (link_all (copy_wires n b is) m')"
        using out(2) [OF con(2)] by (intro copy_rewired [OF inv pair _ _ _ new]) simp_all
      show "uses_all n a b is [Con, Con] (copy_wires n b is)"
        using copy_uses_all [OF _ syms(2) _ con(1) out(2) [OF con(2)] ids] by auto
    qed simp
  next
    case dup
    obtain "is" m' where new: "create_agents [Dup, Dup] (remove_agent b (remove_agent a n)) = Some (is, m')"
      and m: "m = link_all (copy_wires n a is) m'"
      using ret links(3) [OF dup] by (auto split: option.splits)
    obtain e f where ids: "is = [e, f]"
      using two_ids [OF core2 new] .
    show ?thesis
      unfolding m
    proof (rule rule_outcomeI)
      show "rewired n a b is [Dup, Dup] (copy_wires n a is) (link_all (copy_wires n a is) m')"
        using out(1) [OF dup(1)] by (intro copy_rewired [OF inv pair _ _ _ new]) simp_all
      show "uses_all n a b is [Dup, Dup] (copy_wires n a is)"
        using copy_uses_all [OF _ syms(1) _ dup(2) out(1) [OF dup(1)] ids] by auto
    qed simp
  next
    case none
    obtain "is" m' where
      new: "create_agents [Dup, Dup, Con, Con] (remove_agent b (remove_agent a n)) = Some (is, m')"
      and m: "m = link_all (comm_wires n a b is) m'"
      using ret links(4) [OF none] by (auto split: option.splits)
    obtain p q r s where ids: "is = [p, q, r, s]"
      using create_agents_view(1) [OF core2 new] by (auto simp: length_Suc_conv)
    show ?thesis
      unfolding m using comm_uses_all [OF inv pair cross syms none ids]
      by (intro rule_outcomeI [OF comm_rewired [OF inv pair cross none new]]) simp_all
  qed
qed

section \<open>Counting agents\<close>

text \<open>The sum of a weight over the live agents; weight one counts them.\<close>

definition map_weight :: "('s \<Rightarrow> nat) \<Rightarrow> (nat \<rightharpoonup> 's) \<Rightarrow> nat" where
  "map_weight f g = (\<Sum>i \<in> dom g. f (the (g i)))"

lemma map_weight_remove:
  assumes "finite (dom g)" "g a = Some s"
  shows "map_weight f g = f s + map_weight f (g(a := None))"
proof -
  have "map_weight f g = f (the (g a)) + (\<Sum>i \<in> dom g - {a}. f (the (g i)))"
    unfolding map_weight_def using assms by (intro sum.remove) auto
  also have "(\<Sum>i \<in> dom g - {a}. f (the (g i))) = map_weight f (g(a := None))"
    unfolding map_weight_def by (intro sum.cong) auto
  finally show ?thesis
    using assms(2) by simp
qed

lemma map_weight_add:
  assumes "finite (dom g)" "g a = None"
  shows "map_weight f (g(a \<mapsto> s)) = f s + map_weight f g"
  using map_weight_remove [of "g(a \<mapsto> s)" a s f] assms by (simp add: fun_upd_idem)

lemma map_weight_upds:
  assumes "finite (dom g)" "distinct is" "length is = length ss" "\<forall>i \<in> set is. g i = None"
  shows "map_weight f (g(is [\<mapsto>] ss)) = map_weight f g + sum_list (map f ss)"
  using assms
proof (induction "is" arbitrary: g ss)
  case (Cons i "is")
  obtain s ss' where ss: "ss = s # ss'"
    using Cons.prems(3) by (cases ss) auto
  have "map_weight f ((g(i \<mapsto> s))(is [\<mapsto>] ss')) = map_weight f (g(i \<mapsto> s)) + sum_list (map f ss')"
  proof (rule Cons.IH)
    show "finite (dom (g(i \<mapsto> s)))"
      using Cons.prems(1) by simp
  qed (use Cons.prems in \<open>auto simp: ss\<close>)
  then show ?case
    using map_weight_add [of g i f s] Cons.prems by (simp add: ss map_upds_Cons del: map_upds_twist)
qed simp

lemma finite_live: "finite (dom (sym_at n))"
proof (rule finite_subset)
  show "dom (sym_at n) \<subseteq> {..<length (agents n)}"
    using live_length by (auto simp: dom_def)
qed simp

lemma count_live_weight: "count_live_agents n = map_weight (\<lambda>_. 1) (sym_at n)"
proof -
  have "{i. i < length (agents n) \<and> agents n ! i \<noteq> None} = dom (sym_at n)"
    by (auto simp: sym_at_def get_agent_def vec_get_def split: if_splits)
  then show ?thesis
    by (simp add: count_live_agents_def map_weight_def length_filter_conv_card)
qed

text \<open>The population after a rule: the pair is gone, the products are there.\<close>

definition repopulated :: "net \<Rightarrow> agent_id \<Rightarrow> agent_id \<Rightarrow> symbol list \<Rightarrow> net \<Rightarrow> bool" where
  "repopulated n a b ss m \<longleftrightarrow>
     (\<exists>is. distinct is \<and> length is = length ss \<and> (\<forall>i \<in> set is. live n i \<longrightarrow> i \<in> {a, b}) \<and>
           sym_at m = ((sym_at n)(a := None, b := None))(is [\<mapsto>] ss))"

lemma repopulated_weight:
  assumes "repopulated n a b ss m" "sym_at n a = Some s" "sym_at n b = Some t" "a \<noteq> b"
  shows "map_weight f (sym_at m) + f s + f t = map_weight f (sym_at n) + sum_list (map f ss)"
proof -
  let ?g = "(sym_at n)(a := None, b := None)"
  obtain "is" where ids: "distinct is" "length is = length ss" "\<forall>i \<in> set is. live n i \<longrightarrow> i \<in> {a, b}"
    and m: "sym_at m = ?g(is [\<mapsto>] ss)"
    using assms(1) by (auto simp: repopulated_def)
  have fin: "finite (dom ?g)" "finite (dom ((sym_at n)(a := None)))"
    using finite_live by (auto intro: finite_subset)
  have "\<forall>i \<in> set is. ?g i = None"
    using ids(3) by auto
  then have "map_weight f (sym_at m) = map_weight f ?g + sum_list (map f ss)"
    unfolding m using map_weight_upds [OF fin(1) ids(1,2)] by simp
  moreover have "map_weight f (sym_at n) = f s + map_weight f ((sym_at n)(a := None))"
    using finite_live assms(2) by (rule map_weight_remove)
  moreover have "map_weight f ((sym_at n)(a := None)) = f t + map_weight f ?g"
    using fin(2) assms(3,4) by (intro map_weight_remove) simp_all
  ultimately show ?thesis
    by simp
qed

lemma rewired_repopulated: "rewired n a b is ss ws m \<Longrightarrow> repopulated n a b ss m"
  unfolding repopulated_def using rewiredD by metis

lemma sym_link_all [simp]: "sym_at (link_all ws n) = sym_at n"
proof (induction ws arbitrary: n)
  case (Cons w ws)
  then show ?case
    by (cases w) (simp add: link_def)
qed simp

lemma stage_repopulated:
  assumes "core_inv n" "active_pair n a b"
    and "create_agents ss (remove_agent b (remove_agent a n)) = Some (is, m)"
  shows "repopulated n a b ss (link_all ws m)"
  unfolding repopulated_def sym_link_all using rewrite_stage(2-5) [OF assms] by metis

section \<open>Applying the dispatched rule\<close>

lemma apply_rule_outcome:
  assumes inv: "core_inv n" and pair: "active_pair n a b"
    and syms: "sym_at n a = Some s" "sym_at n b = Some t" "symbol_code s \<le> symbol_code t"
    and cross: "s = Con \<and> t = Dup \<Longrightarrow> no_cross n a b"
    and ret: "apply_rule (get_rule s t) a b n = Some m"
  shows "rule_outcome n a b s t m"
proof -
  consider "s = t" "s \<noteq> Era" | "s = Era" "t = Era" | "s \<noteq> Era" "t = Era" | "s = Con" "t = Dup"
    using syms(3) by (cases s; cases t) auto
  then show ?thesis
  proof cases
    case 1
    then have "interact_anni a b n = Some m"
      using ret by (cases s) (auto simp: apply_rule_def)
    then show ?thesis
      using anni_outcome [OF inv pair syms(1)] syms(2) 1 by (metis option.inject)
  next
    case 2
    then show ?thesis
      using void_outcome [OF inv pair] syms ret by (auto simp: apply_rule_def)
  next
    case 3
    then have "interact_eras a b n = Some m"
      using ret by (cases s) (auto simp: apply_rule_def)
    then show ?thesis
      using eras_outcome [OF inv pair syms(1)] syms(2) 3 by simp
  next
    case 4
    then show ?thesis
      using comm_outcome [OF inv pair cross] syms ret by (auto simp: apply_rule_def)
  qed
qed

lemma apply_rule_repopulated:
  assumes inv: "core_inv n" and pair: "active_pair n a b"
    and syms: "sym_at n a = Some s" "sym_at n b = Some t" "symbol_code s \<le> symbol_code t"
    and ret: "apply_rule (get_rule s t) a b n = Some m"
  shows "\<exists>ss \<in> set (products s t). repopulated n a b ss m"
proof (cases "s = Con \<and> t = Dup")
  case False
  then show ?thesis
    using apply_rule_outcome [OF inv pair syms _ ret] unfolding rule_outcome_def
    by (blast intro: rewired_repopulated)
next
  case True
  note core2 = remove_pair_view(1) [OF inv active_pairD(1-3) [OF inv pair]]
  note links = interact_comm_links [OF core2] and stage = stage_repopulated [OF inv pair]
  have ret': "interact_comm a b n = Some m"
    using True ret by (simp add: apply_rule_def)
  consider "self_loop n a" "self_loop n b" | "self_loop n a" "\<not> self_loop n b"
    | "\<not> self_loop n a" "self_loop n b" | "\<not> self_loop n a" "\<not> self_loop n b"
    by blast
  then show ?thesis
  proof cases
    case 1
    then show ?thesis
      using ret' links(1) stage [of "[]" "[]" _ "[]"] True by simp
  next
    case 2
    then show ?thesis
      using ret' links(2) stage True by (auto split: option.splits)
  next
    case 3
    then show ?thesis
      using ret' links(3) stage True by (auto split: option.splits)
  next
    case 4
    then show ?thesis
      using ret' links(4) stage True by (auto split: option.splits)
  qed
qed

text \<open>The only panic is exhaustion of the identifier space.\<close>

lemma apply_rule_total:
  assumes inv: "core_inv n" and pair: "active_pair n a b"
    and syms: "sym_at n a = Some s" "sym_at n b = Some t" "symbol_code s \<le> symbol_code t"
    and room: "next_id n + 4 \<le> u32_MAX"
  shows "\<exists>m. apply_rule (get_rule s t) a b n = Some m"
proof -
  note R = remove_pair_view [OF inv active_pairD(1-3) [OF inv pair]]
  note links = interact_comm_links [OF R(1)]
  have new: "\<exists>is m. create_agents ss (remove_agent b (remove_agent a n)) = Some (is, m)"
    if "length ss \<le> 4" for ss
    using create_agents_total [OF R(1)] R(6) room that by simp
  have "\<exists>m. interact_anni a b n = Some m" if "s \<noteq> Era"
    using interact_anni_links [OF syms(1) that] by blast
  moreover have "\<exists>m. interact_eras a b n = Some m"
    using interact_eras_links [of n a b] new [of "[Era, Era]"]
    by (cases "self_loop n a") (auto simp: interact_eras_def Let_def)
  moreover have "\<exists>m. interact_comm a b n = Some m"
    using links new [of "[Con, Con]"] new [of "[Dup, Dup]"] new [of "[Dup, Dup, Con, Con]"]
    by (cases "self_loop n a"; cases "self_loop n b") auto
  ultimately show ?thesis
    by (cases "get_rule s t"; cases s; cases t) (auto simp: apply_rule_def)
qed

end
