(* ===== verification/Rule_Props.thy ===== *)
theory Rule_Props
  imports Engine_Laws Net_Check
begin

text \<open>
  The six interaction rules of Lafont's combinators as the code implements them, stated on the
  observable wiring of the net before and after the rule.
\<close>

section \<open>Where wires lead after a rewrite\<close>

lemma rewired_inside:
  assumes "rewired n a b is ss ws m" "valid_port m j q" "j \<notin> set is"
  shows "j \<notin> {a, b}" "valid_port n j q" "q < 3"
  using rewired_other [OF assms(1,3)] assms(2) valid_port_less [OF assms(2)]
  by (auto simp: valid_port_def split: if_splits)

text \<open>A port whose neighbour is not one of the removed agents keeps its wire.\<close>

lemma rewired_kept:
  assumes inv: "core_inv n" and rew: "rewired n a b is ss ws m" and all: "uses_all n a b is ss ws"
    and v: "valid_port m j q" "j \<notin> set is" and out: "\<not> owner_in {a, b} (tgt n j q)"
  shows "tgt m j q = tgt n j q"
proof -
  note I = rewired_inside [OF rew v]
  have "AgentPort j q \<notin> set (all_ends ws)"
  proof
    assume "AgentPort j q \<in> set (all_ends ws)"
    then obtain c p where c: "c \<in> {a, b}" "valid_port n c p" "tgt n c p = AgentPort j q"
      using all v(2) unfolding uses_all_def by (metis port_ref.inject(1))
    have "tgt n j q = AgentPort c p"
      using neighbour(2) [OF inv valid_port_less [OF c(2)] c(3)] .
    then show False
      using out c(1) by simp
  qed
  then show ?thesis
    using rewiredD(6) [OF rew I(3)] I(1) out by (simp add: other_end_iff [symmetric])
qed

text \<open>A port wired to the pair is at the end of a new wire.\<close>

lemma rewired_moved:
  assumes inv: "core_inv n" and pair: "active_pair n a b" and rew: "rewired n a b is ss ws m"
    and v: "valid_port m j q" "j \<notin> set is" and t: "tgt n j q = AgentPort c p" "c \<in> {a, b}"
  shows "p = 1 \<or> p = 2" "tgt n c p = AgentPort j q"
    "\<And>d r. r < 3 \<Longrightarrow> tgt n d r = AgentPort j q \<longleftrightarrow> d = c \<and> r = p"
proof -
  note I = rewired_inside [OF rew v]
  note N = neighbour [OF inv I(3) t(1)]
  show far: "tgt n c p = AgentPort j q"
    by (rule N(2))
  have "p \<noteq> 0"
    using N(2) active_pairD(4,5) [OF inv pair] t(2) I(1) by (cases p) auto
  then show "p = 1 \<or> p = 2"
    using N(3) by auto
  show "tgt n d r = AgentPort j q \<longleftrightarrow> d = c \<and> r = p" if "r < 3" for d r
    using tgt_inj [OF inv that N(3), of d c] far by auto
qed

section \<open>Annihilation\<close>

text \<open>
  A wire that enters agent \<open>a\<close> at port \<open>p\<close> crosses to port \<open>2, 1\<close> (constructors) or \<open>1, 2\<close>
  (duplicators) of its partner \<open>b\<close> and leaves there; if \<open>b\<close> is looped it comes back out of the other
  auxiliary port of \<open>a\<close>.
\<close>

definition opposite :: "symbol \<Rightarrow> port_id \<Rightarrow> port_id" where
  "opposite s p = (if s = Con then 3 - p else p)"

definition anni_exit :: "net \<Rightarrow> symbol \<Rightarrow> agent_id \<Rightarrow> agent_id \<Rightarrow> port_id \<Rightarrow> port_ref" where
  "anni_exit n s a b p =
     (let x = opposite s p
      in if tgt n b x = AgentPort b (3 - x) then tgt n a (3 - p) else tgt n b x)"

definition reroute :: "(agent_id \<Rightarrow> port_id \<Rightarrow> port_ref) \<Rightarrow> agent_id set \<Rightarrow> port_ref \<Rightarrow> port_ref" where
  "reroute exit X t = (case t of AgentPort c p \<Rightarrow> if c \<in> X then exit c p else t | FreePort f \<Rightarrow> t)"

lemma anni_exit_wires:
  assumes inv: "core_inv n" and pair: "active_pair n a b" and cross: "no_cross n a b"
    and s: "s \<noteq> Era" and rew: "rewired n a b [] [] (anni_wires n s a b) m"
    and v: "valid_port m j q" and t: "tgt n j q = AgentPort c p" "c \<in> {a, b}"
  shows "tgt m j q = (if c = a then anni_exit n s a b p else anni_exit n s b a p)"
proof -
  note M = rewired_moved [OF inv pair rew v _ t, simplified]
  note I = rewired_inside [OF rew v, simplified]
  have neq: "a \<noteq> b"
    using active_pairD(3) [OF inv pair] .
  have loop: "tgt n i 1 = AgentPort i 2 \<longleftrightarrow> self_loop n i" "tgt n i 2 = AgentPort i 1 \<longleftrightarrow> self_loop n i" for i
    using self_loop_iff [OF inv] by auto
  have nloop: "\<not> self_loop n c"
    using M(1,2) I(1) t(2) by (auto simp: self_loop_def tgt_def)
  have "tgt m j q = (case other_end (anni_wires n s a b) (AgentPort j q) of
      Some t \<Rightarrow> t | None \<Rightarrow> DISCONNECTED)"
    using rewiredD(6) [OF rew I(3), of j] t by simp
  then show ?thesis
    using M(1) t(2) neq nloop s
    by (elim disjE; cases s; cases "self_loop n a"; cases "self_loop n b")
      (auto simp: anni_wires_def anni_exit_def opposite_def M(3) loop [simplified])
qed

text \<open>The net after annihilation, port by port.\<close>

lemma anni_rerouted:
  assumes "core_inv n" "active_pair n a b" "no_cross n a b"
    and "sym_at n a = Some s" "sym_at n b = Some s" "s \<noteq> Era"
  defines "m \<equiv> link_all (anni_wires n s a b) (remove_agent b (remove_agent a n))"
  shows "core_inv m" "sym_at m = (sym_at n)(a := None, b := None)"
    "\<And>j q. valid_port m j q \<Longrightarrow> tgt m j q = reroute (\<lambda>c. if c = a then anni_exit n s a b else anni_exit n s b a) {a, b} (tgt n j q)"
    "redex_queue m = redex_queue n @ concat (map (\<lambda>(x, y). new_redexes x y) (anni_wires n s a b))" "root m = root n"
proof -
  note rew = anni_rewired [OF assms(1,2), of s, unfolded anni_links_clean [OF assms(1-3)], folded m_def]
  show "core_inv m" "sym_at m = (sym_at n)(a := None, b := None)"
    "redex_queue m = redex_queue n @ concat (map (\<lambda>(x, y). new_redexes x y) (anni_wires n s a b))" "root m = root n"
    using rewiredD(1,5,7,8) [OF rew] by simp_all
  fix j q
  assume v: "valid_port m j q"
  show "tgt m j q = reroute (\<lambda>c. if c = a then anni_exit n s a b else anni_exit n s b a) {a, b} (tgt n j q)"
  proof (cases "owner_in {a, b} (tgt n j q)")
    case True
    then obtain c p where t: "tgt n j q = AgentPort c p" "c \<in> {a, b}"
      by (cases "tgt n j q") auto
    then show ?thesis
      using anni_exit_wires [OF assms(1-3,6) rew v t] by (simp add: reroute_def)
  next
    case False
    then show ?thesis
      using rewired_kept [OF assms(1) rew anni_uses_all [OF assms(1-6)] v]
      by (cases "tgt n j q") (auto simp: reroute_def)
  qed
qed

text \<open>
  Annihilation of an active pair of equal symbols none of whose auxiliary ports is wired to an
  auxiliary port of the partner (C7): the call does not panic, exactly the two agents disappear, and
  every remaining port that was wired into the pair is wired to the place where its wire leaves the
  pair: crosswise for constructors, in parallel for duplicators, and back through the other port when
  the partner is looped on itself.  With a wire between auxiliary ports of the two agents the code
  drops that wire, which is outside this statement.
\<close>

theorem interact_anni_correct:
  assumes "core_inv n" "active_pair n a b" "no_cross n a b"
    and "sym_at n a = Some s" "sym_at n b = Some s" "s \<noteq> Era"
  shows "\<exists>m. interact_anni a b n = Some m \<and> core_inv m \<and>
    sym_at m = (sym_at n)(a := None, b := None) \<and>
    (\<forall>j q. valid_port m j q \<longrightarrow> tgt m j q =
       reroute (\<lambda>c. if c = a then anni_exit n s a b else anni_exit n s b a) {a, b} (tgt n j q))"
  using interact_anni_links [OF assms(4,6)] anni_rerouted(1,2,3) [OF assms] by auto

theorem interact_anni_correct_witness:
  "\<exists>m. interact_anni 0 1 (pair_net Con Con) = Some m \<and> core_inv m \<and>
    sym_at m = (sym_at (pair_net Con Con))(0 := None, 1 := None) \<and>
    (\<forall>j q. valid_port m j q \<longrightarrow> tgt m j q =
       reroute (\<lambda>c. if c = 0 then anni_exit (pair_net Con Con) Con 0 1
                    else anni_exit (pair_net Con Con) Con 1 0) {0, 1} (tgt (pair_net Con Con) j q))"
  using interact_anni_correct [of "pair_net Con Con" 0 1 Con] by simp

section \<open>Erasure and void\<close>

text \<open>The neighbours of agent \<open>a\<close> after erasure: port 1 leads to \<open>e\<close>, port 2 to \<open>f\<close>.\<close>

definition era_exit :: "agent_id \<Rightarrow> agent_id \<Rightarrow> port_id \<Rightarrow> port_ref" where
  "era_exit e f p = (if p = 1 then AgentPort e 0 else AgentPort f 0)"

lemma eras_exit_wires:
  assumes inv: "core_inv n" and pair: "active_pair n a b" and era: "sym_at n b = Some Era"
    and rew: "rewired n a b [e, f] [Era, Era] [(AgentPort e 0, tgt n a 1), (AgentPort f 0, tgt n a 2)] m"
    and v: "valid_port m j q" "j \<notin> set [e, f]" and t: "tgt n j q = AgentPort c p" "c \<in> {a, b}"
  shows "c = a \<and> tgt m j q = era_exit e f p"
proof -
  note M = rewired_moved [OF inv pair rew v t]
  note I = rewired_inside [OF rew v]
  have "c = a"
    using neighbour(1) [OF inv I(3) t(1)] M(1) era t(2) by (auto simp: valid_port_def)
  moreover have "tgt m j q = (case other_end [(AgentPort e 0, tgt n a 1), (AgentPort f 0, tgt n a 2)] (AgentPort j q) of
      Some t \<Rightarrow> t | None \<Rightarrow> DISCONNECTED)"
    using rewiredD(6) [OF rew I(3), of j] t by simp
  ultimately show ?thesis
    using M(1) v(2) by (auto simp: M(3) [simplified] era_exit_def)
qed

text \<open>The two outcomes of an erasure, port by port.\<close>

lemma eras_rewritten:
  assumes "core_inv n" "active_pair n a b" "sym_at n a = Some s" "s \<noteq> Era" "sym_at n b = Some Era"
    and "interact_eras a b n = Some m"
  shows "core_inv m \<and>
    (if self_loop n a
     then sym_at m = (sym_at n)(a := None, b := None) \<and> (\<forall>j q. valid_port m j q \<longrightarrow> tgt m j q = tgt n j q)
     else \<exists>e f. e \<noteq> f \<and> sym_at m = (sym_at n)(a := None, b := None, e \<mapsto> Era, f \<mapsto> Era) \<and>
       tgt m e 0 = tgt n a 1 \<and> tgt m f 0 = tgt n a 2 \<and>
       (\<forall>j q. j \<notin> {e, f} \<longrightarrow> valid_port m j q \<longrightarrow>
          tgt m j q = reroute (\<lambda>c. era_exit e f) {a} (tgt n j q)))"
proof (cases "self_loop n a")
  case True
  then have m: "m = remove_agent b (remove_agent a n)"
    using assms(6) by (simp add: interact_eras_def Let_def)
  note rew = rewired_nothing [OF assms(1,2), folded m]
  have all: "uses_all n a b [] [] []"
    using True assms(5) by (intro loop_uses_all) auto
  have "\<not> owner_in {a, b} (tgt n j q)" if v: "valid_port m j q" for j q
  proof
    assume "owner_in {a, b} (tgt n j q)"
    then obtain c p where t: "tgt n j q = AgentPort c p" "c \<in> {a, b}"
      by (cases "tgt n j q") auto
    note M = rewired_moved [OF assms(1,2) rew v _ t, simplified] and I = rewired_inside [OF rew v, simplified]
    have "c = a"
      using neighbour(1) [OF assms(1) I(3) t(1)] M(1) assms(5) t(2) by (auto simp: valid_port_def)
    then show False
      using M(1,2) I(1) True by (auto simp: self_loop_def tgt_def)
  qed
  then show ?thesis
    using True rewiredD(1,5) [OF rew] rewired_kept [OF assms(1) rew all] by auto
next
  case False
  obtain "is" m' where new: "create_agents [Era, Era] (remove_agent b (remove_agent a n)) = Some (is, m')"
    and m: "m = link_all [(AgentPort (is ! 0) 0, tgt n a 1), (AgentPort (is ! 1) 0, tgt n a 2)] m'"
    using assms(6) unfolding interact_eras_links [OF False] by (auto split: option.splits)
  obtain e f where ids: "is = [e, f]"
    using two_ids [OF remove_pair_view(1) [OF assms(1) active_pairD(1-3) [OF assms(1,2)]] new] .
  note rew = eras_rewired [OF assms(1,2,5) False new, folded m, unfolded ids, simplified nth_Cons_0 nth_Cons_Suc One_nat_def]
  note all = eras_uses_all [OF assms(1-5) False refl, of e f, simplified nth_Cons_0 nth_Cons_Suc One_nat_def]
  have "e \<noteq> f"
    using rewiredD(2) [OF rew] by simp
  moreover have "sym_at m = (sym_at n)(a := None, b := None, e \<mapsto> Era, f \<mapsto> Era)"
    using rewiredD(5) [OF rew] by simp
  moreover have "tgt m e 0 = tgt n a 1" "tgt m f 0 = tgt n a 2"
  proof -
    have "tgt n a p \<noteq> AgentPort i r" if "p = 1 \<or> p = 2" "i = e \<or> i = f" for p i r
      using open_neighbour(2) [OF assms(1,2) new, of a p i r] that
        aux_outside [OF assms(1,2) era_no_cross [OF assms(1,5)] False, of p] by (auto simp: ids)
    then show "tgt m e 0 = tgt n a 1" "tgt m f 0 = tgt n a 2"
      using rewiredD(6) [OF rew, of 0] \<open>e \<noteq> f\<close> by auto
  qed
  moreover have "tgt m j q = reroute (\<lambda>c. era_exit e f) {a} (tgt n j q)"
    if j: "j \<notin> {e, f}" and v: "valid_port m j q" for j q
  proof (cases "owner_in {a, b} (tgt n j q)")
    case True
    then obtain c p where t: "tgt n j q = AgentPort c p" "c \<in> {a, b}"
      by (cases "tgt n j q") auto
    then show ?thesis
      using eras_exit_wires [OF assms(1,2,5) _ v _ t] rew j by (simp add: reroute_def)
  next
    case False
    then show ?thesis
      using rewired_kept [OF assms(1) rew all v] j by (cases "tgt n j q") (auto simp: reroute_def)
  qed
  ultimately show ?thesis
    using False rewiredD(1) [OF rew] by auto
qed

text \<open>
  Erasure of a constructor or duplicator (C38): if the erased agent is not looped, both agents are
  replaced by two erasers, the first on the old neighbour of port 1 and the second on that of port
  2, and no other wire changes; a looped agent and the eraser vanish together.
\<close>

theorem interact_eras_correct:
  assumes "core_inv n" "active_pair n a b" "sym_at n a = Some s" "s \<noteq> Era" "sym_at n b = Some Era"
    and "interact_eras a b n = Some m"
  shows "core_inv m \<and>
    (if self_loop n a
     then sym_at m = (sym_at n)(a := None, b := None) \<and> (\<forall>j q. valid_port m j q \<longrightarrow> tgt m j q = tgt n j q)
     else \<exists>e f. e \<noteq> f \<and> sym_at m = (sym_at n)(a := None, b := None, e \<mapsto> Era, f \<mapsto> Era) \<and>
       tgt m e 0 = tgt n a 1 \<and> tgt m f 0 = tgt n a 2 \<and>
       (\<forall>j q. j \<notin> {e, f} \<longrightarrow> valid_port m j q \<longrightarrow>
          tgt m j q = reroute (\<lambda>c. era_exit e f) {a} (tgt n j q)))"
  by (rule eras_rewritten [OF assms])

theorem interact_eras_correct_witness:
  "\<exists>m e f. interact_eras 0 1 (pair_net Con Era) = Some m \<and> core_inv m \<and> e \<noteq> f \<and>
     tgt m e 0 = tgt (pair_net Con Era) 0 1 \<and> tgt m f 0 = tgt (pair_net Con Era) 0 2"
proof -
  obtain m where m: "interact_eras 0 1 (pair_net Con Era) = Some m"
    using apply_rule_total [of "pair_net Con Era" 0 1 Con Era] by (auto simp: apply_rule_def)
  then show ?thesis
    using interact_eras_correct [of "pair_net Con Era" 0 1 Con m] by auto
qed

text \<open>
  Two erasers annihilate: both disappear and nothing else changes.
\<close>

lemma interact_void_correct:
  assumes "core_inv n" "active_pair n a b" "sym_at n a = Some Era" "sym_at n b = Some Era"
  shows "core_inv (interact_void a b n) \<and>
    sym_at (interact_void a b n) = (sym_at n)(a := None, b := None) \<and>
    (\<forall>j q. valid_port (interact_void a b n) j q \<longrightarrow> tgt (interact_void a b n) j q = tgt n j q)"
proof -
  note rew = rewired_nothing [OF assms(1,2), folded interact_void_def]
  have all: "uses_all n a b [] [] []"
    by (rule uses_allI) (use assms(3,4) in \<open>auto simp: valid_port_def\<close>)
  have "\<not> owner_in {a, b} (tgt n j q)" if v: "valid_port (interact_void a b n) j q" for j q
  proof
    assume "owner_in {a, b} (tgt n j q)"
    then obtain c p where t: "tgt n j q = AgentPort c p" "c \<in> {a, b}"
      by (cases "tgt n j q") auto
    show False
      using neighbour(1) [OF assms(1) valid_port_less [OF v] t(1)]
        rewired_moved(1) [OF assms(1,2) rew v _ t] assms(3,4) t(2)
      by (auto simp: valid_port_def)
  qed
  then show ?thesis
    using rewiredD(1,5) [OF rew] rewired_kept [OF assms(1) rew all] by auto
qed

lemma interact_void_correct_witness:
  "sym_at (interact_void 0 1 (pair_net Era Era)) = (sym_at (pair_net Era Era))(0 := None, 1 := None)"
  using interact_void_correct [of "pair_net Era Era" 0 1] by simp

section \<open>Commutation\<close>

text \<open>
  The new principal ports that take over the four auxiliary neighbours of a commuting pair, given
  for agent \<open>a\<close> the agents \<open>p\<close>, \<open>q\<close> and for its partner \<open>r\<close>, \<open>s\<close>.
\<close>

definition comm_exit :: "agent_id \<Rightarrow> agent_id list \<Rightarrow> agent_id \<Rightarrow> port_id \<Rightarrow> port_ref" where
  "comm_exit a is c p =
     AgentPort (is ! ((if c = a then 0 else 2) + (p - 1))) 0"

lemma new_not_neighbour:
  assumes inv: "core_inv n" and pair: "active_pair n a b"
    and new: "create_agents ss (remove_agent b (remove_agent a n)) = Some (is, m)"
    and c: "c \<in> {a, b}" "p = 1 \<or> p = 2" "\<not> owner_in {a, b} (tgt n c p)" "i \<in> set is"
  shows "tgt n c p \<noteq> AgentPort i r"
  using open_neighbour(2) [OF inv pair new c(1) _ c(3,4), of r] c(2) by auto

lemma comm_exit_wires:
  assumes inv: "core_inv n" and pair: "active_pair n a b"
    and rew: "rewired n a b is ss (comm_wires n a b is) m" and ids: "is = [p1, q1, r1, s1]"
    and v: "valid_port m j q" "j \<notin> set is" and t: "tgt n j q = AgentPort c p" "c \<in> {a, b}"
  shows "tgt m j q = comm_exit a is c p"
proof -
  note M = rewired_moved [OF inv pair rew v t] and I = rewired_inside [OF rew v]
  have neq: "a \<noteq> b"
    using active_pairD(3) [OF inv pair] .
  have "tgt m j q = (case other_end (comm_wires n a b is) (AgentPort j q) of
      Some t \<Rightarrow> t | None \<Rightarrow> DISCONNECTED)"
    using rewiredD(6) [OF rew I(3), of j] t by simp
  then show ?thesis
    using M(1) v(2) t(2) neq
    by (elim disjE insertE) (auto simp: comm_wires_def comm_exit_def ids M(3) [simplified])
qed

text \<open>The outcome of a commutation without loops, port by port.\<close>

lemma comm_rewritten:
  assumes "core_inv n" "active_pair n a b" "no_cross n a b" "\<not> self_loop n a" "\<not> self_loop n b"
    and "sym_at n a = Some Con" "sym_at n b = Some Dup" "interact_comm a b n = Some m"
  shows "core_inv m \<and> (\<exists>p q r s. distinct [p, q, r, s] \<and>
    sym_at m = (sym_at n)(a := None, b := None, p \<mapsto> Dup, q \<mapsto> Dup, r \<mapsto> Con, s \<mapsto> Con) \<and>
    tgt m p 0 = tgt n a 1 \<and> tgt m q 0 = tgt n a 2 \<and> tgt m r 0 = tgt n b 1 \<and> tgt m s 0 = tgt n b 2 \<and>
    tgt m p 1 = AgentPort r 1 \<and> tgt m p 2 = AgentPort s 1 \<and>
    tgt m q 1 = AgentPort r 2 \<and> tgt m q 2 = AgentPort s 2 \<and>
    (\<forall>j x. j \<notin> {p, q, r, s} \<longrightarrow> valid_port m j x \<longrightarrow>
       tgt m j x = reroute (comm_exit a [p, q, r, s]) {a, b} (tgt n j x)))"
proof -
  note core2 = remove_pair_view(1) [OF assms(1) active_pairD(1-3) [OF assms(1,2)]]
  obtain "is" m' where
    new: "create_agents [Dup, Dup, Con, Con] (remove_agent b (remove_agent a n)) = Some (is, m')"
    and m: "m = link_all (comm_wires n a b is) m'"
    using assms(8) interact_comm_links(4) [OF core2 assms(4,5)] by (auto split: option.splits)
  obtain p q r s where ids: "is = [p, q, r, s]"
    using create_agents_view(1) [OF core2 new] by (auto simp: length_Suc_conv)
  note rew = comm_rewired [OF assms(1-5) new, folded m]
  note all = comm_uses_all [OF assms(1-3,6,7,4,5) ids]
  have d: "distinct [p, q, r, s]"
    using rewiredD(2) [OF rew] by (simp add: ids)
  have out: "\<not> owner_in {a, b} (tgt n c x)" if "c \<in> {a, b}" "x = 1 \<or> x = 2" for c x
    using aux_outside [OF assms(1-4) that(2)] aux_outside' [OF assms(1-3,5) that(2)] that(1) by auto
  have neq: "tgt n c x \<noteq> AgentPort i y" if "c \<in> {a, b}" "x = 1 \<or> x = 2" "i \<in> {p, q, r, s}" for c x i y
    using new_not_neighbour [OF assms(1,2) new that(1,2) out [OF that(1,2)]] that(3) by (simp add: ids)
  have view: "tgt m i y = (case other_end (comm_wires n a b is) (AgentPort i y) of
      Some t \<Rightarrow> t | None \<Rightarrow> if i \<in> {a, b} \<or> owner_in {a, b} (tgt n i y) then DISCONNECTED else tgt n i y)"
    if "y < 3" for i y
    using rewiredD(6) [OF rew that] .
  note neqs = neq [of a 1, simplified] neq [of a 2, simplified] neq [of b 1, simplified] neq [of b 2, simplified]
  have principal: "tgt m p 0 = tgt n a 1" "tgt m q 0 = tgt n a 2" "tgt m r 0 = tgt n b 1" "tgt m s 0 = tgt n b 2"
    using d neqs by (simp_all add: view comm_wires_def ids)
  have square: "tgt m p 1 = AgentPort r 1" "tgt m p 2 = AgentPort s 1"
      "tgt m q 1 = AgentPort r 2" "tgt m q 2 = AgentPort s 2"
    using d neqs by (simp_all add: view comm_wires_def ids)
  have "tgt m j x = reroute (comm_exit a [p, q, r, s]) {a, b} (tgt n j x)"
    if j: "j \<notin> {p, q, r, s}" and v: "valid_port m j x" for j x
  proof (cases "owner_in {a, b} (tgt n j x)")
    case True
    then obtain c y where t: "tgt n j x = AgentPort c y" "c \<in> {a, b}"
      by (cases "tgt n j x") auto
    then show ?thesis
      using comm_exit_wires [OF assms(1,2) rew ids v _ t] j by (simp add: reroute_def ids)
  next
    case False
    then show ?thesis
      using rewired_kept [OF assms(1) rew all v] j by (cases "tgt n j x") (auto simp: reroute_def ids)
  qed
  moreover have "sym_at m = (sym_at n)(a := None, b := None, p \<mapsto> Dup, q \<mapsto> Dup, r \<mapsto> Con, s \<mapsto> Con)"
    using rewiredD(5) [OF rew] by (simp add: ids)
  ultimately show ?thesis
    using d principal square rewiredD(1) [OF rew] by blast
qed

text \<open>
  Commutation of a constructor \<open>a\<close> with a duplicator \<open>b\<close> when neither is looped on itself and no
  auxiliary port of one is wired to an auxiliary port of the other (C6): two duplicators \<open>p\<close>, \<open>q\<close> and
  two constructors \<open>r\<close>, \<open>s\<close> replace the pair.  Their principal ports take over the neighbours of
  \<open>a.1\<close>, \<open>a.2\<close>, \<open>b.1\<close> and \<open>b.2\<close>; their auxiliary ports form the square \<open>p.1-r.1\<close>, \<open>p.2-s.1\<close>,
  \<open>q.1-r.2\<close>, \<open>q.2-s.2\<close>; every wire that does not touch the pair is unchanged.  The branches of the
  code for a looped agent, which create two agents or none, are outside this statement.
\<close>

theorem interact_comm_correct:
  assumes "core_inv n" "active_pair n a b" "no_cross n a b" "\<not> self_loop n a" "\<not> self_loop n b"
    and "sym_at n a = Some Con" "sym_at n b = Some Dup" "interact_comm a b n = Some m"
  shows "core_inv m \<and> (\<exists>p q r s. distinct [p, q, r, s] \<and>
    sym_at m = (sym_at n)(a := None, b := None, p \<mapsto> Dup, q \<mapsto> Dup, r \<mapsto> Con, s \<mapsto> Con) \<and>
    tgt m p 0 = tgt n a 1 \<and> tgt m q 0 = tgt n a 2 \<and> tgt m r 0 = tgt n b 1 \<and> tgt m s 0 = tgt n b 2 \<and>
    tgt m p 1 = AgentPort r 1 \<and> tgt m p 2 = AgentPort s 1 \<and>
    tgt m q 1 = AgentPort r 2 \<and> tgt m q 2 = AgentPort s 2 \<and>
    (\<forall>j x. j \<notin> {p, q, r, s} \<longrightarrow> valid_port m j x \<longrightarrow>
       tgt m j x = reroute (comm_exit a [p, q, r, s]) {a, b} (tgt n j x)))"
  by (rule comm_rewritten [OF assms])

theorem interact_comm_correct_witness:
  "\<exists>m p q r s. interact_comm 0 1 (pair_net Con Dup) = Some m \<and> core_inv m \<and> distinct [p, q, r, s] \<and>
     tgt m p 0 = tgt (pair_net Con Dup) 0 1 \<and> tgt m s 0 = tgt (pair_net Con Dup) 1 2 \<and>
     tgt m p 1 = AgentPort r 1 \<and> tgt m q 2 = AgentPort s 2"
proof -
  obtain m where m: "interact_comm 0 1 (pair_net Con Dup) = Some m"
    using apply_rule_total [of "pair_net Con Dup" 0 1 Con Dup] by (auto simp: apply_rule_def)
  note C = interact_comm_correct [of "pair_net Con Dup" 0 1 m, OF _ _ _ _ _ _ _ m]
  obtain p q r s where "core_inv m" "distinct [p, q, r, s]" "tgt m p 0 = tgt (pair_net Con Dup) 0 1"
    "tgt m s 0 = tgt (pair_net Con Dup) 1 2" "tgt m p 1 = AgentPort r 1" "tgt m q 2 = AgentPort s 2"
    using C by (auto simp del: distinct.simps)
  then show ?thesis
    using m by blast
qed

end
