(* ===== verification/Reduction.thy ===== *)
theory Reduction
  imports Rule_Props
begin

text \<open>
  The reduction loop as a whole: which pair a step picks, that a step keeps the net invariant and
  the completeness of the redex queue, that an empty queue means normal form, and the loops.
\<close>

section \<open>The pair a step reduces\<close>

definition next_redex :: "net \<Rightarrow> (agent_id \<times> agent_id) option" where
  "next_redex n = find (\<lambda>(a, b). is_valid_redex n a b) (redex_queue n)"

definition queue_after :: "net \<Rightarrow> (agent_id \<times> agent_id) list" where
  "queue_after n = tl (dropWhile (\<lambda>(a, b). \<not> is_valid_redex n a b) (redex_queue n))"

lemma is_valid_redex_queue [simp]: "is_valid_redex (n\<lparr>redex_queue := q\<rparr>) = is_valid_redex n"
  by (simp add: is_valid_redex_def get_target_def Let_def fun_eq_iff)

lemma core_inv_queue [simp]: "core_inv (n\<lparr>redex_queue := q\<rparr>) \<longleftrightarrow> core_inv n"
  by (simp add: core_inv_def slots_ok_def ports_clean_def symmetric_wires_def ids_below_def
      free_list_ok_def valid_port_def)

lemma active_pair_queue [simp]: "active_pair (n\<lparr>redex_queue := q\<rparr>) = active_pair n"
  by (simp add: active_pair_def fun_eq_iff)

lemma no_cross_queue [simp]: "no_cross (n\<lparr>redex_queue := q\<rparr>) = no_cross n"
  by (simp add: no_cross_def fun_eq_iff)

lemma net_inv_queue [simp]: "net_inv (n\<lparr>redex_queue := q\<rparr>) \<longleftrightarrow> net_inv n"
  by (auto simp: net_inv_def fully_wired_def root_ok_def valid_port_def split: option.splits port_ref.splits)

text \<open>The loop of \<open>reduce_step\<close> in closed form: skip stale entries, reduce the first valid one.\<close>

lemma reduce_step_closed:
  "reduce_step n =
     (case next_redex n of
        None \<Rightarrow> Some (NormalForm, n\<lparr>redex_queue := []\<rparr>)
      | Some (a, b) \<Rightarrow> reduce_pair a b (n\<lparr>redex_queue := queue_after n\<rparr>))"
proof (induction n rule: reduce_step.induct)
  case (1 n)
  show ?case
  proof (cases "redex_queue n")
    case Nil
    have "n\<lparr>redex_queue := []\<rparr> = n"
      by (rule net.equality) (simp_all add: Nil)
    then show ?thesis
      by (subst reduce_step.simps) (simp add: next_redex_def Nil)
  next
    case (Cons p q)
    obtain a b where p: "p = (a, b)"
      by (cases p)
    show ?thesis
      using 1 [OF Cons p [symmetric] refl]
      by (subst reduce_step.simps)
        (auto simp: Cons p next_redex_def queue_after_def split: option.split)
  qed
qed

lemma next_redexD:
  assumes "core_inv n" "next_redex n = Some (a, b)"
  shows "active_pair n a b"
    "(c, d) \<in> set (redex_queue n) \<Longrightarrow> is_valid_redex n c d \<Longrightarrow>
       (c, d) = (a, b) \<or> (c, d) \<in> set (queue_after n)"
proof -
  let ?P = "\<lambda>(a, b). is_valid_redex n a b" and ?Q = "\<lambda>(a, b). \<not> is_valid_redex n a b"
  have Q: "?Q = Not \<circ> ?P"
    by auto
  have drop: "dropWhile ?Q (redex_queue n) = (a, b) # queue_after n"
    using assms(2) unfolding next_redex_def queue_after_def find_dropWhile Q
    by (auto split: list.splits)
  have "?P (a, b)"
    using hd_dropWhile [of ?Q "redex_queue n"] drop by (cases "redex_queue n") auto
  then show "active_pair n a b"
    using is_valid_redex_iff [OF assms(1)] by simp
  have "set (redex_queue n) = set (takeWhile ?Q (redex_queue n)) \<union> insert (a, b) (set (queue_after n))"
    using takeWhile_dropWhile_id [of ?Q "redex_queue n"] drop by (metis list.simps(15) set_append)
  then show "(c, d) = (a, b) \<or> (c, d) \<in> set (queue_after n)"
    if "(c, d) \<in> set (redex_queue n)" "is_valid_redex n c d"
    using that by (auto dest: set_takeWhileD)
qed

text \<open>Every valid entry but the chosen one survives in the queue.\<close>

lemma queue_complete_after:
  assumes inv: "core_inv n" and qc: "queue_complete n" and nx: "next_redex n = Some (a, b)"
    and cd: "active_pair n c d" "{c, d} \<noteq> {a, b}"
  shows "(c, d) \<in> set (queue_after n) \<or> (d, c) \<in> set (queue_after n)"
proof -
  have "is_valid_redex n c d" "is_valid_redex n d c"
    using cd(1) active_pairD(6) [OF inv cd(1)] is_valid_redex_iff [OF inv] by auto
  then show ?thesis
    using next_redexD(2) [OF inv nx, of c d] next_redexD(2) [OF inv nx, of d c] qc cd
    by (auto simp: queue_complete_def)
qed

lemma next_redex_None:
  assumes "core_inv n" "queue_complete n"
  shows "next_redex n = None \<longleftrightarrow> (\<forall>a b. \<not> active_pair n a b)"
  using assms(2) active_pairD(6) [OF assms(1)]
  by (fastforce simp: next_redex_def find_None_iff is_valid_redex_iff [OF assms(1)] queue_complete_def)

section \<open>One step\<close>

definition clean_step :: "net \<Rightarrow> bool" where
  "clean_step n \<longleftrightarrow> (case next_redex n of None \<Rightarrow> True | Some (a, b) \<Rightarrow> no_cross n a b)"

lemma reduce_pairE:
  assumes inv: "core_inv n" and pair: "active_pair n a b" and ret: "reduce_pair a b n = Some (r, m)"
  obtains c d s t where "{c, d} = {a, b}" "active_pair n c d" "no_cross n c d \<longleftrightarrow> no_cross n a b"
    "sym_at n c = Some s" "sym_at n d = Some t" "symbol_code s \<le> symbol_code t"
    "apply_rule (get_rule s t) c d n = Some m" "r = Reduced (get_rule s t) (get_specific_rule s t)"
proof -
  note P = active_pairD [OF inv pair]
  obtain s t where syms: "sym_at n a = Some s" "sym_at n b = Some t"
    using P(1,2) by auto
  show thesis
  proof (cases "symbol_code s \<le> symbol_code t")
    case True
    then show thesis
      using that [of a b s t] ret syms pair
      by (auto simp: reduce_pair_def normalize_pair_def Let_def split: bind_splits)
  next
    case False
    have "no_cross n b a \<longleftrightarrow> no_cross n a b"
      using no_cross_sym [OF inv] by blast
    then show thesis
      using that [of b a t s] ret syms False P(6)
      by (auto simp: reduce_pair_def normalize_pair_def Let_def split: bind_splits)
  qed
qed

lemma reduce_pair_total:
  assumes inv: "core_inv n" and pair: "active_pair n a b" and room: "next_id n + 4 \<le> u32_MAX"
  shows "\<exists>r m. reduce_pair a b n = Some (r, m)"
proof -
  note P = active_pairD [OF inv pair]
  obtain s t where syms: "sym_at n a = Some s" "sym_at n b = Some t"
    using P(1,2) by auto
  show ?thesis
    using apply_rule_total [OF inv pair syms _ room] apply_rule_total [OF inv P(6) syms(2,1) _ room]
    by (cases "symbol_code s \<le> symbol_code t")
      (auto simp: reduce_pair_def normalize_pair_def syms Let_def)
qed

text \<open>Reducing a pair without cross wires keeps the invariant and loses no other active pair.\<close>

lemma reduce_pair_keeps:
  assumes inv: "net_inv n" and pair: "active_pair n a b" and cross: "no_cross n a b"
    and old: "\<And>c d. active_pair n c d \<Longrightarrow> {c, d} \<noteq> {a, b} \<Longrightarrow>
      (c, d) \<in> set (redex_queue n) \<union> Q \<or> (d, c) \<in> set (redex_queue n) \<union> Q"
    and ret: "reduce_pair a b n = Some (r, m)"
  shows "net_inv m" "queue_covers Q m"
proof -
  note core = net_invD(1) [OF inv]
  obtain c d s t where cd: "{c, d} = {a, b}" "active_pair n c d" "no_cross n c d \<longleftrightarrow> no_cross n a b"
    and syms: "sym_at n c = Some s" "sym_at n d = Some t" "symbol_code s \<le> symbol_code t"
    and app: "apply_rule (get_rule s t) c d n = Some m"
    using reduce_pairE [OF core pair ret] by metis
  obtain "is" ss ws where rew: "rewired n c d is ss ws m" "uses_all n c d is ss ws"
    using apply_rule_outcome [OF core cd(2) syms _ app] cross cd(3) by (auto simp: rule_outcome_def)
  show "net_inv m"
    using rewired_net_inv [OF inv cd(2) rew] .
  show "queue_covers Q m"
    by (rule rewired_covers [OF core rew(1)]) (use old cd(1) in simp)
qed

lemma reduce_step_keeps:
  assumes inv: "net_inv n" and qc: "queue_complete n" and clean: "clean_step n"
    and ret: "reduce_step n = Some (r, m)"
  shows "net_inv m" "queue_complete m"
proof -
  note core = net_invD(1) [OF inv]
  have "net_inv m \<and> queue_complete m"
  proof (cases "next_redex n")
    case None
    then have "m = n\<lparr>redex_queue := []\<rparr>"
      using ret by (simp add: reduce_step_closed)
    then show ?thesis
      using inv None next_redex_None [OF core qc] by (simp add: queue_complete_def)
  next
    case (Some p)
    obtain a b where p: "p = (a, b)"
      by (cases p)
    note nx = Some [unfolded p]
    show ?thesis
      using reduce_pair_keeps [of "n\<lparr>redex_queue := queue_after n\<rparr>" a b "{}" r m] inv nx clean ret
        next_redexD(1) [OF core nx] queue_complete_after [OF core qc nx]
      by (simp add: reduce_step_closed clean_step_def queue_complete_covers)
  qed
  then show "net_inv m" "queue_complete m"
    by simp_all
qed

text \<open>
  One reduction step keeps the net well formed and the redex queue complete (C2): after
  \<open>reduce_step\<close>, every check of \<open>assert_all_invariants\<close> passes and every active pair is in the queue.
  The pair that the step picks must have no auxiliary port of one agent wired to an auxiliary port
  of the other.
\<close>

theorem reduce_step_preserves:
  assumes "net_inv n" "queue_complete n" "clean_step n" "reduce_step n = Some (r, m)"
  shows "net_inv m \<and> assert_all_invariants m \<and> queue_complete m"
  using reduce_step_keeps [OF assms] net_inv_asserts by blast

theorem reduce_step_preserves_witness:
  "\<exists>r m. reduce_step (pair_net Con Dup) = Some (r, m) \<and> net_inv m \<and> queue_complete m"
proof -
  let ?n = "pair_net Con Dup"
  have nx: "next_redex ?n = Some (0, 1)"
    using is_valid_redex_iff [of ?n 0 1] by (simp add: next_redex_def)
  obtain r m where ret: "reduce_step ?n = Some (r, m)"
    using reduce_pair_total [of "?n\<lparr>redex_queue := queue_after ?n\<rparr>" 0 1] nx
    by (auto simp: reduce_step_closed)
  have "clean_step ?n"
    using nx by (simp add: clean_step_def)
  then show ?thesis
    using reduce_step_preserves [OF pair_net_inv pair_net_queue _ ret] ret by blast
qed

lemma reduce_step_NormalForm:
  assumes "core_inv n" "reduce_step n = Some (NormalForm, m)"
  shows "next_redex n = None" "m = n\<lparr>redex_queue := []\<rparr>"
proof -
  show "next_redex n = None"
  proof (rule ccontr)
    assume "next_redex n \<noteq> None"
    then obtain a b where nx: "next_redex n = Some (a, b)"
      by auto
    have "reduce_pair a b (n\<lparr>redex_queue := queue_after n\<rparr>) = Some (NormalForm, m)"
      using assms(2) nx by (simp add: reduce_step_closed)
    then show False
      using reduce_pairE [of "n\<lparr>redex_queue := queue_after n\<rparr>" a b NormalForm m] assms(1)
        next_redexD(1) [OF assms(1) nx] by auto
  qed
  then show "m = n\<lparr>redex_queue := []\<rparr>"
    using assms(2) by (simp add: reduce_step_closed)
qed

text \<open>
  A step reports normal form exactly when the net has no active pair left, and then it changes
  nothing but drops the stale queue entries.
\<close>

lemma reduce_step_normal_form:
  assumes "core_inv n" "queue_complete n"
  shows "((\<exists>m. reduce_step n = Some (NormalForm, m)) \<longleftrightarrow> (\<forall>a b. \<not> active_pair n a b)) \<and>
    (\<forall>m. reduce_step n = Some (NormalForm, m) \<longrightarrow> m = n\<lparr>redex_queue := []\<rparr>)"
  using reduce_step_NormalForm [OF assms(1)] next_redex_None [OF assms]
  by (auto simp: reduce_step_closed)

lemma reduce_step_normal_form_witness:
  "\<not> (\<exists>m. reduce_step (pair_net Era Era) = Some (NormalForm, m))"
  using reduce_step_normal_form [of "pair_net Era Era"] pair_net_queue pair_net_view(1)
  by (metis pair_net_core)

lemma reduce_step_total:
  assumes "core_inv n" "next_id n + 4 \<le> u32_MAX"
  shows "\<exists>r m. reduce_step n = Some (r, m)"
proof (cases "next_redex n")
  case (Some p)
  obtain a b where p: "p = (a, b)"
    by (cases p)
  show ?thesis
    using reduce_pair_total [of "n\<lparr>redex_queue := queue_after n\<rparr>" a b] assms Some p
      next_redexD(1) [of n a b] by (auto simp: reduce_step_closed)
qed (simp add: reduce_step_closed)

text \<open>
  The only way a step can fail is exhaustion of the 32-bit identifier space (C39): with room for
  four more agents, \<open>reduce_step\<close> returns; in particular no \<open>unwrap\<close> and no \<open>unreachable!\<close> is hit.
\<close>

theorem reduce_step_no_panic:
  assumes "core_inv n" "next_id n + 4 \<le> u32_MAX"
  shows "\<exists>r m. reduce_step n = Some (r, m)"
  using assms by (rule reduce_step_total)

theorem reduce_step_no_panic_witness:
  "\<exists>r m. reduce_step (pair_net Con Dup) = Some (r, m)"
  using reduce_step_no_panic [of "pair_net Con Dup"] by simp

section \<open>What a step does to the population\<close>

lemma reduce_step_redex:
  assumes inv: "core_inv n" and ret: "reduce_step n = Some (Reduced r sp, m)"
  obtains c d s t q where "active_pair n c d" "sym_at n c = Some s" "sym_at n d = Some t"
    "symbol_code s \<le> symbol_code t" "r = get_rule s t" "sp = get_specific_rule s t"
    "apply_rule r c d (n\<lparr>redex_queue := q\<rparr>) = Some m" "clean_step n \<longleftrightarrow> no_cross n c d"
    "q = queue_after n" "next_redex n = Some (c, d) \<or> next_redex n = Some (d, c)"
proof (cases "next_redex n")
  case None
  then show thesis
    using ret by (simp add: reduce_step_closed)
next
  case (Some p)
  obtain a b where p: "p = (a, b)"
    by (cases p)
  let ?n = "n\<lparr>redex_queue := queue_after n\<rparr>"
  have pair: "core_inv ?n" "active_pair ?n a b" and "reduce_pair a b ?n = Some (Reduced r sp, m)"
    using inv Some p next_redexD(1) [of n a b] ret by (auto simp: reduce_step_closed)
  then show thesis
    using reduce_pairE [OF pair, of "Reduced r sp" m] that [of _ _ _ _ "queue_after n"] Some p
    by (simp add: clean_step_def doubleton_eq_iff) metis
qed

lemma reduce_step_population:
  assumes inv: "core_inv n" and ret: "reduce_step n = Some (Reduced r sp, m)"
  obtains s t ss where "r = get_rule s t" "sp = get_specific_rule s t" "ss \<in> set (products s t)"
    "symbol_code s \<le> symbol_code t" "s \<in> ran (sym_at n)" "t \<in> ran (sym_at n)"
    "\<And>f. map_weight f (sym_at m) + f s + f t = map_weight f (sym_at n) + sum_list (map f ss)"
proof -
  obtain c d s t q where red: "active_pair n c d" and syms: "sym_at n c = Some s" "sym_at n d = Some t"
    "symbol_code s \<le> symbol_code t" and r: "r = get_rule s t" "sp = get_specific_rule s t"
    and app: "apply_rule r c d (n\<lparr>redex_queue := q\<rparr>) = Some m"
    using reduce_step_redex [OF inv ret] by metis
  let ?n = "n\<lparr>redex_queue := q\<rparr>"
  obtain ss where ss: "ss \<in> set (products s t)" "repopulated ?n c d ss m"
    using apply_rule_repopulated [of ?n c d s t m] inv red syms app r(1) by auto
  show thesis
    using repopulated_weight [OF ss(2), of s t] syms active_pairD(3) [OF inv red]
    by (intro that [OF r ss(1) syms(3)]) (auto intro: ranI)
qed

text \<open>
  Agent balance of every rule: the annihilations and the void rule remove two agents; erasure
  removes two and adds two (none when the erased agent is looped); commutation removes two and adds
  four, two, or none.
\<close>

lemma reduce_step_balance:
  assumes "core_inv n" "reduce_step n = Some (Reduced r sp, m)"
  shows "case r of
      Anni \<Rightarrow> count_live_agents m + 2 = count_live_agents n
    | Void \<Rightarrow> count_live_agents m + 2 = count_live_agents n
    | Eras \<Rightarrow> count_live_agents m = count_live_agents n \<or> count_live_agents m + 2 = count_live_agents n
    | Comm \<Rightarrow> count_live_agents m = count_live_agents n + 2 \<or> count_live_agents m = count_live_agents n
              \<or> count_live_agents m + 2 = count_live_agents n"
proof -
  obtain s t ss where r: "r = get_rule s t" and ss: "ss \<in> set (products s t)" "symbol_code s \<le> symbol_code t"
    and w: "\<And>f. map_weight f (sym_at m) + f s + f t = map_weight f (sym_at n) + sum_list (map f ss)"
    using reduce_step_population [OF assms] by metis
  have "count_live_agents m + 2 = count_live_agents n + length ss"
    using w [of "\<lambda>_. 1"] by (simp add: count_live_weight sum_list_triv)
  then show ?thesis
    using ss by (cases s; cases t) (auto simp: r)
qed

lemma reduce_step_balance_witness:
  "\<exists>r sp m. reduce_step (pair_net Era Era) = Some (Reduced r sp, m) \<and> r = Void \<and>
     count_live_agents m + 2 = count_live_agents (pair_net Era Era)"
proof -
  let ?n = "pair_net Era Era"
  have nx: "next_redex ?n = Some (0, 1)"
    using is_valid_redex_iff [of ?n 0 1] by (simp add: next_redex_def)
  have "\<exists>m. reduce_step ?n = Some (Reduced Void EraEra, m)"
    using nx by (simp add: reduce_step_closed reduce_pair_def normalize_pair_def apply_rule_def Let_def)
  then obtain m where ret: "reduce_step ?n = Some (Reduced Void EraEra, m)" ..
  then show ?thesis
    using reduce_step_balance [OF _ ret] by auto
qed

end
