(* ===== verification/Loops.thy ===== *)
theory Loops
  imports Reduction
begin

text \<open>
  The reduction loops \<open>reduce_n\<close>, \<open>reduce_all\<close> and \<open>reduce_border_once\<close>: statistics, invariants
  along a run, agreement of the bounded and the unbounded loop, normal forms, and termination on
  nets without duplicators.
\<close>

section \<open>Statistics\<close>

definition stats_ok :: "reduction_stats \<Rightarrow> bool" where
  "stats_ok st \<longleftrightarrow>
     length (interactions_by_rule st) = 6 \<and>
     total_interactions st = sum_list (interactions_by_rule st) \<and>
     anni_count st = interactions_by_rule st ! 0 + interactions_by_rule st ! 3 \<and>
     comm_count st = interactions_by_rule st ! 1 \<and>
     eras_count st = interactions_by_rule st ! 2 + interactions_by_rule st ! 4 \<and>
     void_count st = interactions_by_rule st ! 5"

lemma six_elements:
  "length xs = 6 \<Longrightarrow> \<exists>a b c d e f. xs = [a, b, c, d, e, f]"
  by (auto simp: length_Suc_conv eval_nat_numeral)

lemma stats_ok_total:
  "stats_ok st \<Longrightarrow>
     total_interactions st = anni_count st + comm_count st + eras_count st + void_count st"
  by (auto simp: stats_ok_def dest!: six_elements)

lemma stats_ok_record:
  assumes "stats_ok st"
  shows "stats_ok (record_rule (get_rule s t) (get_specific_rule s t) st)"
  using assms
  by (cases s; cases t) (auto simp: stats_ok_def record_rule_def Let_def dest!: six_elements)

lemma stats_ok_zero [simp]: "stats_ok stats_zero"
  by (simp add: stats_ok_def stats_zero_def numeral_eq_Suc)

lemma record_total [simp]:
  "total_interactions (record_rule r sp st) = Suc (total_interactions st)"
  by (cases r) (simp_all add: record_rule_def Let_def)

lemma reduce_step_stats:
  assumes "core_inv n" "reduce_step n = Some (Reduced r sp, m)" "stats_ok st"
  shows "stats_ok (record_rule r sp st)"
  using reduce_step_population [OF assms(1,2)] stats_ok_record [OF assms(3)] by metis

section \<open>A complete run\<close>

lemma era_pair_step:
  obtains m where "reduce_step (pair_net Era Era) = Some (Reduced Void EraEra, m)" "redex_queue m = []"
proof -
  let ?n = "pair_net Era Era"
  have nx: "next_redex ?n = Some (0, 1)" and q: "queue_after ?n = []"
    using is_valid_redex_iff [of ?n 0 1] by (simp_all add: next_redex_def queue_after_def)
  then have "reduce_step ?n = Some (Reduced Void EraEra, interact_void 0 1 (?n\<lparr>redex_queue := []\<rparr>))"
    by (simp add: reduce_step_closed reduce_pair_def normalize_pair_def apply_rule_def Let_def)
  then show thesis
    by (rule that) (simp add: interact_void_def)
qed

lemma reduce_step_empty: "redex_queue n = [] \<Longrightarrow> reduce_step n = Some (NormalForm, n)"
  by (simp add: reduce_step.simps)

section \<open>Runs without cross wires\<close>

text \<open>The first \<open>k\<close> steps of the loop only meet pairs without cross wires.\<close>

fun clean_run :: "nat \<Rightarrow> net \<Rightarrow> bool" where
  "clean_run 0 n \<longleftrightarrow> True"
| "clean_run (Suc k) n \<longleftrightarrow>
     clean_step n \<and>
     (case reduce_step n of Some (Reduced r sp, m) \<Rightarrow> clean_run k m | _ \<Rightarrow> True)"

lemma era_pair_run:
  "clean_run k (pair_net Era Era)"
  "\<exists>m. reduce_n_from st (Suc (Suc k)) (pair_net Era Era) = Some (record_rule Void EraEra st, m)"
  "\<exists>m. reduce_all_from st (pair_net Era Era) = Some (Some (record_rule Void EraEra st, m))"
proof -
  obtain m where m: "reduce_step (pair_net Era Era) = Some (Reduced Void EraEra, m)" "redex_queue m = []"
    by (rule era_pair_step)
  note stop = reduce_step_empty [OF m(2)]
  have "clean_run k m" for k
    using stop m(2) by (cases k) (simp_all add: clean_step_def next_redex_def)
  then show "clean_run k (pair_net Era Era)"
    using m(1) is_valid_redex_iff [of "pair_net Era Era" 0 1]
    by (cases k) (simp_all add: clean_step_def next_redex_def)
  show "\<exists>m. reduce_n_from st (Suc (Suc k)) (pair_net Era Era) = Some (record_rule Void EraEra st, m)"
    using m(1) stop by simp
  show "\<exists>m. reduce_all_from st (pair_net Era Era) = Some (Some (record_rule Void EraEra st, m))"
    using m(1) stop by (subst reduce_all_from.simps, simp, subst reduce_all_from.simps, simp)
qed

lemma reduce_n_from_keeps:
  assumes "net_inv n" "queue_complete n" "clean_run k n" "stats_ok st"
    and "reduce_n_from st k n = Some (st', m)"
  shows "net_inv m \<and> queue_complete m \<and> stats_ok st' \<and>
    total_interactions st \<le> total_interactions st' \<and>
    total_interactions st' \<le> total_interactions st + k \<and>
    (total_interactions st' < total_interactions st + k \<longrightarrow> (\<forall>a b. \<not> active_pair m a b))"
  using assms
proof (induction k arbitrary: n st)
  case (Suc k)
  note core = net_invD(1) [OF Suc.prems(1)]
  have clean: "clean_step n"
    using Suc.prems(3) by simp
  obtain res m1 where step: "reduce_step n = Some (res, m1)"
    using Suc.prems(5) by (cases "reduce_step n") auto
  note keeps = reduce_step_keeps [OF Suc.prems(1,2) clean step]
  show ?case
  proof (cases res)
    case NormalForm
    have m: "st' = st" "m = m1"
      using Suc.prems(5) step NormalForm by auto
    have "next_redex n = None" "m1 = n\<lparr>redex_queue := []\<rparr>"
      using reduce_step_NormalForm [OF core] step NormalForm by auto
    then show ?thesis
      using keeps m Suc.prems(4) next_redex_None [OF core Suc.prems(2)] by simp
  next
    case (Reduced r sp)
    note step' = step [unfolded Reduced]
    show ?thesis
      using Suc.IH [OF keeps _ reduce_step_stats [OF core step' Suc.prems(4)]] Suc.prems(3,5) step' by simp
  qed
qed simp

text \<open>
  Bounded reduction: \<open>reduce_n\<close> performs at most \<open>budget\<close> interactions, keeps the invariant
  and the completeness of the queue, its per-category and per-rule counters add up to the total,
  and if it stops before the budget is used the net is in normal form.
\<close>

lemma reduce_n_correct:
  assumes "net_inv n" "queue_complete n" "clean_run budget n" "reduce_n n budget = Some (st, m)"
  shows "net_inv m \<and> queue_complete m \<and> stats_ok st \<and>
    total_interactions st = anni_count st + comm_count st + eras_count st + void_count st \<and>
    total_interactions st \<le> budget \<and>
    (total_interactions st < budget \<longrightarrow> (\<forall>a b. \<not> active_pair m a b))"
  using reduce_n_from_keeps [of n budget stats_zero st m] assms stats_ok_total [of st]
  by (simp add: reduce_n_def) (simp add: stats_zero_def)

lemma reduce_n_correct_witness:
  "\<exists>st m. reduce_n (pair_net Era Era) 5 = Some (st, m) \<and> total_interactions st \<le> 5 \<and> net_inv m"
proof -
  obtain st m where ret: "reduce_n (pair_net Era Era) 5 = Some (st, m)"
    using era_pair_run(2) [of stats_zero 3] by (auto simp: reduce_n_def numeral_eq_Suc)
  then show ?thesis
    using reduce_n_correct [OF pair_net_inv pair_net_queue era_pair_run(1) ret] by blast
qed

section \<open>The unbounded loop\<close>

lemma reduce_all_from_bounded:
  assumes "reduce_all_from st n = Some res"
  shows "\<exists>k. \<forall>k' \<ge> k. reduce_n_from st k' n = res"
proof (induction rule: reduce_all_from.raw_induct [OF _ assms])
  case (1 f st n res)
  show ?case
  proof (cases "reduce_step n")
    case None
    then show ?thesis
      using 1(2) by (intro exI [of _ 1]) (auto simp: Suc_le_eq gr0_conv_Suc)
  next
    case (Some p)
    obtain r m where p: "p = (r, m)"
      by (cases p)
    show ?thesis
    proof (cases r)
      case NormalForm
      then show ?thesis
        using 1(2) Some p by (intro exI [of _ 1]) (auto simp: Suc_le_eq gr0_conv_Suc)
    next
      case (Reduced rl sp)
      then have "f (record_rule rl sp st) m = Some res"
        using 1(2) Some p by simp
      then obtain k where k: "\<forall>k' \<ge> k. reduce_n_from (record_rule rl sp st) k' m = res"
        using 1(1) by blast
      have "reduce_n_from st k' n = res" if "k' \<ge> Suc k" for k'
        using that k Some p Reduced by (cases k') auto
      then show ?thesis
        by blast
    qed
  qed
qed

text \<open>
  The two loops agree: whenever \<open>reduce_all\<close> returns, so does \<open>reduce_n\<close> with every large
  enough budget, with the same net and the same statistics (and the same panic, if any).
\<close>

lemma reduce_all_is_reduce_n:
  assumes "reduce_all n = Some res"
  shows "\<exists>k. \<forall>budget \<ge> k. reduce_n n budget = res"
  using reduce_all_from_bounded assms by (simp add: reduce_all_def reduce_n_def)

lemma reduce_all_is_reduce_n_witness:
  "\<exists>res k. reduce_all (pair_net Era Era) = Some res \<and> (\<forall>budget \<ge> k. reduce_n (pair_net Era Era) budget = res)"
proof -
  obtain res where res: "reduce_all (pair_net Era Era) = Some res"
    using era_pair_run(3) [of stats_zero] by (auto simp: reduce_all_def)
  then show ?thesis
    using reduce_all_is_reduce_n [OF res] by blast
qed

text \<open>
  When \<open>reduce_all\<close> returns, the net is in normal form (C20): no active pair is left, the invariant
  holds and the statistics are consistent, provided no step of the run meets a pair with cross wires.
\<close>

theorem reduce_all_normal_form:
  assumes "net_inv n" "queue_complete n" "\<And>k. clean_run k n" "reduce_all n = Some (Some (st, m))"
  shows "net_inv m \<and> stats_ok st \<and> (\<forall>a b. \<not> active_pair m a b)"
proof -
  obtain k where k: "\<forall>k' \<ge> k. reduce_n_from stats_zero k' n = Some (st, m)"
    using reduce_all_from_bounded assms(4) unfolding reduce_all_def by blast
  let ?k = "max k (Suc (total_interactions st))"
  have "reduce_n_from stats_zero ?k n = Some (st, m)"
    using k by simp
  from reduce_n_from_keeps [OF assms(1,2) assms(3) stats_ok_zero this]
  show ?thesis
    by auto
qed

theorem reduce_all_normal_form_witness:
  "\<exists>st m. reduce_all (pair_net Era Era) = Some (Some (st, m)) \<and> net_inv m \<and> (\<forall>a b. \<not> active_pair m a b)"
proof -
  obtain st m where res: "reduce_all (pair_net Era Era) = Some (Some (st, m))"
    using era_pair_run(3) [of stats_zero] by (auto simp: reduce_all_def)
  then show ?thesis
    using reduce_all_normal_form [OF pair_net_inv pair_net_queue era_pair_run(1) res] by blast
qed

section \<open>Termination without duplicators\<close>

definition dup_free :: "net \<Rightarrow> bool" where
  "dup_free n \<longleftrightarrow> (\<forall>ag \<in> set (live_agents n). a_symbol ag \<noteq> Dup)"

text \<open>A measure every rule without duplicators decreases by at least two.\<close>

definition con_weight :: "symbol \<Rightarrow> nat" where
  "con_weight s = (if s = Con then 3 else if s = Era then 1 else 0)"

definition work :: "net \<Rightarrow> nat" where
  "work n = sum_list (map (\<lambda>ag. con_weight (a_symbol ag)) (live_agents n))"

lemma live_agents_ran: "a_symbol ` set (live_agents n) = ran (sym_at n)"
proof -
  have "set (live_agents n) = {ag. \<exists>i. get_agent n i = Some ag}"
    by (force simp: live_agents_def map_filter_def get_agent_def vec_get_def in_set_conv_nth split: if_splits)
  then show ?thesis
    by (force simp: sym_at_def ran_def)
qed

lemma dup_free_iff: "dup_free n \<longleftrightarrow> Dup \<notin> ran (sym_at n)"
  unfolding live_agents_ran [symmetric] by (auto simp: dup_free_def image_iff)

lemma weight_slots:
  "sum_list (map (\<lambda>ag. f (a_symbol ag)) (List.map_filter (\<lambda>slot. slot) xs)) =
     (\<Sum>i < length xs. case xs ! i of None \<Rightarrow> 0 | Some ag \<Rightarrow> f (a_symbol ag))"
proof (induction xs rule: rev_induct)
  case (snoc x xs)
  have "(\<Sum>i < length xs. case (xs @ [x]) ! i of None \<Rightarrow> 0 | Some ag \<Rightarrow> f (a_symbol ag)) =
      (\<Sum>i < length xs. case xs ! i of None \<Rightarrow> 0 | Some ag \<Rightarrow> f (a_symbol ag))"
    by (intro sum.cong) (auto simp: nth_append)
  then show ?case
    using snoc by (cases x) (auto simp: map_filter_def)
qed (simp add: map_filter_simps)

lemma work_weight: "work n = map_weight con_weight (sym_at n)"
proof -
  have "work n = (\<Sum>i < length (agents n). case agents n ! i of None \<Rightarrow> 0 | Some ag \<Rightarrow> con_weight (a_symbol ag))"
    by (simp add: work_def live_agents_def weight_slots)
  also have "\<dots> = (\<Sum>i < length (agents n). case sym_at n i of None \<Rightarrow> 0 | Some s \<Rightarrow> con_weight s)"
    by (intro sum.cong) (auto simp: sym_at_def get_agent_def vec_get_def split: option.splits)
  also have "\<dots> = (\<Sum>i \<in> dom (sym_at n). case sym_at n i of None \<Rightarrow> 0 | Some s \<Rightarrow> con_weight s)"
    using live_length [of n] by (intro sum.mono_neutral_right) (auto simp: dom_def)
  also have "\<dots> = map_weight con_weight (sym_at n)"
    unfolding map_weight_def by (intro sum.cong) auto
  finally show ?thesis .
qed

lemma dup_free_weight: "dup_free n \<longleftrightarrow> map_weight (\<lambda>s. if s = Dup then 1 else 0) (sym_at n) = 0"
proof -
  have "map_weight (\<lambda>s. if s = Dup then 1 else 0) (sym_at n) = 0 \<longleftrightarrow>
      (\<forall>i \<in> dom (sym_at n). the (sym_at n i) \<noteq> Dup)"
    unfolding map_weight_def sum_eq_0_iff [OF finite_live] by simp
  also have "\<dots> \<longleftrightarrow> Dup \<notin> ran (sym_at n)"
  proof
    assume all: "\<forall>i \<in> dom (sym_at n). the (sym_at n i) \<noteq> Dup"
    have "sym_at n i \<noteq> Some Dup" for i
      using all by (cases "sym_at n i") (auto dest!: bspec [of _ _ i])
    then show "Dup \<notin> ran (sym_at n)"
      by (auto simp: ran_def)
  qed (auto intro: ranI)
  finally show ?thesis
    by (simp add: dup_free_iff)
qed

lemma dup_free_step:
  assumes inv: "core_inv n" and qc: "queue_complete n" and free: "dup_free n"
    and ret: "reduce_step n = Some (Reduced r sp, m)"
  shows "core_inv m" "queue_complete m" "dup_free m" "work m + 2 \<le> work n" "next_id m \<le> next_id n + 2"
proof -
  obtain c d s t q where red: "active_pair n c d" and syms: "sym_at n c = Some s" "sym_at n d = Some t"
    "symbol_code s \<le> symbol_code t" and r: "r = get_rule s t"
    and app: "apply_rule r c d (n\<lparr>redex_queue := q\<rparr>) = Some m"
    and q: "q = queue_after n" and nx: "next_redex n = Some (c, d) \<or> next_redex n = Some (d, c)"
    using reduce_step_redex [OF inv ret] by metis
  let ?n = "n\<lparr>redex_queue := q\<rparr>"
  have nd: "s \<noteq> Dup" "t \<noteq> Dup"
    using free syms by (auto simp: dup_free_iff intro: ranI)
  obtain "is" ss ws where rew: "rewired ?n c d is ss ws m" and ss: "ss \<in> set (products s t)"
    using apply_rule_outcome [of ?n c d s t m] inv red syms app r nd by (auto simp: rule_outcome_def)
  have small: "ss = [] \<or> ss = [Era, Era] \<and> s = Con \<and> t = Era"
    using ss nd by (cases s; cases t) auto
  have "queue_covers {} m"
  proof (rule rewired_covers [OF _ rew])
    fix a b
    assume "active_pair ?n a b" "{a, b} \<noteq> {c, d}"
    then show "(a, b) \<in> set (redex_queue ?n) \<union> {} \<or> (b, a) \<in> set (redex_queue ?n) \<union> {}"
      using nx queue_complete_after [OF inv qc, of c d a b] queue_complete_after [OF inv qc, of d c a b]
      by (auto simp: q insert_commute)
  qed (use inv in simp)
  then show "queue_complete m"
    by (simp add: queue_complete_covers)
  show "core_inv m" "next_id m \<le> next_id n + 2"
    using rewiredD(1,10) [OF rew] small by auto
  have w: "map_weight f (sym_at m) + f s + f t = map_weight f (sym_at n) + sum_list (map f ss)" for f
    using repopulated_weight [OF rewired_repopulated [OF rew], of s t f] syms active_pairD(3) [OF inv red] by simp
  show "dup_free m"
    using w [of "\<lambda>s. if s = Dup then 1 else 0"] free small by (auto simp: dup_free_weight)
  show "work m + 2 \<le> work n"
    using w [of con_weight] small syms(3) nd by (cases s; cases t) (auto simp: work_weight con_weight_def)
qed

lemma reduce_all_from_terminates:
  assumes "core_inv n" "queue_complete n" "dup_free n" "next_id n + work n + 4 \<le> u32_MAX"
  shows "\<exists>st' m. reduce_all_from st n = Some (Some (st', m)) \<and>
    2 * total_interactions st' \<le> 2 * total_interactions st + work n \<and> core_inv m \<and> (\<forall>a b. \<not> active_pair m a b)"
  using assms
proof (induction "work n" arbitrary: n st rule: less_induct)
  case less
  obtain res m where step: "reduce_step n = Some (res, m)"
    using reduce_step_total [OF less.prems(1)] less.prems(4) by auto
  show ?case
  proof (cases res)
    case NormalForm
    note nf = reduce_step_NormalForm [OF less.prems(1) step [unfolded NormalForm]]
    then show ?thesis
      using less.prems next_redex_None [OF less.prems(1,2)] step NormalForm
      by (subst reduce_all_from.simps) simp
  next
    case (Reduced r sp)
    note D = dup_free_step [OF less.prems(1-3) step [unfolded Reduced]]
    obtain st' k where "reduce_all_from (record_rule r sp st) m = Some (Some (st', k))"
      "2 * total_interactions st' \<le> 2 * total_interactions (record_rule r sp st) + work m"
      "core_inv k" "\<forall>a b. \<not> active_pair k a b"
      using less.hyps [of m "record_rule r sp st"] D less.prems(4) by auto
    then show ?thesis
      using step Reduced D(4) by (subst reduce_all_from.simps) auto
  qed
qed

text \<open>
  Reduction of a net without duplicators always ends (C19): \<open>reduce_all\<close> returns a net without
  active pairs after at most half as many interactions as the net's weight (three for each
  constructor, one for each eraser), however the net is wired.
\<close>

theorem reduce_all_terminates:
  assumes "core_inv n" "queue_complete n" "dup_free n" "next_id n + work n + 4 \<le> u32_MAX"
  shows "\<exists>st m. reduce_all n = Some (Some (st, m)) \<and> 2 * total_interactions st \<le> work n \<and>
    core_inv m \<and> (\<forall>a b. \<not> active_pair m a b)"
  using reduce_all_from_terminates [OF assms, of stats_zero]
  by (simp add: reduce_all_def) (simp add: stats_zero_def)

theorem reduce_all_terminates_witness:
  "\<exists>st m. reduce_all (pair_net Con Era) = Some (Some (st, m)) \<and> total_interactions st \<le> 2 \<and>
     (\<forall>a b. \<not> active_pair m a b)"
proof -
  let ?n = "pair_net Con Era"
  have "dup_free ?n" and w: "work ?n = 4"
    by (simp_all add: dup_free_def work_def con_weight_def live_agents_def pair_net_def map_filter_simps)
  then obtain st m where "reduce_all ?n = Some (Some (st, m))" "2 * total_interactions st \<le> work ?n"
      "\<forall>a b. \<not> active_pair m a b"
    using reduce_all_terminates [of ?n] pair_net_queue by auto
  then show ?thesis
    using w by auto
qed

section \<open>The single pass of strict BSP mode\<close>

text \<open>The pass only meets pairs without cross wires.\<close>

fun clean_pass :: "(agent_id \<times> agent_id) list \<Rightarrow> net \<Rightarrow> bool" where
  "clean_pass [] n \<longleftrightarrow> True"
| "clean_pass ((a, b) # initial) n \<longleftrightarrow>
     (if \<not> is_valid_redex n a b then clean_pass initial n
      else no_cross n a b \<and>
           (case reduce_step (n\<lparr>redex_queue := [(a, b)]\<rparr>) of
              None \<Rightarrow> True
            | Some (r, m) \<Rightarrow> clean_pass initial m))"

lemma clean_pass_queue [simp]: "clean_pass ps (n\<lparr>redex_queue := q\<rparr>) \<longleftrightarrow> clean_pass ps n"
  by (induction ps arbitrary: q) auto

lemma reduce_step_single:
  assumes "is_valid_redex n a b"
  shows "reduce_step (n\<lparr>redex_queue := [(a, b)]\<rparr>) = reduce_pair a b (n\<lparr>redex_queue := []\<rparr>)"
  using assms by (subst reduce_step.simps) simp

lemma reduce_pair_Reduced:
  assumes "reduce_pair a b n = Some (r, m)"
  shows "\<exists>s t. r = Reduced (get_rule s t) (get_specific_rule s t)"
  using assms by (auto simp: reduce_pair_def Let_def split: bind_splits) blast

lemma border_once_from_keeps:
  assumes "net_inv n" "queue_covers (set initial \<union> set deferred) n" "clean_pass initial n" "stats_ok st"
    and "border_once_from initial deferred st n = Some (st', m)"
  shows "net_inv m \<and> queue_complete m \<and> stats_ok st' \<and>
    total_interactions st' \<le> total_interactions st + length initial"
  using assms
proof (induction initial deferred st n rule: border_once_from.induct)
  case (1 deferred st n)
  then have m: "m = n\<lparr>redex_queue := deferred @ redex_queue n\<rparr>" "st' = st"
    by auto
  have "queue_complete m"
    using 1(2) unfolding queue_covers_def queue_complete_def m by simp blast
  then show ?case
    using 1 m by simp
next
  case (2 a b initial deferred st n)
  note core = net_invD(1) [OF "2.prems"(1)]
  show ?case
  proof (cases "is_valid_redex n a b")
    case False
    have "\<not> active_pair n a b" "\<not> active_pair n b a"
      using False is_valid_redex_iff [OF core] active_pairD(6) [OF core] by auto
    then have "queue_covers (set initial \<union> set deferred) n"
      using "2.prems"(2) unfolding queue_covers_def by fastforce
    then show ?thesis
      using "2.IH"(1) "2.prems" False by force
  next
    case True
    let ?n = "n\<lparr>redex_queue := []\<rparr>"
    obtain r m1 where red: "reduce_pair a b ?n = Some (r, m1)"
      using "2.prems"(5) True by (cases "reduce_pair a b ?n") (auto simp: reduce_step_single)
    obtain s t where r: "r = Reduced (get_rule s t) (get_specific_rule s t)"
      using reduce_pair_Reduced [OF red] by blast
    have pair: "active_pair n a b"
      using True is_valid_redex_iff [OF core] by simp
    let ?Q = "set initial \<union> set (deferred @ redex_queue n)"
    have keep: "net_inv m1" "queue_covers ?Q m1"
    proof -
      have old: "(c, d) \<in> set (redex_queue ?n) \<union> ?Q \<or> (d, c) \<in> set (redex_queue ?n) \<union> ?Q"
        if "active_pair ?n c d" "{c, d} \<noteq> {a, b}" for c d
        using "2.prems"(2) that unfolding queue_covers_def by auto
      show "net_inv m1" "queue_covers ?Q m1"
        using reduce_pair_keeps [OF _ _ _ old red] "2.prems"(1,3) pair True by simp_all
    qed
    have "clean_pass initial m1"
      using "2.prems"(3) True red by (simp add: reduce_step_single)
    then show ?thesis
      using "2.IH"(2) [OF _ refl _ _ r keep] True red r stats_ok_record [OF "2.prems"(4)] "2.prems"(5)
      by (simp add: reduce_step_single Let_def)
  qed
qed

text \<open>
  The strict-BSP pass (C37): when no pair it reduces has a wire between auxiliary ports of its two
  agents, \<open>reduce_border_once\<close> performs at most one interaction per redex that was queued when it
  started, keeps the invariant, and leaves every remaining active pair (the cascades it deferred) in the
  queue; its statistics are consistent.
\<close>

theorem reduce_border_once_correct:
  assumes "net_inv n" "queue_complete n" "clean_pass (redex_queue n) n"
    and "reduce_border_once n = Some (st, m)"
  shows "net_inv m \<and> queue_complete m \<and> stats_ok st \<and>
    total_interactions st \<le> length (redex_queue n)"
proof -
  have "queue_covers (set (redex_queue n) \<union> set []) (n\<lparr>redex_queue := []\<rparr>)"
    using assms(2) by (simp add: queue_covers_def queue_complete_def)
  then show ?thesis
    using border_once_from_keeps [of "n\<lparr>redex_queue := []\<rparr>" "redex_queue n" "[]" stats_zero st m] assms
    by (simp add: reduce_border_once_def) (simp add: stats_zero_def)
qed

theorem reduce_border_once_correct_witness:
  "\<exists>st m. reduce_border_once (pair_net Con Dup) = Some (st, m) \<and> net_inv m \<and> total_interactions st \<le> 1"
proof -
  let ?n = "pair_net Con Dup"
  have valid: "is_valid_redex ?n 0 1"
    using is_valid_redex_iff [of ?n 0 1] by simp
  obtain r m1 where red: "reduce_pair 0 1 (?n\<lparr>redex_queue := []\<rparr>) = Some (r, m1)"
    using reduce_pair_total [of "?n\<lparr>redex_queue := []\<rparr>" 0 1] by auto
  obtain st m where ret: "reduce_border_once ?n = Some (st, m)"
    using valid red by (cases r) (auto simp: reduce_border_once_def reduce_step_single)
  have "clean_pass (redex_queue ?n) ?n"
    using valid red by (simp add: reduce_step_single)
  then show ?thesis
    using reduce_border_once_correct [OF pair_net_inv pair_net_queue _ ret] ret by auto
qed

end
