(* ===== verification/Sparse.thy ===== *)
theory Sparse
  imports Net_Props
begin

text \<open>
  The map-backed representation of a net (\<open>net/sparse.rs\<close>) and its conversions from and to the dense
  arena.  A \<open>HashMap\<close> is a partial map; a loop over one takes the iteration order, which the
  language leaves open, as an argument, and the theorems hold for every enumeration of the keys.
\<close>

section \<open>State and operations\<close>

record sparse_net =
  sp_agents :: "agent_id \<rightharpoonup> agent"
  sp_ports :: "agent_id \<times> port_id \<rightharpoonup> port_ref"
  sp_redex_queue :: "(agent_id \<times> agent_id) list"
  sp_next_id :: agent_id
  sp_root :: "port_ref option"
  sp_freeport_redirects :: "nat \<rightharpoonup> port_ref"

definition sparse_new :: sparse_net where
  "sparse_new = \<lparr>sp_agents = Map.empty, sp_ports = Map.empty, sp_redex_queue = [], sp_next_id = 0,
                 sp_root = None, sp_freeport_redirects = Map.empty\<rparr>"

definition sparse_with_capacity :: "nat \<Rightarrow> sparse_net" where
  "sparse_with_capacity capacity = sparse_new"

definition sparse_create_agent :: "symbol \<Rightarrow> sparse_net \<Rightarrow> (agent_id \<times> sparse_net) option" where
  "sparse_create_agent s n =
     (if sp_next_id n < u32_MAX
      then let i = sp_next_id n
           in Some (i, n\<lparr>sp_next_id := i + 1, sp_agents := (sp_agents n)(i \<mapsto> \<lparr>a_symbol = s, a_id = i\<rparr>)\<rparr>)
      else None)"

definition sparse_create_agent_at :: "agent_id \<Rightarrow> symbol \<Rightarrow> sparse_net \<Rightarrow> sparse_net" where
  "sparse_create_agent_at i s n =
     (let n1 = n\<lparr>sp_agents := (sp_agents n)(i \<mapsto> \<lparr>a_symbol = s, a_id = i\<rparr>)\<rparr>
      in if i \<ge> sp_next_id n1 then n1\<lparr>sp_next_id := min u32_MAX (i + 1)\<rparr> else n1)"

text \<open>Removing one directed entry and, when it leads to an agent port, the reverse entry.\<close>

definition sparse_unplug :: "agent_id \<Rightarrow> port_id \<Rightarrow> (agent_id \<times> port_id \<rightharpoonup> port_ref) \<Rightarrow> (agent_id \<times> port_id \<rightharpoonup> port_ref)"
  where
  "sparse_unplug i p m =
     (case m (i, p) of
        Some (AgentPort tid tp) \<Rightarrow> m((i, p) := None, (tid, tp) := None)
      | _ \<Rightarrow> m((i, p) := None))"

definition sparse_remove_agent :: "agent_id \<Rightarrow> sparse_net \<Rightarrow> sparse_net" where
  "sparse_remove_agent i n =
     (case sp_agents n i of
        None \<Rightarrow> n
      | Some ag \<Rightarrow>
          n\<lparr>sp_agents := (sp_agents n)(i := None),
            sp_ports := fold (sparse_unplug i) [0..<total_ports (a_symbol ag)] (sp_ports n),
            sp_freeport_redirects := (sp_freeport_redirects n)(i := None)\<rparr>)"

definition write_port :: "port_ref \<Rightarrow> port_ref \<Rightarrow> sparse_net \<Rightarrow> sparse_net" where
  "write_port port target n =
     (case port of
        FreePort f \<Rightarrow> n
      | AgentPort i p \<Rightarrow>
          if (case sp_agents n i of None \<Rightarrow> False | Some ag \<Rightarrow> p \<ge> total_ports (a_symbol ag)) then n
          else if target \<noteq> DISCONNECTED then n\<lparr>sp_ports := (sp_ports n)((i, p) \<mapsto> target)\<rparr>
          else n)"

definition sparse_connect :: "port_ref \<Rightarrow> port_ref \<Rightarrow> sparse_net \<Rightarrow> sparse_net" where
  "sparse_connect a b n =
     (let n1 = write_port b a (write_port a b n)
      in n1\<lparr>sp_freeport_redirects := redirect_freeports a b (sp_freeport_redirects n1),
            sp_redex_queue := sp_redex_queue n1 @ new_redexes a b\<rparr>)"

definition sparse_disconnect :: "port_ref \<Rightarrow> sparse_net \<Rightarrow> sparse_net" where
  "sparse_disconnect port n =
     (case port of
        AgentPort i p \<Rightarrow> n\<lparr>sp_ports := sparse_unplug i p (sp_ports n)\<rparr>
      | FreePort f \<Rightarrow> n)"

definition sparse_get_target :: "sparse_net \<Rightarrow> port_ref \<Rightarrow> port_ref" where
  "sparse_get_target n port =
     (case port of
        AgentPort i p \<Rightarrow> (case sp_ports n (i, p) of Some t \<Rightarrow> t | None \<Rightarrow> DISCONNECTED)
      | FreePort f \<Rightarrow> DISCONNECTED)"

definition sparse_get_agent :: "sparse_net \<Rightarrow> agent_id \<Rightarrow> agent option" where
  "sparse_get_agent n i = sp_agents n i"

definition sparse_is_reduced :: "sparse_net \<Rightarrow> bool" where
  "sparse_is_reduced n \<longleftrightarrow> sp_redex_queue n = []"

text \<open>\<open>HashMap::len\<close> and \<open>HashMap::values\<close>, given an enumeration of the keys.\<close>

definition sparse_live_agents :: "agent_id list \<Rightarrow> sparse_net \<Rightarrow> agent list" where
  "sparse_live_agents order n = List.map_filter (sp_agents n) order"

definition sparse_count_live_agents :: "agent_id list \<Rightarrow> sparse_net \<Rightarrow> nat" where
  "sparse_count_live_agents order n = length (sparse_live_agents order n)"

section \<open>Conversions\<close>

definition MAX_DENSE_ARENA_SLOTS :: nat where
  "MAX_DENSE_ARENA_SLOTS = 16777216"

definition fill_agents :: "sparse_net \<Rightarrow> agent_id list \<Rightarrow> agent option list \<Rightarrow> agent option list" where
  "fill_agents s order ags = fold (\<lambda>i acc. acc[i := sp_agents s i]) order ags"

definition fill_port :: "sparse_net \<Rightarrow> agent_id \<times> port_id \<Rightarrow> port_ref list \<Rightarrow> port_ref list" where
  "fill_port s k acc =
     (case sp_ports s k of
        None \<Rightarrow> acc
      | Some target \<Rightarrow>
          let idx = port_index (fst k) (snd k)
          in if idx < length acc then acc[idx := target] else acc)"

text \<open>The empty slots of the arena between the clamped bounds.\<close>

definition free_slots :: "nat \<Rightarrow> nat \<Rightarrow> agent option list \<Rightarrow> agent_id list" where
  "free_slots lo hi ags = filter (\<lambda>i. ags ! i = None) [lo..<hi]"

definition to_dense ::
  "agent_id list \<Rightarrow> (agent_id \<times> port_id) list \<Rightarrow> (agent_id \<times> agent_id) option \<Rightarrow> sparse_net \<Rightarrow> net_error + net"
  where
  "to_dense order port_order rng s =
     (if (case rng of Some (start, stop) \<Rightarrow> start > stop | None \<Rightarrow> False)
      then Inl (InvalidIdRange (fst (the rng)) (snd (the rng)))
      else
        let arena_len = fold max order 0 + 1
        in if arena_len > MAX_DENSE_ARENA_SLOTS
           then Inl (DenseAllocationExceedsThreshold arena_len MAX_DENSE_ARENA_SLOTS (length order))
           else
             let ags = fill_agents s order (replicate arena_len None);
                 prts = fold (fill_port s) port_order (replicate (arena_len * PORTS_PER_SLOT) DISCONNECTED);
                 (lo, hi) = (case rng of Some r \<Rightarrow> r | None \<Rightarrow> (0, arena_len));
                 fl = free_slots (min lo arena_len) (min hi arena_len) ags
             in Inr (net_new\<lparr>agents := ags, ports := prts, redex_queue := sp_redex_queue s,
                        next_id := sp_next_id s, root := sp_root s,
                        freeport_redirects := sp_freeport_redirects s,
                        free_list := fl, id_range := rng\<rparr>))"

definition sparse_port_entry :: "net \<Rightarrow> agent_id \<Rightarrow> port_id \<Rightarrow> (agent_id \<times> port_id \<rightharpoonup> port_ref) \<Rightarrow> (agent_id \<times> port_id \<rightharpoonup> port_ref)"
  where
  "sparse_port_entry n i p m =
     (let idx = port_index i p
      in if idx < length (ports n) \<and> ports n ! idx \<noteq> DISCONNECTED then m((i, p) \<mapsto> ports n ! idx) else m)"

definition sparse_insert :: "net \<Rightarrow> agent \<Rightarrow> sparse_net \<Rightarrow> sparse_net" where
  "sparse_insert n ag s =
     s\<lparr>sp_agents := (sp_agents s)(a_id ag \<mapsto> ag),
       sp_ports := fold (sparse_port_entry n (a_id ag)) [0..<total_ports (a_symbol ag)] (sp_ports s)\<rparr>"

definition to_sparse :: "net \<Rightarrow> sparse_net" where
  "to_sparse n =
     (let s = fold (sparse_insert n) (live_agents n) (sparse_with_capacity (count_live_agents n))
      in s\<lparr>sp_redex_queue := redex_queue n, sp_next_id := next_id n, sp_root := root n,
           sp_freeport_redirects := freeport_redirects n\<rparr>)"

text \<open>The checks of \<open>assert_invariants\<close> for one entry of the port map.\<close>

definition sparse_entry_ok :: "sparse_net \<Rightarrow> (agent_id \<times> port_id) \<Rightarrow> bool" where
  "sparse_entry_ok n k =
     (case sp_ports n k of
        Some (AgentPort j q) \<Rightarrow>
          (sp_root n = Some (AgentPort j q) \<or> sp_ports n (j, q) = Some (AgentPort (fst k) (snd k))) \<and>
          (case sp_agents n j of None \<Rightarrow> False | Some ag \<Rightarrow> q < total_ports (a_symbol ag))
      | _ \<Rightarrow> True)"

definition sparse_assert_invariants :: "(agent_id \<times> port_id) list \<Rightarrow> sparse_net \<Rightarrow> bool" where
  "sparse_assert_invariants order n = list_all (sparse_entry_ok n) order"

end
