(* ===== verification/Arena.thy ===== *)
theory Arena
  imports Sparse
begin

text \<open>
  The contract that the dense and the sparse representation of a net share, as a locale on the
  observable view (which symbol lives at an identifier, where a port leads), the laws of clients
  that follow from the contract alone, and the two interpretations.
\<close>

section \<open>The contract\<close>

definition port_exists :: "(agent_id \<Rightarrow> symbol option) \<Rightarrow> agent_id \<Rightarrow> port_id \<Rightarrow> bool" where
  "port_exists syms i p \<longleftrightarrow> (case syms i of None \<Rightarrow> False | Some s \<Rightarrow> p < total_ports s)"

definition can_plug ::
  "(agent_id \<Rightarrow> symbol option) \<Rightarrow> (agent_id \<Rightarrow> port_id \<Rightarrow> port_ref) \<Rightarrow> port_ref \<Rightarrow> bool" where
  "can_plug syms wires x \<longleftrightarrow>
     (case x of AgentPort i p \<Rightarrow> port_exists syms i p \<and> wires i p = DISCONNECTED | FreePort f \<Rightarrow> True)"

lemma port_exists_less: "port_exists syms i p \<Longrightarrow> p < 3"
  by (auto simp: port_exists_def split: option.splits intro: less_le_trans [OF _ total_ports_le])

locale arena =
  fixes inv :: "'n \<Rightarrow> bool"
    and syms :: "'n \<Rightarrow> agent_id \<Rightarrow> symbol option"
    and wires :: "'n \<Rightarrow> agent_id \<Rightarrow> port_id \<Rightarrow> port_ref"
    and create :: "symbol \<Rightarrow> 'n \<Rightarrow> (agent_id \<times> 'n) option"
    and plug :: "port_ref \<Rightarrow> port_ref \<Rightarrow> 'n \<Rightarrow> 'n"
    and drop_agent :: "agent_id \<Rightarrow> 'n \<Rightarrow> 'n"
  assumes wires_sym:
      "inv n \<Longrightarrow> p < 3 \<Longrightarrow> wires n i p = AgentPort j q \<Longrightarrow>
         port_exists (syms n) j q \<and> wires n j q = AgentPort i p \<and> (i, p) \<noteq> (j, q)"
    and create_law:
      "inv n \<Longrightarrow> create s n = Some (i, m) \<Longrightarrow>
         inv m \<and> syms n i = None \<and> syms m = (syms n)(i \<mapsto> s) \<and> (\<forall>j q. q < 3 \<longrightarrow> wires m j q = wires n j q)"
    and dead_wires: "inv n \<Longrightarrow> syms n i = None \<Longrightarrow> p < 3 \<Longrightarrow> wires n i p = DISCONNECTED"
    and plug_law:
      "inv n \<Longrightarrow> can_plug (syms n) (wires n) x \<Longrightarrow> can_plug (syms n) (wires n) y \<Longrightarrow>
         (\<And>i p. x = AgentPort i p \<Longrightarrow> y \<noteq> AgentPort i p) \<Longrightarrow>
         inv (plug x y n) \<and> syms (plug x y n) = syms n \<and>
         (\<forall>j q. q < 3 \<longrightarrow> wires (plug x y n) j q =
            (if y = AgentPort j q then x else if x = AgentPort j q then y else wires n j q))"
    and drop_law:
      "inv n \<Longrightarrow> syms n i \<noteq> None \<Longrightarrow>
         inv (drop_agent i n) \<and> syms (drop_agent i n) = (syms n)(i := None) \<and>
         (\<forall>j q. q < 3 \<longrightarrow> wires (drop_agent i n) j q =
            (if j = i \<or> (\<exists>p. wires n j q = AgentPort i p) then DISCONNECTED else wires n j q))"
begin

text \<open>A plugged wire is visible from both of its ends.\<close>

lemma plug_both_ends:
  assumes "inv n" "can_plug (syms n) (wires n) (AgentPort i p)" "can_plug (syms n) (wires n) (AgentPort j q)"
    and "(i, p) \<noteq> (j, q)"
  shows "wires (plug (AgentPort i p) (AgentPort j q) n) i p = AgentPort j q"
    and "wires (plug (AgentPort i p) (AgentPort j q) n) j q = AgentPort i p"
proof -
  have "p < 3" "q < 3"
    using assms(2,3) by (auto simp: can_plug_def dest: port_exists_less)
  then show "wires (plug (AgentPort i p) (AgentPort j q) n) i p = AgentPort j q"
    and "wires (plug (AgentPort i p) (AgentPort j q) n) j q = AgentPort i p"
    using plug_law [OF assms(1-3)] assms(4) by auto
qed

text \<open>An agent that has just been created can be plugged at each of its ports.\<close>

lemma create_pluggable:
  assumes "inv n" "create s n = Some (i, m)" "p < total_ports s"
  shows "can_plug (syms m) (wires m) (AgentPort i p)"
proof -
  note C = create_law [OF assms(1,2)]
  have "p < 3"
    using assms(3) total_ports_le by (rule less_le_trans)
  then show ?thesis
    using C dead_wires [OF assms(1), of i p] assms(3) by (simp add: can_plug_def port_exists_def)
qed

text \<open>Dropping an agent reopens exactly the ports that were wired to it.\<close>

lemma drop_reopens:
  assumes "inv n" "syms n i \<noteq> None" "p < 3" "wires n i p = AgentPort j q" "j \<noteq> i"
  shows "can_plug (syms (drop_agent i n)) (wires (drop_agent i n)) (AgentPort j q)"
proof -
  note far = wires_sym [OF assms(1,3,4)]
  have "q < 3"
    using far port_exists_less by blast
  then show ?thesis
    using far drop_law [OF assms(1,2)] assms(5) by (auto simp: can_plug_def port_exists_def)
qed

end

section \<open>Two arenas side by side\<close>

text \<open>
  Two implementations of the contract that show the same view go on showing the same view when the
  same operation is applied to both.
\<close>

locale arena_pair =
  A: arena inv_a syms_a wires_a create_a plug_a drop_a +
  B: arena inv_b syms_b wires_b create_b plug_b drop_b
  for inv_a :: "'m \<Rightarrow> bool" and syms_a wires_a create_a plug_a drop_a
    and inv_b :: "'n \<Rightarrow> bool" and syms_b wires_b create_b plug_b drop_b
begin

lemma plug_agree:
  assumes inv: "inv_a m" "inv_b n" and same: "syms_a m = syms_b n" "\<forall>j q. q < 3 \<longrightarrow> wires_a m j q = wires_b n j q"
    and ends: "can_plug (syms_a m) (wires_a m) x" "can_plug (syms_a m) (wires_a m) y"
      "\<And>i p. x = AgentPort i p \<Longrightarrow> y \<noteq> AgentPort i p"
  shows "inv_a (plug_a x y m)" "inv_b (plug_b x y n)" "syms_a (plug_a x y m) = syms_b (plug_b x y n)"
    "\<forall>j q. q < 3 \<longrightarrow> wires_a (plug_a x y m) j q = wires_b (plug_b x y n) j q"
proof -
  have transfer: "can_plug (syms_b n) (wires_b n) z" if "can_plug (syms_a m) (wires_a m) z" for z
    using that same port_exists_less by (cases z) (fastforce simp: can_plug_def)+
  note a = A.plug_law [OF inv(1) ends] and b = B.plug_law [OF inv(2) transfer [OF ends(1)] transfer [OF ends(2)] ends(3)]
  show "inv_a (plug_a x y m)" "inv_b (plug_b x y n)"
    using a b by simp_all
  show "syms_a (plug_a x y m) = syms_b (plug_b x y n)"
    using a b same(1) by simp
  show "\<forall>j q. q < 3 \<longrightarrow> wires_a (plug_a x y m) j q = wires_b (plug_b x y n) j q"
    using a b same(2) by simp
qed

lemma drop_agree:
  assumes inv: "inv_a m" "inv_b n" and same: "syms_a m = syms_b n" "\<forall>j q. q < 3 \<longrightarrow> wires_a m j q = wires_b n j q"
    and live: "syms_a m i \<noteq> None"
  shows "inv_a (drop_a i m)" "inv_b (drop_b i n)" "syms_a (drop_a i m) = syms_b (drop_b i n)"
    "\<forall>j q. q < 3 \<longrightarrow> wires_a (drop_a i m) j q = wires_b (drop_b i n) j q"
proof -
  have live': "syms_b n i \<noteq> None"
    using live same(1) by simp
  note a = A.drop_law [OF inv(1) live] and b = B.drop_law [OF inv(2) live']
  show "inv_a (drop_a i m)" "inv_b (drop_b i n)"
    using a b by simp_all
  show "syms_a (drop_a i m) = syms_b (drop_b i n)"
    using a b same(1) by simp
  show "\<forall>j q. q < 3 \<longrightarrow> wires_a (drop_a i m) j q = wires_b (drop_b i n) j q"
    using a b same(2) by simp
qed

end

section \<open>The dense arena\<close>

lemma valid_port_exists: "valid_port n i p \<longleftrightarrow> port_exists (sym_at n) i p"
  by (simp add: valid_port_def port_exists_def)

lemma open_can_plug: "open_end n x \<longleftrightarrow> can_plug (sym_at n) (tgt n) x"
  by (cases x) (simp_all add: can_plug_def valid_port_exists)

interpretation dense: arena core_inv sym_at tgt create_agent connect remove_agent
proof (unfold_locales, goal_cases)
  case (1 n p i j q)
  then show ?case
    using neighbour symmetric_wiresD(3) [OF core_invD(3)] by (metis valid_port_exists)
next
  case (2 n s i m)
  then show ?case
    using create_agent_spec [OF 2] by auto
next
  case (3 n i p)
  then show ?case
    using dead_tgt by blast
next
  case (4 n x y)
  then show ?case
    using core_inv_connect tgt_connect_open [OF core_invD(1)] by (simp add: open_can_plug [symmetric])
next
  case (5 n i)
  then show ?case
    using core_inv_remove tgt_remove by simp
qed

section \<open>The sparse arena\<close>

definition sp_sym :: "sparse_net \<Rightarrow> agent_id \<Rightarrow> symbol option" where
  "sp_sym n i = map_option a_symbol (sp_agents n i)"

definition sp_tgt :: "sparse_net \<Rightarrow> agent_id \<Rightarrow> port_id \<Rightarrow> port_ref" where
  "sp_tgt n i p = sparse_get_target n (AgentPort i p)"

definition sp_inv :: "sparse_net \<Rightarrow> bool" where
  "sp_inv n \<longleftrightarrow>
     (\<forall>i ag. sp_agents n i = Some ag \<longrightarrow> a_id ag = i \<and> i < sp_next_id n) \<and> sp_next_id n \<le> u32_MAX \<and>
     (\<forall>i p t. sp_ports n (i, p) = Some t \<longrightarrow> t \<noteq> DISCONNECTED \<and> port_exists (sp_sym n) i p) \<and>
     (\<forall>i p j q. sp_tgt n i p = AgentPort j q \<longrightarrow> sp_tgt n j q = AgentPort i p \<and> (i, p) \<noteq> (j, q))"

lemma sp_invD:
  assumes "sp_inv n"
  shows "sp_agents n i = Some ag \<Longrightarrow> a_id ag = i" "sp_agents n i = Some ag \<Longrightarrow> i < sp_next_id n"
    "sp_next_id n \<le> u32_MAX" "sp_ports n (i, p) = Some t \<Longrightarrow> t \<noteq> DISCONNECTED"
    "sp_ports n (i, p) = Some t \<Longrightarrow> port_exists (sp_sym n) i p"
    "sp_tgt n i p = AgentPort j q \<Longrightarrow> sp_tgt n j q = AgentPort i p"
    "sp_tgt n i p = AgentPort j q \<Longrightarrow> (i, p) \<noteq> (j, q)"
  using assms unfolding sp_inv_def by blast+

lemma sp_invI:
  assumes "\<And>i ag. sp_agents n i = Some ag \<Longrightarrow> a_id ag = i \<and> i < sp_next_id n" "sp_next_id n \<le> u32_MAX"
    and "\<And>i p t. sp_ports n (i, p) = Some t \<Longrightarrow> t \<noteq> DISCONNECTED \<and> port_exists (sp_sym n) i p"
    and "\<And>i p j q. sp_tgt n i p = AgentPort j q \<Longrightarrow> sp_tgt n j q = AgentPort i p \<and> (i, p) \<noteq> (j, q)"
  shows "sp_inv n"
  using assms unfolding sp_inv_def by blast

lemma sp_tgt_Some: "sp_tgt n i p = AgentPort j q \<longleftrightarrow> sp_ports n (i, p) = Some (AgentPort j q)"
  by (simp add: sp_tgt_def sparse_get_target_def split: option.split)

lemma sp_tgt_exists: "sp_inv n \<Longrightarrow> sp_tgt n i p = AgentPort j q \<Longrightarrow> port_exists (sp_sym n) j q"
  using sp_invD(5,6) by (metis sp_tgt_Some)

lemma sp_tgt_ports: "sp_tgt n i p = (case sp_ports n (i, p) of Some t \<Rightarrow> t | None \<Rightarrow> DISCONNECTED)"
  by (simp add: sp_tgt_def sparse_get_target_def)

lemma sp_update_simps [simp]:
  "sp_sym (n\<lparr>sp_ports := ps\<rparr>) = sp_sym n" "sp_sym (n\<lparr>sp_freeport_redirects := r\<rparr>) = sp_sym n"
  "sp_sym (n\<lparr>sp_redex_queue := q\<rparr>) = sp_sym n" "sp_sym (n\<lparr>sp_next_id := k\<rparr>) = sp_sym n"
  "sp_tgt (n\<lparr>sp_agents := ags\<rparr>) = sp_tgt n" "sp_tgt (n\<lparr>sp_freeport_redirects := r\<rparr>) = sp_tgt n"
  "sp_tgt (n\<lparr>sp_redex_queue := q\<rparr>) = sp_tgt n" "sp_tgt (n\<lparr>sp_next_id := k\<rparr>) = sp_tgt n"
  by (simp_all add: sp_sym_def sp_tgt_ports fun_eq_iff)

lemma sp_create:
  assumes inv: "sp_inv n" and ret: "sparse_create_agent s n = Some (i, m)"
  shows "sp_inv m \<and> sp_sym n i = None \<and> sp_sym m = (sp_sym n)(i \<mapsto> s) \<and> (\<forall>j q. sp_tgt m j q = sp_tgt n j q)"
proof -
  have m: "i = sp_next_id n" "sp_next_id n < u32_MAX"
    "m = n\<lparr>sp_next_id := i + 1, sp_agents := (sp_agents n)(i \<mapsto> \<lparr>a_symbol = s, a_id = i\<rparr>)\<rparr>"
    using ret by (auto simp: sparse_create_agent_def Let_def split: if_splits)
  have fresh: "sp_agents n i = None"
    using sp_invD(2) [OF inv, of i] m(1) by (cases "sp_agents n i") auto
  have syms: "sp_sym m = (sp_sym n)(i \<mapsto> s)"
    by (auto simp: m(3) sp_sym_def fun_eq_iff)
  have tgts: "sp_tgt m = sp_tgt n"
    by (simp add: m(3))
  have "port_exists (sp_sym m) j q" if "port_exists (sp_sym n) j q" for j q
    using that fresh by (auto simp: port_exists_def syms sp_sym_def split: option.splits)
  moreover have "sp_ports m = sp_ports n" "sp_next_id m = i + 1"
    by (simp_all add: m(3))
  moreover have "a_id ag = j \<and> j < i + 1" if "sp_agents m j = Some ag" for j ag
    using that sp_invD(1,2) [OF inv, of j ag] m(1) by (auto simp: m(3) split: if_splits)
  ultimately have "sp_inv m"
  proof (intro sp_invI)
    show "sp_tgt m k q = AgentPort j p \<and> (j, p) \<noteq> (k, q)" if "sp_tgt m j p = AgentPort k q" for j p k q
      using sp_invD(6,7) [OF inv] that unfolding tgts by blast
  qed (use m(1,2) sp_invD(4,5) [OF inv] in auto)
  then show ?thesis
    using fresh syms tgts by (simp add: sp_sym_def)
qed

lemma sp_write_port:
  assumes "can_plug (sp_sym n) (sp_tgt n) x"
  shows "sp_sym (write_port x t n) = sp_sym n"
    "sp_tgt (write_port x t n) j q = (if x = AgentPort j q then t else sp_tgt n j q)"
    "sp_agents (write_port x t n) = sp_agents n" "sp_next_id (write_port x t n) = sp_next_id n"
    "sp_ports (write_port x t n) k =
       (if t \<noteq> DISCONNECTED \<and> x = AgentPort (fst k) (snd k) then Some t else sp_ports n k)"
  using assms
  by (cases x; auto simp: write_port_def can_plug_def port_exists_def sp_sym_def sp_tgt_ports fun_eq_iff
      split: option.splits)+

lemma write_port_DISCONNECTED [simp]: "write_port DISCONNECTED t n = n"
  by (simp add: write_port_def DISCONNECTED_def)

lemma sp_connect:
  assumes inv: "sp_inv n" and ends: "can_plug (sp_sym n) (sp_tgt n) x" "can_plug (sp_sym n) (sp_tgt n) y"
    and neq: "\<And>i p. x = AgentPort i p \<Longrightarrow> y \<noteq> AgentPort i p"
  defines "m \<equiv> sparse_connect x y n"
  shows "sp_inv m" "sp_sym m = sp_sym n"
    "sp_tgt m j q = (if y = AgentPort j q then x else if x = AgentPort j q then y else sp_tgt n j q)"
proof -
  let ?k = "write_port x y n"
  note X = sp_write_port [OF ends(1), of y]
  have "can_plug (sp_sym ?k) (sp_tgt ?k) y"
    using ends(2) neq X(1,2) by (cases y) (auto simp: can_plug_def)
  note Y = sp_write_port [OF this, of x]
  have view: "sp_tgt m j q = (if y = AgentPort j q then x else if x = AgentPort j q then y else sp_tgt n j q)" for j q
    by (simp add: m_def sparse_connect_def Let_def X Y)
  have syms: "sp_sym m = sp_sym n" and ags: "sp_agents m = sp_agents n" "sp_next_id m = sp_next_id n"
    by (simp_all add: m_def sparse_connect_def Let_def X Y)
  have prts: "sp_ports m k = (if x \<noteq> DISCONNECTED \<and> y = AgentPort (fst k) (snd k) then Some x
      else if y \<noteq> DISCONNECTED \<and> x = AgentPort (fst k) (snd k) then Some y else sp_ports n k)" for k
    by (simp add: m_def sparse_connect_def Let_def X Y)
  show "sp_sym m = sp_sym n"
    by (rule syms)
  show "sp_tgt m j q = (if y = AgentPort j q then x else if x = AgentPort j q then y else sp_tgt n j q)"
    by (rule view)
  show "sp_inv m"
  proof (rule sp_invI)
    show "t \<noteq> DISCONNECTED \<and> port_exists (sp_sym m) i p" if "sp_ports m (i, p) = Some t" for i p t
      using that ends sp_invD(4,5) [OF inv, of i p t] unfolding prts syms
      by (auto simp: can_plug_def split: if_splits)
  next
    fix i p j q
    assume t: "sp_tgt m i p = AgentPort j q"
    consider "y = AgentPort i p" "x = AgentPort j q" | "x = AgentPort i p" "y = AgentPort j q"
      | "y \<noteq> AgentPort i p" "x \<noteq> AgentPort i p" "sp_tgt n i p = AgentPort j q"
      using t view by (auto split: if_splits)
    then show "sp_tgt m j q = AgentPort i p \<and> (i, p) \<noteq> (j, q)"
    proof cases
      case 3
      note old = sp_invD(6,7) [OF inv 3(3)]
      then have "x \<noteq> AgentPort j q" "y \<noteq> AgentPort j q"
        using ends by (auto simp: can_plug_def)
      then show ?thesis
        using old view by simp
    qed (use neq view in auto)
  qed (use sp_invD(1-3) [OF inv] ags in auto)
qed

definition sym_map :: "(agent_id \<times> port_id \<rightharpoonup> port_ref) \<Rightarrow> bool" where
  "sym_map m \<longleftrightarrow> (\<forall>i p j q. m (i, p) = Some (AgentPort j q) \<longrightarrow> m (j, q) = Some (AgentPort i p))"

lemma sym_mapD: "sym_map m \<Longrightarrow> m (i, p) = Some (AgentPort j q) \<Longrightarrow> m (j, q) = Some (AgentPort i p)"
  unfolding sym_map_def by blast

lemma unplug_apply:
  assumes "sym_map m"
  shows "sparse_unplug i p m (j, q) =
    (if (j, q) = (i, p) \<or> m (j, q) = Some (AgentPort i p) then None else m (j, q))"
proof -
  have "m (j, q) = Some (AgentPort i p) \<longleftrightarrow> m (i, p) = Some (AgentPort j q)"
    using sym_mapD [OF assms] by blast
  then show ?thesis
    by (auto simp: sparse_unplug_def split: option.splits port_ref.splits)
qed

lemma unplug_sym_map:
  assumes "sym_map m"
  shows "sym_map (sparse_unplug i p m)"
  unfolding sym_map_def
proof (intro allI impI)
  fix k r j q
  assume "sparse_unplug i p m (k, r) = Some (AgentPort j q)"
  then have old: "m (k, r) = Some (AgentPort j q)" "(k, r) \<noteq> (i, p)" "(j, q) \<noteq> (i, p)"
    by (auto simp: unplug_apply [OF assms] split: if_splits)
  show "sparse_unplug i p m (j, q) = Some (AgentPort k r)"
    using old(2,3) sym_mapD [OF assms old(1)] by (auto simp: unplug_apply [OF assms])
qed

lemma unplug_all:
  assumes "sym_map m"
  shows "fold (sparse_unplug i) ps m (j, q) =
    (if j = i \<and> q \<in> set ps \<or> (\<exists>p \<in> set ps. m (j, q) = Some (AgentPort i p)) then None else m (j, q))"
  using assms
proof (induction ps arbitrary: m)
  case (Cons p ps)
  show ?case
    using Cons.IH [OF unplug_sym_map [OF Cons.prems]]
    by (auto simp: unplug_apply [OF Cons.prems])
qed simp

lemma sp_sym_map: "sp_inv n \<Longrightarrow> sym_map (sp_ports n)"
  unfolding sym_map_def using sp_invD(6) by (metis sp_tgt_Some)

lemma sp_remove:
  assumes inv: "sp_inv n" and live: "sp_sym n i \<noteq> None"
  defines "m \<equiv> sparse_remove_agent i n"
  shows "sp_inv m" "sp_sym m = (sp_sym n)(i := None)"
    "sp_tgt m j q = (if j = i \<or> (\<exists>p. sp_tgt n j q = AgentPort i p) then DISCONNECTED else sp_tgt n j q)"
proof -
  obtain ag where ag: "sp_agents n i = Some ag"
    using live by (auto simp: sp_sym_def)
  have exists: "port_exists (sp_sym n) i p \<longleftrightarrow> p < total_ports (a_symbol ag)" for p
    using ag by (simp add: port_exists_def sp_sym_def)
  have prts: "sp_ports m (j, q) =
      (if j = i \<or> (\<exists>p. sp_tgt n j q = AgentPort i p) then None else sp_ports n (j, q))" for j q
  proof -
    have "p < total_ports (a_symbol ag)" if "sp_ports n (j, q) = Some (AgentPort i p)" for p
      using sp_tgt_exists [OF inv, of j q i p] that exists sp_tgt_Some by blast
    moreover have "sp_ports n (i, q) = None" if "\<not> q < total_ports (a_symbol ag)"
      using that sp_invD(5) [OF inv, of i q] exists by (cases "sp_ports n (i, q)") auto
    ultimately show ?thesis
      using ag by (auto simp: m_def sparse_remove_agent_def unplug_all [OF sp_sym_map [OF inv]] sp_tgt_Some)
  qed
  show syms: "sp_sym m = (sp_sym n)(i := None)"
    using ag by (auto simp: m_def sparse_remove_agent_def sp_sym_def fun_eq_iff)
  have view: "sp_tgt m j q = (if j = i \<or> (\<exists>p. sp_tgt n j q = AgentPort i p) then DISCONNECTED else sp_tgt n j q)" for j q
    by (simp add: sp_tgt_ports [of m] prts) (simp add: sp_tgt_ports)
  then show "sp_tgt m j q = (if j = i \<or> (\<exists>p. sp_tgt n j q = AgentPort i p) then DISCONNECTED else sp_tgt n j q)" .
  have ags: "sp_agents m = (sp_agents n)(i := None)" "sp_next_id m = sp_next_id n"
    using ag by (simp_all add: m_def sparse_remove_agent_def)
  show "sp_inv m"
  proof (rule sp_invI)
    show "a_id ag' = k \<and> k < sp_next_id m" if "sp_agents m k = Some ag'" for k ag'
      using that sp_invD(1,2) [OF inv, of k ag'] by (auto simp: ags split: if_splits)
    show "t \<noteq> DISCONNECTED \<and> port_exists (sp_sym m) k p" if "sp_ports m (k, p) = Some t" for k p t
      using that sp_invD(4,5) [OF inv, of k p t] by (auto simp: prts syms port_exists_def split: if_splits)
    show "sp_tgt m k q = AgentPort l p \<and> (l, p) \<noteq> (k, q)" if "sp_tgt m l p = AgentPort k q" for l p k q
      using that sp_invD(6,7) [OF inv, of l p k q] by (auto simp: view split: if_splits)
  qed (use sp_invD(3) [OF inv] ags in simp)
qed

interpretation sparse: arena sp_inv sp_sym sp_tgt sparse_create_agent sparse_connect sparse_remove_agent
proof (unfold_locales, goal_cases)
  case (1 n p i j q)
  then show ?case
    using sp_invD(6,7) sp_tgt_exists by metis
next
  case (2 n s i m)
  then show ?case
    using sp_create by blast
next
  case (3 n i p)
  then show ?case
    using sp_invD(5) [OF 3(1), of i p] by (auto simp: sp_tgt_ports port_exists_def split: option.splits)
next
  case (4 n x y)
  then show ?case
    using sp_connect [OF 4] by blast
next
  case (5 n i)
  then show ?case
    using sp_remove [OF 5] by blast
qed

interpretation both: arena_pair core_inv sym_at tgt create_agent connect remove_agent
  sp_inv sp_sym sp_tgt sparse_create_agent sparse_connect sparse_remove_agent
  by unfold_locales

end
