(* ===== verification/Sparse_Props.thy ===== *)
theory Sparse_Props
  imports Arena
begin

text \<open>
  The sparse representation shows the same net as the dense one: the conversions preserve the view
  and invert each other, and the same operation on both sides keeps them in agreement.
\<close>

section \<open>From dense to sparse\<close>

lemma fold_port_entry:
  "fold (sparse_port_entry n i) ps m (j, q) =
     (if j = i \<and> q \<in> set ps \<and> tgt n i q \<noteq> DISCONNECTED then Some (tgt n i q) else m (j, q))"
proof (induction ps arbitrary: m)
  case (Cons p ps)
  show ?case
    unfolding fold_simps comp_apply Cons.IH
    by (auto simp: sparse_port_entry_def Let_def tgt_def get_target_def)
qed simp

lemma fold_sparse_insert:
  assumes "\<forall>ag \<in> set ags. get_agent n (a_id ag) = Some ag"
  shows "sp_agents (fold (sparse_insert n) ags s) i =
      (if i \<in> a_id ` set ags then get_agent n i else sp_agents s i)"
    "sp_ports (fold (sparse_insert n) ags s) (i, p) =
      (if i \<in> a_id ` set ags \<and> valid_port n i p \<and> tgt n i p \<noteq> DISCONNECTED then Some (tgt n i p)
       else sp_ports s (i, p))"
  using assms
  by (induction ags arbitrary: s)
    (auto simp: sparse_insert_def fold_port_entry valid_port_def sym_at_def)

lemma to_sparse_view:
  assumes "slots_ok n"
  shows "sp_agents (to_sparse n) i = get_agent n i"
    "sp_ports (to_sparse n) (i, p) =
       (if valid_port n i p \<and> tgt n i p \<noteq> DISCONNECTED then Some (tgt n i p) else None)"
    "sp_redex_queue (to_sparse n) = redex_queue n" "sp_next_id (to_sparse n) = next_id n"
    "sp_root (to_sparse n) = root n" "sp_freeport_redirects (to_sparse n) = freeport_redirects n"
proof -
  have live: "\<forall>ag \<in> set (live_agents n). get_agent n (a_id ag) = Some ag"
    using live_agents_iff [OF assms] by blast
  have ids: "i \<in> a_id ` set (live_agents n) \<longleftrightarrow> get_agent n i \<noteq> None"
  proof
    assume "get_agent n i \<noteq> None"
    then obtain ag where ag: "get_agent n i = Some ag"
      by blast
    then have "a_id ag = i"
      using assms by (simp add: slots_ok_def)
    then have "ag \<in> set (live_agents n)" "i = a_id ag"
      using ag live_agents_iff [OF assms] by auto
    then show "i \<in> a_id ` set (live_agents n)"
      by blast
  qed (use live in auto)
  have valid: "valid_port n i p \<Longrightarrow> get_agent n i \<noteq> None"
    using valid_port_live live_iff_get_agent by blast
  show "sp_agents (to_sparse n) i = get_agent n i"
    using ids by (auto simp: to_sparse_def Let_def fold_sparse_insert [OF live] sparse_with_capacity_def sparse_new_def)
  show "sp_ports (to_sparse n) (i, p) =
      (if valid_port n i p \<and> tgt n i p \<noteq> DISCONNECTED then Some (tgt n i p) else None)"
    using ids valid
    by (auto simp: to_sparse_def Let_def fold_sparse_insert [OF live] sparse_with_capacity_def sparse_new_def)
qed (simp_all add: to_sparse_def Let_def)

lemma to_sparse_agree:
  assumes "core_inv n"
  shows "sp_inv (to_sparse n)" "sp_sym (to_sparse n) = sym_at n"
    "p < 3 \<Longrightarrow> sp_tgt (to_sparse n) i p = tgt n i p"
proof -
  note D = core_invD [OF assms] and V = to_sparse_view [OF core_invD(1) [OF assms]]
  show syms: "sp_sym (to_sparse n) = sym_at n"
    by (simp add: sp_sym_def sym_at_def V fun_eq_iff)
  have view: "sp_tgt (to_sparse n) i p = tgt n i p" if "p < 3" for i p
    using D(2) that by (auto simp: sp_tgt_ports V ports_clean_def)
  then show "p < 3 \<Longrightarrow> sp_tgt (to_sparse n) i p = tgt n i p" .
  show "sp_inv (to_sparse n)"
  proof (rule sp_invI)
    show "a_id ag = i \<and> i < sp_next_id (to_sparse n)" if "sp_agents (to_sparse n) i = Some ag" for i ag
      using that D(1,4) by (auto simp: V slots_ok_def ids_below_def sym_at_def)
    show "t \<noteq> DISCONNECTED \<and> port_exists (sp_sym (to_sparse n)) i p"
      if "sp_ports (to_sparse n) (i, p) = Some t" for i p t
      using that by (auto simp: V syms valid_port_exists split: if_splits)
    show "sp_tgt (to_sparse n) j q = AgentPort i p \<and> (i, p) \<noteq> (j, q)"
      if "sp_tgt (to_sparse n) i p = AgentPort j q" for i p j q
    proof -
      have "valid_port n i p" "tgt n i p = AgentPort j q"
        using that by (auto simp: sp_tgt_Some V split: if_splits)
      then show ?thesis
        using symmetric_wiresD [OF D(3) valid_port_less] view by metis
    qed
  qed (use D(4) in \<open>simp add: V ids_below_def\<close>)
qed

text \<open>
  The dense arena refines the sparse one (C40): \<open>to_sparse\<close> shows the same agents and wires, and
  if a dense and a sparse net show the same view, connecting the same two open ends or removing the
  same agent on both sides gives nets that satisfy their invariants and show the same view again.
\<close>

theorem dense_refines_sparse:
  assumes "core_inv n" "sp_inv s" "sp_sym s = sym_at n" "\<forall>j q. q < 3 \<longrightarrow> sp_tgt s j q = tgt n j q"
    and "open_end n x" "open_end n y" "\<And>i p. x = AgentPort i p \<Longrightarrow> y \<noteq> AgentPort i p" "live n k"
  shows "(sp_sym (to_sparse n) = sym_at n \<and> (\<forall>j q. q < 3 \<longrightarrow> sp_tgt (to_sparse n) j q = tgt n j q)) \<and>
    (sp_inv (sparse_connect x y s) \<and> sp_sym (sparse_connect x y s) = sym_at (connect x y n) \<and>
     (\<forall>j q. q < 3 \<longrightarrow> sp_tgt (sparse_connect x y s) j q = tgt (connect x y n) j q)) \<and>
    (sp_inv (sparse_remove_agent k s) \<and> sp_sym (sparse_remove_agent k s) = sym_at (remove_agent k n) \<and>
     (\<forall>j q. q < 3 \<longrightarrow> sp_tgt (sparse_remove_agent k s) j q = tgt (remove_agent k n) j q))"
proof -
  have same: "sym_at n = sp_sym s" "\<forall>j q. q < 3 \<longrightarrow> tgt n j q = sp_tgt s j q"
    using assms(3,4) by simp_all
  note plug = both.plug_agree [OF assms(1,2) same assms(5,6) [unfolded open_can_plug] assms(7)]
  note drop = both.drop_agree [OF assms(1,2) same assms(8)]
  show ?thesis
    using to_sparse_agree [OF assms(1)] plug drop by metis
qed

theorem dense_refines_sparse_witness:
  "sp_inv (sparse_remove_agent 0 (to_sparse (pair_net Con Dup))) \<and>
   sp_sym (sparse_remove_agent 0 (to_sparse (pair_net Con Dup))) = sym_at (remove_agent 0 (pair_net Con Dup))"
proof -
  note agree = to_sparse_agree [OF pair_net_core [of Con Dup]]
  show ?thesis
    using dense_refines_sparse [of "pair_net Con Dup" "to_sparse (pair_net Con Dup)" "FreePort 8" "FreePort 9" 0] agree
    by simp
qed

section \<open>From sparse to dense\<close>

definition enumerates :: "'a list \<Rightarrow> ('a \<rightharpoonup> 'b) \<Rightarrow> bool" where
  "enumerates order m \<longleftrightarrow> distinct order \<and> set order = dom m"

lemma fold_max: "fold max order (a :: nat) \<ge> a" "x \<in> set order \<Longrightarrow> x \<le> fold max order a"
proof (induction order arbitrary: a)
  case (Cons y ys)
  { case 1 show ?case using Cons(1) [of "max y a"] by simp }
  { case 2 then show ?case using Cons(1) [of "max y a"] Cons(2) [of "max y a"] by (auto intro: order_trans) }
qed simp_all

lemma length_fill_agents [simp]: "length (fill_agents s order ags) = length ags"
  unfolding fill_agents_def by (induction order arbitrary: ags) auto

lemma nth_fill_agents:
  "i < length ags \<Longrightarrow> fill_agents s order ags ! i = (if i \<in> set order then sp_agents s i else ags ! i)"
  unfolding fill_agents_def
  by (induction order arbitrary: ags) (auto simp: nth_list_update)

lemma length_fill_port [simp]: "length (fill_port s k acc) = length acc"
  by (auto simp: fill_port_def Let_def split: option.split)

lemma length_fold_fill_port [simp]: "length (fold (fill_port s) ks acc) = length acc"
  by (induction ks arbitrary: acc) auto

lemma nth_fill_ports:
  assumes "\<forall>k \<in> set ks. snd k < 3" "p < 3" "port_index i p < length acc"
  shows "fold (fill_port s) ks acc ! port_index i p =
    (if (i, p) \<in> set ks then (case sp_ports s (i, p) of Some t \<Rightarrow> t | None \<Rightarrow> acc ! port_index i p)
     else acc ! port_index i p)"
  using assms
proof (induction ks arbitrary: acc)
  case (Cons k ks)
  obtain j q where k: "k = (j, q)"
    by (cases k)
  have inj: "port_index j q = port_index i p \<longleftrightarrow> j = i \<and> q = p"
    using Cons.prems by (intro port_index_inj) (auto simp: k)
  have "fill_port s k acc ! port_index i p =
      (if k = (i, p) then (case sp_ports s k of Some t \<Rightarrow> t | None \<Rightarrow> acc ! port_index i p) else acc ! port_index i p)"
    using inj Cons.prems(3) by (auto simp: fill_port_def k Let_def nth_list_update split: option.split)
  then show ?case
    using Cons.IH [of "fill_port s k acc"] Cons.prems by (auto split: option.splits)
qed simp

lemma fold_max_mem: "fold max order (a :: nat) \<in> insert a (set order)"
proof (induction order arbitrary: a)
  case (Cons y ys)
  show ?case
    using Cons [of "max y a"] by (auto simp: max_def)
qed simp

text \<open>The arena the conversion builds, when it does not refuse.\<close>

lemma to_dense_Inr:
  assumes ret: "to_dense order port_order rng s = Inr n"
  defines "len \<equiv> fold max order 0 + 1"
  shows "agents n = fill_agents s order (replicate len None)"
    "ports n = fold (fill_port s) port_order (replicate (len * PORTS_PER_SLOT) DISCONNECTED)"
    "redex_queue n = sp_redex_queue s" "next_id n = sp_next_id s" "root n = sp_root s"
    "freeport_redirects n = sp_freeport_redirects s" "id_range n = rng"
    "free_list n = free_slots (min (case rng of Some r \<Rightarrow> fst r | None \<Rightarrow> 0) len)
       (min (case rng of Some r \<Rightarrow> snd r | None \<Rightarrow> len) len) (agents n)"
  using ret by (auto simp: to_dense_def len_def Let_def split: if_splits option.splits prod.splits)

lemma to_dense_view:
  assumes inv: "sp_inv s" and ord: "enumerates order (sp_agents s)" "enumerates port_order (sp_ports s)"
    and ret: "to_dense order port_order rng s = Inr n"
  shows "get_agent n i = sp_agents s i" "p < 3 \<Longrightarrow> tgt n i p = sp_tgt s i p"
    "length (agents n) = fold max order 0 + 1" "length (ports n) = 3 * length (agents n)"
proof -
  note R = to_dense_Inr [OF ret]
  let ?len = "fold max order 0 + 1"
  show len: "length (agents n) = ?len" "length (ports n) = 3 * length (agents n)"
    by (simp_all add: R PORTS_PER_SLOT_def)
  have bound: "i < ?len" if "sp_agents s i = Some ag" for i ag
    using fold_max(2) [of i order 0] that ord(1) by (auto simp: enumerates_def dom_def less_Suc_eq_le)
  show "get_agent n i = sp_agents s i"
  proof (cases "i < ?len")
    case True
    have "fill_agents s order (replicate ?len None) ! i = (if i \<in> set order then sp_agents s i else None)"
      using True nth_fill_agents [of i "replicate ?len None" s order] by (simp del: replicate.simps)
    then show ?thesis
      using ord(1) True by (auto simp: get_agent_def vec_get_def R(1) enumerates_def dom_def)
  next
    case False
    then show ?thesis
      using bound [of i] by (cases "sp_agents s i") (auto simp: get_agent_def vec_get_def len)
  qed
  have small: "\<forall>k \<in> set port_order. snd k < 3"
    using ord(2) sp_invD(5) [OF inv] port_exists_less by (fastforce simp: enumerates_def dom_def)
  show "tgt n i p = sp_tgt s i p" if p: "p < 3"
  proof (cases "port_index i p < length (ports n)")
    case True
    then have idx: "port_index i p < ?len * PORTS_PER_SLOT"
      by (simp add: len PORTS_PER_SLOT_def)
    have "tgt n i p = ports n ! port_index i p"
      using True by (simp add: ports_nth)
    then show ?thesis
      using ord(2) idx nth_fill_ports [OF small p, of i "replicate (?len * PORTS_PER_SLOT) DISCONNECTED" s]
      by (auto simp: R(2) sp_tgt_ports enumerates_def dom_def split: option.splits)
  next
    case False
    then have "?len \<le> i"
      using port_index_bound [OF p, of i ?len] len by (cases "i < ?len") auto
    then have "sp_agents s i = None"
      using bound [of i] by (cases "sp_agents s i") auto
    then have "sp_ports s (i, p) = None"
      using sp_invD(5) [OF inv, of i p] by (cases "sp_ports s (i, p)") (auto simp: port_exists_def sp_sym_def)
    then show ?thesis
      using False by (simp add: tgt_out_of_range sp_tgt_ports)
  qed
qed

lemma to_dense_core:
  assumes inv: "sp_inv s" and ord: "enumerates order (sp_agents s)" "enumerates port_order (sp_ports s)"
    and ret: "to_dense order port_order rng s = Inr n" and nonempty: "order \<noteq> []"
  shows "core_inv n"
proof -
  note V = to_dense_view [OF inv ord ret] and R = to_dense_Inr [OF ret]
  have syms: "sym_at n = sp_sym s"
    by (simp add: sym_at_def sp_sym_def V fun_eq_iff)
  have "fold max order 0 \<in> set order"
  proof (cases "fold max order 0 = 0")
    case True
    then have "hd order = 0"
      using fold_max(2) [of "hd order" order 0] nonempty by simp
    then show ?thesis
      using True hd_in_set [OF nonempty] by simp
  qed (use fold_max_mem [of order 0] in auto)
  then obtain ag where "sp_agents s (fold max order 0) = Some ag"
    using ord(1) by (auto simp: enumerates_def dom_def)
  then have len: "length (agents n) \<le> next_id n"
    using sp_invD(2) [OF inv] by (simp add: V(3) R(4) Suc_le_eq)
  have fl: "distinct (free_list n)" "\<forall>i \<in> set (free_list n). i < length (agents n) \<and> agents n ! i = None"
    unfolding R(8) free_slots_def V(3) by auto
  have "slots_ok n"
    using V sp_invD(1) [OF inv] by (auto simp: slots_ok_def)
  moreover have "ports_clean n"
    using sp_invD(5) [OF inv] V(2) by (auto simp: ports_clean_def valid_port_exists syms sp_tgt_ports split: option.splits)
  moreover have "symmetric_wires n"
    unfolding symmetric_wires_def
  proof (intro allI impI)
    fix i p j q
    assume p: "p < 3" and "tgt n i p = AgentPort j q"
    then have t: "sp_tgt s i p = AgentPort j q"
      using V(2) by simp
    have "q < 3"
      using sp_tgt_exists [OF inv t] by (rule port_exists_less)
    then show "q < 3 \<and> tgt n j q = AgentPort i p \<and> (i, p) \<noteq> (j, q)"
      using sp_invD(6,7) [OF inv t] V(2) by simp
  qed
  moreover have "ids_below n"
    using sp_invD(2,3) [OF inv] by (auto simp: ids_below_def sym_at_def V R)
  moreover have "free_list_ok n"
    using fl len by (auto simp: free_list_ok_def sym_at_def get_agent_def vec_get_def)
  ultimately show ?thesis
    by (simp add: core_inv_def)
qed

lemma to_sparse_enumerated:
  assumes "core_inv n"
  obtains order port_order where "enumerates order (sp_agents (to_sparse n))"
    "enumerates port_order (sp_ports (to_sparse n))"
proof -
  note S = to_sparse_view [OF core_invD(1) [OF assms]]
  have fin: "finite (dom (sym_at n))"
  proof (rule finite_subset)
    show "dom (sym_at n) \<subseteq> {..<length (agents n)}"
      using live_length by (auto simp: dom_def)
  qed simp
  have "dom (sp_agents (to_sparse n)) = dom (sym_at n)"
    by (auto simp: dom_def S sym_at_def)
  moreover have "dom (sp_ports (to_sparse n)) \<subseteq> dom (sym_at n) \<times> {..<3}"
    by (auto simp: dom_def S split: if_splits dest: valid_port_live valid_port_less)
  ultimately have "finite (dom (sp_agents (to_sparse n)))" "finite (dom (sp_ports (to_sparse n)))"
    using fin by (auto intro: finite_subset [OF _ finite_cartesian_product])
  then show thesis
    using that finite_distinct_list unfolding enumerates_def by metis
qed

lemma pair_net_small: "live (pair_net s t) i \<longrightarrow> i < MAX_DENSE_ARENA_SLOTS"
  using live_length [of "pair_net s t" i] by (auto simp: pair_net_def MAX_DENSE_ARENA_SLOTS_def)

text \<open>
  Sparse to dense and back is the identity, for every iteration order of the two maps; the
  dense net satisfies the arena invariant when the sparse net has at least one agent.
\<close>

lemma to_dense_to_sparse:
  assumes "sp_inv s" "enumerates order (sp_agents s)" "enumerates port_order (sp_ports s)"
    and "to_dense order port_order rng s = Inr n"
  shows "to_sparse n = s \<and> (order \<noteq> [] \<longrightarrow> core_inv n)"
proof -
  note V = to_dense_view [OF assms] and R = to_dense_Inr [OF assms(4)]
  have ok: "slots_ok n"
    using V sp_invD(1) [OF assms(1)] by (auto simp: slots_ok_def)
  note S = to_sparse_view [OF ok]
  have syms: "sym_at n = sp_sym s"
    by (simp add: sym_at_def sp_sym_def V fun_eq_iff)
  have "sp_ports (to_sparse n) (i, p) = sp_ports s (i, p)" for i p
  proof (cases "sp_ports s (i, p)")
    case None
    then show ?thesis
      using V(2) [of p i] valid_port_less [of n i p] by (auto simp: S sp_tgt_ports)
  next
    case (Some t)
    have ex: "port_exists (sp_sym s) i p"
      using sp_invD(5) [OF assms(1) Some] .
    then show ?thesis
      using V(2) [OF port_exists_less [OF ex], of i] sp_invD(4) [OF assms(1) Some] Some
      by (simp add: S sp_tgt_ports valid_port_exists syms)
  qed
  then have "sp_ports (to_sparse n) = sp_ports s"
    by (auto simp: fun_eq_iff)
  moreover have "sp_agents (to_sparse n) = sp_agents s"
    by (simp add: S V fun_eq_iff)
  ultimately have "to_sparse n = s"
    by (intro sparse_net.equality) (simp_all add: S R)
  then show ?thesis
    using to_dense_core [OF assms] by blast
qed

lemma to_dense_to_sparse_witness:
  "\<exists>order port_order n. to_dense order port_order None (to_sparse (pair_net Con Dup)) = Inr n \<and>
     to_sparse n = to_sparse (pair_net Con Dup) \<and> core_inv n"
proof -
  let ?s = "to_sparse (pair_net Con Dup)"
  note S = to_sparse_view [OF core_invD(1) [OF pair_net_core [of Con Dup]]]
  obtain order port_order where ord: "enumerates order (sp_agents ?s)" "enumerates port_order (sp_ports ?s)"
    using to_sparse_enumerated [OF pair_net_core] .
  have "fold max order 0 < MAX_DENSE_ARENA_SLOTS"
    using fold_max_mem [of order 0] ord(1) pair_net_small [of Con Dup]
    by (auto simp: enumerates_def dom_def S sym_at_def MAX_DENSE_ARENA_SLOTS_def)
  then obtain n where ret: "to_dense order port_order None ?s = Inr n"
    by (auto simp: to_dense_def Let_def MAX_DENSE_ARENA_SLOTS_def)
  have "0 \<in> set order"
    using ord(1) pair_net_view(3) [of Con Dup] by (auto simp: enumerates_def dom_def S sym_at_def)
  then have "order \<noteq> []"
    by auto
  then show ?thesis
    using to_dense_to_sparse [OF to_sparse_agree(1) [OF pair_net_core] ord ret] ret by blast
qed

text \<open>
  Dense to sparse and back keeps the net (C34): whatever the iteration orders of the two maps, the conversion
  succeeds when the highest live identifier fits the allocation cap, and the result has the same agents, wires, queue, counter,
  root and redirects; its free-list is the list of all empty slots of the compacted arena.
\<close>

theorem to_sparse_to_dense:
  assumes "core_inv n" "enumerates order (sp_agents (to_sparse n))" "enumerates port_order (sp_ports (to_sparse n))"
    and "\<forall>i. live n i \<longrightarrow> i < MAX_DENSE_ARENA_SLOTS"
  shows "\<exists>m. to_dense order port_order None (to_sparse n) = Inr m \<and> sym_at m = sym_at n \<and>
    (\<forall>i p. p < 3 \<longrightarrow> tgt m i p = tgt n i p) \<and> redex_queue m = redex_queue n \<and> next_id m = next_id n \<and>
    root m = root n \<and> freeport_redirects m = freeport_redirects n \<and>
    set (free_list m) = {i. i < length (agents m) \<and> \<not> live n i}"
proof -
  note S = to_sparse_view [OF core_invD(1) [OF assms(1)]] and A = to_sparse_agree [OF assms(1)]
  have "fold max order 0 < MAX_DENSE_ARENA_SLOTS"
    using fold_max_mem [of order 0] assms(2,4)
    by (auto simp: enumerates_def dom_def S sym_at_def MAX_DENSE_ARENA_SLOTS_def)
  then obtain m where ret: "to_dense order port_order None (to_sparse n) = Inr m"
    by (auto simp: to_dense_def Let_def MAX_DENSE_ARENA_SLOTS_def)
  note V = to_dense_view [OF A(1) assms(2,3) ret] and R = to_dense_Inr [OF ret]
  have syms: "sym_at m = sym_at n"
    by (simp add: sym_at_def V S fun_eq_iff)
  have "set (free_list m) = {i. i < length (agents m) \<and> agents m ! i = None}"
    unfolding R(8) free_slots_def V(3) by (auto simp: less_Suc_eq)
  also have "\<dots> = {i. i < length (agents m) \<and> \<not> live n i}"
    unfolding syms [symmetric] by (auto simp: sym_at_def get_agent_def vec_get_def)
  finally show ?thesis
    using ret syms V(2) A(3) R(3-6) S(3-6) by auto
qed

theorem to_sparse_to_dense_witness:
  "\<exists>order port_order m. to_dense order port_order None (to_sparse (pair_net Con Dup)) = Inr m \<and>
     sym_at m = sym_at (pair_net Con Dup)"
proof -
  obtain order port_order where ord: "enumerates order (sp_agents (to_sparse (pair_net Con Dup)))"
    "enumerates port_order (sp_ports (to_sparse (pair_net Con Dup)))"
    using to_sparse_enumerated [OF pair_net_core] .
  then show ?thesis
    using to_sparse_to_dense [OF pair_net_core ord] pair_net_small by blast
qed

text \<open>
  The guards of the conversion: an inverted range and an arena above the cap are refused, with
  the offending values, and nothing else is.
\<close>

lemma to_dense_errors:
  "to_dense order port_order rng s =
     (case rng of
        Some (start, stop) \<Rightarrow>
          if stop < start then Inl (InvalidIdRange start stop)
          else if fold max order 0 \<ge> MAX_DENSE_ARENA_SLOTS
          then Inl (DenseAllocationExceedsThreshold (fold max order 0 + 1) MAX_DENSE_ARENA_SLOTS (length order))
          else Inr (projr (to_dense order port_order rng s))
      | None \<Rightarrow>
          if fold max order 0 \<ge> MAX_DENSE_ARENA_SLOTS
          then Inl (DenseAllocationExceedsThreshold (fold max order 0 + 1) MAX_DENSE_ARENA_SLOTS (length order))
          else Inr (projr (to_dense order port_order rng s)))"
  by (auto simp: to_dense_def Let_def split: option.split prod.split)

text \<open>
  Converting an empty sparse net yields a dense net that lists identifier 0 as free although
  it was never issued: the first two agents created in it get the same identifier, and the second
  overwrites the first.
\<close>

lemma empty_to_dense_duplicates_id:
  "\<exists>n n1 n2. to_dense [] [] None sparse_new = Inr n \<and>
     create_agent Con n = Some (0, n1) \<and> sym_at n1 0 = Some Con \<and>
     create_agent Dup n1 = Some (0, n2) \<and> sym_at n2 0 = Some Dup"
  by (simp add: to_dense_def sparse_new_def fill_agents_def free_slots_def MAX_DENSE_ARENA_SLOTS_def Let_def
      net_new_def create_agent_def pop_free_list_def round_protected_def reinit_slot_def alloc_fresh_def
      PORTS_PER_SLOT_def sym_at_def get_agent_def vec_get_def vec_grow_def vec_resize_def)

end
