(* ===== verification/Partition_Types.thy ===== *)
theory Partition_Types
  imports Sparse_Props
begin

text \<open>
  The data of net partitioning (\<open>partition/types.rs\<close>): identifier ranges, partitions, the
  partitioning plan with its cursor for new border identifiers, and the errors of the subsystem.
\<close>

type_synonym worker_id = nat

datatype leave_kind = AfterResult | Urgent

record id_rng =
  ir_start :: agent_id
  ir_end :: agent_id

text \<open>\<open>len\<close> subtracts with saturation, like subtraction on the naturals.\<close>

definition id_range_len :: "id_rng \<Rightarrow> nat" where
  "id_range_len r = ir_end r - ir_start r"

definition id_range_is_empty :: "id_rng \<Rightarrow> bool" where
  "id_range_is_empty r \<longleftrightarrow> ir_start r \<ge> ir_end r"

record partition =
  p_subnet :: net
  p_worker_id :: worker_id
  p_free_port_index :: "nat \<rightharpoonup> port_ref"
  p_id_range :: id_rng
  p_border_id_start :: nat
  p_border_id_end :: nat

definition partition_empty :: "worker_id \<Rightarrow> partition" where
  "partition_empty w =
     \<lparr>p_subnet = net_new, p_worker_id = w, p_free_port_index = Map.empty,
      p_id_range = \<lparr>ir_start = 0, ir_end = 0\<rparr>, p_border_id_start = 0, p_border_id_end = 0\<rparr>"

text \<open>The cast \<open>as u32\<close> of the count truncates.\<close>

definition agent_count :: "partition \<Rightarrow> nat" where
  "agent_count p = count_live_agents (p_subnet p) mod 4294967296"

record partition_plan =
  pl_partitions :: "partition list"
  pl_borders :: "nat \<rightharpoonup> port_ref \<times> port_ref"
  pl_next_border_id :: nat

definition plan_default :: partition_plan where
  "plan_default = \<lparr>pl_partitions = [], pl_borders = Map.empty, pl_next_border_id = 0\<rparr>"

definition with_next_border_id :: "nat \<Rightarrow> partition_plan" where
  "with_next_border_id b = \<lparr>pl_partitions = [], pl_borders = Map.empty, pl_next_border_id = b\<rparr>"

datatype partition_error =
    TooFewAgents nat nat
  | PartitionInvariantViolation string
  | BorderIdSpaceExhausted nat nat
  | NewRangeTooSmall nat nat
  | PartitionDenseAllocationExceedsThreshold nat nat nat
  | UnresolvedForwardReferences agent_id
  | ArenaConversionFailed string
  | InvalidNumWorkers
  | InvalidStrategyParameter string string
  | AllocateBatchExceedsCapacity nat nat
  | StrategyReturnedInvalidWorker nat nat
  | StrategyReturnedUnknownAgent agent_id
  | PendingConnectionExpired agent_id nat nat

definition allocate_border_ids :: "nat \<Rightarrow> partition_plan \<Rightarrow> partition_error + ((nat \<times> nat) \<times> partition_plan)" where
  "allocate_border_ids requested plan =
     (let available = u32_MAX - pl_next_border_id plan
      in if requested > available then Inl (BorderIdSpaceExhausted requested available)
         else let start = pl_next_border_id plan; stop = start + requested
              in Inr ((start, stop), plan\<lparr>pl_next_border_id := stop\<rparr>))"

record partition_config =
  pc_sparse_build :: bool
  pc_recycle_policy :: recycle_policy

definition partition_config_default :: partition_config where
  "partition_config_default = \<lparr>pc_sparse_build = True, pc_recycle_policy = DisableUnderDelta\<rparr>"

section \<open>The border-identifier cursor\<close>

text \<open>A sequence of requests, each returning its range or leaving the plan as it is.\<close>

fun allocate_seq :: "nat list \<Rightarrow> partition_plan \<Rightarrow> (nat \<times> nat) list" where
  "allocate_seq [] plan = []"
| "allocate_seq (c # cs) plan =
     (case allocate_border_ids c plan of
        Inl e \<Rightarrow> allocate_seq cs plan
      | Inr (r, plan1) \<Rightarrow> r # allocate_seq cs plan1)"

lemma allocate_border_ids_Inr:
  "allocate_border_ids c plan = Inr ((a, b), plan1) \<longleftrightarrow>
     c \<le> u32_MAX - pl_next_border_id plan \<and> a = pl_next_border_id plan \<and> b = a + c \<and>
     plan1 = plan\<lparr>pl_next_border_id := b\<rparr>"
  by (auto simp: allocate_border_ids_def Let_def)

lemma allocate_border_ids_cursor:
  assumes "allocate_border_ids c plan = Inr ((a, b), plan1)" "pl_next_border_id plan \<le> u32_MAX"
  shows "pl_next_border_id plan1 \<le> u32_MAX" "pl_next_border_id plan \<le> pl_next_border_id plan1"
    "a = pl_next_border_id plan" "b = pl_next_border_id plan1" "a \<le> b"
  using assms by (auto simp: allocate_border_ids_Inr)

lemma allocate_seq_bounds:
  assumes "pl_next_border_id plan \<le> u32_MAX" "(a, b) \<in> set (allocate_seq cs plan)"
  shows "pl_next_border_id plan \<le> a \<and> a \<le> b \<and> b \<le> u32_MAX"
  using assms
proof (induction cs arbitrary: plan)
  case (Cons c cs)
  show ?case
  proof (cases "allocate_border_ids c plan")
    case (Inl e)
    then show ?thesis
      using Cons by simp
  next
    case (Inr r)
    obtain x y plan1 where r: "r = ((x, y), plan1)"
      by (metis surj_pair)
    note A = allocate_border_ids_cursor [OF Inr [unfolded r] Cons.prems(1)]
    have ih: "pl_next_border_id plan1 \<le> a \<and> a \<le> b \<and> b \<le> u32_MAX" if "(a, b) \<in> set (allocate_seq cs plan1)"
      using Cons.IH [OF A(1) that] .
    have "(a, b) = (x, y) \<or> (a, b) \<in> set (allocate_seq cs plan1)"
      using Cons.prems(2) Inr r by simp
    then show ?thesis
      using ih A by fastforce
  qed
qed simp

text \<open>
  Border identifiers handed out by successive requests never overlap: the ranges are
  contiguous, increasing, above every identifier of the original split, and below the sentinel
  \<open>u32::MAX\<close>; a refused request leaves the cursor where it was.
\<close>

lemma allocate_border_ids_disjoint:
  assumes "pl_next_border_id plan \<le> u32_MAX" "i < j" "j < length (allocate_seq cs plan)"
  shows "pl_next_border_id plan \<le> fst (allocate_seq cs plan ! i) \<and>
    snd (allocate_seq cs plan ! i) \<le> fst (allocate_seq cs plan ! j) \<and>
    snd (allocate_seq cs plan ! j) \<le> u32_MAX"
  using assms
proof (induction cs arbitrary: plan i j)
  case (Cons c cs)
  show ?case
  proof (cases "allocate_border_ids c plan")
    case (Inl e)
    then show ?thesis
      using Cons by simp
  next
    case (Inr r)
    obtain x y plan1 where r: "r = ((x, y), plan1)"
      by (metis surj_pair)
    note plan1 = allocate_border_ids_cursor [OF Inr [unfolded r] Cons.prems(1)]
    have seq: "allocate_seq (c # cs) plan = (x, y) # allocate_seq cs plan1"
      using Inr r by simp
    show ?thesis
    proof (cases i)
      case 0
      obtain j' where j: "j = Suc j'" "j' < length (allocate_seq cs plan1)"
        using Cons.prems(2,3) seq by (cases j) auto
      then have "allocate_seq cs plan1 ! j' \<in> set (allocate_seq cs plan1)"
        by simp
      then have "pl_next_border_id plan1 \<le> fst (allocate_seq cs plan1 ! j') \<and>
          snd (allocate_seq cs plan1 ! j') \<le> u32_MAX"
        using allocate_seq_bounds [OF plan1(1)] by (metis prod.collapse)
      then show ?thesis
        using 0 j plan1 seq by simp
    next
      case (Suc i')
      then obtain j' where j: "j = Suc j'" "i' < j'" "j' < length (allocate_seq cs plan1)"
        using Cons.prems(2,3) seq by (cases j) auto
      show ?thesis
        using Cons.IH [OF plan1(1) j(2,3)] plan1(2) Suc j(1) seq by simp
    qed
  qed
qed simp

lemma allocate_border_ids_disjoint_witness:
  "snd (allocate_seq [4, 4294967295, 6] (with_next_border_id 10) ! 0) \<le>
     fst (allocate_seq [4, 4294967295, 6] (with_next_border_id 10) ! 1)"
  using allocate_border_ids_disjoint [of "with_next_border_id 10" 0 1 "[4, 4294967295, 6]"]
  by (simp add: with_next_border_id_def allocate_border_ids_def)

end
