(* ===== verification/Strategy.thy ===== *)
theory Strategy
  imports Partition_Types
begin

text \<open>
  Partition strategies (\<open>partition/strategy.rs\<close>): the contract of the trait as a locale, and the
  strategy by contiguous identifier ranges as its interpretation.
\<close>

section \<open>The contract\<close>

text \<open>
  \<open>allocate\<close> gives every live agent, and nothing else, a worker in range.  The value \<open>None\<close> is a
  panic, which the contract excludes when there is a worker.
\<close>

locale partition_strategy =
  fixes allocate :: "net \<Rightarrow> nat \<Rightarrow> (agent_id \<rightharpoonup> worker_id) option"
  assumes returns: "0 < k \<Longrightarrow> \<exists>sigma. allocate n k = Some sigma"
    and covers: "allocate n k = Some sigma \<Longrightarrow> sigma i = None \<longleftrightarrow> \<not> live n i"
    and in_range: "allocate n k = Some sigma \<Longrightarrow> sigma i = Some w \<Longrightarrow> w < k"
begin

text \<open>The sets of agents of the workers partition the live agents.\<close>

lemma workers_cover:
  assumes "allocate n k = Some sigma"
  shows "(\<Union>w \<in> {..<k}. {i. sigma i = Some w}) = {i. live n i}"
proof (intro equalityI subsetI)
  fix i
  assume "i \<in> {i. live n i}"
  then obtain w where "sigma i = Some w"
    using covers [OF assms, of i] by auto
  then show "i \<in> (\<Union>w \<in> {..<k}. {i. sigma i = Some w})"
    using in_range [OF assms] by auto
next
  fix i
  assume "i \<in> (\<Union>w \<in> {..<k}. {i. sigma i = Some w})"
  then have "sigma i \<noteq> None"
    by auto
  then show "i \<in> {i. live n i}"
    using covers [OF assms, of i] by simp
qed

lemma dom_allocate: "allocate n k = Some sigma \<Longrightarrow> dom sigma = {i. live n i}"
  using covers by (auto simp: dom_def)

end

section \<open>Contiguous identifier ranges\<close>

definition live_ids :: "net \<Rightarrow> agent_id list" where
  "live_ids n = filter (\<lambda>i. agents n ! i \<noteq> None) [0..<length (agents n)]"

definition div_ceil :: "nat \<Rightarrow> nat \<Rightarrow> nat" where
  "div_ceil a b = (if a mod b > 0 then a div b + 1 else a div b)"

definition assign_chunks :: "nat \<Rightarrow> agent_id list \<Rightarrow> (agent_id \<rightharpoonup> worker_id)" where
  "assign_chunks chunk_size ids =
     fold (\<lambda>(i, agent_id) m. m(agent_id \<mapsto> i div chunk_size)) (List.enumerate 0 ids) Map.empty"

definition contiguous_allocate :: "net \<Rightarrow> nat \<Rightarrow> (agent_id \<rightharpoonup> worker_id) option" where
  "contiguous_allocate n num_workers =
     (let ids = sort (live_ids n); total = length ids
      in if total = 0 then Some Map.empty
         else if num_workers = 0 then None
         else Some (assign_chunks (div_ceil total num_workers) ids))"

lemma live_ids_iff [simp]: "i \<in> set (live_ids n) \<longleftrightarrow> live n i"
  by (auto simp: live_ids_def sym_at_def get_agent_def vec_get_def)

lemma set_live_ids: "set (live_ids n) = {i. live n i}"
  by (intro set_eqI) (simp only: live_ids_iff mem_Collect_eq)

lemma sort_live_ids [simp]: "sorted (live_ids n)" "distinct (live_ids n)" "sort (live_ids n) = live_ids n"
proof -
  show sorted: "sorted (live_ids n)"
    unfolding live_ids_def by (rule sorted_wrt_filter) simp
  show "sort (live_ids n) = live_ids n"
    using sorted by (rule sorted_sort_id)
qed (simp add: live_ids_def)

lemma fold_assign:
  assumes "distinct ids"
  shows "fold (\<lambda>(i, a) m. m(a \<mapsto> f i)) (List.enumerate k ids) m a = Some w \<longleftrightarrow>
    (\<exists>i < length ids. ids ! i = a \<and> w = f (k + i)) \<or> a \<notin> set ids \<and> m a = Some w"
  using assms
proof (induction ids arbitrary: k m)
  case (Cons x ids)
  have head: "(\<exists>i < length (x # ids). (x # ids) ! i = a \<and> w = f (k + i)) \<longleftrightarrow>
      a = x \<and> w = f k \<or> (\<exists>i < length ids. ids ! i = a \<and> w = f (Suc k + i))"
    unfolding length_Cons Ex_less_Suc2 by auto
  have "a = x \<Longrightarrow> \<not> (\<exists>i < length ids. ids ! i = a \<and> w = f (Suc k + i))"
    using Cons.prems nth_mem by fastforce
  then show ?case
    unfolding head using Cons by (auto simp: List.enumerate_simps)
qed simp

lemma assign_chunks_Some:
  "distinct ids \<Longrightarrow> assign_chunks c ids a = Some w \<longleftrightarrow> (\<exists>i < length ids. ids ! i = a \<and> w = i div c)"
  by (simp add: assign_chunks_def fold_assign)

lemma div_ceil_bound:
  assumes "0 < b" "i < a"
  shows "0 < div_ceil a b" "i div div_ceil a b < b"
proof -
  have le: "a \<le> div_ceil a b * b"
  proof (cases "a mod b > 0")
    case True
    have "a = a div b * b + a mod b"
      by simp
    also have "\<dots> \<le> a div b * b + b"
      using mod_less_divisor [OF assms(1), of a] by linarith
    finally show ?thesis
      using True by (simp add: div_ceil_def)
  qed (auto simp: div_ceil_def)
  show "0 < div_ceil a b"
    using le assms(2) by (cases "div_ceil a b") auto
  show "i div div_ceil a b < b"
    using le assms(2) by (intro less_mult_imp_div_less) (simp add: mult.commute)
qed

lemma contiguous_Some:
  assumes "contiguous_allocate n k = Some sigma"
  shows "sigma a = Some w \<longleftrightarrow>
    (\<exists>i < length (live_ids n). live_ids n ! i = a \<and> w = i div div_ceil (length (live_ids n)) k)"
  using assms by (auto simp: contiguous_allocate_def Let_def assign_chunks_Some split: if_splits)

interpretation contiguous: partition_strategy contiguous_allocate
proof (unfold_locales, goal_cases)
  case (1 k n)
  then show ?case
    by (simp add: contiguous_allocate_def Let_def)
next
  case (2 n k sigma i)
  have "sigma i \<noteq> None \<longleftrightarrow> i \<in> set (live_ids n)"
    using contiguous_Some [OF 2, of i] by (auto simp: in_set_conv_nth)
  then show ?case
    by auto
next
  case (3 n k sigma i w)
  then obtain idx where "idx < length (live_ids n)" "w = idx div div_ceil (length (live_ids n)) k"
    using contiguous_Some by blast
  moreover have "0 < k"
    using 3(1) calculation(1) by (auto simp: contiguous_allocate_def Let_def split: if_splits)
  ultimately show ?case
    using div_ceil_bound by simp
qed

lemma card_chunk:
  assumes "0 < c"
  shows "card {i. i < m \<and> i div c = w} \<le> c"
proof -
  have "i div c * c \<le> i \<and> i < i div c * c + c" for i
    using div_mult_mod_eq [of i c] mod_less_divisor [OF assms, of i] by linarith
  then have "{i. i < m \<and> i div c = w} \<subseteq> {w * c ..< w * c + c}"
    by auto
  then show ?thesis
    using card_mono [of "{w * c ..< w * c + c}"] by fastforce
qed

text \<open>
  The contiguous strategy gives exactly the live agents a worker below the number of workers,
  keeps identifier order (a smaller identifier never goes to a later worker), and gives no worker
  more than the rounded-up share.
\<close>

lemma contiguous_allocate_correct:
  assumes "0 < k"
  shows "\<exists>sigma. contiguous_allocate n k = Some sigma \<and> dom sigma = {i. live n i} \<and>
    (\<forall>i w. sigma i = Some w \<longrightarrow> w < k) \<and>
    (\<forall>i j v w. i \<le> j \<longrightarrow> sigma i = Some v \<longrightarrow> sigma j = Some w \<longrightarrow> v \<le> w) \<and>
    (\<forall>w. card {i. sigma i = Some w} \<le> div_ceil (card {i. live n i}) k)"
proof -
  obtain sigma where sigma: "contiguous_allocate n k = Some sigma"
    using contiguous.returns [OF assms] by blast
  let ?ids = "live_ids n" and ?c = "div_ceil (length (live_ids n)) k"
  note S = contiguous_Some [OF sigma]
  have "v \<le> w" if ij: "i \<le> j" "sigma i = Some v" "sigma j = Some w" for i j v w
  proof -
    obtain x y where x: "x < length ?ids" "?ids ! x = i" "v = x div ?c"
      and y: "y < length ?ids" "?ids ! y = j" "w = y div ?c"
      using ij(2,3) S by blast
    have "x \<le> y"
      using ij(1) x(1,2) y(1,2) sorted_nth_mono [OF sort_live_ids(1), of y x n] nth_eq_iff_index_eq [OF sort_live_ids(2), of x n y]
      by (cases "x \<le> y") auto
    then show ?thesis
      using x(3) y(3) by (simp add: div_le_mono)
  qed
  moreover have "card {i. sigma i = Some w} \<le> div_ceil (card {i. live n i}) k" for w
  proof (cases "?ids = []")
    case True
    then show ?thesis
      using S by simp
  next
    case False
    then have c: "0 < ?c"
      using div_ceil_bound(1) [OF assms, of 0] by simp
    have "{i. sigma i = Some w} \<subseteq> (!) ?ids ` {x. x < length ?ids \<and> x div ?c = w}"
      using S by auto
    then have "card {i. sigma i = Some w} \<le> card ((!) ?ids ` {x. x < length ?ids \<and> x div ?c = w})"
      by (intro card_mono) auto
    also have "\<dots> \<le> card {x. x < length ?ids \<and> x div ?c = w}"
      by (intro card_image_le) simp
    also have "\<dots> \<le> ?c"
      using c by (rule card_chunk)
    also have "length ?ids = card {i. live n i}"
      using distinct_card [OF sort_live_ids(2), of n] by (simp only: set_live_ids)
    finally show ?thesis .
  qed
  ultimately show ?thesis
    using sigma contiguous.dom_allocate [OF sigma] contiguous.in_range [OF sigma] by blast
qed

lemma contiguous_allocate_correct_witness:
  "\<exists>sigma. contiguous_allocate (pair_net Con Dup) 2 = Some sigma \<and> dom sigma = {i. live (pair_net Con Dup) i} \<and>
     (\<forall>w. card {i. sigma i = Some w} \<le> div_ceil (card {i. live (pair_net Con Dup) i}) 2)"
proof -
  obtain sigma where "contiguous_allocate (pair_net Con Dup) 2 = Some sigma"
      "dom sigma = {i. live (pair_net Con Dup) i}"
      "\<forall>w. card {i. sigma i = Some w} \<le> div_ceil (card {i. live (pair_net Con Dup) i}) 2"
    using contiguous_allocate_correct [of 2 "pair_net Con Dup"] by auto
  then show ?thesis
    by blast
qed

end
