(* ===== verification/Wires.thy ===== *)
theory Wires
  imports Strategy
begin

text \<open>
  Wire classification (\<open>partition/helpers.rs\<close>): the scan that numbers the wires between different
  workers.  The second part puts the result into closed form, a numbered list of cut wires, and shows
  that every port of a cut wire has exactly one border identifier.
\<close>

definition max_freeport_step :: "port_ref \<Rightarrow> nat option \<Rightarrow> nat option" where
  "max_freeport_step t max_id =
     (case t of
        FreePort f \<Rightarrow>
          if t \<noteq> DISCONNECTED then Some (case max_id of Some current \<Rightarrow> max current f | None \<Rightarrow> f) else max_id
      | AgentPort i p \<Rightarrow> max_id)"

definition max_freeport_id :: "net \<Rightarrow> nat option" where
  "max_freeport_id n = fold max_freeport_step (ports n) None"

record wire_classification =
  wc_borders :: "nat \<rightharpoonup> port_ref \<times> port_ref"
  wc_border_entries :: "(agent_id \<times> port_id \<times> nat) list list"
  wc_border_id_end :: nat
  wc_border_id_start :: nat

type_synonym classify_state =
  "(nat \<rightharpoonup> port_ref \<times> port_ref) \<times> (agent_id \<times> port_id \<times> nat) list list \<times> nat"

text \<open>
  One port of one agent.  \<open>None\<close> is a panic: an agent without a worker, or a worker out of range.
\<close>

definition classify_port ::
  "net \<Rightarrow> (agent_id \<rightharpoonup> worker_id) \<Rightarrow> agent_id \<Rightarrow> port_id \<Rightarrow> classify_state \<Rightarrow> classify_state option" where
  "classify_port n sigma i p =
     (\<lambda>(borders, entries, counter).
        case get_target n (AgentPort i p) of
          FreePort f \<Rightarrow> Some (borders, entries, counter)
        | AgentPort j q \<Rightarrow>
            if i < j then
              (case (sigma i, sigma j) of
                 (Some w_a, Some w_b) \<Rightarrow>
                   if w_a \<noteq> w_b then
                     if w_a < length entries \<and> w_b < length entries then
                       (let entries1 = entries[w_a := entries ! w_a @ [(i, p, counter)]]
                        in Some (borders(counter \<mapsto> (AgentPort i p, AgentPort j q)),
                                 entries1[w_b := entries1 ! w_b @ [(j, q, counter)]],
                                 u32_succ counter))
                     else None
                   else Some (borders, entries, counter)
               | _ \<Rightarrow> None)
            else Some (borders, entries, counter))"

definition classify_agent ::
  "net \<Rightarrow> (agent_id \<rightharpoonup> worker_id) \<Rightarrow> agent_id \<Rightarrow> classify_state \<Rightarrow> classify_state option" where
  "classify_agent n sigma i st =
     (case agents n ! i of
        None \<Rightarrow> Some st
      | Some ag \<Rightarrow> ofold (classify_port n sigma i) [0..<total_ports (a_symbol ag)] st)"

definition border_start :: "net \<Rightarrow> nat" where
  "border_start n = (case max_freeport_id n of None \<Rightarrow> 0 | Some f \<Rightarrow> f + 1)"

definition classify_wires :: "net \<Rightarrow> (agent_id \<rightharpoonup> worker_id) \<Rightarrow> nat \<Rightarrow> wire_classification option" where
  "classify_wires n sigma num_workers =
     map_option
       (\<lambda>(borders, entries, counter).
          \<lparr>wc_borders = borders, wc_border_entries = entries, wc_border_id_end = counter,
           wc_border_id_start = border_start n\<rparr>)
       (ofold (classify_agent n sigma) [0..<length (agents n)]
          (Map.empty, replicate num_workers [], border_start n))"

section \<open>Fresh border identifiers\<close>

lemma max_freeport_mono: "\<exists>c. fold max_freeport_step ts (Some b) = Some c \<and> b \<le> c"
proof (induction ts arbitrary: b)
  case (Cons t ts)
  have "\<exists>b'. max_freeport_step t (Some b) = Some b' \<and> b \<le> b'"
    by (cases t) (auto simp: max_freeport_step_def)
  then obtain b' where "max_freeport_step t (Some b) = Some b'" "b \<le> b'"
    by blast
  then show ?case
    using Cons [of b'] by (auto intro: order_trans)
qed simp

lemma max_freeport_fold:
  assumes "FreePort f \<in> set ts" "f \<noteq> u32_MAX"
  shows "\<exists>c. fold max_freeport_step ts m = Some c \<and> f \<le> c"
  using assms(1)
proof (induction ts arbitrary: m)
  case (Cons t ts)
  show ?case
  proof (cases "t = FreePort f")
    case True
    then obtain b where "max_freeport_step t m = Some b" "f \<le> b"
      using assms(2) by (auto simp: max_freeport_step_def DISCONNECTED_def split: option.split)
    then show ?thesis
      using max_freeport_mono [of ts b] by (auto intro: order_trans)
  qed (use Cons in simp)
qed simp

text \<open>New border identifiers lie above every free port of the net.\<close>

lemma freeport_below_start:
  assumes "tgt n i p = FreePort f" "f \<noteq> u32_MAX"
  shows "f < border_start n"
proof -
  have "port_index i p < length (ports n)"
    using assms tgt_out_of_range [of i p n] by (auto simp: DISCONNECTED_def)
  then have "FreePort f \<in> set (ports n)"
    using assms(1) ports_nth [OF refl] nth_mem by metis
  then obtain c where "max_freeport_id n = Some c" "f \<le> c"
    using max_freeport_fold [OF _ assms(2)] unfolding max_freeport_id_def by blast
  then show ?thesis
    by (simp add: border_start_def)
qed

section \<open>Closed form\<close>

definition cut_at :: "net \<Rightarrow> (agent_id \<rightharpoonup> worker_id) \<Rightarrow> agent_id \<times> port_id \<Rightarrow> (agent_id \<times> port_id) option" where
  "cut_at n sigma x =
     (case tgt n (fst x) (snd x) of
        AgentPort j q \<Rightarrow> if fst x < j \<and> sigma (fst x) \<noteq> sigma j then Some (j, q) else None
      | FreePort f \<Rightarrow> None)"

definition cut_list ::
  "net \<Rightarrow> (agent_id \<rightharpoonup> worker_id) \<Rightarrow> (agent_id \<times> port_id) list \<Rightarrow> ((agent_id \<times> port_id) \<times> (agent_id \<times> port_id)) list"
  where
  "cut_list n sigma ps = List.map_filter (\<lambda>x. map_option (Pair x) (cut_at n sigma x)) ps"

definition agent_port_of :: "agent_id \<times> port_id \<Rightarrow> port_ref" where
  "agent_port_of x = AgentPort (fst x) (snd x)"

type_synonym cut = "nat \<times> (agent_id \<times> port_id) \<times> (agent_id \<times> port_id)"

definition put_cut :: "cut \<Rightarrow> (nat \<rightharpoonup> port_ref \<times> port_ref) \<Rightarrow> (nat \<rightharpoonup> port_ref \<times> port_ref)" where
  "put_cut c m = m(fst c \<mapsto> (agent_port_of (fst (snd c)), agent_port_of (snd (snd c))))"

definition cut_entries :: "(agent_id \<rightharpoonup> worker_id) \<Rightarrow> worker_id \<Rightarrow> cut \<Rightarrow> (agent_id \<times> port_id \<times> nat) list" where
  "cut_entries sigma w c =
     (case c of (b, (i, p), (j, q)) \<Rightarrow>
        (if sigma i = Some w then [(i, p, b)] else []) @ (if sigma j = Some w then [(j, q, b)] else []))"

definition entries_of :: "(agent_id \<rightharpoonup> worker_id) \<Rightarrow> worker_id \<Rightarrow> cut list \<Rightarrow> (agent_id \<times> port_id \<times> nat) list" where
  "entries_of sigma w cs = concat (map (cut_entries sigma w) cs)"

lemma put_cut_apply: "put_cut (c, (i, p), (j, q)) m = m(c \<mapsto> (AgentPort i p, AgentPort j q))"
  by (simp add: put_cut_def agent_port_of_def)

lemma cut_list_simps [simp]:
  "cut_list n sigma [] = []"
  "cut_list n sigma (x # ps) =
     (case cut_at n sigma x of None \<Rightarrow> cut_list n sigma ps | Some y \<Rightarrow> (x, y) # cut_list n sigma ps)"
  by (simp_all add: cut_list_def map_filter_simps split: option.split)

lemma in_cut_list: "(x, y) \<in> set (cut_list n sigma ps) \<longleftrightarrow> x \<in> set ps \<and> cut_at n sigma x = Some y"
  by (induction ps) (auto split: option.splits)

lemma classify_ports:
  assumes "\<And>x j q. x \<in> set ps \<Longrightarrow> tgt n (fst x) (snd x) = AgentPort j q \<Longrightarrow> sigma (fst x) \<noteq> None \<and> sigma j \<noteq> None"
    and "\<And>i w. sigma i = Some w \<Longrightarrow> w < length es" "c + length (cut_list n sigma ps) \<le> u32_MAX"
  shows "ofold (\<lambda>(i, p). classify_port n sigma i p) ps (m, es, c) =
    Some (fold put_cut (List.enumerate c (cut_list n sigma ps)) m,
          map (\<lambda>w. es ! w @ entries_of sigma w (List.enumerate c (cut_list n sigma ps))) [0..<length es],
          c + length (cut_list n sigma ps))"
  using assms
proof (induction ps arbitrary: m es c)
  case Nil
  have "map (\<lambda>w. es ! w @ entries_of sigma w []) [0..<length es] = es"
    by (intro nth_equalityI) (simp_all add: entries_of_def)
  then show ?case
    by simp
next
  case (Cons x ps)
  obtain i p where x: "x = (i, p)"
    by (cases x)
  have rest: "sigma (fst z) \<noteq> None \<and> sigma j \<noteq> None"
    if "z \<in> set ps" "tgt n (fst z) (snd z) = AgentPort j q" for z j q
    using that Cons.prems(1) [of z j q] by simp
  show ?case
  proof (cases "cut_at n sigma x")
    case None
    have "classify_port n sigma i p (m, es, c) = Some (m, es, c)"
    proof (cases "tgt n i p")
      case (AgentPort j q)
      then have "sigma i \<noteq> None \<and> sigma j \<noteq> None"
        using Cons.prems(1) [of x j q] x by simp
      then show ?thesis
        using None AgentPort by (auto simp: classify_port_def cut_at_def x tgt_def split: if_splits)
    qed (simp add: classify_port_def tgt_def)
    moreover have "ofold (\<lambda>(i, p). classify_port n sigma i p) ps (m, es, c) =
        Some (fold put_cut (List.enumerate c (cut_list n sigma ps)) m,
          map (\<lambda>w. es ! w @ entries_of sigma w (List.enumerate c (cut_list n sigma ps))) [0..<length es],
          c + length (cut_list n sigma ps))"
      using Cons.prems(2,3) None rest by (intro Cons.IH) simp_all
    ultimately show ?thesis
      using None x by simp
  next
    case (Some y)
    obtain j q where y: "y = (j, q)"
      by (cases y)
    have t: "tgt n i p = AgentPort j q" "i < j" "sigma i \<noteq> sigma j"
      using Some by (auto simp: cut_at_def x y split: port_ref.splits if_splits)
    then obtain v w where vw: "sigma i = Some v" "sigma j = Some w"
      using Cons.prems(1) [of x j q] x by auto
    have len: "v < length es" "w < length es" "v \<noteq> w"
      using vw t(3) Cons.prems(2) by auto
    have bound: "c < u32_MAX" "(c + 1) + length (cut_list n sigma ps) \<le> u32_MAX"
      using Cons.prems(3) Some by simp_all
    let ?es = "es[v := es ! v @ [(i, p, c)], w := es ! w @ [(j, q, c)]]"
    have step: "classify_port n sigma i p (m, es, c) =
        Some (m(c \<mapsto> (AgentPort i p, AgentPort j q)), ?es, c + 1)"
      using t vw len bound by (simp add: classify_port_def tgt_def Let_def)
    have ih: "ofold (\<lambda>(i, p). classify_port n sigma i p) ps (m(c \<mapsto> (AgentPort i p, AgentPort j q)), ?es, c + 1) =
        Some (fold put_cut (List.enumerate (c + 1) (cut_list n sigma ps)) (m(c \<mapsto> (AgentPort i p, AgentPort j q))),
              map (\<lambda>w. ?es ! w @ entries_of sigma w (List.enumerate (c + 1) (cut_list n sigma ps))) [0..<length ?es],
              c + 1 + length (cut_list n sigma ps))"
      using Cons.prems(2) bound rest by (intro Cons.IH) simp_all
    have ents: "?es ! u @ entries_of sigma u (List.enumerate (c + 1) (cut_list n sigma ps)) =
        es ! u @ entries_of sigma u ((c, (i, p), (j, q)) # List.enumerate (c + 1) (cut_list n sigma ps))"
      if "u < length es" for u
      using that vw len by (simp add: entries_of_def cut_entries_def nth_list_update)
    have cuts: "cut_list n sigma (x # ps) = ((i, p), (j, q)) # cut_list n sigma ps"
      using Some x y by simp
    show ?thesis
      unfolding cuts List.enumerate_simps using step ih ents x
      by (simp add: put_cut_apply)
  qed
qed

text \<open>The ports the scan visits.\<close>

definition scan_ports :: "net \<Rightarrow> (agent_id \<times> port_id) list" where
  "scan_ports n =
     concat (map (\<lambda>i. case agents n ! i of None \<Rightarrow> [] | Some ag \<Rightarrow> map (Pair i) [0..<total_ports (a_symbol ag)])
                 [0..<length (agents n)])"

lemma ofold_map: "ofold f (map g xs) s = ofold (\<lambda>x. f (g x)) xs s"
  by (induction xs arbitrary: s) (auto split: Option.bind_split)

lemma ofold_concat: "ofold f (concat xss) s = ofold (\<lambda>xs. ofold f xs) xss s"
  by (induction xss arbitrary: s) (auto split: Option.bind_split)

lemma classify_scan:
  "ofold (classify_agent n sigma) is st = ofold (\<lambda>(i, p). classify_port n sigma i p)
     (concat (map (\<lambda>i. case agents n ! i of None \<Rightarrow> [] | Some ag \<Rightarrow> map (Pair i) [0..<total_ports (a_symbol ag)]) is)) st"
proof -
  have "classify_agent n sigma i = ofold (\<lambda>(i, p). classify_port n sigma i p)
     (case agents n ! i of None \<Rightarrow> [] | Some ag \<Rightarrow> map (Pair i) [0..<total_ports (a_symbol ag)])" for i
    by (rule ext) (simp add: classify_agent_def ofold_map split: option.split)
  then have "classify_agent n sigma = (\<lambda>i. ofold (\<lambda>(i, p). classify_port n sigma i p)
     (case agents n ! i of None \<Rightarrow> [] | Some ag \<Rightarrow> map (Pair i) [0..<total_ports (a_symbol ag)]))"
    by (rule ext)
  then show ?thesis
    by (simp only: ofold_concat ofold_map)
qed

lemma in_scan_ports: "(i, p) \<in> set (scan_ports n) \<longleftrightarrow> valid_port n i p"
proof (cases "get_agent n i")
  case None
  then show ?thesis
    by (auto simp: scan_ports_def valid_port_def sym_at_def get_agent_def vec_get_def split: option.splits if_splits)
next
  case (Some ag)
  then have "i < length (agents n)" "agents n ! i = Some ag"
    by (auto simp: get_agent_def vec_get_def split: if_splits)
  then have "(i, p) \<in> set (scan_ports n) \<longleftrightarrow> p < total_ports (a_symbol ag)"
    by (auto simp: scan_ports_def split: option.splits intro!: bexI [of _ i])
  then show ?thesis
    using Some by (simp add: valid_port_def sym_at_def)
qed

lemma distinct_scan_ports: "distinct (scan_ports n)"
proof -
  have "distinct (concat (map (\<lambda>i. case agents n ! i of None \<Rightarrow> []
      | Some ag \<Rightarrow> map (Pair i) [0..<total_ports (a_symbol ag)]) is))" if "distinct is" for "is"
    using that by (induction "is") (auto simp: distinct_map inj_on_def split: option.splits)
  then show ?thesis
    by (simp add: scan_ports_def)
qed

section \<open>Collecting pairs into a map\<close>

text \<open>Inserting the pairs of a list into an empty \<open>HashMap\<close>, in order.\<close>

definition map_put :: "'k \<times> 'v \<Rightarrow> ('k \<rightharpoonup> 'v) \<Rightarrow> ('k \<rightharpoonup> 'v)" where
  "map_put kv m = m(fst kv \<mapsto> snd kv)"

lemma map_put_apply: "map_put kv m k = (if k = fst kv then Some (snd kv) else m k)"
  by (simp add: map_put_def)

definition collect_map :: "('k \<times> 'v) list \<Rightarrow> ('k \<rightharpoonup> 'v)" where
  "collect_map kvs = fold map_put kvs Map.empty"

lemma fold_insert_notin:
  "k \<notin> fst ` set kvs \<Longrightarrow> fold map_put kvs m k = m k"
  by (induction kvs arbitrary: m) (simp_all add: map_put_apply)

lemma fold_insert_Some:
  assumes "\<And>v v'. (k, v) \<in> set kvs \<Longrightarrow> (k, v') \<in> set kvs \<Longrightarrow> v = v'" "(k, v) \<in> set kvs"
  shows "fold map_put kvs m k = Some v"
  using assms
proof (induction kvs arbitrary: m)
  case (Cons kv kvs)
  show ?case
  proof (cases "k \<in> fst ` set kvs")
    case True
    then obtain v' where "(k, v') \<in> set kvs"
      by force
    then have "(k, v) \<in> set kvs"
      using Cons.prems(1) [of v v'] Cons.prems(2) by simp
    moreover have "u = u'" if "(k, u) \<in> set kvs" "(k, u') \<in> set kvs" for u u'
      using that Cons.prems(1) [of u u'] by simp
    ultimately show ?thesis
      using Cons.IH by simp
  next
    case False
    then have "kv = (k, v)"
      using Cons.prems(2) by force
    then have "map_put kv m k = Some v"
      by (simp add: map_put_apply)
    then show ?thesis
      using fold_insert_notin [OF False, of "map_put kv m"] by simp
  qed
qed simp

lemma collect_map_iff:
  assumes "\<And>v v'. (k, v) \<in> set kvs \<Longrightarrow> (k, v') \<in> set kvs \<Longrightarrow> v = v'"
  shows "collect_map kvs k = Some v \<longleftrightarrow> (k, v) \<in> set kvs"
proof
  assume some: "collect_map kvs k = Some v"
  then have "k \<in> fst ` set kvs"
    using fold_insert_notin [of k kvs Map.empty] by (auto simp: collect_map_def)
  then obtain v' where v': "(k, v') \<in> set kvs"
    by force
  then show "(k, v) \<in> set kvs"
    using fold_insert_Some [OF assms v', of Map.empty] some by (simp add: collect_map_def)
qed (use fold_insert_Some [OF assms] in \<open>simp add: collect_map_def\<close>)

lemma collect_map_None: "collect_map kvs k = None \<longleftrightarrow> k \<notin> fst ` set kvs"
proof -
  have "k \<in> fst ` set kvs \<Longrightarrow> fold map_put kvs m k \<noteq> None" for m
  proof (induction kvs arbitrary: m)
    case (Cons kv kvs)
    show ?case
    proof (cases "k \<in> fst ` set kvs")
      case False
      then have "map_put kv m k = Some (snd kv)"
        using Cons.prems by (auto simp: map_put_apply)
      then show ?thesis
        using fold_insert_notin [OF False, of "map_put kv m"] by simp
    qed (use Cons.IH in simp)
  qed simp
  from this [of Map.empty] show ?thesis
    using fold_insert_notin [of k kvs Map.empty] unfolding collect_map_def by blast
qed

section \<open>Border identifiers\<close>

definition cuts :: "net \<Rightarrow> (agent_id \<rightharpoonup> worker_id) \<Rightarrow> cut list" where
  "cuts n sigma = List.enumerate (border_start n) (cut_list n sigma (scan_ports n))"

text \<open>Enough identifiers below the sentinel for all cut wires.\<close>

definition border_space_ok :: "net \<Rightarrow> (agent_id \<rightharpoonup> worker_id) \<Rightarrow> bool" where
  "border_space_ok n sigma \<longleftrightarrow> border_start n + length (cut_list n sigma (scan_ports n)) \<le> u32_MAX"

definition cut_end :: "net \<Rightarrow> (agent_id \<rightharpoonup> worker_id) \<Rightarrow> nat \<Rightarrow> agent_id \<times> port_id \<Rightarrow> bool" where
  "cut_end n sigma b x \<longleftrightarrow> (\<exists>y z. (b, y, z) \<in> set (cuts n sigma) \<and> (x = y \<or> x = z))"

definition covered :: "net \<Rightarrow> (agent_id \<rightharpoonup> worker_id) \<Rightarrow> nat \<Rightarrow> bool" where
  "covered n sigma k \<longleftrightarrow> (\<forall>i. sigma i = None \<longleftrightarrow> \<not> live n i) \<and> (\<forall>i w. sigma i = Some w \<longrightarrow> w < k)"

lemma length_cuts: "length (cuts n sigma) = length (cut_list n sigma (scan_ports n))"
  by (simp add: cuts_def)

lemma cuts_nth:
  "(b, y, z) \<in> set (cuts n sigma) \<longleftrightarrow>
     border_start n \<le> b \<and> b < border_start n + length (cuts n sigma) \<and>
     cut_list n sigma (scan_ports n) ! (b - border_start n) = (y, z)"
  by (auto simp: cuts_def in_set_enumerate_eq)

lemma cuts_functional: "(b, y, z) \<in> set (cuts n sigma) \<Longrightarrow> (b, y', z') \<in> set (cuts n sigma) \<Longrightarrow> y = y' \<and> z = z'"
  by (simp add: cuts_nth)

lemma in_cuts:
  "(\<exists>b. (b, (i, p), (j, q)) \<in> set (cuts n sigma)) \<longleftrightarrow>
     valid_port n i p \<and> tgt n i p = AgentPort j q \<and> i < j \<and> sigma i \<noteq> sigma j"
proof -
  have "(\<exists>b. (b, (i, p), (j, q)) \<in> set (cuts n sigma)) \<longleftrightarrow>
      ((i, p), (j, q)) \<in> set (map snd (List.enumerate (border_start n) (cut_list n sigma (scan_ports n))))"
    unfolding cuts_def set_map by force
  also have "\<dots> \<longleftrightarrow> ((i, p), (j, q)) \<in> set (cut_list n sigma (scan_ports n))"
    by simp
  also have "\<dots> \<longleftrightarrow> valid_port n i p \<and> cut_at n sigma (i, p) = Some (j, q)"
    by (simp only: in_cut_list in_scan_ports)
  also have "\<dots> \<longleftrightarrow> valid_port n i p \<and> tgt n i p = AgentPort j q \<and> i < j \<and> sigma i \<noteq> sigma j"
    by (auto simp: cut_at_def split: port_ref.splits if_splits)
  finally show ?thesis .
qed

lemma cutsD:
  assumes "(b, (i, p), (j, q)) \<in> set (cuts n sigma)"
  shows "valid_port n i p" "tgt n i p = AgentPort j q" "i < j" "sigma i \<noteq> sigma j" "p < 3"
  using assms in_cuts [of i p j q n sigma] valid_port_less by blast+

lemma cut_list_distinct: "distinct ps \<Longrightarrow> distinct (map fst (cut_list n sigma ps))"
  by (induction ps) (auto simp: in_cut_list split: option.splits)

lemma cuts_first_unique:
  assumes "(b, x, z) \<in> set (cuts n sigma)" "(b', x, z') \<in> set (cuts n sigma)"
  shows "b = b'"
proof -
  let ?L = "cut_list n sigma (scan_ports n)"
  have len: "b - border_start n < length ?L" "b' - border_start n < length ?L"
    and ge: "border_start n \<le> b" "border_start n \<le> b'"
    and at: "map fst ?L ! (b - border_start n) = x" "map fst ?L ! (b' - border_start n) = x"
    using assms by (auto simp: cuts_nth length_cuts)
  have "b - border_start n = b' - border_start n"
    using nth_eq_iff_index_eq [OF cut_list_distinct [OF distinct_scan_ports, where n = n and sigma = sigma]] len at
    by (metis length_map)
  then show ?thesis
    using ge by simp
qed

text \<open>The two ends of a wire that crosses workers share a border identifier.\<close>

lemma cut_end_exists:
  assumes inv: "core_inv n" and p: "p < 3" and t: "tgt n i p = AgentPort j q" and cross: "sigma i \<noteq> sigma j"
  shows "\<exists>b. cut_end n sigma b (i, p) \<and> cut_end n sigma b (j, q)"
proof -
  note far = symmetric_wiresD [OF core_invD(3) [OF inv] p t]
  note ok = tgt_valid [OF inv p t]
  consider "i < j" | "j < i"
    using cross by (metis linorder_neqE_nat)
  then show ?thesis
  proof cases
    case 1
    then obtain b where "(b, (i, p), (j, q)) \<in> set (cuts n sigma)"
      using in_cuts ok(2) t cross by blast
    then show ?thesis
      unfolding cut_end_def by blast
  next
    case 2
    then obtain b where "(b, (j, q), (i, p)) \<in> set (cuts n sigma)"
      using in_cuts ok(1) far(2) cross by metis
    then show ?thesis
      unfolding cut_end_def by blast
  qed
qed

lemma cut_end_tgt:
  assumes inv: "core_inv n" and e: "cut_end n sigma b (i, p)"
  obtains j q where "tgt n i p = AgentPort j q" "sigma i \<noteq> sigma j" "cut_end n sigma b (j, q)"
    "p < 3" "q < 3" "valid_port n i p" "valid_port n j q"
    "(b, (i, p), (j, q)) \<in> set (cuts n sigma) \<or> (b, (j, q), (i, p)) \<in> set (cuts n sigma)"
proof -
  obtain y z where c: "(b, y, z) \<in> set (cuts n sigma)" "(i, p) = y \<or> (i, p) = z"
    using e by (auto simp: cut_end_def)
  obtain a r j q where yz: "y = (a, r)" "z = (j, q)"
    by (metis surj_pair)
  note C = cutsD [OF c(1) [unfolded yz]]
  note far = symmetric_wiresD [OF core_invD(3) [OF inv] C(5,2)]
  have ends: "cut_end n sigma b y" "cut_end n sigma b z"
    using c(1) unfolding cut_end_def by blast+
  note ok = tgt_valid [OF inv C(5,2)]
  from c(2) show thesis
  proof
    assume "(i, p) = y"
    then show thesis
      using that [of j q] C ends(2) ok far(1) c(1) yz by simp
  next
    assume "(i, p) = z"
    then show thesis
      using that [of a r] C(4,5) ends(1) ok far(1,2) c(1) yz by (metis prod.inject)
  qed
qed

lemma cut_end_unique:
  assumes inv: "core_inv n" and e: "cut_end n sigma b x" "cut_end n sigma b' x"
  shows "b = b'"
proof -
  obtain i p where x: "x = (i, p)"
    by (cases x)
  obtain j q where 1: "tgt n i p = AgentPort j q"
      "(b, (i, p), (j, q)) \<in> set (cuts n sigma) \<or> (b, (j, q), (i, p)) \<in> set (cuts n sigma)"
    using cut_end_tgt [OF inv e(1) [unfolded x]] by metis
  obtain j' q' where 2: "tgt n i p = AgentPort j' q'"
      "(b', (i, p), (j', q')) \<in> set (cuts n sigma) \<or> (b', (j', q'), (i, p)) \<in> set (cuts n sigma)"
    using cut_end_tgt [OF inv e(2) [unfolded x]] by metis
  have "j = j'" "q = q'"
    using 1(1) 2(1) by simp_all
  moreover have "\<not> (i < j \<and> j < i)"
    by simp
  ultimately show ?thesis
    using 1(2) 2(2) cuts_first_unique cutsD(3) by metis
qed

lemma cut_end_same:
  assumes "core_inv n" "cut_end n sigma b (i, p)" "cut_end n sigma b (j, q)" "(i, p) \<noteq> (j, q)"
  shows "tgt n i p = AgentPort j q" "sigma i \<noteq> sigma j"
proof -
  obtain k r where 1: "tgt n i p = AgentPort k r" "sigma i \<noteq> sigma k"
      "(b, (i, p), (k, r)) \<in> set (cuts n sigma) \<or> (b, (k, r), (i, p)) \<in> set (cuts n sigma)"
    using cut_end_tgt [OF assms(1,2)] by metis
  moreover have "(j, q) = (k, r)"
    using 1(3) assms(3,4) cuts_functional unfolding cut_end_def by metis
  ultimately show "tgt n i p = AgentPort j q" "sigma i \<noteq> sigma j"
    by simp_all
qed

lemma cut_end_bounds:
  "cut_end n sigma b x \<Longrightarrow> border_start n \<le> b \<and> b < border_start n + length (cuts n sigma)"
  by (auto simp: cut_end_def cuts_nth)

section \<open>The result of the classification\<close>

definition border_map :: "net \<Rightarrow> (agent_id \<rightharpoonup> worker_id) \<Rightarrow> (nat \<rightharpoonup> port_ref \<times> port_ref)" where
  "border_map n sigma = fold put_cut (cuts n sigma) Map.empty"

lemma fold_put_cut:
  "fold put_cut cs m = fold map_put
     (map (\<lambda>c. (fst c, (agent_port_of (fst (snd c)), agent_port_of (snd (snd c))))) cs) m"
  by (induction cs arbitrary: m) (simp_all add: put_cut_def map_put_def)

lemma border_map_Some:
  "border_map n sigma b = Some (X, Y) \<longleftrightarrow>
     (\<exists>y z. (b, y, z) \<in> set (cuts n sigma) \<and> X = agent_port_of y \<and> Y = agent_port_of z)"
proof -
  let ?kvs = "map (\<lambda>c. (fst c, (agent_port_of (fst (snd c)), agent_port_of (snd (snd c))))) (cuts n sigma)"
  have mem: "(b, (X, Y)) \<in> set ?kvs \<longleftrightarrow>
      (\<exists>y z. (b, y, z) \<in> set (cuts n sigma) \<and> X = agent_port_of y \<and> Y = agent_port_of z)" for X Y
    by (force simp: image_iff)
  have "border_map n sigma b = Some (X, Y) \<longleftrightarrow> (b, (X, Y)) \<in> set ?kvs"
    unfolding border_map_def fold_put_cut collect_map_def [symmetric]
  proof (rule collect_map_iff)
    show "v = v'" if vs: "(b, v) \<in> set ?kvs" "(b, v') \<in> set ?kvs" for v v'
    proof -
      obtain y z where "(b, y, z) \<in> set (cuts n sigma)" "v = (agent_port_of y, agent_port_of z)"
        using vs(1) mem [of "fst v" "snd v"] unfolding prod.collapse by (metis prod.collapse)
      moreover obtain y' z' where "(b, y', z') \<in> set (cuts n sigma)" "v' = (agent_port_of y', agent_port_of z')"
        using vs(2) mem [of "fst v'" "snd v'"] unfolding prod.collapse by (metis prod.collapse)
      ultimately show ?thesis
        using cuts_functional [of b y z n sigma y' z'] by blast
    qed
  qed
  then show ?thesis
    by (simp only: mem)
qed

lemma dom_border_map: "dom (border_map n sigma) = {border_start n ..< border_start n + length (cuts n sigma)}"
proof -
  have "border_map n sigma b \<noteq> None \<longleftrightarrow> (\<exists>y z. (b, y, z) \<in> set (cuts n sigma))" for b
  proof
    assume "border_map n sigma b \<noteq> None"
    then obtain X Y where "border_map n sigma b = Some (X, Y)"
      by auto
    then show "\<exists>y z. (b, y, z) \<in> set (cuts n sigma)"
      using border_map_Some by blast
  qed (use border_map_Some in blast)
  then show ?thesis
    by (auto simp: dom_def cuts_nth) (metis surj_pair)
qed

lemma in_dom_border_map: "b \<in> dom (border_map n sigma) \<longleftrightarrow> (\<exists>x. cut_end n sigma b x)"
proof -
  have "b \<in> dom (border_map n sigma) \<longleftrightarrow> (\<exists>y z. (b, y, z) \<in> set (cuts n sigma))"
    unfolding dom_border_map by (auto simp: cuts_nth) (metis surj_pair)
  then show ?thesis
    unfolding cut_end_def by blast
qed

lemma in_entries_of:
  "(i, p, b) \<in> set (entries_of sigma w (cuts n sigma)) \<longleftrightarrow> sigma i = Some w \<and> cut_end n sigma b (i, p)"
  by (auto simp: entries_of_def cut_entries_def cut_end_def split: prod.splits if_splits) blast+

lemma classify_wires_closed:
  assumes inv: "core_inv n" and cov: "covered n sigma k" and room: "border_space_ok n sigma"
  shows "classify_wires n sigma k =
    Some \<lparr>wc_borders = border_map n sigma,
          wc_border_entries = map (\<lambda>w. entries_of sigma w (cuts n sigma)) [0..<k],
          wc_border_id_end = border_start n + length (cuts n sigma), wc_border_id_start = border_start n\<rparr>"
proof -
  let ?e = "replicate k [] :: (agent_id \<times> port_id \<times> nat) list list"
  have tot: "sigma (fst x) \<noteq> None \<and> sigma j \<noteq> None"
    if "x \<in> set (scan_ports n)" "tgt n (fst x) (snd x) = AgentPort j q" for x j q
  proof -
    have v: "valid_port n (fst x) (snd x)"
      using that(1) in_scan_ports by (metis prod.collapse)
    then have "live n (fst x)" "live n j"
      using valid_port_live tgt_valid(1) [OF inv valid_port_less that(2)] by blast+
    then show ?thesis
      using cov by (simp add: covered_def)
  qed
  have "ofold (\<lambda>(i, p). classify_port n sigma i p) (scan_ports n) (Map.empty, ?e, border_start n) =
      Some (border_map n sigma, map (\<lambda>w. ?e ! w @ entries_of sigma w (cuts n sigma)) [0..<length ?e],
            border_start n + length (cuts n sigma))"
    unfolding border_map_def length_cuts unfolding cuts_def
    by (intro classify_ports tot) (use cov room in \<open>auto simp: covered_def border_space_ok_def\<close>)
  moreover have "map (\<lambda>w. ?e ! w @ entries_of sigma w (cuts n sigma)) [0..<length ?e] =
      map (\<lambda>w. entries_of sigma w (cuts n sigma)) [0..<k]"
    by (intro nth_equalityI) simp_all
  ultimately show ?thesis
    unfolding classify_wires_def classify_scan scan_ports_def [symmetric] by simp
qed

end
