(* ===== verification/Subnet.thy ===== *)
theory Subnet
  imports Wires
begin

text \<open>
  Building the sub-net of one worker (\<open>partition/helpers.rs\<close>, \<open>build_subnet\<close> and its variants): the
  dense construction, the construction through a sparse net, and the wrapper that chooses between
  them.  The two constructions give the same net.
\<close>

section \<open>The dense construction\<close>

definition border_overrides :: "(agent_id \<times> port_id \<times> nat) list \<Rightarrow> (agent_id \<times> port_id \<rightharpoonup> nat)" where
  "border_overrides es = collect_map (map (\<lambda>(i, p, b). ((i, p), b)) es)"

text \<open>Copying one port and one agent; \<open>None\<close> is a panic (dead agent, port array too short).\<close>

definition copy_port :: "net \<Rightarrow> (agent_id \<times> port_id \<rightharpoonup> nat) \<Rightarrow> agent_id \<Rightarrow> port_id \<Rightarrow> port_ref list \<Rightarrow> port_ref list option"
  where
  "copy_port n ov i p prts =
     (let idx = port_index i p
      in case ov (i, p) of
           Some b \<Rightarrow> Some (prts[idx := FreePort b])
         | None \<Rightarrow> if idx < length (ports n) then Some (prts[idx := ports n ! idx]) else None)"

definition copy_agent ::
  "net \<Rightarrow> (agent_id \<times> port_id \<rightharpoonup> nat) \<Rightarrow> agent_id \<Rightarrow> agent option list \<times> port_ref list \<Rightarrow>
   (agent option list \<times> port_ref list) option" where
  "copy_agent n ov i st =
     (case get_agent n i of
        None \<Rightarrow> None
      | Some ag \<Rightarrow> map_option (Pair ((fst st)[i := Some ag])) (ofold (copy_port n ov i) [0..<PORTS_PER_SLOT] (snd st)))"

definition keep_internal ::
  "(agent_id \<rightharpoonup> worker_id) \<Rightarrow> worker_id \<Rightarrow> agent option list \<Rightarrow> agent_id \<times> agent_id \<Rightarrow>
   (agent_id \<times> agent_id) list \<Rightarrow> (agent_id \<times> agent_id) list option" where
  "keep_internal sigma w ags ab acc =
     (case ab of (a, b) \<Rightarrow>
        if sigma a = Some w \<and> sigma b = Some w then
          if a < length ags then
            if ags ! a \<noteq> None then
              if b < length ags then Some (if ags ! b \<noteq> None then acc @ [(a, b)] else acc) else None
            else Some acc
          else None
        else Some acc)"

definition shadow_of :: "(agent_id \<times> port_id \<times> nat) list \<Rightarrow> agent_id set option" where
  "shadow_of es = (if es = [] then None else Some (fst ` set es))"

definition build_subnet ::
  "net \<Rightarrow> agent_id list \<Rightarrow> (agent_id \<rightharpoonup> worker_id) \<Rightarrow> (agent_id \<times> port_id \<times> nat) list \<Rightarrow> worker_id \<Rightarrow>
   agent_id \<times> agent_id \<Rightarrow> net option" where
  "build_subnet n worker_agents sigma es w rng =
     (if worker_agents = [] then Some net_new
      else
        let agents_len = fold max worker_agents 0 + 1
        in do {
             (ags, prts) \<leftarrow> ofold (copy_agent n (border_overrides es)) worker_agents
                               (replicate agents_len None, replicate (agents_len * PORTS_PER_SLOT) DISCONNECTED);
             q \<leftarrow> ofold (keep_internal sigma w ags) (redex_queue n) [];
             Some (net_new\<lparr>agents := ags, ports := prts, redex_queue := q, next_id := fst rng,
                      freeport_redirects := freeport_redirects n,
                      free_list := free_slots (fst rng) (min (snd rng) agents_len) ags,
                      id_range := Some rng, border_entries_shadow := shadow_of es\<rparr>)
           })"

section \<open>The construction through a sparse net\<close>

definition sparse_copy_port ::
  "net \<Rightarrow> (agent_id \<times> port_id \<rightharpoonup> nat) \<Rightarrow> agent_id \<Rightarrow> port_id \<Rightarrow>
   (agent_id \<times> port_id \<rightharpoonup> port_ref) \<Rightarrow> (agent_id \<times> port_id \<rightharpoonup> port_ref)" where
  "sparse_copy_port n ov i p m =
     (let idx = port_index i p;
          target = (case ov (i, p) of
                      Some b \<Rightarrow> FreePort b
                    | None \<Rightarrow> if idx < length (ports n) then ports n ! idx else DISCONNECTED)
      in if target \<noteq> DISCONNECTED then m((i, p) \<mapsto> target) else m)"

definition sparse_copy_agent ::
  "net \<Rightarrow> (agent_id \<times> port_id \<rightharpoonup> nat) \<Rightarrow> agent_id \<Rightarrow> sparse_net \<Rightarrow> sparse_net option" where
  "sparse_copy_agent n ov i s =
     (case get_agent n i of
        None \<Rightarrow> None
      | Some ag \<Rightarrow>
          Some (s\<lparr>sp_agents := (sp_agents s)(i \<mapsto> ag),
                  sp_ports := fold (sparse_copy_port n ov i) [0..<total_ports (a_symbol ag)] (sp_ports s)\<rparr>))"

text \<open>
  The sparse net is converted with its maps enumerated in one particular order; the result of the
  conversion does not depend on it (lemma \<open>to_dense_order\<close> below).
\<close>

definition port_keys :: "sparse_net \<Rightarrow> agent_id list \<Rightarrow> (agent_id \<times> port_id) list" where
  "port_keys s is = filter (\<lambda>k. sp_ports s k \<noteq> None) (concat (map (\<lambda>i. map (Pair i) [0..<PORTS_PER_SLOT]) is))"

definition build_subnet_sparse ::
  "net \<Rightarrow> agent_id list \<Rightarrow> (agent_id \<rightharpoonup> worker_id) \<Rightarrow> (agent_id \<times> port_id \<times> nat) list \<Rightarrow> worker_id \<Rightarrow>
   agent_id \<times> agent_id \<Rightarrow> net option" where
  "build_subnet_sparse n worker_agents sigma es w rng =
     (if worker_agents = [] then Some (net_new\<lparr>id_range := Some rng, next_id := fst rng\<rparr>)
      else
        case ofold (sparse_copy_agent n (border_overrides es)) worker_agents (sparse_with_capacity (length worker_agents)) of
          None \<Rightarrow> None
        | Some s \<Rightarrow>
            let s1 = s\<lparr>sp_redex_queue :=
                         filter (\<lambda>(a, b). sigma a = Some w \<and> sigma b = Some w \<and>
                                          a \<in> set worker_agents \<and> b \<in> set worker_agents) (redex_queue n),
                       sp_freeport_redirects := freeport_redirects n, sp_next_id := fst rng\<rparr>;
                ids = remdups worker_agents;
                m = (case to_dense ids (port_keys s1 ids) (Some rng) s1 of Inr m \<Rightarrow> m | Inl e \<Rightarrow> net_new)
            in Some (m\<lparr>border_entries_shadow := shadow_of es\<rparr>))"

section \<open>Choosing the construction\<close>

definition build_subnet_with_config ::
  "partition_config \<Rightarrow> nat \<Rightarrow> net \<Rightarrow> agent_id list \<Rightarrow> (agent_id \<rightharpoonup> worker_id) \<Rightarrow> (agent_id \<times> port_id \<times> nat) list \<Rightarrow>
   worker_id \<Rightarrow> agent_id \<times> agent_id \<Rightarrow> (partition_error + net) option" where
  "build_subnet_with_config cfg partition_index n worker_agents sigma es w rng =
     (let live_count = length worker_agents;
          effective_arena_size = (if worker_agents = [] then 0 else fold max worker_agents 0 + 1);
          threshold_exceeded = (effective_arena_size > 4 * live_count);
          force_sparse_for_empty = (worker_agents = [] \<and> pc_sparse_build cfg)
      in if threshold_exceeded \<and> \<not> pc_sparse_build cfg
         then Some (Inl (PartitionDenseAllocationExceedsThreshold partition_index effective_arena_size live_count))
         else if threshold_exceeded \<or> force_sparse_for_empty
         then map_option (\<lambda>m. Inr (m\<lparr>recycle_policy := pc_recycle_policy cfg\<rparr>))
                (build_subnet_sparse n worker_agents sigma es w rng)
         else map_option (\<lambda>m. Inr (m\<lparr>recycle_policy := pc_recycle_policy cfg\<rparr>))
                (build_subnet n worker_agents sigma es w rng))"

section \<open>What the dense construction builds\<close>

text \<open>The target of a copied port.\<close>

definition sub_tgt :: "net \<Rightarrow> (agent_id \<times> port_id \<rightharpoonup> nat) \<Rightarrow> agent_id \<Rightarrow> port_id \<Rightarrow> port_ref" where
  "sub_tgt n ov i p = (case ov (i, p) of Some b \<Rightarrow> FreePort b | None \<Rightarrow> tgt n i p)"

lemma upt3: "[0..<PORTS_PER_SLOT] = [0, 1, 2]"
  by (simp add: PORTS_PER_SLOT_def upt_rec)

lemma less3: "(p :: nat) < 3 \<longleftrightarrow> p = 0 \<or> p = 1 \<or> p = 2"
  by auto

lemma copy_port_Some:
  assumes "port_index i p < length (ports n)"
  shows "copy_port n ov i p prts = Some (prts[port_index i p := sub_tgt n ov i p])"
  using assms by (simp add: copy_port_def sub_tgt_def Let_def ports_nth [OF refl] split: option.split)

lemma copy_agent_Some:
  assumes "slots_ok n" "get_agent n i = Some ag"
  shows "copy_agent n ov i (ags, prts) =
    Some (ags[i := Some ag], prts[port_index i 0 := sub_tgt n ov i 0, port_index i 1 := sub_tgt n ov i 1,
                                   port_index i 2 := sub_tgt n ov i 2])"
proof -
  have "port_index i p < length (ports n)" if "p < 3" for p
    using assms that by (intro live_slot) (auto simp: sym_at_def)
  then show ?thesis
    using assms(2) by (simp add: copy_agent_def upt3 copy_port_Some)
qed

lemma copy_agents:
  assumes ok: "slots_ok n" and "\<forall>i \<in> set is. live n i \<and> i < length ags" "length prts = 3 * length ags"
  shows "\<exists>ags' prts'. ofold (copy_agent n ov) is (ags, prts) = Some (ags', prts') \<and>
    length ags' = length ags \<and> length prts' = length prts \<and>
    (\<forall>i < length ags. ags' ! i = (if i \<in> set is then get_agent n i else ags ! i)) \<and>
    (\<forall>i p. i < length ags \<longrightarrow> p < 3 \<longrightarrow>
       prts' ! port_index i p = (if i \<in> set is then sub_tgt n ov i p else prts ! port_index i p))"
  using assms(2,3)
proof (induction "is" arbitrary: ags prts)
  case (Cons j js)
  obtain ag where ag: "get_agent n j = Some ag"
    using Cons.prems(1) by (auto simp: sym_at_def)
  let ?a = "ags[j := Some ag]" and ?t = "sub_tgt n ov j"
  let ?p = "prts[port_index j 0 := ?t 0, port_index j 1 := ?t 1, port_index j 2 := ?t 2]"
  have step: "copy_agent n ov j (ags, prts) = Some (?a, ?p)"
    using copy_agent_Some [OF ok ag] .
  obtain ags' prts' where ret: "ofold (copy_agent n ov) js (?a, ?p) = Some (ags', prts')"
      "length ags' = length ?a" "length prts' = length ?p"
      "\<forall>i < length ?a. ags' ! i = (if i \<in> set js then get_agent n i else ?a ! i)"
      "\<forall>i p. i < length ?a \<longrightarrow> p < 3 \<longrightarrow>
         prts' ! port_index i p = (if i \<in> set js then sub_tgt n ov i p else ?p ! port_index i p)"
    using Cons.IH [of ?a ?p] Cons.prems by auto
  have at: "?p ! port_index i p = (if i = j then ?t p else prts ! port_index i p)"
    if "i < length ags" "p < 3" for i p
  proof -
    have "port_index i p < length prts" "port_index j 0 < length prts" "port_index j 1 < length prts"
        "port_index j 2 < length prts"
      using that Cons.prems port_index_bound by auto
    then show ?thesis
      using that by (auto simp: nth_list_update port_index_inj less3)
  qed
  have a: "ags' ! i = (if i \<in> set (j # js) then get_agent n i else ags ! i)" if "i < length ags" for i
    using ret(4) that ag by (auto simp: nth_list_update)
  have p: "prts' ! port_index i p = (if i \<in> set (j # js) then sub_tgt n ov i p else prts ! port_index i p)"
    if "i < length ags" "p < 3" for i p
    using ret(5) that at by auto
  have "ofold (copy_agent n ov) (j # js) (ags, prts) = Some (ags', prts')"
    using step ret(1) by simp
  moreover have "length ags' = length ags" "length prts' = length prts"
    using ret(2,3) by simp_all
  ultimately show ?case
    using a p by blast
qed simp

lemma keep_internal_filter:
  assumes "\<And>a. sigma a = Some w \<Longrightarrow> a < length ags \<and> ags ! a \<noteq> None"
  shows "ofold (keep_internal sigma w ags) q acc = Some (acc @ filter (\<lambda>(a, b). sigma a = Some w \<and> sigma b = Some w) q)"
proof (induction q arbitrary: acc)
  case (Cons ab q)
  obtain a b where ab: "ab = (a, b)"
    by (cases ab)
  have "keep_internal sigma w ags ab acc = Some (if sigma a = Some w \<and> sigma b = Some w then acc @ [(a, b)] else acc)"
    using assms by (simp add: keep_internal_def ab)
  then show ?case
    using Cons ab by simp
qed simp

text \<open>The situation in which a split calls the construction.\<close>

definition sub_ctx ::
  "net \<Rightarrow> agent_id list \<Rightarrow> (agent_id \<rightharpoonup> worker_id) \<Rightarrow> (agent_id \<times> port_id \<times> nat) list \<Rightarrow> worker_id \<Rightarrow> bool" where
  "sub_ctx n is sigma es w \<longleftrightarrow>
     core_inv n \<and> distinct is \<and> set is = {i. sigma i = Some w} \<and> (\<forall>i \<in> set is. live n i) \<and>
     (\<forall>i p b. border_overrides es (i, p) = Some b \<longrightarrow> valid_port n i p)"

lemma sub_ctxD:
  assumes "sub_ctx n is sigma es w"
  shows "core_inv n" "distinct is" "i \<in> set is \<longleftrightarrow> sigma i = Some w" "sigma i = Some w \<Longrightarrow> live n i"
    "border_overrides es (i, p) = Some b \<Longrightarrow> valid_port n i p"
  using assms unfolding sub_ctx_def by blast+

lemma build_subnet_Some:
  assumes ctx: "sub_ctx n is sigma es w" and ne: "is \<noteq> []"
  defines "len \<equiv> fold max is 0 + 1"
  shows "\<exists>ags prts. build_subnet n is sigma es w rng =
      Some (net_new\<lparr>agents := ags, ports := prts,
              redex_queue := filter (\<lambda>(a, b). sigma a = Some w \<and> sigma b = Some w) (redex_queue n),
              next_id := fst rng, freeport_redirects := freeport_redirects n,
              free_list := free_slots (fst rng) (min (snd rng) len) ags,
              id_range := Some rng, border_entries_shadow := shadow_of es\<rparr>) \<and>
    length ags = len \<and> length prts = 3 * len \<and>
    (\<forall>i < len. ags ! i = (if i \<in> set is then get_agent n i else None)) \<and>
    (\<forall>i p. i < len \<longrightarrow> p < 3 \<longrightarrow>
       prts ! port_index i p = (if i \<in> set is then sub_tgt n (border_overrides es) i p else DISCONNECTED))"
proof -
  note C = sub_ctxD [OF ctx]
  have below: "i < len" if "i \<in> set is" for i
    using fold_max(2) [OF that, of 0] by (simp add: len_def)
  have "\<forall>i \<in> set is. live n i \<and> i < length (replicate len None)"
    using C(3,4) below by simp
  then obtain ags prts where ret: "ofold (copy_agent n (border_overrides es)) is
        (replicate len None, replicate (len * PORTS_PER_SLOT) DISCONNECTED) = Some (ags, prts)"
      "length ags = len" "length prts = 3 * len"
      "\<forall>i < len. ags ! i = (if i \<in> set is then get_agent n i else replicate len None ! i)"
      "\<forall>i p. i < len \<longrightarrow> p < 3 \<longrightarrow> prts ! port_index i p =
         (if i \<in> set is then sub_tgt n (border_overrides es) i p
          else replicate (len * PORTS_PER_SLOT) DISCONNECTED ! port_index i p)"
    using copy_agents [OF core_invD(1) [OF C(1)], of "is" "replicate len None"
        "replicate (len * PORTS_PER_SLOT) DISCONNECTED" "border_overrides es"]
    by (auto simp: PORTS_PER_SLOT_def)
  have own: "sigma a = Some w \<Longrightarrow> a < length ags \<and> ags ! a \<noteq> None" for a
    using C(3) [of a] C(4) [of a] below [of a] ret(2,4) by (auto simp: sym_at_def)
  have "port_index i p < len * PORTS_PER_SLOT" if "i < len" "p < 3" for i p
    using port_index_bound [OF that(2,1)] by (simp add: PORTS_PER_SLOT_def)
  then have ports: "prts ! port_index i p = (if i \<in> set is then sub_tgt n (border_overrides es) i p else DISCONNECTED)"
    if "i < len" "p < 3" for i p
    using ret(5) that by auto
  show ?thesis
  proof (intro exI conjI)
    show "build_subnet n is sigma es w rng =
      Some (net_new\<lparr>agents := ags, ports := prts,
              redex_queue := filter (\<lambda>(a, b). sigma a = Some w \<and> sigma b = Some w) (redex_queue n),
              next_id := fst rng, freeport_redirects := freeport_redirects n,
              free_list := free_slots (fst rng) (min (snd rng) len) ags,
              id_range := Some rng, border_entries_shadow := shadow_of es\<rparr>)"
      using ne ret(1) keep_internal_filter [OF own, where q = "redex_queue n" and acc = "[]"]
      by (simp add: build_subnet_def len_def)
  qed (use ret ports in auto)
qed

section \<open>What the sparse construction builds\<close>

lemma fold_sparse_copy_port:
  "fold (sparse_copy_port n ov i) ps m (j, q) =
     (if j = i \<and> q \<in> set ps \<and> sub_tgt n ov i q \<noteq> DISCONNECTED then Some (sub_tgt n ov i q) else m (j, q))"
proof (induction ps arbitrary: m)
  case (Cons p ps)
  have target: "sub_tgt n ov i p = (case ov (i, p) of Some b \<Rightarrow> FreePort b
      | None \<Rightarrow> if port_index i p < length (ports n) then ports n ! port_index i p else DISCONNECTED)"
    by (simp add: sub_tgt_def tgt_def get_target_def split: option.split)
  show ?case
    unfolding fold_simps comp_apply Cons.IH
    by (auto simp: sparse_copy_port_def Let_def target [symmetric])
qed simp

lemma sparse_copy_agents:
  assumes "\<forall>i \<in> set is. live n i"
  shows "\<exists>s'. ofold (sparse_copy_agent n ov) is s = Some s' \<and>
    (\<forall>i. sp_agents s' i = (if i \<in> set is then get_agent n i else sp_agents s i)) \<and>
    (\<forall>i p. sp_ports s' (i, p) =
       (if i \<in> set is \<and> valid_port n i p \<and> sub_tgt n ov i p \<noteq> DISCONNECTED then Some (sub_tgt n ov i p)
        else sp_ports s (i, p))) \<and> sp_root s' = sp_root s"
  using assms
proof (induction "is" arbitrary: s)
  case (Cons j js)
  obtain ag where ag: "get_agent n j = Some ag"
    using Cons.prems by (auto simp: sym_at_def)
  let ?s = "s\<lparr>sp_agents := (sp_agents s)(j \<mapsto> ag),
      sp_ports := fold (sparse_copy_port n ov j) [0..<total_ports (a_symbol ag)] (sp_ports s)\<rparr>"
  have valid: "valid_port n j p \<longleftrightarrow> p < total_ports (a_symbol ag)" for p
    using ag by (simp add: valid_port_def sym_at_def)
  obtain s' where s': "ofold (sparse_copy_agent n ov) js ?s = Some s'"
      "\<forall>i. sp_agents s' i = (if i \<in> set js then get_agent n i else sp_agents ?s i)"
      "\<forall>i p. sp_ports s' (i, p) =
         (if i \<in> set js \<and> valid_port n i p \<and> sub_tgt n ov i p \<noteq> DISCONNECTED then Some (sub_tgt n ov i p)
          else sp_ports ?s (i, p))" "sp_root s' = sp_root ?s"
    using Cons.IH [of ?s] Cons.prems by auto
  have "ofold (sparse_copy_agent n ov) (j # js) s = Some s'"
    using s'(1) ag by (simp add: sparse_copy_agent_def)
  moreover have "sp_agents s' i = (if i \<in> set (j # js) then get_agent n i else sp_agents s i)" for i
    using s'(2) ag by simp
  moreover have "sp_ports s' (i, p) =
       (if i \<in> set (j # js) \<and> valid_port n i p \<and> sub_tgt n ov i p \<noteq> DISCONNECTED then Some (sub_tgt n ov i p)
        else sp_ports s (i, p))" for i p
    using s'(3) valid by (auto simp: fold_sparse_copy_port)
  ultimately show ?case
    using s'(4) by auto
qed simp

lemma fold_max_set: "fold max xs (a :: nat) = Max (insert a (set xs))"
  using Max.set_eq_fold [of a xs] by simp

text \<open>The iteration order of the two maps does not influence the conversion.\<close>

lemma to_dense_order:
  assumes ords: "enumerates order (sp_agents s)" "enumerates order' (sp_agents s)"
    and pords: "enumerates ks (sp_ports s)" "enumerates ks' (sp_ports s)" and small: "\<And>i p. sp_ports s (i, p) \<noteq> None \<Longrightarrow> p < 3"
  shows "to_dense order ks rng s = to_dense order' ks' rng s"
proof -
  have sets: "set order = set order'" "set ks = set ks'" "length order = length order'"
    using ords pords distinct_card by (metis enumerates_def)+
  have top: "fold max order 0 = fold max order' 0"
    by (simp add: fold_max_set sets(1))
  have ags: "fill_agents s order (replicate len None) = fill_agents s order' (replicate len None)" for len
    by (intro nth_equalityI) (simp_all add: nth_fill_agents sets(1))
  have bnd: "\<forall>k \<in> set ks. snd k < 3" "\<forall>k \<in> set ks'. snd k < 3"
    using pords small unfolding enumerates_def dom_def by (metis (mono_tags, lifting) mem_Collect_eq prod.collapse)+
  have prts: "fold (fill_port s) ks (replicate len DISCONNECTED) = fold (fill_port s) ks' (replicate len DISCONNECTED)" for len
  proof (intro nth_equalityI)
    fix idx
    assume "idx < length (fold (fill_port s) ks (replicate len DISCONNECTED))"
    then have idx: "port_index (idx div 3) (idx mod 3) < length (replicate len DISCONNECTED)"
      by (simp add: divmod_port_index)
    show "fold (fill_port s) ks (replicate len DISCONNECTED) ! idx = fold (fill_port s) ks' (replicate len DISCONNECTED) ! idx"
      using nth_fill_ports [OF bnd(1) _ idx, of s] nth_fill_ports [OF bnd(2) _ idx, of s] sets(2)
      by (simp add: divmod_port_index)
  qed simp
  show ?thesis
    unfolding to_dense_def top ags prts sets(3) ..
qed

lemma port_keys_enumerates:
  assumes "distinct is" "\<And>i p. sp_ports s (i, p) \<noteq> None \<Longrightarrow> i \<in> set is \<and> p < 3"
  shows "enumerates (port_keys s is) (sp_ports s)"
proof -
  have "distinct (concat (map (\<lambda>i. map (Pair i) [0..<PORTS_PER_SLOT]) is))"
    using assms(1) by (induction "is") (auto simp: distinct_map inj_on_def)
  moreover have "set (port_keys s is) = dom (sp_ports s)"
  proof (intro set_eqI)
    fix k :: "agent_id \<times> port_id"
    obtain i p where k: "k = (i, p)"
      by (cases k)
    show "k \<in> set (port_keys s is) \<longleftrightarrow> k \<in> dom (sp_ports s)"
      using assms(2) [of i p] by (auto simp: k port_keys_def PORTS_PER_SLOT_def image_iff dom_def)
  qed
  ultimately show ?thesis
    by (simp add: enumerates_def port_keys_def)
qed

lemma nth_ports_eq:
  assumes "length xs = 3 * len" "length ys = 3 * len"
    and "\<And>i p. i < len \<Longrightarrow> p < 3 \<Longrightarrow> xs ! port_index i p = ys ! port_index i p"
  shows "xs = ys"
proof (intro nth_equalityI)
  fix idx
  assume "idx < length xs"
  then have "idx div 3 < len" "idx mod 3 < 3"
    using assms(1) by auto
  then show "xs ! idx = ys ! idx"
    using assms(3) [of "idx div 3" "idx mod 3"] by (simp add: divmod_port_index)
qed (use assms in simp)

text \<open>The sparse net between the two steps.\<close>

lemma sparse_stage:
  assumes ctx: "sub_ctx n is sigma es w"
  shows "\<exists>s. ofold (sparse_copy_agent n (border_overrides es)) is (sparse_with_capacity (length is)) = Some s \<and>
    (\<forall>i. sp_agents s i = (if i \<in> set is then get_agent n i else None)) \<and>
    (\<forall>i p. sp_ports s (i, p) =
       (if i \<in> set is \<and> valid_port n i p \<and> sub_tgt n (border_overrides es) i p \<noteq> DISCONNECTED
        then Some (sub_tgt n (border_overrides es) i p) else None)) \<and> sp_root s = None"
proof -
  have live: "\<forall>i \<in> set is. live n i"
    using ctx by (simp add: sub_ctx_def)
  have empty: "sp_agents (sparse_with_capacity k) i = None" "sp_ports (sparse_with_capacity k) x = None"
      "sp_root (sparse_with_capacity k) = None" for k i x
    by (simp_all add: sparse_with_capacity_def sparse_new_def)
  show ?thesis
    using sparse_copy_agents [OF live, of "border_overrides es" "sparse_with_capacity (length is)"] unfolding empty .
qed

lemma sparse_eq_dense:
  assumes ctx: "sub_ctx n is sigma es w" and ne: "is \<noteq> []" and cap: "fold max is 0 < MAX_DENSE_ARENA_SLOTS"
    and rng: "fst rng \<le> snd rng"
  shows "build_subnet_sparse n is sigma es w rng = build_subnet n is sigma es w rng \<and>
    build_subnet n is sigma es w rng \<noteq> None"
proof -
  note C = sub_ctxD [OF ctx]
  let ?ov = "border_overrides es" and ?len = "fold max is 0 + 1"
  obtain s where s: "ofold (sparse_copy_agent n ?ov) is (sparse_with_capacity (length is)) = Some s"
      "\<And>i. sp_agents s i = (if i \<in> set is then get_agent n i else None)"
      "\<And>i p. sp_ports s (i, p) = (if i \<in> set is \<and> valid_port n i p \<and> sub_tgt n ?ov i p \<noteq> DISCONNECTED
         then Some (sub_tgt n ?ov i p) else None)" "sp_root s = None"
    using sparse_stage [OF ctx] by metis
  let ?q = "filter (\<lambda>(a, b). sigma a = Some w \<and> sigma b = Some w) (redex_queue n)"
  let ?s = "s\<lparr>sp_redex_queue := ?q, sp_freeport_redirects := freeport_redirects n, sp_next_id := fst rng\<rparr>"
  obtain ags prts where d: "build_subnet n is sigma es w rng =
      Some (net_new\<lparr>agents := ags, ports := prts, redex_queue := ?q,
              next_id := fst rng, freeport_redirects := freeport_redirects n,
              free_list := free_slots (fst rng) (min (snd rng) ?len) ags,
              id_range := Some rng, border_entries_shadow := shadow_of es\<rparr>)"
      "length ags = ?len" "length prts = 3 * ?len"
      "\<And>i. i < ?len \<Longrightarrow> ags ! i = (if i \<in> set is then get_agent n i else None)"
      "\<And>i p. i < ?len \<Longrightarrow> p < 3 \<Longrightarrow>
         prts ! port_index i p = (if i \<in> set is then sub_tgt n ?ov i p else DISCONNECTED)"
    using build_subnet_Some [OF ctx ne, of rng] by metis
  have q: "filter (\<lambda>(a, b). sigma a = Some w \<and> sigma b = Some w \<and> a \<in> set is \<and> b \<in> set is) (redex_queue n) = ?q"
    using C(3) by (intro filter_cong) auto
  have keys: "\<forall>k \<in> set (port_keys ?s is). snd k < 3"
    by (auto simp: port_keys_def PORTS_PER_SLOT_def)
  have ags: "fill_agents ?s is (replicate ?len None) = ags"
    using d(2,4) s(2) by (intro nth_equalityI) (simp_all add: nth_fill_agents del: replicate.simps)
  have prts: "fold (fill_port ?s) (port_keys ?s is) (replicate (?len * PORTS_PER_SLOT) DISCONNECTED) = prts"
  proof (rule nth_ports_eq [where len = ?len])
    fix i p :: nat
    assume i: "i < ?len" and p: "p < 3"
    have idx: "port_index i p < length (replicate (?len * PORTS_PER_SLOT) DISCONNECTED)"
      using port_index_bound [OF p i] by (simp add: PORTS_PER_SLOT_def)
    have key: "(i, p) \<in> set (port_keys ?s is) \<longleftrightarrow> sp_ports s (i, p) \<noteq> None"
      using p s(3) [of i p] by (auto simp: port_keys_def PORTS_PER_SLOT_def image_iff)
    have "sub_tgt n ?ov i p = DISCONNECTED" if "\<not> valid_port n i p"
      using that C(1,5) p by (auto simp: sub_tgt_def core_inv_def ports_clean_def split: option.split)
    then show "fold (fill_port ?s) (port_keys ?s is) (replicate (?len * PORTS_PER_SLOT) DISCONNECTED) ! port_index i p =
        prts ! port_index i p"
      using nth_fill_ports [OF keys p idx, of ?s] key s(3) [of i p] d(5) [OF i p] idx by auto
  qed (use d(3) in \<open>simp_all add: PORTS_PER_SLOT_def\<close>)
  have "to_dense is (port_keys ?s is) (Some rng) ?s = Inr (net_new\<lparr>agents := ags, ports := prts, redex_queue := ?q,
              next_id := fst rng, freeport_redirects := freeport_redirects n,
              free_list := free_slots (fst rng) (min (snd rng) ?len) ags, id_range := Some rng\<rparr>)"
  proof -
    have "free_slots (min (fst rng) ?len) (min (snd rng) ?len) ags = free_slots (fst rng) (min (snd rng) ?len) ags"
      by (cases "fst rng \<le> ?len") (simp_all add: free_slots_def min_def)
    then show ?thesis
      using cap rng ags prts s(4) by (auto simp: to_dense_def Let_def net_new_def split: prod.splits)
  qed
  then have "build_subnet_sparse n is sigma es w rng =
      Some (net_new\<lparr>agents := ags, ports := prts, redex_queue := ?q,
              next_id := fst rng, freeport_redirects := freeport_redirects n,
              free_list := free_slots (fst rng) (min (snd rng) ?len) ags,
              id_range := Some rng, border_entries_shadow := shadow_of es\<rparr>)"
    using ne s(1) by (simp add: build_subnet_sparse_def q Let_def distinct_remdups_id [OF C(2)])
  then show ?thesis
    using d(1) by simp
qed

text \<open>
  The two constructions agree: for the agents of one worker of a well-formed net, building the
  sub-net directly and building it through the sparse representation give the same net, field by
  field, as long as the arena stays below the allocation cap and the range is not inverted.
\<close>

lemma build_subnet_sparse_eq:
  assumes "sub_ctx n is sigma es w" "is \<noteq> []" "fold max is 0 < MAX_DENSE_ARENA_SLOTS" "fst rng \<le> snd rng"
  shows "build_subnet_sparse n is sigma es w rng = build_subnet n is sigma es w rng \<and>
    build_subnet n is sigma es w rng \<noteq> None"
  using assms by (rule sparse_eq_dense)

text \<open>Agent 0 of an active pair on worker 0, its principal wire cut as border 4.\<close>

lemma pair_sub_ctx: "sub_ctx (pair_net Con Dup) [0] [0 \<mapsto> 0, 1 \<mapsto> 1] [(0, 0, 4)] 0"
  by (auto simp: sub_ctx_def border_overrides_def collect_map_def map_put_def valid_port_def split: if_splits)

lemma build_subnet_sparse_eq_witness:
  "build_subnet_sparse (pair_net Con Dup) [0] [0 \<mapsto> 0, 1 \<mapsto> 1] [(0, 0, 4)] 0 (2, 100002) =
     build_subnet (pair_net Con Dup) [0] [0 \<mapsto> 0, 1 \<mapsto> 1] [(0, 0, 4)] 0 (2, 100002)"
  using build_subnet_sparse_eq [OF pair_sub_ctx, of "(2, 100002)"] by (simp add: MAX_DENSE_ARENA_SLOTS_def)

text \<open>
  Above the allocation cap the sparse construction loses the partition: when the highest agent
  of the worker lies at or above the cap, the result is a net without any agent, and the split goes
  on with it.
\<close>

lemma build_subnet_sparse_cap:
  assumes "is \<noteq> []" "\<forall>i \<in> set is. live n i" "fold max is 0 \<ge> MAX_DENSE_ARENA_SLOTS" "fst rng \<le> snd rng"
  shows "\<exists>m. build_subnet_sparse n is sigma es w rng = Some m \<and> agents m = [] \<and> redex_queue m = []"
proof -
  obtain s where s: "ofold (sparse_copy_agent n (border_overrides es)) is (sparse_with_capacity (length is)) = Some s"
    using sparse_copy_agents [OF assms(2)] by blast
  have top: "fold max (remdups is) 0 \<ge> MAX_DENSE_ARENA_SLOTS"
    using assms(3) by (simp add: fold_max_set)
  then have "to_dense (remdups is) ks (Some rng) t \<noteq> Inr m" for ks t m
    by (auto simp: to_dense_def Let_def)
  then have "(case to_dense (remdups is) ks (Some rng) t of Inr m \<Rightarrow> m | Inl e \<Rightarrow> net_new) = net_new" for ks t
    by (simp split: sum.split)
  then show ?thesis
    using assms(1) s by (simp add: build_subnet_sparse_def Let_def) (simp add: net_new_def)
qed

definition far_net :: net where
  "far_net = net_new\<lparr>agents := replicate 16777216 None @ [Some \<lparr>a_symbol = Era, a_id = 16777216\<rparr>]\<rparr>"

lemma build_subnet_sparse_cap_witness:
  "sym_at far_net 16777216 = Some Era \<and>
   (\<exists>m. build_subnet_sparse far_net [16777216] [16777216 \<mapsto> 0] [] 0 (16777217, 16877217) = Some m \<and> agents m = [])"
proof -
  have live: "sym_at far_net 16777216 = Some Era"
    by (simp add: far_net_def sym_at_def get_agent_def vec_get_def nth_append)
  show ?thesis
    using build_subnet_sparse_cap [of "[16777216]" far_net "(16777217, 16877217)" "[16777216 \<mapsto> 0]" "[]" 0] live
    by (auto simp: MAX_DENSE_ARENA_SLOTS_def)
qed

section \<open>The view of a sub-net\<close>

text \<open>Room for the arena of one worker: below the cap, or dense enough for the direct construction.\<close>

definition arena_fits :: "agent_id list \<Rightarrow> bool" where
  "arena_fits is \<longleftrightarrow> fold max is 0 < MAX_DENSE_ARENA_SLOTS \<or> fold max is 0 + 1 \<le> 4 * length is"

definition sub_view ::
  "net \<Rightarrow> (agent_id \<rightharpoonup> worker_id) \<Rightarrow> (agent_id \<times> port_id \<rightharpoonup> nat) \<Rightarrow> worker_id \<Rightarrow> net \<Rightarrow> bool" where
  "sub_view n sigma ov w m \<longleftrightarrow>
     (\<forall>i. get_agent m i = (if sigma i = Some w then get_agent n i else None)) \<and>
     (\<forall>i p. p < 3 \<longrightarrow> tgt m i p = (if sigma i = Some w then sub_tgt n ov i p else DISCONNECTED)) \<and>
     3 * length (agents m) \<le> length (ports m) \<and>
     redex_queue m = filter (\<lambda>(a, b). sigma a = Some w \<and> sigma b = Some w) (redex_queue n) \<and>
     distinct (free_list m) \<and> (\<forall>i \<in> set (free_list m). i < length (agents m) \<and> get_agent m i = None)"

lemma sub_view_cong:
  assumes "agents m = agents m'" "ports m = ports m'" "redex_queue m = redex_queue m'" "free_list m = free_list m'"
  shows "sub_view n sigma ov w m \<longleftrightarrow> sub_view n sigma ov w m'"
proof -
  have "get_agent m = get_agent m'"
    using assms(1) by (simp add: get_agent_def fun_eq_iff)
  then show ?thesis
    using assms tgt_cong [OF assms(2)] by (simp add: sub_view_def)
qed

lemma sub_view_dense:
  assumes ctx: "sub_ctx n is sigma es w" and ne: "is \<noteq> []"
  shows "\<exists>m. build_subnet n is sigma es w rng = Some m \<and> sub_view n sigma (border_overrides es) w m \<and>
    next_id m = fst rng \<and> root m = None \<and> length (agents m) = fold max is 0 + 1 \<and> id_range m = Some rng \<and>
    freeport_redirects m = freeport_redirects n"
proof -
  note C = sub_ctxD [OF ctx]
  let ?len = "fold max is 0 + 1"
  obtain ags prts where d: "build_subnet n is sigma es w rng =
      Some (net_new\<lparr>agents := ags, ports := prts,
              redex_queue := filter (\<lambda>(a, b). sigma a = Some w \<and> sigma b = Some w) (redex_queue n),
              next_id := fst rng, freeport_redirects := freeport_redirects n,
              free_list := free_slots (fst rng) (min (snd rng) ?len) ags,
              id_range := Some rng, border_entries_shadow := shadow_of es\<rparr>)" (is "_ = Some ?m")
      "length ags = ?len" "length prts = 3 * ?len"
      "\<And>i. i < ?len \<Longrightarrow> ags ! i = (if i \<in> set is then get_agent n i else None)"
      "\<And>i p. i < ?len \<Longrightarrow> p < 3 \<Longrightarrow>
         prts ! port_index i p = (if i \<in> set is then sub_tgt n (border_overrides es) i p else DISCONNECTED)"
    using build_subnet_Some [OF ctx ne, of rng] by metis
  have below: "i < ?len" if "i \<in> set is" for i
    using fold_max(2) [OF that, of 0] by simp
  have agent: "get_agent ?m i = (if sigma i = Some w then get_agent n i else None)" for i
    using C(3) [of i] below [of i] d(2,4) by (auto simp: get_agent_def vec_get_def)
  have tgts: "tgt ?m i p = (if sigma i = Some w then sub_tgt n (border_overrides es) i p else DISCONNECTED)"
    if p: "p < 3" for i p
  proof (cases "i < ?len")
    case True
    then have "port_index i p < length (ports ?m)"
      using port_index_bound [OF p True] d(3) by simp
    then show ?thesis
      using ports_nth [OF refl, of i p ?m] d(5) [OF True p] C(3) [of i] by simp
  next
    case False
    then have "\<not> port_index i p < length (ports ?m)"
      using d(3) by (simp add: port_index_def PORTS_PER_SLOT_def)
    then show ?thesis
      using tgt_out_of_range False below [of i] C(3) [of i] by auto
  qed
  have fl: "distinct (free_list ?m)" "\<forall>i \<in> set (free_list ?m). i < length (agents ?m) \<and> get_agent ?m i = None"
    using d(2) by (auto simp: free_slots_def get_agent_def vec_get_def)
  have "sub_view n sigma (border_overrides es) w ?m"
    unfolding sub_view_def using agent tgts fl d(2,3) by (simp add: net_new_def)
  then show ?thesis
    using d(1,2) by (auto simp: net_new_def)
qed

lemma sub_view_empty:
  assumes "\<And>i. sigma i \<noteq> Some w"
  shows "sub_view n sigma ov w (net_new\<lparr>id_range := r, next_id := k\<rparr>)"
  using assms by (auto simp: sub_view_def net_new_def get_agent_def vec_get_def tgt_def get_target_def)

lemma build_subnet_with_config_view:
  assumes ctx: "sub_ctx n is sigma es w" and fits: "arena_fits is" and rng: "fst rng \<le> snd rng"
    and cfg: "pc_sparse_build cfg"
  shows "\<exists>m. build_subnet_with_config cfg k n is sigma es w rng = Some (Inr m) \<and>
    sub_view n sigma (border_overrides es) w m \<and> next_id m = fst rng \<and> root m = None \<and>
    length (agents m) = (if is = [] then 0 else fold max is 0 + 1) \<and> id_range m = Some rng \<and>
    recycle_policy m = pc_recycle_policy cfg"
proof (cases "is = []")
  case True
  then have "sub_view n sigma (border_overrides es) w (net_new\<lparr>id_range := Some rng, next_id := fst rng\<rparr>)"
    using sub_ctxD(3) [OF ctx] by (intro sub_view_empty) auto
  then show ?thesis
    using True cfg sub_view_cong [of "net_new\<lparr>id_range := Some rng, next_id := fst rng, recycle_policy := pc_recycle_policy cfg\<rparr>"
        "net_new\<lparr>id_range := Some rng, next_id := fst rng\<rparr>" n sigma "border_overrides es" w]
    by (simp add: build_subnet_with_config_def build_subnet_sparse_def net_new_def Let_def)
next
  case False
  obtain m where m: "build_subnet n is sigma es w rng = Some m" "sub_view n sigma (border_overrides es) w m"
      "next_id m = fst rng" "root m = None" "length (agents m) = fold max is 0 + 1" "id_range m = Some rng"
    using sub_view_dense [OF ctx False, of rng] by blast
  have "build_subnet_with_config cfg k n is sigma es w rng = Some (Inr (m\<lparr>recycle_policy := pc_recycle_policy cfg\<rparr>))"
  proof (cases "fold max is 0 + 1 > 4 * length is")
    case True
    then have "fold max is 0 < MAX_DENSE_ARENA_SLOTS"
      using fits by (auto simp: arena_fits_def)
    then have "build_subnet_sparse n is sigma es w rng = Some m"
      using sparse_eq_dense [OF ctx False _ rng] m(1) by simp
    then show ?thesis
      using True False cfg by (simp add: build_subnet_with_config_def Let_def)
  qed (use False m(1) in \<open>simp add: build_subnet_with_config_def Let_def\<close>)
  moreover have "sub_view n sigma (border_overrides es) w (m\<lparr>recycle_policy := pc_recycle_policy cfg\<rparr>)"
    using m(2) by (subst sub_view_cong [where m' = m]) simp_all
  ultimately show ?thesis
    using m False by simp
qed

text \<open>
  The dense configuration refuses sparse partitions (C47): with \<open>sparse_build\<close> off and an arena more
  than four times the number of agents, the result is the error with the offending sizes.
\<close>

theorem build_subnet_with_config_refuses:
  assumes "\<not> pc_sparse_build cfg" "is \<noteq> []" "fold max is 0 + 1 > 4 * length is"
  shows "build_subnet_with_config cfg k n is sigma es w rng =
    Some (Inl (PartitionDenseAllocationExceedsThreshold k (fold max is 0 + 1) (length is)))"
  using assms by (simp add: build_subnet_with_config_def Let_def)

theorem build_subnet_with_config_refuses_witness:
  "build_subnet_with_config (partition_config_default\<lparr>pc_sparse_build := False\<rparr>) 3 net_new [7] [7 \<mapsto> 3] [] 3 (0, 9) =
     Some (Inl (PartitionDenseAllocationExceedsThreshold 3 8 1))"
  using build_subnet_with_config_refuses [of "partition_config_default\<lparr>pc_sparse_build := False\<rparr>" "[7]" 3 net_new
      "[7 \<mapsto> 3]" "[]" 3 "(0, 9)"] by simp

end
