(* ===== verification/Id_Ranges.thy ===== *)
theory Id_Ranges
  imports Partition_Types
begin

text \<open>
  Static partitioning of the identifier space (\<open>partition/helpers.rs\<close>, first part): the ranges of a
  split, the ranges of a round with elastic membership, and the dense index of a worker.  A
  \<open>BTreeSet\<close> of workers is the strictly increasing list of its elements; \<open>u64\<close> arithmetic of the
  release build wraps.
\<close>

definition wrap64 :: "nat \<Rightarrow> nat" where
  "wrap64 x = x mod 18446744073709551616"

definition id_chunk :: "nat \<Rightarrow> nat" where
  "id_chunk base = max 100000 (min (base * 10) u64_MAX)"

definition id_range_of :: "nat \<Rightarrow> nat \<Rightarrow> nat \<Rightarrow> id_rng" where
  "id_range_of k base i =
     (let start_64 = wrap64 (base + i * id_chunk base);
          end_64 = (if i = k - 1 then u32_MAX else wrap64 (base + (i + 1) * id_chunk base))
      in \<lparr>ir_start = min start_64 (u32_MAX - 1), ir_end = min end_64 u32_MAX\<rparr>)"

definition compute_id_ranges :: "nat \<Rightarrow> nat \<Rightarrow> id_rng list option" where
  "compute_id_ranges k base = (if k = 0 then None else Some (map (id_range_of k base) [0..<k]))"

fun position :: "'a \<Rightarrow> 'a list \<Rightarrow> nat option" where
  "position x [] = None"
| "position x (y # ys) = (if y = x then Some 0 else map_option Suc (position x ys))"

definition partition_index_of :: "worker_id \<Rightarrow> worker_id list \<Rightarrow> bool \<Rightarrow> nat option" where
  "partition_index_of w active hybrid =
     (if hybrid \<and> w = 0 then Some 0
      else map_option (\<lambda>k. k + (if hybrid then 1 else 0)) (position w active))"

text \<open>The loop over the active workers with their positions.\<close>

definition assign_ranges :: "id_rng list \<Rightarrow> nat \<Rightarrow> worker_id list \<Rightarrow> (worker_id \<rightharpoonup> id_rng) \<Rightarrow> (worker_id \<rightharpoonup> id_rng)"
  where
  "assign_ranges ranges offset active m =
     fold (\<lambda>(i, w) acc. acc(w \<mapsto> ranges ! (i + offset))) (List.enumerate 0 active) m"

definition compute_round_id_ranges :: "bool \<Rightarrow> worker_id list \<Rightarrow> nat \<Rightarrow> (worker_id \<rightharpoonup> id_rng) option" where
  "compute_round_id_ranges hybrid active base =
     (let k_eff = length active + (if hybrid then 1 else 0)
      in if k_eff = 0 then Some Map.empty
         else case compute_id_ranges k_eff base of
                None \<Rightarrow> None
              | Some ranges \<Rightarrow>
                  Some (assign_ranges ranges (if hybrid then 1 else 0) active
                          (if hybrid then [0 \<mapsto> ranges ! 0] else Map.empty)))"

section \<open>Disjointness\<close>

text \<open>The identifier space suffices for \<open>k\<close> workers above \<open>base\<close>.\<close>

definition id_space_ok :: "nat \<Rightarrow> nat \<Rightarrow> bool" where
  "id_space_ok k base \<longleftrightarrow> base + k * id_chunk base \<le> u32_MAX"

lemma id_chunk_pos: "0 < id_chunk base"
  by (simp add: id_chunk_def)

lemma id_range_of_exact:
  assumes "id_space_ok k base" "i < k"
  shows "ir_start (id_range_of k base i) = base + i * id_chunk base"
    "ir_end (id_range_of k base i) = (if i = k - 1 then u32_MAX else base + (i + 1) * id_chunk base)"
proof -
  have le: "base + (i + 1) * id_chunk base \<le> u32_MAX"
  proof -
    have "(i + 1) * id_chunk base \<le> k * id_chunk base"
      using assms(2) by (intro mult_le_mono1) simp
    then show ?thesis
      using assms(1) by (simp add: id_space_ok_def)
  qed
  then have "base + i * id_chunk base < u32_MAX"
    using id_chunk_pos [of base] by (simp add: distrib_right)
  then show "ir_start (id_range_of k base i) = base + i * id_chunk base"
    by (simp add: id_range_of_def wrap64_def Let_def)
  show "ir_end (id_range_of k base i) = (if i = k - 1 then u32_MAX else base + (i + 1) * id_chunk base)"
    using le by (simp add: id_range_of_def wrap64_def Let_def)
qed

lemma id_ranges_disjoint:
  assumes "id_space_ok k base" "i < j" "j < k"
  shows "ir_end (id_range_of k base i) \<le> ir_start (id_range_of k base j)"
proof -
  have "(i + 1) * id_chunk base \<le> j * id_chunk base"
    using assms(2) by (intro mult_le_mono1) simp
  then show ?thesis
    using assms by (auto simp: id_range_of_exact)
qed

lemma id_range_of_bounds:
  assumes "id_space_ok k base" "i < k"
  shows "base \<le> ir_start (id_range_of k base i)"
    "ir_start (id_range_of k base i) < ir_end (id_range_of k base i)"
    "ir_end (id_range_of k base i) \<le> u32_MAX"
proof -
  have "base + k * id_chunk base \<le> u32_MAX" "(i + 1) * id_chunk base \<le> k * id_chunk base"
    using assms by (auto simp: id_space_ok_def intro!: mult_le_mono1 simp del: mult_Suc)
  then show "base \<le> ir_start (id_range_of k base i)"
      "ir_start (id_range_of k base i) < ir_end (id_range_of k base i)"
      "ir_end (id_range_of k base i) \<le> u32_MAX"
    using id_chunk_pos [of base] by (auto simp: id_range_of_exact [OF assms] distrib_right)
qed

text \<open>
  Identifier ranges (C35): when the identifiers in use and one chunk per worker fit the identifier space,
  the workers get non-empty ranges above every existing identifier, in order and without overlap, that
  fill the space up to the sentinel.
\<close>

theorem compute_id_ranges_correct:
  assumes "0 < k" "id_space_ok k base"
  shows "\<exists>rs. compute_id_ranges k base = Some rs \<and> length rs = k \<and> ir_start (hd rs) = base \<and>
    ir_end (last rs) = u32_MAX \<and>
    (\<forall>i < k. base \<le> ir_start (rs ! i) \<and> ir_start (rs ! i) < ir_end (rs ! i) \<and> ir_end (rs ! i) \<le> u32_MAX) \<and>
    (\<forall>i < k. i + 1 < k \<longrightarrow> ir_end (rs ! i) = ir_start (rs ! (i + 1))) \<and>
    (\<forall>i j. i < j \<longrightarrow> j < k \<longrightarrow> ir_end (rs ! i) \<le> ir_start (rs ! j))"
proof (intro exI conjI allI impI)
  let ?rs = "map (id_range_of k base) [0..<k]"
  show "compute_id_ranges k base = Some ?rs"
    using assms(1) by (simp add: compute_id_ranges_def)
  show "ir_start (hd ?rs) = base" "ir_end (last ?rs) = u32_MAX"
    using assms by (simp_all add: hd_map last_map id_range_of_exact)
  show "ir_end (?rs ! i) = ir_start (?rs ! (i + 1))" if "i < k" "i + 1 < k" for i
    using assms that by (auto simp: id_range_of_exact)
  show "ir_end (?rs ! i) \<le> ir_start (?rs ! j)" if "i < j" "j < k" for i j
    using assms that by (simp add: id_ranges_disjoint)
qed (use assms id_range_of_bounds [OF assms(2)] in simp_all)

theorem compute_id_ranges_correct_witness:
  "\<exists>rs. compute_id_ranges 4 7 = Some rs \<and> ir_start (hd rs) = 7 \<and> ir_end (last rs) = u32_MAX \<and>
     ir_end (rs ! 1) \<le> ir_start (rs ! 3)"
  using compute_id_ranges_correct [of 4 7] by (auto simp: id_space_ok_def id_chunk_def)

text \<open>
  Above the bound the ranges overlap: with 500 million identifiers in use, three workers get
  ranges that share identifiers, and two of them get the same range.
\<close>

lemma compute_id_ranges_overlap:
  "\<exists>r0 r1 r2. compute_id_ranges 3 500000000 = Some [r0, r1, r2] \<and>
     ir_start r0 < ir_start r1 \<and> ir_start r1 < ir_end r0 \<and> r1 = r2"
  by (simp add: compute_id_ranges_def id_range_of_def id_chunk_def wrap64_def upt_rec Let_def)

section \<open>Rounds with elastic membership\<close>

lemma position_Some: "position x xs = Some k \<Longrightarrow> k < length xs \<and> xs ! k = x"
  by (induction xs arbitrary: k) (auto split: if_splits)

lemma position_nth: "distinct xs \<Longrightarrow> k < length xs \<Longrightarrow> position (xs ! k) xs = Some k"
proof (induction xs arbitrary: k)
  case (Cons y ys)
  then show ?case
    by (cases k) auto
qed simp

lemma position_None: "position x xs = None \<longleftrightarrow> x \<notin> set xs"
  by (induction xs) auto

lemma assign_ranges_apply:
  assumes "distinct active"
  shows "assign_ranges ranges offset active m w =
    (case position w active of Some i \<Rightarrow> Some (ranges ! (i + offset)) | None \<Rightarrow> m w)"
proof -
  have "fold (\<lambda>(i, v) acc. acc(v \<mapsto> ranges ! (i + offset))) (List.enumerate s active) m w =
      (case position w active of Some i \<Rightarrow> Some (ranges ! (s + i + offset)) | None \<Rightarrow> m w)" for s m
    using assms
  proof (induction active arbitrary: s m)
    case (Cons v vs)
    have "position w vs = None" if "v = w"
      using Cons.prems that by (simp add: position_None)
    then show ?case
      using Cons by (auto simp: List.enumerate_simps split: option.splits)
  qed simp
  from this [of 0 m] show ?thesis
    by (simp add: assign_ranges_def split: option.splits)
qed

text \<open>The workers of a round: the active ones, and worker 0 for the coordinator in hybrid mode.\<close>

definition round_workers :: "bool \<Rightarrow> worker_id list \<Rightarrow> worker_id list" where
  "round_workers hybrid active = (if hybrid then 0 # active else active)"

lemma partition_index_position:
  "partition_index_of w active hybrid = position w (round_workers hybrid active)"
  by (auto simp: partition_index_of_def round_workers_def option.map_ident)

lemma round_ranges_position:
  assumes "distinct (round_workers hybrid active)"
  shows "compute_round_id_ranges hybrid active base =
    Some (\<lambda>w. map_option (id_range_of (length (round_workers hybrid active)) base)
                (position w (round_workers hybrid active)))"
proof (cases "round_workers hybrid active = []")
  case True
  then show ?thesis
    by (auto simp: round_workers_def compute_round_id_ranges_def split: if_splits)
next
  case False
  let ?k = "length (round_workers hybrid active)"
  have k: "?k = length active + (if hybrid then 1 else 0)" "0 < ?k"
    using False by (auto simp: round_workers_def)
  have at: "map (id_range_of ?k base) [0..<?k] ! i = id_range_of ?k base i" if "i < ?k" for i
    using that by simp
  have dist: "distinct active" "hybrid \<Longrightarrow> 0 \<notin> set active"
    using assms by (auto simp: round_workers_def split: if_splits)
  let ?rs = "map (id_range_of ?k base) [0..<?k]" and ?off = "if hybrid then 1 else 0 :: nat"
  have ret: "compute_round_id_ranges hybrid active base =
      Some (assign_ranges ?rs ?off active (if hybrid then [0 \<mapsto> ?rs ! 0] else Map.empty))"
    using k(2) unfolding compute_round_id_ranges_def compute_id_ranges_def Let_def k(1) [symmetric]
    by (simp del: upt_Suc)
  have "assign_ranges ?rs ?off active (if hybrid then [0 \<mapsto> ?rs ! 0] else Map.empty) w =
      map_option (id_range_of ?k base) (position w (round_workers hybrid active))" for w
  proof (cases "position w active")
    case None
    then show ?thesis
      using k(2) at [of 0] by (auto simp: assign_ranges_apply [OF dist(1)] round_workers_def simp del: upt_Suc)
  next
    case (Some i)
    then have "i < length active" "active ! i = w"
      using position_Some by fastforce+
    then have "i + ?off < ?k" "hybrid \<Longrightarrow> w \<noteq> 0"
      using k(1) dist(2) nth_mem [of i active] by (auto intro: ccontr)
    then show ?thesis
      using Some at [of "i + ?off"] by (auto simp: assign_ranges_apply [OF dist(1)] round_workers_def simp del: upt_Suc)
  qed
  then show ?thesis
    unfolding ret option.inject by (rule ext)
qed

text \<open>
  A round with elastic membership: the indices of the workers are exactly \<open>0, ..., K - 1\<close> in
  order, each worker gets the range of its index, and different workers get disjoint ranges.
\<close>

lemma compute_round_id_ranges_correct:
  assumes "sorted_wrt (<) active" "hybrid \<longrightarrow> 0 \<notin> set active"
    and "id_space_ok (length (round_workers hybrid active)) base"
  shows "(\<forall>i < length (round_workers hybrid active).
      partition_index_of (round_workers hybrid active ! i) active hybrid = Some i) \<and>
    (\<exists>m. compute_round_id_ranges hybrid active base = Some m \<and> dom m = set (round_workers hybrid active) \<and>
      (\<forall>v w r s. m v = Some r \<longrightarrow> m w = Some s \<longrightarrow> v \<noteq> w \<longrightarrow>
         ir_end r \<le> ir_start s \<or> ir_end s \<le> ir_start r) \<and>
      (\<forall>w r. m w = Some r \<longrightarrow> base \<le> ir_start r \<and> ir_start r < ir_end r \<and> ir_end r \<le> u32_MAX))"
proof -
  let ?ws = "round_workers hybrid active"
  let ?m = "\<lambda>w. map_option (id_range_of (length ?ws) base) (position w ?ws)"
  have dist: "distinct ?ws"
    using strict_sorted_iff assms(1,2) by (auto simp: round_workers_def)
  have "\<forall>i < length ?ws. partition_index_of (?ws ! i) active hybrid = Some i"
    using dist by (simp add: partition_index_position position_nth)
  moreover have "dom ?m = set ?ws"
    by (auto simp: dom_def) (use position_None [of _ ?ws] in force)+
  moreover have "ir_end r \<le> ir_start s \<or> ir_end s \<le> ir_start r"
    if vw: "?m v = Some r" "?m w = Some s" "v \<noteq> w" for v w r s
  proof -
    obtain i j where "position v ?ws = Some i" "position w ?ws = Some j"
        "r = id_range_of (length ?ws) base i" "s = id_range_of (length ?ws) base j"
      using vw(1,2) by auto
    moreover then have "i \<noteq> j \<and> i < length ?ws \<and> j < length ?ws"
      using position_Some [of v ?ws i] position_Some [of w ?ws j] vw(3) by auto
    ultimately show ?thesis
      using id_ranges_disjoint [OF assms(3)] by (metis linorder_neqE_nat)
  qed
  moreover have "base \<le> ir_start r \<and> ir_start r < ir_end r \<and> ir_end r \<le> u32_MAX" if wr: "?m w = Some r" for w r
  proof -
    obtain i where "position w ?ws = Some i" "r = id_range_of (length ?ws) base i"
      using wr by auto
    then show ?thesis
      using position_Some [of w ?ws i] id_range_of_bounds [OF assms(3), of i] by simp
  qed
  ultimately show ?thesis
    using round_ranges_position [OF dist, of base] by blast
qed

lemma compute_round_id_ranges_correct_witness:
  "partition_index_of 5 [2, 5, 9] True = Some 2 \<and>
   (\<exists>m. compute_round_id_ranges True [2, 5, 9] 100 = Some m \<and> dom m = {0, 2, 5, 9})"
  using compute_round_id_ranges_correct [of "[2, 5, 9]" True 100]
  by (auto simp: round_workers_def id_space_ok_def id_chunk_def partition_index_of_def)

end
