(* ===== verification/Split.thy ===== *)
theory Split
  imports Subnet Id_Ranges
begin

text \<open>
  The split function (\<open>partition/split.rs\<close>).  \<open>order\<close> is the iteration order of the hash map that
  the strategy returns; \<open>None\<close> is a panic.
\<close>

section \<open>The function\<close>

definition group_agents :: "(agent_id \<rightharpoonup> worker_id) \<Rightarrow> agent_id list \<Rightarrow> nat \<Rightarrow> agent_id list list option" where
  "group_agents sigma order k =
     ofold (\<lambda>i groups.
              case sigma i of
                None \<Rightarrow> Some groups
              | Some w \<Rightarrow> if w < length groups then Some (groups[w := groups ! w @ [i]]) else None)
           order (replicate k [])"

definition propagate_root :: "net \<Rightarrow> (agent_id \<rightharpoonup> worker_id) \<Rightarrow> worker_id \<Rightarrow> port_ref option" where
  "propagate_root n sigma w =
     (case root n of
        Some (AgentPort i p) \<Rightarrow> if sigma i = Some w then Some (AgentPort i p) else None
      | _ \<Rightarrow> None)"

definition index_of_entries :: "(agent_id \<times> port_id \<times> nat) list \<Rightarrow> (nat \<rightharpoonup> port_ref)" where
  "index_of_entries es = collect_map (map (\<lambda>(i, p, b). (b, AgentPort i p)) es)"

definition trivial_plan :: "net \<Rightarrow> partition_plan" where
  "trivial_plan n =
     \<lparr>pl_partitions =
        [\<lparr>p_subnet = n, p_worker_id = 0, p_free_port_index = Map.empty,
          p_id_range = \<lparr>ir_start = 0, ir_end = u32_MAX\<rparr>, p_border_id_start = 0, p_border_id_end = 0\<rparr>],
      pl_borders = Map.empty, pl_next_border_id = 0\<rparr>"

text \<open>The body of the loop over the workers.\<close>

definition build_partition ::
  "partition_config \<Rightarrow> net \<Rightarrow> (agent_id \<rightharpoonup> worker_id) \<Rightarrow> agent_id list list \<Rightarrow> wire_classification \<Rightarrow> id_rng list \<Rightarrow>
   worker_id \<Rightarrow> partition option" where
  "build_partition cfg n sigma groups wc ranges i =
     (let es = wc_border_entries wc ! i; is = groups ! i; r = ranges ! i
      in case build_subnet_with_config cfg i n is sigma es i (ir_start r, ir_end r) of
           Some (Inr m) \<Rightarrow>
             (let min_next_id = (if is = [] then 0 else fold max is 0 + 1)
              in Some \<lparr>p_subnet = m\<lparr>next_id := max (next_id m) min_next_id, root := propagate_root n sigma i\<rparr>,
                       p_worker_id = i, p_free_port_index = index_of_entries es, p_id_range = r,
                       p_border_id_start = wc_border_id_start wc, p_border_id_end = wc_border_id_end wc\<rparr>)
         | _ \<Rightarrow> None)"

definition split_with_config ::
  "(net \<Rightarrow> nat \<Rightarrow> (agent_id \<rightharpoonup> worker_id) option) \<Rightarrow> ((agent_id \<rightharpoonup> worker_id) \<Rightarrow> agent_id list) \<Rightarrow>
   partition_config \<Rightarrow> net \<Rightarrow> nat \<Rightarrow> partition_plan option" where
  "split_with_config allocate order cfg n k =
     (if k < 1 then None
      else if k \<le> 1 then
        (let plan = trivial_plan n
         in Some (plan\<lparr>pl_partitions :=
              map (\<lambda>p. p\<lparr>p_subnet := (p_subnet p)\<lparr>recycle_policy := pc_recycle_policy cfg\<rparr>\<rparr>) (pl_partitions plan)\<rparr>))
      else do {
        sigma \<leftarrow> allocate n k;
        groups \<leftarrow> group_agents sigma (order sigma) k;
        wc \<leftarrow> classify_wires n sigma k;
        ranges \<leftarrow> compute_id_ranges k (next_id n);
        partitions \<leftarrow> those (map (build_partition cfg n sigma groups wc ranges) [0..<k]);
        Some \<lparr>pl_partitions = partitions, pl_borders = wc_borders wc, pl_next_border_id = wc_border_id_end wc\<rparr>
      })"

definition split ::
  "(net \<Rightarrow> nat \<Rightarrow> (agent_id \<rightharpoonup> worker_id) option) \<Rightarrow> ((agent_id \<rightharpoonup> worker_id) \<Rightarrow> agent_id list) \<Rightarrow>
   net \<Rightarrow> nat \<Rightarrow> partition_plan option" where
  "split allocate order n k = split_with_config allocate order partition_config_default n k"

text \<open>The checks of debug builds; \<open>keys\<close> is the iteration order of the border map.\<close>

definition assert_c1_coverage :: "net \<Rightarrow> partition list \<Rightarrow> bool" where
  "assert_c1_coverage original partitions \<longleftrightarrow>
     (let ids = concat (map (\<lambda>p. live_ids (p_subnet p)) partitions)
      in distinct ids \<and> length ids = count_live_agents original)"

definition assert_c3_border_consistency :: "partition list \<Rightarrow> nat list \<Rightarrow> bool" where
  "assert_c3_border_consistency partitions keys \<longleftrightarrow>
     list_all (\<lambda>b. let found_in = map p_worker_id (filter (\<lambda>p. p_free_port_index p b \<noteq> None) partitions)
                   in length found_in = 2 \<and> found_in ! 0 \<noteq> found_in ! 1) keys"

section \<open>What a split builds\<close>

lemma group_agents_Some:
  assumes "\<And>i w. sigma i = Some w \<Longrightarrow> w < k"
  shows "group_agents sigma order k = Some (map (\<lambda>w. filter (\<lambda>i. sigma i = Some w) order) [0..<k])"
proof -
  let ?f = "\<lambda>i groups. case sigma i of None \<Rightarrow> Some groups
    | Some w \<Rightarrow> if w < length groups then Some (groups[w := groups ! w @ [i]]) else None"
  have "ofold ?f order gs = Some (map (\<lambda>w. gs ! w @ filter (\<lambda>i. sigma i = Some w) order) [0..<k])"
    if "length gs = k" for gs
    using that
  proof (induction order arbitrary: gs)
    case Nil
    then show ?case
      by (auto intro: nth_equalityI)
  next
    case (Cons i order)
    show ?case
    proof (cases "sigma i")
      case None
      then show ?thesis
        using Cons by simp
    next
      case (Some w)
      have "w < k"
        using assms Some .
      have "map (\<lambda>v. gs[w := gs ! w @ [i]] ! v @ filter (\<lambda>i. sigma i = Some v) order) [0..<k] =
          map (\<lambda>v. gs ! v @ filter (\<lambda>i. sigma i = Some v) (i # order)) [0..<k]"
        using Some Cons.prems by (intro nth_equalityI) (auto simp: nth_list_update)
      then show ?thesis
        using Some \<open>w < k\<close> Cons.IH [of "gs[w := gs ! w @ [i]]"] Cons.prems by simp
    qed
  qed
  from this [of "replicate k []"] have "group_agents sigma order k =
      Some (map (\<lambda>w. replicate k [] ! w @ filter (\<lambda>i. sigma i = Some w) order) [0..<k])"
    by (simp only: group_agents_def length_replicate)
  moreover have "map (\<lambda>w. replicate k [] ! w @ filter (\<lambda>i. sigma i = Some w) order) [0..<k] =
      map (\<lambda>w. filter (\<lambda>i. sigma i = Some w) order) [0..<k]"
    by (intro nth_equalityI) simp_all
  ultimately show ?thesis
    by simp
qed

lemma overrides_cut:
  assumes "core_inv n"
  shows "border_overrides (entries_of sigma w (cuts n sigma)) (i, p) = Some b \<longleftrightarrow>
    sigma i = Some w \<and> cut_end n sigma b (i, p)"
proof -
  have mem: "((i, p), b) \<in> set (map (\<lambda>(i, p, b). ((i, p), b)) (entries_of sigma w (cuts n sigma))) \<longleftrightarrow>
      sigma i = Some w \<and> cut_end n sigma b (i, p)" for b
    by (force simp: image_iff in_entries_of [symmetric])
  show ?thesis
    unfolding border_overrides_def mem [symmetric]
    by (rule collect_map_iff) (use mem cut_end_unique [OF assms] in metis)
qed

lemma index_cut:
  assumes "core_inv n"
  shows "index_of_entries (entries_of sigma w (cuts n sigma)) b = Some x \<longleftrightarrow>
    (\<exists>i p. x = AgentPort i p \<and> sigma i = Some w \<and> cut_end n sigma b (i, p))"
proof -
  have mem: "(b, x) \<in> set (map (\<lambda>(i, p, b). (b, AgentPort i p)) (entries_of sigma w (cuts n sigma))) \<longleftrightarrow>
      (\<exists>i p. x = AgentPort i p \<and> sigma i = Some w \<and> cut_end n sigma b (i, p))" for x
    by (force simp: image_iff in_entries_of [symmetric])
  show ?thesis
    unfolding index_of_entries_def mem [symmetric]
  proof (rule collect_map_iff)
    show "x = y" if xy: "(b, x) \<in> set (map (\<lambda>(i, p, b). (b, AgentPort i p)) (entries_of sigma w (cuts n sigma)))"
        "(b, y) \<in> set (map (\<lambda>(i, p, b). (b, AgentPort i p)) (entries_of sigma w (cuts n sigma)))" for x y
    proof -
      obtain i p where x: "x = AgentPort i p" "sigma i = Some w" "cut_end n sigma b (i, p)"
        using xy(1) [unfolded mem] by blast
      obtain j q where y: "y = AgentPort j q" "sigma j = Some w" "cut_end n sigma b (j, q)"
        using xy(2) [unfolded mem] by blast
      show ?thesis
        using x y cut_end_same(2) [OF assms x(3) y(3)] by auto
    qed
  qed
qed

lemma coveredD:
  assumes "covered n sigma k"
  shows "sigma i = Some w \<Longrightarrow> live n i" "sigma i = Some w \<Longrightarrow> w < k" "live n i \<Longrightarrow> \<exists>w. sigma i = Some w"
proof -
  have iff: "sigma i = None \<longleftrightarrow> \<not> live n i" and less: "\<And>w. sigma i = Some w \<Longrightarrow> w < k"
    using assms by (simp_all add: covered_def)
  show "sigma i = Some w \<Longrightarrow> live n i" "live n i \<Longrightarrow> \<exists>w. sigma i = Some w"
    using iff by (cases "sigma i"; simp)+
  show "sigma i = Some w \<Longrightarrow> w < k"
    using less .
qed

lemma split_sub_ctx:
  assumes "core_inv n" "covered n sigma k" "enumerates order sigma"
  shows "sub_ctx n (filter (\<lambda>i. sigma i = Some w) order) sigma (entries_of sigma w (cuts n sigma)) w"
  unfolding sub_ctx_def
proof (intro conjI)
  show "set (filter (\<lambda>i. sigma i = Some w) order) = {i. sigma i = Some w}"
    using assms(3) by (auto simp: enumerates_def)
  show "\<forall>i \<in> set (filter (\<lambda>i. sigma i = Some w) order). live n i"
    using coveredD(1) [OF assms(2)] by auto
  show "\<forall>i p b. border_overrides (entries_of sigma w (cuts n sigma)) (i, p) = Some b \<longrightarrow> valid_port n i p"
    unfolding overrides_cut [OF assms(1)] using cut_end_tgt [OF assms(1)] by metis
qed (use assms in \<open>auto simp: enumerates_def\<close>)

text \<open>The wiring of a sub-net: wires within the worker stay, wires to other workers end in a border.\<close>

abbreviation worker_overrides :: "net \<Rightarrow> (agent_id \<rightharpoonup> worker_id) \<Rightarrow> worker_id \<Rightarrow> (agent_id \<times> port_id \<rightharpoonup> nat)" where
  "worker_overrides n sigma w \<equiv> border_overrides (entries_of sigma w (cuts n sigma))"

lemma sub_tgt_cases:
  assumes inv: "core_inv n" and own: "sigma i = Some w" and p: "p < 3"
  obtains (border) b where "sub_tgt n (worker_overrides n sigma w) i p = FreePort b" "cut_end n sigma b (i, p)"
  | (inner) "sub_tgt n (worker_overrides n sigma w) i p = tgt n i p" "\<And>b. \<not> cut_end n sigma b (i, p)"
    "\<And>j q. tgt n i p = AgentPort j q \<Longrightarrow> sigma j = Some w"
proof (cases "worker_overrides n sigma w (i, p)")
  case None
  have no: "\<not> cut_end n sigma b (i, p)" for b
    using None overrides_cut [OF inv, of sigma w i p b] own by simp
  have "sigma j = Some w" if "tgt n i p = AgentPort j q" for j q
    using cut_end_exists [OF inv p that, of sigma] no own by metis
  then show thesis
    using inner None no by (simp add: sub_tgt_def)
next
  case (Some b)
  then show thesis
    using border [of b] overrides_cut [OF inv, of sigma w i p b] by (simp add: sub_tgt_def)
qed

lemma sub_tgt_inner:
  assumes "core_inv n" "\<And>b. \<not> cut_end n sigma b (i, p)"
  shows "sub_tgt n (worker_overrides n sigma w) i p = tgt n i p"
proof -
  have "worker_overrides n sigma w (i, p) = None"
    using assms(2) overrides_cut [OF assms(1), of sigma w i p] by (metis option.exhaust)
  then show ?thesis
    by (simp add: sub_tgt_def)
qed

lemma sub_view_sym: "sub_view n sigma ov w m \<Longrightarrow> sym_at m i = (if sigma i = Some w then sym_at n i else None)"
  by (simp add: sub_view_def sym_at_def)

lemma sub_view_tgt:
  "sub_view n sigma ov w m \<Longrightarrow> p < 3 \<Longrightarrow> tgt m i p = (if sigma i = Some w then sub_tgt n ov i p else DISCONNECTED)"
  by (simp add: sub_view_def)

lemma sub_view_symmetric:
  assumes inv: "core_inv n" and view: "sub_view n sigma (worker_overrides n sigma w) w m"
  shows "symmetric_wires m"
  unfolding symmetric_wires_def
proof (intro allI impI)
  fix i p j q
  assume p: "p < 3" and t: "tgt m i p = AgentPort j q"
  have own: "sigma i = Some w"
    using sub_view_tgt [OF view p, of i] t by (auto split: if_splits)
  have st: "sub_tgt n (worker_overrides n sigma w) i p = AgentPort j q"
    using sub_view_tgt [OF view p, of i] t own by simp
  have inner: "tgt n i p = AgentPort j q \<and> sigma j = Some w"
    using inv own p
  proof (cases rule: sub_tgt_cases)
    case inner
    then show ?thesis
      using st by metis
  qed (use st in simp)
  then have inner: "tgt n i p = AgentPort j q" "sigma j = Some w"
    by simp_all
  note far = symmetric_wiresD [OF core_invD(3) [OF inv] p inner(1)]
  have "\<not> cut_end n sigma b (j, q)" for b
  proof
    assume "cut_end n sigma b (j, q)"
    then obtain k r where "tgt n j q = AgentPort k r" "sigma j \<noteq> sigma k"
      using cut_end_tgt [OF inv] by metis
    then show False
      using far(2) own inner(2) by simp
  qed
  then have "sub_tgt n (worker_overrides n sigma w) j q = tgt n j q"
    by (rule sub_tgt_inner [OF inv])
  then show "q < 3 \<and> tgt m j q = AgentPort i p \<and> (i, p) \<noteq> (j, q)"
    using far inner(2) sub_view_tgt [OF view far(1), of j] by simp
qed

lemma sub_view_core:
  assumes inv: "core_inv n" and view: "sub_view n sigma (worker_overrides n sigma w) w m"
    and len: "length (agents m) \<le> next_id m" and top: "next_id m \<le> u32_MAX"
  shows "core_inv m"
proof -
  note V = view [unfolded sub_view_def]
  have "slots_ok m"
    using V core_invD(1) [OF inv] by (auto simp: slots_ok_def split: if_splits)
  moreover have "ports_clean m"
    unfolding ports_clean_def
  proof (intro allI impI)
    fix i p :: nat
    assume p: "p < 3" and bad: "\<not> valid_port m i p"
    show "tgt m i p = DISCONNECTED"
    proof (cases "sigma i = Some w")
      case own: True
      then have "\<not> valid_port n i p"
        using bad sub_view_sym [OF view, of i] by (simp add: valid_port_def)
      moreover have "\<not> cut_end n sigma b (i, p)" for b
        using calculation cut_end_tgt [OF inv] by metis
      ultimately have "sub_tgt n (worker_overrides n sigma w) i p = DISCONNECTED"
        using sub_tgt_inner [OF inv, of sigma i p w] core_invD(2) [OF inv] p by (simp add: ports_clean_def)
      then show ?thesis
        using sub_view_tgt [OF view p, of i] own by simp
    qed (use sub_view_tgt [OF view p, of i] in simp)
  qed
  moreover have "ids_below m"
    using len top live_length [of m] by (auto simp: ids_below_def intro: less_le_trans)
  moreover have "free_list_ok m"
    using V len by (auto simp: free_list_ok_def sym_at_def)
  ultimately show ?thesis
    using sub_view_symmetric [OF inv view] by (simp add: core_inv_def)
qed

text \<open>Everything a split promises about the partition of worker \<open>w\<close>.\<close>

definition part_spec :: "partition_config \<Rightarrow> net \<Rightarrow> (agent_id \<rightharpoonup> worker_id) \<Rightarrow> nat \<Rightarrow> worker_id \<Rightarrow> partition \<Rightarrow> bool" where
  "part_spec cfg n sigma k w p \<longleftrightarrow>
     core_inv (p_subnet p) \<and> sub_view n sigma (worker_overrides n sigma w) w (p_subnet p) \<and>
     root (p_subnet p) = propagate_root n sigma w \<and> p_worker_id p = w \<and>
     p_free_port_index p = index_of_entries (entries_of sigma w (cuts n sigma)) \<and>
     p_id_range p = id_range_of k (next_id n) w \<and> next_id (p_subnet p) = ir_start (p_id_range p) \<and>
     id_range (p_subnet p) = Some (ir_start (p_id_range p), ir_end (p_id_range p)) \<and>
     p_border_id_start p = border_start n \<and> p_border_id_end p = border_start n + length (cuts n sigma) \<and>
     recycle_policy (p_subnet p) = pc_recycle_policy cfg"

text \<open>The conditions under which a split succeeds.\<close>

definition split_ready :: "net \<Rightarrow> (agent_id \<rightharpoonup> worker_id) \<Rightarrow> agent_id list \<Rightarrow> nat \<Rightarrow> bool" where
  "split_ready n sigma order k \<longleftrightarrow>
     enumerates order sigma \<and> border_space_ok n sigma \<and> id_space_ok k (next_id n) \<and>
     (\<forall>w < k. arena_fits (filter (\<lambda>i. sigma i = Some w) order))"

lemma build_partition_spec:
  assumes inv: "core_inv n" and cov: "covered n sigma k" and ready: "split_ready n sigma order k"
    and w: "w < k" and cfg: "pc_sparse_build cfg"
  defines "groups \<equiv> map (\<lambda>w. filter (\<lambda>i. sigma i = Some w) order) [0..<k]"
    and "wc \<equiv> \<lparr>wc_borders = border_map n sigma,
          wc_border_entries = map (\<lambda>w. entries_of sigma w (cuts n sigma)) [0..<k],
          wc_border_id_end = border_start n + length (cuts n sigma), wc_border_id_start = border_start n\<rparr>"
  shows "\<exists>p. build_partition cfg n sigma groups wc (map (id_range_of k (next_id n)) [0..<k]) w = Some p \<and>
    part_spec cfg n sigma k w p"
proof -
  let ?is = "filter (\<lambda>i. sigma i = Some w) order" and ?r = "id_range_of k (next_id n) w"
  let ?es = "entries_of sigma w (cuts n sigma)"
  have at: "wc_border_entries wc ! w = ?es" "groups ! w = ?is" "map (id_range_of k (next_id n)) [0..<k] ! w = ?r"
      "wc_border_id_start wc = border_start n" "wc_border_id_end wc = border_start n + length (cuts n sigma)"
    using w by (simp_all add: wc_def groups_def)
  note R = ready [unfolded split_ready_def]
  note ctx = split_sub_ctx [OF inv cov, of order w]
  note bounds = id_range_of_bounds [of k "next_id n" w]
  have le: "ir_start ?r \<le> ir_end ?r" "ir_start ?r \<le> u32_MAX" "next_id n \<le> ir_start ?r"
    using bounds R w by (auto intro: less_imp_le order_trans)
  obtain m where m: "build_subnet_with_config cfg w n ?is sigma ?es w (ir_start ?r, ir_end ?r) = Some (Inr m)"
      "sub_view n sigma (worker_overrides n sigma w) w m" "next_id m = ir_start ?r" "root m = None"
      "length (agents m) = (if ?is = [] then 0 else fold max ?is 0 + 1)"
      "id_range m = Some (ir_start ?r, ir_end ?r)" "recycle_policy m = pc_recycle_policy cfg"
    using build_subnet_with_config_view [OF ctx, of "(ir_start ?r, ir_end ?r)" cfg w] R w le cfg by auto
  have small: "(if ?is = [] then 0 else fold max ?is 0 + 1) \<le> next_id n"
  proof (cases "?is = []")
    case False
    have "i < next_id n" if "i \<in> set ?is" for i
      using that sub_ctxD(3,4) [OF ctx] R core_invD(4) [OF inv] by (auto simp: ids_below_def)
    moreover have "fold max ?is 0 \<in> set ?is \<or> fold max ?is 0 = 0"
      using fold_max_mem [of ?is 0] by auto
    moreover have "0 < next_id n"
      using False calculation(1) by (metis gr_implies_not_zero list.set_intros(1) neq_Nil_conv not_gr_zero)
    ultimately have "fold max ?is 0 < next_id n"
      by metis
    then show ?thesis
      by simp
  qed simp
  let ?m = "m\<lparr>next_id := max (next_id m) (if ?is = [] then 0 else fold max ?is 0 + 1), root := propagate_root n sigma w\<rparr>"
  have nxt: "next_id ?m = ir_start ?r"
    using small le(3) m(3) by (simp only: net.select_convs net.update_convs net.surjective) (simp add: max_def)
  have view: "sub_view n sigma (worker_overrides n sigma w) w ?m"
    using m(2) by (subst sub_view_cong [where m' = m]) simp_all
  have "core_inv ?m"
  proof (rule sub_view_core [OF inv view])
    show "length (agents ?m) \<le> next_id ?m"
      unfolding nxt using m(5) small le(3) by simp
    show "next_id ?m \<le> u32_MAX"
      unfolding nxt using le(2) .
  qed
  then have "part_spec cfg n sigma k w \<lparr>p_subnet = ?m, p_worker_id = w, p_free_port_index = index_of_entries ?es,
      p_id_range = ?r, p_border_id_start = border_start n, p_border_id_end = border_start n + length (cuts n sigma)\<rparr>"
    unfolding part_spec_def using view nxt m(6,7) by simp
  then show ?thesis
    using m(1) unfolding build_partition_def at Let_def by simp
qed

lemma those_map:
  "(\<And>x. x \<in> set xs \<Longrightarrow> \<exists>y. f x = Some y \<and> P x y) \<Longrightarrow> \<exists>ys. those (map f xs) = Some ys \<and> list_all2 P xs ys"
proof (induction xs)
  case (Cons x xs)
  obtain y where y: "f x = Some y" "P x y"
    using Cons.prems [of x] by auto
  obtain ys where ys: "those (map f xs) = Some ys" "list_all2 P xs ys"
    using Cons.IH Cons.prems by auto
  then show ?case
    using y by auto
qed simp

lemma strategy_covered:
  assumes "partition_strategy allocate" "allocate n k = Some sigma"
  shows "covered n sigma k"
  using partition_strategy.covers [OF assms] partition_strategy.in_range [OF assms] by (simp add: covered_def)

lemma split_spec:
  assumes strat: "partition_strategy allocate" and inv: "core_inv n" and k: "1 < k"
    and alloc: "allocate n k = Some sigma" and ready: "split_ready n sigma (order sigma) k" and cfg: "pc_sparse_build cfg"
  obtains plan where "split_with_config allocate order cfg n k = Some plan" "pl_borders plan = border_map n sigma"
    "pl_next_border_id plan = border_start n + length (cuts n sigma)" "length (pl_partitions plan) = k"
    "\<And>w. w < k \<Longrightarrow> part_spec cfg n sigma k w (pl_partitions plan ! w)"
proof -
  have cov: "covered n sigma k"
    using strategy_covered [OF strat alloc] .
  have room: "border_space_ok n sigma"
    using ready by (simp add: split_ready_def)
  let ?groups = "map (\<lambda>w. filter (\<lambda>i. sigma i = Some w) (order sigma)) [0..<k]"
  let ?wc = "\<lparr>wc_borders = border_map n sigma,
          wc_border_entries = map (\<lambda>w. entries_of sigma w (cuts n sigma)) [0..<k],
          wc_border_id_end = border_start n + length (cuts n sigma), wc_border_id_start = border_start n\<rparr>"
  let ?build = "build_partition cfg n sigma ?groups ?wc (map (id_range_of k (next_id n)) [0..<k])"
  have "\<exists>p. ?build w = Some p \<and> part_spec cfg n sigma k w p" if "w \<in> set [0..<k]" for w
    using that by (intro build_partition_spec [OF inv cov ready _ cfg]) simp
  then obtain parts where parts: "those (map ?build [0..<k]) = Some parts" "list_all2 (part_spec cfg n sigma k) [0..<k] parts"
    using those_map [of "[0..<k]" ?build "part_spec cfg n sigma k"] by blast
  have len: "length parts = k"
    using list_all2_lengthD [OF parts(2)] by simp
  have specs: "\<forall>w < k. part_spec cfg n sigma k w (parts ! w)"
    using list_all2_nthD [OF parts(2)] by simp
  have "split_with_config allocate order cfg n k =
      Some \<lparr>pl_partitions = parts, pl_borders = border_map n sigma,
            pl_next_border_id = border_start n + length (cuts n sigma)\<rparr>"
    unfolding split_with_config_def
    using k alloc group_agents_Some [of sigma k "order sigma"] coveredD(2) [OF cov]
      classify_wires_closed [OF inv cov room] parts(1)
    by (simp add: compute_id_ranges_def del: upt_Suc)
  then show thesis
    using that len specs by simp
qed

lemma part_specD:
  assumes "part_spec cfg n sigma k w p"
  shows "core_inv (p_subnet p)" "sub_view n sigma (worker_overrides n sigma w) w (p_subnet p)"
    "root (p_subnet p) = propagate_root n sigma w" "p_worker_id p = w"
    "p_free_port_index p = index_of_entries (entries_of sigma w (cuts n sigma))"
    "p_id_range p = id_range_of k (next_id n) w" "next_id (p_subnet p) = ir_start (p_id_range p)"
    "p_border_id_start p = border_start n" "p_border_id_end p = border_start n + length (cuts n sigma)"
  using assms unfolding part_spec_def by simp_all

lemma part_sym: "part_spec cfg n sigma k w p \<Longrightarrow> sym_at (p_subnet p) i = (if sigma i = Some w then sym_at n i else None)"
  using sub_view_sym part_specD(2) by blast

text \<open>The wiring of a partition, in terms of the original net and the border map.\<close>

lemma part_wires:
  assumes inv: "core_inv n" and part: "part_spec cfg n sigma k w p" and room: "border_space_ok n sigma"
    and own: "sigma i = Some w" and q: "q < 3"
  shows "case tgt n i q of
      AgentPort j r \<Rightarrow>
        if sigma j = Some w then tgt (p_subnet p) i q = AgentPort j r
        else (\<exists>b. tgt (p_subnet p) i q = FreePort b \<and> b \<noteq> u32_MAX \<and>
               (border_map n sigma b = Some (AgentPort i q, AgentPort j r) \<or>
                border_map n sigma b = Some (AgentPort j r, AgentPort i q)))
    | FreePort f \<Rightarrow> tgt (p_subnet p) i q = FreePort f"
proof -
  have t: "tgt (p_subnet p) i q = sub_tgt n (worker_overrides n sigma w) i q"
    using sub_view_tgt [OF part_specD(2) [OF part] q] own by simp
  show ?thesis
    using inv own q
  proof (cases rule: sub_tgt_cases)
    case (border b)
    obtain j r where jr: "tgt n i q = AgentPort j r" "sigma i \<noteq> sigma j"
        "(b, (i, q), (j, r)) \<in> set (cuts n sigma) \<or> (b, (j, r), (i, q)) \<in> set (cuts n sigma)"
      using cut_end_tgt [OF inv border(2)] by metis
    have "border_map n sigma b = Some (AgentPort i q, AgentPort j r) \<or>
        border_map n sigma b = Some (AgentPort j r, AgentPort i q)"
      using jr(3) unfolding border_map_Some agent_port_of_def by force
    moreover have "b \<noteq> u32_MAX"
      using cut_end_bounds [OF border(2)] room by (simp add: border_space_ok_def length_cuts)
    ultimately show ?thesis
      using jr(1,2) own border(1) t by auto
  next
    case inner
    then show ?thesis
      using t by (auto split: port_ref.split)
  qed
qed

text \<open>
  A split is faithful (C26), for every strategy that keeps its contract: the plan has one well-formed
  sub-net per worker, each with exactly the agents of its worker; a wire within a worker and a wire to
  the outside stay as they are, and a wire between workers becomes a free port whose entry in the
  border map names the two original ends.
\<close>

theorem split_correct:
  assumes "partition_strategy allocate" "core_inv n" "1 < k" "allocate n k = Some sigma"
    and "split_ready n sigma (order sigma) k" "pc_sparse_build cfg"
  shows "\<exists>plan. split_with_config allocate order cfg n k = Some plan \<and> length (pl_partitions plan) = k \<and>
    (\<forall>w < k. core_inv (p_subnet (pl_partitions plan ! w)) \<and>
       (\<forall>i. sym_at (p_subnet (pl_partitions plan ! w)) i = (if sigma i = Some w then sym_at n i else None)) \<and>
       (\<forall>i q. sigma i = Some w \<longrightarrow> q < 3 \<longrightarrow>
          (case tgt n i q of
             AgentPort j r \<Rightarrow>
               if sigma j = Some w then tgt (p_subnet (pl_partitions plan ! w)) i q = AgentPort j r
               else (\<exists>b. tgt (p_subnet (pl_partitions plan ! w)) i q = FreePort b \<and> b \<noteq> u32_MAX \<and>
                      (pl_borders plan b = Some (AgentPort i q, AgentPort j r) \<or>
                       pl_borders plan b = Some (AgentPort j r, AgentPort i q)))
           | FreePort f \<Rightarrow> tgt (p_subnet (pl_partitions plan ! w)) i q = FreePort f)))"
proof -
  obtain plan where plan: "split_with_config allocate order cfg n k = Some plan" "pl_borders plan = border_map n sigma"
      "length (pl_partitions plan) = k" "\<And>w. w < k \<Longrightarrow> part_spec cfg n sigma k w (pl_partitions plan ! w)"
    using split_spec [where order = order, OF assms] by metis
  have room: "border_space_ok n sigma"
    using assms(5) by (simp add: split_ready_def)
  show ?thesis
  proof (rule exI [of _ plan], intro conjI allI impI)
    fix w i q :: nat
    assume w: "w < k" and own: "sigma i = Some w" and q: "q < 3"
    show "case tgt n i q of
             AgentPort j r \<Rightarrow>
               if sigma j = Some w then tgt (p_subnet (pl_partitions plan ! w)) i q = AgentPort j r
               else (\<exists>b. tgt (p_subnet (pl_partitions plan ! w)) i q = FreePort b \<and> b \<noteq> u32_MAX \<and>
                      (pl_borders plan b = Some (AgentPort i q, AgentPort j r) \<or>
                       pl_borders plan b = Some (AgentPort j r, AgentPort i q)))
           | FreePort f \<Rightarrow> tgt (p_subnet (pl_partitions plan ! w)) i q = FreePort f"
      unfolding plan(2) by (rule part_wires [OF assms(2) plan(4) [OF w] room own q])
  next
    fix w i :: nat
    assume "w < k"
    then show "core_inv (p_subnet (pl_partitions plan ! w))"
        "sym_at (p_subnet (pl_partitions plan ! w)) i = (if sigma i = Some w then sym_at n i else None)"
      using part_specD(1) [OF plan(4)] part_sym [OF plan(4)] by blast+
  qed (use plan in simp_all)
qed

section \<open>A concrete split\<close>

text \<open>The two agents of an active pair go to different workers.\<close>

abbreviation pair_sigma :: "agent_id \<rightharpoonup> worker_id" where
  "pair_sigma \<equiv> [0 \<mapsto> 0, 1 \<mapsto> 1]"

lemma pair_allocate: "contiguous_allocate (pair_net Con Dup) 2 = Some pair_sigma"
  by (simp add: contiguous_allocate_def live_ids_def pair_net_def assign_chunks_def div_ceil_def Let_def
      List.enumerate_simps upt_rec eval_nat_numeral)

lemma pair_cuts:
  "border_start (pair_net Con Dup) = 4" "cut_list (pair_net Con Dup) pair_sigma (scan_ports (pair_net Con Dup)) = [((0, 0), (1, 0))]"
proof -
  show "border_start (pair_net Con Dup) = 4"
    by (simp add: border_start_def max_freeport_id_def max_freeport_step_def pair_net_def DISCONNECTED_def)
  have "scan_ports (pair_net Con Dup) = [(0, 0), (0, 1), (0, 2), (1, 0), (1, 1), (1, 2)]"
    by (simp add: scan_ports_def pair_net_def upt_rec)
  then show "cut_list (pair_net Con Dup) pair_sigma (scan_ports (pair_net Con Dup)) = [((0, 0), (1, 0))]"
    by (simp add: cut_at_def pair_net_def tgt_def get_target_def port_index_def PORTS_PER_SLOT_def)
qed

lemma pair_split_ready: "split_ready (pair_net Con Dup) pair_sigma [0, 1] 2"
proof -
  have "w = 0 \<or> w = 1" if "w < 2" for w :: nat
    using that by auto
  then show ?thesis
    using pair_cuts
    by (auto simp: split_ready_def enumerates_def border_space_ok_def id_space_ok_def id_chunk_def arena_fits_def
        MAX_DENSE_ARENA_SLOTS_def)
qed

lemma default_config [simp]: "pc_sparse_build partition_config_default"
  by (simp add: partition_config_default_def)

theorem split_correct_witness:
  "\<exists>plan. split_with_config contiguous_allocate (\<lambda>_. [0, 1]) partition_config_default (pair_net Con Dup) 2 = Some plan \<and>
     length (pl_partitions plan) = 2 \<and>
     (\<exists>b. tgt (p_subnet (pl_partitions plan ! 0)) 0 0 = FreePort b \<and> b \<noteq> u32_MAX)"
proof -
  have t: "tgt (pair_net Con Dup) 0 0 = AgentPort 1 0"
    by (simp add: pair_net_def tgt_def get_target_def port_index_def PORTS_PER_SLOT_def)
  have strat: "partition_strategy contiguous_allocate"
    by unfold_locales
  obtain plan where plan: "split_with_config contiguous_allocate (\<lambda>_. [0, 1]) partition_config_default (pair_net Con Dup) 2 = Some plan"
      "length (pl_partitions plan) = 2"
      "case tgt (pair_net Con Dup) 0 0 of
             AgentPort j r \<Rightarrow>
               if pair_sigma j = Some 0 then tgt (p_subnet (pl_partitions plan ! 0)) 0 0 = AgentPort j r
               else (\<exists>b. tgt (p_subnet (pl_partitions plan ! 0)) 0 0 = FreePort b \<and> b \<noteq> u32_MAX \<and>
                      (pl_borders plan b = Some (AgentPort 0 0, AgentPort j r) \<or>
                       pl_borders plan b = Some (AgentPort j r, AgentPort 0 0)))
           | FreePort f \<Rightarrow> tgt (p_subnet (pl_partitions plan ! 0)) 0 0 = FreePort f"
    using split_correct [where order = "\<lambda>_. [0, 1]", OF strat pair_net_core _ pair_allocate, of partition_config_default]
      pair_split_ready by fastforce
  then show ?thesis
    using t by auto
qed

section \<open>The checks of debug builds\<close>

lemma map_index:
  assumes "length xs = k" "\<And>w. w < k \<Longrightarrow> f (xs ! w) = w"
  shows "map f (filter P xs) = filter (\<lambda>w. P (xs ! w)) [0..<k]"
proof -
  have "xs = map ((!) xs) [0..<k]"
    using assms(1) by (auto intro: nth_equalityI)
  then have "map f (filter P xs) = map f (filter P (map ((!) xs) [0..<k]))"
    by simp
  also have "\<dots> = map (\<lambda>w. f (xs ! w)) (filter (\<lambda>w. P (xs ! w)) [0..<k])"
    by (simp add: filter_map comp_def)
  also have "\<dots> = map (\<lambda>w. w) (filter (\<lambda>w. P (xs ! w)) [0..<k])"
    using assms(2) by (intro map_cong) auto
  finally show ?thesis
    by simp
qed

lemma two_elements: "distinct xs \<Longrightarrow> set xs = {a, b} \<Longrightarrow> a \<noteq> b \<Longrightarrow> length xs = 2 \<and> xs ! 0 \<noteq> xs ! 1"
proof -
  assume *: "distinct xs" "set xs = {a, b}" "a \<noteq> b"
  then have "length xs = 2"
    using distinct_card [of xs] by simp
  then show "length xs = 2 \<and> xs ! 0 \<noteq> xs ! 1"
    using *(1) nth_eq_iff_index_eq [of xs 0 1] by auto
qed

lemma part_index:
  assumes "core_inv n" "part_spec cfg n sigma k w p"
  shows "p_free_port_index p b = Some x \<longleftrightarrow> (\<exists>i q. x = AgentPort i q \<and> sigma i = Some w \<and> cut_end n sigma b (i, q))"
  by (simp add: part_specD(5) [OF assms(2)] index_cut [OF assms(1)])

lemma border_two_workers:
  assumes inv: "core_inv n" and b: "b \<in> dom (border_map n sigma)" and cov: "covered n sigma k"
  obtains v w where "v < k" "w < k" "v \<noteq> w" "{u. u < k \<and> (\<exists>i q. sigma i = Some u \<and> cut_end n sigma b (i, q))} = {v, w}"
proof -
  obtain x where "cut_end n sigma b x"
    using b by (auto simp: in_dom_border_map)
  then obtain i p j q where ends: "cut_end n sigma b (i, p)" "cut_end n sigma b (j, q)" "sigma i \<noteq> sigma j"
      "valid_port n i p" "valid_port n j q"
    using cut_end_tgt [OF inv] by (metis surj_pair)
  obtain v w where vw: "sigma i = Some v" "sigma j = Some w"
    using coveredD(3) [OF cov] ends(4,5) valid_port_live by meson
  have "(i, p) \<noteq> (j, q)"
    using ends(3) by auto
  then have far: "tgt n i p = AgentPort j q"
    by (rule cut_end_same(1) [OF inv ends(1,2)])
  have "u = v \<or> u = w" if "sigma l = Some u" "cut_end n sigma b (l, r)" for u l r
  proof (cases "(i, p) = (l, r)")
    case False
    then show ?thesis
      using cut_end_same(1) [OF inv ends(1) that(2)] far that(1) vw by simp
  qed (use that(1) vw in simp)
  then have "{u. u < k \<and> (\<exists>i q. sigma i = Some u \<and> cut_end n sigma b (i, q))} = {v, w}"
    using vw ends(1,2) coveredD(2) [OF cov] by blast
  moreover have "v < k" "w < k" "v \<noteq> w"
    using vw ends(3) coveredD(2) [OF cov] by auto
  ultimately show thesis
    using that by blast
qed

text \<open>A border is in the index of exactly two partitions.\<close>

lemma border_in_two:
  assumes inv: "core_inv n" and cov: "covered n sigma k" and len: "length parts = k"
    and spec: "\<And>w. w < k \<Longrightarrow> part_spec cfg n sigma k w (parts ! w)" and b: "b \<in> dom (border_map n sigma)"
  shows "length (map p_worker_id (filter (\<lambda>p. p_free_port_index p b \<noteq> None) parts)) = 2 \<and>
      map p_worker_id (filter (\<lambda>p. p_free_port_index p b \<noteq> None) parts) ! 0 \<noteq>
      map p_worker_id (filter (\<lambda>p. p_free_port_index p b \<noteq> None) parts) ! 1"
proof -
  obtain v w where vw: "v < k" "w < k" "v \<noteq> w"
      "{u. u < k \<and> (\<exists>i q. sigma i = Some u \<and> cut_end n sigma b (i, q))} = {v, w}"
    using border_two_workers [OF inv b cov] .
  have found: "map p_worker_id (filter (\<lambda>p. p_free_port_index p b \<noteq> None) parts) =
      filter (\<lambda>u. p_free_port_index (parts ! u) b \<noteq> None) [0..<k]"
    using len part_specD(4) [OF spec] by (rule map_index)
  have has: "p_free_port_index (parts ! u) b \<noteq> None \<longleftrightarrow> (\<exists>i q. sigma i = Some u \<and> cut_end n sigma b (i, q))"
    if "u < k" for u
    using part_index [OF inv spec [OF that], of b] by (metis not_None_eq)
  have "set (filter (\<lambda>u. p_free_port_index (parts ! u) b \<noteq> None) [0..<k]) = {v, w}"
    unfolding vw(4) [symmetric] set_filter atLeastLessThan_upt [symmetric] using has
    by (intro Collect_cong conj_cong) simp_all
  then show ?thesis
    unfolding found using vw(3) by (intro two_elements) auto
qed

lemma distinct_concat_map:
  assumes "distinct ws" "\<And>w. w \<in> set ws \<Longrightarrow> distinct (f w)"
    and "\<And>v w. v \<in> set ws \<Longrightarrow> w \<in> set ws \<Longrightarrow> v \<noteq> w \<Longrightarrow> set (f v) \<inter> set (f w) = {}"
  shows "distinct (concat (map f ws))"
  using assms
proof (induction ws)
  case (Cons w ws)
  have "set (f w) \<inter> set (f v) = {}" if "v \<in> set ws" for v
    using Cons.prems(1,3) that by auto
  then have "set (f w) \<inter> set (concat (map f ws)) = {}"
    by auto
  then show ?case
    using Cons by simp
qed simp

lemma length_live_ids: "length (live_ids n) = count_live_agents n"
proof -
  have "agents n = map ((!) (agents n)) [0..<length (agents n)]"
    by (auto intro: nth_equalityI)
  then have "count_live_agents n = length (filter (\<lambda>slot. slot \<noteq> None) (map ((!) (agents n)) [0..<length (agents n)]))"
    by (simp add: count_live_agents_def)
  then show ?thesis
    by (simp add: live_ids_def filter_map comp_def)
qed

text \<open>
  The checks that debug builds run after a split never fail: every agent of the net is in
  exactly one partition, and every border identifier is in the index of exactly two different
  partitions.
\<close>

lemma split_checks:
  assumes "partition_strategy allocate" "core_inv n" "1 < k" "allocate n k = Some sigma"
    and "split_ready n sigma (order sigma) k" "pc_sparse_build cfg"
  shows "\<exists>plan. split_with_config allocate order cfg n k = Some plan \<and>
    assert_c1_coverage n (pl_partitions plan) \<and>
    (\<forall>keys. set keys = dom (pl_borders plan) \<longrightarrow> assert_c3_border_consistency (pl_partitions plan) keys)"
proof -
  note cov = strategy_covered [OF assms(1,4)]
  obtain plan where plan: "split_with_config allocate order cfg n k = Some plan" "pl_borders plan = border_map n sigma"
      "length (pl_partitions plan) = k" "\<And>w. w < k \<Longrightarrow> part_spec cfg n sigma k w (pl_partitions plan ! w)"
    using split_spec [where order = order, OF assms] by metis
  let ?parts = "pl_partitions plan"
  let ?ids = "\<lambda>w. live_ids (p_subnet (?parts ! w))"
  have mem: "i \<in> set (?ids w) \<longleftrightarrow> sigma i = Some w" if "w < k" for i w
    using part_sym [OF plan(4) [OF that], of i] coveredD(1) [OF cov, of i w] by (auto simp: live_ids_iff)
  have parts: "map (\<lambda>p. live_ids (p_subnet p)) ?parts = map ?ids [0..<k]"
    using plan(3) by (auto intro: nth_equalityI)
  have dist: "distinct (concat (map ?ids [0..<k]))"
    using mem by (intro distinct_concat_map) auto
  have "set (concat (map ?ids [0..<k])) = set (live_ids n)"
  proof (intro set_eqI)
    fix i
    have "i \<in> set (concat (map ?ids [0..<k])) \<longleftrightarrow> (\<exists>w < k. i \<in> set (?ids w))"
      by auto
    also have "\<dots> \<longleftrightarrow> (\<exists>w < k. sigma i = Some w)"
      using mem by blast
    also have "\<dots> \<longleftrightarrow> i \<in> set (live_ids n)"
      using coveredD [OF cov, of i] unfolding live_ids_iff by blast
    finally show "i \<in> set (concat (map ?ids [0..<k])) \<longleftrightarrow> i \<in> set (live_ids n)" .
  qed
  then have "length (concat (map ?ids [0..<k])) = count_live_agents n"
    using dist length_live_ids [of n] by (metis distinct_card sort_live_ids(2))
  then have c1: "assert_c1_coverage n ?parts"
    using dist by (simp add: assert_c1_coverage_def parts)
  have "length (map p_worker_id (filter (\<lambda>p. p_free_port_index p b \<noteq> None) ?parts)) = 2 \<and>
      map p_worker_id (filter (\<lambda>p. p_free_port_index p b \<noteq> None) ?parts) ! 0 \<noteq>
      map p_worker_id (filter (\<lambda>p. p_free_port_index p b \<noteq> None) ?parts) ! 1" if b: "b \<in> dom (pl_borders plan)" for b
    using border_in_two [OF assms(2) cov plan(3,4) b [unfolded plan(2)]] .
  then have "assert_c3_border_consistency ?parts keys" if "set keys = dom (pl_borders plan)" for keys
    using that unfolding assert_c3_border_consistency_def list_all_iff Let_def by blast
  then show ?thesis
    using plan(1) c1 by blast
qed

lemma split_checks_witness:
  "\<exists>plan. split_with_config contiguous_allocate (\<lambda>_. [0, 1]) partition_config_default (pair_net Con Dup) 2 = Some plan \<and>
     assert_c1_coverage (pair_net Con Dup) (pl_partitions plan)"
proof -
  have strat: "partition_strategy contiguous_allocate"
    by unfold_locales
  show ?thesis
    using split_checks [where order = "\<lambda>_. [0, 1]", OF strat pair_net_core _ pair_allocate, of partition_config_default]
      pair_split_ready by fastforce
qed

end
