(* ===== verification/Merge_Core.thy ===== *)
theory Merge_Core
  imports Split
begin

text \<open>
  The merge function (\<open>merge/core.rs\<close>): recombining partitions into one net.  \<open>border_order\<close> is the
  iteration order of the border map.  The code that runs only in debug builds (assertions and the
  drain of \<open>protected_tombstones\<close>) is left out.
\<close>

section \<open>The function\<close>

definition is_principal_pair :: "port_ref \<Rightarrow> port_ref \<Rightarrow> bool" where
  "is_principal_pair a b \<longleftrightarrow>
     (case (a, b) of (AgentPort i p, AgentPort j q) \<Rightarrow> p = 0 \<and> q = 0 | _ \<Rightarrow> False)"

text \<open>Copying one port, one slot and one partition into the result.\<close>

definition merge_port :: "(nat \<rightharpoonup> 'b) \<Rightarrow> net \<Rightarrow> agent_id \<Rightarrow> port_id \<Rightarrow> port_ref list \<Rightarrow> port_ref list" where
  "merge_port borders sub i p prts =
     (let target = get_target sub (AgentPort i p)
      in if target = DISCONNECTED then prts
         else case target of
                AgentPort j q \<Rightarrow> prts[port_index i p := target]
              | FreePort f \<Rightarrow>
                  if borders f \<noteq> None then prts[port_index i p := DISCONNECTED] else prts[port_index i p := target])"

definition merge_slot ::
  "(nat \<rightharpoonup> 'b) \<Rightarrow> net \<Rightarrow> agent_id \<Rightarrow> agent option list \<times> port_ref list \<Rightarrow> agent option list \<times> port_ref list" where
  "merge_slot borders sub i st =
     (case agents sub ! i of
        None \<Rightarrow> st
      | Some ag \<Rightarrow>
          ((vec_grow (i + 1) None (fst st))[i := Some ag],
           fold (merge_port borders sub i) [0..<total_ports (a_symbol ag)]
             (vec_grow ((i + 1) * PORTS_PER_SLOT) DISCONNECTED (snd st))))"

definition merge_partition ::
  "(nat \<rightharpoonup> 'b) \<Rightarrow> partition \<Rightarrow> net \<Rightarrow> net" where
  "merge_partition borders p result =
     (let (ags, prts) = fold (merge_slot borders (p_subnet p)) [0..<length (agents (p_subnet p))]
                          (agents result, ports result)
      in result\<lparr>agents := ags, ports := prts,
                root := (if root (p_subnet p) \<noteq> None then root (p_subnet p) else root result)\<rparr>)"

text \<open>The search of one border identifier through the partitions, preferring an agent port.\<close>

fun resolve_border :: "partition list \<Rightarrow> nat \<Rightarrow> port_ref option \<Rightarrow> port_ref option" where
  "resolve_border [] b resolved = resolved"
| "resolve_border (p # ps) b resolved =
     (case p_free_port_index p b of
        Some (AgentPort i q) \<Rightarrow> Some (AgentPort i q)
      | Some (FreePort f) \<Rightarrow> resolve_border ps b (if resolved = None then Some (FreePort f) else resolved)
      | None \<Rightarrow> resolve_border ps b resolved)"

definition MAX_CHAIN_DEPTH :: nat where
  "MAX_CHAIN_DEPTH = 8"

fun resolve_chain :: "nat \<Rightarrow> (nat \<rightharpoonup> 'b) \<Rightarrow> partition list \<Rightarrow> port_ref \<Rightarrow> port_ref" where
  "resolve_chain 0 borders parts current = current"
| "resolve_chain (Suc d) borders parts current =
     (case current of
        AgentPort i p \<Rightarrow> current
      | FreePort b \<Rightarrow>
          if borders b \<noteq> None then
            (case resolve_border parts b None of
               None \<Rightarrow> current
             | Some r \<Rightarrow>
                 if r \<noteq> current then
                   (case r of AgentPort i p \<Rightarrow> r | FreePort f \<Rightarrow> resolve_chain d borders parts r)
                 else current)
          else current)"

definition resolve_freeport_chain :: "(nat \<rightharpoonup> 'b) \<Rightarrow> partition list \<Rightarrow> port_ref \<Rightarrow> port_ref" where
  "resolve_freeport_chain borders parts initial = resolve_chain MAX_CHAIN_DEPTH borders parts initial"

text \<open>The two ports found for a border identifier, in the order of the partitions.\<close>

definition border_ends :: "partition list \<Rightarrow> nat \<Rightarrow> port_ref option \<times> port_ref option" where
  "border_ends parts b =
     fold (\<lambda>p (a, c).
             case p_free_port_index p b of
               None \<Rightarrow> (a, c)
             | Some x \<Rightarrow> if a = None then (Some x, c) else (a, Some x)) parts (None, None)"

definition merge_border :: "(nat \<rightharpoonup> 'b) \<Rightarrow> partition list \<Rightarrow> nat \<Rightarrow> net \<times> nat \<Rightarrow> net \<times> nat" where
  "merge_border borders parts b st =
     (case border_ends parts b of
        (Some x, Some y) \<Rightarrow>
          (let x1 = resolve_freeport_chain borders parts x; y1 = resolve_freeport_chain borders parts y
           in (connect x1 y1 (fst st), if is_principal_pair x1 y1 then snd st + 1 else snd st))
      | _ \<Rightarrow> st)"

definition merge_free_id :: "agent_id \<Rightarrow> net \<Rightarrow> net" where
  "merge_free_id i result =
     (if vec_get (agents result) i = Some None \<and> i \<notin> set (free_list result)
      then result\<lparr>free_list := free_list result @ [i]\<rparr> else result)"

definition merge :: "nat list \<Rightarrow> partition_plan \<Rightarrow> net \<times> nat" where
  "merge border_order plan =
     (let parts = pl_partitions plan; borders = pl_borders plan;
          max_next_id = fold max (map (\<lambda>p. next_id (p_subnet p)) parts) 0;
          max_agents_len = fold max (map (\<lambda>p. length (agents (p_subnet p))) parts) 0;
          r0 = with_capacity max_agents_len;
          r1 = r0\<lparr>next_id := max_next_id, agents := vec_grow max_agents_len None (agents r0),
                  ports := vec_grow (max_agents_len * PORTS_PER_SLOT) DISCONNECTED (ports r0)\<rparr>;
          r2 = fold (merge_partition borders) parts r1;
          (r3, border_redex_count) = fold (merge_border borders parts) border_order (r2, 0);
          r4 = fold merge_free_id (concat (map (\<lambda>p. free_list (p_subnet p)) parts)) r3
      in (r4\<lparr>id_range := None, border_entries_shadow := None\<rparr>, border_redex_count))"

section \<open>Uniting the partitions\<close>

text \<open>The target a port keeps before the borders are restored.\<close>

definition strip :: "(nat \<rightharpoonup> 'b) \<Rightarrow> port_ref \<Rightarrow> port_ref" where
  "strip borders t = (case t of FreePort f \<Rightarrow> if borders f \<noteq> None then DISCONNECTED else t | AgentPort i p \<Rightarrow> t)"

lemma merge_port_strip:
  "merge_port borders sub i p prts =
     (if tgt sub i p = DISCONNECTED then prts else prts[port_index i p := strip borders (tgt sub i p)])"
  by (simp add: merge_port_def strip_def tgt_def Let_def split: port_ref.split)

lemma length_merge_ports [simp]: "length (fold (merge_port borders sub i) ps prts) = length prts"
  by (induction ps arbitrary: prts) (auto simp: merge_port_strip)

lemma nth_merge_ports:
  assumes "\<forall>p \<in> set ps. p < 3" "q < 3" "port_index i 2 < length prts" "port_index j q < length prts"
  shows "fold (merge_port borders sub i) ps prts ! port_index j q =
    (if j = i \<and> q \<in> set ps \<and> tgt sub i q \<noteq> DISCONNECTED then strip borders (tgt sub i q) else prts ! port_index j q)"
  using assms
proof (induction ps arbitrary: prts)
  case (Cons p ps)
  have inj: "port_index j q = port_index i p \<longleftrightarrow> j = i \<and> q = p"
    using Cons.prems by (intro port_index_inj) auto
  have "merge_port borders sub i p prts ! port_index j q =
      (if j = i \<and> q = p \<and> tgt sub i q \<noteq> DISCONNECTED then strip borders (tgt sub i q) else prts ! port_index j q)"
    using inj Cons.prems(4) by (auto simp: merge_port_strip nth_list_update)
  then show ?case
    using Cons.IH [of "merge_port borders sub i p prts"] Cons.prems by (auto simp: merge_port_strip)
qed simp

text \<open>The slots of one partition.\<close>

lemma merge_slots:
  fixes borders :: "nat \<rightharpoonup> 'b"
  assumes "set is \<subseteq> {..<length (agents sub)}" "length (agents sub) \<le> length ags" "length prts = 3 * length ags"
  defines "r \<equiv> fold (merge_slot borders sub) is (ags, prts)"
  shows "length (fst r) = length ags \<and> length (snd r) = length prts \<and>
    (\<forall>i < length ags. fst r ! i = (if i \<in> set is \<and> get_agent sub i \<noteq> None then get_agent sub i else ags ! i)) \<and>
    (\<forall>i q. i < length ags \<longrightarrow> q < 3 \<longrightarrow> snd r ! port_index i q =
       (if i \<in> set is \<and> valid_port sub i q \<and> tgt sub i q \<noteq> DISCONNECTED then strip borders (tgt sub i q)
        else prts ! port_index i q))"
  using assms(1-3) unfolding r_def
proof (induction "is" arbitrary: ags prts)
  case (Cons j js)
  have j: "j < length (agents sub)" "j < length ags"
    using Cons.prems by auto
  have at: "get_agent sub j = agents sub ! j"
    using j(1) by (simp add: get_agent_def vec_get_def)
  obtain ags1 prts1 where st: "merge_slot borders sub j (ags, prts) = (ags1, prts1)"
    by (cases "merge_slot borders sub j (ags, prts)")
  have room: "port_index j 2 < length prts" "(j + 1) * PORTS_PER_SLOT \<le> length prts"
    using port_index_bound [of 2 j "length ags"] j(2) Cons.prems(3) by (auto simp: PORTS_PER_SLOT_def)
  have one: "length ags1 = length ags" "length prts1 = length prts"
    "\<And>i. i < length ags \<Longrightarrow> ags1 ! i = (if i = j \<and> get_agent sub i \<noteq> None then get_agent sub i else ags ! i)"
    "\<And>i q. i < length ags \<Longrightarrow> q < 3 \<Longrightarrow> prts1 ! port_index i q =
       (if i = j \<and> valid_port sub i q \<and> tgt sub i q \<noteq> DISCONNECTED then strip borders (tgt sub i q)
        else prts ! port_index i q)"
  proof -
    show "length ags1 = length ags" "length prts1 = length prts"
      using st j(2) room(2) by (auto simp: merge_slot_def split: option.splits)
    show "ags1 ! i = (if i = j \<and> get_agent sub i \<noteq> None then get_agent sub i else ags ! i)" if "i < length ags" for i
      using st j(2) at that by (auto simp: merge_slot_def nth_list_update split: option.splits)
    show "prts1 ! port_index i q =
       (if i = j \<and> valid_port sub i q \<and> tgt sub i q \<noteq> DISCONNECTED then strip borders (tgt sub i q)
        else prts ! port_index i q)" if i: "i < length ags" and q: "q < 3" for i q
    proof (cases "agents sub ! j")
      case None
      then show ?thesis
        using st at by (auto simp: merge_slot_def valid_port_def sym_at_def)
    next
      case (Some ag)
      have "\<forall>p \<in> set [0..<total_ports (a_symbol ag)]. p < 3"
        using total_ports_le [of "a_symbol ag"] by auto
      moreover have "port_index i q < length prts"
        using port_index_bound [OF q i] Cons.prems(3) by simp
      moreover have "prts1 = fold (merge_port borders sub j) [0..<total_ports (a_symbol ag)] prts"
        using st Some room(2) by (auto simp: merge_slot_def)
      moreover have "valid_port sub j q \<longleftrightarrow> q < total_ports (a_symbol ag)"
        using Some at by (simp add: valid_port_def sym_at_def)
      ultimately show ?thesis
        using nth_merge_ports [OF _ q room(1), of "[0..<total_ports (a_symbol ag)]" i borders sub] by auto
    qed
  qed
  have "length (agents sub) \<le> length ags1" "length prts1 = 3 * length ags1" "set js \<subseteq> {..<length (agents sub)}"
    using Cons.prems one(1,2) by auto
  note ih = Cons.IH [OF this(3,1,2)]
  show ?case
    using ih one st by auto
qed simp

lemma merge_partition_view:
  fixes borders :: "nat \<rightharpoonup> 'b"
  assumes len: "length (agents (p_subnet p)) \<le> length (agents r)" "length (ports r) = 3 * length (agents r)"
  defines "r' \<equiv> merge_partition borders p r"
  shows "length (agents r') = length (agents r)" "length (ports r') = length (ports r)"
    "get_agent r' i = (if get_agent (p_subnet p) i \<noteq> None then get_agent (p_subnet p) i else get_agent r i)"
    "q < 3 \<Longrightarrow> tgt r' i q = (if valid_port (p_subnet p) i q \<and> tgt (p_subnet p) i q \<noteq> DISCONNECTED
       then strip borders (tgt (p_subnet p) i q) else tgt r i q)"
    "root r' = (if root (p_subnet p) \<noteq> None then root (p_subnet p) else root r)"
    "next_id r' = next_id r" "free_list r' = free_list r" "redex_queue r' = redex_queue r"
proof -
  let ?sub = "p_subnet p"
  obtain ags prts where st: "fold (merge_slot borders ?sub) [0..<length (agents ?sub)] (agents r, ports r) = (ags, prts)"
    by (cases "fold (merge_slot borders ?sub) [0..<length (agents ?sub)] (agents r, ports r)")
  have M: "length ags = length (agents r)" "length prts = length (ports r)"
    "\<And>i. i < length (agents r) \<Longrightarrow>
       ags ! i = (if i < length (agents ?sub) \<and> get_agent ?sub i \<noteq> None then get_agent ?sub i else agents r ! i)"
    "\<And>i q. i < length (agents r) \<Longrightarrow> q < 3 \<Longrightarrow> prts ! port_index i q =
       (if i < length (agents ?sub) \<and> valid_port ?sub i q \<and> tgt ?sub i q \<noteq> DISCONNECTED then strip borders (tgt ?sub i q)
        else ports r ! port_index i q)"
  proof -
    have "set [0..<length (agents ?sub)] \<subseteq> {..<length (agents ?sub)}"
      by auto
    note slots = merge_slots [OF this len, of borders, unfolded st fst_conv snd_conv set_upt atLeastLessThan_iff]
    show "length ags = length (agents r)" "length prts = length (ports r)"
      using slots by simp_all
    show "ags ! i = (if i < length (agents ?sub) \<and> get_agent ?sub i \<noteq> None then get_agent ?sub i else agents r ! i)"
      if "i < length (agents r)" for i
      using slots that by simp
    show "prts ! port_index i q =
       (if i < length (agents ?sub) \<and> valid_port ?sub i q \<and> tgt ?sub i q \<noteq> DISCONNECTED then strip borders (tgt ?sub i q)
        else ports r ! port_index i q)" if "i < length (agents r)" "q < 3" for i q
      using slots that by simp
  qed
  have r': "r' = r\<lparr>agents := ags, ports := prts,
                root := (if root ?sub \<noteq> None then root ?sub else root r)\<rparr>"
    by (simp add: r'_def merge_partition_def st)
  show "length (agents r') = length (agents r)" "length (ports r') = length (ports r)"
    using M(1,2) by (simp_all add: r')
  have none: "get_agent ?sub i = None" if "\<not> i < length (agents ?sub)" for i
    using that by (simp add: get_agent_def vec_get_def)
  show "get_agent r' i = (if get_agent ?sub i \<noteq> None then get_agent ?sub i else get_agent r i)"
    using M(1) M(3) [of i] none [of i] len(1) by (auto simp: r' get_agent_def vec_get_def split: if_splits)
  show "tgt r' i q = (if valid_port ?sub i q \<and> tgt ?sub i q \<noteq> DISCONNECTED
       then strip borders (tgt ?sub i q) else tgt r i q)" if q: "q < 3"
  proof (cases "i < length (agents r)")
    case True
    have idx: "port_index i q < length (ports r')" "port_index i q < length (ports r)"
      using port_index_bound [OF q True] len(2) M(2) by (simp_all add: r')
    have "valid_port ?sub i q \<Longrightarrow> i < length (agents ?sub)"
      using valid_port_live live_length by blast
    then show ?thesis
      using ports_nth [OF refl idx(1)] ports_nth [OF refl idx(2)] M(4) [OF True q] by (auto simp: r')
  next
    case False
    then have "\<not> port_index i q < length (ports r)"
      using len(2) by (simp add: port_index_def PORTS_PER_SLOT_def)
    moreover have "\<not> valid_port ?sub i q"
      using False len(1) valid_port_live live_length by fastforce
    ultimately show ?thesis
      using tgt_out_of_range [of i q r] tgt_out_of_range [of i q r'] M(2) by (simp add: r')
  qed
qed (simp_all add: r'_def merge_partition_def Let_def split: prod.split)

definition disjoint_parts :: "partition list \<Rightarrow> bool" where
  "disjoint_parts ps \<longleftrightarrow> sorted_wrt (\<lambda>p p'. \<forall>i. live (p_subnet p) i \<longrightarrow> \<not> live (p_subnet p') i) ps"

text \<open>All partitions: each agent comes from its partition, with its own wires.\<close>

lemma merge_partitions_view:
  fixes borders :: "nat \<rightharpoonup> 'b"
  assumes "\<forall>p \<in> set ps. length (agents (p_subnet p)) \<le> length (agents r)" "length (ports r) = 3 * length (agents r)"
    and "disjoint_parts ps"
  defines "r' \<equiv> fold (merge_partition borders) ps r"
  shows "length (agents r') = length (agents r) \<and> length (ports r') = length (ports r) \<and> next_id r' = next_id r \<and>
    free_list r' = free_list r \<and> redex_queue r' = redex_queue r \<and>
    (\<forall>i. (\<forall>p \<in> set ps. \<not> live (p_subnet p) i) \<longrightarrow> get_agent r' i = get_agent r i \<and> (\<forall>q < 3. tgt r' i q = tgt r i q)) \<and>
    (\<forall>p \<in> set ps. \<forall>i. live (p_subnet p) i \<longrightarrow> get_agent r' i = get_agent (p_subnet p) i \<and>
       (\<forall>q < 3. tgt r' i q = (if valid_port (p_subnet p) i q \<and> tgt (p_subnet p) i q \<noteq> DISCONNECTED
          then strip borders (tgt (p_subnet p) i q) else tgt r i q)))"
  using assms(1-3) unfolding r'_def
proof (induction ps arbitrary: r)
  case (Cons p ps)
  let ?s = "merge_partition borders p r"
  have len: "length (agents (p_subnet p)) \<le> length (agents r)" "length (ports r) = 3 * length (agents r)"
    using Cons.prems by simp_all
  note V = merge_partition_view [OF len, where borders = borders]
  have dis: "\<not> live (p_subnet p') i" if "live (p_subnet p) i" "p' \<in> set ps" for p' i
    using Cons.prems(3) that by (auto simp: disjoint_parts_def)
  have "disjoint_parts ps" "\<forall>p \<in> set ps. length (agents (p_subnet p)) \<le> length (agents ?s)"
      "length (ports ?s) = 3 * length (agents ?s)"
    using Cons.prems V(1,2) by (simp_all add: disjoint_parts_def)
  note ih = Cons.IH [OF this(2,3,1)]
  let ?t = "fold (merge_partition borders) ps ?s"
  have dead: "get_agent ?s i = get_agent r i \<and> (\<forall>q < 3. tgt ?s i q = tgt r i q)" if "\<not> live (p_subnet p) i" for i
  proof -
    have "\<not> valid_port (p_subnet p) i q" for q
      using that valid_port_live by blast
    then show ?thesis
      using that V(3,4) by (simp add: sym_at_def)
  qed
  have alive: "get_agent ?s i = get_agent (p_subnet p) i \<and>
      (\<forall>q < 3. tgt ?s i q = (if valid_port (p_subnet p) i q \<and> tgt (p_subnet p) i q \<noteq> DISCONNECTED
          then strip borders (tgt (p_subnet p) i q) else tgt r i q))" if "live (p_subnet p) i" for i
    using that V(3,4) by (auto simp: sym_at_def)
  have other: "get_agent ?t i = get_agent ?s i \<and> (\<forall>q < 3. tgt ?t i q = tgt ?s i q)"
    if "\<forall>p \<in> set ps. \<not> live (p_subnet p) i" for i
    using ih that by blast
  have later: "get_agent ?t i = get_agent (p_subnet p') i \<and>
      (\<forall>q < 3. tgt ?t i q = (if valid_port (p_subnet p') i q \<and> tgt (p_subnet p') i q \<noteq> DISCONNECTED
          then strip borders (tgt (p_subnet p') i q) else tgt ?s i q))" if "live (p_subnet p') i" "p' \<in> set ps" for p' i
    using ih that by blast
  have "get_agent ?t i = get_agent (p_subnet p') i \<and>
      (\<forall>q < 3. tgt ?t i q = (if valid_port (p_subnet p') i q \<and> tgt (p_subnet p') i q \<noteq> DISCONNECTED
          then strip borders (tgt (p_subnet p') i q) else tgt r i q))" if "live (p_subnet p') i" "p' \<in> set (p # ps)" for p' i
  proof (cases "p' \<in> set ps")
    case True
    then have "\<not> live (p_subnet p) i"
      using dis that(1) by blast
    then show ?thesis
      using later [OF that(1) True] dead [of i] by simp
  next
    case False
    then have "p' = p"
      using that(2) by simp
    then show ?thesis
      using other [of i] alive [of i] dis [of i] that(1) by simp
  qed
  moreover have "get_agent ?t i = get_agent r i \<and> (\<forall>q < 3. tgt ?t i q = tgt r i q)"
    if "\<forall>p \<in> set (p # ps). \<not> live (p_subnet p) i" for i
    using other [of i] dead [of i] that by simp
  ultimately show ?case
    using ih V(1,2,6-8) by simp
qed simp

section \<open>Plans that can be merged\<close>

definition index_ports :: "partition list \<Rightarrow> nat \<Rightarrow> port_ref list" where
  "index_ports parts b = List.map_filter (\<lambda>p. p_free_port_index p b) parts"

text \<open>
  The state in which the grid calls \<open>merge\<close>: well-formed sub-nets with disjoint agents, indices that
  list exactly the border ports of their sub-net, and every border either gone or seen from two sides.
\<close>

definition plan_inv :: "partition_plan \<Rightarrow> bool" where
  "plan_inv plan \<longleftrightarrow>
     (\<forall>p \<in> set (pl_partitions plan). core_inv (p_subnet p)) \<and>
     disjoint_parts (pl_partitions plan) \<and>
     (\<forall>p \<in> set (pl_partitions plan). \<forall>b x. p_free_port_index p b = Some x \<longleftrightarrow>
        b \<in> dom (pl_borders plan) \<and>
        (\<exists>i q. x = AgentPort i q \<and> q < 3 \<and> live (p_subnet p) i \<and> tgt (p_subnet p) i q = FreePort b)) \<and>
     (\<forall>b \<in> dom (pl_borders plan). index_ports (pl_partitions plan) b = [] \<or> length (index_ports (pl_partitions plan) b) = 2) \<and>
     u32_MAX \<notin> dom (pl_borders plan)"

lemma plan_invD:
  assumes "plan_inv plan"
  shows "p \<in> set (pl_partitions plan) \<Longrightarrow> core_inv (p_subnet p)"
    "disjoint_parts (pl_partitions plan)"
    "p \<in> set (pl_partitions plan) \<Longrightarrow> p_free_port_index p b = Some x \<longleftrightarrow>
        b \<in> dom (pl_borders plan) \<and>
        (\<exists>i q. x = AgentPort i q \<and> q < 3 \<and> live (p_subnet p) i \<and> tgt (p_subnet p) i q = FreePort b)"
    "b \<in> dom (pl_borders plan) \<Longrightarrow>
       index_ports (pl_partitions plan) b = [] \<or> length (index_ports (pl_partitions plan) b) = 2"
    "u32_MAX \<notin> dom (pl_borders plan)"
  using assms unfolding plan_inv_def by blast+

text \<open>A live agent of a mergeable plan belongs to one partition.\<close>

lemma sorted_wrt_pair:
  "sorted_wrt P xs \<Longrightarrow> x \<in> set xs \<Longrightarrow> y \<in> set xs \<Longrightarrow> x = y \<or> P x y \<or> P y x"
  by (induction xs) auto

lemma one_owner:
  assumes "disjoint_parts ps" "p \<in> set ps" "p' \<in> set ps" "live (p_subnet p) i" "live (p_subnet p') i"
  shows "p = p'"
  using sorted_wrt_pair [OF assms(1) [unfolded disjoint_parts_def] assms(2,3)] assms(4,5) by blast

end
