(* ===== verification/Merge_Props.thy ===== *)
theory Merge_Props
  imports Merge_Core
begin

text \<open>
  Correctness of the merge: the united arena, the restoration of the borders one by one, the
  reconciliation of the free-lists, and the round trip of split and merge.
\<close>

section \<open>The united arena\<close>

definition united :: "partition_plan \<Rightarrow> net" where
  "united plan =
     (let parts = pl_partitions plan; len = fold max (map (\<lambda>p. length (agents (p_subnet p))) parts) 0
      in fold (merge_partition (pl_borders plan)) parts
           (net_new\<lparr>next_id := fold max (map (\<lambda>p. next_id (p_subnet p)) parts) 0,
                    agents := replicate len None, ports := replicate (len * PORTS_PER_SLOT) DISCONNECTED\<rparr>))"

lemma strip_DISCONNECTED: "u32_MAX \<notin> dom borders \<Longrightarrow> strip borders DISCONNECTED = DISCONNECTED"
  by (auto simp: strip_def DISCONNECTED_def)

lemma united_fields:
  fixes plan
  defines "parts \<equiv> pl_partitions plan" and "len \<equiv> fold max (map (\<lambda>p. length (agents (p_subnet p))) (pl_partitions plan)) 0"
  assumes inv: "plan_inv plan"
  shows "length (agents (united plan)) = len" "length (ports (united plan)) = 3 * len"
    "next_id (united plan) = fold max (map (\<lambda>p. next_id (p_subnet p)) parts) 0"
    "free_list (united plan) = []" "redex_queue (united plan) = []"
    "\<forall>p \<in> set parts. \<not> live (p_subnet p) i \<Longrightarrow> get_agent (united plan) i = None"
    "\<forall>p \<in> set parts. \<not> live (p_subnet p) i \<Longrightarrow> q < 3 \<Longrightarrow> tgt (united plan) i q = DISCONNECTED"
    "p \<in> set parts \<Longrightarrow> live (p_subnet p) i \<Longrightarrow> get_agent (united plan) i = get_agent (p_subnet p) i"
    "p \<in> set parts \<Longrightarrow> live (p_subnet p) i \<Longrightarrow> q < 3 \<Longrightarrow>
       tgt (united plan) i q = strip (pl_borders plan) (tgt (p_subnet p) i q)"
proof -
  let ?r = "net_new\<lparr>next_id := fold max (map (\<lambda>p. next_id (p_subnet p)) parts) 0,
                    agents := replicate len None, ports := replicate (len * PORTS_PER_SLOT) DISCONNECTED\<rparr>"
  have u: "united plan = fold (merge_partition (pl_borders plan)) parts ?r"
    by (simp add: united_def parts_def len_def Let_def)
  have "length (agents (p_subnet p)) \<le> len" if "p \<in> set parts" for p
    using fold_max(2) [of "length (agents (p_subnet p))" "map (\<lambda>p. length (agents (p_subnet p))) parts" 0] that
    by (simp add: len_def parts_def)
  then have fits: "\<forall>p \<in> set parts. length (agents (p_subnet p)) \<le> length (agents ?r)" "length (ports ?r) = 3 * length (agents ?r)"
    by (simp_all add: PORTS_PER_SLOT_def)
  note M = merge_partitions_view [OF fits plan_invD(2) [OF inv, folded parts_def], of "pl_borders plan", folded u]
  have empty: "get_agent ?r i = None" "tgt ?r i q = DISCONNECTED" for i q
    by (simp_all add: get_agent_def vec_get_def tgt_def get_target_def Let_def)
  show "length (agents (united plan)) = len" "length (ports (united plan)) = 3 * len"
    "next_id (united plan) = fold max (map (\<lambda>p. next_id (p_subnet p)) parts) 0"
    "free_list (united plan) = []" "redex_queue (united plan) = []"
    using M by (simp_all add: PORTS_PER_SLOT_def) (simp_all add: net_new_def)
  show "get_agent (united plan) i = None" if "\<forall>p \<in> set parts. \<not> live (p_subnet p) i"
    using M that empty(1) by metis
  show "tgt (united plan) i q = DISCONNECTED" if "\<forall>p \<in> set parts. \<not> live (p_subnet p) i" "q < 3"
    using M that empty(2) by metis
  show "get_agent (united plan) i = get_agent (p_subnet p) i" if "p \<in> set parts" "live (p_subnet p) i"
    using M that by blast
  show "tgt (united plan) i q = strip (pl_borders plan) (tgt (p_subnet p) i q)"
    if p: "p \<in> set parts" "live (p_subnet p) i" "q < 3"
  proof -
    have "tgt (p_subnet p) i q = DISCONNECTED" if "\<not> valid_port (p_subnet p) i q"
      using core_invD(2) [OF plan_invD(1) [OF inv p(1) [unfolded parts_def]]] that p(3) by (simp add: ports_clean_def)
    moreover have "tgt (united plan) i q = (if valid_port (p_subnet p) i q \<and> tgt (p_subnet p) i q \<noteq> DISCONNECTED
          then strip (pl_borders plan) (tgt (p_subnet p) i q) else DISCONNECTED)"
      using M p empty(2) by metis
    ultimately show ?thesis
      using strip_DISCONNECTED [OF plan_invD(5) [OF inv]] by auto
  qed
qed

lemma united_sym:
  assumes "plan_inv plan" "p \<in> set (pl_partitions plan)" "live (p_subnet p) i"
  shows "sym_at (united plan) i = sym_at (p_subnet p) i" "valid_port (united plan) i q \<longleftrightarrow> valid_port (p_subnet p) i q"
  using united_fields(8) [OF assms] by (simp_all add: sym_at_def valid_port_def)

lemma united_live:
  assumes "plan_inv plan"
  shows "live (united plan) i \<longleftrightarrow> (\<exists>p \<in> set (pl_partitions plan). live (p_subnet p) i)"
  using united_fields(6) [OF assms, of i] united_sym(1) [OF assms] live_iff_get_agent by metis

lemma strip_AgentPort: "strip borders t = AgentPort j r \<longleftrightarrow> t = AgentPort j r"
  by (auto simp: strip_def split: port_ref.split)

lemma united_core:
  assumes inv: "plan_inv plan"
  shows "core_inv (united plan)"
proof -
  note U = united_fields [OF inv]
  have top: "next_id (p_subnet p) \<le> next_id (united plan)" if "p \<in> set (pl_partitions plan)" for p
    using fold_max(2) [of "next_id (p_subnet p)" "map (\<lambda>p. next_id (p_subnet p)) (pl_partitions plan)" 0] that
    by (simp add: U(3))
  have core: "core_inv (p_subnet p)" if "p \<in> set (pl_partitions plan)" for p
    using plan_invD(1) [OF inv that] .
  have owner: "\<exists>p \<in> set (pl_partitions plan). live (p_subnet p) i" if "live (united plan) i" for i
    using that united_live [OF inv] by blast
  have "slots_ok (united plan)"
    unfolding slots_ok_def
  proof (intro conjI allI impI)
    fix i ag
    assume ag: "get_agent (united plan) i = Some ag"
    then obtain p where p: "p \<in> set (pl_partitions plan)" "live (p_subnet p) i"
      using owner [of i] by (auto simp: sym_at_def)
    then show "a_id ag = i"
      using U(8) [OF p] ag core_invD(1) [OF core [OF p(1)]] by (simp add: slots_ok_def)
  qed (simp add: U(1,2))
  moreover have "ports_clean (united plan)"
    unfolding ports_clean_def
  proof (intro allI impI)
    fix i q :: nat
    assume q: "q < 3" and bad: "\<not> valid_port (united plan) i q"
    show "tgt (united plan) i q = DISCONNECTED"
    proof (cases "live (united plan) i")
      case True
      then obtain p where p: "p \<in> set (pl_partitions plan)" "live (p_subnet p) i"
        using owner by blast
      then have "tgt (p_subnet p) i q = DISCONNECTED"
        using core_invD(2) [OF core [OF p(1)]] bad united_sym(2) [OF inv p] q by (simp add: ports_clean_def)
      then show ?thesis
        using U(9) [OF p q] strip_DISCONNECTED [OF plan_invD(5) [OF inv]] by simp
    qed (use U(7) [OF _ q] united_live [OF inv] in blast)
  qed
  moreover have "symmetric_wires (united plan)"
    unfolding symmetric_wires_def
  proof (intro allI impI)
    fix i q j r
    assume q: "q < 3" and t: "tgt (united plan) i q = AgentPort j r"
    have "live (united plan) i"
      using U(7) [OF _ q, of i] t united_live [OF inv, of i] by force
    then obtain p where p: "p \<in> set (pl_partitions plan)" "live (p_subnet p) i"
      using owner by blast
    have tp: "tgt (p_subnet p) i q = AgentPort j r"
      using U(9) [OF p q] t strip_AgentPort by metis
    note far = symmetric_wiresD [OF core_invD(3) [OF core [OF p(1)]] q tp]
    have "live (p_subnet p) j"
      using tgt_valid(1) [OF core [OF p(1)] q tp] valid_port_live by blast
    then show "r < 3 \<and> tgt (united plan) j r = AgentPort i q \<and> (i, q) \<noteq> (j, r)"
      using far U(9) [OF p(1) _ far(1)] by (simp add: strip_def)
  qed
  moreover have "ids_below (united plan)"
    unfolding ids_below_def
  proof (intro conjI allI impI)
    fix i
    assume "live (united plan) i"
    then obtain p where p: "p \<in> set (pl_partitions plan)" "live (p_subnet p) i"
      using owner by blast
    then have "i < next_id (p_subnet p)"
      using core_invD(4) [OF core [OF p(1)]] by (simp add: ids_below_def)
    then show "i < next_id (united plan)"
      using top [OF p(1)] by simp
  next
    show "next_id (united plan) \<le> u32_MAX"
      using fold_max_mem [of "map (\<lambda>p. next_id (p_subnet p)) (pl_partitions plan)" 0] core core_invD(4)
      by (auto simp: U(3) ids_below_def)
  qed
  ultimately show ?thesis
    using U(4) by (simp add: core_inv_def free_list_ok_def)
qed

section \<open>Restoring the borders\<close>

lemma index_ports_simps [simp]:
  "index_ports [] b = []"
  "index_ports (p # ps) b = (case p_free_port_index p b of None \<Rightarrow> index_ports ps b | Some x \<Rightarrow> x # index_ports ps b)"
  by (simp_all add: index_ports_def map_filter_simps split: option.split)

lemma in_index_ports: "x \<in> set (index_ports ps b) \<longleftrightarrow> (\<exists>p \<in> set ps. p_free_port_index p b = Some x)"
  by (induction ps) (auto split: option.split)

lemma border_ends_index:
  "border_ends ps b =
     (case index_ports ps b of [] \<Rightarrow> (None, None) | x # xs \<Rightarrow> (Some x, if xs = [] then None else Some (last xs)))"
proof -
  let ?f = "\<lambda>p (a, c). case p_free_port_index p b of None \<Rightarrow> (a, c)
     | Some x \<Rightarrow> if a = None then (Some x, c) else (a, Some x)"
  have second: "fold ?f ps (Some a, c) = (Some a, if index_ports ps b = [] then c else Some (last (index_ports ps b)))"
    for ps a c
    by (induction ps arbitrary: c) (auto split: option.split)
  have "fold ?f ps (None, None) =
     (case index_ports ps b of [] \<Rightarrow> (None, None) | x # xs \<Rightarrow> (Some x, if xs = [] then None else Some (last xs)))" for ps
  proof (induction ps)
    case (Cons p ps)
    then show ?case
      using second [of ps] by (cases "p_free_port_index p b") auto
  qed simp
  then show ?thesis
    by (simp add: border_ends_def)
qed

lemma index_port_owner:
  assumes "plan_inv plan" "x \<in> set (index_ports (pl_partitions plan) b)"
  obtains p i q where "p \<in> set (pl_partitions plan)" "x = AgentPort i q" "q < 3" "live (p_subnet p) i"
    "tgt (p_subnet p) i q = FreePort b" "b \<in> dom (pl_borders plan)"
proof -
  obtain p where p: "p \<in> set (pl_partitions plan)" "p_free_port_index p b = Some x"
    using assms(2) by (auto simp: in_index_ports)
  then show thesis
    using that plan_invD(3) [OF assms(1) p(1), of b x] by blast
qed

lemma index_ports_distinct:
  assumes "plan_inv plan"
  shows "distinct (index_ports (pl_partitions plan) b)"
proof -
  have "distinct (index_ports ps b)" if "disjoint_parts ps" "set ps \<subseteq> set (pl_partitions plan)" for ps
    using that
  proof (induction ps)
    case (Cons p ps)
    have ih: "distinct (index_ports ps b)"
      using Cons by (simp add: disjoint_parts_def)
    have "x \<notin> set (index_ports ps b)" if x: "p_free_port_index p b = Some x" for x
    proof
      assume "x \<in> set (index_ports ps b)"
      then obtain p' where p': "p' \<in> set ps" "p_free_port_index p' b = Some x"
        by (auto simp: in_index_ports)
      have "p \<in> set (pl_partitions plan)" "p' \<in> set (pl_partitions plan)"
        using Cons.prems(2) p'(1) by auto
      then obtain i j q r where "x = AgentPort i q" "live (p_subnet p) i" "x = AgentPort j r" "live (p_subnet p') j"
        using x p'(2) plan_invD(3) [OF assms] by metis
      then show False
        using Cons.prems(1) p'(1) by (auto simp: disjoint_parts_def)
    qed
    then show ?case
      using ih by (auto split: option.split)
  qed simp
  then show ?thesis
    using plan_invD(2) [OF assms] by blast
qed

text \<open>A port is the end of at most one border.\<close>

lemma index_port_border:
  assumes "plan_inv plan" "x \<in> set (index_ports (pl_partitions plan) b)" "x \<in> set (index_ports (pl_partitions plan) b')"
  shows "b = b'"
proof -
  obtain p i q where 1: "p \<in> set (pl_partitions plan)" "x = AgentPort i q" "live (p_subnet p) i" "tgt (p_subnet p) i q = FreePort b"
    using index_port_owner [OF assms(1,2)] by metis
  obtain p' j r where 2: "p' \<in> set (pl_partitions plan)" "x = AgentPort j r" "live (p_subnet p') j" "tgt (p_subnet p') j r = FreePort b'"
    using index_port_owner [OF assms(1,3)] by metis
  have "p = p'"
    using 1 2 by (intro one_owner [OF plan_invD(2) [OF assms(1)]]) auto
  then show ?thesis
    using 1 2 by simp
qed

definition border_redexes :: "partition_plan \<Rightarrow> nat \<Rightarrow> (agent_id \<times> agent_id) list" where
  "border_redexes plan b = (case index_ports (pl_partitions plan) b of [x, y] \<Rightarrow> new_redexes x y | _ \<Rightarrow> [])"

lemma border_redexes_index:
  "(a, d) \<in> set (border_redexes plan b) \<longleftrightarrow> index_ports (pl_partitions plan) b = [AgentPort a 0, AgentPort d 0]"
  by (auto simp: border_redexes_def new_redexes_def split: list.splits port_ref.splits if_splits)

text \<open>
  The state of the restoration after the borders in \<open>ds\<close>: their two ends are joined, and every
  other port is as in the united arena.
\<close>

definition restored :: "partition_plan \<Rightarrow> nat list \<Rightarrow> net \<times> nat \<Rightarrow> bool" where
  "restored plan ds rc \<longleftrightarrow>
     core_inv (fst rc) \<and> agents (fst rc) = agents (united plan) \<and> root (fst rc) = root (united plan) \<and>
     next_id (fst rc) = next_id (united plan) \<and> free_list (fst rc) = [] \<and>
     (\<forall>b \<in> set ds. \<forall>i q j s. index_ports (pl_partitions plan) b = [AgentPort i q, AgentPort j s] \<longrightarrow>
        tgt (fst rc) i q = AgentPort j s \<and> tgt (fst rc) j s = AgentPort i q) \<and>
     (\<forall>i q. q < 3 \<longrightarrow> (\<forall>b \<in> set ds. AgentPort i q \<notin> set (index_ports (pl_partitions plan) b)) \<longrightarrow>
        tgt (fst rc) i q = tgt (united plan) i q) \<and>
     redex_queue (fst rc) = concat (map (border_redexes plan) ds) \<and> snd rc = length (redex_queue (fst rc))"

lemma restored_united: "plan_inv plan \<Longrightarrow> restored plan [] (united plan, 0)"
  by (simp add: restored_def united_core united_fields)

lemma resolve_AgentPort [simp]: "resolve_freeport_chain borders parts (AgentPort i q) = AgentPort i q"
  by (simp add: resolve_freeport_chain_def MAX_CHAIN_DEPTH_def numeral_eq_Suc)

lemma merge_border_cases:
  assumes inv: "plan_inv plan" and b: "b \<in> dom (pl_borders plan)"
  obtains (gone) "index_ports (pl_partitions plan) b = []"
      "merge_border (pl_borders plan) (pl_partitions plan) b rc = rc"
  | (joined) i q j s where "index_ports (pl_partitions plan) b = [AgentPort i q, AgentPort j s]" "(i, q) \<noteq> (j, s)"
      "merge_border (pl_borders plan) (pl_partitions plan) b rc =
         (connect (AgentPort i q) (AgentPort j s) (fst rc), if q = 0 \<and> s = 0 then snd rc + 1 else snd rc)"
proof -
  consider "index_ports (pl_partitions plan) b = []" | x y where "index_ports (pl_partitions plan) b = [x, y]"
    using plan_invD(4) [OF inv b] by (auto simp: length_Suc_conv numeral_2_eq_2)
  then show thesis
  proof cases
    case 1
    then show thesis
      by (intro gone) (simp_all add: merge_border_def border_ends_index)
  next
    case (2 x y)
    have mem: "x \<in> set (index_ports (pl_partitions plan) b)" "y \<in> set (index_ports (pl_partitions plan) b)"
      using 2 by simp_all
    obtain i q where x: "x = AgentPort i q"
      using index_port_owner [OF inv mem(1)] by metis
    obtain j s where y: "y = AgentPort j s"
      using index_port_owner [OF inv mem(2)] by metis
    have "(i, q) \<noteq> (j, s)"
      using index_ports_distinct [OF inv, of b] 2 x y by auto
    then show thesis
      using 2 x y by (intro joined) (simp_all add: merge_border_def border_ends_index is_principal_pair_def)
  qed
qed

lemma end_open:
  assumes inv: "plan_inv plan" and st: "restored plan ds rc" and b: "b \<notin> set ds"
    and x: "AgentPort i q \<in> set (index_ports (pl_partitions plan) b)"
  shows "open_end (fst rc) (AgentPort i q)"
proof -
  obtain p where p: "p \<in> set (pl_partitions plan)" "q < 3" "live (p_subnet p) i" "tgt (p_subnet p) i q = FreePort b"
      "b \<in> dom (pl_borders plan)"
    using index_port_owner [OF inv x] by (metis port_ref.inject(1))
  have "b \<noteq> u32_MAX"
    using p(5) plan_invD(5) [OF inv] by blast
  then have "valid_port (p_subnet p) i q"
    using core_invD(2) [OF plan_invD(1) [OF inv p(1)]] p(2,4)
    unfolding ports_clean_def DISCONNECTED_def by (metis port_ref.inject(2))
  then have "valid_port (fst rc) i q"
    using united_sym(2) [OF inv p(1,3)] st valid_port_cong [OF sym_cong, of "fst rc" "united plan"] by (simp add: restored_def)
  moreover have "tgt (united plan) i q = DISCONNECTED"
    using united_fields(9) [OF inv p(1,3,2)] p(4,5) by (auto simp: strip_def)
  moreover have "tgt (fst rc) i q = tgt (united plan) i q"
    using st p(2) index_port_border [OF inv x] b unfolding restored_def by blast
  ultimately show ?thesis
    by simp
qed

lemma restored_step:
  assumes inv: "plan_inv plan" and st: "restored plan ds rc" and b: "b \<notin> set ds" "b \<in> dom (pl_borders plan)"
  shows "restored plan (ds @ [b]) (merge_border (pl_borders plan) (pl_partitions plan) b rc)"
  using inv b(2)
proof (cases rule: merge_border_cases [where rc = rc])
  case gone
  then show ?thesis
    using st by (simp add: restored_def border_redexes_def)
next
  case (joined i q j s)
  let ?x = "AgentPort i q" and ?y = "AgentPort j s"
  have ends: "open_end (fst rc) ?x" "open_end (fst rc) ?y"
    using end_open [OF inv st b(1)] joined(1) by simp_all
  note S = st [unfolded restored_def]
  have core: "core_inv (connect ?x ?y (fst rc))"
    using S joined(2) by (intro core_inv_connect ends) auto
  have t: "tgt (connect ?x ?y (fst rc)) l r = (if ?y = AgentPort l r then ?x else if ?x = AgentPort l r then ?y else tgt (fst rc) l r)"
    if "r < 3" for l r
    using S that core_invD(1) by (intro tgt_connect_open ends) auto
  have small: "q < 3" "s < 3"
    using ends valid_port_less by auto
  have old: "tgt (connect ?x ?y (fst rc)) l r = tgt (fst rc) l r"
    if "r < 3" "AgentPort l r \<notin> set (index_ports (pl_partitions plan) b)" for l r
    using t [OF that(1), of l] that(2) joined(1) by auto
  have prev: "AgentPort l r \<notin> set (index_ports (pl_partitions plan) b)"
    if "d \<in> set ds" "AgentPort l r \<in> set (index_ports (pl_partitions plan) d)" for d l r
    using index_port_border [OF inv, of "AgentPort l r" b d] that b(1) by blast
  have pairs: "tgt (connect ?x ?y (fst rc)) l r = AgentPort m u \<and> tgt (connect ?x ?y (fst rc)) m u = AgentPort l r"
    if d: "d \<in> set (ds @ [b])" "index_ports (pl_partitions plan) d = [AgentPort l r, AgentPort m u]" for d l r m u
  proof (cases "d \<in> set ds")
    case True
    have mem: "AgentPort l r \<in> set (index_ports (pl_partitions plan) d)" "AgentPort m u \<in> set (index_ports (pl_partitions plan) d)"
      using d(2) by simp_all
    have "r < 3" "u < 3"
      using index_port_owner [OF inv mem(1)] index_port_owner [OF inv mem(2)] by (metis port_ref.inject(1))+
    then show ?thesis
      using old prev [OF True mem(1)] prev [OF True mem(2)] S True d(2) by metis
  next
    case False
    then have "d = b"
      using d(1) by simp
    then show ?thesis
      using d(2) joined(1,2) t small by auto
  qed
  have rest: "tgt (connect ?x ?y (fst rc)) l r = tgt (united plan) l r"
    if "r < 3" "\<forall>d \<in> set (ds @ [b]). AgentPort l r \<notin> set (index_ports (pl_partitions plan) d)" for l r
    using that old S by simp
  have redex: "border_redexes plan b = (if q = 0 \<and> s = 0 then [(i, j)] else [])"
    by (simp add: border_redexes_def joined(1) new_redexes_def)
  show ?thesis
    unfolding restored_def joined(3) fst_conv snd_conv
    using core pairs rest S redex by (simp add: new_redexes_def)
qed

lemma restored_all:
  assumes "plan_inv plan" "distinct ds" "set ds \<subseteq> dom (pl_borders plan)"
  shows "restored plan ds (fold (merge_border (pl_borders plan) (pl_partitions plan)) ds (united plan, 0))"
  using assms(2,3)
proof (induction ds rule: rev_induct)
  case (snoc b ds)
  then show ?case
    using restored_step [OF assms(1), of ds] by simp
qed (simp add: restored_united [OF assms(1)])

section \<open>The merged net\<close>

lemma merge_free_ids:
  assumes "distinct (free_list r)"
  shows "\<exists>fl. fold merge_free_id ids r = r\<lparr>free_list := fl\<rparr> \<and> distinct fl \<and>
    set fl = set (free_list r) \<union> {i \<in> set ids. vec_get (agents r) i = Some None}"
  using assms
proof (induction ids arbitrary: r)
  case Nil
  show ?case
    by (rule exI [of _ "free_list r"]) (use Nil in simp)
next
  case (Cons i ids)
  let ?r = "merge_free_id i r"
  have "distinct (free_list ?r)"
    using Cons.prems by (simp add: merge_free_id_def)
  from Cons.IH [OF this] obtain fl where fl: "fold merge_free_id ids ?r = ?r\<lparr>free_list := fl\<rparr>" "distinct fl"
      "set fl = set (free_list ?r) \<union> {i \<in> set ids. vec_get (agents ?r) i = Some None}"
    by blast
  have "?r\<lparr>free_list := fl\<rparr> = r\<lparr>free_list := fl\<rparr>" "agents ?r = agents r"
      "set (free_list ?r) = set (free_list r) \<union> (if vec_get (agents r) i = Some None then {i} else {})"
    by (auto simp: merge_free_id_def)
  then show ?case
    using fl by (intro exI [of _ fl]) auto
qed

text \<open>Fields the invariant does not mention.\<close>

lemma get_agent_cong: "agents r = agents r' \<Longrightarrow> get_agent r = get_agent r'"
  by (simp add: get_agent_def fun_eq_iff)

lemma wires_inv_cong:
  assumes "agents r = agents r'" "ports r = ports r'" "next_id r = next_id r'"
  shows "slots_ok r \<longleftrightarrow> slots_ok r'" "ports_clean r \<longleftrightarrow> ports_clean r'" "symmetric_wires r \<longleftrightarrow> symmetric_wires r'"
    "ids_below r \<longleftrightarrow> ids_below r'"
proof -
  have eq: "get_agent r = get_agent r'" "sym_at r = sym_at r'" "tgt r = tgt r'"
    using get_agent_cong [OF assms(1)] sym_cong [OF assms(1)] tgt_cong [OF assms(2)] .
  note valid = valid_port_cong [OF eq(2)]
  show "slots_ok r \<longleftrightarrow> slots_ok r'" "ports_clean r \<longleftrightarrow> ports_clean r'" "symmetric_wires r \<longleftrightarrow> symmetric_wires r'"
      "ids_below r \<longleftrightarrow> ids_below r'"
    unfolding slots_ok_def ports_clean_def symmetric_wires_def ids_below_def eq valid assms by (rule refl)+
qed

lemma core_inv_free_list:
  assumes "core_inv r" "distinct fl" "\<forall>i \<in> set fl. \<not> live r i \<and> i < next_id r"
  shows "core_inv (r\<lparr>free_list := fl\<rparr>)"
  using wires_inv_cong [of "r\<lparr>free_list := fl\<rparr>" r] core_invD [OF assms(1)] assms(2,3)
  by (simp add: core_inv_def free_list_ok_def)

lemma core_inv_scope: "core_inv (r\<lparr>id_range := a, border_entries_shadow := b\<rparr>) \<longleftrightarrow> core_inv r"
  using wires_inv_cong [of "r\<lparr>id_range := a, border_entries_shadow := b\<rparr>" r]
    sym_cong [of "r\<lparr>id_range := a, border_entries_shadow := b\<rparr>" r]
  by (simp add: core_inv_def free_list_ok_def)

lemma vec_grow_Nil: "vec_grow k x [] = replicate k x"
  by (simp add: vec_grow_def vec_resize_def)

text \<open>What the merge returns, in terms of the united arena.\<close>

lemma merge_spec:
  assumes inv: "plan_inv plan" and ord: "distinct border_order" "set border_order = dom (pl_borders plan)"
    and ret: "merge border_order plan = (m, c)"
  obtains r where "restored plan border_order (r, c)" "core_inv m" "sym_at m = sym_at (united plan)" "tgt m = tgt r"
    "redex_queue m = redex_queue r" "root m = root (united plan)" "next_id m = next_id (united plan)"
    "get_agent m = get_agent (united plan)"
    "set (free_list m) = {i. (\<exists>p \<in> set (pl_partitions plan). i \<in> set (free_list (p_subnet p))) \<and>
       i < length (agents (united plan)) \<and> \<not> live (united plan) i}"
proof -
  let ?f = "fold (merge_border (pl_borders plan) (pl_partitions plan)) border_order (united plan, 0)"
  let ?ids = "concat (map (\<lambda>p. free_list (p_subnet p)) (pl_partitions plan))"
  have st: "restored plan border_order ?f"
    using restored_all [OF inv ord(1)] ord(2) by simp
  note S = st [unfolded restored_def]
  have "united plan = fold (merge_partition (pl_borders plan)) (pl_partitions plan)
      (net_new\<lparr>next_id := fold max (map (\<lambda>p. next_id (p_subnet p)) (pl_partitions plan)) 0,
        agents := vec_grow (fold max (map (\<lambda>p. length (agents (p_subnet p))) (pl_partitions plan)) 0) None (agents net_new),
        ports := vec_grow (fold max (map (\<lambda>p. length (agents (p_subnet p))) (pl_partitions plan)) 0 * PORTS_PER_SLOT)
                   DISCONNECTED (ports net_new)\<rparr>)"
  proof -
    have empty: "agents net_new = []" "ports net_new = []"
      by (simp_all add: net_new_def)
    show ?thesis
      unfolding united_def Let_def empty vec_grow_Nil ..
  qed
  then have mc: "m = (fold merge_free_id ?ids (fst ?f))\<lparr>id_range := None, border_entries_shadow := None\<rparr>" "c = snd ?f"
    using ret by (auto simp: merge_def Let_def with_capacity_def split: prod.splits)
  obtain fl where fl: "fold merge_free_id ?ids (fst ?f) = (fst ?f)\<lparr>free_list := fl\<rparr>" "distinct fl"
      "set fl = {i \<in> set ?ids. vec_get (agents (fst ?f)) i = Some None}"
    using merge_free_ids [of "fst ?f" ?ids] S by auto
  have ags: "agents (fst ?f) = agents (united plan)"
    using S by blast
  note syms = sym_cong [OF ags] get_agent_cong [OF ags]
  have dead: "vec_get (agents (fst ?f)) i = Some None \<longleftrightarrow> i < length (agents (united plan)) \<and> \<not> live (united plan) i" for i
    unfolding ags by (auto simp: vec_get_def sym_at_def get_agent_def)
  have set_fl: "set fl = {i. (\<exists>p \<in> set (pl_partitions plan). i \<in> set (free_list (p_subnet p))) \<and>
      i < length (agents (united plan)) \<and> \<not> live (united plan) i}"
    unfolding fl(3) dead by auto
  have low: "i < next_id (united plan)" if "p \<in> set (pl_partitions plan)" "i \<in> set (free_list (p_subnet p))" for p i
    using core_invD(5) [OF plan_invD(1) [OF inv that(1)]] that
      fold_max(2) [of "next_id (p_subnet p)" "map (\<lambda>p. next_id (p_subnet p)) (pl_partitions plan)" 0]
    by (auto simp: free_list_ok_def united_fields(3) [OF inv] intro: less_le_trans)
  have "core_inv ((fst ?f)\<lparr>free_list := fl\<rparr>)"
    using S fl(2) low by (intro core_inv_free_list) (auto simp: set_fl syms)
  then have "core_inv m"
    unfolding mc(1) fl(1) core_inv_scope .
  moreover have "sym_at m = sym_at (united plan)" "tgt m = tgt (fst ?f)" "get_agent m = get_agent (united plan)"
    unfolding mc(1) fl(1) using ags by (intro sym_cong tgt_cong get_agent_cong; simp)+
  moreover have "restored plan border_order (fst ?f, c)"
    unfolding mc(2) prod.collapse by (rule st)
  moreover have "redex_queue m = redex_queue (fst ?f)" "root m = root (fst ?f)" "next_id m = next_id (fst ?f)" "free_list m = fl"
    unfolding mc(1) fl(1) by simp_all
  moreover have "root (fst ?f) = root (united plan)" "next_id (fst ?f) = next_id (united plan)"
    using S by blast+
  ultimately show thesis
    using that set_fl by metis
qed

text \<open>The wires of a merged net: borders are joined, everything else is as in the partition.\<close>

lemma merged_port:
  assumes inv: "plan_inv plan" and st: "restored plan border_order (r, c)" and ord: "set border_order = dom (pl_borders plan)"
    and p: "p \<in> set (pl_partitions plan)" "live (p_subnet p) i" "q < 3"
  shows "case tgt (p_subnet p) i q of
      AgentPort j s \<Rightarrow> tgt r i q = AgentPort j s
    | FreePort b \<Rightarrow>
        if b \<in> dom (pl_borders plan)
        then (\<exists>j s. tgt r i q = AgentPort j s \<and>
               (index_ports (pl_partitions plan) b = [AgentPort i q, AgentPort j s] \<or>
                index_ports (pl_partitions plan) b = [AgentPort j s, AgentPort i q]))
        else tgt r i q = FreePort b"
proof -
  note S = st [unfolded restored_def fst_conv snd_conv]
  have plain: "tgt r i q = strip (pl_borders plan) (tgt (p_subnet p) i q)"
    if no: "\<And>b. b \<in> dom (pl_borders plan) \<Longrightarrow> tgt (p_subnet p) i q \<noteq> FreePort b"
  proof -
    have "AgentPort i q \<notin> set (index_ports (pl_partitions plan) b)" for b
    proof
      assume "AgentPort i q \<in> set (index_ports (pl_partitions plan) b)"
      then obtain p' where p': "p' \<in> set (pl_partitions plan)" "live (p_subnet p') i" "tgt (p_subnet p') i q = FreePort b"
          "b \<in> dom (pl_borders plan)"
        using index_port_owner [OF inv] by (metis port_ref.inject(1))
      then have "p' = p"
        using one_owner [OF plan_invD(2) [OF inv]] p by blast
      then show False
        using p'(3,4) no by blast
    qed
    then show ?thesis
      using S p(3) united_fields(9) [OF inv p] by simp
  qed
  show ?thesis
  proof (cases "tgt (p_subnet p) i q")
    case (AgentPort j s)
    then show ?thesis
      using plain by (simp add: strip_def)
  next
    case (FreePort b)
    show ?thesis
    proof (cases "b \<in> dom (pl_borders plan)")
      case True
      have "p_free_port_index p b = Some (AgentPort i q)"
        using plan_invD(3) [OF inv p(1)] True p(2,3) FreePort by blast
      then have mem: "AgentPort i q \<in> set (index_ports (pl_partitions plan) b)"
        using p(1) by (auto simp: in_index_ports)
      from inv True obtain l t j s where ix: "index_ports (pl_partitions plan) b = [AgentPort l t, AgentPort j s]"
        by (cases rule: merge_border_cases [where rc = "(r, c)"]) (use mem in auto)
      have "b \<in> set border_order"
        using True ord by simp
      then have "tgt r l t = AgentPort j s" "tgt r j s = AgentPort l t"
        using S ix by blast+
      then show ?thesis
        using mem ix True FreePort by auto
    next
      case False
      then show ?thesis
        using plain FreePort by (auto simp: strip_def dom_def)
    qed
  qed
qed

text \<open>
  Merging is correct (C21): the merged net satisfies the arena invariant and has exactly the agents
  of the partitions; every wire inside a partition and every interface port is kept, and the two ends
  of every border are joined to each other.  The queue holds only active pairs, as many as the
  reported count, and holds all of them when no partition has an active pair of its own left.
\<close>

theorem merge_correct:
  assumes "plan_inv plan" "distinct border_order" "set border_order = dom (pl_borders plan)"
    and "merge border_order plan = (m, c)"
  shows "core_inv m \<and>
    (\<forall>i. live m i \<longleftrightarrow> (\<exists>p \<in> set (pl_partitions plan). live (p_subnet p) i)) \<and>
    (\<forall>p \<in> set (pl_partitions plan). \<forall>i q. live (p_subnet p) i \<longrightarrow> q < 3 \<longrightarrow>
       sym_at m i = sym_at (p_subnet p) i \<and>
       (case tgt (p_subnet p) i q of
          AgentPort j s \<Rightarrow> tgt m i q = AgentPort j s
        | FreePort b \<Rightarrow>
            if b \<in> dom (pl_borders plan)
            then (\<exists>j s. tgt m i q = AgentPort j s \<and>
                   (index_ports (pl_partitions plan) b = [AgentPort i q, AgentPort j s] \<or>
                    index_ports (pl_partitions plan) b = [AgentPort j s, AgentPort i q]))
            else tgt m i q = FreePort b)) \<and>
    c = length (redex_queue m) \<and> (\<forall>(a, b) \<in> set (redex_queue m). active_pair m a b) \<and>
    ((\<forall>p \<in> set (pl_partitions plan). \<forall>a b. \<not> active_pair (p_subnet p) a b) \<longrightarrow> queue_complete m)"
proof -
  obtain r where r: "restored plan border_order (r, c)" "core_inv m" "sym_at m = sym_at (united plan)" "tgt m = tgt r"
      "redex_queue m = redex_queue r"
    using merge_spec [OF assms] by metis
  note port = merged_port [OF assms(1) r(1) assms(3), folded r(4)]
  note S = r(1) [unfolded restored_def fst_conv snd_conv, folded r(4,5)]
  have queue: "redex_queue m = concat (map (border_redexes plan) border_order)"
    using S by blast
  have valid: "active_pair m a d" if "(a, d) \<in> set (redex_queue m)" for a d
  proof -
    obtain b where "b \<in> set border_order" "(a, d) \<in> set (border_redexes plan b)"
      using \<open>(a, d) \<in> set (redex_queue m)\<close> by (auto simp: queue)
    then show ?thesis
      using border_redexes_index S unfolding active_pair_def by blast
  qed
  have complete: "(a, d) \<in> set (redex_queue m) \<or> (d, a) \<in> set (redex_queue m)"
    if none: "\<forall>p \<in> set (pl_partitions plan). \<forall>a b. \<not> active_pair (p_subnet p) a b" and ad: "active_pair m a d" for a d
  proof -
    have "live m a"
      using ad tgt_valid(2) [OF r(2), of 0 a] valid_port_live by (simp add: active_pair_def)
    then obtain p where p: "p \<in> set (pl_partitions plan)" "live (p_subnet p) a"
      using r(3) united_live [OF assms(1)] by auto
    have "tgt (p_subnet p) a 0 \<noteq> AgentPort d 0" "tgt m a 0 = AgentPort d 0"
      using none p(1) ad by (auto simp: active_pair_def)
    then obtain b where "b \<in> dom (pl_borders plan)"
        "index_ports (pl_partitions plan) b = [AgentPort a 0, AgentPort d 0] \<or>
         index_ports (pl_partitions plan) b = [AgentPort d 0, AgentPort a 0]"
      using port [OF p, of 0] by (auto split: port_ref.splits if_splits)
    then have "b \<in> set border_order" "(a, d) \<in> set (border_redexes plan b) \<or> (d, a) \<in> set (border_redexes plan b)"
      using assms(3) by (auto simp: border_redexes_def new_redexes_def)
    then show ?thesis
      unfolding queue by auto
  qed
  have syms: "sym_at m i = sym_at (p_subnet p) i" if "p \<in> set (pl_partitions plan)" "live (p_subnet p) i" for p i
    using united_sym(1) [OF assms(1) that] r(3) by simp
  have alive: "live m i \<longleftrightarrow> (\<exists>p \<in> set (pl_partitions plan). live (p_subnet p) i)" for i
    unfolding r(3) by (rule united_live [OF assms(1)])
  show ?thesis
  proof (intro conjI allI ballI impI)
    show "case ab of (a, b) \<Rightarrow> active_pair m a b" if "ab \<in> set (redex_queue m)" for ab
      using valid that by (cases ab) simp
    show "queue_complete m" if "\<forall>p \<in> set (pl_partitions plan). \<forall>a b. \<not> active_pair (p_subnet p) a b"
      using complete [OF that] by (simp add: queue_complete_def)
    show "c = length (redex_queue m)"
      using S by blast
  qed (rule r(2) alive syms port | assumption)+
qed

section \<open>Merging what a split built\<close>

lemma length_index_ports: "length (index_ports parts b) = length (filter (\<lambda>p. p_free_port_index p b \<noteq> None) parts)"
  by (induction parts) (auto split: option.split)

lemma part_border_port:
  assumes inv: "core_inv n" and part: "part_spec cfg n sigma k w p" and room: "border_space_ok n sigma"
    and cov: "covered n sigma k"
  shows "sigma i = Some w \<and> cut_end n sigma b (i, q) \<longleftrightarrow>
    b \<in> dom (border_map n sigma) \<and> q < 3 \<and> live (p_subnet p) i \<and> tgt (p_subnet p) i q = FreePort b"
proof
  assume e: "sigma i = Some w \<and> cut_end n sigma b (i, q)"
  have q: "q < 3" "valid_port n i q"
    using cut_end_tgt [OF inv conjunct2 [OF e]] by metis+
  have "sub_tgt n (worker_overrides n sigma w) i q = FreePort b"
    using e overrides_cut [OF inv, of sigma w i q b] by (simp add: sub_tgt_def)
  then show "b \<in> dom (border_map n sigma) \<and> q < 3 \<and> live (p_subnet p) i \<and> tgt (p_subnet p) i q = FreePort b"
    using e q part_sym [OF part, of i] valid_port_live [OF q(2)] sub_view_tgt [OF part_specD(2) [OF part] q(1), of i]
    by (auto simp: in_dom_border_map)
next
  assume *: "b \<in> dom (border_map n sigma) \<and> q < 3 \<and> live (p_subnet p) i \<and> tgt (p_subnet p) i q = FreePort b"
  then have own: "sigma i = Some w"
    using part_sym [OF part, of i] by (auto split: if_splits)
  have t: "sub_tgt n (worker_overrides n sigma w) i q = FreePort b"
    using * own sub_view_tgt [OF part_specD(2) [OF part], of q i] by simp
  have bnd: "border_start n \<le> b" "b < u32_MAX"
    using * room by (auto simp: dom_border_map border_space_ok_def length_cuts)
  have "cut_end n sigma b (i, q)"
    using inv own conjunct1 [OF conjunct2 [OF *]]
  proof (cases rule: sub_tgt_cases)
    case (border b')
    then show ?thesis
      using t by simp
  next
    case inner
    then have "tgt n i q = FreePort b"
      using t by simp
    then show ?thesis
      using freeport_below_start [of n i q b] bnd by simp
  qed
  then show "sigma i = Some w \<and> cut_end n sigma b (i, q)"
    using own by simp
qed

text \<open>The plan of a split is ready to be merged.\<close>

lemma split_plan_inv:
  assumes inv: "core_inv n" and cov: "covered n sigma k" and room: "border_space_ok n sigma"
    and len: "length (pl_partitions plan) = k" and borders: "pl_borders plan = border_map n sigma"
    and spec: "\<And>w. w < k \<Longrightarrow> part_spec cfg n sigma k w (pl_partitions plan ! w)"
  shows "plan_inv plan"
  unfolding plan_inv_def
proof (intro conjI ballI allI)
  fix p
  assume "p \<in> set (pl_partitions plan)"
  then obtain w where w: "w < k" "p = pl_partitions plan ! w"
    using len by (auto simp: in_set_conv_nth)
  note part = spec [OF w(1), folded w(2)]
  show "core_inv (p_subnet p)"
    by (rule part_specD(1) [OF part])
  fix b x
  show "p_free_port_index p b = Some x \<longleftrightarrow> b \<in> dom (pl_borders plan) \<and>
      (\<exists>i q. x = AgentPort i q \<and> q < 3 \<and> live (p_subnet p) i \<and> tgt (p_subnet p) i q = FreePort b)"
    unfolding part_index [OF inv part] part_border_port [OF inv part room cov] borders by blast
next
  show "disjoint_parts (pl_partitions plan)"
    unfolding disjoint_parts_def sorted_wrt_iff_nth_less
  proof (intro allI impI)
    fix v w i
    assume vw: "v < w" "w < length (pl_partitions plan)" and alive: "live (p_subnet (pl_partitions plan ! v)) i"
    show "\<not> live (p_subnet (pl_partitions plan ! w)) i"
      using part_sym [OF spec, of v i] part_sym [OF spec, of w i] vw len alive by (auto split: if_splits)
  qed
next
  fix b
  assume "b \<in> dom (pl_borders plan)"
  then show "index_ports (pl_partitions plan) b = [] \<or> length (index_ports (pl_partitions plan) b) = 2"
    using border_in_two [OF inv cov len spec, of b] borders by (simp add: length_index_ports)
next
  show "u32_MAX \<notin> dom (pl_borders plan)"
    using room by (auto simp: borders dom_border_map border_space_ok_def length_cuts)
qed

lemma united_root:
  "root (fold (merge_partition borders) ps r) =
     (case rev (List.map_filter (\<lambda>p. root (p_subnet p)) ps) of [] \<Rightarrow> root r | x # xs \<Rightarrow> Some x)"
proof (induction ps rule: rev_induct)
  case (snoc p ps)
  then show ?case
    by (auto simp: merge_partition_def Let_def map_filter_def split: prod.splits list.splits)
qed (simp add: map_filter_simps)

lemma root_united:
  "root (united plan) = (case rev (List.map_filter (\<lambda>p. root (p_subnet p)) (pl_partitions plan)) of
     [] \<Rightarrow> None | x # xs \<Rightarrow> Some x)"
  by (simp add: united_def Let_def united_root net_new_def split: list.split)

theorem merge_correct_witness:
  "\<exists>plan m c. split_with_config contiguous_allocate (\<lambda>_. [0, 1]) partition_config_default (pair_net Con Dup) 2 = Some plan \<and>
     merge [4] plan = (m, c) \<and> core_inv m \<and> c = length (redex_queue m)"
proof -
  have strat: "partition_strategy contiguous_allocate"
    by unfold_locales
  have two: "1 < (2 :: nat)"
    by simp
  have ready: "split_ready (pair_net Con Dup) pair_sigma ((\<lambda>_. [0, 1]) pair_sigma) 2"
    using pair_split_ready .
  obtain plan where plan: "split_with_config contiguous_allocate (\<lambda>_. [0, 1]) partition_config_default (pair_net Con Dup) 2 = Some plan"
      "pl_borders plan = border_map (pair_net Con Dup) pair_sigma" "length (pl_partitions plan) = 2"
      "\<And>w. w < 2 \<Longrightarrow> part_spec partition_config_default (pair_net Con Dup) pair_sigma 2 w (pl_partitions plan ! w)"
    using split_spec [where order = "\<lambda>_. [0, 1]", OF strat pair_net_core two pair_allocate ready default_config]
    by blast
  have "plan_inv plan"
    using split_plan_inv [OF pair_net_core strategy_covered [OF strat pair_allocate] _ plan(3,2,4)] ready
    unfolding split_ready_def by blast
  moreover have "set [4] = dom (pl_borders plan)"
    using pair_cuts by (auto simp: plan(2) dom_border_map length_cuts)
  moreover obtain m c where "merge [4] plan = (m, c)"
    by (cases "merge [4] plan")
  ultimately show ?thesis
    using merge_correct [of plan "[4]" m c] plan(1) by auto
qed

text \<open>The indices of a split list exactly the ends of the cut wires.\<close>

lemma split_index_ports:
  assumes inv: "core_inv n" and cov: "covered n sigma k" and len: "length parts = k"
    and spec: "\<And>w. w < k \<Longrightarrow> part_spec cfg n sigma k w (parts ! w)"
  shows "AgentPort i q \<in> set (index_ports parts b) \<longleftrightarrow> cut_end n sigma b (i, q)"
proof
  assume "AgentPort i q \<in> set (index_ports parts b)"
  then obtain p where "p \<in> set parts" "p_free_port_index p b = Some (AgentPort i q)"
    by (auto simp: in_index_ports)
  then obtain w where "w < k" "p_free_port_index (parts ! w) b = Some (AgentPort i q)"
    using len by (auto simp: in_set_conv_nth)
  then show "cut_end n sigma b (i, q)"
    using part_index [OF inv spec] by blast
next
  assume e: "cut_end n sigma b (i, q)"
  then have "live n i"
    using cut_end_tgt [OF inv] valid_port_live by metis
  then obtain w where w: "sigma i = Some w" "w < k"
    using coveredD(2,3) [OF cov] by blast
  then have "p_free_port_index (parts ! w) b = Some (AgentPort i q)"
    using part_index [OF inv spec [OF w(2)]] e by blast
  then show "AgentPort i q \<in> set (index_ports parts b)"
    using w(2) len by (auto simp: in_index_ports)
qed

lemma propagated_root:
  assumes cov: "covered n sigma k" and rt: "root_ok n" and len: "length parts = k"
    and spec: "\<And>w. w < k \<Longrightarrow> part_spec cfg n sigma k w (parts ! w)"
  shows "List.map_filter (\<lambda>p. root (p_subnet p)) parts = (case root n of None \<Rightarrow> [] | Some x \<Rightarrow> [x])"
proof -
  have "parts = map ((!) parts) [0..<k]"
    using len by (auto intro: nth_equalityI)
  then have "List.map_filter (\<lambda>p. root (p_subnet p)) parts = List.map_filter (\<lambda>p. root (p_subnet p)) (map ((!) parts) [0..<k])"
    by simp
  also have "\<dots> = List.map_filter (\<lambda>w. root (p_subnet (parts ! w))) [0..<k]"
    by (simp add: map_filter_def filter_map comp_def)
  also have "\<dots> = List.map_filter (propagate_root n sigma) [0..<k]"
    unfolding map_filter_def using part_specD(3) [OF spec] by (intro map_cong filter_cong) auto
  also have "\<dots> = (case root n of None \<Rightarrow> [] | Some x \<Rightarrow> [x])"
  proof (cases "root n")
    case None
    then show ?thesis
      by (simp add: map_filter_def propagate_root_def)
  next
    case (Some x)
    then obtain i where x: "x = AgentPort i 0" "live n i"
      using rt by (auto simp: root_ok_def split: port_ref.splits)
    obtain w where w: "sigma i = Some w" "w < k"
      using coveredD(2,3) [OF cov] x(2) by blast
    have "filter (\<lambda>v. propagate_root n sigma v \<noteq> None) [0..<k] = filter (\<lambda>v. v = w) [0..<k]"
      using Some x(1) w(1) by (intro filter_cong) (auto simp: propagate_root_def)
    also have "\<dots> = [w]"
      using w(2) by (induction k) auto
    finally show ?thesis
      using Some x(1) w(1) by (simp add: map_filter_def comp_def) (simp add: propagate_root_def)
  qed
  finally show ?thesis .
qed

text \<open>The view of the merged net, for a plan that a split built.\<close>

definition split_plan ::
  "partition_config \<Rightarrow> net \<Rightarrow> (agent_id \<rightharpoonup> worker_id) \<Rightarrow> nat \<Rightarrow> partition_plan \<Rightarrow> bool" where
  "split_plan cfg n sigma k plan \<longleftrightarrow>
     core_inv n \<and> covered n sigma k \<and> border_space_ok n sigma \<and> length (pl_partitions plan) = k \<and>
     pl_borders plan = border_map n sigma \<and> (\<forall>w < k. part_spec cfg n sigma k w (pl_partitions plan ! w))"

lemma split_planD:
  assumes "split_plan cfg n sigma k plan"
  shows "core_inv n" "covered n sigma k" "border_space_ok n sigma" "length (pl_partitions plan) = k"
    "pl_borders plan = border_map n sigma" "w < k \<Longrightarrow> part_spec cfg n sigma k w (pl_partitions plan ! w)" "plan_inv plan"
    "sigma i = Some w \<Longrightarrow> pl_partitions plan ! w \<in> set (pl_partitions plan)"
    "sigma i = Some w \<Longrightarrow> live (p_subnet (pl_partitions plan ! w)) i"
proof -
  show inv: "core_inv n" and cov: "covered n sigma k" and room: "border_space_ok n sigma"
    and len: "length (pl_partitions plan) = k" and borders: "pl_borders plan = border_map n sigma"
    and spec: "\<And>w. w < k \<Longrightarrow> part_spec cfg n sigma k w (pl_partitions plan ! w)"
    using assms by (simp_all add: split_plan_def)
  show "plan_inv plan"
    by (rule split_plan_inv [OF inv cov room len borders spec])
  show "sigma i = Some w \<Longrightarrow> pl_partitions plan ! w \<in> set (pl_partitions plan)"
    using coveredD(2) [OF cov] len by simp
  show "sigma i = Some w \<Longrightarrow> live (p_subnet (pl_partitions plan ! w)) i"
    using part_sym [OF spec, of w i] coveredD(1,2) [OF cov, of i w] by simp
qed

lemma merged_split_sym:
  assumes plan: "split_plan cfg n sigma k plan"
  shows "sym_at (united plan) = sym_at n"
proof
  fix i
  note P = split_planD [OF plan]
  show "sym_at (united plan) i = sym_at n i"
  proof (cases "sigma i")
    case (Some w)
    then have "w < k"
      using coveredD(2) [OF P(2)] by blast
    then show ?thesis
      using united_sym(1) [OF P(7,8,9), OF Some Some] part_sym [OF P(6), of w i] Some by simp
  next
    case None
    then have dead: "\<not> live n i"
      using P(2) unfolding covered_def by blast
    have "\<not> live (p_subnet p) i" if "p \<in> set (pl_partitions plan)" for p
      using that None part_sym [OF P(6), of _ i] P(4) by (auto simp: in_set_conv_nth)
    then show ?thesis
      using dead united_live [OF P(7), of i] by auto
  qed
qed

lemma split_border_fresh:
  assumes plan: "split_plan cfg n sigma k plan" and t: "tgt n i q = FreePort b"
  shows "b \<notin> dom (pl_borders plan)"
proof
  note P = split_planD [OF plan]
  assume "b \<in> dom (pl_borders plan)"
  then have "border_start n \<le> b" "b < u32_MAX"
    using P(3) by (auto simp: P(5) dom_border_map border_space_ok_def length_cuts)
  then show False
    using freeport_below_start [OF t] by simp
qed

lemma two_list: "length xs = 2 \<Longrightarrow> a \<in> set xs \<Longrightarrow> b \<in> set xs \<Longrightarrow> a \<noteq> b \<Longrightarrow> xs = [a, b] \<or> xs = [b, a]"
  by (cases xs; cases "tl xs") auto

lemma merged_split_tgt:
  assumes plan: "split_plan cfg n sigma k plan" and st: "restored plan border_order (r, c)"
    and ord: "set border_order = dom (pl_borders plan)" and own: "sigma i = Some w" and q: "q < 3"
  shows "tgt r i q = tgt n i q"
proof -
  note P = split_planD [OF plan]
  have w: "w < k"
    using coveredD(2) [OF P(2) own] .
  note port = merged_port [OF P(7) st ord P(8) [OF own] P(9) [OF own] q]
  have t: "tgt (p_subnet (pl_partitions plan ! w)) i q = sub_tgt n (worker_overrides n sigma w) i q"
    using sub_view_tgt [OF part_specD(2) [OF P(6) [OF w]] q, of i] own by simp
  show ?thesis
    using P(1) own q
  proof (cases rule: sub_tgt_cases)
    case (border b)
    have "b \<in> dom (pl_borders plan)"
      using border(2) P(5) in_dom_border_map by metis
    then obtain j s where js: "tgt r i q = AgentPort j s"
        "index_ports (pl_partitions plan) b = [AgentPort i q, AgentPort j s] \<or>
         index_ports (pl_partitions plan) b = [AgentPort j s, AgentPort i q]"
      using port t border(1) by auto
    have "AgentPort j s \<in> set (index_ports (pl_partitions plan) b)" "(i, q) \<noteq> (j, s)"
      using js(2) index_ports_distinct [OF P(7), of b] by auto
    then show ?thesis
      using cut_end_same(1) [OF P(1) border(2)] split_index_ports [OF P(1,2,4,6)] js(1) by metis
  next
    case inner
    then show ?thesis
      using port t split_border_fresh [OF plan, of i q] by (cases "tgt n i q") auto
  qed
qed

lemma merged_split_queue:
  assumes plan: "split_plan cfg n sigma k plan" and ord: "set border_order = dom (pl_borders plan)"
  shows "(a, b) \<in> set (concat (map (border_redexes plan) border_order)) \<or>
      (b, a) \<in> set (concat (map (border_redexes plan) border_order)) \<longleftrightarrow> active_pair n a b \<and> sigma a \<noteq> sigma b"
proof -
  note P = split_planD [OF plan]
  note ends = split_index_ports [OF P(1,2,4,6)]
  have "(\<exists>d \<in> dom (pl_borders plan). index_ports (pl_partitions plan) d = [AgentPort a 0, AgentPort b 0] \<or>
      index_ports (pl_partitions plan) d = [AgentPort b 0, AgentPort a 0]) \<longleftrightarrow> active_pair n a b \<and> sigma a \<noteq> sigma b"
  proof
    assume "\<exists>d \<in> dom (pl_borders plan). index_ports (pl_partitions plan) d = [AgentPort a 0, AgentPort b 0] \<or>
      index_ports (pl_partitions plan) d = [AgentPort b 0, AgentPort a 0]"
    then obtain d where "AgentPort a 0 \<in> set (index_ports (pl_partitions plan) d)"
        "AgentPort b 0 \<in> set (index_ports (pl_partitions plan) d)" "(a, 0) \<noteq> (b, 0 :: nat)"
      using index_ports_distinct [OF P(7)] by (metis distinct_length_2_or_more list.set_intros(1,2) prod.inject)
    then have "cut_end n sigma d (a, 0)" "cut_end n sigma d (b, 0)" "(a, 0) \<noteq> (b, 0 :: nat)"
      using ends [of a 0 d] ends [of b 0 d] by blast+
    then show "active_pair n a b \<and> sigma a \<noteq> sigma b"
      using cut_end_same(1,2) [OF P(1)] by (metis active_pair_def)
  next
    assume ab: "active_pair n a b \<and> sigma a \<noteq> sigma b"
    then obtain d where d: "cut_end n sigma d (a, 0)" "cut_end n sigma d (b, 0)"
      using cut_end_exists [OF P(1), of 0 a b 0 sigma] by (auto simp: active_pair_def)
    have dom: "d \<in> dom (pl_borders plan)"
      using d(1) P(5) in_dom_border_map by metis
    moreover have mem: "AgentPort a 0 \<in> set (index_ports (pl_partitions plan) d)" "AgentPort b 0 \<in> set (index_ports (pl_partitions plan) d)"
      using d ends [of a 0 d] ends [of b 0 d] by blast+
    then have "length (index_ports (pl_partitions plan) d) = 2"
      using plan_invD(4) [OF P(7) dom] by auto
    then have "index_ports (pl_partitions plan) d = [AgentPort a 0, AgentPort b 0] \<or>
        index_ports (pl_partitions plan) d = [AgentPort b 0, AgentPort a 0]"
      using mem ab by (intro two_list) auto
    ultimately show "\<exists>d \<in> dom (pl_borders plan). index_ports (pl_partitions plan) d = [AgentPort a 0, AgentPort b 0] \<or>
      index_ports (pl_partitions plan) d = [AgentPort b 0, AgentPort a 0]"
      by blast
  qed
  then show ?thesis
    unfolding border_redexes_index [symmetric] ord [symmetric] by auto
qed

text \<open>
  Splitting and merging gives the net back (C1), for every strategy that keeps its contract and
  every iteration order of the maps: the same agents, the same wires, the same root; the queue holds
  exactly the active pairs whose two agents lie on different workers.
\<close>

theorem merge_split:
  assumes "partition_strategy allocate" "core_inv n" "root_ok n" "1 < k" "allocate n k = Some sigma"
    and "split_ready n sigma (order sigma) k" "pc_sparse_build cfg"
  shows "\<exists>plan. split_with_config allocate order cfg n k = Some plan \<and>
    (\<forall>border_order m c. distinct border_order \<longrightarrow> set border_order = dom (pl_borders plan) \<longrightarrow>
       merge border_order plan = (m, c) \<longrightarrow>
       core_inv m \<and> sym_at m = sym_at n \<and> (\<forall>i q. q < 3 \<longrightarrow> tgt m i q = tgt n i q) \<and> root m = root n \<and>
       (\<forall>a b. (a, b) \<in> set (redex_queue m) \<or> (b, a) \<in> set (redex_queue m) \<longleftrightarrow>
          active_pair n a b \<and> sigma a \<noteq> sigma b))"
proof -
  note cov = strategy_covered [OF assms(1,5)]
  have room: "border_space_ok n sigma"
    using assms(6) by (simp add: split_ready_def)
  obtain plan where plan: "split_with_config allocate order cfg n k = Some plan" "pl_borders plan = border_map n sigma"
      "length (pl_partitions plan) = k" "\<And>w. w < k \<Longrightarrow> part_spec cfg n sigma k w (pl_partitions plan ! w)"
    using split_spec [where order = order, OF assms(1,2,4-7)] by metis
  have sp: "split_plan cfg n sigma k plan"
    using assms(2) cov room plan(2-4) by (simp add: split_plan_def)
  note inv = split_planD(7) [OF sp]
  show ?thesis
  proof (rule exI [of _ plan], intro conjI impI allI)
    show "split_with_config allocate order cfg n k = Some plan"
      by (rule plan(1))
    fix border_order m c
    assume ord: "distinct border_order" "set border_order = dom (pl_borders plan)" and ret: "merge border_order plan = (m, c)"
    obtain r where r: "restored plan border_order (r, c)" "core_inv m" "sym_at m = sym_at (united plan)" "tgt m = tgt r"
        "redex_queue m = redex_queue r" "root m = root (united plan)"
      using merge_spec [OF inv ord ret] by metis
    show "core_inv m"
      by (rule r(2))
    show syms: "sym_at m = sym_at n"
      using r(3) merged_split_sym [OF sp] by simp
    show "tgt m i q = tgt n i q" if q: "q < 3" for i q
    proof (cases "sigma i")
      case None
      then have "\<not> live n i"
        using cov unfolding covered_def by blast
      then show ?thesis
        using dead_tgt [OF assms(2)] dead_tgt [OF r(2)] syms q by metis
    qed (use merged_split_tgt [OF sp r(1) ord(2) _ q] r(4) in simp)
    have "List.map_filter (\<lambda>p. root (p_subnet p)) (pl_partitions plan) = (case root n of None \<Rightarrow> [] | Some x \<Rightarrow> [x])"
      by (rule propagated_root [OF cov assms(3) plan(3,4)])
    then show "root m = root n"
      unfolding r(6) root_united by (simp split: option.split)
    have "redex_queue m = concat (map (border_redexes plan) border_order)"
      using r(1,5) by (simp add: restored_def)
    then show "(a, b) \<in> set (redex_queue m) \<or> (b, a) \<in> set (redex_queue m) \<longleftrightarrow> active_pair n a b \<and> sigma a \<noteq> sigma b" for a b
      using merged_split_queue [OF sp ord(2)] by simp
  qed
qed

theorem merge_split_witness:
  "\<exists>plan m c. split_with_config contiguous_allocate (\<lambda>_. [0, 1]) partition_config_default (pair_net Con Dup) 2 = Some plan \<and>
     merge [4] plan = (m, c) \<and> sym_at m = sym_at (pair_net Con Dup) \<and>
     ((0, 1) \<in> set (redex_queue m) \<or> (1, 0) \<in> set (redex_queue m))"
proof -
  have strat: "partition_strategy contiguous_allocate"
    by unfold_locales
  have two: "1 < (2 :: nat)"
    by simp
  have rt: "root_ok (pair_net Con Dup)"
    using net_invD(3) [OF pair_net_inv] .
  have ready: "split_ready (pair_net Con Dup) pair_sigma ((\<lambda>_. [0, 1]) pair_sigma) 2"
    using pair_split_ready .
  note round_trip = merge_split [where order = "\<lambda>_. [0, 1]", OF strat pair_net_core rt two pair_allocate ready default_config]
  then obtain plan where plan: "split_with_config contiguous_allocate (\<lambda>_. [0, 1]) partition_config_default (pair_net Con Dup) 2 = Some plan"
      "\<forall>border_order m c. distinct border_order \<longrightarrow> set border_order = dom (pl_borders plan) \<longrightarrow>
       merge border_order plan = (m, c) \<longrightarrow>
       core_inv m \<and> sym_at m = sym_at (pair_net Con Dup) \<and> (\<forall>i q. q < 3 \<longrightarrow> tgt m i q = tgt (pair_net Con Dup) i q) \<and>
       root m = root (pair_net Con Dup) \<and>
       (\<forall>a b. (a, b) \<in> set (redex_queue m) \<or> (b, a) \<in> set (redex_queue m) \<longleftrightarrow>
          active_pair (pair_net Con Dup) a b \<and> pair_sigma a \<noteq> pair_sigma b)"
    by blast
  obtain plan' where plan': "split_with_config contiguous_allocate (\<lambda>_. [0, 1]) partition_config_default (pair_net Con Dup) 2 = Some plan'"
      "pl_borders plan' = border_map (pair_net Con Dup) pair_sigma"
    using split_spec [where order = "\<lambda>_. [0, 1]", OF strat pair_net_core two pair_allocate ready default_config] by blast
  have borders: "set [4] = dom (pl_borders plan)"
    using pair_cuts plan(1) plan' by (auto simp: dom_border_map length_cuts)
  obtain m c where m: "merge [4] plan = (m, c)"
    by (cases "merge [4] plan")
  have "active_pair (pair_net Con Dup) 0 1 \<and> pair_sigma 0 \<noteq> pair_sigma 1"
    by simp
  then show ?thesis
    using plan(1) plan(2) [rule_format, OF _ borders m] m by (metis distinct_singleton)
qed

section \<open>Well-formedness of the merged net\<close>

text \<open>
  Merging keeps the runtime invariants (C22): if every partition passes them and at most one holds
  the root, the merged net passes every check of \<open>assert_all_invariants\<close>.
\<close>

theorem merge_preserves:
  assumes "plan_inv plan" "\<forall>p \<in> set (pl_partitions plan). net_inv (p_subnet p)"
    and "length (List.map_filter (\<lambda>p. root (p_subnet p)) (pl_partitions plan)) \<le> 1"
    and "distinct border_order" "set border_order = dom (pl_borders plan)" "merge border_order plan = (m, c)"
  shows "net_inv m \<and> assert_all_invariants m"
proof -
  obtain r where r: "restored plan border_order (r, c)" "core_inv m" "sym_at m = sym_at (united plan)" "tgt m = tgt r"
      "root m = root (united plan)"
    using merge_spec [OF assms(1,4-6)] by metis
  note port = merged_port [OF assms(1) r(1) assms(5), folded r(4)]
  have rootm: "root m = (case rev (List.map_filter (\<lambda>p. root (p_subnet p)) (pl_partitions plan)) of [] \<Rightarrow> None | x # xs \<Rightarrow> Some x)"
    unfolding r(5) by (rule root_united)
  have one: "root m = Some x \<longleftrightarrow> (\<exists>p \<in> set (pl_partitions plan). root (p_subnet p) = Some x)" for x
  proof -
    have "(\<exists>p \<in> set (pl_partitions plan). root (p_subnet p) = Some x) \<longleftrightarrow>
        x \<in> set (List.map_filter (\<lambda>p. root (p_subnet p)) (pl_partitions plan))"
      by (force simp: map_filter_def)
    also have "\<dots> \<longleftrightarrow> root m = Some x"
      using assms(3) by (cases "List.map_filter (\<lambda>p. root (p_subnet p)) (pl_partitions plan)") (auto simp: rootm)
    finally show ?thesis
      by simp
  qed
  have sentinel: "u32_MAX \<notin> dom (pl_borders plan)"
    using plan_invD(5) [OF assms(1)] .
  have open_port: "tgt m i q = DISCONNECTED \<longleftrightarrow> tgt (p_subnet p) i q = DISCONNECTED"
    if p: "p \<in> set (pl_partitions plan)" "live (p_subnet p) i" "q < 3" for p i q
    using port [OF p] sentinel
    by (cases "tgt (p_subnet p) i q") (auto simp: DISCONNECTED_def split: if_splits)
  have wired: "fully_wired m"
    unfolding fully_wired_def
  proof (intro allI impI)
    fix i q
    assume v: "valid_port m i q" and t: "tgt m i q = DISCONNECTED"
    obtain p where p: "p \<in> set (pl_partitions plan)" "live (p_subnet p) i"
      using valid_port_live [OF v] united_live [OF assms(1)] r(3) by auto
    have "valid_port (p_subnet p) i q"
      using v united_sym(1) [OF assms(1) p] r(3) by (simp add: valid_port_def)
    moreover have "tgt (p_subnet p) i q = DISCONNECTED"
      using open_port [OF p valid_port_less [OF v]] t by simp
    ultimately have "root (p_subnet p) = Some (AgentPort i q)"
      using assms(2) p(1) net_invD(2) unfolding fully_wired_def by blast
    then show "root m = Some (AgentPort i q)"
      using one p(1) by blast
  qed
  have "root_ok m"
  proof (cases "root m")
    case (Some x)
    then obtain p where p: "p \<in> set (pl_partitions plan)" "root (p_subnet p) = Some x"
      using one by blast
    then obtain i where x: "x = AgentPort i 0" "live (p_subnet p) i" "tgt (p_subnet p) i 0 = DISCONNECTED"
      using net_invD(3) assms(2) by (fastforce simp: root_ok_def split: port_ref.splits)
    then show ?thesis
      using Some open_port [OF p(1) x(2), of 0] united_sym(1) [OF assms(1) p(1) x(2)] r(3) by (simp add: root_ok_def)
  qed (simp add: root_ok_def)
  then have "net_inv m"
    using r(2) wired by (simp add: net_inv_def)
  then show ?thesis
    using net_inv_asserts by blast
qed

theorem merge_preserves_witness:
  "net_inv (fst (merge [] (trivial_plan (pair_net Con Dup))))"
proof -
  let ?plan = "trivial_plan (pair_net Con Dup)"
  have "plan_inv ?plan"
    by (simp add: plan_inv_def trivial_plan_def disjoint_parts_def)
  moreover have "length (List.map_filter (\<lambda>p. root (p_subnet p)) (pl_partitions ?plan)) \<le> 1"
    by (simp add: trivial_plan_def map_filter_def)
  ultimately show ?thesis
    using merge_preserves [of ?plan "[]" "fst (merge [] ?plan)" "snd (merge [] ?plan)"] pair_net_inv [of Con Dup]
    by (simp add: trivial_plan_def)
qed

end
