(* ===== verification/Request_Ids.thy ===== *)
theory Request_Ids
  imports Prelude "HOL-Library.Word"
begin

text \<open>
  The correlation codec of the delta protocol (\<open>merge/border_resolver.rs\<close>): a commutation identifier
  (\<open>u64\<close>) and an agent slot (\<open>u8\<close>) packed into the \<open>u32\<close> request identifier of the wire, and the two
  counters of the resolver.  Everything is kept at its machine width; \<open>as\<close> casts are \<open>ucast\<close>.
\<close>

unbundle bit_operations_syntax

type_synonym commutation_id = "64 word"
type_synonym request_id = "32 word"
type_synonym agent_slot = "8 word"

definition cid_low28 :: "commutation_id \<Rightarrow> 32 word" where
  "cid_low28 cid = ucast cid AND 0x0FFFFFFF"

definition encode_request_id :: "commutation_id \<Rightarrow> agent_slot \<Rightarrow> request_id" where
  "encode_request_id cid slot = push_bit 4 (cid_low28 cid) OR (ucast slot AND 0xF)"

definition decode_request_id :: "request_id \<Rightarrow> 32 word \<times> agent_slot" where
  "decode_request_id r = (drop_bit 4 r AND 0x0FFFFFFF, ucast (r AND 0xF))"

text \<open>The counter of commutation identifiers; \<open>None\<close> is the exhaustion panic.\<close>

record commutation_id_allocator =
  ca_next :: commutation_id

definition commutation_alloc_new :: commutation_id_allocator where
  "commutation_alloc_new = \<lparr>ca_next = 0\<rparr>"

definition commutation_alloc_next ::
  "commutation_id_allocator \<Rightarrow> (commutation_id \<times> commutation_id_allocator) option" where
  "commutation_alloc_next a =
     (if ca_next a = - 1 then None else Some (ca_next a, a\<lparr>ca_next := ca_next a + 1\<rparr>))"

section \<open>Bits\<close>

lemma masks: "(0x0FFFFFFF :: 32 word) = mask 28" "(0xF :: 32 word) = mask 4" "(0xF :: 8 word) = mask 4"
  by (simp_all add: mask_eq_exp_minus_1)

lemma bit_cid_low28: "bit (cid_low28 cid) k \<longleftrightarrow> k < 28 \<and> bit cid k"
  by (auto simp: cid_low28_def masks bit_simps)

lemma bit_encode: "bit (encode_request_id cid slot) k \<longleftrightarrow> (if k < 4 then bit slot k else k < 32 \<and> bit cid (k - 4))"
  by (auto simp: encode_request_id_def bit_cid_low28 masks bit_simps)

lemma bit_decode:
  "bit (fst (decode_request_id r)) k \<longleftrightarrow> k < 28 \<and> bit r (k + 4)"
  "bit (snd (decode_request_id r)) k \<longleftrightarrow> k < 4 \<and> bit r k"
  by (auto simp: decode_request_id_def masks bit_simps ac_simps)

text \<open>Decoding gives back the slot and the low 28 bits.\<close>

lemma decode_encode: "decode_request_id (encode_request_id cid slot) = (cid_low28 cid, slot AND 0xF)"
proof (rule prod_eqI)
  show "fst (decode_request_id (encode_request_id cid slot)) = fst (cid_low28 cid, slot AND 0xF)"
    by (rule bit_word_eqI) (auto simp: bit_decode bit_encode bit_cid_low28)
  show "snd (decode_request_id (encode_request_id cid slot)) = snd (cid_low28 cid, slot AND 0xF)"
    by (rule bit_word_eqI) (auto simp: bit_decode bit_encode masks bit_simps)
qed

lemma encode_decode: "encode_request_id (ucast (fst (decode_request_id r))) (snd (decode_request_id r)) = r"
  by (rule bit_word_eqI) (auto simp: bit_decode bit_encode bit_simps)

lemma cid_low28_small: "cid < 2 ^ 28 \<Longrightarrow> unat (cid_low28 cid) = unat cid"
proof -
  assume "cid < 2 ^ 28"
  then have small: "unat cid < 2 ^ 28"
    by (simp add: word_less_nat_alt)
  have "unat (cid_low28 cid) = take_bit 28 (unat (ucast cid :: 32 word))"
    by (simp add: cid_low28_def masks take_bit_eq_mask [symmetric] unsigned_take_bit_eq)
  also have "\<dots> = unat cid"
    using small by (simp add: unsigned_ucast_eq take_bit_nat_eq_self_iff)
  finally show ?thesis .
qed

lemma slot_small: "slot < 16 \<Longrightarrow> slot AND 0xF = (slot :: agent_slot)"
proof -
  assume "slot < 16"
  then have "unat (take_bit 4 slot) = unat slot"
    by (simp add: unsigned_take_bit_eq take_bit_nat_eq_self_iff word_less_nat_alt)
  then have "take_bit 4 slot = slot"
    by (rule unsigned_word_eqI)
  then show ?thesis
    by (simp add: masks take_bit_eq_mask)
qed

lemma cid_low28_inj: "cid < 2 ^ 28 \<Longrightarrow> cid' < 2 ^ 28 \<Longrightarrow> cid_low28 cid = cid_low28 cid' \<longleftrightarrow> cid = cid'"
  by (metis cid_low28_small unsigned_word_eqI)

section \<open>Correlation\<close>

text \<open>
  Request identifiers correlate exactly (C36): within the capacity envelope of \<open>2 ^ 28\<close> commutations
  and 16 slots, two requests get the same identifier only if they are the same request, decoding gives
  the request back, and every \<open>u32\<close> is the encoding of what it decodes to.
\<close>

theorem request_id_roundtrip:
  assumes "cid < 2 ^ 28" "cid' < 2 ^ 28" "slot < 16" "slot' < 16"
  shows "(encode_request_id cid slot = encode_request_id cid' slot' \<longleftrightarrow> cid = cid' \<and> slot = slot') \<and>
    decode_request_id (encode_request_id cid slot) = (ucast cid, slot) \<and>
    (case decode_request_id r of (c, s) \<Rightarrow> encode_request_id (ucast c) s = r)"
proof (intro conjI)
  show "encode_request_id cid slot = encode_request_id cid' slot' \<longleftrightarrow> cid = cid' \<and> slot = slot'"
    using decode_encode [of cid slot] decode_encode [of cid' slot'] slot_small assms cid_low28_inj
    by (metis Pair_inject)
  have "cid_low28 cid = ucast cid"
  proof -
    have "unat (ucast cid :: 32 word) = unat cid"
      using assms(1) by (simp add: unsigned_ucast_eq take_bit_nat_eq_self_iff word_less_nat_alt)
    then show ?thesis
      using cid_low28_small [OF assms(1)] by (metis unsigned_word_eqI)
  qed
  then show "decode_request_id (encode_request_id cid slot) = (ucast cid, slot)"
    by (simp add: decode_encode slot_small assms(3))
  show "case decode_request_id r of (c, s) \<Rightarrow> encode_request_id (ucast c) s = r"
    using encode_decode [of r] by (simp add: split_beta)
qed

theorem request_id_roundtrip_witness:
  "encode_request_id 5 1 \<noteq> encode_request_id 5 0 \<and> decode_request_id (encode_request_id 5 1) = (5, 1) \<and>
   encode_request_id 5 1 = 81"
proof -
  have "encode_request_id 5 1 = 81"
    by (simp add: encode_request_id_def cid_low28_def)
  then show ?thesis
    using request_id_roundtrip [of 5 5 1 0] by simp
qed

text \<open>Outside the envelope, where only a debug assertion guards, identifiers collide.\<close>

lemma request_id_collision: "encode_request_id (cid + 2 ^ 28) slot = encode_request_id cid slot"
proof -
  have "cid_low28 (cid + 2 ^ 28) = cid_low28 cid"
  proof (rule unsigned_word_eqI)
    show "unat (cid_low28 (cid + 2 ^ 28)) = unat (cid_low28 cid)"
      by (simp add: cid_low28_def masks take_bit_eq_mask [symmetric] unsigned_take_bit_eq
          unsigned_ucast_eq take_bit_eq_mod unat_word_ariths mod_mod_cancel mod_add_left_eq)
  qed
  then show ?thesis
    by (simp add: encode_request_id_def)
qed

text \<open>Successive commutation identifiers are distinct.\<close>

lemma commutation_alloc_next_mono:
  "commutation_alloc_next a = Some (cid, a') \<Longrightarrow> cid = ca_next a \<and> cid < ca_next a' \<and> ca_next a' = cid + 1"
  by (auto simp: commutation_alloc_next_def word_less_nat_alt split: if_splits)
     (metis add.commute eq_neg_iff_add_eq_0 lessI unatSuc)

end
