(* ===== verification/Border_Graph.thy ===== *)
theory Border_Graph
  imports Merge_Core Request_Ids
begin

text \<open>
  The coordinator's tracker of border wires (\<open>merge/border_graph.rs\<close>).  The first part is the code:
  the record, its construction from a plan, the operations of a delta round and the finalizer of
  pending borders.  The second part is the well-formedness invariant and its preservation by every
  operation.  Iteration orders of hash maps and sets are arguments; \<open>None\<close> is a panic.
\<close>

section \<open>Data\<close>

record border_state =
  bs_border_id :: nat
  bs_side_a :: port_ref
  bs_side_b :: port_ref
  bs_worker_a :: worker_id
  bs_worker_b :: worker_id
  bs_is_redex :: bool

record border_delta =
  bd_border_id :: nat
  bd_new_target :: port_ref

record minted_agent =
  ma_request_id :: request_id
  ma_agent_id :: agent_id

record add_border_entry =
  ab_border_id :: nat
  ab_side_a :: port_ref
  ab_side_b :: port_ref
  ab_worker_a :: worker_id
  ab_worker_b :: worker_id

datatype pending_port_ref =
    Concrete port_ref
  | Pending commutation_id agent_slot port_id

record pending_new_border =
  pb_border_id :: nat
  pb_side_a :: pending_port_ref
  pb_side_b :: pending_port_ref
  pb_worker_a :: worker_id
  pb_worker_b :: worker_id

record border_graph =
  bg_borders :: "nat \<rightharpoonup> border_state"
  bg_worker_borders :: "nat list list"
  bg_active_redexes :: "nat set"
  bg_pending_new_borders :: "pending_new_border list"
  bg_resolved_mints :: "32 word \<times> agent_slot \<rightharpoonup> agent_id"

text \<open>
  The error of the finalizer.  The source formats the four values into a message; the model keeps
  them as the payload.
\<close>

datatype merge_error = UnresolvedBorder nat | MergeInvariantViolation string

datatype grid_error =
    DispatchFailed nat string
  | WorkerTimeout worker_id nat
  | MaxRoundsExceeded nat
  | GridMerge merge_error
  | ProtocolViolation request_id worker_id "32 word" agent_slot

section \<open>Construction\<close>

definition border_state_of :: "nat \<Rightarrow> port_ref \<Rightarrow> port_ref \<Rightarrow> worker_id \<Rightarrow> worker_id \<Rightarrow> border_state" where
  "border_state_of b x y w v =
     \<lparr>bs_border_id = b, bs_side_a = x, bs_side_b = y, bs_worker_a = w, bs_worker_b = v,
      bs_is_redex = is_principal_pair x y\<rparr>"

definition push_at :: "nat \<Rightarrow> 'a \<Rightarrow> 'a list list \<Rightarrow> 'a list list" where
  "push_at w x xss = xss[w := xss ! w @ [x]]"

definition insert_border :: "border_state \<Rightarrow> border_graph \<Rightarrow> border_graph option" where
  "insert_border s g =
     (let n = length (bg_worker_borders g)
      in if bs_worker_a s \<ge> n \<or> bs_worker_b s \<ge> n then None
         else Some (g\<lparr>bg_borders := (bg_borders g)(bs_border_id s \<mapsto> s),
                      bg_worker_borders := push_at (bs_worker_b s) (bs_border_id s)
                        (push_at (bs_worker_a s) (bs_border_id s) (bg_worker_borders g)),
                      bg_active_redexes := (if bs_is_redex s then insert (bs_border_id s) (bg_active_redexes g)
                                            else bg_active_redexes g)\<rparr>))"

type_synonym sightings = "nat \<rightharpoonup> (worker_id \<times> port_ref) list"

definition sight :: "partition \<Rightarrow> nat \<Rightarrow> sightings \<Rightarrow> sightings" where
  "sight p b m =
     (case p_free_port_index p b of
        None \<Rightarrow> m
      | Some t \<Rightarrow> m(b \<mapsto> (case m b of None \<Rightarrow> [] | Some l \<Rightarrow> l) @ [(p_worker_id p, t)]))"

definition collect_sightings :: "(partition \<Rightarrow> nat list) \<Rightarrow> partition list \<Rightarrow> sightings" where
  "collect_sightings index_order parts = fold (\<lambda>p. fold (sight p) (index_order p)) parts Map.empty"

definition sighted_twice :: "sightings \<Rightarrow> nat \<Rightarrow> bool" where
  "sighted_twice m b \<longleftrightarrow> (case m b of None \<Rightarrow> 0 | Some l \<Rightarrow> length l) = 2"

definition insert_sighted :: "sightings \<Rightarrow> nat \<Rightarrow> border_graph \<Rightarrow> border_graph option" where
  "insert_sighted m b g =
     (case m b of
        None \<Rightarrow> Some g
      | Some l \<Rightarrow> insert_border (border_state_of b (snd (l ! 0)) (snd (l ! 1)) (fst (l ! 0)) (fst (l ! 1))) g)"

definition empty_graph :: "nat \<Rightarrow> border_graph" where
  "empty_graph n =
     \<lparr>bg_borders = Map.empty, bg_worker_borders = replicate n [], bg_active_redexes = {},
      bg_pending_new_borders = [], bg_resolved_mints = Map.empty\<rparr>"

definition from_partition_plan ::
  "nat list \<Rightarrow> (partition \<Rightarrow> nat list) \<Rightarrow> (sightings \<Rightarrow> nat list) \<Rightarrow> partition_plan \<Rightarrow> border_graph option" where
  "from_partition_plan plan_order index_order sight_order plan =
     (let m = collect_sightings index_order (pl_partitions plan)
      in if \<not> list_all (sighted_twice m) plan_order then None
         else if \<not> list_all (\<lambda>b. sighted_twice m b \<and> pl_borders plan b \<noteq> None) (sight_order m) then None
         else ofold (insert_sighted m) (sight_order m) (empty_graph (length (pl_partitions plan))))"

section \<open>Operations of a round\<close>

definition apply_delta :: "worker_id \<Rightarrow> border_delta \<Rightarrow> border_graph \<Rightarrow> border_graph" where
  "apply_delta w d g =
     (case bg_borders g (bd_border_id d) of
        None \<Rightarrow> g
      | Some s \<Rightarrow>
          if bs_worker_a s \<noteq> w \<and> bs_worker_b s \<noteq> w then g
          else
            let b = bd_border_id d;
                s1 = (if bs_worker_a s = w then s\<lparr>bs_side_a := bd_new_target d\<rparr> else s\<lparr>bs_side_b := bd_new_target d\<rparr>)
            in if bs_side_a s1 = DISCONNECTED \<and> bs_side_b s1 = DISCONNECTED
               then g\<lparr>bg_borders := (bg_borders g)(b := None),
                      bg_active_redexes := (if bs_is_redex s then bg_active_redexes g - {b} else bg_active_redexes g)\<rparr>
               else
                 let now = is_principal_pair (bs_side_a s1) (bs_side_b s1)
                 in g\<lparr>bg_borders := (bg_borders g)(b \<mapsto> s1\<lparr>bs_is_redex := now\<rparr>),
                      bg_active_redexes :=
                        (if \<not> bs_is_redex s \<and> now then insert b (bg_active_redexes g)
                         else if bs_is_redex s \<and> \<not> now then bg_active_redexes g - {b}
                         else bg_active_redexes g)\<rparr>)"

definition apply_deltas :: "worker_id \<Rightarrow> border_delta list \<Rightarrow> border_graph \<Rightarrow> border_graph" where
  "apply_deltas w ds g = fold (apply_delta w) ds g"

definition detect_border_redexes :: "nat list \<Rightarrow> border_graph \<Rightarrow> (nat \<times> border_state) list" where
  "detect_border_redexes active_order g =
     List.map_filter (\<lambda>b. map_option (Pair b) (bg_borders g b)) active_order"

definition border_len :: "border_graph \<Rightarrow> nat" where
  "border_len g = card (dom (bg_borders g))"

definition border_is_empty :: "border_graph \<Rightarrow> bool" where
  "border_is_empty g \<longleftrightarrow> dom (bg_borders g) = {}"

definition has_no_redexes :: "border_graph \<Rightarrow> bool" where
  "has_no_redexes g \<longleftrightarrow> bg_active_redexes g = {}"

definition active_redex_count :: "border_graph \<Rightarrow> nat" where
  "active_redex_count g = card (bg_active_redexes g)"

definition remove_border :: "nat \<Rightarrow> border_graph \<Rightarrow> border_state option \<times> border_graph" where
  "remove_border b g =
     (case bg_borders g b of
        None \<Rightarrow> (None, g)
      | Some s \<Rightarrow>
          (Some s, g\<lparr>bg_borders := (bg_borders g)(b := None),
                     bg_active_redexes := (if bs_is_redex s then bg_active_redexes g - {b} else bg_active_redexes g)\<rparr>))"

definition entry_state :: "add_border_entry \<Rightarrow> border_state" where
  "entry_state e = border_state_of (ab_border_id e) (ab_side_a e) (ab_side_b e) (ab_worker_a e) (ab_worker_b e)"

definition add_border_state :: "add_border_entry \<Rightarrow> border_graph \<Rightarrow> border_graph option" where
  "add_border_state e g =
     (if bg_borders g (ab_border_id e) \<noteq> None then None else insert_border (entry_state e) g)"

definition add_border_states :: "add_border_entry list \<Rightarrow> border_graph \<Rightarrow> border_graph option" where
  "add_border_states es g = ofold add_border_state es g"

definition extend_border :: "(nat \<rightharpoonup> port_ref \<times> port_ref) \<Rightarrow> nat \<Rightarrow> border_graph \<Rightarrow> border_graph" where
  "extend_border nb b g =
     (case nb b of
        None \<Rightarrow> g
      | Some (x, y) \<Rightarrow>
          if bg_borders g b \<noteq> None then g
          else
            let s = border_state_of b x y 0 0
            in g\<lparr>bg_borders := (bg_borders g)(b \<mapsto> s),
                 bg_active_redexes := (if bs_is_redex s then insert b (bg_active_redexes g) else bg_active_redexes g)\<rparr>)"

definition extend_with_chunk_borders :: "nat list \<Rightarrow> (nat \<rightharpoonup> port_ref \<times> port_ref) \<Rightarrow> border_graph \<Rightarrow> border_graph" where
  "extend_with_chunk_borders order nb g = fold (extend_border nb) order g"

section \<open>Pending borders\<close>

definition enqueue_pending_borders :: "pending_new_border list \<Rightarrow> border_graph \<Rightarrow> border_graph" where
  "enqueue_pending_borders bs g = g\<lparr>bg_pending_new_borders := bg_pending_new_borders g @ bs\<rparr>"

definition pending_port_matches :: "pending_port_ref \<Rightarrow> 32 word \<Rightarrow> agent_slot \<Rightarrow> bool" where
  "pending_port_matches port c s \<longleftrightarrow>
     (case port of Pending cid slot q \<Rightarrow> cid_low28 cid = c \<and> slot = s | Concrete x \<Rightarrow> False)"

definition try_resolve_port_ref :: "(32 word \<times> agent_slot \<rightharpoonup> agent_id) \<Rightarrow> pending_port_ref \<Rightarrow> port_ref option" where
  "try_resolve_port_ref mints port =
     (case port of
        Concrete x \<Rightarrow> Some x
      | Pending cid slot q \<Rightarrow> map_option (\<lambda>i. AgentPort i q) (mints (cid_low28 cid, slot)))"

definition matches_outstanding :: "border_graph \<Rightarrow> minted_agent \<Rightarrow> bool" where
  "matches_outstanding g mint \<longleftrightarrow>
     (case decode_request_id (ma_request_id mint) of (c, s) \<Rightarrow>
        list_ex (\<lambda>pb. pending_port_matches (pb_side_a pb) c s \<or> pending_port_matches (pb_side_b pb) c s)
          (bg_pending_new_borders g))"

definition cache_mint ::
  "minted_agent \<Rightarrow> (32 word \<times> agent_slot \<rightharpoonup> agent_id) \<Rightarrow> (32 word \<times> agent_slot \<rightharpoonup> agent_id)" where
  "cache_mint mint m = m(decode_request_id (ma_request_id mint) \<mapsto> ma_agent_id mint)"

text \<open>The entry of a pending border both of whose sides are known.\<close>

definition resolve_pending ::
  "(32 word \<times> agent_slot \<rightharpoonup> agent_id) \<Rightarrow> pending_new_border \<Rightarrow> add_border_entry option" where
  "resolve_pending mints pb =
     (case (try_resolve_port_ref mints (pb_side_a pb), try_resolve_port_ref mints (pb_side_b pb)) of
        (Some x, Some y) \<Rightarrow>
          Some \<lparr>ab_border_id = pb_border_id pb, ab_side_a = x, ab_side_b = y,
                ab_worker_a = pb_worker_a pb, ab_worker_b = pb_worker_b pb\<rparr>
      | _ \<Rightarrow> None)"

definition register_minted_agents ::
  "worker_id \<Rightarrow> minted_agent list \<Rightarrow> border_graph \<Rightarrow> (grid_error + (nat \<times> border_state) list \<times> border_graph) option" where
  "register_minted_agents w mints g =
     (case find (\<lambda>mint. \<not> matches_outstanding g mint) mints of
        Some mint \<Rightarrow>
          (case decode_request_id (ma_request_id mint) of (c, s) \<Rightarrow>
             Some (Inl (ProtocolViolation (ma_request_id mint) w c s)))
      | None \<Rightarrow>
          (let cache = fold cache_mint mints (bg_resolved_mints g);
               candidates = bg_pending_new_borders g;
               entries = List.map_filter (resolve_pending cache) candidates;
               still_pending = filter (\<lambda>pb. resolve_pending cache pb = None) candidates;
               replace_existing = filter (\<lambda>b. bg_borders g b \<noteq> None) (map ab_border_id entries);
               g1 = g\<lparr>bg_resolved_mints := cache, bg_pending_new_borders := still_pending\<rparr>;
               g2 = fold (\<lambda>b. snd \<circ> remove_border b) replace_existing g1;
               promoted = map (\<lambda>e. (ab_border_id e, entry_state e)) entries
           in map_option (\<lambda>g3. Inr (promoted, g3)) (add_border_states entries g2)))"

section \<open>The invariant\<close>

text \<open>
  Every entry is filed under its own identifier with the cached flag up to date, and the incremental
  set of active redexes is exactly the set of flagged borders.
\<close>

definition bg_inv :: "border_graph \<Rightarrow> bool" where
  "bg_inv g \<longleftrightarrow>
     finite (dom (bg_borders g)) \<and>
     (\<forall>b s. bg_borders g b = Some s \<longrightarrow>
        bs_border_id s = b \<and> (bs_is_redex s \<longleftrightarrow> is_principal_pair (bs_side_a s) (bs_side_b s))) \<and>
     bg_active_redexes g = {b. \<exists>s. bg_borders g b = Some s \<and> bs_is_redex s}"

lemma bg_invD:
  assumes "bg_inv g"
  shows "finite (dom (bg_borders g))"
    "bg_borders g b = Some s \<Longrightarrow> bs_border_id s = b"
    "bg_borders g b = Some s \<Longrightarrow> bs_is_redex s \<longleftrightarrow> is_principal_pair (bs_side_a s) (bs_side_b s)"
    "bg_active_redexes g = {b. \<exists>s. bg_borders g b = Some s \<and> bs_is_redex s}"
  using assms unfolding bg_inv_def by blast+

lemma border_state_of_simps [simp]:
  "bs_border_id (border_state_of b x y w v) = b" "bs_side_a (border_state_of b x y w v) = x"
  "bs_side_b (border_state_of b x y w v) = y" "bs_worker_a (border_state_of b x y w v) = w"
  "bs_worker_b (border_state_of b x y w v) = v" "bs_is_redex (border_state_of b x y w v) = is_principal_pair x y"
  by (simp_all add: border_state_of_def)

text \<open>The three elementary updates: drop a border, replace or insert one.\<close>

lemma bg_inv_drop [inv_intros]:
  assumes "bg_inv g" "bg_borders g b = Some s" "bg_borders g' = (bg_borders g)(b := None)"
    and "bg_active_redexes g' = (if bs_is_redex s then bg_active_redexes g - {b} else bg_active_redexes g)"
  shows "bg_inv g'"
  using assms bg_invD [OF assms(1)] unfolding bg_inv_def by auto

lemma bg_inv_put [inv_intros]:
  assumes "bg_inv g" "bs_border_id s = b" "bs_is_redex s \<longleftrightarrow> is_principal_pair (bs_side_a s) (bs_side_b s)"
    and "bg_borders g' = (bg_borders g)(b \<mapsto> s)"
    and "bg_active_redexes g' = (if bs_is_redex s then insert b (bg_active_redexes g) else bg_active_redexes g - {b})"
  shows "bg_inv g'"
  using assms bg_invD [OF assms(1)] unfolding bg_inv_def by auto

lemma bg_inv_frame:
  "bg_inv g \<Longrightarrow> bg_borders g' = bg_borders g \<Longrightarrow> bg_active_redexes g' = bg_active_redexes g \<Longrightarrow> bg_inv g'"
  by (simp add: bg_inv_def)

lemma bg_inv_empty: "bg_inv (empty_graph n)"
  by (simp add: bg_inv_def empty_graph_def)

lemma bg_inv_insert_border:
  assumes "bg_inv g" "insert_border s g = Some g'" "bg_borders g (bs_border_id s) = None"
    and "bs_is_redex s \<longleftrightarrow> is_principal_pair (bs_side_a s) (bs_side_b s)"
  shows "bg_inv g'"
proof (rule bg_inv_put [OF assms(1) refl assms(4)])
  have "bs_border_id s \<notin> bg_active_redexes g"
    using bg_invD(4) [OF assms(1)] assms(3) by simp
  then show "bg_active_redexes g' =
      (if bs_is_redex s then insert (bs_border_id s) (bg_active_redexes g) else bg_active_redexes g - {bs_border_id s})"
    using assms(2) by (auto simp: insert_border_def Let_def split: if_splits)
  show "bg_borders g' = (bg_borders g)(bs_border_id s \<mapsto> s)"
    using assms(2) by (auto simp: insert_border_def Let_def split: if_splits)
qed

lemma bg_inv_apply_delta: "bg_inv g \<Longrightarrow> bg_inv (apply_delta w d g)"
proof (cases "bg_borders g (bd_border_id d)")
  case (Some s)
  assume inv: "bg_inv g"
  let ?b = "bd_border_id d"
  let ?s = "if bs_worker_a s = w then s\<lparr>bs_side_a := bd_new_target d\<rparr> else s\<lparr>bs_side_b := bd_new_target d\<rparr>"
  have id: "bs_border_id s = ?b" and mem: "?b \<in> bg_active_redexes g \<longleftrightarrow> bs_is_redex s"
    using bg_invD(2,4) [OF inv] Some by auto
  consider "bs_worker_a s \<noteq> w" "bs_worker_b s \<noteq> w"
    | "bs_worker_a s = w \<or> bs_worker_b s = w" "bs_side_a ?s = DISCONNECTED \<and> bs_side_b ?s = DISCONNECTED"
    | "bs_worker_a s = w \<or> bs_worker_b s = w" "\<not> (bs_side_a ?s = DISCONNECTED \<and> bs_side_b ?s = DISCONNECTED)"
    by blast
  then show ?thesis
  proof cases
    case 1
    then show ?thesis
      using inv Some by (simp add: apply_delta_def)
  next
    case 2
    show ?thesis
      by (rule bg_inv_drop [OF inv Some]) (use 2 Some in \<open>auto simp: apply_delta_def Let_def\<close>)
  next
    case 3
    show ?thesis
    proof (rule bg_inv_put [OF inv, of "?s\<lparr>bs_is_redex := is_principal_pair (bs_side_a ?s) (bs_side_b ?s)\<rparr>" ?b])
      show "bs_border_id (?s\<lparr>bs_is_redex := is_principal_pair (bs_side_a ?s) (bs_side_b ?s)\<rparr>) = ?b"
        using id by simp
      show "bg_borders (apply_delta w d g) =
          (bg_borders g)(?b \<mapsto> ?s\<lparr>bs_is_redex := is_principal_pair (bs_side_a ?s) (bs_side_b ?s)\<rparr>)"
        using 3 Some by (auto simp: apply_delta_def Let_def)
      show "bg_active_redexes (apply_delta w d g) =
          (if bs_is_redex (?s\<lparr>bs_is_redex := is_principal_pair (bs_side_a ?s) (bs_side_b ?s)\<rparr>)
           then insert ?b (bg_active_redexes g) else bg_active_redexes g - {?b})"
        using 3 Some mem by (auto simp: apply_delta_def Let_def)
    qed simp
  qed
qed (simp add: apply_delta_def)

lemma bg_inv_apply_deltas: "bg_inv g \<Longrightarrow> bg_inv (apply_deltas w ds g)"
  unfolding apply_deltas_def by (induction ds arbitrary: g) (simp_all add: bg_inv_apply_delta)

lemma bg_inv_remove_border: "bg_inv g \<Longrightarrow> bg_inv (snd (remove_border b g))"
  by (cases "bg_borders g b") (auto simp: remove_border_def intro: bg_inv_drop)

lemma bg_inv_remove_borders: "bg_inv g \<Longrightarrow> bg_inv (fold (\<lambda>b. snd \<circ> remove_border b) bs g)"
  by (induction bs arbitrary: g) (simp_all add: bg_inv_remove_border)

lemma bg_inv_add_border_states: "bg_inv g \<Longrightarrow> add_border_states es g = Some g' \<Longrightarrow> bg_inv g'"
proof (induction es arbitrary: g)
  case (Cons e es)
  then obtain g1 where g1: "add_border_state e g = Some g1" "add_border_states es g1 = Some g'"
    by (auto simp: add_border_states_def dest!: bind_eq_SomeD)
  then have "bg_inv g1"
    using bg_inv_insert_border [OF Cons.prems(1), of "entry_state e" g1]
    by (auto simp: add_border_state_def entry_state_def split: if_splits)
  then show ?case
    using Cons.IH g1(2) by blast
qed (simp add: add_border_states_def)

lemma bg_inv_extend: "bg_inv g \<Longrightarrow> bg_inv (extend_with_chunk_borders order nb g)"
proof -
  have "bg_inv (extend_border nb b g)" if inv: "bg_inv g" for b g
  proof (cases "nb b = None \<or> bg_borders g b \<noteq> None")
    case True
    then show ?thesis
      using inv by (auto simp: extend_border_def split: option.split prod.split)
  next
    case False
    then obtain x y where xy: "nb b = Some (x, y)" "bg_borders g b = None"
      by auto
    have out: "b \<notin> bg_active_redexes g"
      using bg_invD(4) [OF inv] xy(2) by simp
    show ?thesis
      by (rule bg_inv_put [OF inv, of "border_state_of b x y 0 0" b])
         (use xy out in \<open>auto simp: extend_border_def Let_def\<close>)
  qed
  then show "bg_inv g \<Longrightarrow> ?thesis"
    unfolding extend_with_chunk_borders_def by (induction order arbitrary: g) simp_all
qed

text \<open>The finalizer, with its intermediate values named.\<close>

abbreviation mint_cache :: "minted_agent list \<Rightarrow> border_graph \<Rightarrow> (32 word \<times> agent_slot \<rightharpoonup> agent_id)" where
  "mint_cache mints g \<equiv> fold cache_mint mints (bg_resolved_mints g)"

abbreviation resolved_entries :: "minted_agent list \<Rightarrow> border_graph \<Rightarrow> add_border_entry list" where
  "resolved_entries mints g \<equiv> List.map_filter (resolve_pending (mint_cache mints g)) (bg_pending_new_borders g)"

definition cleared :: "minted_agent list \<Rightarrow> border_graph \<Rightarrow> border_graph" where
  "cleared mints g =
     fold (\<lambda>b. snd \<circ> remove_border b) (filter (\<lambda>b. bg_borders g b \<noteq> None) (map ab_border_id (resolved_entries mints g)))
       (g\<lparr>bg_resolved_mints := mint_cache mints g,
          bg_pending_new_borders := filter (\<lambda>pb. resolve_pending (mint_cache mints g) pb = None) (bg_pending_new_borders g)\<rparr>)"

lemma register_Inr:
  "register_minted_agents w mints g = Some (Inr (promoted, g')) \<longleftrightarrow>
     (\<forall>mint \<in> set mints. matches_outstanding g mint) \<and>
     promoted = map (\<lambda>e. (ab_border_id e, entry_state e)) (resolved_entries mints g) \<and>
     add_border_states (resolved_entries mints g) (cleared mints g) = Some g'"
proof -
  have "find (\<lambda>mint. \<not> matches_outstanding g mint) mints = None \<longleftrightarrow> (\<forall>mint \<in> set mints. matches_outstanding g mint)"
    by (auto simp: find_None_iff)
  then show ?thesis
    by (cases "find (\<lambda>mint. \<not> matches_outstanding g mint) mints")
       (auto simp: register_minted_agents_def cleared_def Let_def split: prod.splits)
qed

lemma bg_inv_cleared: "bg_inv g \<Longrightarrow> bg_inv (cleared mints g)"
  unfolding cleared_def by (rule bg_inv_remove_borders) (erule bg_inv_frame; simp)

lemma bg_inv_register:
  assumes "bg_inv g" "register_minted_agents w mints g = Some (Inr (promoted, g'))"
  shows "bg_inv g'"
  using assms(2) bg_inv_add_border_states [OF bg_inv_cleared [OF assms(1)]] unfolding register_Inr by blast

section \<open>Construction from a plan\<close>

text \<open>The sightings of a border, in the order of the partitions.\<close>

definition sights :: "partition list \<Rightarrow> nat \<Rightarrow> (worker_id \<times> port_ref) list" where
  "sights parts b = List.map_filter (\<lambda>p. map_option (Pair (p_worker_id p)) (p_free_port_index p b)) parts"

definition seen_list :: "sightings \<Rightarrow> nat \<Rightarrow> (worker_id \<times> port_ref) list" where
  "seen_list m b = (case m b of None \<Rightarrow> [] | Some l \<Rightarrow> l)"

text \<open>An iteration order of a map lists each key once.\<close>

definition lists_keys :: "nat list \<Rightarrow> (nat \<rightharpoonup> 'b) \<Rightarrow> bool" where
  "lists_keys order m \<longleftrightarrow> distinct order \<and> set order = dom m"

lemma seen_list_sight:
  "seen_list (sight p c m) b =
     seen_list m b @ (if c = b then (case p_free_port_index p b of None \<Rightarrow> [] | Some t \<Rightarrow> [(p_worker_id p, t)]) else [])"
  by (auto simp: sight_def seen_list_def split: option.split)

lemma seen_list_index:
  assumes "distinct cs"
  shows "seen_list (fold (sight p) cs m) b =
     seen_list m b @ (if b \<in> set cs then (case p_free_port_index p b of None \<Rightarrow> [] | Some t \<Rightarrow> [(p_worker_id p, t)]) else [])"
  using assms by (induction cs arbitrary: m) (auto simp: seen_list_sight)

lemma sight_nonempty: "m b \<noteq> Some [] \<Longrightarrow> fold (sight p) cs m b \<noteq> Some []"
proof (induction cs arbitrary: m)
  case (Cons c cs)
  have "sight p c m b \<noteq> Some []"
    using Cons.prems by (auto simp: sight_def split: option.split)
  then show ?case
    using Cons.IH by simp
qed simp

lemma collect_sightings_spec:
  assumes "\<And>p. p \<in> set parts \<Longrightarrow> lists_keys (index_order p) (p_free_port_index p)"
  shows "collect_sightings index_order parts b = (if sights parts b = [] then None else Some (sights parts b))"
proof -
  have list: "seen_list (fold (\<lambda>p. fold (sight p) (index_order p)) parts m) b = seen_list m b @ sights parts b" for m
    using assms
  proof (induction parts arbitrary: m)
    case (Cons p parts)
    have "lists_keys (index_order p) (p_free_port_index p)"
      using Cons.prems by simp
    then have "seen_list (fold (sight p) (index_order p) m) b =
        seen_list m b @ (case p_free_port_index p b of None \<Rightarrow> [] | Some t \<Rightarrow> [(p_worker_id p, t)])"
      by (auto simp: lists_keys_def seen_list_index split: option.split)
    then show ?case
      using Cons by (auto simp: sights_def map_filter_simps split: option.split)
  qed (simp add: sights_def map_filter_simps)
  have "fold (\<lambda>p. fold (sight p) (index_order p)) parts m b \<noteq> Some []" if "m b \<noteq> Some []" for m
    using that by (induction parts arbitrary: m) (simp_all add: sight_nonempty)
  then have "collect_sightings index_order parts b \<noteq> Some []"
    by (simp add: collect_sightings_def)
  then show ?thesis
    using list [of Map.empty] by (auto simp: collect_sightings_def seen_list_def split: option.splits)
qed

text \<open>The state filed for a border that is seen twice.\<close>

definition sighted_state :: "partition list \<Rightarrow> nat \<Rightarrow> border_state" where
  "sighted_state parts b =
     (let l = sights parts b in border_state_of b (snd (l ! 0)) (snd (l ! 1)) (fst (l ! 0)) (fst (l ! 1)))"

lemma insert_sighted_all:
  assumes "distinct bs" "\<And>b. b \<in> set bs \<Longrightarrow> m b = Some (sights parts b) \<and> bg_borders g b = None" "bg_inv g"
  shows "(ofold (insert_sighted m) bs g \<noteq> None \<longleftrightarrow>
       (\<forall>b \<in> set bs. bs_worker_a (sighted_state parts b) < length (bg_worker_borders g) \<and>
          bs_worker_b (sighted_state parts b) < length (bg_worker_borders g))) \<and>
    (\<forall>g'. ofold (insert_sighted m) bs g = Some g' \<longrightarrow> bg_inv g' \<and>
       bg_borders g' = (\<lambda>b. if b \<in> set bs then Some (sighted_state parts b) else bg_borders g b) \<and>
       bg_pending_new_borders g' = bg_pending_new_borders g \<and> bg_resolved_mints g' = bg_resolved_mints g)"
  using assms
proof (induction bs arbitrary: g)
  case (Cons b bs)
  let ?s = "sighted_state parts b" and ?n = "length (bg_worker_borders g)"
  have at: "insert_sighted m b g = insert_border ?s g" and free: "bg_borders g b = None"
    using Cons.prems(2) [of b] by (simp_all add: insert_sighted_def sighted_state_def Let_def)
  have id: "bs_border_id ?s = b" "bs_is_redex ?s \<longleftrightarrow> is_principal_pair (bs_side_a ?s) (bs_side_b ?s)"
    by (simp_all add: sighted_state_def Let_def)
  show ?case
  proof (cases "insert_border ?s g")
    case None
    then show ?thesis
      using at by (auto simp: insert_border_def Let_def split: if_splits)
  next
    case (Some g1)
    have one: "bg_borders g1 = (bg_borders g)(b \<mapsto> ?s)" "length (bg_worker_borders g1) = ?n"
        "bs_worker_a ?s < ?n" "bs_worker_b ?s < ?n" "bg_pending_new_borders g1 = bg_pending_new_borders g"
        "bg_resolved_mints g1 = bg_resolved_mints g"
      using Some id(1) by (auto simp: insert_border_def Let_def push_at_def split: if_splits)
    have "bg_inv g1"
      using bg_inv_insert_border [OF Cons.prems(3) Some] id free by simp
    moreover have "\<And>c. c \<in> set bs \<Longrightarrow> m c = Some (sights parts c) \<and> bg_borders g1 c = None"
      using Cons.prems(1,2) by (auto simp: one(1))
    moreover have "distinct bs" "b \<notin> set bs"
      using Cons.prems(1) by simp_all
    ultimately have IH: "(ofold (insert_sighted m) bs g1 \<noteq> None \<longleftrightarrow>
         (\<forall>b \<in> set bs. bs_worker_a (sighted_state parts b) < ?n \<and> bs_worker_b (sighted_state parts b) < ?n))"
        "\<And>g'. ofold (insert_sighted m) bs g1 = Some g' \<Longrightarrow> bg_inv g' \<and>
         bg_borders g' = (\<lambda>b. if b \<in> set bs then Some (sighted_state parts b) else bg_borders g1 b) \<and>
         bg_pending_new_borders g' = bg_pending_new_borders g \<and> bg_resolved_mints g' = bg_resolved_mints g"
      using Cons.IH [of g1] unfolding one(2,5,6) by blast+
    have step: "ofold (insert_sighted m) (b # bs) g = ofold (insert_sighted m) bs g1"
      using at Some by simp
    show ?thesis
      unfolding step
    proof (intro conjI allI impI)
      show "ofold (insert_sighted m) bs g1 \<noteq> None \<longleftrightarrow>
         (\<forall>b \<in> set (b # bs). bs_worker_a (sighted_state parts b) < ?n \<and> bs_worker_b (sighted_state parts b) < ?n)"
        using IH(1) one(3,4) by simp
      fix g'
      assume ret: "ofold (insert_sighted m) bs g1 = Some g'"
      show "bg_inv g'" "bg_pending_new_borders g' = bg_pending_new_borders g" "bg_resolved_mints g' = bg_resolved_mints g"
        using IH(2) [OF ret] by simp_all
      show "bg_borders g' = (\<lambda>c. if c \<in> set (b # bs) then Some (sighted_state parts c) else bg_borders g c)"
        using IH(2) [OF ret] one(1) by (simp add: fun_eq_iff)
    qed
  qed
qed simp

lemma from_partition_plan_spec:
  assumes "lists_keys plan_order (pl_borders plan)"
    and idx: "\<And>p. p \<in> set (pl_partitions plan) \<Longrightarrow> lists_keys (index_order p) (p_free_port_index p)"
    and so: "\<And>m. finite (dom m) \<Longrightarrow> lists_keys (sight_order m) m"
    and fin: "\<And>p. p \<in> set (pl_partitions plan) \<Longrightarrow> finite (dom (p_free_port_index p))"
  defines "parts \<equiv> pl_partitions plan"
  defines "r \<equiv> from_partition_plan plan_order index_order sight_order plan"
  shows "r \<noteq> None \<longleftrightarrow> (\<forall>b. (b \<in> dom (pl_borders plan) \<longrightarrow> length (sights parts b) = 2) \<and>
      (sights parts b \<noteq> [] \<longrightarrow> b \<in> dom (pl_borders plan) \<and>
         (\<forall>w \<in> fst ` set (sights parts b). w < length parts)))"
    "r = Some g \<Longrightarrow> bg_inv g \<and> bg_pending_new_borders g = [] \<and> bg_resolved_mints g = Map.empty \<and>
       (\<forall>b. bg_borders g b = (if b \<in> dom (pl_borders plan) then Some (sighted_state parts b) else None))"
proof -
  let ?m = "collect_sightings index_order parts"
  have m: "?m b = (if sights parts b = [] then None else Some (sights parts b))" for b
    by (rule collect_sightings_spec) (use idx in \<open>simp add: parts_def\<close>)
  have dom: "dom ?m = {b. sights parts b \<noteq> []}"
    using m by (auto simp: dom_def)
  have "{b. sights parts b \<noteq> []} \<subseteq> (\<Union>p \<in> set parts. dom (p_free_port_index p))"
    by (auto simp: sights_def map_filter_def filter_empty_conv)
  moreover have "finite (\<Union>p \<in> set parts. dom (p_free_port_index p))"
    using fin by (simp add: parts_def)
  ultimately have "finite (dom ?m)"
    using dom finite_subset by metis
  then have ord: "distinct (sight_order ?m)" "set (sight_order ?m) = {b. sights parts b \<noteq> []}"
    using so dom unfolding lists_keys_def by metis+
  have twice: "sighted_twice ?m b \<longleftrightarrow> length (sights parts b) = 2" for b
    by (simp add: sighted_twice_def m)
  have plan: "set plan_order = dom (pl_borders plan)"
    using assms(1) by (simp add: lists_keys_def)
  let ?ok = "(\<forall>b \<in> dom (pl_borders plan). length (sights parts b) = 2) \<and>
    (\<forall>b. sights parts b \<noteq> [] \<longrightarrow> length (sights parts b) = 2 \<and> b \<in> dom (pl_borders plan))"
  have r: "r = (if ?ok then ofold (insert_sighted ?m) (sight_order ?m) (empty_graph (length parts)) else None)"
    unfolding r_def from_partition_plan_def Let_def parts_def [symmetric]
    by (auto simp: list_all_iff twice plan ord(2) domIff)
  have all: "(ofold (insert_sighted ?m) (sight_order ?m) (empty_graph (length parts)) \<noteq> None \<longleftrightarrow>
       (\<forall>b \<in> set (sight_order ?m). bs_worker_a (sighted_state parts b) < length (bg_worker_borders (empty_graph (length parts))) \<and>
          bs_worker_b (sighted_state parts b) < length (bg_worker_borders (empty_graph (length parts))))) \<and>
    (\<forall>g'. ofold (insert_sighted ?m) (sight_order ?m) (empty_graph (length parts)) = Some g' \<longrightarrow> bg_inv g' \<and>
       bg_borders g' = (\<lambda>b. if b \<in> set (sight_order ?m) then Some (sighted_state parts b) else bg_borders (empty_graph (length parts)) b) \<and>
       bg_pending_new_borders g' = bg_pending_new_borders (empty_graph (length parts)) \<and>
       bg_resolved_mints g' = bg_resolved_mints (empty_graph (length parts)))"
    by (rule insert_sighted_all [OF ord(1) _ bg_inv_empty]) (use m ord(2) in \<open>auto simp: empty_graph_def\<close>)
  have len: "length (bg_worker_borders (empty_graph (length parts))) = length parts"
    by (simp add: empty_graph_def)
  have workers: "(\<forall>w \<in> fst ` set (sights parts b). w < length parts) \<longleftrightarrow>
      bs_worker_a (sighted_state parts b) < length parts \<and> bs_worker_b (sighted_state parts b) < length parts"
    if two: "length (sights parts b) = 2" for b
  proof -
    obtain x y where "sights parts b = [x, y]"
      using two by (auto simp: numeral_2_eq_2 length_Suc_conv)
    then show ?thesis
      by (simp add: sighted_state_def Let_def)
  qed
  show "r \<noteq> None \<longleftrightarrow> (\<forall>b. (b \<in> dom (pl_borders plan) \<longrightarrow> length (sights parts b) = 2) \<and>
      (sights parts b \<noteq> [] \<longrightarrow> b \<in> dom (pl_borders plan) \<and>
         (\<forall>w \<in> fst ` set (sights parts b). w < length parts)))"
  proof (cases ?ok)
    case True
    then show ?thesis
      using r all [THEN conjunct1, unfolded len ord(2)] workers by auto
  next
    case False
    then show ?thesis
      using r by (simp only: if_False) blast
  qed
  show "bg_inv g \<and> bg_pending_new_borders g = [] \<and> bg_resolved_mints g = Map.empty \<and>
       (\<forall>b. bg_borders g b = (if b \<in> dom (pl_borders plan) then Some (sighted_state parts b) else None))"
    if "r = Some g"
  proof -
    have ok: ?ok and g: "ofold (insert_sighted ?m) (sight_order ?m) (empty_graph (length parts)) = Some g"
      using that r by (auto split: if_splits)
    have "b \<in> dom (pl_borders plan) \<longleftrightarrow> sights parts b \<noteq> []" for b
      using ok by (metis list.size(3) zero_neq_numeral)
    then show ?thesis
      using all [THEN conjunct2, rule_format, OF g] ord(2) by (simp add: empty_graph_def)
  qed
qed

end
