(* ===== verification/Deltas.thy ===== *)
theory Deltas
  imports Border_Graph
begin

text \<open>
  The helpers of the grid cycle (\<open>merge/helpers.rs\<close>): rebuilding the index of border ports after a
  local reduction, the activity flag, draining stale redexes, folding the coordinator's deltas into a
  partition, and the deltas a worker reports.  The main result is that the reported deltas bring the
  coordinator's graph up to date.
\<close>

section \<open>Definitions\<close>

definition index_port ::
  "net \<Rightarrow> nat \<Rightarrow> nat \<Rightarrow> agent_id \<Rightarrow> agent_id \<Rightarrow> port_id \<Rightarrow> (nat \<rightharpoonup> port_ref) \<Rightarrow> (nat \<rightharpoonup> port_ref)" where
  "index_port sub bid_start bid_end own i p idx =
     (case get_target sub (AgentPort i p) of
        FreePort b \<Rightarrow>
          if bid_start \<le> b \<and> b < bid_end \<and> b \<noteq> u32_MAX then idx(b \<mapsto> AgentPort own p) else idx
      | AgentPort j q \<Rightarrow> idx)"

definition index_slot :: "net \<Rightarrow> nat \<Rightarrow> nat \<Rightarrow> agent_id \<Rightarrow> (nat \<rightharpoonup> port_ref) \<Rightarrow> (nat \<rightharpoonup> port_ref)" where
  "index_slot sub bid_start bid_end i idx =
     (case agents sub ! i of
        None \<Rightarrow> idx
      | Some ag \<Rightarrow> fold (index_port sub bid_start bid_end (a_id ag) i) [0..<total_ports (a_symbol ag)] idx)"

definition index_redirect :: "net \<Rightarrow> nat \<Rightarrow> nat \<Rightarrow> nat \<Rightarrow> (nat \<rightharpoonup> port_ref) \<Rightarrow> (nat \<rightharpoonup> port_ref)" where
  "index_redirect sub bid_start bid_end f idx =
     (case freeport_redirects sub f of
        None \<Rightarrow> idx
      | Some t \<Rightarrow>
          if bid_start \<le> f \<and> f < bid_end \<and> f \<noteq> u32_MAX \<and> idx f = None then idx(f \<mapsto> t) else idx)"

definition rebuild_free_port_index :: "nat list \<Rightarrow> net \<Rightarrow> nat \<Rightarrow> nat \<Rightarrow> (nat \<rightharpoonup> port_ref)" where
  "rebuild_free_port_index redirect_order sub bid_start bid_end =
     fold (index_redirect sub bid_start bid_end) redirect_order
       (fold (index_slot sub bid_start bid_end) [0..<length (agents sub)] Map.empty)"

definition compute_border_activity :: "nat list \<Rightarrow> partition \<Rightarrow> bool" where
  "compute_border_activity index_order p \<longleftrightarrow>
     list_ex (\<lambda>b. case p_free_port_index p b of Some (AgentPort i q) \<Rightarrow> q = 0 | _ \<Rightarrow> False) index_order"

fun drain_queue :: "net \<Rightarrow> (agent_id \<times> agent_id) list \<Rightarrow> (agent_id \<times> agent_id) list \<Rightarrow> (agent_id \<times> agent_id) list" where
  "drain_queue n [] valid = valid"
| "drain_queue n ((a, b) # q) valid = drain_queue n q (if is_valid_redex n a b then valid @ [(a, b)] else valid)"

definition drain_stale_redexes :: "net \<Rightarrow> net" where
  "drain_stale_redexes n = n\<lparr>redex_queue := drain_queue n (redex_queue n) []\<rparr>"

text \<open>Folding the three parts of a round start into a partition.\<close>

definition unplug_border :: "nat \<Rightarrow> partition \<Rightarrow> partition" where
  "unplug_border b p =
     (case p_free_port_index p b of
        Some (AgentPort i q) \<Rightarrow> p\<lparr>p_subnet := disconnect (AgentPort i q) (p_subnet p)\<rparr>
      | _ \<Rightarrow> p)"

definition apply_border_delta :: "border_delta \<Rightarrow> partition \<Rightarrow> partition" where
  "apply_border_delta d p =
     (let b = bd_border_id d; p1 = unplug_border b p
      in if bd_new_target d = DISCONNECTED
         then p1\<lparr>p_free_port_index := (p_free_port_index p1)(b := None)\<rparr>
         else p1\<lparr>p_subnet := connect (bd_new_target d) (FreePort b) (p_subnet p1),
                 p_free_port_index := (p_free_port_index p1)(b \<mapsto> bd_new_target d)\<rparr>)"

definition resolve_border_at :: "nat \<Rightarrow> partition \<Rightarrow> partition" where
  "resolve_border_at b p =
     (let p1 = unplug_border b p in p1\<lparr>p_free_port_index := (p_free_port_index p1)(b := None)\<rparr>)"

definition insert_new_border :: "nat \<times> port_ref \<Rightarrow> partition \<Rightarrow> partition" where
  "insert_new_border e p =
     (case e of (b, target) \<Rightarrow>
        p\<lparr>p_subnet := connect target (FreePort b) (p_subnet p),
          p_free_port_index := (p_free_port_index p)(b \<mapsto> target),
          p_border_id_end := (if b \<noteq> u32_MAX \<and> b \<ge> p_border_id_end p then min (b + 1) u32_MAX else p_border_id_end p)\<rparr>)"

definition apply_border_deltas_to_partition ::
  "border_delta list \<Rightarrow> nat list \<Rightarrow> (nat \<times> port_ref) list \<Rightarrow> partition \<Rightarrow> partition" where
  "apply_border_deltas_to_partition border_deltas resolved_borders new_borders p =
     fold insert_new_border new_borders (fold resolve_border_at resolved_borders (fold apply_border_delta border_deltas p))"

text \<open>The deltas a worker reports.\<close>

definition compute_outgoing_deltas ::
  "nat list \<Rightarrow> nat list \<Rightarrow> (nat \<rightharpoonup> port_ref) \<Rightarrow> (nat \<rightharpoonup> port_ref) \<Rightarrow> border_delta list" where
  "compute_outgoing_deltas previous_order current_order previous current =
     List.map_filter (\<lambda>b. case current b of
                            None \<Rightarrow> None
                          | Some t \<Rightarrow> if previous b = Some t then None else Some \<lparr>bd_border_id = b, bd_new_target = t\<rparr>)
       current_order @
     map (\<lambda>b. \<lparr>bd_border_id = b, bd_new_target = DISCONNECTED\<rparr>) (filter (\<lambda>b. current b = None) previous_order)"

section \<open>Draining\<close>

lemma drain_queue_filter: "drain_queue n q valid = valid @ filter (\<lambda>(a, b). is_valid_redex n a b) q"
  by (induction n q valid rule: drain_queue.induct) simp_all

text \<open>Draining keeps exactly the valid entries in order, so a complete queue stays complete.\<close>

lemma drain_stale_redexes_spec:
  "drain_stale_redexes n = n\<lparr>redex_queue := filter (\<lambda>(a, b). is_valid_redex n a b) (redex_queue n)\<rparr>"
  by (simp add: drain_stale_redexes_def drain_queue_filter)

section \<open>The rebuilt index\<close>

definition border_range :: "nat \<Rightarrow> nat \<Rightarrow> nat \<Rightarrow> bool" where
  "border_range s e b \<longleftrightarrow> s \<le> b \<and> b < e \<and> b \<noteq> u32_MAX"

text \<open>Each border identifier is held by at most one port.\<close>

definition borders_unique :: "nat \<Rightarrow> nat \<Rightarrow> net \<Rightarrow> bool" where
  "borders_unique s e n \<longleftrightarrow>
     (\<forall>b i p j q. border_range s e b \<longrightarrow> p < 3 \<longrightarrow> q < 3 \<longrightarrow> tgt n i p = FreePort b \<longrightarrow> tgt n j q = FreePort b \<longrightarrow>
        i = j \<and> p = q)"

lemma index_ports_fold:
  "fold (index_port sub s e own i) ps idx b =
     (case find (\<lambda>p. tgt sub i p = FreePort b \<and> border_range s e b) (rev ps) of
        None \<Rightarrow> idx b | Some p \<Rightarrow> Some (AgentPort own p))"
proof (induction ps arbitrary: idx rule: rev_induct)
  case (snoc p ps)
  then show ?case
    by (auto simp: index_port_def border_range_def tgt_def split: port_ref.split option.split)
qed simp

lemma index_slots_fold:
  assumes inv: "core_inv sub" and uniq: "borders_unique s e sub" and "set is \<subseteq> {..<length (agents sub)}"
  shows "fold (index_slot sub s e) is idx b = Some x \<longleftrightarrow>
     (\<exists>i q. i \<in> set is \<and> live sub i \<and> q < 3 \<and> border_range s e b \<and> tgt sub i q = FreePort b \<and> x = AgentPort i q) \<or>
     idx b = Some x \<and> \<not> (\<exists>i q. i \<in> set is \<and> live sub i \<and> q < 3 \<and> border_range s e b \<and> tgt sub i q = FreePort b)"
  using assms(3)
proof (induction "is" arbitrary: idx rule: rev_induct)
  case (snoc i "is")
  have i: "i < length (agents sub)"
    using snoc.prems by simp
  let ?idx = "fold (index_slot sub s e) is idx"
  have one: "index_slot sub s e i ?idx b = Some x \<longleftrightarrow>
     (\<exists>q < 3. live sub i \<and> border_range s e b \<and> tgt sub i q = FreePort b \<and> x = AgentPort i q) \<or>
     ?idx b = Some x \<and> \<not> (\<exists>q < 3. live sub i \<and> border_range s e b \<and> tgt sub i q = FreePort b)"
  proof (cases "agents sub ! i")
    case None
    then show ?thesis
      using i by (simp add: index_slot_def sym_at_def get_agent_def vec_get_def)
  next
    case (Some ag)
    have own: "a_id ag = i" and lv: "live sub i" and valid: "\<And>q. valid_port sub i q \<longleftrightarrow> q < total_ports (a_symbol ag)"
      using Some i core_invD(1) [OF inv] by (auto simp: slots_ok_def get_agent_def vec_get_def sym_at_def valid_port_def)
    have exists: "q < total_ports (a_symbol ag)" if "q < 3" "tgt sub i q = FreePort b" "border_range s e b" for q
      using that core_invD(2) [OF inv] valid unfolding ports_clean_def border_range_def DISCONNECTED_def by (metis port_ref.inject(2))
    let ?P = "\<lambda>q. tgt sub i q = FreePort b \<and> border_range s e b"
    show ?thesis
    proof (cases "find ?P (rev [0..<total_ports (a_symbol ag)])")
      case None
      then have "\<not> (\<exists>q < 3. ?P q)"
        using exists by (auto simp: find_None_iff)
      then show ?thesis
        using None Some own by (auto simp: index_slot_def index_ports_fold)
    next
      case found: (Some q)
      then have q: "?P q" "q < total_ports (a_symbol ag)"
        by (auto simp: find_Some_iff rev_nth)
      then have "q < 3"
        using total_ports_le [of "a_symbol ag"] by simp
      then have only: "\<And>r. r < 3 \<Longrightarrow> ?P r \<Longrightarrow> r = q"
        using uniq q(1) unfolding borders_unique_def by blast
      have "index_slot sub s e i ?idx b = Some x \<longleftrightarrow> x = AgentPort i q"
        using found Some own by (auto simp: index_slot_def index_ports_fold)
      moreover have "(\<exists>r < 3. live sub i \<and> border_range s e b \<and> tgt sub i r = FreePort b \<and> x = AgentPort i r) \<longleftrightarrow>
          x = AgentPort i q"
        using only lv q(1) \<open>q < 3\<close> by metis
      moreover have "\<exists>r < 3. live sub i \<and> border_range s e b \<and> tgt sub i r = FreePort b"
        using lv q(1) \<open>q < 3\<close> by blast
      ultimately show ?thesis
        by simp
    qed
  qed
  have apart: "j = i \<and> q = r" if "live sub i" "live sub j" "q < 3" "r < 3" "border_range s e b" "tgt sub j q = FreePort b" "tgt sub i r = FreePort b" for j q r
    using uniq that unfolding borders_unique_def by blast
  have prem: "set is \<subseteq> {..<length (agents sub)}"
    using snoc.prems by simp
  let ?H = "\<lambda>j q. live sub j \<and> q < 3 \<and> border_range s e b \<and> tgt sub j q = FreePort b"
  have ih: "?idx b = Some x \<longleftrightarrow>
     (\<exists>j q. j \<in> set is \<and> ?H j q \<and> x = AgentPort j q) \<or> idx b = Some x \<and> \<not> (\<exists>j q. j \<in> set is \<and> ?H j q)"
    using snoc.IH [OF prem, of idx] by blast
  have step: "fold (index_slot sub s e) (is @ [i]) idx b = Some x \<longleftrightarrow>
      (\<exists>q. ?H i q \<and> x = AgentPort i q) \<or> ?idx b = Some x \<and> \<not> (\<exists>q. ?H i q)"
    using one by (simp only: fold_append fold.simps comp_apply id_apply) blast
  have mem: "j \<in> set (is @ [i]) \<longleftrightarrow> j \<in> set is \<or> j = i" for j
    by auto
  show ?case
  proof (cases "\<exists>q. ?H i q")
    case True
    then obtain q where q: "?H i q"
      by blast
    then have "\<And>j r. ?H j r \<Longrightarrow> j = i \<and> r = q"
      using apart by blast
    then show ?thesis
      unfolding step mem using q by blast
  next
    case False
    then show ?thesis
      unfolding step mem ih by blast
  qed
qed simp

lemma index_redirects_fold:
  "fold (index_redirect sub s e) fs idx b =
     (case idx b of Some x \<Rightarrow> Some x
      | None \<Rightarrow> if b \<in> set fs \<and> border_range s e b then freeport_redirects sub b else None)"
  by (induction fs arbitrary: idx) (auto simp: index_redirect_def border_range_def split: option.split)

text \<open>
  The rebuilt index, for a well-formed sub-net in which no border identifier is held twice: a
  border of the partition's range leads to the agent port that holds it; if no agent holds it, to the
  place the redirect ledger names; nothing else is listed.  The iteration order of the ledger does
  not matter.
\<close>

lemma rebuild_free_port_index_correct:
  assumes "core_inv sub" "borders_unique s e sub" "lists_keys redirect_order (freeport_redirects sub)"
  shows "rebuild_free_port_index redirect_order sub s e b = Some x \<longleftrightarrow>
    border_range s e b \<and>
    ((\<exists>i q. x = AgentPort i q \<and> valid_port sub i q \<and> tgt sub i q = FreePort b) \<or>
     (\<forall>i q. q < 3 \<longrightarrow> tgt sub i q \<noteq> FreePort b) \<and> freeport_redirects sub b = Some x)"
proof -
  let ?idx = "fold (index_slot sub s e) [0..<length (agents sub)] Map.empty"
  have held: "live sub i \<and> i < length (agents sub) \<and> valid_port sub i q" if "tgt sub i q = FreePort b" "q < 3" "border_range s e b" for i q
  proof -
    have "tgt sub i q \<noteq> DISCONNECTED"
      using that by (auto simp: border_range_def DISCONNECTED_def)
    then have "valid_port sub i q"
      using core_invD(2) [OF assms(1)] that(2) unfolding ports_clean_def by blast
    then show ?thesis
      using valid_port_live live_length by blast
  qed
  have "?idx b = Some y \<longleftrightarrow> border_range s e b \<and> (\<exists>i q. y = AgentPort i q \<and> valid_port sub i q \<and> tgt sub i q = FreePort b)" for y
  proof -
    have "set [0..<length (agents sub)] \<subseteq> {..<length (agents sub)}" "\<And>i. i \<in> set [0..<length (agents sub)] \<longleftrightarrow> i < length (agents sub)"
      by auto
    then show ?thesis
      using index_slots_fold [OF assms(1,2), of "[0..<length (agents sub)]" Map.empty b y] held valid_port_less
      by (metis option.distinct(1))
  qed
  then have idx: "?idx b = Some y \<longleftrightarrow> border_range s e b \<and> (\<exists>i q. y = AgentPort i q \<and> valid_port sub i q \<and> tgt sub i q = FreePort b)"
    "?idx b = None \<longleftrightarrow> \<not> (border_range s e b \<and> (\<exists>i q. valid_port sub i q \<and> tgt sub i q = FreePort b))" for y
    by (blast, metis not_Some_eq)
  have "set redirect_order = dom (freeport_redirects sub)"
    using assms(3) by (simp add: lists_keys_def)
  then have r: "rebuild_free_port_index redirect_order sub s e b =
      (case ?idx b of Some x \<Rightarrow> Some x | None \<Rightarrow> if border_range s e b then freeport_redirects sub b else None)"
    unfolding rebuild_free_port_index_def index_redirects_fold by (auto split: option.split)
  show ?thesis
  proof (cases "?idx b")
    case None
    then have "\<not> (border_range s e b \<and> (\<exists>i q. valid_port sub i q \<and> tgt sub i q = FreePort b))"
      using idx(2) by blast
    moreover have "rebuild_free_port_index redirect_order sub s e b = (if border_range s e b then freeport_redirects sub b else None)"
      using r None by simp
    ultimately show ?thesis
      using held by (metis option.distinct(1))
  next
    case (Some y)
    then have "border_range s e b" and y: "\<exists>i q. y = AgentPort i q \<and> valid_port sub i q \<and> tgt sub i q = FreePort b"
      using idx(1) by blast+
    moreover have "x = y" if "\<exists>i q. x = AgentPort i q \<and> valid_port sub i q \<and> tgt sub i q = FreePort b"
      using that y assms(2) valid_port_less calculation(1) unfolding borders_unique_def by metis
    ultimately show ?thesis
      using r Some valid_port_less by auto
  qed
qed

text \<open>An executable test of uniqueness.\<close>

lemma distinct_filter_nth:
  "distinct (filter P xs) \<Longrightarrow> x < length xs \<Longrightarrow> y < length xs \<Longrightarrow> xs ! x = xs ! y \<Longrightarrow> P (xs ! x) \<Longrightarrow> x = y"
proof (induction xs arbitrary: x y)
  case (Cons a xs)
  then show ?case
    by (cases x; cases y) (auto split: if_splits dest: nth_mem)
qed simp

definition border_port :: "nat \<Rightarrow> nat \<Rightarrow> port_ref \<Rightarrow> bool" where
  "border_port s e t \<longleftrightarrow> (case t of FreePort b \<Rightarrow> border_range s e b | AgentPort i p \<Rightarrow> False)"

lemma borders_uniqueI:
  assumes "distinct (filter (border_port s e) (ports n))"
  shows "borders_unique s e n"
  unfolding borders_unique_def
proof (intro allI impI)
  fix b i p j q
  assume *: "border_range s e b" "p < 3" "q < 3" "tgt n i p = FreePort b" "tgt n j q = FreePort b"
  then have "port_index i p < length (ports n)" "port_index j q < length (ports n)"
    using tgt_out_of_range [of i p n] tgt_out_of_range [of j q n] by (auto simp: border_range_def DISCONNECTED_def)
  moreover from this have "ports n ! port_index i p = FreePort b" "ports n ! port_index j q = FreePort b"
    using * ports_nth [OF refl] by metis+
  ultimately have "port_index i p = port_index j q"
    using distinct_filter_nth [OF assms] *(1) by (metis border_port_def port_ref.simps(6))
  then show "i = j \<and> p = q"
    using port_index_inj [OF *(2,3)] by blast
qed

text \<open>A partition with four border ports and one redirected border.\<close>

definition stub_net :: net where
  "stub_net = (pair_net Con Dup)\<lparr>freeport_redirects := [7 \<mapsto> FreePort 9]\<rparr>"

lemma rebuild_free_port_index_correct_witness:
  "rebuild_free_port_index [7] stub_net 0 8 0 = Some (AgentPort 0 1) \<and>
   rebuild_free_port_index [7] stub_net 0 8 9 = None"
proof -
  have "net_check stub_net"
    by (simp add: stub_net_def pair_net_def eval_simps)
  then have inv: "core_inv stub_net"
    unfolding net_check_iff by (rule net_invD)
  have uniq: "borders_unique 0 8 stub_net"
    by (rule borders_uniqueI) (simp add: stub_net_def pair_net_def border_port_def border_range_def)
  have keys: "lists_keys [7] (freeport_redirects stub_net)"
    by (simp add: lists_keys_def stub_net_def)
  have "valid_port stub_net 0 1 \<and> tgt stub_net 0 1 = FreePort 0"
    by (simp add: stub_net_def pair_net_def eval_simps valid_port_def sym_at_def tgt_def)
  then show ?thesis
    using rebuild_free_port_index_correct [OF inv uniq keys, of 0 "AgentPort 0 1"]
      rebuild_free_port_index_correct [OF inv uniq keys, of 9] by (auto simp: border_range_def)
qed

section \<open>Reported deltas bring the graph up to date\<close>

text \<open>The effect of one delta on one entry; \<open>None\<close> when both sides are gone.\<close>

definition delta_state :: "worker_id \<Rightarrow> port_ref \<Rightarrow> border_state \<Rightarrow> border_state option" where
  "delta_state w t s =
     (if bs_worker_a s \<noteq> w \<and> bs_worker_b s \<noteq> w then Some s
      else let s1 = (if bs_worker_a s = w then s\<lparr>bs_side_a := t\<rparr> else s\<lparr>bs_side_b := t\<rparr>)
           in if bs_side_a s1 = DISCONNECTED \<and> bs_side_b s1 = DISCONNECTED then None
              else Some (s1\<lparr>bs_is_redex := is_principal_pair (bs_side_a s1) (bs_side_b s1)\<rparr>))"

lemma borders_apply_delta:
  "bg_borders (apply_delta w d g) b =
     (if b = bd_border_id d then bg_borders g b \<bind> delta_state w (bd_new_target d) else bg_borders g b)"
  by (auto simp: apply_delta_def delta_state_def Let_def split: option.split)

lemma borders_apply_deltas:
  assumes "distinct (map bd_border_id ds)"
  shows "bg_borders (apply_deltas w ds g) b =
    (case find (\<lambda>d. bd_border_id d = b) ds of
       None \<Rightarrow> bg_borders g b | Some d \<Rightarrow> bg_borders g b \<bind> delta_state w (bd_new_target d))"
  using assms unfolding apply_deltas_def
proof (induction ds arbitrary: g)
  case (Cons d ds)
  have "find (\<lambda>d. bd_border_id d = b) ds = None" if "bd_border_id d = b"
    using that Cons.prems by (auto simp: find_None_iff image_iff)
  then show ?case
    using Cons by (auto simp: borders_apply_delta split: option.split)
qed simp

text \<open>The side of a border that a worker owns, and the agreement of a graph with what a worker last reported.\<close>

definition owns_side :: "worker_id \<Rightarrow> border_state \<Rightarrow> bool" where
  "owns_side w s \<longleftrightarrow> bs_worker_a s = w \<or> bs_worker_b s = w"

definition side_of :: "worker_id \<Rightarrow> border_state \<Rightarrow> port_ref" where
  "side_of w s = (if bs_worker_a s = w then bs_side_a s else bs_side_b s)"

definition reported :: "(nat \<rightharpoonup> port_ref) \<Rightarrow> nat \<Rightarrow> port_ref" where
  "reported idx b = (case idx b of Some x \<Rightarrow> x | None \<Rightarrow> DISCONNECTED)"

definition in_sync :: "worker_id \<Rightarrow> (nat \<rightharpoonup> port_ref) \<Rightarrow> border_graph \<Rightarrow> bool" where
  "in_sync w idx g \<longleftrightarrow> (\<forall>b s. bg_borders g b = Some s \<longrightarrow> owns_side w s \<longrightarrow> side_of w s = reported idx b)"

lemma find_outgoing:
  assumes "lists_keys po previous" "lists_keys co current"
  shows "distinct (map bd_border_id (compute_outgoing_deltas po co previous current))"
    "find (\<lambda>d. bd_border_id d = b) (compute_outgoing_deltas po co previous current) =
      (if current b = previous b then None else Some \<lparr>bd_border_id = b, bd_new_target = reported current b\<rparr>)"
proof -
  let ?f = "\<lambda>b. case current b of None \<Rightarrow> None
      | Some t \<Rightarrow> if previous b = Some t then None else Some \<lparr>bd_border_id = b, bd_new_target = t\<rparr>"
  let ?g = "\<lambda>b. \<lparr>bd_border_id = b, bd_new_target = DISCONNECTED\<rparr>"
  have ids: "map bd_border_id (List.map_filter ?f co) = filter (\<lambda>b. current b \<noteq> None \<and> previous b \<noteq> current b) co" for co
    by (induction co) (auto simp: map_filter_simps split: option.split)
  let ?ds = "compute_outgoing_deltas po co previous current"
  show dist: "distinct (map bd_border_id ?ds)"
    using assms unfolding compute_outgoing_deltas_def map_append ids
    by (auto simp: lists_keys_def comp_def)
  have mem: "d \<in> set ?ds \<longleftrightarrow> current (bd_border_id d) \<noteq> previous (bd_border_id d) \<and> bd_new_target d = reported current (bd_border_id d)" for d
  proof (cases d)
    case (fields b t)
    have keys: "set co = dom current" "set po = dom previous"
      using assms by (simp_all add: lists_keys_def)
    have "d \<in> set (List.map_filter ?f co) \<longleftrightarrow> current b = Some t \<and> previous b \<noteq> Some t"
      unfolding map_filter_def set_map set_filter image_iff keys fields by (auto split: option.splits if_splits)
    moreover have "d \<in> set (map ?g (filter (\<lambda>b. current b = None) po)) \<longleftrightarrow>
        current b = None \<and> previous b \<noteq> None \<and> t = DISCONNECTED"
      using keys(2) by (auto simp: fields)
    ultimately show ?thesis
      unfolding compute_outgoing_deltas_def set_append Un_iff by (auto simp: fields reported_def split: option.split)
  qed
  show "find (\<lambda>d. bd_border_id d = b) ?ds =
      (if current b = previous b then None else Some \<lparr>bd_border_id = b, bd_new_target = reported current b\<rparr>)"
  proof (cases "find (\<lambda>d. bd_border_id d = b) ?ds")
    case None
    then show ?thesis
      using mem [of "\<lparr>bd_border_id = b, bd_new_target = reported current b\<rparr>"] by (auto simp: find_None_iff)
  next
    case (Some d)
    then have "d \<in> set ?ds" "bd_border_id d = b"
      by (auto simp: find_Some_iff)
    then show ?thesis
      using Some mem [of d] by (cases d) auto
  qed
qed

lemma delta_state_owns:
  assumes "delta_state w t s = Some s'"
  shows "owns_side v s' \<longleftrightarrow> owns_side v s" "owns_side w s \<Longrightarrow> side_of w s' = t"
    "v \<noteq> w \<Longrightarrow> owns_side v s \<Longrightarrow> side_of v s' = side_of v s"
    "bs_worker_a s' = bs_worker_a s" "bs_worker_b s' = bs_worker_b s"
  using assms by (auto simp: delta_state_def owns_side_def side_of_def Let_def split: if_splits)

lemma outgoing_borders:
  assumes "lists_keys po previous" "lists_keys co current"
  shows "bg_borders (apply_deltas w (compute_outgoing_deltas po co previous current) g) b =
    (if current b = previous b then bg_borders g b else bg_borders g b \<bind> delta_state w (reported current b))"
  using borders_apply_deltas [OF find_outgoing(1) [OF assms]] find_outgoing(2) [OF assms] by simp

lemma delta_sync:
  assumes "bg_inv g" "in_sync w previous g" "lists_keys po previous" "lists_keys co current"
  defines "g' \<equiv> apply_deltas w (compute_outgoing_deltas po co previous current) g"
  shows "bg_inv g' \<and> in_sync w current g' \<and>
    (\<forall>v idx. v \<noteq> w \<longrightarrow> in_sync v idx g \<longrightarrow> in_sync v idx g') \<and>
    (\<forall>b s. bg_borders g b = Some s \<longrightarrow> bg_borders g' b = None \<longrightarrow>
       owns_side w s \<and> reported current b = DISCONNECTED \<and> (\<forall>v. v \<noteq> w \<longrightarrow> owns_side v s \<longrightarrow> side_of v s = DISCONNECTED))"
proof (intro conjI allI impI)
  note at = outgoing_borders [OF assms(3,4), of w g, folded g'_def]
  show "bg_inv g'"
    unfolding g'_def by (rule bg_inv_apply_deltas [OF assms(1)])
  show "in_sync w current g'"
    unfolding in_sync_def
  proof (intro allI impI)
    fix b s
    assume s: "bg_borders g' b = Some s" and own: "owns_side w s"
    show "side_of w s = reported current b"
    proof (cases "current b = previous b")
      case True
      then have "bg_borders g b = Some s"
        using s at by simp
      then show ?thesis
        using assms(2) own True by (simp add: in_sync_def reported_def)
    next
      case False
      then obtain s0 where "bg_borders g b = Some s0" "delta_state w (reported current b) s0 = Some s"
        using s at by (auto dest: bind_eq_SomeD)
      then show ?thesis
        using delta_state_owns(1,2) own by blast
    qed
  qed
  show "in_sync v idx g'" if "v \<noteq> w" "in_sync v idx g" for v idx
    unfolding in_sync_def
  proof (intro allI impI)
    fix b s
    assume s: "bg_borders g' b = Some s" and own: "owns_side v s"
    have "\<exists>s0. bg_borders g b = Some s0 \<and> (s = s0 \<or> delta_state w (reported current b) s0 = Some s)"
      using s at [of b] by (auto split: if_splits dest: bind_eq_SomeD)
    then show "side_of v s = reported idx b"
      using that own delta_state_owns(1,3) unfolding in_sync_def by metis
  qed
  fix b s
  assume s: "bg_borders g b = Some s" "bg_borders g' b = None"
  then have gone: "current b \<noteq> previous b" "delta_state w (reported current b) s = None"
    using at [of b] by (auto split: if_splits)
  then show "owns_side w s"
    by (auto simp: delta_state_def owns_side_def split: if_splits)
  show "side_of v s = DISCONNECTED" if "v \<noteq> w" "owns_side v s" for v
    using gone(2) that by (auto simp: delta_state_def owns_side_def side_of_def Let_def split: if_splits)
  show "reported current b = DISCONNECTED"
    using gone(2) by (auto simp: delta_state_def Let_def split: if_splits)
qed

text \<open>
  A round of deltas keeps coordinator and worker in step.  If the graph agrees with what a worker
  reported last, then after applying the deltas of its new index the graph agrees with the new index,
  it agrees with every other worker as before, it is still well formed, and the only borders that
  disappear are those whose two sides are both gone.
\<close>

lemma delta_round_sync:
  assumes "bg_inv g" "in_sync w previous g" "lists_keys po previous" "lists_keys co current"
  defines "g' \<equiv> apply_deltas w (compute_outgoing_deltas po co previous current) g"
  shows "bg_inv g' \<and> in_sync w current g' \<and>
    (\<forall>v idx. v \<noteq> w \<longrightarrow> in_sync v idx g \<longrightarrow> in_sync v idx g') \<and>
    (\<forall>b s. bg_borders g b = Some s \<longrightarrow> bg_borders g' b = None \<longrightarrow>
       owns_side w s \<and> reported current b = DISCONNECTED \<and> (\<forall>v. v \<noteq> w \<longrightarrow> owns_side v s \<longrightarrow> side_of v s = DISCONNECTED))"
  unfolding g'_def by (rule delta_sync [OF assms(1-4)])

text \<open>A graph with one active border between the workers 0 and 1.\<close>

definition one_border :: border_graph where
  "one_border = \<lparr>bg_borders = [4 \<mapsto> border_state_of 4 (AgentPort 0 0) (AgentPort 1 0) 0 1],
     bg_worker_borders = [[4], [4]], bg_active_redexes = {4}, bg_pending_new_borders = [], bg_resolved_mints = Map.empty\<rparr>"

lemma one_border_inv: "bg_inv one_border"
  by (auto simp: bg_inv_def one_border_def is_principal_pair_def)

lemma delta_round_sync_witness:
  "bg_inv one_border \<and> in_sync 0 [4 \<mapsto> AgentPort 0 0] one_border \<and>
   in_sync 0 [4 \<mapsto> AgentPort 5 1]
     (apply_deltas 0 (compute_outgoing_deltas [4] [4] [4 \<mapsto> AgentPort 0 0] [4 \<mapsto> AgentPort 5 1]) one_border)"
proof -
  have sync: "in_sync 0 [4 \<mapsto> AgentPort 0 0] one_border"
    by (auto simp: in_sync_def one_border_def owns_side_def side_of_def reported_def)
  have "lists_keys [4] [4 \<mapsto> AgentPort 0 0]" "lists_keys [4] [4 \<mapsto> AgentPort 5 1]"
    by (simp_all add: lists_keys_def)
  then show ?thesis
    using delta_round_sync [OF one_border_inv sync] one_border_inv sync by blast
qed

end
