(* ===== verification/Messages.thy ===== *)
theory Messages
  imports Deltas
begin

text \<open>
  The messages between coordinator and workers (\<open>protocol/types.rs\<close>) with the payloads of the delta
  protocol (\<open>merge/border_graph.rs\<close>, \<open>merge/types.rs\<close>) and the worker's errors (\<open>error.rs\<close>,
  \<open>protocol/error.rs\<close>).  The wall-clock duration in the statistics of a round is left out.
\<close>

record local_reconnection =
  lr_agent_id :: agent_id
  lr_port :: port_id
  lr_new_target :: port_ref

record local_wiring_hint =
  lw_src_slot :: nat
  lw_src_port :: port_id
  lw_target :: port_ref

record pending_commutation =
  cm_request_id :: request_id
  cm_target_symbols :: "symbol list"
  cm_local_wiring :: "local_wiring_hint list"

record worker_round_stats =
  ws_worker_id :: worker_id
  ws_agents_before :: nat
  ws_agents_after :: nat
  ws_local_redexes :: nat
  ws_interactions_by_rule :: "nat list"
  ws_has_border_activity :: bool
  ws_is_coordinator_self :: bool

datatype join_nack_reason =
    ProtocolVersionMismatch nat nat
  | ElasticJoinDisabled
  | WorkerIdSpaceExhausted
  | AuthenticationFailed

record register_payload =
  rp_protocol_version :: nat
  rp_auth_token :: "nat list option"

datatype message =
    AssignPartition nat partition
  | Shutdown
  | PartitionResult nat partition worker_round_stats
  | ErrorMessage nat worker_id string
  | Register register_payload
  | RegisterAck worker_id
  | RegisterNack string
  | InitialPartition nat partition
  | RoundStart nat "border_delta list" "nat list" "(nat \<times> port_ref) list" "local_reconnection list" "pending_commutation list"
  | RoundResult nat "border_delta list" worker_round_stats bool "minted_agent list"
  | FinalStateRequest nat
  | FinalStateResult nat partition
  | JoinRequest nat "nat list option"
  | JoinAck worker_id nat nat
  | LeaveRequest leave_kind
  | LeaveAck
  | JoinNack join_nack_reason
  | RequestWork worker_id
  | NoMoreWork

text \<open>The reasons for rejecting local wiring, and the errors a worker reports.\<close>

datatype malformed_local_wiring_reason =
    SrcSlotOutOfRange nat nat
  | SrcPortOutOfRange nat nat
  | TargetSiblingOutOfRange nat nat
  | DanglingConcreteAgent agent_id nat
  | DuplicateSourcePort nat nat
  | ReservedForFuture nat
  | ZeroArity

datatype worker_error =
    MalformedLocalWiring request_id malformed_local_wiring_reason
  | ReductionFailed string
  | IdRangeExhausted request_id

section \<open>Machines that answer events with actions\<close>

text \<open>
  Both sides are stimulus-response machines: a context and an event give a new context and a list of
  actions.  A run collects the actions.
\<close>

fun run_fsm :: "('c \<Rightarrow> 'e \<Rightarrow> 'c \<times> 'a list) \<Rightarrow> 'c \<Rightarrow> 'e list \<Rightarrow> 'c \<times> 'a list" where
  "run_fsm step c [] = (c, [])"
| "run_fsm step c (e # es) =
     (case step c e of (c1, as) \<Rightarrow> case run_fsm step c1 es of (c2, bs) \<Rightarrow> (c2, as @ bs))"

lemma run_fsm_append:
  "run_fsm step c (es @ fs) =
     (case run_fsm step c es of (c1, as) \<Rightarrow> case run_fsm step c1 fs of (c2, bs) \<Rightarrow> (c2, as @ bs))"
  by (induction es arbitrary: c) (simp_all split: prod.split)

text \<open>A list of logged transitions leads from one state to another.\<close>

fun log_path :: "'s \<Rightarrow> ('s \<times> 's) list \<Rightarrow> 's \<Rightarrow> bool" where
  "log_path x [] y \<longleftrightarrow> x = y"
| "log_path x ((u, v) # l) y \<longleftrightarrow> x = u \<and> log_path v l y"

lemma log_path_append: "log_path x (l @ m) y \<longleftrightarrow> (\<exists>z. log_path x l z \<and> log_path z m y)"
  by (induction l arbitrary: x) auto

text \<open>
  The interface of a machine with an audit log: an invariant that every step keeps, and log entries
  that record every change of state.  What holds of every run is proved once.
\<close>

locale logged_fsm =
  fixes step :: "'c \<Rightarrow> 'e \<Rightarrow> 'c \<times> 'a list"
    and inv :: "'c \<Rightarrow> bool"
    and state_of :: "'c \<Rightarrow> 's"
    and log_of :: "'a \<Rightarrow> ('s \<times> 's) option"
  assumes step_inv: "inv c \<Longrightarrow> inv (fst (step c e))"
    and step_log: "log_path (state_of c) (List.map_filter log_of (snd (step c e))) (state_of (fst (step c e)))"
begin

lemma run_inv: "inv c \<Longrightarrow> inv (fst (run_fsm step c es))"
proof (induction es arbitrary: c)
  case (Cons e es)
  then show ?case
    using step_inv [of c e] by (metis (no_types, lifting) case_prod_unfold fst_conv run_fsm.simps(2))
qed simp

lemma run_log: "log_path (state_of c) (List.map_filter log_of (snd (run_fsm step c es))) (state_of (fst (run_fsm step c es)))"
proof (induction es arbitrary: c)
  case (Cons e es)
  obtain c1 as where 1: "step c e = (c1, as)"
    by (cases "step c e")
  obtain c2 bs where 2: "run_fsm step c1 es = (c2, bs)"
    by (cases "run_fsm step c1 es")
  show ?case
    using Cons.IH [of c1] step_log [of c e] 1 2 by (auto simp: map_filter_def log_path_append)
qed (simp add: map_filter_simps)

end

end
