(* ===== verification/Worker_Fsm.thy ===== *)
theory Worker_Fsm
  imports Messages Loops
begin

text \<open>
  The worker (\<open>worker.rs\<close>): the state machine of the full-partition mode, the handlers of the delta
  mode, and the machine of pull dispatch.  A handler returns the new context and the actions; \<open>None\<close>
  inside is a panic, and \<open>None\<close> outside a local reduction that never returns.
\<close>

section \<open>The state machine\<close>

datatype worker_state = WInit | WIdle | WReducing | WReturning | WError | WDone | WDeltaIdle | WDeltaActive

datatype worker_event =
    Connected
  | ReceivePartition partition
  | ReductionComplete partition
  | SendComplete
  | ShutdownEvent
  | ReductionError string
  | ConnectionLost

datatype worker_action =
    SendMessage message
  | CloseConnection
  | ShutdownSelf
  | LogTransition worker_state worker_state
  | WorkerActionError worker_error

record worker_delta_state =
  wd_partition :: partition
  wd_previous_border_state :: "nat \<rightharpoonup> port_ref"
  wd_round :: nat

record worker_context =
  wc_state :: worker_state
  wc_round :: nat
  wc_delta_state :: "worker_delta_state option"

definition from_initial_partition :: "partition \<Rightarrow> worker_delta_state" where
  "from_initial_partition p = \<lparr>wd_partition = p, wd_previous_border_state = p_free_port_index p, wd_round = 0\<rparr>"

definition worker_context_new :: worker_context where
  "worker_context_new = \<lparr>wc_state = WInit, wc_round = 0, wc_delta_state = None\<rparr>"

definition fsm_stats :: "partition \<Rightarrow> worker_round_stats" where
  "fsm_stats p =
     \<lparr>ws_worker_id = p_worker_id p, ws_agents_before = 0, ws_agents_after = count_live_agents (p_subnet p),
      ws_local_redexes = 0, ws_interactions_by_rule = replicate 6 0, ws_has_border_activity = False,
      ws_is_coordinator_self = False\<rparr>"

definition worker_transition :: "worker_context \<Rightarrow> worker_event \<Rightarrow> worker_context \<times> worker_action list" where
  "worker_transition c e =
     (let from = wc_state c
      in case (from, e) of
           (WInit, Connected) \<Rightarrow> (c\<lparr>wc_state := WIdle\<rparr>, [LogTransition from WIdle])
         | (WIdle, ReceivePartition p) \<Rightarrow> (c\<lparr>wc_state := WReducing\<rparr>, [LogTransition from WReducing])
         | (WReducing, ReductionComplete p) \<Rightarrow>
             (c\<lparr>wc_state := WReturning\<rparr>,
              [SendMessage (PartitionResult (wc_round c) p (fsm_stats p)), LogTransition from WReturning])
         | (WReturning, SendComplete) \<Rightarrow> (c\<lparr>wc_state := WIdle\<rparr>, [LogTransition from WIdle])
         | (WIdle, ShutdownEvent) \<Rightarrow> (c\<lparr>wc_state := WDone\<rparr>, [CloseConnection, LogTransition from WDone])
         | (WReducing, ReductionError msg) \<Rightarrow>
             (c\<lparr>wc_state := WError\<rparr>, [SendMessage (ErrorMessage (wc_round c) 0 msg), LogTransition from WError])
         | (_, ConnectionLost) \<Rightarrow> (c\<lparr>wc_state := WError\<rparr>, [LogTransition from WError, ShutdownSelf])
         | _ \<Rightarrow> (c, []))"

section \<open>Delta mode\<close>

definition handle_initial_partition :: "worker_context \<Rightarrow> partition \<Rightarrow> worker_context \<times> worker_action list" where
  "handle_initial_partition c p =
     (c\<lparr>wc_delta_state := Some (from_initial_partition p), wc_state := WDeltaIdle, wc_round := 0\<rparr>,
      [LogTransition (wc_state c) WDeltaIdle])"

definition SLOT_MARKER_BASE :: nat where
  "SLOT_MARKER_BASE = u32_MAX - 10000"

text \<open>Minting one agent per symbol, in slot order.\<close>

definition mint_slots :: "symbol list \<Rightarrow> net \<Rightarrow> (agent_id list \<times> net) option" where
  "mint_slots syms n =
     ofold (\<lambda>s (ids, m). map_option (\<lambda>(i, m1). (ids @ [i], m1)) (create_agent s m)) syms ([], n)"

fun find_duplicate :: "(nat \<times> port_id) set \<Rightarrow> local_wiring_hint list \<Rightarrow> local_wiring_hint option" where
  "find_duplicate seen [] = None"
| "find_duplicate seen (h # hs) =
     (if (lw_src_slot h, lw_src_port h) \<in> seen then Some h
      else find_duplicate (insert (lw_src_slot h, lw_src_port h) seen) hs)"

definition decode_target :: "agent_id list \<Rightarrow> symbol list \<Rightarrow> port_ref \<Rightarrow> malformed_local_wiring_reason + port_ref" where
  "decode_target ids syms t =
     (case t of
        AgentPort x p \<Rightarrow>
          if x \<ge> SLOT_MARKER_BASE then
            (let k = x - SLOT_MARKER_BASE
             in if k \<ge> length syms then Inl (TargetSiblingOutOfRange (k mod 256) (length syms mod 256))
                else Inr (AgentPort (ids ! k) p))
          else Inr (AgentPort x p)
      | FreePort b \<Rightarrow> Inl (ReservedForFuture b))"

text \<open>The wiring loop: it stops at the first malformed hint, keeping the wires made so far.\<close>

fun wire_hints ::
  "agent_id list \<Rightarrow> symbol list \<Rightarrow> local_wiring_hint list \<Rightarrow> net \<Rightarrow> malformed_local_wiring_reason option \<times> net" where
  "wire_hints ids syms [] n = (None, n)"
| "wire_hints ids syms (h # hs) n =
     (if lw_src_slot h \<ge> length syms then (Some (SrcSlotOutOfRange (lw_src_slot h) (length syms mod 256)), n)
      else if lw_src_port h \<ge> total_ports (syms ! lw_src_slot h)
      then (Some (SrcPortOutOfRange (lw_src_slot h) (lw_src_port h)), n)
      else case decode_target ids syms (lw_target h) of
             Inl r \<Rightarrow> (Some r, n)
           | Inr t \<Rightarrow> wire_hints ids syms hs (connect (AgentPort (ids ! lw_src_slot h) (lw_src_port h)) t n))"

text \<open>The echo of the minted identifiers, one per slot; a slot number beyond \<open>u8\<close> panics.\<close>

definition echo_mints :: "request_id \<Rightarrow> agent_id list \<Rightarrow> minted_agent list option" where
  "echo_mints r ids =
     (if length ids > 256 then None
      else case decode_request_id r of (c, base_slot) \<Rightarrow>
             Some (map (\<lambda>(k, i). \<lparr>ma_request_id = encode_request_id (ucast c) (base_slot + of_nat k), ma_agent_id = i\<rparr>)
                     (List.enumerate 0 ids)))"

definition apply_pending_commutation ::
  "pending_commutation \<Rightarrow> net \<times> minted_agent list \<Rightarrow> (worker_error option \<times> net \<times> minted_agent list) option" where
  "apply_pending_commutation pc st =
     (let r = cm_request_id pc; syms = cm_target_symbols pc; n = fst st; buf = snd st
      in if syms = [] then Some (Some (MalformedLocalWiring r ZeroArity), n, buf)
         else case mint_slots syms n of
                None \<Rightarrow> None
              | Some (ids, n1) \<Rightarrow>
                  (case find_duplicate {} (cm_local_wiring pc) of
                     Some h \<Rightarrow> Some (Some (MalformedLocalWiring r (DuplicateSourcePort (lw_src_slot h) (lw_src_port h))), n1, buf)
                   | None \<Rightarrow>
                       (case wire_hints ids syms (cm_local_wiring pc) n1 of
                          (Some reason, n2) \<Rightarrow> Some (Some (MalformedLocalWiring r reason), n2, buf)
                        | (None, n2) \<Rightarrow> map_option (\<lambda>es. (None, n2, buf @ es)) (echo_mints r ids))))"

text \<open>The loop over the requests of a round, with the exhaustion guard in front of each.\<close>

fun apply_commutations ::
  "nat \<Rightarrow> pending_commutation list \<Rightarrow> net \<times> minted_agent list \<Rightarrow> (worker_error option \<times> net \<times> minted_agent list) option" where
  "apply_commutations range_end [] st = Some (None, st)"
| "apply_commutations range_end (pc # pcs) st =
     (if next_id (fst st) \<ge> range_end then Some (Some (IdRangeExhausted (cm_request_id pc)), st)
      else case apply_pending_commutation pc st of
             None \<Rightarrow> None
           | Some (Some err, st1) \<Rightarrow> Some (Some err, st1)
           | Some (None, st1) \<Rightarrow> apply_commutations range_end pcs st1)"

definition apply_reconnection :: "local_reconnection \<Rightarrow> net \<Rightarrow> net" where
  "apply_reconnection lr n =
     (let local = AgentPort (lr_agent_id lr) (lr_port lr)
      in if lr_new_target lr = local then n else connect local (lr_new_target lr) n)"

text \<open>
  The second half of a round, after the local reduction: rebuild the index, report what changed, keep
  the new baseline.  \<open>ord\<close> is the iteration order of hash maps from identifiers to ports.
\<close>

definition round_report ::
  "((nat \<rightharpoonup> port_ref) \<Rightarrow> nat list) \<Rightarrow> worker_context \<Rightarrow> worker_delta_state \<Rightarrow> nat \<Rightarrow> partition \<Rightarrow> net \<Rightarrow> reduction_stats \<Rightarrow>
   net \<Rightarrow> minted_agent list \<Rightarrow> worker_context \<times> worker_action list" where
  "round_report ord c st rnd p n2 rs n3 mints =
     (let idx = rebuild_free_port_index (ord (freeport_redirects n3)) n3 (p_border_id_start p) (p_border_id_end p);
          p2 = p\<lparr>p_subnet := n3, p_free_port_index := idx\<rparr>;
          prev = wd_previous_border_state st;
          outgoing = compute_outgoing_deltas (ord prev) (ord idx) prev idx;
          activity = compute_border_activity (ord idx) p2;
          stats = \<lparr>ws_worker_id = p_worker_id p2, ws_agents_before = count_live_agents n2,
                   ws_agents_after = count_live_agents n3, ws_local_redexes = total_interactions rs,
                   ws_interactions_by_rule = interactions_by_rule rs,
                   ws_has_border_activity = activity, ws_is_coordinator_self = False\<rparr>
      in (c\<lparr>wc_delta_state := Some (st\<lparr>wd_partition := p2, wd_previous_border_state := idx, wd_round := rnd\<rparr>),
            wc_round := rnd, wc_state := WDeltaActive\<rparr>,
          [LogTransition (wc_state c) WDeltaActive, SendMessage (RoundResult rnd outgoing stats activity mints)]))"

text \<open>The handler of a round.  The \<open>expect\<close> on the stored state is a panic.\<close>

definition handle_round_start ::
  "((nat \<rightharpoonup> port_ref) \<Rightarrow> nat list) \<Rightarrow> worker_context \<Rightarrow> nat \<Rightarrow> border_delta list \<Rightarrow> nat list \<Rightarrow> (nat \<times> port_ref) list \<Rightarrow>
   local_reconnection list \<Rightarrow> pending_commutation list \<Rightarrow> (worker_context \<times> worker_action list) option option" where
  "handle_round_start ord c rnd border_deltas resolved_borders new_borders reconnections commutations =
     (case wc_delta_state c of
        None \<Rightarrow> Some None
      | Some st \<Rightarrow>
          (let p1 = apply_border_deltas_to_partition border_deltas resolved_borders new_borders (wd_partition st);
               n1 = fold apply_reconnection reconnections (p_subnet p1)
           in case apply_commutations (ir_end (p_id_range p1)) commutations (n1, []) of
                None \<Rightarrow> Some None
              | Some (failure, n2, mints) \<Rightarrow>
                  (case failure of
                     Some err \<Rightarrow>
                       Some (Some (c\<lparr>wc_delta_state := Some (st\<lparr>wd_partition := p1\<lparr>p_subnet := n2\<rparr>\<rparr>)\<rparr>,
                                   [LogTransition (wc_state c) (wc_state c), WorkerActionError err]))
                   | None \<Rightarrow>
                       (case reduce_all n2 of
                          None \<Rightarrow> None
                        | Some None \<Rightarrow> Some None
                        | Some (Some (rs, n3)) \<Rightarrow> Some (Some (round_report ord c st rnd p1 n2 rs n3 mints))))))"

definition handle_final_state_request :: "worker_context \<Rightarrow> nat \<Rightarrow> (worker_context \<times> worker_action list) option" where
  "handle_final_state_request c rnd =
     (case wc_delta_state c of
        None \<Rightarrow> None
      | Some st \<Rightarrow>
          Some (c\<lparr>wc_delta_state := None, wc_round := rnd, wc_state := WReturning\<rparr>,
                [LogTransition (wc_state c) WReturning, SendMessage (FinalStateResult rnd (wd_partition st))]))"

section \<open>Pull dispatch\<close>

datatype worker_pull_state = AwaitingChunkAfterResult | FinalReduction

datatype worker_pull_event =
    ChunkReductionComplete worker_id
  | AssignPartitionReceived worker_id
  | NoMoreWorkReceived
  | FinalReductionComplete
  | UnexpectedAssignPartition

text \<open>The error; the source formats the state, and in the last arm the event, into a string.\<close>

datatype worker_pull_error = UnexpectedMessage worker_pull_state "worker_pull_event option"

record worker_pull_context =
  wp_state :: worker_pull_state
  wp_worker_id :: worker_id
  wp_streaming_active :: bool
  wp_dispatch_mode_pull :: bool
  wp_request_work_count :: nat
  wp_merge_attempted :: bool
  wp_final_results_sent :: nat

definition worker_pull_new :: "worker_id \<Rightarrow> worker_pull_context" where
  "worker_pull_new w =
     \<lparr>wp_state = AwaitingChunkAfterResult, wp_worker_id = w, wp_streaming_active = False, wp_dispatch_mode_pull = True,
      wp_request_work_count = 0, wp_merge_attempted = False, wp_final_results_sent = 0\<rparr>"

definition worker_pull_transition :: "worker_pull_context \<Rightarrow> worker_pull_event \<Rightarrow> worker_pull_error + worker_pull_context" where
  "worker_pull_transition c e =
     (case (wp_state c, e) of
        (AwaitingChunkAfterResult, AssignPartitionReceived w) \<Rightarrow> Inr (c\<lparr>wp_streaming_active := True\<rparr>)
      | (AwaitingChunkAfterResult, NoMoreWorkReceived) \<Rightarrow> Inr (c\<lparr>wp_state := FinalReduction\<rparr>)
      | (AwaitingChunkAfterResult, ChunkReductionComplete w) \<Rightarrow>
          Inr (c\<lparr>wp_request_work_count := u32_succ (wp_request_work_count c)\<rparr>)
      | (FinalReduction, FinalReductionComplete) \<Rightarrow>
          Inr (c\<lparr>wp_final_results_sent := u32_succ (wp_final_results_sent c), wp_streaming_active := False\<rparr>)
      | (_, UnexpectedAssignPartition) \<Rightarrow> Inl (UnexpectedMessage (wp_state c) None)
      | (s, ev) \<Rightarrow> Inl (UnexpectedMessage s (Some ev)))"

definition enter_streaming_mode :: "net \<Rightarrow> net" where
  "enter_streaming_mode n = n\<lparr>streaming_active := True\<rparr>"

definition exit_streaming_mode :: "net \<Rightarrow> net" where
  "exit_streaming_mode n = n\<lparr>streaming_active := False\<rparr>"

definition try_transition_with_net ::
  "worker_pull_context \<Rightarrow> worker_pull_event \<Rightarrow> net \<Rightarrow> worker_pull_error + (worker_pull_context \<times> net)" where
  "try_transition_with_net c e n =
     (case worker_pull_transition c e of
        Inl err \<Rightarrow> Inl err
      | Inr c1 \<Rightarrow>
          Inr (c1, if \<not> wp_streaming_active c \<and> wp_streaming_active c1 then enter_streaming_mode n
                   else if wp_streaming_active c \<and> \<not> wp_streaming_active c1 then exit_streaming_mode n
                   else n))"

end
