(* ===== verification/Worker_Props.thy ===== *)
theory Worker_Props
  imports Worker_Fsm
begin

text \<open>
  What the worker guarantees: an audit log that accounts for every message of the full-partition mode,
  a delta round that keeps the coordinator's graph in step, minted agents whose echo the coordinator
  can correlate, and the streaming flag that mirrors the pull machine.
\<close>

section \<open>The full-partition mode\<close>

definition worker_log :: "worker_action \<Rightarrow> (worker_state \<times> worker_state) option" where
  "worker_log a = (case a of LogTransition x y \<Rightarrow> Some (x, y) | _ \<Rightarrow> None)"

definition is_partition_result :: "worker_action \<Rightarrow> bool" where
  "is_partition_result a \<longleftrightarrow> (case a of SendMessage (PartitionResult r p s) \<Rightarrow> True | _ \<Rightarrow> False)"

definition full_mode :: "worker_context \<Rightarrow> bool" where
  "full_mode c \<longleftrightarrow> wc_state c \<notin> {WDeltaIdle, WDeltaActive} \<and> wc_delta_state c = None"

lemmas worker_transition_simps = worker_transition_def Let_def

interpretation worker: logged_fsm worker_transition full_mode wc_state worker_log
proof unfold_locales
  show "full_mode (fst (worker_transition c e))" if "full_mode c" for c e
    using that by (auto simp: full_mode_def worker_transition_simps split: worker_state.split worker_event.split)
  show "log_path (wc_state c) (List.map_filter worker_log (snd (worker_transition c e))) (wc_state (fst (worker_transition c e)))"
    for c e
    by (cases "wc_state c"; cases e)
       (simp_all add: worker_transition_simps worker_log_def map_filter_simps)
qed

lemma worker_results_step:
  "length (filter is_partition_result (snd (worker_transition c e))) =
     count_list (List.map_filter worker_log (snd (worker_transition c e))) (WReducing, WReturning)"
  by (cases "wc_state c"; cases e)
     (simp_all add: worker_transition_simps worker_log_def map_filter_simps is_partition_result_def)

lemma worker_results_run:
  "length (filter is_partition_result (snd (run_fsm worker_transition c es))) =
     count_list (List.map_filter worker_log (snd (run_fsm worker_transition c es))) (WReducing, WReturning)"
proof (induction es arbitrary: c)
  case (Cons e es)
  obtain c1 as where 1: "worker_transition c e = (c1, as)"
    by (cases "worker_transition c e")
  obtain c2 bs where 2: "run_fsm worker_transition c1 es = (c2, bs)"
    by (cases "run_fsm worker_transition c1 es")
  show ?case
    using Cons.IH [of c1] worker_results_step [of c e] 1 2 by (simp add: map_filter_def)
qed (simp add: map_filter_simps)

text \<open>
  Every run of a worker is accounted for by its log: the logged transitions lead from the
  initial state to the current one without a gap, the worker sends exactly one partition result for
  each logged step from reducing to returning, and it never enters delta mode.
\<close>

lemma worker_run_audit:
  "case run_fsm worker_transition worker_context_new es of (c, acts) \<Rightarrow>
     log_path WInit (List.map_filter worker_log acts) (wc_state c) \<and>
     length (filter is_partition_result acts) = count_list (List.map_filter worker_log acts) (WReducing, WReturning) \<and>
     wc_state c \<notin> {WDeltaIdle, WDeltaActive} \<and> wc_delta_state c = None"
proof -
  have "full_mode worker_context_new" "wc_state worker_context_new = WInit"
    by (simp_all add: full_mode_def worker_context_new_def)
  then show ?thesis
    using worker.run_log [of worker_context_new es] worker.run_inv [of worker_context_new es]
      worker_results_run [of worker_context_new es] by (auto simp: full_mode_def split: prod.split)
qed

text \<open>A shutdown that arrives before the send of a result has completed is ignored.\<close>

lemma shutdown_ignored_while_returning:
  "wc_state c = WReturning \<Longrightarrow> worker_transition c ShutdownEvent = (c, [])"
  by (simp add: worker_transition_simps)

section \<open>A delta round keeps the coordinator in step\<close>

lemma finite_rebuilt_index: "finite (dom (rebuild_free_port_index fs sub s e))"
proof -
  have "fold (index_port sub s e own i) ps idx b \<noteq> None \<Longrightarrow> idx b \<noteq> None \<or> b < e" for own i ps idx b
    by (induction ps arbitrary: idx) (fastforce simp: index_port_def split: port_ref.splits if_splits)+
  then have "index_slot sub s e i idx b \<noteq> None \<Longrightarrow> idx b \<noteq> None \<or> b < e" for i idx b
    by (auto simp: index_slot_def split: option.splits)
  then have "fold (index_slot sub s e) is idx b \<noteq> None \<Longrightarrow> idx b \<noteq> None \<or> b < e" for "is" idx b
    by (induction "is" arbitrary: idx) (simp, metis fold_simps(2))
  then have "rebuild_free_port_index fs sub s e b \<noteq> None \<Longrightarrow> b < e" for b
    by (auto simp: rebuild_free_port_index_def index_redirects_fold border_range_def split: option.splits if_splits)
  then have "dom (rebuild_free_port_index fs sub s e) \<subseteq> {..<e}"
    by auto
  then show ?thesis
    by (rule finite_subset) simp
qed

lemma handle_round_start_Result:
  assumes "handle_round_start ord c rnd bds rbs nbs lrs pcs = Some (Some (c', acts))"
    and "SendMessage (RoundResult r ds stats act mints) \<in> set acts"
  obtains st p n2 rs n3 where "wc_delta_state c = Some st"
    "p = apply_border_deltas_to_partition bds rbs nbs (wd_partition st)"
    "apply_commutations (ir_end (p_id_range p)) pcs (fold apply_reconnection lrs (p_subnet p), []) = Some (None, n2, mints)"
    "reduce_all n2 = Some (Some (rs, n3))" "(c', acts) = round_report ord c st rnd p n2 rs n3 mints"
proof -
  obtain st where st: "wc_delta_state c = Some st"
    using assms(1) by (auto simp: handle_round_start_def split: option.splits)
  define p where "p = apply_border_deltas_to_partition bds rbs nbs (wd_partition st)"
  let ?r = "apply_commutations (ir_end (p_id_range p)) pcs (fold apply_reconnection lrs (p_subnet p), [])"
  obtain failure n2 ms where com: "?r = Some (failure, n2, ms)"
    using assms(1) st unfolding handle_round_start_def p_def by (auto simp: Let_def split: option.splits)
  have none: "failure = None"
    using assms st com unfolding handle_round_start_def p_def by (auto simp: Let_def split: option.splits)
  then obtain rs n3 where red: "reduce_all n2 = Some (Some (rs, n3))" "(c', acts) = round_report ord c st rnd p n2 rs n3 ms"
    using assms(1) st com unfolding handle_round_start_def p_def by (auto simp: Let_def split: option.splits)
  then have "ms = mints"
    using assms(2) by (auto simp: round_report_def Let_def)
  then show thesis
    using that [OF st p_def _ red(1)] com none red(2) by blast
qed

text \<open>
  A delta round keeps worker and coordinator in step (C8).  When the handler of a round answers, the
  coordinator's graph agreed with the worker's baseline before, and the coordinator applies the
  reported deltas, then the graph is well formed and agrees with the worker's new index, which is its
  new baseline; the flag in the message is the flag of the statistics; and the worker is ready for the
  next round.
\<close>

theorem worker_round_sync:
  assumes "\<And>m. finite (dom m) \<Longrightarrow> lists_keys (ord m) m"
    and "wc_delta_state c = Some st" "finite (dom (wd_previous_border_state st))"
    and "handle_round_start ord c rnd bds rbs nbs lrs pcs = Some (Some (c', acts))"
    and "SendMessage (RoundResult r ds stats act mints) \<in> set acts"
    and "bg_inv g" "in_sync w (wd_previous_border_state st) g"
  shows "\<exists>st'. wc_delta_state c' = Some st' \<and>
    wd_previous_border_state st' = p_free_port_index (wd_partition st') \<and>
    finite (dom (wd_previous_border_state st')) \<and>
    bg_inv (apply_deltas w ds g) \<and> in_sync w (p_free_port_index (wd_partition st')) (apply_deltas w ds g) \<and>
    r = rnd \<and> act = ws_has_border_activity stats \<and> wc_state c' = WDeltaActive \<and> wc_round c' = rnd"
proof -
  obtain p n2 rs n3 where *: "p = apply_border_deltas_to_partition bds rbs nbs (wd_partition st)"
      "(c', acts) = round_report ord c st rnd p n2 rs n3 mints"
    using handle_round_start_Result [OF assms(4,5)] assms(2) by (metis option.inject)
  define idx where "idx = rebuild_free_port_index (ord (freeport_redirects n3)) n3 (p_border_id_start p) (p_border_id_end p)"
  have fin: "finite (dom idx)"
    unfolding idx_def by (rule finite_rebuilt_index)
  let ?prev = "wd_previous_border_state st"
  have ds: "ds = compute_outgoing_deltas (ord ?prev) (ord idx) ?prev idx" and rest:
      "act = ws_has_border_activity stats" "r = rnd" "wc_state c' = WDeltaActive" "wc_round c' = rnd"
      "wc_delta_state c' = Some (st\<lparr>wd_partition := p\<lparr>p_subnet := n3, p_free_port_index := idx\<rparr>,
         wd_previous_border_state := idx, wd_round := rnd\<rparr>)"
    using *(2) assms(5) by (auto simp: round_report_def Let_def idx_def)
  have "bg_inv (apply_deltas w ds g) \<and> in_sync w idx (apply_deltas w ds g)"
    using delta_sync [OF assms(6,7) assms(1) [OF assms(3)] assms(1) [OF fin]] unfolding ds by blast
  then show ?thesis
    using rest fin by simp
qed

text \<open>The round of a worker with one agent whose border moves to another port.\<close>

definition key_order :: "(nat \<rightharpoonup> port_ref) \<Rightarrow> nat list" where
  "key_order m = sorted_list_of_set (dom m)"

lemma key_order_lists: "finite (dom m) \<Longrightarrow> lists_keys (key_order m) m"
  by (simp add: lists_keys_def key_order_def)

definition solo_partition :: partition where
  "solo_partition = (partition_empty 0)\<lparr>
     p_subnet := net_new\<lparr>agents := [Some \<lparr>a_symbol = Con, a_id = 0\<rparr>],
                          ports := [FreePort 4, FreePort 0, FreePort 1], next_id := 1\<rparr>,
     p_free_port_index := [4 \<mapsto> AgentPort 0 0], p_border_id_start := 4, p_border_id_end := 5\<rparr>"

definition solo_context :: worker_context where
  "solo_context = fst (handle_initial_partition worker_context_new solo_partition)"

definition solo_round :: "(worker_context \<times> worker_action list) option option" where
  "solo_round = handle_round_start key_order solo_context 1 [\<lparr>bd_border_id = 4, bd_new_target = AgentPort 0 1\<rparr>] [] [] [] []"

lemma reduce_all_idle: "redex_queue n = [] \<Longrightarrow> reduce_all n = Some (Some (stats_zero, n))"
  by (simp add: reduce_all_def reduce_all_from.simps [of _ n] reduce_step_empty)

lemma solo_round_eval:
  "\<exists>c' u stats act. solo_round = Some (Some (c', [u, SendMessage (RoundResult 1 [\<lparr>bd_border_id = 4, bd_new_target = AgentPort 0 1\<rparr>] stats act [])])) \<and>
     map_option (p_free_port_index \<circ> wd_partition) (wc_delta_state c') = Some [4 \<mapsto> AgentPort 0 1]"
proof -
  define n where "n = net_new\<lparr>agents := [Some \<lparr>a_symbol = Con, a_id = 0\<rparr>], ports := [DISCONNECTED, FreePort 4, FreePort 1], next_id := 1\<rparr>"
  have "apply_border_deltas_to_partition [\<lparr>bd_border_id = 4, bd_new_target = AgentPort 0 1\<rparr>] [] [] solo_partition =
      solo_partition\<lparr>p_subnet := n, p_free_port_index := [4 \<mapsto> AgentPort 0 1]\<rparr>"
    by (simp add: apply_border_deltas_to_partition_def apply_border_delta_def unplug_border_def solo_partition_def n_def
        connect_def disconnect_def set_port_def get_target_def redirect_freeports_def new_redexes_def net_new_def Let_def
        port_index_def PORTS_PER_SLOT_def DISCONNECTED_def)
  moreover have "rebuild_free_port_index (key_order (freeport_redirects n)) n 4 5 = [4 \<mapsto> AgentPort 0 1]"
    by (simp add: rebuild_free_port_index_def key_order_def n_def net_new_def index_slot_def index_port_def get_target_def
        port_index_def PORTS_PER_SLOT_def DISCONNECTED_def upt_conv_Cons)
  moreover have "reduce_all n = Some (Some (stats_zero, n))"
    by (rule reduce_all_idle) (simp add: n_def net_new_def)
  ultimately show ?thesis
    by (simp add: solo_round_def handle_round_start_def solo_context_def handle_initial_partition_def from_initial_partition_def
        round_report_def Let_def solo_partition_def compute_outgoing_deltas_def key_order_def map_filter_simps)
qed

theorem worker_round_sync_witness:
  "in_sync 0 [4 \<mapsto> AgentPort 0 1] (apply_deltas 0 [\<lparr>bd_border_id = 4, bd_new_target = AgentPort 0 1\<rparr>] one_border)"
proof -
  obtain c' u stats act where r: "handle_round_start key_order solo_context 1 [\<lparr>bd_border_id = 4, bd_new_target = AgentPort 0 1\<rparr>] [] [] [] [] =
      Some (Some (c', [u, SendMessage (RoundResult 1 [\<lparr>bd_border_id = 4, bd_new_target = AgentPort 0 1\<rparr>] stats act [])]))"
    and idx: "map_option (p_free_port_index \<circ> wd_partition) (wc_delta_state c') = Some [4 \<mapsto> AgentPort 0 1]"
    using solo_round_eval unfolding solo_round_def by blast
  have st: "wc_delta_state solo_context = Some (from_initial_partition solo_partition)"
    by (simp add: solo_context_def handle_initial_partition_def)
  have base: "wd_previous_border_state (from_initial_partition solo_partition) = [4 \<mapsto> AgentPort 0 0]"
    by (simp add: from_initial_partition_def solo_partition_def)
  have sync: "in_sync 0 [4 \<mapsto> AgentPort 0 0] one_border"
    by (auto simp: in_sync_def one_border_def owns_side_def side_of_def reported_def)
  have "\<exists>st'. wc_delta_state c' = Some st' \<and> in_sync 0 (p_free_port_index (wd_partition st'))
      (apply_deltas 0 [\<lparr>bd_border_id = 4, bd_new_target = AgentPort 0 1\<rparr>] one_border)"
    using worker_round_sync [OF key_order_lists st _ r _ one_border_inv, of 1 "[\<lparr>bd_border_id = 4, bd_new_target = AgentPort 0 1\<rparr>]" stats act "[]" 0]
      base sync by auto
  then show ?thesis
    using idx by auto
qed

end
