(* ===== verification/Resolver.thy ===== *)
theory Resolver
  imports Worker_Fsm
begin

text \<open>
  The coordinator's resolution of border redexes (\<open>merge/border_resolver.rs\<close>): materialising the two
  agents from the cached partitions, the resolution of each symbol pair, the two counters, and the
  packaging of resolutions into one message per worker.  \<open>None\<close> is a panic.
\<close>

section \<open>Data\<close>

record worker_deltas =
  wl_border_deltas :: "border_delta list"
  wl_local_reconnections :: "(port_ref \<times> port_ref) list"

record commutation_batch =
  cb_commutation_id :: commutation_id
  cb_worker :: worker_id
  cb_target_symbols :: "symbol list"
  cb_local_wiring :: "(nat \<times> port_id \<times> port_ref) list"

record border_resolution =
  br_worker_deltas :: "(worker_id \<times> worker_deltas) list"
  br_resolved_borders :: "(nat \<times> worker_id \<times> worker_id) list"
  br_new_borders :: "add_border_entry list"
  br_pending_commutations :: "commutation_batch list"
  br_pending_new_borders :: "pending_new_border list"

definition resolution_default :: border_resolution where
  "resolution_default =
     \<lparr>br_worker_deltas = [], br_resolved_borders = [], br_new_borders = [], br_pending_commutations = [],
      br_pending_new_borders = []\<rparr>"

record round_start_dispatch =
  rd_border_deltas :: "border_delta list"
  rd_local_reconnections :: "(port_ref \<times> port_ref) list"
  rd_resolved_borders :: "nat list"
  rd_new_borders :: "(nat \<times> port_ref) list"
  rd_pending_commutations :: "commutation_batch list"

definition dispatch_default :: round_start_dispatch where
  "dispatch_default =
     \<lparr>rd_border_deltas = [], rd_local_reconnections = [], rd_resolved_borders = [], rd_new_borders = [],
      rd_pending_commutations = []\<rparr>"

record border_id_allocator =
  ba_next :: nat

definition border_alloc_from_graph :: "nat list \<Rightarrow> border_graph \<Rightarrow> border_id_allocator" where
  "border_alloc_from_graph border_order g =
     \<lparr>ba_next = (if border_order = [] then 0 else min (fold max border_order 0 + 1) u32_MAX)\<rparr>"

definition border_alloc_next :: "border_id_allocator \<Rightarrow> (nat \<times> border_id_allocator) option" where
  "border_alloc_next a = (if ba_next a \<ge> u32_MAX then None else Some (ba_next a, a\<lparr>ba_next := ba_next a + 1\<rparr>))"

definition commutation_batch_to_pending :: "commutation_batch \<Rightarrow> pending_commutation" where
  "commutation_batch_to_pending b =
     \<lparr>cm_request_id = encode_request_id (cb_commutation_id b) 0, cm_target_symbols = cb_target_symbols b,
      cm_local_wiring = map (\<lambda>(s, p, t). \<lparr>lw_src_slot = s, lw_src_port = p, lw_target = t\<rparr>) (cb_local_wiring b)\<rparr>"

section \<open>Packaging\<close>

definition update_at :: "nat \<Rightarrow> ('a \<Rightarrow> 'a) \<Rightarrow> 'a list \<Rightarrow> 'a list option" where
  "update_at w f xs = (if w < length xs then Some (xs[w := f (xs ! w)]) else None)"

definition pack_deltas :: "worker_id \<times> worker_deltas \<Rightarrow> round_start_dispatch list \<Rightarrow> round_start_dispatch list option" where
  "pack_deltas e ds =
     (case e of (w, wd) \<Rightarrow>
        update_at w (\<lambda>d. d\<lparr>rd_border_deltas := rd_border_deltas d @ wl_border_deltas wd,
                           rd_local_reconnections := rd_local_reconnections d @ wl_local_reconnections wd\<rparr>) ds)"

definition pack_resolved :: "nat \<times> worker_id \<times> worker_id \<Rightarrow> round_start_dispatch list \<Rightarrow> round_start_dispatch list option" where
  "pack_resolved e ds =
     (case e of (b, wa, wb) \<Rightarrow>
        let push = (\<lambda>d. d\<lparr>rd_resolved_borders := rd_resolved_borders d @ [b]\<rparr>)
        in do { ds1 \<leftarrow> update_at wa push ds; if wa \<noteq> wb then update_at wb push ds1 else Some ds1 })"

definition pack_new :: "add_border_entry \<Rightarrow> round_start_dispatch list \<Rightarrow> round_start_dispatch list option" where
  "pack_new e ds =
     (let push = (\<lambda>x d. d\<lparr>rd_new_borders := rd_new_borders d @ [(ab_border_id e, x)]\<rparr>)
      in do { ds1 \<leftarrow> update_at (ab_worker_a e) (push (ab_side_a e)) ds;
              if ab_worker_a e \<noteq> ab_worker_b e then update_at (ab_worker_b e) (push (ab_side_b e)) ds1 else Some ds1 })"

definition pack_batch :: "commutation_batch \<Rightarrow> round_start_dispatch list \<Rightarrow> round_start_dispatch list option" where
  "pack_batch b ds = update_at (cb_worker b) (\<lambda>d. d\<lparr>rd_pending_commutations := rd_pending_commutations d @ [b]\<rparr>) ds"

definition pack_resolution ::
  "border_resolution \<Rightarrow> round_start_dispatch list \<times> pending_new_border list \<Rightarrow>
   (round_start_dispatch list \<times> pending_new_border list) option" where
  "pack_resolution r st =
     do { ds1 \<leftarrow> ofold pack_deltas (br_worker_deltas r) (fst st);
          ds2 \<leftarrow> ofold pack_resolved (br_resolved_borders r) ds1;
          ds3 \<leftarrow> ofold pack_new (br_new_borders r) ds2;
          ds4 \<leftarrow> ofold pack_batch (br_pending_commutations r) ds3;
          Some (ds4, snd st @ br_pending_new_borders r) }"

definition package_resolutions_inner ::
  "border_resolution list \<Rightarrow> nat \<Rightarrow> ((worker_id \<times> round_start_dispatch) list \<times> pending_new_border list) option" where
  "package_resolutions_inner rs k =
     map_option (\<lambda>(ds, pending). (List.enumerate 0 ds, pending)) (ofold pack_resolution rs (replicate k dispatch_default, []))"

definition package_resolutions :: "border_resolution list \<Rightarrow> nat \<Rightarrow> (worker_id \<times> round_start_dispatch) list option" where
  "package_resolutions rs k = map_option fst (package_resolutions_inner rs k)"

definition package_resolutions_with_pending ::
  "border_resolution list \<Rightarrow> nat \<Rightarrow> ((worker_id \<times> round_start_dispatch) list \<times> pending_new_border list) option" where
  "package_resolutions_with_pending rs k = package_resolutions_inner rs k"

section \<open>Resolving one redex\<close>

definition materialize_agent :: "partition \<Rightarrow> port_ref \<Rightarrow> (agent_id \<times> symbol) option" where
  "materialize_agent p port =
     (case port of
        AgentPort i q \<Rightarrow> if q = 0 then map_option (\<lambda>ag. (i, a_symbol ag)) (get_agent (p_subnet p) i) else None
      | FreePort f \<Rightarrow> None)"

definition assert_agent :: "partition \<Rightarrow> port_ref \<Rightarrow> (agent_id \<times> symbol) option" where
  "assert_agent p port = materialize_agent p port"

definition aux_target :: "partition \<Rightarrow> agent_id \<Rightarrow> port_id \<Rightarrow> port_ref" where
  "aux_target p i q = get_target (p_subnet p) (AgentPort i q)"

definition resolved_of :: "border_state \<Rightarrow> (nat \<times> worker_id \<times> worker_id) list" where
  "resolved_of s = [(bs_border_id s, bs_worker_a s, bs_worker_b s)]"

definition resolve_con_con :: "border_state \<Rightarrow> partition \<Rightarrow> partition \<Rightarrow> agent_id \<Rightarrow> agent_id \<Rightarrow> border_resolution" where
  "resolve_con_con s pa pb a b =
     resolution_default\<lparr>br_worker_deltas :=
         [(bs_worker_a s, \<lparr>wl_border_deltas = [],
             wl_local_reconnections = [(aux_target pa a 1, aux_target pb b 2), (aux_target pa a 2, aux_target pb b 1)]\<rparr>)],
       br_resolved_borders := resolved_of s\<rparr>"

definition resolve_dup_dup :: "border_state \<Rightarrow> partition \<Rightarrow> partition \<Rightarrow> agent_id \<Rightarrow> agent_id \<Rightarrow> border_resolution" where
  "resolve_dup_dup s pa pb a b =
     resolution_default\<lparr>br_worker_deltas :=
         [(bs_worker_a s, \<lparr>wl_border_deltas = [],
             wl_local_reconnections = [(aux_target pa a 1, aux_target pb b 1), (aux_target pa a 2, aux_target pb b 2)]\<rparr>)],
       br_resolved_borders := resolved_of s\<rparr>"

definition resolve_era_era :: "border_state \<Rightarrow> border_resolution" where
  "resolve_era_era s = resolution_default\<lparr>br_resolved_borders := resolved_of s\<rparr>"

definition slot_marker :: "nat \<Rightarrow> agent_id" where
  "slot_marker slot = SLOT_MARKER_BASE + slot"

text \<open>The state the emission of CON-DUP threads: wiring of one batch, pending borders, counter.\<close>

type_synonym emit_state = "(nat \<times> port_id \<times> port_ref) list \<times> pending_new_border list \<times> border_id_allocator"

definition emit_external_principal ::
  "port_ref \<Rightarrow> worker_id \<Rightarrow> commutation_id \<Rightarrow> nat \<Rightarrow> worker_id \<Rightarrow> emit_state \<Rightarrow> emit_state option" where
  "emit_external_principal target target_home cid slot new_worker =
     (\<lambda>(wiring, pending, alloc).
        if (case target of AgentPort i p \<Rightarrow> new_worker = target_home | FreePort f \<Rightarrow> False)
        then Some (wiring @ [(slot, 0, target)], pending, alloc)
        else
          map_option (\<lambda>(b, alloc1).
              (wiring, pending @ [\<lparr>pb_border_id = b, pb_side_a = Pending cid (of_nat slot) 0, pb_side_b = Concrete target,
                                   pb_worker_a = new_worker, pb_worker_b = target_home\<rparr>], alloc1))
            (border_alloc_next alloc))"

definition cross_border :: "nat \<Rightarrow> commutation_id \<Rightarrow> nat \<Rightarrow> port_id \<Rightarrow> commutation_id \<Rightarrow> nat \<Rightarrow> port_id \<Rightarrow> worker_id \<Rightarrow> worker_id \<Rightarrow> pending_new_border"
  where
  "cross_border b c s p c' s' p' w w' =
     \<lparr>pb_border_id = b, pb_side_a = Pending c (of_nat s) p, pb_side_b = Pending c' (of_nat s') p',
      pb_worker_a = w, pb_worker_b = w'\<rparr>"

definition resolve_con_dup ::
  "border_state \<Rightarrow> partition \<Rightarrow> partition \<Rightarrow> agent_id \<Rightarrow> agent_id \<Rightarrow> worker_id \<Rightarrow> worker_id \<Rightarrow>
   border_id_allocator \<Rightarrow> commutation_id_allocator \<Rightarrow>
   (border_resolution \<times> border_id_allocator \<times> commutation_id_allocator) option" where
  "resolve_con_dup s pc pd c d wc wd alloc calloc =
     do { (cid_con, calloc1) \<leftarrow> commutation_alloc_next calloc;
          (cid_dup, calloc2) \<leftarrow> commutation_alloc_next calloc1;
          (con1, pend1, alloc1) \<leftarrow> emit_external_principal (aux_target pc c 1) wc cid_con 0 wc ([], [], alloc);
          (dup1, pend2, alloc2) \<leftarrow> emit_external_principal (aux_target pc c 2) wc cid_dup 0 wd ([], pend1, alloc1);
          (con2, pend3, alloc3) \<leftarrow> emit_external_principal (aux_target pd d 1) wd cid_con 1 wc (con1, pend2, alloc2);
          (dup2, pend4, alloc4) \<leftarrow> emit_external_principal (aux_target pd d 2) wd cid_dup 1 wd (dup1, pend3, alloc3);
          (b1, alloc5) \<leftarrow> border_alloc_next alloc4;
          (b2, alloc6) \<leftarrow> border_alloc_next alloc5;
          Some (resolution_default\<lparr>
                  br_resolved_borders := resolved_of s,
                  br_pending_commutations :=
                    [\<lparr>cb_commutation_id = cid_con, cb_worker = wc, cb_target_symbols = [Dup, Con],
                      cb_local_wiring = con2 @ [(0, 1, AgentPort (slot_marker 1) 1)]\<rparr>,
                     \<lparr>cb_commutation_id = cid_dup, cb_worker = wd, cb_target_symbols = [Dup, Con],
                      cb_local_wiring = dup2 @ [(0, 2, AgentPort (slot_marker 1) 2)]\<rparr>],
                  br_pending_new_borders :=
                    pend4 @ [cross_border b1 cid_con 0 2 cid_dup 1 1 wc wd, cross_border b2 cid_dup 0 1 cid_con 1 2 wd wc]\<rparr>,
                alloc6, calloc2) }"

definition emit_erasure_principal ::
  "port_ref \<Rightarrow> commutation_id \<Rightarrow> nat \<Rightarrow> worker_id \<Rightarrow> border_graph \<Rightarrow>
   (nat \<times> port_id \<times> port_ref) list \<times> pending_new_border list \<Rightarrow> (nat \<times> port_id \<times> port_ref) list \<times> pending_new_border list" where
  "emit_erasure_principal target cid slot era_worker g =
     (\<lambda>(wiring, pending).
        case target of
          AgentPort i p \<Rightarrow> (wiring @ [(slot, 0, target)], pending)
        | FreePort b \<Rightarrow>
            (let (other, worker) =
               (case bg_borders g b of
                  Some s \<Rightarrow> if bs_worker_a s = era_worker then (bs_side_b s, bs_worker_b s) else (bs_side_a s, bs_worker_a s)
                | None \<Rightarrow> (target, era_worker))
             in (wiring, pending @ [\<lparr>pb_border_id = b, pb_side_a = Pending cid (of_nat slot) 0, pb_side_b = Concrete other,
                                     pb_worker_a = era_worker, pb_worker_b = worker\<rparr>])))"

definition resolve_non_era_era ::
  "border_state \<Rightarrow> border_graph \<Rightarrow> partition \<Rightarrow> agent_id \<Rightarrow> worker_id \<Rightarrow> commutation_id_allocator \<Rightarrow>
   (border_resolution \<times> commutation_id_allocator) option" where
  "resolve_non_era_era s g p i w calloc =
     map_option (\<lambda>(cid, calloc1).
         let (wiring, pending) =
               emit_erasure_principal (aux_target p i 2) cid 1 w g (emit_erasure_principal (aux_target p i 1) cid 0 w g ([], []))
         in (resolution_default\<lparr>
               br_resolved_borders := resolved_of s,
               br_pending_commutations :=
                 [\<lparr>cb_commutation_id = cid, cb_worker = w, cb_target_symbols = [Era, Era], cb_local_wiring = wiring\<rparr>],
               br_pending_new_borders := pending\<rparr>, calloc1))
       (commutation_alloc_next calloc)"

definition resolve_border_redex ::
  "border_graph \<Rightarrow> partition list \<Rightarrow> nat \<Rightarrow> border_id_allocator \<Rightarrow> commutation_id_allocator \<Rightarrow>
   (border_resolution \<times> border_graph \<times> border_id_allocator \<times> commutation_id_allocator) option" where
  "resolve_border_redex g parts b alloc calloc =
     do { s \<leftarrow> bg_borders g b;
          pa \<leftarrow> vec_get parts (bs_worker_a s);
          pb \<leftarrow> vec_get parts (bs_worker_b s);
          (i, sym_a) \<leftarrow> assert_agent pa (bs_side_a s);
          (j, sym_b) \<leftarrow> assert_agent pb (bs_side_b s);
          (r, alloc1, calloc1) \<leftarrow>
            (case (sym_a, sym_b) of
               (Con, Con) \<Rightarrow> Some (resolve_con_con s pa pb i j, alloc, calloc)
             | (Dup, Dup) \<Rightarrow> Some (resolve_dup_dup s pa pb i j, alloc, calloc)
             | (Era, Era) \<Rightarrow> Some (resolve_era_era s, alloc, calloc)
             | (Con, Dup) \<Rightarrow> resolve_con_dup s pa pb i j (bs_worker_a s) (bs_worker_b s) alloc calloc
             | (Dup, Con) \<Rightarrow> resolve_con_dup s pb pa j i (bs_worker_b s) (bs_worker_a s) alloc calloc
             | (_, Era) \<Rightarrow> map_option (\<lambda>(r, c). (r, alloc, c)) (resolve_non_era_era s g pa i (bs_worker_a s) calloc)
             | (Era, _) \<Rightarrow> map_option (\<lambda>(r, c). (r, alloc, c)) (resolve_non_era_era s g pb j (bs_worker_b s) calloc));
          Some (r, snd (remove_border b g), alloc1, calloc1) }"

end
