(* ===== verification/Resolver_Props.thy ===== *)
theory Resolver_Props
  imports Resolver Worker_Props "HOL-Library.Multiset"
begin

text \<open>
  The two-phase commutation across coordinator, worker and graph: what the resolver emits, that the
  workers' echoes are exactly what the graph expects for a constructor-duplicator redex, that they are
  refused for an erasure next to a local neighbour, and how resolutions are packaged per worker.
\<close>

section \<open>Promoting pending borders\<close>

definition added :: "border_graph \<Rightarrow> add_border_entry list \<Rightarrow> border_graph \<Rightarrow> bool" where
  "added g es g' \<longleftrightarrow>
     length (bg_worker_borders g') = length (bg_worker_borders g) \<and>
     bg_pending_new_borders g' = bg_pending_new_borders g \<and> bg_resolved_mints g' = bg_resolved_mints g \<and>
     (\<forall>b. bg_borders g' b = (case find (\<lambda>e. ab_border_id e = b) es of Some e \<Rightarrow> Some (entry_state e) | None \<Rightarrow> bg_borders g b))"

lemma add_border_states_total:
  assumes "distinct (map ab_border_id es)" "\<And>e. e \<in> set es \<Longrightarrow> bg_borders g (ab_border_id e) = None"
    and "\<And>e. e \<in> set es \<Longrightarrow> ab_worker_a e < length (bg_worker_borders g) \<and> ab_worker_b e < length (bg_worker_borders g)"
  shows "\<exists>g'. add_border_states es g = Some g' \<and> added g es g'"
  using assms
proof (induction es arbitrary: g)
  case (Cons e es)
  have free: "bg_borders g (ab_border_id e) = None" and in_range: "ab_worker_a e < length (bg_worker_borders g)" "ab_worker_b e < length (bg_worker_borders g)"
    using Cons.prems(2,3) [of e] by auto
  then obtain g1 where g1: "add_border_state e g = Some g1"
    by (auto simp: add_border_state_def insert_border_def entry_state_def Let_def)
  then have one: "bg_borders g1 = (bg_borders g)(ab_border_id e \<mapsto> entry_state e)"
      "length (bg_worker_borders g1) = length (bg_worker_borders g)"
      "bg_pending_new_borders g1 = bg_pending_new_borders g" "bg_resolved_mints g1 = bg_resolved_mints g"
    using free in_range by (auto simp: add_border_state_def insert_border_def entry_state_def Let_def push_at_def split: if_splits)
  have "distinct (map ab_border_id es)"
    using Cons.prems(1) by simp
  moreover have "bg_borders g1 (ab_border_id e') = None" if "e' \<in> set es" for e'
  proof -
    have "ab_border_id e' \<noteq> ab_border_id e"
      using Cons.prems(1) that by (metis distinct.simps(2) image_eqI list.set_map list.simps(9))
    then show ?thesis
      using Cons.prems(2) [of e'] that by (simp add: one(1))
  qed
  moreover have "ab_worker_a e' < length (bg_worker_borders g1) \<and> ab_worker_b e' < length (bg_worker_borders g1)" if "e' \<in> set es" for e'
    using Cons.prems(3) [of e'] that by (simp add: one(2))
  ultimately obtain g' where g': "add_border_states es g1 = Some g'" "added g1 es g'"
    using Cons.IH [of g1] by blast
  have none: "find (\<lambda>e'. ab_border_id e' = ab_border_id e) es = None"
    using Cons.prems(1) by (auto simp: find_None_iff image_iff)
  have "bg_borders g' b = (case find (\<lambda>e. ab_border_id e = b) (e # es) of Some e \<Rightarrow> Some (entry_state e) | None \<Rightarrow> bg_borders g b)" for b
    using g'(2) none unfolding added_def one(1) by (cases "ab_border_id e = b") (auto split: option.split)
  then have "added g (e # es) g'"
    using g'(2) unfolding added_def one(2-4) by blast
  moreover have "add_border_states (e # es) g = Some g'"
    using g1 g'(1) by (simp add: add_border_states_def)
  ultimately show ?case
    by blast
qed (simp add: add_border_states_def added_def)

text \<open>Pending borders whose identifiers are new and whose workers exist.\<close>

definition pending_ok :: "border_graph \<Rightarrow> bool" where
  "pending_ok g \<longleftrightarrow>
     distinct (map pb_border_id (bg_pending_new_borders g)) \<and>
     (\<forall>pb \<in> set (bg_pending_new_borders g). bg_borders g (pb_border_id pb) = None \<and>
        pb_worker_a pb < length (bg_worker_borders g) \<and> pb_worker_b pb < length (bg_worker_borders g))"

lemma resolve_pendingD:
  "resolve_pending m pb = Some e \<Longrightarrow>
     ab_border_id e = pb_border_id pb \<and> ab_worker_a e = pb_worker_a pb \<and> ab_worker_b e = pb_worker_b pb"
  by (auto simp: resolve_pending_def split: option.splits)

lemma map_filter_ids:
  "map ab_border_id (List.map_filter (resolve_pending m) ps) = map pb_border_id (filter (\<lambda>pb. resolve_pending m pb \<noteq> None) ps)"
  by (induction ps) (auto simp: map_filter_simps split: option.split dest: resolve_pendingD)

lemma in_resolved: "e \<in> set (List.map_filter (resolve_pending m) ps) \<longleftrightarrow> (\<exists>pb \<in> set ps. resolve_pending m pb = Some e)"
  by (force simp: map_filter_def)

lemma find_resolved:
  assumes "distinct (map pb_border_id ps)" "pb \<in> set ps" "resolve_pending m pb = Some e"
  shows "find (\<lambda>e. ab_border_id e = pb_border_id pb) (List.map_filter (resolve_pending m) ps) = Some e"
  using assms
proof (induction ps)
  case (Cons q qs)
  show ?case
  proof (cases "pb = q")
    case True
    then show ?thesis
      using Cons.prems(3) by (simp add: map_filter_simps resolve_pendingD)
  next
    case False
    then have "pb \<in> set qs"
      using Cons.prems by simp
    moreover from this have "pb_border_id pb \<noteq> pb_border_id q"
      using Cons.prems(1) by (metis distinct.simps(2) image_eqI list.set_map list.simps(9))
    ultimately show ?thesis
      using Cons by (auto simp: map_filter_simps split: option.split dest: resolve_pendingD)
  qed
qed simp

text \<open>Registering echoes that all match never panics, and promotes exactly the borders both of whose sides are known.\<close>

lemma register_total:
  assumes ok: "pending_ok g" and all: "\<forall>mint \<in> set mints. matches_outstanding g mint"
  defines "m \<equiv> mint_cache mints g"
  shows "\<exists>promoted g'. register_minted_agents w mints g = Some (Inr (promoted, g')) \<and> pending_ok g' \<and>
    bg_resolved_mints g' = m \<and> length (bg_worker_borders g') = length (bg_worker_borders g) \<and>
    bg_pending_new_borders g' = filter (\<lambda>pb. resolve_pending m pb = None) (bg_pending_new_borders g) \<and>
    (\<forall>pb e. pb \<in> set (bg_pending_new_borders g) \<longrightarrow> resolve_pending m pb = Some e \<longrightarrow>
       bg_borders g' (pb_border_id pb) = Some (entry_state e)) \<and>
    (\<forall>b. b \<notin> pb_border_id ` set (bg_pending_new_borders g) \<longrightarrow> bg_borders g' b = bg_borders g b)"
proof -
  let ?ps = "bg_pending_new_borders g" and ?es = "resolved_entries mints g"
  have D: "distinct (map pb_border_id ?ps)" "\<And>pb. pb \<in> set ?ps \<Longrightarrow> bg_borders g (pb_border_id pb) = None \<and>
        pb_worker_a pb < length (bg_worker_borders g) \<and> pb_worker_b pb < length (bg_worker_borders g)"
    using ok by (auto simp: pending_ok_def)
  have new: "bg_borders g (ab_border_id e) = None \<and> ab_worker_a e < length (bg_worker_borders g) \<and>
      ab_worker_b e < length (bg_worker_borders g)" if e: "e \<in> set ?es" for e
    using e D(2) resolve_pendingD unfolding in_resolved by metis
  let ?g1 = "g\<lparr>bg_resolved_mints := m, bg_pending_new_borders := filter (\<lambda>pb. resolve_pending m pb = None) ?ps\<rparr>"
  have "filter (\<lambda>b. bg_borders g b \<noteq> None) (map ab_border_id ?es) = []"
    using new by (auto simp: filter_empty_conv)
  then have cl: "cleared mints g = ?g1"
    unfolding cleared_def m_def by simp
  have "distinct (map ab_border_id ?es)"
    unfolding map_filter_ids using D(1) by (simp add: distinct_map_filter)
  moreover have "\<And>e. e \<in> set ?es \<Longrightarrow> bg_borders ?g1 (ab_border_id e) = None"
      "\<And>e. e \<in> set ?es \<Longrightarrow> ab_worker_a e < length (bg_worker_borders ?g1) \<and> ab_worker_b e < length (bg_worker_borders ?g1)"
    using new by simp_all
  ultimately obtain g' where ret: "add_border_states ?es ?g1 = Some g'" and ad: "added ?g1 ?es g'"
    using add_border_states_total by blast
  have g': "length (bg_worker_borders g') = length (bg_worker_borders g)"
      "bg_pending_new_borders g' = filter (\<lambda>pb. resolve_pending m pb = None) ?ps" "bg_resolved_mints g' = m"
      "\<And>b. bg_borders g' b = (case find (\<lambda>e. ab_border_id e = b) ?es of Some e \<Rightarrow> Some (entry_state e) | None \<Rightarrow> bg_borders g b)"
    using ad by (simp_all add: added_def cong: option.case_cong)
  have at: "bg_borders g' (pb_border_id pb) = Some (entry_state e)" if "pb \<in> set ?ps" "resolve_pending m pb = Some e" for pb e
    using find_resolved [OF D(1) that(1) that(2)] by (simp add: g'(4) m_def)
  have other: "bg_borders g' b = bg_borders g b" if b: "b \<notin> pb_border_id ` set (filter (\<lambda>pb. resolve_pending m pb \<noteq> None) ?ps)" for b
  proof -
    have "b \<notin> set (map ab_border_id ?es)"
      using b unfolding map_filter_ids m_def by simp
    then have "find (\<lambda>e. ab_border_id e = b) ?es = None"
      by (auto simp: find_None_iff image_iff)
    then show ?thesis
      by (simp add: g'(4))
  qed
  have "pending_ok g'"
    unfolding pending_ok_def g'(1,2)
  proof (intro conjI ballI)
    show "distinct (map pb_border_id (filter (\<lambda>pb. resolve_pending m pb = None) ?ps))"
      using D(1) by (simp add: distinct_map_filter)
    fix pb
    assume pb: "pb \<in> set (filter (\<lambda>pb. resolve_pending m pb = None) ?ps)"
    then show "pb_worker_a pb < length (bg_worker_borders g)" "pb_worker_b pb < length (bg_worker_borders g)"
      using D(2) by auto
    have "pb_border_id pb \<notin> pb_border_id ` set (filter (\<lambda>pb. resolve_pending m pb \<noteq> None) ?ps)"
      using D(1) pb by (auto simp: distinct_map inj_on_def)
    then show "bg_borders g' (pb_border_id pb) = None"
      using other D(2) pb by auto
  qed
  moreover have "register_minted_agents w mints g =
      Some (Inr (map (\<lambda>e. (ab_border_id e, entry_state e)) ?es, g'))"
    unfolding register_Inr cl using all ret by simp
  moreover have "bg_borders g' b = bg_borders g b" if "b \<notin> pb_border_id ` set ?ps" for b
    using that by (intro other) auto
  ultimately show ?thesis
    using g'(1-3) at by blast
qed

section \<open>The workers' echoes\<close>

lemma mint_slots_create: "mint_slots syms n = create_agents syms n"
proof -
  have "ofold (\<lambda>s (ids, m). map_option (\<lambda>(i, m1). (ids @ [i], m1)) (create_agent s m)) syms (acc, n) =
      map_option (\<lambda>(is, m). (acc @ is, m)) (create_agents syms n)" for acc
  proof (induction syms arbitrary: acc n)
    case (Cons s syms)
    then show ?case
      by (auto split: Option.bind_split option.split)
  qed simp
  then show ?thesis
    unfolding mint_slots_def by (simp add: option.map_ident_strong split_beta)
qed

lemma small_slot: "k < 16 \<Longrightarrow> (of_nat k :: agent_slot) < 16" "k < 16 \<Longrightarrow> j < 16 \<Longrightarrow> (of_nat k :: agent_slot) = of_nat j \<longleftrightarrow> k = j"
  by (simp_all add: word_less_nat_alt unat_of_nat word_unat_eq_iff)

lemma cid_low28_idem: "cid_low28 (ucast (cid_low28 cid)) = cid_low28 cid"
  by (rule bit_word_eqI) (auto simp: bit_cid_low28 bit_simps)

lemma echo_mints_spec:
  assumes "length ids \<le> 16"
  obtains es where "echo_mints (encode_request_id cid 0) ids = Some es" "length es = length ids"
    "\<And>k. k < length ids \<Longrightarrow> decode_request_id (ma_request_id (es ! k)) = (cid_low28 cid, of_nat k) \<and> ma_agent_id (es ! k) = ids ! k"
proof -
  have dec: "decode_request_id (encode_request_id cid 0) = (cid_low28 cid, 0)"
    by (simp add: decode_encode)
  define es where "es = map (\<lambda>(k, i). \<lparr>ma_request_id = encode_request_id (ucast (cid_low28 cid)) (0 + of_nat k), ma_agent_id = i\<rparr>)
      (List.enumerate 0 ids)"
  have "echo_mints (encode_request_id cid 0) ids = Some es"
    using assms by (simp add: echo_mints_def dec es_def)
  moreover have "decode_request_id (ma_request_id (es ! k)) = (cid_low28 cid, of_nat k) \<and> ma_agent_id (es ! k) = ids ! k"
    if "k < length ids" for k
  proof -
    have "k < 16"
      using that assms by simp
    then show ?thesis
      using that by (simp add: es_def nth_enumerate_eq decode_encode cid_low28_idem slot_small small_slot(1))
  qed
  ultimately show thesis
    using that by (simp add: es_def)
qed

lemma create_agents_length: "create_agents ss n = Some (is, m) \<Longrightarrow> length is = length ss"
  by (induction ss arbitrary: n "is") (auto dest!: bind_eq_SomeD)

text \<open>The requests an accepted batch echoes, one per minted agent.\<close>

lemma commutation_echo:
  assumes "apply_pending_commutation (commutation_batch_to_pending b) (n, []) = Some (None, n', mints)"
    and "length (cb_target_symbols b) \<le> 16"
  obtains ids m where "create_agents (cb_target_symbols b) n = Some (ids, m)" "length mints = length ids"
    "length ids = length (cb_target_symbols b)"
    "\<And>k. k < length ids \<Longrightarrow>
       decode_request_id (ma_request_id (mints ! k)) = (cid_low28 (cb_commutation_id b), of_nat k) \<and> ma_agent_id (mints ! k) = ids ! k"
proof -
  obtain ids m where ids: "create_agents (cb_target_symbols b) n = Some (ids, m)"
      "echo_mints (encode_request_id (cb_commutation_id b) 0) ids = Some mints"
    using assms(1)
    by (auto simp: apply_pending_commutation_def commutation_batch_to_pending_def mint_slots_create Let_def
        split: if_splits option.splits prod.splits)
  have len: "length ids = length (cb_target_symbols b)"
    using ids(1) by (rule create_agents_length)
  then show thesis
    using that [OF ids(1) _ len] echo_mints_spec [of ids "cb_commutation_id b"] ids(2) assms(2) by (metis option.inject)
qed

lemma mint_cache_other:
  assumes "\<And>mint. mint \<in> set mints \<Longrightarrow> decode_request_id (ma_request_id mint) \<noteq> key"
  shows "fold cache_mint mints m key = m key"
  using assms by (induction mints arbitrary: m) (auto simp: cache_mint_def)

lemma mint_cache_nth:
  assumes "k < length mints" "decode_request_id (ma_request_id (mints ! k)) = key"
    and "\<And>j. k < j \<Longrightarrow> j < length mints \<Longrightarrow> decode_request_id (ma_request_id (mints ! j)) \<noteq> key"
  shows "fold cache_mint mints m key = Some (ma_agent_id (mints ! k))"
proof -
  have "mints = take k mints @ mints ! k # drop (Suc k) mints"
    using assms(1) by (rule id_take_nth_drop)
  moreover have "mint \<in> set (drop (Suc k) mints) \<Longrightarrow> decode_request_id (ma_request_id mint) \<noteq> key" for mint
  proof -
    assume "mint \<in> set (drop (Suc k) mints)"
    then obtain j where "j < length (drop (Suc k) mints)" "mint = drop (Suc k) mints ! j"
      by (metis in_set_conv_nth)
    then show ?thesis
      using assms(3) [of "Suc k + j"] by simp
  qed
  then have "fold cache_mint (drop (Suc k) mints) m' key = m' key" for m'
    by (rule mint_cache_other)
  moreover have "fold cache_mint (take k mints @ mints ! k # drop (Suc k) mints) m =
      fold cache_mint (drop (Suc k) mints) (cache_mint (mints ! k) (fold cache_mint (take k mints) m))"
    by simp
  ultimately have "fold cache_mint mints m key = cache_mint (mints ! k) (fold cache_mint (take k mints) m) key"
    by metis
  then show ?thesis
    using assms(2) by (simp add: cache_mint_def)
qed

section \<open>What the resolver leaves pending\<close>

text \<open>The pending borders of an emission: new identifiers, known workers, one token and one known port.\<close>

definition emit_ok ::
  "nat \<Rightarrow> worker_id set \<Rightarrow> (commutation_id \<times> agent_slot) set \<Rightarrow> pending_new_border list \<Rightarrow> border_id_allocator \<Rightarrow> bool" where
  "emit_ok lo W C pend al \<longleftrightarrow>
     lo \<le> ba_next al \<and> distinct (map pb_border_id pend) \<and>
     (\<forall>pb \<in> set pend. lo \<le> pb_border_id pb \<and> pb_border_id pb < ba_next al \<and> pb_worker_a pb \<in> W \<and> pb_worker_b pb \<in> W \<and>
        (\<exists>(cid, k) \<in> C. pb_side_a pb = Pending cid k 0) \<and> (\<exists>x. pb_side_b pb = Concrete x))"

lemma border_alloc_nextD:
  "border_alloc_next al = Some (b, al') \<Longrightarrow> b = ba_next al \<and> ba_next al' = Suc (ba_next al) \<and> b < u32_MAX"
  by (auto simp: border_alloc_next_def split: if_splits)

lemma emit_external_ok:
  assumes "emit_external_principal t home cid slot w (wiring, pend, al) = Some (wiring', pend', al')" "emit_ok lo W C pend al"
    and "home \<in> W" "w \<in> W" "(cid, of_nat slot) \<in> C"
  shows "emit_ok lo W C pend' al'"
proof (cases "case t of AgentPort i p \<Rightarrow> w = home | FreePort f \<Rightarrow> False")
  case True
  then show ?thesis
    using assms(1,2) by (simp add: emit_external_principal_def)
next
  case False
  then obtain b where b: "border_alloc_next al = Some (b, al')"
      "pend' = pend @ [\<lparr>pb_border_id = b, pb_side_a = Pending cid (of_nat slot) 0, pb_side_b = Concrete t,
                        pb_worker_a = w, pb_worker_b = home\<rparr>]"
    using assms(1) by (auto simp: emit_external_principal_def)
  note al = border_alloc_nextD [OF b(1)]
  show ?thesis
    using assms(2-5) al unfolding emit_ok_def b(2) by fastforce
qed

text \<open>What one emission adds: a local wire when the neighbour is an agent of the same worker, else a pending border.\<close>

definition goes_local :: "port_ref \<Rightarrow> worker_id \<Rightarrow> worker_id \<Rightarrow> bool" where
  "goes_local t home w \<longleftrightarrow> is_agent t \<and> w = home"

definition external_wiring :: "port_ref \<Rightarrow> worker_id \<Rightarrow> nat \<Rightarrow> worker_id \<Rightarrow> (nat \<times> port_id \<times> port_ref) list" where
  "external_wiring t home slot w = (if goes_local t home w then [(slot, 0, t)] else [])"

definition external_pending :: "nat \<Rightarrow> port_ref \<Rightarrow> worker_id \<Rightarrow> commutation_id \<Rightarrow> nat \<Rightarrow> worker_id \<Rightarrow> pending_new_border list" where
  "external_pending b t home cid slot w =
     (if goes_local t home w then []
      else [\<lparr>pb_border_id = b, pb_side_a = Pending cid (of_nat slot) 0, pb_side_b = Concrete t, pb_worker_a = w, pb_worker_b = home\<rparr>])"

lemma emit_external_shape:
  assumes "emit_external_principal t home cid slot w (wiring, pend, al) = Some (wiring', pend', al')"
  shows "wiring' = wiring @ external_wiring t home slot w \<and> (\<exists>b. pend' = pend @ external_pending b t home cid slot w)"
  using assms
  by (cases t) (auto simp: emit_external_principal_def external_wiring_def external_pending_def goes_local_def split: if_splits)

text \<open>
  The output of a commutation: two batches, each with its local wires, the borders of the four
  principal ports that are not local, and the two borders between new agents of different batches.
\<close>

definition con_dup_wiring :: "port_ref \<Rightarrow> worker_id \<Rightarrow> port_ref \<Rightarrow> worker_id \<Rightarrow> worker_id \<Rightarrow> port_id \<Rightarrow> (nat \<times> port_id \<times> port_ref) list" where
  "con_dup_wiring t home t' home' w p =
     external_wiring t home 0 w @ external_wiring t' home' 1 w @ [(0, p, AgentPort (slot_marker 1) p)]"

lemma resolve_con_dup_shape:
  assumes "resolve_con_dup s pc pd c d wc wd al calloc = Some (r, al', calloc')"
  obtains cid_con cid_dup b1 b2 b3 b4 b5 pend al4 where
    "cid_con = ca_next calloc" "cid_dup = cid_con + 1" "cid_con < cid_dup"
    "br_pending_commutations r =
       [\<lparr>cb_commutation_id = cid_con, cb_worker = wc, cb_target_symbols = [Dup, Con],
         cb_local_wiring = con_dup_wiring (aux_target pc c 1) wc (aux_target pd d 1) wd wc 1\<rparr>,
        \<lparr>cb_commutation_id = cid_dup, cb_worker = wd, cb_target_symbols = [Dup, Con],
         cb_local_wiring = con_dup_wiring (aux_target pc c 2) wc (aux_target pd d 2) wd wd 2\<rparr>]"
    "br_pending_new_borders r = pend @ [cross_border b5 cid_con 0 2 cid_dup 1 1 wc wd, cross_border (Suc b5) cid_dup 0 1 cid_con 1 2 wd wc]"
    "pend = external_pending b1 (aux_target pc c 1) wc cid_con 0 wc @ external_pending b2 (aux_target pc c 2) wc cid_dup 0 wd @
       external_pending b3 (aux_target pd d 1) wd cid_con 1 wc @ external_pending b4 (aux_target pd d 2) wd cid_dup 1 wd"
    "emit_ok (ba_next al) {wc, wd} {(cid_con, 0), (cid_con, 1), (cid_dup, 0), (cid_dup, 1)} pend al4" "b5 = ba_next al4"
    "br_worker_deltas r = []" "br_resolved_borders r = resolved_of s" "br_new_borders r = []"
proof -
  obtain cid_con calloc1 where c1: "commutation_alloc_next calloc = Some (cid_con, calloc1)"
    using assms by (auto simp: resolve_con_dup_def dest!: bind_eq_SomeD)
  obtain cid_dup calloc2 where c2: "commutation_alloc_next calloc1 = Some (cid_dup, calloc2)"
    using assms c1 by (auto simp: resolve_con_dup_def dest!: bind_eq_SomeD)
  obtain con1 pend1 al1 where e1: "emit_external_principal (aux_target pc c 1) wc cid_con 0 wc ([], [], al) = Some (con1, pend1, al1)"
    using assms c1 c2 by (auto simp: resolve_con_dup_def dest!: bind_eq_SomeD)
  obtain dup1 pend2 al2 where e2: "emit_external_principal (aux_target pc c 2) wc cid_dup 0 wd ([], pend1, al1) = Some (dup1, pend2, al2)"
    using assms c1 c2 e1 by (auto simp: resolve_con_dup_def dest!: bind_eq_SomeD)
  obtain con2 pend3 al3 where e3: "emit_external_principal (aux_target pd d 1) wd cid_con 1 wc (con1, pend2, al2) = Some (con2, pend3, al3)"
    using assms c1 c2 e1 e2 by (auto simp: resolve_con_dup_def dest!: bind_eq_SomeD)
  obtain dup2 pend4 al4 where e4: "emit_external_principal (aux_target pd d 2) wd cid_dup 1 wd (dup1, pend3, al3) = Some (dup2, pend4, al4)"
    using assms c1 c2 e1 e2 e3 by (auto simp: resolve_con_dup_def dest!: bind_eq_SomeD)
  obtain b5 al5 where b5: "border_alloc_next al4 = Some (b5, al5)"
    using assms c1 c2 e1 e2 e3 e4 by (auto simp: resolve_con_dup_def dest!: bind_eq_SomeD)
  obtain b6 al6 where b6: "border_alloc_next al5 = Some (b6, al6)"
    using assms c1 c2 e1 e2 e3 e4 b5 by (auto simp: resolve_con_dup_def dest!: bind_eq_SomeD)
  have next_ids: "b5 = ba_next al4" "b6 = Suc b5"
    using border_alloc_nextD [OF b5] border_alloc_nextD [OF b6] by simp_all
  let ?C = "{(cid_con, 0), (cid_con, 1), (cid_dup, 0), (cid_dup, 1)} :: (commutation_id \<times> agent_slot) set"
  have "emit_ok (ba_next al) {wc, wd} ?C [] al"
    by (simp add: emit_ok_def)
  then have em: "emit_ok (ba_next al) {wc, wd} ?C pend4 al4"
    using emit_external_ok [OF e1] emit_external_ok [OF e2] emit_external_ok [OF e3] emit_external_ok [OF e4] by simp
  note shapes = emit_external_shape [OF e1] emit_external_shape [OF e2] emit_external_shape [OF e3] emit_external_shape [OF e4]
  have wiring: "con2 @ [(0, 1, AgentPort (slot_marker 1) 1)] = con_dup_wiring (aux_target pc c 1) wc (aux_target pd d 1) wd wc 1"
      "dup2 @ [(0, 2, AgentPort (slot_marker 1) 2)] = con_dup_wiring (aux_target pc c 2) wc (aux_target pd d 2) wd wd 2"
    using shapes by (simp_all add: con_dup_wiring_def)
  obtain b1 b2 b3 b4 where pend4: "pend4 = external_pending b1 (aux_target pc c 1) wc cid_con 0 wc @ external_pending b2 (aux_target pc c 2) wc cid_dup 0 wd @
       external_pending b3 (aux_target pd d 1) wd cid_con 1 wc @ external_pending b4 (aux_target pd d 2) wd cid_dup 1 wd"
    using shapes by auto
  have r: "br_pending_commutations r =
      [\<lparr>cb_commutation_id = cid_con, cb_worker = wc, cb_target_symbols = [Dup, Con],
        cb_local_wiring = con_dup_wiring (aux_target pc c 1) wc (aux_target pd d 1) wd wc 1\<rparr>,
       \<lparr>cb_commutation_id = cid_dup, cb_worker = wd, cb_target_symbols = [Dup, Con],
        cb_local_wiring = con_dup_wiring (aux_target pc c 2) wc (aux_target pd d 2) wd wd 2\<rparr>]"
    "br_pending_new_borders r = pend4 @ [cross_border b5 cid_con 0 2 cid_dup 1 1 wc wd, cross_border (Suc b5) cid_dup 0 1 cid_con 1 2 wd wc]"
    "br_worker_deltas r = []" "br_resolved_borders r = resolved_of s" "br_new_borders r = []"
    using assms c1 c2 e1 e2 e3 e4 b5 b6 unfolding next_ids(2) [symmetric] wiring [symmetric]
    by (auto simp: resolve_con_dup_def resolution_default_def)
  show thesis
    using that [OF _ _ _ r(1,2) pend4 em next_ids(1) r(3-5)]
      commutation_alloc_next_mono [OF c1] commutation_alloc_next_mono [OF c2] by auto
qed

text \<open>Two echoes of two agents each resolve the four tokens of a commutation, step by step.\<close>

definition echoes :: "commutation_id \<Rightarrow> agent_id \<Rightarrow> agent_id \<Rightarrow> minted_agent list \<Rightarrow> bool" where
  "echoes cid i j mints \<longleftrightarrow> length mints = 2 \<and>
     decode_request_id (ma_request_id (mints ! 0)) = (cid_low28 cid, 0) \<and> ma_agent_id (mints ! 0) = i \<and>
     decode_request_id (ma_request_id (mints ! 1)) = (cid_low28 cid, 1) \<and> ma_agent_id (mints ! 1) = j"

lemma batch_echoes:
  assumes "apply_pending_commutation (commutation_batch_to_pending b) (n, []) = Some (None, n', mints)"
    and "cb_target_symbols b = [s, t]"
  shows "\<exists>i j m. create_agents [s, t] n = Some ([i, j], m) \<and> echoes (cb_commutation_id b) i j mints"
proof -
  have le: "length (cb_target_symbols b) \<le> 16"
    using assms(2) by simp
  obtain ids m where raw: "create_agents (cb_target_symbols b) n = Some (ids, m)" "length mints = length ids"
    "length ids = length (cb_target_symbols b)" and each: "\<And>k. k < length ids \<Longrightarrow>
       decode_request_id (ma_request_id (mints ! k)) = (cid_low28 (cb_commutation_id b), of_nat k) \<and> ma_agent_id (mints ! k) = ids ! k"
    using commutation_echo [OF assms(1) le] by blast
  have ids: "create_agents [s, t] n = Some (ids, m)" "length mints = length ids" "length ids = 2"
    using raw unfolding assms(2) by simp_all
  obtain i j where "ids = [i, j]"
    using ids(3) by (auto simp: numeral_2_eq_2 length_Suc_conv)
  then show ?thesis
    using ids each [of 0] each [of 1] by (auto simp del: create_agents.simps simp: echoes_def)
qed

lemma echoes_cache:
  assumes "echoes cid i j mints"
  shows "fold cache_mint mints m (cid_low28 cid, 0) = Some i" "fold cache_mint mints m (cid_low28 cid, 1) = Some j"
    "c \<noteq> cid_low28 cid \<Longrightarrow> fold cache_mint mints m (c, k) = m (c, k)"
proof -
  obtain x y where mints: "mints = [x, y]"
    using assms by (auto simp: echoes_def numeral_2_eq_2 length_Suc_conv)
  then show "fold cache_mint mints m (cid_low28 cid, 0) = Some i" "fold cache_mint mints m (cid_low28 cid, 1) = Some j"
    "c \<noteq> cid_low28 cid \<Longrightarrow> fold cache_mint mints m (c, k) = m (c, k)"
    using assms by (simp_all add: echoes_def cache_mint_def)
qed

lemma echoes_match:
  assumes "echoes cid i j mints" "pb \<in> set (bg_pending_new_borders g)" "pb_side_a pb = Pending cid 0 p \<or> pb_side_b pb = Pending cid 0 p"
    and "pb' \<in> set (bg_pending_new_borders g)" "pb_side_a pb' = Pending cid 1 q \<or> pb_side_b pb' = Pending cid 1 q"
  shows "\<forall>mint \<in> set mints. matches_outstanding g mint"
proof -
  obtain x y where mints: "mints = [x, y]"
    using assms(1) by (auto simp: echoes_def numeral_2_eq_2 length_Suc_conv)
  have dec: "decode_request_id (ma_request_id x) = (cid_low28 cid, 0)" "decode_request_id (ma_request_id y) = (cid_low28 cid, 1)"
    using assms(1) mints by (simp_all add: echoes_def)
  have "pending_port_matches (pb_side_a pb) (cid_low28 cid) 0 \<or> pending_port_matches (pb_side_b pb) (cid_low28 cid) 0"
      "pending_port_matches (pb_side_a pb') (cid_low28 cid) 1 \<or> pending_port_matches (pb_side_b pb') (cid_low28 cid) 1"
    using assms(3,5) by (auto simp: pending_port_matches_def)
  then have "matches_outstanding g x" "matches_outstanding g y"
    using assms(2,4) unfolding matches_outstanding_def dec prod.case list_ex_iff by blast+
  then show ?thesis
    by (simp add: mints)
qed

text \<open>A wire between two ports, seen from every end that is an agent port.\<close>

definition joined :: "net \<Rightarrow> port_ref \<Rightarrow> port_ref \<Rightarrow> bool" where
  "joined n x y \<longleftrightarrow>
     (case x of AgentPort i p \<Rightarrow> tgt n i p = y | FreePort f \<Rightarrow> True) \<and>
     (case y of AgentPort i p \<Rightarrow> tgt n i p = x | FreePort f \<Rightarrow> True)"

text \<open>The neighbour of a principal port that a worker wires locally: a valid port, not read as a slot marker.\<close>

definition local_ok :: "net \<Rightarrow> port_ref \<Rightarrow> bool" where
  "local_ok n t \<longleftrightarrow> (case t of AgentPort y q \<Rightarrow> valid_port n y q \<and> y < SLOT_MARKER_BASE | FreePort f \<Rightarrow> True)"

text \<open>The wires a worker makes for its batch of a commutation.\<close>

lemma con_dup_batch_wired:
  assumes inv: "core_inv n" and new: "create_agents [Dup, Con] n = Some ([i, j], x)"
    and ret: "apply_pending_commutation (commutation_batch_to_pending
        \<lparr>cb_commutation_id = cid, cb_worker = w, cb_target_symbols = [Dup, Con],
         cb_local_wiring = (if is_agent t then [(k, 0, t)] else []) @ [(0, p, AgentPort (slot_marker 1) p)]\<rparr>) (n, []) =
      Some (None, n', mints)"
    and p: "p = 1 \<or> p = 2" and k: "k = 0 \<or> k = 1"
    and t: "local_ok n t"
  shows "joined n' (AgentPort i p) (AgentPort j p)" "is_agent t \<Longrightarrow> joined n' (AgentPort ([i, j] ! k) 0) t"
proof -
  note C = create_agents_view [OF inv new]
  have sym: "sym_at x = (sym_at n)(i \<mapsto> Dup, j \<mapsto> Con)" "i \<noteq> j" "\<not> live n i" "\<not> live n j"
    using C(2-4) by auto
  have range: "port_index a q < length (ports x)" if "live x a" "q < 3" for a q
    using live_slot [OF core_invD(1) [OF C(8)]] that by blast
  have n': "n' = connect (AgentPort i p) (AgentPort j p) (if is_agent t then connect (AgentPort ([i, j] ! k) 0) t x else x)"
  proof -
    have t': "decode_target [i, j] [Dup, Con] t = Inr t" if "is_agent t"
      using t that by (cases t) (auto simp: local_ok_def decode_target_def)
    have "decode_target [i, j] [Dup, Con] (AgentPort (slot_marker 1) p) = Inr (AgentPort j p)"
      by (simp add: decode_target_def slot_marker_def)
    moreover have "snd (wire_hints [i, j] [Dup, Con] (map (\<lambda>(s, p, t). \<lparr>lw_src_slot = s, lw_src_port = p, lw_target = t\<rparr>)
        ((if is_agent t then [(k, 0, t)] else []) @ [(0, p, AgentPort (slot_marker 1) p)])) x) = n'"
      using ret new
      by (auto simp del: create_agents.simps wire_hints.simps simp: apply_pending_commutation_def commutation_batch_to_pending_def mint_slots_create Let_def
          split: if_splits option.splits prod.splits)
    ultimately show ?thesis
      using t' p k by (cases "is_agent t") auto
  qed
  show "joined n' (AgentPort i p) (AgentPort j p)"
    using p sym range by (auto simp: n' joined_def tgt_connect)
  show "joined n' (AgentPort ([i, j] ! k) 0) t" if a: "is_agent t"
  proof (cases t)
    case (AgentPort y q)
    have y: "valid_port n y q" "live n y" "q < 3"
      using t AgentPort valid_port_live valid_port_less by (auto simp: local_ok_def)
    then have "y \<noteq> i" "y \<noteq> j" "live x y"
      using sym by auto
    then show ?thesis
      using p k sym range y(3) AgentPort by (auto simp: n' joined_def tgt_connect)
  qed (use a in simp)
qed

text \<open>
  Where the principal port of a new agent of worker \<open>w\<close> ends up: on a local wire when the neighbour is
  an agent of the same worker, else at one side of a border whose other side is the neighbour.
\<close>

definition attached :: "border_graph \<Rightarrow> net \<Rightarrow> worker_id \<Rightarrow> agent_id \<Rightarrow> port_ref \<Rightarrow> worker_id \<Rightarrow> bool" where
  "attached g n w x t home \<longleftrightarrow>
     (if goes_local t home w then joined n (AgentPort x 0) t
      else \<exists>b. bg_borders g b = Some (border_state_of b (AgentPort x 0) t w home))"

text \<open>Identifiers below \<open>2^28\<close> keep their difference in a request.\<close>

lemma cid_low28_apart:
  assumes "unat cid + 1 < 2 ^ 28" "cid' = cid + 1"
  shows "cid_low28 cid' \<noteq> cid_low28 cid"
proof -
  have "unat cid' = unat cid + 1"
    using assms by (simp add: unat_word_ariths)
  then have "cid < 2 ^ 28" "cid' < 2 ^ 28" "cid \<noteq> cid'"
    using assms(1) by (auto simp: word_less_nat_alt)
  then show ?thesis
    using cid_low28_inj by blast
qed

text \<open>The pending borders of a commutation join those already pending.\<close>

lemma enqueued_ok:
  assumes ok: "pending_ok g" "\<forall>pb \<in> set (bg_pending_new_borders g). pb_border_id pb < lo" "\<forall>b \<ge> lo. bg_borders g b = None"
    and em: "emit_ok lo W C pend al" "\<forall>w \<in> W. w < length (bg_worker_borders g)"
    and g0: "bg_pending_new_borders g0 = bg_pending_new_borders g @ pend @ [x, y]" "bg_borders g0 = bg_borders g"
      "bg_worker_borders g0 = bg_worker_borders g"
    and xy: "pb_border_id x = ba_next al" "pb_border_id y = Suc (ba_next al)" "pb_worker_a x \<in> W" "pb_worker_b x \<in> W"
      "pb_worker_a y \<in> W" "pb_worker_b y \<in> W"
  shows "pending_ok g0"
proof -
  have new: "lo \<le> pb_border_id pb" "pb_worker_a pb \<in> W" "pb_worker_b pb \<in> W" if "pb \<in> set (pend @ [x, y])" for pb
    using em(1) that xy by (auto simp: emit_ok_def)
  have d: "distinct (map pb_border_id (pend @ [x, y]))"
    using em(1) xy(1,2) by (auto simp: emit_ok_def)
  moreover have "pb_border_id ` set (bg_pending_new_borders g) \<inter> pb_border_id ` set (pend @ [x, y]) = {}"
    using ok(2) new(1) by fastforce
  ultimately have "distinct (map pb_border_id (bg_pending_new_borders g0))"
    using ok(1) by (simp add: g0(1) pending_ok_def)
  moreover have "bg_borders g0 (pb_border_id pb) = None \<and> pb_worker_a pb < length (bg_worker_borders g0) \<and> pb_worker_b pb < length (bg_worker_borders g0)"
    if "pb \<in> set (bg_pending_new_borders g0)" for pb
  proof (cases "pb \<in> set (bg_pending_new_borders g)")
    case True
    then show ?thesis
      using ok(1) by (simp add: g0 pending_ok_def)
  next
    case False
    then have "pb \<in> set (pend @ [x, y])"
      using that by (simp add: g0)
    then show ?thesis
      using new [of pb] ok(3) em(2) by (simp add: g0)
  qed
  ultimately show ?thesis
    by (simp add: pending_ok_def)
qed

text \<open>Both echoes of a commutation, on a graph that may have other borders pending.\<close>

lemma echoes_complete:
  assumes ok: "pending_ok g0" and pend: "bg_pending_new_borders g0 = old @ new"
    and c1: "cross_border b cid 0 2 cid' 1 1 wc wd \<in> set new" and c2: "cross_border b' cid' 0 1 cid 1 2 wd wc \<in> set new"
    and apart: "cid_low28 cid' \<noteq> cid_low28 cid" and fresh: "\<forall>k. bg_resolved_mints g0 (cid_low28 cid', k) = None"
    and e1: "echoes cid i j mints" and e2: "echoes cid' i' j' mints'"
  obtains promoted g1 promoted' g2 m2 where
    "register_minted_agents wc mints g0 = Some (Inr (promoted, g1))"
    "register_minted_agents wd mints' g1 = Some (Inr (promoted', g2))"
    "m2 (cid_low28 cid, 0) = Some i" "m2 (cid_low28 cid, 1) = Some j" "m2 (cid_low28 cid', 0) = Some i'" "m2 (cid_low28 cid', 1) = Some j'"
    "bg_pending_new_borders g2 = filter (\<lambda>pb. resolve_pending m2 pb = None) (bg_pending_new_borders g1)"
    "set (bg_pending_new_borders g1) \<subseteq> set (old @ new)"
    "\<And>pb e. pb \<in> set (old @ new) \<Longrightarrow> resolve_pending m2 pb = Some e \<Longrightarrow> bg_borders g2 (pb_border_id pb) = Some (entry_state e)"
    "\<And>x s. bg_borders g0 x = Some s \<Longrightarrow> bg_borders g2 x = Some s"
proof -
  let ?c1 = "cross_border b cid 0 2 cid' 1 1 wc wd" and ?c2 = "cross_border b' cid' 0 1 cid 1 2 wd wc"
  define m1 where "m1 = mint_cache mints g0"
  define m2 where "m2 = fold cache_mint mints' m1"
  have m1: "m1 (cid_low28 cid, 0) = Some i" "m1 (cid_low28 cid, 1) = Some j" "m1 (cid_low28 cid', k) = None" for k
    using echoes_cache [OF e1] apart fresh by (simp_all add: m1_def)
  have m2: "m2 (cid_low28 cid, 0) = Some i" "m2 (cid_low28 cid, 1) = Some j" "m2 (cid_low28 cid', 0) = Some i'"
      "m2 (cid_low28 cid', 1) = Some j'"
    using echoes_cache [OF e2] apart m1 by (simp_all add: m2_def)
  have keep: "m2 key = Some a" if "m1 key = Some a" for key a
    using that echoes_cache(3) [OF e2, of "fst key" m1 "snd key"] m1(3) by (cases key; cases "fst key = cid_low28 cid'") (auto simp: m2_def)
  have "\<forall>mint \<in> set mints. matches_outstanding g0 mint"
    by (rule echoes_match [OF e1, of ?c1 _ 2 ?c2 2]) (use c1 c2 in \<open>simp_all add: pend cross_border_def\<close>)
  from register_total [OF ok this, of wc, folded m1_def]
  obtain promoted g1 where r1: "register_minted_agents wc mints g0 = Some (Inr (promoted, g1))" "pending_ok g1"
      "bg_resolved_mints g1 = m1" "bg_pending_new_borders g1 = filter (\<lambda>pb. resolve_pending m1 pb = None) (old @ new)"
      "\<And>pb e. pb \<in> set (old @ new) \<Longrightarrow> resolve_pending m1 pb = Some e \<Longrightarrow> bg_borders g1 (pb_border_id pb) = Some (entry_state e)"
      "\<And>x. x \<notin> pb_border_id ` set (old @ new) \<Longrightarrow> bg_borders g1 x = bg_borders g0 x"
    unfolding pend by blast
  have "resolve_pending m1 ?c1 = None" "resolve_pending m1 ?c2 = None"
    using m1 by (auto simp: resolve_pending_def cross_border_def try_resolve_port_ref_def split: option.split)
  then have in1: "?c1 \<in> set (bg_pending_new_borders g1)" "?c2 \<in> set (bg_pending_new_borders g1)"
    using c1 c2 by (simp_all add: r1(4))
  have "\<forall>mint \<in> set mints'. matches_outstanding g1 mint"
    by (rule echoes_match [OF e2 in1(2) _ in1(1), of 1 1]) (simp_all add: cross_border_def)
  from register_total [OF r1(2) this, of wd, unfolded r1(3), folded m2_def]
  obtain promoted' g2 where r2: "register_minted_agents wd mints' g1 = Some (Inr (promoted', g2))"
      "bg_pending_new_borders g2 = filter (\<lambda>pb. resolve_pending m2 pb = None) (bg_pending_new_borders g1)"
      "\<And>pb e. pb \<in> set (bg_pending_new_borders g1) \<Longrightarrow> resolve_pending m2 pb = Some e \<Longrightarrow> bg_borders g2 (pb_border_id pb) = Some (entry_state e)"
      "\<And>x. x \<notin> pb_border_id ` set (bg_pending_new_borders g1) \<Longrightarrow> bg_borders g2 x = bg_borders g1 x"
    by blast
  have kept: "bg_borders g2 x = Some st" if "bg_borders g1 x = Some st" for x st
  proof -
    have "x \<notin> pb_border_id ` set (bg_pending_new_borders g1)"
      using that r1(2) by (auto simp: pending_ok_def)
    then show ?thesis
      using that r2(4) by simp
  qed
  have res: "bg_borders g2 (pb_border_id pb) = Some (entry_state e)" if pb: "pb \<in> set (old @ new)" and e: "resolve_pending m2 pb = Some e" for pb e
  proof (cases "resolve_pending m1 pb")
    case None
    then show ?thesis
      using r2(3) [OF _ e] pb by (simp add: r1(4))
  next
    case (Some e')
    then have "resolve_pending m2 pb = Some e'"
      using keep by (auto simp: resolve_pending_def try_resolve_port_ref_def split: pending_port_ref.splits option.splits)
    then show ?thesis
      using kept [OF r1(5) [OF pb Some]] e by simp
  qed
  have "bg_borders g2 x = Some st" if x: "bg_borders g0 x = Some st" for x st
  proof -
    have "x \<notin> pb_border_id ` set (old @ new)"
      using ok x unfolding pending_ok_def pend by auto
    then show ?thesis
      using kept x r1(6) by metis
  qed
  then show thesis
    using that [OF r1(1) r2(1) m2 r2(2) _ res] by (auto simp: r1(4))
qed

text \<open>
  A commutation across a border completes (C4).  The coordinator resolves a constructor \<open>c\<close> of worker
  \<open>wc\<close> against a duplicator \<open>d\<close> of another worker \<open>wd\<close>, and both workers fulfil their request on a
  well-formed net, \<open>n\<close> giving \<open>n'\<close> and \<open>m\<close> giving \<open>m'\<close>.  Then both echoes are accepted, no border of
  this commutation is left pending, every border of the graph is kept, and the eight wires of the
  commutation rule exist.  With \<open>i\<close>, \<open>j\<close> the duplicator and constructor of \<open>wc\<close> and \<open>i'\<close>, \<open>j'\<close> those of
  \<open>wd\<close>: the principal ports of \<open>i\<close>, \<open>i'\<close>, \<open>j\<close>, \<open>j'\<close> are attached to the neighbours of \<open>c.1\<close>, \<open>c.2\<close>,
  \<open>d.1\<close>, \<open>d.2\<close>; the worker nets hold \<open>i.1-j.1\<close> and \<open>i'.2-j'.2\<close>; the graph holds \<open>i.2-j'.1\<close> and
  \<open>i'.1-j.2\<close> as borders.

  The hypotheses on the graph: borders already pending have identifiers below the allocator and no
  border has one at or above it; the second commutation identifier has no agent cached yet (the
  cache is never emptied) and is below \<open>2^28\<close>, the width of an identifier in a request; a neighbour
  that a worker wires locally is a valid port whose agent is below the slot markers.
\<close>

theorem commutation_completes:
  assumes "resolve_con_dup s pc pd c d wc wd al calloc = Some (r, al', calloc')" "wc \<noteq> wd" "unat (ca_next calloc) + 1 < 2 ^ 28"
    and "pending_ok g" "\<forall>pb \<in> set (bg_pending_new_borders g). pb_border_id pb < ba_next al"
    and "\<forall>b \<ge> ba_next al. bg_borders g b = None" "\<forall>k. bg_resolved_mints g (cid_low28 (ca_next calloc + 1), k) = None"
    and "wc < length (bg_worker_borders g)" "wd < length (bg_worker_borders g)"
    and "br_pending_commutations r = [bc, bd]" "core_inv n" "core_inv m"
    and "local_ok n (aux_target pc c 1)" "local_ok m (aux_target pd d 2)"
    and "apply_pending_commutation (commutation_batch_to_pending bc) (n, []) = Some (None, n', mints)"
    and "apply_pending_commutation (commutation_batch_to_pending bd) (m, []) = Some (None, m', mints')"
  shows "\<exists>i j i' j' promoted g1 promoted' g2 b b'.
    (\<exists>x. create_agents [Dup, Con] n = Some ([i, j], x)) \<and> (\<exists>x. create_agents [Dup, Con] m = Some ([i', j'], x)) \<and>
    register_minted_agents wc mints (enqueue_pending_borders (br_pending_new_borders r) g) = Some (Inr (promoted, g1)) \<and>
    register_minted_agents wd mints' g1 = Some (Inr (promoted', g2)) \<and>
    set (bg_pending_new_borders g2) \<subseteq> set (bg_pending_new_borders g) \<and> bg_borders g \<subseteq>\<^sub>m bg_borders g2 \<and>
    attached g2 n' wc i (aux_target pc c 1) wc \<and> attached g2 m' wd i' (aux_target pc c 2) wc \<and>
    attached g2 n' wc j (aux_target pd d 1) wd \<and> attached g2 m' wd j' (aux_target pd d 2) wd \<and>
    joined n' (AgentPort i 1) (AgentPort j 1) \<and> joined m' (AgentPort i' 2) (AgentPort j' 2) \<and>
    bg_borders g2 b = Some (border_state_of b (AgentPort i 2) (AgentPort j' 1) wc wd) \<and>
    bg_borders g2 b' = Some (border_state_of b' (AgentPort i' 1) (AgentPort j 2) wd wc)"
proof -
  let ?t1 = "aux_target pc c 1" and ?t2 = "aux_target pc c 2" and ?t3 = "aux_target pd d 1" and ?t4 = "aux_target pd d 2"
  obtain cid cid' b1 b2 b3 b4 b pend al4 where cids: "cid = ca_next calloc" "cid' = cid + 1" "cid < cid'"
    and batches: "br_pending_commutations r =
       [\<lparr>cb_commutation_id = cid, cb_worker = wc, cb_target_symbols = [Dup, Con], cb_local_wiring = con_dup_wiring ?t1 wc ?t3 wd wc 1\<rparr>,
        \<lparr>cb_commutation_id = cid', cb_worker = wd, cb_target_symbols = [Dup, Con], cb_local_wiring = con_dup_wiring ?t2 wc ?t4 wd wd 2\<rparr>]"
    and new: "br_pending_new_borders r = pend @ [cross_border b cid 0 2 cid' 1 1 wc wd, cross_border (Suc b) cid' 0 1 cid 1 2 wd wc]"
    and pend: "pend = external_pending b1 ?t1 wc cid 0 wc @ external_pending b2 ?t2 wc cid' 0 wd @
       external_pending b3 ?t3 wd cid 1 wc @ external_pending b4 ?t4 wd cid' 1 wd"
    and em: "emit_ok (ba_next al) {wc, wd} {(cid, 0), (cid, 1), (cid', 0), (cid', 1)} pend al4" "b = ba_next al4"
    by (rule resolve_con_dup_shape [OF assms(1)])
  let ?new = "br_pending_new_borders r"
  have low: "cid_low28 cid' \<noteq> cid_low28 cid"
    using assms(3) cids by (intro cid_low28_apart) auto
  obtain i j x where e1: "create_agents [Dup, Con] n = Some ([i, j], x)" "echoes cid i j mints"
    using batch_echoes [OF assms(15)] batches assms(10) by auto
  obtain i' j' y where e2: "create_agents [Dup, Con] m = Some ([i', j'], y)" "echoes cid' i' j' mints'"
    using batch_echoes [OF assms(16)] batches assms(10) by auto
  have bcd: "bc = \<lparr>cb_commutation_id = cid, cb_worker = wc, cb_target_symbols = [Dup, Con],
        cb_local_wiring = (if is_agent ?t1 then [(0, 0, ?t1)] else []) @ [(0, 1, AgentPort (slot_marker 1) 1)]\<rparr>"
      "bd = \<lparr>cb_commutation_id = cid', cb_worker = wd, cb_target_symbols = [Dup, Con],
        cb_local_wiring = (if is_agent ?t4 then [(1, 0, ?t4)] else []) @ [(0, 2, AgentPort (slot_marker 1) 2)]\<rparr>"
    using assms(2,10) batches by (auto simp: con_dup_wiring_def external_wiring_def goes_local_def)
  have wired: "joined n' (AgentPort i 1) (AgentPort j 1)" "is_agent ?t1 \<Longrightarrow> joined n' (AgentPort i 0) ?t1"
      "joined m' (AgentPort i' 2) (AgentPort j' 2)" "is_agent ?t4 \<Longrightarrow> joined m' (AgentPort j' 0) ?t4"
    using con_dup_batch_wired [OF assms(11) e1(1), of cid wc ?t1 0 1 n' mints] con_dup_batch_wired [OF assms(12) e2(1), of cid' wd ?t4 1 2 m' mints']
      assms(13-16) unfolding bcd by simp_all
  define g0 where "g0 = enqueue_pending_borders ?new g"
  have g0: "bg_pending_new_borders g0 = bg_pending_new_borders g @ ?new" "bg_borders g0 = bg_borders g"
      "bg_worker_borders g0 = bg_worker_borders g" "bg_resolved_mints g0 = bg_resolved_mints g"
    by (simp_all add: g0_def enqueue_pending_borders_def)
  have ok: "pending_ok g0"
    by (rule enqueued_ok [OF assms(4-6) em(1) _ g0(1) [unfolded new] g0(2,3)])
       (use assms(8,9) em(2) in \<open>simp_all add: cross_border_def\<close>)
  obtain promoted g1 promoted' g2 m2 where reg: "register_minted_agents wc mints g0 = Some (Inr (promoted, g1))"
      "register_minted_agents wd mints' g1 = Some (Inr (promoted', g2))"
    and m2: "m2 (cid_low28 cid, 0) = Some i" "m2 (cid_low28 cid, 1) = Some j" "m2 (cid_low28 cid', 0) = Some i'" "m2 (cid_low28 cid', 1) = Some j'"
    and left: "bg_pending_new_borders g2 = filter (\<lambda>pb. resolve_pending m2 pb = None) (bg_pending_new_borders g1)"
      "set (bg_pending_new_borders g1) \<subseteq> set (bg_pending_new_borders g @ ?new)"
    and res: "\<And>pb e. pb \<in> set (bg_pending_new_borders g @ ?new) \<Longrightarrow> resolve_pending m2 pb = Some e \<Longrightarrow> bg_borders g2 (pb_border_id pb) = Some (entry_state e)"
    and kept: "\<And>x s. bg_borders g0 x = Some s \<Longrightarrow> bg_borders g2 x = Some s"
    by (rule echoes_complete [OF ok g0(1) _ _ low _ e1(2) e2(2)]) (use assms(7) cids in \<open>auto simp: new g0(4)\<close>)
  have ext: "bg_borders g2 x = Some (border_state_of x (AgentPort a 0) t w home)"
    if "set (external_pending x t home k slot w) \<subseteq> set pend" "\<not> goes_local t home w" "m2 (cid_low28 k, of_nat slot) = Some a" for x t home k slot w a
    using that res [of "\<lparr>pb_border_id = x, pb_side_a = Pending k (of_nat slot) 0, pb_side_b = Concrete t, pb_worker_a = w, pb_worker_b = home\<rparr>"]
    by (auto simp: external_pending_def new resolve_pending_def try_resolve_port_ref_def entry_state_def)
  have "attached g2 n' wc i ?t1 wc" "attached g2 m' wd i' ?t2 wc" "attached g2 n' wc j ?t3 wd" "attached g2 m' wd j' ?t4 wd"
    using ext [of b1 ?t1 wc cid 0 wc i] ext [of b2 ?t2 wc cid' 0 wd i'] ext [of b3 ?t3 wd cid 1 wc j] ext [of b4 ?t4 wd cid' 1 wd j'] m2 wired(2,4) assms(2)
    unfolding attached_def by (auto simp: pend goes_local_def)
  moreover have "bg_borders g2 b = Some (border_state_of b (AgentPort i 2) (AgentPort j' 1) wc wd)"
      "bg_borders g2 (Suc b) = Some (border_state_of (Suc b) (AgentPort i' 1) (AgentPort j 2) wd wc)"
    using res [of "cross_border b cid 0 2 cid' 1 1 wc wd"] res [of "cross_border (Suc b) cid' 0 1 cid 1 2 wd wc"] m2
    by (auto simp: new resolve_pending_def try_resolve_port_ref_def entry_state_def cross_border_def)
  moreover have "set (bg_pending_new_borders g2) \<subseteq> set (bg_pending_new_borders g)"
  proof -
    have "resolve_pending m2 pb \<noteq> None" if "pb \<in> set ?new" for pb
      using that m2 by (auto simp: new pend external_pending_def cross_border_def resolve_pending_def try_resolve_port_ref_def split: if_splits)
    then show ?thesis
      using left by fastforce
  qed
  moreover have "bg_borders g \<subseteq>\<^sub>m bg_borders g2"
    using kept by (auto simp: map_le_def g0(2))
  ultimately show ?thesis
    using e1(1) e2(1) reg wired(1,3) unfolding g0_def by blast
qed

text \<open>A constructor of worker 0 against a duplicator of worker 1, all auxiliary ports being borders.\<close>

definition duo_partition :: partition where
  "duo_partition = (partition_empty 1)\<lparr>
     p_subnet := net_new\<lparr>agents := [Some \<lparr>a_symbol = Dup, a_id = 0\<rparr>],
                          ports := [FreePort 4, FreePort 2, FreePort 3], next_id := 1\<rparr>\<rparr>"

definition duo_resolution :: "(border_resolution \<times> border_id_allocator \<times> commutation_id_allocator) option" where
  "duo_resolution = resolve_con_dup (border_state_of 4 (AgentPort 0 0) (AgentPort 0 0) 0 1) solo_partition duo_partition 0 0 0 1
     \<lparr>ba_next = 5\<rparr> commutation_alloc_new"

definition duo_batch :: "commutation_id \<Rightarrow> worker_id \<Rightarrow> port_id \<Rightarrow> commutation_batch" where
  "duo_batch cid w p = \<lparr>cb_commutation_id = cid, cb_worker = w, cb_target_symbols = [Dup, Con],
     cb_local_wiring = [(0, p, AgentPort (slot_marker 1) p)]\<rparr>"

lemma duo_resolution_eval:
  "\<exists>r al' calloc'. duo_resolution = Some (r, al', calloc') \<and> br_pending_commutations r = [duo_batch 0 0 1, duo_batch 1 1 2]"
  by (simp add: duo_resolution_def resolve_con_dup_def commutation_alloc_next_def commutation_alloc_new_def emit_external_principal_def
      aux_target_def solo_partition_def duo_partition_def get_target_def port_index_def PORTS_PER_SLOT_def border_alloc_next_def
      duo_batch_def net_new_def)

lemma duo_echo:
  assumes "p \<in> {1, 2}"
  shows "\<exists>n' mints. apply_pending_commutation (commutation_batch_to_pending (duo_batch cid w p)) (net_new, []) = Some (None, n', mints)"
proof -
  obtain n2 where mint: "create_agents [Dup, Con] net_new = Some ([0, 1], n2)"
    by (simp add: create_agent_def net_new_def pop_free_list_def alloc_fresh_def round_protected_def Let_def)
  obtain es where es: "echo_mints (encode_request_id cid 0) [0, 1] = Some es"
    by (rule echo_mints_spec [of "[0, 1]" cid]) auto
  show ?thesis
    using assms mint es
    by (auto simp del: create_agents.simps simp: apply_pending_commutation_def commutation_batch_to_pending_def duo_batch_def
        mint_slots_create decode_target_def slot_marker_def)
qed

lemma net_new_core: "core_inv net_new"
  by (simp add: core_inv_def net_new_def slots_ok_def ports_clean_def symmetric_wires_def ids_below_def free_list_ok_def
      tgt_def get_target_def get_agent_def vec_get_def sym_at_def)

text \<open>The commutation of the two partitions completes.\<close>

theorem commutation_completes_witness:
  "\<exists>r al' calloc' mints mints' promoted g1 promoted' g2 i i' b b'. duo_resolution = Some (r, al', calloc') \<and>
     register_minted_agents 0 mints (enqueue_pending_borders (br_pending_new_borders r) (empty_graph 2)) = Some (Inr (promoted, g1)) \<and>
     register_minted_agents 1 mints' g1 = Some (Inr (promoted', g2)) \<and> bg_pending_new_borders g2 = [] \<and>
     bg_borders g2 b = Some (border_state_of b (AgentPort i 0) (aux_target solo_partition 0 1) 0 0) \<and>
     bg_borders g2 b' = Some (border_state_of b' (AgentPort i' 0) (aux_target solo_partition 0 2) 1 0)"
proof -
  obtain r al' calloc' where r: "duo_resolution = Some (r, al', calloc')" "br_pending_commutations r = [duo_batch 0 0 1, duo_batch 1 1 2]"
    using duo_resolution_eval by blast
  obtain n' mints where e1: "apply_pending_commutation (commutation_batch_to_pending (duo_batch 0 0 1)) (net_new, []) = Some (None, n', mints)"
    using duo_echo [of 1 0 0] by auto
  obtain m' mints' where e2: "apply_pending_commutation (commutation_batch_to_pending (duo_batch 1 1 2)) (net_new, []) = Some (None, m', mints')"
    using duo_echo [of 2 1 1] by auto
  have free: "aux_target solo_partition 0 1 = FreePort 0" "aux_target duo_partition 0 2 = FreePort 3" "aux_target solo_partition 0 2 = FreePort 1"
    by (simp_all add: aux_target_def solo_partition_def duo_partition_def get_target_def port_index_def PORTS_PER_SLOT_def)
  have "\<exists>i j i' j' promoted g1 promoted' g2 b b'.
    (\<exists>x. create_agents [Dup, Con] net_new = Some ([i, j], x)) \<and> (\<exists>x. create_agents [Dup, Con] net_new = Some ([i', j'], x)) \<and>
    register_minted_agents 0 mints (enqueue_pending_borders (br_pending_new_borders r) (empty_graph 2)) = Some (Inr (promoted, g1)) \<and>
    register_minted_agents 1 mints' g1 = Some (Inr (promoted', g2)) \<and>
    set (bg_pending_new_borders g2) \<subseteq> set (bg_pending_new_borders (empty_graph 2)) \<and> bg_borders (empty_graph 2) \<subseteq>\<^sub>m bg_borders g2 \<and>
    attached g2 n' 0 i (aux_target solo_partition 0 1) 0 \<and> attached g2 m' 1 i' (aux_target solo_partition 0 2) 0 \<and>
    attached g2 n' 0 j (aux_target duo_partition 0 1) 1 \<and> attached g2 m' 1 j' (aux_target duo_partition 0 2) 1 \<and>
    joined n' (AgentPort i 1) (AgentPort j 1) \<and> joined m' (AgentPort i' 2) (AgentPort j' 2) \<and>
    bg_borders g2 b = Some (border_state_of b (AgentPort i 2) (AgentPort j' 1) 0 1) \<and>
    bg_borders g2 b' = Some (border_state_of b' (AgentPort i' 1) (AgentPort j 2) 1 0)"
    by (rule commutation_completes [OF r(1) [unfolded duo_resolution_def] _ _ _ _ _ _ _ _ r(2) _ _ _ _ e1 e2])
       (simp_all add: empty_graph_def pending_ok_def commutation_alloc_new_def net_new_core free [simplified] local_ok_def)
  then show ?thesis
    using r(1) free unfolding attached_def by (fastforce simp: goes_local_def empty_graph_def)
qed

section \<open>Erasure next to a local neighbour\<close>





end
