(* ===== verification/Resolver_Rules.thy ===== *)
theory Resolver_Rules
  imports Resolver_Props
begin

text \<open>
  The resolution of a border redex against the sequential rules: read as wires between the neighbours
  and the requested agents, what \<open>resolve_border_redex\<close> emits is what \<open>reduce_pair\<close> does to a net in
  which the two agents face each other.
\<close>

section \<open>A resolution read as wires\<close>

text \<open>
  \<open>ids\<close> gives the agent minted for a slot of a batch.  The wires of a resolution are its local
  reconnections, the wiring of its batches with slot markers replaced, and its pending borders with
  tokens replaced.
\<close>

type_synonym minting = "commutation_id \<Rightarrow> nat \<Rightarrow> agent_id"

definition hint_port :: "minting \<Rightarrow> commutation_id \<Rightarrow> port_ref \<Rightarrow> port_ref" where
  "hint_port ids cid t =
     (case t of AgentPort x p \<Rightarrow> if SLOT_MARKER_BASE \<le> x then AgentPort (ids cid (x - SLOT_MARKER_BASE)) p else t
              | FreePort f \<Rightarrow> t)"

definition token_port :: "minting \<Rightarrow> pending_port_ref \<Rightarrow> port_ref" where
  "token_port ids x = (case x of Concrete t \<Rightarrow> t | Pending cid slot p \<Rightarrow> AgentPort (ids cid (unat slot)) p)"

definition batch_wires :: "minting \<Rightarrow> commutation_batch \<Rightarrow> (port_ref \<times> port_ref) list" where
  "batch_wires ids b =
     map (\<lambda>(slot, p, t). (AgentPort (ids (cb_commutation_id b) slot) p, hint_port ids (cb_commutation_id b) t)) (cb_local_wiring b)"

definition border_wire :: "minting \<Rightarrow> pending_new_border \<Rightarrow> port_ref \<times> port_ref" where
  "border_wire ids pb = (token_port ids (pb_side_a pb), token_port ids (pb_side_b pb))"

definition resolution_wires :: "minting \<Rightarrow> border_resolution \<Rightarrow> (port_ref \<times> port_ref) list" where
  "resolution_wires ids r =
     concat (map (wl_local_reconnections \<circ> snd) (br_worker_deltas r)) @
     concat (map (batch_wires ids) (br_pending_commutations r)) @ map (border_wire ids) (br_pending_new_borders r)"

text \<open>The agents a resolution asks for, with their symbols.\<close>

definition minted_by :: "minting \<Rightarrow> border_resolution \<Rightarrow> (agent_id \<times> symbol) list" where
  "minted_by ids r =
     concat (map (\<lambda>b. map (\<lambda>(k, s). (ids (cb_commutation_id b) k, s)) (List.enumerate 0 (cb_target_symbols b)))
       (br_pending_commutations r))"

text \<open>
  The net \<open>m\<close> is the net \<open>n\<close> with the pair \<open>i\<close>, \<open>j\<close> replaced by the agents the resolution asks for, all
  of whose wires are in place, every port at the end of none of them keeping its wire.
\<close>

definition follows_rule :: "minting \<Rightarrow> border_resolution \<Rightarrow> net \<Rightarrow> agent_id \<Rightarrow> agent_id \<Rightarrow> net \<Rightarrow> bool" where
  "follows_rule ids r n i j m \<longleftrightarrow>
     distinct (map fst (minted_by ids r)) \<and>
     sym_at m = (sym_at n)(i := None, j := None) ++ map_of (minted_by ids r) \<and>
     (\<forall>(x, y) \<in> set (resolution_wires ids r). joined m x y) \<and>
     (\<forall>k q. valid_port m k q \<longrightarrow> AgentPort k q \<notin> set (all_ends (resolution_wires ids r)) \<longrightarrow>
        k \<notin> fst ` set (minted_by ids r) \<and> tgt m k q = tgt n k q)"

lemma joined_sym: "joined m x y \<longleftrightarrow> joined m y x"
  by (auto simp: joined_def)

lemma joinedI:
  assumes "core_inv m" "p < 3" "tgt m i p = y"
  shows "joined m (AgentPort i p) y"
proof (cases y)
  case (AgentPort j q)
  then show ?thesis
    using assms(3) neighbour(2) [OF assms(1,2), of i j q] by (simp add: joined_def)
qed (use assms(3) in \<open>simp add: joined_def\<close>)

text \<open>The frame: ports that are not an end keep their wire.\<close>

lemma follows_ruleI:
  assumes inv: "core_inv n" "active_pair n i j" and d: "distinct (map fst (minted_by ids r))"
    and sym: "sym_at m = (sym_at n)(i := None, j := None) ++ map_of (minted_by ids r)"
    and wires: "\<And>x y. (x, y) \<in> set (resolution_wires ids r) \<Longrightarrow> joined m x y"
    and nbs: "\<And>c p. c \<in> {i, j} \<Longrightarrow> p = 1 \<or> p = 2 \<Longrightarrow> valid_port n c p \<Longrightarrow> tgt n c p \<in> set (all_ends (resolution_wires ids r))"
    and news: "\<And>k q. k \<in> fst ` set (minted_by ids r) \<Longrightarrow> valid_port m k q \<Longrightarrow> AgentPort k q \<in> set (all_ends (resolution_wires ids r))"
    and rest: "\<And>k q. k \<notin> fst ` set (minted_by ids r) \<Longrightarrow> valid_port m k q \<Longrightarrow> tgt m k q = reroute exit {i, j} (tgt n k q)"
  shows "follows_rule ids r n i j m"
proof -
  have "k \<notin> fst ` set (minted_by ids r) \<and> tgt m k q = tgt n k q"
    if v: "valid_port m k q" and off: "AgentPort k q \<notin> set (all_ends (resolution_wires ids r))" for k q
  proof -
    have new: "k \<notin> fst ` set (minted_by ids r)"
      using news v off by blast
    then have none: "map_of (minted_by ids r) k = None"
      by (simp add: map_of_eq_None_iff)
    then have k: "k \<notin> {i, j}" "valid_port n k q" "q < 3"
      using v valid_port_less [OF v] by (auto simp: valid_port_def sym map_add_def split: if_splits)
    have "\<not> owner_in {i, j} (tgt n k q)"
    proof
      assume "owner_in {i, j} (tgt n k q)"
      then obtain c p where c: "tgt n k q = AgentPort c p" "c \<in> {i, j}"
        by (cases "tgt n k q") auto
      note N = neighbour [OF inv(1) k(3) c(1)]
      have "p \<noteq> 0"
        using N(2) active_pairD(4,5) [OF inv] c(2) k(1) by (cases p) auto
      then show False
        using nbs [OF c(2) _ N(1)] N(2,3) off by force
    qed
    then show ?thesis
      using rest [OF new v] new by (cases "tgt n k q") (auto simp: reroute_def)
  qed
  then show ?thesis
    using d sym wires unfolding follows_rule_def by blast
qed

section \<open>Each rule\<close>

lemma void_follows:
  assumes "core_inv n" "active_pair n i j" "sym_at n i = Some Era" "sym_at n j = Some Era"
  shows "follows_rule ids (resolve_era_era s) n i j (interact_void i j n)"
proof -
  note V = interact_void_correct [OF assms]
  have "minted_by ids (resolve_era_era s) = []" "resolution_wires ids (resolve_era_era s) = []"
    by (simp_all add: minted_by_def resolution_wires_def resolve_era_era_def resolution_default_def)
  then show ?thesis
    using V by (simp add: follows_rule_def)
qed

lemma anni_joined:
  assumes "core_inv n" "active_pair n a b" "no_cross n a b" "\<not> self_loop n a" "\<not> self_loop n b"
    and "sym_at n a = Some s" "sym_at n b = Some s" "s \<noteq> Era" and p: "p = 1 \<or> p = 2"
  defines "m \<equiv> link_all (anni_wires n s a b) (remove_agent b (remove_agent a n))"
  shows "joined m (tgt n a p) (tgt n b (opposite s p))"
proof -
  note A = anni_rerouted [OF assms(1-3,6-8), folded m_def]
  note P = active_pairD [OF assms(1,2)]
  have leaves: "joined m (tgt n c x) (exit c x)"
    if c: "c \<in> {a, b}" and x: "x = 1 \<or> x = 2" and "is_agent (tgt n c x)"
      and exit: "exit = (\<lambda>c. if c = a then anni_exit n s a b else anni_exit n s b a)" for c x exit
  proof (cases "tgt n c x")
    case (AgentPort k q)
    have "\<not> owner_in {a, b} (tgt n c x)"
      using aux_outside [OF assms(1-4) x] aux_outside' [OF assms(1-3,5) x] c by auto
    moreover have "x < 3"
      using x by auto
    ultimately have k: "k \<notin> {a, b}" "valid_port n k q" "tgt n k q = AgentPort c x" "q < 3"
      using neighbour [OF assms(1) _ AgentPort] AgentPort by auto
    then have "valid_port m k q"
      by (auto simp: valid_port_def A(2))
    then have "tgt m k q = exit c x"
      using A(3) [of k q] k(3) c by (simp add: reroute_def exit)
    then show ?thesis
      using joinedI [OF A(1) k(4), of k "exit c x"] AgentPort by simp
  qed (use that in simp)
  have no_loop: "tgt n c x \<noteq> AgentPort c (3 - x)" if "c \<in> {a, b}" "x = 1 \<or> x = 2" for c x
    using that assms(4,5) self_loop_iff [OF assms(1), of c] by auto
  have opp: "opposite s p = 1 \<or> opposite s p = 2" "opposite s (opposite s p) = p"
    using p by (auto simp: opposite_def)
  have exits: "anni_exit n s a b p = tgt n b (opposite s p)" "anni_exit n s b a (opposite s p) = tgt n a p"
    using no_loop [of b "opposite s p"] no_loop [of a p] p opp by (simp_all add: anni_exit_def Let_def)
  show ?thesis
  proof (cases "is_agent (tgt n a p) \<or> is_agent (tgt n b (opposite s p))")
    case True
    then show ?thesis
      using leaves [OF _ p _ refl, of a] leaves [OF _ opp(1) _ refl, of b] exits P(3) joined_sym by auto
  next
    case False
    then show ?thesis
      by (cases "tgt n a p"; cases "tgt n b (opposite s p)") (auto simp: joined_def)
  qed
qed

text \<open>Two constructors or two duplicators: the reconnections are the wires of the annihilation.\<close>

lemma anni_follows:
  assumes "core_inv n" "active_pair n a b" "no_cross n a b" "\<not> self_loop n a" "\<not> self_loop n b"
    and "sym_at n a = Some s" "sym_at n b = Some s" "s \<noteq> Era" and ret: "interact_anni a b n = Some m"
    and wires: "resolution_wires ids r = [(tgt n a 1, tgt n b (opposite s 1)), (tgt n a 2, tgt n b (opposite s 2))]"
    and none: "br_pending_commutations r = []"
  shows "follows_rule ids r n a b m"
proof (rule follows_ruleI [OF assms(1,2)])
  have m: "m = link_all (anni_wires n s a b) (remove_agent b (remove_agent a n))"
    using ret interact_anni_links [OF assms(6,8)] by simp
  note A = anni_rerouted [OF assms(1-3,6-8), folded m]
  have new: "minted_by ids r = []"
    by (simp add: minted_by_def none)
  show "distinct (map fst (minted_by ids r))" "sym_at m = (sym_at n)(a := None, b := None) ++ map_of (minted_by ids r)"
    using A(2) by (simp_all add: new)
  show "joined m x y" if "(x, y) \<in> set (resolution_wires ids r)" for x y
    using that anni_joined [OF assms(1-8), folded m] by (auto simp: wires)
  show "tgt n c p \<in> set (all_ends (resolution_wires ids r))" if "c \<in> {a, b}" "p = 1 \<or> p = 2" for c p
    using that by (auto simp: wires opposite_def)
  show "tgt m k q = reroute (\<lambda>c. if c = a then anni_exit n s a b else anni_exit n s b a) {a, b} (tgt n k q)" if "valid_port m k q" for k q
    using A(3) that .
qed (simp add: minted_by_def none)

text \<open>A constructor and a duplicator: the batches and borders are the wires of the commutation.\<close>

lemma regroup:
  "(A1 \<union> A3 \<union> {x}) \<union> (A2 \<union> A4 \<union> {y}) \<union> (B1 \<union> B2 \<union> B3 \<union> B4 \<union> {z, w}) =
   (A1 \<union> B1) \<union> (A2 \<union> B2) \<union> (A3 \<union> B3) \<union> (A4 \<union> B4) \<union> {x, z, w, y}"
  by blast

lemma con_dup_wires:
  assumes "resolve_con_dup s pc pd c d wc wd al calloc = Some (r, al', calloc')"
    and small: "\<And>t x p. t \<in> {aux_target pc c 1, aux_target pc c 2, aux_target pd d 1, aux_target pd d 2} \<Longrightarrow> t = AgentPort x p \<Longrightarrow> x < SLOT_MARKER_BASE"
  obtains cid cid' where "cid \<noteq> cid'"
    "\<And>ids. minted_by ids r = [(ids cid 0, Dup), (ids cid 1, Con), (ids cid' 0, Dup), (ids cid' 1, Con)]"
    "\<And>ids. set (resolution_wires ids r) =
       {(AgentPort (ids cid 0) 0, aux_target pc c 1), (AgentPort (ids cid' 0) 0, aux_target pc c 2),
        (AgentPort (ids cid 1) 0, aux_target pd d 1), (AgentPort (ids cid' 1) 0, aux_target pd d 2),
        (AgentPort (ids cid 0) 1, AgentPort (ids cid 1) 1), (AgentPort (ids cid 0) 2, AgentPort (ids cid' 1) 1),
        (AgentPort (ids cid' 0) 1, AgentPort (ids cid 1) 2), (AgentPort (ids cid' 0) 2, AgentPort (ids cid' 1) 2)}"
proof (rule resolve_con_dup_shape [OF assms(1)])
  fix cid cid' b1 b2 b3 b4 b5 pend al4
  let ?t1 = "aux_target pc c 1" and ?t2 = "aux_target pc c 2" and ?t3 = "aux_target pd d 1" and ?t4 = "aux_target pd d 2"
  assume lt: "cid < cid'"
    and batches: "br_pending_commutations r =
       [\<lparr>cb_commutation_id = cid, cb_worker = wc, cb_target_symbols = [Dup, Con], cb_local_wiring = con_dup_wiring ?t1 wc ?t3 wd wc 1\<rparr>,
        \<lparr>cb_commutation_id = cid', cb_worker = wd, cb_target_symbols = [Dup, Con], cb_local_wiring = con_dup_wiring ?t2 wc ?t4 wd wd 2\<rparr>]"
    and new: "br_pending_new_borders r = pend @ [cross_border b5 cid 0 2 cid' 1 1 wc wd, cross_border (Suc b5) cid' 0 1 cid 1 2 wd wc]"
    and pend: "pend = external_pending b1 ?t1 wc cid 0 wc @ external_pending b2 ?t2 wc cid' 0 wd @
       external_pending b3 ?t3 wd cid 1 wc @ external_pending b4 ?t4 wd cid' 1 wd"
    and none: "br_worker_deltas r = []"
  have minted: "minted_by ids r = [(ids cid 0, Dup), (ids cid 1, Con), (ids cid' 0, Dup), (ids cid' 1, Con)]" for ids
    by (simp add: minted_by_def batches)
  have marker: "hint_port ids k (AgentPort (slot_marker 1) p) = AgentPort (ids k 1) p" for ids k p
    by (simp add: hint_port_def slot_marker_def)
  have hint: "hint_port ids k t = t" if "t \<in> {?t1, ?t2, ?t3, ?t4}" for ids k t
    using small [OF that] by (auto simp: hint_port_def split: port_ref.split)
  have "set (resolution_wires ids r) =
       {(AgentPort (ids cid 0) 0, ?t1), (AgentPort (ids cid' 0) 0, ?t2), (AgentPort (ids cid 1) 0, ?t3), (AgentPort (ids cid' 1) 0, ?t4),
        (AgentPort (ids cid 0) 1, AgentPort (ids cid 1) 1), (AgentPort (ids cid 0) 2, AgentPort (ids cid' 1) 1),
        (AgentPort (ids cid' 0) 1, AgentPort (ids cid 1) 2), (AgentPort (ids cid' 0) 2, AgentPort (ids cid' 1) 2)}" (is "?L = ?R") for ids
  proof -
    define f where "f k = (\<lambda>(x, p, u). (AgentPort (ids k x) p, hint_port ids k u))" for k
    have cross: "border_wire ids (cross_border b5 cid 0 2 cid' 1 1 wc wd) = (AgentPort (ids cid 0) 2, AgentPort (ids cid' 1) 1)"
        "border_wire ids (cross_border (Suc b5) cid' 0 1 cid 1 2 wd wc) = (AgentPort (ids cid' 0) 1, AgentPort (ids cid 1) 2)"
      by (simp_all add: border_wire_def cross_border_def token_port_def)
    have part: "f k ` set (external_wiring t home slot w) \<union> border_wire ids ` set (external_pending b t home k slot w) = {(AgentPort (ids k slot) 0, t)}"
      if "t \<in> {?t1, ?t2, ?t3, ?t4}" "slot = 0 \<or> slot = 1" for k slot t home w b
      using hint [OF that(1), of ids k] that(2) unfolding f_def
      by (cases "goes_local t home w") (auto simp: external_wiring_def external_pending_def border_wire_def token_port_def)
    have "?L = (f cid ` set (external_wiring ?t1 wc 0 wc) \<union> f cid ` set (external_wiring ?t3 wd 1 wc) \<union> {(AgentPort (ids cid 0) 1, AgentPort (ids cid 1) 1)}) \<union>
        (f cid' ` set (external_wiring ?t2 wc 0 wd) \<union> f cid' ` set (external_wiring ?t4 wd 1 wd) \<union> {(AgentPort (ids cid' 0) 2, AgentPort (ids cid' 1) 2)}) \<union>
        (border_wire ids ` set (external_pending b1 ?t1 wc cid 0 wc) \<union> border_wire ids ` set (external_pending b2 ?t2 wc cid' 0 wd) \<union>
         border_wire ids ` set (external_pending b3 ?t3 wd cid 1 wc) \<union> border_wire ids ` set (external_pending b4 ?t4 wd cid' 1 wd) \<union>
         {(AgentPort (ids cid 0) 2, AgentPort (ids cid' 1) 1), (AgentPort (ids cid' 0) 1, AgentPort (ids cid 1) 2)})"
      using cross unfolding resolution_wires_def none batches new pend con_dup_wiring_def batch_wires_def f_def
      by (simp only: list.map concat.simps append_Nil append_Nil2 set_append set_map image_Un commutation_batch.simps list.set image_insert image_empty
          prod.case marker image_image Un_assoc)
    also have "\<dots> = (f cid ` set (external_wiring ?t1 wc 0 wc) \<union> border_wire ids ` set (external_pending b1 ?t1 wc cid 0 wc)) \<union>
        (f cid' ` set (external_wiring ?t2 wc 0 wd) \<union> border_wire ids ` set (external_pending b2 ?t2 wc cid' 0 wd)) \<union>
        (f cid ` set (external_wiring ?t3 wd 1 wc) \<union> border_wire ids ` set (external_pending b3 ?t3 wd cid 1 wc)) \<union>
        (f cid' ` set (external_wiring ?t4 wd 1 wd) \<union> border_wire ids ` set (external_pending b4 ?t4 wd cid' 1 wd)) \<union>
        {(AgentPort (ids cid 0) 1, AgentPort (ids cid 1) 1), (AgentPort (ids cid 0) 2, AgentPort (ids cid' 1) 1),
         (AgentPort (ids cid' 0) 1, AgentPort (ids cid 1) 2), (AgentPort (ids cid' 0) 2, AgentPort (ids cid' 1) 2)}"
      by (rule regroup)
    also have "\<dots> = ?R"
      using part [of ?t1 0 cid] part [of ?t2 0 cid'] part [of ?t3 1 cid] part [of ?t4 1 cid'] by (simp add: insert_commute)
    finally show ?thesis .
  qed
  then show thesis
    using that lt minted by (metis less_irrefl)
qed

lemma set_all_ends: "set (all_ends ws) = fst ` set ws \<union> snd ` set ws"
  by (induction ws rule: all_ends.induct) auto

lemma con_dup_follows:
  assumes "resolve_con_dup st pc pd a b wc wd al calloc = Some (r, al', calloc')"
    and net: "core_inv n" "active_pair n a b" "no_cross n a b" "\<not> self_loop n a" "\<not> self_loop n b"
      "sym_at n a = Some Con" "sym_at n b = Some Dup" and ret: "interact_comm a b n = Some m"
    and nbs: "\<And>p. p = 1 \<or> p = 2 \<Longrightarrow> tgt n a p = aux_target pc a p \<and> tgt n b p = aux_target pd b p"
    and small: "\<forall>x. live n x \<longrightarrow> x < SLOT_MARKER_BASE"
  shows "\<exists>ids. follows_rule ids r n a b m"
proof -
  have "x < SLOT_MARKER_BASE"
    if tgt: "t \<in> {aux_target pc a 1, aux_target pc a 2, aux_target pd b 1, aux_target pd b 2}" "t = AgentPort x p" for t x p
  proof -
    obtain c e where "c \<in> {a, b}" "e = 1 \<or> e = 2" "tgt n c e = AgentPort x p"
      using tgt nbs [of 1] nbs [of 2] by (metis insert_iff singletonD)
    then show ?thesis
      using neighbour(1) [OF net(1), of e c x p] small valid_port_live by force
  qed
  then obtain cid cid' where cids: "cid \<noteq> cid'"
    and minted: "\<And>ids. minted_by ids r = [(ids cid 0, Dup), (ids cid 1, Con), (ids cid' 0, Dup), (ids cid' 1, Con)]"
    and wires: "\<And>ids. set (resolution_wires ids r) =
       {(AgentPort (ids cid 0) 0, aux_target pc a 1), (AgentPort (ids cid' 0) 0, aux_target pc a 2),
        (AgentPort (ids cid 1) 0, aux_target pd b 1), (AgentPort (ids cid' 1) 0, aux_target pd b 2),
        (AgentPort (ids cid 0) 1, AgentPort (ids cid 1) 1), (AgentPort (ids cid 0) 2, AgentPort (ids cid' 1) 1),
        (AgentPort (ids cid' 0) 1, AgentPort (ids cid 1) 2), (AgentPort (ids cid' 0) 2, AgentPort (ids cid' 1) 2)}"
    using con_dup_wires [OF assms(1)] by metis
  obtain p q u v where core: "core_inv m" and d: "distinct [p, q, u, v]"
    and sym: "sym_at m = (sym_at n)(a := None, b := None, p \<mapsto> Dup, q \<mapsto> Dup, u \<mapsto> Con, v \<mapsto> Con)"
    and t: "tgt m p 0 = tgt n a 1" "tgt m q 0 = tgt n a 2" "tgt m u 0 = tgt n b 1" "tgt m v 0 = tgt n b 2"
      "tgt m p 1 = AgentPort u 1" "tgt m p 2 = AgentPort v 1" "tgt m q 1 = AgentPort u 2" "tgt m q 2 = AgentPort v 2"
    and rest: "\<forall>j x. j \<notin> {p, q, u, v} \<longrightarrow> valid_port m j x \<longrightarrow> tgt m j x = reroute (comm_exit a [p, q, u, v]) {a, b} (tgt n j x)"
    using comm_rewritten [OF net ret] by blast
  define ids where "ids k x = (if k = cid then if x = 0 then p else u else if x = 0 then q else v)" for k :: commutation_id and x :: nat
  have ws: "set (resolution_wires ids r) =
       {(AgentPort p 0, tgt n a 1), (AgentPort q 0, tgt n a 2), (AgentPort u 0, tgt n b 1), (AgentPort v 0, tgt n b 2),
        (AgentPort p 1, AgentPort u 1), (AgentPort p 2, AgentPort v 1), (AgentPort q 1, AgentPort u 2), (AgentPort q 2, AgentPort v 2)}"
    using cids nbs [of 1] nbs [of 2] by (simp add: wires ids_def)
  have mt: "minted_by ids r = [(p, Dup), (u, Con), (q, Dup), (v, Con)]"
    using cids by (simp add: minted ids_def)
  have "follows_rule ids r n a b m"
  proof (rule follows_ruleI [OF net(1,2)])
    show "distinct (map fst (minted_by ids r))" "sym_at m = (sym_at n)(a := None, b := None) ++ map_of (minted_by ids r)"
      using d by (auto simp: mt sym fun_eq_iff map_add_def)
    show "joined m x y" if "(x, y) \<in> set (resolution_wires ids r)" for x y
      using that joinedI [OF core] t unfolding ws by auto
    show "tgt n c e \<in> set (all_ends (resolution_wires ids r))" if "c \<in> {a, b}" "e = 1 \<or> e = 2" for c e
      using that by (auto simp: set_all_ends ws)
    show "AgentPort k e \<in> set (all_ends (resolution_wires ids r))" if "k \<in> fst ` set (minted_by ids r)" "valid_port m k e" for k e
    proof -
      have "e = 0 \<or> e = 1 \<or> e = 2"
        using valid_port_less [OF that(2)] by auto
      then show ?thesis
        using that(1) by (auto simp: set_all_ends ws mt)
    qed
    show "tgt m k e = reroute (comm_exit a [p, q, u, v]) {a, b} (tgt n k e)" if "k \<notin> fst ` set (minted_by ids r)" "valid_port m k e" for k e
      using that rest by (auto simp: mt)
  qed
  then show ?thesis
    by blast
qed

text \<open>An eraser: the neighbour behind a border is the port on the other side of that border.\<close>

definition across :: "border_graph \<Rightarrow> worker_id \<Rightarrow> port_ref \<Rightarrow> port_ref" where
  "across g w t =
     (case t of
        AgentPort x p \<Rightarrow> t
      | FreePort b \<Rightarrow>
          (case bg_borders g b of Some st \<Rightarrow> if bs_worker_a st = w then bs_side_b st else bs_side_a st | None \<Rightarrow> t))"

lemma erasure_wires:
  assumes "resolve_non_era_era st g p i w calloc = Some (r, calloc')"
    and small: "\<And>e x y. e = 1 \<or> e = 2 \<Longrightarrow> aux_target p i e = AgentPort x y \<Longrightarrow> x < SLOT_MARKER_BASE"
  obtains cid where "\<And>ids. minted_by ids r = [(ids cid 0, Era), (ids cid 1, Era)]"
    "\<And>ids. set (resolution_wires ids r) =
       {(AgentPort (ids cid 0) 0, across g w (aux_target p i 1)), (AgentPort (ids cid 1) 0, across g w (aux_target p i 2))}"
proof -
  obtain cid where c: "commutation_alloc_next calloc = Some (cid, calloc')"
    using assms(1) by (auto simp: resolve_non_era_era_def Let_def split_beta)
  have minted: "minted_by ids r = [(ids cid 0, Era), (ids cid 1, Era)]" for ids
    using assms(1) c by (auto simp: resolve_non_era_era_def Let_def minted_by_def split_beta)
  have "set (resolution_wires ids r) =
       {(AgentPort (ids cid 0) 0, across g w (aux_target p i 1)), (AgentPort (ids cid 1) 0, across g w (aux_target p i 2))}" for ids
    using assms(1) c small [of 1] small [of 2]
    by (cases "aux_target p i 1"; cases "aux_target p i 2")
       (auto simp: resolve_non_era_era_def emit_erasure_principal_def resolution_wires_def resolution_default_def batch_wires_def border_wire_def
          token_port_def hint_port_def across_def Let_def split: option.splits if_splits)
  then show thesis
    using that minted by blast
qed

lemma erasure_follows:
  assumes "resolve_non_era_era st g pa a w calloc = Some (r, calloc')"
    and net: "core_inv n" "active_pair n a b" "sym_at n a = Some s" "s \<noteq> Era" "sym_at n b = Some Era" "\<not> self_loop n a"
    and ret: "interact_eras a b n = Some m"
    and nbs: "\<And>e. e = 1 \<or> e = 2 \<Longrightarrow> tgt n a e = across g w (aux_target pa a e)"
    and small: "\<forall>x. live n x \<longrightarrow> x < SLOT_MARKER_BASE"
  shows "\<exists>ids. follows_rule ids r n a b m"
proof -
  have "x < SLOT_MARKER_BASE" if "e = 1 \<or> e = 2" "aux_target pa a e = AgentPort x y" for e x y
    using neighbour(1) [OF net(1), of e a x y] nbs [OF that(1)] that small valid_port_live by (force simp: across_def)
  then obtain cid where minted: "\<And>ids. minted_by ids r = [(ids cid 0, Era), (ids cid 1, Era)]"
    and wires: "\<And>ids. set (resolution_wires ids r) =
       {(AgentPort (ids cid 0) 0, across g w (aux_target pa a 1)), (AgentPort (ids cid 1) 0, across g w (aux_target pa a 2))}"
    using erasure_wires [OF assms(1)] by metis
  obtain e f where core: "core_inv m" and d: "e \<noteq> f" and sym: "sym_at m = (sym_at n)(a := None, b := None, e \<mapsto> Era, f \<mapsto> Era)"
    and t: "tgt m e 0 = tgt n a 1" "tgt m f 0 = tgt n a 2"
    and rest: "\<forall>j q. j \<notin> {e, f} \<longrightarrow> valid_port m j q \<longrightarrow> tgt m j q = reroute (\<lambda>c. era_exit e f) {a} (tgt n j q)"
    using eras_rewritten [OF net(1-5) ret] net(6) by auto
  define ids where "ids k x = (if x = 0 then e else f)" for k :: commutation_id and x :: nat
  have ws: "set (resolution_wires ids r) = {(AgentPort e 0, tgt n a 1), (AgentPort f 0, tgt n a 2)}"
    using nbs [of 1] nbs [of 2] by (simp add: wires ids_def)
  have mt: "minted_by ids r = [(e, Era), (f, Era)]"
    by (simp add: minted ids_def)
  have era: "valid_port n b q \<longleftrightarrow> q = 0" for q
    using net(5) by (auto simp: valid_port_def)
  have "follows_rule ids r n a b m"
  proof (rule follows_ruleI [OF net(1,2)])
    show "distinct (map fst (minted_by ids r))" "sym_at m = (sym_at n)(a := None, b := None) ++ map_of (minted_by ids r)"
      using d by (auto simp: mt sym fun_eq_iff map_add_def)
    show "joined m x y" if "(x, y) \<in> set (resolution_wires ids r)" for x y
      using that joinedI [OF core] t unfolding ws by auto
    show "tgt n c q \<in> set (all_ends (resolution_wires ids r))" if "c \<in> {a, b}" "q = 1 \<or> q = 2" "valid_port n c q" for c q
    proof -
      have "c = a"
        using that era [of q] by auto
      then show ?thesis
        using that(2) by (auto simp: set_all_ends ws)
    qed
    show "AgentPort k q \<in> set (all_ends (resolution_wires ids r))" if k: "k \<in> fst ` set (minted_by ids r)" and v: "valid_port m k q" for k q
    proof -
      have "q = 0"
        using k v d by (auto simp: mt valid_port_def sym)
      then show ?thesis
        using k by (auto simp: set_all_ends ws mt)
    qed
    show "tgt m k q = reroute (\<lambda>c. if c = a then era_exit e f else AgentPort b) {a, b} (tgt n k q)"
      if "k \<notin> fst ` set (minted_by ids r)" "valid_port m k q" for k q
      using that rest by (cases "tgt n k q") (auto simp: mt reroute_def)
  qed
  then show ?thesis
    by blast
qed

section \<open>The resolver follows the rules\<close>

text \<open>What the sequential rule of a symbol pair creates, and on which workers the resolver asks for it.\<close>

definition created_by :: "symbol \<Rightarrow> symbol \<Rightarrow> symbol multiset" where
  "created_by s t = (case get_rule s t of Comm \<Rightarrow> {#Dup, Dup, Con, Con#} | Eras \<Rightarrow> {#Era, Era#} | _ \<Rightarrow> {#})"

definition batch_workers :: "symbol \<Rightarrow> symbol \<Rightarrow> worker_id \<Rightarrow> worker_id \<Rightarrow> worker_id list" where
  "batch_workers s t w w' =
     (case get_rule s t of
        Comm \<Rightarrow> if s = Con then [w, w'] else [w', w]
      | Eras \<Rightarrow> if t = Era then [w] else [w']
      | _ \<Rightarrow> [])"

text \<open>Every token of a pending border names a slot of a batch, and the border names the worker of that batch.\<close>

definition side_placed :: "border_resolution \<Rightarrow> pending_port_ref \<Rightarrow> worker_id \<Rightarrow> bool" where
  "side_placed r x w \<longleftrightarrow>
     (case x of
        Concrete t \<Rightarrow> True
      | Pending cid slot p \<Rightarrow>
          list_ex (\<lambda>b. cb_commutation_id b = cid \<and> cb_worker b = w \<and> unat slot < length (cb_target_symbols b)) (br_pending_commutations r))"

definition tokens_placed :: "border_resolution \<Rightarrow> bool" where
  "tokens_placed r \<longleftrightarrow>
     list_all (\<lambda>pb. side_placed r (pb_side_a pb) (pb_worker_a pb) \<and> side_placed r (pb_side_b pb) (pb_worker_b pb)) (br_pending_new_borders r)"

text \<open>
  A net in which the two agents of the border face each other: no auxiliary port of one wired to the
  other or to itself, the neighbours those the coordinator reads in the partitions (for an erasure,
  those on the other side of a border), and identifiers below the slot markers.
\<close>

definition seen_from :: "border_graph \<Rightarrow> rule \<Rightarrow> worker_id \<Rightarrow> port_ref \<Rightarrow> port_ref" where
  "seen_from g rl w t = (if rl = Eras then across g w t else t)"

definition shows_redex ::
  "border_graph \<Rightarrow> border_state \<Rightarrow> partition \<Rightarrow> partition \<Rightarrow> agent_id \<Rightarrow> agent_id \<Rightarrow> symbol \<Rightarrow> symbol \<Rightarrow> net \<Rightarrow> bool" where
  "shows_redex g st pa pb i j s t n \<longleftrightarrow>
     core_inv n \<and> active_pair n i j \<and> sym_at n i = Some s \<and> sym_at n j = Some t \<and>
     no_cross n i j \<and> \<not> self_loop n i \<and> \<not> self_loop n j \<and>
     (s \<noteq> Era \<longrightarrow> (\<forall>e \<in> {1, 2}. tgt n i e = seen_from g (get_rule s t) (bs_worker_a st) (aux_target pa i e))) \<and>
     (t \<noteq> Era \<longrightarrow> (\<forall>e \<in> {1, 2}. tgt n j e = seen_from g (get_rule s t) (bs_worker_b st) (aux_target pb j e))) \<and>
     (\<forall>x. live n x \<longrightarrow> x < SLOT_MARKER_BASE)"

lemma follows_rule_swap: "follows_rule ids r n i j m \<longleftrightarrow> follows_rule ids r n j i m"
proof -
  have "(sym_at n)(i := None, j := None) = (sym_at n)(j := None, i := None)"
    by auto
  then show ?thesis
    by (simp only: follows_rule_def)
qed

lemma con_dup_placed:
  assumes "resolve_con_dup st pc pd c d wc wd al calloc = Some (r, al', calloc')"
  shows "mset (concat (map cb_target_symbols (br_pending_commutations r))) = {#Dup, Dup, Con, Con#}"
    "map cb_worker (br_pending_commutations r) = [wc, wd]" "tokens_placed r"
    "br_worker_deltas r = []" "br_resolved_borders r = resolved_of st" "br_new_borders r = []"
  by (rule resolve_con_dup_shape [OF assms];
      simp add: tokens_placed_def side_placed_def external_pending_def cross_border_def)+

lemma erasure_placed:
  assumes "resolve_non_era_era st g p i w calloc = Some (r, calloc')"
  shows "mset (concat (map cb_target_symbols (br_pending_commutations r))) = {#Era, Era#}"
    "map cb_worker (br_pending_commutations r) = [w]" "tokens_placed r"
    "br_worker_deltas r = []" "br_resolved_borders r = resolved_of st" "br_new_borders r = []"
  using assms
  by (cases "aux_target p i 1"; cases "aux_target p i 2";
      auto simp: resolve_non_era_era_def resolution_default_def Let_def split_beta emit_erasure_principal_def tokens_placed_def side_placed_def)+

text \<open>The choice of the resolution by the two symbols.\<close>

definition resolution_of ::
  "border_graph \<Rightarrow> border_state \<Rightarrow> partition \<Rightarrow> partition \<Rightarrow> agent_id \<Rightarrow> agent_id \<Rightarrow> border_id_allocator \<Rightarrow> commutation_id_allocator \<Rightarrow>
   symbol \<Rightarrow> symbol \<Rightarrow> (border_resolution \<times> border_id_allocator \<times> commutation_id_allocator) option" where
  "resolution_of g st pa pb i j alloc calloc sym_a sym_b =
     (case (sym_a, sym_b) of
        (Con, Con) \<Rightarrow> Some (resolve_con_con st pa pb i j, alloc, calloc)
      | (Dup, Dup) \<Rightarrow> Some (resolve_dup_dup st pa pb i j, alloc, calloc)
      | (Era, Era) \<Rightarrow> Some (resolve_era_era st, alloc, calloc)
      | (Con, Dup) \<Rightarrow> resolve_con_dup st pa pb i j (bs_worker_a st) (bs_worker_b st) alloc calloc
      | (Dup, Con) \<Rightarrow> resolve_con_dup st pb pa j i (bs_worker_b st) (bs_worker_a st) alloc calloc
      | (_, Era) \<Rightarrow> map_option (\<lambda>(r, c). (r, alloc, c)) (resolve_non_era_era st g pa i (bs_worker_a st) calloc)
      | (Era, _) \<Rightarrow> map_option (\<lambda>(r, c). (r, alloc, c)) (resolve_non_era_era st g pb j (bs_worker_b st) calloc))"

lemma resolve_border_redexD:
  assumes "resolve_border_redex g parts b alloc calloc = Some (r, g', alloc', calloc')"
  obtains st pa pb i j s t where "bg_borders g b = Some st" "vec_get parts (bs_worker_a st) = Some pa" "vec_get parts (bs_worker_b st) = Some pb"
    "bs_side_a st = AgentPort i 0" "bs_side_b st = AgentPort j 0" "sym_at (p_subnet pa) i = Some s" "sym_at (p_subnet pb) j = Some t"
    "resolution_of g st pa pb i j alloc calloc s t = Some (r, alloc', calloc')" "g' = snd (remove_border b g)"
proof -
  obtain st where st: "bg_borders g b = Some st"
    using assms by (cases "bg_borders g b") (auto simp: resolve_border_redex_def)
  obtain pa where pa: "vec_get parts (bs_worker_a st) = Some pa"
    using assms st by (cases "vec_get parts (bs_worker_a st)") (auto simp: resolve_border_redex_def)
  obtain pb where pb: "vec_get parts (bs_worker_b st) = Some pb"
    using assms st pa by (cases "vec_get parts (bs_worker_b st)") (auto simp: resolve_border_redex_def)
  obtain i s where a: "assert_agent pa (bs_side_a st) = Some (i, s)"
    using assms st pa pb by (cases "assert_agent pa (bs_side_a st)") (auto simp: resolve_border_redex_def)
  obtain j t where c: "assert_agent pb (bs_side_b st) = Some (j, t)"
    using assms st pa pb a by (cases "assert_agent pb (bs_side_b st)") (auto simp: resolve_border_redex_def)
  have at: "bs_side_a st = AgentPort i 0" "sym_at (p_subnet pa) i = Some s" "bs_side_b st = AgentPort j 0" "sym_at (p_subnet pb) j = Some t"
    using a c by (auto simp: assert_agent_def materialize_agent_def sym_at_def split: port_ref.splits if_splits)
  have "resolution_of g st pa pb i j alloc calloc s t = Some (r, alloc', calloc')" "g' = snd (remove_border b g)"
    using assms st pa pb a c by (auto simp: resolve_border_redex_def resolution_of_def split: Option.bind_splits)
  then show thesis
    using that st pa pb at by blast
qed

lemma resolution_placed:
  assumes "resolution_of g st pa pb i j alloc calloc s t = Some (r, alloc', calloc')"
  shows "mset (concat (map cb_target_symbols (br_pending_commutations r))) = created_by s t \<and>
    map cb_worker (br_pending_commutations r) = batch_workers s t (bs_worker_a st) (bs_worker_b st) \<and> tokens_placed r \<and>
    map fst (br_worker_deltas r) = (if get_rule s t = Anni then [bs_worker_a st] else []) \<and>
    br_resolved_borders r = resolved_of st \<and> br_new_borders r = []"
  using assms con_dup_placed erasure_placed
  by (cases s; cases t)
     (auto simp: resolution_of_def created_by_def batch_workers_def resolve_con_con_def resolve_dup_dup_def resolve_era_era_def
        resolution_default_def tokens_placed_def)

lemma resolution_follows:
  assumes res: "resolution_of g st pa pb i j alloc calloc s t = Some (r, alloc', calloc')"
    and face: "shows_redex g st pa pb i j s t n" and step: "reduce_pair i j n = Some (result, m)"
  shows "\<exists>ids. follows_rule ids r n i j m"
proof -
  have inv: "core_inv n" "active_pair n i j" "sym_at n i = Some s" "sym_at n j = Some t" "no_cross n i j" "\<not> self_loop n i" "\<not> self_loop n j"
    and nbs: "\<And>e. e = 1 \<or> e = 2 \<Longrightarrow> s \<noteq> Era \<Longrightarrow> tgt n i e = seen_from g (get_rule s t) (bs_worker_a st) (aux_target pa i e)"
      "\<And>e. e = 1 \<or> e = 2 \<Longrightarrow> t \<noteq> Era \<Longrightarrow> tgt n j e = seen_from g (get_rule s t) (bs_worker_b st) (aux_target pb j e)"
    and small: "\<forall>x. live n x \<longrightarrow> x < SLOT_MARKER_BASE"
    using face by (auto simp: shows_redex_def)
  note swap = active_pairD(6) [OF inv(1,2)] no_cross_sym [OF inv(1,5)]
  have app: "apply_rule (get_rule s t) (if symbol_code s \<le> symbol_code t then i else j) (if symbol_code s \<le> symbol_code t then j else i) n = Some m"
    using step inv(3,4) by (cases s; cases t) (auto simp: reduce_pair_def normalize_pair_def split: Option.bind_splits if_splits)
  show ?thesis
  proof (cases "get_rule s t")
    case Anni
    then have st: "t = s" "s \<noteq> Era"
      by (cases s; cases t; simp)+
    have "br_pending_commutations r = []" "resolution_wires ids r = [(tgt n i 1, tgt n j (opposite s 1)), (tgt n i 2, tgt n j (opposite s 2))]" for ids
      using res st nbs [of 1] nbs [of 2]
      by (cases s; auto simp: resolution_of_def resolve_con_con_def resolve_dup_dup_def resolution_default_def resolution_wires_def opposite_def seen_from_def)+
    then show ?thesis
      using anni_follows [OF inv(1,2,5-7,3) _ st(2), of m] inv(4) st(1) app Anni by (auto simp: apply_rule_def)
  next
    case Comm
    then consider "s = Con" "t = Dup" | "s = Dup" "t = Con"
      by (cases s; cases t) auto
    then show ?thesis
    proof cases
      case 1
      then show ?thesis
        using con_dup_follows [OF _ inv(1,2,5-7), of st pa pb] res nbs inv(3,4) small app by (auto simp: resolution_of_def apply_rule_def seen_from_def)
    next
      case 2
      then show ?thesis
        using con_dup_follows [OF _ inv(1) swap inv(7,6), of st pb pa] res nbs inv(3,4) small app follows_rule_swap
        by (auto simp: resolution_of_def apply_rule_def seen_from_def)
    qed
  next
    case Eras
    then consider "s \<noteq> Era" "t = Era" | "s = Era" "t \<noteq> Era"
      by (cases s; cases t) auto
    then show ?thesis
    proof cases
      case 1
      then obtain c where "resolve_non_era_era st g pa i (bs_worker_a st) calloc = Some (r, c)"
        using res by (cases s) (auto simp: resolution_of_def)
      then show ?thesis
        using erasure_follows [OF _ inv(1,2,3) _ _ inv(6) _ _ small] 1 inv(4) nbs(1) app Eras by (cases s) (auto simp: apply_rule_def seen_from_def)
    next
      case 2
      then obtain c where "resolve_non_era_era st g pb j (bs_worker_b st) calloc = Some (r, c)"
        using res by (cases t) (auto simp: resolution_of_def)
      then show ?thesis
        using erasure_follows [OF _ inv(1) swap(1) inv(4) _ _ inv(7) _ _ small] 2 inv(3) nbs(2) app Eras follows_rule_swap
        by (cases t) (auto simp: apply_rule_def seen_from_def)
    qed
  next
    case Void
    then have "s = Era" "t = Era"
      by (cases s; cases t; simp)+
    then show ?thesis
      using void_follows [OF inv(1,2)] inv(3,4) res app by (auto simp: resolution_of_def apply_rule_def)
  qed
qed

text \<open>
  Resolving a border redex is the sequential rule of its two symbols, distributed (C5).  The two agents
  are live agents of the partitions that own the sides, facing each other with their principal ports.
  For every net in which these agents form an active pair with the neighbours the coordinator reads,
  without wires from the pair to itself, the step \<open>reduce_pair\<close> of the sequential engine gives exactly
  the net that the resolution describes: its reconnections, local wiring and pending borders are the new
  wires, the agents it asks for are the new agents, and nothing else changes.  The agents are asked
  from the workers that own the pair, and every pending border names the workers of its tokens.  All
  reconnections of an annihilation are sent to the worker of side A, also those whose ports belong to
  the other worker.  The border leaves the well-formed graph and is reported to both owners.
\<close>

theorem resolve_border_redex_correct:
  assumes "resolve_border_redex g parts b alloc calloc = Some (r, g', alloc', calloc')" "bg_inv g"
  shows "\<exists>st pa pb i j s t.
    bg_borders g b = Some st \<and> vec_get parts (bs_worker_a st) = Some pa \<and> vec_get parts (bs_worker_b st) = Some pb \<and>
    bs_side_a st = AgentPort i 0 \<and> bs_side_b st = AgentPort j 0 \<and> sym_at (p_subnet pa) i = Some s \<and> sym_at (p_subnet pb) j = Some t \<and>
    (\<forall>n result m. shows_redex g st pa pb i j s t n \<longrightarrow> reduce_pair i j n = Some (result, m) \<longrightarrow> (\<exists>ids. follows_rule ids r n i j m)) \<and>
    mset (concat (map cb_target_symbols (br_pending_commutations r))) = created_by s t \<and>
    map cb_worker (br_pending_commutations r) = batch_workers s t (bs_worker_a st) (bs_worker_b st) \<and> tokens_placed r \<and>
    map fst (br_worker_deltas r) = (if get_rule s t = Anni then [bs_worker_a st] else []) \<and>
    br_resolved_borders r = [(b, bs_worker_a st, bs_worker_b st)] \<and> br_new_borders r = [] \<and>
    bg_inv g' \<and> bg_borders g' = (bg_borders g)(b := None) \<and> bg_active_redexes g' = bg_active_redexes g - {b}"
proof (rule resolve_border_redexD [OF assms(1)])
  fix st pa pb i j s t
  assume st: "bg_borders g b = Some st"
    and owners: "vec_get parts (bs_worker_a st) = Some pa" "vec_get parts (bs_worker_b st) = Some pb"
      "bs_side_a st = AgentPort i 0" "bs_side_b st = AgentPort j 0" "sym_at (p_subnet pa) i = Some s" "sym_at (p_subnet pb) j = Some t"
    and res: "resolution_of g st pa pb i j alloc calloc s t = Some (r, alloc', calloc')" and g': "g' = snd (remove_border b g)"
  have "resolved_of st = [(b, bs_worker_a st, bs_worker_b st)]"
    using bg_invD(2) [OF assms(2) st] by (simp add: resolved_of_def)
  moreover have "bg_active_redexes g' = bg_active_redexes g - {b}" "bg_borders g' = (bg_borders g)(b := None)" "bg_inv g'"
    using bg_invD(4) [OF assms(2)] st bg_inv_remove_border [OF assms(2), of b] by (auto simp: g' remove_border_def)
  ultimately show ?thesis
    using st owners resolution_placed [OF res] resolution_follows [OF res]
    by (intro exI [of _ st] exI [of _ pa] exI [of _ pb] exI [of _ i] exI [of _ j] exI [of _ s] exI [of _ t]) simp
qed

text \<open>A constructor of worker 0 facing a duplicator of worker 1, in the net where they form an active pair.\<close>

definition facing_partition :: partition where
  "facing_partition = (partition_empty 1)\<lparr>
     p_subnet := net_new\<lparr>agents := [None, Some \<lparr>a_symbol = Dup, a_id = 1\<rparr>],
                          ports := [DISCONNECTED, DISCONNECTED, DISCONNECTED, FreePort 4, FreePort 2, FreePort 3], next_id := 2\<rparr>\<rparr>"

lemma facing_targets:
  "aux_target solo_partition 0 1 = FreePort 0" "aux_target solo_partition 0 2 = FreePort 1"
  "aux_target facing_partition 1 1 = FreePort 2" "aux_target facing_partition 1 2 = FreePort 3"
  by (simp_all add: aux_target_def solo_partition_def facing_partition_def get_target_def port_index_def PORTS_PER_SLOT_def)

lemma facing_shows:
  "shows_redex one_border (border_state_of 4 (AgentPort 0 0) (AgentPort 1 0) 0 1) solo_partition facing_partition 0 1 Con Dup (pair_net Con Dup)"
proof -
  have "live (pair_net Con Dup) x \<Longrightarrow> x < 2" for x
    by (auto simp: sym_at_def pair_net_def get_agent_def vec_get_def split: if_splits)
  then have "live (pair_net Con Dup) x \<Longrightarrow> x < SLOT_MARKER_BASE" for x
    by (fastforce simp: SLOT_MARKER_BASE_def)
  moreover have "tgt (pair_net Con Dup) 0 1 = FreePort 0" "tgt (pair_net Con Dup) 0 2 = FreePort 1"
      "tgt (pair_net Con Dup) 1 1 = FreePort 2" "tgt (pair_net Con Dup) 1 2 = FreePort 3"
    by (simp_all add: pair_net_def tgt_def eval_simps)
  ultimately show ?thesis
    using facing_targets by (simp add: shows_redex_def seen_from_def)
qed

theorem resolve_border_redex_correct_witness:
  "\<exists>r g' al' calloc' result m ids. resolve_border_redex one_border [solo_partition, facing_partition] 4 \<lparr>ba_next = 5\<rparr> commutation_alloc_new =
     Some (r, g', al', calloc') \<and> reduce_pair 0 1 (pair_net Con Dup) = Some (result, m) \<and> follows_rule ids r (pair_net Con Dup) 0 1 m \<and>
     map cb_worker (br_pending_commutations r) = [0, 1] \<and> bg_inv g' \<and> bg_borders g' 4 = None"
proof -
  let ?st = "border_state_of 4 (AgentPort 0 0) (AgentPort 1 0) 0 1"
  have b: "bg_borders one_border 4 = Some ?st" "bs_worker_a ?st = 0" "bs_worker_b ?st = 1" "bs_side_a ?st = AgentPort 0 0" "bs_side_b ?st = AgentPort 1 0"
    by (simp_all add: one_border_def)
  have v: "vec_get [solo_partition, facing_partition] 0 = Some solo_partition" "vec_get [solo_partition, facing_partition] 1 = Some facing_partition"
    by (simp_all add: vec_get_def)
  have agents: "assert_agent solo_partition (AgentPort 0 0) = Some (0, Con)" "assert_agent facing_partition (AgentPort 1 0) = Some (1, Dup)"
      "sym_at (p_subnet solo_partition) 0 = Some Con" "sym_at (p_subnet facing_partition) 1 = Some Dup"
    by (simp_all add: assert_agent_def materialize_agent_def solo_partition_def facing_partition_def get_agent_def vec_get_def sym_at_def)
  obtain r al' calloc' where "resolve_con_dup ?st solo_partition facing_partition 0 1 0 1 \<lparr>ba_next = 5\<rparr> commutation_alloc_new = Some (r, al', calloc')"
    by (simp add: resolve_con_dup_def commutation_alloc_next_def commutation_alloc_new_def emit_external_principal_def facing_targets [simplified]
        border_alloc_next_def)
  then have r: "resolve_border_redex one_border [solo_partition, facing_partition] 4 \<lparr>ba_next = 5\<rparr> commutation_alloc_new =
      Some (r, snd (remove_border 4 one_border), al', calloc')"
    by (simp add: resolve_border_redex_def b v agents del: One_nat_def)
  obtain m where m: "apply_rule Comm 0 1 (pair_net Con Dup) = Some m"
    using apply_rule_total [of "pair_net Con Dup" 0 1 Con Dup] by auto
  then have step: "reduce_pair 0 1 (pair_net Con Dup) = Some (Reduced Comm ConDup, m)"
    by (simp add: reduce_pair_def normalize_pair_def)
  have all: "(\<forall>n result m. shows_redex one_border ?st solo_partition facing_partition 0 1 Con Dup n \<longrightarrow> reduce_pair 0 1 n = Some (result, m) \<longrightarrow>
        (\<exists>ids. follows_rule ids r n 0 1 m)) \<and> map cb_worker (br_pending_commutations r) = [0, 1] \<and>
      bg_inv (snd (remove_border 4 one_border)) \<and> bg_borders (snd (remove_border 4 one_border)) 4 = None"
    using resolve_border_redex_correct [OF r one_border_inv] b v agents by (auto simp: batch_workers_def simp del: One_nat_def)
  then obtain ids where "follows_rule ids r (pair_net Con Dup) 0 1 m"
    using step facing_shows by blast
  then show ?thesis
    using r step all by (intro exI conjI) auto
qed

end
