(* ===== verification/Coordinator_Fsm.thy ===== *)
theory Coordinator_Fsm
  imports Messages "HOL-Library.Word"
begin

text \<open>
  The coordinator's state machines (\<open>coordinator.rs\<close>): the bulk-synchronous round of the push protocol
  with its membership events, the resolution of the dispatch mode, and the pull protocol.  Counters are
  \<open>u32\<close> words, so an increment wraps; logging text and wall-clock durations other than the timer's
  argument are left out.  Constructors that another machine already uses carry a \<open>C\<close>.
\<close>

section \<open>Data\<close>

datatype retained_slot = InitialSlot | LastAcked

datatype departure_kind = Timeout | ConnLost | LeaveAfter | LeaveUrgent

datatype timer_kind = InitialWait | JoinWindowMin | JoinWindowMax | Collect

definition timer_id :: "timer_kind \<Rightarrow> nat" where
  "timer_id k = (case k of InitialWait \<Rightarrow> 0 | JoinWindowMin \<Rightarrow> 1 | JoinWindowMax \<Rightarrow> 2 | Collect \<Rightarrow> 3)"

datatype coordinator_state =
    CInit | WaitingForWorkers | Partitioning | Dispatching | WaitingForResults | Merging | CheckTermination | CDone | CError
  | AcceptingMembershipChanges | SoloReducing
  | PullDispatchingFirst | PullAwaitingResults | PullGeneratingNext | PullSendingNoMoreWork | PullAwaitingFinalResults

datatype coordinator_event =
    ConfigLoaded
  | WorkerConnected worker_id
  | SplitComplete "partition list"
  | AllDispatched
  | PartitionReturned worker_id partition
  | PhaseTimeout worker_id
  | MergeComplete net bool
  | FatalError string
  | WorkerJoined worker_id
  | WorkerLeft worker_id leave_kind
  | WorkerConnectionLost worker_id
  | MembershipWindowClosed
  | SelfPartitionReduced worker_round_stats
  | SelfPartitionPanic string
  | InitialWaitTimeout
  | SoloReductionComplete
  | SoloReduceBatchComplete

datatype coordinator_action =
    BindListener string
  | CSendMessage worker_id message
  | InvokeSplit net nat
  | InvokeMergeAndReduce "partition list"
  | StartTimer nat nat
  | CancelTimer nat
  | CLogTransition coordinator_state coordinator_state
  | WriteOutput net
  | ShutdownAll
  | RegisterWorker worker_id
  | RemoveWorker worker_id
  | QueueWorkerForNextWindow worker_id
  | ReclaimPartition worker_id retained_slot
  | LogJoin worker_id
  | LogDeparture worker_id departure_kind
  | InvokeSplitAndDispatch "32 word"
  | SpawnSelfPartition partition
  | PollPendingConnections

record coordinator_context =
  cc_state :: coordinator_state
  cc_min_workers :: "32 word"
  cc_connected_workers :: "32 word"
  cc_bind :: string
  cc_partitions_received :: "32 word"
  cc_total_workers :: "32 word"
  cc_collected_partitions :: "partition list"
  cc_round :: "32 word"
  cc_net :: "net option"
  cc_next_worker_id :: "32 word"

definition coordinator_context_new :: "string \<Rightarrow> 32 word \<Rightarrow> bool \<Rightarrow> coordinator_context" where
  "coordinator_context_new addr min_workers hybrid_mode =
     \<lparr>cc_state = CInit, cc_min_workers = min_workers, cc_connected_workers = 0, cc_bind = addr,
      cc_partitions_received = 0, cc_total_workers = min_workers, cc_collected_partitions = [], cc_round = 0,
      cc_net = None, cc_next_worker_id = (if hybrid_mode then 1 else 0)\<rparr>"

text \<open>
  The bounded panic event.  Strings are byte lists, as in Rust; \<open>truncate\<close> panics (\<open>None\<close>) when the
  cut is inside a multi-byte character, that is, when the byte at the cut is a continuation byte.
\<close>

definition MAX_PANIC_PAYLOAD_BYTES :: nat where
  "MAX_PANIC_PAYLOAD_BYTES = 4096"

definition is_char_boundary :: "nat \<Rightarrow> string \<Rightarrow> bool" where
  "is_char_boundary k s \<longleftrightarrow> k = 0 \<or> k = length s \<or> (k < length s \<and> \<not> (128 \<le> (of_char (s ! k) :: nat) \<and> (of_char (s ! k) :: nat) < 192))"

definition string_truncate :: "nat \<Rightarrow> string \<Rightarrow> string option" where
  "string_truncate k s = (if k \<le> length s then if is_char_boundary k s then Some (take k s) else None else Some s)"

definition self_partition_panic :: "string \<Rightarrow> coordinator_event option" where
  "self_partition_panic msg =
     (if length msg > MAX_PANIC_PAYLOAD_BYTES
      then map_option (\<lambda>s. SelfPartitionPanic (s @ '' [truncated]'')) (string_truncate MAX_PANIC_PAYLOAD_BYTES msg)
      else Some (SelfPartitionPanic msg))"

section \<open>The round machine\<close>

definition active_round :: "coordinator_state \<Rightarrow> bool" where
  "active_round s \<longleftrightarrow> s \<in> {Partitioning, Dispatching, WaitingForResults, Merging}"

definition departure_of :: "leave_kind \<Rightarrow> departure_kind" where
  "departure_of k = (case k of AfterResult \<Rightarrow> LeaveAfter | Urgent \<Rightarrow> LeaveUrgent)"

definition on_worker_connected :: "coordinator_context \<Rightarrow> coordinator_context \<times> coordinator_action list" where
  "on_worker_connected c =
     (let c1 = c\<lparr>cc_connected_workers := cc_connected_workers c + 1\<rparr>
      in if cc_connected_workers c1 \<ge> cc_min_workers c1
         then (c1\<lparr>cc_total_workers := cc_connected_workers c1, cc_state := Partitioning, cc_net := None\<rparr>,
               (case cc_net c1 of Some n \<Rightarrow> [InvokeSplit n (unat (cc_connected_workers c1))] | None \<Rightarrow> []) @
               [CLogTransition (cc_state c) Partitioning])
         else (c1, [CLogTransition (cc_state c) (cc_state c)]))"

definition on_partition_returned :: "coordinator_context \<Rightarrow> partition \<Rightarrow> coordinator_context \<times> coordinator_action list" where
  "on_partition_returned c p =
     (let c1 = c\<lparr>cc_partitions_received := cc_partitions_received c + 1,
                 cc_collected_partitions := cc_collected_partitions c @ [p]\<rparr>
      in if cc_partitions_received c1 \<ge> cc_total_workers c1
         then (c1\<lparr>cc_state := Merging, cc_collected_partitions := []\<rparr>,
               [CancelTimer (timer_id Collect), InvokeMergeAndReduce (cc_collected_partitions c1),
                CLogTransition (cc_state c) Merging])
         else (c1, []))"

definition on_merge_complete :: "coordinator_context \<Rightarrow> net \<Rightarrow> bool \<Rightarrow> coordinator_context \<times> coordinator_action list" where
  "on_merge_complete c n is_normal_form =
     (if is_normal_form
      then (c\<lparr>cc_state := CDone\<rparr>,
            [CLogTransition (cc_state c) CheckTermination, WriteOutput n, ShutdownAll, CLogTransition CheckTermination CDone])
      else (c\<lparr>cc_round := cc_round c + 1, cc_state := Partitioning\<rparr>,
            [CLogTransition (cc_state c) CheckTermination, InvokeSplit n (unat (cc_total_workers c)),
             CLogTransition CheckTermination Partitioning]))"

definition to_error :: "coordinator_context \<Rightarrow> coordinator_context \<times> coordinator_action list" where
  "to_error c = (c\<lparr>cc_state := CError\<rparr>, [CLogTransition (cc_state c) CError, ShutdownAll])"

definition coordinator_transition ::
  "coordinator_context \<Rightarrow> coordinator_event \<Rightarrow> coordinator_context \<times> coordinator_action list" where
  "coordinator_transition c e =
     (case (cc_state c, e) of
        (CInit, ConfigLoaded) \<Rightarrow>
          (c\<lparr>cc_state := WaitingForWorkers\<rparr>, [BindListener (cc_bind c), CLogTransition CInit WaitingForWorkers])
      | (WaitingForWorkers, WorkerConnected w) \<Rightarrow> on_worker_connected c
      | (Partitioning, SplitComplete ps) \<Rightarrow>
          (c\<lparr>cc_state := Dispatching\<rparr>,
           map (\<lambda>(i, p). CSendMessage i (AssignPartition (unat (cc_round c)) p)) (List.enumerate 0 ps) @
           [CLogTransition Partitioning Dispatching])
      | (Dispatching, AllDispatched) \<Rightarrow>
          (c\<lparr>cc_state := WaitingForResults, cc_partitions_received := 0, cc_collected_partitions := []\<rparr>,
           [StartTimer (timer_id Collect) 600, CLogTransition Dispatching WaitingForResults])
      | (WaitingForResults, PartitionReturned w p) \<Rightarrow> on_partition_returned c p
      | (WaitingForResults, PhaseTimeout w) \<Rightarrow> to_error c
      | (Merging, MergeComplete n nf) \<Rightarrow> on_merge_complete c n nf
      | (s, FatalError msg) \<Rightarrow> to_error c
      | (s, WorkerJoined w) \<Rightarrow>
          if active_round s then (c, [QueueWorkerForNextWindow w, LogJoin w, CLogTransition s s]) else (c, [])
      | (s, WorkerLeft w k) \<Rightarrow>
          if active_round s then (c, [RemoveWorker w, LogDeparture w (departure_of k), CLogTransition s s]) else (c, [])
      | (s, MembershipWindowClosed) \<Rightarrow> if active_round s then (c, [CLogTransition s s]) else (c, [])
      | (s, e) \<Rightarrow> (c, []))"

section \<open>Dispatch mode\<close>

datatype dispatch_mode = Auto | Push | Pull

datatype resolved_dispatch_mode = RPush | RPull

definition resolve_dispatch_mode :: "dispatch_mode \<Rightarrow> nat \<Rightarrow> nat \<Rightarrow> resolved_dispatch_mode" where
  "resolve_dispatch_mode mode chunk_size num_workers =
     (case mode of Push \<Rightarrow> RPush | Pull \<Rightarrow> RPull | Auto \<Rightarrow> if chunk_size = u32_MAX then RPush else RPull)"

definition resolve_dispatch_mode_with_chunks :: "dispatch_mode \<Rightarrow> nat \<Rightarrow> nat \<Rightarrow> resolved_dispatch_mode" where
  "resolve_dispatch_mode_with_chunks mode estimated_chunks num_workers =
     (case mode of Push \<Rightarrow> RPush | Pull \<Rightarrow> RPull | Auto \<Rightarrow> if estimated_chunks \<le> num_workers then RPush else RPull)"

definition resolve_dispatch_mode_with_len_estimate :: "dispatch_mode \<Rightarrow> nat \<Rightarrow> nat \<Rightarrow> resolved_dispatch_mode" where
  "resolve_dispatch_mode_with_len_estimate mode len_estimate num_workers =
     (case mode of Push \<Rightarrow> RPush | Pull \<Rightarrow> RPull | Auto \<Rightarrow> if len_estimate > num_workers then RPull else RPush)"

section \<open>The pull machine\<close>

datatype pull_coordinator_state =
  DispatchingFirst | AwaitingResults | GeneratingNext | SendingNoMoreWork | AwaitingFinalResults | MergingResults

definition outer_state :: "pull_coordinator_state \<Rightarrow> coordinator_state" where
  "outer_state s =
     (case s of DispatchingFirst \<Rightarrow> PullDispatchingFirst | AwaitingResults \<Rightarrow> PullAwaitingResults
      | GeneratingNext \<Rightarrow> PullGeneratingNext | SendingNoMoreWork \<Rightarrow> PullSendingNoMoreWork
      | AwaitingFinalResults \<Rightarrow> PullAwaitingFinalResults | MergingResults \<Rightarrow> Merging)"

datatype pull_coordinator_event =
    FirstChunkDispatched
  | RequestWorkReceived worker_id
  | PartitionResultReceived worker_id
  | ChunkAllocatedAndDispatched
  | AllWorkersAckedNoMoreWork
  | AllFinalResultsReceived

datatype pull_coordinator_error =
    UnexpectedEvent pull_coordinator_event pull_coordinator_state
  | WorkerIdMismatch worker_id worker_id

record coordinator_pull_context =
  cp_state :: pull_coordinator_state
  cp_num_workers :: nat
  cp_stream_exhausted :: bool
  cp_workers_awaiting_no_more_work :: nat
  cp_pending_results :: "worker_id list"
  cp_expected_final_results :: nat
  cp_merge_triggered :: bool
  cp_results_consumed_for_merge :: nat

definition pull_context_new :: "nat \<Rightarrow> coordinator_pull_context" where
  "pull_context_new k =
     \<lparr>cp_state = DispatchingFirst, cp_num_workers = k, cp_stream_exhausted = False, cp_workers_awaiting_no_more_work = k,
      cp_pending_results = [], cp_expected_final_results = k, cp_merge_triggered = False, cp_results_consumed_for_merge = 0\<rparr>"

text \<open>The release build: an unexpected event is an error and leaves the context as it was.\<close>

definition pull_transition :: "coordinator_pull_context \<Rightarrow> pull_coordinator_event \<Rightarrow> pull_coordinator_error + coordinator_pull_context" where
  "pull_transition c e =
     (case (cp_state c, e) of
        (DispatchingFirst, FirstChunkDispatched) \<Rightarrow> Inr (c\<lparr>cp_state := AwaitingResults\<rparr>)
      | (AwaitingResults, PartitionResultReceived w) \<Rightarrow> Inr (c\<lparr>cp_pending_results := cp_pending_results c @ [w]\<rparr>)
      | (AwaitingResults, RequestWorkReceived w) \<Rightarrow>
          Inr (c\<lparr>cp_state := (if cp_stream_exhausted c then SendingNoMoreWork else GeneratingNext)\<rparr>)
      | (GeneratingNext, ChunkAllocatedAndDispatched) \<Rightarrow> Inr (c\<lparr>cp_state := AwaitingResults\<rparr>)
      | (SendingNoMoreWork, AllWorkersAckedNoMoreWork) \<Rightarrow> Inr (c\<lparr>cp_state := AwaitingFinalResults\<rparr>)
      | (AwaitingFinalResults, AllFinalResultsReceived) \<Rightarrow>
          Inr (c\<lparr>cp_merge_triggered := True, cp_results_consumed_for_merge := length (cp_pending_results c),
                 cp_state := MergingResults\<rparr>)
      | (s, e) \<Rightarrow> Inl (UnexpectedEvent e s))"

definition pull_request_work :: "coordinator_pull_context \<Rightarrow> worker_id \<Rightarrow> worker_id \<Rightarrow> pull_coordinator_error + coordinator_pull_context" where
  "pull_request_work c body connection =
     (if body \<noteq> connection then Inl (WorkerIdMismatch body connection) else pull_transition c (RequestWorkReceived body))"

end
