(* ===== verification/Coordinator_Props.thy ===== *)
theory Coordinator_Props
  imports Coordinator_Fsm
begin

text \<open>
  What the coordinator guarantees: an audit log without gaps, a barrier that merges exactly one list of
  as many partitions as there are workers, rounds that complete under every interleaving with
  membership events, and a pull machine whose merge consumes exactly the buffered results.
\<close>

section \<open>The invariant of every run\<close>

definition coordinator_log :: "coordinator_action \<Rightarrow> (coordinator_state \<times> coordinator_state) option" where
  "coordinator_log a = (case a of CLogTransition x y \<Rightarrow> Some (x, y) | _ \<Rightarrow> None)"

text \<open>The number of workers a run waits for: at least one connection is needed even for a minimum of zero.\<close>

definition quorum :: "coordinator_context \<Rightarrow> nat" where
  "quorum c = max 1 (unat (cc_min_workers c))"

definition coord_inv :: "coordinator_context \<Rightarrow> bool" where
  "coord_inv c \<longleftrightarrow>
     cc_state c \<in> {CInit, WaitingForWorkers, Partitioning, Dispatching, WaitingForResults, Merging, CDone, CError} \<and>
     (cc_state c \<in> {CInit, WaitingForWorkers} \<longrightarrow> unat (cc_connected_workers c) < quorum c) \<and>
     (active_round (cc_state c) \<longrightarrow> unat (cc_total_workers c) = quorum c) \<and>
     (cc_state c = WaitingForResults \<longrightarrow>
        length (cc_collected_partitions c) < quorum c \<and> unat (cc_partitions_received c) = length (cc_collected_partitions c))"

lemmas coordinator_transition_simps =
  coordinator_transition_def on_worker_connected_def on_partition_returned_def on_merge_complete_def to_error_def Let_def

lemma unat_u32: "unat (w :: 32 word) < 2 ^ 32"
  using unsigned_less [of w, where ?'a = nat] by simp

lemma quorum_le: "quorum c < 2 ^ 32"
  using unat_u32 [of "cc_min_workers c"] by (simp add: quorum_def)

lemma unat_Suc: "unat w < k \<Longrightarrow> k < 2 ^ 32 \<Longrightarrow> unat (w + 1) = unat (w :: 32 word) + 1"
  by (simp add: unat_word_ariths)

lemma connected_inv:
  assumes "coord_inv c" "cc_state c = WaitingForWorkers"
  shows "coord_inv (fst (on_worker_connected c))"
proof -
  have "unat (cc_connected_workers c) < quorum c"
    using assms by (simp add: coord_inv_def)
  then have "unat (cc_connected_workers c + 1) = unat (cc_connected_workers c) + 1"
    using quorum_le unat_Suc by blast
  then show ?thesis
    using assms \<open>unat (cc_connected_workers c) < quorum c\<close>
    by (auto simp: on_worker_connected_def Let_def coord_inv_def quorum_def active_round_def word_le_nat_alt)
qed

text \<open>The barrier: the step that leaves the collecting state hands over all partitions, in order of arrival.\<close>

lemma returned_step:
  assumes "unat (cc_partitions_received c) = length (cc_collected_partitions c)"
    and "length (cc_collected_partitions c) < unat (cc_total_workers c)"
  shows "on_partition_returned c p =
    (if Suc (length (cc_collected_partitions c)) < unat (cc_total_workers c)
     then (c\<lparr>cc_partitions_received := cc_partitions_received c + 1, cc_collected_partitions := cc_collected_partitions c @ [p]\<rparr>, [])
     else (c\<lparr>cc_partitions_received := cc_partitions_received c + 1, cc_collected_partitions := [], cc_state := Merging\<rparr>,
           [CancelTimer (timer_id Collect), InvokeMergeAndReduce (cc_collected_partitions c @ [p]),
            CLogTransition (cc_state c) Merging]))"
    "unat (cc_partitions_received c + 1) = Suc (length (cc_collected_partitions c))"
proof -
  have "unat (cc_total_workers c) < 2 ^ 32"
    by (rule unat_u32)
  then show step: "unat (cc_partitions_received c + 1) = Suc (length (cc_collected_partitions c))"
    using assms unat_Suc [of "cc_partitions_received c" "unat (cc_total_workers c)"] by simp
  show "on_partition_returned c p =
    (if Suc (length (cc_collected_partitions c)) < unat (cc_total_workers c)
     then (c\<lparr>cc_partitions_received := cc_partitions_received c + 1, cc_collected_partitions := cc_collected_partitions c @ [p]\<rparr>, [])
     else (c\<lparr>cc_partitions_received := cc_partitions_received c + 1, cc_collected_partitions := [], cc_state := Merging\<rparr>,
           [CancelTimer (timer_id Collect), InvokeMergeAndReduce (cc_collected_partitions c @ [p]),
            CLogTransition (cc_state c) Merging]))"
    unfolding on_partition_returned_def Let_def using step by (auto simp: word_le_nat_alt)
qed

lemma returned_inv:
  assumes "coord_inv c" "cc_state c = WaitingForResults"
  shows "coord_inv (fst (on_partition_returned c p))"
proof -
  have *: "unat (cc_partitions_received c) = length (cc_collected_partitions c)"
      "length (cc_collected_partitions c) < unat (cc_total_workers c)" "unat (cc_total_workers c) = quorum c"
    using assms by (simp_all add: coord_inv_def active_round_def)
  show ?thesis
    using returned_step [OF *(1,2)] *(3) assms by (auto simp: coord_inv_def active_round_def quorum_def)
qed

lemma coordinator_step_inv:
  assumes "coord_inv c"
  shows "coord_inv (fst (coordinator_transition c e))"
proof -
  consider w where "cc_state c = WaitingForWorkers" "e = WorkerConnected w"
    | w p where "cc_state c = WaitingForResults" "e = PartitionReturned w p"
    | "\<not> (\<exists>w. cc_state c = WaitingForWorkers \<and> e = WorkerConnected w) \<and> \<not> (\<exists>w p. cc_state c = WaitingForResults \<and> e = PartitionReturned w p)"
    by blast
  then show ?thesis
  proof cases
    case 1
    then show ?thesis
      using connected_inv [OF assms] by (simp add: coordinator_transition_def)
  next
    case 2
    then show ?thesis
      using returned_inv [OF assms] by (simp add: coordinator_transition_def)
  next
    case 3
    then show ?thesis
      using assms by (cases "cc_state c"; cases e)
        (simp_all add: coordinator_transition_def on_merge_complete_def to_error_def coord_inv_def active_round_def quorum_def)
  qed
qed

lemma map_filter_app: "List.map_filter f (xs @ ys) = List.map_filter f xs @ List.map_filter f ys"
  by (simp add: map_filter_def)

lemma coordinator_step_log:
  "log_path (cc_state c) (List.map_filter coordinator_log (snd (coordinator_transition c e))) (cc_state (fst (coordinator_transition c e)))"
proof -
  have send: "List.map_filter coordinator_log (map (\<lambda>(i, p). CSendMessage i (m i p)) xs) = []" for m and xs :: "(nat \<times> partition) list"
    by (induction xs) (auto simp: map_filter_simps coordinator_log_def)
  show ?thesis
    by (cases "cc_state c"; cases e)
       (auto simp: coordinator_transition_simps coordinator_log_def map_filter_simps send map_filter_app
          split: option.split)
qed

interpretation coordinator: logged_fsm coordinator_transition coord_inv cc_state coordinator_log
  by unfold_locales (auto intro: coordinator_step_inv coordinator_step_log)

section \<open>Barrier and output\<close>

lemma run_Cons:
  "fst (run_fsm step c (e # es)) = fst (run_fsm step (fst (step c e)) es)"
  "snd (run_fsm step c (e # es)) = snd (step c e) @ snd (run_fsm step (fst (step c e)) es)"
  by (simp_all split: prod.split)

definition merged_by :: "coordinator_action list \<Rightarrow> partition list list" where
  "merged_by acts = List.map_filter (\<lambda>a. case a of InvokeMergeAndReduce ps \<Rightarrow> Some ps | _ \<Rightarrow> None) acts"

definition written_by :: "coordinator_action list \<Rightarrow> net list" where
  "written_by acts = List.map_filter (\<lambda>a. case a of WriteOutput n \<Rightarrow> Some n | _ \<Rightarrow> None) acts"

lemma merged_by_simps [simp]:
  "merged_by [] = []" "merged_by (as @ bs) = merged_by as @ merged_by bs"
  "merged_by (a # as) = (case a of InvokeMergeAndReduce ps \<Rightarrow> ps # merged_by as | _ \<Rightarrow> merged_by as)"
  by (simp_all add: merged_by_def map_filter_app map_filter_simps split: coordinator_action.split)

lemma written_by_simps [simp]:
  "written_by [] = []" "written_by (as @ bs) = written_by as @ written_by bs"
  "written_by (a # as) = (case a of WriteOutput n \<Rightarrow> n # written_by as | _ \<Rightarrow> written_by as)"
  by (simp_all add: written_by_def map_filter_app map_filter_simps split: coordinator_action.split)

lemma sends_project [simp]:
  "merged_by (map (\<lambda>(i, p). CSendMessage i (m i p)) xs) = []" "written_by (map (\<lambda>(i, p). CSendMessage i (m i p)) xs) = []"
  by (induction xs) auto

lemma merged_step:
  assumes "coord_inv c" "ps \<in> set (merged_by (snd (coordinator_transition c e)))"
  shows "length ps = quorum c"
proof -
  obtain w p where at: "cc_state c = WaitingForResults" "e = PartitionReturned w p"
    using assms(2) by (cases "cc_state c"; cases e)
      (auto simp: coordinator_transition_def on_worker_connected_def on_merge_complete_def to_error_def Let_def
         split: option.splits if_splits)
  then have *: "unat (cc_partitions_received c) = length (cc_collected_partitions c)"
      "length (cc_collected_partitions c) < unat (cc_total_workers c)" "unat (cc_total_workers c) = quorum c"
    using assms(1) by (simp_all add: coord_inv_def active_round_def)
  show ?thesis
    using assms(2) returned_step(1) [OF *(1,2), of p] *(2,3) at
    by (auto simp: coordinator_transition_def split: if_splits)
qed

lemma quorum_step: "quorum (fst (coordinator_transition c e)) = quorum c"
  by (cases "cc_state c"; cases e) (auto simp: coordinator_transition_simps quorum_def)

lemma merged_run: "coord_inv c \<Longrightarrow> ps \<in> set (merged_by (snd (run_fsm coordinator_transition c es))) \<Longrightarrow> length ps = quorum c"
proof (induction es arbitrary: c)
  case (Cons e es)
  obtain c1 as where 1: "coordinator_transition c e = (c1, as)"
    by (cases "coordinator_transition c e")
  obtain c2 bs where 2: "run_fsm coordinator_transition c1 es = (c2, bs)"
    by (cases "run_fsm coordinator_transition c1 es")
  show ?case
    using Cons.IH [of c1] Cons.prems merged_step [of c ps e] coordinator_step_inv [of c e] quorum_step [of c e] 1 2 by auto
qed simp

definition finished :: "coordinator_context \<Rightarrow> bool" where
  "finished c \<longleftrightarrow> cc_state c \<in> {CDone, CError}"

lemma finished_step:
  assumes "finished c"
  shows "finished (fst (coordinator_transition c e))" "written_by (snd (coordinator_transition c e)) = []"
    "cc_state (fst (coordinator_transition c e)) = CDone \<Longrightarrow> cc_state c = CDone"
proof -
  consider "cc_state c = CDone" | "cc_state c = CError"
    using assms by (auto simp: finished_def)
  then have "finished (fst (coordinator_transition c e)) \<and> written_by (snd (coordinator_transition c e)) = [] \<and>
      (cc_state (fst (coordinator_transition c e)) = CDone \<longrightarrow> cc_state c = CDone)"
    by cases (cases e; simp add: coordinator_transition_def to_error_def finished_def active_round_def)+
  then show "finished (fst (coordinator_transition c e))" "written_by (snd (coordinator_transition c e)) = []"
    "cc_state (fst (coordinator_transition c e)) = CDone \<Longrightarrow> cc_state c = CDone"
    by simp_all
qed

lemma written_step:
  assumes "\<not> finished c"
  shows "length (written_by (snd (coordinator_transition c e))) = (if cc_state (fst (coordinator_transition c e)) = CDone then 1 else 0)"
  using assms by (cases "cc_state c"; cases e) (simp_all add: coordinator_transition_simps finished_def split: option.split)

lemma finished_run:
  assumes "finished c"
  shows "written_by (snd (run_fsm coordinator_transition c es)) = [] \<and>
    (cc_state (fst (run_fsm coordinator_transition c es)) = CDone \<longrightarrow> cc_state c = CDone)"
  using assms
proof (induction es arbitrary: c)
  case (Cons e es)
  show ?case
    using finished_step [OF Cons.prems, of e] Cons.IH [OF finished_step(1) [OF Cons.prems], of e]
    by (simp only: run_Cons written_by_simps append_Nil) blast
qed simp

lemma written_run:
  "length (written_by (snd (run_fsm coordinator_transition c es))) \<le> 1 \<and>
   (\<not> finished c \<longrightarrow> cc_state (fst (run_fsm coordinator_transition c es)) = CDone \<longrightarrow>
     length (written_by (snd (run_fsm coordinator_transition c es))) = 1)"
proof (induction es arbitrary: c)
  case (Cons e es)
  let ?c1 = "fst (coordinator_transition c e)"
  consider "finished c" | "\<not> finished c" "finished ?c1" | "\<not> finished c" "\<not> finished ?c1"
    by blast
  then show ?case
  proof cases
    case 1
    then show ?thesis
      using finished_run [of c "e # es"] by (simp del: run_fsm.simps)
  next
    case 2
    then show ?thesis
      using finished_run [of ?c1 es] written_step [of c e] by (auto simp: run_Cons simp del: run_fsm.simps split: if_splits)
  next
    case 3
    then show ?thesis
      using Cons.IH [of ?c1] written_step [of c e] by (simp add: run_Cons finished_def del: run_fsm.simps)
  qed
qed (simp add: finished_def)

text \<open>
  The barrier of the coordinator (C30).  In every run from the initial context, whatever events arrive
  in whatever order, the log leads without a gap from the initial to the current state; every merge is
  invoked on exactly as many partitions as the quorum demands; at most one output is written, exactly
  one when the run is done; and the machine stays in the states of the plain loop.  The last clause
  records what the code does, not what is documented: the states \<open>SoloReducing\<close> and
  \<open>AcceptingMembershipChanges\<close> have documented entries, such as the timeout of the initial wait, for
  which the machine has no transition.
\<close>

theorem coordinator_run_safe:
  assumes "run_fsm coordinator_transition (coordinator_context_new addr k hybrid) es = (c, acts)"
  shows "log_path CInit (List.map_filter coordinator_log acts) (cc_state c) \<and>
    (\<forall>ps \<in> set (merged_by acts). length ps = max 1 (unat k)) \<and>
    length (written_by acts) \<le> 1 \<and> (cc_state c = CDone \<longrightarrow> length (written_by acts) = 1) \<and>
    cc_state c \<in> {CInit, WaitingForWorkers, Partitioning, Dispatching, WaitingForResults, Merging, CDone, CError}"
proof (intro conjI)
  let ?c0 = "coordinator_context_new addr k hybrid"
  have inv: "coord_inv ?c0" and st: "cc_state ?c0 = CInit" "quorum ?c0 = max 1 (unat k)"
    by (simp_all add: coordinator_context_new_def coord_inv_def active_round_def quorum_def)
  show "log_path CInit (List.map_filter coordinator_log acts) (cc_state c)"
    using coordinator.run_log [of ?c0 es] assms st by simp
  show "\<forall>ps \<in> set (merged_by acts). length ps = max 1 (unat k)"
    using merged_run [OF inv, of _ es] assms st by auto
  show "length (written_by acts) \<le> 1" "cc_state c = CDone \<longrightarrow> length (written_by acts) = 1"
    using written_run [of ?c0 es] assms st by (auto simp: finished_def)
  show "cc_state c \<in> {CInit, WaitingForWorkers, Partitioning, Dispatching, WaitingForResults, Merging, CDone, CError}"
    using coordinator.run_inv [OF inv, of es] assms by (simp add: coord_inv_def)
qed

section \<open>Rounds complete under every interleaving\<close>

text \<open>Membership events: the machine observes them in every state and leaves the context as it is.\<close>

definition background :: "coordinator_event \<Rightarrow> bool" where
  "background e = (case e of WorkerJoined w \<Rightarrow> True | WorkerLeft w k \<Rightarrow> True | MembershipWindowClosed \<Rightarrow> True | _ \<Rightarrow> False)"

text \<open>
  The events for which the machine has no transition in any state (the wildcard arm of
  \<open>transition\<close>): a lost connection, the outcome of the coordinator's own partition, the timeout of the
  initial wait and the solo reduction.  The documentation of the events and the transition table of
  the specification give each of them a transition, among them to the error state after a panic.
\<close>

definition unwired :: "coordinator_event \<Rightarrow> bool" where
  "unwired e =
     (case e of WorkerConnectionLost w \<Rightarrow> True | SelfPartitionReduced s \<Rightarrow> True | SelfPartitionPanic m \<Rightarrow> True
      | InitialWaitTimeout \<Rightarrow> True | SoloReductionComplete \<Rightarrow> True | SoloReduceBatchComplete \<Rightarrow> True | _ \<Rightarrow> False)"

lemma unwired_event_ignored: "unwired e \<Longrightarrow> coordinator_transition c e = (c, [])"
  by (cases e; cases "cc_state c"; simp add: unwired_def coordinator_transition_def active_round_def)

text \<open>The actions that move data: split, merge, output, shutdown.\<close>

definition essential :: "coordinator_action \<Rightarrow> bool" where
  "essential a =
     (case a of InvokeSplit n k \<Rightarrow> True | InvokeMergeAndReduce ps \<Rightarrow> True | WriteOutput n \<Rightarrow> True | ShutdownAll \<Rightarrow> True | _ \<Rightarrow> False)"

lemma background_step:
  assumes "background e"
  shows "fst (coordinator_transition c e) = c" "filter essential (snd (coordinator_transition c e)) = []"
  using assms by (cases e; cases "cc_state c"; simp add: background_def coordinator_transition_def active_round_def essential_def)+

lemma background_run:
  "fst (run_fsm coordinator_transition c es) = fst (run_fsm coordinator_transition c (filter (\<lambda>e. \<not> background e) es)) \<and>
   filter essential (snd (run_fsm coordinator_transition c es)) =
     filter essential (snd (run_fsm coordinator_transition c (filter (\<lambda>e. \<not> background e) es)))"
proof (induction es arbitrary: c)
  case (Cons e es)
  show ?case
    using Cons.IH [of c] Cons.IH [of "fst (coordinator_transition c e)"] background_step [of e c]
    by (cases "background e") (simp_all only: filter.simps run_Cons if_True if_False not_True_eq_False not_False_eq_True filter_append append_Nil)
qed simp

text \<open>One round as the runtime drives it: the split, the dispatch, the returns, the merge.\<close>

type_synonym round_data = "partition list \<times> (worker_id \<times> partition) list \<times> net"

definition round_events :: "bool \<Rightarrow> round_data \<Rightarrow> coordinator_event list" where
  "round_events nf r =
     (case r of (ps, returns, n) \<Rightarrow>
        SplitComplete ps # AllDispatched # map (\<lambda>(w, p). PartitionReturned w p) returns @ [MergeComplete n nf])"

definition runs_to :: "coordinator_context \<Rightarrow> coordinator_event list \<Rightarrow> coordinator_context \<Rightarrow> coordinator_action list \<Rightarrow> bool" where
  "runs_to c es c' acts \<longleftrightarrow>
     fst (run_fsm coordinator_transition c es) = c' \<and> filter essential (snd (run_fsm coordinator_transition c es)) = acts"

lemma runs_to_Nil [simp]: "runs_to c [] c' acts \<longleftrightarrow> c' = c \<and> acts = []"
  by (auto simp: runs_to_def)

lemma runs_to_Cons:
  "runs_to c (e # es) c' acts \<longleftrightarrow>
     (\<exists>bs. acts = filter essential (snd (coordinator_transition c e)) @ bs \<and> runs_to (fst (coordinator_transition c e)) es c' bs)"
  unfolding runs_to_def run_Cons by auto

lemma runs_to_append:
  assumes "runs_to c es c1 as" "runs_to c1 fs c2 bs"
  shows "runs_to c (es @ fs) c2 (as @ bs)"
  using assms by (induction es arbitrary: c as) (auto simp: runs_to_Cons)

text \<open>The collecting phase: the barrier closes with the last return.\<close>

lemma collect_run:
  assumes "cc_state c = WaitingForResults" "unat (cc_partitions_received c) = length (cc_collected_partitions c)"
    and "length (cc_collected_partitions c) + length returns = unat (cc_total_workers c)" "returns \<noteq> []"
  shows "\<exists>k. runs_to c (map (\<lambda>(w, p). PartitionReturned w p) returns)
    (c\<lparr>cc_state := Merging, cc_collected_partitions := [], cc_partitions_received := k\<rparr>)
    [InvokeMergeAndReduce (cc_collected_partitions c @ map snd returns)]"
  using assms
proof (induction returns arbitrary: c)
  case (Cons r returns)
  obtain w p where r: "r = (w, p)"
    by (cases r)
  note step = returned_step(1) [OF Cons.prems(2), of p] returned_step(2) [OF Cons.prems(2)]
  show ?case
  proof (cases "returns = []")
    case True
    then show ?thesis
      using step Cons.prems r
      by (auto simp: runs_to_Cons coordinator_transition_def essential_def intro!: exI [of _ "cc_partitions_received c + 1"])
  next
    case False
    let ?c1 = "c\<lparr>cc_partitions_received := cc_partitions_received c + 1, cc_collected_partitions := cc_collected_partitions c @ [p]\<rparr>"
    have "Suc (length (cc_collected_partitions c)) < unat (cc_total_workers c)"
      using Cons.prems(3) False by (cases returns) auto
    then have one: "coordinator_transition c (PartitionReturned w p) = (?c1, [])"
      using step Cons.prems(1) by (simp add: coordinator_transition_def)
    have "unat (cc_partitions_received c + 1) = Suc (length (cc_collected_partitions c))"
      using step(2) Cons.prems(3) by simp
    then obtain k where "runs_to ?c1 (map (\<lambda>(w, p). PartitionReturned w p) returns)
        (?c1\<lparr>cc_state := Merging, cc_collected_partitions := [], cc_partitions_received := k\<rparr>)
        [InvokeMergeAndReduce ((cc_collected_partitions c @ [p]) @ map snd returns)]"
      using Cons.IH [of ?c1] Cons.prems(1,3) False by auto
    then show ?thesis
      using one r by (auto simp: runs_to_Cons)
  qed
qed simp

lemma round_run:
  assumes "cc_state c = Partitioning" "0 < unat (cc_total_workers c)" "length returns = unat (cc_total_workers c)"
  shows "\<exists>k. runs_to c (round_events nf (ps, returns, n))
    (c\<lparr>cc_state := (if nf then CDone else Partitioning), cc_round := (if nf then cc_round c else cc_round c + 1),
       cc_collected_partitions := [], cc_partitions_received := k\<rparr>)
    (InvokeMergeAndReduce (map snd returns) #
     (if nf then [WriteOutput n, ShutdownAll] else [InvokeSplit n (unat (cc_total_workers c))]))"
proof -
  let ?c2 = "c\<lparr>cc_state := WaitingForResults, cc_partitions_received := 0, cc_collected_partitions := []\<rparr>"
  have sends: "filter essential (map (\<lambda>(i, p). CSendMessage i (m i p)) xs) = []" for m and xs :: "(nat \<times> partition) list"
    by (induction xs) (auto simp: essential_def)
  have "runs_to c [SplitComplete ps, AllDispatched] ?c2 []"
    using assms(1) by (simp add: runs_to_Cons coordinator_transition_def sends) (simp add: essential_def)
  moreover have "returns \<noteq> []"
    using assms(2,3) by auto
  moreover from this obtain k where "runs_to ?c2 (map (\<lambda>(w, p). PartitionReturned w p) returns)
      (?c2\<lparr>cc_state := Merging, cc_collected_partitions := [], cc_partitions_received := k\<rparr>)
      [InvokeMergeAndReduce (map snd returns)]"
    using collect_run [of ?c2 returns] assms by auto
  moreover have "runs_to (?c2\<lparr>cc_state := Merging, cc_collected_partitions := [], cc_partitions_received := k\<rparr>) [MergeComplete n nf]
      (c\<lparr>cc_state := (if nf then CDone else Partitioning), cc_round := (if nf then cc_round c else cc_round c + 1),
         cc_collected_partitions := [], cc_partitions_received := k\<rparr>)
      (if nf then [WriteOutput n, ShutdownAll] else [InvokeSplit n (unat (cc_total_workers c))])"
    by (simp add: runs_to_Cons coordinator_transition_def on_merge_complete_def essential_def)
  ultimately have "runs_to c ([SplitComplete ps, AllDispatched] @ map (\<lambda>(w, p). PartitionReturned w p) returns @ [MergeComplete n nf])
    (c\<lparr>cc_state := (if nf then CDone else Partitioning), cc_round := (if nf then cc_round c else cc_round c + 1),
       cc_collected_partitions := [], cc_partitions_received := k\<rparr>)
    ([] @ [InvokeMergeAndReduce (map snd returns)] @ (if nf then [WriteOutput n, ShutdownAll] else [InvokeSplit n (unat (cc_total_workers c))]))"
    by (intro runs_to_append)
  then show ?thesis
    by (auto simp: round_events_def)
qed

lemma rounds_run:
  assumes "cc_state c = Partitioning" "0 < unat (cc_total_workers c)"
    and "\<forall>(ps, returns, n) \<in> set rounds. length returns = unat (cc_total_workers c)"
  shows "\<exists>c'. runs_to c (concat (map (round_events False) rounds)) c'
      (concat (map (\<lambda>(ps, returns, n). [InvokeMergeAndReduce (map snd returns), InvokeSplit n (unat (cc_total_workers c))]) rounds)) \<and>
    cc_state c' = Partitioning \<and> cc_total_workers c' = cc_total_workers c \<and> cc_round c' = cc_round c + of_nat (length rounds)"
  using assms
proof (induction rounds arbitrary: c)
  case (Cons r rounds)
  obtain ps returns n where r: "r = (ps, returns, n)"
    by (cases r) auto
  have "length returns = unat (cc_total_workers c)"
    using Cons.prems(3) r by simp
  from round_run [OF Cons.prems(1,2) this, of False ps n] obtain c1 where
    one: "runs_to c (round_events False r) c1 [InvokeMergeAndReduce (map snd returns), InvokeSplit n (unat (cc_total_workers c))]"
      "cc_state c1 = Partitioning" "cc_total_workers c1 = cc_total_workers c" "cc_round c1 = cc_round c + 1"
    unfolding r by fastforce
  then obtain c' where "runs_to c1 (concat (map (round_events False) rounds)) c'
      (concat (map (\<lambda>(ps, returns, n). [InvokeMergeAndReduce (map snd returns), InvokeSplit n (unat (cc_total_workers c))]) rounds))"
      "cc_state c' = Partitioning" "cc_total_workers c' = cc_total_workers c" "cc_round c' = cc_round c + 1 + of_nat (length rounds)"
    using Cons.IH [of c1] Cons.prems(2,3) by auto
  then show ?case
    using runs_to_append [OF one(1)] r by (auto simp: ac_simps)
qed simp

lemma connect_run:
  assumes "cc_state c = WaitingForWorkers" "unat (cc_connected_workers c) + length ws = quorum c" "ws \<noteq> []"
  shows "\<exists>x. unat x = quorum c \<and> runs_to c (map WorkerConnected ws)
    (c\<lparr>cc_state := Partitioning, cc_connected_workers := x, cc_total_workers := x, cc_net := None\<rparr>)
    (case cc_net c of Some n \<Rightarrow> [InvokeSplit n (quorum c)] | None \<Rightarrow> [])"
  using assms
proof (induction ws arbitrary: c)
  case (Cons w ws)
  have "unat (cc_connected_workers c) < quorum c"
    using Cons.prems(2) by simp
  then have inc: "unat (cc_connected_workers c + 1) = unat (cc_connected_workers c) + 1"
    using quorum_le unat_Suc by blast
  show ?case
  proof (cases "ws = []")
    case True
    then have "unat (cc_connected_workers c + 1) = quorum c" "cc_connected_workers c + 1 \<ge> cc_min_workers c"
      using inc Cons.prems(2) by (auto simp: quorum_def word_le_nat_alt)
    then show ?thesis
      using True Cons.prems(1) inc
      by (auto simp: runs_to_Cons coordinator_transition_def on_worker_connected_def essential_def Let_def
          split: option.split intro!: exI [of _ "cc_connected_workers c + 1"])
  next
    case False
    then have "\<not> cc_connected_workers c + 1 \<ge> cc_min_workers c"
      using inc Cons.prems(2) by (cases ws) (auto simp: quorum_def word_le_nat_alt)
    then have "coordinator_transition c (WorkerConnected w) =
        (c\<lparr>cc_connected_workers := cc_connected_workers c + 1\<rparr>, [CLogTransition WaitingForWorkers WaitingForWorkers])"
      using Cons.prems(1) by (simp add: coordinator_transition_def on_worker_connected_def)
    moreover have "quorum (c\<lparr>cc_connected_workers := cc_connected_workers c + 1\<rparr>) = quorum c"
      by (simp add: quorum_def)
    ultimately show ?thesis
      using Cons.IH [of "c\<lparr>cc_connected_workers := cc_connected_workers c + 1\<rparr>"] Cons.prems False inc
      by (auto simp: runs_to_Cons essential_def cong: option.case_cong)
  qed
qed simp

text \<open>
  The coordinator runs the bulk-synchronous loop to completion (C3).  Given a net and a quorum of
  workers, for every sequence of rounds that the runtime drives, with workers joining or announcing
  their departure and membership windows closing anywhere in between, the machine ends in the final
  state after the round whose merge is in normal form, provided every round returns as many partitions
  as the quorum has workers; its splits, merges, output and shutdown are exactly those of the loop, each merge receiving the
  returned partitions in order of arrival; and the round counter has counted the rounds.
\<close>

theorem coordinator_completes:
  assumes "filter (\<lambda>e. \<not> background e) es =
      ConfigLoaded # map WorkerConnected ws @ concat (map (round_events False) rounds) @ round_events True (ps, returns, n)"
    and "length ws = max 1 (unat k)" "length returns = length ws"
    and "\<forall>(ps', returns', n') \<in> set rounds. length returns' = length ws"
    and "run_fsm coordinator_transition ((coordinator_context_new addr k hybrid)\<lparr>cc_net := Some n0\<rparr>) es = (c, acts)"
  shows "cc_state c = CDone \<and> cc_round c = of_nat (length rounds) \<and>
    filter essential acts =
      InvokeSplit n0 (length ws) #
      concat (map (\<lambda>(ps', returns', n'). [InvokeMergeAndReduce (map snd returns'), InvokeSplit n' (length ws)]) rounds) @
      [InvokeMergeAndReduce (map snd returns), WriteOutput n, ShutdownAll]"
proof -
  let ?c0 = "(coordinator_context_new addr k hybrid)\<lparr>cc_net := Some n0\<rparr>"
  let ?c1 = "?c0\<lparr>cc_state := WaitingForWorkers\<rparr>"
  let ?merge = "\<lambda>q. concat (map (\<lambda>(ps', returns', n'). [InvokeMergeAndReduce (map snd returns'), InvokeSplit n' q]) rounds)"
  have q: "quorum ?c1 = length ws" and ne: "ws \<noteq> []"
    using assms(2) by (auto simp: quorum_def coordinator_context_new_def)
  have r0: "runs_to ?c0 [ConfigLoaded] ?c1 []"
    by (simp add: runs_to_Cons coordinator_transition_def coordinator_context_new_def essential_def)
  obtain x where x: "unat x = length ws" and r1: "runs_to ?c1 (map WorkerConnected ws)
      (?c1\<lparr>cc_state := Partitioning, cc_connected_workers := x, cc_total_workers := x, cc_net := None\<rparr>) [InvokeSplit n0 (length ws)]"
    using connect_run [of ?c1 ws] q ne by (auto simp: coordinator_context_new_def)
  define c2 where "c2 = ?c1\<lparr>cc_state := Partitioning, cc_connected_workers := x, cc_total_workers := x, cc_net := None\<rparr>"
  have c2: "cc_state c2 = Partitioning" "unat (cc_total_workers c2) = length ws" "cc_round c2 = 0"
    by (simp_all add: c2_def x coordinator_context_new_def)
  obtain c3 where r2: "runs_to c2 (concat (map (round_events False) rounds)) c3 (?merge (length ws))"
    and c3: "cc_state c3 = Partitioning" "unat (cc_total_workers c3) = length ws" "cc_round c3 = of_nat (length rounds)"
    using rounds_run [of c2 rounds] c2 ne assms(4) by auto
  obtain c4 where r3: "runs_to c3 (round_events True (ps, returns, n)) c4 [InvokeMergeAndReduce (map snd returns), WriteOutput n, ShutdownAll]"
    and c4: "cc_state c4 = CDone" "cc_round c4 = of_nat (length rounds)"
    using round_run [of c3 returns True ps n] c3 ne assms(3) by fastforce
  have "runs_to ?c0 ([ConfigLoaded] @ map WorkerConnected ws @ concat (map (round_events False) rounds) @ round_events True (ps, returns, n)) c4
      ([] @ [InvokeSplit n0 (length ws)] @ ?merge (length ws) @ [InvokeMergeAndReduce (map snd returns), WriteOutput n, ShutdownAll])"
    by (intro runs_to_append [OF r0] runs_to_append [OF r1 [folded c2_def]] runs_to_append [OF r2] r3)
  then have run: "runs_to ?c0 (filter (\<lambda>e. \<not> background e) es) c4
      (InvokeSplit n0 (length ws) # ?merge (length ws) @ [InvokeMergeAndReduce (map snd returns), WriteOutput n, ShutdownAll])"
    unfolding assms(1) by simp
  then have "c = c4" "filter essential acts =
      InvokeSplit n0 (length ws) # ?merge (length ws) @ [InvokeMergeAndReduce (map snd returns), WriteOutput n, ShutdownAll]"
    using background_run [of ?c0 es] assms(5) unfolding runs_to_def by auto
  then show ?thesis
    using c4 by simp
qed

text \<open>Two workers, one of which leaves during the first of two rounds.\<close>

definition two_rounds :: "coordinator_event list" where
  "two_rounds =
     [ConfigLoaded, WorkerConnected 0, WorkerJoined 7, WorkerConnected 1, SplitComplete [partition_empty 0, partition_empty 1],
      AllDispatched, PartitionReturned 1 (partition_empty 1), WorkerLeft 1 Urgent, PartitionReturned 0 (partition_empty 0),
      MergeComplete net_new False, SplitComplete [partition_empty 0, partition_empty 1], AllDispatched,
      PartitionReturned 0 (partition_empty 0), PartitionReturned 1 (partition_empty 1), MergeComplete net_new True]"

theorem coordinator_completes_witness:
  "filter essential (snd (run_fsm coordinator_transition ((coordinator_context_new [] 2 False)\<lparr>cc_net := Some net_new\<rparr>) two_rounds)) =
     [InvokeSplit net_new 2, InvokeMergeAndReduce [partition_empty 1, partition_empty 0], InvokeSplit net_new 2,
      InvokeMergeAndReduce [partition_empty 0, partition_empty 1], WriteOutput net_new, ShutdownAll]"
proof -
  obtain c acts where run: "run_fsm coordinator_transition ((coordinator_context_new [] 2 False)\<lparr>cc_net := Some net_new\<rparr>) two_rounds = (c, acts)"
    by (cases "run_fsm coordinator_transition ((coordinator_context_new [] 2 False)\<lparr>cc_net := Some net_new\<rparr>) two_rounds")
  let ?p = "partition_empty"
  have "filter (\<lambda>e. \<not> background e) two_rounds =
      ConfigLoaded # map WorkerConnected [0, 1] @
      concat (map (round_events False) [([?p 0, ?p 1], [(1, ?p 1), (0, ?p 0)], net_new)]) @
      round_events True ([?p 0, ?p 1], [(0, ?p 0), (1, ?p 1)], net_new)"
    by (simp add: two_rounds_def background_def round_events_def)
  from coordinator_completes [OF this _ _ _ run] show ?thesis
    using run by simp
qed

theorem coordinator_run_safe_witness:
  "list_all (\<lambda>ps. length ps = 2) (merged_by (snd (run_fsm coordinator_transition (coordinator_context_new [] 2 False) two_rounds)))"
  using coordinator_run_safe [of "[]" 2 False two_rounds, OF surjective_pairing] by (simp add: list_all_iff)

section \<open>The pull machine\<close>

text \<open>
  The contexts a pull run can reach, with the events it accepted: a rejected event changes nothing, and
  the runtime may mark the stream exhausted at any time.
\<close>

inductive pull_reach :: "nat \<Rightarrow> pull_coordinator_event list \<Rightarrow> coordinator_pull_context \<Rightarrow> bool" for k where
  start: "pull_reach k [] (pull_context_new k)"
| accept: "pull_reach k h c \<Longrightarrow> pull_transition c e = Inr c' \<Longrightarrow> pull_reach k (h @ [e]) c'"
| exhaust: "pull_reach k h c \<Longrightarrow> pull_reach k h (c\<lparr>cp_stream_exhausted := True\<rparr>)"

definition results_in :: "pull_coordinator_event list \<Rightarrow> worker_id list" where
  "results_in h = List.map_filter (\<lambda>e. case e of PartitionResultReceived w \<Rightarrow> Some w | _ \<Rightarrow> None) h"

definition requests_in :: "pull_coordinator_event list \<Rightarrow> nat" where
  "requests_in h = length (filter (\<lambda>e. case e of RequestWorkReceived w \<Rightarrow> True | _ \<Rightarrow> False) h)"

lemma results_in_simps [simp]:
  "results_in [] = []" "results_in (h @ [e]) = results_in h @ (case e of PartitionResultReceived w \<Rightarrow> [w] | _ \<Rightarrow> [])"
  by (simp_all add: results_in_def map_filter_app map_filter_simps split: pull_coordinator_event.split)

lemma requests_in_simps [simp]:
  "requests_in [] = 0" "requests_in (h @ [e]) = requests_in h + (case e of RequestWorkReceived w \<Rightarrow> 1 | _ \<Rightarrow> 0)"
  by (simp_all add: requests_in_def split: pull_coordinator_event.split)

definition pull_inv :: "pull_coordinator_event list \<Rightarrow> coordinator_pull_context \<Rightarrow> bool" where
  "pull_inv h c \<longleftrightarrow>
     cp_pending_results c = results_in h \<and>
     (cp_merge_triggered c \<longleftrightarrow> cp_state c = MergingResults) \<and>
     cp_results_consumed_for_merge c = (if cp_state c = MergingResults then length (results_in h) else 0) \<and>
     (cp_state c \<in> {SendingNoMoreWork, AwaitingFinalResults, MergingResults} \<longrightarrow> cp_stream_exhausted c) \<and>
     requests_in h = count_list h ChunkAllocatedAndDispatched + (if cp_state c \<in> {DispatchingFirst, AwaitingResults} then 0 else 1)"

lemma pull_step_inv:
  assumes "pull_inv h c" "pull_transition c e = Inr c'"
  shows "pull_inv (h @ [e]) c'"
  using assms by (cases "cp_state c"; cases e) (auto simp: pull_transition_def pull_inv_def split: if_splits)

lemma pull_reach_inv: "pull_reach k h c \<Longrightarrow> pull_inv h c"
proof (induction rule: pull_reach.induct)
  case start
  then show ?case
    by (simp add: pull_inv_def pull_context_new_def)
next
  case (accept h c e c')
  then show ?case
    using pull_step_inv by blast
next
  case (exhaust h c)
  then show ?case
    by (simp add: pull_inv_def)
qed

text \<open>
  The barrier of the pull protocol (C31).  In every reachable context the buffered results are exactly
  the accepted ones in order of arrival; the merge is triggered exactly in the merging state, where it
  has consumed all of them; work is refused only when the stream is exhausted; and every request was
  answered by exactly one chunk, except one that is still being answered or was told that no work is
  left.  From the moment work is refused no further result or request is accepted.
\<close>

theorem pull_barrier:
  assumes "pull_reach k h c"
  shows "cp_pending_results c = results_in h \<and> (cp_merge_triggered c \<longleftrightarrow> cp_state c = MergingResults) \<and>
    (cp_state c = MergingResults \<longrightarrow> cp_results_consumed_for_merge c = length (results_in h)) \<and>
    (cp_state c \<in> {DispatchingFirst, AwaitingResults} \<longrightarrow> requests_in h = count_list h ChunkAllocatedAndDispatched) \<and>
    (cp_state c \<in> {SendingNoMoreWork, AwaitingFinalResults, MergingResults} \<longrightarrow>
       cp_stream_exhausted c \<and> requests_in h = count_list h ChunkAllocatedAndDispatched + 1 \<and>
       (\<forall>w. pull_transition c (PartitionResultReceived w) = Inl (UnexpectedEvent (PartitionResultReceived w) (cp_state c)) \<and>
            pull_request_work c w w = Inl (UnexpectedEvent (RequestWorkReceived w) (cp_state c))))"
  using pull_reach_inv [OF assms] by (auto simp: pull_inv_def pull_transition_def pull_request_work_def)

text \<open>Two workers of which one has delivered a result when the stream ends: the other one's request is refused.\<close>

theorem pull_barrier_witness:
  "\<exists>h c. pull_reach 2 h c \<and> cp_state c = SendingNoMoreWork \<and> cp_pending_results c = [0] \<and>
     pull_request_work c 1 1 = Inl (UnexpectedEvent (RequestWorkReceived 1) SendingNoMoreWork)"
proof -
  let ?h = "[FirstChunkDispatched, PartitionResultReceived 0, RequestWorkReceived 0]"
  let ?c = "(pull_context_new 2)\<lparr>cp_state := SendingNoMoreWork, cp_pending_results := [0], cp_stream_exhausted := True\<rparr>"
  have "pull_reach 2 [FirstChunkDispatched] ((pull_context_new 2)\<lparr>cp_state := AwaitingResults\<rparr>)"
    using accept [OF start, of 2 FirstChunkDispatched] by (simp add: pull_transition_def pull_context_new_def)
  from accept [OF this, of "PartitionResultReceived 0"]
  have "pull_reach 2 [FirstChunkDispatched, PartitionResultReceived 0]
      ((pull_context_new 2)\<lparr>cp_state := AwaitingResults, cp_pending_results := [0]\<rparr>)"
    by (simp add: pull_transition_def pull_context_new_def)
  from accept [OF exhaust [OF this], of "RequestWorkReceived 0"] have r: "pull_reach 2 ?h ?c"
    by (simp add: pull_transition_def pull_context_new_def)
  then show ?thesis
    using pull_barrier [OF r] by (auto intro!: exI [of _ ?h] exI [of _ ?c])
qed

section \<open>The panic payload\<close>

text \<open>
  Building the bounded panic event panics itself exactly for messages longer than the cap whose byte at
  the cap continues a multi-byte character.
\<close>

lemma self_partition_panic_fails:
  "self_partition_panic msg = None \<longleftrightarrow>
     length msg > 4096 \<and> 128 \<le> (of_char (msg ! 4096) :: nat) \<and> (of_char (msg ! 4096) :: nat) < 192"
  by (auto simp: self_partition_panic_def string_truncate_def is_char_boundary_def MAX_PANIC_PAYLOAD_BYTES_def)

text \<open>The payload of the event may exceed the cap by the length of the marker.\<close>

lemma self_partition_panic_length:
  "self_partition_panic msg = Some (SelfPartitionPanic s) \<Longrightarrow> length s = (if length msg > 4096 then 4108 else length msg)"
  by (auto simp: self_partition_panic_def string_truncate_def MAX_PANIC_PAYLOAD_BYTES_def split: if_splits)

end
