(* ===== verification/Grid.thy ===== *)
theory Grid
  imports Deltas Messages Coordinator_Fsm Loops
begin

text \<open>
  The in-process grid loop (\<open>merge/grid.rs\<close>: \<open>run_grid\<close>, \<open>run_single_worker\<close>,
  \<open>check_global_normal_form\<close>) with its configuration and metrics (\<open>merge/types.rs\<close>).  A round splits
  the net, reduces every partition, merges them and resolves the border redexes.  A value is
  \<open>None\<close> when the run does not terminate, \<open>Some None\<close> when it panics.  Wall-clock metrics and the
  counters of the distributed runtime are left out; counters are natural numbers.
\<close>

section \<open>Configuration\<close>

datatype execution_mode = V1Lenient | V1Strict | DeltaLenient | DeltaStrict

record grid_config =
  gc_num_workers :: nat
  gc_max_rounds :: "nat option"
  gc_strict_bsp :: bool
  gc_delta_mode :: bool
  gc_coordinator_free_rounds :: bool
  gc_hybrid_coordinator :: bool
  gc_elastic_departure :: bool
  gc_retain_partitions :: bool
  gc_elastic_join :: bool
  gc_checkpoint_partitions :: bool
  gc_initial_wait_timeout_ms :: nat
  gc_join_window_min_ms :: nat
  gc_join_window_max_ms :: nat
  gc_solo_budget :: nat
  gc_recycle_under_delta :: recycle_policy
  gc_chunk_size :: nat
  gc_dispatch_mode :: dispatch_mode
  gc_max_pending_lifetime :: nat

definition grid_config_default :: grid_config where
  "grid_config_default =
     \<lparr>gc_num_workers = 1, gc_max_rounds = None, gc_strict_bsp = False, gc_delta_mode = False, gc_coordinator_free_rounds = False,
      gc_hybrid_coordinator = False, gc_elastic_departure = False, gc_retain_partitions = False, gc_elastic_join = False,
      gc_checkpoint_partitions = False, gc_initial_wait_timeout_ms = 30000, gc_join_window_min_ms = 50,
      gc_join_window_max_ms = 500, gc_solo_budget = 10000, gc_recycle_under_delta = DisableUnderDelta, gc_chunk_size = 10000,
      gc_dispatch_mode = Auto, gc_max_pending_lifetime = 16\<rparr>"

definition normalize_config :: "grid_config \<Rightarrow> grid_config" where
  "normalize_config c =
     (let c1 = (if gc_delta_mode c \<and> \<not> gc_coordinator_free_rounds c then c\<lparr>gc_coordinator_free_rounds := True\<rparr> else c);
          c2 = (if gc_elastic_departure c1 \<and> \<not> gc_retain_partitions c1 then c1\<lparr>gc_retain_partitions := True\<rparr> else c1)
      in if (gc_hybrid_coordinator c2 \<or> gc_elastic_departure c2) \<and> \<not> gc_elastic_join c2 then c2\<lparr>gc_elastic_join := True\<rparr> else c2)"

datatype config_error = RetainRequiredForDeparture | JoinWindowOrdering nat nat | SoloBudgetZero

definition validate_config :: "grid_config \<Rightarrow> config_error + unit" where
  "validate_config c =
     (if gc_elastic_departure c \<and> \<not> gc_retain_partitions c then Inl RetainRequiredForDeparture
      else if gc_join_window_min_ms c > gc_join_window_max_ms c
      then Inl (JoinWindowOrdering (gc_join_window_min_ms c) (gc_join_window_max_ms c))
      else if gc_solo_budget c = 0 then Inl SoloBudgetZero else Inr ())"

definition active_mode :: "grid_config \<Rightarrow> execution_mode" where
  "active_mode c =
     (case (gc_delta_mode c, gc_strict_bsp c) of
        (False, False) \<Rightarrow> V1Lenient | (False, True) \<Rightarrow> V1Strict | (True, False) \<Rightarrow> DeltaLenient | (True, True) \<Rightarrow> DeltaStrict)"

record grid_metrics =
  gm_rounds :: nat
  gm_total_interactions :: nat
  gm_total_interactions_by_rule :: "nat list"
  gm_local_interactions_per_round :: "nat list"
  gm_border_interactions_per_round :: "nat list"
  gm_border_redexes_per_round :: "nat list"
  gm_agents_per_round :: "nat list"
  gm_converged :: bool
  gm_worker_stats_per_round :: "worker_round_stats list list"
  gm_coordinator_free_rounds :: nat
  gm_delta_mode :: bool
  gm_delta_max_rounds_hit :: "bool option"

definition metrics_default :: grid_metrics where
  "metrics_default =
     \<lparr>gm_rounds = 0, gm_total_interactions = 0, gm_total_interactions_by_rule = replicate 6 0, gm_local_interactions_per_round = [],
      gm_border_interactions_per_round = [], gm_border_redexes_per_round = [], gm_agents_per_round = [], gm_converged = False,
      gm_worker_stats_per_round = [], gm_coordinator_free_rounds = 0, gm_delta_mode = False, gm_delta_max_rounds_hit = None\<rparr>"

section \<open>One round\<close>

definition check_global_normal_form :: "worker_round_stats list \<Rightarrow> bool \<times> bool" where
  "check_global_normal_form stats =
     (list_all (\<lambda>s. \<not> ws_has_border_activity s) stats, list_all (\<lambda>s. ws_local_redexes s = 0) stats)"

definition add_rules :: "nat list \<Rightarrow> nat list \<Rightarrow> nat list" where
  "add_rules xs ys = map2 (+) xs ys"

text \<open>The local phase for one partition; \<open>ord\<close> is the iteration order of hash maps from identifiers to ports.\<close>

definition reduce_partition ::
  "((nat \<rightharpoonup> port_ref) \<Rightarrow> nat list) \<Rightarrow> partition \<Rightarrow> (partition \<times> worker_round_stats) option option" where
  "reduce_partition ord p =
     (case reduce_all (p_subnet p) of
        None \<Rightarrow> None
      | Some None \<Rightarrow> Some None
      | Some (Some (rs, n)) \<Rightarrow>
          (let p1 = p\<lparr>p_subnet := n,
                      p_free_port_index := rebuild_free_port_index (ord (freeport_redirects n)) n (p_border_id_start p) (p_border_id_end p)\<rparr>;
               stats = \<lparr>ws_worker_id = p_worker_id p, ws_agents_before = count_live_agents (p_subnet p),
                        ws_agents_after = count_live_agents n, ws_local_redexes = total_interactions rs,
                        ws_interactions_by_rule = interactions_by_rule rs,
                        ws_has_border_activity = compute_border_activity (ord (p_free_port_index p1)) p1,
                        ws_is_coordinator_self = False\<rparr>
           in Some (Some (p1, stats))))"

fun reduce_partitions ::
  "((nat \<rightharpoonup> port_ref) \<Rightarrow> nat list) \<Rightarrow> partition list \<Rightarrow> (partition \<times> worker_round_stats) list option option" where
  "reduce_partitions ord [] = Some (Some [])"
| "reduce_partitions ord (p # ps) =
     (case reduce_partition ord p of
        None \<Rightarrow> None
      | Some None \<Rightarrow> Some None
      | Some (Some x) \<Rightarrow>
          (case reduce_partitions ord ps of
             None \<Rightarrow> None
           | Some None \<Rightarrow> Some None
           | Some (Some xs) \<Rightarrow> Some (Some (x # xs))))"

text \<open>
  What the iteration orders and the strategy contribute: the assignment, the iteration orders of its
  map, of the border map and of the port maps.
\<close>

record grid_env =
  ge_allocate :: "net \<Rightarrow> nat \<Rightarrow> (agent_id \<rightharpoonup> worker_id) option"
  ge_order :: "(agent_id \<rightharpoonup> worker_id) \<Rightarrow> agent_id list"
  ge_border_order :: "(nat \<rightharpoonup> port_ref \<times> port_ref) \<Rightarrow> nat list"
  ge_index_order :: "(nat \<rightharpoonup> port_ref) \<Rightarrow> nat list"

definition partition_cfg :: "grid_config \<Rightarrow> partition_config" where
  "partition_cfg cfg = partition_config_default\<lparr>pc_recycle_policy := gc_recycle_under_delta cfg\<rparr>"

text \<open>The metrics of a finished round.\<close>

definition record_round ::
  "nat \<Rightarrow> worker_round_stats list \<Rightarrow> nat \<Rightarrow> nat \<Rightarrow> nat list \<Rightarrow> grid_metrics \<Rightarrow> grid_metrics" where
  "record_round live_now stats border_redexes border_total border_by_rule m =
     (let local_interactions = sum_list (map ws_local_redexes stats);
          local_by_rule = fold (\<lambda>s acc. add_rules acc (ws_interactions_by_rule s)) stats (replicate 6 0)
      in m\<lparr>gm_agents_per_round := gm_agents_per_round m @ [live_now],
           gm_local_interactions_per_round := gm_local_interactions_per_round m @ [local_interactions],
           gm_worker_stats_per_round := gm_worker_stats_per_round m @ [stats],
           gm_border_redexes_per_round := gm_border_redexes_per_round m @ [border_redexes],
           gm_border_interactions_per_round := gm_border_interactions_per_round m @ [border_total],
           gm_total_interactions_by_rule :=
             add_rules (gm_total_interactions_by_rule m) (add_rules local_by_rule border_by_rule),
           gm_total_interactions := gm_total_interactions m + (local_interactions + border_total),
           gm_rounds := gm_rounds m + 1\<rparr>)"

text \<open>
  The body of the loop after the round limit: \<open>(stop, net, metrics)\<close>.  The two coordinator-free
  branches skip the border resolution; the first stops at once, the others stop when the drained queue
  is empty.
\<close>

definition settle :: "net \<Rightarrow> grid_metrics \<Rightarrow> (bool \<times> net \<times> grid_metrics)" where
  "settle n m =
     (let n1 = drain_stale_redexes n
      in if redex_queue n1 = [] then (True, n1, m\<lparr>gm_converged := True\<rparr>) else (False, n1, m))"

definition grid_round :: "grid_env \<Rightarrow> grid_config \<Rightarrow> net \<Rightarrow> grid_metrics \<Rightarrow> (bool \<times> net \<times> grid_metrics) option option" where
  "grid_round env cfg n m =
     (let live_now = count_live_agents n
      in case split_with_config (ge_allocate env) (ge_order env) (partition_cfg cfg) n (gc_num_workers cfg) of
           None \<Rightarrow> Some None
         | Some plan \<Rightarrow>
             (case reduce_partitions (ge_index_order env) (pl_partitions plan) of
                None \<Rightarrow> None
              | Some None \<Rightarrow> Some None
              | Some (Some rs) \<Rightarrow>
                  (let stats = map snd rs;
                       (all_no_border_activity, all_no_local_redexes) = check_global_normal_form stats;
                       (merged, border_redexes) = merge (ge_border_order env (pl_borders plan)) (plan\<lparr>pl_partitions := map fst rs\<rparr>);
                       free_round = gc_coordinator_free_rounds cfg \<and> gc_strict_bsp cfg \<and> all_no_border_activity
                   in if free_round then
                        (let m1 = (record_round live_now stats border_redexes 0 (replicate 6 0) m)
                                    \<lparr>gm_coordinator_free_rounds := gm_coordinator_free_rounds m + 1\<rparr>
                         in Some (Some (if all_no_local_redexes then (True, merged, m1\<lparr>gm_converged := True\<rparr>)
                                        else settle merged m1)))
                      else
                        (case (if gc_strict_bsp cfg then Some (reduce_border_once merged) else reduce_all merged) of
                           None \<Rightarrow> None
                         | Some None \<Rightarrow> Some None
                         | Some (Some (bs, n1)) \<Rightarrow>
                             Some (Some (settle n1
                               (record_round live_now stats border_redexes (total_interactions bs) (interactions_by_rule bs) m)))))))"

section \<open>The loop\<close>

definition check_max_rounds_cap :: "grid_config \<Rightarrow> grid_metrics \<Rightarrow> bool" where
  "check_max_rounds_cap cfg m = (case gc_max_rounds cfg of None \<Rightarrow> False | Some k \<Rightarrow> gm_rounds m \<ge> k)"

partial_function (option) grid_loop :: "grid_env \<Rightarrow> grid_config \<Rightarrow> net \<Rightarrow> grid_metrics \<Rightarrow> (net \<times> grid_metrics) option option" where
  "grid_loop env cfg n m =
     (if check_max_rounds_cap cfg m then Some (Some (n, m\<lparr>gm_converged := False\<rparr>))
      else case grid_round env cfg n m of
             None \<Rightarrow> None
           | Some None \<Rightarrow> Some None
           | Some (Some (stop, n1, m1)) \<Rightarrow> if stop then Some (Some (n1, m1)) else grid_loop env cfg n1 m1)"

definition run_single_worker :: "grid_config \<Rightarrow> net \<Rightarrow> grid_metrics \<Rightarrow> (net \<times> grid_metrics) option option" where
  "run_single_worker cfg n m =
     (if gc_max_rounds cfg = Some 0 then Some (Some (n, m\<lparr>gm_converged := False\<rparr>))
      else case reduce_all n of
             None \<Rightarrow> None
           | Some None \<Rightarrow> Some None
           | Some (Some (rs, n1)) \<Rightarrow>
               (let agents = gm_agents_per_round m @ [count_live_agents n]
                in Some (Some (n1, m\<lparr>
                     gm_agents_per_round := agents,
                     gm_local_interactions_per_round := gm_local_interactions_per_round m @ [total_interactions rs],
                     gm_total_interactions := total_interactions rs,
                     gm_total_interactions_by_rule := add_rules (gm_total_interactions_by_rule m) (interactions_by_rule rs),
                     gm_border_interactions_per_round := gm_border_interactions_per_round m @ [0],
                     gm_border_redexes_per_round := gm_border_redexes_per_round m @ [0],
                     gm_rounds := 1, gm_converged := True,
                     gm_worker_stats_per_round := gm_worker_stats_per_round m @
                       [[\<lparr>ws_worker_id = 0, ws_agents_before = agents ! 0, ws_agents_after = count_live_agents n1,
                          ws_local_redexes = total_interactions rs, ws_interactions_by_rule = interactions_by_rule rs,
                          ws_has_border_activity = False, ws_is_coordinator_self = True\<rparr>]]\<rparr>))))"

definition run_grid :: "grid_env \<Rightarrow> grid_config \<Rightarrow> net \<Rightarrow> (net \<times> grid_metrics) option option" where
  "run_grid env cfg n =
     (if gc_num_workers cfg < 1 then Some None
      else
        (let n1 = drain_stale_redexes n
         in if redex_queue n1 = [] then Some (Some (n1, metrics_default\<lparr>gm_converged := True\<rparr>))
            else if gc_num_workers cfg = 1 then run_single_worker cfg n1 metrics_default
            else grid_loop env cfg n1 metrics_default))"

end
