(* ===== verification/Grid_Props.thy ===== *)
theory Grid_Props
  imports Grid Worker_Props Merge_Props
begin

text \<open>
  What the grid loop guarantees: consistent metrics and a verdict that says why it stopped, one round
  in lenient mode, and the soundness of the coordinator-free round: without border activity a merge
  has no border redex to resolve.
\<close>

section \<open>Statistics without invariants\<close>

definition stats_sum :: "reduction_stats \<Rightarrow> bool" where
  "stats_sum st \<longleftrightarrow> length (interactions_by_rule st) = 6 \<and> sum_list (interactions_by_rule st) = total_interactions st"

lemma specific_code_less: "specific_code sp < 6"
  by (cases sp) simp_all

lemma sum_list_bump: "k < length xs \<Longrightarrow> sum_list (xs[k := Suc (xs ! k)]) = Suc (sum_list xs)" for xs :: "nat list"
  by (induction xs arbitrary: k) (auto split: nat.split)

lemma stats_sum_record: "stats_sum st \<Longrightarrow> stats_sum (record_rule r sp st)"
  using specific_code_less [of sp] by (cases r) (simp_all add: stats_sum_def record_rule_def Let_def sum_list_bump)

lemma stats_sum_zero: "stats_sum stats_zero"
  by (simp add: stats_sum_def stats_zero_def)

lemma reduce_step_queue: "reduce_step n = Some (NormalForm, m) \<Longrightarrow> redex_queue m = []"
proof (induction n rule: reduce_step.induct)
  case (1 n)
  show ?case
  proof (cases "redex_queue n")
    case Nil
    then show ?thesis
      using 1(2) by (simp add: reduce_step.simps [of n])
  next
    case (Cons r q)
    obtain a b where r: "r = (a, b)"
      by (cases r)
    have "reduce_pair a b x \<noteq> Some (NormalForm, y)" for x y
      by (auto simp: reduce_pair_def Let_def split: Option.bind_splits)
    then show ?thesis
      using 1 Cons r by (simp add: reduce_step.simps [of n] Let_def split: if_splits)
  qed
qed

lemma reduce_all_from_result:
  assumes "reduce_all_from st0 n = Some res"
  shows "\<forall>st m. stats_sum st0 \<longrightarrow> res = Some (st, m) \<longrightarrow> stats_sum st \<and> redex_queue m = []"
proof (induction rule: reduce_all_from.raw_induct [OF _ assms])
  case (1 f st0 n res)
  show ?case
  proof (cases "reduce_step n")
    case None
    then show ?thesis
      using 1(2) by simp
  next
    case (Some p)
    obtain s m1 where p: "p = (s, m1)"
      by (cases p)
    show ?thesis
    proof (cases s)
      case NormalForm
      then show ?thesis
        using 1(2) Some p reduce_step_queue by auto
    next
      case (Reduced r sp)
      then have "f (record_rule r sp st0) m1 = Some res"
        using 1(2) Some p by simp
      then show ?thesis
        using 1(1) stats_sum_record by blast
    qed
  qed
qed

lemma reduce_all_result:
  assumes "reduce_all n = Some (Some (st, m))"
  shows "stats_sum st" "redex_queue m = []"
  using reduce_all_from_result [of stats_zero n "Some (st, m)"] assms stats_sum_zero by (simp_all add: reduce_all_def)

lemma border_once_sum: "border_once_from initial deferred st n = Some (st', m) \<Longrightarrow> stats_sum st \<Longrightarrow> stats_sum st'"
proof (induction initial deferred st n rule: border_once_from.induct)
  case (2 a b initial deferred st n)
  then show ?case
    by (auto simp: Let_def stats_sum_record split: if_splits option.splits prod.splits step_result.splits)
qed auto

section \<open>The queue of a merge\<close>

lemma merge_slots_queue: "redex_queue (fold (merge_partition borders) ps r) = redex_queue r"
  by (induction ps arbitrary: r) (auto simp: merge_partition_def Let_def split: prod.split)

lemma length_new_redexes: "length (new_redexes a b) = (if is_principal_pair a b then 1 else 0)"
  by (cases a; cases b) (auto simp: new_redexes_def is_principal_pair_def)

lemma connect_queue: "redex_queue (connect a b n) = redex_queue n @ new_redexes a b"
  by (cases a; cases b) (simp_all add: connect_def set_port_def Let_def)

lemma merge_border_queue:
  "snd st = length (redex_queue (fst st)) \<Longrightarrow> snd (merge_border borders parts b st) = length (redex_queue (fst (merge_border borders parts b st)))"
  by (cases "border_ends parts b") (auto simp: merge_border_def connect_queue length_new_redexes Let_def split: option.split)

lemma merge_free_queue: "redex_queue (fold merge_free_id is r) = redex_queue r"
  by (induction "is" arbitrary: r) (auto simp: merge_free_id_def)

lemma merge_queue:
  assumes "merge border_order plan = (m, c)"
  obtains r2 where "redex_queue r2 = []"
    "redex_queue m = redex_queue (fst (fold (merge_border (pl_borders plan) (pl_partitions plan)) border_order (r2, 0)))"
    "c = snd (fold (merge_border (pl_borders plan) (pl_partitions plan)) border_order (r2, 0))"
proof (rule that [of "united plan"])
  let ?f = "fold (merge_border (pl_borders plan) (pl_partitions plan)) border_order (united plan, 0)"
  let ?ids = "concat (map (\<lambda>p. free_list (p_subnet p)) (pl_partitions plan))"
  have "merge border_order plan = ((fold merge_free_id ?ids (fst ?f))\<lparr>id_range := None, border_entries_shadow := None\<rparr>, snd ?f)"
    by (simp add: merge_def united_def Let_def split_beta with_capacity_def net_new_def vec_grow_Nil)
  then show "redex_queue m = redex_queue (fst ?f)" "c = snd ?f"
    using assms by (auto simp: merge_free_queue)
  show "redex_queue (united plan) = []"
    by (simp add: united_def merge_slots_queue Let_def with_capacity_def net_new_def)
qed

lemma merge_count: "merge border_order plan = (m, c) \<Longrightarrow> c = length (redex_queue m)"
proof -
  have "snd (fold (merge_border borders parts) bs st) = length (redex_queue (fst (fold (merge_border borders parts) bs st)))"
    if "snd st = length (redex_queue (fst st))" for bs st and borders :: "nat \<rightharpoonup> port_ref \<times> port_ref" and parts
    using that by (induction bs arbitrary: st) (simp_all add: merge_border_queue)
  then show "merge border_order plan = (m, c) \<Longrightarrow> c = length (redex_queue m)"
    by (metis fst_conv list.size(3) merge_queue snd_conv)
qed

text \<open>Without a principal port in any index no border is an active pair, chains included.\<close>

definition quiet :: "partition list \<Rightarrow> bool" where
  "quiet parts \<longleftrightarrow> (\<forall>p \<in> set parts. \<forall>b i. p_free_port_index p b \<noteq> Some (AgentPort i 0))"

definition inert :: "port_ref \<Rightarrow> bool" where
  "inert x \<longleftrightarrow> (\<forall>i. x \<noteq> AgentPort i 0)"

lemma resolve_border_inert:
  "quiet ps \<Longrightarrow> (\<forall>y. r = Some y \<longrightarrow> inert y) \<Longrightarrow> resolve_border ps b r = Some x \<Longrightarrow> inert x"
  by (induction ps b r rule: resolve_border.induct)
     (fastforce simp: quiet_def inert_def split: option.splits port_ref.splits if_splits)+

lemma resolve_chain_inert: "quiet parts \<Longrightarrow> inert x \<Longrightarrow> inert (resolve_chain d borders parts x)"
proof (induction d arbitrary: x)
  case (Suc d)
  have "inert r" if "resolve_border parts b None = Some r" for b r
    using resolve_border_inert [OF Suc.prems(1) _ that] by simp
  then show ?case
    using Suc by (auto split: port_ref.split option.split)
qed simp

lemma border_ends_inert:
  assumes "quiet parts" "border_ends parts b = (Some x, Some y)"
  shows "inert x \<and> inert y"
proof -
  have "\<forall>z. fst (border_ends parts b) = Some z \<or> snd (border_ends parts b) = Some z \<longrightarrow> inert z"
    unfolding border_ends_def
  proof (rule fold_invariant [where Q = "\<lambda>p. p \<in> set parts"])
    fix p and st :: "port_ref option \<times> port_ref option"
    assume "p \<in> set parts" "\<forall>z. fst st = Some z \<or> snd st = Some z \<longrightarrow> inert z"
    moreover have "p_free_port_index p b = Some z \<Longrightarrow> inert z" for z
      using assms(1) \<open>p \<in> set parts\<close> by (auto simp: quiet_def inert_def)
    ultimately show "\<forall>z. fst (case st of (a, c) \<Rightarrow> case p_free_port_index p b of None \<Rightarrow> (a, c) | Some x \<Rightarrow> if a = None then (Some x, c) else (a, Some x)) = Some z \<or>
        snd (case st of (a, c) \<Rightarrow> case p_free_port_index p b of None \<Rightarrow> (a, c) | Some x \<Rightarrow> if a = None then (Some x, c) else (a, Some x)) = Some z \<longrightarrow> inert z"
      by (cases st) (auto split: option.split)
  qed auto
  then show ?thesis
    using assms(2) by simp
qed

lemma merge_quiet:
  assumes "merge border_order plan = (m, c)" "quiet (pl_partitions plan)"
  shows "c = 0" "redex_queue m = []"
proof -
  have step: "snd (merge_border borders (pl_partitions plan) b st) = snd st" for borders b and st :: "net \<times> nat"
  proof (cases "border_ends (pl_partitions plan) b")
    case (Pair x y)
    have "\<not> is_principal_pair (resolve_freeport_chain borders (pl_partitions plan) x') (resolve_freeport_chain borders (pl_partitions plan) y')"
      if "x = Some x'" "y = Some y'" for x' y'
      using border_ends_inert [OF assms(2), of b x' y'] resolve_chain_inert [OF assms(2)] Pair that
      by (auto simp: resolve_freeport_chain_def is_principal_pair_def inert_def split: port_ref.split)
    then show ?thesis
      using Pair by (auto simp: merge_border_def Let_def split: option.split)
  qed
  have "snd (fold (merge_border borders (pl_partitions plan)) bs st) = snd st" for borders bs and st :: "net \<times> nat"
    by (induction bs arbitrary: st) (simp_all add: step)
  then show "c = 0"
    using merge_queue [OF assms(1)] by (metis snd_conv)
  then show "redex_queue m = []"
    using merge_count [OF assms(1)] by simp
qed

section \<open>One round\<close>

text \<open>The iteration orders of the port maps list each key once.\<close>

definition orders_keys :: "grid_env \<Rightarrow> bool" where
  "orders_keys env \<longleftrightarrow> (\<forall>m. finite (dom m) \<longrightarrow> lists_keys (ge_index_order env m) m)"

definition books_ok :: "grid_metrics \<Rightarrow> bool" where
  "books_ok m \<longleftrightarrow>
     length (gm_local_interactions_per_round m) = gm_rounds m \<and> length (gm_border_interactions_per_round m) = gm_rounds m \<and>
     length (gm_border_redexes_per_round m) = gm_rounds m \<and> length (gm_agents_per_round m) = gm_rounds m \<and>
     length (gm_worker_stats_per_round m) = gm_rounds m \<and> gm_coordinator_free_rounds m \<le> gm_rounds m \<and>
     length (gm_total_interactions_by_rule m) = 6 \<and> sum_list (gm_total_interactions_by_rule m) = gm_total_interactions m \<and>
     gm_total_interactions m = sum_list (gm_local_interactions_per_round m) + sum_list (gm_border_interactions_per_round m)"

lemma add_rules_sum:
  assumes "length xs = length ys"
  shows "length (add_rules xs ys) = length ys" "sum_list (add_rules xs ys) = sum_list xs + sum_list ys"
  using assms by (induction xs ys rule: list_induct2) (simp_all add: add_rules_def)

definition worker_stats_ok :: "worker_round_stats \<Rightarrow> bool" where
  "worker_stats_ok s \<longleftrightarrow> length (ws_interactions_by_rule s) = 6 \<and> sum_list (ws_interactions_by_rule s) = ws_local_redexes s"

lemma fold_rules:
  assumes "\<forall>s \<in> set stats. worker_stats_ok s" "length acc = 6"
  shows "length (fold (\<lambda>s acc. add_rules acc (ws_interactions_by_rule s)) stats acc) = 6 \<and>
    sum_list (fold (\<lambda>s acc. add_rules acc (ws_interactions_by_rule s)) stats acc) = sum_list acc + sum_list (map ws_local_redexes stats)"
  using assms
proof (induction stats arbitrary: acc)
  case (Cons s stats)
  then have "length (add_rules acc (ws_interactions_by_rule s)) = 6"
      "sum_list (add_rules acc (ws_interactions_by_rule s)) = sum_list acc + ws_local_redexes s"
    using add_rules_sum [of acc "ws_interactions_by_rule s"] by (simp_all add: worker_stats_ok_def)
  then show ?case
    using Cons.IH [of "add_rules acc (ws_interactions_by_rule s)"] Cons.prems(1) by simp
qed simp

lemma record_round_books:
  assumes "books_ok m" "\<forall>s \<in> set stats. worker_stats_ok s" "length rules = 6" "sum_list rules = tot"
  shows "books_ok (record_round live_now stats br tot rules m)"
    "books_ok ((record_round live_now stats br tot rules m)\<lparr>gm_coordinator_free_rounds := gm_coordinator_free_rounds m + 1\<rparr>)"
proof -
  let ?l = "fold (\<lambda>s acc. add_rules acc (ws_interactions_by_rule s)) stats (replicate 6 0)"
  have l: "length ?l = 6" "sum_list ?l = sum_list (map ws_local_redexes stats)"
    using fold_rules [OF assms(2), of "replicate 6 0"] by simp_all
  then have lr: "length (add_rules ?l rules) = 6" "sum_list (add_rules ?l rules) = sum_list (map ws_local_redexes stats) + tot"
    using add_rules_sum [of ?l rules] assms(3,4) by simp_all
  have m: "length (gm_total_interactions_by_rule m) = 6" "sum_list (gm_total_interactions_by_rule m) = gm_total_interactions m"
    using assms(1) by (simp_all add: books_ok_def)
  have all: "length (add_rules (gm_total_interactions_by_rule m) (add_rules ?l rules)) = 6"
      "sum_list (add_rules (gm_total_interactions_by_rule m) (add_rules ?l rules)) =
         gm_total_interactions m + (sum_list (map ws_local_redexes stats) + tot)"
    using add_rules_sum [of "gm_total_interactions_by_rule m" "add_rules ?l rules"] m lr by simp_all
  show "books_ok (record_round live_now stats br tot rules m)"
    "books_ok ((record_round live_now stats br tot rules m)\<lparr>gm_coordinator_free_rounds := gm_coordinator_free_rounds m + 1\<rparr>)"
    using assms(1) all by (simp_all add: books_ok_def record_round_def Let_def)
qed

lemma reduce_partition_result:
  assumes "reduce_partition ord p = Some (Some (p', s))"
  shows "worker_stats_ok s \<and> ws_has_border_activity s = compute_border_activity (ord (p_free_port_index p')) p' \<and>
    finite (dom (p_free_port_index p'))"
proof -
  obtain rs n where red: "reduce_all (p_subnet p) = Some (Some (rs, n))"
    using assms by (auto simp: reduce_partition_def Let_def split: option.splits)
  show ?thesis
    using assms red reduce_all_result(1) [OF red] finite_rebuilt_index
    by (auto simp: reduce_partition_def Let_def worker_stats_ok_def stats_sum_def)
qed

lemma reduce_partitions_result:
  "reduce_partitions ord ps = Some (Some rs) \<Longrightarrow> \<forall>(p', s) \<in> set rs. worker_stats_ok s \<and>
     ws_has_border_activity s = compute_border_activity (ord (p_free_port_index p')) p' \<and> finite (dom (p_free_port_index p'))"
proof (induction ps arbitrary: rs)
  case (Cons p ps)
  obtain x xs where "reduce_partition ord p = Some (Some x)" "reduce_partitions ord ps = Some (Some xs)" "rs = x # xs"
    using Cons.prems by (auto split: option.splits)
  then show ?case
    using Cons.IH [of xs] reduce_partition_result [of ord p] by (cases x) auto
qed simp

text \<open>The activity flags are exact: no flag means no principal port in any index.\<close>

lemma no_activity_quiet:
  assumes "orders_keys env" "reduce_partitions (ge_index_order env) ps = Some (Some rs)"
    and "fst (check_global_normal_form (map snd rs))"
  shows "quiet (map fst rs)"
proof -
  have "p_free_port_index p b \<noteq> Some (AgentPort i 0)" if "(p, s) \<in> set rs" for p s b i
  proof
    assume at: "p_free_port_index p b = Some (AgentPort i 0)"
    have s: "ws_has_border_activity s = compute_border_activity (ge_index_order env (p_free_port_index p)) p"
        "finite (dom (p_free_port_index p))"
      using reduce_partitions_result [OF assms(2)] that by auto
    then have "b \<in> set (ge_index_order env (p_free_port_index p))"
      using assms(1) at by (auto simp: orders_keys_def lists_keys_def)
    then have "compute_border_activity (ge_index_order env (p_free_port_index p)) p"
      using at by (auto simp: compute_border_activity_def list_ex_iff intro!: bexI [of _ b])
    then show False
      using assms(3) s(1) that by (auto simp: check_global_normal_form_def list_all_iff)
  qed
  then show ?thesis
    by (auto simp: quiet_def)
qed

lemma settle_result:
  "settle n m = (stop, n', m') \<Longrightarrow> (stop \<longrightarrow> redex_queue n' = [] \<and> m' = m\<lparr>gm_converged := True\<rparr>) \<and> (\<not> stop \<longrightarrow> m' = m \<and> redex_queue n \<noteq> [])"
  by (auto simp: settle_def Let_def drain_stale_redexes_def split: if_splits)

text \<open>The shape of a finished round.\<close>

lemma grid_round_cases:
  assumes "orders_keys env" "grid_round env cfg n m = Some (Some (stop, n', m'))"
  obtains (free) stats m1 where "\<forall>s \<in> set stats. worker_stats_ok s" "gc_coordinator_free_rounds cfg" "gc_strict_bsp cfg" "stop"
      "m1 = (record_round (count_live_agents n) stats 0 0 (replicate 6 0) m)\<lparr>gm_coordinator_free_rounds := gm_coordinator_free_rounds m + 1\<rparr>"
      "m' = m1\<lparr>gm_converged := True\<rparr>" "redex_queue n' = []"
  | (resolved) stats br bs n1 where "\<forall>s \<in> set stats. worker_stats_ok s" "stats_sum bs"
      "settle n1 (record_round (count_live_agents n) stats br (total_interactions bs) (interactions_by_rule bs) m) = (stop, n', m')"
      "\<not> gc_strict_bsp cfg \<longrightarrow> redex_queue n1 = []"
proof -
  obtain plan where plan: "split_with_config (ge_allocate env) (ge_order env) (partition_cfg cfg) n (gc_num_workers cfg) = Some plan"
    using assms(2) by (auto simp: grid_round_def Let_def split: option.splits)
  obtain rs where rs: "reduce_partitions (ge_index_order env) (pl_partitions plan) = Some (Some rs)"
    using assms(2) plan by (auto simp: grid_round_def Let_def split: option.splits)
  let ?stats = "map snd rs"
  obtain quiet_flag idle where flags: "check_global_normal_form ?stats = (quiet_flag, idle)"
    by (cases "check_global_normal_form ?stats")
  obtain merged br where merged: "merge (ge_border_order env (pl_borders plan)) (plan\<lparr>pl_partitions := map fst rs\<rparr>) = (merged, br)"
    by (cases "merge (ge_border_order env (pl_borders plan)) (plan\<lparr>pl_partitions := map fst rs\<rparr>)")
  have ok: "\<forall>s \<in> set ?stats. worker_stats_ok s"
    using reduce_partitions_result [OF rs] by auto
  note unfolded = assms(2) [unfolded grid_round_def Let_def plan option.case rs flags merged prod.case]
  show thesis
  proof (cases "gc_coordinator_free_rounds cfg \<and> gc_strict_bsp cfg \<and> quiet_flag")
    case True
    have "quiet (map fst rs)"
      using no_activity_quiet [OF assms(1) rs] flags True by simp
    then have mq: "br = 0" "redex_queue merged = []"
      using merge_quiet [OF merged] by simp_all
    have "redex_queue (drain_stale_redexes merged) = []"
      using mq(2) by (simp add: drain_stale_redexes_def)
    then show ?thesis
      using free [OF ok] unfolded True mq by (auto simp: settle_def Let_def split: if_splits)
  next
    case False
    obtain bs n1 where bs: "(if gc_strict_bsp cfg then Some (reduce_border_once merged) else reduce_all merged) = Some (Some (bs, n1))"
      using unfolded False by (auto split: option.splits if_splits)
    have "stats_sum bs"
      using bs border_once_sum stats_sum_zero reduce_all_result(1) by (auto simp: reduce_border_once_def split: if_splits)
    moreover have "\<not> gc_strict_bsp cfg \<longrightarrow> redex_queue n1 = []"
      using bs reduce_all_result(2) by auto
    moreover have "settle n1 (record_round (count_live_agents n) ?stats br (total_interactions bs) (interactions_by_rule bs) m) = (stop, n', m')"
      using unfolded False bs by simp
    ultimately show ?thesis
      using resolved [OF ok] by blast
  qed
qed

text \<open>
  The coordinator-free round is sound (C11).  When a round skips the border resolution because no
  worker reports border activity, the merge found no border redex at all, the merged net has an empty
  queue, and the loop stops there as converged: nothing is ever lost by the skip.
\<close>

theorem coordinator_free_sound:
  assumes "orders_keys env" "grid_round env cfg n m = Some (Some (stop, n', m'))"
    and "gm_coordinator_free_rounds m' \<noteq> gm_coordinator_free_rounds m"
  shows "stop \<and> gm_converged m' \<and> redex_queue n' = [] \<and> gm_border_redexes_per_round m' = gm_border_redexes_per_round m @ [0] \<and>
    gm_border_interactions_per_round m' = gm_border_interactions_per_round m @ [0]"
  using assms(1,2)
proof (cases rule: grid_round_cases)
  case (free stats m1)
  then show ?thesis
    by (simp add: record_round_def Let_def)
next
  case (resolved stats br bs n1)
  then show ?thesis
    using settle_result [OF resolved(3)] assms(3) by (cases stop) (auto simp: record_round_def Let_def)
qed

section \<open>The loop\<close>

definition verdict :: "grid_config \<Rightarrow> net \<Rightarrow> grid_metrics \<Rightarrow> bool" where
  "verdict cfg n m \<longleftrightarrow>
     books_ok m \<and> (\<forall>k. gc_max_rounds cfg = Some k \<longrightarrow> gm_rounds m \<le> k) \<and>
     (if gm_converged m then redex_queue n = [] else gc_max_rounds cfg = Some (gm_rounds m))"

lemma record_round_rounds: "gm_rounds (record_round x stats br t rules m) = Suc (gm_rounds m)"
  by (simp add: record_round_def Let_def)

lemma books_converged [simp]: "books_ok (m\<lparr>gm_converged := v\<rparr>) = books_ok m"
  by (simp add: books_ok_def)

lemma grid_round_books:
  assumes "orders_keys env" "grid_round env cfg n m = Some (Some (stop, n', m'))" "books_ok m"
  shows "books_ok m' \<and> gm_rounds m' = Suc (gm_rounds m) \<and> (stop \<longrightarrow> gm_converged m' \<and> redex_queue n' = [])"
  using assms(1,2)
proof (cases rule: grid_round_cases)
  case (free stats m1)
  then show ?thesis
    using record_round_books(2) [OF assms(3) free(1), of "replicate 6 0" 0] by (simp add: record_round_rounds)
next
  case (resolved stats br bs n1)
  then show ?thesis
    using record_round_books(1) [OF assms(3) resolved(1), of "interactions_by_rule bs"] settle_result [OF resolved(3)]
    by (cases stop) (auto simp: stats_sum_def record_round_rounds)
qed

lemma grid_loop_verdict:
  assumes "grid_loop env cfg n m = Some res"
  shows "orders_keys env \<longrightarrow> books_ok m \<longrightarrow> (\<forall>k. gc_max_rounds cfg = Some k \<longrightarrow> gm_rounds m \<le> k) \<longrightarrow>
    (\<forall>n' m'. res = Some (n', m') \<longrightarrow> verdict cfg n' m')"
proof (induction rule: grid_loop.raw_induct [OF _ assms])
  case (1 f env cfg n m res)
  show ?case
  proof (intro impI allI)
    fix n' m'
    assume asm: "orders_keys env" "books_ok m" "\<forall>k. gc_max_rounds cfg = Some k \<longrightarrow> gm_rounds m \<le> k" "res = Some (n', m')"
    show "verdict cfg n' m'"
    proof (cases "check_max_rounds_cap cfg m")
      case True
      then show ?thesis
        using 1(2) asm by (auto simp: verdict_def check_max_rounds_cap_def split: option.splits)
    next
      case False
      then obtain stop n1 m1 where round: "grid_round env cfg n m = Some (Some (stop, n1, m1))"
        using 1(2) asm(4) by (auto split: option.splits)
      note books = grid_round_books [OF asm(1) round asm(2)]
      have cap: "\<forall>k. gc_max_rounds cfg = Some k \<longrightarrow> gm_rounds m1 \<le> k"
        using False books by (auto simp: check_max_rounds_cap_def)
      show ?thesis
      proof (cases stop)
        case True
        then show ?thesis
          using 1(2) asm(4) False round books cap by (auto simp: verdict_def)
      next
        case False
        then have "f env cfg n1 m1 = Some res"
          using 1(2) \<open>\<not> check_max_rounds_cap cfg m\<close> round by simp
        then show ?thesis
          using 1(1) asm(1,4) books cap by blast
      qed
    qed
  qed
qed

text \<open>
  The grid loop reports truthfully (C9).  Whenever a run returns, the metrics of all rounds are
  complete, the totals are the sums of the rounds and of the rules, the round limit is respected, and
  the verdict is right: converged means that no redex is queued, and not converged means that the round
  limit was reached.
\<close>

theorem run_grid_report:
  assumes "orders_keys env" "run_grid env cfg n = Some (Some (n', m))"
  shows "verdict cfg n' m"
proof -
  have start: "books_ok metrics_default" "gm_rounds metrics_default = 0"
    by (simp_all add: books_ok_def metrics_default_def)
  let ?n = "drain_stale_redexes n"
  consider "redex_queue ?n = []" "n' = ?n" "m = metrics_default\<lparr>gm_converged := True\<rparr>"
    | "run_single_worker cfg ?n metrics_default = Some (Some (n', m))"
    | "grid_loop env cfg ?n metrics_default = Some (Some (n', m))"
    using assms(2) unfolding run_grid_def Let_def by (metis option.distinct(1) option.inject prod.inject)
  then show ?thesis
  proof cases
    case 1
    then show ?thesis
      using start by (simp add: verdict_def)
  next
    case 2
    show ?thesis
    proof (cases "gc_max_rounds cfg = Some 0")
      case True
      then show ?thesis
        using 2 start by (auto simp: run_single_worker_def verdict_def metrics_default_def)
    next
      case False
      then obtain rs n1 where red: "reduce_all ?n = Some (Some (rs, n1))"
        using 2 by (auto simp: run_single_worker_def Let_def split: option.splits)
      have rules: "length (add_rules (replicate 6 0) (interactions_by_rule rs)) = 6"
          "sum_list (add_rules (replicate 6 0) (interactions_by_rule rs)) = total_interactions rs"
        using add_rules_sum [of "replicate 6 0" "interactions_by_rule rs"] reduce_all_result(1) [OF red] by (simp_all add: stats_sum_def)
      show ?thesis
        using 2 False red rules reduce_all_result(2) [OF red]
        by (auto simp: run_single_worker_def Let_def verdict_def books_ok_def metrics_default_def Suc_le_eq)
    qed
  next
    case 3
    then show ?thesis
      using grid_loop_verdict assms(1) start by fastforce
  qed
qed

text \<open>
  In lenient mode the loop is one round: it returns, panics or diverges exactly as its first
  round does, since the coordinator reduces the merged net to an empty queue; no run takes a second
  round.
\<close>

lemma lenient_single_round:
  assumes "orders_keys env" "\<not> gc_strict_bsp cfg"
  shows "grid_loop env cfg n m =
    (if check_max_rounds_cap cfg m then Some (Some (n, m\<lparr>gm_converged := False\<rparr>))
     else map_option (map_option snd) (grid_round env cfg n m))"
proof -
  have "stop" if round: "grid_round env cfg n m = Some (Some (stop, n', m'))" for stop n' m'
    using assms(1) round
  proof (cases rule: grid_round_cases)
    case (resolved stats br bs n1)
    then show ?thesis
      using settle_result [OF resolved(3)] assms(2) by blast
  qed simp
  then have "grid_round env cfg n m \<noteq> Some (Some (False, a, b))" for a b
    by blast
  then have "(case grid_round env cfg n m of None \<Rightarrow> None | Some None \<Rightarrow> Some None
      | Some (Some (stop, n1, m1)) \<Rightarrow> if stop then Some (Some (n1, m1)) else grid_loop env cfg n1 m1) =
      map_option (map_option snd) (grid_round env cfg n m)"
    by (simp split: option.split prod.split)
  then show ?thesis
    unfolding grid_loop.simps [of env cfg n m] by simp
qed

section \<open>Examples\<close>

definition key_env :: grid_env where
  "key_env = \<lparr>ge_allocate = contiguous_allocate, ge_order = (\<lambda>m. sorted_list_of_set (dom m)),
     ge_border_order = (\<lambda>m. sorted_list_of_set (dom m)), ge_index_order = key_order\<rparr>"

lemma key_env_orders: "orders_keys key_env"
  by (simp add: orders_keys_def key_env_def key_order_lists)

lemma lenient_single_round_witness:
  "grid_loop key_env (grid_config_default\<lparr>gc_num_workers := 2\<rparr>) (pair_net Era Era) metrics_default =
     map_option (map_option snd) (grid_round key_env (grid_config_default\<lparr>gc_num_workers := 2\<rparr>) (pair_net Era Era) metrics_default)"
  using lenient_single_round [OF key_env_orders, of "grid_config_default\<lparr>gc_num_workers := 2\<rparr>" "pair_net Era Era" metrics_default]
  by (simp add: grid_config_default_def check_max_rounds_cap_def)

text \<open>The erasing pair on one worker: one interaction, converged.\<close>

lemma pair_drain: "drain_stale_redexes (pair_net Era Era) = pair_net Era Era" "redex_queue (pair_net Era Era) \<noteq> []"
  by (simp_all add: drain_stale_redexes_def is_valid_redex_iff)

theorem run_grid_report_witness:
  "\<exists>n' m. run_grid key_env grid_config_default (pair_net Era Era) = Some (Some (n', m)) \<and> verdict grid_config_default n' m"
proof -
  obtain st m where red: "reduce_all (pair_net Era Era) = Some (Some (st, m))"
    using era_pair_run(3) [of stats_zero] by (auto simp: reduce_all_def)
  then have "\<exists>n' m. run_grid key_env grid_config_default (pair_net Era Era) = Some (Some (n', m))"
    using pair_drain by (simp add: run_grid_def run_single_worker_def grid_config_default_def Let_def)
  then show ?thesis
    using run_grid_report [OF key_env_orders] by blast
qed

text \<open>A net without agents in a strict, coordinator-free configuration.\<close>

definition free_config :: grid_config where
  "free_config = grid_config_default\<lparr>gc_strict_bsp := True, gc_coordinator_free_rounds := True\<rparr>"

lemma free_config_fields:
  "gc_num_workers free_config = 1" "gc_strict_bsp free_config" "gc_coordinator_free_rounds free_config"
  "partition_cfg free_config = partition_config_default"
  by (simp_all add: free_config_def grid_config_default_def partition_cfg_def partition_config_default_def)

lemma free_round_eval:
  "\<exists>stop n' m'. grid_round key_env free_config net_new metrics_default = Some (Some (stop, n', m')) \<and>
     gm_coordinator_free_rounds m' = 1 \<and> gm_coordinator_free_rounds metrics_default = 0"
proof -
  let ?n = "net_new\<lparr>recycle_policy := DisableUnderDelta\<rparr>"
  define p where "p = \<lparr>p_subnet = ?n, p_worker_id = 0, p_free_port_index = Map.empty,
      p_id_range = \<lparr>ir_start = 0, ir_end = u32_MAX\<rparr>, p_border_id_start = 0, p_border_id_end = 0\<rparr>"
  define plan where "plan = \<lparr>pl_partitions = [p], pl_borders = Map.empty, pl_next_border_id = 0\<rparr>"
  have plan: "split_with_config (ge_allocate key_env) (ge_order key_env) (partition_cfg free_config) net_new (gc_num_workers free_config) = Some plan"
    by (simp add: free_config_fields split_with_config_def trivial_plan_def Let_def plan_def p_def partition_config_default_def)
  have "reduce_all ?n = Some (Some (stats_zero, ?n))"
    by (rule reduce_all_idle) (simp add: net_new_def)
  then obtain q s where red: "reduce_partition (ge_index_order key_env) p = Some (Some (q, s))" "\<not> ws_has_border_activity s"
    by (auto simp: reduce_partition_def p_def Let_def compute_border_activity_def rebuild_free_port_index_def key_env_def
        key_order_def net_new_def)
  then have rs: "reduce_partitions (ge_index_order key_env) (pl_partitions plan) = Some (Some [(q, s)])"
    by (simp add: plan_def)
  have flags: "check_global_normal_form (map snd [(q, s)]) = (True, ws_local_redexes s = 0)"
    using red(2) by (simp add: check_global_normal_form_def)
  have count: "gm_coordinator_free_rounds (record_round a b c d e m) = gm_coordinator_free_rounds m" for a b c d e m
    by (simp add: record_round_def Let_def)
  show ?thesis
    unfolding grid_round_def Let_def plan option.case rs flags prod.case using free_config_fields(2,3)
    by (auto simp: settle_def Let_def metrics_default_def split: prod.split)
qed

theorem coordinator_free_sound_witness:
  "\<exists>stop n' m'. grid_round key_env free_config net_new metrics_default = Some (Some (stop, n', m')) \<and> stop \<and> gm_converged m'"
  using free_round_eval coordinator_free_sound [OF key_env_orders, of free_config net_new metrics_default] by fastforce

end
