(* ===== verification/Grid_Delta.thy ===== *)
theory Grid_Delta
  imports Grid Resolver
begin

text \<open>
  The delta loop of the grid (\<open>merge/grid.rs\<close>: \<open>run_grid_entry\<close>, \<open>run_grid_delta\<close>, its round loop, the
  convergence checks and the final collection) and the driver that runs the workers in process
  (\<open>LocalDeltaDispatch\<close>).  The transport is a record of three functions on its own state.  A value is
  \<open>None\<close> when a worker does not terminate and \<open>Some None\<close> when the code panics; an error carries the
  metrics collected so far.  Message texts are abbreviated.
\<close>

section \<open>The transport\<close>

record round_result =
  rr_worker_id :: worker_id
  rr_round :: nat
  rr_border_deltas :: "border_delta list"
  rr_stats :: worker_round_stats
  rr_has_border_activity :: bool
  rr_minted_agents :: "minted_agent list"

type_synonym 'a reply = "(grid_error + 'a) option option"

record 'd worker_dispatch =
  dispatch_initial :: "partition_plan \<Rightarrow> 'd \<Rightarrow> 'd reply"
  dispatch_round_start :: "(worker_id \<times> round_start_dispatch) list \<Rightarrow> 'd \<Rightarrow> (round_result list \<times> 'd) reply"
  dispatch_final_state_request :: "nat \<Rightarrow> 'd \<Rightarrow> (partition list \<times> 'd) reply"

text \<open>Iteration orders: those of the plain loop, and those of the maps and sets of the border graph.\<close>

record delta_env =
  de_grid :: grid_env
  de_sight_order :: "sightings \<Rightarrow> nat list"
  de_state_order :: "(nat \<rightharpoonup> border_state) \<Rightarrow> nat list"
  de_active_order :: "nat set \<Rightarrow> nat list"

definition redexes_of :: "delta_env \<Rightarrow> border_graph \<Rightarrow> (nat \<times> border_state) list" where
  "redexes_of env g = detect_border_redexes (de_active_order env (bg_active_redexes g)) g"

section \<open>Convergence\<close>

definition is_principal :: "port_ref \<Rightarrow> bool" where
  "is_principal x = (case x of AgentPort i p \<Rightarrow> p = 0 | FreePort f \<Rightarrow> False)"

fun inert_remote_from :: "border_state list \<Rightarrow> bool \<Rightarrow> bool" where
  "inert_remote_from [] saw = saw"
| "inert_remote_from (s # ss) saw =
     (let a = is_principal (bs_side_a s); b = is_principal (bs_side_b s)
      in if a \<and> b then False else inert_remote_from ss (saw \<or> a \<or> b))"

definition every_border_has_inert_remote :: "delta_env \<Rightarrow> border_graph \<Rightarrow> bool" where
  "every_border_has_inert_remote env g =
     inert_remote_from (List.map_filter (bg_borders g) (de_state_order env (bg_borders g))) False"

definition check_delta_convergence :: "delta_env \<Rightarrow> round_result list \<Rightarrow> border_graph \<Rightarrow> bool" where
  "check_delta_convergence env rs g \<longleftrightarrow>
     list_all (\<lambda>r. \<not> rr_has_border_activity r) rs \<and> list_all (\<lambda>r. ws_local_redexes (rr_stats r) = 0) rs \<and> redexes_of env g = []"

definition check_delta_convergence_post_resolve :: "delta_env \<Rightarrow> round_result list \<Rightarrow> border_graph \<Rightarrow> bool" where
  "check_delta_convergence_post_resolve env rs g =
     (if \<not> (list_all (\<lambda>r. ws_local_redexes (rr_stats r) = 0) rs \<and> redexes_of env g = []) then False
      else if list_all (\<lambda>r. \<not> rr_has_border_activity r) rs then True
      else every_border_has_inert_remote env g)"

section \<open>Promoted borders\<close>

definition is_self_sentinel :: "nat \<Rightarrow> port_ref \<Rightarrow> bool" where
  "is_self_sentinel b x = (case x of FreePort f \<Rightarrow> f = b | AgentPort i p \<Rightarrow> False)"

definition is_free :: "port_ref \<Rightarrow> bool" where
  "is_free x = (case x of FreePort f \<Rightarrow> True | AgentPort i p \<Rightarrow> False)"

definition push_entry :: "worker_id \<Rightarrow> 'a \<Rightarrow> (worker_id \<rightharpoonup> 'a list) \<Rightarrow> (worker_id \<rightharpoonup> 'a list)" where
  "push_entry w x m = m(w \<mapsto> (case m w of None \<Rightarrow> [] | Some l \<Rightarrow> l) @ [x])"

definition route_promoted ::
  "nat \<Rightarrow> nat \<times> border_state \<Rightarrow> (worker_id \<rightharpoonup> (nat \<times> port_ref) list) \<Rightarrow> (worker_id \<rightharpoonup> (nat \<times> port_ref) list)" where
  "route_promoted k e m =
     (case e of (b, s) \<Rightarrow>
        let intra = (bs_worker_a s = bs_worker_b s); a_free = is_free (bs_side_a s); b_free = is_free (bs_side_b s);
            m1 = (if bs_worker_a s < k \<and> \<not> is_self_sentinel b (bs_side_a s) \<and> \<not> (intra \<and> a_free \<and> \<not> b_free)
                  then push_entry (bs_worker_a s) (b, bs_side_a s) m else m)
        in if is_self_sentinel b (bs_side_b s) then m1
           else if intra then
             (if \<not> b_free \<and> bs_worker_a s < k then push_entry (bs_worker_a s) (b, bs_side_b s) m1 else m1)
           else if bs_worker_b s < k then push_entry (bs_worker_b s) (b, bs_side_b s) m1 else m1)"

definition promoted_borders_to_per_worker_new_borders ::
  "(nat \<times> border_state) list \<Rightarrow> nat \<Rightarrow> (worker_id \<rightharpoonup> (nat \<times> port_ref) list)" where
  "promoted_borders_to_per_worker_new_borders promoted k = fold (route_promoted k) promoted Map.empty"

definition route_lafont ::
  "nat \<Rightarrow> nat \<times> border_state \<Rightarrow> (worker_id \<rightharpoonup> (port_ref \<times> port_ref) list) \<times> nat list \<Rightarrow>
   (worker_id \<rightharpoonup> (port_ref \<times> port_ref) list) \<times> nat list" where
  "route_lafont k e acc =
     (case e of (b, s) \<Rightarrow> case acc of (m, drop_ids) \<Rightarrow>
        if bs_worker_a s \<noteq> bs_worker_b s \<or> bs_worker_a s \<ge> k then acc
        else
          let a_free = is_free (bs_side_a s); b_free = is_free (bs_side_b s)
          in if a_free \<or> b_free then
               (let (local, target) = (if a_free \<and> \<not> b_free then (bs_side_b s, bs_side_a s) else (bs_side_a s, bs_side_b s))
                in (if local \<noteq> target then push_entry (bs_worker_a s) (local, target) m else m, drop_ids @ [b]))
             else acc)"

definition promoted_intra_worker_lafont_wires ::
  "(nat \<times> border_state) list \<Rightarrow> nat \<Rightarrow> (worker_id \<rightharpoonup> (port_ref \<times> port_ref) list) \<times> nat list" where
  "promoted_intra_worker_lafont_wires promoted k = fold (route_lafont k) promoted (Map.empty, [])"

section \<open>One round\<close>

record 'd delta_state =
  ds_graph :: border_graph
  ds_cache :: "partition list"
  ds_border_alloc :: border_id_allocator
  ds_commutation_alloc :: commutation_id_allocator
  ds_pending :: "(worker_id \<times> round_start_dispatch) list"
  ds_metrics :: grid_metrics
  ds_dispatch :: 'd

text \<open>Consuming the echoes of all workers, stopping at the first violation.\<close>

fun register_results ::
  "round_result list \<Rightarrow> (nat \<times> border_state) list \<Rightarrow> border_graph \<Rightarrow> (grid_error + (nat \<times> border_state) list \<times> border_graph) option" where
  "register_results [] promoted g = Some (Inr (promoted, g))"
| "register_results (r # rs) promoted g =
     (case register_minted_agents (rr_worker_id r) (rr_minted_agents r) g of
        None \<Rightarrow> None
      | Some (Inl e) \<Rightarrow> Some (Inl e)
      | Some (Inr (new, g1)) \<Rightarrow> register_results rs (promoted @ new) g1)"

text \<open>Applying the deltas of one worker to the graph and to the cached partition.\<close>

definition apply_result :: "round_result \<Rightarrow> border_graph \<times> partition list \<Rightarrow> border_graph \<times> partition list" where
  "apply_result r st =
     (let w = rr_worker_id r; ds = rr_border_deltas r; cache = snd st
      in (apply_deltas w ds (fst st),
          if w < length cache then cache[w := apply_border_deltas_to_partition ds [] [] (cache ! w)] else cache))"

text \<open>Resolving the detected redexes in order.\<close>

definition resolve_one ::
  "partition list \<Rightarrow> nat \<times> border_state \<Rightarrow>
   border_resolution list \<times> border_graph \<times> border_id_allocator \<times> commutation_id_allocator \<Rightarrow>
   (border_resolution list \<times> border_graph \<times> border_id_allocator \<times> commutation_id_allocator) option" where
  "resolve_one cache e st =
     (case st of (rs, g, al, cal) \<Rightarrow>
        map_option (\<lambda>(r, g1, al1, cal1). (rs @ [r], g1, al1, cal1)) (resolve_border_redex g cache (fst e) al cal))"

definition resolve_all ::
  "partition list \<Rightarrow> (nat \<times> border_state) list \<Rightarrow> border_graph \<Rightarrow> border_id_allocator \<Rightarrow> commutation_id_allocator \<Rightarrow>
   (border_resolution list \<times> border_graph \<times> border_id_allocator \<times> commutation_id_allocator) option" where
  "resolve_all cache redexes g al cal = ofold (resolve_one cache) redexes ([], g, al, cal)"

text \<open>Mirroring the payload of one worker into the cached partition.\<close>

definition consumed_agents :: "partition \<Rightarrow> nat list \<Rightarrow> agent_id list" where
  "consumed_agents p resolved =
     List.map_filter (\<lambda>b. case p_free_port_index p b of Some (AgentPort i q) \<Rightarrow> if q = 0 then Some i else None | _ \<Rightarrow> None) resolved"

definition cache_reconnect :: "port_ref \<times> port_ref \<Rightarrow> net \<Rightarrow> net" where
  "cache_reconnect e n =
     (case e of (a, b) \<Rightarrow> if a = DISCONNECTED \<or> b = DISCONNECTED \<or> a = b then n else connect a b n)"

definition mirror_payload :: "round_start_dispatch \<Rightarrow> partition \<Rightarrow> partition" where
  "mirror_payload d p =
     (let gone = consumed_agents p (rd_resolved_borders d);
          p1 = apply_border_deltas_to_partition (rd_border_deltas d) (rd_resolved_borders d) (rd_new_borders d) p
      in p1\<lparr>p_subnet := fold remove_agent gone (fold cache_reconnect (rd_local_reconnections d) (p_subnet p1))\<rparr>)"

definition mirror_one :: "worker_id \<times> round_start_dispatch \<Rightarrow> partition list \<Rightarrow> partition list" where
  "mirror_one e cache =
     (case e of (w, d) \<Rightarrow> if w < length cache then cache[w := mirror_payload d (cache ! w)] else cache)"

definition extend_payload ::
  "(worker_id \<rightharpoonup> (nat \<times> port_ref) list) \<Rightarrow> (worker_id \<rightharpoonup> (port_ref \<times> port_ref) list) \<Rightarrow>
   worker_id \<times> round_start_dispatch \<Rightarrow> worker_id \<times> round_start_dispatch" where
  "extend_payload borders wires e =
     (case e of (w, d) \<Rightarrow>
        (w, d\<lparr>rd_new_borders := rd_new_borders d @ (case borders w of None \<Rightarrow> [] | Some l \<Rightarrow> l),
              rd_local_reconnections := rd_local_reconnections d @ (case wires w of None \<Rightarrow> [] | Some l \<Rightarrow> l)\<rparr>))"

text \<open>The metrics before and after the resolution.\<close>

definition record_results :: "partition list \<Rightarrow> round_result list \<Rightarrow> nat \<Rightarrow> grid_metrics \<Rightarrow> grid_metrics" where
  "record_results cache rs redex_count m =
     m\<lparr>gm_rounds := gm_rounds m + 1,
       gm_agents_per_round := gm_agents_per_round m @ [sum_list (map (\<lambda>p. count_live_agents (p_subnet p)) cache)],
       gm_local_interactions_per_round :=
         gm_local_interactions_per_round m @ [sum_list (map (\<lambda>r. ws_local_redexes (rr_stats r)) rs)],
       gm_worker_stats_per_round := gm_worker_stats_per_round m @ [map rr_stats rs],
       gm_border_redexes_per_round := gm_border_redexes_per_round m @ [redex_count]\<rparr>"

definition record_resolution :: "round_result list \<Rightarrow> nat \<Rightarrow> grid_metrics \<Rightarrow> grid_metrics" where
  "record_resolution rs border_interactions m =
     m\<lparr>gm_border_interactions_per_round := gm_border_interactions_per_round m @ [border_interactions],
       gm_total_interactions_by_rule :=
         add_rules (gm_total_interactions_by_rule m)
           (fold (\<lambda>r acc. add_rules acc (ws_interactions_by_rule (rr_stats r))) rs (replicate 6 0)),
       gm_total_interactions :=
         gm_total_interactions m + (sum_list (map (\<lambda>r. ws_local_redexes (rr_stats r)) rs) + border_interactions)\<rparr>"

type_synonym 'a delta_run = "(grid_error \<times> grid_metrics + 'a) option option"

text \<open>The second half of a round, from the resolver on.\<close>

definition delta_resolve ::
  "delta_env \<Rightarrow> grid_config \<Rightarrow> round_result list \<Rightarrow> (nat \<times> border_state) list \<Rightarrow> (nat \<times> border_state) list \<Rightarrow>
   'd delta_state \<Rightarrow> (bool \<times> 'd delta_state) option" where
  "delta_resolve env cfg results promoted redexes st =
     (case resolve_all (ds_cache st) redexes (ds_graph st) (ds_border_alloc st) (ds_commutation_alloc st) of
        None \<Rightarrow> None
      | Some (rs, g, al, cal) \<Rightarrow>
          (let m = record_resolution results (length rs) (ds_metrics st);
               st1 = st\<lparr>ds_graph := g, ds_border_alloc := al, ds_commutation_alloc := cal, ds_metrics := m\<rparr>;
               converged = (\<not> gc_strict_bsp cfg \<and> promoted = [] \<and>
                  (if length rs = 0 then check_delta_convergence_post_resolve env results g else check_delta_convergence env results g))
           in if converged then Some (True, st1\<lparr>ds_metrics := m\<lparr>gm_converged := True\<rparr>\<rparr>)
              else case package_resolutions_with_pending rs (length (ds_cache st)) of
                     None \<Rightarrow> None
                   | Some (packaged, pending) \<Rightarrow>
                       Some (False, st1\<lparr>
                         ds_graph := enqueue_pending_borders pending g,
                         ds_cache := fold mirror_one packaged (ds_cache st),
                         ds_pending :=
                           map (extend_payload (promoted_borders_to_per_worker_new_borders promoted (length (ds_cache st)))
                                  (fst (promoted_intra_worker_lafont_wires promoted (length (ds_cache st))))) packaged\<rparr>)))"

text \<open>One iteration of the loop below the round limit: \<open>(stop, state)\<close>.\<close>

definition delta_round ::
  "delta_env \<Rightarrow> grid_config \<Rightarrow> 'd worker_dispatch \<Rightarrow> 'd delta_state \<Rightarrow> (bool \<times> 'd delta_state) delta_run" where
  "delta_round env cfg D st =
     (case dispatch_round_start D (ds_pending st) (ds_dispatch st) of
        None \<Rightarrow> None
      | Some None \<Rightarrow> Some None
      | Some (Some (Inl e)) \<Rightarrow> Some (Some (Inl (e, ds_metrics st)))
      | Some (Some (Inr (results, d))) \<Rightarrow>
          (case register_results results [] (ds_graph st) of
             None \<Rightarrow> Some None
           | Some (Inl e) \<Rightarrow> Some (Some (Inl (e, ds_metrics st)))
           | Some (Inr (promoted, g0)) \<Rightarrow>
               (let g1 = fold (\<lambda>b. snd \<circ> remove_border b) (snd (promoted_intra_worker_lafont_wires promoted (length (ds_cache st)))) g0;
                    (g2, cache) = fold apply_result results (g1, ds_cache st);
                    redexes = redexes_of env g2;
                    m = record_results cache results (length redexes) (ds_metrics st);
                    st1 = st\<lparr>ds_graph := g2, ds_cache := cache, ds_metrics := m, ds_dispatch := d\<rparr>
                in if gc_strict_bsp cfg \<and> promoted = [] \<and> check_delta_convergence_post_resolve env results g2
                   then Some (Some (Inr (True, st1\<lparr>ds_metrics :=
                          m\<lparr>gm_border_interactions_per_round := gm_border_interactions_per_round m @ [0], gm_converged := True\<rparr>\<rparr>)))
                   else case delta_resolve env cfg results promoted redexes st1 of
                          None \<Rightarrow> Some None
                        | Some res \<Rightarrow> Some (Some (Inr res)))))"

partial_function (option) delta_loop ::
  "delta_env \<Rightarrow> grid_config \<Rightarrow> 'd worker_dispatch \<Rightarrow> 'd delta_state \<Rightarrow> 'd delta_state delta_run" where
  "delta_loop env cfg D st =
     (if check_max_rounds_cap cfg (ds_metrics st)
      then Some (Some (Inr (st\<lparr>ds_metrics := (ds_metrics st)\<lparr>gm_delta_max_rounds_hit := Some True, gm_converged := False\<rparr>\<rparr>)))
      else case delta_round env cfg D st of
             None \<Rightarrow> None
           | Some None \<Rightarrow> Some None
           | Some (Some (Inl e)) \<Rightarrow> Some (Some (Inl e))
           | Some (Some (Inr (stop, st1))) \<Rightarrow> if stop then Some (Some (Inr st1)) else delta_loop env cfg D st1)"

section \<open>Collection and entry points\<close>

definition reconstruct_partition_plan_from_collected ::
  "partition list \<Rightarrow> border_graph \<Rightarrow> partition list \<Rightarrow> nat \<Rightarrow> partition_plan" where
  "reconstruct_partition_plan_from_collected parts g reclaimed next_border =
     \<lparr>pl_partitions = sort_key p_worker_id (parts @ reclaimed),
      pl_borders = (\<lambda>b. map_option (\<lambda>s. (bs_side_a s, bs_side_b s)) (bg_borders g b)), pl_next_border_id = next_border\<rparr>"

definition run_grid_delta_final_collect ::
  "delta_env \<Rightarrow> 'd worker_dispatch \<Rightarrow> 'd delta_state \<Rightarrow> net delta_run" where
  "run_grid_delta_final_collect env D st =
     (let rnd = gm_rounds (ds_metrics st)
      in case dispatch_final_state_request D rnd (ds_dispatch st) of
           None \<Rightarrow> None
         | Some None \<Rightarrow> Some None
         | Some (Some (Inl e)) \<Rightarrow> Some (Some (Inl (e, ds_metrics st)))
         | Some (Some (Inr (collected, d))) \<Rightarrow>
             if collected \<noteq> [] \<and> length collected \<noteq> length (ds_cache st)
             then Some (Some (Inl (DispatchFailed rnd ''FinalStateResult count mismatch'', ds_metrics st)))
             else
               (let parts = (if collected = [] then ds_cache st else sort_key p_worker_id collected);
                    plan = reconstruct_partition_plan_from_collected parts (ds_graph st) [] 0
                in Some (Some (Inr (fst (merge (ge_border_order (de_grid env) (pl_borders plan)) plan))))))"

definition delta_start ::
  "delta_env \<Rightarrow> partition_plan \<Rightarrow> grid_metrics \<Rightarrow> 'd \<Rightarrow> 'd delta_state option" where
  "delta_start env plan m d =
     (case from_partition_plan (ge_border_order (de_grid env) (pl_borders plan)) (\<lambda>p. ge_index_order (de_grid env) (p_free_port_index p))
             (de_sight_order env) plan of
        None \<Rightarrow> None
      | Some g \<Rightarrow>
          Some \<lparr>ds_graph = g, ds_cache = pl_partitions plan,
                ds_border_alloc = border_alloc_from_graph (de_state_order env (bg_borders g)) g,
                ds_commutation_alloc = commutation_alloc_new,
                ds_pending = List.enumerate 0 (replicate (length (pl_partitions plan)) dispatch_default),
                ds_metrics = m\<lparr>gm_agents_per_round :=
                  gm_agents_per_round m @ [sum_list (map (\<lambda>p. count_live_agents (p_subnet p)) (pl_partitions plan))]\<rparr>,
                ds_dispatch = d\<rparr>)"

definition run_grid_delta_inner ::
  "delta_env \<Rightarrow> grid_config \<Rightarrow> 'd worker_dispatch \<Rightarrow> partition_plan \<Rightarrow> grid_metrics \<Rightarrow> 'd \<Rightarrow> (net \<times> grid_metrics) delta_run" where
  "run_grid_delta_inner env cfg D plan m d =
     (case dispatch_initial D plan d of
        None \<Rightarrow> None
      | Some None \<Rightarrow> Some None
      | Some (Some (Inl e)) \<Rightarrow> Some (Some (Inl (e, m)))
      | Some (Some (Inr d1)) \<Rightarrow>
          (case delta_start env plan m d1 of
             None \<Rightarrow> Some None
           | Some st \<Rightarrow>
               (case delta_loop env cfg D st of
                  None \<Rightarrow> None
                | Some None \<Rightarrow> Some None
                | Some (Some (Inl e)) \<Rightarrow> Some (Some (Inl e))
                | Some (Some (Inr st1)) \<Rightarrow>
                    map_option (map_option (map_sum id (\<lambda>n. (n, ds_metrics st1)))) (run_grid_delta_final_collect env D st1))))"

definition run_grid_delta ::
  "delta_env \<Rightarrow> grid_config \<Rightarrow> 'd worker_dispatch \<Rightarrow> net \<Rightarrow> 'd \<Rightarrow> (net \<times> grid_metrics) option option" where
  "run_grid_delta env cfg D n d =
     (if gc_num_workers cfg < 1 then Some None
      else
        (let n1 = drain_stale_redexes n; m = metrics_default\<lparr>gm_delta_mode := True\<rparr>
         in if redex_queue n1 = [] then Some (Some (n1, m\<lparr>gm_converged := True\<rparr>))
            else if gc_num_workers cfg = 1 then run_single_worker cfg n1 m
            else case split_with_config (ge_allocate (de_grid env)) (ge_order (de_grid env)) (partition_cfg cfg) n1 (gc_num_workers cfg) of
                   None \<Rightarrow> Some None
                 | Some plan \<Rightarrow>
                     (case run_grid_delta_inner env cfg D plan m d of
                        None \<Rightarrow> None
                      | Some None \<Rightarrow> Some None
                      | Some (Some (Inl (e, m1))) \<Rightarrow> Some (Some (net_new, m1\<lparr>gm_converged := False\<rparr>))
                      | Some (Some (Inr res)) \<Rightarrow> Some (Some res))))"

definition run_grid_entry ::
  "delta_env \<Rightarrow> grid_config \<Rightarrow> ('d worker_dispatch \<times> 'd) option \<Rightarrow> net \<Rightarrow> (net \<times> grid_metrics) option option" where
  "run_grid_entry env cfg dispatch n =
     (if gc_delta_mode cfg then (case dispatch of None \<Rightarrow> Some None | Some (D, d) \<Rightarrow> run_grid_delta env cfg D n d)
      else run_grid (de_grid env) cfg n)"

text \<open>Rebuilding a net after a departure; \<open>sorter\<close> is the unstable sort of the ranges by start.\<close>

fun adjacent_disjoint :: "id_rng list \<Rightarrow> bool" where
  "adjacent_disjoint (a # b # rs) \<longleftrightarrow> ir_end a \<le> ir_start b \<and> adjacent_disjoint (b # rs)"
| "adjacent_disjoint rs \<longleftrightarrow> True"

definition reconstruct ::
  "grid_env \<Rightarrow> (id_rng list \<Rightarrow> id_rng list) \<Rightarrow> border_graph \<Rightarrow> partition list \<Rightarrow> partition list \<Rightarrow> net option" where
  "reconstruct env sorter g surviving reclaimed =
     (let parts = surviving @ reclaimed
      in if \<not> adjacent_disjoint (sorter (map p_id_range parts)) then None
         else if \<not> fold max (map (\<lambda>p. next_id (p_subnet p)) parts) 0 < u32_MAX then None
         else
           (let plan = reconstruct_partition_plan_from_collected surviving g reclaimed 0
            in Some (fst (merge (ge_border_order env (pl_borders plan)) plan))))"

section \<open>Workers in process\<close>

definition local_initial :: "partition_plan \<Rightarrow> worker_context list \<Rightarrow> worker_context list reply" where
  "local_initial plan ws =
     (if length (pl_partitions plan) \<noteq> length ws then Some None
      else Some (Some (Inr (map2 (\<lambda>c p. fst (handle_initial_partition c p)) ws (pl_partitions plan)))))"

definition worker_reconnections :: "(port_ref \<times> port_ref) list \<Rightarrow> local_reconnection list" where
  "worker_reconnections wires =
     List.map_filter (\<lambda>(a, b). case a of
         AgentPort i p \<Rightarrow> Some \<lparr>lr_agent_id = i, lr_port = p, lr_new_target = b\<rparr>
       | FreePort f \<Rightarrow> None) wires"

text \<open>Scanning the actions of a worker: an error ends the round, the last round result counts.\<close>

fun scan_actions :: "worker_id \<Rightarrow> worker_action list \<Rightarrow> round_result option \<Rightarrow> worker_error + round_result option" where
  "scan_actions w [] res = Inr res"
| "scan_actions w (SendMessage (RoundResult rnd ds stats act mints) # as) res =
     scan_actions w as (Some \<lparr>rr_worker_id = w, rr_round = rnd, rr_border_deltas = ds, rr_stats = stats,
                              rr_has_border_activity = act, rr_minted_agents = mints\<rparr>)"
| "scan_actions w (WorkerActionError e # as) res = Inl e"
| "scan_actions w (a # as) res = scan_actions w as res"

definition local_round ::
  "((nat \<rightharpoonup> port_ref) \<Rightarrow> nat list) \<Rightarrow> worker_id \<times> round_start_dispatch \<Rightarrow> worker_context list \<Rightarrow> (round_result \<times> worker_context list) reply" where
  "local_round ord e ws =
     (case e of (w, d) \<Rightarrow>
        if w \<ge> length ws then Some None
        else
          let rnd = wc_round (ws ! w) + 1
          in case handle_round_start ord (ws ! w) rnd (rd_border_deltas d) (rd_resolved_borders d) (rd_new_borders d)
                    (worker_reconnections (rd_local_reconnections d)) (map commutation_batch_to_pending (rd_pending_commutations d)) of
               None \<Rightarrow> None
             | Some None \<Rightarrow> Some None
             | Some (Some (c, actions)) \<Rightarrow>
                 (case scan_actions w actions None of
                    Inl err \<Rightarrow> Some (Some (Inl (DispatchFailed rnd ''LocalDeltaDispatch: worker error'')))
                  | Inr None \<Rightarrow> Some None
                  | Inr (Some r) \<Rightarrow> Some (Some (Inr (r, ws[w := c])))))"

fun local_rounds ::
  "((nat \<rightharpoonup> port_ref) \<Rightarrow> nat list) \<Rightarrow> (worker_id \<times> round_start_dispatch) list \<Rightarrow> worker_context list \<Rightarrow>
   (round_result list \<times> worker_context list) reply" where
  "local_rounds ord [] ws = Some (Some (Inr ([], ws)))"
| "local_rounds ord (e # es) ws =
     (case local_round ord e ws of
        None \<Rightarrow> None
      | Some None \<Rightarrow> Some None
      | Some (Some (Inl err)) \<Rightarrow> Some (Some (Inl err))
      | Some (Some (Inr (r, ws1))) \<Rightarrow>
          (case local_rounds ord es ws1 of
             None \<Rightarrow> None
           | Some None \<Rightarrow> Some None
           | Some (Some (Inl err)) \<Rightarrow> Some (Some (Inl err))
           | Some (Some (Inr (rs, ws2))) \<Rightarrow> Some (Some (Inr (r # rs, ws2)))))"

definition cleanup_t1_violations :: "partition \<Rightarrow> partition" where
  "cleanup_t1_violations p =
     (let n = p_subnet p;
          dead = filter (\<lambda>i. get_agent n i \<noteq> None \<and> get_target n (AgentPort i 0) = DISCONNECTED) [0..<length (agents n)]
      in p\<lparr>p_subnet := fold remove_agent dead n\<rparr>)"

fun final_partition :: "worker_action list \<Rightarrow> partition option" where
  "final_partition [] = None"
| "final_partition (SendMessage (FinalStateResult rnd p) # as) = Some (cleanup_t1_violations p)"
| "final_partition (a # as) = final_partition as"

fun local_final :: "nat \<Rightarrow> worker_context list \<Rightarrow> (partition list \<times> worker_context list) option" where
  "local_final rnd [] = Some ([], [])"
| "local_final rnd (c # cs) =
     (case handle_final_state_request c rnd of
        None \<Rightarrow> None
      | Some (c1, actions) \<Rightarrow>
          map_option (\<lambda>(ps, cs1). ((case final_partition actions of None \<Rightarrow> ps | Some p \<Rightarrow> p # ps), c1 # cs1)) (local_final rnd cs))"

definition local_dispatch :: "((nat \<rightharpoonup> port_ref) \<Rightarrow> nat list) \<Rightarrow> worker_context list worker_dispatch" where
  "local_dispatch ord =
     \<lparr>dispatch_initial = local_initial, dispatch_round_start = local_rounds ord,
      dispatch_final_state_request = (\<lambda>rnd ws. Some (map_option Inr (local_final rnd ws)))\<rparr>"

end
