(* ===== verification/Grid_Delta_Props.thy ===== *)
theory Grid_Delta_Props
  imports Grid_Delta Grid_Props Resolver_Props
begin

text \<open>
  What the delta loop guarantees whatever the workers answer: a well-formed border graph and one payload
  per worker in every reachable state, truthful metrics, and a verdict of convergence that rests on quiet
  workers and a graph without redexes.  The transport is a locale; the workers in process are its
  interpretation.
\<close>

section \<open>One round\<close>

lemma ofold_invariant:
  assumes "ofold f xs s = Some t" "P s" "\<And>x s t. f x s = Some t \<Longrightarrow> P s \<Longrightarrow> P t"
  shows "P t"
  using assms by (induction xs arbitrary: s) (auto dest!: bind_eq_SomeD)

lemma length_update_at: "update_at w f xs = Some ys \<Longrightarrow> length ys = length xs"
  by (auto simp: update_at_def split: if_splits)

lemma length_pack:
  "pack_deltas e ds = Some ds' \<Longrightarrow> length ds' = length ds"
  "pack_resolved r ds = Some ds' \<Longrightarrow> length ds' = length ds"
  "pack_new b ds = Some ds' \<Longrightarrow> length ds' = length ds"
  "pack_batch c ds = Some ds' \<Longrightarrow> length ds' = length ds"
  by (auto simp: pack_deltas_def pack_resolved_def pack_new_def pack_batch_def Let_def split: prod.splits if_splits
      dest!: bind_eq_SomeD length_update_at)

lemma length_ofold:
  "(\<And>x s t. f x s = Some t \<Longrightarrow> length t = length s) \<Longrightarrow> ofold f xs s = Some t \<Longrightarrow> length t = length s"
  by (rule ofold_invariant [where P = "\<lambda>t. length t = length s"]) auto

lemma length_packs:
  "ofold pack_deltas es ds = Some ds' \<Longrightarrow> length ds' = length ds"
  "ofold pack_resolved rs ds = Some ds' \<Longrightarrow> length ds' = length ds"
  "ofold pack_new bs ds = Some ds' \<Longrightarrow> length ds' = length ds"
  "ofold pack_batch cs ds = Some ds' \<Longrightarrow> length ds' = length ds"
  by (erule length_ofold [rotated], erule length_pack)+

lemma length_pack_resolution: "pack_resolution r st = Some st' \<Longrightarrow> length (fst st') = length (fst st)"
  by (auto simp: pack_resolution_def dest!: bind_eq_SomeD length_packs)

lemma packaged_workers:
  assumes "package_resolutions_with_pending rs k = Some (packaged, pending)"
  shows "map fst packaged = [0..<k]"
proof -
  obtain ds where ds: "ofold pack_resolution rs (replicate k dispatch_default, []) = Some (ds, pending)" "packaged = List.enumerate 0 ds"
    using assms by (auto simp: package_resolutions_with_pending_def package_resolutions_inner_def)
  have "length (fst (ds, pending)) = k"
    using ds(1) by (rule ofold_invariant) (simp_all add: length_pack_resolution)
  then show ?thesis
    using ds(2) by simp
qed

lemma resolve_border_redex_graph:
  "resolve_border_redex g parts b al cal = Some (r, g', al', cal') \<Longrightarrow> g' = snd (remove_border b g)"
  by (auto simp: resolve_border_redex_def split: Option.bind_splits)

lemma resolve_all_inv:
  assumes "resolve_all cache redexes g al cal = Some (rs, g', al', cal')" "bg_inv g"
  shows "bg_inv g'" "length rs = length redexes"
proof -
  have "bg_inv (fst (snd (rs, g', al', cal')))"
    by (rule ofold_invariant [OF assms(1) [unfolded resolve_all_def], where P = "\<lambda>s. bg_inv (fst (snd s))"])
       (auto simp: assms(2) resolve_one_def bg_inv_remove_border dest!: resolve_border_redex_graph)
  then show "bg_inv g'"
    by simp
  have "length (fst t) = length (fst s) + length redexes" if "ofold (resolve_one cache) redexes s = Some t" for s t
    using that by (induction redexes arbitrary: s) (auto simp: resolve_one_def dest!: bind_eq_SomeD)
  then show "length rs = length redexes"
    using assms(1) by (fastforce simp: resolve_all_def)
qed

lemma register_results_inv: "register_results rs promoted g = Some (Inr (promoted', g')) \<Longrightarrow> bg_inv g \<Longrightarrow> bg_inv g'"
  by (induction rs promoted g rule: register_results.induct) (auto split: option.splits sum.splits dest: bg_inv_register)

lemma apply_results_inv:
  assumes "fold apply_result rs (g, cache) = (g', cache')"
  shows "bg_inv g \<Longrightarrow> bg_inv g'" "length cache' = length cache"
proof -
  have "(bg_inv (fst st) \<longrightarrow> bg_inv (fst (fold apply_result rs st))) \<and> length (snd (fold apply_result rs st)) = length (snd st)" for st
    by (induction rs arbitrary: st) (auto simp: apply_result_def Let_def bg_inv_apply_deltas)
  from this [of "(g, cache)"] show "bg_inv g \<Longrightarrow> bg_inv g'" "length cache' = length cache"
    using assms by simp_all
qed

lemma length_mirror: "length (fold mirror_one es cache) = length cache"
  by (induction es arbitrary: cache) (auto simp: mirror_one_def split: prod.splits)

lemma extend_payload_fst: "map fst (map (extend_payload b w) es) = map fst es"
  by (auto simp: extend_payload_def split: prod.splits)

text \<open>The course of a round that ends without error.\<close>

lemma delta_round_Inr:
  assumes "delta_round env cfg D st = Some (Some (Inr (stop, st')))"
  obtains results d promoted g0 g2 cache st1 where
    "dispatch_round_start D (ds_pending st) (ds_dispatch st) = Some (Some (Inr (results, d)))"
    "register_results results [] (ds_graph st) = Some (Inr (promoted, g0))"
    "fold apply_result results (fold (\<lambda>b. snd \<circ> remove_border b)
       (snd (promoted_intra_worker_lafont_wires promoted (length (ds_cache st)))) g0, ds_cache st) = (g2, cache)"
    "st1 = st\<lparr>ds_graph := g2, ds_cache := cache,
       ds_metrics := record_results cache results (length (redexes_of env g2)) (ds_metrics st), ds_dispatch := d\<rparr>"
    "gc_strict_bsp cfg \<and> promoted = [] \<and> check_delta_convergence_post_resolve env results g2 \<and> stop \<and>
       st' = st1\<lparr>ds_metrics := (ds_metrics st1)\<lparr>gm_border_interactions_per_round := gm_border_interactions_per_round (ds_metrics st1) @ [0],
                                                gm_converged := True\<rparr>\<rparr> \<or>
     delta_resolve env cfg results promoted (redexes_of env g2) st1 = Some (stop, st')"
proof -
  obtain results d where d: "dispatch_round_start D (ds_pending st) (ds_dispatch st) = Some (Some (Inr (results, d)))"
    using assms by (auto simp: delta_round_def split: option.splits sum.splits)
  obtain promoted g0 where g0: "register_results results [] (ds_graph st) = Some (Inr (promoted, g0))"
    using assms d by (auto simp: delta_round_def split: option.splits sum.splits)
  obtain g2 cache where g2: "fold apply_result results (fold (\<lambda>b. snd \<circ> remove_border b)
       (snd (promoted_intra_worker_lafont_wires promoted (length (ds_cache st)))) g0, ds_cache st) = (g2, cache)"
    by fastforce
  show ?thesis
    using that [OF d g0 g2 refl] assms d g0 g2 unfolding delta_round_def Let_def
    by (auto split: if_splits option.splits)
qed

section \<open>The invariant of the loop\<close>

definition delta_inv :: "nat \<Rightarrow> 'd delta_state \<Rightarrow> bool" where
  "delta_inv k st \<longleftrightarrow> bg_inv (ds_graph st) \<and> length (ds_cache st) = k \<and> map fst (ds_pending st) = [0..<k]"

lemma delta_resolve_inv:
  assumes "delta_resolve env cfg results promoted redexes st = Some (stop, st')" "delta_inv k st"
  shows "delta_inv k st'"
proof -
  obtain rs g al cal where r: "resolve_all (ds_cache st) redexes (ds_graph st) (ds_border_alloc st) (ds_commutation_alloc st) = Some (rs, g, al, cal)"
    using assms(1) by (auto simp: delta_resolve_def split: option.splits)
  have g: "bg_inv g" "bg_inv (enqueue_pending_borders ps g)" for ps
    using resolve_all_inv(1) [OF r] assms(2) by (auto simp: delta_inv_def enqueue_pending_borders_def intro: bg_inv_frame)
  show ?thesis
    using assms r g unfolding delta_resolve_def Let_def
    by (auto simp: delta_inv_def length_mirror extend_payload_fst simp del: map_map split: if_splits option.splits dest!: packaged_workers)
qed

lemma delta_round_inv:
  assumes "delta_round env cfg D st = Some (Some (Inr (stop, st')))" "delta_inv k st"
  shows "delta_inv k st'"
  using assms(1)
proof (cases rule: delta_round_Inr)
  case (1 results d promoted g0 g2 cache st1)
  have "bg_inv g0"
    using register_results_inv [OF 1(2)] assms(2) by (simp add: delta_inv_def)
  then have "bg_inv g2" "length cache = length (ds_cache st)"
    using apply_results_inv [OF 1(3)] bg_inv_remove_borders by blast+
  then have "delta_inv k st1"
    using assms(2) 1(4) by (simp add: delta_inv_def)
  then show ?thesis
    using 1(5) delta_resolve_inv by (fastforce simp: delta_inv_def)
qed

text \<open>The states a run can pass through, for any transport.\<close>

inductive delta_reach :: "delta_env \<Rightarrow> grid_config \<Rightarrow> 'd worker_dispatch \<Rightarrow> 'd delta_state \<Rightarrow> 'd delta_state \<Rightarrow> bool"
  for env cfg D st0 where
  start: "delta_reach env cfg D st0 st0"
| step: "delta_reach env cfg D st0 st \<Longrightarrow> \<not> check_max_rounds_cap cfg (ds_metrics st) \<Longrightarrow>
    delta_round env cfg D st = Some (Some (Inr (stop, st'))) \<Longrightarrow> delta_reach env cfg D st0 st'"

text \<open>The iteration orders visit every key exactly once.\<close>

definition delta_orders :: "delta_env \<Rightarrow> bool" where
  "delta_orders env \<longleftrightarrow>
     (\<forall>m. finite (dom m) \<longrightarrow> lists_keys (ge_border_order (de_grid env) m) m) \<and>
     (\<forall>m. finite (dom m) \<longrightarrow> lists_keys (ge_index_order (de_grid env) m) m) \<and>
     (\<forall>m. finite (dom m) \<longrightarrow> lists_keys (de_sight_order env m) m) \<and>
     (\<forall>m. finite (dom m) \<longrightarrow> lists_keys (de_state_order env m) m) \<and>
     (\<forall>S. finite S \<longrightarrow> distinct (de_active_order env S) \<and> set (de_active_order env S) = S)"

lemma delta_ordersD:
  assumes "delta_orders env"
  shows "finite (dom m) \<Longrightarrow> lists_keys (ge_border_order (de_grid env) m) m"
    "finite (dom m1) \<Longrightarrow> lists_keys (ge_index_order (de_grid env) m1) m1"
    "finite (dom m2) \<Longrightarrow> lists_keys (de_sight_order env m2) m2"
    "finite S \<Longrightarrow> distinct (de_active_order env S)" "finite S \<Longrightarrow> set (de_active_order env S) = S"
  using assms by (simp_all add: delta_orders_def)

lemma delta_start_inv:
  assumes "delta_orders env" "delta_start env plan m d = Some st" "finite (dom (pl_borders plan))"
    and "\<forall>p \<in> set (pl_partitions plan). finite (dom (p_free_port_index p))"
  shows "delta_inv (length (pl_partitions plan)) st"
proof -
  let ?idx = "\<lambda>p. ge_index_order (de_grid env) (p_free_port_index p)"
  obtain g where g: "from_partition_plan (ge_border_order (de_grid env) (pl_borders plan)) ?idx (de_sight_order env) plan = Some g"
    using assms(2) by (auto simp: delta_start_def split: option.splits)
  have "bg_inv g"
    using from_partition_plan_spec(2) [OF delta_ordersD(1) [OF assms(1,3)] _ _ _ g] delta_ordersD(2,3) [OF assms(1)] assms(4) by simp
  then show ?thesis
    using assms(2) g by (auto simp: delta_start_def delta_inv_def)
qed

text \<open>
  Whatever the workers answer, every state of the delta loop is well formed (C15).  From a plan on, in
  every reachable state and for every transport, the border graph keeps its invariant (each border filed
  under its identifier, the cached redex flags and the incremental redex set exact), the cache has one
  partition per worker and the next message has exactly one payload per worker in ascending order.
\<close>

theorem delta_loop_invariant:
  assumes "delta_orders env" "delta_start env plan m d = Some st0" "finite (dom (pl_borders plan))"
    and "\<forall>p \<in> set (pl_partitions plan). finite (dom (p_free_port_index p))"
    and "delta_reach env cfg D st0 st"
  shows "bg_inv (ds_graph st) \<and> length (ds_cache st) = length (pl_partitions plan) \<and>
    map fst (ds_pending st) = [0..<length (pl_partitions plan)]"
proof -
  have "delta_inv (length (pl_partitions plan)) st"
    using assms(5) delta_start_inv [OF assms(1-4)] by (induction rule: delta_reach.induct) (auto intro: delta_round_inv)
  then show ?thesis
    by (simp add: delta_inv_def)
qed

section \<open>Convergence\<close>

lemma redexes_of_Nil:
  assumes "delta_orders env" "bg_inv g"
  shows "redexes_of env g = [] \<longleftrightarrow> bg_active_redexes g = {}" "length (redexes_of env g) = card (bg_active_redexes g)"
proof -
  let ?l = "de_active_order env (bg_active_redexes g)"
  have "bg_active_redexes g \<subseteq> dom (bg_borders g)"
    using bg_invD(4) [OF assms(2)] by auto
  then have l: "finite (bg_active_redexes g)" "distinct ?l" "set ?l = bg_active_redexes g" "set ?l \<subseteq> dom (bg_borders g)"
    using delta_ordersD(4,5) [OF assms(1)] finite_subset [OF _ bg_invD(1) [OF assms(2)]] by simp_all
  have "length (List.map_filter (\<lambda>b. map_option (Pair b) (bg_borders g b)) xs) = length xs" if "set xs \<subseteq> dom (bg_borders g)" for xs
    using that by (induction xs) (auto simp: map_filter_simps)
  then have len: "length (redexes_of env g) = length ?l"
    using l(4) by (simp add: redexes_of_def detect_border_redexes_def)
  then show "length (redexes_of env g) = card (bg_active_redexes g)"
    using l(2,3) distinct_card by metis
  then show "redexes_of env g = [] \<longleftrightarrow> bg_active_redexes g = {}"
    using l(1) by (metis card_0_eq length_0_conv)
qed

lemma inert_remote_from_iff:
  "inert_remote_from ss saw \<longleftrightarrow>
     (\<forall>s \<in> set ss. \<not> (is_principal (bs_side_a s) \<and> is_principal (bs_side_b s))) \<and>
     (saw \<or> (\<exists>s \<in> set ss. is_principal (bs_side_a s) \<or> is_principal (bs_side_b s)))"
  by (induction ss saw rule: inert_remote_from.induct) (auto simp: Let_def)

text \<open>
  Convergence of the delta loop is sound (C16).  When a round ends the loop, every worker reported no
  local interaction, the border graph has no redex left, no border was promoted in this round, and
  either no redex had been detected at all or every worker reported no border activity, so that no
  resolution is dropped while a worker knows of a principal border port.
\<close>

theorem delta_converged_sound:
  assumes "delta_orders env" "delta_inv k st" "delta_round env cfg D st = Some (Some (Inr (True, st')))"
  shows "\<exists>results d g. dispatch_round_start D (ds_pending st) (ds_dispatch st) = Some (Some (Inr (results, d))) \<and>
    register_results results [] (ds_graph st) = Some (Inr ([], g)) \<and>
    (\<forall>r \<in> set results. ws_local_redexes (rr_stats r) = 0) \<and> bg_active_redexes (ds_graph st') = {} \<and>
    (last (gm_border_redexes_per_round (ds_metrics st')) = 0 \<or> (\<forall>r \<in> set results. \<not> rr_has_border_activity r)) \<and>
    gm_converged (ds_metrics st')"
  using assms(3)
proof (cases rule: delta_round_Inr)
  case (1 results d promoted g0 g2 cache st1)
  have inv: "bg_inv (ds_graph st')" "bg_inv g2"
    using delta_round_inv [OF assms(3,2)] register_results_inv [OF 1(2)] assms(2) apply_results_inv(1) [OF 1(3)] bg_inv_remove_borders
    by (auto simp: delta_inv_def)
  show ?thesis
    using 1(5)
  proof
    assume s: "gc_strict_bsp cfg \<and> promoted = [] \<and> check_delta_convergence_post_resolve env results g2 \<and> True \<and>
       st' = st1\<lparr>ds_metrics := (ds_metrics st1)\<lparr>gm_border_interactions_per_round := gm_border_interactions_per_round (ds_metrics st1) @ [0],
                                                gm_converged := True\<rparr>\<rparr>"
    then show ?thesis
      using 1(1,2,4) redexes_of_Nil(1) [OF assms(1) inv(2)]
      by (auto simp: check_delta_convergence_post_resolve_def record_results_def list_all_iff split: if_splits)
  next
    assume res: "delta_resolve env cfg results promoted (redexes_of env g2) st1 = Some (True, st')"
    then obtain rs g al cal where r: "resolve_all (ds_cache st1) (redexes_of env g2) (ds_graph st1) (ds_border_alloc st1) (ds_commutation_alloc st1) = Some (rs, g, al, cal)"
      by (auto simp: delta_resolve_def split: option.splits)
    have len: "length rs = length (redexes_of env g2)" and g: "bg_inv g"
      using resolve_all_inv [OF r] inv(2) 1(4) by simp_all
    have c: "promoted = []" "if length rs = 0 then check_delta_convergence_post_resolve env results g else check_delta_convergence env results g"
        "ds_graph st' = g" "ds_metrics st' = (record_resolution results (length rs) (ds_metrics st1))\<lparr>gm_converged := True\<rparr>"
      using res r unfolding delta_resolve_def Let_def by (auto split: if_splits option.splits)
    then show ?thesis
      using 1(1,2,4) redexes_of_Nil(1) [OF assms(1) g] len
      by (auto simp: check_delta_convergence_post_resolve_def check_delta_convergence_def record_results_def record_resolution_def list_all_iff
          split: if_splits)
  qed
qed

section \<open>The report\<close>

text \<open>The books of a delta run; \<open>x\<close> is the number of agent counts recorded before the first round.\<close>

definition delta_books :: "nat \<Rightarrow> grid_metrics \<Rightarrow> bool" where
  "delta_books x m \<longleftrightarrow>
     length (gm_agents_per_round m) = gm_rounds m + x \<and>
     length (gm_local_interactions_per_round m) = gm_rounds m \<and> length (gm_border_interactions_per_round m) = gm_rounds m \<and>
     length (gm_border_redexes_per_round m) = gm_rounds m \<and> length (gm_worker_stats_per_round m) = gm_rounds m \<and>
     length (gm_total_interactions_by_rule m) = 6 \<and>
     sum_list (gm_total_interactions_by_rule m) = sum_list (gm_local_interactions_per_round m) \<and>
     gm_total_interactions m = sum_list (gm_local_interactions_per_round m) + sum_list (gm_border_interactions_per_round m)"

definition delta_progress :: "nat \<Rightarrow> grid_config \<Rightarrow> grid_metrics \<Rightarrow> bool" where
  "delta_progress x cfg m \<longleftrightarrow> delta_books x m \<and> (\<forall>k. gc_max_rounds cfg = Some k \<longrightarrow> gm_rounds m \<le> k)"

lemma delta_books_frame [simp]:
  "delta_books x (m\<lparr>gm_converged := v\<rparr>) = delta_books x m" "delta_books x (m\<lparr>gm_delta_max_rounds_hit := h\<rparr>) = delta_books x m"
  "delta_books x (m\<lparr>gm_delta_mode := b\<rparr>) = delta_books x m"
  by (simp_all add: delta_books_def)

lemma delta_round_books:
  assumes "delta_books x m" "\<forall>r \<in> set rs. worker_stats_ok (rr_stats r)"
  shows "delta_books x (record_resolution rs b (record_results cache rs c m))"
    "\<forall>r \<in> set rs. ws_local_redexes (rr_stats r) = 0 \<Longrightarrow>
     delta_books x ((record_results cache rs c m)\<lparr>gm_border_interactions_per_round := gm_border_interactions_per_round m @ [0]\<rparr>)"
proof -
  let ?l = "fold (\<lambda>r acc. add_rules acc (ws_interactions_by_rule (rr_stats r))) rs (replicate 6 0)"
  have "?l = fold (\<lambda>s acc. add_rules acc (ws_interactions_by_rule s)) (map rr_stats rs) (replicate 6 0)"
    by (simp add: fold_map comp_def)
  then have l: "length ?l = 6" "sum_list ?l = sum_list (map (\<lambda>r. ws_local_redexes (rr_stats r)) rs)"
    using fold_rules [of "map rr_stats rs" "replicate 6 0"] assms(2) by (simp_all add: comp_def)
  show "delta_books x (record_resolution rs b (record_results cache rs c m))"
    using assms(1) l add_rules_sum [of "gm_total_interactions_by_rule m" ?l]
    by (simp add: delta_books_def record_resolution_def record_results_def)
  show "delta_books x ((record_results cache rs c m)\<lparr>gm_border_interactions_per_round := gm_border_interactions_per_round m @ [0]\<rparr>)"
    if "\<forall>r \<in> set rs. ws_local_redexes (rr_stats r) = 0"
  proof -
    have "sum_list (map (\<lambda>r. ws_local_redexes (rr_stats r)) rs) = 0"
      using that by simp
    then show ?thesis
      using assms(1) by (simp add: delta_books_def record_results_def)
  qed
qed

lemma record_rounds [simp]:
  "gm_rounds (record_results cache rs c m) = Suc (gm_rounds m)" "gm_rounds (record_resolution rs b m) = gm_rounds m"
  "gm_border_interactions_per_round (record_results cache rs c m) = gm_border_interactions_per_round m"
  by (simp_all add: record_results_def record_resolution_def)

lemma delta_resolve_metrics:
  assumes "delta_resolve env cfg results promoted redexes st = Some (stop, st')"
  obtains b where "ds_metrics st' = record_resolution results b (ds_metrics st) \<and> \<not> stop \<or>
    ds_metrics st' = (record_resolution results b (ds_metrics st))\<lparr>gm_converged := True\<rparr>"
proof -
  obtain rs g al cal where r: "resolve_all (ds_cache st) redexes (ds_graph st) (ds_border_alloc st) (ds_commutation_alloc st) = Some (rs, g, al, cal)"
    using assms by (auto simp: delta_resolve_def split: option.splits)
  show ?thesis
    using that [of "length rs"] assms r unfolding delta_resolve_def Let_def by (auto split: if_splits option.splits)
qed

text \<open>
  The contract of a transport: one result per payload, in the order of the payloads, each with
  statistics that add up.
\<close>

locale delta_transport =
  fixes D :: "'d worker_dispatch"
  assumes one_per_worker:
      "dispatch_round_start D pend d = Some (Some (Inr (rs, d'))) \<Longrightarrow> map rr_worker_id rs = map fst pend"
    and stats_add_up:
      "dispatch_round_start D pend d = Some (Some (Inr (rs, d'))) \<Longrightarrow> r \<in> set rs \<Longrightarrow> worker_stats_ok (rr_stats r)"
begin

lemma results_cover:
  assumes "delta_inv k st" "dispatch_round_start D (ds_pending st) (ds_dispatch st) = Some (Some (Inr (rs, d)))"
  shows "map rr_worker_id rs = [0..<k]"
  using one_per_worker [OF assms(2)] assms(1) by (simp add: delta_inv_def)

lemma round_books:
  assumes "delta_round env cfg D st = Some (Some (Inr (stop, st')))" "delta_books x (ds_metrics st)"
  shows "delta_books x (ds_metrics st')" "gm_rounds (ds_metrics st') = Suc (gm_rounds (ds_metrics st))"
    "stop \<Longrightarrow> gm_converged (ds_metrics st')"
proof -
  have "delta_books x (ds_metrics st') \<and> gm_rounds (ds_metrics st') = Suc (gm_rounds (ds_metrics st)) \<and> (stop \<longrightarrow> gm_converged (ds_metrics st'))"
    using assms(1)
  proof (cases rule: delta_round_Inr)
    case (1 results d promoted g0 g2 cache st1)
    have ok: "\<forall>r \<in> set results. worker_stats_ok (rr_stats r)"
      using stats_add_up [OF 1(1)] by blast
    show ?thesis
      using 1(5)
    proof
      assume s: "gc_strict_bsp cfg \<and> promoted = [] \<and> check_delta_convergence_post_resolve env results g2 \<and> stop \<and>
         st' = st1\<lparr>ds_metrics := (ds_metrics st1)\<lparr>gm_border_interactions_per_round := gm_border_interactions_per_round (ds_metrics st1) @ [0],
                                                  gm_converged := True\<rparr>\<rparr>"
      then have "\<forall>r \<in> set results. ws_local_redexes (rr_stats r) = 0"
        by (auto simp: check_delta_convergence_post_resolve_def list_all_iff split: if_splits)
      from delta_round_books(2) [OF assms(2) ok this] show ?thesis
        using s 1(4) by simp
    next
      assume "delta_resolve env cfg results promoted (redexes_of env g2) st1 = Some (stop, st')"
      then obtain b where "ds_metrics st' = record_resolution results b (ds_metrics st1) \<and> \<not> stop \<or>
          ds_metrics st' = (record_resolution results b (ds_metrics st1))\<lparr>gm_converged := True\<rparr>"
        by (rule delta_resolve_metrics)
      then show ?thesis
        using delta_round_books(1) [OF assms(2) ok] 1(4) by auto
    qed
  qed
  then show "delta_books x (ds_metrics st')" "gm_rounds (ds_metrics st') = Suc (gm_rounds (ds_metrics st))"
    "stop \<Longrightarrow> gm_converged (ds_metrics st')"
    by blast+
qed

lemma round_error:
  "delta_round env cfg D st = Some (Some (Inl (e, m))) \<Longrightarrow> m = ds_metrics st"
  unfolding delta_round_def Let_def by (auto split: option.splits sum.splits if_splits prod.splits)

lemma loop_report:
  assumes "delta_loop env cfg T st = Some res"
  shows "T = D \<longrightarrow> delta_progress x cfg (ds_metrics st) \<longrightarrow>
    (\<forall>e m. res = Some (Inl (e, m)) \<longrightarrow> delta_progress x cfg m) \<and>
    (\<forall>st'. res = Some (Inr st') \<longrightarrow> delta_progress x cfg (ds_metrics st') \<and>
      (\<not> gm_converged (ds_metrics st') \<longrightarrow> gc_max_rounds cfg = Some (gm_rounds (ds_metrics st'))))"
proof (induction rule: delta_loop.raw_induct [OF _ assms])
  case (1 loop env cfg T st res)
  show ?case
  proof (intro impI)
    assume T: "T = D" and prog: "delta_progress x cfg (ds_metrics st)"
    show "(\<forall>e m. res = Some (Inl (e, m)) \<longrightarrow> delta_progress x cfg m) \<and>
      (\<forall>st'. res = Some (Inr st') \<longrightarrow> delta_progress x cfg (ds_metrics st') \<and>
        (\<not> gm_converged (ds_metrics st') \<longrightarrow> gc_max_rounds cfg = Some (gm_rounds (ds_metrics st'))))"
    proof (cases "check_max_rounds_cap cfg (ds_metrics st)")
      case True
      then have "gc_max_rounds cfg = Some (gm_rounds (ds_metrics st))"
        using prog by (auto simp: check_max_rounds_cap_def delta_progress_def split: option.splits)
      then show ?thesis
        using 1(2) True prog by (auto simp: delta_progress_def)
    next
      case False
      show ?thesis
      proof (cases "\<exists>stop st1. delta_round env cfg D st = Some (Some (Inr (stop, st1)))")
        case True
        then obtain stop st1 where r: "delta_round env cfg D st = Some (Some (Inr (stop, st1)))"
          by blast
        have prog1: "delta_progress x cfg (ds_metrics st1)"
          using round_books(1,2) [OF r] prog False
          by (auto simp: delta_progress_def check_max_rounds_cap_def split: option.splits)
        show ?thesis
        proof (cases stop)
          case True
          then have "res = Some (Inr st1)"
            using 1(2) False r T by simp
          then show ?thesis
            using prog1 round_books(3) [OF r _ True, of x] prog by (simp add: delta_progress_def)
        next
          case go_on: False
          then have "loop env cfg T st1 = Some res"
            using 1(2) False r T by simp
          then show ?thesis
            using 1(1) prog1 T by blast
        qed
      next
        case no: False
        then show ?thesis
          using 1(2) False prog round_error T by (auto split: option.splits sum.splits)
      qed
    qed
  qed
qed

lemma inner_report:
  assumes "run_grid_delta_inner env cfg D plan m d = Some (Some res)" "delta_progress 0 cfg m"
    and sent: "\<And>e. dispatch_initial D plan d \<noteq> Some (Some (Inl e))"
  defines "x \<equiv> 1"
  shows "res = Inl (e, m') \<Longrightarrow> delta_progress x cfg m'"
    "res = Inr (n, m') \<Longrightarrow> delta_progress x cfg m' \<and> (\<not> gm_converged m' \<longrightarrow> gc_max_rounds cfg = Some (gm_rounds m'))"
proof -
  have "(\<forall>e m'. res = Inl (e, m') \<longrightarrow> delta_progress x cfg m') \<and>
    (\<forall>n m'. res = Inr (n, m') \<longrightarrow> delta_progress x cfg m' \<and> (\<not> gm_converged m' \<longrightarrow> gc_max_rounds cfg = Some (gm_rounds m')))"
  proof (cases "\<exists>d1. dispatch_initial D plan d = Some (Some (Inr d1))")
    case True
    then obtain d1 st where d1: "dispatch_initial D plan d = Some (Some (Inr d1))" and st: "delta_start env plan m d1 = Some st"
      using assms(1) by (auto simp: run_grid_delta_inner_def split: option.splits)
    have prog: "delta_progress x cfg (ds_metrics st)"
      using st assms(2) by (auto simp: delta_start_def delta_progress_def delta_books_def x_def split: option.splits)
    obtain r where r: "delta_loop env cfg D st = Some (Some r)"
      using assms(1) d1 st by (auto simp: run_grid_delta_inner_def split: option.splits)
    show ?thesis
    proof (cases r)
      case (Inl e)
      then show ?thesis
        using assms(1) d1 st r loop_report [OF r] prog by (auto simp: run_grid_delta_inner_def)
    next
      case (Inr st1)
      then have "delta_progress x cfg (ds_metrics st1) \<and> (\<not> gm_converged (ds_metrics st1) \<longrightarrow> gc_max_rounds cfg = Some (gm_rounds (ds_metrics st1)))"
        using loop_report [OF r] prog by blast
      moreover have "run_grid_delta_final_collect env D st1 = Some (Some (Inl (e, m'))) \<Longrightarrow> m' = ds_metrics st1" for e m'
        by (auto simp: run_grid_delta_final_collect_def Let_def split: option.splits sum.splits if_splits)
      moreover obtain fin where "run_grid_delta_final_collect env D st1 = Some (Some fin)" "res = map_sum id (\<lambda>n. (n, ds_metrics st1)) fin"
        using assms(1) d1 st r Inr by (auto simp: run_grid_delta_inner_def)
      ultimately show ?thesis
        by (cases fin) auto
    qed
  next
    case False
    then show ?thesis
      using assms(1) sent by (auto simp: run_grid_delta_inner_def split: option.splits sum.splits)
  qed
  then show "res = Inl (e, m') \<Longrightarrow> delta_progress x cfg m'"
    "res = Inr (n, m') \<Longrightarrow> delta_progress x cfg m' \<and> (\<not> gm_converged m' \<longrightarrow> gc_max_rounds cfg = Some (gm_rounds m'))"
    by blast+
qed

lemma run_report:
  assumes "run_grid_delta env cfg D n d = Some (Some (n', m))"
    and sent: "\<And>plan d e. dispatch_initial D plan d \<noteq> Some (Some (Inl e))"
  defines "x \<equiv> if redex_queue (drain_stale_redexes n) = [] \<or> gc_num_workers cfg = 1 then 0 else 1"
  shows "delta_progress x cfg m \<and> (\<not> gm_converged m \<longrightarrow> gc_max_rounds cfg = Some (gm_rounds m) \<or> n' = net_new)"
proof -
  let ?n = "drain_stale_redexes n" and ?m = "metrics_default\<lparr>gm_delta_mode := True\<rparr>"
  have start: "delta_progress 0 cfg ?m"
    by (simp add: delta_progress_def delta_books_def metrics_default_def)
  consider "m = ?m\<lparr>gm_converged := True\<rparr>" "x = 0" | "run_single_worker cfg ?n ?m = Some (Some (n', m))" "x = 0"
    | plan res where "run_grid_delta_inner env cfg D plan ?m d = Some (Some res)"
        "(n', m) = (case res of Inl (e, m1) \<Rightarrow> (net_new, m1\<lparr>gm_converged := False\<rparr>) | Inr r \<Rightarrow> r)" "x = 1"
    using assms(1) unfolding x_def run_grid_delta_def Let_def by (auto split: if_splits option.splits sum.splits)
  then show ?thesis
  proof cases
    case 1
    then show ?thesis
      using start by (simp add: delta_progress_def)
  next
    case 2
    show ?thesis
    proof (cases "gc_max_rounds cfg = Some 0")
      case True
      then show ?thesis
        using 2 start by (auto simp: run_single_worker_def delta_progress_def metrics_default_def)
    next
      case False
      then obtain rs n1 where red: "reduce_all ?n = Some (Some (rs, n1))"
        using 2 by (auto simp: run_single_worker_def Let_def split: option.splits)
      have "length (add_rules (replicate 6 0) (interactions_by_rule rs)) = 6"
          "sum_list (add_rules (replicate 6 0) (interactions_by_rule rs)) = total_interactions rs"
        using add_rules_sum [of "replicate 6 0" "interactions_by_rule rs"] reduce_all_result(1) [OF red] by (simp_all add: stats_sum_def)
      then show ?thesis
        using 2 False red
        by (auto simp: run_single_worker_def Let_def delta_progress_def delta_books_def metrics_default_def Suc_le_eq)
    qed
  next
    case 3
    then show ?thesis
      using inner_report [OF 3(1) start sent] by (cases res) (auto simp: delta_progress_def)
  qed
qed

end

text \<open>The workers in process keep the contract.\<close>

lemma scan_actions_Some:
  "scan_actions w acts res = Inr (Some r) \<Longrightarrow> res = Some r \<or>
     (\<exists>rnd ds stats act mints. SendMessage (RoundResult rnd ds stats act mints) \<in> set acts \<and> rr_worker_id r = w \<and> rr_stats r = stats)"
  by (induction w acts res rule: scan_actions.induct) (auto, blast)

lemma local_round_Inr:
  assumes "local_round ord (w, d) ws = Some (Some (Inr (r, ws')))"
  shows "rr_worker_id r = w" "worker_stats_ok (rr_stats r)"
proof -
  obtain c acts rnd where h: "handle_round_start ord (ws ! w) rnd (rd_border_deltas d) (rd_resolved_borders d) (rd_new_borders d)
        (worker_reconnections (rd_local_reconnections d)) (map commutation_batch_to_pending (rd_pending_commutations d)) = Some (Some (c, acts))"
      and scan: "scan_actions w acts None = Inr (Some r)"
    using assms by (auto simp: local_round_def Let_def split: if_splits option.splits sum.splits)
  then obtain rn ds stats act mints where msg: "SendMessage (RoundResult rn ds stats act mints) \<in> set acts" "rr_worker_id r = w" "rr_stats r = stats"
    using scan_actions_Some by blast
  then show "rr_worker_id r = w"
    by blast
  obtain st p n2 rs n3 where "reduce_all n2 = Some (Some (rs, n3))" "(c, acts) = round_report ord (ws ! w) st rnd p n2 rs n3 mints"
    using handle_round_start_Result [OF h msg(1)] by metis
  then show "worker_stats_ok (rr_stats r)"
    using msg(1,3) reduce_all_result(1) by (auto simp: round_report_def Let_def worker_stats_ok_def stats_sum_def)
qed

lemma local_rounds_Inr:
  "local_rounds ord es ws = Some (Some (Inr (rs, ws'))) \<Longrightarrow>
     map rr_worker_id rs = map fst es \<and> (\<forall>r \<in> set rs. worker_stats_ok (rr_stats r))"
proof (induction es arbitrary: ws rs)
  case (Cons e es)
  obtain w d where e: "e = (w, d)"
    by fastforce
  obtain r ws1 rs1 where r: "local_round ord e ws = Some (Some (Inr (r, ws1)))" "local_rounds ord es ws1 = Some (Some (Inr (rs1, ws')))" "rs = r # rs1"
    using Cons.prems by (auto split: option.splits sum.splits)
  then show ?case
    using Cons.IH local_round_Inr e by auto
qed simp

interpretation in_process: delta_transport "local_dispatch ord" for ord
  by unfold_locales (auto simp: local_dispatch_def dest: local_rounds_Inr)

text \<open>
  The delta loop reports as its code does (C17).  Whenever a run with the workers in process returns, the
  local and border interactions, the border redexes and the worker statistics have one entry per round;
  the interactions per rule add up to the local interactions only, while the total also counts the
  border interactions; the agent counts have one entry per round when no round or a single worker runs,
  and one more, for the initial partitions, when the delta loop runs; the round limit is respected; and a
  run that did not converge either reached the limit or failed and returns the empty net.  The rule
  totals and the additional agent count differ from the documentation of the metrics.
\<close>

theorem run_grid_delta_report:
  assumes "run_grid_delta env cfg (local_dispatch ord) n ws = Some (Some (n', m))"
  shows "delta_books (if redex_queue (drain_stale_redexes n) = [] \<or> gc_num_workers cfg = 1 then 0 else 1) m \<and>
    (case gc_max_rounds cfg of None \<Rightarrow> True | Some k \<Rightarrow> gm_rounds m \<le> k) \<and>
    (gm_converged m \<or> gc_max_rounds cfg = Some (gm_rounds m) \<or> n' = net_new)"
proof -
  have "dispatch_initial (local_dispatch ord) plan d \<noteq> Some (Some (Inl e))" for plan d e
    by (simp add: local_dispatch_def local_initial_def)
  from in_process.run_report [OF assms this] show ?thesis
    by (auto simp: delta_progress_def split: option.split)
qed

end
