(* ===== verification/Delta_Runs.thy ===== *)
theory Delta_Runs
  imports Grid_Delta_Props "HOL-Library.Code_Target_Numeral"
begin

text \<open>
  The delta loop evaluated: runs of the coordinator with two workers in process on small nets, next to
  the runs of the plain loop on the same nets, and witnesses for the properties of the loop.
\<close>

declare reduce_all_from.simps [code] grid_loop.simps [code] delta_loop.simps [code]

section \<open>Building and reading nets\<close>

text \<open>Ascending iteration orders, for maps and sets with keys below 16.\<close>

definition ascending :: "(nat \<rightharpoonup> 'a) \<Rightarrow> nat list" where
  "ascending m = filter (\<lambda>i. m i \<noteq> None) [0..<16]"

definition ascending_env :: delta_env where
  "ascending_env =
     \<lparr>de_grid = \<lparr>ge_allocate = contiguous_allocate, ge_order = ascending, ge_border_order = ascending, ge_index_order = ascending\<rparr>,
      de_sight_order = ascending, de_state_order = ascending, de_active_order = (\<lambda>S. filter (\<lambda>i. i \<in> S) [0..<16])\<rparr>"

definition make_net :: "symbol list \<Rightarrow> (port_ref \<times> port_ref) list \<Rightarrow> net option" where
  "make_net syms wires =
     map_option (fold (\<lambda>(a, b). connect a b) wires) (ofold (\<lambda>s n. map_option snd (create_agent s n)) syms net_new)"

text \<open>What a run returns: the live agents with their wires, and the verdict.\<close>

definition net_view :: "net \<Rightarrow> (agent_id \<times> symbol \<times> port_ref list) list" where
  "net_view n = map (\<lambda>ag. (a_id ag, a_symbol ag, map (\<lambda>p. get_target n (AgentPort (a_id ag) p)) [0..<total_ports (a_symbol ag)])) (live_agents n)"

definition run_view ::
  "(net \<times> grid_metrics) option option \<Rightarrow> ((agent_id \<times> symbol \<times> port_ref list) list \<times> bool) option option" where
  "run_view r = map_option (map_option (\<lambda>(n, m). (net_view n, gm_converged m))) r"

definition two_workers :: "bool \<Rightarrow> grid_config" where
  "two_workers delta = grid_config_default\<lparr>gc_num_workers := 2, gc_delta_mode := delta\<rparr>"

definition run_both :: "net option \<Rightarrow>
    ((agent_id \<times> symbol \<times> port_ref list) list \<times> bool) option option \<times> ((agent_id \<times> symbol \<times> port_ref list) list \<times> bool) option option" where
  "run_both net =
     (case net of
        None \<Rightarrow> (None, None)
      | Some n \<Rightarrow>
          (run_view (run_grid (de_grid ascending_env) (two_workers False) n),
           run_view (run_grid_delta ascending_env (two_workers True) (local_dispatch ascending) n [worker_context_new, worker_context_new])))"

section \<open>Runs that differ\<close>

text \<open>Two constructors across the border, each next to an eraser of its own worker.\<close>

definition facing_constructors :: "net option" where
  "facing_constructors =
     make_net [Con, Era, Con, Era]
       [(AgentPort 0 0, AgentPort 2 0), (AgentPort 0 1, AgentPort 1 0), (AgentPort 0 2, FreePort 1),
        (AgentPort 2 1, FreePort 2), (AgentPort 2 2, AgentPort 3 0)]"

text \<open>
  Annihilation across a border loses a wire between the workers.  Two constructors face each other
  across a border, each next to an eraser of its own worker.  The plain loop joins the erasers, which
  annihilate: the result is the empty net.  The delta loop wires them on one worker only; it reports
  convergence with both erasers disconnected.
\<close>

lemma delta_annihilation_loses_wire:
  "run_both facing_constructors =
     (Some (Some ([], True)), Some (Some ([(1, Era, [DISCONNECTED]), (3, Era, [DISCONNECTED])], True)))"
  by code_simp

text \<open>An eraser facing a constructor of another worker, whose neighbour is local.\<close>

definition local_erasure :: "net option" where
  "local_erasure =
     make_net [Con, Dup, Era, Era]
       [(AgentPort 0 1, AgentPort 1 1), (AgentPort 0 2, AgentPort 1 2), (AgentPort 1 0, FreePort 0),
        (AgentPort 0 0, AgentPort 2 0), (AgentPort 3 0, FreePort 1)]"

text \<open>
  Erasure next to a local neighbour loses the net.  The plain loop erases the constructor and
  converges; the delta loop refuses the worker's answer as a protocol violation and returns the empty
  net, without the agents that took no part in the erasure.
\<close>

lemma delta_erasure_loses_net:
  "run_both local_erasure =
     (Some (Some ([(0, Era, [AgentPort 1 2]), (1, Dup, [FreePort 0, AgentPort 2 0, AgentPort 0 0]), (2, Era, [AgentPort 1 1]),
                   (3, Era, [FreePort 1])], True)),
      Some (Some ([], False)))"
  by code_simp

section \<open>Witnesses\<close>

theorem run_grid_delta_report_witness:
  "\<exists>n' m. run_grid_delta ascending_env (two_workers True) (local_dispatch ascending) (the facing_constructors) [worker_context_new, worker_context_new] =
     Some (Some (n', m)) \<and> delta_books 1 m"
proof -
  have "run_view (run_grid_delta ascending_env (two_workers True) (local_dispatch ascending) (the facing_constructors)
      [worker_context_new, worker_context_new]) = Some (Some ([(1, Era, [DISCONNECTED]), (3, Era, [DISCONNECTED])], True))"
    by code_simp
  then obtain n' m where run: "run_grid_delta ascending_env (two_workers True) (local_dispatch ascending) (the facing_constructors)
      [worker_context_new, worker_context_new] = Some (Some (n', m))"
    by (auto simp: run_view_def)
  have "redex_queue (drain_stale_redexes (the facing_constructors)) \<noteq> []" "gc_num_workers (two_workers True) \<noteq> 1"
    by code_simp+
  then have "delta_books 1 m"
    using run_grid_delta_report [OF run] by simp
  then show ?thesis
    using run by blast
qed

text \<open>A transport whose workers are idle, and two partitions that share an inert border.\<close>

definition idle_result :: "worker_id \<Rightarrow> round_result" where
  "idle_result w =
     \<lparr>rr_worker_id = w, rr_round = 1, rr_border_deltas = [],
      rr_stats = \<lparr>ws_worker_id = w, ws_agents_before = 1, ws_agents_after = 1, ws_local_redexes = 0,
                  ws_interactions_by_rule = replicate 6 0, ws_has_border_activity = False, ws_is_coordinator_self = False\<rparr>,
      rr_has_border_activity = False, rr_minted_agents = []\<rparr>"

definition idle_dispatch :: "unit worker_dispatch" where
  "idle_dispatch =
     \<lparr>dispatch_initial = (\<lambda>plan d. Some (Some (Inr d))),
      dispatch_round_start = (\<lambda>pend d. Some (Some (Inr (map (idle_result \<circ> fst) pend, d)))),
      dispatch_final_state_request = (\<lambda>rnd d. Some (Some (Inr ([], d))))\<rparr>"

definition sorted_env :: delta_env where
  "sorted_env =
     \<lparr>de_grid = key_env, de_sight_order = (\<lambda>m. sorted_list_of_set (dom m)), de_state_order = (\<lambda>m. sorted_list_of_set (dom m)),
      de_active_order = sorted_list_of_set\<rparr>"

lemma sorted_env_orders: "delta_orders sorted_env"
  by (simp add: delta_orders_def sorted_env_def key_env_def lists_keys_def key_order_def)

definition inert_plan :: partition_plan where
  "inert_plan =
     \<lparr>pl_partitions = [solo_partition, duo_partition\<lparr>p_free_port_index := [4 \<mapsto> AgentPort 0 1]\<rparr>],
      pl_borders = [4 \<mapsto> (AgentPort 0 0, AgentPort 0 1)], pl_next_border_id = 5\<rparr>"

definition inert_graph :: border_graph where
  "inert_graph = \<lparr>bg_borders = [4 \<mapsto> border_state_of 4 (AgentPort 0 0) (AgentPort 0 1) 0 1], bg_worker_borders = [[4], [4]],
     bg_active_redexes = {}, bg_pending_new_borders = [], bg_resolved_mints = Map.empty\<rparr>"

lemma inert_start:
  obtains st where "delta_start sorted_env inert_plan metrics_default () = Some st"
    "ds_graph st = inert_graph" "ds_pending st = [(0, dispatch_default), (1, dispatch_default)]" "gm_rounds (ds_metrics st) = 0"
    "delta_inv 2 st"
proof -
  have fin: "finite (dom (pl_borders inert_plan))" "\<forall>p \<in> set (pl_partitions inert_plan). finite (dom (p_free_port_index p))"
    by (auto simp: inert_plan_def solo_partition_def)
  have m: "collect_sightings (\<lambda>p. ge_index_order (de_grid sorted_env) (p_free_port_index p)) (pl_partitions inert_plan) =
      [4 \<mapsto> [(0, AgentPort 0 0), (1, AgentPort 0 1)]]"
    by (simp add: collect_sightings_def inert_plan_def sorted_env_def key_env_def key_order_def sight_def solo_partition_def duo_partition_def
        partition_empty_def)
  have "from_partition_plan (ge_border_order (de_grid sorted_env) (pl_borders inert_plan))
      (\<lambda>p. ge_index_order (de_grid sorted_env) (p_free_port_index p)) (de_sight_order sorted_env) inert_plan = Some inert_graph"
    unfolding from_partition_plan_def Let_def m
    by (simp add: sorted_env_def key_env_def inert_plan_def sighted_twice_def insert_sighted_def insert_border_def empty_graph_def inert_graph_def
        push_at_def is_principal_pair_def numeral_2_eq_2)
  then obtain st where st: "delta_start sorted_env inert_plan metrics_default () = Some st" "ds_graph st = inert_graph"
      "ds_pending st = [(0, dispatch_default), (1, dispatch_default)]" "gm_rounds (ds_metrics st) = 0"
    by (auto simp: delta_start_def inert_plan_def metrics_default_def)
  moreover have "delta_inv 2 st"
    using delta_start_inv [OF sorted_env_orders st(1) fin] by (simp add: inert_plan_def numeral_2_eq_2)
  ultimately show ?thesis
    using that by blast
qed

lemma inert_round:
  assumes "ds_graph st = inert_graph" "ds_pending st = [(0, dispatch_default), (1, dispatch_default)]"
  shows "\<exists>st'. delta_round sorted_env (two_workers True) idle_dispatch st = Some (Some (Inr (True, st'))) \<and>
    ds_graph st' = inert_graph \<and> gm_rounds (ds_metrics st') = Suc (gm_rounds (ds_metrics st))"
proof -
  have g: "redexes_of sorted_env inert_graph = []"
    by (simp add: redexes_of_def inert_graph_def sorted_env_def detect_border_redexes_def map_filter_simps)
  have reg: "register_minted_agents w [] inert_graph = Some (Inr ([], inert_graph))" for w
    by (simp add: register_minted_agents_def inert_graph_def add_border_states_def map_filter_simps)
  show ?thesis
    by (simp add: delta_round_def assms idle_dispatch_def idle_result_def reg apply_result_def apply_deltas_def Let_def g
        promoted_intra_worker_lafont_wires_def split_beta delta_resolve_def resolve_all_def two_workers_def grid_config_default_def
        check_delta_convergence_post_resolve_def)
qed

theorem delta_loop_invariant_witness:
  "\<exists>st0 st. delta_start sorted_env inert_plan metrics_default () = Some st0 \<and>
     delta_reach sorted_env (two_workers True) idle_dispatch st0 st \<and> gm_rounds (ds_metrics st) = 1 \<and>
     bg_inv (ds_graph st) \<and> map fst (ds_pending st) = [0, 1]"
proof -
  obtain st0 where st0: "delta_start sorted_env inert_plan metrics_default () = Some st0" "ds_graph st0 = inert_graph"
      "ds_pending st0 = [(0, dispatch_default), (1, dispatch_default)]" "gm_rounds (ds_metrics st0) = 0"
    by (rule inert_start)
  obtain st where st: "delta_round sorted_env (two_workers True) idle_dispatch st0 = Some (Some (Inr (True, st)))"
      "gm_rounds (ds_metrics st) = 1"
    using inert_round [OF st0(2,3)] st0(4) by auto
  have reach: "delta_reach sorted_env (two_workers True) idle_dispatch st0 st"
    using delta_reach.step [OF delta_reach.start _ st(1)] by (simp add: check_max_rounds_cap_def two_workers_def grid_config_default_def)
  have "finite (dom (pl_borders inert_plan))" "\<forall>p \<in> set (pl_partitions inert_plan). finite (dom (p_free_port_index p))"
    by (auto simp: inert_plan_def solo_partition_def)
  then have "bg_inv (ds_graph st) \<and> map fst (ds_pending st) = [0..<length (pl_partitions inert_plan)]"
    using delta_loop_invariant [OF sorted_env_orders st0(1) _ _ reach] by blast
  then show ?thesis
    using st0(1) reach st(2) by (auto simp: inert_plan_def)
qed

theorem delta_converged_sound_witness:
  "\<exists>st st'. delta_round sorted_env (two_workers True) idle_dispatch st = Some (Some (Inr (True, st'))) \<and>
     bg_borders (ds_graph st') \<noteq> Map.empty \<and> bg_active_redexes (ds_graph st') = {} \<and> gm_converged (ds_metrics st')"
proof -
  obtain st0 :: "unit delta_state" where st0: "ds_graph st0 = inert_graph" "ds_pending st0 = [(0, dispatch_default), (1, dispatch_default)]" "delta_inv 2 st0"
    by (rule inert_start) blast
  obtain st where st: "delta_round sorted_env (two_workers True) idle_dispatch st0 = Some (Some (Inr (True, st)))" "ds_graph st = inert_graph"
    using inert_round [OF st0(1,2)] by auto
  moreover have "bg_active_redexes (ds_graph st) = {} \<and> gm_converged (ds_metrics st)"
    using delta_converged_sound [OF sorted_env_orders st0(3) st(1)] by blast
  moreover have "bg_borders inert_graph \<noteq> Map.empty"
    by (simp add: inert_graph_def)
  ultimately show ?thesis
    by metis
qed

end
