(* ===== verification/Remap.thy ===== *)
theory Remap
  imports Split
begin

text \<open>
  Renumbering a reclaimed partition into a fresh range of identifiers (\<open>partition/remap.rs\<close>).  The result
  is the same net up to the renaming of its agents.  \<open>order\<close> is the iteration order of the hash map from
  old to new identifiers; \<open>None\<close> is a panic.
\<close>

section \<open>The function\<close>

definition remap_id_map :: "id_rng \<Rightarrow> net \<Rightarrow> (agent_id \<rightharpoonup> agent_id)" where
  "remap_id_map new_range n = map_of (map (\<lambda>(rank, old). (old, ir_start new_range + rank)) (List.enumerate 0 (sort (live_ids n))))"

definition remap_target :: "(agent_id \<rightharpoonup> agent_id) \<Rightarrow> port_ref \<Rightarrow> port_ref" where
  "remap_target id_map t =
     (case t of
        AgentPort i p \<Rightarrow> (case id_map i of Some j \<Rightarrow> AgentPort j p | None \<Rightarrow> t)
      | FreePort f \<Rightarrow> t)"

definition remap_port :: "(agent_id \<rightharpoonup> agent_id) \<Rightarrow> net \<Rightarrow> agent_id \<Rightarrow> agent_id \<Rightarrow> port_id \<Rightarrow> port_ref list \<Rightarrow> port_ref list" where
  "remap_port id_map n old new p prts =
     prts[port_index new p := remap_target id_map
            (if port_index old p < length (ports n) then ports n ! port_index old p else DISCONNECTED)]"

definition remap_slot ::
  "(agent_id \<rightharpoonup> agent_id) \<Rightarrow> net \<Rightarrow> agent_id \<Rightarrow> agent option list \<times> port_ref list \<Rightarrow> (agent option list \<times> port_ref list) option" where
  "remap_slot id_map n old st =
     (case (id_map old, get_agent n old) of
        (Some new, Some ag) \<Rightarrow>
          if new < length (fst st)
          then Some ((fst st)[new := Some \<lparr>a_symbol = a_symbol ag, a_id = new\<rparr>],
                     fold (remap_port id_map n old new) [0..<PORTS_PER_SLOT] (snd st))
          else None
      | _ \<Rightarrow> None)"

definition remap_redexes :: "(agent_id \<rightharpoonup> agent_id) \<Rightarrow> (agent_id \<times> agent_id) list \<Rightarrow> (agent_id \<times> agent_id) list" where
  "remap_redexes id_map q =
     List.map_filter (\<lambda>(a, b). case (id_map a, id_map b) of (Some i, Some j) \<Rightarrow> Some (i, j) | _ \<Rightarrow> None) q"

text \<open>A reference that must survive the renaming: a dead agent drops the entry.\<close>

definition remap_entry :: "(agent_id \<rightharpoonup> agent_id) \<Rightarrow> port_ref \<Rightarrow> port_ref option" where
  "remap_entry id_map t =
     (case t of AgentPort i p \<Rightarrow> map_option (\<lambda>j. AgentPort j p) (id_map i) | FreePort f \<Rightarrow> Some t)"

definition remap_partition_ids :: "agent_id list \<Rightarrow> partition \<Rightarrow> id_rng \<Rightarrow> (partition_error + partition) option" where
  "remap_partition_ids order p new_range =
     (let n = p_subnet p; count = agent_count p; size = id_range_len new_range
      in if count > size then Some (Inl (NewRangeTooSmall count size))
         else if count = 0 then
           Some (Inr (p\<lparr>p_subnet := net_new\<lparr>next_id := ir_start new_range\<rparr>, p_id_range := new_range, p_free_port_index := Map.empty\<rparr>))
         else
           (let id_map = remap_id_map new_range n;
                arena_len = ir_start new_range + count
            in map_option (\<lambda>(ags, prts).
                 Inr (p\<lparr>p_subnet := net_new\<lparr>
                          agents := ags, ports := prts, redex_queue := remap_redexes id_map (redex_queue n),
                          next_id := ir_start new_range + count,
                          root := (case root n of None \<Rightarrow> None | Some r \<Rightarrow> remap_entry id_map r)\<rparr>,
                        p_free_port_index := (\<lambda>b. case p_free_port_index p b of None \<Rightarrow> None | Some t \<Rightarrow> remap_entry id_map t),
                        p_id_range := new_range\<rparr>))
               (ofold (remap_slot id_map n) order (replicate arena_len None, replicate (arena_len * PORTS_PER_SLOT) DISCONNECTED))))"

section \<open>The renaming\<close>

lemma remap_id_map_Some:
  "remap_id_map r n i = Some j \<longleftrightarrow> (\<exists>k < length (live_ids n). live_ids n ! k = i \<and> j = ir_start r + k)"
proof -
  let ?l = "map (\<lambda>(rank, old). (old, ir_start r + rank)) (List.enumerate 0 (live_ids n))"
  have "map fst ?l = live_ids n"
    by (simp add: comp_def split_beta)
  then have "distinct (map fst ?l)"
    by simp
  then have "remap_id_map r n i = Some j \<longleftrightarrow> (i, j) \<in> set ?l"
    by (simp add: remap_id_map_def)
  also have "\<dots> \<longleftrightarrow> (\<exists>k < length (live_ids n). live_ids n ! k = i \<and> j = ir_start r + k)"
    by (force simp: in_set_enumerate_eq)
  finally show ?thesis .
qed

lemma remap_id_map_live: "remap_id_map r n i \<noteq> None \<longleftrightarrow> live n i"
proof -
  have "remap_id_map r n i \<noteq> None \<longleftrightarrow> i \<in> set (live_ids n)"
    by (auto simp: remap_id_map_Some in_set_conv_nth)
  then show ?thesis
    by simp
qed

lemma remap_id_map_bounds: "remap_id_map r n i = Some j \<Longrightarrow> ir_start r \<le> j \<and> j < ir_start r + length (live_ids n)"
  by (auto simp: remap_id_map_Some)

lemma remap_id_map_inj: "remap_id_map r n i = Some j \<Longrightarrow> remap_id_map r n i' = Some j \<Longrightarrow> i = i'"
  by (auto simp: remap_id_map_Some)

lemma remap_id_map_onto:
  "ir_start r \<le> j \<Longrightarrow> j < ir_start r + length (live_ids n) \<Longrightarrow> \<exists>i. live n i \<and> remap_id_map r n i = Some j"
  by (intro exI [of _ "live_ids n ! (j - ir_start r)"])
     (metis remap_id_map_Some remap_id_map_live add_diff_cancel_left' le_add_diff_inverse nat_add_left_cancel_less option.distinct(1))

lemma remap_id_map_mono:
  assumes "remap_id_map r n i = Some j" "remap_id_map r n i' = Some j'" "i < i'"
  shows "j < j'"
proof -
  obtain k k' where k: "k < length (live_ids n)" "live_ids n ! k = i" "j = ir_start r + k"
      "k' < length (live_ids n)" "live_ids n ! k' = i'" "j' = ir_start r + k'"
    using assms(1,2) by (auto simp: remap_id_map_Some)
  have "k < k'"
    using sorted_nth_mono [OF sort_live_ids(1), of k' k n] assms(3) k by (cases "k < k'") auto
  then show ?thesis
    using k by simp
qed

section \<open>The arena\<close>

lemma length_remap_ports: "length (fold (remap_port m n old new) ps prts) = length prts"
  by (induction ps arbitrary: prts) (simp_all add: remap_port_def)

lemma nth_fold_remap:
  assumes "new < k" "length prts = 3 * k" "q < 3" "\<forall>p \<in> set ps. p < 3"
  shows "fold (remap_port m n old new) ps prts ! port_index j q =
    (if j = new \<and> q \<in> set ps then remap_target m (tgt n old q) else prts ! port_index j q)"
  using assms(2,4)
proof (induction ps arbitrary: prts)
  case (Cons p ps)
  have "port_index new p < length prts"
    using port_index_bound [OF _ assms(1), of p] Cons.prems by simp
  then have "remap_port m n old new p prts ! port_index j q = (if j = new \<and> q = p then remap_target m (tgt n old p) else prts ! port_index j q)"
    using Cons.prems(2) assms(3) by (auto simp: remap_port_def nth_list_update port_index_inj tgt_def get_target_def)
  then show ?case
    using Cons.IH [of "remap_port m n old new p prts"] Cons.prems by (auto simp: remap_port_def)
qed simp

lemma nth_remap_ports:
  assumes "new < k" "length prts = 3 * k" "q < 3"
  shows "fold (remap_port m n old new) [0..<PORTS_PER_SLOT] prts ! port_index j q =
    (if j = new then remap_target m (tgt n old q) else prts ! port_index j q)"
  using nth_fold_remap [OF assms, of "[0..<PORTS_PER_SLOT]"] assms(3) by (simp add: PORTS_PER_SLOT_def)

lemma remap_slots:
  assumes "ofold (remap_slot m n) order (ags, prts) = Some (ags', prts')" "length prts = 3 * length ags" "distinct order"
    and "\<And>i i' j. m i = Some j \<Longrightarrow> m i' = Some j \<Longrightarrow> i = i'"
  shows "length ags' = length ags \<and> length prts' = length prts \<and>
    (\<forall>i j. i \<in> set order \<longrightarrow> m i = Some j \<longrightarrow> j < length ags \<and> ags' ! j = map_option (\<lambda>ag. \<lparr>a_symbol = a_symbol ag, a_id = j\<rparr>) (get_agent n i) \<and>
       (\<forall>q < 3. prts' ! port_index j q = remap_target m (tgt n i q))) \<and>
    (\<forall>j. (\<forall>i \<in> set order. m i \<noteq> Some j) \<longrightarrow> ags' ! j = ags ! j \<and> (\<forall>q < 3. prts' ! port_index j q = prts ! port_index j q))"
  using assms
proof (induction order arbitrary: ags prts)
  case (Cons old order)
  obtain st where st: "remap_slot m n old (ags, prts) = Some st" "ofold (remap_slot m n) order st = Some (ags', prts')"
    using Cons.prems(1) by (auto dest!: bind_eq_SomeD)
  then obtain new ag where new: "m old = Some new" "get_agent n old = Some ag" "new < length ags"
    and rest: "ofold (remap_slot m n) order (ags[new := Some \<lparr>a_symbol = a_symbol ag, a_id = new\<rparr>],
        fold (remap_port m n old new) [0..<PORTS_PER_SLOT] prts) = Some (ags', prts')"
    by (cases "m old"; cases "get_agent n old") (auto simp: remap_slot_def [where old = old] split: if_splits)
  have other: "m i \<noteq> Some new" if "i \<in> set order" for i
    using Cons.prems(3,4) new(1) that by fastforce
  have IH: "length ags' = length ags" "length prts' = length prts"
      "\<And>i j. i \<in> set order \<Longrightarrow> m i = Some j \<Longrightarrow> j < length ags \<and> ags' ! j = map_option (\<lambda>ag. \<lparr>a_symbol = a_symbol ag, a_id = j\<rparr>) (get_agent n i) \<and>
       (\<forall>q < 3. prts' ! port_index j q = remap_target m (tgt n i q))"
      "\<And>j. \<forall>i \<in> set order. m i \<noteq> Some j \<Longrightarrow> ags' ! j = ags[new := Some \<lparr>a_symbol = a_symbol ag, a_id = new\<rparr>] ! j \<and>
       (\<forall>q < 3. prts' ! port_index j q = fold (remap_port m n old new) [0..<PORTS_PER_SLOT] prts ! port_index j q)"
    using Cons.IH [OF rest _ _ Cons.prems(4)] Cons.prems(2,3) by (simp_all add: length_remap_ports)
  have here: "ags' ! new = Some \<lparr>a_symbol = a_symbol ag, a_id = new\<rparr> \<and> (\<forall>q < 3. prts' ! port_index new q = remap_target m (tgt n old q))"
    using IH(4) [of new] other new(3) nth_remap_ports [OF new(3) Cons.prems(2)] by simp
  have away: "ags' ! j = ags ! j \<and> (\<forall>q < 3. prts' ! port_index j q = prts ! port_index j q)"
    if "\<forall>i \<in> set (old # order). m i \<noteq> Some j" for j
    using IH(4) [of j] that new(1) nth_remap_ports [OF new(3) Cons.prems(2)] by auto
  show ?case
    using IH(1,2,3) here away new by auto
qed simp

lemma remap_slots_total:
  assumes "\<And>i. i \<in> set order \<Longrightarrow> \<exists>j. m i = Some j \<and> j < k" "\<And>i. i \<in> set order \<Longrightarrow> get_agent n i \<noteq> None" "length ags = k"
  shows "\<exists>st. ofold (remap_slot m n) order (ags, prts) = Some st"
  using assms
proof (induction order arbitrary: ags prts)
  case (Cons i order)
  obtain j ag where j: "m i = Some j" "j < k" "get_agent n i = Some ag"
    using Cons.prems(1,2) by fastforce
  show ?case
    using Cons.IH [of "ags[j := Some \<lparr>a_symbol = a_symbol ag, a_id = j\<rparr>]"] Cons.prems j by (simp add: remap_slot_def [where old = i])
qed simp

lemma remap_target_live:
  assumes "core_inv n" "p < 3"
  shows "remap_target (remap_id_map r n) (tgt n i p) = AgentPort j q \<longleftrightarrow>
    (\<exists>i'. tgt n i p = AgentPort i' q \<and> live n i' \<and> remap_id_map r n i' = Some j)"
proof (cases "tgt n i p")
  case (AgentPort i' q')
  have "tgt n i' q' = AgentPort i p" "q' < 3"
    using core_invD(3) [OF assms(1)] AgentPort assms(2) unfolding symmetric_wires_def by blast+
  then have "valid_port n i' q'"
    using core_invD(2) [OF assms(1)] unfolding ports_clean_def DISCONNECTED_def by (metis port_ref.distinct(1))
  then have "live n i'"
    by (rule valid_port_live)
  then show ?thesis
    using AgentPort remap_id_map_live [of r n i'] by (auto simp: remap_target_def)
qed (auto simp: remap_target_def)

lemma live_count: "core_inv n \<Longrightarrow> count_live_agents n \<le> u32_MAX"
proof -
  assume inv: "core_inv n"
  have "set (live_ids n) \<subseteq> {..<next_id n}"
    using core_invD(4) [OF inv] unfolding set_live_ids ids_below_def by auto
  then have "length (live_ids n) \<le> next_id n"
    using card_mono [of "{..<next_id n}" "set (live_ids n)"] distinct_card [of "live_ids n"] by simp
  then show ?thesis
    using core_invD(4) [OF inv] by (simp add: length_live_ids ids_below_def)
qed

text \<open>The renumbered net: the renaming of the old one, in a fresh arena.\<close>

definition renamed_to :: "(agent_id \<rightharpoonup> agent_id) \<Rightarrow> net \<Rightarrow> net \<Rightarrow> bool" where
  "renamed_to m n n' \<longleftrightarrow>
     (\<forall>i i' j. m i = Some j \<longrightarrow> m i' = Some j \<longrightarrow> i = i') \<and>
     (\<forall>i. m i \<noteq> None \<longleftrightarrow> live n i) \<and> (\<forall>j. live n' j \<longleftrightarrow> (\<exists>i. m i = Some j)) \<and>
     (\<forall>i j. m i = Some j \<longrightarrow> sym_at n' j = sym_at n i \<and> (\<forall>q < 3. tgt n' j q = remap_target m (tgt n i q)))"

lemma remap_arena:
  assumes "core_inv n" "distinct order" "set order = {i. live n i}" "ir_start r + length (live_ids n) \<le> u32_MAX"
    and "ofold (remap_slot (remap_id_map r n) n) order
       (replicate (ir_start r + length (live_ids n)) None, replicate ((ir_start r + length (live_ids n)) * PORTS_PER_SLOT) DISCONNECTED) = Some (ags, prts)"
    and "n' = net_new\<lparr>agents := ags, ports := prts, redex_queue := q, next_id := ir_start r + length (live_ids n), root := rt\<rparr>"
  shows "renamed_to (remap_id_map r n) n n' \<and> core_inv n'"
proof -
  let ?m = "remap_id_map r n" and ?len = "ir_start r + length (live_ids n)"
  have n': "agents n' = ags" "ports n' = prts" "next_id n' = ?len" "free_list n' = []"
    by (simp_all add: assms(6) net_new_def)
  have len: "length ags = ?len" "length prts = 3 * ?len"
    and at: "\<And>i j. live n i \<Longrightarrow> ?m i = Some j \<Longrightarrow> j < ?len \<and> ags ! j = map_option (\<lambda>ag. \<lparr>a_symbol = a_symbol ag, a_id = j\<rparr>) (get_agent n i) \<and>
       (\<forall>q < 3. prts ! port_index j q = remap_target ?m (tgt n i q))"
    and off: "\<And>j. (\<forall>i. live n i \<longrightarrow> ?m i \<noteq> Some j) \<Longrightarrow> ags ! j = replicate ?len None ! j \<and>
       (\<forall>q < 3. prts ! port_index j q = replicate (?len * PORTS_PER_SLOT) DISCONNECTED ! port_index j q)"
    using remap_slots [OF assms(5) _ assms(2) remap_id_map_inj] unfolding assms(3) by (auto simp: PORTS_PER_SLOT_def)
  have sym: "sym_at n' j = sym_at n i" "tgt n' j q = remap_target ?m (tgt n i q)" if "?m i = Some j" "q < 3" for i j q
  proof -
    have live: "live n i"
      using that(1) remap_id_map_live by fastforce
    have "port_index j q < length prts"
      using port_index_bound [OF that(2), of j "length ags"] at [OF live that(1)] len by simp
    then show "sym_at n' j = sym_at n i" "tgt n' j q = remap_target ?m (tgt n i q)"
      using at [OF live that(1)] that(2) len
      by (auto simp: sym_at_def [of n'] sym_at_def [of n] get_agent_def [of n'] vec_get_def tgt_def [of n'] get_target_def n' option.map_comp comp_def)
  qed
  have dead: "sym_at n' j = None" "q < 3 \<Longrightarrow> tgt n' j q = DISCONNECTED" if "\<forall>i. ?m i \<noteq> Some j" for j q
  proof -
    show "sym_at n' j = None"
      using off [of j] that len by (auto simp: sym_at_def get_agent_def vec_get_def n')
    show "tgt n' j q = DISCONNECTED" if "q < 3"
    proof (cases "port_index j q < length prts")
      case True
      then have "prts ! port_index j q = DISCONNECTED"
        using off [of j] \<open>\<forall>i. ?m i \<noteq> Some j\<close> that len by (simp add: PORTS_PER_SLOT_def)
      then show ?thesis
        by (simp add: tgt_def get_target_def n' Let_def)
    qed (simp add: tgt_out_of_range n')
  qed
  have live': "live n' j \<longleftrightarrow> (\<exists>i. ?m i = Some j)" for j
  proof (cases "\<exists>i. ?m i = Some j")
    case True
    then obtain i where "?m i = Some j"
      by blast
    then show ?thesis
      using sym(1) [of i j 0] remap_id_map_live [of r n i] by auto
  qed (use dead(1) [of j] in auto)
  have ren: "renamed_to ?m n n'"
    using remap_id_map_inj [of r n] remap_id_map_live [of r n] live' sym(1) [of _ _ 0] sym(2) unfolding renamed_to_def by auto
  have "slots_ok n'"
  proof -
    have "a_id ag = j" if ag: "get_agent n' j = Some ag" for j ag
    proof -
      obtain i where i: "?m i = Some j"
        using ag live' [of j] by (auto simp: sym_at_def)
      then have "live n i"
        using remap_id_map_live by fastforce
      then show ?thesis
        using at [OF _ i] ag len by (auto simp: get_agent_def [of n'] vec_get_def n' split: if_splits)
    qed
    then show ?thesis
      using len by (simp add: slots_ok_def n')
  qed
  moreover have "ports_clean n'"
    unfolding ports_clean_def
  proof (intro allI impI)
    fix j q
    assume q: "q < 3" "\<not> valid_port n' j q"
    show "tgt n' j q = DISCONNECTED"
    proof (cases "\<exists>i. ?m i = Some j")
      case True
      then obtain i where i: "?m i = Some j"
        by blast
      then have "tgt n i q = DISCONNECTED"
        using q sym(1) [OF i q(1)] core_invD(2) [OF assms(1)] by (auto simp: ports_clean_def valid_port_def)
      then show ?thesis
        using sym(2) [OF i q(1)] by (simp add: remap_target_def DISCONNECTED_def)
    qed (use dead(2) q(1) in blast)
  qed
  moreover have "symmetric_wires n'"
    unfolding symmetric_wires_def
  proof (intro allI impI)
    fix j p j' q
    assume p: "p < 3" "tgt n' j p = AgentPort j' q"
    then obtain i where i: "?m i = Some j"
      using dead(2) [of j p] by (auto simp: DISCONNECTED_def)
    then obtain i' where i': "tgt n i p = AgentPort i' q" "?m i' = Some j'"
      using p sym(2) [OF i p(1)] remap_target_live [OF assms(1) p(1)] by auto
    then have wire: "q < 3" "tgt n i' q = AgentPort i p" "(i, p) \<noteq> (i', q)"
      using core_invD(3) [OF assms(1)] p(1) unfolding symmetric_wires_def by blast+
    then have "tgt n' j' q = AgentPort j p"
      using sym(2) [OF i'(2) wire(1)] i by (simp add: remap_target_def)
    then show "q < 3 \<and> tgt n' j' q = AgentPort j p \<and> (j, p) \<noteq> (j', q)"
      using wire i i'(2) remap_id_map_inj by blast
  qed
  moreover have "ids_below n'"
    using live' remap_id_map_bounds assms(4) by (fastforce simp: ids_below_def n')
  ultimately show ?thesis
    using ren by (simp add: core_inv_def free_list_ok_def n')
qed

text \<open>
  Renumbering is a renaming (C27).  A partition that does not fit the new range is refused with its size.
  Otherwise the result holds the same agents and wires under a renaming that keeps the order of the
  identifiers and uses exactly the first identifiers of the new range; the root, the queue and the index
  of border ports are renamed alike, every border identifier is unchanged, and the arena is well formed.
  The queue, the index and the root are assumed to refer to live agents only.
\<close>

theorem remap_partition_ids_correct:
  assumes "core_inv (p_subnet p)" "distinct order" "set order = {i. live (p_subnet p) i}" "ir_start r \<le> ir_end r" "ir_end r \<le> u32_MAX"
    and "\<forall>(a, b) \<in> set (redex_queue (p_subnet p)). live (p_subnet p) a \<and> live (p_subnet p) b"
    and "\<forall>b t. p_free_port_index p b = Some t \<longrightarrow> (\<exists>i q. t = AgentPort i q \<and> live (p_subnet p) i)"
    and "\<forall>t. root (p_subnet p) = Some t \<longrightarrow> (\<exists>i q. t = AgentPort i q \<and> live (p_subnet p) i)"
  shows "if count_live_agents (p_subnet p) > id_range_len r
    then remap_partition_ids order p r = Some (Inl (NewRangeTooSmall (count_live_agents (p_subnet p)) (id_range_len r)))
    else \<exists>p' m. remap_partition_ids order p r = Some (Inr p') \<and> renamed_to m (p_subnet p) (p_subnet p') \<and> core_inv (p_subnet p') \<and>
      (\<forall>i i' j j'. m i = Some j \<longrightarrow> m i' = Some j' \<longrightarrow> i < i' \<longrightarrow> j < j') \<and>
      ran m = {ir_start r..<next_id (p_subnet p')} \<and> next_id (p_subnet p') = ir_start r + count_live_agents (p_subnet p) \<and>
      next_id (p_subnet p') \<le> ir_end r \<and> root (p_subnet p') = map_option (remap_target m) (root (p_subnet p)) \<and>
      redex_queue (p_subnet p') = map (map_prod (the \<circ> m) (the \<circ> m)) (redex_queue (p_subnet p)) \<and>
      p_free_port_index p' = map_option (remap_target m) \<circ> p_free_port_index p \<and> p_id_range p' = r \<and> p_worker_id p' = p_worker_id p"
proof -
  let ?n = "p_subnet p" and ?m = "remap_id_map r (p_subnet p)"
  have count: "agent_count p = count_live_agents ?n" "length (live_ids ?n) = count_live_agents ?n"
    using live_count [OF assms(1)] by (simp_all add: agent_count_def length_live_ids)
  have queue: "remap_redexes ?m (redex_queue ?n) = map (map_prod (the \<circ> ?m) (the \<circ> ?m)) (redex_queue ?n)"
  proof -
    have "remap_redexes ?m q = map (map_prod (the \<circ> ?m) (the \<circ> ?m)) q" if "\<forall>(a, b) \<in> set q. live ?n a \<and> live ?n b" for q
      using that
    proof (induction q)
      case (Cons e q)
      obtain a b i j where "e = (a, b)" "?m a = Some i" "?m b = Some j"
        using Cons.prems remap_id_map_live [of r ?n] by (cases e) fastforce
      then show ?case
        using Cons by (simp add: remap_redexes_def map_filter_simps)
    qed (simp add: remap_redexes_def map_filter_simps)
    then show ?thesis
      using assms(6) .
  qed
  have index: "(\<lambda>b. case p_free_port_index p b of None \<Rightarrow> None | Some t \<Rightarrow> remap_entry ?m t) = map_option (remap_target ?m) \<circ> p_free_port_index p"
  proof
    fix b
    show "(case p_free_port_index p b of None \<Rightarrow> None | Some t \<Rightarrow> remap_entry ?m t) = (map_option (remap_target ?m) \<circ> p_free_port_index p) b"
    proof (cases "p_free_port_index p b")
      case (Some t)
      then obtain i q j where "t = AgentPort i q" "?m i = Some j"
        using assms(7) remap_id_map_live [of r ?n] by blast
      then show ?thesis
        using Some by (simp add: remap_entry_def remap_target_def)
    qed simp
  qed
  consider "count_live_agents ?n > id_range_len r" | "count_live_agents ?n = 0" | "0 < count_live_agents ?n" "count_live_agents ?n \<le> id_range_len r"
    by linarith
  then show ?thesis
  proof cases
    case 1
    then show ?thesis
      by (simp add: remap_partition_ids_def Let_def count)
  next
    case 2
    then have none: "\<And>i. \<not> live ?n i"
      using count(2) live_ids_iff [of _ ?n] by auto
    have idx: "p_free_port_index p = Map.empty"
      using assms(7) none by (metis not_Some_eq)
    have q: "redex_queue ?n = []"
      using assms(6) none by (cases "redex_queue ?n") auto
    have rt: "root ?n = None"
      using assms(8) none by (cases "root ?n") auto
    have "renamed_to Map.empty ?n (net_new\<lparr>next_id := ir_start r\<rparr>)"
      using none by (simp add: renamed_to_def sym_at_def get_agent_def vec_get_def net_new_def)
    moreover have "core_inv (net_new\<lparr>next_id := ir_start r\<rparr>)"
      using assms(4,5) by (simp add: core_inv_def slots_ok_def ports_clean_def symmetric_wires_def ids_below_def free_list_ok_def net_new_def
          sym_at_def get_agent_def vec_get_def tgt_def get_target_def valid_port_def Let_def DISCONNECTED_def)
    ultimately show ?thesis
      using 2 idx q rt assms(4) by (intro if_P [THEN iffD2] if_not_P [THEN iffD2])
        (auto simp: remap_partition_ids_def Let_def count net_new_def fun_eq_iff intro!: exI [of _ Map.empty])
  next
    case 3
    have fits: "ir_start r + length (live_ids ?n) \<le> u32_MAX" "ir_start r + count_live_agents ?n \<le> ir_end r"
      using 3(2) assms(4,5) count(2) by (simp_all add: id_range_len_def)
    have "\<exists>j. ?m i = Some j \<and> j < ir_start r + count_live_agents ?n" if "i \<in> set order" for i
      using that assms(3) remap_id_map_live [of r ?n i] remap_id_map_bounds [of r ?n i] count(2) by fastforce
    then obtain ags prts where arena: "ofold (remap_slot ?m ?n) order
       (replicate (ir_start r + count_live_agents ?n) None, replicate ((ir_start r + count_live_agents ?n) * PORTS_PER_SLOT) DISCONNECTED) = Some (ags, prts)"
      using remap_slots_total [of order ?m "ir_start r + count_live_agents ?n" ?n] assms(3) by (fastforce simp: sym_at_def)
    obtain p' where p': "remap_partition_ids order p r = Some (Inr p')"
        "p_subnet p' = net_new\<lparr>agents := ags, ports := prts, redex_queue := remap_redexes ?m (redex_queue ?n),
           next_id := ir_start r + length (live_ids ?n), root := (case root ?n of None \<Rightarrow> None | Some x \<Rightarrow> remap_entry ?m x)\<rparr>"
        "p_free_port_index p' = map_option (remap_target ?m) \<circ> p_free_port_index p" "p_id_range p' = r" "p_worker_id p' = p_worker_id p"
      using 3 arena by (simp add: remap_partition_ids_def Let_def count index)
    have "renamed_to ?m ?n (p_subnet p') \<and> core_inv (p_subnet p')"
      using remap_arena [OF assms(1-3) fits(1) _ p'(2)] arena count(2) by simp
    moreover have "next_id (p_subnet p') = ir_start r + count_live_agents ?n" "next_id (p_subnet p') \<le> ir_end r"
      using fits(2) count(2) p'(2) by simp_all
    moreover have "ran ?m = {ir_start r..<ir_start r + count_live_agents ?n}"
      using remap_id_map_bounds [of r ?n] remap_id_map_onto [of r _ ?n] unfolding count(2) by (fastforce simp: ran_def)
    moreover have "root (p_subnet p') = map_option (remap_target ?m) (root ?n)"
    proof (cases "root ?n")
      case (Some t)
      then obtain i q j where "t = AgentPort i q" "?m i = Some j"
        using assms(8) remap_id_map_live [of r ?n] by blast
      then show ?thesis
        using p'(2) Some by (simp add: remap_entry_def remap_target_def)
    qed (use p'(2) in simp)
    moreover have "redex_queue (p_subnet p') = map (map_prod (the \<circ> ?m) (the \<circ> ?m)) (redex_queue ?n)"
      using p'(2) queue by simp
    ultimately show ?thesis
      using 3(2) p'(1,3-5) remap_id_map_mono [of r ?n]
      by (intro if_not_P [THEN iffD2] exI [of _ p'] exI [of _ ?m]) auto
  qed
qed

definition pair_partition :: partition where
  "pair_partition = (partition_empty 3)\<lparr>p_subnet := pair_net Con Dup, p_free_port_index := [7 \<mapsto> AgentPort 1 2]\<rparr>"

lemma pair_net_live: "live (pair_net s t) i \<longleftrightarrow> i = 0 \<or> i = 1"
proof -
  have "live (pair_net s t) i \<Longrightarrow> i < 2"
    by (drule live_length) (simp add: pair_net_def)
  then show ?thesis
    using pair_net_view(3,4) [of s t] by (auto simp: less_2_cases_iff)
qed

theorem remap_partition_ids_correct_witness:
  "\<exists>p' m. remap_partition_ids [1, 0] pair_partition \<lparr>ir_start = 10, ir_end = 20\<rparr> = Some (Inr p') \<and>
     renamed_to m (pair_net Con Dup) (p_subnet p') \<and> core_inv (p_subnet p') \<and> ran m = {10..<12}"
proof -
  let ?n = "pair_net Con Dup"
  have n: "p_subnet pair_partition = ?n" "p_free_port_index pair_partition = [7 \<mapsto> AgentPort 1 2]"
    by (simp_all add: pair_partition_def)
  have c: "count_live_agents (p_subnet pair_partition) = 2"
    by (simp add: n pair_net_def count_live_agents_def)
  have inv: "core_inv (p_subnet pair_partition)"
    by (simp add: n)
  have ord: "distinct [1, 0 :: nat]" "set [1, 0] = {i. live (p_subnet pair_partition) i}"
    unfolding n pair_net_live by auto
  have refs: "\<forall>b t. p_free_port_index pair_partition b = Some t \<longrightarrow> (\<exists>i q. t = AgentPort i q \<and> live (p_subnet pair_partition) i)"
      "\<forall>(a, b) \<in> set (redex_queue (p_subnet pair_partition)). live (p_subnet pair_partition) a \<and> live (p_subnet pair_partition) b"
    unfolding n pair_net_live by (auto split: if_splits)
  have rt: "\<forall>t. root (p_subnet pair_partition) = Some t \<longrightarrow> (\<exists>i q. t = AgentPort i q \<and> live (p_subnet pair_partition) i)"
    by (simp add: n pair_net_def net_new_def)
  note R = remap_partition_ids_correct [OF inv ord _ _ refs(2,1) rt, of "\<lparr>ir_start = 10, ir_end = 20\<rparr>", unfolded c]
  obtain p' m where "remap_partition_ids [1, 0] pair_partition \<lparr>ir_start = 10, ir_end = 20\<rparr> = Some (Inr p')"
      "renamed_to m (p_subnet pair_partition) (p_subnet p')" "core_inv (p_subnet p')" "ran m = {10..<next_id (p_subnet p')}"
      "next_id (p_subnet p') = 10 + 2"
    using R by (auto simp: id_range_len_def)
  then show ?thesis
    unfolding n by auto
qed

text \<open>
  What the renumbering drops: a wire between two border ports lives only in the ledger of redirections,
  which the new net starts without.
\<close>

lemma remap_drops_redirects:
  "remap_partition_ids order p r = Some (Inr p') \<Longrightarrow> freeport_redirects (p_subnet p') = Map.empty"
  by (auto simp: remap_partition_ids_def Let_def net_new_def split: if_splits)

end
