(* ===== verification/Builder.thy ===== *)
theory Builder
  imports Net_Check Engine_Laws "HOL-Library.Multiset"
begin

text \<open>
  Building nets: the encoders create agents and wire their ports with \<open>connect\<close>.  The predicate \<open>grown\<close>
  describes a net after such steps by the new agents, their symbols and the wires laid so far; every
  builder is then a chain of \<open>grown_create\<close>, \<open>grown_wire\<close> and \<open>grown_trans\<close> steps.
\<close>

text \<open>A sequence of \<open>connect\<close> calls.\<close>

definition wire_all :: "(port_ref \<times> port_ref) list \<Rightarrow> net \<Rightarrow> net" where
  "wire_all ws n = fold (\<lambda>(a, b). connect a b) ws n"

lemma wire_all_link: "core_inv n \<Longrightarrow> joinable ws n \<Longrightarrow> wire_all ws n = link_all ws n"
proof (induction ws arbitrary: n)
  case (Cons w ws)
  obtain x y where w: "w = (x, y)"
    by (cases w)
  note J = joinable_Cons [OF Cons.prems(2) [unfolded w]]
  have "core_inv (connect x y n)"
    using Cons.prems(1) J(1-3) by (rule core_inv_connect)
  then show ?case
    using Cons.IH [OF _ joinable_connect [OF Cons.prems [unfolded w]]] J(1,2) by (simp add: w wire_all_def)
qed (simp add: wire_all_def)

lemma agent_ends_append: "agent_ends (ws @ vs) = agent_ends ws @ agent_ends vs"
  by (induction ws rule: agent_ends.induct) simp_all

lemma agent_ends_concat: "agent_ends (concat wss) = concat (map agent_ends wss)"
  by (induction wss) (simp_all add: agent_ends_append)

lemma other_end_append:
  "other_end (ws @ vs) x = (case other_end ws x of None \<Rightarrow> other_end vs x | Some y \<Rightarrow> Some y)"
  by (induction ws rule: agent_ends.induct) simp_all

lemma in_agent_ends:
  "(AgentPort i p, y) \<in> set ws \<Longrightarrow> AgentPort i p \<in> set (agent_ends ws)"
  "(y, AgentPort i p) \<in> set ws \<Longrightarrow> AgentPort i p \<in> set (agent_ends ws)"
  by (induction ws rule: agent_ends.induct) auto

lemma other_end_fst:
  "distinct (agent_ends ws) \<Longrightarrow> (AgentPort i p, y) \<in> set ws \<Longrightarrow> other_end ws (AgentPort i p) = Some y"
proof (induction ws)
  case (Cons w ws)
  then show ?case
    using in_agent_ends(1) [of i p y ws] by (cases w; cases "fst w"; cases "snd w") auto
qed simp

lemma other_end_snd:
  "distinct (agent_ends ws) \<Longrightarrow> (y, AgentPort i p) \<in> set ws \<Longrightarrow> other_end ws (AgentPort i p) = Some y"
proof (induction ws)
  case (Cons w ws)
  then show ?case
    using in_agent_ends(2) [of y i p ws] by (cases w; cases "fst w"; cases "snd w") auto
qed simp

lemma other_end_mem: "AgentPort i p \<in> set (agent_ends ws) \<longleftrightarrow> other_end ws (AgentPort i p) \<noteq> None"
  by (induction ws rule: agent_ends.induct) (auto split: port_ref.splits)

lemma map_upds_append: "length xs = length ys \<Longrightarrow> m(xs @ xs' [\<mapsto>] ys @ ys') = (m(xs [\<mapsto>] ys))(xs' [\<mapsto>] ys')"
  by (induction xs ys arbitrary: m rule: list_induct2) simp_all

text \<open>The symbol of a new agent, and the ports the wires may use.\<close>

definition new_end :: "agent_id list \<Rightarrow> symbol list \<Rightarrow> port_ref \<Rightarrow> bool" where
  "new_end ids ss x \<longleftrightarrow> (case x of AgentPort i p \<Rightarrow> (\<exists>k < length ids. ids ! k = i \<and> p < total_ports (ss ! k)) | _ \<Rightarrow> False)"

definition new_wires :: "agent_id list \<Rightarrow> symbol list \<Rightarrow> (port_ref \<times> port_ref) list \<Rightarrow> bool" where
  "new_wires ids ss ws \<longleftrightarrow> distinct (agent_ends ws) \<and> (\<forall>(x, y) \<in> set ws. new_end ids ss x \<and> new_end ids ss y)"

definition grown ::
  "net \<Rightarrow> agent_id list \<Rightarrow> symbol list \<Rightarrow> (port_ref \<times> port_ref) list \<Rightarrow> net \<Rightarrow> bool" where
  "grown n ids ss ws m \<longleftrightarrow>
     core_inv n \<and> core_inv m \<and> length ids = length ss \<and> distinct ids \<and> (\<forall>i \<in> set ids. \<not> live n i) \<and>
     sym_at m = (sym_at n)(ids [\<mapsto>] ss) \<and> new_wires ids ss ws \<and>
     (\<forall>j q. q < 3 \<longrightarrow> tgt m j q = (case other_end ws (AgentPort j q) of Some t \<Rightarrow> t | None \<Rightarrow> tgt n j q)) \<and>
     redex_queue m = redex_queue n @ concat (map (\<lambda>(x, y). new_redexes x y) ws) \<and>
     root m = root n \<and> next_id n \<le> next_id m \<and> next_id m \<le> next_id n + length ss"

lemma grownD:
  assumes "grown n ids ss ws m"
  shows "core_inv m" "length ids = length ss" "distinct ids" "\<And>i. i \<in> set ids \<Longrightarrow> \<not> live n i"
    "sym_at m = (sym_at n)(ids [\<mapsto>] ss)" "new_wires ids ss ws"
    "\<And>j q. q < 3 \<Longrightarrow> tgt m j q = (case other_end ws (AgentPort j q) of Some t \<Rightarrow> t | None \<Rightarrow> tgt n j q)"
    "redex_queue m = redex_queue n @ concat (map (\<lambda>(x, y). new_redexes x y) ws)"
    "root m = root n" "next_id n \<le> next_id m" "next_id m \<le> next_id n + length ss" "core_inv n"
  using assms by (simp_all add: grown_def)

lemma grown_refl: "core_inv n \<Longrightarrow> grown n [] [] [] n"
  by (simp add: grown_def new_wires_def)

lemma new_end_append:
  "length ids = length ss \<Longrightarrow> new_end ids ss x \<Longrightarrow> new_end (ids @ ids') (ss @ ss') x"
  "length ids = length ss \<Longrightarrow> new_end ids' ss' x \<Longrightarrow> new_end (ids @ ids') (ss @ ss') x"
proof -
  show "length ids = length ss \<Longrightarrow> new_end ids ss x \<Longrightarrow> new_end (ids @ ids') (ss @ ss') x"
    by (cases x) (fastforce simp: new_end_def nth_append)+
next
  assume l: "length ids = length ss" and x: "new_end ids' ss' x"
  then obtain i p k where k: "x = AgentPort i p" "k < length ids'" "ids' ! k = i" "p < total_ports (ss' ! k)"
    by (cases x) (auto simp: new_end_def)
  then show "new_end (ids @ ids') (ss @ ss') x"
    using l by (auto simp: new_end_def nth_append intro!: exI [of _ "length ids + k"])
qed

lemma new_endD: "new_end ids ss (AgentPort i p) \<Longrightarrow> i \<in> set ids"
  by (auto simp: new_end_def)

lemma agent_ends_in: "x \<in> set (agent_ends ws) \<Longrightarrow> \<exists>y. (x, y) \<in> set ws \<or> (y, x) \<in> set ws"
  by (induction ws rule: agent_ends.induct) (auto split: port_ref.splits)

lemma new_end_zip: "(i, s) \<in> set (zip ids ss) \<Longrightarrow> p < total_ports s \<Longrightarrow> new_end ids ss (AgentPort i p)"
  by (auto simp: new_end_def set_zip)

lemma new_wires_ends:
  assumes "new_wires ids ss ws" "x \<in> set (agent_ends ws)"
  shows "new_end ids ss x"
  using agent_ends_in [OF assms(2)] assms(1) by (auto simp: new_wires_def)

lemma grown_trans:
  assumes "grown n ids ss ws m" "grown m ids' ss' ws' m'"
  shows "grown n (ids @ ids') (ss @ ss') (ws @ ws') m'"
proof -
  note A = grownD [OF assms(1)] and B = grownD [OF assms(2)]
  have live: "live m i" if "i \<in> set ids" for i
    unfolding A(5) using that A(2,3) by (simp add: map_upds_apply_nontin) (metis in_set_conv_nth map_upds_nth option.distinct(1))
  have dis: "set ids \<inter> set ids' = {}"
    using B(4) live by fastforce
  have old: "\<not> live n i" if "i \<in> set ids'" for i
  proof -
    have "i \<notin> set ids"
      using that dis by auto
    then show ?thesis
      using B(4) [OF that] by (simp add: A(5) map_upds_apply_nontin)
  qed
  have "distinct (agent_ends (ws @ ws'))"
  proof -
    have "set (agent_ends ws) \<inter> set (agent_ends ws') = {}"
      using new_wires_ends [OF A(6)] new_wires_ends [OF B(6)] dis agent_ends_agent by (metis new_endD port_ref.exhaust disjoint_iff)
    then show ?thesis
      using A(6) B(6) by (simp add: agent_ends_append new_wires_def)
  qed
  then have wires: "new_wires (ids @ ids') (ss @ ss') (ws @ ws')"
    using A(2,6) B(6) by (auto simp: new_wires_def split: prod.splits intro: new_end_append)
  have "other_end ws (AgentPort j q) = None" if "other_end ws' (AgentPort j q) \<noteq> None" for j q
    using that new_wires_ends [OF A(6)] new_wires_ends [OF B(6)] dis unfolding other_end_mem [symmetric]
    by (metis disjoint_iff new_endD other_end_None)
  then have "tgt m' j q = (case other_end (ws @ ws') (AgentPort j q) of Some t \<Rightarrow> t | None \<Rightarrow> tgt n j q)" if "q < 3" for j q
    using A(7) [OF that] B(7) [OF that] by (fastforce simp: other_end_append split: option.splits)
  then show ?thesis
    unfolding grown_def using A B dis old wires by (auto simp: map_upds_append)
qed

lemma grown_create:
  assumes "core_inv m" "create_agents ss m = Some (ids, m')"
  shows "grown m ids ss [] m'"
  using create_agents_view [OF assms] assms(1) by (simp add: grown_def new_wires_def)

lemma grown_sym:
  assumes "grown n ids ss ws m" "k < length ids"
  shows "sym_at m (ids ! k) = Some (ss ! k)"
  using grownD(2,3,5) [OF assms(1)] assms(2) by (simp add: map_upds_nth)

lemma grown_sym_zip: "grown n ids ss ws m \<Longrightarrow> (i, s) \<in> set (zip ids ss) \<Longrightarrow> sym_at m i = Some s"
  using grown_sym by (auto simp: set_zip)

lemma grown_wire:
  assumes "grown n ids ss ws m" "new_wires ids ss (ws @ vs)"
  shows "grown n ids ss (ws @ vs) (wire_all vs m)"
proof -
  note A = grownD [OF assms(1)]
  have disj: "set (agent_ends ws) \<inter> set (agent_ends vs) = {}" "distinct (agent_ends vs)" "new_wires ids ss vs"
    using assms(2) by (auto simp: new_wires_def agent_ends_append)
  have "open_end m x" if x: "x \<in> set (agent_ends vs)" for x
  proof (cases x)
    case (AgentPort i p)
    obtain k where k: "k < length ids" "ids ! k = i" "p < total_ports (ss ! k)"
      using new_wires_ends [OF disj(3) x] by (auto simp: AgentPort new_end_def)
    have p: "p < 3"
      using k(3) total_ports_le by (rule less_le_trans)
    have "other_end ws (AgentPort i p) = None"
      using x disj(1) by (intro other_end_None) (auto simp: AgentPort)
    moreover have "tgt n i p = DISCONNECTED"
      using A(4) [of i] A(12) k(1,2) p by (intro dead_tgt) auto
    ultimately show ?thesis
      using grown_sym [OF assms(1) k(1)] k A(7) [OF p] by (simp add: AgentPort valid_port_def)
  qed simp
  then have J: "joinable vs m"
    using disj(2) by (simp add: joinable_def)
  note L = link_all_view [OF A(1) J]
  have "other_end vs (AgentPort j q) \<noteq> None \<Longrightarrow> other_end ws (AgentPort j q) = None" for j q
    using disj(1) unfolding other_end_mem [symmetric] by (intro other_end_None) auto
  then have "tgt (link_all vs m) j q = (case other_end (ws @ vs) (AgentPort j q) of Some t \<Rightarrow> t | None \<Rightarrow> tgt n j q)" if "q < 3" for j q
    using A(7) [OF that] L(6) [OF that] by (fastforce simp: other_end_append split: option.splits)
  then show ?thesis
    unfolding grown_def wire_all_link [OF A(1) J] using A L assms(2) by simp
qed

lemma create_agents_append:
  "create_agents (ss @ ss') n =
     do { (is, n1) \<leftarrow> create_agents ss n; (js, n2) \<leftarrow> create_agents ss' n1; Some (is @ js, n2) }"
  by (induction ss arbitrary: n) (auto split: Option.bind_split)

lemma grown_total:
  assumes "grown n ids ss ws m" "next_id n + length ss + length ss' \<le> u32_MAX"
  obtains js m' where "create_agents ss' m = Some (js, m')" "grown n (ids @ js) (ss @ ss') ws m'" "length js = length ss'"
proof -
  obtain js m' where c: "create_agents ss' m = Some (js, m')"
    using create_agents_total [OF grownD(1) [OF assms(1)], of ss'] grownD(11) [OF assms(1)] assms(2) by auto
  moreover have "grown n (ids @ js) (ss @ ss') ws m'"
    using grown_trans [OF assms(1) grown_create [OF grownD(1) [OF assms(1)] c]] by simp
  ultimately show thesis
    using that create_agents_view(1) [OF grownD(1) [OF assms(1)] c] by blast
qed

text \<open>What a built net looks like: its wires, its active pairs, its free ports, its size.\<close>

lemma other_end_in: "other_end ws x = Some y \<Longrightarrow> (x, y) \<in> set ws \<or> (y, x) \<in> set ws"
  by (induction ws rule: agent_ends.induct) (auto split: if_splits)

lemma grown_tgt:
  assumes "grown n ids ss ws m" "(AgentPort i p, AgentPort j q) \<in> set ws"
  shows "tgt m i p = AgentPort j q" "tgt m j q = AgentPort i p"
proof -
  have w: "new_wires ids ss ws"
    using grownD(6) [OF assms(1)] .
  then have e: "new_end ids ss (AgentPort i p)" "new_end ids ss (AgentPort j q)"
    using assms(2) by (auto simp: new_wires_def)
  then have "p < 3" "q < 3"
    using total_ports_le by (auto simp: new_end_def intro: less_le_trans)
  then show "tgt m i p = AgentPort j q" "tgt m j q = AgentPort i p"
    using grownD(7) [OF assms(1)] w other_end_fst [OF _ assms(2)] other_end_snd [OF _ assms(2)] by (simp_all add: new_wires_def)
qed

lemma grown_queue_complete:
  assumes "grown n ids ss ws m" "queue_complete n"
  shows "queue_complete m"
  unfolding queue_complete_def
proof (intro allI impI)
  fix a b
  assume "active_pair m a b"
  then have "other_end ws (AgentPort a 0) = Some (AgentPort b 0) \<or> active_pair n a b"
    using grownD(7) [OF assms(1), of 0 a] by (auto simp: active_pair_def split: option.splits)
  then show "(a, b) \<in> set (redex_queue m) \<or> (b, a) \<in> set (redex_queue m)"
  proof
    assume "other_end ws (AgentPort a 0) = Some (AgentPort b 0)"
    then show ?thesis
      using other_end_in [of ws] grownD(8) [OF assms(1)] by (force simp: new_redexes_def)
  qed (use assms(2) grownD(8) [OF assms(1)] in \<open>auto simp: queue_complete_def\<close>)
qed

lemma grown_open:
  assumes "grown n ids ss ws m" "valid_port m i p" "tgt m i p = DISCONNECTED"
  shows "valid_port n i p \<and> tgt n i p = DISCONNECTED \<or>
    (\<exists>s. (i, s) \<in> set (zip ids ss) \<and> p < total_ports s \<and> AgentPort i p \<notin> set (agent_ends ws))"
proof -
  note G = grownD [OF assms(1)]
  have p: "p < 3"
    using assms(2) by (rule valid_port_less)
  have none: "AgentPort i p \<notin> set (agent_ends ws)"
  proof
    assume "AgentPort i p \<in> set (agent_ends ws)"
    then obtain y where y: "other_end ws (AgentPort i p) = Some y"
      using other_end_mem by auto
    then have "new_end ids ss y"
      using other_end_in [OF y] G(6) by (auto simp: new_wires_def)
    then show False
      using assms(3) G(7) [OF p, of i] y by (cases y) (auto simp: new_end_def DISCONNECTED_def)
  qed
  show ?thesis
  proof (cases "i \<in> set ids")
    case True
    then obtain k where k: "k < length ids" "ids ! k = i"
      by (auto simp: in_set_conv_nth)
    then have "(i, ss ! k) \<in> set (zip ids ss)" "sym_at m i = Some (ss ! k)"
      using G(2) grown_sym [OF assms(1) k(1)] by (auto simp: set_zip)
    then show ?thesis
      using none assms(2) by (auto simp: valid_port_def)
  next
    case False
    then show ?thesis
      using assms(2,3) G(5) G(7) [OF p, of i] other_end_None [OF none] by (auto simp: valid_port_def map_upds_apply_nontin)
  qed
qed

lemma grown_size: "grown n ids ss ws m \<Longrightarrow> count_live_agents m = count_live_agents n + length ids"
  using map_weight_upds [of "sym_at n" ids ss "\<lambda>_. 1"] grownD(2,3,4,5) [of n ids ss ws m] finite_live
  by (simp add: count_live_weight sum_list_triv)

lemma core_inv_new: "core_inv net_new" "queue_complete net_new" "\<not> live net_new i" "redex_queue net_new = []"
    "next_id net_new = 0" "count_live_agents net_new = 0" "sym_at net_new = Map.empty" "tgt net_new j q = DISCONNECTED"
  by (simp_all add: core_inv_def slots_ok_def ports_clean_def symmetric_wires_def ids_below_def free_list_ok_def net_new_def
      queue_complete_def active_pair_def tgt_def sym_at_def get_agent_def get_target_def vec_get_def count_live_agents_def valid_port_def fun_eq_iff)

lemma core_inv_root: "core_inv (m\<lparr>root := r\<rparr>) \<longleftrightarrow> core_inv m"
proof -
  have "slots_ok (m\<lparr>root := r\<rparr>) \<longleftrightarrow> slots_ok m" "ports_clean (m\<lparr>root := r\<rparr>) \<longleftrightarrow> ports_clean m"
    "symmetric_wires (m\<lparr>root := r\<rparr>) \<longleftrightarrow> symmetric_wires m" "ids_below (m\<lparr>root := r\<rparr>) \<longleftrightarrow> ids_below m"
    "free_list_ok (m\<lparr>root := r\<rparr>) \<longleftrightarrow> free_list_ok m"
    by (simp_all add: slots_ok_def get_agent_def ports_clean_def valid_port_def symmetric_wires_def ids_below_def free_list_ok_def)
  then show ?thesis
    by (simp add: core_inv_def)
qed

text \<open>A net built from nothing, with every port wired but the principal port it exposes as its root.\<close>

lemma grown_closed:
  assumes "grown net_new ids ss ws m" "i \<in> set ids"
    and "\<And>j s p. (j, s) \<in> set (zip ids ss) \<Longrightarrow> p < total_ports s \<Longrightarrow> AgentPort j p \<notin> set (agent_ends ws) \<longleftrightarrow> (j, p) = (i, 0)"
  shows "net_inv (m\<lparr>root := Some (AgentPort i 0)\<rparr>)"
proof -
  note G = grownD [OF assms(1)]
  obtain k where k: "k < length ids" "ids ! k = i"
    using assms(2) by (auto simp: in_set_conv_nth)
  then have z: "(i, ss ! k) \<in> set (zip ids ss)"
    using G(2) by (auto simp: set_zip)
  have live: "sym_at m i = Some (ss ! k)"
    using grown_sym [OF assms(1) k(1)] k(2) by simp
  have "AgentPort i 0 \<notin> set (agent_ends ws)"
    using assms(3) [OF z, of 0] by (cases "ss ! k") auto
  then have t: "tgt m i 0 = DISCONNECTED"
    using G(7) [of 0 i] other_end_None core_inv_new(8) by simp
  have core: "core_inv (m\<lparr>root := Some (AgentPort i 0)\<rparr>)"
    using G(1) by (simp add: core_inv_root)
  have "j = i \<and> p = 0" if "valid_port m j p" "tgt m j p = DISCONNECTED" for j p
    using grown_open [OF assms(1) that] assms(3) [of j _ p] valid_port_live core_inv_new(3) by blast
  then have "fully_wired (m\<lparr>root := Some (AgentPort i 0)\<rparr>)"
    by (simp add: fully_wired_def valid_port_def)
  then show ?thesis
    using core live t by (simp add: net_inv_def root_ok_def)
qed

section \<open>Accounting for the ports\<close>

text \<open>The ports of the new agents, and a built net whose ports are all wired but the listed ones.\<close>

definition all_ports :: "agent_id list \<Rightarrow> symbol list \<Rightarrow> port_ref list" where
  "all_ports ids ss = concat (map (\<lambda>(i, s). map (AgentPort i) [0..<total_ports s]) (zip ids ss))"

definition built ::
  "net \<Rightarrow> agent_id list \<Rightarrow> symbol list \<Rightarrow> (port_ref \<times> port_ref) list \<Rightarrow> net \<Rightarrow> port_ref list \<Rightarrow> bool" where
  "built n ids ss ws m L \<longleftrightarrow> grown n ids ss ws m \<and> mset (all_ports ids ss) = mset (agent_ends ws @ L)"

lemma all_ports_append: "length ids = length ss \<Longrightarrow> all_ports (ids @ js) (ss @ ss') = all_ports ids ss @ all_ports js ss'"
  by (simp add: all_ports_def)

lemma in_all_ports: "x \<in> set (all_ports ids ss) \<longleftrightarrow> (\<exists>i s p. x = AgentPort i p \<and> (i, s) \<in> set (zip ids ss) \<and> p < total_ports s)"
  unfolding all_ports_def by (induction ids ss rule: list_induct2') auto

lemma new_end_ports: "length ids = length ss \<Longrightarrow> new_end ids ss x \<Longrightarrow> x \<in> set (all_ports ids ss)"
  unfolding in_all_ports by (cases x) (auto simp: new_end_def set_zip)

lemma distinct_all_ports:
  assumes "distinct ids"
  shows "distinct (all_ports ids ss)"
  using assms
proof (induction ids arbitrary: ss)
  case (Cons i ids)
  show ?case
  proof (cases ss)
    case (Cons s ss')
    have "set (map (AgentPort i) [0..<total_ports s]) \<inter> set (all_ports ids ss') = {}"
      using Cons.prems by (auto simp: all_ports_def dest: set_zip_leftD)
    then show ?thesis
      using Cons.IH [of ss'] Cons.prems Cons by (simp add: all_ports_def distinct_map inj_on_def)
  qed (simp add: all_ports_def)
qed (simp add: all_ports_def)

lemma builtD:
  assumes "built n ids ss ws m L"
  shows "grown n ids ss ws m" "distinct (agent_ends ws @ L)" "set (agent_ends ws) \<union> set L = set (all_ports ids ss)"
proof -
  have m: "mset (all_ports ids ss) = mset (agent_ends ws @ L)" and g: "grown n ids ss ws m"
    using assms by (auto simp: built_def)
  show "grown n ids ss ws m" "distinct (agent_ends ws @ L)"
    using g mset_eq_imp_distinct_iff [OF m] distinct_all_ports grownD(3) by blast+
  show "set (agent_ends ws) \<union> set L = set (all_ports ids ss)"
    using mset_eq_setD [OF m] by simp
qed

lemma built_refl: "core_inv n \<Longrightarrow> built n [] [] [] n []"
  by (simp add: built_def grown_refl all_ports_def)

lemma built_create:
  assumes "built n ids ss ws m L" "next_id n + length ss + length ss' \<le> u32_MAX"
  obtains js m' where "create_agents ss' m = Some (js, m')" "length js = length ss'"
    "built n (ids @ js) (ss @ ss') ws m' (L @ all_ports js ss')"
proof -
  obtain js m' where c: "create_agents ss' m = Some (js, m')" "grown n (ids @ js) (ss @ ss') ws m'" "length js = length ss'"
    using builtD(1) [OF assms(1)] assms(2) by (rule grown_total)
  moreover have "built n (ids @ js) (ss @ ss') ws m' (L @ all_ports js ss')"
    using assms(1) c(2) grownD(2) [OF builtD(1) [OF assms(1)]] by (simp add: built_def all_ports_append)
  ultimately show thesis
    using that by blast
qed

lemma built_wire:
  assumes "built n ids ss ws m L" "list_all (\<lambda>(x, y). is_agent x \<and> is_agent y) vs" "mset L = mset (agent_ends vs @ L')"
  shows "built n ids ss (ws @ vs) (wire_all vs m) L'"
proof -
  note B = builtD [OF assms(1)]
  have L: "distinct L" "set L = set (agent_ends vs) \<union> set L'"
    using B(2) mset_eq_setD [OF assms(3)] by simp_all
  have d: "distinct (agent_ends vs @ L')"
    using mset_eq_imp_distinct_iff [OF assms(3)] L(1) by simp
  have "new_end ids ss x \<and> new_end ids ss y" if "(x, y) \<in> set vs" for x y
  proof -
    have "is_agent x" "is_agent y"
      using assms(2) that by (auto simp: list_all_iff)
    then have "x \<in> set (agent_ends vs)" "y \<in> set (agent_ends vs)"
      using that in_agent_ends [of _ _ _ vs] by (cases x; cases y; fastforce)+
    then have "x \<in> set (all_ports ids ss)" "y \<in> set (all_ports ids ss)"
      using L(2) B(3) by auto
    then show ?thesis
      by (auto simp: in_all_ports intro!: new_end_zip)
  qed
  moreover have "distinct (agent_ends (ws @ vs))"
    using B(2) d L(2) by (auto simp: agent_ends_append)
  ultimately have "new_wires ids ss (ws @ vs)"
    using grownD(6) [OF B(1)] by (auto simp: new_wires_def)
  then show ?thesis
    using grown_wire [OF B(1)] assms(1,3) by (simp add: built_def agent_ends_append)
qed

end
