(* ===== verification/Church.thy ===== *)
theory Church
  imports Builder Split
begin

text \<open>
  Church numerals as nets (\<open>encoding/church.rs\<close>): building the numeral of a number inside a net, and
  reading a numeral back.  \<open>None\<close> is a panic; the walk of the decoder is a least fixed point, so that a
  walk that does not end has no value.
\<close>

section \<open>The encoder\<close>

definition MAX_CHURCH :: nat where
  "MAX_CHURCH = 1000000"

definition MAX_CHURCH_NAT :: nat where
  "MAX_CHURCH_NAT = 10000"

text \<open>The wires of a numeral above one: the chain of duplicators, the argument, the chain of applications.\<close>

definition dup_wires :: "agent_id list \<Rightarrow> agent_id list \<Rightarrow> nat \<Rightarrow> (port_ref \<times> port_ref) list" where
  "dup_wires apps dups i =
     [(AgentPort (dups ! i) 1, AgentPort (apps ! i) 0),
      (if i + 1 < length dups then (AgentPort (dups ! i) 2, AgentPort (dups ! (i + 1)) 0)
       else (AgentPort (dups ! i) 2, AgentPort (apps ! (length apps - 1)) 0))]"

definition church_wires :: "agent_id \<Rightarrow> agent_id \<Rightarrow> agent_id list \<Rightarrow> agent_id list \<Rightarrow> (port_ref \<times> port_ref) list" where
  "church_wires lam_f lam_x apps dups =
     (AgentPort lam_f 1, AgentPort (dups ! 0) 0) #
     concat (map (dup_wires apps dups) [0..<length dups]) @
     (AgentPort lam_x 1, AgentPort (apps ! (length apps - 1)) 2) #
     map (\<lambda>i. (AgentPort (apps ! i) 1, AgentPort (apps ! (i - 1)) 2)) (rev [1..<length apps]) @
     [(AgentPort (apps ! 0) 1, AgentPort lam_x 2)]"

definition encode_church_into :: "nat \<Rightarrow> net \<Rightarrow> (agent_id \<times> net) option" where
  "encode_church_into k n =
     (if k > MAX_CHURCH then None
      else do {
        (lam_f, n1) \<leftarrow> create_agent Con n;
        (lam_x, n2) \<leftarrow> create_agent Con n1;
        let n3 = connect (AgentPort lam_f 2) (AgentPort lam_x 0) n2;
        if k = 0 then do {
          (era, n4) \<leftarrow> create_agent Era n3;
          Some (lam_f, wire_all [(AgentPort lam_f 1, AgentPort era 0), (AgentPort lam_x 1, AgentPort lam_x 2)] n4) }
        else if k = 1 then do {
          (app, n4) \<leftarrow> create_agent Con n3;
          Some (lam_f, wire_all [(AgentPort lam_f 1, AgentPort app 0), (AgentPort lam_x 1, AgentPort app 2),
                                 (AgentPort lam_x 2, AgentPort app 1)] n4) }
        else do {
          (apps, n4) \<leftarrow> create_agents (replicate k Con) n3;
          (dups, n5) \<leftarrow> create_agents (replicate (k - 1) Dup) n4;
          Some (lam_f, wire_all (church_wires lam_f lam_x apps dups) n5) } })"

definition encode_nat :: "nat \<Rightarrow> net option" where
  "encode_nat k = map_option (\<lambda>(lam_f, n). n\<lparr>root := Some (AgentPort lam_f 0)\<rparr>) (encode_church_into k net_new)"

section \<open>The decoder\<close>

definition symbol_at :: "net \<Rightarrow> agent_id \<Rightarrow> symbol \<Rightarrow> bool" where
  "symbol_at n i s \<longleftrightarrow> (case get_agent n i of None \<Rightarrow> False | Some ag \<Rightarrow> a_symbol ag = s)"

text \<open>The walk along the chain of applications.\<close>

partial_function (option) church_walk :: "net \<Rightarrow> agent_id \<Rightarrow> port_ref \<Rightarrow> nat \<Rightarrow> nat option option" where
  "church_walk n lam_x current acc =
     (let target = get_target n current
      in if target = DISCONNECTED then Some None
         else case target of
                AgentPort i p \<Rightarrow>
                  if i = lam_x \<and> p = 1 then Some (Some acc)
                  else if p \<noteq> 1 \<or> \<not> symbol_at n i Con then Some None
                  else church_walk n lam_x (AgentPort i 2) (acc + 1)
              | FreePort f \<Rightarrow> Some None)"

definition decode_nat :: "net \<Rightarrow> nat option option" where
  "decode_nat n =
     (if redex_queue n \<noteq> [] then Some None
      else case root n of
        Some (AgentPort lam_f p) \<Rightarrow>
          if p \<noteq> 0 \<or> \<not> symbol_at n lam_f Con then Some None
          else
            (case get_target n (AgentPort lam_f 2) of
               AgentPort lam_x p \<Rightarrow>
                 if p \<noteq> 0 \<or> \<not> symbol_at n lam_x Con then Some None
                 else
                   (let f_target = get_target n (AgentPort lam_f 1); x_bind = get_target n (AgentPort lam_x 1);
                        x_body = get_target n (AgentPort lam_x 2)
                    in if f_target = DISCONNECTED \<or> x_bind = DISCONNECTED \<or> x_body = DISCONNECTED then Some None
                       else if x_bind = AgentPort lam_x 2 \<and> x_body = AgentPort lam_x 1 then Some (Some 0)
                       else church_walk n lam_x (AgentPort lam_x 2) 0)
             | FreePort f \<Rightarrow> Some None)
      | _ \<Rightarrow> Some None)"

section \<open>The wires of a numeral\<close>

text \<open>The agents of a numeral above one, each occurring once.\<close>

definition church_agents :: "agent_id \<Rightarrow> agent_id \<Rightarrow> agent_id list \<Rightarrow> agent_id list \<Rightarrow> nat \<Rightarrow> bool" where
  "church_agents lam_f lam_x apps dups k \<longleftrightarrow>
     2 \<le> k \<and> length apps = k \<and> length dups = k - 1 \<and> distinct (lam_f # lam_x # apps @ dups)"

lemma church_agentsD:
  assumes "church_agents f x apps dups k"
  shows "length apps = k" "length dups = k - 1" "2 \<le> k" "f \<noteq> x" "x \<noteq> f"
    "i < k \<Longrightarrow> j < k \<Longrightarrow> apps ! i = apps ! j \<longleftrightarrow> i = j"
    "i < k - 1 \<Longrightarrow> j < k - 1 \<Longrightarrow> dups ! i = dups ! j \<longleftrightarrow> i = j"
    "i < k \<Longrightarrow> j < k - 1 \<Longrightarrow> apps ! i \<noteq> dups ! j" "i < k \<Longrightarrow> j < k - 1 \<Longrightarrow> dups ! j \<noteq> apps ! i"
    "i < k \<Longrightarrow> apps ! i \<noteq> f" "i < k \<Longrightarrow> apps ! i \<noteq> x" "i < k - 1 \<Longrightarrow> dups ! i \<noteq> f" "i < k - 1 \<Longrightarrow> dups ! i \<noteq> x"
    "i < k \<Longrightarrow> f \<noteq> apps ! i" "i < k \<Longrightarrow> x \<noteq> apps ! i" "i < k - 1 \<Longrightarrow> f \<noteq> dups ! i" "i < k - 1 \<Longrightarrow> x \<noteq> dups ! i"
proof -
  have D: "length apps = k" "length dups = k - 1" "2 \<le> k" "f \<noteq> x" "distinct apps" "distinct dups"
    "set apps \<inter> set dups = {}" "f \<notin> set apps" "f \<notin> set dups" "x \<notin> set apps" "x \<notin> set dups"
    using assms by (auto simp: church_agents_def)
  have A: "i < k \<Longrightarrow> apps ! i \<in> set apps" and B: "j < k - 1 \<Longrightarrow> dups ! j \<in> set dups" for i j
    using D(1,2) by auto
  show "length apps = k" "length dups = k - 1" "2 \<le> k" "f \<noteq> x" "x \<noteq> f"
    "i < k \<Longrightarrow> j < k \<Longrightarrow> apps ! i = apps ! j \<longleftrightarrow> i = j"
    "i < k - 1 \<Longrightarrow> j < k - 1 \<Longrightarrow> dups ! i = dups ! j \<longleftrightarrow> i = j"
    using D(1-6) by (auto simp: nth_eq_iff_index_eq)
  show "i < k \<Longrightarrow> j < k - 1 \<Longrightarrow> apps ! i \<noteq> dups ! j" "i < k \<Longrightarrow> j < k - 1 \<Longrightarrow> dups ! j \<noteq> apps ! i"
    using A B D(7) by (metis disjoint_iff)+
  show "i < k \<Longrightarrow> apps ! i \<noteq> f" "i < k \<Longrightarrow> apps ! i \<noteq> x" "i < k - 1 \<Longrightarrow> dups ! i \<noteq> f" "i < k - 1 \<Longrightarrow> dups ! i \<noteq> x"
    "i < k \<Longrightarrow> f \<noteq> apps ! i" "i < k \<Longrightarrow> x \<noteq> apps ! i" "i < k - 1 \<Longrightarrow> f \<noteq> dups ! i" "i < k - 1 \<Longrightarrow> x \<noteq> dups ! i"
    using A B D(8-11) by metis+
qed

text \<open>The ends of the wires, group by group.\<close>

lemma dup_ends:
  "agent_ends (dup_wires apps dups i) =
     [AgentPort (dups ! i) 1, AgentPort (apps ! i) 0, AgentPort (dups ! i) 2,
      if i + 1 < length dups then AgentPort (dups ! (i + 1)) 0 else AgentPort (apps ! (length apps - 1)) 0]"
  by (simp add: dup_wires_def)

lemma app_ends:
  "agent_ends (map (\<lambda>i. (AgentPort (apps ! i) 1, AgentPort (apps ! (i - 1)) 2)) xs) =
     concat (map (\<lambda>i. [AgentPort (apps ! i) 1, AgentPort (apps ! (i - 1)) 2]) xs)"
  by (induction xs) simp_all

lemma church_ends_distinct:
  assumes "church_agents f x apps dups k"
  shows "distinct (agent_ends ((AgentPort f 2, AgentPort x 0) # church_wires f x apps dups))"
proof -
  note D = church_agentsD [OF assms]
  define DD where "DD = concat (map (\<lambda>i. agent_ends (dup_wires apps dups i)) [0..<k - 1])"
  define AA where "AA = concat (map (\<lambda>i. [AgentPort (apps ! i) 1, AgentPort (apps ! (i - 1)) 2]) (rev [1..<k]))"
  have dD: "distinct DD"
    unfolding DD_def
  proof (rule distinct_concat_map)
    fix i j
    assume "i \<in> set [0..<k - 1]" "j \<in> set [0..<k - 1]" "i \<noteq> j"
    then show "set (agent_ends (dup_wires apps dups i)) \<inter> set (agent_ends (dup_wires apps dups j)) = {}"
      using D(1-3,6-9) by (auto simp: dup_ends)
  qed (use D in \<open>auto simp: dup_ends\<close>)
  have dA: "distinct AA"
    unfolding AA_def
  proof (rule distinct_concat_map)
    fix i j
    assume "i \<in> set (rev [1..<k])" "j \<in> set (rev [1..<k])" "i \<noteq> j"
    then show "set [AgentPort (apps ! i) 1, AgentPort (apps ! (i - 1)) 2] \<inter> set [AgentPort (apps ! j) 1, AgentPort (apps ! (j - 1)) 2] = {}"
      using D(6) by auto
  qed (use D in auto)
  have mem: "i < k \<Longrightarrow> apps ! i \<in> set apps" "i < k - 1 \<Longrightarrow> dups ! i \<in> set dups" for i
    using D(1,2) by simp_all
  have sD: "(\<exists>a. z = AgentPort a 0 \<and> (a \<in> set apps \<or> a \<in> set dups \<and> a \<noteq> dups ! 0)) \<or>
      (\<exists>a \<in> set dups. z = AgentPort a 1 \<or> z = AgentPort a 2)" if "z \<in> set DD" for z
  proof -
    obtain i where i: "i < k - 1" "z \<in> set (agent_ends (dup_wires apps dups i))"
      using \<open>z \<in> set DD\<close> by (auto simp: DD_def)
    have 1: "apps ! i \<in> set apps" "dups ! i \<in> set dups" "apps ! (k - 1) \<in> set apps"
      using i(1) mem by simp_all
    have 2: "dups ! (i + 1) \<in> set dups \<and> dups ! (i + 1) \<noteq> dups ! 0" if "i + 1 < k - 1"
      using mem(2) [OF that] D(7) [OF that, of 0] D(3) by simp
    show ?thesis
      using i(2) 1 2 unfolding dup_ends D(1,2) by (auto split: if_splits)
  qed
  have sA: "\<exists>a \<in> set apps. z = AgentPort a 1 \<and> a \<noteq> apps ! 0 \<or> z = AgentPort a 2 \<and> a \<noteq> apps ! (k - 1)" if "z \<in> set AA" for z
  proof -
    obtain i where "i \<in> set (rev [1..<k])" and z: "z \<in> set [AgentPort (apps ! i) 1, AgentPort (apps ! (i - 1)) 2]"
      using \<open>z \<in> set AA\<close> unfolding AA_def set_concat set_map by blast
    then have i: "0 < i" "i < k" "z = AgentPort (apps ! i) 1 \<or> z = AgentPort (apps ! (i - 1)) 2"
      by auto
    have "apps ! i \<in> set apps" "apps ! (i - 1) \<in> set apps" "apps ! i \<noteq> apps ! 0" "apps ! (i - 1) \<noteq> apps ! (k - 1)"
      using i(1,2) mem D(6) [of i 0] D(6) [of "i - 1" "k - 1"] by auto
    then show ?thesis
      using i(3) by blast
  qed
  have ends: "agent_ends ((AgentPort f 2, AgentPort x 0) # church_wires f x apps dups) =
      [AgentPort f 2, AgentPort x 0, AgentPort f 1, AgentPort (dups ! 0) 0] @ DD @
      [AgentPort x 1, AgentPort (apps ! (k - 1)) 2] @ AA @ [AgentPort (apps ! 0) 1, AgentPort x 2]"
    using D(1,2) by (simp add: church_wires_def agent_ends_append agent_ends_concat app_ends [unfolded One_nat_def] comp_def DD_def AA_def)
  have disj: "set apps \<inter> set dups = {}" "f \<notin> set apps" "f \<notin> set dups" "x \<notin> set apps" "x \<notin> set dups"
    "apps ! 0 \<in> set apps" "apps ! (k - 1) \<in> set apps" "dups ! 0 \<in> set dups"
    using assms D(1-3) by (auto simp: church_agents_def)
  have nD: "AgentPort f p \<notin> set DD" "AgentPort x p \<notin> set DD" "AgentPort (dups ! 0) 0 \<notin> set DD"
    "a \<in> set apps \<Longrightarrow> p \<noteq> 0 \<Longrightarrow> AgentPort a p \<notin> set DD" for a p
    using disj sD [of "AgentPort f p"] sD [of "AgentPort x p"] sD [of "AgentPort (dups ! 0) 0"] sD [of "AgentPort a p"] by auto
  have nA: "AgentPort f p \<notin> set AA" "AgentPort x p \<notin> set AA" "AgentPort a 0 \<notin> set AA"
    "AgentPort (apps ! 0) 1 \<notin> set AA" "AgentPort (apps ! (k - 1)) 2 \<notin> set AA" for a p
    using disj sA [of "AgentPort f p"] sA [of "AgentPort x p"] sA [of "AgentPort a 0"]
      sA [of "AgentPort (apps ! 0) 1"] sA [of "AgentPort (apps ! (k - 1)) 2"] by auto
  have "z \<notin> set AA" if "z \<in> set DD" for z
    using sD [OF that] sA [of z] disj(1) by auto
  then have "set DD \<inter> set AA = {}"
    by blast
  moreover have "distinct [AgentPort f 2, AgentPort x 0, AgentPort f 1, AgentPort (dups ! 0) 0, AgentPort x 1, AgentPort (apps ! (k - 1)) 2, AgentPort (apps ! 0) 1, AgentPort x 2]"
    using disj D(4) by auto
  ultimately show ?thesis
    unfolding ends using dD dA nD nA disj(6-8) by simp
qed

section \<open>A numeral inside a net\<close>

text \<open>The symbols and the wires of a numeral, over the identifiers of its agents.\<close>

definition church_syms :: "nat \<Rightarrow> symbol list" where
  "church_syms k = Con # Con # (if k = 0 then [Era] else replicate k Con @ replicate (k - 1) Dup)"

definition church_body :: "nat \<Rightarrow> agent_id \<Rightarrow> agent_id \<Rightarrow> agent_id list \<Rightarrow> (port_ref \<times> port_ref) list" where
  "church_body k f x rest =
     (if k = 0 then [(AgentPort f 1, AgentPort (rest ! 0) 0), (AgentPort x 1, AgentPort x 2)]
      else if k = 1 then [(AgentPort f 1, AgentPort (rest ! 0) 0), (AgentPort x 1, AgentPort (rest ! 0) 2),
                          (AgentPort x 2, AgentPort (rest ! 0) 1)]
      else church_wires f x (take k rest) (drop k rest))"

lemma in_church_wires:
  assumes "(u, v) \<in> set (church_wires f x apps dups)" "church_agents f x apps dups k"
  obtains "u = AgentPort f 1" "v = AgentPort (dups ! 0) 0"
  | i where "i < k - 1" "u = AgentPort (dups ! i) 1" "v = AgentPort (apps ! i) 0"
  | i where "i + 1 < k - 1" "u = AgentPort (dups ! i) 2" "v = AgentPort (dups ! (i + 1)) 0"
  | "u = AgentPort (dups ! (k - 2)) 2" "v = AgentPort (apps ! (k - 1)) 0"
  | "u = AgentPort x 1" "v = AgentPort (apps ! (k - 1)) 2"
  | i where "i + 1 < k" "u = AgentPort (apps ! (i + 1)) 1" "v = AgentPort (apps ! i) 2"
  | "u = AgentPort (apps ! 0) 1" "v = AgentPort x 2"
proof -
  note D = church_agentsD(1-3) [OF assms(2)]
  consider "(u, v) = (AgentPort f 1, AgentPort (dups ! 0) 0)" | i where "i < k - 1" "(u, v) \<in> set (dup_wires apps dups i)"
    | "(u, v) = (AgentPort x 1, AgentPort (apps ! (k - 1)) 2)"
    | j where "0 < j" "j < k" "(u, v) = (AgentPort (apps ! j) 1, AgentPort (apps ! (j - 1)) 2)"
    | "(u, v) = (AgentPort (apps ! 0) 1, AgentPort x 2)"
  proof -
    have W: "set (church_wires f x apps dups) =
        {(AgentPort f 1, AgentPort (dups ! 0) 0)} \<union> (\<Union>i \<in> {0..<k - 1}. set (dup_wires apps dups i)) \<union>
        {(AgentPort x 1, AgentPort (apps ! (k - 1)) 2)} \<union>
        (\<lambda>j. (AgentPort (apps ! j) 1, AgentPort (apps ! (j - 1)) 2)) ` {1..<k} \<union> {(AgentPort (apps ! 0) 1, AgentPort x 2)}"
      using D(1,2) by (auto simp: church_wires_def)
    show thesis
      using assms(1) unfolding W by (elim UnE UN_E imageE) (simp_all add: that(1,3,5) that(2), rule that(4), simp_all)
  qed
  then show thesis
  proof cases
    case (2 i)
    then have last: "\<not> i + 1 < k - 1 \<Longrightarrow> i = k - 2"
      by simp
    show ?thesis
      using 2(2) that(2) [OF 2(1)] that(3) [of i] that(4) last by (auto simp: dup_wires_def D(1,2) split: if_splits)
  next
    case (4 j)
    then show ?thesis
      using that(6) [of "j - 1"] by simp
  qed (use that in auto)
qed

lemma church_wires_in:
  assumes "church_agents f x apps dups k"
  defines "W \<equiv> set (church_wires f x apps dups)"
  shows "(AgentPort f 1, AgentPort (dups ! 0) 0) \<in> W"
    "i < k - 1 \<Longrightarrow> (AgentPort (dups ! i) 1, AgentPort (apps ! i) 0) \<in> W"
    "i + 1 < k - 1 \<Longrightarrow> (AgentPort (dups ! i) 2, AgentPort (dups ! (i + 1)) 0) \<in> W"
    "(AgentPort (dups ! (k - 2)) 2, AgentPort (apps ! (k - 1)) 0) \<in> W"
    "(AgentPort x 1, AgentPort (apps ! (k - 1)) 2) \<in> W"
    "i + 1 < k \<Longrightarrow> (AgentPort (apps ! (i + 1)) 1, AgentPort (apps ! i) 2) \<in> W"
    "(AgentPort (apps ! 0) 1, AgentPort x 2) \<in> W"
proof -
  note D = church_agentsD(1-3) [OF assms(1)]
  have dup: "set (dup_wires apps dups j) \<subseteq> W" if "j < k - 1" for j
    using that D(2) by (auto simp: W_def church_wires_def)
  show "(AgentPort f 1, AgentPort (dups ! 0) 0) \<in> W" "(AgentPort x 1, AgentPort (apps ! (k - 1)) 2) \<in> W"
    "(AgentPort (apps ! 0) 1, AgentPort x 2) \<in> W"
    by (simp_all add: W_def church_wires_def D(1))
  show "i < k - 1 \<Longrightarrow> (AgentPort (dups ! i) 1, AgentPort (apps ! i) 0) \<in> W"
    using dup [of i] by (auto simp: dup_wires_def)
  show "i + 1 < k - 1 \<Longrightarrow> (AgentPort (dups ! i) 2, AgentPort (dups ! (i + 1)) 0) \<in> W"
    using dup [of i] D(2) by (auto simp: dup_wires_def)
  show "(AgentPort (dups ! (k - 2)) 2, AgentPort (apps ! (k - 1)) 0) \<in> W"
  proof -
    obtain j where "k = j + 2"
      using D(3) by (metis add.commute le_Suc_ex)
    then show ?thesis
      using dup [of j] D(1,2) by (simp add: dup_wires_def)
  qed
  show "i + 1 < k \<Longrightarrow> (AgentPort (apps ! (i + 1)) 1, AgentPort (apps ! i) 2) \<in> W"
    by (force simp: W_def church_wires_def D(1) image_iff)
qed

definition church_ids :: "nat \<Rightarrow> agent_id \<Rightarrow> agent_id \<Rightarrow> agent_id list \<Rightarrow> bool" where
  "church_ids k f x rest \<longleftrightarrow> length rest = (if k = 0 then 1 else 2 * k - 1) \<and> distinct (f # x # rest)"

lemma church_ids_cases:
  assumes "church_ids k f x rest"
  obtains (zero) e where "k = 0" "rest = [e]" "distinct [f, x, e]"
  | (one) a where "k = 1" "rest = [a]" "distinct [f, x, a]"
  | (more) "2 \<le> k" "church_agents f x (take k rest) (drop k rest) k" "rest = take k rest @ drop k rest"
proof -
  consider "k = 0" | "k = 1" | "2 \<le> k"
    by linarith
  then show thesis
    by cases (use assms zero one more in \<open>auto simp: church_ids_def church_agents_def length_Suc_conv simp flip: distinct_append set_append\<close>)
qed

lemma church_zip:
  assumes "church_agents f x apps dups k"
  shows "set (zip (f # x # apps @ dups) (church_syms k)) =
    {(f, Con), (x, Con)} \<union> (\<lambda>a. (a, Con)) ` set apps \<union> (\<lambda>d. (d, Dup)) ` set dups"
proof -
  note D = church_agentsD(1-3) [OF assms]
  have rep: "set (zip xs (replicate (length xs) s)) = (\<lambda>a. (a, s)) ` set xs" for xs :: "agent_id list" and s :: symbol
    by (induction xs) auto
  show ?thesis
    using D rep [of apps Con] rep [of dups Dup] by (auto simp: church_syms_def)
qed

lemma church_new_end:
  assumes "church_agents f x apps dups k" "p < 3"
  defines "E \<equiv> \<lambda>i. new_end (f # x # apps @ dups) (church_syms k) (AgentPort i p)"
  shows "E f" "E x" "i < k \<Longrightarrow> E (apps ! i)" "i < k - 1 \<Longrightarrow> E (dups ! i)"
proof -
  have E: "(j, s) \<in> {(f, Con), (x, Con)} \<union> (\<lambda>a. (a, Con)) ` set apps \<union> (\<lambda>d. (d, Dup)) ` set dups \<Longrightarrow> E j" for j s
    unfolding E_def church_zip [OF assms(1), symmetric] using assms(2) by (auto simp: church_zip [OF assms(1)] intro!: new_end_zip)
  show "E f" "E x" "i < k \<Longrightarrow> E (apps ! i)" "i < k - 1 \<Longrightarrow> E (dups ! i)"
    using church_agentsD(1,2) [OF assms(1)] E [of f Con] E [of x Con] E [of "apps ! i" Con] E [of "dups ! i" Dup] by simp_all
qed

lemma church_new_wires:
  assumes "church_ids k f x rest"
  shows "new_wires (f # x # rest) (church_syms k) ((AgentPort f 2, AgentPort x 0) # church_body k f x rest)"
  using assms
proof (cases rule: church_ids_cases)
  case more
  note E = church_new_end [OF more(2), folded more(3)]
  have "new_end (f # x # rest) (church_syms k) u \<and> new_end (f # x # rest) (church_syms k) v"
    if "(u, v) \<in> set (church_wires f x (take k rest) (drop k rest))" for u v
    using that more(2) by (cases rule: in_church_wires) (use E more(1) in \<open>simp_all del: nth_drop nth_take\<close>)
  then show ?thesis
    using church_ends_distinct [OF more(2)] more(1) E(1,2) by (auto simp: new_wires_def church_body_def)
qed (auto simp: new_wires_def church_body_def church_syms_def intro!: new_end_zip)

text \<open>Every port of the numeral but the principal port of its outer lambda is wired.\<close>

lemma church_covers:
  assumes "church_ids k f x rest" "(i, s) \<in> set (zip (f # x # rest) (church_syms k))" "p < total_ports s" "(i, p) \<noteq> (f, 0)"
  shows "AgentPort i p \<in> set (agent_ends ((AgentPort f 2, AgentPort x 0) # church_body k f x rest))"
  using assms(1)
proof (cases rule: church_ids_cases)
  case more
  let ?W = "church_wires f x (take k rest) (drop k rest)"
  note D = church_agentsD(1-3) [OF more(2)] and W = church_wires_in [OF more(2)]
  have p: "p = 0 \<or> p = 1 \<or> p = 2"
    using assms(3) by (cases s) auto
  note ends = in_agent_ends [of _ _ _ ?W]
  have dup: "AgentPort (drop k rest ! j) 0 \<in> set (agent_ends ?W)" "AgentPort (drop k rest ! j) 1 \<in> set (agent_ends ?W)"
    "AgentPort (drop k rest ! j) 2 \<in> set (agent_ends ?W)" if j: "j < k - 1" for j
  proof -
    show "AgentPort (drop k rest ! j) 0 \<in> set (agent_ends ?W)"
      using ends(2) [OF W(1)] ends(2) [OF W(3), of "j - 1"] j by (cases j) simp_all
    show "AgentPort (drop k rest ! j) 1 \<in> set (agent_ends ?W)"
      using ends(1) [OF W(2)] j by simp
    show "AgentPort (drop k rest ! j) 2 \<in> set (agent_ends ?W)"
    proof (cases "j + 1 < k - 1")
      case False
      then have "j = k - 2"
        using j by simp
      then show ?thesis
        using ends(1) [OF W(4)] by simp
    qed (use ends(1) [OF W(3)] in simp)
  qed
  have app: "AgentPort (take k rest ! j) 0 \<in> set (agent_ends ?W)" "AgentPort (take k rest ! j) 1 \<in> set (agent_ends ?W)"
    "AgentPort (take k rest ! j) 2 \<in> set (agent_ends ?W)" if j: "j < k" for j
  proof -
    have last: "j = k - 1" if "\<not> j < k - 1"
      using that j by simp
    show "AgentPort (take k rest ! j) 0 \<in> set (agent_ends ?W)"
      using ends(2) [OF W(2), of j] ends(2) [OF W(4)] last by (cases "j < k - 1") simp_all
    show "AgentPort (take k rest ! j) 1 \<in> set (agent_ends ?W)"
      using ends(1) [OF W(7)] ends(1) [OF W(6), of "j - 1"] j by (cases j) simp_all
    show "AgentPort (take k rest ! j) 2 \<in> set (agent_ends ?W)"
      using ends(2) [OF W(5)] ends(2) [OF W(6), of j] last by (cases "j < k - 1") simp_all
  qed
  have "i = f \<or> i = x \<or> i \<in> set (take k rest) \<or> i \<in> set (drop k rest)"
    using assms(2) church_zip [OF more(2), folded more(3)] by auto
  then consider "i = f" | "i = x" | j where "j < k" "i = take k rest ! j" | j where "j < k - 1" "i = drop k rest ! j"
    using D(1,2) unfolding in_set_conv_nth by metis
  then show ?thesis
    using p assms(4) ends(1) [OF W(1)] ends(1) [OF W(5)] ends(2) [OF W(7)] app dup more(1) by cases (auto simp: church_body_def)
next
  case (zero e)
  then have "i = f \<and> s = Con \<or> i = x \<and> s = Con \<or> i = e \<and> s = Era"
    using assms(2) by (auto simp: church_syms_def)
  then show ?thesis
    using assms(3,4) by (auto simp: zero church_body_def less3)
next
  case (one a)
  then have "(i = f \<or> i = x \<or> i = a) \<and> s = Con"
    using assms(2) by (auto simp: church_syms_def)
  then show ?thesis
    using assms(3,4) by (auto simp: one church_body_def less3)
qed

lemma encode_church_grown:
  assumes "core_inv n" "k \<le> MAX_CHURCH" "next_id n + (2 * k + 3) \<le> u32_MAX"
  obtains f x rest m where "encode_church_into k n = Some (f, m)" "church_ids k f x rest"
    "grown n (f # x # rest) (church_syms k) ((AgentPort f 2, AgentPort x 0) # church_body k f x rest) m"
proof -
  let ?ss = "if k = 0 then [Era] else replicate k Con @ replicate (k - 1) Dup"
  have room: "next_id n + length [] + length [Con, Con] \<le> u32_MAX" "next_id n + length [Con, Con] + length ?ss \<le> u32_MAX"
    using assms(3) by auto
  obtain fx n2 where 1: "create_agents [Con, Con] n = Some (fx, n2)" "grown n ([] @ fx) ([] @ [Con, Con]) [] n2" "length fx = length [Con, Con]"
    using room(1) by (rule grown_total [OF grown_refl [OF assms(1)]])
  then obtain f x where fx: "fx = [f, x]"
    by (auto simp: length_Suc_conv numeral_2_eq_2)
  have fneq: "f \<noteq> x"
    using grownD(3) [OF 1(2)] by (simp add: fx)
  let ?n3 = "connect (AgentPort f 2) (AgentPort x 0) n2"
  have "grown n [f, x] [Con, Con] [(AgentPort f 2, AgentPort x 0)] ?n3"
    (is "grown _ ?i ?s ?w _")
    using grown_wire [OF 1(2), of "[(AgentPort f 2, AgentPort x 0)]"] fneq
    by (simp add: fx wire_all_def new_wires_def new_end_zip)
  note g3 = this
  obtain rest n4 where 2: "create_agents ?ss ?n3 = Some (rest, n4)"
    "grown n (?i @ rest) (?s @ ?ss) ?w n4" "length rest = length ?ss"
    using room(2) by (rule grown_total [OF g3])
  then have 2: "create_agents ?ss ?n3 = Some (rest, n4)" "grown n (f # x # rest) (church_syms k) ?w n4" "length rest = length ?ss"
    by (simp_all add: church_syms_def)
  have ids: "church_ids k f x rest"
    using grownD(3) [OF 2(2)] 2(3) by (simp add: church_ids_def mult_2)
  have g: "grown n (f # x # rest) (church_syms k) ((AgentPort f 2, AgentPort x 0) # church_body k f x rest)
      (wire_all (church_body k f x rest) n4)"
    using grown_wire [OF 2(2), of "church_body k f x rest"] church_new_wires [OF ids] by simp
  have "encode_church_into k n = Some (f, wire_all (church_body k f x rest) n4)"
  proof -
    obtain n1 where c: "create_agent Con n = Some (f, n1)" "create_agent Con n1 = Some (x, n2)"
      using 1(1) fx unfolding create_agents_Some by auto
    consider "k = 0" | "k = 1" | "2 \<le> k"
      by linarith
    then show ?thesis
    proof cases
      case 3
      obtain apps n5 dups where a: "create_agents (replicate k Con) ?n3 = Some (apps, n5)"
        "create_agents (replicate (k - 1) Dup) n5 = Some (dups, n4)" "rest = apps @ dups"
        using 2(1) 3 by (auto simp: create_agents_append dest!: bind_eq_SomeD)
      moreover have "length apps = k"
        using create_agents_view(1) [OF grownD(1) [OF g3] a(1)] by simp
      ultimately show ?thesis
        using c assms(2) 3 by (simp add: encode_church_into_def church_body_def)
    qed (use c 2(1) assms(2) in \<open>auto simp: encode_church_into_def church_body_def split: bind_splits\<close>)
  qed
  then show thesis
    using that ids g by blast
qed

section \<open>Reading a numeral back\<close>

lemma symbol_at_iff: "symbol_at n i s \<longleftrightarrow> sym_at n i = Some s"
  by (simp add: symbol_at_def sym_at_def split: option.split)

lemma church_walk_step:
  "church_walk n x (AgentPort i p) acc =
     (if tgt n i p = DISCONNECTED then Some None
      else case tgt n i p of
             AgentPort j q \<Rightarrow>
               if j = x \<and> q = 1 then Some (Some acc)
               else if q \<noteq> 1 \<or> sym_at n j \<noteq> Some Con then Some None
               else church_walk n x (AgentPort j 2) (acc + 1)
           | FreePort f \<Rightarrow> Some None)"
  by (subst church_walk.simps) (auto simp: Let_def tgt_def symbol_at_iff split: port_ref.split)

text \<open>
  The spine the decoder walks: two lambdas and a chain of constructors from the argument port of one to
  the result port of the next.  It is part of a Church numeral, not all of it: what the variable of the
  outer lambda is connected to, and where the principal ports of the chain lead, is left open.
\<close>

definition church_spine :: "net \<Rightarrow> agent_id \<Rightarrow> agent_id \<Rightarrow> agent_id list \<Rightarrow> bool" where
  "church_spine n f x apps \<longleftrightarrow>
     x \<notin> set apps \<and> sym_at n f = Some Con \<and> sym_at n x = Some Con \<and> (\<forall>a \<in> set apps. sym_at n a = Some Con) \<and>
     tgt n f 2 = AgentPort x 0 \<and> tgt n f 1 \<noteq> DISCONNECTED \<and>
     (if apps = [] then tgt n x 1 = AgentPort x 2 \<and> tgt n x 2 = AgentPort x 1
      else tgt n x 1 = AgentPort (last apps) 2 \<and> tgt n x 2 = AgentPort (hd apps) 1 \<and> tgt n (last apps) 2 = AgentPort x 1 \<and>
        (\<forall>i. i + 1 < length apps \<longrightarrow> tgt n (apps ! i) 2 = AgentPort (apps ! (i + 1)) 1))"

definition spine_at :: "net \<Rightarrow> agent_id \<Rightarrow> nat \<Rightarrow> bool" where
  "spine_at n f k \<longleftrightarrow> (\<exists>x apps. church_spine n f x apps \<and> length apps = k)"

lemma church_walk_chain:
  assumes "x \<notin> set (a # apps)" "\<forall>b \<in> set (a # apps). sym_at n b = Some Con" "tgt n (last (a # apps)) 2 = AgentPort x 1"
    and "\<forall>i. i + 1 < length (a # apps) \<longrightarrow> tgt n ((a # apps) ! i) 2 = AgentPort ((a # apps) ! (i + 1)) 1"
  shows "church_walk n x (AgentPort a 2) acc = Some (Some (acc + length apps))"
  using assms
proof (induction apps arbitrary: a acc)
  case (Cons b apps)
  have "tgt n a 2 = AgentPort b 1"
    using Cons.prems(4) by fastforce
  moreover have "church_walk n x (AgentPort b 2) (acc + 1) = Some (Some (acc + 1 + length apps))"
    using Cons.prems(1-3) by (intro Cons.IH) (use Cons.prems(4) in fastforce)+
  ultimately show ?case
    using Cons.prems(1,2) by (subst church_walk_step) simp
qed (subst church_walk_step, simp)

lemma decode_church:
  assumes "spine_at n f k" "root n = Some (AgentPort f 0)" "redex_queue n = []"
  shows "decode_nat n = Some (Some k)"
proof -
  obtain x apps where A: "length apps = k" "x \<notin> set apps" "sym_at n f = Some Con" "sym_at n x = Some Con"
    "\<forall>a \<in> set apps. sym_at n a = Some Con" "tgt n f 2 = AgentPort x 0" "tgt n f 1 \<noteq> DISCONNECTED"
    "if apps = [] then tgt n x 1 = AgentPort x 2 \<and> tgt n x 2 = AgentPort x 1
     else tgt n x 1 = AgentPort (last apps) 2 \<and> tgt n x 2 = AgentPort (hd apps) 1 \<and> tgt n (last apps) 2 = AgentPort x 1 \<and>
           (\<forall>i. i + 1 < length apps \<longrightarrow> tgt n (apps ! i) 2 = AgentPort (apps ! (i + 1)) 1)"
    using assms(1) unfolding spine_at_def church_spine_def by auto
  show ?thesis
  proof (cases apps)
    case Nil
    then show ?thesis
      using A(1,3-8) assms(2,3) by (simp add: decode_nat_def symbol_at_iff Let_def flip: tgt_def)
  next
    case (Cons a bs)
    then have x2: "tgt n x 2 = AgentPort a 1" and x1: "tgt n x 1 = AgentPort (last apps) 2"
      using A(1,8) by (auto split: if_splits)
    have "church_walk n x (AgentPort x 2) 0 = church_walk n x (AgentPort a 2) 1"
      using A(2,5) Cons x2 by (subst church_walk_step) auto
    also have "\<dots> = Some (Some (1 + length bs))"
      using A(1,2,5,8) Cons by (intro church_walk_chain) (auto split: if_splits)
    finally have "church_walk n x (AgentPort x 2) 0 = Some (Some k)"
      using A(1) Cons by simp
    moreover have "a \<noteq> x"
      using A(2) Cons by auto
    ultimately show ?thesis
      using A(3-7) x1 x2 assms(2,3) by (simp add: decode_nat_def symbol_at_iff Let_def flip: tgt_def)
  qed
qed

lemma church_grown_spine:
  assumes "church_ids k f x rest" "grown n ids ss ws m" "set (zip (f # x # rest) (church_syms k)) \<subseteq> set (zip ids ss)"
    and "set ((AgentPort f 2, AgentPort x 0) # church_body k f x rest) \<subseteq> set ws"
  shows "church_spine m f x (if k = 0 then [] else take k rest)"
proof -
  have len: "length (f # x # rest) = length (church_syms k)"
    using assms(1) by (simp add: church_ids_def church_syms_def mult_2)
  have S: "sym_at m ((f # x # rest) ! i) = Some (church_syms k ! i)" if "i < length (f # x # rest)" for i
    using that len assms(3) by (intro grown_sym_zip [OF assms(2)] subsetD [OF assms(3)]) (auto simp: set_zip)
  note T = grown_tgt [OF assms(2), OF subsetD [OF assms(4)]]
  have fx: "sym_at m f = Some Con" "sym_at m x = Some Con" "tgt m f 2 = AgentPort x 0"
    using S [of 0] S [of 1] T(1) by (simp_all add: church_syms_def)
  show ?thesis
    using assms(1)
  proof (cases rule: church_ids_cases)
    case (zero e)
    then have "tgt m f 1 = AgentPort e 0" "tgt m x 1 = AgentPort x 2" "tgt m x 2 = AgentPort x 1"
      using T [of f 1 e 0] T [of x 1 x 2] by (simp_all add: church_body_def)
    then show ?thesis
      using fx zero(1) by (simp add: church_spine_def)
  next
    case (one a)
    then have "tgt m f 1 = AgentPort a 0" "tgt m x 1 = AgentPort a 2" "tgt m x 2 = AgentPort a 1" "tgt m a 2 = AgentPort x 1"
      using T [of f 1 a 0] T [of x 1 a 2] T [of x 2 a 1] by (simp_all add: church_body_def)
    moreover have "sym_at m a = Some Con"
      using S [of 2] one by (simp add: church_syms_def)
    ultimately show ?thesis
      using fx one by (simp add: church_spine_def)
  next
    case more
    let ?apps = "take k rest" and ?dups = "drop k rest"
    note D = church_agentsD(1-3) [OF more(2)]
    have W: "set (church_wires f x ?apps ?dups) \<subseteq> set ((AgentPort f 2, AgentPort x 0) # church_body k f x rest)"
      using more(1) by (auto simp: church_body_def)
    note in_W = church_wires_in [OF more(2), THEN subsetD [OF W]]
    have "?apps \<noteq> []"
      using D(1,3) by auto
    then have ne: "last ?apps = ?apps ! (k - 1)" "hd ?apps = ?apps ! 0"
      using D(1) last_conv_nth hd_conv_nth by metis+
    have "tgt m f 1 = AgentPort (?dups ! 0) 0" "tgt m x 1 = AgentPort (?apps ! (k - 1)) 2" "tgt m (?apps ! (k - 1)) 2 = AgentPort x 1"
      "tgt m x 2 = AgentPort (?apps ! 0) 1" "i + 1 < k \<Longrightarrow> tgt m (?apps ! i) 2 = AgentPort (?apps ! (i + 1)) 1" for i
      using T(1) [OF in_W(1)] T [OF in_W(5)] T(2) [OF in_W(7)] T(2) [OF in_W(6)] by blast+
    moreover have "sym_at m (?apps ! i) = Some Con" if "i < k" for i
      using S [of "i + 2"] that more(1) D(1) by (auto simp: church_syms_def nth_append)
    then have "\<forall>a \<in> set ?apps. sym_at m a = Some Con"
      using D(1) by (metis in_set_conv_nth)
    moreover have "x \<notin> set ?apps"
      using more(2) by (auto simp: church_agents_def dest: in_set_takeD)
    ultimately show ?thesis
      using fx more(1) D(1) ne \<open>?apps \<noteq> []\<close> by (simp add: church_spine_def)
  qed
qed

lemma church_exposed:
  assumes "church_ids k f x rest"
  shows "AgentPort f 0 \<notin> set (agent_ends ((AgentPort f 2, AgentPort x 0) # church_body k f x rest))"
  using assms
proof (cases rule: church_ids_cases)
  case more
  have "u \<noteq> AgentPort f 0 \<and> v \<noteq> AgentPort f 0" if "(u, v) \<in> set (church_wires f x (take k rest) (drop k rest))" for u v
    using that more(2) by (cases rule: in_church_wires)
      (use church_agentsD(3,5,9-12) [OF more(2)] more(1) in \<open>simp_all del: nth_drop nth_take\<close>)
  then have "AgentPort f 0 \<notin> set (agent_ends (church_wires f x (take k rest) (drop k rest)))"
    using agent_ends_in by blast
  then show ?thesis
    using more(1) church_agentsD(4) [OF more(2)] by (simp add: church_body_def)
qed (auto simp: church_body_def)

lemma church_no_redex:
  assumes "church_ids k f x rest"
  shows "concat (map (\<lambda>(u, v). new_redexes u v) ((AgentPort f 2, AgentPort x 0) # church_body k f x rest)) = []"
  using assms
proof (cases rule: church_ids_cases)
  case more
  have "new_redexes u v = []" if "(u, v) \<in> set (church_wires f x (take k rest) (drop k rest))" for u v
    using that more(2) by (cases rule: in_church_wires) (simp_all add: new_redexes_def)
  then show ?thesis
    using more(1) by (auto simp: church_body_def new_redexes_def)
qed (auto simp: church_body_def new_redexes_def)

text \<open>
  Numerals read back (C23).  Encoding succeeds exactly up to the limit; the net passes every runtime
  check, has no active pair, consists of three agents for zero and one and of \<open>2 k + 1\<close> agents for a
  larger number \<open>k\<close>, and the decoder returns the encoded number.
\<close>

theorem encode_nat_roundtrip:
  "if k \<le> MAX_CHURCH
   then \<exists>n. encode_nat k = Some n \<and> net_inv n \<and> assert_all_invariants n \<and> redex_queue n = [] \<and>
          (\<nexists>a b. active_pair n a b) \<and> count_live_agents n = (if k \<le> 1 then 3 else 2 * k + 1) \<and>
          decode_nat n = Some (Some k)
   else encode_nat k = None"
proof (cases "k \<le> MAX_CHURCH")
  case True
  have room: "next_id net_new + (2 * k + 3) \<le> u32_MAX"
    using True by (simp add: MAX_CHURCH_def core_inv_new(5))
  obtain f x rest m where E: "encode_church_into k net_new = Some (f, m)" "church_ids k f x rest"
    "grown net_new (f # x # rest) (church_syms k) ((AgentPort f 2, AgentPort x 0) # church_body k f x rest) m"
    by (rule encode_church_grown [OF core_inv_new(1) True room])
  let ?n = "m\<lparr>root := Some (AgentPort f 0)\<rparr>"
  have enc: "encode_nat k = Some ?n"
    by (simp add: encode_nat_def E(1))
  have q: "redex_queue ?n = []"
    using grownD(8) [OF E(3)] church_no_redex [OF E(2)] by (simp add: core_inv_new(4))
  have inv: "net_inv ?n"
  proof (rule grown_closed [OF E(3)])
    fix j s p
    assume jp: "(j, s) \<in> set (zip (f # x # rest) (church_syms k))" "p < total_ports s"
    have "AgentPort f 0 \<notin> set (agent_ends ((AgentPort f 2, AgentPort x 0) # church_body k f x rest))"
      by (rule church_exposed [OF E(2)])
    then show "AgentPort j p \<notin> set (agent_ends ((AgentPort f 2, AgentPort x 0) # church_body k f x rest)) \<longleftrightarrow> (j, p) = (f, 0)"
      using church_covers [OF E(2) jp] by blast
  qed simp
  have "\<not> active_pair ?n a b" for a b
    using grown_queue_complete [OF E(3) core_inv_new(2)] q by (auto simp: queue_complete_def active_pair_def)
  moreover have "count_live_agents ?n = (if k \<le> 1 then 3 else 2 * k + 1)"
  proof -
    have "count_live_agents ?n = count_live_agents m"
      by (simp add: count_live_agents_def)
    then show ?thesis
      using grown_size [OF E(3)] E(2) by (auto simp: core_inv_new(6) church_ids_def)
  qed
  moreover have "decode_nat ?n = Some (Some k)"
  proof (rule decode_church)
    have "church_spine ?n f x (if k = 0 then [] else take k rest)"
      using church_grown_spine [OF E(2,3) order_refl order_refl] unfolding church_spine_def sym_update tgt_update .
    moreover have "length (if k = 0 then [] else take k rest) = k"
      using E(2) by (simp add: church_ids_def)
    ultimately show "spine_at ?n f k"
      unfolding spine_at_def by blast
  qed (use q in simp_all)
  ultimately show ?thesis
    using True enc q inv net_inv_asserts [OF inv] by auto
next
  case False
  then show ?thesis
    by (simp add: encode_nat_def encode_church_into_def)
qed

section \<open>The decoder returns, and recognises exactly the numerals\<close>

text \<open>The agents met by a walk, in order: each argument port leads to the result port of the next one.\<close>

definition walk_path :: "net \<Rightarrow> agent_id list \<Rightarrow> bool" where
  "walk_path n vs \<longleftrightarrow>
     distinct vs \<and> vs \<noteq> [] \<and> (\<forall>v \<in> set vs. live n v) \<and>
     (\<forall>i. i + 1 < length vs \<longrightarrow> tgt n (vs ! i) 2 = AgentPort (vs ! (i + 1)) 1)"

lemma walk_path_extend:
  assumes "core_inv n" "walk_path n vs" "tgt n (last vs) 2 = AgentPort j 1" "j \<noteq> hd vs"
  shows "walk_path n (vs @ [j])"
proof -
  have V: "distinct vs" "vs \<noteq> []" "\<forall>i. i + 1 < length vs \<longrightarrow> tgt n (vs ! i) 2 = AgentPort (vs ! (i + 1)) 1"
    using assms(2) by (auto simp: walk_path_def)
  have "j \<notin> set vs"
  proof
    assume "j \<in> set vs"
    then obtain i where i: "i < length vs" "vs ! i = j"
      by (auto simp: in_set_conv_nth)
    then obtain i' where i': "i = i' + 1"
      using V(2) assms(4) by (cases i) (auto simp: hd_conv_nth)
    then have "tgt n (vs ! i') 2 = AgentPort j 1"
      using V(3) i by auto
    then have "vs ! i' = last vs"
      using tgt_inj [OF assms(1), of 2 2 "vs ! i'" "last vs"] assms(3) by simp
    then have "vs ! i' = vs ! (length vs - 1)"
      using V(2) by (simp add: last_conv_nth)
    then show False
      using V(1) i i' by (simp add: nth_eq_iff_index_eq)
  qed
  moreover have "live n j"
    using tgt_valid(1) [OF assms(1) _ assms(3)] by (auto dest: valid_port_live)
  moreover have "tgt n ((vs @ [j]) ! i) 2 = AgentPort ((vs @ [j]) ! (i + 1)) 1" if "i + 1 < length (vs @ [j])" for i
  proof (cases "i + 1 < length vs")
    case False
    then have "i = length vs - 1"
      using that by simp
    then show ?thesis
      using V(2) assms(3) by (simp add: nth_append last_conv_nth)
  qed (use V(3) in \<open>simp add: nth_append\<close>)
  ultimately show ?thesis
    using assms(2) V(2) unfolding walk_path_def by auto
qed

text \<open>A path that is extended leaves fewer agents to meet.\<close>

lemma walk_path_less:
  assumes "walk_path n (vs @ [j])"
  shows "card (dom (sym_at n)) - length (vs @ [j]) < card (dom (sym_at n)) - length vs"
proof -
  have "card (set (vs @ [j])) \<le> card (dom (sym_at n))"
    using assms finite_live by (intro card_mono) (auto simp: walk_path_def)
  then show ?thesis
    using assms by (simp add: walk_path_def distinct_card)
qed

lemma church_walk_returns:
  assumes "core_inv n" "walk_path n vs" "hd vs = x"
  shows "\<exists>r. church_walk n x (AgentPort (last vs) 2) acc = Some r"
  using assms(2,3)
proof (induction "card (dom (sym_at n)) - length vs" arbitrary: vs acc rule: less_induct)
  case less
  show ?case
  proof (cases "\<exists>j. tgt n (last vs) 2 = AgentPort j 1 \<and> j \<noteq> x \<and> sym_at n j = Some Con")
    case True
    then obtain j where j: "tgt n (last vs) 2 = AgentPort j 1" "j \<noteq> x" "sym_at n j = Some Con"
      by auto
    have P: "walk_path n (vs @ [j])" "hd (vs @ [j]) = x"
      using walk_path_extend [OF assms(1) less.prems(1) j(1)] j(2) less.prems by (auto simp: walk_path_def)
    then show ?thesis
      using less.hyps [OF walk_path_less [OF P(1)] P, of "acc + 1"] j by (subst church_walk_step) simp
  qed (subst church_walk_step, auto split: port_ref.split)
qed

text \<open>The applications a walk from agent \<open>c\<close> passes.\<close>

definition walk_apps :: "net \<Rightarrow> agent_id \<Rightarrow> agent_id \<Rightarrow> agent_id list \<Rightarrow> bool" where
  "walk_apps n x c apps \<longleftrightarrow>
     x \<notin> set apps \<and> (\<forall>a \<in> set apps. sym_at n a = Some Con) \<and> tgt n (last (c # apps)) 2 = AgentPort x 1 \<and>
     (\<forall>i. i < length apps \<longrightarrow> tgt n ((c # apps) ! i) 2 = AgentPort (apps ! i) 1)"

lemma walk_apps_Cons:
  assumes "walk_apps n x j apps" "tgt n c 2 = AgentPort j 1" "sym_at n j = Some Con" "j \<noteq> x"
  shows "walk_apps n x c (j # apps)"
  using assms by (auto simp: walk_apps_def nth_Cons split: nat.split)

lemma church_walk_found:
  assumes "church_walk n x cur acc = Some r"
  shows "\<forall>c k. cur = AgentPort c 2 \<longrightarrow> r = Some k \<longrightarrow> (\<exists>apps. walk_apps n x c apps \<and> k = acc + length apps)"
proof (induction rule: church_walk.raw_induct [OF _ assms])
  case (1 walk n x cur acc r)
  show ?case
  proof (intro allI impI)
    fix c k
    assume ck: "cur = AgentPort c 2" "r = Some k"
    show "\<exists>apps. walk_apps n x c apps \<and> k = acc + length apps"
    proof (cases "tgt n c 2")
      case (AgentPort j q)
      have t: "get_target n (AgentPort c 2) = AgentPort j q"
        using AgentPort by (simp add: tgt_def)
      show ?thesis
      proof (cases "j = x \<and> q = 1")
        case True
        then show ?thesis
          using 1(2) ck t AgentPort by (intro exI [of _ "[]"]) (simp add: walk_apps_def)
      next
        case False
        then have j: "q = 1" "sym_at n j = Some Con" "walk n x (AgentPort j 2) (acc + 1) = Some r"
          using 1(2) ck t by (auto simp: symbol_at_iff split: if_splits)
        then obtain apps where "walk_apps n x j apps" "k = acc + 1 + length apps"
          using 1(1) ck(2) by blast
        then show ?thesis
          using walk_apps_Cons [of n x j apps c] AgentPort j False by (intro exI [of _ "j # apps"]) simp
      qed
    qed (use 1(2) ck in \<open>auto simp: tgt_def Let_def split: if_splits\<close>)
  qed
qed

lemma decode_found:
  assumes "core_inv n" "decode_nat n = Some (Some k)"
  shows "redex_queue n = [] \<and> (\<exists>f. root n = Some (AgentPort f 0) \<and> spine_at n f k)"
proof -
  obtain f x where F: "redex_queue n = []" "root n = Some (AgentPort f 0)" "sym_at n f = Some Con" "sym_at n x = Some Con"
    "tgt n f 2 = AgentPort x 0" "tgt n f 1 \<noteq> DISCONNECTED"
    and K: "k = 0 \<and> tgt n x 2 = AgentPort x 1 \<or> church_walk n x (AgentPort x 2) 0 = Some (Some k)"
    using assms(2) by (auto simp: decode_nat_def symbol_at_iff Let_def simp flip: tgt_def split: if_splits option.splits port_ref.splits)
  obtain apps where A: "length apps = k" "x \<notin> set apps" "\<forall>a \<in> set apps. sym_at n a = Some Con"
    "tgt n (last (x # apps)) 2 = AgentPort x 1" "\<forall>i. i < length apps \<longrightarrow> tgt n ((x # apps) ! i) 2 = AgentPort (apps ! i) 1"
  proof (cases "church_walk n x (AgentPort x 2) 0 = Some (Some k)")
    case True
    then show thesis
      using church_walk_found [OF True] that by (auto simp: walk_apps_def)
  next
    case False
    then show thesis
      using K that [of "[]"] by simp
  qed
  have x1: "tgt n x 1 = AgentPort (last (x # apps)) 2"
    using symmetric_wiresD(2) [OF core_invD(3) [OF assms(1)] _ A(4)] by simp
  have "tgt n (apps ! i) 2 = AgentPort (apps ! (i + 1)) 1" if "i + 1 < k" for i
    using A(1,5) that by (metis Suc_eq_plus1 nth_Cons_Suc)
  moreover have "apps \<noteq> [] \<Longrightarrow> tgt n x 2 = AgentPort (hd apps) 1"
    using A(5) by (cases apps) auto
  ultimately have "spine_at n f k"
    using F(3-6) A x1 unfolding spine_at_def church_spine_def by (intro exI [of _ x] exI [of _ apps]) (auto split: if_splits)
  then show ?thesis
    using F(1,2) by blast
qed

lemma decode_returns:
  assumes "core_inv n"
  shows "\<exists>r. decode_nat n = Some r"
proof -
  have "\<exists>r. church_walk n x (AgentPort x 2) 0 = Some r" if "sym_at n x = Some Con" for x
    using church_walk_returns [OF assms, of "[x]" x] that by (simp add: walk_path_def)
  then show ?thesis
    by (auto simp: decode_nat_def symbol_at_iff Let_def split: option.split port_ref.split)
qed

text \<open>
  What the decoder accepts (C25).  On every net with a consistent arena, whatever it holds, the walk along
  the applications ends, since no agent is met twice; and the answer is the number \<open>k\<close> exactly when no
  redex is queued and the root is the outer lambda of a spine with \<open>k\<close> constructors.  Every encoded
  numeral has such a spine, but a net with such a spine need not be a numeral: the decoder checks neither
  the eraser on the outer variable of zero nor the duplicators that feed the applications, both of
  which the specification of the encoding asks for.
\<close>

theorem decode_nat_correct:
  assumes "core_inv n"
  shows "(\<exists>r. decode_nat n = Some r) \<and>
    (decode_nat n = Some (Some k) \<longleftrightarrow> redex_queue n = [] \<and> (\<exists>f. root n = Some (AgentPort f 0) \<and> spine_at n f k))"
  using decode_returns [OF assms] decode_found [OF assms] decode_church by blast

text \<open>A net that is no numeral: the outer variable leads to a free port.  It is decoded as zero.\<close>

definition open_zero :: net where
  "open_zero = net_new\<lparr>agents := [Some \<lparr>a_symbol = Con, a_id = 0\<rparr>, Some \<lparr>a_symbol = Con, a_id = 1\<rparr>],
     ports := [DISCONNECTED, FreePort 0, AgentPort 1 0, AgentPort 0 2, AgentPort 1 2, AgentPort 1 1], next_id := 2,
     root := Some (AgentPort 0 0)\<rparr>"

lemma decode_unchecked: "decode_nat open_zero = Some (Some 0)"
  by (simp add: decode_nat_def open_zero_def net_new_def get_agent_def get_target_def vec_get_def port_index_def PORTS_PER_SLOT_def
      symbol_at_iff sym_at_def Let_def DISCONNECTED_def)

text \<open>The single pair of erasers has no root: the decoder answers, and it is no numeral.\<close>

theorem decode_nat_correct_witness:
  "core_inv (pair_net Era Era) \<and> (\<exists>r. decode_nat (pair_net Era Era) = Some r) \<and> decode_nat (pair_net Era Era) \<noteq> Some (Some 0)"
  using decode_nat_correct [of "pair_net Era Era" 0] pair_net_core [of Era Era]
  by (simp add: pair_net_def [of Era Era, THEN arg_cong [where f = redex_queue]])

end
