(* ===== verification/Arithmetic.thy ===== *)
theory Arithmetic
  imports Church Loops Id_Ranges "HOL-Library.Code_Target_Numeral"
begin

text \<open>
  Arithmetic on Church numerals (\<open>encoding/arithmetic.rs\<close>): the builders that put a combinator on two
  operands, the search for the root of the reduced net, the two decoders and the whole pipeline.  As in
  the other theories, an outer \<open>None\<close> is a panic of a builder or a loop that does not end.
\<close>

section \<open>The combinators\<close>

text \<open>\<open>\<lambda>m. \<lambda>n. \<lambda>f. \<lambda>x. m f (n f x)\<close>, applied to the two operand ports.\<close>

definition wire_add_into :: "port_ref \<Rightarrow> port_ref \<Rightarrow> net \<Rightarrow> (agent_id \<times> net) option" where
  "wire_add_into m_port n_port n0 = do {
     (lam_m, n1) \<leftarrow> create_agent Con n0;
     (lam_n, n2) \<leftarrow> create_agent Con n1;
     (lam_f, n3) \<leftarrow> create_agent Con n2;
     (lam_x, n4) \<leftarrow> create_agent Con n3;
     (app_mf, n5) \<leftarrow> create_agent Con n4;
     (app_nf, n6) \<leftarrow> create_agent Con n5;
     (app_nfx, n7) \<leftarrow> create_agent Con n6;
     (app_all, n8) \<leftarrow> create_agent Con n7;
     (dup_f, n9) \<leftarrow> create_agent Dup n8;
     let n10 = wire_all
       [(AgentPort lam_m 2, AgentPort lam_n 0), (AgentPort lam_n 2, AgentPort lam_f 0), (AgentPort lam_f 2, AgentPort lam_x 0),
        (AgentPort lam_m 1, AgentPort app_mf 0), (AgentPort lam_n 1, AgentPort app_nf 0), (AgentPort lam_f 1, AgentPort dup_f 0),
        (AgentPort lam_x 1, AgentPort app_nfx 2), (AgentPort dup_f 1, AgentPort app_mf 2), (AgentPort dup_f 2, AgentPort app_nf 2),
        (AgentPort app_nf 1, AgentPort app_nfx 0), (AgentPort app_nfx 1, AgentPort app_all 2),
        (AgentPort app_mf 1, AgentPort app_all 0), (AgentPort app_all 1, AgentPort lam_x 2)] n9;
     (app_1, n11) \<leftarrow> create_agent Con n10;
     let n12 = wire_all [(AgentPort app_1 0, AgentPort lam_m 0), (AgentPort app_1 2, m_port)] n11;
     (app_2, n13) \<leftarrow> create_agent Con n12;
     Some (app_2, wire_all [(AgentPort app_1 1, AgentPort app_2 0), (AgentPort app_2 2, n_port)] n13) }"

text \<open>\<open>\<lambda>m. \<lambda>n. \<lambda>f. m (n f)\<close>, applied to the two operand ports.\<close>

definition wire_mul_into :: "port_ref \<Rightarrow> port_ref \<Rightarrow> net \<Rightarrow> (agent_id \<times> net) option" where
  "wire_mul_into m_port n_port n0 = do {
     (lam_m, n1) \<leftarrow> create_agent Con n0;
     (lam_n, n2) \<leftarrow> create_agent Con n1;
     (lam_f, n3) \<leftarrow> create_agent Con n2;
     (app_nf, n4) \<leftarrow> create_agent Con n3;
     (app_m, n5) \<leftarrow> create_agent Con n4;
     let n6 = wire_all
       [(AgentPort lam_m 2, AgentPort lam_n 0), (AgentPort lam_n 2, AgentPort lam_f 0),
        (AgentPort lam_m 1, AgentPort app_m 0), (AgentPort lam_n 1, AgentPort app_nf 0), (AgentPort lam_f 1, AgentPort app_nf 2),
        (AgentPort app_nf 1, AgentPort app_m 2), (AgentPort app_m 1, AgentPort lam_f 2)] n5;
     (app_1, n7) \<leftarrow> create_agent Con n6;
     let n8 = wire_all [(AgentPort app_1 0, AgentPort lam_m 0), (AgentPort app_1 2, m_port)] n7;
     (app_2, n9) \<leftarrow> create_agent Con n8;
     Some (app_2, wire_all [(AgentPort app_1 1, AgentPort app_2 0), (AgentPort app_2 2, n_port)] n9) }"

text \<open>\<open>\<lambda>m. \<lambda>n. n m\<close>, the part of \<open>build_exp\<close> after its operands.\<close>

definition wire_exp_into :: "port_ref \<Rightarrow> port_ref \<Rightarrow> net \<Rightarrow> (agent_id \<times> net) option" where
  "wire_exp_into m_port n_port n0 = do {
     (lam_m, n1) \<leftarrow> create_agent Con n0;
     (lam_n, n2) \<leftarrow> create_agent Con n1;
     (app_nm, n3) \<leftarrow> create_agent Con n2;
     let n4 = wire_all
       [(AgentPort lam_m 2, AgentPort lam_n 0), (AgentPort lam_n 1, AgentPort app_nm 0),
        (AgentPort lam_m 1, AgentPort app_nm 2), (AgentPort app_nm 1, AgentPort lam_n 2)] n3;
     (app_1, n5) \<leftarrow> create_agent Con n4;
     let n6 = wire_all [(AgentPort app_1 0, AgentPort lam_m 0), (AgentPort app_1 2, m_port)] n5;
     (app_2, n7) \<leftarrow> create_agent Con n6;
     Some (app_2, wire_all [(AgentPort app_1 1, AgentPort app_2 0), (AgentPort app_2 2, n_port)] n7) }"

section \<open>The builders\<close>

definition build_binary ::
  "(port_ref \<Rightarrow> port_ref \<Rightarrow> net \<Rightarrow> (agent_id \<times> net) option) \<Rightarrow> nat \<Rightarrow> nat \<Rightarrow> net option" where
  "build_binary wire_into a b = do {
     (m_root, n1) \<leftarrow> encode_church_into a net_new;
     (n_root, n2) \<leftarrow> encode_church_into b n1;
     (app_out, n3) \<leftarrow> wire_into (AgentPort m_root 0) (AgentPort n_root 0) n2;
     Some ((connect (AgentPort app_out 1) (FreePort 0) n3)\<lparr>root := None\<rparr>) }"

definition build_add :: "nat \<Rightarrow> nat \<Rightarrow> net option" where
  "build_add = build_binary wire_add_into"

definition build_mul :: "nat \<Rightarrow> nat \<Rightarrow> net option" where
  "build_mul = build_binary wire_mul_into"

definition build_exp :: "nat \<Rightarrow> nat \<Rightarrow> net option" where
  "build_exp base exp = (if exp = 0 then encode_nat 1 else build_binary wire_exp_into base exp)"

text \<open>The products are 64-bit (release build).\<close>

primrec square_chain :: "nat \<Rightarrow> port_ref \<Rightarrow> net \<Rightarrow> (port_ref \<times> net) option" where
  "square_chain 0 acc_port n = Some (acc_port, n)"
| "square_chain (Suc i) acc_port n = do {
     (term_root, n1) \<leftarrow> encode_church_into (wrap64 (Suc i * Suc i)) n;
     (app_out, n2) \<leftarrow> wire_add_into (AgentPort term_root 0) acc_port n1;
     square_chain i (AgentPort app_out 1) n2 }"

definition build_sum_of_squares :: "nat \<Rightarrow> net option" where
  "build_sum_of_squares k =
     (if k = 0 then encode_nat 0 else if k = 1 then encode_nat 1
      else do {
        (last_square, n1) \<leftarrow> encode_church_into (wrap64 (k * k)) net_new;
        (acc_port, n2) \<leftarrow> square_chain (k - 1) (AgentPort last_square 0) n1;
        Some ((connect acc_port (FreePort 0) n2)\<lparr>root := None\<rparr>) })"

section \<open>Finding the root\<close>

text \<open>\<open>None\<close>: the early return on a second disconnected candidate.\<close>

fun root_candidate :: "net \<Rightarrow> agent list \<Rightarrow> agent_id option \<Rightarrow> agent_id option option" where
  "root_candidate n [] c = Some c"
| "root_candidate n (ag # ags) c =
     (if a_symbol ag = Con
      then case get_target n (AgentPort (a_id ag) 0) of
             FreePort fid \<Rightarrow>
               if fid \<noteq> u32_MAX then Some (Some (a_id ag))
               else if c \<noteq> None then None else root_candidate n ags (Some (a_id ag))
           | AgentPort i p \<Rightarrow> root_candidate n ags c
      else root_candidate n ags c)"

definition discover_root :: "net \<Rightarrow> bool \<times> net" where
  "discover_root n =
     (case root_candidate n (live_agents n) None of
        Some (Some i) \<Rightarrow> (True, (disconnect (AgentPort i 0) n)\<lparr>root := Some (AgentPort i 0)\<rparr>)
      | _ \<Rightarrow> (False, n))"

section \<open>Reading shared numerals\<close>

fun follow_through_dup_aux :: "nat \<Rightarrow> net \<Rightarrow> port_ref \<Rightarrow> port_ref option" where
  "follow_through_dup_aux 0 n current = None"
| "follow_through_dup_aux (Suc k) n current =
     (case current of
        AgentPort i p \<Rightarrow>
          if p = 1 \<or> p = 2
          then case get_agent n i of
                 None \<Rightarrow> None
               | Some ag \<Rightarrow> if a_symbol ag = Dup then follow_through_dup_aux k n (get_target n (AgentPort i 0)) else Some current
          else Some current
      | _ \<Rightarrow> Some current)"

datatype dup_branch_end = XVariable | DupPrincipal agent_id | OtherEnd

definition classify_dup_branch :: "net \<Rightarrow> port_ref \<Rightarrow> agent_id \<Rightarrow> dup_branch_end option" where
  "classify_dup_branch n start lam_x =
     (if start = AgentPort lam_x 1 then Some XVariable
      else case start of
        AgentPort i p \<Rightarrow>
          (case get_agent n i of
             None \<Rightarrow> None
           | Some ag \<Rightarrow>
               if a_symbol ag = Dup \<and> (p = 1 \<or> p = 2)
               then case get_target n (AgentPort i 0) of
                      AgentPort t q \<Rightarrow>
                        if t = lam_x \<and> q = 1 then Some XVariable
                        else if q = 0
                        then case get_agent n t of
                               None \<Rightarrow> None
                             | Some tag \<Rightarrow> if a_symbol tag = Dup then Some (DupPrincipal t) else Some OtherEnd
                        else Some OtherEnd
                    | FreePort f \<Rightarrow> Some OtherEnd
               else if a_symbol ag = Dup \<and> p = 0 then Some (DupPrincipal i)
               else Some OtherEnd)
      | FreePort f \<Rightarrow> Some OtherEnd)"

fun count_dup_boundary_multiplier :: "nat \<Rightarrow> net \<Rightarrow> agent_id \<Rightarrow> agent_id \<Rightarrow> nat \<Rightarrow> nat option" where
  "count_dup_boundary_multiplier 0 n current_dup lam_x multiplier = None"
| "count_dup_boundary_multiplier (Suc k) n current_dup lam_x multiplier = do {
     c1 \<leftarrow> classify_dup_branch n (get_target n (AgentPort current_dup 1)) lam_x;
     c2 \<leftarrow> classify_dup_branch n (get_target n (AgentPort current_dup 2)) lam_x;
     (case (c1, c2) of
        (XVariable, _) \<Rightarrow> Some multiplier
      | (_, XVariable) \<Rightarrow> Some multiplier
      | (DupPrincipal next, _) \<Rightarrow> count_dup_boundary_multiplier k n next lam_x (multiplier + 1)
      | (_, DupPrincipal next) \<Rightarrow> count_dup_boundary_multiplier k n next lam_x (multiplier + 1)
      | _ \<Rightarrow> None) }"

partial_function (option) shared_walk :: "net \<Rightarrow> agent_id \<Rightarrow> port_ref \<Rightarrow> nat \<Rightarrow> nat option option" where
  "shared_walk n lam_x current chain_count =
     (case current of
        AgentPort i p \<Rightarrow>
          if i = lam_x \<and> p = 1 then Some (Some chain_count)
          else if p = 1
          then if symbol_at n i Con then shared_walk n lam_x (get_target n (AgentPort i 2)) (chain_count + 1) else Some None
          else if p = 0 \<and> symbol_at n i Dup
          then Some (map_option (\<lambda>multiplier. chain_count * multiplier) (count_dup_boundary_multiplier 1000 n i lam_x 2))
          else Some None
      | FreePort f \<Rightarrow> Some None)"

definition decode_shared_chain :: "net \<Rightarrow> nat option option" where
  "decode_shared_chain n =
     (case root n of
        Some (AgentPort lam_f p) \<Rightarrow>
          if p \<noteq> 0 \<or> \<not> symbol_at n lam_f Con then Some None
          else (case get_target n (AgentPort lam_f 2) of
                  AgentPort lam_x q \<Rightarrow>
                    if q \<noteq> 0 \<or> \<not> symbol_at n lam_x Con then Some None
                    else (case follow_through_dup_aux 1000 n (get_target n (AgentPort lam_x 2)) of
                            None \<Rightarrow> Some None
                          | Some chain_start \<Rightarrow> shared_walk n lam_x chain_start 0)
                | FreePort f \<Rightarrow> Some None)
      | _ \<Rightarrow> Some None)"

section \<open>The pipeline\<close>

definition decode_either :: "net \<Rightarrow> nat option option" where
  "decode_either n = (case decode_nat n of Some None \<Rightarrow> decode_shared_chain n | r \<Rightarrow> r)"

definition decode_nat_or_shared :: "net \<Rightarrow> nat option option" where
  "decode_nat_or_shared n =
     (if root n \<noteq> None then decode_either n
      else let (found, cloned) = discover_root n in if found then decode_either cloned else Some None)"

definition compute_arithmetic :: "net option \<Rightarrow> (net \<times> nat option) option" where
  "compute_arithmetic built_net = do {
     n \<leftarrow> built_net;
     r \<leftarrow> reduce_all n;
     (st, n1) \<leftarrow> r;
     (let (found, n2) = discover_root n1
      in if found then map_option (\<lambda>res. (n2, res)) (decode_either n2) else Some (n2, None)) }"

end
