(* ===== verification/Arith_Props.thy ===== *)
theory Arith_Props
  imports Arithmetic
begin

text \<open>
  The arithmetic builders make well-formed nets: every combinator consumes its two operand ports and
  offers one result port, and that is all the builders rely on (locale \<open>combinator\<close>).
\<close>

section \<open>Numerals as operands\<close>

lemma encode_church_built:
  assumes "built n ids ss ws m L" "k \<le> MAX_CHURCH" "next_id n + length ss + (2 * k + 3) \<le> u32_MAX"
  obtains f x rest m' where "encode_church_into k m = Some (f, m')" "church_ids k f x rest"
    "built n (ids @ f # x # rest) (ss @ church_syms k) (ws @ (AgentPort f 2, AgentPort x 0) # church_body k f x rest) m' (L @ [AgentPort f 0])"
proof -
  note B = builtD [OF assms(1)] and G = grownD [OF builtD(1) [OF assms(1)]]
  have room: "next_id m + (2 * k + 3) \<le> u32_MAX"
    using G(11) assms(3) by simp
  obtain f x rest m' where E: "encode_church_into k m = Some (f, m')" "church_ids k f x rest"
    "grown m (f # x # rest) (church_syms k) ((AgentPort f 2, AgentPort x 0) # church_body k f x rest) m'"
    (is "grown _ ?ids ?ss ?ws _")
    by (rule encode_church_grown [OF G(1) assms(2) room])
  have d: "distinct (agent_ends ?ws @ [AgentPort f 0])" "distinct (all_ports ?ids ?ss)"
  proof -
    have "distinct (agent_ends ?ws)"
      using church_new_wires [OF E(2)] unfolding new_wires_def by (rule conjunct1)
    then show "distinct (agent_ends ?ws @ [AgentPort f 0])"
      using church_exposed [OF E(2)] unfolding distinct_append by simp
    show "distinct (all_ports ?ids ?ss)"
      by (rule distinct_all_ports [OF grownD(3) [OF E(3)]])
  qed
  have "set (all_ports ?ids ?ss) = set (agent_ends ?ws @ [AgentPort f 0])"
  proof (intro set_eqI iffI)
    fix y
    assume "y \<in> set (all_ports ?ids ?ss)"
    then obtain i s p where y: "y = AgentPort i p" "(i, s) \<in> set (zip ?ids ?ss)" "p < total_ports s"
      unfolding in_all_ports by blast
    show "y \<in> set (agent_ends ?ws @ [AgentPort f 0])"
    proof (cases "(i, p) = (f, 0)")
      case False
      then show ?thesis
        unfolding y(1) set_append using church_covers [OF E(2) y(2,3)] by blast
    qed (simp add: y(1))
  next
    fix y
    assume "y \<in> set (agent_ends ?ws @ [AgentPort f 0])"
    then have "y \<in> set (agent_ends ?ws) \<or> y = AgentPort f 0"
      unfolding set_append list.set by blast
    moreover have "new_end ?ids ?ss (AgentPort f 0)"
      by (rule new_end_zip [where s = Con]) (simp_all add: church_syms_def)
    ultimately have "new_end ?ids ?ss y"
      using new_wires_ends [OF church_new_wires [OF E(2)]] by blast
    then show "y \<in> set (all_ports ?ids ?ss)"
      by (rule new_end_ports [OF grownD(2) [OF E(3)]])
  qed
  then have "mset (all_ports ?ids ?ss) = mset (agent_ends ?ws @ [AgentPort f 0])"
    using d set_eq_iff_mset_eq_distinct by blast
  then have "built n (ids @ ?ids) (ss @ ?ss) (ws @ ?ws) m' (L @ [AgentPort f 0])"
    using assms(1) grown_trans [OF B(1) E(3)] G(2) by (simp add: built_def all_ports_append agent_ends_append)
  then show thesis
    using that E(1,2) by blast
qed

section \<open>Attaching the output\<close>

definition output_net :: "port_ref \<Rightarrow> net \<Rightarrow> net" where
  "output_net x m = (connect x (FreePort 0) m)\<lparr>root := None\<rparr>"

text \<open>A closed net with one output: every port is wired, one of them to the free port 0.\<close>

definition one_output :: "net \<Rightarrow> agent_id \<Rightarrow> port_id \<Rightarrow> bool" where
  "one_output n r p \<longleftrightarrow>
     net_inv n \<and> queue_complete n \<and> root n = None \<and> tgt n r p = FreePort 0 \<and>
     (\<forall>i q. valid_port n i q \<longrightarrow> (i, q) \<noteq> (r, p) \<longrightarrow> is_agent (tgt n i q))"

lemma built_tgt:
  assumes "built net_new ids ss ws m L" "valid_port m i q"
  shows "if AgentPort i q \<in> set L then tgt m i q = DISCONNECTED else is_agent (tgt m i q)"
proof -
  note B = builtD [OF assms(1)]
  show ?thesis
  proof (cases "AgentPort i q \<in> set L")
    case True
    then have "AgentPort i q \<notin> set (agent_ends ws)"
      using B(2) by auto
    then show ?thesis
      using True grownD(7) [OF B(1), of q i] valid_port_less [OF assms(2)] other_end_None core_inv_new(8) by simp
  next
    case False
    have "\<exists>s. (i, s) \<in> set (zip ids ss) \<and> q < total_ports s \<and> AgentPort i q \<notin> set (agent_ends ws)" if "tgt m i q = DISCONNECTED"
      using grown_open [OF B(1) assms(2) that] core_inv_new(3) by (auto dest: valid_port_live)
    then have "tgt m i q \<noteq> DISCONNECTED"
      using False B(3) in_all_ports by blast
    then have "other_end ws (AgentPort i q) \<noteq> None"
      using grownD(7) [OF B(1), of q i] valid_port_less [OF assms(2)] core_inv_new(8) by (auto split: option.splits)
    then obtain y where y: "other_end ws (AgentPort i q) = Some y"
      by blast
    have "new_end ids ss y"
      using other_end_in [OF y] grownD(6) [OF B(1)] by (auto simp: new_wires_def)
    then show ?thesis
      using False y grownD(7) [OF B(1), of q i] valid_port_less [OF assms(2)] by (cases y) (auto simp: new_end_def)
  qed
qed

lemma output_view:
  assumes "built net_new ids ss ws m [AgentPort r p]"
  shows "valid_port m r p" "sym_at (output_net (AgentPort r p) m) = sym_at m" "core_inv (output_net (AgentPort r p) m)"
    "redex_queue (output_net (AgentPort r p) m) = redex_queue m" "root (output_net (AgentPort r p) m) = None"
    "q < 3 \<Longrightarrow> tgt (output_net (AgentPort r p) m) j q = (if (j, q) = (r, p) then FreePort 0 else tgt m j q)"
proof -
  note B = builtD [OF assms] and G = grownD [OF builtD(1) [OF assms]]
  have "AgentPort r p \<in> set (all_ports ids ss)"
    using B(3) by auto
  then obtain s where s: "(r, s) \<in> set (zip ids ss)" "p < total_ports s"
    by (auto simp: in_all_ports)
  then obtain k where "k < length ids" "ids ! k = r" "ss ! k = s"
    by (auto simp: set_zip)
  then show v: "valid_port m r p"
    using grown_sym [OF B(1)] s(2) by (auto simp: valid_port_def)
  then have o: "open_end m (AgentPort r p)" "open_end m (FreePort 0)"
    using built_tgt [OF assms v] by simp_all
  show "q < 3 \<Longrightarrow> tgt (output_net (AgentPort r p) m) j q = (if (j, q) = (r, p) then FreePort 0 else tgt m j q)"
    using tgt_connect_open [OF core_invD(1) [OF G(1)] o] by (auto simp: output_net_def)
  show "core_inv (output_net (AgentPort r p) m)"
    unfolding output_net_def core_inv_root by (rule core_inv_connect [OF G(1) o]) simp
qed (simp_all add: output_net_def new_redexes_def)

lemma built_output:
  assumes "built net_new ids ss ws m [AgentPort r p]"
  shows "one_output (output_net (AgentPort r p) m) r p"
proof -
  note V = output_view [OF assms] and B = builtD(1) [OF assms]
  let ?n = "output_net (AgentPort r p) m"
  have ag: "is_agent (tgt ?n i q)" if "valid_port m i q" "(i, q) \<noteq> (r, p)" for i q
    using built_tgt [OF assms that(1)] V(6) [OF valid_port_less [OF that(1)]] that(2) by auto
  have r: "tgt ?n r p = FreePort 0"
    using V(6) [OF valid_port_less [OF V(1)], of r] by simp
  have "fully_wired ?n"
    unfolding fully_wired_def
  proof (intro allI impI)
    fix i q
    assume "valid_port ?n i q" "tgt ?n i q = DISCONNECTED"
    then show "root ?n = Some (AgentPort i q)"
      using ag [of i q] r by (cases "(i, q) = (r, p)") (auto simp: DISCONNECTED_def valid_port_def V(2))
  qed
  moreover have "queue_complete ?n"
  proof -
    have "active_pair ?n a b \<Longrightarrow> active_pair m a b" for a b
      using V(6) [of 0 a] by (auto simp: active_pair_def split: if_splits)
    then show ?thesis
      using grown_queue_complete [OF B core_inv_new(2)] by (simp add: queue_complete_def V(4))
  qed
  ultimately show ?thesis
    using V(2,3,5) ag r by (auto simp: one_output_def net_inv_def root_ok_def valid_port_def)
qed

section \<open>The interface of a combinator\<close>

locale combinator =
  fixes wire_into :: "port_ref \<Rightarrow> port_ref \<Rightarrow> net \<Rightarrow> (agent_id \<times> net) option"
  assumes wire_into_built:
    "\<lbrakk>built n ids ss ws m L; is_agent u; is_agent v; mset L = mset (u # v # L'); next_id n + length ss + 11 \<le> u32_MAX\<rbrakk> \<Longrightarrow>
     \<exists>r js ss' vs m'. wire_into u v m = Some (r, m') \<and> length ss' \<le> 11 \<and>
       built n (ids @ js) (ss @ ss') (ws @ vs) m' (AgentPort r 1 # L')"

text \<open>The last two steps of every combinator: applying it to its operands.\<close>

definition apply_operands :: "agent_id \<Rightarrow> port_ref \<Rightarrow> port_ref \<Rightarrow> net \<Rightarrow> (agent_id \<times> net) option" where
  "apply_operands lam_m m_port n_port n = do {
     (app_1, n1) \<leftarrow> create_agent Con n;
     let n2 = wire_all [(AgentPort app_1 0, AgentPort lam_m 0), (AgentPort app_1 2, m_port)] n1;
     (app_2, n3) \<leftarrow> create_agent Con n2;
     Some (app_2, wire_all [(AgentPort app_1 1, AgentPort app_2 0), (AgentPort app_2 2, n_port)] n3) }"

lemma all_ports_simps [simp]:
  "all_ports [] ss = []" "all_ports (i # ids) (Con # ss) = AgentPort i 0 # AgentPort i 1 # AgentPort i 2 # all_ports ids ss"
  "all_ports (i # ids) (Dup # ss) = AgentPort i 0 # AgentPort i 1 # AgentPort i 2 # all_ports ids ss"
  by (simp_all add: all_ports_def upt_rec)

lemma create_agents_one: "create_agents [s] m = Some ([a], m') \<longleftrightarrow> create_agent s m = Some (a, m')"
  by (auto split: bind_splits)

lemma apply_operands_built:
  assumes "built n ids ss ws m L" "mset L = mset (AgentPort lam_m 0 # u # v # L')" "is_agent u" "is_agent v"
    and "next_id n + length ss + 2 \<le> u32_MAX"
  obtains r a m' where "apply_operands lam_m u v m = Some (r, m')"
    "built n (ids @ [a, r]) (ss @ [Con, Con])
       (ws @ [(AgentPort a 0, AgentPort lam_m 0), (AgentPort a 2, u), (AgentPort a 1, AgentPort r 0), (AgentPort r 2, v)]) m' (AgentPort r 1 # L')"
proof -
  obtain i p j q where uv: "u = AgentPort i p" "v = AgentPort j q"
    using assms(3,4) by (cases u; cases v) auto
  have room: "next_id n + length ss + length [Con] \<le> u32_MAX" "next_id n + length (ss @ [Con]) + length [Con] \<le> u32_MAX"
    using assms(5) by simp_all
  obtain js m1 where 1: "create_agents [Con] m = Some (js, m1)" "length js = length [Con]"
    "built n (ids @ js) (ss @ [Con]) ws m1 (L @ all_ports js [Con])"
    using assms(1) room(1) by (rule built_create)
  obtain a where a: "js = [a]"
    using 1(2) by (auto simp: length_Suc_conv)
  let ?w1 = "[(AgentPort a 0, AgentPort lam_m 0), (AgentPort a 2, u)]"
  have 2: "built n (ids @ [a]) (ss @ [Con]) (ws @ ?w1) (wire_all ?w1 m1) (AgentPort a 1 # v # L')"
  proof (rule built_wire [OF 1(3) [unfolded a]])
    show "list_all (\<lambda>(x, y). is_agent x \<and> is_agent y) ?w1"
      using assms(3) by simp
    show "mset (L @ all_ports [a] [Con]) = mset (agent_ends ?w1 @ AgentPort a 1 # v # L')"
      by (simp add: assms(2) uv add_mset_commute)
  qed
  obtain ks m2 where 3: "create_agents [Con] (wire_all ?w1 m1) = Some (ks, m2)" "length ks = length [Con]"
    "built n ((ids @ [a]) @ ks) ((ss @ [Con]) @ [Con]) (ws @ ?w1) m2 ((AgentPort a 1 # v # L') @ all_ports ks [Con])"
    using 2 room(2) by (rule built_create)
  obtain r where r: "ks = [r]"
    using 3(2) by (auto simp: length_Suc_conv)
  let ?w2 = "[(AgentPort a 1, AgentPort r 0), (AgentPort r 2, v)]"
  have "built n ((ids @ [a]) @ [r]) ((ss @ [Con]) @ [Con]) ((ws @ ?w1) @ ?w2) (wire_all ?w2 m2) (AgentPort r 1 # L')"
  proof (rule built_wire [OF 3(3) [unfolded r]])
    show "list_all (\<lambda>(x, y). is_agent x \<and> is_agent y) ?w2"
      using assms(4) by simp
    show "mset ((AgentPort a 1 # v # L') @ all_ports [r] [Con]) = mset (agent_ends ?w2 @ AgentPort r 1 # L')"
      by (simp add: uv add_mset_commute)
  qed
  moreover have "apply_operands lam_m u v m = Some (r, wire_all ?w2 m2)"
    using 1(1) [unfolded a create_agents_one] 3(1) [unfolded r create_agents_one] by (simp add: apply_operands_def)
  ultimately show thesis
    using that by simp
qed

text \<open>The wires inside the combinators.\<close>

definition add_wires :: "agent_id list \<Rightarrow> (port_ref \<times> port_ref) list" where
  "add_wires js =
     [(AgentPort (js ! 0) 2, AgentPort (js ! 1) 0), (AgentPort (js ! 1) 2, AgentPort (js ! 2) 0), (AgentPort (js ! 2) 2, AgentPort (js ! 3) 0),
      (AgentPort (js ! 0) 1, AgentPort (js ! 4) 0), (AgentPort (js ! 1) 1, AgentPort (js ! 5) 0), (AgentPort (js ! 2) 1, AgentPort (js ! 8) 0),
      (AgentPort (js ! 3) 1, AgentPort (js ! 6) 2), (AgentPort (js ! 8) 1, AgentPort (js ! 4) 2), (AgentPort (js ! 8) 2, AgentPort (js ! 5) 2),
      (AgentPort (js ! 5) 1, AgentPort (js ! 6) 0), (AgentPort (js ! 6) 1, AgentPort (js ! 7) 2),
      (AgentPort (js ! 4) 1, AgentPort (js ! 7) 0), (AgentPort (js ! 7) 1, AgentPort (js ! 3) 2)]"

definition mul_wires :: "agent_id list \<Rightarrow> (port_ref \<times> port_ref) list" where
  "mul_wires js =
     [(AgentPort (js ! 0) 2, AgentPort (js ! 1) 0), (AgentPort (js ! 1) 2, AgentPort (js ! 2) 0),
      (AgentPort (js ! 0) 1, AgentPort (js ! 4) 0), (AgentPort (js ! 1) 1, AgentPort (js ! 3) 0), (AgentPort (js ! 2) 1, AgentPort (js ! 3) 2),
      (AgentPort (js ! 3) 1, AgentPort (js ! 4) 2), (AgentPort (js ! 4) 1, AgentPort (js ! 2) 2)]"

definition exp_wires :: "agent_id list \<Rightarrow> (port_ref \<times> port_ref) list" where
  "exp_wires js =
     [(AgentPort (js ! 0) 2, AgentPort (js ! 1) 0), (AgentPort (js ! 1) 1, AgentPort (js ! 2) 0),
      (AgentPort (js ! 0) 1, AgentPort (js ! 2) 2), (AgentPort (js ! 2) 1, AgentPort (js ! 1) 2)]"

text \<open>A combinator is created, wired inside, and applied.\<close>

definition combine ::
  "symbol list \<Rightarrow> (agent_id list \<Rightarrow> (port_ref \<times> port_ref) list) \<Rightarrow> port_ref \<Rightarrow> port_ref \<Rightarrow> net \<Rightarrow> (agent_id \<times> net) option" where
  "combine ss inner u v n = do {
     (js, n1) \<leftarrow> create_agents ss n;
     apply_operands (js ! 0) u v (wire_all (inner js) n1) }"

lemma wire_add_combine: "wire_add_into = combine [Con, Con, Con, Con, Con, Con, Con, Con, Dup] add_wires"
  by (intro ext) (simp add: combine_def wire_add_into_def apply_operands_def add_wires_def Let_def case_prod_unfold)

lemma wire_mul_combine: "wire_mul_into = combine [Con, Con, Con, Con, Con] mul_wires"
  by (intro ext) (simp add: combine_def wire_mul_into_def apply_operands_def mul_wires_def Let_def case_prod_unfold)

lemma wire_exp_combine: "wire_exp_into = combine [Con, Con, Con] exp_wires"
  by (intro ext) (simp add: combine_def wire_exp_into_def apply_operands_def exp_wires_def Let_def case_prod_unfold)

text \<open>The inner wires use every port of the combinator but its principal port.\<close>

definition closes :: "symbol list \<Rightarrow> (agent_id list \<Rightarrow> (port_ref \<times> port_ref) list) \<Rightarrow> bool" where
  "closes ss inner \<longleftrightarrow>
     (\<forall>js. length js = length ss \<longrightarrow>
        list_all (\<lambda>(x, y). is_agent x \<and> is_agent y) (inner js) \<and>
        mset (all_ports js ss) = mset (agent_ends (inner js) @ [AgentPort (js ! 0) 0]))"

lemma combine_built:
  assumes "closes ss' inner" "built n ids ss ws m L" "is_agent u" "is_agent v" "mset L = mset (u # v # L')"
    and "next_id n + length ss + (length ss' + 2) \<le> u32_MAX"
  obtains js r a m' where "combine ss' inner u v m = Some (r, m')" "length js = length ss'"
    "built n (ids @ js @ [a, r]) (ss @ ss' @ [Con, Con])
       (ws @ inner js @ [(AgentPort a 0, AgentPort (js ! 0) 0), (AgentPort a 2, u), (AgentPort a 1, AgentPort r 0), (AgentPort r 2, v)])
       m' (AgentPort r 1 # L')"
proof -
  have room: "next_id n + length ss + length ss' \<le> u32_MAX" "next_id n + length (ss @ ss') + 2 \<le> u32_MAX"
    using assms(6) by simp_all
  obtain js m1 where 1: "create_agents ss' m = Some (js, m1)" "length js = length ss'"
    "built n (ids @ js) (ss @ ss') ws m1 (L @ all_ports js ss')"
    using assms(2) room(1) by (rule built_create)
  have C: "list_all (\<lambda>(x, y). is_agent x \<and> is_agent y) (inner js)"
    "mset (all_ports js ss') = mset (agent_ends (inner js) @ [AgentPort (js ! 0) 0])"
    using assms(1) 1(2) by (auto simp: closes_def)
  have 2: "built n (ids @ js) (ss @ ss') (ws @ inner js) (wire_all (inner js) m1) (L @ [AgentPort (js ! 0) 0])"
    by (rule built_wire [OF 1(3) C(1)]) (simp add: C(2))
  have L: "mset (L @ [AgentPort (js ! 0) 0]) = mset (AgentPort (js ! 0) 0 # u # v # L')"
    using assms(5) by simp
  obtain r a m' where "apply_operands (js ! 0) u v (wire_all (inner js) m1) = Some (r, m')"
    "built n ((ids @ js) @ [a, r]) ((ss @ ss') @ [Con, Con])
       ((ws @ inner js) @ [(AgentPort a 0, AgentPort (js ! 0) 0), (AgentPort a 2, u), (AgentPort a 1, AgentPort r 0), (AgentPort r 2, v)])
       m' (AgentPort r 1 # L')"
    by (rule apply_operands_built [OF 2 L assms(3,4) room(2)])
  then show thesis
    using that [of r m' js a] 1(1,2) by (simp add: combine_def)
qed

lemma combine_combinator:
  assumes "closes ss' inner" "length ss' \<le> 9"
  shows "combinator (combine ss' inner)"
proof
  fix n ids ss ws m L u v L'
  assume B: "built n ids ss ws m L" "is_agent u" "is_agent v" "mset L = mset (u # v # L')" "next_id n + length ss + 11 \<le> u32_MAX"
  have room: "next_id n + length ss + (length ss' + 2) \<le> u32_MAX"
    using B(5) assms(2) by linarith
  obtain js r a m' where "combine ss' inner u v m = Some (r, m')"
    "built n (ids @ js @ [a, r]) (ss @ ss' @ [Con, Con])
       (ws @ inner js @ [(AgentPort a 0, AgentPort (js ! 0) 0), (AgentPort a 2, u), (AgentPort a 1, AgentPort r 0), (AgentPort r 2, v)])
       m' (AgentPort r 1 # L')"
    by (rule combine_built [OF assms(1) B(1-4) room])
  moreover have "length (ss' @ [Con, Con]) \<le> 11"
    using assms(2) by simp
  ultimately show "\<exists>r js ss'' vs m'. combine ss' inner u v m = Some (r, m') \<and> length ss'' \<le> 11 \<and>
      built n (ids @ js) (ss @ ss'') (ws @ vs) m' (AgentPort r 1 # L')"
    by blast
qed

lemma closes_exp: "closes [Con, Con, Con] exp_wires"
  by (auto simp: closes_def exp_wires_def length_Suc_conv add_mset_commute)

lemma closes_mul: "closes [Con, Con, Con, Con, Con] mul_wires"
  by (auto simp: closes_def mul_wires_def length_Suc_conv add_mset_commute)

lemma closes_add: "closes [Con, Con, Con, Con, Con, Con, Con, Con, Dup] add_wires"
  by (auto simp: closes_def add_wires_def length_Suc_conv add_mset_commute)

text \<open>Two numerals in an empty net.\<close>

definition numeral_wires :: "nat \<Rightarrow> agent_id \<Rightarrow> agent_id \<Rightarrow> agent_id list \<Rightarrow> (port_ref \<times> port_ref) list" where
  "numeral_wires k f x rest = (AgentPort f 2, AgentPort x 0) # church_body k f x rest"

lemma operands_built:
  assumes "a \<le> MAX_CHURCH" "b \<le> MAX_CHURCH"
  obtains f x rest n1 g y rest' n2 where "encode_church_into a net_new = Some (f, n1)" "encode_church_into b n1 = Some (g, n2)"
    "church_ids a f x rest" "church_ids b g y rest'"
    "built net_new ((f # x # rest) @ g # y # rest') (church_syms a @ church_syms b) (numeral_wires a f x rest @ numeral_wires b g y rest')
       n2 [AgentPort f 0, AgentPort g 0]"
    "next_id net_new + length (church_syms a @ church_syms b) + 11 \<le> u32_MAX" "length (church_syms a @ church_syms b) \<le> 2 * a + 2 * b + 6"
proof -
  have len: "length (church_syms k) \<le> 2 * k + 3" for k
    by (cases k) (simp_all add: church_syms_def)
  have room: "next_id net_new + length [] + (2 * a + 3) \<le> u32_MAX" "next_id net_new + length ([] @ church_syms a) + (2 * b + 3) \<le> u32_MAX"
    "next_id net_new + length (church_syms a @ church_syms b) + 11 \<le> u32_MAX"
    using assms len [of a] len [of b] unfolding MAX_CHURCH_def core_inv_new(5) by simp_all
  obtain f x rest n1 where 1: "encode_church_into a net_new = Some (f, n1)" "church_ids a f x rest"
    "built net_new ([] @ f # x # rest) ([] @ church_syms a) ([] @ (AgentPort f 2, AgentPort x 0) # church_body a f x rest) n1 ([] @ [AgentPort f 0])"
    by (rule encode_church_built [OF built_refl [OF core_inv_new(1)] assms(1) room(1)])
  obtain g y rest' n2 where 2: "encode_church_into b n1 = Some (g, n2)" "church_ids b g y rest'"
    "built net_new (([] @ f # x # rest) @ g # y # rest') (([] @ church_syms a) @ church_syms b)
       (([] @ (AgentPort f 2, AgentPort x 0) # church_body a f x rest) @ (AgentPort g 2, AgentPort y 0) # church_body b g y rest') n2
       (([] @ [AgentPort f 0]) @ [AgentPort g 0])"
    by (rule encode_church_built [OF 1(3) assms(2) room(2)])
  show thesis
    using that [OF 1(1) 2(1) 1(2) 2(2) _ room(3)] 2(3) len [of a] len [of b] by (simp add: numeral_wires_def)
qed

context combinator
begin

text \<open>Two numerals and a combinator make a closed net.\<close>

lemma binary_built:
  assumes "a \<le> MAX_CHURCH" "b \<le> MAX_CHURCH"
  obtains ids ss ws m r where "built net_new ids ss ws m [AgentPort r 1]"
    "build_binary wire_into a b = Some (output_net (AgentPort r 1) m)" "length ss \<le> 2 * a + 2 * b + 17"
proof -
  obtain f x rest n1 g y rest' n2 where 1: "encode_church_into a net_new = Some (f, n1)" "encode_church_into b n1 = Some (g, n2)"
    "built net_new ((f # x # rest) @ g # y # rest') (church_syms a @ church_syms b) (numeral_wires a f x rest @ numeral_wires b g y rest')
       n2 [AgentPort f 0, AgentPort g 0]"
    "next_id net_new + length (church_syms a @ church_syms b) + 11 \<le> u32_MAX" "length (church_syms a @ church_syms b) \<le> 2 * a + 2 * b + 6"
    by (rule operands_built [OF assms])
  obtain r js ss' vs m' where "wire_into (AgentPort f 0) (AgentPort g 0) n2 = Some (r, m')" "length ss' \<le> 11"
    "built net_new (((f # x # rest) @ g # y # rest') @ js) ((church_syms a @ church_syms b) @ ss')
       ((numeral_wires a f x rest @ numeral_wires b g y rest') @ vs) m' (AgentPort r 1 # [])"
    using wire_into_built [OF 1(3) _ _ _ 1(4), of "AgentPort f 0" "AgentPort g 0" "[]"] by auto
  then show thesis
    using that 1(1,2,5) by (simp add: build_binary_def output_net_def)
qed

end

interpretation add_op: combinator wire_add_into
  unfolding wire_add_combine by (rule combine_combinator [OF closes_add]) simp

interpretation mul_op: combinator wire_mul_into
  unfolding wire_mul_combine by (rule combine_combinator [OF closes_mul]) simp

interpretation exp_op: combinator wire_exp_into
  unfolding wire_exp_combine by (rule combine_combinator [OF closes_exp]) simp

section \<open>The builders make closed nets\<close>

lemma build_binary_None: "\<not> (a \<le> MAX_CHURCH \<and> b \<le> MAX_CHURCH) \<Longrightarrow> build_binary w a b = None"
  by (auto simp: build_binary_def encode_church_into_def split: bind_splits)

text \<open>The chain of additions over the squares \<open>i\<^sup>2, \<dots>, 1\<close>: its agents and its limit.\<close>

definition chain_room :: "nat \<Rightarrow> nat" where
  "chain_room i = (\<Sum>j = 1..i. 2 * (j * j) + 14)"

lemma chain_room_Suc [simp]: "chain_room (Suc i) = chain_room i + (2 * (Suc i * Suc i) + 14)"
  by (simp add: chain_room_def)

lemma chain_room_le: "chain_room i \<le> i * (2 * (i * i) + 14)"
proof -
  have "(\<Sum>j = 1..i. 2 * (j * j) + 14) \<le> (\<Sum>j = 1..i. 2 * (i * i) + 14)"
    by (intro sum_mono) (auto intro: mult_le_mono)
  then show ?thesis
    by (simp add: chain_room_def)
qed

lemma square_small: "i \<le> 1000 \<Longrightarrow> wrap64 (i * i) = i * i \<and> i * i \<le> MAX_CHURCH"
  using mult_le_mono [of i 1000 i 1000] by (simp add: wrap64_def MAX_CHURCH_def)

lemma square_chain_built:
  assumes "built net_new ids ss ws m [acc]" "is_agent acc" "i \<le> 1000" "length ss + chain_room i \<le> u32_MAX"
  shows "\<exists>ids' ss' ws' m' r. square_chain i acc m = Some (r, m') \<and> built net_new ids' ss' ws' m' [r] \<and> is_agent r"
  using assms
proof (induction i arbitrary: acc m ids ss ws)
  case (Suc i)
  note sq = square_small [OF Suc.prems(3)]
  have sq2: "Suc i * Suc i \<le> MAX_CHURCH"
    using sq by simp
  have len: "length (church_syms k) \<le> 2 * k + 3" for k
    by (cases k) (simp_all add: church_syms_def)
  have room: "next_id net_new + length ss + (2 * (Suc i * Suc i) + 3) \<le> u32_MAX"
    "next_id net_new + length (ss @ church_syms (Suc i * Suc i)) + 11 \<le> u32_MAX"
    using Suc.prems(4) len [of "Suc i * Suc i"] by (simp_all add: core_inv_new(5))
  obtain f x rest n1 where 1: "encode_church_into (Suc i * Suc i) m = Some (f, n1)"
    "built net_new (ids @ f # x # rest) (ss @ church_syms (Suc i * Suc i))
       (ws @ (AgentPort f 2, AgentPort x 0) # church_body (Suc i * Suc i) f x rest) n1 ([acc] @ [AgentPort f 0])"
    by (rule encode_church_built [OF Suc.prems(1) sq2 room(1)])
  obtain r js ss' vs m' where 2: "wire_add_into (AgentPort f 0) acc n1 = Some (r, m')" "length ss' \<le> 11"
    "built net_new ((ids @ f # x # rest) @ js) ((ss @ church_syms (Suc i * Suc i)) @ ss')
       ((ws @ (AgentPort f 2, AgentPort x 0) # church_body (Suc i * Suc i) f x rest) @ vs) m' (AgentPort r 1 # [])"
    using add_op.wire_into_built [OF 1(2) _ Suc.prems(2) _ room(2), of "AgentPort f 0" "[]"] by auto
  have "length ((ss @ church_syms (Suc i * Suc i)) @ ss') + chain_room i \<le> u32_MAX"
    using Suc.prems(4) len [of "Suc i * Suc i"] 2(2) by simp
  then have "\<exists>ids' ss' ws' m'' q. square_chain i (AgentPort r 1) m' = Some (q, m'') \<and> built net_new ids' ss' ws' m'' [q] \<and> is_agent q"
    using Suc.prems(3) by (intro Suc.IH [OF 2(3)]) simp_all
  then show ?case
    using 1(1) 2(1) sq by simp
qed auto

lemma square_chain_None: "1000 < i \<Longrightarrow> square_chain i acc m = None"
proof (induction i arbitrary: acc m)
  case (Suc i)
  show ?case
  proof (cases "i = 1000")
    case True
    then show ?thesis
      unfolding square_chain.simps by (simp add: wrap64_def encode_church_into_def MAX_CHURCH_def)
  qed (use Suc in \<open>auto split: bind_splits\<close>)
qed simp

lemma sum_of_squares_built:
  assumes "k \<le> 1000" "2 \<le> k"
  shows "\<exists>n r p. build_sum_of_squares k = Some n \<and> one_output n r p"
proof -
  have sq: "wrap64 (k * k) = k * k" "k * k \<le> MAX_CHURCH"
    using square_small [OF assms(1)] by simp_all
  have "k * (2 * (k * k) + 14) \<le> 1000 * (2 * 1000000 + 14)"
    using assms(1) sq(2) by (intro mult_le_mono) (auto simp: MAX_CHURCH_def)
  moreover have "chain_room k = chain_room (k - 1) + (2 * (k * k) + 14)"
    using assms(2) chain_room_Suc [of "k - 1"] by simp
  moreover have "length (church_syms (k * k)) \<le> 2 * (k * k) + 3"
    by (cases "k * k") (simp_all add: church_syms_def)
  ultimately have room: "next_id net_new + length [] + (2 * (k * k) + 3) \<le> u32_MAX"
    "length ([] @ church_syms (k * k)) + chain_room (k - 1) \<le> u32_MAX"
    using chain_room_le [of k] by (simp_all add: core_inv_new(5))
  obtain f x rest n1 where 1: "encode_church_into (k * k) net_new = Some (f, n1)"
    "built net_new ([] @ f # x # rest) ([] @ church_syms (k * k)) ([] @ (AgentPort f 2, AgentPort x 0) # church_body (k * k) f x rest) n1 ([] @ [AgentPort f 0])"
    by (rule encode_church_built [OF built_refl [OF core_inv_new(1)] sq(2) room(1)])
  have le: "k - 1 \<le> 1000"
    using assms(1) by simp
  obtain ids' ss' ws' m' r where 2: "square_chain (k - 1) (AgentPort f 0) n1 = Some (r, m')" "built net_new ids' ss' ws' m' [r]" "is_agent r"
    using square_chain_built [OF 1(2) [unfolded append_Nil] _ le room(2) [unfolded append_Nil]] by auto
  obtain i p where r: "r = AgentPort i p"
    using 2(3) by (cases r) auto
  have "build_sum_of_squares k = Some (output_net r m')"
    using 1(1) 2(1) sq(1) assms(2) by (simp add: build_sum_of_squares_def output_net_def)
  then show ?thesis
    using built_output [OF 2(2) [unfolded r]] r by blast
qed

lemma sum_of_squares_None: "1000 < k \<Longrightarrow> build_sum_of_squares k = None"
proof (cases "k = 1001")
  case False
  assume "1000 < k"
  then show ?thesis
    using square_chain_None [of "k - 1"] False by (auto simp: build_sum_of_squares_def split: bind_splits)
qed (simp add: build_sum_of_squares_def wrap64_def encode_church_into_def MAX_CHURCH_def)

text \<open>
  The builders make closed nets (C29).  Addition and multiplication of numbers up to the limit,
  exponentiation of numbers up to the limit with an exponent other than zero, and sums of two to 1000
  squares give a net that passes every runtime check, in which every port is wired, every active pair is
  queued and exactly one port is the output; when an argument is beyond the limit these builders panic.
  The exponent zero, with any base, and the sums of no and one square give the encoded numeral itself,
  whose root is set and which has no output port.
\<close>

theorem arithmetic_nets_closed:
  "(if a \<le> MAX_CHURCH \<and> b \<le> MAX_CHURCH
    then (\<exists>n r. build_add a b = Some n \<and> one_output n r 1) \<and> (\<exists>n r. build_mul a b = Some n \<and> one_output n r 1)
    else build_add a b = None \<and> build_mul a b = None) \<and>
   (if b = 0 then build_exp a b = encode_nat 1
    else if a \<le> MAX_CHURCH \<and> b \<le> MAX_CHURCH then \<exists>n r. build_exp a b = Some n \<and> one_output n r 1
    else build_exp a b = None) \<and>
   (if k \<le> 1 then build_sum_of_squares k = encode_nat k
    else if k \<le> 1000 then \<exists>n r p. build_sum_of_squares k = Some n \<and> one_output n r p
    else build_sum_of_squares k = None)"
proof -
  have bin: "\<exists>n r. build_binary w a b = Some n \<and> one_output n r 1" if "combinator w" "a \<le> MAX_CHURCH" "b \<le> MAX_CHURCH" for w
    using combinator.binary_built [OF that] built_output by metis
  have "build_sum_of_squares k = encode_nat k" if "k \<le> 1"
    using that by (auto simp: build_sum_of_squares_def le_Suc_eq)
  then show ?thesis
    using bin [OF add_op.combinator_axioms] bin [OF mul_op.combinator_axioms] bin [OF exp_op.combinator_axioms]
      build_binary_None sum_of_squares_built [of k] sum_of_squares_None [of k]
    by (auto simp: build_add_def build_mul_def build_exp_def)
qed

section \<open>The decoder of shared numerals returns\<close>

text \<open>
  The walk along the applications of a shared numeral starts behind the body of the inner lambda or
  behind the principal port of a duplicator, so that it cannot come back to its first agent.
\<close>

lemma shared_walk_step:
  "shared_walk n x (AgentPort i p) acc =
     (if i = x \<and> p = 1 then Some (Some acc)
      else if p = 1
      then if sym_at n i = Some Con then shared_walk n x (tgt n i 2) (acc + 1) else Some None
      else if p = 0 \<and> sym_at n i = Some Dup
      then Some (map_option (\<lambda>multiplier. acc * multiplier) (count_dup_boundary_multiplier 1000 n i x 2))
      else Some None)"
  by (subst shared_walk.simps) (simp add: symbol_at_iff tgt_def)

lemma shared_walk_free [simp]: "shared_walk n x (FreePort f) acc = Some None"
  by (subst shared_walk.simps) simp

lemma shared_walk_from:
  assumes "core_inv n" "walk_path n vs" "x \<notin> set vs" "tgt n (hd vs) 1 = AgentPort z r" "r = 2 \<longrightarrow> z = x"
  shows "\<exists>res. shared_walk n x (tgt n (last vs) 2) acc = Some res"
  using assms(2-5)
proof (induction "card (dom (sym_at n)) - length vs" arbitrary: vs acc rule: less_induct)
  case less
  show ?case
  proof (cases "\<exists>j. tgt n (last vs) 2 = AgentPort j 1 \<and> j \<noteq> x \<and> sym_at n j = Some Con")
    case True
    then obtain j where j: "tgt n (last vs) 2 = AgentPort j 1" "j \<noteq> x" "sym_at n j = Some Con"
      by auto
    have ne: "vs \<noteq> []" "last vs \<noteq> x"
      using less.prems(1,2) by (auto simp: walk_path_def)
    have "j \<noteq> hd vs"
    proof
      assume "j = hd vs"
      then have "tgt n (hd vs) 1 = AgentPort (last vs) 2"
        using neighbour(2) [OF assms(1) _ j(1)] by simp
      then show False
        using less.prems(3,4) ne(2) by simp
    qed
    then have P: "walk_path n (vs @ [j])" "x \<notin> set (vs @ [j])" "hd (vs @ [j]) = hd vs"
      using walk_path_extend [OF assms(1) less.prems(1) j(1)] j(2) less.prems(2) ne(1) by auto
    show ?thesis
      using less.hyps [OF walk_path_less [OF P(1)] P(1,2) _ less.prems(4), of "acc + 1"] P(3) less.prems(3) j
      by (simp add: shared_walk_step)
  next
    case False
    then show ?thesis
      by (cases "tgt n (last vs) 2") (auto simp: shared_walk_step)
  qed
qed

lemma follow_start:
  assumes "core_inv n" "follow_through_dup_aux k n t = Some (AgentPort i 1)" "t = tgt n x p" "p = 0 \<or> p = 2" "sym_at n x \<noteq> None"
  shows "\<exists>z r. tgt n i 1 = AgentPort z r \<and> (r = 2 \<longrightarrow> z = x \<and> p = 2)"
  using assms(2-5)
proof (induction k arbitrary: t x p)
  case (Suc k)
  show ?case
  proof (cases t)
    case (AgentPort j q)
    have nb: "tgt n j q = AgentPort x p"
      using neighbour(2) [OF assms(1), of p x j q] Suc.prems(2,3) AgentPort by auto
    consider "j = i" "q = 1" | "q = 1 \<or> q = 2" "sym_at n j = Some Dup" "follow_through_dup_aux k n (tgt n j 0) = Some (AgentPort i 1)"
      using Suc.prems(1) AgentPort by (auto simp: sym_at_def tgt_def split: if_splits option.splits)
    then show ?thesis
    proof cases
      case 1
      then show ?thesis
        using nb Suc.prems(3) by auto
    next
      case 2
      then show ?thesis
        using Suc.IH [OF 2(3) refl] by auto
    qed
  qed (use Suc.prems(1) in simp)
qed simp

text \<open>
  Decoding always ends.  On every net with a consistent arena, reduced or not, the decoder of the
  pipeline returns, and it agrees with the decoder of canonical numerals wherever that one answers.
\<close>

lemma decode_either_returns:
  assumes "core_inv n"
  shows "(\<exists>r. decode_either n = Some r) \<and> (\<exists>r. decode_shared_chain n = Some r) \<and>
    (decode_nat n = Some None \<or> decode_either n = decode_nat n)"
proof -
  have shared: "\<exists>r. shared_walk n x start 0 = Some r"
    if st: "follow_through_dup_aux 1000 n (tgt n x 2) = Some start" "sym_at n x = Some Con" for x start
  proof (cases "\<exists>i. start = AgentPort i 1 \<and> i \<noteq> x \<and> sym_at n i = Some Con")
    case True
    then obtain i where i: "start = AgentPort i 1" "i \<noteq> x" "sym_at n i = Some Con"
      by auto
    obtain z r where z: "tgt n i 1 = AgentPort z r" "r = 2 \<longrightarrow> z = x"
      using follow_start [OF assms st(1) [unfolded i(1)] refl] st(2) by auto
    then show ?thesis
      using shared_walk_from [OF assms, of "[i]" x z r 1] i by (simp add: walk_path_def shared_walk_step)
  next
    case False
    then show ?thesis
      by (cases start) (auto simp: shared_walk_step)
  qed
  have "\<exists>r. decode_shared_chain n = Some r"
    using shared by (auto simp: decode_shared_chain_def symbol_at_iff simp flip: tgt_def split: option.split port_ref.split)
  moreover have "\<exists>r. decode_nat n = Some r"
    by (rule decode_returns [OF assms])
  ultimately show ?thesis
    by (auto simp: decode_either_def split: option.split)
qed

lemma decode_either_returns_witness:
  "core_inv (pair_net Con Dup) \<and> (\<exists>r. decode_either (pair_net Con Dup) = Some r)"
  using decode_either_returns [of "pair_net Con Dup"] by simp

end
