(* ===== verification/Addition.thy ===== *)
theory Addition
  imports Arith_Props Rule_Props
begin

text \<open>
  Interaction nets add numbers: the net of \<open>build_add\<close> reduces in six interactions to the numeral of the
  sum, for all operands.  The proof follows the path that runs from the body of the inner lambda through
  the applications to its variable, while six pairs of constructors annihilate.
\<close>

section \<open>One beta step\<close>

definition beta_reduct :: "net \<Rightarrow> agent_id \<Rightarrow> agent_id \<Rightarrow> net \<Rightarrow> bool" where
  "beta_reduct n a b m \<longleftrightarrow>
     core_inv n \<and> active_pair n a b \<and> no_cross n a b \<and> core_inv m \<and> root m = root n \<and>
     sym_at n a = Some Con \<and> sym_at n b = Some Con \<and> sym_at m = (sym_at n)(a := None, b := None) \<and>
     (\<forall>j q. valid_port m j q \<longrightarrow>
        tgt m j q = reroute (\<lambda>c. if c = a then anni_exit n Con a b else anni_exit n Con b a) {a, b} (tgt n j q))"

lemma beta_step:
  assumes "core_inv n" "redex_queue n = (a, b) # q" "active_pair n a b" "no_cross n a b"
    and "sym_at n a = Some Con" "sym_at n b = Some Con"
  obtains m where "reduce_step n = Some (Reduced Anni ConCon, m)" "beta_reduct n a b m"
    "redex_queue m = q @ concat (map (\<lambda>(x, y). new_redexes x y) (anni_wires n Con a b))"
proof -
  let ?n = "n\<lparr>redex_queue := q\<rparr>"
  let ?m = "link_all (anni_wires ?n Con a b) (remove_agent b (remove_agent a ?n))"
  have P: "core_inv ?n" "active_pair ?n a b" "no_cross ?n a b" "sym_at ?n a = Some Con" "sym_at ?n b = Some Con" "Con \<noteq> Era"
    using assms by (simp_all add: core_inv_queue active_pair_queue no_cross_queue)
  note R = anni_rerouted [OF P]
  have "self_loop ?n i = self_loop n i" for i
    by (simp add: self_loop_def get_target_def Let_def)
  then have w: "anni_wires ?n Con a b = anni_wires n Con a b"
    by (simp add: anni_wires_def)
  have e: "anni_exit ?n Con = anni_exit n Con"
    by (simp add: anni_exit_def fun_eq_iff Let_def)
  have "reduce_pair a b ?n = Some (Reduced Anni ConCon, ?m)"
    using P(4,5) interact_anni_links [OF P(4,6), of b] by (simp add: reduce_pair_def normalize_pair_def apply_rule_def)
  then have "reduce_step n = Some (Reduced Anni ConCon, ?m)"
    using is_valid_redex_iff [OF P(1)] P(2) assms(2) by (subst reduce_step.simps) simp
  moreover have "beta_reduct n a b ?m"
    using R(1-3,5) assms unfolding beta_reduct_def e by simp
  moreover have "redex_queue ?m = q @ concat (map (\<lambda>(x, y). new_redexes x y) (anni_wires n Con a b))"
    using R(4) w by simp
  ultimately show thesis
    by (rule that)
qed

lemma beta_reductD:
  assumes "beta_reduct n a b m"
  shows "core_inv n" "active_pair n a b" "no_cross n a b" "core_inv m" "root m = root n" "sym_at m = (sym_at n)(a := None, b := None)"
    "\<And>j q. valid_port m j q \<Longrightarrow>
       tgt m j q = reroute (\<lambda>c. if c = a then anni_exit n Con a b else anni_exit n Con b a) {a, b} (tgt n j q)"
    "sym_at n a = Some Con" "sym_at n b = Some Con"
  using assms by (simp_all add: beta_reduct_def)

lemma beta_sym: "beta_reduct n a b m \<Longrightarrow> beta_reduct n b a m"
  using active_pairD(3,6) [of n a b] no_cross_sym [of n a b]
  by (auto simp: beta_reduct_def insert_commute fun_upd_twist reroute_def fun_eq_iff split: port_ref.splits if_splits)

lemma beta_valid: "beta_reduct n a b m \<Longrightarrow> valid_port m j q \<longleftrightarrow> valid_port n j q \<and> j \<noteq> a \<and> j \<noteq> b"
  by (auto simp: valid_port_def beta_reductD(6))

lemma beta_frame:
  assumes "beta_reduct n a b m" "tgt n j q = AgentPort k r" "q < 3" "j \<noteq> a" "j \<noteq> b" "k \<noteq> a" "k \<noteq> b"
  shows "tgt m j q = AgentPort k r"
  using beta_reductD(7) [OF assms(1), of j q] tgt_valid(2) [OF beta_reductD(1) [OF assms(1)] assms(3,2)] beta_valid [OF assms(1)] assms
  by (simp add: reroute_def)

lemma beta_frame_free:
  assumes "beta_reduct n a b m" "tgt n j q = FreePort f" "valid_port n j q" "j \<noteq> a" "j \<noteq> b"
  shows "tgt m j q = FreePort f"
  using beta_reductD(7) [OF assms(1), of j q] beta_valid [OF assms(1)] assms by (simp add: reroute_def)

lemma beta_cross:
  assumes "beta_reduct n a b m" "tgt n a p = AgentPort j q" "p = 1 \<and> p' = 2 \<or> p = 2 \<and> p' = 1" "j \<noteq> a" "j \<noteq> b"
    and "tgt n b p' \<noteq> AgentPort b p"
  shows "tgt m j q = tgt n b p'"
proof -
  note N = neighbour [OF beta_reductD(1) [OF assms(1)], of p a j q]
  have "valid_port n j q" "tgt n j q = AgentPort a p"
    using N(1,2) assms(2,3) by auto
  then show ?thesis
    using beta_reductD(7) [OF assms(1), of j q] beta_valid [OF assms(1)] assms(3-6)
    by (auto simp: reroute_def anni_exit_def opposite_def)
qed

lemma beta_loop:
  assumes "beta_reduct n a b m" "tgt n a p = AgentPort j q" "p = 1 \<and> p' = 2 \<or> p = 2 \<and> p' = 1" "j \<noteq> a" "j \<noteq> b"
    and "tgt n b 2 = AgentPort b 1"
  shows "tgt m j q = tgt n a p'"
proof -
  note inv = beta_reductD(1) [OF assms(1)]
  note N = neighbour [OF inv, of p a j q] neighbour [OF inv _ assms(6)]
  have "valid_port n j q" "tgt n j q = AgentPort a p" "tgt n b 1 = AgentPort b 2"
    using N assms(2,3) by auto
  then show ?thesis
    using beta_reductD(7) [OF assms(1), of j q] beta_valid [OF assms(1)] assms(3-6)
    by (auto simp: reroute_def anni_exit_def opposite_def)
qed

section \<open>Paths through applications\<close>

fun app_path :: "net \<Rightarrow> agent_id \<Rightarrow> port_id \<Rightarrow> agent_id list \<Rightarrow> agent_id \<Rightarrow> port_id \<Rightarrow> bool" where
  "app_path n i p [] j q \<longleftrightarrow> tgt n i p = AgentPort j q"
| "app_path n i p (a # as) j q \<longleftrightarrow> tgt n i p = AgentPort a 1 \<and> app_path n a 2 as j q"

lemma path_append: "app_path n i p as z 1 \<Longrightarrow> app_path n z 2 bs j q \<Longrightarrow> app_path n i p (as @ z # bs) j q"
  by (induction as arbitrary: i p) auto

lemma path_snoc: "app_path n i p (as @ [z]) j q \<longleftrightarrow> app_path n i p as z 1 \<and> tgt n z 2 = AgentPort j q"
  by (induction as arbitrary: i p) auto

lemma path_cong: "(\<And>j. tgt n' j 2 = tgt n j 2) \<Longrightarrow> app_path n' i 2 as j q \<longleftrightarrow> app_path n i 2 as j q"
  by (induction as arbitrary: i) auto

lemma path_frame:
  assumes "beta_reduct n a b m" "app_path n i p as j q" "p < 3" "{a, b} \<inter> (set as \<union> {i, j}) = {}"
  shows "app_path m i p as j q"
  using assms(2-4)
proof (induction as arbitrary: i p)
  case (Cons z as)
  then show ?case
    using beta_frame [OF assms(1)] by auto
qed (use beta_frame [OF assms(1)] in auto)

text \<open>A lambda whose body is a path meets an application: the path now joins the places the application joined.\<close>

lemma path_tail:
  assumes "beta_reduct n x c m" "app_path n i 2 as x 1" "{x, c} \<inter> (set as \<union> {i}) = {}" "tgt n c 2 \<noteq> AgentPort c 1" "tgt n c 2 = AgentPort j q"
  shows "app_path m i 2 as j q"
  using assms(2,3)
proof (induction as arbitrary: i)
  case Nil
  have "tgt n x 1 = AgentPort i 2"
    using neighbour(2) [OF beta_reductD(1) [OF assms(1)], of 2 i x 1] Nil(1) by simp
  then show ?case
    using beta_cross [OF assms(1), of 1 i 2 2] Nil(2) assms(4,5) by simp
next
  case (Cons z as)
  then show ?case
    using beta_frame [OF assms(1), of i 2 z 1] by auto
qed

lemma path_shift:
  assumes "beta_reduct n x c m" "app_path n x 2 as x 1" "{x, c} \<inter> set as = {}"
    and "tgt n c 1 = AgentPort i p" "tgt n c 2 = AgentPort j q" "{x, c} \<inter> {i, j} = {}"
  shows "app_path m i p as j q"
proof (cases as)
  case Nil
  have "tgt m i p = tgt n c 2"
    using beta_loop [OF beta_sym [OF assms(1)] assms(4), of 2] assms(2,6) Nil by simp
  then show ?thesis
    using Nil assms(5) by simp
next
  case (Cons a bs)
  then have x2: "tgt n x 2 = AgentPort a 1" and tail: "app_path n a 2 bs x 1"
    using assms(2) by simp_all
  have "tgt m i p = tgt n x 2"
    using beta_cross [OF beta_sym [OF assms(1)] assms(4), of 2] assms(3,6) x2 Cons by auto
  moreover have "app_path m a 2 bs j q"
    using assms(3,5,6) Cons by (intro path_tail [OF assms(1) tail]) auto
  ultimately show ?thesis
    using Cons x2 by simp
qed

lemma path_join:
  assumes "beta_reduct n y c m" "app_path n i p as c 1" "p < 3" "app_path n y 2 bs y 1" "{y, c} \<inter> (set as \<union> set bs \<union> {i, j}) = {}"
    and "tgt n c 2 = AgentPort j q"
  shows "app_path m i p (as @ bs) j q"
proof (cases as rule: rev_cases)
  case Nil
  then have "tgt n c 1 = AgentPort i p"
    using assms(2,3) neighbour(2) [OF beta_reductD(1) [OF assms(1)], of p i c 1] by simp
  then show ?thesis
    using path_shift [OF assms(1,4) _ _ assms(6)] assms(5) Nil by auto
next
  case (snoc as' z)
  then have "app_path n i p as' z 1" "tgt n z 2 = AgentPort c 1"
    using assms(2) by (simp_all add: path_snoc)
  then have c1: "tgt n c 1 = AgentPort z 2" and a: "app_path m i p as' z 1"
    using neighbour(2) [OF beta_reductD(1) [OF assms(1)], of 2 z c 1] path_frame [OF assms(1) _ assms(3), of i as' z 1] assms(5) snoc
    by auto
  have "app_path m z 2 bs j q"
    using path_shift [OF assms(1,4) _ c1 assms(6)] assms(5) snoc by auto
  then show ?thesis
    using path_append [OF a] snoc by simp
qed

lemma path_first: "app_path n i p as j 1 \<Longrightarrow> \<exists>z. tgt n i p = AgentPort z 1"
  by (cases as) auto

lemma path_last:
  assumes "core_inv n" "app_path n i 2 as j q"
  shows "\<exists>z. tgt n j q = AgentPort z 2 \<and> z \<in> insert i (set as)"
  using assms(2)
proof (induction as arbitrary: i)
  case Nil
  then show ?case
    using neighbour(2) [OF assms(1), of 2 i j q] by simp
next
  case (Cons a as)
  then show ?case
    using Cons.IH [of a] by auto
qed

section \<open>Two steps at a time\<close>

lemma new_redexes_aux [simp]:
  "q \<noteq> 0 \<Longrightarrow> new_redexes t (AgentPort i q) = []" "q \<noteq> 0 \<Longrightarrow> new_redexes (AgentPort i q) t = []"
  "new_redexes (FreePort f) t = []" "new_redexes (AgentPort i 0) (AgentPort j 0) = [(i, j)]"
  by (auto simp: new_redexes_def split: port_ref.split)

lemma no_crossI:
  assumes "core_inv n" "tgt n b 1 = AgentPort i p" "tgt n b 2 = AgentPort j q" "i \<noteq> a" "j \<noteq> a"
  shows "no_cross n a b"
proof -
  have "tgt n b s = AgentPort a r" if "tgt n a r = AgentPort b s" "r = 1 \<or> r = 2" for r s
    using neighbour(2) [OF assms(1) _ that(1)] that(2) by auto
  then show ?thesis
    using assms(2-5) by (auto simp: no_cross_def)
qed

text \<open>
  Two steps of a run, on the pairs \<open>(a, b)\<close> and \<open>(c, d)\<close>, with the queue they leave.
\<close>

definition two_betas :: "net \<Rightarrow> agent_id \<Rightarrow> agent_id \<Rightarrow> agent_id \<Rightarrow> agent_id \<Rightarrow> net \<Rightarrow> net \<Rightarrow> bool" where
  "two_betas n a b c d n1 m \<longleftrightarrow>
     reduce_step n = Some (Reduced Anni ConCon, n1) \<and> beta_reduct n a b n1 \<and>
     reduce_step n1 = Some (Reduced Anni ConCon, m) \<and> beta_reduct n1 c d m"

text \<open>The part of the combinator that stays until the operands are applied to \<open>f\<close>.\<close>

definition adder :: "net \<Rightarrow> agent_id \<Rightarrow> agent_id \<Rightarrow> agent_id \<Rightarrow> agent_id \<Rightarrow> agent_id \<Rightarrow> agent_id \<Rightarrow> agent_id \<Rightarrow> bool" where
  "adder n F X mf nf nx al D \<longleftrightarrow>
     tgt n F 1 = AgentPort D 0 \<and> tgt n F 2 = AgentPort X 0 \<and> tgt n X 1 = AgentPort nx 2 \<and> tgt n X 2 = AgentPort al 1 \<and>
     tgt n mf 1 = AgentPort al 0 \<and> tgt n mf 2 = AgentPort D 1 \<and> tgt n nf 1 = AgentPort nx 0 \<and> tgt n nf 2 = AgentPort D 2 \<and>
     tgt n nx 1 = AgentPort al 2"

text \<open>An operand: the lambdas \<open>f\<close> and \<open>x\<close> of a numeral with the path of its applications.\<close>

definition operand :: "net \<Rightarrow> agent_id \<Rightarrow> agent_id \<Rightarrow> agent_id list \<Rightarrow> bool" where
  "operand n f x as \<longleftrightarrow> tgt n f 2 = AgentPort x 0 \<and> app_path n x 2 as x 1"

lemma adder_frame:
  assumes "beta_reduct n a b m" "adder n F X mf nf nx al D" "{a, b} \<inter> {F, X, mf, nf, nx, al, D} = {}"
  shows "adder m F X mf nf nx al D"
  using assms(2,3) unfolding adder_def by (auto intro!: beta_frame [OF assms(1)])

lemma operand_frame:
  assumes "beta_reduct n a b m" "operand n f x as" "{a, b} \<inter> ({f, x} \<union> set as) = {}"
  shows "operand m f x as"
  using assms(2,3) unfolding operand_def by (auto intro!: beta_frame [OF assms(1)] path_frame [OF assms(1)])

definition all_con :: "net \<Rightarrow> agent_id list \<Rightarrow> bool" where
  "all_con n is \<longleftrightarrow> (\<forall>i \<in> set is. sym_at n i = Some Con)"

lemma all_con_frame:
  "beta_reduct n a b m \<Longrightarrow> all_con n js \<Longrightarrow> set is \<subseteq> set js \<Longrightarrow> a \<notin> set is \<Longrightarrow> b \<notin> set is \<Longrightarrow> all_con m is"
  by (auto simp: all_con_def beta_reductD(6))

text \<open>
  A step on a pair whose second agent leads to two other agents; the first one may be looped when those
  ports are auxiliary.
\<close>

lemma beta_step_plain:
  assumes "core_inv n" "redex_queue n = (a, b) # q" "tgt n a 0 = AgentPort b 0" "sym_at n a = Some Con" "sym_at n b = Some Con"
    and "tgt n b 1 = AgentPort i p" "tgt n b 2 = AgentPort j r" "i \<noteq> a" "i \<noteq> b" "j \<noteq> a"
  obtains m where "reduce_step n = Some (Reduced Anni ConCon, m)" "beta_reduct n a b m"
    "tgt n a 2 \<noteq> AgentPort a 1 \<Longrightarrow> redex_queue m = q @ new_redexes (tgt n a 1) (AgentPort j r) @ new_redexes (tgt n a 2) (AgentPort i p)"
    "p \<noteq> 0 \<Longrightarrow> r \<noteq> 0 \<Longrightarrow> redex_queue m = q"
proof -
  have nc: "no_cross n a b"
    by (rule no_crossI [OF assms(1,6,7,8,10)])
  have loops: "\<not> self_loop n b" "self_loop n a \<longleftrightarrow> tgt n a 2 = AgentPort a 1"
    using assms(6,9) self_loop_iff [OF assms(1)] by auto
  have act: "active_pair n a b"
    using assms(3) by (simp add: active_pair_def)
  show thesis
  proof (rule beta_step [OF assms(1,2) act nc assms(4,5)])
    fix m
    assume "reduce_step n = Some (Reduced Anni ConCon, m)" "beta_reduct n a b m"
      and q: "redex_queue m = q @ concat (map (\<lambda>(x, y). new_redexes x y) (anni_wires n Con a b))"
    then show thesis
      using loops assms(6,7) by (intro that) (auto simp: anni_wires_def)
  qed
qed

text \<open>First the combinator meets its two operands.\<close>

lemma apply_stage:
  assumes inv: "core_inv n" "redex_queue n = [(p1, M)]" and con: "all_con n [M, N, p1, p2]"
    and dist: "distinct ([M, N, p1, p2, F, X, mf, nf, nx, al, D, f, x, g, y] @ A @ B)"
    and T: "tgt n p1 0 = AgentPort M 0" "tgt n p1 1 = AgentPort p2 0" "tgt n p1 2 = AgentPort f 0" "tgt n p2 1 = FreePort 0"
      "tgt n p2 2 = AgentPort g 0" "tgt n M 1 = AgentPort mf 0" "tgt n M 2 = AgentPort N 0" "tgt n N 1 = AgentPort nf 0"
      "tgt n N 2 = AgentPort F 0"
    and parts: "adder n F X mf nf nx al D" "operand n f x A" "operand n g y B"
  obtains n1 m where "two_betas n p1 M p2 N n1 m" "redex_queue m = [(f, mf), (g, nf)]" "adder m F X mf nf nx al D"
    "operand m f x A" "operand m g y B" "tgt m F 0 = FreePort 0" "tgt m f 0 = AgentPort mf 0" "tgt m g 0 = AgentPort nf 0"
proof -
  have neq: "distinct [M, N, p1, p2, F, X, mf, nf, nx, al, D, f, x, g, y]"
    using dist by (simp add: distinct_append)
  have c1: "sym_at n p1 = Some Con" "sym_at n M = Some Con" "sym_at n p2 = Some Con" "sym_at n N = Some Con"
    using con by (simp_all add: all_con_def)
  obtain n1 where 1: "reduce_step n = Some (Reduced Anni ConCon, n1)" "beta_reduct n p1 M n1" "redex_queue n1 = [(p2, N), (f, mf)]"
    by (rule beta_step_plain [OF inv T(1) c1(1,2) T(6,7)]) (use neq T(2,3) in auto)
  have f1: "tgt n1 p2 0 = AgentPort N 0" "tgt n1 f 0 = AgentPort mf 0" "tgt n1 p2 2 = AgentPort g 0" "tgt n1 N 1 = AgentPort nf 0" "tgt n1 N 2 = AgentPort F 0"
    using beta_cross [OF 1(2) T(2), of 2] beta_cross [OF 1(2) T(3), of 1] beta_frame [OF 1(2)] T neq by auto
  have free: "tgt n1 p2 1 = FreePort 0"
    using c1(3) neq by (intro beta_frame_free [OF 1(2) T(4)]) (auto simp: valid_port_def)
  have c2: "sym_at n1 p2 = Some Con" "sym_at n1 N = Some Con"
    using c1 neq by (auto simp: beta_reductD(6) [OF 1(2)])
  obtain m where 2: "reduce_step n1 = Some (Reduced Anni ConCon, m)" "beta_reduct n1 p2 N m" "redex_queue m = [(f, mf), (g, nf)]"
    by (rule beta_step_plain [OF beta_reductD(4) [OF 1(2)] 1(3) f1(1) c2 f1(4,5)]) (use neq free f1(3) in auto)
  have "tgt m F 0 = FreePort 0" "tgt m g 0 = AgentPort nf 0"
    using beta_cross [OF beta_sym [OF 2(2)] f1(5), of 1] beta_cross [OF 2(2) f1(3), of 1] free f1 neq by auto
  moreover have "tgt m f 0 = AgentPort mf 0"
    using beta_frame [OF 2(2) f1(2)] neq by auto
  moreover have "adder m F X mf nf nx al D" "operand m f x A" "operand m g y B"
    using adder_frame [OF 2(2) adder_frame [OF 1(2) parts(1)]] operand_frame [OF 2(2) operand_frame [OF 1(2) parts(2)]]
      operand_frame [OF 2(2) operand_frame [OF 1(2) parts(3)]] dist by auto
  ultimately show thesis
    using that 1 2 by (auto simp: two_betas_def)
qed

text \<open>Then the numerals meet the applications to \<open>f\<close>.\<close>

lemma share_stage:
  assumes inv: "core_inv n" "redex_queue n = [(f, mf), (g, nf)]" and con: "all_con n [f, mf, g, nf]"
    and dist: "distinct ([F, X, mf, nf, nx, al, D, f, x, g, y] @ A @ B)"
    and T: "tgt n F 0 = FreePort 0" "valid_port n F 0" "tgt n f 0 = AgentPort mf 0" "tgt n g 0 = AgentPort nf 0"
    and parts: "adder n F X mf nf nx al D" "operand n f x A" "operand n g y B"
  obtains n1 m where "two_betas n f mf g nf n1 m" "redex_queue m = [(x, al), (y, nx)]"
    "tgt m F 0 = FreePort 0" "tgt m F 1 = AgentPort D 0" "tgt m F 2 = AgentPort X 0"
    "tgt m X 1 = AgentPort nx 2" "tgt m X 2 = AgentPort al 1" "tgt m nx 1 = AgentPort al 2"
    "tgt m x 0 = AgentPort al 0" "tgt m y 0 = AgentPort nx 0" "app_path m x 2 A x 1" "app_path m y 2 B y 1"
proof -
  have neq: "distinct [F, X, mf, nf, nx, al, D, f, x, g, y]"
    using dist by (simp add: distinct_append)
  have c1: "sym_at n f = Some Con" "sym_at n mf = Some Con" "sym_at n g = Some Con" "sym_at n nf = Some Con"
    using con by (simp_all add: all_con_def)
  have W: "tgt n F 1 = AgentPort D 0" "tgt n F 2 = AgentPort X 0" "tgt n X 1 = AgentPort nx 2" "tgt n X 2 = AgentPort al 1"
    "tgt n mf 1 = AgentPort al 0" "tgt n mf 2 = AgentPort D 1" "tgt n nf 1 = AgentPort nx 0" "tgt n nf 2 = AgentPort D 2"
    "tgt n nx 1 = AgentPort al 2" "tgt n f 2 = AgentPort x 0" "app_path n x 2 A x 1" "tgt n g 2 = AgentPort y 0" "app_path n y 2 B y 1"
    using parts by (simp_all add: adder_def operand_def)
  obtain n1 where 1: "reduce_step n = Some (Reduced Anni ConCon, n1)" "beta_reduct n f mf n1" "redex_queue n1 = [(g, nf), (x, al)]"
    by (rule beta_step_plain [OF inv T(3) c1(1,2) W(5,6)]) (use neq W(10) in auto)
  note fr1 = beta_frame [OF 1(2)]
  have f1: "tgt n1 x 0 = AgentPort al 0" "tgt n1 g 0 = AgentPort nf 0" "tgt n1 nf 1 = AgentPort nx 0" "tgt n1 nf 2 = AgentPort D 2"
    "tgt n1 g 2 = AgentPort y 0"
    using beta_cross [OF 1(2) W(10), of 1] W(5) neq fr1 [OF T(4)] fr1 [OF W(7)] fr1 [OF W(8)] fr1 [OF W(12)] by auto
  have r1: "tgt n1 F 1 = AgentPort D 0" "tgt n1 F 2 = AgentPort X 0" "tgt n1 X 1 = AgentPort nx 2" "tgt n1 X 2 = AgentPort al 1"
    "tgt n1 nx 1 = AgentPort al 2"
    using neq fr1 [OF W(1)] fr1 [OF W(2)] fr1 [OF W(3)] fr1 [OF W(4)] fr1 [OF W(9)] by auto
  have p1: "app_path n1 x 2 A x 1" "app_path n1 y 2 B y 1" "tgt n1 F 0 = FreePort 0" "valid_port n1 F 0"
    using path_frame [OF 1(2) W(11)] path_frame [OF 1(2) W(13)] dist beta_frame_free [OF 1(2) T(1,2)] beta_valid [OF 1(2)] T(2) by auto
  have c2: "sym_at n1 g = Some Con" "sym_at n1 nf = Some Con"
    using c1 neq by (auto simp: beta_reductD(6) [OF 1(2)])
  obtain m where 2: "reduce_step n1 = Some (Reduced Anni ConCon, m)" "beta_reduct n1 g nf m" "redex_queue m = [(x, al), (y, nx)]"
    by (rule beta_step_plain [OF beta_reductD(4) [OF 1(2)] 1(3) f1(2) c2 f1(3,4)]) (use neq f1(5) in auto)
  note fr2 = beta_frame [OF 2(2)]
  have "tgt m y 0 = AgentPort nx 0" "tgt m x 0 = AgentPort al 0"
    using beta_cross [OF 2(2) f1(5), of 1] f1(3) neq fr2 [OF f1(1)] by auto
  moreover have "tgt m F 1 = AgentPort D 0" "tgt m F 2 = AgentPort X 0" "tgt m X 1 = AgentPort nx 2" "tgt m X 2 = AgentPort al 1"
    "tgt m nx 1 = AgentPort al 2"
    using neq fr2 [OF r1(1)] fr2 [OF r1(2)] fr2 [OF r1(3)] fr2 [OF r1(4)] fr2 [OF r1(5)] by auto
  moreover have "app_path m x 2 A x 1" "app_path m y 2 B y 1" "tgt m F 0 = FreePort 0"
    using path_frame [OF 2(2) p1(1)] path_frame [OF 2(2) p1(2)] dist beta_frame_free [OF 2(2) p1(3,4)] by auto
  ultimately show thesis
    using that 1(1,2) 2 by (simp add: two_betas_def)
qed

text \<open>Last, the two bodies are put in line.\<close>

lemma join_stage:
  assumes inv: "core_inv n" "redex_queue n = [(x, al), (y, nx)]" and con: "all_con n [x, al, y, nx]"
    and dist: "distinct ([F, X, nx, al, D, x, y] @ A @ B)"
    and T: "tgt n F 0 = FreePort 0" "valid_port n F 0" "tgt n F 1 = AgentPort D 0" "tgt n F 2 = AgentPort X 0"
      "tgt n X 1 = AgentPort nx 2" "tgt n X 2 = AgentPort al 1" "tgt n nx 1 = AgentPort al 2" "tgt n x 0 = AgentPort al 0" "tgt n y 0 = AgentPort nx 0"
    and paths: "app_path n x 2 A x 1" "app_path n y 2 B y 1"
  obtains n1 m where "two_betas n x al y nx n1 m" "redex_queue m = []" "tgt m F 0 = FreePort 0" "tgt m F 1 = AgentPort D 0"
    "tgt m F 2 = AgentPort X 0" "app_path m X 2 (A @ B) X 1"
proof -
  have neq: "distinct [F, X, nx, al, D, x, y]" and AB: "{x, al, y, nx} \<inter> (set A \<union> set B) = {}"
    using dist by (auto simp: distinct_append)
  have c1: "sym_at n x = Some Con" "sym_at n al = Some Con" "sym_at n y = Some Con" "sym_at n nx = Some Con"
    using con by (simp_all add: all_con_def)
  have al_ends: "tgt n al 1 = AgentPort X 2" "tgt n al 2 = AgentPort nx 1"
    using neighbour(2) [OF inv(1)] T(6,7) by simp_all
  obtain n1 where 1: "reduce_step n = Some (Reduced Anni ConCon, n1)" "beta_reduct n x al n1" "redex_queue n1 = [(y, nx)]"
    by (rule beta_step_plain [OF inv T(8) c1(1,2) al_ends]) (use neq in auto)
  note core1 = beta_reductD(4) [OF 1(2)] and fr1 = beta_frame [OF 1(2)]
  have A: "app_path n1 X 2 A nx 1"
    using path_shift [OF 1(2) paths(1) _ al_ends] AB neq by auto
  have f1: "tgt n1 y 0 = AgentPort nx 0" "tgt n1 X 1 = AgentPort nx 2" "tgt n1 F 1 = AgentPort D 0" "tgt n1 F 2 = AgentPort X 0"
    using neq fr1 [OF T(9)] fr1 [OF T(5)] fr1 [OF T(3)] fr1 [OF T(4)] by auto
  have B: "app_path n1 y 2 B y 1" "tgt n1 F 0 = FreePort 0" "valid_port n1 F 0"
    using path_frame [OF 1(2) paths(2)] AB neq beta_frame_free [OF 1(2) T(1,2)] beta_valid [OF 1(2)] T(2) by auto
  have c2: "sym_at n1 y = Some Con" "sym_at n1 nx = Some Con"
    using c1 neq by (auto simp: beta_reductD(6) [OF 1(2)])
  obtain z where z: "tgt n1 nx 1 = AgentPort z 2" "z \<in> insert X (set A)"
    using path_last [OF core1 A] by auto
  have x1: "tgt n1 nx 2 = AgentPort X 1"
    using neighbour(2) [OF core1, of 1 X nx 2] f1(2) by simp
  obtain m where 2: "reduce_step n1 = Some (Reduced Anni ConCon, m)" "beta_reduct n1 y nx m" "redex_queue m = []"
    by (rule beta_step_plain [OF core1 1(3) f1(1) c2 z(1) x1]) (use neq AB z(2) in auto)
  have "app_path m X 2 (A @ B) X 1"
    using path_join [OF 2(2) A _ B(1) _ x1] AB neq by auto
  moreover have "tgt m F 0 = FreePort 0" "tgt m F 1 = AgentPort D 0" "tgt m F 2 = AgentPort X 0"
    using beta_frame_free [OF 2(2) B(2,3)] beta_frame [OF 2(2) f1(3)] beta_frame [OF 2(2) f1(4)] neq by auto
  ultimately show thesis
    using that 1(1,2) 2 by (simp add: two_betas_def)
qed

section \<open>Spines and paths\<close>

lemma chain_path:
  "app_path n a 2 as j q \<longleftrightarrow>
     tgt n (last (a # as)) 2 = AgentPort j q \<and>
     (\<forall>i. i + 1 < length (a # as) \<longrightarrow> tgt n ((a # as) ! i) 2 = AgentPort ((a # as) ! (i + 1)) 1)"
proof (induction as arbitrary: a)
  case (Cons b as)
  have "(\<forall>i. i + 1 < length (a # b # as) \<longrightarrow> tgt n ((a # b # as) ! i) 2 = AgentPort ((a # b # as) ! (i + 1)) 1) \<longleftrightarrow>
      tgt n a 2 = AgentPort b 1 \<and> (\<forall>i. i + 1 < length (b # as) \<longrightarrow> tgt n ((b # as) ! i) 2 = AgentPort ((b # as) ! (i + 1)) 1)"
    (is "?l \<longleftrightarrow> ?r")
  proof
    show "?l \<Longrightarrow> ?r"
      by (metis Suc_eq_plus1 Suc_less_eq length_Cons nth_Cons_0 nth_Cons_Suc zero_less_Suc)
    show "?r \<Longrightarrow> ?l"
      by (auto simp: less_Suc_eq_0_disj)
  qed
  then show ?case
    using Cons.IH by auto
qed simp

lemma spine_path: "church_spine n f x as \<Longrightarrow> app_path n x 2 as x 1"
  by (cases as) (auto simp: church_spine_def chain_path)

lemma spine_body: "church_spine n f x as \<Longrightarrow> tgt n f 2 = AgentPort x 0"
  by (simp add: church_spine_def)

lemma path_spine:
  assumes "core_inv n" "app_path n x 2 as x 1" "x \<notin> set as" "all_con n (f # x # as)"
    and "tgt n f 2 = AgentPort x 0" "tgt n f 1 \<noteq> DISCONNECTED"
  shows "church_spine n f x as"
proof (cases as)
  case Nil
  then show ?thesis
    using assms(2,4-6) neighbour(2) [OF assms(1), of 2 x x 1] by (simp add: church_spine_def all_con_def)
next
  case (Cons a bs)
  then have P: "tgt n x 2 = AgentPort a 1" "app_path n a 2 bs x 1"
    using assms(2) by simp_all
  then have "tgt n (last as) 2 = AgentPort x 1"
    "\<forall>i. i + 1 < length as \<longrightarrow> tgt n (as ! i) 2 = AgentPort (as ! (i + 1)) 1"
    unfolding chain_path by (simp_all add: Cons)
  moreover from this have "tgt n x 1 = AgentPort (last as) 2"
    using neighbour(2) [OF assms(1), of 2 "last as" x 1] by simp
  ultimately show ?thesis
    using P(1) assms(3-6) Cons by (simp add: church_spine_def all_con_def)
qed

section \<open>The free end\<close>

text \<open>At most one port of the net is free.\<close>

definition one_free :: "net \<Rightarrow> bool" where
  "one_free n \<longleftrightarrow>
     (\<forall>i p j q. valid_port n i p \<longrightarrow> \<not> is_agent (tgt n i p) \<longrightarrow> valid_port n j q \<longrightarrow> \<not> is_agent (tgt n j q) \<longrightarrow> (i, p) = (j, q))"

text \<open>Where the wire that ends at a port of the reduct came from: the port itself, or an auxiliary port of the pair.\<close>

lemma beta_source:
  assumes "beta_reduct n a b m" "valid_port m j q" "\<not> is_agent (tgt m j q)" "is_agent (tgt n j q)"
  obtains c d p p' where "{c, d} = {a, b}" "tgt n j q = AgentPort c p" "p = 1 \<and> p' = 2 \<or> p = 2 \<and> p' = 1"
    "valid_port n c p'" "valid_port n d p'"
    "\<not> is_agent (tgt n d p') \<or> tgt n d p' = AgentPort d p \<and> \<not> is_agent (tgt n c p')"
proof -
  note D = beta_reductD [OF assms(1)]
  have j: "j \<noteq> a" "j \<noteq> b" and v: "valid_port n j q"
    using assms(2) beta_valid [OF assms(1)] by auto
  obtain c p where t: "tgt n j q = AgentPort c p"
    using assms(4) by (cases "tgt n j q") auto
  have c: "c = a \<or> c = b"
    using D(7) [OF assms(2)] assms(3) t by (auto simp: reroute_def split: if_splits)
  define d where "d = (if c = a then b else a)"
  have cd: "{c, d} = {a, b}" "tgt n c 0 = AgentPort d 0" "sym_at n c = Some Con" "sym_at n d = Some Con"
    using c D(8,9) active_pairD(3-5) [OF D(1,2)] by (auto simp: d_def)
  note N = neighbour [OF D(1) valid_port_less [OF v] t]
  have p: "p = 1 \<or> p = 2"
    using N(2,3) cd(2) j c by (auto simp: less3 d_def split: if_splits)
  have "tgt m j q = (if tgt n d (3 - p) = AgentPort d p then tgt n c (3 - p) else tgt n d (3 - p))"
    using D(7) [OF assms(2)] t c p active_pairD(3) [OF D(1,2)] by (auto simp: reroute_def anni_exit_def opposite_def d_def)
  then show thesis
    using that [OF cd(1) t, of "3 - p"] p cd(3,4) assms(3) by (auto simp: valid_port_def split: if_splits)
qed

lemma one_free_beta:
  assumes "beta_reduct n a b m" "one_free n"
  shows "one_free m"
proof -
  note D = beta_reductD [OF assms(1)]
  have free: "(i, p) = (j, q)" if "valid_port n i p" "\<not> is_agent (tgt n i p)" "valid_port n j q" "\<not> is_agent (tgt n j q)" for i p j q
    using assms(2) that unfolding one_free_def by blast
  have out: "j \<noteq> a \<and> j \<noteq> b \<and> valid_port n j q \<and> q < 3" if "valid_port m j q" for j q
    using that beta_valid [OF assms(1)] valid_port_less by blast
  have "(i, p) = (j, q)"
    if ip: "valid_port m i p" "\<not> is_agent (tgt m i p)" and jq: "valid_port m j q" "\<not> is_agent (tgt m j q)" for i p j q
  proof (cases "is_agent (tgt n i p) \<and> is_agent (tgt n j q)")
    case True
    obtain c d r r' where 1: "{c, d} = {a, b}" "tgt n i p = AgentPort c r" "r = 1 \<and> r' = 2 \<or> r = 2 \<and> r' = 1"
      "valid_port n c r'" "valid_port n d r'" "\<not> is_agent (tgt n d r') \<or> tgt n d r' = AgentPort d r \<and> \<not> is_agent (tgt n c r')"
      using beta_source [OF assms(1) ip] True by blast
    obtain c' d' s s' where 2: "{c', d'} = {a, b}" "tgt n j q = AgentPort c' s" "s = 1 \<and> s' = 2 \<or> s = 2 \<and> s' = 1"
      "valid_port n c' s'" "valid_port n d' s'" "\<not> is_agent (tgt n d' s') \<or> tgt n d' s' = AgentPort d' s \<and> \<not> is_agent (tgt n c' s')"
      using beta_source [OF assms(1) jq] True by blast
    have ends: "tgt n c r = AgentPort i p" "tgt n c' s = AgentPort j q"
      using neighbour(2) [OF D(1) _ 1(2)] neighbour(2) [OF D(1) _ 2(2)] out [OF ip(1)] out [OF jq(1)] by auto
    have rs: "r = s" "r' = s'"
      using free 1(3-6) 2(3-6) by blast+
    have loop: "tgt n k s = AgentPort k s'" if "tgt n k s' = AgentPort k s" for k
      using neighbour(2) [OF D(1) _ that] 2(3) by auto
    have "c = c'"
    proof (rule ccontr)
      assume "c \<noteq> c'"
      then have "d = c'" "d' = c" "d \<noteq> d'"
        using 1(1) 2(1) by (auto simp: doubleton_eq_iff)
      then show False
        using 1(4-6) 2(4-6) free loop ends rs out [OF ip(1)] out [OF jq(1)] 1(1) by (metis doubleton_eq_iff port_ref.inject(1) prod.inject)
    qed
    then show ?thesis
      using ends rs by simp
  next
    case False
    have inside: "is_agent (tgt n k r)" 
      if kr: "valid_port m k r" "\<not> is_agent (tgt n k r)" and lt: "valid_port m l t" "\<not> is_agent (tgt m l t)" "is_agent (tgt n l t)" for k r l t
    proof -
      obtain c d u u' where "{c, d} = {a, b}" "valid_port n c u'" "valid_port n d u'" "\<not> is_agent (tgt n d u') \<or> \<not> is_agent (tgt n c u')"
        using beta_source [OF assms(1) lt] by metis
      then show ?thesis
        using free [of k r] kr out [OF kr(1)] by blast
    qed
    then show ?thesis
      using False ip jq out [OF ip(1)] out [OF jq(1)] free [of i p j q] by blast
  qed
  then show ?thesis
    unfolding one_free_def by blast
qed

section \<open>Finding the root\<close>

lemma root_candidate_found:
  assumes "\<forall>ag \<in> set ags. a_symbol ag = Con \<longrightarrow> a_id ag \<noteq> f \<longrightarrow> is_agent (tgt n (a_id ag) 0)"
    and "\<exists>ag \<in> set ags. a_symbol ag = Con \<and> a_id ag = f" "tgt n f 0 = FreePort 0"
  shows "root_candidate n ags None = Some (Some f)"
  using assms
proof (induction ags)
  case (Cons ag ags)
  show ?case
  proof (cases "a_symbol ag = Con \<and> a_id ag = f")
    case True
    then show ?thesis
      using Cons.prems(3) by (simp add: tgt_def)
  next
    case False
    then have "root_candidate n ags None = Some (Some f)"
      using Cons.prems by (intro Cons.IH) auto
    moreover have "a_symbol ag = Con \<Longrightarrow> is_agent (tgt n (a_id ag) 0)"
      using False Cons.prems(1) by simp
    ultimately show ?thesis
      by (cases "tgt n (a_id ag) 0") (auto simp flip: tgt_def)
  qed
qed simp

lemma discover_root_found:
  assumes "core_inv n" "one_free n" "sym_at n f = Some Con" "tgt n f 0 = FreePort 0"
  shows "discover_root n = (True, (disconnect (AgentPort f 0) n)\<lparr>root := Some (AgentPort f 0)\<rparr>)"
proof -
  have live: "ag \<in> set (live_agents n) \<Longrightarrow> sym_at n (a_id ag) = Some (a_symbol ag)" for ag
    using live_agents_iff [OF core_invD(1) [OF assms(1)], of ag] by (simp add: sym_at_def)
  obtain ag where ag: "get_agent n f = Some ag" "a_symbol ag = Con"
    using assms(3) by (auto simp: sym_at_def)
  then have "a_id ag = f"
    using core_invD(1) [OF assms(1)] by (simp add: slots_ok_def)
  then have 1: "\<exists>ag \<in> set (live_agents n). a_symbol ag = Con \<and> a_id ag = f"
    using ag live_agents_iff [OF core_invD(1) [OF assms(1)], of ag] by auto
  have "is_agent (tgt n (a_id ag) 0)" if "ag \<in> set (live_agents n)" "a_symbol ag = Con" "a_id ag \<noteq> f" for ag
  proof (rule ccontr)
    assume "\<not> is_agent (tgt n (a_id ag) 0)"
    moreover have "valid_port n (a_id ag) 0" "valid_port n f 0" "\<not> is_agent (tgt n f 0)"
      using live [OF that(1)] that(2) assms(3,4) by (simp_all add: valid_port_def)
    ultimately show False
      using assms(2) that(3) unfolding one_free_def by blast
  qed
  then have "root_candidate n (live_agents n) None = Some (Some f)"
    using 1 assms(4) by (intro root_candidate_found) auto
  then show ?thesis
    by (simp add: discover_root_def)
qed

lemma two_betas_run:
  assumes "two_betas n a b c d n1 m"
  shows "reduce_all_from st n = reduce_all_from (record_rule Anni ConCon (record_rule Anni ConCon st)) m"
  using assms by (subst reduce_all_from.simps, subst reduce_all_from.simps) (simp add: two_betas_def)

section \<open>The net of an addition\<close>

text \<open>The net of \<open>build_add\<close>, with the names the builder gives to its agents.\<close>

lemma build_add_net:
  assumes "a \<le> MAX_CHURCH" "b \<le> MAX_CHURCH"
  obtains n M N F X mf nf nx al D p1 p2 f x A g y B where "build_add a b = Some n" "length A = a" "length B = b"
    "core_inv n" "one_free n" "redex_queue n = [(p1, M)]" "all_con n ([M, N, p1, p2, F, X, mf, nf, nx, al, f, x, g, y] @ A @ B)"
    "distinct ([M, N, p1, p2, F, X, mf, nf, nx, al, D, f, x, g, y] @ A @ B)"
    "tgt n p1 0 = AgentPort M 0" "tgt n p1 1 = AgentPort p2 0" "tgt n p1 2 = AgentPort f 0" "tgt n p2 1 = FreePort 0"
    "tgt n p2 2 = AgentPort g 0" "tgt n M 1 = AgentPort mf 0" "tgt n M 2 = AgentPort N 0" "tgt n N 1 = AgentPort nf 0"
    "tgt n N 2 = AgentPort F 0" "adder n F X mf nf nx al D" "operand n f x A" "operand n g y B"
proof -
  obtain f x rest n1 g y rest' n2 where 1: "encode_church_into a net_new = Some (f, n1)" "encode_church_into b n1 = Some (g, n2)"
    "church_ids a f x rest" "church_ids b g y rest'"
    "built net_new ((f # x # rest) @ g # y # rest') (church_syms a @ church_syms b) (numeral_wires a f x rest @ numeral_wires b g y rest')
       n2 [AgentPort f 0, AgentPort g 0]"
    "next_id net_new + length (church_syms a @ church_syms b) + 11 \<le> u32_MAX"
    by (rule operands_built [OF assms])
  let ?ss = "[Con, Con, Con, Con, Con, Con, Con, Con, Dup]"
  have room: "next_id net_new + length (church_syms a @ church_syms b) + (length ?ss + 2) \<le> u32_MAX"
    using 1(6) by simp
  have L: "is_agent (AgentPort f 0)" "is_agent (AgentPort g 0)" "mset [AgentPort f 0, AgentPort g 0] = mset (AgentPort f 0 # AgentPort g 0 # [])"
    by simp_all
  obtain js r p1 m where 2: "combine ?ss add_wires (AgentPort f 0) (AgentPort g 0) n2 = Some (r, m)" "length js = length ?ss"
    "built net_new (((f # x # rest) @ g # y # rest') @ js @ [p1, r]) ((church_syms a @ church_syms b) @ ?ss @ [Con, Con])
       ((numeral_wires a f x rest @ numeral_wires b g y rest') @ add_wires js @
         [(AgentPort p1 0, AgentPort (js ! 0) 0), (AgentPort p1 2, AgentPort f 0), (AgentPort p1 1, AgentPort r 0), (AgentPort r 2, AgentPort g 0)])
       m (AgentPort r 1 # [])"
    (is "built _ ?ids ?syms ?ws _ _")
    by (rule combine_built [OF closes_add 1(5) L room])
  obtain M N F X mf nf nx al D where js: "js = [M, N, F, X, mf, nf, nx, al, D]"
    using 2(2) by (auto simp: length_Suc_conv)
  define A B where AB: "A = (if a = 0 then [] else take a rest)" "B = (if b = 0 then [] else take b rest')"
  let ?n = "output_net (AgentPort r 1) m"
  note V = output_view [OF 2(3)] and G = grownD [OF builtD(1) [OF 2(3)]] and O = built_output [OF 2(3)]
  have enc: "build_add a b = Some ?n"
    using 1(1,2) 2(1) by (simp add: build_add_def build_binary_def wire_add_combine output_net_def)
  have free: "one_free ?n"
    using O unfolding one_output_def one_free_def by blast
  have len: "length (f # x # rest) = length (church_syms a)" "length (g # y # rest') = length (church_syms b)"
    using 1(3,4) by (simp_all add: church_ids_def church_syms_def mult_2)
  have zips: "set (zip ?ids ?syms) = set (zip (f # x # rest) (church_syms a)) \<union> set (zip (g # y # rest') (church_syms b)) \<union>
      set (zip (js @ [p1, r]) (?ss @ [Con, Con]))"
    using len 2(2) by (simp add: zip_append Un_assoc del: zip_Cons_Cons append_Cons)
  have spines: "church_spine m f x A" "church_spine m g y B"
    using zips unfolding AB by (intro church_grown_spine [OF 1(3) builtD(1) [OF 2(3)]] church_grown_spine [OF 1(4) builtD(1) [OF 2(3)]];
        auto simp: numeral_wires_def)+
  have sub: "set A \<subseteq> set rest" "distinct A" "length A = a" "set B \<subseteq> set rest'" "distinct B" "length B = b"
    using 1(3,4) by (auto simp: AB church_ids_def dest: in_set_takeD)
  have dist: "distinct ([M, N, p1, r, F, X, mf, nf, nx, al, D, f, x, g, y] @ A @ B)"
    using G(3) sub(1,2,4,5) unfolding js by auto
  have syms: "sym_at m i = Some Con" if "i \<in> set ([M, N, p1, r, F, X, mf, nf, nx, al, f, x, g, y] @ A @ B)" for i
  proof -
    have "i \<in> set A \<or> i \<in> set B \<or> i \<in> {f, x, g, y} \<or> (i, Con) \<in> set (zip (js @ [p1, r]) (?ss @ [Con, Con]))"
      using that by (auto simp: js)
    then show ?thesis
      using spines grown_sym_zip [OF builtD(1) [OF 2(3)]] zips by (auto simp: church_spine_def)
  qed
  have "concat (map (\<lambda>(u, v). new_redexes u v) (numeral_wires a f x rest)) = []" "concat (map (\<lambda>(u, v). new_redexes u v) (numeral_wires b g y rest')) = []"
    using church_no_redex 1(3,4) unfolding numeral_wires_def by blast+
  then have queue: "redex_queue m = [(p1, M)]"
    using G(8) core_inv_new(4) by (simp add: js add_wires_def)
  have T: "tgt ?n i p = AgentPort j q"
    if "(AgentPort i p, AgentPort j q) \<in> set ?ws \<or> (AgentPort j q, AgentPort i p) \<in> set ?ws" "(i, p) \<noteq> (r, 1)" "p < 3" for i p j q
  proof -
    have "tgt m i p = AgentPort j q"
      using that(1) grown_tgt(1) [OF builtD(1) [OF 2(3)], of i p j q] grown_tgt(2) [OF builtD(1) [OF 2(3)], of j q i p] by blast
    then show ?thesis
      unfolding V(6) [OF that(3)] if_not_P [OF that(2)] .
  qed
  have two: "tgt ?n j 2 = tgt m j 2" for j
    using V(6) [of 2 j] by simp
  have "operand ?n f x A" "operand ?n g y B"
    using spines [THEN spine_path] spine_body [OF spines(1)] spine_body [OF spines(2)] unfolding operand_def path_cong [OF two] two by blast+
  note ops = this
  have nr: "p1 \<noteq> r" "M \<noteq> r" "N \<noteq> r" "F \<noteq> r" "X \<noteq> r" "mf \<noteq> r" "nf \<noteq> r" "nx \<noteq> r" "al \<noteq> r" "D \<noteq> r"
    using dist by auto
  have inner: "tgt ?n i p = AgentPort j q" 
    if "(AgentPort i p, AgentPort j q) \<in> set (add_wires js) \<or> (AgentPort j q, AgentPort i p) \<in> set (add_wires js)" for i p j q
  proof (rule T)
    show "(AgentPort i p, AgentPort j q) \<in> set ?ws \<or> (AgentPort j q, AgentPort i p) \<in> set ?ws"
      using that by auto
    show "(i, p) \<noteq> (r, 1)" "p < 3"
      using that nr by (auto simp: js add_wires_def)
  qed
  have "adder ?n F X mf nf nx al D"
    unfolding adder_def by (intro conjI; rule inner; simp add: js add_wires_def)
  moreover have "tgt ?n M 1 = AgentPort mf 0" "tgt ?n M 2 = AgentPort N 0" "tgt ?n N 1 = AgentPort nf 0" "tgt ?n N 2 = AgentPort F 0"
    by (rule inner; simp add: js add_wires_def)+
  moreover have "tgt ?n p1 0 = AgentPort M 0" "tgt ?n p1 1 = AgentPort r 0" "tgt ?n p1 2 = AgentPort f 0" "tgt ?n r 2 = AgentPort g 0"
    by (rule T; simp add: js nr)+
  moreover have "tgt ?n r 1 = FreePort 0" "all_con ?n ([M, N, p1, r, F, X, mf, nf, nx, al, f, x, g, y] @ A @ B)"
    using V(6) [of 1 r] syms unfolding all_con_def V(2) by simp_all
  ultimately show thesis
    using ops that [OF enc sub(3,6) V(3) free, of p1 M N r F X mf nf nx al f x g y D] dist queue V(4) by simp
qed

section \<open>Addition\<close>

lemma two_betasD:
  assumes "two_betas n a b c d n1 m" "one_free n" "all_con n js" "set js' \<subseteq> set js - {a, b, c, d}"
  shows "core_inv m" "one_free m" "all_con m js'" "root m = root n"
    "reduce_all_from st n = reduce_all_from (record_rule Anni ConCon (record_rule Anni ConCon st)) m"
proof -
  have B: "beta_reduct n a b n1" "beta_reduct n1 c d m"
    using assms(1) by (simp_all add: two_betas_def)
  show "core_inv m" "one_free m" "root m = root n"
    using B one_free_beta assms(2) beta_reductD(4,5) by metis+
  show "all_con m js'"
    using assms(3,4) beta_reductD(6) [OF B(1)] beta_reductD(6) [OF B(2)] by (auto simp: all_con_def)
  show "reduce_all_from st n = reduce_all_from (record_rule Anni ConCon (record_rule Anni ConCon st)) m"
    by (rule two_betas_run [OF assms(1)])
qed

lemma spine_congI:
  assumes "church_spine n f x as" "sym_at n' = sym_at n" "\<And>i p. p = 1 \<or> p = 2 \<Longrightarrow> tgt n' i p = tgt n i p"
  shows "church_spine n' f x as"
  using assms(1) unfolding church_spine_def assms(2) using assms(3) by (simp split: if_splits)

lemma add_normal_form:
  assumes "a \<le> MAX_CHURCH" "b \<le> MAX_CHURCH"
  defines "rec \<equiv> record_rule Anni ConCon"
  obtains n m F X as where "build_add a b = Some n"
    "reduce_all n = Some (Some (rec (rec (rec (rec (rec (rec stats_zero))))), m))" "core_inv m" "one_free m" "redex_queue m = []"
    "church_spine m F X as" "length as = a + b" "tgt m F 0 = FreePort 0"
proof -
  obtain n M N F X mf nf nx al D p1 p2 f x A g y B where S: "build_add a b = Some n" "length A = a" "length B = b"
    "core_inv n" "one_free n" "redex_queue n = [(p1, M)]" "all_con n ([M, N, p1, p2, F, X, mf, nf, nx, al, f, x, g, y] @ A @ B)"
    "distinct ([M, N, p1, p2, F, X, mf, nf, nx, al, D, f, x, g, y] @ A @ B)"
    "tgt n p1 0 = AgentPort M 0" "tgt n p1 1 = AgentPort p2 0" "tgt n p1 2 = AgentPort f 0" "tgt n p2 1 = FreePort 0"
    "tgt n p2 2 = AgentPort g 0" "tgt n M 1 = AgentPort mf 0" "tgt n M 2 = AgentPort N 0" "tgt n N 1 = AgentPort nf 0"
    "tgt n N 2 = AgentPort F 0" "adder n F X mf nf nx al D" "operand n f x A" "operand n g y B"
    by (rule build_add_net [OF assms(1,2)])
  have con: "all_con n [M, N, p1, p2]"
    using S(7) by (simp add: all_con_def)
  obtain n1 m2 where 1: "two_betas n p1 M p2 N n1 m2" "redex_queue m2 = [(f, mf), (g, nf)]" "adder m2 F X mf nf nx al D"
    "operand m2 f x A" "operand m2 g y B" "tgt m2 F 0 = FreePort 0" "tgt m2 f 0 = AgentPort mf 0" "tgt m2 g 0 = AgentPort nf 0"
    by (rule apply_stage [OF S(4,6) con S(8-20)])
  have js2: "set ([f, mf, g, nf, F, X, nx, al, x, y] @ A @ B) \<subseteq> set ([M, N, p1, p2, F, X, mf, nf, nx, al, f, x, g, y] @ A @ B) - {p1, M, p2, N}"
    using S(8) by auto
  note D2 = two_betasD [OF 1(1) S(5,7) js2]
  have v2: "valid_port m2 F 0" and con2: "all_con m2 [f, mf, g, nf]" and dist2: "distinct ([F, X, mf, nf, nx, al, D, f, x, g, y] @ A @ B)"
    using D2(3) S(8) by (simp_all add: all_con_def valid_port_def)
  obtain n3 m4 where 2: "two_betas m2 f mf g nf n3 m4" "redex_queue m4 = [(x, al), (y, nx)]"
    "tgt m4 F 0 = FreePort 0" "tgt m4 F 1 = AgentPort D 0" "tgt m4 F 2 = AgentPort X 0"
    "tgt m4 X 1 = AgentPort nx 2" "tgt m4 X 2 = AgentPort al 1" "tgt m4 nx 1 = AgentPort al 2"
    "tgt m4 x 0 = AgentPort al 0" "tgt m4 y 0 = AgentPort nx 0" "app_path m4 x 2 A x 1" "app_path m4 y 2 B y 1"
    by (rule share_stage [OF D2(1) 1(2) con2 dist2 1(6) v2 1(7,8,3-5)])
  have js4: "set ([F, X, nx, al, x, y] @ A @ B) \<subseteq> set ([f, mf, g, nf, F, X, nx, al, x, y] @ A @ B) - {f, mf, g, nf}"
    using dist2 by auto
  note D4 = two_betasD [OF 2(1) D2(2,3) js4]
  have v4: "valid_port m4 F 0" and con4: "all_con m4 [x, al, y, nx]" and dist4: "distinct ([F, X, nx, al, D, x, y] @ A @ B)"
    using D4(3) dist2 by (simp_all add: all_con_def valid_port_def)
  obtain n5 m6 where 3: "two_betas m4 x al y nx n5 m6" "redex_queue m6 = []" "tgt m6 F 0 = FreePort 0" "tgt m6 F 1 = AgentPort D 0"
    "tgt m6 F 2 = AgentPort X 0" "app_path m6 X 2 (A @ B) X 1"
    by (rule join_stage [OF D4(1) 2(2) con4 dist4 2(3) v4 2(4-12)])
  have js6: "set ([F, X] @ A @ B) \<subseteq> set ([F, X, nx, al, x, y] @ A @ B) - {x, al, y, nx}"
    using dist4 by auto
  note D6 = two_betasD [OF 3(1) D4(2,3) js6]
  have spine: "church_spine m6 F X (A @ B)"
    using D6(3) dist4 3(4,5) by (intro path_spine [OF D6(1) 3(6)]) auto
  have run: "reduce_all n = Some (Some (rec (rec (rec (rec (rec (rec stats_zero))))), m6))"
  proof -
    have "reduce_step m6 = Some (NormalForm, m6)"
      using 3(2) by (subst reduce_step.simps) simp
    then show ?thesis
      unfolding reduce_all_def rec_def D2(5) D4(5) D6(5) by (subst reduce_all_from.simps) simp
  qed
  show thesis
    using that [OF S(1) run D6(1,2) 3(2) spine _ 3(3)] S(2,3) by simp
qed

text \<open>
  Addition is correct for all operands (C18).  The net built for two numbers within the limit is reduced
  in exactly six interactions, all of them between constructors, and the decoder reads the sum from the
  result.
\<close>

theorem add_correct:
  assumes "a \<le> MAX_CHURCH" "b \<le> MAX_CHURCH"
  shows "\<exists>n st m n'. build_add a b = Some n \<and> reduce_all n = Some (Some (st, m)) \<and>
    total_interactions st = 6 \<and> interactions_by_rule st = [6, 0, 0, 0, 0, 0] \<and>
    compute_arithmetic (build_add a b) = Some (n', Some (a + b))"
proof -
  let ?rec = "record_rule Anni ConCon"
  let ?st = "?rec (?rec (?rec (?rec (?rec (?rec stats_zero)))))"
  obtain n m F X as where R: "build_add a b = Some n" "reduce_all n = Some (Some (?st, m))" "core_inv m" "one_free m"
    "redex_queue m = []" "church_spine m F X as" "length as = a + b" "tgt m F 0 = FreePort 0"
    by (rule add_normal_form [OF assms])
  let ?m = "(disconnect (AgentPort F 0) m)\<lparr>root := Some (AgentPort F 0)\<rparr>"
  have disc: "discover_root m = (True, ?m)"
    using R(6,8) by (intro discover_root_found [OF R(3,4)]) (simp_all add: church_spine_def)
  have "decode_nat ?m = Some (Some (a + b))"
  proof (rule decode_church)
    have "tgt (disconnect (AgentPort F 0) m) i p = tgt m i p" if "p = 1 \<or> p = 2" for i p
      using tgt_disconnect [OF symmetric_wires_slot [OF core_invD(3) [OF R(3)]], of 0 p F i] R(8) that by auto
    then have "church_spine ?m F X as"
      by (intro spine_congI [OF R(6)]) simp_all
    then show "spine_at ?m F (a + b)"
      unfolding spine_at_def using R(7) by blast
  qed (simp_all add: R(5))
  then have "compute_arithmetic (build_add a b) = Some (?m, Some (a + b))"
    using R(1,2) disc by (simp add: compute_arithmetic_def decode_either_def)
  moreover have "total_interactions ?st = 6" "interactions_by_rule ?st = [6, 0, 0, 0, 0, 0]"
    by (simp_all add: record_rule_def stats_zero_def Let_def numeral_eq_Suc)
  ultimately show ?thesis
    using R(1,2) by blast
qed

theorem add_correct_witness:
  "\<exists>n st m n'. build_add 2 3 = Some n \<and> reduce_all n = Some (Some (st, m)) \<and>
    total_interactions st = 6 \<and> interactions_by_rule st = [6, 0, 0, 0, 0, 0] \<and>
    compute_arithmetic (build_add 2 3) = Some (n', Some 5)"
  using add_correct [of 2 3] by (simp add: MAX_CHURCH_def)

end
