(* ===== verification/Streaming.thy ===== *)
theory Streaming
  imports Split
begin

text \<open>
  The streaming partitioner (\<open>partition/streaming.rs\<close>): a net arrives as a sequence of batches, a
  streaming strategy gives every agent a worker as it arrives, and one accumulator per worker collects
  the agents and wires of its partition.  A wire between two workers becomes a border with a fresh
  identifier; a wire to an agent that has not arrived yet waits in a pending store.

  Counters of 64 bits that grow by one per agent or batch are natural numbers.  The iteration orders of
  the hash maps, and the text of an error (rendered by a derived \<open>Display\<close>), are fields of
  \<open>stream_env\<close>.
\<close>

section \<open>Data\<close>

datatype connection_directive =
    Resolved "agent_id \<times> port_id" "agent_id \<times> port_id"
  | Pending "agent_id \<times> port_id" agent_id port_id
  | FreePortInterface "agent_id \<times> port_id" nat

record agent_batch =
  ab_agents :: "(agent_id \<times> symbol) list"
  ab_connections :: "connection_directive list"

definition agent_batch_empty :: agent_batch where
  "agent_batch_empty = \<lparr>ab_agents = [], ab_connections = []\<rparr>"

record streaming_stats =
  sst_total_agents :: nat
  sst_per_worker_counts :: "nat list"
  sst_border_wire_count :: nat
  sst_chunks_processed :: nat

record chunked_result =
  cr_partitions :: "partition list"
  cr_borders :: "nat \<rightharpoonup> port_ref \<times> port_ref"
  cr_stats :: streaming_stats

definition plan_of_chunked :: "chunked_result \<Rightarrow> partition_plan" where
  "plan_of_chunked r = \<lparr>pl_partitions = cr_partitions r, pl_borders = cr_borders r, pl_next_border_id = 0\<rparr>"

text \<open>The conversion the other way; the length of the border map is the size of its domain.\<close>

definition chunked_of_plan :: "partition_plan \<Rightarrow> chunked_result" where
  "chunked_of_plan plan =
     (let counts = map (\<lambda>p. count_live_agents (p_subnet p)) (pl_partitions plan)
      in \<lparr>cr_partitions = pl_partitions plan, cr_borders = pl_borders plan,
          cr_stats = \<lparr>sst_total_agents = sum_list counts, sst_per_worker_counts = counts,
                      sst_border_wire_count = card (dom (pl_borders plan)), sst_chunks_processed = 1\<rparr>\<rparr>)"

section \<open>Round robin\<close>

record round_robin =
  rr_counter :: nat
  rr_per_worker_counts :: "nat list"

definition rr_try_new :: "nat \<Rightarrow> partition_error + round_robin" where
  "rr_try_new num_workers =
     (if num_workers = 0 then Inl InvalidNumWorkers
      else Inr \<lparr>rr_counter = 0, rr_per_worker_counts = replicate num_workers 0\<rparr>)"

definition rr_new :: "nat \<Rightarrow> round_robin option" where
  "rr_new num_workers = (case rr_try_new num_workers of Inl e \<Rightarrow> None | Inr rr \<Rightarrow> Some rr)"

fun rr_assign :: "nat \<Rightarrow> (agent_id \<times> symbol) list \<Rightarrow> round_robin \<Rightarrow> round_robin \<times> (agent_id \<times> worker_id) list" where
  "rr_assign num_workers [] rr = (rr, [])"
| "rr_assign num_workers ((i, s) # ags) rr =
     (let worker = rr_counter rr mod num_workers;
          rr1 = rr\<lparr>rr_counter := rr_counter rr + 1,
                   rr_per_worker_counts :=
                     (rr_per_worker_counts rr)[worker := rr_per_worker_counts rr ! worker + 1]\<rparr>;
          (rr2, rest) = rr_assign num_workers ags rr1
      in (rr2, (i, worker) # rest))"

definition rr_allocate_batch ::
  "round_robin \<Rightarrow> agent_batch \<Rightarrow> nat \<Rightarrow> round_robin \<times> (agent_id \<times> worker_id) list" where
  "rr_allocate_batch rr batch num_workers =
     (if num_workers = 0 \<or> num_workers > length (rr_per_worker_counts rr) then (rr, [])
      else rr_assign num_workers (ab_agents batch) rr)"

definition rr_finalize :: "round_robin \<Rightarrow> streaming_stats" where
  "rr_finalize rr =
     \<lparr>sst_total_agents = rr_counter rr, sst_per_worker_counts = rr_per_worker_counts rr,
      sst_border_wire_count = 0, sst_chunks_processed = 0\<rparr>"

section \<open>Fennel\<close>

text \<open>
  The greedy strategy scores every worker in floating-point arithmetic.  The score, \<open>neighbors -
  alpha * degree\<close> in \<open>f64\<close>, is the argument \<open>score\<close>, with values in a linear order as given by
  \<open>f64::total_cmp\<close>; \<open>finite_alpha\<close> is \<open>alpha.is_finite()\<close> and \<open>alpha_text\<close> its text.
\<close>

record fennel =
  fn_assignment_cache :: "agent_id \<rightharpoonup> worker_id"
  fn_per_worker_counts :: "nat list"

definition fennel_try_new :: "nat \<Rightarrow> bool \<Rightarrow> string \<Rightarrow> partition_error + fennel" where
  "fennel_try_new num_workers finite_alpha alpha_text =
     (if num_workers = 0 then Inl InvalidNumWorkers
      else if \<not> finite_alpha then Inl (InvalidStrategyParameter ''alpha'' alpha_text)
      else Inr \<lparr>fn_assignment_cache = Map.empty, fn_per_worker_counts = replicate num_workers 0\<rparr>)"

definition fennel_new :: "nat \<Rightarrow> bool \<Rightarrow> string \<Rightarrow> fennel option" where
  "fennel_new num_workers finite_alpha alpha_text =
     (case fennel_try_new num_workers finite_alpha alpha_text of Inl e \<Rightarrow> None | Inr f \<Rightarrow> Some f)"

text \<open>The effect of one directive on the neighbour counts of an agent; an index out of range panics.\<close>

definition fennel_count ::
  "agent_id set \<Rightarrow> (agent_id \<rightharpoonup> worker_id) \<Rightarrow> agent_id \<Rightarrow> connection_directive \<Rightarrow> nat list \<Rightarrow> nat list option" where
  "fennel_count batch_agents cache i d counts =
     (case d of
        Resolved (src_id, _) (tgt_id, _) \<Rightarrow>
          (case (if src_id = i then Some tgt_id else if tgt_id = i then Some src_id else None) of
             None \<Rightarrow> Some counts
           | Some other \<Rightarrow>
               if other \<in> batch_agents then Some counts
               else (case cache other of
                       None \<Rightarrow> Some counts
                     | Some w \<Rightarrow> if w < length counts then Some (counts[w := counts ! w + 1]) else None))
      | _ \<Rightarrow> Some counts)"

text \<open>The best worker so far, if one was seen, with its score.\<close>

definition fennel_pick ::
  "(nat \<Rightarrow> nat \<Rightarrow> 's :: linorder) \<Rightarrow> nat list \<Rightarrow> nat list \<Rightarrow> worker_id \<Rightarrow> (worker_id \<times> 's) option \<Rightarrow> (worker_id \<times> 's) option"
  where
  "fennel_pick score neighbors degrees w best =
     (let sc = score (neighbors ! w) (degrees ! w)
      in case best of
           None \<Rightarrow> Some (w, sc)
         | Some (best_worker, best_score) \<Rightarrow>
             if sc > best_score then Some (w, sc)
             else if sc = best_score then Some (if w < best_worker then w else best_worker, best_score)
             else Some (best_worker, best_score))"

definition fennel_best :: "(nat \<Rightarrow> nat \<Rightarrow> 's :: linorder) \<Rightarrow> nat list \<Rightarrow> nat list \<Rightarrow> nat \<Rightarrow> worker_id" where
  "fennel_best score neighbors degrees num_workers =
     (case fold (fennel_pick score neighbors degrees) [0..<num_workers] None of None \<Rightarrow> 0 | Some (w, _) \<Rightarrow> w)"

fun fennel_assign ::
  "(nat \<Rightarrow> nat \<Rightarrow> 's :: linorder) \<Rightarrow> agent_batch \<Rightarrow> nat \<Rightarrow> (agent_id \<times> symbol) list \<Rightarrow> fennel \<Rightarrow>
   (fennel \<times> (agent_id \<times> worker_id) list) option" where
  "fennel_assign score batch num_workers [] f = Some (f, [])"
| "fennel_assign score batch num_workers ((i, s) # ags) f = do {
     neighbors \<leftarrow> ofold (fennel_count (fst ` set (ab_agents batch)) (fn_assignment_cache f) i)
                    (ab_connections batch) (replicate num_workers 0);
     let best = fennel_best score neighbors (fn_per_worker_counts f) num_workers;
     let f1 = f\<lparr>fn_assignment_cache := (fn_assignment_cache f)(i \<mapsto> best),
                fn_per_worker_counts :=
                  (fn_per_worker_counts f)[best := fn_per_worker_counts f ! best + 1]\<rparr>;
     (f2, rest) \<leftarrow> fennel_assign score batch num_workers ags f1;
     Some (f2, (i, best) # rest)
   }"

definition fennel_allocate_batch ::
  "(nat \<Rightarrow> nat \<Rightarrow> 's :: linorder) \<Rightarrow> fennel \<Rightarrow> agent_batch \<Rightarrow> nat \<Rightarrow>
   (fennel \<times> (agent_id \<times> worker_id) list) option" where
  "fennel_allocate_batch score f batch num_workers =
     (if num_workers = 0 \<or> num_workers > length (fn_per_worker_counts f) then Some (f, [])
      else fennel_assign score batch num_workers (ab_agents batch) f)"

definition fennel_finalize :: "fennel \<Rightarrow> streaming_stats" where
  "fennel_finalize f =
     \<lparr>sst_total_agents = sum_list (fn_per_worker_counts f), sst_per_worker_counts = fn_per_worker_counts f,
      sst_border_wire_count = 0, sst_chunks_processed = 0\<rparr>"

section \<open>Accumulators\<close>

datatype accumulator_net = AccSparse (acc_sp: sparse_net) | AccDense (acc_dn: net)

record accumulator =
  ac_subnet :: accumulator_net
  ac_free_port_index :: "nat \<rightharpoonup> port_ref"
  ac_worker_id :: worker_id
  ac_min_assigned_id :: "agent_id option"
  ac_max_assigned_id :: "agent_id option"
  ac_live_agent_count :: nat

definition accumulator_new :: "worker_id \<Rightarrow> accumulator" where
  "accumulator_new w =
     \<lparr>ac_subnet = AccSparse sparse_new, ac_free_port_index = Map.empty, ac_worker_id = w,
      ac_min_assigned_id = None, ac_max_assigned_id = None, ac_live_agent_count = 0\<rparr>"

definition add_agent :: "agent_id \<Rightarrow> symbol \<Rightarrow> accumulator \<Rightarrow> accumulator" where
  "add_agent i s acc =
     acc\<lparr>ac_subnet :=
           (case ac_subnet acc of
              AccSparse sp \<Rightarrow> AccSparse (sparse_create_agent_at i s sp)
            | AccDense n \<Rightarrow>
                AccDense (n\<lparr>agents := (vec_grow (i + 1) None (agents n))[i := Some \<lparr>a_symbol = s, a_id = i\<rparr>]\<rparr>)),
         ac_min_assigned_id := Some (case ac_min_assigned_id acc of None \<Rightarrow> i | Some m \<Rightarrow> min m i),
         ac_max_assigned_id := Some (case ac_max_assigned_id acc of None \<Rightarrow> i | Some m \<Rightarrow> max m i),
         ac_live_agent_count := ac_live_agent_count acc + 1\<rparr>"

definition index_end :: "port_ref \<Rightarrow> port_ref \<Rightarrow> (nat \<rightharpoonup> port_ref) \<Rightarrow> (nat \<rightharpoonup> port_ref)" where
  "index_end b a index = (case b of FreePort bid \<Rightarrow> index(bid \<mapsto> a) | AgentPort i p \<Rightarrow> index)"

definition acc_connect :: "port_ref \<Rightarrow> port_ref \<Rightarrow> accumulator \<Rightarrow> accumulator" where
  "acc_connect a b acc =
     acc\<lparr>ac_free_port_index := index_end a b (index_end b a (ac_free_port_index acc)),
         ac_subnet :=
           (case ac_subnet acc of
              AccSparse sp \<Rightarrow> AccSparse (sparse_connect a b sp)
            | AccDense n \<Rightarrow> AccDense (connect a b n))\<rparr>"

record pending_connection =
  pd_source :: "agent_id \<times> port_id"
  pd_target_agent_id :: agent_id
  pd_target_port :: port_id
  pd_birth_chunk :: nat

record stream_env =
  se_agents :: "sparse_net \<Rightarrow> agent_id list"
  se_ports :: "sparse_net \<Rightarrow> (agent_id \<times> port_id) list"
  se_owner :: "(agent_id \<rightharpoonup> worker_id) \<Rightarrow> agent_id list"
  se_pending :: "(agent_id \<rightharpoonup> pending_connection list) \<Rightarrow> agent_id list"
  se_display :: "net_error \<Rightarrow> string"

definition finalize_dense :: "id_rng \<Rightarrow> net \<Rightarrow> net" where
  "finalize_dense r n =
     (let n1 = n\<lparr>next_id := max (next_id n) (ir_start r)\<rparr>
      in if id_range n1 = None then n1\<lparr>id_range := Some (ir_start r, ir_end r)\<rparr> else n1)"

definition acc_finalize :: "stream_env \<Rightarrow> accumulator \<Rightarrow> id_rng \<Rightarrow> nat \<Rightarrow> nat \<Rightarrow> partition_error + partition" where
  "acc_finalize env acc r border_id_start border_id_end =
     (let effective_arena_size = (case ac_max_assigned_id acc of None \<Rightarrow> 0 | Some m \<Rightarrow> m + 1)
      in if effective_arena_size > 4 * ac_live_agent_count acc
         then Inl (PartitionDenseAllocationExceedsThreshold (ac_worker_id acc) effective_arena_size
                (ac_live_agent_count acc))
         else
           case (case ac_subnet acc of
                   AccSparse sp \<Rightarrow> to_dense (se_agents env sp) (se_ports env sp) (Some (ir_start r, ir_end r)) sp
                 | AccDense n \<Rightarrow> Inr n) of
             Inl e \<Rightarrow> Inl (PartitionInvariantViolation (se_display env e))
           | Inr n \<Rightarrow>
               Inr \<lparr>p_subnet = finalize_dense r n, p_worker_id = ac_worker_id acc,
                    p_free_port_index = ac_free_port_index acc, p_id_range = r,
                    p_border_id_start = border_id_start, p_border_id_end = border_id_end\<rparr>)"

section \<open>Installing one wire\<close>

text \<open>The loop that steps over reserved identifiers; \<open>None\<close> is the panic on overflow.\<close>

function skip_reserved :: "nat set \<Rightarrow> nat \<Rightarrow> nat option" where
  "skip_reserved reserved c =
     (if c \<in> reserved then (if c \<ge> u32_MAX then None else skip_reserved reserved (c + 1)) else Some c)"
  by auto
termination
  by (relation "measure (\<lambda>(reserved, c). u32_MAX - c)") auto

declare skip_reserved.simps [simp del]

text \<open>Access to an accumulator by index; \<open>None\<close> is the panic on an index out of range.\<close>

definition acc_update :: "worker_id \<Rightarrow> (accumulator \<Rightarrow> accumulator) \<Rightarrow> accumulator list \<Rightarrow> accumulator list option" where
  "acc_update w f accs = (if w < length accs then Some (accs[w := f (accs ! w)]) else None)"

abbreviation end_port :: "agent_id \<times> port_id \<Rightarrow> port_ref" where
  "end_port e \<equiv> AgentPort (fst e) (snd e)"

definition install_connection ::
  "agent_id \<times> port_id \<Rightarrow> agent_id \<times> port_id \<Rightarrow> (agent_id \<rightharpoonup> worker_id) \<Rightarrow> nat set \<Rightarrow>
   accumulator list \<Rightarrow> (nat \<rightharpoonup> port_ref \<times> port_ref) \<Rightarrow> nat \<Rightarrow>
   (accumulator list \<times> (nat \<rightharpoonup> port_ref \<times> port_ref) \<times> nat) option" where
  "install_connection source target agent_owner reserved accs borders counter = do {
     src_worker \<leftarrow> agent_owner (fst source);
     tgt_worker \<leftarrow> agent_owner (fst target);
     if src_worker = tgt_worker then do {
       accs1 \<leftarrow> acc_update src_worker (acc_connect (end_port source) (end_port target)) accs;
       Some (accs1, borders, counter)
     } else do {
       bid \<leftarrow> skip_reserved reserved counter;
       counter1 \<leftarrow> (if bid \<ge> u32_MAX then None else Some (bid + 1));
       let canon = (if src_worker \<le> tgt_worker then (end_port source, end_port target)
                    else (end_port target, end_port source));
       let borders1 = borders(bid \<mapsto> canon);
       accs1 \<leftarrow> acc_update src_worker (acc_connect (end_port source) (FreePort bid)) accs;
       accs2 \<leftarrow> acc_update tgt_worker (acc_connect (end_port target) (FreePort bid)) accs1;
       Some (accs2, borders1, counter1)
     }
   }"

section \<open>One batch\<close>

record stream_state =
  ss_accumulators :: "accumulator list"
  ss_border_id_counter :: nat
  ss_border_id_start :: "nat option"
  ss_reserved :: "nat set"
  ss_border_map :: "nat \<rightharpoonup> port_ref \<times> port_ref"
  ss_pending :: "agent_id \<rightharpoonup> pending_connection list"
  ss_agent_owner :: "agent_id \<rightharpoonup> worker_id"
  ss_chunks_seen :: nat

definition stream_init :: "nat \<Rightarrow> stream_state" where
  "stream_init num_workers =
     \<lparr>ss_accumulators = map accumulator_new [0..<num_workers], ss_border_id_counter = 0,
      ss_border_id_start = None, ss_reserved = {}, ss_border_map = Map.empty, ss_pending = Map.empty,
      ss_agent_owner = Map.empty, ss_chunks_seen = 0\<rparr>"

definition reserve_interface :: "connection_directive \<Rightarrow> stream_state \<Rightarrow> stream_state" where
  "reserve_interface d st =
     (case d of
        FreePortInterface _ f \<Rightarrow> if f \<noteq> u32_MAX then st\<lparr>ss_reserved := insert f (ss_reserved st)\<rparr> else st
      | _ \<Rightarrow> st)"

text \<open>Step 1: the assignments of the strategy are checked and carried out.\<close>

fun assign_agents ::
  "nat \<Rightarrow> (agent_id \<rightharpoonup> symbol) \<Rightarrow> (agent_id \<times> worker_id) list \<Rightarrow> stream_state \<Rightarrow> partition_error + stream_state" where
  "assign_agents num_workers symbols [] st = Inr st"
| "assign_agents num_workers symbols ((i, w) # rest) st =
     (if w \<ge> length (ss_accumulators st) then Inl (StrategyReturnedInvalidWorker w num_workers)
      else case symbols i of
             None \<Rightarrow> Inl (StrategyReturnedUnknownAgent i)
           | Some s \<Rightarrow>
               assign_agents num_workers symbols rest
                 (st\<lparr>ss_agent_owner := (ss_agent_owner st)(i \<mapsto> w),
                     ss_accumulators := (ss_accumulators st)[w := add_agent i s (ss_accumulators st ! w)]\<rparr>))"

text \<open>A call of \<open>install_connection\<close> with the tracking of the first border identifier.\<close>

definition stream_install :: "agent_id \<times> port_id \<Rightarrow> agent_id \<times> port_id \<Rightarrow> stream_state \<Rightarrow> stream_state option" where
  "stream_install source target st = do {
     (accs, borders, counter) \<leftarrow> install_connection source target (ss_agent_owner st) (ss_reserved st)
        (ss_accumulators st) (ss_border_map st) (ss_border_id_counter st);
     Some (st\<lparr>ss_accumulators := accs, ss_border_map := borders, ss_border_id_counter := counter,
              ss_border_id_start :=
                (if ss_border_id_start st = None \<and> counter \<noteq> ss_border_id_counter st
                 then Some (counter - 1) else ss_border_id_start st)\<rparr>)
   }"

text \<open>Steps 2, 2.5 and 3.\<close>

definition install_resolved :: "connection_directive \<Rightarrow> stream_state \<Rightarrow> stream_state option" where
  "install_resolved d st = (case d of Resolved source target \<Rightarrow> stream_install source target st | _ \<Rightarrow> Some st)"

definition install_interface :: "connection_directive \<Rightarrow> stream_state \<Rightarrow> stream_state option" where
  "install_interface d st =
     (case d of
        FreePortInterface e f \<Rightarrow> do {
          w \<leftarrow> ss_agent_owner st (fst e);
          accs \<leftarrow> acc_update w (acc_connect (end_port e) (FreePort f)) (ss_accumulators st);
          Some (st\<lparr>ss_accumulators := accs\<rparr>)
        }
      | _ \<Rightarrow> Some st)"

definition buffer_pending :: "connection_directive \<Rightarrow> stream_state \<Rightarrow> stream_state" where
  "buffer_pending d st =
     (case d of
        Pending source i p \<Rightarrow>
          st\<lparr>ss_pending := (ss_pending st)(i \<mapsto>
               (case ss_pending st i of None \<Rightarrow> [] | Some pcs \<Rightarrow> pcs) @
                 [\<lparr>pd_source = source, pd_target_agent_id = i, pd_target_port = p,
                   pd_birth_chunk = ss_chunks_seen st\<rparr>])\<rparr>
      | _ \<Rightarrow> st)"

text \<open>The scan for a pending entry that has waited longer than allowed.\<close>

definition pending_expired :: "stream_env \<Rightarrow> nat \<Rightarrow> stream_state \<Rightarrow> partition_error option" where
  "pending_expired env max_pending_lifetime st =
     (if max_pending_lifetime = u32_MAX then None
      else case List.find (\<lambda>pc. ss_chunks_seen st - pd_birth_chunk pc > max_pending_lifetime)
                  (concat (List.map_filter (ss_pending st) (se_pending env (ss_pending st)))) of
             None \<Rightarrow> None
           | Some pc \<Rightarrow> Some (PendingConnectionExpired (pd_target_agent_id pc)
                 (ss_chunks_seen st - pd_birth_chunk pc) max_pending_lifetime))"

text \<open>Step 6: the entries that wait for an agent of this batch.\<close>

definition resolve_pending :: "agent_id \<Rightarrow> stream_state \<Rightarrow> stream_state option" where
  "resolve_pending i st =
     (case ss_pending st i of
        None \<Rightarrow> Some st
      | Some pcs \<Rightarrow>
          ofold (\<lambda>pc. stream_install (pd_source pc) (pd_target_agent_id pc, pd_target_port pc)) pcs
            (st\<lparr>ss_pending := (ss_pending st)(i := None)\<rparr>))"

definition symbol_lookup :: "agent_batch \<Rightarrow> (agent_id \<rightharpoonup> symbol)" where
  "symbol_lookup batch = fold (\<lambda>(i, s) m. m(i \<mapsto> s)) (ab_agents batch) Map.empty"

definition stream_wire :: "stream_env \<Rightarrow> nat \<Rightarrow> agent_batch \<Rightarrow> (agent_id \<times> worker_id) list \<Rightarrow> stream_state \<Rightarrow>
    (partition_error + stream_state) option" where
  "stream_wire env max_pending_lifetime batch assignments st = do {
     st2 \<leftarrow> ofold install_resolved (ab_connections batch) st;
     st3 \<leftarrow> ofold install_interface (ab_connections batch) st2;
     let st4 = fold buffer_pending (ab_connections batch) st3;
     (case pending_expired env max_pending_lifetime st4 of
        Some e \<Rightarrow> Some (Inl e)
      | None \<Rightarrow> map_option Inr (ofold resolve_pending (map fst assignments) st4))
   }"

definition stream_batch ::
  "stream_env \<Rightarrow> ('st \<Rightarrow> agent_batch \<Rightarrow> nat \<Rightarrow> ('st \<times> (agent_id \<times> worker_id) list) option) \<Rightarrow> nat \<Rightarrow> nat \<Rightarrow>
   agent_batch \<Rightarrow> 'st \<times> stream_state \<Rightarrow> (partition_error + 'st \<times> stream_state) option" where
  "stream_batch env allocate_batch num_workers max_pending_lifetime batch st = do {
     let st0 = fold reserve_interface (ab_connections batch)
                 ((snd st)\<lparr>ss_chunks_seen := ss_chunks_seen (snd st) + 1\<rparr>);
     (strat, assignments) \<leftarrow> allocate_batch (fst st) batch num_workers;
     (case assign_agents num_workers (symbol_lookup batch) assignments st0 of
        Inl e \<Rightarrow> Some (Inl e)
      | Inr st1 \<Rightarrow> map_option (map_sum id (Pair strat)) (stream_wire env max_pending_lifetime batch assignments st1))
   }"

fun stream_loop ::
  "stream_env \<Rightarrow> ('st \<Rightarrow> agent_batch \<Rightarrow> nat \<Rightarrow> ('st \<times> (agent_id \<times> worker_id) list) option) \<Rightarrow> nat \<Rightarrow> nat \<Rightarrow>
   agent_batch list \<Rightarrow> 'st \<times> stream_state \<Rightarrow> (partition_error + 'st \<times> stream_state) option" where
  "stream_loop env allocate_batch num_workers lifetime [] st = Some (Inr st)"
| "stream_loop env allocate_batch num_workers lifetime (batch # stream) st = do {
     r \<leftarrow> stream_batch env allocate_batch num_workers lifetime batch st;
     (case r of Inl e \<Rightarrow> Some (Inl e) | Inr st1 \<Rightarrow> stream_loop env allocate_batch num_workers lifetime stream st1)
   }"

section \<open>The end of the stream\<close>

definition global_max_id :: "accumulator list \<Rightarrow> agent_id option" where
  "global_max_id accs =
     (case List.map_filter ac_max_assigned_id accs of [] \<Rightarrow> None | m # ms \<Rightarrow> Some (fold max ms m))"

text \<open>The band of identifiers of one worker; the casts \<open>as u32\<close> truncate.\<close>

definition stream_id_range :: "nat \<Rightarrow> agent_id option \<Rightarrow> nat \<Rightarrow> id_rng" where
  "stream_id_range num_workers global_max w =
     (case global_max of
        None \<Rightarrow> \<lparr>ir_start = 0, ir_end = 0\<rparr>
      | Some g \<Rightarrow>
          (let total_ids = g + 1; band = div_ceil total_ids num_workers
           in \<lparr>ir_start = min (w * band) total_ids mod 4294967296,
               ir_end = min ((w + 1) * band) total_ids mod 4294967296\<rparr>))"

fun finalize_all ::
  "stream_env \<Rightarrow> nat \<Rightarrow> agent_id option \<Rightarrow> nat \<Rightarrow> nat \<Rightarrow> nat \<Rightarrow> accumulator list \<Rightarrow> partition_error + partition list" where
  "finalize_all env num_workers global_max b_start b_end w [] = Inr []"
| "finalize_all env num_workers global_max b_start b_end w (acc # accs) =
     (case acc_finalize env acc (stream_id_range num_workers global_max w) b_start b_end of
        Inl e \<Rightarrow> Inl e
      | Inr p \<Rightarrow> map_sum id (Cons p) (finalize_all env num_workers global_max b_start b_end (w + 1) accs))"

definition stream_finish ::
  "stream_env \<Rightarrow> ('st \<Rightarrow> streaming_stats) \<Rightarrow> nat \<Rightarrow> 'st \<times> stream_state \<Rightarrow> partition_error + chunked_result" where
  "stream_finish env finalize num_workers st =
     (case se_pending env (ss_pending (snd st)) of
        i # _ \<Rightarrow> Inl (UnresolvedForwardReferences i)
      | [] \<Rightarrow>
          (let b_end = ss_border_id_counter (snd st);
               b_start = (case ss_border_id_start (snd st) of None \<Rightarrow> b_end | Some b \<Rightarrow> b)
           in case finalize_all env num_workers (global_max_id (ss_accumulators (snd st))) b_start b_end 0
                     (ss_accumulators (snd st)) of
                Inl e \<Rightarrow> Inl e
              | Inr parts \<Rightarrow>
                  Inr \<lparr>cr_partitions = parts, cr_borders = ss_border_map (snd st),
                       cr_stats = (finalize (fst st))\<lparr>sst_chunks_processed := ss_chunks_seen (snd st),
                                                      sst_border_wire_count := b_end\<rparr>\<rparr>))"

section \<open>The pipeline\<close>

definition CHUNK_SIZE_MAX_SENTINEL :: nat where
  "CHUNK_SIZE_MAX_SENTINEL = u32_MAX"

text \<open>The path that collects the whole stream in one net and splits it.\<close>

definition materialise_directive :: "connection_directive \<Rightarrow> sparse_net \<Rightarrow> sparse_net" where
  "materialise_directive d sp =
     (case d of Resolved source target \<Rightarrow> sparse_connect (end_port source) (end_port target) sp | _ \<Rightarrow> sp)"

definition materialise_batch :: "agent_batch \<Rightarrow> sparse_net \<Rightarrow> sparse_net" where
  "materialise_batch batch sp =
     fold materialise_directive (ab_connections batch)
       (fold (\<lambda>(i, s). sparse_create_agent_at i s) (ab_agents batch) sp)"

definition materialise_and_split :: "stream_env \<Rightarrow> agent_batch list \<Rightarrow> nat \<Rightarrow> (partition_error + chunked_result) option"
  where
  "materialise_and_split env stream num_workers =
     (let sp = fold materialise_batch stream sparse_new
      in case to_dense (se_agents env sp) (se_ports env sp) None sp of
           Inl e \<Rightarrow> Some (Inl (ArenaConversionFailed (se_display env e)))
         | Inr n \<Rightarrow> map_option (\<lambda>plan. Inr (chunked_of_plan plan)) (split contiguous_allocate (se_owner env) n num_workers))"

definition generate_and_partition_chunked_with_chunk_size_and_lifetime ::
  "stream_env \<Rightarrow> agent_batch list \<Rightarrow> nat \<Rightarrow>
   ('st \<Rightarrow> agent_batch \<Rightarrow> nat \<Rightarrow> ('st \<times> (agent_id \<times> worker_id) list) option) \<Rightarrow> ('st \<Rightarrow> streaming_stats) \<Rightarrow> 'st \<Rightarrow>
   nat \<Rightarrow> nat \<Rightarrow> (partition_error + chunked_result) option" where
  "generate_and_partition_chunked_with_chunk_size_and_lifetime env stream num_workers allocate_batch finalize strat
     chunk_size max_pending_lifetime =
     (if num_workers = 0 then Some (Inl InvalidNumWorkers)
      else if chunk_size = CHUNK_SIZE_MAX_SENTINEL then materialise_and_split env stream num_workers
      else do {
        r \<leftarrow> stream_loop env allocate_batch num_workers max_pending_lifetime stream (strat, stream_init num_workers);
        Some (case r of Inl e \<Rightarrow> Inl e | Inr st \<Rightarrow> stream_finish env finalize num_workers st)
      })"

definition generate_and_partition_chunked_with_chunk_size ::
  "stream_env \<Rightarrow> agent_batch list \<Rightarrow> nat \<Rightarrow>
   ('st \<Rightarrow> agent_batch \<Rightarrow> nat \<Rightarrow> ('st \<times> (agent_id \<times> worker_id) list) option) \<Rightarrow> ('st \<Rightarrow> streaming_stats) \<Rightarrow> 'st \<Rightarrow>
   nat \<Rightarrow> (partition_error + chunked_result) option" where
  "generate_and_partition_chunked_with_chunk_size env stream num_workers allocate_batch finalize strat chunk_size =
     generate_and_partition_chunked_with_chunk_size_and_lifetime env stream num_workers allocate_batch finalize strat
       chunk_size u32_MAX"

definition generate_and_partition_chunked ::
  "stream_env \<Rightarrow> agent_batch list \<Rightarrow> nat \<Rightarrow>
   ('st \<Rightarrow> agent_batch \<Rightarrow> nat \<Rightarrow> ('st \<times> (agent_id \<times> worker_id) list) option) \<Rightarrow> ('st \<Rightarrow> streaming_stats) \<Rightarrow> 'st \<Rightarrow>
   (partition_error + chunked_result) option" where
  "generate_and_partition_chunked env stream num_workers allocate_batch finalize strat =
     generate_and_partition_chunked_with_chunk_size env stream num_workers allocate_batch finalize strat num_workers"

end
