(* ===== verification/Stream_Strategy.thy ===== *)
theory Stream_Strategy
  imports Streaming
begin

text \<open>
  The contract of a streaming strategy (the trait \<open>StreamingPartitionStrategy\<close>) as a locale, and the
  round-robin and greedy strategies as its interpretations.
\<close>

section \<open>The contract\<close>

text \<open>
  \<open>fit k\<close> is the invariant of the strategy for \<open>k\<close> workers.  Every agent of a batch is assigned once, in
  the order of the batch, to a worker in range, and \<open>counts\<close> counts the assignments.
\<close>

locale streaming_strategy =
  fixes alloc :: "'st \<Rightarrow> agent_batch \<Rightarrow> nat \<Rightarrow> ('st \<times> (agent_id \<times> worker_id) list) option"
    and counts :: "'st \<Rightarrow> nat list"
    and fit :: "nat \<Rightarrow> 'st \<Rightarrow> bool"
  assumes returns: "0 < k \<Longrightarrow> fit k st \<Longrightarrow> \<exists>st' res. alloc st batch k = Some (st', res)"
    and fit_kept: "0 < k \<Longrightarrow> fit k st \<Longrightarrow> alloc st batch k = Some (st', res) \<Longrightarrow> fit k st'"
    and covers: "0 < k \<Longrightarrow> fit k st \<Longrightarrow> alloc st batch k = Some (st', res) \<Longrightarrow> map fst res = map fst (ab_agents batch)"
    and in_range: "0 < k \<Longrightarrow> fit k st \<Longrightarrow> alloc st batch k = Some (st', res) \<Longrightarrow> w \<in> snd ` set res \<Longrightarrow> w < k"
    and counted: "0 < k \<Longrightarrow> fit k st \<Longrightarrow> alloc st batch k = Some (st', res) \<Longrightarrow> w < k \<Longrightarrow>
      counts st' ! w = counts st ! w + count_list (map snd res) w"
begin

lemma allocates:
  assumes "0 < k" "fit k st"
  obtains st' res where "alloc st batch k = Some (st', res)" "fit k st'" "map fst res = map fst (ab_agents batch)"
    "\<forall>w \<in> snd ` set res. w < k" "\<forall>w < k. counts st' ! w = counts st ! w + count_list (map snd res) w"
  using returns [OF assms] fit_kept [OF assms] covers [OF assms] in_range [OF assms] counted [OF assms] by metis

end

section \<open>Round robin\<close>

text \<open>After \<open>c\<close> assignments the first \<open>c mod k\<close> workers have one agent more than the others.\<close>

definition rr_share :: "nat \<Rightarrow> nat \<Rightarrow> nat \<Rightarrow> nat" where
  "rr_share k c w = c div k + (if w < c mod k then 1 else 0)"

lemma rr_share_Suc:
  assumes "0 < k" "w < k"
  shows "rr_share k (Suc c) w = rr_share k c w + (if w = c mod k then 1 else 0)"
proof (cases "Suc (c mod k) = k")
  case True
  then show ?thesis
    using assms by (auto simp: rr_share_def div_Suc mod_Suc)
next
  case False
  then show ?thesis
    using assms by (auto simp: rr_share_def div_Suc mod_Suc)
qed

definition rr_fit :: "nat \<Rightarrow> round_robin \<Rightarrow> bool" where
  "rr_fit k rr \<longleftrightarrow> length (rr_per_worker_counts rr) = k \<and>
     (\<forall>w < k. rr_per_worker_counts rr ! w = rr_share k (rr_counter rr) w)"

lemma rr_assign_run:
  assumes "0 < k" "k \<le> length (rr_per_worker_counts rr)" "rr_assign k ags rr = (rr', res)"
  shows "map fst res = map fst ags \<and> map snd res = map (\<lambda>j. (rr_counter rr + j) mod k) [0..<length ags] \<and>
    rr_counter rr' = rr_counter rr + length ags \<and>
    length (rr_per_worker_counts rr') = length (rr_per_worker_counts rr) \<and>
    (\<forall>w < k. rr_per_worker_counts rr' ! w = rr_per_worker_counts rr ! w + count_list (map snd res) w)"
  using assms(2,3)
proof (induction ags arbitrary: rr res)
  case (Cons a ags)
  obtain i s where a: "a = (i, s)"
    by (cases a)
  let ?w = "rr_counter rr mod k"
  define rr1 where "rr1 = rr\<lparr>rr_counter := rr_counter rr + 1, rr_per_worker_counts :=
    (rr_per_worker_counts rr)[?w := rr_per_worker_counts rr ! ?w + 1]\<rparr>"
  obtain rr2 rest where step: "rr_assign k ags rr1 = (rr2, rest)"
    by fastforce
  have res: "rr2 = rr'" "res = (i, ?w) # rest"
    using Cons.prems(2) step by (simp_all add: Let_def a rr1_def)
  have len: "k \<le> length (rr_per_worker_counts rr1)"
    using Cons.prems(1) by (simp add: rr1_def)
  note IH = Cons.IH [OF len step [unfolded res(1)]]
  have shift: "[0..<length (a # ags)] = 0 # map Suc [0..<length ags]"
    by (simp add: upt_conv_Cons map_Suc_upt del: upt_Suc)
  have "map snd res = map (\<lambda>j. (rr_counter rr + j) mod k) [0..<length (a # ags)]"
    unfolding shift using IH by (simp add: res rr1_def)
  moreover have "rr_per_worker_counts rr' ! w = rr_per_worker_counts rr ! w + count_list (map snd res) w"
    if "w < k" for w
    using IH that Cons.prems(1) by (auto simp: res rr1_def nth_list_update)
  ultimately show ?case
    using IH by (simp add: res(2) a rr1_def)
qed simp

lemmas rr_assign_spec =
  rr_assign_run [THEN conjunct1] rr_assign_run [THEN conjunct2, THEN conjunct1]
  rr_assign_run [THEN conjunct2, THEN conjunct2, THEN conjunct1]
  rr_assign_run [THEN conjunct2, THEN conjunct2, THEN conjunct2, THEN conjunct1]
  rr_assign_run [THEN conjunct2, THEN conjunct2, THEN conjunct2, THEN conjunct2, rule_format]

lemma count_round_robin:
  assumes "0 < k" "w < k"
  shows "rr_share k c w + count_list (map (\<lambda>j. (c + j) mod k) [0..<n]) w = rr_share k (c + n) w"
proof (induction n)
  case (Suc n)
  then show ?case
    using rr_share_Suc [OF assms, of "c + n"] by auto
qed simp

interpretation rr: streaming_strategy "\<lambda>rr batch k. Some (rr_allocate_batch rr batch k)" rr_per_worker_counts rr_fit
proof
  fix k rr batch rr' res w
  assume k: "0 < k" and fit: "rr_fit k rr"
    and ret: "Some (rr_allocate_batch rr batch k) = Some (rr', res)"
  have len: "k \<le> length (rr_per_worker_counts rr)"
    using fit by (simp add: rr_fit_def)
  have step: "rr_assign k (ab_agents batch) rr = (rr', res)"
    using ret k len by (simp add: rr_allocate_batch_def)
  note S = rr_assign_spec [OF k len step]
  show "map fst res = map fst (ab_agents batch)"
    by (rule S(1))
  have "snd ` set res = set (map snd res)"
    by simp
  then show "w \<in> snd ` set res \<Longrightarrow> w < k"
    using S(2) k by auto
  show "w < k \<Longrightarrow> rr_per_worker_counts rr' ! w = rr_per_worker_counts rr ! w + count_list (map snd res) w"
    by (rule S(5))
  show "rr_fit k rr'"
    using S fit count_round_robin [OF k] by (auto simp: rr_fit_def)
qed auto

section \<open>Fennel\<close>

lemma fennel_count_length:
  assumes "fennel_count batch_agents cache i d counts = Some counts'"
  shows "length counts' = length counts"
  using assms
  by (auto simp: fennel_count_def split: connection_directive.splits prod.splits option.splits if_splits)

lemma fennel_count_total:
  assumes "ran cache \<subseteq> {..<length counts}"
  shows "\<exists>counts'. fennel_count batch_agents cache i d counts = Some counts'"
proof -
  have "w < length counts" if "cache j = Some w" for j w
    using that assms by (auto simp: ran_def)
  then show ?thesis
    by (auto simp: fennel_count_def split: connection_directive.splits prod.splits option.splits)
qed

lemma fennel_neighbors:
  assumes "ran cache \<subseteq> {..<length counts}"
  shows "\<exists>counts'. ofold (fennel_count batch_agents cache i) ds counts = Some counts' \<and> length counts' = length counts"
  using assms
proof (induction ds arbitrary: counts)
  case (Cons d ds)
  obtain c1 where c1: "fennel_count batch_agents cache i d counts = Some c1"
    using fennel_count_total [OF Cons.prems] by blast
  note len = fennel_count_length [OF c1]
  show ?case
    using Cons.IH [of c1] Cons.prems c1 len by simp
qed simp

text \<open>The chosen worker has the best score, and the lowest number among the best.\<close>

lemma fennel_pick_fold:
  fixes score :: "nat \<Rightarrow> nat \<Rightarrow> 's :: linorder" and nb dg :: "nat list"
  defines "sc \<equiv> \<lambda>v. score (nb ! v) (dg ! v)"
  shows "0 < n \<Longrightarrow> \<exists>w < n. fold (fennel_pick score nb dg) [0..<n] None = Some (w, sc w) \<and>
    (\<forall>v < n. sc v \<le> sc w \<and> (sc v = sc w \<longrightarrow> w \<le> v))"
proof (induction n)
  case (Suc n)
  show ?case
  proof (cases "n = 0")
    case True
    then show ?thesis
      by (simp add: fennel_pick_def sc_def)
  next
    case False
    then obtain w where w: "w < n" "fold (fennel_pick score nb dg) [0..<n] None = Some (w, sc w)"
        "\<forall>v < n. sc v \<le> sc w \<and> (sc v = sc w \<longrightarrow> w \<le> v)"
      using Suc.IH by blast
    have step: "fold (fennel_pick score nb dg) [0..<Suc n] None =
        Some (if sc n > sc w then (n, sc n) else (w, sc w))"
      using w(1,2) by (auto simp: fennel_pick_def Let_def sc_def)
    show ?thesis
    proof (cases "sc n > sc w")
      case True
      then show ?thesis
        unfolding step using w(3) by (intro exI [of _ n]) (auto simp: less_Suc_eq intro: less_imp_le le_less_trans)
    next
      case False
      then show ?thesis
        unfolding step using w by (intro exI [of _ w]) (auto simp: less_Suc_eq not_less)
    qed
  qed
qed simp

lemma fennel_best_spec:
  fixes score :: "nat \<Rightarrow> nat \<Rightarrow> 's :: linorder" and nb dg :: "nat list"
  assumes "0 < k"
  defines "sc \<equiv> \<lambda>v. score (nb ! v) (dg ! v)"
  shows "fennel_best score nb dg k < k"
    "v < k \<Longrightarrow> sc v \<le> sc (fennel_best score nb dg k)"
    "v < k \<Longrightarrow> sc v = sc (fennel_best score nb dg k) \<Longrightarrow> fennel_best score nb dg k \<le> v"
  using fennel_pick_fold [OF assms(1), of score nb dg] unfolding sc_def by (auto simp: fennel_best_def)

definition fennel_fit :: "nat \<Rightarrow> fennel \<Rightarrow> bool" where
  "fennel_fit k f \<longleftrightarrow> length (fn_per_worker_counts f) = k \<and> ran (fn_assignment_cache f) \<subseteq> {..<k}"

lemma fennel_assign_spec:
  fixes score :: "nat \<Rightarrow> nat \<Rightarrow> 's :: linorder"
  assumes "0 < k" "fennel_fit k f"
  shows "\<exists>f' res. fennel_assign score batch k ags f = Some (f', res) \<and> fennel_fit k f' \<and>
    map fst res = map fst ags \<and> (\<forall>w \<in> snd ` set res. w < k) \<and>
    (\<forall>w < k. fn_per_worker_counts f' ! w = fn_per_worker_counts f ! w + count_list (map snd res) w)"
  using assms(2)
proof (induction ags arbitrary: f)
  case (Cons a ags)
  obtain i s where a: "a = (i, s)"
    by (cases a)
  have cache: "ran (fn_assignment_cache f) \<subseteq> {..<length (replicate k (0 :: nat))}"
    using Cons.prems by (simp add: fennel_fit_def)
  obtain nb where nb: "ofold (fennel_count (fst ` set (ab_agents batch)) (fn_assignment_cache f) i)
      (ab_connections batch) (replicate k 0) = Some nb"
    using fennel_neighbors [OF cache] by blast
  define best where "best = fennel_best score nb (fn_per_worker_counts f) k"
  have best: "best < k"
    unfolding best_def by (rule fennel_best_spec(1) [OF assms(1)])
  define f1 where "f1 = f\<lparr>fn_assignment_cache := (fn_assignment_cache f)(i \<mapsto> best),
    fn_per_worker_counts := (fn_per_worker_counts f)[best := fn_per_worker_counts f ! best + 1]\<rparr>"
  have fit1: "fennel_fit k f1"
    using Cons.prems best by (auto simp: fennel_fit_def f1_def ran_def)
  obtain f2 rest where rest: "fennel_assign score batch k ags f1 = Some (f2, rest)" "fennel_fit k f2"
      "map fst rest = map fst ags" "\<forall>w \<in> snd ` set rest. w < k"
      "\<forall>w < k. fn_per_worker_counts f2 ! w = fn_per_worker_counts f1 ! w + count_list (map snd rest) w"
    using Cons.IH [OF fit1] by metis
  have run: "fennel_assign score batch k (a # ags) f = Some (f2, (i, best) # rest)"
    using nb rest(1) by (simp add: a Let_def best_def f1_def)
  have count: "fn_per_worker_counts f2 ! w = fn_per_worker_counts f ! w + count_list (map snd ((i, best) # rest)) w"
    if "w < k" for w
    using rest(5) that best Cons.prems by (auto simp: f1_def fennel_fit_def nth_list_update)
  show ?case
    using run rest(2-4) best count by (intro exI [of _ f2] exI [of _ "(i, best) # rest"]) (simp add: a)
qed simp

interpretation fennel: streaming_strategy "fennel_allocate_batch score" fn_per_worker_counts fennel_fit
  for score :: "nat \<Rightarrow> nat \<Rightarrow> 's :: linorder"
proof
  fix k :: nat and f f' batch res w
  assume k: "0 < k" and fit: "fennel_fit k f"
  have run: "fennel_allocate_batch score f batch k = fennel_assign score batch k (ab_agents batch) f"
    using k fit by (simp add: fennel_allocate_batch_def fennel_fit_def)
  note S = fennel_assign_spec [OF k fit, of score batch "ab_agents batch", folded run]
  show "\<exists>f' res. fennel_allocate_batch score f batch k = Some (f', res)"
    using S by blast
  assume ret: "fennel_allocate_batch score f batch k = Some (f', res)"
  show "fennel_fit k f'" "map fst res = map fst (ab_agents batch)" "w \<in> snd ` set res \<Longrightarrow> w < k"
    "w < k \<Longrightarrow> fn_per_worker_counts f' ! w = fn_per_worker_counts f ! w + count_list (map snd res) w"
    using S unfolding ret by auto
qed

lemma strategies_fresh:
  "0 < k \<Longrightarrow> \<exists>rr. rr_new k = Some rr \<and> rr_fit k rr \<and> rr_per_worker_counts rr = replicate k 0"
  "0 < k \<Longrightarrow> \<exists>f. fennel_new k True txt = Some f \<and> fennel_fit k f \<and> fn_per_worker_counts f = replicate k 0"
  by (auto simp: rr_new_def rr_try_new_def rr_fit_def rr_share_def fennel_new_def fennel_try_new_def fennel_fit_def)

end
