(* ===== verification/Stream_Inv.thy ===== *)
theory Stream_Inv
  imports Stream_Strategy
begin

text \<open>
  The invariant of the streaming partitioner.  \<open>accs_ok\<close> says what the accumulators hold: the agents
  of their worker, and an index of exactly the free ports of their sub-net.  \<open>links\<close> says how the
  accumulators, glued along the border map, realise a set of wires.
\<close>

section \<open>Accumulators\<close>

definition part :: "accumulator list \<Rightarrow> worker_id \<Rightarrow> sparse_net" where
  "part accs w = acc_sp (ac_subnet (accs ! w))"

text \<open>Where a port leads in the accumulator of its owner.\<close>

definition raw :: "(agent_id \<rightharpoonup> worker_id) \<Rightarrow> accumulator list \<Rightarrow> agent_id \<times> port_id \<Rightarrow> port_ref" where
  "raw owner accs e =
     (case owner (fst e) of None \<Rightarrow> DISCONNECTED | Some w \<Rightarrow> sp_tgt (part accs w) (fst e) (snd e))"

definition owned :: "(agent_id \<rightharpoonup> worker_id) \<Rightarrow> worker_id \<Rightarrow> agent_id set" where
  "owned owner w = {i. owner i = Some w}"

definition acc_ok :: "(agent_id \<rightharpoonup> symbol) \<Rightarrow> (agent_id \<rightharpoonup> worker_id) \<Rightarrow> worker_id \<Rightarrow> accumulator \<Rightarrow> bool" where
  "acc_ok ags owner w acc \<longleftrightarrow>
     (\<exists>sp. ac_subnet acc = AccSparse sp \<and> sp_inv sp \<and>
        sp_sym sp = (\<lambda>i. if owner i = Some w then ags i else None) \<and>
        (\<forall>b x. ac_free_port_index acc b = Some x \<longleftrightarrow>
           (\<exists>i p. x = AgentPort i p \<and> sp_tgt sp i p = FreePort b \<and> b \<noteq> u32_MAX))) \<and>
     ac_worker_id acc = w \<and> finite (owned owner w) \<and> ac_live_agent_count acc = card (owned owner w) \<and>
     ac_max_assigned_id acc = (if owned owner w = {} then None else Some (Max (owned owner w)))"

definition accs_ok :: "nat \<Rightarrow> (agent_id \<rightharpoonup> symbol) \<Rightarrow> (agent_id \<rightharpoonup> worker_id) \<Rightarrow> accumulator list \<Rightarrow> bool" where
  "accs_ok k ags owner accs \<longleftrightarrow>
     length accs = k \<and> (\<forall>w < k. acc_ok ags owner w (accs ! w)) \<and> dom owner = dom ags \<and> ran owner \<subseteq> {..<k}"

lemma accs_okD:
  assumes "accs_ok k ags owner accs"
  shows "length accs = k" "w < k \<Longrightarrow> acc_ok ags owner w (accs ! w)" "dom owner = dom ags"
    "owner i = Some w \<Longrightarrow> w < k" "owner i = None \<longleftrightarrow> ags i = None"
proof -
  show "owner i = None \<longleftrightarrow> ags i = None"
    using assms unfolding accs_ok_def by (metis domIff)
qed (use assms in \<open>auto simp: accs_ok_def ran_def\<close>)

lemma acc_okD:
  assumes "acc_ok ags owner w acc"
  defines "sp \<equiv> acc_sp (ac_subnet acc)"
  shows "ac_subnet acc = AccSparse sp" "sp_inv sp" "sp_sym sp i = (if owner i = Some w then ags i else None)"
    "ac_free_port_index acc b = Some x \<longleftrightarrow>
       (\<exists>i p. x = AgentPort i p \<and> sp_tgt sp i p = FreePort b \<and> b \<noteq> u32_MAX)"
    "ac_worker_id acc = w" "finite (owned owner w)" "ac_live_agent_count acc = card (owned owner w)"
    "ac_max_assigned_id acc = (if owned owner w = {} then None else Some (Max (owned owner w)))"
  using assms(1) unfolding acc_ok_def sp_def by auto

lemma acc_okI:
  assumes "ac_subnet acc = AccSparse sp" "sp_inv sp" "\<And>i. sp_sym sp i = (if owner i = Some w then ags i else None)"
    and "\<And>b x. ac_free_port_index acc b = Some x \<longleftrightarrow>
       (\<exists>i p. x = AgentPort i p \<and> sp_tgt sp i p = FreePort b \<and> b \<noteq> u32_MAX)"
    and "ac_worker_id acc = w" "finite (owned owner w)" "ac_live_agent_count acc = card (owned owner w)"
    and "ac_max_assigned_id acc = (if owned owner w = {} then None else Some (Max (owned owner w)))"
  shows "acc_ok ags owner w acc"
  using assms unfolding acc_ok_def by (auto simp: fun_eq_iff)

lemma accs_ok_init: "accs_ok k Map.empty Map.empty (map accumulator_new [0..<k])"
proof -
  have "sp_inv sparse_new"
    by (simp add: sp_inv_def sparse_new_def sp_tgt_ports DISCONNECTED_def)
  then show ?thesis
    by (auto simp: accs_ok_def accumulator_new_def owned_def sp_sym_def sparse_new_def sp_tgt_ports DISCONNECTED_def
        intro!: acc_okI)
qed

lemma raw_init: "raw Map.empty accs = (\<lambda>e. DISCONNECTED)"
  by (simp add: raw_def fun_eq_iff)

text \<open>A port that leads somewhere belongs to an agent of its owner.\<close>

lemma sp_tgt_alive: "sp_inv sp \<Longrightarrow> sp_tgt sp i p \<noteq> DISCONNECTED \<Longrightarrow> sp_sym sp i \<noteq> None"
  using sp_invD(5) [of sp i p] by (auto simp: sp_tgt_ports port_exists_def split: option.splits)

lemma part_tgt:
  assumes "accs_ok k ags owner accs" "w < k"
  shows "sp_tgt (part accs w) i p = (if owner i = Some w then raw owner accs (i, p) else DISCONNECTED)"
proof (cases "owner i = Some w")
  case False
  then have "sp_sym (part accs w) i = None"
    using acc_okD(3) [OF accs_okD(2) [OF assms]] by (simp add: part_def)
  then show ?thesis
    using sp_tgt_alive acc_okD(2) [OF accs_okD(2) [OF assms]] False by (metis part_def)
qed (simp add: raw_def)

lemma raw_exists:
  assumes "accs_ok k ags owner accs" "raw owner accs (i, p) \<noteq> DISCONNECTED"
  shows "port_exists ags i p"
proof -
  obtain w where w: "owner i = Some w" "sp_tgt (part accs w) i p \<noteq> DISCONNECTED"
    using assms(2) by (auto simp: raw_def split: option.splits)
  note A = acc_okD [OF accs_okD(2) [OF assms(1) accs_okD(4) [OF assms(1) w(1)]], folded part_def]
  have "port_exists (sp_sym (part accs w)) i p"
    using w(2) sp_invD(5) [OF A(2)] by (auto simp: sp_tgt_ports split: option.splits)
  then show ?thesis
    using A(3) w(1) by (simp add: port_exists_def)
qed

lemma index_raw:
  assumes "accs_ok k ags owner accs" "w < k"
  shows "ac_free_port_index (accs ! w) b = Some x \<longleftrightarrow>
    (\<exists>i p. x = AgentPort i p \<and> owner i = Some w \<and> raw owner accs (i, p) = FreePort b \<and> b \<noteq> u32_MAX)"
  unfolding acc_okD(4) [OF accs_okD(2) [OF assms]] part_def [symmetric] part_tgt [OF assms]
  by (auto simp: DISCONNECTED_def)

subsection \<open>A new agent\<close>

lemma sp_create_at:
  fixes s :: symbol
  assumes inv: "sp_inv n" and fresh: "sp_sym n i = None" and room: "i < u32_MAX"
  defines "m \<equiv> sparse_create_agent_at i s n"
  shows "sp_inv m" "sp_sym m = (sp_sym n)(i \<mapsto> s)" "sp_tgt m = sp_tgt n"
proof -
  have m: "sp_agents m = (sp_agents n)(i \<mapsto> \<lparr>a_symbol = s, a_id = i\<rparr>)" "sp_ports m = sp_ports n"
    "sp_next_id m = max (sp_next_id n) (i + 1)"
    using room by (auto simp: m_def sparse_create_agent_at_def Let_def max_def)
  show syms: "sp_sym m = (sp_sym n)(i \<mapsto> s)" and tgts: "sp_tgt m = sp_tgt n"
    by (auto simp: sp_sym_def sp_tgt_ports m fun_eq_iff)
  have "port_exists (sp_sym m) j q" if "sp_ports n (j, q) = Some t" for j q t
    using sp_invD(5) [OF inv that] fresh by (auto simp: syms port_exists_def split: if_splits)
  moreover have "a_id ag = j \<and> j < sp_next_id m" if "sp_agents m j = Some ag" for j ag
    using that sp_invD(1,2) [OF inv, of j] by (auto simp: m split: if_splits)
  moreover have "sp_next_id m \<le> u32_MAX"
    using sp_invD(3) [OF inv] room by (simp add: m)
  ultimately show "sp_inv m"
    using sp_invD(4) [OF inv] sp_invD(6,7) [OF inv] unfolding sp_inv_def m(2) tgts by blast
qed

lemma accs_ok_add:
  fixes s :: symbol
  assumes ok: "accs_ok k ags owner accs" and fresh: "i \<notin> dom ags" and room: "i < u32_MAX" and w: "w < k"
  defines "accs' \<equiv> accs[w := add_agent i s (accs ! w)]"
  shows "accs_ok k (ags(i \<mapsto> s)) (owner(i \<mapsto> w)) accs'" "raw (owner(i \<mapsto> w)) accs' = raw owner accs"
proof -
  note D = accs_okD [OF ok]
  note A = acc_okD [OF D(2) [OF w], folded part_def]
  have none: "owner i = None"
    using fresh D(5) by (auto simp: dom_def)
  have "sp_sym (part accs w) i = None"
    using A(3) none by simp
  note C = sp_create_at [OF A(2) this room, of s]
  have part: "part accs' v = (if v = w then sparse_create_agent_at i s (part accs w) else part accs v)" for v
    using w D(1) A(1)
    by (cases "ac_subnet (accs ! w)") (auto simp: accs'_def part_def add_agent_def nth_list_update)
  have owned: "owned (owner(i \<mapsto> w)) v = (if v = w then insert i (owned owner w) else owned owner v)" for v
    using none by (auto simp: owned_def)
  have new: "i \<notin> owned owner w"
    using none by (simp add: owned_def)
  have "acc_ok (ags(i \<mapsto> s)) (owner(i \<mapsto> w)) w (add_agent i s (accs ! w))"
  proof (rule acc_okI [where sp = "sparse_create_agent_at i s (part accs w)"])
    show "ac_subnet (add_agent i s (accs ! w)) = AccSparse (sparse_create_agent_at i s (part accs w))"
      using A(1) by (simp add: add_agent_def)
    show "sp_sym (sparse_create_agent_at i s (part accs w)) j =
        (if (owner(i \<mapsto> w)) j = Some w then (ags(i \<mapsto> s)) j else None)" for j
      using A(3) C(2) by auto
    show "ac_max_assigned_id (add_agent i s (accs ! w)) =
        (if owned (owner(i \<mapsto> w)) w = {} then None else Some (Max (owned (owner(i \<mapsto> w)) w)))"
      using A(6,8) by (simp add: owned add_agent_def max.commute)
    show "ac_free_port_index (add_agent i s (accs ! w)) b = Some x \<longleftrightarrow>
        (\<exists>j p. x = AgentPort j p \<and> sp_tgt (sparse_create_agent_at i s (part accs w)) j p = FreePort b \<and> b \<noteq> u32_MAX)" for b x
      using A(4) by (simp add: add_agent_def C(3))
  qed (use A(5-7) C(1) new in \<open>simp_all add: owned add_agent_def\<close>)
  moreover have "acc_ok (ags(i \<mapsto> s)) (owner(i \<mapsto> w)) v (accs ! v)" if v: "v < k" "v \<noteq> w" for v
  proof -
    note B = acc_okD [OF D(2) [OF v(1)], folded part_def]
    show ?thesis
      using B none v(2) by (intro acc_okI [where sp = "part accs v"]) (auto simp: owned)
  qed
  ultimately have "acc_ok (ags(i \<mapsto> s)) (owner(i \<mapsto> w)) v (accs' ! v)" if "v < k" for v
    using that w D(1) by (cases "v = w") (simp_all add: accs'_def)
  moreover have "ran (owner(i \<mapsto> w)) \<subseteq> {..<k}"
    using ok w none by (simp add: accs_ok_def)
  ultimately show "accs_ok k (ags(i \<mapsto> s)) (owner(i \<mapsto> w)) accs'"
    using D(1,3) unfolding accs_ok_def by (simp add: accs'_def)
  have "raw (owner(i \<mapsto> w)) accs' (j, q) = raw owner accs (j, q)" for j q
    using part_tgt [OF ok w, of i q] none
    by (auto simp: raw_def part C(3) split: option.split)
  then show "raw (owner(i \<mapsto> w)) accs' = raw owner accs"
    by (simp add: fun_eq_iff split_paired_all)
qed

subsection \<open>A new wire in one accumulator\<close>

text \<open>The other end of the wire: an open port of the same worker, or a free port new to the worker.\<close>

definition pluggable :: "(agent_id \<rightharpoonup> symbol) \<Rightarrow> (agent_id \<rightharpoonup> worker_id) \<Rightarrow> (agent_id \<times> port_id \<Rightarrow> port_ref) \<Rightarrow>
    worker_id \<Rightarrow> agent_id \<times> port_id \<Rightarrow> port_ref \<Rightarrow> bool" where
  "pluggable ags owner r w e y \<longleftrightarrow>
     (case y of
        AgentPort j q \<Rightarrow> owner j = Some w \<and> port_exists ags j q \<and> r (j, q) = DISCONNECTED \<and> (j, q) \<noteq> e
      | FreePort f \<Rightarrow> f < u32_MAX \<and> (\<forall>i p. owner i = Some w \<longrightarrow> r (i, p) \<noteq> FreePort f))"

definition plugged :: "agent_id \<times> port_id \<Rightarrow> port_ref \<Rightarrow> (agent_id \<times> port_id \<Rightarrow> port_ref) \<Rightarrow> agent_id \<times> port_id \<Rightarrow> port_ref" where
  "plugged e y r = (case y of AgentPort j q \<Rightarrow> r(e := y, (j, q) := end_port e) | FreePort f \<Rightarrow> r(e := y))"

lemma accs_ok_plug:
  assumes ok: "accs_ok k ags owner accs" and e: "owner (fst e) = Some w" "port_exists ags (fst e) (snd e)"
    "raw owner accs e = DISCONNECTED" and y: "pluggable ags owner (raw owner accs) w e y"
  obtains accs' where "acc_update w (acc_connect (end_port e) y) accs = Some accs'"
    "accs_ok k ags owner accs'" "raw owner accs' = plugged e y (raw owner accs)"
proof -
  note D = accs_okD [OF ok]
  have w: "w < k"
    by (rule D(4) [OF e(1)])
  note A = acc_okD [OF D(2) [OF w], folded part_def] and T = part_tgt [OF ok w]
  define sp where "sp = sparse_connect (end_port e) y (part accs w)"
  define accs' where "accs' = accs[w := acc_connect (end_port e) y (accs ! w)]"
  have ends: "can_plug (sp_sym (part accs w)) (sp_tgt (part accs w)) (end_port e)"
    "can_plug (sp_sym (part accs w)) (sp_tgt (part accs w)) y"
    using e y A(3) T by (auto simp: can_plug_def port_exists_def pluggable_def split: port_ref.splits)
  have neq: "end_port e = AgentPort i p \<Longrightarrow> y \<noteq> AgentPort i p" for i p
    using y by (auto simp: pluggable_def)
  note S = sp_connect [OF A(2) ends neq, folded sp_def]
  have part: "part accs' v = (if v = w then sp else part accs v)" for v
    using w D(1) A(1)
    by (cases "ac_subnet (accs ! w)") (auto simp: accs'_def part_def acc_connect_def nth_list_update sp_def)
  have index: "ac_free_port_index (acc_connect (end_port e) y (accs ! w)) b = Some x \<longleftrightarrow>
      (\<exists>i p. x = AgentPort i p \<and> sp_tgt sp i p = FreePort b \<and> b \<noteq> u32_MAX)" for b x
  proof (cases y)
    case (AgentPort j q)
    have "sp_tgt (part accs w) j q = DISCONNECTED" "sp_tgt (part accs w) (fst e) (snd e) = DISCONNECTED"
      using ends by (simp_all add: can_plug_def AgentPort)
    then have "sp_tgt sp i p = FreePort b \<and> b \<noteq> u32_MAX \<longleftrightarrow> sp_tgt (part accs w) i p = FreePort b \<and> b \<noteq> u32_MAX" for i p
      by (auto simp: S(3) AgentPort DISCONNECTED_def)
    then show ?thesis
      using A(4) [of b x] by (simp add: acc_connect_def index_end_def AgentPort)
  next
    case (FreePort f)
    have "sp_tgt (part accs w) i p \<noteq> FreePort f" for i p
      using y T [of i p] by (auto simp: FreePort pluggable_def DISCONNECTED_def)
    moreover have "f \<noteq> u32_MAX" "sp_tgt (part accs w) (fst e) (snd e) = DISCONNECTED"
      using y ends by (simp_all add: FreePort pluggable_def can_plug_def)
    ultimately have "sp_tgt sp i p = FreePort b \<and> b \<noteq> u32_MAX \<longleftrightarrow>
        (if b = f then (i, p) = e else sp_tgt (part accs w) i p = FreePort b \<and> b \<noteq> u32_MAX)" for i p
      by (auto simp: S(3) FreePort DISCONNECTED_def prod_eq_iff)
    then show ?thesis
      using A(4) [of b x] by (cases e) (auto simp: acc_connect_def index_end_def FreePort)
  qed
  have "acc_ok ags owner w (acc_connect (end_port e) y (accs ! w))"
  proof (rule acc_okI [where sp = sp])
    show "ac_subnet (acc_connect (end_port e) y (accs ! w)) = AccSparse sp"
      using A(1) by (simp add: acc_connect_def sp_def)
  qed (use A(3,5-8) S(1,2) index in \<open>simp_all add: acc_connect_def\<close>)
  then have "accs_ok k ags owner accs'"
    using ok w unfolding accs_ok_def by (auto simp: accs'_def nth_list_update)
  moreover have "raw owner accs' (i, p) = plugged e y (raw owner accs) (i, p)" for i p
  proof (cases "owner i = Some w")
    case True
    then have "raw owner accs' (i, p) =
        (if y = AgentPort i p then end_port e else if e = (i, p) then y else raw owner accs (i, p))"
      by (simp add: raw_def part S(3) prod_eq_iff)
    then show ?thesis
      using neq by (auto simp: plugged_def prod_eq_iff split: port_ref.split)
  next
    case False
    then have "(i, p) \<noteq> e" "y \<noteq> AgentPort i p"
      using e(1) y by (auto simp: pluggable_def)
    moreover have "raw owner accs' (i, p) = raw owner accs (i, p)"
      using False by (auto simp: raw_def part split: option.split)
    ultimately show ?thesis
      by (auto simp: plugged_def split: port_ref.split)
  qed
  then have "raw owner accs' = plugged e y (raw owner accs)"
    by (simp add: fun_eq_iff split_paired_all)
  ultimately show ?thesis
    using that [of accs'] w D(1) by (simp add: acc_update_def accs'_def)
qed

section \<open>Wires\<close>

text \<open>Two ports joined by a wire of the set.\<close>

definition ends_at :: "(port_ref \<times> port_ref) set \<Rightarrow> port_ref \<Rightarrow> port_ref \<Rightarrow> bool" where
  "ends_at W x y \<longleftrightarrow> (x, y) \<in> W \<or> (y, x) \<in> W"

definition unused :: "(port_ref \<times> port_ref) set \<Rightarrow> port_ref \<Rightarrow> bool" where
  "unused W x \<longleftrightarrow> (\<forall>y. \<not> ends_at W x y)"

lemma ends_at_insert: "ends_at (insert (x, y) W) u v \<longleftrightarrow> ends_at W u v \<or> u = x \<and> v = y \<or> u = y \<and> v = x"
  by (auto simp: ends_at_def)

lemma unused_insert: "unused (insert (x, y) W) u \<longleftrightarrow> unused W u \<and> u \<noteq> x \<and> u \<noteq> y"
  unfolding unused_def ends_at_insert by blast

text \<open>The wires between two agents.\<close>

definition inner :: "(port_ref \<times> port_ref) set \<Rightarrow> (port_ref \<times> port_ref) set" where
  "inner W = {a \<in> W. case snd a of AgentPort j q \<Rightarrow> True | FreePort f \<Rightarrow> False}"

lemma inner_insert [simp]:
  "inner (insert (x, AgentPort j q) W) = insert (x, AgentPort j q) (inner W)" "inner (insert (x, FreePort f) W) = inner W"
  by (auto simp: inner_def)

lemma inner_subset: "inner W \<subseteq> W" "W \<subseteq> V \<Longrightarrow> inner W \<subseteq> inner V" "finite W \<Longrightarrow> finite (inner W)"
  by (auto simp: inner_def)

text \<open>Following a free port across its border.\<close>

definition glue :: "(nat \<rightharpoonup> port_ref \<times> port_ref) \<Rightarrow> port_ref \<Rightarrow> port_ref \<Rightarrow> port_ref" where
  "glue borders x t =
     (case t of
        AgentPort j q \<Rightarrow> t
      | FreePort b \<Rightarrow> (case borders b of None \<Rightarrow> t | Some (u, v) \<Rightarrow> if u = x then v else u))"

text \<open>A border lies between two workers, in their order, and its identifier is at its two ends only.\<close>

definition border_link ::
  "(agent_id \<rightharpoonup> worker_id) \<Rightarrow> (agent_id \<times> port_id \<Rightarrow> port_ref) \<Rightarrow> nat \<Rightarrow> port_ref \<Rightarrow> port_ref \<Rightarrow> bool" where
  "border_link owner r b x y \<longleftrightarrow>
     (\<exists>e f v w. x = end_port e \<and> y = end_port f \<and> owner (fst e) = Some v \<and> owner (fst f) = Some w \<and> v < w \<and>
        r e = FreePort b \<and> r f = FreePort b \<and> (\<forall>g. r g = FreePort b \<longrightarrow> g = e \<or> g = f))"

definition links ::
  "(port_ref \<times> port_ref) set \<Rightarrow> (agent_id \<rightharpoonup> worker_id) \<Rightarrow> (agent_id \<times> port_id \<Rightarrow> port_ref) \<Rightarrow> (nat \<rightharpoonup> port_ref \<times> port_ref) \<Rightarrow>
   nat set \<Rightarrow> nat \<Rightarrow> bool" where
  "links W owner r borders reserved counter \<longleftrightarrow>
     (\<forall>e y. ends_at W (end_port e) y \<longrightarrow> glue borders (end_port e) (r e) = y) \<and>
     (\<forall>e. unused W (end_port e) \<longrightarrow> r e = DISCONNECTED) \<and>
     (\<forall>b x y. borders b = Some (x, y) \<longrightarrow> b < counter \<and> b \<notin> reserved \<and> border_link owner r b x y) \<and>
     (\<forall>e b. r e = FreePort b \<longrightarrow> b = u32_MAX \<or> b \<in> dom borders \<or> b \<in> reserved) \<and>
     {..<counter} \<subseteq> dom borders \<union> reserved \<and> counter \<le> u32_MAX \<and> u32_MAX \<notin> reserved \<and>
     finite W \<and> finite reserved \<and> card (dom borders) \<le> card (inner W)"

lemma linksD:
  assumes "links W owner r borders reserved counter"
  shows "ends_at W (end_port e) y \<Longrightarrow> glue borders (end_port e) (r e) = y"
    "unused W (end_port e) \<Longrightarrow> r e = DISCONNECTED"
    "borders b = Some (x, y) \<Longrightarrow> b < counter" "borders b = Some (x, y) \<Longrightarrow> b \<notin> reserved"
    "borders b = Some (x, y) \<Longrightarrow> border_link owner r b x y"
    "r e = FreePort b \<Longrightarrow> b = u32_MAX \<or> b \<in> dom borders \<or> b \<in> reserved"
    "{..<counter} \<subseteq> dom borders \<union> reserved" "counter \<le> u32_MAX" "u32_MAX \<notin> reserved"
    "finite W" "finite reserved" "card (dom borders) \<le> card (inner W)"
  using assms unfolding links_def by blast+

lemma linksI:
  assumes "\<And>e y. ends_at W (end_port e) y \<Longrightarrow> glue borders (end_port e) (r e) = y"
    and "\<And>e. unused W (end_port e) \<Longrightarrow> r e = DISCONNECTED"
    and "\<And>b x y. borders b = Some (x, y) \<Longrightarrow> b < counter \<and> b \<notin> reserved \<and> border_link owner r b x y"
    and "\<And>e b. r e = FreePort b \<Longrightarrow> b = u32_MAX \<or> b \<in> dom borders \<or> b \<in> reserved"
    and "{..<counter} \<subseteq> dom borders \<union> reserved" "counter \<le> u32_MAX" "u32_MAX \<notin> reserved"
    and "finite W" "finite reserved" "card (dom borders) \<le> card (inner W)"
  shows "links W owner r borders reserved counter"
  unfolding links_def using assms by simp

text \<open>The counter never outruns the wires and the reserved identifiers.\<close>

lemma links_counter:
  assumes "links W owner r borders reserved counter"
  shows "counter \<le> card (inner W) + card reserved" "dom borders \<subseteq> {..<counter}"
proof -
  note L = linksD [OF assms]
  show dom: "dom borders \<subseteq> {..<counter}"
    using L(3) by auto
  then have "finite (dom borders)"
    by (rule finite_subset) simp
  then have "card {..<counter} \<le> card (dom borders) + card reserved"
    using card_mono [OF _ L(7)] L(11) card_Un_le [of "dom borders" reserved] by (meson finite_UnI le_trans)
  then show "counter \<le> card (inner W) + card reserved"
    using L(12) by simp
qed

lemma links_init: "links {} Map.empty (\<lambda>e. DISCONNECTED) Map.empty {} 0"
  by (intro linksI) (auto simp: ends_at_def DISCONNECTED_def)

lemma border_link_owner: "border_link owner r b x y \<Longrightarrow> owner i = None \<Longrightarrow> border_link (owner(i \<mapsto> w)) r b x y"
proof -
  assume "border_link owner r b x y" "owner i = None"
  then obtain e f v u where "x = end_port e" "y = end_port f" "owner (fst e) = Some v" "owner (fst f) = Some u" "v < u"
      "r e = FreePort b" "r f = FreePort b" "\<forall>g. r g = FreePort b \<longrightarrow> g = e \<or> g = f" "fst e \<noteq> i" "fst f \<noteq> i"
    unfolding border_link_def by fastforce
  then show ?thesis
    unfolding border_link_def by (intro exI [of _ e] exI [of _ f] exI [of _ v] exI [of _ u]) simp
qed

lemma links_owner:
  assumes "links W owner r borders reserved counter" "owner i = None"
  shows "links W (owner(i \<mapsto> w)) r borders reserved counter"
proof -
  note L = linksD [OF assms(1)]
  show ?thesis
    using L(1-4,6-12) border_link_owner [OF L(5) assms(2)] by (intro linksI) blast+
qed

lemma links_reserve:
  assumes "links W owner r borders reserved counter" "f \<notin> dom borders" "f \<noteq> u32_MAX"
  shows "links W owner r borders (insert f reserved) counter"
proof -
  note L = linksD [OF assms(1)]
  show ?thesis
  proof (rule linksI)
    show "b < counter \<and> b \<notin> insert f reserved \<and> border_link owner r b x y" if "borders b = Some (x, y)" for b x y
      using L(3-5) [OF that] assms(2) that by auto
    show "u32_MAX \<notin> insert f reserved"
      using L(9) assms(3) by blast
  qed (use L in blast)+
qed

text \<open>
  A change of ports that led nowhere leaves every border where it was, unless it writes the
  identifier of the border.
\<close>

lemma border_link_frame:
  assumes "border_link owner r b x y" "b \<noteq> u32_MAX" "\<And>e. r' e \<noteq> r e \<Longrightarrow> r e = DISCONNECTED \<and> r' e \<noteq> FreePort b"
  shows "border_link owner r' b x y"
proof -
  have "r' e = FreePort b \<longleftrightarrow> r e = FreePort b" for e
    using assms(2) assms(3) [of e] by (cases "r' e = r e") (auto simp: DISCONNECTED_def)
  then show ?thesis
    using assms(1) unfolding border_link_def by simp
qed

lemma links_frame:
  assumes L: "links W owner r borders reserved counter" and W': "finite W'" "card (inner W) \<le> card (inner W')"
    and frame: "\<And>e. r' e \<noteq> r e \<Longrightarrow> r e = DISCONNECTED" "\<And>e b. r' e \<noteq> r e \<Longrightarrow> r' e = FreePort b \<Longrightarrow> b \<in> reserved"
    and used: "\<And>e y. ends_at W' (end_port e) y \<Longrightarrow> glue borders (end_port e) (r' e) = y"
      "\<And>e. unused W' (end_port e) \<Longrightarrow> r' e = DISCONNECTED"
  shows "links W' owner r' borders reserved counter"
proof -
  note D = linksD [OF L]
  show ?thesis
  proof (rule linksI)
    show "b < counter \<and> b \<notin> reserved \<and> border_link owner r' b x y" if "borders b = Some (x, y)" for b x y
    proof -
      have "border_link owner r' b x y"
        using D(3,4) [OF that] D(8) frame by (intro border_link_frame [OF D(5) [OF that]]) auto
      then show ?thesis
        using D(3,4) [OF that] by simp
    qed
    show "b = u32_MAX \<or> b \<in> dom borders \<or> b \<in> reserved" if "r' e = FreePort b" for e b
      using D(6) [of e b] frame(2) [of e b] that by metis
  qed (use D(7-12) W' used in auto)
qed

lemma end_port_eq [simp]: "end_port e = end_port f \<longleftrightarrow> e = f"
  by (simp add: prod_eq_iff)

lemma ends_at_new:
  assumes "ends_at (insert (end_port e, end_port f) W) (end_port g) y" "unused W (end_port e)" "unused W (end_port f)"
  obtains "g = e" "y = end_port f" | "g = f" "y = end_port e" | "g \<noteq> e" "g \<noteq> f" "ends_at W (end_port g) y"
  using assms unfolding ends_at_insert unused_def end_port_eq by blast

text \<open>A wire inside one worker.\<close>

lemma links_inner:
  assumes L: "links W owner r borders reserved counter" and new: "unused W (end_port e)" "unused W (end_port f)" "e \<noteq> f"
  shows "links (insert (end_port e, end_port f) W) owner (plugged e (end_port f) r) borders reserved counter"
proof -
  note D = linksD [OF L]
  have r: "plugged e (end_port f) r = r(e := end_port f, f := end_port e)"
    by (simp add: plugged_def)
  have open_ends: "r e = DISCONNECTED" "r f = DISCONNECTED"
    using D(2) new by blast+
  show ?thesis
    unfolding r
  proof (rule links_frame [OF L])
    show "glue borders (end_port g) ((r(e := end_port f, f := end_port e)) g) = y"
      if "ends_at (insert (end_port e, end_port f) W) (end_port g) y" for g y
      using that new(1,2) by (cases rule: ends_at_new) (use D(1) new(3) in \<open>auto simp: glue_def\<close>)
    show "(r(e := end_port f, f := end_port e)) g = DISCONNECTED"
      if "unused (insert (end_port e, end_port f) W) (end_port g)" for g
      using that D(2) [of g] by (auto simp: unused_insert)
  qed (use D(10) inner_subset(3) open_ends in \<open>auto split: if_splits simp: card_insert_le\<close>)
qed

text \<open>A wire to the interface, whose identifier is reserved.\<close>

lemma links_interface:
  assumes L: "links W owner r borders reserved counter" and new: "unused W (end_port e)" "unused W (FreePort f)"
    and f: "f \<in> reserved"
  shows "links (insert (end_port e, FreePort f) W) owner (plugged e (FreePort f) r) borders reserved counter"
proof -
  note D = linksD [OF L]
  have r: "plugged e (FreePort f) r = r(e := FreePort f)"
    by (simp add: plugged_def)
  have "borders f = None"
    using D(4) [of f] f by (cases "borders f") auto
  then have glue: "glue borders x (FreePort f) = FreePort f" for x
    by (simp add: glue_def)
  show ?thesis
    unfolding r
  proof (rule links_frame [OF L])
    show "glue borders (end_port g) ((r(e := FreePort f)) g) = y"
      if "ends_at (insert (end_port e, FreePort f) W) (end_port g) y" for g y
      using that D(1) [of g y] new glue by (auto simp: ends_at_insert unused_def prod_eq_iff)
    show "(r(e := FreePort f)) g = DISCONNECTED"
      if "unused (insert (end_port e, FreePort f) W) (end_port g)" for g
      using that D(2) [of g] by (auto simp: unused_insert)
  qed (use D(2,10) new f in \<open>auto split: if_splits\<close>)
qed

text \<open>A wire between two workers.\<close>

lemma skip_reserved_Some:
  "skip_reserved reserved c = Some b \<Longrightarrow> c \<le> b \<and> b \<notin> reserved \<and> {c..<b} \<subseteq> reserved"
proof (induction reserved c rule: skip_reserved.induct)
  case (1 reserved c)
  show ?case
  proof (cases "c \<in> reserved")
    case True
    then have "skip_reserved reserved (c + 1) = Some b" "\<not> c \<ge> u32_MAX"
      using 1(2) by (simp_all add: skip_reserved.simps [of reserved c] split: if_splits)
    then have "c + 1 \<le> b \<and> b \<notin> reserved \<and> {c + 1..<b} \<subseteq> reserved"
      using 1(1) True by simp
    moreover have "{c..<b} \<subseteq> insert c {c + 1..<b}"
      by auto
    ultimately show ?thesis
      using True by auto
  next
    case False
    then show ?thesis
      using 1(2) by (simp add: skip_reserved.simps [of reserved c])
  qed
qed

lemma skip_reserved_returns:
  assumes "finite reserved" "u32_MAX \<notin> reserved" "c \<le> u32_MAX"
  shows "\<exists>b. skip_reserved reserved c = Some b"
  using assms
proof (induction reserved c rule: skip_reserved.induct)
  case (1 reserved c)
  show ?case
  proof (cases "c \<in> reserved")
    case True
    then have "\<not> c \<ge> u32_MAX"
      using 1(3,4) by (cases "c = u32_MAX") auto
    then show ?thesis
      using 1 True by (subst skip_reserved.simps) simp
  qed (simp add: skip_reserved.simps [of reserved c])
qed

lemma links_border:
  assumes L: "links W owner r borders reserved counter" and new: "unused W (end_port e)" "unused W (end_port f)" "e \<noteq> f"
    and own: "owner (fst e) = Some v" "owner (fst f) = Some w" "v \<noteq> w"
    and b: "skip_reserved reserved counter = Some b" "b < u32_MAX"
  defines "canon \<equiv> if v \<le> w then (end_port e, end_port f) else (end_port f, end_port e)"
  shows "links (insert (end_port e, end_port f) W) owner (plugged f (FreePort b) (plugged e (FreePort b) r))
    (borders(b \<mapsto> canon)) reserved (b + 1)"
proof -
  note D = linksD [OF L] and S = skip_reserved_Some [OF b(1)]
  let ?r = "r(e := FreePort b, f := FreePort b)" and ?bs = "borders(b \<mapsto> canon)"
  have r: "plugged f (FreePort b) (plugged e (FreePort b) r) = ?r"
    by (simp add: plugged_def)
  have open_ends: "r e = DISCONNECTED" "r f = DISCONNECTED"
    using D(2) new by blast+
  have fresh: "borders b = None"
    using D(3) [of b] S by (cases "borders b") auto
  have nowhere: "r g \<noteq> FreePort b" for g
    using D(6) [of g b] fresh S b(2) by auto
  have glue: "glue ?bs (end_port g) (r g) = glue borders (end_port g) (r g)" for g
    using nowhere [of g] by (auto simp: glue_def split: port_ref.split)
  show ?thesis
    unfolding r
  proof (rule linksI)
    show "glue ?bs (end_port g) (?r g) = y" if "ends_at (insert (end_port e, end_port f) W) (end_port g) y" for g y
      using that new(1,2)
    proof (cases rule: ends_at_new)
      case 3
      then show ?thesis
        using D(1) glue by simp
    qed (use new(3) in \<open>auto simp: glue_def canon_def prod_eq_iff\<close>)
    show "?r g = DISCONNECTED" if "unused (insert (end_port e, end_port f) W) (end_port g)" for g
      using that D(2) [of g] by (auto simp: unused_insert)
    show "c < b + 1 \<and> c \<notin> reserved \<and> border_link owner ?r c x y" if "?bs c = Some (x, y)" for c x y
    proof (cases "c = b")
      case True
      have "border_link owner ?r b (end_port e) (end_port f)" if "v < w"
        unfolding border_link_def using that own nowhere
        by (intro exI [of _ e] exI [of _ f] exI [of _ v] exI [of _ w]) auto
      moreover have "border_link owner ?r b (end_port f) (end_port e)" if "w < v"
        unfolding border_link_def using that own nowhere
        by (intro exI [of _ f] exI [of _ e] exI [of _ w] exI [of _ v]) auto
      ultimately show ?thesis
        using True \<open>?bs c = Some (x, y)\<close> own(3) S by (auto simp: canon_def split: if_splits)
    next
      case False
      then have old: "borders c = Some (x, y)"
        using that by simp
      have "border_link owner ?r c x y"
        using D(3) [OF old] D(8) open_ends False
        by (intro border_link_frame [OF D(5) [OF old]]) (auto split: if_splits)
      then show ?thesis
        using D(3,4) [OF old] S by simp
    qed
    show "c = u32_MAX \<or> c \<in> dom ?bs \<or> c \<in> reserved" if "?r g = FreePort c" for g c
      using that D(6) [of g c] by (auto split: if_splits)
    show "{..<b + 1} \<subseteq> dom ?bs \<union> reserved"
    proof
      fix c
      assume "c \<in> {..<b + 1}"
      then have "c < counter \<or> c \<in> {counter..<b} \<or> c = b"
        by auto
      then show "c \<in> dom ?bs \<union> reserved"
        using D(7) S by auto
    qed
    have "(end_port e, end_port f) \<notin> inner W"
      using new(1) inner_subset(1) by (auto simp: unused_def ends_at_def)
    moreover have "finite (dom borders)"
      using links_counter(2) [OF L] finite_subset by blast
    ultimately show "card (dom ?bs) \<le> card (inner (insert (end_port e, end_port f) W))"
      using D(12) inner_subset(3) [OF D(10)] fresh by (simp add: domIff)
  qed (use D(9-11) b(2) in auto)
qed

end
