(* ===== verification/Stream_Steps.thy ===== *)
theory Stream_Steps
  imports Stream_Inv
begin

text \<open>
  The steps of the streaming loop keep the invariant: assigning agents, installing resolved wires and
  interfaces, buffering and resolving the wires that wait for an agent.
\<close>

section \<open>Streams as sets of wires\<close>

definition directive_wire :: "connection_directive \<Rightarrow> port_ref \<times> port_ref" where
  "directive_wire d =
     (case d of
        Resolved source target \<Rightarrow> (end_port source, end_port target)
      | Pending source i p \<Rightarrow> (end_port source, AgentPort i p)
      | FreePortInterface e f \<Rightarrow> (end_port e, FreePort f))"

fun is_resolved :: "connection_directive \<Rightarrow> bool" where
  "is_resolved (Resolved source target) = True"
| "is_resolved d = False"

fun is_pending :: "connection_directive \<Rightarrow> bool" where
  "is_pending (Pending source i p) = True"
| "is_pending d = False"

fun is_interface :: "connection_directive \<Rightarrow> bool" where
  "is_interface (FreePortInterface e f) = True"
| "is_interface d = False"

definition wires_of :: "(connection_directive \<Rightarrow> bool) \<Rightarrow> connection_directive list \<Rightarrow> (port_ref \<times> port_ref) set" where
  "wires_of P cs = directive_wire ` {d \<in> set cs. P d}"

lemma wires_of_simps [simp]:
  "wires_of P [] = {}"
  "wires_of P (d # cs) = (if P d then insert (directive_wire d) (wires_of P cs) else wires_of P cs)"
  by (auto simp: wires_of_def)

lemma wires_of_kinds: "wires_of is_resolved cs \<union> wires_of is_interface cs \<union> wires_of is_pending cs = directive_wire ` set cs"
proof -
  have "is_resolved d \<or> is_interface d \<or> is_pending d" for d
    by (cases d) auto
  then show ?thesis
    by (auto simp: wires_of_def)
qed

lemma wires_of_subset: "wires_of P cs \<subseteq> directive_wire ` set cs"
  by (auto simp: wires_of_def)

text \<open>No port is the end of two wires.\<close>

definition linear :: "(port_ref \<times> port_ref) set \<Rightarrow> bool" where
  "linear A \<longleftrightarrow> (\<forall>a \<in> A. fst a \<noteq> snd a) \<and> (\<forall>a \<in> A. \<forall>b \<in> A. a \<noteq> b \<longrightarrow> {fst a, snd a} \<inter> {fst b, snd b} = {})"

lemma linear_unused:
  assumes "linear A" "W \<subseteq> A" "(x, y) \<in> A" "(x, y) \<notin> W"
  shows "unused W x" "unused W y" "x \<noteq> y"
proof -
  have sep: "{x, y} \<inter> {fst b, snd b} = {}" if "b \<in> W" for b
    using assms that unfolding linear_def by (metis fst_conv snd_conv subsetD)
  show "unused W x" "unused W y"
    using sep by (fastforce simp: unused_def ends_at_def)+
  show "x \<noteq> y"
    using assms(1,3) by (auto simp: linear_def)
qed

definition wire_valid :: "(agent_id \<rightharpoonup> symbol) \<Rightarrow> port_ref \<times> port_ref \<Rightarrow> bool" where
  "wire_valid ags a \<longleftrightarrow>
     (case fst a of AgentPort i p \<Rightarrow> port_exists ags i p | FreePort f \<Rightarrow> False) \<and>
     (case snd a of AgentPort j q \<Rightarrow> port_exists ags j q | FreePort f \<Rightarrow> f < u32_MAX)"

section \<open>One wire\<close>

definition start_ok :: "nat option \<Rightarrow> (nat \<rightharpoonup> 'b) \<Rightarrow> bool" where
  "start_ok start borders \<longleftrightarrow>
     (case start of None \<Rightarrow> borders = Map.empty | Some s \<Rightarrow> s \<in> dom borders \<and> (\<forall>b \<in> dom borders. s \<le> b))"

definition stream_inv :: "nat \<Rightarrow> (agent_id \<rightharpoonup> symbol) \<Rightarrow> (port_ref \<times> port_ref) set \<Rightarrow> stream_state \<Rightarrow> bool" where
  "stream_inv k ags W st \<longleftrightarrow>
     accs_ok k ags (ss_agent_owner st) (ss_accumulators st) \<and>
     links W (ss_agent_owner st) (raw (ss_agent_owner st) (ss_accumulators st)) (ss_border_map st)
       (ss_reserved st) (ss_border_id_counter st) \<and>
     start_ok (ss_border_id_start st) (ss_border_map st)"

text \<open>The fields that wiring leaves alone.\<close>

definition same_rest :: "stream_state \<Rightarrow> stream_state \<Rightarrow> bool" where
  "same_rest st st' \<longleftrightarrow> ss_agent_owner st' = ss_agent_owner st \<and> ss_reserved st' = ss_reserved st \<and>
     ss_pending st' = ss_pending st \<and> ss_chunks_seen st' = ss_chunks_seen st"

lemma same_rest_refl [simp]: "same_rest st st"
  by (simp add: same_rest_def)

lemma same_rest_trans: "same_rest s t \<Longrightarrow> same_rest t u \<Longrightarrow> same_rest s u"
  by (simp add: same_rest_def)

lemma stream_install_step:
  assumes inv: "stream_inv k ags W st" and ports: "port_exists ags (fst e) (snd e)" "port_exists ags (fst f) (snd f)"
    and new: "unused W (end_port e)" "unused W (end_port f)" "e \<noteq> f"
    and room: "card (inner W) + card (ss_reserved st) < u32_MAX"
  obtains st' where "stream_install e f st = Some st'" "stream_inv k ags (insert (end_port e, end_port f) W) st'"
    "same_rest st st'"
proof -
  let ?own = "ss_agent_owner st" and ?accs = "ss_accumulators st"
  have ok: "accs_ok k ags ?own ?accs" and L: "links W ?own (raw ?own ?accs) (ss_border_map st) (ss_reserved st)
      (ss_border_id_counter st)" and start: "start_ok (ss_border_id_start st) (ss_border_map st)"
    using inv by (simp_all add: stream_inv_def)
  have alive: "fst e \<in> dom ags" "fst f \<in> dom ags"
    using ports by (auto simp: port_exists_def split: option.splits)
  then obtain v w where own: "?own (fst e) = Some v" "?own (fst f) = Some w"
    using accs_okD(3) [OF ok] by blast
  have open_ends: "raw ?own ?accs e = DISCONNECTED" "raw ?own ?accs f = DISCONNECTED"
    using linksD(2) [OF L] new by blast+
  show ?thesis
  proof (cases "v = w")
    case True
    have "pluggable ags ?own (raw ?own ?accs) v e (end_port f)"
      using own True ports open_ends new(3) by (simp add: pluggable_def)
    then obtain accs' where upd: "acc_update v (acc_connect (end_port e) (end_port f)) ?accs = Some accs'"
      "accs_ok k ags ?own accs'" "raw ?own accs' = plugged e (end_port f) (raw ?own ?accs)"
      by (rule accs_ok_plug [OF ok own(1) ports(1) open_ends(1)])
    have "stream_install e f st = Some (st\<lparr>ss_accumulators := accs'\<rparr>)"
      using own True upd(1) by (simp add: stream_install_def install_connection_def)
    then show ?thesis
      using that upd(2,3) links_inner [OF L new] start by (fastforce simp: stream_inv_def same_rest_def)
  next
    case False
    note D = linksD [OF L]
    obtain b where b: "skip_reserved (ss_reserved st) (ss_border_id_counter st) = Some b"
      using skip_reserved_returns [OF D(11,9,8)] by blast
    note S = skip_reserved_Some [OF b]
    have below: "{..<b} \<subseteq> dom (ss_border_map st) \<union> ss_reserved st"
    proof
      fix c
      assume "c \<in> {..<b}"
      then have "c < ss_border_id_counter st \<or> c \<in> {ss_border_id_counter st..<b}"
        by auto
      then show "c \<in> dom (ss_border_map st) \<union> ss_reserved st"
        using D(7) S by auto
    qed
    have fin: "finite (dom (ss_border_map st) \<union> ss_reserved st)"
      using links_counter(2) [OF L] D(11) finite_subset by blast
    have small: "b < u32_MAX"
      using card_mono [OF fin below] card_Un_le [of "dom (ss_border_map st)" "ss_reserved st"] D(12) room by simp
    have nowhere: "raw ?own ?accs g \<noteq> FreePort b" for g
    proof
      assume "raw ?own ?accs g = FreePort b"
      then have "b \<in> dom (ss_border_map st)"
        using D(6) [of g b] S small by auto
      then show False
        using links_counter(2) [OF L] S by auto
    qed
    have "pluggable ags ?own (raw ?own ?accs) v e (FreePort b)"
      using nowhere small by (simp add: pluggable_def)
    then obtain accs1 where one: "acc_update v (acc_connect (end_port e) (FreePort b)) ?accs = Some accs1"
      "accs_ok k ags ?own accs1" "raw ?own accs1 = plugged e (FreePort b) (raw ?own ?accs)"
      by (rule accs_ok_plug [OF ok own(1) ports(1) open_ends(1)])
    have open2: "raw ?own accs1 f = DISCONNECTED"
      using one(3) open_ends new(3) by (simp add: plugged_def)
    have "pluggable ags ?own (raw ?own accs1) w f (FreePort b)"
      using nowhere small own(1) False by (auto simp: pluggable_def one(3) plugged_def)
    then obtain accs2 where two: "acc_update w (acc_connect (end_port f) (FreePort b)) accs1 = Some accs2"
      "accs_ok k ags ?own accs2" "raw ?own accs2 = plugged f (FreePort b) (raw ?own accs1)"
      by (rule accs_ok_plug [OF one(2) own(2) ports(2) open2])
    define canon where "canon = (if v \<le> w then (end_port e, end_port f) else (end_port f, end_port e))"
    define st' where "st' = st\<lparr>ss_accumulators := accs2, ss_border_map := (ss_border_map st)(b \<mapsto> canon),
      ss_border_id_counter := b + 1,
      ss_border_id_start := (if ss_border_id_start st = None then Some b else ss_border_id_start st)\<rparr>"
    have "stream_install e f st = Some st'"
      using own False one(1) two(1) b small S
      by (simp add: stream_install_def install_connection_def Let_def canon_def st'_def)
    moreover have "links (insert (end_port e, end_port f) W) ?own (raw ?own accs2) ((ss_border_map st)(b \<mapsto> canon))
        (ss_reserved st) (b + 1)"
      unfolding two(3) one(3) canon_def by (rule links_border [OF L new own False b small])
    moreover have "start_ok (ss_border_id_start st') ((ss_border_map st)(b \<mapsto> canon))"
      using start links_counter(2) [OF L] S
      by (fastforce simp: start_ok_def st'_def split: option.splits)
    ultimately show ?thesis
      using that two(2) by (simp add: stream_inv_def same_rest_def st'_def)
  qed
qed

lemma install_interface_step:
  assumes inv: "stream_inv k ags W st" and port: "port_exists ags (fst e) (snd e)" and f: "f < u32_MAX" "f \<in> ss_reserved st"
    and new: "unused W (end_port e)" "unused W (FreePort f)"
  obtains st' where "install_interface (FreePortInterface e f) st = Some st'"
    "stream_inv k ags (insert (end_port e, FreePort f) W) st'" "same_rest st st'"
proof -
  let ?own = "ss_agent_owner st" and ?accs = "ss_accumulators st"
  have ok: "accs_ok k ags ?own ?accs" and L: "links W ?own (raw ?own ?accs) (ss_border_map st) (ss_reserved st)
      (ss_border_id_counter st)" and start: "start_ok (ss_border_id_start st) (ss_border_map st)"
    using inv by (simp_all add: stream_inv_def)
  have "fst e \<in> dom ags"
    using port by (auto simp: port_exists_def split: option.splits)
  then obtain v where own: "?own (fst e) = Some v"
    using accs_okD(3) [OF ok] by blast
  have apart: "raw ?own ?accs g \<noteq> FreePort f" for g
  proof
    assume g: "raw ?own ?accs g = FreePort f"
    then have "\<not> unused W (end_port g)"
      using linksD(2) [OF L, of g] f(1) by (auto simp: DISCONNECTED_def)
    then obtain y where y: "ends_at W (end_port g) y"
      by (auto simp: unused_def)
    have "ss_border_map st f = None"
      using linksD(4) [OF L, of f] f(2) by (cases "ss_border_map st f") auto
    then have "y = FreePort f"
      using linksD(1) [OF L y] g by (simp add: glue_def)
    then show False
      using y new(2) by (auto simp: unused_def ends_at_def)
  qed
  have "raw ?own ?accs e = DISCONNECTED"
    using linksD(2) [OF L] new(1) by blast
  moreover have "pluggable ags ?own (raw ?own ?accs) v e (FreePort f)"
    using apart f(1) by (simp add: pluggable_def)
  ultimately obtain accs' where upd: "acc_update v (acc_connect (end_port e) (FreePort f)) ?accs = Some accs'"
      "accs_ok k ags ?own accs'" "raw ?own accs' = plugged e (FreePort f) (raw ?own ?accs)"
    by (rule accs_ok_plug [OF ok own(1) port])
  have "install_interface (FreePortInterface e f) st = Some (st\<lparr>ss_accumulators := accs'\<rparr>)"
    using own upd(1) by (simp add: install_interface_def)
  then show ?thesis
    using that upd(2,3) links_interface [OF L new f(2)] start by (fastforce simp: stream_inv_def same_rest_def)
qed

section \<open>The passes over the directives of a batch\<close>

lemma resolved_pass:
  assumes "stream_inv k ags W st" "linear A" "W \<union> wires_of is_resolved cs \<subseteq> A" "distinct (map directive_wire cs)"
    and "W \<inter> wires_of is_resolved cs = {}" "\<forall>d \<in> set cs. is_resolved d \<longrightarrow> wire_valid ags (directive_wire d)"
    and "finite A" "card (inner A) + card (ss_reserved st) < u32_MAX"
  shows "\<exists>st'. ofold install_resolved cs st = Some st' \<and> stream_inv k ags (W \<union> wires_of is_resolved cs) st' \<and> same_rest st st'"
  using assms(1,3-6,8)
proof (induction cs arbitrary: W st)
  case (Cons d cs)
  show ?case
  proof (cases d)
    case (Resolved e f)
    let ?a = "(end_port e, end_port f)"
    have d: "directive_wire d = ?a" "is_resolved d"
      by (simp_all add: Resolved directive_wire_def)
    have mem: "?a \<in> A" "?a \<notin> W" "W \<subseteq> A"
      using Cons.prems(2,4) d by auto
    note new = linear_unused [OF assms(2) mem(3,1,2)]
    have ports: "port_exists ags (fst e) (snd e)" "port_exists ags (fst f) (snd f)"
      using Cons.prems(5) d by (auto simp: wire_valid_def)
    have "card (inner W) \<le> card (inner A)"
      using mem(3) assms(7) by (intro card_mono inner_subset)
    then have room: "card (inner W) + card (ss_reserved st) < u32_MAX"
      using Cons.prems(6) by simp
    have "e \<noteq> f"
      using new(3) by auto
    then obtain st1 where st1: "stream_install e f st = Some st1" "stream_inv k ags (insert ?a W) st1" "same_rest st st1"
      using stream_install_step [OF Cons.prems(1) ports new(1,2) _ room] by blast
    have "?a \<notin> wires_of is_resolved cs"
      using Cons.prems(3) wires_of_subset [of is_resolved cs] d by auto
    then obtain st2 where st2: "ofold install_resolved cs st1 = Some st2"
        "stream_inv k ags (insert ?a W \<union> wires_of is_resolved cs) st2" "same_rest st1 st2"
      using Cons.IH [OF st1(2)] Cons.prems st1(3) d by (auto simp: same_rest_def)
    moreover have "install_resolved d st = Some st1"
      using st1(1) by (simp add: install_resolved_def Resolved)
    ultimately show ?thesis
      using d same_rest_trans [OF st1(3) st2(3)] by (intro exI [of _ st2]) simp
  qed (use Cons in \<open>simp_all add: install_resolved_def\<close>)
qed simp

lemma interface_pass:
  assumes "stream_inv k ags W st" "linear A" "W \<union> wires_of is_interface cs \<subseteq> A" "distinct (map directive_wire cs)"
    and "W \<inter> wires_of is_interface cs = {}" "\<forall>d \<in> set cs. is_interface d \<longrightarrow> wire_valid ags (directive_wire d)"
    and "\<forall>e f. FreePortInterface e f \<in> set cs \<longrightarrow> f \<in> ss_reserved st"
  shows "\<exists>st'. ofold install_interface cs st = Some st' \<and> stream_inv k ags (W \<union> wires_of is_interface cs) st' \<and> same_rest st st'"
  using assms(1,3-7)
proof (induction cs arbitrary: W st)
  case (Cons d cs)
  show ?case
  proof (cases d)
    case (FreePortInterface e f)
    let ?a = "(end_port e, FreePort f)"
    have d: "directive_wire d = ?a" "is_interface d"
      by (simp_all add: FreePortInterface directive_wire_def)
    have mem: "?a \<in> A" "?a \<notin> W" "W \<subseteq> A"
      using Cons.prems(2,4) d by auto
    note new = linear_unused [OF assms(2) mem(3,1,2)]
    have ports: "port_exists ags (fst e) (snd e)" "f < u32_MAX" "f \<in> ss_reserved st"
      using Cons.prems(5) Cons.prems(6) [rule_format, of e f] d FreePortInterface by (simp_all add: wire_valid_def)
    obtain st1 where st1: "install_interface d st = Some st1" "stream_inv k ags (insert ?a W) st1" "same_rest st st1"
      using install_interface_step [OF Cons.prems(1) ports new(1,2)] FreePortInterface by blast
    have "?a \<notin> wires_of is_interface cs"
      using Cons.prems(3) wires_of_subset [of is_interface cs] d by auto
    then obtain st2 where st2: "ofold install_interface cs st1 = Some st2"
        "stream_inv k ags (insert ?a W \<union> wires_of is_interface cs) st2" "same_rest st1 st2"
      using Cons.IH [OF st1(2)] Cons.prems st1(3) d by (auto simp: same_rest_def)
    then show ?thesis
      using st1 d same_rest_trans [OF st1(3) st2(3)]
      by (intro exI [of _ st2]) simp
  qed (use Cons in \<open>simp_all add: install_interface_def\<close>)
qed simp

section \<open>The pending store\<close>

definition pending_wire :: "pending_connection \<Rightarrow> port_ref \<times> port_ref" where
  "pending_wire pc = (end_port (pd_source pc), AgentPort (pd_target_agent_id pc) (pd_target_port pc))"

definition waiting :: "(agent_id \<rightharpoonup> pending_connection list) \<Rightarrow> agent_id \<Rightarrow> pending_connection list" where
  "waiting pending i = (case pending i of None \<Rightarrow> [] | Some pcs \<Rightarrow> pcs)"

definition pending_wires :: "(agent_id \<rightharpoonup> pending_connection list) \<Rightarrow> (port_ref \<times> port_ref) set" where
  "pending_wires pending = (\<Union>i. pending_wire ` set (waiting pending i))"

definition pending_ok :: "(agent_id \<rightharpoonup> pending_connection list) \<Rightarrow> bool" where
  "pending_ok pending \<longleftrightarrow>
     (\<forall>i. distinct (map pending_wire (waiting pending i)) \<and> pending i \<noteq> Some [] \<and>
        (\<forall>pc \<in> set (waiting pending i). pd_target_agent_id pc = i))"

lemma pending_wires_at:
  "pending_wires pending = pending_wire ` set (waiting pending i) \<union> (\<Union>j \<in> - {i}. pending_wire ` set (waiting pending j))"
  unfolding pending_wires_def by auto

lemma buffer_one:
  assumes ok: "pending_ok (ss_pending st)" and new: "pending_wires (ss_pending st) \<inter> wires_of is_pending [d] = {}"
  shows "\<exists>pending. buffer_pending d st = st\<lparr>ss_pending := pending\<rparr> \<and> pending_ok pending \<and>
    pending_wires pending = pending_wires (ss_pending st) \<union> wires_of is_pending [d] \<and>
    dom pending = dom (ss_pending st) \<union> {i. \<exists>e p. d = Pending e i p}"
proof (cases d)
  case (Pending e i p)
  define pc where "pc = \<lparr>pd_source = e, pd_target_agent_id = i, pd_target_port = p, pd_birth_chunk = ss_chunks_seen st\<rparr>"
  define pending where "pending = (ss_pending st)(i \<mapsto> waiting (ss_pending st) i @ [pc])"
  have wire: "pending_wire pc = directive_wire d"
    by (simp add: Pending pc_def pending_wire_def directive_wire_def)
  have wait: "waiting pending j = (if j = i then waiting (ss_pending st) i @ [pc] else waiting (ss_pending st) j)" for j
    by (simp add: pending_def waiting_def)
  have "pending_wire pc \<notin> pending_wire ` set (waiting (ss_pending st) i)"
    using new by (auto simp: wire Pending pending_wires_def)
  then have "pending_ok pending"
    using ok unfolding pending_ok_def wait by (auto simp: pc_def pending_def)
  moreover have "pending_wires pending = insert (pending_wire pc) (pending_wires (ss_pending st))"
    unfolding pending_wires_at [of _ i] by (simp add: wait)
  moreover have "buffer_pending d st = st\<lparr>ss_pending := pending\<rparr>"
    by (simp add: buffer_pending_def Pending pending_def pc_def waiting_def)
  ultimately show ?thesis
    by (intro exI [of _ pending]) (auto simp: wire Pending pending_def)
qed (use ok in \<open>auto simp: buffer_pending_def intro: exI [of _ "ss_pending st"]\<close>)

lemma buffer_pass:
  assumes "pending_ok (ss_pending st)" "distinct (map directive_wire cs)"
    "pending_wires (ss_pending st) \<inter> wires_of is_pending cs = {}"
  shows "\<exists>pending. fold buffer_pending cs st = st\<lparr>ss_pending := pending\<rparr> \<and> pending_ok pending \<and>
    pending_wires pending = pending_wires (ss_pending st) \<union> wires_of is_pending cs \<and>
    dom pending = dom (ss_pending st) \<union> {i. \<exists>e p. Pending e i p \<in> set cs}"
  using assms
proof (induction cs arbitrary: st)
  case (Cons d cs)
  have head: "pending_wires (ss_pending st) \<inter> wires_of is_pending [d] = {}"
    using Cons.prems by (auto split: if_splits)
  obtain pend1 where one: "buffer_pending d st = st\<lparr>ss_pending := pend1\<rparr>" "pending_ok pend1"
      "pending_wires pend1 = pending_wires (ss_pending st) \<union> wires_of is_pending [d]"
      "dom pend1 = dom (ss_pending st) \<union> {i. \<exists>e p. d = Pending e i p}"
    using buffer_one [OF Cons.prems(1) head] by blast
  have "pending_wires pend1 \<inter> wires_of is_pending cs = {}"
    using one(3) Cons.prems(2,3) wires_of_subset [of is_pending cs] by (auto split: if_splits)
  then obtain pend2 where "fold buffer_pending cs (buffer_pending d st) = st\<lparr>ss_pending := pend2\<rparr>" "pending_ok pend2"
      "pending_wires pend2 = pending_wires pend1 \<union> wires_of is_pending cs"
      "dom pend2 = dom pend1 \<union> {i. \<exists>e p. Pending e i p \<in> set cs}"
    using Cons.IH [of "buffer_pending d st"] one Cons.prems(2) by auto
  then show ?case
    using one(3,4) by (intro exI [of _ pend2]) auto
next
  case Nil
  then show ?case
    by (intro exI [of _ "ss_pending st"]) simp
qed

text \<open>The entries of one target are wired, and leave the store.\<close>

lemma pending_remove:
  assumes "pending_ok pending"
  shows "pending_ok (pending(i := None))" "pending_wires (pending(i := None)) = pending_wires pending - pending_wire ` set (waiting pending i)"
proof -
  have wait: "waiting (pending(i := None)) j = (if j = i then [] else waiting pending j)" for j
    by (simp add: waiting_def)
  show "pending_ok (pending(i := None))"
    using assms unfolding pending_ok_def wait by auto
  have "pending_wire pc \<notin> pending_wire ` set (waiting pending i)" if "j \<noteq> i" "pc \<in> set (waiting pending j)" for j pc
    using assms that unfolding pending_ok_def by (fastforce simp: pending_wire_def)
  then have "(\<Union>j \<in> - {i}. pending_wire ` set (waiting pending j)) \<inter> pending_wire ` set (waiting pending i) = {}"
    by blast
  moreover have "pending_wires (pending(i := None)) = (\<Union>j \<in> - {i}. pending_wire ` set (waiting pending j))"
    unfolding pending_wires_at [of _ i] by (simp add: wait)
  ultimately show "pending_wires (pending(i := None)) = pending_wires pending - pending_wire ` set (waiting pending i)"
    unfolding pending_wires_at [of pending i] by blast
qed

lemma install_waiting:
  assumes "stream_inv k ags W st" "linear A" "W \<union> pending_wire ` set pcs \<subseteq> A" "distinct (map pending_wire pcs)"
    and "W \<inter> pending_wire ` set pcs = {}" "\<forall>pc \<in> set pcs. wire_valid ags (pending_wire pc)"
    and "finite A" "card (inner A) + card (ss_reserved st) < u32_MAX"
  shows "\<exists>st'. ofold (\<lambda>pc. stream_install (pd_source pc) (pd_target_agent_id pc, pd_target_port pc)) pcs st = Some st' \<and>
    stream_inv k ags (W \<union> pending_wire ` set pcs) st' \<and> same_rest st st'"
proof -
  let ?d = "\<lambda>pc. Resolved (pd_source pc) (pd_target_agent_id pc, pd_target_port pc)"
  have wire: "directive_wire (?d pc) = pending_wire pc" for pc
    by (simp add: directive_wire_def pending_wire_def)
  have wires: "wires_of is_resolved (map ?d pcs) = pending_wire ` set pcs"
    by (induction pcs) (simp_all add: wire)
  have "ofold (\<lambda>pc. stream_install (pd_source pc) (pd_target_agent_id pc, pd_target_port pc)) pcs s =
      ofold install_resolved (map ?d pcs) s" for s
    by (induction pcs arbitrary: s) (auto simp: install_resolved_def split: Option.bind_split)
  then show ?thesis
    using resolved_pass [OF assms(1,2), of "map ?d pcs"] assms(3-8) by (simp add: wires wire comp_def)
qed

lemma resolve_pass:
  assumes "stream_inv k ags W st" "pending_ok (ss_pending st)" "linear A" "W \<union> pending_wires (ss_pending st) \<subseteq> A"
    and "W \<inter> pending_wires (ss_pending st) = {}"
    and "\<forall>i \<in> set is. \<forall>pc \<in> set (waiting (ss_pending st) i). wire_valid ags (pending_wire pc)"
    and "finite A" "card (inner A) + card (ss_reserved st) < u32_MAX"
  shows "\<exists>st' W'. ofold resolve_pending is st = Some st' \<and> stream_inv k ags W' st' \<and> pending_ok (ss_pending st') \<and>
    W' \<union> pending_wires (ss_pending st') = W \<union> pending_wires (ss_pending st) \<and> W' \<inter> pending_wires (ss_pending st') = {} \<and>
    dom (ss_pending st') = dom (ss_pending st) - set is \<and>
    ss_agent_owner st' = ss_agent_owner st \<and> ss_reserved st' = ss_reserved st \<and> ss_chunks_seen st' = ss_chunks_seen st"
  using assms(1,2,4-6,8)
proof (induction "is" arbitrary: W st)
  case (Cons i js)
  show ?case
  proof (cases "ss_pending st i")
    case None
    then have "resolve_pending i st = Some st" "dom (ss_pending st) - set (i # js) = dom (ss_pending st) - set js"
      by (auto simp: resolve_pending_def)
    then show ?thesis
      using Cons.IH [OF Cons.prems(1-4)] Cons.prems(5,6) by simp
  next
    case (Some pcs)
    let ?st = "st\<lparr>ss_pending := (ss_pending st)(i := None)\<rparr>"
    have pcs: "waiting (ss_pending st) i = pcs"
      by (simp add: waiting_def Some)
    note R = pending_remove [OF Cons.prems(2), of i, unfolded pcs]
    have sub: "pending_wire ` set pcs \<subseteq> pending_wires (ss_pending st)"
      using pcs by (auto simp: pending_wires_def)
    have inv: "stream_inv k ags W ?st"
      using Cons.prems(1) by (simp add: stream_inv_def)
    have "distinct (map pending_wire pcs)"
      using Cons.prems(2) pcs unfolding pending_ok_def by blast
    moreover have "W \<union> pending_wire ` set pcs \<subseteq> A" "W \<inter> pending_wire ` set pcs = {}"
        "\<forall>pc \<in> set pcs. wire_valid ags (pending_wire pc)"
      using sub Cons.prems(3-5) pcs by auto
    ultimately obtain st1 where st1: "resolve_pending i st = Some st1" "stream_inv k ags (W \<union> pending_wire ` set pcs) st1"
        "same_rest ?st st1"
      using install_waiting [OF inv assms(3), of pcs] Cons.prems(6) assms(7) by (auto simp: resolve_pending_def Some)
    have rest: "ss_pending st1 = (ss_pending st)(i := None)" "ss_reserved st1 = ss_reserved st"
      "ss_agent_owner st1 = ss_agent_owner st" "ss_chunks_seen st1 = ss_chunks_seen st"
      using st1(3) by (simp_all add: same_rest_def)
    have wait: "waiting (ss_pending st1) j = (if j = i then [] else waiting (ss_pending st) j)" for j
      by (simp add: rest waiting_def)
    have valid: "\<forall>j \<in> set js. \<forall>pc \<in> set (waiting (ss_pending st1) j). wire_valid ags (pending_wire pc)"
      using Cons.prems(5) by (auto simp: wait)
    have parts: "(W \<union> pending_wire ` set pcs) \<union> pending_wires (ss_pending st1) \<subseteq> A"
        "(W \<union> pending_wire ` set pcs) \<inter> pending_wires (ss_pending st1) = {}" "pending_ok (ss_pending st1)"
      using R sub Cons.prems(3,4) by (auto simp: rest)
    have room: "card (inner A) + card (ss_reserved st1) < u32_MAX"
      using Cons.prems(6) by (simp add: rest)
    obtain st2 W2 where st2: "ofold resolve_pending js st1 = Some st2" "stream_inv k ags W2 st2" "pending_ok (ss_pending st2)"
        "W2 \<union> pending_wires (ss_pending st2) = (W \<union> pending_wire ` set pcs) \<union> pending_wires (ss_pending st1)"
        "W2 \<inter> pending_wires (ss_pending st2) = {}" "dom (ss_pending st2) = dom (ss_pending st1) - set js"
        "ss_agent_owner st2 = ss_agent_owner st1" "ss_reserved st2 = ss_reserved st1" "ss_chunks_seen st2 = ss_chunks_seen st1"
      using Cons.IH [OF st1(2) parts(3,1,2) valid room] by blast
    then show ?thesis
      using st1(1) R(2) sub rest by (intro exI [of _ st2] exI [of _ W2]) auto
  qed
qed auto

end
