(* ===== verification/Stream_Loop.thy ===== *)
theory Stream_Loop
  imports Stream_Steps
begin

text \<open>
  The streaming loop under a lawful strategy: a batch, and a whole stream, of a well-formed stream
  never panics and keeps the invariant; the only error is an expired pending wire.
\<close>

section \<open>Reserving interface identifiers and assigning agents\<close>

definition interface_ids :: "connection_directive list \<Rightarrow> nat list" where
  "interface_ids cs = List.map_filter (\<lambda>d. case d of FreePortInterface e f \<Rightarrow> Some f | _ \<Rightarrow> None) cs"

lemma interface_ids_simps [simp]:
  "interface_ids [] = []"
  "interface_ids (Resolved s t # cs) = interface_ids cs"
  "interface_ids (Pending s i p # cs) = interface_ids cs"
  "interface_ids (FreePortInterface e f # cs) = f # interface_ids cs"
  by (simp_all add: interface_ids_def map_filter_simps)

lemma set_interface_ids: "f \<in> set (interface_ids cs) \<longleftrightarrow> (\<exists>e. FreePortInterface e f \<in> set cs)"
proof (induction cs)
  case (Cons d cs)
  then show ?case
    by (cases d) auto
qed simp

lemma interface_ids_append [simp]: "interface_ids (cs @ ds) = interface_ids cs @ interface_ids ds"
  by (induction cs rule: list.induct) (simp_all add: interface_ids_def map_filter_def)

lemma reserve_interface_simps [simp]:
  "reserve_interface (Resolved s t) st = st" "reserve_interface (Pending s i p) st = st"
  "f \<noteq> u32_MAX \<Longrightarrow> reserve_interface (FreePortInterface e f) st = st\<lparr>ss_reserved := insert f (ss_reserved st)\<rparr>"
  by (simp_all add: reserve_interface_def)

lemma reserve_pass:
  assumes "stream_inv k ags W st" "\<forall>f \<in> set (interface_ids cs). f \<notin> dom (ss_border_map st) \<and> f < u32_MAX"
  shows "fold reserve_interface cs st = st\<lparr>ss_reserved := ss_reserved st \<union> set (interface_ids cs)\<rparr> \<and>
    stream_inv k ags W (fold reserve_interface cs st)"
  using assms
proof (induction cs arbitrary: st)
  case (Cons d cs)
  show ?case
  proof (cases d)
    case (FreePortInterface e f)
    let ?st = "st\<lparr>ss_reserved := insert f (ss_reserved st)\<rparr>"
    have f: "f \<notin> dom (ss_border_map st)" "f \<noteq> u32_MAX"
      using Cons.prems(2) FreePortInterface by auto
    have "stream_inv k ags W ?st"
      using Cons.prems(1) links_reserve [OF _ f] by (simp add: stream_inv_def)
    then have "fold reserve_interface cs ?st = ?st\<lparr>ss_reserved := ss_reserved ?st \<union> set (interface_ids cs)\<rparr> \<and>
        stream_inv k ags W (fold reserve_interface cs ?st)"
      using Cons.prems(2) FreePortInterface by (intro Cons.IH) simp_all
    then show ?thesis
      using f FreePortInterface by (elim conjE) simp
  qed (use Cons.IH [OF Cons.prems(1)] Cons.prems(2) in auto)
qed simp

lemma map_add_fresh: "i \<notin> fst ` set ps \<Longrightarrow> m(i \<mapsto> v) ++ map_of ps = m ++ map_of ((i, v) # ps)"
proof -
  assume "i \<notin> fst ` set ps"
  then have "map_of ps i = None"
    by (simp add: map_of_eq_None_iff)
  then show ?thesis
    by (auto simp: fun_eq_iff map_add_def split: option.split)
qed

lemma map_of_override: "(\<lambda>i. if i \<in> fst ` set ps then map_of ps i else m i) = m ++ map_of ps"
proof
  fix i
  show "(if i \<in> fst ` set ps then map_of ps i else m i) = (m ++ map_of ps) i"
  proof (cases "map_of ps i")
    case None
    then show ?thesis
      using map_of_eq_None_iff [of ps i] by (simp add: map_add_def)
  next
    case (Some s)
    then have "i \<in> fst ` set ps"
      by (auto dest: map_of_SomeD intro: rev_image_eqI)
    then show ?thesis
      using Some by (simp add: map_add_def)
  qed
qed

lemma assign_pass:
  assumes "stream_inv k ags W st" "distinct (map fst res)"
    and "\<forall>(i, w) \<in> set res. w < k \<and> i \<notin> dom ags \<and> i < u32_MAX \<and> symbols i \<noteq> None"
  shows "\<exists>accs owner. assign_agents num symbols res st = Inr (st\<lparr>ss_agent_owner := owner, ss_accumulators := accs\<rparr>) \<and>
    stream_inv k (\<lambda>i. if i \<in> fst ` set res then symbols i else ags i) W (st\<lparr>ss_agent_owner := owner, ss_accumulators := accs\<rparr>) \<and>
    owner = ss_agent_owner st ++ map_of res \<and>
    (\<forall>w < k. card (owned owner w) = card (owned (ss_agent_owner st) w) + count_list (map snd res) w)"
  using assms
proof (induction res arbitrary: st ags)
  case Nil
  then show ?case
    by (intro exI [of _ "ss_accumulators st"] exI [of _ "ss_agent_owner st"]) simp
next
  case (Cons a res)
  obtain i v where a: "a = (i, v)"
    by (cases a)
  obtain s where s: "symbols i = Some s"
    using Cons.prems(3) a by auto
  have new: "i \<notin> dom ags" "i < u32_MAX" "v < k" "i \<notin> fst ` set res"
    using Cons.prems(2,3) a by auto
  have ok: "accs_ok k ags (ss_agent_owner st) (ss_accumulators st)"
    using Cons.prems(1) by (simp add: stream_inv_def)
  have none: "ss_agent_owner st i = None"
    using new(1) accs_okD(3) [OF ok] by blast
  define own where "own = (ss_agent_owner st)(i \<mapsto> v)"
  define accs1 where "accs1 = (ss_accumulators st)[v := add_agent i s (ss_accumulators st ! v)]"
  let ?st = "st\<lparr>ss_agent_owner := own, ss_accumulators := accs1\<rparr>"
  note A = accs_ok_add [OF ok new(1-3), of s, folded own_def accs1_def]
  have inv: "stream_inv k (ags(i \<mapsto> s)) W ?st"
    using Cons.prems(1) A links_owner [where owner = "ss_agent_owner st" and i = i and w = v, folded own_def] none
    by (simp add: stream_inv_def)
  have pre: "\<forall>(j, w) \<in> set res. w < k \<and> j \<notin> dom (ags(i \<mapsto> s)) \<and> j < u32_MAX \<and> symbols j \<noteq> None"
    using Cons.prems(3) new(4) by force
  have dist: "distinct (map fst res)"
    using Cons.prems(2) by simp
  obtain accs where IH: "assign_agents num symbols res ?st =
        Inr (st\<lparr>ss_agent_owner := own ++ map_of res, ss_accumulators := accs\<rparr>)"
      "stream_inv k (\<lambda>j. if j \<in> fst ` set res then symbols j else (ags(i \<mapsto> s)) j) W
        (st\<lparr>ss_agent_owner := own ++ map_of res, ss_accumulators := accs\<rparr>)"
      "\<forall>w < k. card (owned (own ++ map_of res) w) = card (owned own w) + count_list (map snd res) w"
    using Cons.IH [OF inv dist pre] by auto
  have own: "own ++ map_of res = ss_agent_owner st ++ map_of (a # res)"
    unfolding own_def a by (rule map_add_fresh [OF new(4)])
  have syms: "(\<lambda>j. if j \<in> fst ` set res then symbols j else (ags(i \<mapsto> s)) j) =
      (\<lambda>j. if j \<in> fst ` set (a # res) then symbols j else ags j)"
    using s new(4) by (auto simp: a fun_eq_iff)
  have owned: "owned own w = (if w = v then insert i (owned (ss_agent_owner st) w) else owned (ss_agent_owner st) w)" for w
    using none by (auto simp: owned_def own_def)
  have "finite (owned (ss_agent_owner st) w)" if "w < k" for w
    using acc_okD(6) [OF accs_okD(2) [OF ok that]] .
  then have "card (owned own w) = card (owned (ss_agent_owner st) w) + (if w = v then 1 else 0)" if "w < k" for w
    using that none unfolding owned by (auto simp: owned_def)
  then have "\<forall>w < k. card (owned (ss_agent_owner st ++ map_of (a # res)) w) =
      card (owned (ss_agent_owner st) w) + count_list (map snd (a # res)) w"
    using IH(3) unfolding own by (auto simp: a)
  moreover have "assign_agents num symbols (a # res) st =
      Inr (st\<lparr>ss_agent_owner := ss_agent_owner st ++ map_of (a # res), ss_accumulators := accs\<rparr>)"
    using IH(1) s new(3) accs_okD(1) [OF ok] unfolding own by (simp add: a own_def accs1_def)
  ultimately show ?case
    using IH(2) unfolding own syms by blast
qed

lemma symbol_lookup_map_of: "distinct (map fst (ab_agents batch)) \<Longrightarrow> symbol_lookup batch = map_of (ab_agents batch)"
proof -
  have "distinct (map fst ags) \<Longrightarrow> fold (\<lambda>(i, s) m. m(i \<mapsto> s)) ags m = m ++ map_of ags" for ags and m :: "agent_id \<rightharpoonup> symbol"
  proof (induction ags arbitrary: m)
    case (Cons a ags)
    obtain i s where a: "a = (i, s)"
      by (cases a)
    have "m(i \<mapsto> s) ++ map_of ags = m ++ map_of (a # ags)"
      using Cons.prems unfolding a by (intro map_add_fresh) simp
    moreover have "fold (\<lambda>(i, s) m. m(i \<mapsto> s)) (a # ags) m = fold (\<lambda>(i, s) m. m(i \<mapsto> s)) ags (m(i \<mapsto> s))"
      by (simp only: a fold_simps prod.case)
    moreover have "distinct (map fst ags)"
      using Cons.prems by simp
    ultimately show ?case
      using Cons.IH by metis
  qed simp
  then show "distinct (map fst (ab_agents batch)) \<Longrightarrow> ?thesis"
    by (simp add: symbol_lookup_def)
qed

section \<open>Wiring a batch\<close>

lemma port_exists_sub: "port_exists AGS i p \<Longrightarrow> ags \<subseteq>\<^sub>m AGS \<Longrightarrow> i \<in> dom ags \<Longrightarrow> port_exists ags i p"
  unfolding port_exists_def map_le_def by auto

lemma wire_valid_sub:
  assumes "wire_valid AGS a" "ags \<subseteq>\<^sub>m AGS" "\<And>i p. fst a = AgentPort i p \<Longrightarrow> i \<in> dom ags" "\<And>i p. snd a = AgentPort i p \<Longrightarrow> i \<in> dom ags"
  shows "wire_valid ags a"
  using assms port_exists_sub [OF _ assms(2)] by (auto simp: wire_valid_def split: port_ref.splits)

text \<open>The wires that wait have their source in the net already.\<close>

definition sources_in :: "(agent_id \<rightharpoonup> symbol) \<Rightarrow> (port_ref \<times> port_ref) set \<Rightarrow> bool" where
  "sources_in ags P \<longleftrightarrow> (\<forall>a \<in> P. \<exists>i p. fst a = AgentPort i p \<and> i \<in> dom ags)"

lemma pending_expired_kind:
  "pending_expired env life st = Some e \<Longrightarrow> life \<noteq> u32_MAX \<and> (\<exists>i age. e = PendingConnectionExpired i age life)"
  by (auto simp: pending_expired_def split: if_splits option.splits)

lemma wires_of_disjoint:
  assumes "distinct (map directive_wire cs)" "\<And>d. P d \<Longrightarrow> \<not> Q d"
  shows "wires_of P cs \<inter> wires_of Q cs = {}"
proof -
  have "inj_on directive_wire (set cs)"
    using assms(1) by (simp add: distinct_map)
  then show ?thesis
    using assms(2) unfolding wires_of_def inj_on_def by blast
qed

lemma set_parts:
  assumes "W \<union> P \<subseteq> A" "X \<subseteq> A" "X \<inter> (W \<union> P) = {}" "R \<subseteq> X" "I \<subseteq> X" "R \<inter> I = {}"
  shows "W \<union> R \<subseteq> A" "W \<inter> R = {}" "W \<union> R \<union> I \<subseteq> A" "(W \<union> R) \<inter> I = {}"
  using assms by blast+

lemma set_parts_pending:
  assumes "W \<union> P \<subseteq> A" "X \<subseteq> A" "X \<inter> (W \<union> P) = {}" "R \<subseteq> X" "I \<subseteq> X" "Q \<subseteq> X" "R \<inter> Q = {}" "I \<inter> Q = {}" "W \<inter> P = {}"
  shows "W \<union> R \<union> I \<union> (P \<union> Q) \<subseteq> A" "(W \<union> R \<union> I) \<inter> (P \<union> Q) = {}"
  using assms by blast+

lemma wire_step:
  assumes inv: "stream_inv k ags W st" "pending_ok (ss_pending st)" "W \<inter> pending_wires (ss_pending st) = {}"
    and A: "linear A" "finite A" "\<forall>a \<in> A. wire_valid AGS a" "ags \<subseteq>\<^sub>m AGS" "W \<union> pending_wires (ss_pending st) \<subseteq> A"
    and cs: "distinct (map directive_wire cs)" "directive_wire ` set cs \<subseteq> A"
      "directive_wire ` set cs \<inter> (W \<union> pending_wires (ss_pending st)) = {}"
    and known: "\<forall>d \<in> set cs. \<not> is_pending d \<longrightarrow> wire_valid ags (directive_wire d)"
      "sources_in ags (pending_wires (ss_pending st) \<union> wires_of is_pending cs)" "set (map fst res) \<subseteq> dom ags"
    and ids: "\<forall>e f. FreePortInterface e f \<in> set cs \<longrightarrow> f \<in> ss_reserved st"
    and room: "card (inner A) + card (ss_reserved st) < u32_MAX" and batch: "ab_connections batch = cs"
  shows "(\<exists>i age. stream_wire env life batch res st = Some (Inl (PendingConnectionExpired i age life)) \<and> life \<noteq> u32_MAX) \<or>
    (\<exists>st' W'. stream_wire env life batch res st = Some (Inr st') \<and> stream_inv k ags W' st' \<and> pending_ok (ss_pending st') \<and>
       W' \<union> pending_wires (ss_pending st') = W \<union> pending_wires (ss_pending st) \<union> directive_wire ` set cs \<and>
       W' \<inter> pending_wires (ss_pending st') = {} \<and>
       dom (ss_pending st') = (dom (ss_pending st) \<union> {i. \<exists>e p. Pending e i p \<in> set cs}) - set (map fst res) \<and>
       ss_agent_owner st' = ss_agent_owner st \<and> ss_reserved st' = ss_reserved st \<and> ss_chunks_seen st' = ss_chunks_seen st)"
proof -
  let ?R = "wires_of is_resolved cs" and ?I = "wires_of is_interface cs" and ?P = "wires_of is_pending cs"
  have kinds: "?R \<union> ?I \<union> ?P = directive_wire ` set cs"
    by (rule wires_of_kinds)
  have only_one: "is_resolved d \<Longrightarrow> \<not> is_interface d" "is_resolved d \<Longrightarrow> \<not> is_pending d"
      "is_interface d \<Longrightarrow> \<not> is_pending d" for d
    by (cases d; simp)+
  have kind_sep: "?R \<inter> ?I = {}" "?R \<inter> ?P = {}" "?I \<inter> ?P = {}"
    using only_one by (simp_all add: wires_of_disjoint [OF cs(1)])
  have sub: "W \<union> ?R \<subseteq> A" "W \<inter> ?R = {}" "W \<union> ?R \<union> ?I \<subseteq> A" "(W \<union> ?R) \<inter> ?I = {}"
    using set_parts [OF A(5) cs(2,3) wires_of_subset wires_of_subset kind_sep(1)] by simp_all
  have valid: "\<forall>d \<in> set cs. is_resolved d \<longrightarrow> wire_valid ags (directive_wire d)"
      "\<forall>d \<in> set cs. is_interface d \<longrightarrow> wire_valid ags (directive_wire d)"
    using known(1) only_one(2,3) by blast+
  obtain st2 where st2: "ofold install_resolved cs st = Some st2" "stream_inv k ags (W \<union> ?R) st2" "same_rest st st2"
    using resolved_pass [OF inv(1) A(1) sub(1) cs(1) sub(2) valid(1) A(2) room] by blast
  have ids2: "\<forall>e f. FreePortInterface e f \<in> set cs \<longrightarrow> f \<in> ss_reserved st2"
    using ids st2(3) by (simp add: same_rest_def)
  obtain st3 where st3: "ofold install_interface cs st2 = Some st3" "stream_inv k ags (W \<union> ?R \<union> ?I) st3" "same_rest st2 st3"
    using interface_pass [OF st2(2) A(1) sub(3) cs(1) sub(4) valid(2) ids2] by blast
  have rest: "ss_pending st3 = ss_pending st" "ss_reserved st3 = ss_reserved st" "ss_agent_owner st3 = ss_agent_owner st"
    "ss_chunks_seen st3 = ss_chunks_seen st"
    using st2(3) st3(3) by (simp_all add: same_rest_def)
  have buffer: "pending_ok (ss_pending st3)" "pending_wires (ss_pending st3) \<inter> ?P = {}"
    using inv(2) cs(3) kinds unfolding rest by blast+
  obtain pend where pend: "fold buffer_pending cs st3 = st3\<lparr>ss_pending := pend\<rparr>" "pending_ok pend"
      "pending_wires pend = pending_wires (ss_pending st) \<union> ?P"
      "dom pend = dom (ss_pending st) \<union> {i. \<exists>e p. Pending e i p \<in> set cs}"
    using buffer_pass [OF buffer(1) cs(1) buffer(2)] unfolding rest by blast
  let ?st4 = "st3\<lparr>ss_pending := pend\<rparr>"
  have run: "stream_wire env life batch res st =
      (case pending_expired env life ?st4 of Some e \<Rightarrow> Some (Inl e)
       | None \<Rightarrow> map_option Inr (ofold resolve_pending (map fst res) ?st4))"
    unfolding stream_wire_def batch st2(1) bind.bind_lunit st3(1) Let_def pend(1) ..
  show ?thesis
  proof (cases "pending_expired env life ?st4")
    case (Some e)
    then show ?thesis
      using pending_expired_kind [OF Some] run by auto
  next
    case None
    have inv4: "stream_inv k ags (W \<union> ?R \<union> ?I) ?st4"
      using st3(2) by (simp add: stream_inv_def)
    have sub: "(W \<union> ?R \<union> ?I) \<union> pending_wires (ss_pending ?st4) \<subseteq> A"
        "(W \<union> ?R \<union> ?I) \<inter> pending_wires (ss_pending ?st4) = {}"
      using set_parts_pending [OF A(5) cs(2,3) wires_of_subset wires_of_subset wires_of_subset kind_sep(2,3) inv(3)] pend(3)
      by simp_all
    have "wire_valid ags (pending_wire pc)" if "i \<in> set (map fst res)" "pc \<in> set (waiting pend i)" for i pc
    proof (rule wire_valid_sub [OF _ A(4)])
      have mem: "pending_wire pc \<in> pending_wires pend"
        using that(2) by (auto simp: pending_wires_def)
      then show "wire_valid AGS (pending_wire pc)"
        using A(3) sub(1) by auto
      show "j \<in> dom ags" if "fst (pending_wire pc) = AgentPort j p" for j p
        using known(2) mem that unfolding pend(3) sources_in_def by (metis port_ref.inject(1))
      show "j \<in> dom ags" if "snd (pending_wire pc) = AgentPort j p" for j p
        using that \<open>i \<in> set (map fst res)\<close> \<open>pc \<in> set (waiting pend i)\<close> known(3) pend(2)
        unfolding pending_ok_def by (auto simp: pending_wire_def)
    qed
    then have valid: "\<forall>i \<in> set (map fst res). \<forall>pc \<in> set (waiting (ss_pending ?st4) i). wire_valid ags (pending_wire pc)"
      by simp
    have room4: "card (inner A) + card (ss_reserved ?st4) < u32_MAX" and ok4: "pending_ok (ss_pending ?st4)"
      using room pend(2) by (simp_all add: rest)
    obtain st5 W5 where st5: "ofold resolve_pending (map fst res) ?st4 = Some st5" "stream_inv k ags W5 st5"
        "pending_ok (ss_pending st5)" "W5 \<union> pending_wires (ss_pending st5) = (W \<union> ?R \<union> ?I) \<union> pending_wires (ss_pending ?st4)"
        "W5 \<inter> pending_wires (ss_pending st5) = {}" "dom (ss_pending st5) = dom (ss_pending ?st4) - set (map fst res)"
        "ss_agent_owner st5 = ss_agent_owner ?st4" "ss_reserved st5 = ss_reserved ?st4" "ss_chunks_seen st5 = ss_chunks_seen ?st4"
      using resolve_pass [OF inv4 ok4 A(1) sub valid A(2) room4] by blast
    have all: "W5 \<union> pending_wires (ss_pending st5) = W \<union> pending_wires (ss_pending st) \<union> directive_wire ` set cs"
      using st5(4) pend(3) kinds by auto
    have "stream_wire env life batch res st = Some (Inr st5)"
      using run None st5(1) by simp
    then show ?thesis
      using st5(2,3,5-9) all pend(4) rest by (intro disjI2 exI [of _ st5] exI [of _ W5]) simp
  qed
qed

section \<open>A batch\<close>

text \<open>
  A resolved wire and an interface name agents that have arrived; a pending wire starts at such an
  agent and leads to one that had not arrived before the batch.
\<close>

definition batch_arrives :: "agent_id set \<Rightarrow> agent_batch \<Rightarrow> bool" where
  "batch_arrives seen batch \<longleftrightarrow>
     (let known = seen \<union> fst ` set (ab_agents batch)
      in \<forall>d \<in> set (ab_connections batch).
           case d of
             Resolved s t \<Rightarrow> fst s \<in> known \<and> fst t \<in> known
           | Pending s i p \<Rightarrow> fst s \<in> known \<and> i \<notin> seen
           | FreePortInterface e f \<Rightarrow> fst e \<in> known)"

definition loop_inv ::
  "nat \<Rightarrow> (agent_id \<rightharpoonup> symbol) \<Rightarrow> (port_ref \<times> port_ref) set \<Rightarrow> stream_state \<Rightarrow> bool" where
  "loop_inv k ags D st \<longleftrightarrow>
     (\<exists>W. stream_inv k ags W st \<and> W \<union> pending_wires (ss_pending st) = D \<and> W \<inter> pending_wires (ss_pending st) = {}) \<and>
     pending_ok (ss_pending st) \<and> dom (ss_pending st) \<inter> dom ags = {} \<and> sources_in ags D"

lemma loop_inv_init: "loop_inv k Map.empty {} (stream_init k)"
proof -
  have "stream_inv k Map.empty {} (stream_init k)"
    using accs_ok_init links_init by (simp add: stream_inv_def stream_init_def raw_init start_ok_def)
  moreover have "waiting (ss_pending (stream_init k)) i = []" for i
    by (simp add: waiting_def stream_init_def)
  ultimately show ?thesis
    unfolding loop_inv_def pending_ok_def pending_wires_def sources_in_def by (auto simp: stream_init_def)
qed

lemma sources_in_sub: "sources_in ags P \<Longrightarrow> Q \<subseteq> P \<Longrightarrow> sources_in ags Q"
  unfolding sources_in_def by blast

lemma sources_in_mono: "sources_in ags P \<Longrightarrow> dom ags \<subseteq> dom ags' \<Longrightarrow> sources_in ags' P"
  unfolding sources_in_def by blast

text \<open>The agents of a batch become known; the directives of the batch are valid wires between them.\<close>

lemma batch_known:
  assumes "batch_arrives seen batch" "\<forall>d \<in> set (ab_connections batch). wire_valid AGS (directive_wire d)"
    and "ags \<subseteq>\<^sub>m AGS" "dom ags = seen \<union> fst ` set (ab_agents batch)"
  shows "\<forall>d \<in> set (ab_connections batch). \<not> is_pending d \<longrightarrow> wire_valid ags (directive_wire d)"
    "sources_in ags (directive_wire ` set (ab_connections batch))"
proof -
  have known: "case d of Resolved s t \<Rightarrow> fst s \<in> dom ags \<and> fst t \<in> dom ags
      | Pending s i p \<Rightarrow> fst s \<in> dom ags \<and> i \<notin> seen | FreePortInterface e f \<Rightarrow> fst e \<in> dom ags"
    if "d \<in> set (ab_connections batch)" for d
    using assms(1) that unfolding batch_arrives_def Let_def assms(4) [symmetric] by blast
  show "\<forall>d \<in> set (ab_connections batch). \<not> is_pending d \<longrightarrow> wire_valid ags (directive_wire d)"
  proof (intro ballI impI)
    fix d
    assume d: "d \<in> set (ab_connections batch)" "\<not> is_pending d"
    show "wire_valid ags (directive_wire d)"
    proof (rule wire_valid_sub)
      show "wire_valid AGS (directive_wire d)" "ags \<subseteq>\<^sub>m AGS"
        using assms(2,3) d by blast+
    qed (use known [OF d(1)] d(2) in \<open>cases d; simp add: directive_wire_def\<close>)+
  qed
  show "sources_in ags (directive_wire ` set (ab_connections batch))"
    unfolding sources_in_def
  proof (intro ballI)
    fix a
    assume "a \<in> directive_wire ` set (ab_connections batch)"
    then obtain d where d: "d \<in> set (ab_connections batch)" "a = directive_wire d"
      by blast
    show "\<exists>i p. fst a = AgentPort i p \<and> i \<in> dom ags"
      unfolding d(2) using known [OF d(1)]
      by (cases d rule: connection_directive.exhaust) (simp_all add: directive_wire_def)
  qed
qed

section \<open>Streams\<close>

definition stream_agents :: "agent_batch list \<Rightarrow> (agent_id \<times> symbol) list" where
  "stream_agents stream = concat (map ab_agents stream)"

definition stream_directives :: "agent_batch list \<Rightarrow> connection_directive list" where
  "stream_directives stream = concat (map ab_connections stream)"

fun arrives :: "agent_id set \<Rightarrow> agent_batch list \<Rightarrow> bool" where
  "arrives seen [] = True"
| "arrives seen (batch # stream) = (batch_arrives seen batch \<and> arrives (seen \<union> fst ` set (ab_agents batch)) stream)"

text \<open>
  Every interface identifier has at least \<open>m\<close> identifiers below it that no earlier batch reserves.
\<close>

fun apart :: "nat \<Rightarrow> nat list \<Rightarrow> agent_batch list \<Rightarrow> bool" where
  "apart m reserved [] = True"
| "apart m reserved (batch # stream) =
     ((\<forall>f \<in> set (interface_ids (ab_connections batch)). m \<le> length (filter (\<lambda>g. g \<notin> set reserved) [0..<f])) \<and>
      apart m (reserved @ interface_ids (ab_connections batch)) stream)"

lemma apart_fresh:
  assumes inv: "stream_inv k ags W st" "W \<subseteq> A" "finite A" "card (inner A) \<le> m"
    and room: "m \<le> length (filter (\<lambda>g. g \<notin> set reserved) [0..<f])" "ss_reserved st = set reserved"
  shows "f \<notin> dom (ss_border_map st)"
proof
  assume f: "f \<in> dom (ss_border_map st)"
  have L: "links W (ss_agent_owner st) (raw (ss_agent_owner st) (ss_accumulators st)) (ss_border_map st)
      (ss_reserved st) (ss_border_id_counter st)"
    using inv(1) by (simp add: stream_inv_def)
  have fin: "finite (dom (ss_border_map st))"
    using links_counter(2) [OF L] finite_subset by blast
  have "{..<f} - set reserved \<subseteq> dom (ss_border_map st) - {f}"
  proof
    fix g
    assume g: "g \<in> {..<f} - set reserved"
    then have "g < ss_border_id_counter st"
      using links_counter(2) [OF L] f by auto
    then show "g \<in> dom (ss_border_map st) - {f}"
      using linksD(7) [OF L] g room(2) by auto
  qed
  then have "card ({..<f} - set reserved) \<le> card (dom (ss_border_map st) - {f})"
    using fin by (intro card_mono) auto
  also have "\<dots> < card (dom (ss_border_map st))"
    using fin f by (intro psubset_card_mono) auto
  also have "\<dots> \<le> card (inner A)"
    using linksD(12) [OF L] card_mono [OF inner_subset(3) [OF inv(3)] inner_subset(2) [OF inv(2)]] by simp
  finally have "card ({..<f} - set reserved) < m"
    using inv(4) by simp
  moreover have "{..<f} - set reserved = set (filter (\<lambda>g. g \<notin> set reserved) [0..<f])"
    by auto
  then have "card ({..<f} - set reserved) = length (filter (\<lambda>g. g \<notin> set reserved) [0..<f])"
    by (simp only: distinct_card distinct_filter distinct_upt)
  ultimately show False
    using room(1) by simp
qed

text \<open>The same, with the freshness of the first batch read off the border map.\<close>

definition fresh_from :: "nat \<Rightarrow> nat list \<Rightarrow> stream_state \<Rightarrow> agent_batch list \<Rightarrow> bool" where
  "fresh_from m reserved st stream \<longleftrightarrow>
     (case stream of
        [] \<Rightarrow> True
      | batch # rest \<Rightarrow>
          (\<forall>f \<in> set (interface_ids (ab_connections batch)). f \<notin> dom (ss_border_map st)) \<and>
          apart m (reserved @ interface_ids (ab_connections batch)) rest)"

lemma apart_fresh_from:
  assumes "loop_inv k ags D st" "D \<subseteq> A" "finite A" "card (inner A) \<le> m"
    and "apart m reserved stream" "ss_reserved st = set reserved"
  shows "fresh_from m reserved st stream"
proof -
  obtain W where W: "stream_inv k ags W st" "W \<subseteq> A"
    using assms(1,2) unfolding loop_inv_def by auto
  show ?thesis
    using apart_fresh [OF W assms(3,4) _ assms(6)] assms(5) by (cases stream) (simp_all add: fresh_from_def)
qed

lemma map_add_append:
  assumes "distinct (map fst (xs @ ys))"
  shows "m ++ map_of (xs @ ys) = (m ++ map_of xs) ++ map_of ys"
proof -
  have "dom (map_of ys) \<inter> dom (map_of xs) = {}"
    using assms by (auto simp: dom_map_of_conv_image_fst)
  then show ?thesis
    by (simp add: map_add_comm)
qed

lemma dom_add_map_of: "dom (m ++ map_of ps) = dom m \<union> fst ` set ps"
  by (auto simp: dom_map_of_conv_image_fst)

context streaming_strategy
begin

lemma batch_step:
  fixes ags :: "agent_id \<rightharpoonup> symbol"
  assumes k: "0 < k" "fit k s" and tally: "\<forall>w < k. counts s ! w = card (owned (ss_agent_owner st) w)"
    and A: "linear A" "finite A" "\<forall>a \<in> A. wire_valid AGS a"
    and inv: "loop_inv k ags D st" "D \<subseteq> A"
    and agents: "distinct (map fst (ab_agents batch))" "\<forall>i \<in> fst ` set (ab_agents batch). i \<notin> dom ags \<and> i < u32_MAX"
      "ags ++ map_of (ab_agents batch) \<subseteq>\<^sub>m AGS"
    and wires: "distinct (map directive_wire (ab_connections batch))" "directive_wire ` set (ab_connections batch) \<subseteq> A"
      "directive_wire ` set (ab_connections batch) \<inter> D = {}"
    and arrives: "batch_arrives (dom ags) batch"
    and ids: "\<forall>f \<in> set (interface_ids (ab_connections batch)). f \<notin> dom (ss_border_map st)"
    and room: "card (inner A) + card (ss_reserved st \<union> set (interface_ids (ab_connections batch))) < u32_MAX"
  shows "(\<exists>i age. stream_batch env alloc k life batch (s, st) = Some (Inl (PendingConnectionExpired i age life)) \<and> life \<noteq> u32_MAX) \<or>
    (\<exists>s' st' res. alloc s batch k = Some (s', res) \<and> stream_batch env alloc k life batch (s, st) = Some (Inr (s', st')) \<and> fit k s' \<and>
       loop_inv k (ags ++ map_of (ab_agents batch)) (D \<union> directive_wire ` set (ab_connections batch)) st' \<and>
       (\<forall>w < k. counts s' ! w = card (owned (ss_agent_owner st') w)) \<and>
       ss_agent_owner st' = ss_agent_owner st ++ map_of res \<and> ss_chunks_seen st' = ss_chunks_seen st + 1 \<and>
       ss_reserved st' = ss_reserved st \<union> set (interface_ids (ab_connections batch)))"
proof -
  let ?cs = "ab_connections batch" and ?ags = "ags ++ map_of (ab_agents batch)"
  obtain W where W: "stream_inv k ags W st" "W \<union> pending_wires (ss_pending st) = D" "W \<inter> pending_wires (ss_pending st) = {}"
      and pend: "pending_ok (ss_pending st)" "dom (ss_pending st) \<inter> dom ags = {}" "sources_in ags D"
    using inv(1) unfolding loop_inv_def by blast
  define st0 where "st0 = fold reserve_interface ?cs (st\<lparr>ss_chunks_seen := ss_chunks_seen st + 1\<rparr>)"
  have valid: "\<forall>d \<in> set ?cs. wire_valid AGS (directive_wire d)"
    using A(3) wires(2) by blast
  have small: "\<forall>f \<in> set (interface_ids ?cs). f < u32_MAX"
    using valid by (fastforce simp: set_interface_ids wire_valid_def directive_wire_def)
  have bump: "stream_inv k ags W (st\<lparr>ss_chunks_seen := ss_chunks_seen st + 1\<rparr>)"
      "\<forall>f \<in> set (interface_ids ?cs). f \<notin> dom (ss_border_map (st\<lparr>ss_chunks_seen := ss_chunks_seen st + 1\<rparr>)) \<and> f < u32_MAX"
    using W(1) ids small by (simp_all add: stream_inv_def)
  have st0: "st0 = st\<lparr>ss_chunks_seen := ss_chunks_seen st + 1, ss_reserved := ss_reserved st \<union> set (interface_ids ?cs)\<rparr>"
      "stream_inv k ags W st0"
    using reserve_pass [OF bump, folded st0_def] by auto
  obtain s' res where alloc: "alloc s batch k = Some (s', res)" "fit k s'" "map fst res = map fst (ab_agents batch)"
      "\<forall>w \<in> snd ` set res. w < k" "\<forall>w < k. counts s' ! w = counts s ! w + count_list (map snd res) w"
    by (rule allocates [OF k, of batch])
  have res_ids: "fst ` set res = fst ` set (ab_agents batch)"
    using alloc(3) by (metis list.set_map)
  have res_ok: "\<forall>(i, w) \<in> set res. w < k \<and> i \<notin> dom ags \<and> i < u32_MAX \<and> symbol_lookup batch i \<noteq> None"
  proof
    fix a
    assume mem: "a \<in> set res"
    then have "fst a \<in> fst ` set (ab_agents batch)" "snd a \<in> snd ` set res"
      using res_ids by force+
    moreover from this(1) have "symbol_lookup batch (fst a) \<noteq> None"
      by (simp only: symbol_lookup_map_of [OF agents(1)] map_of_eq_None_iff not_not)
    ultimately show "case a of (i, w) \<Rightarrow> w < k \<and> i \<notin> dom ags \<and> i < u32_MAX \<and> symbol_lookup batch i \<noteq> None"
      using alloc(4) agents(2) by (cases a) auto
  qed
  have dist: "distinct (map fst res)"
    using alloc(3) agents(1) by simp
  have syms: "(\<lambda>i. if i \<in> fst ` set res then symbol_lookup batch i else ags i) = ?ags"
    unfolding res_ids symbol_lookup_map_of [OF agents(1)] by (rule map_of_override)
  obtain accs where st1: "assign_agents k (symbol_lookup batch) res st0 =
        Inr (st0\<lparr>ss_agent_owner := ss_agent_owner st ++ map_of res, ss_accumulators := accs\<rparr>)"
      "stream_inv k ?ags W (st0\<lparr>ss_agent_owner := ss_agent_owner st ++ map_of res, ss_accumulators := accs\<rparr>)"
      "\<forall>w < k. card (owned (ss_agent_owner st ++ map_of res) w) = card (owned (ss_agent_owner st) w) + count_list (map snd res) w"
    using assign_pass [OF st0(2) dist res_ok, unfolded syms, of k] by (auto simp: st0(1))
  let ?st1 = "st0\<lparr>ss_agent_owner := ss_agent_owner st ++ map_of res, ss_accumulators := accs\<rparr>"
  have rest: "ss_pending ?st1 = ss_pending st" "ss_chunks_seen ?st1 = ss_chunks_seen st + 1"
      "ss_reserved ?st1 = ss_reserved st \<union> set (interface_ids ?cs)" "ss_agent_owner ?st1 = ss_agent_owner st ++ map_of res"
    by (simp_all add: st0(1))
  have dom: "dom ?ags = dom ags \<union> fst ` set (ab_agents batch)"
    by (auto simp: dom_map_of_conv_image_fst)
  note known = batch_known [OF arrives valid agents(3) dom]
  have "sources_in ?ags D"
    by (rule sources_in_mono [OF pend(3)]) (simp add: dom)
  then have all_sources: "sources_in ?ags (D \<union> directive_wire ` set ?cs)"
    using known(2) unfolding sources_in_def by blast
  have sources: "sources_in ?ags (pending_wires (ss_pending st) \<union> wires_of is_pending ?cs)"
    by (rule sources_in_sub [OF all_sources]) (use W(2) wires_of_subset [of is_pending ?cs] in auto)
  have sub: "W \<union> pending_wires (ss_pending ?st1) \<subseteq> A" "directive_wire ` set ?cs \<inter> (W \<union> pending_wires (ss_pending ?st1)) = {}"
    using inv(2) wires(3) unfolding rest W(2) by blast+
  have res_dom: "set (map fst res) \<subseteq> dom ?ags"
    using res_ids dom by auto
  have reserved: "\<forall>e f. FreePortInterface e f \<in> set ?cs \<longrightarrow> f \<in> ss_reserved ?st1"
    unfolding rest using set_interface_ids by blast
  have disj: "W \<inter> pending_wires (ss_pending ?st1) = {}" "pending_ok (ss_pending ?st1)"
      "sources_in ?ags (pending_wires (ss_pending ?st1) \<union> wires_of is_pending ?cs)"
      "card (inner A) + card (ss_reserved ?st1) < u32_MAX"
    unfolding rest using W(3) pend(1) sources room by simp_all
  have run: "stream_batch env alloc k life batch (s, st) = map_option (map_sum id (Pair s')) (stream_wire env life batch res ?st1)"
    unfolding stream_batch_def Let_def fst_conv snd_conv st0_def [symmetric] alloc(1) bind.bind_lunit prod.case st1(1) sum.case ..
  note step = wire_step [OF st1(2) disj(2,1) A agents(3) sub(1) wires(1,2) sub(2) known(1) disj(3) res_dom reserved disj(4) refl, of env life]
  show ?thesis
    using step
  proof (elim disjE exE conjE)
    fix i age
    assume "stream_wire env life batch res ?st1 = Some (Inl (PendingConnectionExpired i age life))" "life \<noteq> u32_MAX"
    then show ?thesis
      unfolding run by auto
  next
    fix st2 W2
    assume st2: "stream_wire env life batch res ?st1 = Some (Inr st2)" "stream_inv k ?ags W2 st2" "pending_ok (ss_pending st2)"
        "W2 \<union> pending_wires (ss_pending st2) = W \<union> pending_wires (ss_pending ?st1) \<union> directive_wire ` set ?cs"
        "W2 \<inter> pending_wires (ss_pending st2) = {}"
        "dom (ss_pending st2) = (dom (ss_pending ?st1) \<union> {i. \<exists>e p. Pending e i p \<in> set ?cs}) - set (map fst res)"
        "ss_agent_owner st2 = ss_agent_owner ?st1" "ss_reserved st2 = ss_reserved ?st1" "ss_chunks_seen st2 = ss_chunks_seen ?st1"
    have "dom (ss_pending st2) \<inter> dom ?ags = {}"
    proof -
      have "i \<notin> dom ags" if "Pending e i p \<in> set ?cs" for e i p
        using arrives that unfolding batch_arrives_def Let_def by fastforce
      then show ?thesis
        unfolding st2(6) rest dom set_map res_ids using pend(2) by blast
    qed
    moreover have "W2 \<union> pending_wires (ss_pending st2) = D \<union> directive_wire ` set ?cs"
      using st2(4) unfolding rest W(2) .
    ultimately have "loop_inv k ?ags (D \<union> directive_wire ` set ?cs) st2"
      unfolding loop_inv_def using st2(2,3,5) all_sources by blast
    moreover have "\<forall>w < k. counts s' ! w = card (owned (ss_agent_owner st2) w)"
      using st1(3) alloc(5) tally unfolding st2(7) rest by simp
    moreover have "stream_batch env alloc k life batch (s, st) = Some (Inr (s', st2))"
      unfolding run st2(1) by simp
    ultimately show ?thesis
      using alloc(1,2) st2(7-9) unfolding rest by blast
  qed
qed

lemma loop_run:
  fixes ags :: "agent_id \<rightharpoonup> symbol"
  assumes k: "0 < k" and A: "linear A" "finite A" "\<forall>a \<in> A. wire_valid AGS a" "card (inner A) \<le> m"
  shows "fit k s \<Longrightarrow> \<forall>w < k. counts s ! w = card (owned (ss_agent_owner st) w) \<Longrightarrow>
    loop_inv k ags D st \<Longrightarrow> D \<subseteq> A \<Longrightarrow>
    distinct (map fst (stream_agents stream)) \<Longrightarrow> \<forall>i \<in> fst ` set (stream_agents stream). i \<notin> dom ags \<and> i < u32_MAX \<Longrightarrow>
    ags ++ map_of (stream_agents stream) \<subseteq>\<^sub>m AGS \<Longrightarrow>
    distinct (map directive_wire (stream_directives stream)) \<Longrightarrow> directive_wire ` set (stream_directives stream) \<subseteq> A \<Longrightarrow>
    directive_wire ` set (stream_directives stream) \<inter> D = {} \<Longrightarrow> arrives (dom ags) stream \<Longrightarrow>
    fresh_from m reserved st stream \<Longrightarrow> ss_reserved st = set reserved \<Longrightarrow>
    card (inner A) + card (ss_reserved st \<union> set (interface_ids (stream_directives stream))) < u32_MAX \<Longrightarrow>
    (\<exists>i age. stream_loop env alloc k life stream (s, st) = Some (Inl (PendingConnectionExpired i age life)) \<and> life \<noteq> u32_MAX) \<or>
    (\<exists>s' st'. stream_loop env alloc k life stream (s, st) = Some (Inr (s', st')) \<and> fit k s' \<and>
       loop_inv k (ags ++ map_of (stream_agents stream)) (D \<union> directive_wire ` set (stream_directives stream)) st' \<and>
       (\<forall>w < k. counts s' ! w = card (owned (ss_agent_owner st') w)) \<and>
       ss_chunks_seen st' = ss_chunks_seen st + length stream \<and>
       ss_reserved st' = ss_reserved st \<union> set (interface_ids (stream_directives stream)))"
proof (induction stream arbitrary: s st ags D reserved)
  case Nil
  then show ?case
    by (auto simp: stream_agents_def stream_directives_def)
next
  case (Cons batch stream)
  let ?cs = "ab_connections batch" and ?ags = "ags ++ map_of (ab_agents batch)"
  have ags_split: "stream_agents (batch # stream) = ab_agents batch @ stream_agents stream"
    and cs_split: "stream_directives (batch # stream) = ?cs @ stream_directives stream"
    by (simp_all add: stream_agents_def stream_directives_def)
  note P = Cons.prems [unfolded ags_split cs_split]
  have add: "ags ++ map_of (ab_agents batch @ stream_agents stream) = ?ags ++ map_of (stream_agents stream)"
    by (rule map_add_append [OF P(5)])
  have "dom ?ags \<inter> dom (map_of (stream_agents stream)) = {}"
    using P(5,6) unfolding dom_add_map_of dom_map_of_conv_image_fst by auto
  then have le: "?ags \<subseteq>\<^sub>m AGS"
    using P(7) unfolding add by (metis map_add_comm map_le_map_add map_le_trans)
  have ids: "\<forall>f \<in> set (interface_ids ?cs). f \<notin> dom (ss_border_map st)"
    and later_ids: "apart m (reserved @ interface_ids ?cs) stream"
    using P(12) by (simp_all add: fresh_from_def)
  have fin: "finite (ss_reserved st \<union> set (interface_ids (?cs @ stream_directives stream)))"
    unfolding P(13) by simp
  have room: "card (inner A) + card (ss_reserved st \<union> set (interface_ids ?cs)) < u32_MAX"
  proof -
    have "card (ss_reserved st \<union> set (interface_ids ?cs)) \<le>
        card (ss_reserved st \<union> set (interface_ids (?cs @ stream_directives stream)))"
      by (rule card_mono [OF fin]) auto
    then show ?thesis
      using P(14) by linarith
  qed
  have now: "distinct (map fst (ab_agents batch))" "\<forall>i \<in> fst ` set (ab_agents batch). i \<notin> dom ags \<and> i < u32_MAX"
      "distinct (map directive_wire ?cs)" "directive_wire ` set ?cs \<subseteq> A" "directive_wire ` set ?cs \<inter> D = {}"
      "batch_arrives (dom ags) batch"
    using P(5,6,8-11) by auto
  have later: "distinct (map fst (stream_agents stream))"
      "\<forall>i \<in> fst ` set (stream_agents stream). i \<notin> dom ?ags \<and> i < u32_MAX"
      "?ags ++ map_of (stream_agents stream) \<subseteq>\<^sub>m AGS" "distinct (map directive_wire (stream_directives stream))"
      "directive_wire ` set (stream_directives stream) \<subseteq> A"
      "directive_wire ` set (stream_directives stream) \<inter> (D \<union> directive_wire ` set ?cs) = {}" "arrives (dom ?ags) stream"
      "D \<union> directive_wire ` set ?cs \<subseteq> A"
    using P(4-11) unfolding add dom_add_map_of by auto
  show ?case
    using batch_step [OF k P(1,2) A(1-3) P(3,4) now(1,2) le now(3-6) ids room, of env life]
  proof (elim disjE exE conjE)
    fix i age
    assume "stream_batch env alloc k life batch (s, st) = Some (Inl (PendingConnectionExpired i age life))" "life \<noteq> u32_MAX"
    then show ?case
      by auto
  next
    fix s1 st1 res
    assume step: "stream_batch env alloc k life batch (s, st) = Some (Inr (s1, st1))" "fit k s1"
        "loop_inv k ?ags (D \<union> directive_wire ` set ?cs) st1"
        "\<forall>w < k. counts s1 ! w = card (owned (ss_agent_owner st1) w)" "ss_chunks_seen st1 = ss_chunks_seen st + 1"
        "ss_reserved st1 = ss_reserved st \<union> set (interface_ids ?cs)"
    have reserved: "ss_reserved st1 = set (reserved @ interface_ids ?cs)"
        "card (inner A) + card (ss_reserved st1 \<union> set (interface_ids (stream_directives stream))) < u32_MAX"
      using P(13,14) unfolding step(6) by (simp_all add: Un_assoc)
    have run: "stream_loop env alloc k life (batch # stream) (s, st) = stream_loop env alloc k life stream (s1, st1)"
      using step(1) by simp
    have fresh: "fresh_from m (reserved @ interface_ids ?cs) st1 stream"
      by (rule apart_fresh_from [OF step(3) later(8) A(2,4) later_ids reserved(1)])
    note IH = Cons.IH [OF step(2,4,3) later(8,1-7) fresh reserved]
    show ?case
      unfolding run ags_split cs_split add using IH step(5,6) by (simp add: image_Un Un_assoc)
  qed
qed

end

end
