(* ===== verification/Stream_Finish.thy ===== *)
theory Stream_Finish
  imports Stream_Loop Merge_Props
begin

text \<open>
  The end of a stream: finalising the accumulators into partitions, and why the result satisfies the
  conditions under which merging is correct.
\<close>

section \<open>Finalising an accumulator\<close>

text \<open>The iteration orders list each key of the map once.\<close>

definition env_ok :: "stream_env \<Rightarrow> bool" where
  "env_ok env \<longleftrightarrow>
     (\<forall>sp. sp_inv sp \<and> finite (dom (sp_agents sp)) \<longrightarrow>
        enumerates (se_agents env sp) (sp_agents sp) \<and> enumerates (se_ports env sp) (sp_ports sp)) \<and>
     (\<forall>pending. finite (dom pending) \<longrightarrow> enumerates (se_pending env pending) pending)"

lemma finalize_dense_frame:
  assumes "id_range n \<noteq> None"
  shows "finalize_dense r n = n\<lparr>next_id := max (next_id n) (ir_start r)\<rparr>"
  using assms by (simp add: finalize_dense_def Let_def)

lemma core_inv_next_id:
  assumes "core_inv n" "next_id n \<le> m" "m \<le> u32_MAX"
  shows "core_inv (n\<lparr>next_id := m\<rparr>)"
proof -
  note D = core_invD [OF assms(1)]
  let ?n = "n\<lparr>next_id := m\<rparr>"
  have "slots_ok ?n \<longleftrightarrow> slots_ok n" "ports_clean ?n \<longleftrightarrow> ports_clean n" "symmetric_wires ?n \<longleftrightarrow> symmetric_wires n"
    by (simp_all add: slots_ok_def ports_clean_def symmetric_wires_def valid_port_def get_agent_def)
  then have "slots_ok ?n" "ports_clean ?n" "symmetric_wires ?n"
    using D(1-3) by blast+
  moreover have "ids_below ?n" "free_list_ok ?n"
    using D(4,5) assms(2,3) by (auto simp: ids_below_def free_list_ok_def)
  ultimately show ?thesis
    by (simp add: core_inv_def)
qed

text \<open>A finalised accumulator shows the same agents and wires.\<close>

lemma acc_finalize_view:
  assumes ok: "acc_ok ags owner w acc" and env: "env_ok env" and r: "ir_start r \<le> u32_MAX"
    and ret: "acc_finalize env acc r bs be = Inr p"
  defines "sp \<equiv> acc_sp (ac_subnet acc)"
  shows "sym_at (p_subnet p) i = (if owner i = Some w then ags i else None)"
    "q < 3 \<Longrightarrow> tgt (p_subnet p) i q = sp_tgt sp i q"
    "p_free_port_index p = ac_free_port_index acc" "p_worker_id p = w" "p_id_range p = r"
    "p_border_id_start p = bs" "p_border_id_end p = be"
    "owned owner w \<noteq> {} \<Longrightarrow> (\<forall>i \<in> owned owner w. ags i \<noteq> None) \<Longrightarrow> core_inv (p_subnet p)"
    "(case ac_max_assigned_id acc of None \<Rightarrow> 0 | Some m \<Rightarrow> m + 1) \<le> 4 * ac_live_agent_count acc"
proof -
  note A = acc_okD [OF ok, folded sp_def]
  obtain n where n: "to_dense (se_agents env sp) (se_ports env sp) (Some (ir_start r, ir_end r)) sp = Inr n"
      "p = \<lparr>p_subnet = finalize_dense r n, p_worker_id = ac_worker_id acc, p_free_port_index = ac_free_port_index acc,
            p_id_range = r, p_border_id_start = bs, p_border_id_end = be\<rparr>"
      "(case ac_max_assigned_id acc of None \<Rightarrow> 0 | Some m \<Rightarrow> m + 1) \<le> 4 * ac_live_agent_count acc"
    using ret A(1) by (auto simp: acc_finalize_def Let_def split: if_splits sum.splits)
  show "p_free_port_index p = ac_free_port_index acc" "p_worker_id p = w" "p_id_range p = r"
    "p_border_id_start p = bs" "p_border_id_end p = be"
    "(case ac_max_assigned_id acc of None \<Rightarrow> 0 | Some m \<Rightarrow> m + 1) \<le> 4 * ac_live_agent_count acc"
    using n(2,3) A(5) by simp_all
  have dom: "dom (sp_agents sp) \<subseteq> owned owner w"
  proof
    fix j
    assume "j \<in> dom (sp_agents sp)"
    then have "sp_sym sp j \<noteq> None"
      by (auto simp: sp_sym_def)
    then show "j \<in> owned owner w"
      using A(3) [of j] by (auto simp: owned_def split: if_splits)
  qed
  then have "finite (dom (sp_agents sp))"
    using A(6) finite_subset by blast
  then have ord: "enumerates (se_agents env sp) (sp_agents sp)" "enumerates (se_ports env sp) (sp_ports sp)"
    using env A(2) unfolding env_ok_def by blast+
  note V = to_dense_view [OF A(2) ord n(1)] and R = to_dense_Inr [OF n(1)]
  have sub: "p_subnet p = n\<lparr>next_id := max (next_id n) (ir_start r)\<rparr>"
    using finalize_dense_frame [of n r] R(7) by (simp add: n(2))
  show "sym_at (p_subnet p) i = (if owner i = Some w then ags i else None)"
    using A(3) [of i] unfolding sub by (simp add: sym_at_def sp_sym_def V(1))
  show "q < 3 \<Longrightarrow> tgt (p_subnet p) i q = sp_tgt sp i q"
    unfolding sub by (simp add: V(2))
  assume "owned owner w \<noteq> {}" "\<forall>i \<in> owned owner w. ags i \<noteq> None"
  then obtain j where "sp_sym sp j \<noteq> None"
    using A(3) by (force simp: owned_def)
  then have "j \<in> set (se_agents env sp)"
    using ord(1) by (auto simp: enumerates_def sp_sym_def)
  then have "core_inv n"
    by (intro to_dense_core [OF A(2) ord n(1)]) auto
  moreover have "next_id n \<le> u32_MAX"
    using sp_invD(3) [OF A(2)] R(4) by simp
  ultimately show "core_inv (p_subnet p)"
    unfolding sub using r by (intro core_inv_next_id) auto
qed

lemma acc_finalize_error:
  assumes "acc_finalize env acc r bs be = Inl e"
  shows "(\<exists>w size live. e = PartitionDenseAllocationExceedsThreshold w size live \<and> size > 4 * live) \<or>
    (\<exists>m. e = PartitionInvariantViolation m)"
  using assms by (auto simp: acc_finalize_def Let_def split: if_splits sum.splits)

lemma finalize_all_Inr:
  assumes "finalize_all env k g bs be w accs = Inr parts"
  shows "length parts = length accs" "j < length accs \<Longrightarrow>
    acc_finalize env (accs ! j) (stream_id_range k g (w + j)) bs be = Inr (parts ! j)"
proof -
  have "length parts = length accs \<and> (\<forall>j < length accs.
      acc_finalize env (accs ! j) (stream_id_range k g (w + j)) bs be = Inr (parts ! j))"
    using assms
  proof (induction accs arbitrary: w parts)
    case (Cons acc accs)
    obtain p where p: "acc_finalize env acc (stream_id_range k g w) bs be = Inr p"
      using Cons.prems by (cases "acc_finalize env acc (stream_id_range k g w) bs be") auto
    then obtain rest where rest: "finalize_all env k g bs be (w + 1) accs = Inr rest" "parts = p # rest"
      using Cons.prems by (cases "finalize_all env k g bs be (w + 1) accs") auto
    show ?case
      using Cons.IH [OF rest(1)] p rest(2) by (auto simp: nth_Cons split: nat.split)
  qed simp
  then show "length parts = length accs" "j < length accs \<Longrightarrow>
      acc_finalize env (accs ! j) (stream_id_range k g (w + j)) bs be = Inr (parts ! j)"
    by auto
qed

lemma finalize_all_error:
  "finalize_all env k g bs be w accs = Inl e \<Longrightarrow>
    (\<exists>w size live. e = PartitionDenseAllocationExceedsThreshold w size live \<and> size > 4 * live) \<or>
    (\<exists>m. e = PartitionInvariantViolation m)"
proof (induction accs arbitrary: w)
  case (Cons acc accs)
  show ?case
  proof (cases "acc_finalize env acc (stream_id_range k g w) bs be")
    case (Inl e')
    then show ?thesis
      using Cons.prems acc_finalize_error [OF Inl] by simp
  next
    case (Inr p)
    then show ?thesis
      using Cons.IH [of "w + 1"] Cons.prems by (cases "finalize_all env k g bs be (w + 1) accs") auto
  qed
qed simp

text \<open>The bands of the workers are disjoint and within the identifiers in use.\<close>

lemma stream_id_range_start: "ir_start (stream_id_range k g w) \<le> u32_MAX"
proof (cases g)
  case (Some m)
  have "x mod 4294967296 \<le> u32_MAX" for x :: nat
    using mod_less_divisor [of 4294967296 x] by linarith
  then show ?thesis
    by (simp add: stream_id_range_def Some Let_def)
qed (simp add: stream_id_range_def)

lemma stream_id_range_disjoint:
  assumes "g < u32_MAX" "v < w"
  shows "ir_start (stream_id_range k (Some g) v) \<le> ir_end (stream_id_range k (Some g) v)"
    "ir_end (stream_id_range k (Some g) v) \<le> ir_start (stream_id_range k (Some g) w)"
    "ir_end (stream_id_range k (Some g) v) \<le> g + 1"
proof -
  let ?b = "div_ceil (g + 1) k"
  have small: "min x (g + 1) mod 4294967296 = min x (g + 1)" for x
    using assms(1) by simp
  have "(v + 1) * ?b \<le> w * ?b"
    using assms(2) by (intro mult_right_mono) auto
  moreover have "v * ?b \<le> (v + 1) * ?b"
    by simp
  ultimately show "ir_start (stream_id_range k (Some g) v) \<le> ir_end (stream_id_range k (Some g) v)"
    "ir_end (stream_id_range k (Some g) v) \<le> ir_start (stream_id_range k (Some g) w)"
    "ir_end (stream_id_range k (Some g) v) \<le> g + 1"
    unfolding stream_id_range_def option.case Let_def id_rng.simps small by linarith+
qed

section \<open>Merging ignores the interface\<close>

definition trim_part :: "(nat \<rightharpoonup> 'b) \<Rightarrow> partition \<Rightarrow> partition" where
  "trim_part borders p = p\<lparr>p_free_port_index := p_free_port_index p |` dom borders\<rparr>"

definition trim_plan :: "partition_plan \<Rightarrow> partition_plan" where
  "trim_plan plan = plan\<lparr>pl_partitions := map (trim_part (pl_borders plan)) (pl_partitions plan)\<rparr>"

lemma trim_index: "b \<in> dom borders \<Longrightarrow> p_free_port_index (trim_part borders p) b = p_free_port_index p b"
  by (simp add: trim_part_def)

lemma trim_subnet [simp]: "p_subnet (trim_part borders p) = p_subnet p"
  by (simp add: trim_part_def)

lemma index_ports_trim:
  assumes "b \<in> dom borders"
  shows "index_ports (map (trim_part borders) ps) b = index_ports ps b"
  using trim_index [OF assms] by (simp add: index_ports_def map_filter_def filter_map comp_def)

lemma resolve_border_trim: "b \<in> dom borders \<Longrightarrow> resolve_border (map (trim_part borders) ps) b r = resolve_border ps b r"
  by (induction ps arbitrary: r) (auto simp: trim_index split: option.split port_ref.split)

lemma resolve_chain_trim: "resolve_chain d borders (map (trim_part borders) ps) x = resolve_chain d borders ps x"
proof (induction d arbitrary: x)
  case (Suc d)
  show ?case
  proof (cases x)
    case (FreePort b)
    show ?thesis
    proof (cases "borders b = None")
      case False
      then have "b \<in> dom borders"
        by auto
      from resolve_border_trim [OF this, of ps None] show ?thesis
        by (simp add: FreePort Suc split: option.split port_ref.split)
    qed (simp add: FreePort)
  qed simp
qed simp

lemma border_ends_trim: "b \<in> dom borders \<Longrightarrow> border_ends (map (trim_part borders) ps) b = border_ends ps b"
proof -
  assume b: "b \<in> dom borders"
  have "fold (\<lambda>p (a, c). case p_free_port_index p b of None \<Rightarrow> (a, c)
            | Some x \<Rightarrow> if a = None then (Some x, c) else (a, Some x)) (map (trim_part borders) ps) s =
      fold (\<lambda>p (a, c). case p_free_port_index p b of None \<Rightarrow> (a, c)
            | Some x \<Rightarrow> if a = None then (Some x, c) else (a, Some x)) ps s" for s :: "port_ref option \<times> port_ref option"
    by (induction ps arbitrary: s) (simp_all add: trim_index [OF b])
  then show ?thesis
    by (simp add: border_ends_def)
qed

lemma merge_border_trim: "b \<in> dom borders \<Longrightarrow> merge_border borders (map (trim_part borders) ps) b = merge_border borders ps b"
proof -
  assume b: "b \<in> dom borders"
  have chain: "resolve_freeport_chain borders (map (trim_part borders) ps) = resolve_freeport_chain borders ps"
    by (simp add: resolve_freeport_chain_def resolve_chain_trim fun_eq_iff)
  show ?thesis
    unfolding merge_border_def chain border_ends_trim [OF b] ..
qed

lemma merge_trim:
  assumes "set border_order = dom (pl_borders plan)"
  shows "merge border_order (trim_plan plan) = merge border_order plan"
proof -
  let ?t = "trim_part (pl_borders plan)"
  have parts: "pl_partitions (trim_plan plan) = map ?t (pl_partitions plan)" "pl_borders (trim_plan plan) = pl_borders plan"
    by (simp_all add: trim_plan_def)
  have unite: "fold (merge_partition (pl_borders plan)) (map ?t ps) r = fold (merge_partition (pl_borders plan)) ps r" for ps r
    by (induction ps arbitrary: r) (simp_all add: merge_partition_def)
  have "fold (merge_border (pl_borders plan) (map ?t (pl_partitions plan))) border_order st =
      fold (merge_border (pl_borders plan) (pl_partitions plan)) border_order st" for st
    by (rule fold_cong) (simp_all add: assms merge_border_trim)
  then show ?thesis
    unfolding merge_def Let_def parts unite by (simp add: comp_def)
qed

end
