(* ===== verification/Stream_Props.thy ===== *)
theory Stream_Props
  imports Stream_Finish
begin

text \<open>
  The theorems on streaming: a well-formed stream never panics, its agents and wires are distributed
  without loss, and merging the partitions gives the net that the stream describes.
\<close>

section \<open>The partitions of a finished stream\<close>

definition stream_plan :: "partition list \<Rightarrow> stream_state \<Rightarrow> partition_plan" where
  "stream_plan parts st = \<lparr>pl_partitions = parts, pl_borders = ss_border_map st, pl_next_border_id = 0\<rparr>"

text \<open>The state after the last batch, and the partitions made of it.\<close>

definition finished :: "stream_env \<Rightarrow> nat \<Rightarrow> (agent_id \<rightharpoonup> symbol) \<Rightarrow> (port_ref \<times> port_ref) set \<Rightarrow> stream_state \<Rightarrow>
    partition list \<Rightarrow> bool" where
  "finished env k ags W st parts \<longleftrightarrow> env_ok env \<and> stream_inv k ags W st \<and>
     (\<exists>g bs be. finalize_all env k g bs be 0 (ss_accumulators st) = Inr parts)"

lemma finished_parts:
  assumes "finished env k ags W st parts"
  shows "length parts = k"
    "w < k \<Longrightarrow> sym_at (p_subnet (parts ! w)) i = (if ss_agent_owner st i = Some w then ags i else None)"
    "w < k \<Longrightarrow> q < 3 \<Longrightarrow> ss_agent_owner st i = Some w \<Longrightarrow>
       tgt (p_subnet (parts ! w)) i q = raw (ss_agent_owner st) (ss_accumulators st) (i, q)"
    "w < k \<Longrightarrow> p_free_port_index (parts ! w) b = Some x \<longleftrightarrow>
       (\<exists>i p. x = AgentPort i p \<and> ss_agent_owner st i = Some w \<and>
          raw (ss_agent_owner st) (ss_accumulators st) (i, p) = FreePort b \<and> b \<noteq> u32_MAX)"
    "w < k \<Longrightarrow> owned (ss_agent_owner st) w \<noteq> {} \<Longrightarrow> core_inv (p_subnet (parts ! w))"
    "w < k \<Longrightarrow> p_worker_id (parts ! w) = w"
proof -
  obtain g bs be where env: "env_ok env" and inv: "stream_inv k ags W st"
      and fin: "finalize_all env k g bs be 0 (ss_accumulators st) = Inr parts"
    using assms unfolding finished_def by blast
  have ok: "accs_ok k ags (ss_agent_owner st) (ss_accumulators st)"
    using inv by (simp add: stream_inv_def)
  note D = accs_okD [OF ok]
  show "length parts = k"
    using finalize_all_Inr(1) [OF fin] D(1) by simp
  assume w: "w < k"
  have ret: "acc_finalize env (ss_accumulators st ! w) (stream_id_range k g w) bs be = Inr (parts ! w)"
    using finalize_all_Inr(2) [OF fin, of w] D(1) w by simp
  note V = acc_finalize_view [OF D(2) [OF w] env stream_id_range_start ret]
  show "sym_at (p_subnet (parts ! w)) i = (if ss_agent_owner st i = Some w then ags i else None)"
    by (rule V(1))
  show "q < 3 \<Longrightarrow> ss_agent_owner st i = Some w \<Longrightarrow>
      tgt (p_subnet (parts ! w)) i q = raw (ss_agent_owner st) (ss_accumulators st) (i, q)"
    using V(2) part_tgt [OF ok w, of i q] by (simp add: part_def)
  show "p_free_port_index (parts ! w) b = Some x \<longleftrightarrow>
       (\<exists>i p. x = AgentPort i p \<and> ss_agent_owner st i = Some w \<and>
          raw (ss_agent_owner st) (ss_accumulators st) (i, p) = FreePort b \<and> b \<noteq> u32_MAX)"
    unfolding V(3) by (rule index_raw [OF ok w])
  show "owned (ss_agent_owner st) w \<noteq> {} \<Longrightarrow> core_inv (p_subnet (parts ! w))"
  proof (rule V(8))
    show "\<forall>i \<in> owned (ss_agent_owner st) w. ags i \<noteq> None"
    proof
      fix j
      assume "j \<in> owned (ss_agent_owner st) w"
      then have "j \<in> dom (ss_agent_owner st)"
        by (auto simp: owned_def)
      then show "ags j \<noteq> None"
        unfolding D(3) by auto
    qed
  qed
  show "p_worker_id (parts ! w) = w"
    by (rule V(4))
qed

text \<open>The two ends of a border are what the indices of the partitions list for it.\<close>

lemma map_filter_two:
  assumes "v < w" "w < length xs" "f (xs ! v) = Some x" "f (xs ! w) = Some y"
    and "\<And>j. j < length xs \<Longrightarrow> j \<noteq> v \<Longrightarrow> j \<noteq> w \<Longrightarrow> f (xs ! j) = None"
  shows "List.map_filter f xs = [x, y]"
proof -
  have none: "List.map_filter (\<lambda>j. f (xs ! j)) [a..<b] = []" if "b \<le> length xs" "v \<notin> {a..<b}" "w \<notin> {a..<b}" for a b
  proof -
    have "f (xs ! j) = None" if "j \<in> set [a..<b]" for j
      using assms(5) [of j] that \<open>b \<le> length xs\<close> \<open>v \<notin> {a..<b}\<close> \<open>w \<notin> {a..<b}\<close> by auto
    then show ?thesis
      by (simp add: map_filter_def filter_empty_conv)
  qed
  have cut: "[0..<length xs] = [0..<v] @ v # [v + 1..<w] @ w # [w + 1..<length xs]"
  proof -
    have "[0..<length xs] = [0..<v] @ [v..<w] @ [w..<length xs]"
      using assms(1,2) upt_add_eq_append [of 0 v "length xs - v"] upt_add_eq_append [of v w "length xs - w"] by simp
    then show ?thesis
      using assms(1,2) by (simp add: upt_conv_Cons)
  qed
  have "List.map_filter f xs = List.map_filter f (map ((!) xs) [0..<length xs])"
    by (simp add: map_nth)
  also have "\<dots> = List.map_filter (\<lambda>j. f (xs ! j)) [0..<length xs]"
    by (simp add: map_filter_def filter_map comp_def)
  also have "\<dots> = List.map_filter (\<lambda>j. f (xs ! j)) [0..<v] @ x # List.map_filter (\<lambda>j. f (xs ! j)) [v + 1..<w] @
      y # List.map_filter (\<lambda>j. f (xs ! j)) [w + 1..<length xs]"
    unfolding cut by (simp add: map_filter_def assms(3,4))
  finally show ?thesis
    using none assms(1,2) by simp
qed

lemma finished_border:
  assumes fin: "finished env k ags W st parts" and b: "ss_border_map st b = Some (x, y)"
  obtains e f where "x = end_port e" "y = end_port f" "e \<noteq> f" "index_ports parts b = [x, y]"
    "raw (ss_agent_owner st) (ss_accumulators st) e = FreePort b" "raw (ss_agent_owner st) (ss_accumulators st) f = FreePort b"
    "\<And>g. raw (ss_agent_owner st) (ss_accumulators st) g = FreePort b \<Longrightarrow> g = e \<or> g = f"
proof -
  let ?own = "ss_agent_owner st" and ?raw = "raw (ss_agent_owner st) (ss_accumulators st)"
  have ok: "accs_ok k ags ?own (ss_accumulators st)" and L: "links W ?own ?raw (ss_border_map st) (ss_reserved st)
      (ss_border_id_counter st)"
    using fin by (simp_all add: finished_def stream_inv_def)
  obtain e f v w where link: "x = end_port e" "y = end_port f" "?own (fst e) = Some v" "?own (fst f) = Some w" "v < w"
      "?raw e = FreePort b" "?raw f = FreePort b" "\<forall>g. ?raw g = FreePort b \<longrightarrow> g = e \<or> g = f"
    using linksD(5) [OF L b] unfolding border_link_def by blast
  have small: "b \<noteq> u32_MAX"
    using linksD(3) [OF L b] linksD(8) [OF L] by simp
  have range: "v < k" "w < k"
    using accs_okD(4) [OF ok] link(3,4) by blast+
  have "index_ports parts b = [x, y]"
    unfolding index_ports_def
  proof (rule map_filter_two [OF link(5)])
    show "w < length parts"
      using finished_parts(1) [OF fin] range by simp
    show "p_free_port_index (parts ! v) b = Some x"
      unfolding finished_parts(4) [OF fin range(1)] using link(1,3,6) small
      by (intro exI [of _ "fst e"] exI [of _ "snd e"]) simp
    show "p_free_port_index (parts ! w) b = Some y"
      unfolding finished_parts(4) [OF fin range(2)] using link(2,4,7) small
      by (intro exI [of _ "fst f"] exI [of _ "snd f"]) simp
    fix j
    assume j: "j < length parts" "j \<noteq> v" "j \<noteq> w"
    show "p_free_port_index (parts ! j) b = None"
    proof (rule ccontr)
      assume "p_free_port_index (parts ! j) b \<noteq> None"
      then obtain z where "p_free_port_index (parts ! j) b = Some z"
        by blast
      then obtain i p where "?own i = Some j" "?raw (i, p) = FreePort b"
        using finished_parts(4) [OF fin, of j b z] finished_parts(1) [OF fin] j(1) by auto
      then have "(i, p) = e \<or> (i, p) = f"
        using link(8) by blast
      then show False
        using \<open>?own i = Some j\<close> link(3,4) j(2,3) by (metis fst_conv option.inject)
    qed
  qed
  moreover have "e \<noteq> f"
    using link(3-5) by auto
  ultimately show ?thesis
    using that link by blast
qed

lemma finished_plan_inv:
  assumes fin: "finished env k ags W st parts" and all: "\<forall>w < k. owned (ss_agent_owner st) w \<noteq> {}"
  shows "plan_inv (trim_plan (stream_plan parts st))"
proof -
  let ?own = "ss_agent_owner st" and ?raw = "raw (ss_agent_owner st) (ss_accumulators st)"
  note F = finished_parts [OF fin]
  have ok: "accs_ok k ags ?own (ss_accumulators st)" and L: "links W ?own ?raw (ss_border_map st) (ss_reserved st)
      (ss_border_id_counter st)"
    using fin by (simp_all add: finished_def stream_inv_def)
  have plan: "pl_partitions (trim_plan (stream_plan parts st)) = map (trim_part (ss_border_map st)) parts"
      "pl_borders (trim_plan (stream_plan parts st)) = ss_border_map st"
    by (simp_all add: trim_plan_def stream_plan_def)
  have small: "b < u32_MAX" if "b \<in> dom (ss_border_map st)" for b
    using that links_counter(2) [OF L] linksD(8) [OF L] by auto
  have part: "\<exists>w < k. p = trim_part (ss_border_map st) (parts ! w)" if "p \<in> set (map (trim_part (ss_border_map st)) parts)" for p
    using that F(1) by (auto simp: in_set_conv_nth)
  show ?thesis
    unfolding plan_inv_def plan
  proof (intro conjI ballI allI)
    fix p
    assume "p \<in> set (map (trim_part (ss_border_map st)) parts)"
    then obtain w where w: "w < k" "p = trim_part (ss_border_map st) (parts ! w)"
      using part by blast
    show "core_inv (p_subnet p)"
      using F(5) [OF w(1)] all w by simp
    fix b x
    show "p_free_port_index p b = Some x \<longleftrightarrow> b \<in> dom (ss_border_map st) \<and>
        (\<exists>i q. x = AgentPort i q \<and> q < 3 \<and> live (p_subnet p) i \<and> tgt (p_subnet p) i q = FreePort b)"
    proof (cases "b \<in> dom (ss_border_map st)")
      case True
      have "ss_agent_owner st i = Some w \<and> ?raw (i, q) = FreePort b \<longleftrightarrow>
          q < 3 \<and> live (p_subnet (parts ! w)) i \<and> tgt (p_subnet (parts ! w)) i q = FreePort b" for i q
      proof
        assume a: "?own i = Some w \<and> ?raw (i, q) = FreePort b"
        have "port_exists ags i q"
          using raw_exists [OF ok, of i q] a small [OF True] by (auto simp: DISCONNECTED_def)
        then show "q < 3 \<and> live (p_subnet (parts ! w)) i \<and> tgt (p_subnet (parts ! w)) i q = FreePort b"
          using a F(2,3) [OF w(1)] port_exists_less by (auto simp: port_exists_def split: option.splits)
      next
        assume a: "q < 3 \<and> live (p_subnet (parts ! w)) i \<and> tgt (p_subnet (parts ! w)) i q = FreePort b"
        then have "?own i = Some w"
          using F(2) [OF w(1), of i] by (auto split: if_splits)
        then show "?own i = Some w \<and> ?raw (i, q) = FreePort b"
          using a F(3) [OF w(1)] by metis
      qed
      then show ?thesis
        using trim_index [OF True] F(4) [OF w(1), of b x] small [OF True] True unfolding w(2) trim_subnet by auto
    qed (simp add: w(2) trim_part_def)
  next
    show "disjoint_parts (map (trim_part (ss_border_map st)) parts)"
      unfolding disjoint_parts_def sorted_wrt_iff_nth_less using F(1,2) by (auto split: if_splits)
  next
    fix b
    assume b: "b \<in> dom (ss_border_map st)"
    then obtain x y where "ss_border_map st b = Some (x, y)"
      by auto
    then have "index_ports parts b = [x, y]"
      using finished_border [OF fin] by metis
    moreover have "index_ports (map (trim_part (ss_border_map st)) parts) b = index_ports parts b"
      by (rule index_ports_trim [OF b])
    ultimately show "index_ports (map (trim_part (ss_border_map st)) parts) b = [] \<or>
        length (index_ports (map (trim_part (ss_border_map st)) parts) b) = 2"
      by simp
  next
    show "u32_MAX \<notin> dom (ss_border_map st)"
      using small by blast
  qed
qed

text \<open>Merging follows every free port across its border.\<close>

lemma finished_merge:
  assumes fin: "finished env k ags W st parts" and all: "\<forall>w < k. owned (ss_agent_owner st) w \<noteq> {}"
    and ord: "distinct border_order" "set border_order = dom (ss_border_map st)"
    and m: "merge border_order (stream_plan parts st) = (m, c)"
  shows "core_inv m" "sym_at m = ags"
    "i \<in> dom ags \<Longrightarrow> q < 3 \<Longrightarrow>
       tgt m i q = glue (ss_border_map st) (AgentPort i q) (raw (ss_agent_owner st) (ss_accumulators st) (i, q))"
proof -
  let ?own = "ss_agent_owner st" and ?raw = "raw (ss_agent_owner st) (ss_accumulators st)"
  let ?plan = "trim_plan (stream_plan parts st)" and ?t = "trim_part (ss_border_map st)"
  note F = finished_parts [OF fin]
  have ok: "accs_ok k ags ?own (ss_accumulators st)"
    using fin by (simp add: finished_def stream_inv_def)
  have plan: "pl_partitions ?plan = map ?t parts" "pl_borders ?plan = ss_border_map st"
    by (simp_all add: trim_plan_def stream_plan_def)
  note inv = finished_plan_inv [OF fin all]
  have run: "merge border_order ?plan = (m, c)"
    using m merge_trim [of border_order "stream_plan parts st"] ord(2) by (simp add: stream_plan_def)
  have dom: "set border_order = dom (pl_borders ?plan)"
    using ord(2) plan(2) by simp
  obtain r where r: "restored ?plan border_order (r, c)" "core_inv m" "sym_at m = sym_at (united ?plan)" "tgt m = tgt r"
    using merge_spec [OF inv ord(1) dom run] by metis
  show "core_inv m"
    by (rule r(2))
  have live: "live m i \<longleftrightarrow> (\<exists>w < k. live (p_subnet (parts ! w)) i)" for i
  proof -
    have "live m i \<longleftrightarrow> (\<exists>p \<in> set (map ?t parts). live (p_subnet p) i)"
      using united_live [OF inv, of i] unfolding r(3) plan by blast
    also have "\<dots> \<longleftrightarrow> (\<exists>w < k. live (p_subnet (parts ! w)) i)"
      unfolding set_conv_nth using F(1) by auto
    finally show ?thesis .
  qed
  have part: "?t (parts ! w) \<in> set (pl_partitions ?plan)" if "w < k" for w
    using that F(1) by (simp add: plan)
  have syms: "sym_at m i = sym_at (p_subnet (parts ! w)) i" if "w < k" "live (p_subnet (parts ! w)) i" for w i
    using united_sym(1) [OF inv part [OF that(1)]] that(2) r(3) by simp
  have port: "case tgt (p_subnet (parts ! w)) i q of
          AgentPort j s \<Rightarrow> tgt m i q = AgentPort j s
        | FreePort b \<Rightarrow>
            if b \<in> dom (ss_border_map st)
            then (\<exists>j s. tgt m i q = AgentPort j s \<and>
                   (index_ports (map ?t parts) b = [AgentPort i q, AgentPort j s] \<or>
                    index_ports (map ?t parts) b = [AgentPort j s, AgentPort i q]))
            else tgt m i q = FreePort b"
    if "w < k" "live (p_subnet (parts ! w)) i" "q < 3" for w i q
    using merged_port [OF inv r(1) dom part [OF that(1)], folded r(4), of i q] that(2,3) unfolding plan trim_subnet by blast
  have sym: "sym_at m i = ags i" for i
  proof (cases "?own i")
    case None
    then show ?thesis
      using live [of i] F(2) accs_okD(5) [OF ok, of i] by auto
  next
    case (Some w)
    then have "w < k" "ags i \<noteq> None"
      using accs_okD(4) [OF ok Some] accs_okD(5) [OF ok, of i] by simp_all
    then have w: "w < k" "live (p_subnet (parts ! w)) i"
      using F(2) [of w i] Some by simp_all
    then show ?thesis
      using syms [OF w] F(2) [OF w(1), of i] Some by simp
  qed
  then show "sym_at m = ags"
    by (simp add: fun_eq_iff)
  assume i: "i \<in> dom ags" and q: "q < 3"
  then obtain w where own: "?own i = Some w"
    using accs_okD(3) [OF ok] by blast
  have w: "w < k" "live (p_subnet (parts ! w)) i"
    using accs_okD(4) [OF ok own] F(2) own i by auto
  note P = port [OF w q, unfolded F(3) [OF w(1) q own]]
  show "tgt m i q = glue (ss_border_map st) (AgentPort i q) (?raw (i, q))"
  proof (cases "?raw (i, q)")
    case (FreePort b)
    show ?thesis
    proof (cases "ss_border_map st b")
      case (Some xy)
      obtain x y where xy: "xy = (x, y)"
        by (cases xy)
      obtain e f where border: "x = end_port e" "y = end_port f" "e \<noteq> f" "index_ports parts b = [x, y]"
          "\<And>g. ?raw g = FreePort b \<Longrightarrow> g = e \<or> g = f"
        using finished_border [OF fin Some [unfolded xy]] by metis
      have "index_ports (map ?t parts) b = index_ports parts b"
        using Some by (intro index_ports_trim) auto
      then obtain j s where "tgt m i q = AgentPort j s"
          "[x, y] = [AgentPort i q, AgentPort j s] \<or> [x, y] = [AgentPort j s, AgentPort i q]"
        using P domI [of "ss_border_map st" b, OF Some] unfolding FreePort border(4) by auto
      then show ?thesis
        using border(1-3) Some by (auto simp: FreePort glue_def xy prod_eq_iff)
    qed (use P in \<open>auto simp: FreePort glue_def domIff\<close>)
  qed (use P in \<open>simp add: glue_def\<close>)
qed

section \<open>Well-formed streams\<close>

text \<open>
  Identifiers are new and below the sentinel, no port is used twice, wires name ports that exist and
  agents in an order the pipeline can follow, and an interface identifier of a later batch leaves room
  below it for a border identifier per wire between agents.
\<close>

definition inner_count :: "agent_batch list \<Rightarrow> nat" where
  "inner_count stream = length (filter (\<lambda>d. \<not> is_interface d) (stream_directives stream))"

definition interfaces_apart :: "agent_batch list \<Rightarrow> bool" where
  "interfaces_apart stream \<longleftrightarrow>
     (case stream of
        [] \<Rightarrow> True
      | batch # rest \<Rightarrow> apart (inner_count stream) (interface_ids (ab_connections batch)) rest)"

definition wire_ends :: "connection_directive list \<Rightarrow> port_ref list" where
  "wire_ends cs = concat (map (\<lambda>d. [fst (directive_wire d), snd (directive_wire d)]) cs)"

definition stream_ok :: "agent_batch list \<Rightarrow> bool" where
  "stream_ok stream \<longleftrightarrow>
     distinct (map fst (stream_agents stream)) \<and> (\<forall>i \<in> fst ` set (stream_agents stream). i < u32_MAX) \<and>
     distinct (wire_ends (stream_directives stream)) \<and>
     (\<forall>d \<in> set (stream_directives stream). wire_valid (map_of (stream_agents stream)) (directive_wire d)) \<and>
     arrives {} stream \<and> interfaces_apart stream \<and> length (stream_directives stream) < u32_MAX"

abbreviation stream_wires :: "agent_batch list \<Rightarrow> (port_ref \<times> port_ref) set" where
  "stream_wires stream \<equiv> directive_wire ` set (stream_directives stream)"

lemma distinct_ends:
  assumes "distinct (wire_ends cs)"
  shows "distinct (map directive_wire cs)" "linear (directive_wire ` set cs)"
proof -
  have "distinct (map directive_wire cs) \<and> linear (directive_wire ` set cs)"
    using assms
  proof (induction cs)
    case (Cons d cs)
    have ends: "fst a \<in> set (wire_ends cs)" "snd a \<in> set (wire_ends cs)" if "a \<in> directive_wire ` set cs" for a
      using that by (auto simp: wire_ends_def)
    have d: "fst (directive_wire d) \<noteq> snd (directive_wire d)" "fst (directive_wire d) \<notin> set (wire_ends cs)"
        "snd (directive_wire d) \<notin> set (wire_ends cs)" "distinct (wire_ends cs)"
      using Cons.prems by (auto simp: wire_ends_def)
    have IH: "distinct (map directive_wire cs)" "linear (directive_wire ` set cs)"
      using Cons.IH [OF d(4)] by simp_all
    have sep: "{fst (directive_wire d), snd (directive_wire d)} \<inter> {fst a, snd a} = {}" if "a \<in> directive_wire ` set cs" for a
      using ends [OF that] d(2,3) by auto
    then have "linear (insert (directive_wire d) (directive_wire ` set cs))"
      using IH(2) d(1) unfolding linear_def by (metis Int_commute insertE)
    moreover have "directive_wire d \<notin> directive_wire ` set cs"
      using ends(1) d(2) by blast
    ultimately show ?case
      using IH(1) by simp
  qed (simp add: linear_def)
  then show "distinct (map directive_wire cs)" "linear (directive_wire ` set cs)"
    by simp_all
qed

lemma inner_wires: "inner (directive_wire ` set cs) \<subseteq> directive_wire ` set (filter (\<lambda>d. \<not> is_interface d) cs)"
proof
  fix a
  assume "a \<in> inner (directive_wire ` set cs)"
  then obtain d where d: "d \<in> set cs" "a = directive_wire d" "case snd (directive_wire d) of AgentPort j q \<Rightarrow> True | FreePort f \<Rightarrow> False"
    by (auto simp: inner_def)
  moreover have "\<not> is_interface d"
    using d(3) by (cases d) (simp_all add: directive_wire_def)
  ultimately show "a \<in> directive_wire ` set (filter (\<lambda>d. \<not> is_interface d) cs)"
    by auto
qed

lemma wire_counts:
  "card (inner (directive_wire ` set cs)) \<le> length (filter (\<lambda>d. \<not> is_interface d) cs)"
  "length (filter (\<lambda>d. \<not> is_interface d) cs) + length (interface_ids cs) = length cs"
proof -
  have "card (inner (directive_wire ` set cs)) \<le> card (directive_wire ` set (filter (\<lambda>d. \<not> is_interface d) cs))"
    by (intro card_mono inner_wires) simp
  also have "\<dots> \<le> length (filter (\<lambda>d. \<not> is_interface d) cs)"
    using card_image_le card_length by (metis List.finite_set le_trans)
  finally show "card (inner (directive_wire ` set cs)) \<le> length (filter (\<lambda>d. \<not> is_interface d) cs)" .
  show "length (filter (\<lambda>d. \<not> is_interface d) cs) + length (interface_ids cs) = length cs"
  proof (induction cs)
    case (Cons d cs)
    then show ?case
      by (cases d) simp_all
  qed simp
qed

section \<open>A whole stream\<close>

context streaming_strategy
begin

text \<open>The loop ends with every agent owned and every wire installed, or with an expired wire.\<close>

lemma stream_run:
  assumes k: "0 < k" "fit k s" "counts s = replicate k 0" and ok: "stream_ok stream"
  shows "(\<exists>i age. stream_loop env alloc k life stream (s, stream_init k) = Some (Inl (PendingConnectionExpired i age life)) \<and>
      life \<noteq> u32_MAX) \<or>
    (\<exists>s' st. stream_loop env alloc k life stream (s, stream_init k) = Some (Inr (s', st)) \<and> fit k s' \<and>
       stream_inv k (map_of (stream_agents stream)) (stream_wires stream) st \<and> dom (ss_pending st) = {} \<and>
       (\<forall>w < k. counts s' ! w = card (owned (ss_agent_owner st) w)) \<and> ss_chunks_seen st = length stream)"
proof -
  let ?A = "stream_wires stream" and ?ags = "map_of (stream_agents stream)" and ?cs = "stream_directives stream"
  have S: "distinct (map fst (stream_agents stream))" "\<forall>i \<in> fst ` set (stream_agents stream). i < u32_MAX"
      "distinct (wire_ends ?cs)" "\<forall>d \<in> set ?cs. wire_valid ?ags (directive_wire d)" "arrives {} stream" "interfaces_apart stream"
      "length ?cs < u32_MAX"
    using ok by (simp_all add: stream_ok_def)
  note E = distinct_ends [OF S(3)]
  have A: "finite ?A" "\<forall>a \<in> ?A. wire_valid ?ags a" "card (inner ?A) \<le> inner_count stream"
    using S(4) wire_counts(1) by (auto simp: inner_count_def)
  have tally: "\<forall>w < k. counts s ! w = card (owned (ss_agent_owner (stream_init k)) w)"
    using k(3) by (simp add: stream_init_def owned_def)
  have fresh: "fresh_from (inner_count stream) [] (stream_init k) stream"
    using S(6) by (auto simp: fresh_from_def interfaces_apart_def stream_init_def split: list.splits)
  have "card (set (interface_ids ?cs)) \<le> length (interface_ids ?cs)"
    by (rule card_length)
  then have room: "card (inner ?A) + card (ss_reserved (stream_init k) \<union> set (interface_ids ?cs)) < u32_MAX"
    using S(7) wire_counts [of ?cs] by (simp add: stream_init_def)
  have new: "\<forall>i \<in> fst ` set (stream_agents stream). i \<notin> dom (Map.empty :: agent_id \<rightharpoonup> symbol) \<and> i < u32_MAX"
      "Map.empty ++ ?ags \<subseteq>\<^sub>m ?ags" "?A \<inter> {} = {}" "arrives (dom (Map.empty :: agent_id \<rightharpoonup> symbol)) stream"
      "ss_reserved (stream_init k) = set []" "{} \<subseteq> ?A"
    using S(2,5) by (simp_all add: stream_init_def)
  note run = loop_run [OF k(1) E(2) A k(2) tally loop_inv_init new(6) S(1) new(1,2) E(1) subset_refl new(3,4) fresh new(5) room,
      of env life]
  show ?thesis
    using run
  proof (elim disjE exE conjE)
    fix i age
    assume "stream_loop env alloc k life stream (s, stream_init k) = Some (Inl (PendingConnectionExpired i age life))" "life \<noteq> u32_MAX"
    then show ?thesis
      by blast
  next
    fix s' st
    assume st: "stream_loop env alloc k life stream (s, stream_init k) = Some (Inr (s', st))" "fit k s'"
        "loop_inv k (Map.empty ++ ?ags) ({} \<union> ?A) st" "\<forall>w < k. counts s' ! w = card (owned (ss_agent_owner st) w)"
        "ss_chunks_seen st = ss_chunks_seen (stream_init k) + length stream"
    obtain W where W: "stream_inv k ?ags W st" "W \<union> pending_wires (ss_pending st) = ?A"
        "pending_ok (ss_pending st)" "dom (ss_pending st) \<inter> dom ?ags = {}"
      using st(3) unfolding loop_inv_def by auto
    have "i \<notin> dom (ss_pending st)" for i
    proof
      assume "i \<in> dom (ss_pending st)"
      then obtain pcs where pcs: "ss_pending st i = Some pcs"
        by blast
      then obtain pc where pc: "pc \<in> set (waiting (ss_pending st) i)" "pd_target_agent_id pc = i"
        using W(3) unfolding pending_ok_def waiting_def by (cases pcs) (fastforce split: option.splits)+
      then have "pending_wire pc \<in> ?A"
        using W(2) by (auto simp: pending_wires_def)
      then have "wire_valid ?ags (pending_wire pc)"
        using A(2) by blast
      then have "i \<in> dom ?ags"
        using pc(2) by (auto simp: wire_valid_def pending_wire_def port_exists_def split: option.splits)
      then show False
        using W(4) pcs by blast
    qed
    then have none: "dom (ss_pending st) = {}"
      by blast
    then have "pending_wires (ss_pending st) = {}"
      by (simp add: pending_wires_def waiting_def)
    then show ?thesis
      using st(1,2,4,5) W(1,2) none by (auto simp: stream_init_def)
  qed
qed

end

section \<open>The result of the pipeline\<close>

lemma finish_Inr:
  assumes "stream_finish env finalize k (s, st) = Inr r" "env_ok env" "stream_inv k ags W st"
  obtains parts where "finished env k ags W st parts" "cr_partitions r = parts" "cr_borders r = ss_border_map st"
    "cr_stats r = (finalize s)\<lparr>sst_chunks_processed := ss_chunks_seen st, sst_border_wire_count := ss_border_id_counter st\<rparr>"
    "\<And>p. p \<in> set parts \<Longrightarrow> dom (ss_border_map st) \<subseteq> {p_border_id_start p..<p_border_id_end p} \<and> p_border_id_end p = ss_border_id_counter st"
proof -
  define be where "be = ss_border_id_counter st"
  define bs where "bs = (case ss_border_id_start st of None \<Rightarrow> ss_border_id_counter st | Some b \<Rightarrow> b)"
  obtain parts where parts: "finalize_all env k (global_max_id (ss_accumulators st)) bs be 0 (ss_accumulators st) = Inr parts"
      "r = \<lparr>cr_partitions = parts, cr_borders = ss_border_map st,
            cr_stats = (finalize s)\<lparr>sst_chunks_processed := ss_chunks_seen st, sst_border_wire_count := be\<rparr>\<rparr>"
    using assms(1) by (auto simp: stream_finish_def Let_def bs_def be_def split: list.splits sum.splits)
  have fin: "finished env k ags W st parts"
    unfolding finished_def using assms(2,3) parts(1) by blast
  have ok: "accs_ok k ags (ss_agent_owner st) (ss_accumulators st)" and L: "links W (ss_agent_owner st)
      (raw (ss_agent_owner st) (ss_accumulators st)) (ss_border_map st) (ss_reserved st) be"
      and start: "start_ok (ss_border_id_start st) (ss_border_map st)"
    using assms(3) by (simp_all add: stream_inv_def be_def)
  have range: "dom (ss_border_map st) \<subseteq> {bs..<be}"
  proof
    fix b
    assume b: "b \<in> dom (ss_border_map st)"
    have "bs \<le> b"
      using start b by (cases "ss_border_id_start st") (auto simp: start_ok_def bs_def)
    then show "b \<in> {bs..<be}"
      using links_counter(2) [OF L] b by auto
  qed
  have "p_border_id_start p = bs" "p_border_id_end p = be" if p: "p \<in> set parts" for p
  proof -
    obtain w where w: "w < k" "p = parts ! w"
      using p finished_parts(1) [OF fin] by (auto simp: in_set_conv_nth)
    have "acc_finalize env (ss_accumulators st ! w) (stream_id_range k (global_max_id (ss_accumulators st)) w) bs be = Inr p"
      using finalize_all_Inr(2) [OF parts(1), of w] accs_okD(1) [OF ok] w by simp
    then show "p_border_id_start p = bs" "p_border_id_end p = be"
      using acc_finalize_view(6,7) [OF accs_okD(2) [OF ok w(1)] assms(2) stream_id_range_start] by blast+
  qed
  then show ?thesis
    using that [OF fin] parts(2) range by (simp add: be_def)
qed

lemma finish_Inl:
  assumes "stream_finish env finalize k (s, st) = Inl e" "env_ok env" "dom (ss_pending st) = {}"
  shows "(\<exists>w size live. e = PartitionDenseAllocationExceedsThreshold w size live \<and> size > 4 * live) \<or>
    (\<exists>m. e = PartitionInvariantViolation m)"
proof -
  have "se_pending env (ss_pending st) = []"
  proof -
    have "enumerates (se_pending env (ss_pending st)) (ss_pending st)"
      using assms(2,3) unfolding env_ok_def by (metis finite.emptyI)
    then show ?thesis
      using assms(3) by (simp add: enumerates_def)
  qed
  then show ?thesis
    using assms(1) finalize_all_error by (auto simp: stream_finish_def Let_def split: sum.splits option.splits)
qed

text \<open>The pipeline on a well-formed stream: the state after the loop, or an expired wire.\<close>

lemma pipeline_run:
  fixes env :: stream_env and finalize :: "'st \<Rightarrow> streaming_stats" and life :: nat
  assumes strat: "streaming_strategy alloc counts fit" and k: "0 < k" "fit k s" "counts s = replicate k 0"
    and ok: "stream_ok stream" and chunk: "chunk_size \<noteq> CHUNK_SIZE_MAX_SENTINEL"
  defines "res \<equiv> generate_and_partition_chunked_with_chunk_size_and_lifetime env stream k alloc finalize s chunk_size life"
  obtains (expired) i age where "res = Some (Inl (PendingConnectionExpired i age life))" "life \<noteq> u32_MAX"
  | (ended) s' st where "res = Some (stream_finish env finalize k (s', st))"
      "stream_loop env alloc k life stream (s, stream_init k) = Some (Inr (s', st))" "fit k s'"
      "stream_inv k (map_of (stream_agents stream)) (stream_wires stream) st" "dom (ss_pending st) = {}"
      "\<forall>w < k. counts s' ! w = card (owned (ss_agent_owner st) w)" "ss_chunks_seen st = length stream"
proof -
  have run: "res = (case stream_loop env alloc k life stream (s, stream_init k) of None \<Rightarrow> None
      | Some r \<Rightarrow> Some (case r of Inl e \<Rightarrow> Inl e | Inr st \<Rightarrow> stream_finish env finalize k st))"
    using k(1) chunk unfolding res_def generate_and_partition_chunked_with_chunk_size_and_lifetime_def
    by (simp split: option.split)
  show ?thesis
    using streaming_strategy.stream_run [OF strat k ok, of env life] expired ended unfolding run by auto
qed

text \<open>
  Streaming is safe (C12): on a well-formed stream, under a lawful strategy, the pipeline never
  panics.  It ends with one of three errors -- a pending wire that waited too long, a partition too
  sparse for its arena, an arena above the cap -- or with a partition per worker, such that every agent
  of the stream lives in exactly one partition, with its symbol, and nothing else does.  Of the
  statistics, the agents per worker and the number of batches are exact, while the reported number of
  border wires is the end of the border range, not their number; every border identifier is in the
  range each partition announces, which may be larger.  The total number of agents is the strategy's
  own counter, of which nothing is stated.
\<close>

theorem stream_partition_safe:
  assumes "streaming_strategy alloc counts fit" "0 < k" "fit k s" "counts s = replicate k 0"
    and "\<forall>s. sst_per_worker_counts (finalize s) = counts s"
    and "env_ok env" "stream_ok stream" "chunk_size \<noteq> CHUNK_SIZE_MAX_SENTINEL"
  shows "case generate_and_partition_chunked_with_chunk_size_and_lifetime env stream k alloc finalize s chunk_size life of
      None \<Rightarrow> False
    | Some (Inl e) \<Rightarrow>
        life \<noteq> u32_MAX \<and> (\<exists>i age. e = PendingConnectionExpired i age life) \<or>
        (\<exists>w size live. e = PartitionDenseAllocationExceedsThreshold w size live \<and> size > 4 * live) \<or>
        (\<exists>m. e = PartitionInvariantViolation m)
    | Some (Inr r) \<Rightarrow>
        length (cr_partitions r) = k \<and>
        (\<forall>i. map_of (stream_agents stream) i = None \<longrightarrow> (\<forall>p \<in> set (cr_partitions r). \<not> live (p_subnet p) i)) \<and>
        (\<forall>i sym. map_of (stream_agents stream) i = Some sym \<longrightarrow>
           (\<exists>!w. w < k \<and> live (p_subnet (cr_partitions r ! w)) i) \<and>
           (\<forall>p \<in> set (cr_partitions r). live (p_subnet p) i \<longrightarrow> sym_at (p_subnet p) i = Some sym)) \<and>
        (\<forall>w < k. sst_per_worker_counts (cr_stats r) ! w = card {i. live (p_subnet (cr_partitions r ! w)) i}) \<and>
        sst_chunks_processed (cr_stats r) = length stream \<and>
        (\<forall>p \<in> set (cr_partitions r). dom (cr_borders r) \<subseteq> {p_border_id_start p..<p_border_id_end p} \<and>
           p_border_id_end p = sst_border_wire_count (cr_stats r))"
  using assms(1-4,7,8)
proof (cases rule: pipeline_run [where env = env and finalize = finalize and life = life])
  case (ended s' st)
  show ?thesis
  proof (cases "stream_finish env finalize k (s', st)")
    case (Inl e)
    then show ?thesis
      using finish_Inl [OF Inl assms(6) ended(5)] ended(1) by auto
  next
    case (Inr r)
    obtain parts where parts: "finished env k (map_of (stream_agents stream)) (stream_wires stream) st parts"
        "cr_partitions r = parts" "cr_borders r = ss_border_map st"
        "cr_stats r = (finalize s')\<lparr>sst_chunks_processed := ss_chunks_seen st, sst_border_wire_count := ss_border_id_counter st\<rparr>"
        "\<And>p. p \<in> set parts \<Longrightarrow> dom (ss_border_map st) \<subseteq> {p_border_id_start p..<p_border_id_end p} \<and> p_border_id_end p = ss_border_id_counter st"
      using finish_Inr [OF Inr assms(6) ended(4)] by metis
    note F = finished_parts [OF parts(1)]
    have ok: "accs_ok k (map_of (stream_agents stream)) (ss_agent_owner st) (ss_accumulators st)"
      using ended(4) by (simp add: stream_inv_def)
    have lives: "live (p_subnet (parts ! w)) i \<longleftrightarrow> ss_agent_owner st i = Some w" if "w < k" for w i
      using F(2) [OF that, of i] accs_okD(5) [OF ok, of i] by auto
    have nth: "\<exists>w < k. p = parts ! w" if "p \<in> set parts" for p
      using that F(1) by (auto simp: in_set_conv_nth)
    have dead: "\<forall>p \<in> set parts. \<not> live (p_subnet p) i" if "map_of (stream_agents stream) i = None" for i
    proof
      fix p
      assume "p \<in> set parts"
      then obtain w where "w < k" "p = parts ! w"
        using nth by blast
      then show "\<not> live (p_subnet p) i"
        using lives [of w i] accs_okD(5) [OF ok, of i] that by simp
    qed
    have one: "\<exists>!w. w < k \<and> live (p_subnet (parts ! w)) i" if agent: "map_of (stream_agents stream) i = Some sym" for i sym
    proof -
      obtain w where w: "ss_agent_owner st i = Some w"
        using accs_okD(5) [OF ok, of i] agent by (cases "ss_agent_owner st i") auto
      then show ?thesis
        using accs_okD(4) [OF ok w] lives [where i = i] by (metis option.inject)
    qed
    have sym: "sym_at (p_subnet p) i = Some sym"
      if agent: "map_of (stream_agents stream) i = Some sym" "p \<in> set parts" "live (p_subnet p) i" for i sym p
    proof -
      obtain w where "w < k" "p = parts ! w"
        using nth [OF agent(2)] by blast
      then show ?thesis
        using F(2) [of w i] agent(1,3) by (auto split: if_splits)
    qed
    have count: "sst_per_worker_counts (cr_stats r) ! w = card {i. live (p_subnet (parts ! w)) i}" if "w < k" for w
      using ended(6) that assms(5) lives [OF that] by (simp add: parts(4) owned_def)
    have chunks: "sst_chunks_processed (cr_stats r) = length stream"
      using ended(7) by (simp add: parts(4))
    have range: "dom (ss_border_map st) \<subseteq> {p_border_id_start p..<p_border_id_end p}" and ends: "p_border_id_end p = sst_border_wire_count (cr_stats r)"
      if "p \<in> set parts" for p
      using conjunct1 [OF parts(5) [OF that]] conjunct2 [OF parts(5) [OF that]] by (simp_all add: parts(4))
    show ?thesis
      unfolding ended(1) Inr option.case sum.case parts(2,3)
      by (intro conjI allI impI F(1) dead one count chunks ballI sym range ends)
  qed
qed simp

section \<open>Streaming and merging\<close>

definition leads_to :: "net \<Rightarrow> port_ref \<Rightarrow> port_ref \<Rightarrow> bool" where
  "leads_to m x y \<longleftrightarrow> (case x of AgentPort i p \<Rightarrow> tgt m i p = y | FreePort f \<Rightarrow> True)"

text \<open>
  Merging a streamed net gives the net the stream describes (C10): when every worker got an agent, the
  merged net satisfies the arena invariant, has exactly the agents of the stream, joins the two ends of
  every wire of the stream -- resolved, pending or interface -- and leaves every other port open.
\<close>

theorem stream_merge_correct:
  assumes "streaming_strategy alloc counts fit" "0 < k" "fit k s" "counts s = replicate k 0"
    and "\<forall>s. sst_per_worker_counts (finalize s) = counts s"
    and "env_ok env" "stream_ok stream" "chunk_size \<noteq> CHUNK_SIZE_MAX_SENTINEL"
    and "generate_and_partition_chunked_with_chunk_size_and_lifetime env stream k alloc finalize s chunk_size life = Some (Inr r)"
    and "\<forall>w < k. 0 < sst_per_worker_counts (cr_stats r) ! w"
    and "distinct border_order" "set border_order = dom (cr_borders r)" "merge border_order (plan_of_chunked r) = (m, c)"
  shows "core_inv m \<and> sym_at m = map_of (stream_agents stream) \<and>
    (\<forall>(x, y) \<in> stream_wires stream. leads_to m x y \<and> leads_to m y x) \<and>
    (\<forall>i p. live m i \<longrightarrow> p < 3 \<longrightarrow> unused (stream_wires stream) (AgentPort i p) \<longrightarrow> tgt m i p = DISCONNECTED)"
  using assms(1-4,7,8)
proof (cases rule: pipeline_run [where env = env and finalize = finalize and life = life])
  case (ended s' st)
  let ?A = "stream_wires stream" and ?ags = "map_of (stream_agents stream)"
  let ?raw = "raw (ss_agent_owner st) (ss_accumulators st)"
  have fin_r: "stream_finish env finalize k (s', st) = Inr r"
    using ended(1) assms(9) by simp
  obtain parts where parts: "finished env k ?ags ?A st parts" "cr_partitions r = parts" "cr_borders r = ss_border_map st"
      "cr_stats r = (finalize s')\<lparr>sst_chunks_processed := ss_chunks_seen st, sst_border_wire_count := ss_border_id_counter st\<rparr>"
    using finish_Inr [OF fin_r assms(6) ended(4)] by metis
  have L: "links ?A (ss_agent_owner st) ?raw (ss_border_map st) (ss_reserved st) (ss_border_id_counter st)"
    using ended(4) by (simp add: stream_inv_def)
  have all: "\<forall>w < k. owned (ss_agent_owner st) w \<noteq> {}"
    using assms(5,10) ended(6) by (auto simp: parts(4))
  have "merge border_order (stream_plan parts st) = (m, c)"
    using assms(13) parts(2,3) by (simp add: plan_of_chunked_def stream_plan_def)
  note M = finished_merge [OF parts(1) all assms(11) assms(12) [unfolded parts(3)] this]
  have ok: "stream_ok stream"
    by (rule assms(7))
  have valid: "wire_valid ?ags a" if "a \<in> ?A" for a
    using ok that by (auto simp: stream_ok_def)
  have leads: "leads_to m x y" if "ends_at ?A x y" "case x of AgentPort i p \<Rightarrow> port_exists ?ags i p | FreePort f \<Rightarrow> True" for x y
  proof (cases x)
    case (AgentPort i p)
    have "i \<in> dom ?ags" "p < 3"
      using that(2) port_exists_less by (auto simp: AgentPort port_exists_def split: option.splits)
    then show ?thesis
      using M(3) linksD(1) [OF L, of "(i, p)" y] that(1) by (simp add: leads_to_def AgentPort)
  qed (simp add: leads_to_def)
  have wires: "leads_to m x y \<and> leads_to m y x" if "(x, y) \<in> ?A" for x y
    using valid [OF that] that by (intro conjI leads) (auto simp: wire_valid_def ends_at_def split: port_ref.splits)
  have open_ports: "tgt m i p = DISCONNECTED" if "live m i" "p < 3" "unused ?A (AgentPort i p)" for i p
  proof -
    have "i \<in> dom ?ags" "?raw (i, p) = DISCONNECTED"
      using that(1,3) M(2) linksD(2) [OF L, of "(i, p)"] by auto
    moreover have "ss_border_map st u32_MAX = None"
      using links_counter(2) [OF L] linksD(8) [OF L] by (cases "ss_border_map st u32_MAX") auto
    ultimately show ?thesis
      using M(3) that(2) by (simp add: glue_def DISCONNECTED_def)
  qed
  show ?thesis
    using M(1,2) wires open_ports by blast
qed (use assms(9) in simp)

end
