(* ===== verification/Stream_Runs.thy ===== *)
theory Stream_Runs
  imports Stream_Props
begin

text \<open>
  Streaming with the strategies of the code, and runs on concrete streams: what round robin does with
  more than four workers, what the single-chunk path drops, and what happens when an interface
  identifier arrives after a border has taken it.
\<close>

section \<open>Who owns an agent under round robin\<close>

lemma ofold_keeps:
  assumes "\<And>x s s'. f x s = Some s' \<Longrightarrow> g s' = g s"
  shows "ofold f xs s = Some s' \<Longrightarrow> g s' = g s"
proof (induction xs arbitrary: s)
  case (Cons x xs)
  then obtain s1 where "f x s = Some s1" "ofold f xs s1 = Some s'"
    by (auto split: Option.bind_splits)
  then show ?case
    using Cons.IH assms by metis
qed simp

lemma wire_owner:
  "stream_install e f st = Some st' \<Longrightarrow> ss_agent_owner st' = ss_agent_owner st"
  "install_resolved d st = Some st' \<Longrightarrow> ss_agent_owner st' = ss_agent_owner st"
  "install_interface d st = Some st' \<Longrightarrow> ss_agent_owner st' = ss_agent_owner st"
  "ss_agent_owner (fold buffer_pending ds st) = ss_agent_owner st"
  "resolve_pending i st = Some st' \<Longrightarrow> ss_agent_owner st' = ss_agent_owner st"
proof -
  show install: "stream_install e f st = Some st' \<Longrightarrow> ss_agent_owner st' = ss_agent_owner st" for e f st st'
    by (auto simp: stream_install_def split: Option.bind_splits prod.splits)
  show "install_resolved d st = Some st' \<Longrightarrow> ss_agent_owner st' = ss_agent_owner st"
    using install by (cases d) (auto simp: install_resolved_def)
  show "install_interface d st = Some st' \<Longrightarrow> ss_agent_owner st' = ss_agent_owner st"
    by (cases d) (auto simp: install_interface_def split: Option.bind_splits)
  show "ss_agent_owner (fold buffer_pending ds st) = ss_agent_owner st"
    by (induction ds arbitrary: st) (auto simp: buffer_pending_def split: connection_directive.split)
  show "resolve_pending i st = Some st' \<Longrightarrow> ss_agent_owner st' = ss_agent_owner st"
    using ofold_keeps [where g = ss_agent_owner, OF install]
    by (fastforce simp: resolve_pending_def split: option.splits)
qed

lemma assign_owner:
  "assign_agents n symbols res st = Inr st' \<Longrightarrow>
     ss_agent_owner st' = fold (\<lambda>(i, w) m. m(i \<mapsto> w)) res (ss_agent_owner st)"
proof (induction n symbols res st rule: assign_agents.induct)
  case (2 n symbols i w rest st)
  then show ?case
    by (auto split: if_splits option.splits)
qed simp

lemma stream_batch_owner:
  assumes "stream_batch env alloc k life batch (s, st) = Some (Inr (s', st'))"
  obtains res where "alloc s batch k = Some (s', res)"
    "ss_agent_owner st' = fold (\<lambda>(i, w) m. m(i \<mapsto> w)) res (ss_agent_owner st)"
proof -
  let ?st0 = "fold reserve_interface (ab_connections batch) (st\<lparr>ss_chunks_seen := ss_chunks_seen st + 1\<rparr>)"
  have st0: "ss_agent_owner ?st0 = ss_agent_owner st"
  proof -
    have "ss_agent_owner (fold reserve_interface ds s) = ss_agent_owner s" for ds s
      by (induction ds arbitrary: s) (auto simp: reserve_interface_def split: connection_directive.split)
    then show ?thesis
      by simp
  qed
  obtain s1 res where res: "alloc s batch k = Some (s1, res)"
    using assms by (cases "alloc s batch k") (auto simp: stream_batch_def Let_def)
  obtain st1 where st1: "assign_agents k (symbol_lookup batch) res ?st0 = Inr st1"
      "map_option (map_sum id (Pair s1)) (stream_wire env life batch res st1) = Some (Inr (s', st'))"
    using assms res by (cases "assign_agents k (symbol_lookup batch) res ?st0") (auto simp: stream_batch_def Let_def)
  then obtain z where "stream_wire env life batch res st1 = Some z" "map_sum id (Pair s1) z = Inr (s', st')"
    by auto
  then have wire: "stream_wire env life batch res st1 = Some (Inr st')" "s1 = s'"
    by (cases z; simp)+
  have "ss_agent_owner st' = ss_agent_owner st1"
  proof -
    obtain st2 st3 where st2: "ofold install_resolved (ab_connections batch) st1 = Some st2"
        "ofold install_interface (ab_connections batch) st2 = Some st3"
        "ofold resolve_pending (map fst res) (fold buffer_pending (ab_connections batch) st3) = Some st'"
      using wire(1) by (auto simp: stream_wire_def Let_def split: Option.bind_splits option.splits)
    have "ss_agent_owner st' = ss_agent_owner (fold buffer_pending (ab_connections batch) st3)"
      by (rule ofold_keeps [where g = ss_agent_owner, OF wire_owner(5) st2(3)])
    also have "\<dots> = ss_agent_owner st3"
      by (rule wire_owner(4))
    also have "\<dots> = ss_agent_owner st2"
      by (rule ofold_keeps [where g = ss_agent_owner, OF wire_owner(3) st2(2)])
    also have "\<dots> = ss_agent_owner st1"
      by (rule ofold_keeps [where g = ss_agent_owner, OF wire_owner(2) st2(1)])
    finally show ?thesis .
  qed
  then show ?thesis
    using that res wire(2) assign_owner [OF st1(1)] st0 by simp
qed

lemma rr_assign_range:
  assumes "0 < k" "k \<le> length (rr_per_worker_counts rr)" "map fst ags = [rr_counter rr..<rr_counter rr + n]"
    and "rr_assign k ags rr = (rr', res)"
  shows "res = map (\<lambda>i. (i, i mod k)) [rr_counter rr..<rr_counter rr + n]" "rr_counter rr' = rr_counter rr + n"
proof -
  let ?c = "rr_counter rr"
  note S = rr_assign_spec [OF assms(1,2,4)]
  have len: "length ags = n"
    using assms(3) by (metis add_diff_cancel_left' length_map length_upt)
  have shift: "[?c..<?c + n] = map (\<lambda>j. ?c + j) [0..<n]"
    by (simp add: map_add_upt add.commute)
  have "map snd res = map (\<lambda>i. i mod k) [?c..<?c + n]"
    using S(2) unfolding len shift by (simp add: comp_def)
  moreover have "map fst res = [?c..<?c + n]"
    using S(1) assms(3) by simp
  moreover have "res = zip (map fst res) (map snd res)"
    by (simp add: zip_map_fst_snd)
  ultimately have "res = zip [?c..<?c + n] (map (\<lambda>i. i mod k) [?c..<?c + n])"
    by metis
  then show "res = map (\<lambda>i. (i, i mod k)) [?c..<?c + n]"
    by (simp add: zip_map2 zip_same_conv_map)
  show "rr_counter rr' = ?c + n"
    using S(3) len by simp
qed

lemma fold_owner_range:
  "fold (\<lambda>(i, w) m. m(i \<mapsto> w)) (map (\<lambda>i. (i, f i)) [c..<c + n]) (\<lambda>i. if i < c then Some (f i) else None) =
     (\<lambda>i. if i < c + n then Some (f i) else None)"
  by (induction n) (auto simp: fun_eq_iff)

abbreviation rr_alloc :: "round_robin \<Rightarrow> agent_batch \<Rightarrow> nat \<Rightarrow> (round_robin \<times> (agent_id \<times> worker_id) list) option" where
  "rr_alloc \<equiv> \<lambda>rr batch k. Some (rr_allocate_batch rr batch k)"

lemma rr_loop_owner:
  assumes "0 < k"
  shows "stream_loop env rr_alloc k life stream (rr, st) = Some (Inr (rr', st')) \<Longrightarrow> rr_fit k rr \<Longrightarrow>
    map fst (stream_agents stream) = [rr_counter rr..<rr_counter rr + n] \<Longrightarrow>
    ss_agent_owner st = (\<lambda>i. if i < rr_counter rr then Some (i mod k) else None) \<Longrightarrow>
    ss_agent_owner st' = (\<lambda>i. if i < rr_counter rr + n then Some (i mod k) else None) \<and> rr_counter rr' = rr_counter rr + n"
proof (induction stream arbitrary: rr st n)
  case Nil
  have "[rr_counter rr..<rr_counter rr + n] = []"
    using Nil.prems(3) [symmetric] by (simp add: stream_agents_def del: upt_eq_Nil_conv)
  then have "n = 0"
    by auto
  then show ?case
    using Nil.prems by simp
next
  case (Cons batch stream)
  let ?n1 = "length (ab_agents batch)" and ?c = "rr_counter rr"
  obtain rr1 st1 where step: "stream_batch env rr_alloc k life batch (rr, st) = Some (Inr (rr1, st1))"
      "stream_loop env rr_alloc k life stream (rr1, st1) = Some (Inr (rr', st'))"
    using Cons.prems(1) by (auto split: Option.bind_splits sum.splits)
  obtain res where res: "rr_allocate_batch rr batch k = (rr1, res)"
      "ss_agent_owner st1 = fold (\<lambda>(i, w) m. m(i \<mapsto> w)) res (ss_agent_owner st)"
    using stream_batch_owner [OF step(1)] by auto
  have len: "k \<le> length (rr_per_worker_counts rr)"
    using Cons.prems(2) by (simp add: rr_fit_def)
  have run: "rr_assign k (ab_agents batch) rr = (rr1, res)"
    using res(1) assms len by (simp add: rr_allocate_batch_def)
  have ids: "map fst (ab_agents batch) @ map fst (stream_agents stream) = [?c..<?c + n]"
    using Cons.prems(3) by (simp add: stream_agents_def)
  then have "?n1 + length (stream_agents stream) = n"
    by (metis add_diff_cancel_left' length_append length_map length_upt)
  then have n: "n = ?n1 + (n - ?n1)"
    by simp
  have "[?c..<?c + n] = [?c..<?c + ?n1] @ [?c + ?n1..<?c + n]"
    using n upt_add_eq_append [of ?c "?c + ?n1" "n - ?n1"] by simp
  then have both: "map fst (ab_agents batch) = [?c..<?c + ?n1]" "map fst (stream_agents stream) = [?c + ?n1..<?c + n]"
    using ids by (simp_all add: append_eq_append_conv)
  note R = rr_assign_range [OF assms len both(1) run]
  have "ss_agent_owner st1 = (\<lambda>i. if i < ?c + ?n1 then Some (i mod k) else None)"
    unfolding res(2) R(1) Cons.prems(4) by (rule fold_owner_range)
  moreover have "rr_fit k rr1"
    using rr.fit_kept [OF assms Cons.prems(2)] res(1) by blast
  ultimately show ?case
    using Cons.IH [OF step(2), of "n - ?n1"] both(2) n R(2) by simp
qed

text \<open>An arena within the cap is never refused as such.\<close>

lemma finalize_all_Inl:
  assumes "finalize_all env k g bs be w accs = Inl e"
  shows "\<exists>j < length accs. acc_finalize env (accs ! j) (stream_id_range k g (w + j)) bs be = Inl e"
  using assms
proof (induction accs arbitrary: w)
  case (Cons acc accs)
  show ?case
  proof (cases "acc_finalize env acc (stream_id_range k g w) bs be")
    case (Inl e')
    then show ?thesis
      using Cons.prems by (intro exI [of _ 0]) simp
  next
    case (Inr p)
    then have "finalize_all env k g bs be (w + 1) accs = Inl e"
      using Cons.prems by (cases "finalize_all env k g bs be (w + 1) accs") auto
    then obtain j where "j < length accs" "acc_finalize env (accs ! j) (stream_id_range k g (w + 1 + j)) bs be = Inl e"
      using Cons.IH by blast
    then show ?thesis
      by (intro exI [of _ "Suc j"]) simp
  qed
qed simp

lemma acc_finalize_within:
  assumes ok: "acc_ok ags owner w acc" and env: "env_ok env" and r: "ir_start r \<le> ir_end r"
    and small: "owned owner w \<subseteq> {..<n}" "n \<le> MAX_DENSE_ARENA_SLOTS" "0 < n"
  shows "acc_finalize env acc r bs be \<noteq> Inl (PartitionInvariantViolation m)"
proof -
  let ?sp = "acc_sp (ac_subnet acc)"
  note A = acc_okD [OF ok]
  have dom: "dom (sp_agents ?sp) \<subseteq> owned owner w"
  proof
    fix j
    assume "j \<in> dom (sp_agents ?sp)"
    then have "sp_sym ?sp j \<noteq> None"
      by (auto simp: sp_sym_def)
    then show "j \<in> owned owner w"
      using A(3) [of j] by (auto simp: owned_def split: if_splits)
  qed
  then have "enumerates (se_agents env ?sp) (sp_agents ?sp)"
    using env A(2,6) finite_subset unfolding env_ok_def by blast
  then have "set (se_agents env ?sp) \<subseteq> {..<n}"
    using dom small(1) unfolding enumerates_def by blast
  then have below: "\<forall>i \<in> set (se_agents env ?sp). i \<le> n - 1"
    by fastforce
  have "fold max xs a \<le> b" if "\<forall>i \<in> set xs. i \<le> b" "a \<le> b" for xs :: "nat list" and a b
    using that by (induction xs arbitrary: a) auto
  from this [OF below, of 0] have "fold max (se_agents env ?sp) 0 + 1 \<le> MAX_DENSE_ARENA_SLOTS"
    using small(2,3) by linarith
  then have "\<exists>d. to_dense (se_agents env ?sp) (se_ports env ?sp) (Some (ir_start r, ir_end r)) ?sp = Inr d"
    using r by (simp add: to_dense_def Let_def)
  then show ?thesis
    using A(1) by (cases "ac_subnet acc") (auto simp: acc_finalize_def Let_def split: if_splits)
qed

lemma global_max_below:
  assumes "accs_ok k ags owner accs" "\<forall>i. owner i \<noteq> None \<longrightarrow> i < n" "global_max_id accs = Some g"
  shows "g < n"
proof -
  have each: "\<forall>x \<in> set (List.map_filter ac_max_assigned_id accs). x < n"
  proof
    fix x
    assume "x \<in> set (List.map_filter ac_max_assigned_id accs)"
    then obtain w where w: "w < k" "ac_max_assigned_id (accs ! w) = Some x"
      using accs_okD(1) [OF assms(1)] by (fastforce simp: map_filter_def in_set_conv_nth)
    note A = acc_okD [OF accs_okD(2) [OF assms(1) w(1)]]
    have "x \<in> owned owner w"
      using A(6,8) w(2) Max_in [OF A(6)] by (auto split: if_splits)
    then show "x < n"
      using assms(2) by (auto simp: owned_def)
  qed
  have "fold max xs a < n" if "\<forall>x \<in> set xs. x < n" "a < n" for xs and a :: nat
    using that by (induction xs arbitrary: a) auto
  then show ?thesis
    using each assms(3) by (auto simp: global_max_id_def split: list.splits)
qed

lemma stream_id_range_ordered:
  assumes "\<And>m. g = Some m \<Longrightarrow> m < u32_MAX"
  shows "ir_start (stream_id_range k g w) \<le> ir_end (stream_id_range k g w)"
proof (cases g)
  case (Some m)
  then show ?thesis
    using stream_id_range_disjoint(1) [OF assms [OF Some], of w "Suc w" k] by simp
qed (simp add: stream_id_range_def)

lemma finish_within:
  assumes "stream_finish env finalize k (s, st) = Inl e" "env_ok env" "dom (ss_pending st) = {}"
    and ok: "accs_ok k ags (ss_agent_owner st) (ss_accumulators st)" and below: "\<forall>i. ss_agent_owner st i \<noteq> None \<longrightarrow> i < n"
    and cap: "n \<le> MAX_DENSE_ARENA_SLOTS" "0 < n"
  shows "\<exists>w size live. e = PartitionDenseAllocationExceedsThreshold w size live \<and> size > 4 * live"
proof -
  have "e \<noteq> PartitionInvariantViolation m" for m
  proof
    assume e: "e = PartitionInvariantViolation m"
    let ?accs = "ss_accumulators st"
    obtain bs be where "finalize_all env k (global_max_id ?accs) bs be 0 ?accs = Inl e"
      using assms(1) e by (auto simp: stream_finish_def Let_def split: list.splits sum.splits)
    then obtain w where w: "w < k" "acc_finalize env (?accs ! w) (stream_id_range k (global_max_id ?accs) w) bs be = Inl e"
      using finalize_all_Inl accs_okD(1) [OF ok] by fastforce
    have "g < u32_MAX" if "global_max_id ?accs = Some g" for g
      using global_max_below [OF ok below that] cap(1) by (simp add: MAX_DENSE_ARENA_SLOTS_def)
    then have "ir_start (stream_id_range k (global_max_id ?accs) w) \<le> ir_end (stream_id_range k (global_max_id ?accs) w)"
      by (rule stream_id_range_ordered)
    then show False
      using acc_finalize_within [OF accs_okD(2) [OF ok w(1)] assms(2) _ _ cap, of _ bs be m] w(2) e below by (auto simp: owned_def)
  qed
  then show ?thesis
    using finish_Inl [OF assms(1-3)] by blast
qed

text \<open>
  Round robin with more than four workers always fails (C28): when the identifiers of the agents are
  consecutive, as the generators of the repository make them, and there are at least as many agents as
  workers, every stream is refused.  The last worker owns every k-th agent, so that its highest
  identifier is about k times the number of its agents, and the check of the arena size, which allows a
  factor of four, refuses it.  Another error is reported only when a pending wire expires first, which
  needs a finite lifetime, or when an arena is above the cap, which needs more agents than the cap.
\<close>

theorem round_robin_limit:
  assumes "4 < k" "k \<le> n" "rr_new k = Some s" "env_ok env" "stream_ok stream"
    and "map fst (stream_agents stream) = [0..<n]" "chunk_size \<noteq> CHUNK_SIZE_MAX_SENTINEL"
  shows "\<exists>e. generate_and_partition_chunked_with_chunk_size_and_lifetime env stream k rr_alloc rr_finalize s chunk_size life = Some (Inl e) \<and>
    ((\<exists>w size live. e = PartitionDenseAllocationExceedsThreshold w size live \<and> size > 4 * live) \<or>
     life \<noteq> u32_MAX \<and> (\<exists>i age. e = PendingConnectionExpired i age life) \<or>
     MAX_DENSE_ARENA_SLOTS < n \<and> (\<exists>m. e = PartitionInvariantViolation m))"
proof -
  have k: "0 < k"
    using assms(1) by simp
  have s: "rr_fit k s" "rr_per_worker_counts s = replicate k 0" "rr_counter s = 0"
    using strategies_fresh(1) [OF k] assms(3) k by (auto simp: rr_new_def rr_try_new_def)
  show ?thesis
    using rr.streaming_strategy_axioms k s(1,2) assms(5,7)
  proof (cases rule: pipeline_run [where env = env and finalize = rr_finalize and life = life])
    case (ended s' st)
    have own: "ss_agent_owner st = (\<lambda>i. if i < n then Some (i mod k) else None)" "rr_counter s' = n"
      using rr_loop_owner [OF k ended(2) s(1), of n] assms(6) s(3) by (simp_all add: stream_init_def)
    define c where "c = n div k"
    have c: "0 < c" "k * c \<le> n"
      using assms(1,2) by (simp_all add: c_def div_greater_zero_iff)
    have "card (owned (ss_agent_owner st) (k - 1)) = rr_share k n (k - 1)"
      using ended(3,6) own(2) k by (simp add: rr_fit_def)
    moreover have "\<not> k - 1 < n mod k"
      using mod_less_divisor [OF k, of n] by linarith
    ultimately have card: "card (owned (ss_agent_owner st) (k - 1)) = c"
      by (simp add: rr_share_def c_def)
    have "(k * c - 1) mod k = k - 1"
    proof -
      have "k * c - 1 = (k - 1) + k * (c - 1)"
        using c(1) k by (cases c) (auto simp: algebra_simps)
      then have "(k * c - 1) mod k = (k - 1) mod k"
        by (metis mod_mult_self2)
      then show ?thesis
        using k by simp
    qed
    moreover have "k * c - 1 < n"
      using c k mult_pos_pos [OF k c(1)] by linarith
    ultimately have top: "k * c - 1 \<in> owned (ss_agent_owner st) (k - 1)"
      by (simp add: owned_def own(1))
    have ok: "accs_ok k (map_of (stream_agents stream)) (ss_agent_owner st) (ss_accumulators st)"
      using ended(4) by (simp add: stream_inv_def)
    have last: "k - 1 < k"
      using k by simp
    note A = acc_okD [OF accs_okD(2) [OF ok last]]
    have "k * c - 1 \<le> Max (owned (ss_agent_owner st) (k - 1))"
      using A(6) top by (rule Max_ge)
    moreover have "4 * c < k * c"
      using assms(1) c(1) by simp
    ultimately have "4 * c < Max (owned (ss_agent_owner st) (k - 1)) + 1"
      by linarith
    moreover have "owned (ss_agent_owner st) (k - 1) \<noteq> {}"
      using top by blast
    ultimately have big: "4 * ac_live_agent_count (ss_accumulators st ! (k - 1)) <
        (case ac_max_assigned_id (ss_accumulators st ! (k - 1)) of None \<Rightarrow> 0 | Some m \<Rightarrow> m + 1)"
      unfolding A(7,8) card by simp
    have no: "stream_finish env rr_finalize k (s', st) \<noteq> Inr r" for r
    proof
      assume "stream_finish env rr_finalize k (s', st) = Inr r"
      then obtain bs be parts where "finalize_all env k (global_max_id (ss_accumulators st)) bs be 0 (ss_accumulators st) = Inr parts"
        by (auto simp: stream_finish_def Let_def split: list.splits sum.splits)
      from finalize_all_Inr(2) [OF this, of "k - 1"]
      have "acc_finalize env (ss_accumulators st ! (k - 1)) (stream_id_range k (global_max_id (ss_accumulators st)) (k - 1)) bs be =
          Inr (parts ! (k - 1))"
        using accs_okD(1) [OF ok] last by simp
      from acc_finalize_view(9) [OF accs_okD(2) [OF ok last] assms(4) stream_id_range_start this] show False
        using big by simp
    qed
    then obtain e where e: "stream_finish env rr_finalize k (s', st) = Inl e"
      by (cases "stream_finish env rr_finalize k (s', st)") auto
    have below: "\<forall>i. ss_agent_owner st i \<noteq> None \<longrightarrow> i < n"
      by (simp add: own(1))
    have pos: "0 < n"
      using assms(1,2) by linarith
    show ?thesis
      using ended(1) e finish_Inl [OF e assms(4) ended(5)] finish_within [OF e assms(4) ended(5) ok below _ pos]
      by (cases "n \<le> MAX_DENSE_ARENA_SLOTS") (auto simp: not_le)
  qed auto
qed

section \<open>A sample stream\<close>

text \<open>Iteration in increasing order.\<close>

definition sorted_env :: stream_env where
  "sorted_env =
     \<lparr>se_agents = (\<lambda>sp. filter (\<lambda>i. sp_agents sp i \<noteq> None) [0..<sp_next_id sp]),
      se_ports = (\<lambda>sp. filter (\<lambda>e. sp_ports sp e \<noteq> None) (List.product [0..<sp_next_id sp] [0, 1, 2])),
      se_owner = (\<lambda>sigma. sorted_list_of_set (dom sigma)),
      se_pending = (\<lambda>pending. sorted_list_of_set (dom pending)),
      se_display = (\<lambda>e. [])\<rparr>"

lemma sorted_env_ok: "env_ok sorted_env"
proof -
  have "enumerates (se_ports sorted_env sp) (sp_ports sp)" "enumerates (se_agents sorted_env sp) (sp_agents sp)"
    if inv: "sp_inv sp" for sp
  proof -
    have below: "i < sp_next_id sp" if "sp_agents sp i = Some ag" for i ag
      using sp_invD(2) [OF inv that] .
    have keys: "i < sp_next_id sp \<and> p < 3" if "sp_ports sp (i, p) = Some t" for i p t
      using sp_invD(5) [OF inv that] port_exists_less [of "sp_sym sp" i p] below
      by (auto simp: port_exists_def sp_sym_def split: option.splits)
    show "enumerates (se_agents sorted_env sp) (sp_agents sp)"
      using below by (auto simp: enumerates_def sorted_env_def)
    have "p < 3 \<longleftrightarrow> p = 0 \<or> p = 1 \<or> p = 2" for p :: port_id
      by auto
    then show "enumerates (se_ports sorted_env sp) (sp_ports sp)"
      using keys by (fastforce simp: enumerates_def sorted_env_def distinct_product)
  qed
  moreover have "finite (dom pending) \<Longrightarrow> enumerates (se_pending sorted_env pending) pending" for pending
    by (simp add: enumerates_def sorted_env_def)
  ultimately show ?thesis
    by (simp add: env_ok_def)
qed

definition sample_stream :: "agent_batch list" where
  "sample_stream =
     [\<lparr>ab_agents = [(0, Con), (1, Con)],
       ab_connections = [Resolved (0, 0) (1, 0), FreePortInterface (0, 1) 0, Pending (0, 2) 2 0]\<rparr>,
      \<lparr>ab_agents = [(2, Era)], ab_connections = []\<rparr>]"

lemma sample_stream_ok: "stream_ok sample_stream"
  by (simp add: stream_ok_def sample_stream_def stream_agents_def stream_directives_def wire_ends_def directive_wire_def
      wire_valid_def port_exists_def batch_arrives_def interfaces_apart_def)

lemma skip_reserved_steps:
  "c \<notin> reserved \<Longrightarrow> skip_reserved reserved c = Some c"
  "c \<in> reserved \<Longrightarrow> c < u32_MAX \<Longrightarrow> skip_reserved reserved c = skip_reserved reserved (c + 1)"
  by (simp_all add: skip_reserved.simps [of reserved c])

lemma bind_weak_cong: "x = y \<Longrightarrow> x \<bind> f = y \<bind> (f :: 'a \<Rightarrow> 'b option)"
  by simp

lemma small_upt: "[0..<2] = [0 :: nat, 1]" "[0..<3] = [0 :: nat, 1, 2]" "[1..<3] = [1 :: nat, 2]" "[2..<3] = [2 :: nat]"
  by (simp_all add: upt_rec)

lemma small_replicate:
  "replicate 2 x = [x, x]" "replicate 3 x = [x, x, x]" "replicate 6 x = [x, x, x, x, x, x]"
  "replicate 9 x = [x, x, x, x, x, x, x, x, x]"
  by (simp_all add: numeral_eq_Suc)

lemmas stream_eval =
  generate_and_partition_chunked_with_chunk_size_and_lifetime_def CHUNK_SIZE_MAX_SENTINEL_def stream_batch_def
  stream_init_def rr_allocate_batch_def Let_def symbol_lookup_def add_agent_def accumulator_new_def stream_wire_def
  install_resolved_def stream_install_def install_connection_def acc_update_def acc_connect_def index_end_def
  install_interface_def buffer_pending_def pending_expired_def resolve_pending_def skip_reserved_steps
  sparse_create_agent_at_def sparse_connect_def write_port_def redirect_freeports_def new_redexes_def sparse_new_def
  stream_finish_def global_max_id_def map_filter_def stream_id_range_def div_ceil_def acc_finalize_def to_dense_def
  fill_agents_def fill_port_def free_slots_def finalize_dense_def sorted_env_def rr_finalize_def port_index_def
  MAX_DENSE_ARENA_SLOTS_def PORTS_PER_SLOT_def DISCONNECTED_def small_upt small_replicate

abbreviation rr_zero :: "nat \<Rightarrow> round_robin" where
  "rr_zero k \<equiv> \<lparr>rr_counter = 0, rr_per_worker_counts = replicate k 0\<rparr>"

lemma rr_zero_fit: "rr_fit k (rr_zero k)"
  by (simp add: rr_fit_def rr_share_def)

text \<open>
  The run of the sample: the identifier 0 is reserved, so that the only border has identifier 1; the
  statistics nevertheless report two border wires, the value of the counter.
\<close>

lemma sample_run:
  "\<exists>r. generate_and_partition_chunked_with_chunk_size_and_lifetime sorted_env sample_stream 2 rr_alloc rr_finalize
     (rr_zero 2) 2 u32_MAX = Some (Inr r) \<and> sst_per_worker_counts (cr_stats r) = [2, 1] \<and>
     dom (cr_borders r) = {1} \<and> sst_border_wire_count (cr_stats r) = 2"
  by (simp add: stream_eval sample_stream_def numeral_2_eq_2 [symmetric] cong: bind_weak_cong)

theorem stream_partition_safe_witness:
  "\<exists>r. generate_and_partition_chunked_with_chunk_size_and_lifetime sorted_env sample_stream 2 rr_alloc rr_finalize
     (rr_zero 2) 2 u32_MAX = Some (Inr r) \<and> length (cr_partitions r) = 2 \<and> sst_chunks_processed (cr_stats r) = 2"
proof -
  have fin: "\<forall>s. sst_per_worker_counts (rr_finalize s) = rr_per_worker_counts s"
    by (simp add: rr_finalize_def)
  have pre: "(0 :: nat) < 2" "rr_per_worker_counts (rr_zero 2) = replicate 2 0" "2 \<noteq> CHUNK_SIZE_MAX_SENTINEL"
    by (simp_all add: CHUNK_SIZE_MAX_SENTINEL_def)
  note safe = stream_partition_safe [OF rr.streaming_strategy_axioms pre(1) rr_zero_fit pre(2) fin sorted_env_ok sample_stream_ok
      pre(3), of u32_MAX]
  obtain r where r: "generate_and_partition_chunked_with_chunk_size_and_lifetime sorted_env sample_stream 2 rr_alloc rr_finalize
     (rr_zero 2) 2 u32_MAX = Some (Inr r)"
    using sample_run by blast
  show ?thesis
    using safe unfolding r option.case sum.case by (intro exI [of _ r]) (simp add: sample_stream_def)
qed

theorem stream_merge_correct_witness:
  "\<exists>r m c. generate_and_partition_chunked_with_chunk_size_and_lifetime sorted_env sample_stream 2 rr_alloc rr_finalize
     (rr_zero 2) 2 u32_MAX = Some (Inr r) \<and> merge [1] (plan_of_chunked r) = (m, c) \<and> core_inv m \<and>
     tgt m 0 0 = AgentPort 1 0 \<and> tgt m 0 1 = FreePort 0 \<and> tgt m 2 0 = AgentPort 0 2"
proof -
  have fin: "\<forall>s. sst_per_worker_counts (rr_finalize s) = rr_per_worker_counts s"
    by (simp add: rr_finalize_def)
  have pre: "(0 :: nat) < 2" "rr_per_worker_counts (rr_zero 2) = replicate 2 0" "2 \<noteq> CHUNK_SIZE_MAX_SENTINEL"
    by (simp_all add: CHUNK_SIZE_MAX_SENTINEL_def)
  obtain r where r: "generate_and_partition_chunked_with_chunk_size_and_lifetime sorted_env sample_stream 2 rr_alloc rr_finalize
     (rr_zero 2) 2 u32_MAX = Some (Inr r)" "sst_per_worker_counts (cr_stats r) = [2, 1]" "dom (cr_borders r) = {1}"
    using sample_run by blast
  obtain m c where m: "merge [1] (plan_of_chunked r) = (m, c)"
    by (cases "merge [1] (plan_of_chunked r)")
  have used: "\<forall>w < 2. 0 < sst_per_worker_counts (cr_stats r) ! w"
    using r(2) by (simp add: nth_Cons split: nat.split)
  have ord: "distinct [1 :: nat]" "set [1] = dom (cr_borders r)"
    using r(3) by simp_all
  note ok = stream_merge_correct [OF rr.streaming_strategy_axioms pre(1) rr_zero_fit pre(2) fin sorted_env_ok sample_stream_ok
      pre(3) r(1) used ord m]
  have "stream_wires sample_stream =
      {(AgentPort 0 0, AgentPort 1 0), (AgentPort 0 1, FreePort 0), (AgentPort 0 2, AgentPort 2 0)}"
    by (simp add: sample_stream_def stream_directives_def directive_wire_def)
  then show ?thesis
    using ok r(1) m by (intro exI [of _ r] exI [of _ m] exI [of _ c]) (simp add: leads_to_def)
qed

definition five_erasers :: "agent_batch list" where
  "five_erasers = [\<lparr>ab_agents = [(0, Era), (1, Era), (2, Era), (3, Era), (4, Era)], ab_connections = []\<rparr>]"

theorem round_robin_limit_witness:
  "\<exists>w size live. generate_and_partition_chunked_with_chunk_size_and_lifetime sorted_env five_erasers 5 rr_alloc rr_finalize
     (rr_zero 5) 5 u32_MAX = Some (Inl (PartitionDenseAllocationExceedsThreshold w size live))"
proof -
  have "stream_ok five_erasers"
    by (simp add: stream_ok_def five_erasers_def stream_agents_def stream_directives_def wire_ends_def batch_arrives_def
        interfaces_apart_def)
  moreover have "map fst (stream_agents five_erasers) = [0..<5]"
    by (simp add: five_erasers_def stream_agents_def upt_rec)
  moreover have "rr_new 5 = Some (rr_zero 5)" "5 \<noteq> CHUNK_SIZE_MAX_SENTINEL"
    by (simp_all add: rr_new_def rr_try_new_def CHUNK_SIZE_MAX_SENTINEL_def)
  ultimately show ?thesis
    using round_robin_limit [of 5 5 "rr_zero 5" sorted_env five_erasers 5 u32_MAX] sorted_env_ok
    by (auto simp: MAX_DENSE_ARENA_SLOTS_def)
qed

section \<open>What the pipeline gets wrong\<close>

definition only_resolved :: "agent_batch \<Rightarrow> agent_batch" where
  "only_resolved batch = batch\<lparr>ab_connections := filter is_resolved (ab_connections batch)\<rparr>"

lemma materialise_only_resolved: "materialise_batch (only_resolved batch) = materialise_batch batch"
proof -
  have "fold materialise_directive (filter is_resolved cs) sp = fold materialise_directive cs sp" for cs sp
  proof (induction cs arbitrary: sp)
    case (Cons d cs)
    then show ?case
      by (cases d) (simp_all add: materialise_directive_def)
  qed simp
  then show ?thesis
    by (simp add: materialise_batch_def only_resolved_def fun_eq_iff)
qed

text \<open>
  The single-chunk path keeps the resolved wires only: a stream and the same stream without its
  pending wires and its interface give the same result, so that the path loses the interface of the net
  and every wire to an agent of a later batch.
\<close>

lemma single_chunk_drops:
  "generate_and_partition_chunked_with_chunk_size_and_lifetime env stream k alloc finalize s CHUNK_SIZE_MAX_SENTINEL life =
   generate_and_partition_chunked_with_chunk_size_and_lifetime env (map only_resolved stream) k alloc finalize s
     CHUNK_SIZE_MAX_SENTINEL life"
proof -
  have "fold materialise_batch (map only_resolved stream) sp = fold materialise_batch stream sp" for sp
    by (induction stream arbitrary: sp) (simp_all add: materialise_only_resolved)
  then show ?thesis
    by (simp add: generate_and_partition_chunked_with_chunk_size_and_lifetime_def materialise_and_split_def Let_def)
qed

text \<open>An interface identifier that arrives after a border has taken it.\<close>

definition late_interface :: "agent_batch list" where
  "late_interface =
     [\<lparr>ab_agents = [(0, Con), (1, Con)], ab_connections = [Resolved (0, 0) (1, 0)]\<rparr>,
      \<lparr>ab_agents = [(2, Con)], ab_connections = [FreePortInterface (0, 1) 0]\<rparr>]"

lemma late_interface_run:
  "\<exists>r. generate_and_partition_chunked sorted_env late_interface 2 rr_alloc rr_finalize (rr_zero 2) = Some (Inr r) \<and>
     cr_borders r = [0 \<mapsto> (AgentPort 0 0, AgentPort 1 0)] \<and>
     map p_free_port_index (cr_partitions r) = [[0 \<mapsto> AgentPort 0 1], [0 \<mapsto> AgentPort 1 0]] \<and>
     map (\<lambda>p. agents (p_subnet p)) (cr_partitions r) =
       [[Some \<lparr>a_symbol = Con, a_id = 0\<rparr>, None, Some \<lparr>a_symbol = Con, a_id = 2\<rparr>], [None, Some \<lparr>a_symbol = Con, a_id = 1\<rparr>]] \<and>
     map (\<lambda>p. ports (p_subnet p)) (cr_partitions r) =
       [[FreePort 0, FreePort 0, DISCONNECTED, DISCONNECTED, DISCONNECTED, DISCONNECTED, DISCONNECTED, DISCONNECTED, DISCONNECTED],
        [DISCONNECTED, DISCONNECTED, DISCONNECTED, FreePort 0, DISCONNECTED, DISCONNECTED]] \<and>
     map (\<lambda>p. free_list (p_subnet p)) (cr_partitions r) = [[1], []] \<and> 
     map (\<lambda>p. next_id (p_subnet p)) (cr_partitions r) = [3, 2]"
  by (simp add: stream_eval late_interface_def generate_and_partition_chunked_def
    generate_and_partition_chunked_with_chunk_size_def numeral_2_eq_2 [symmetric] cong: bind_weak_cong)

text \<open>
  A late interface identifier breaks a border: the first batch takes the identifier 0 for a border
  between the principal ports of agents 0 and 1, the second batch gives the same identifier to an
  interface port of agent 0.  The index of the partition keeps only the later entry, and merging wires
  the principal port of agent 1 to the auxiliary port of agent 0; the principal port of agent 0 is left open.
\<close>

lemma late_interface_breaks_border:
  "\<exists>r. generate_and_partition_chunked sorted_env late_interface 2 rr_alloc rr_finalize (rr_zero 2) = Some (Inr r) \<and>
     cr_borders r = [0 \<mapsto> (AgentPort 0 0, AgentPort 1 0)] \<and>
     tgt (fst (merge [0] (plan_of_chunked r))) 1 0 = AgentPort 0 1 \<and>
     tgt (fst (merge [0] (plan_of_chunked r))) 0 0 = DISCONNECTED"
proof -
  obtain r where r: "generate_and_partition_chunked sorted_env late_interface 2 rr_alloc rr_finalize (rr_zero 2) = Some (Inr r)"
      "cr_borders r = [0 \<mapsto> (AgentPort 0 0, AgentPort 1 0)]"
      "map p_free_port_index (cr_partitions r) = [[0 \<mapsto> AgentPort 0 1], [0 \<mapsto> AgentPort 1 0]]"
      "map (\<lambda>p. agents (p_subnet p)) (cr_partitions r) =
       [[Some \<lparr>a_symbol = Con, a_id = 0\<rparr>, None, Some \<lparr>a_symbol = Con, a_id = 2\<rparr>], [None, Some \<lparr>a_symbol = Con, a_id = 1\<rparr>]]"
      "map (\<lambda>p. ports (p_subnet p)) (cr_partitions r) =
       [[FreePort 0, FreePort 0, DISCONNECTED, DISCONNECTED, DISCONNECTED, DISCONNECTED, DISCONNECTED, DISCONNECTED, DISCONNECTED],
        [DISCONNECTED, DISCONNECTED, DISCONNECTED, FreePort 0, DISCONNECTED, DISCONNECTED]]"
    using late_interface_run by (elim exE conjE) (rule that)
  obtain p q where pq: "cr_partitions r = [p, q]"
    using r(3) by (auto simp: map_eq_Cons_conv)
  have p: "p_free_port_index p = [0 \<mapsto> AgentPort 0 1]" "agents (p_subnet p) = [Some \<lparr>a_symbol = Con, a_id = 0\<rparr>, None, Some \<lparr>a_symbol = Con, a_id = 2\<rparr>]"
      "ports (p_subnet p) = [FreePort 0, FreePort 0, DISCONNECTED, DISCONNECTED, DISCONNECTED, DISCONNECTED, DISCONNECTED, DISCONNECTED, DISCONNECTED]"
    and q: "p_free_port_index q = [0 \<mapsto> AgentPort 1 0]" "agents (p_subnet q) = [None, Some \<lparr>a_symbol = Con, a_id = 1\<rparr>]"
      "ports (p_subnet q) = [DISCONNECTED, DISCONNECTED, DISCONNECTED, FreePort 0, DISCONNECTED, DISCONNECTED]"
    using r(3-5) by (simp_all add: pq)
  have chain_agent: "resolve_chain d bs ps (AgentPort i e) = AgentPort i e" for d ps i e and bs :: "nat \<rightharpoonup> 'b"
    by (cases d) simp_all
  have frame: "tgt (fold merge_free_id is n) = tgt n" for "is" n
  proof (induction "is" arbitrary: n)
    case (Cons i js)
    have "ports (merge_free_id i n) = ports n"
      by (simp add: merge_free_id_def)
    then show ?case
      using Cons.IH [of "merge_free_id i n"] tgt_cong [of "merge_free_id i n" n] by simp
  qed simp
  define n where "n = fst (fold (merge_border (cr_borders r) [p, q]) [0]
      (fold (merge_partition (cr_borders r)) [p, q]
        (net_new\<lparr>next_id := max (next_id (p_subnet q)) (next_id (p_subnet p)), agents := replicate 3 None,
                 ports := replicate 9 DISCONNECTED\<rparr>), 0))"
  have "ports n =
    [DISCONNECTED, AgentPort 1 0, DISCONNECTED, AgentPort 0 1, DISCONNECTED, DISCONNECTED, DISCONNECTED, DISCONNECTED, DISCONNECTED]"
    by (simp add: n_def merge_partition_def p q merge_slot_def vec_grow_def merge_port_def get_target_def r(2) port_index_def
      merge_border_def border_ends_def resolve_freeport_chain_def chain_agent small_replicate small_upt PORTS_PER_SLOT_def
      DISCONNECTED_def net_new_def connect_def set_port_def Let_def)
  moreover have "fst (merge [0] (plan_of_chunked r)) =
      (fold merge_free_id (free_list (p_subnet p) @ free_list (p_subnet q)) n)\<lparr>id_range := None, border_entries_shadow := None\<rparr>"
    by (simp add: n_def merge_def plan_of_chunked_def pq Let_def with_capacity_def p q net_new_def vec_grow_def vec_resize_def
        PORTS_PER_SLOT_def split_beta numeral_eq_Suc)
  then have "tgt (fst (merge [0] (plan_of_chunked r))) = tgt n"
    using frame by (simp add: tgt_cong [of "x\<lparr>id_range := None, border_entries_shadow := None\<rparr>" x for x])
  ultimately have "tgt (fst (merge [0] (plan_of_chunked r))) 1 0 = AgentPort 0 1" "tgt (fst (merge [0] (plan_of_chunked r))) 0 0 = DISCONNECTED"
    by (simp_all add: tgt_def get_target_def port_index_def PORTS_PER_SLOT_def)
  then show ?thesis
    using r(1,2) by blast
qed

definition three_erasers :: "agent_batch list" where
  "three_erasers = [\<lparr>ab_agents = [(0, Era), (1, Era), (2, Era)], ab_connections = []\<rparr>]"

text \<open>
  The band of a worker does not cover the agents it owns, and the free list of its arena holds
  identifiers of other workers: after streaming three agents to two workers, the first partition
  recycles the identifier 1 for a new agent although agent 1 lives in the second partition.
\<close>

lemma foreign_id_recycled:
  "\<exists>r n. generate_and_partition_chunked sorted_env three_erasers 2 rr_alloc rr_finalize (rr_zero 2) = Some (Inr r) \<and>
     live (p_subnet (cr_partitions r ! 1)) 1 \<and> create_agent Con (p_subnet (cr_partitions r ! 0)) = Some (1, n)"
  by (simp add: stream_eval three_erasers_def generate_and_partition_chunked_def
    generate_and_partition_chunked_with_chunk_size_def numeral_2_eq_2 [symmetric] sym_at_def get_agent_def vec_get_def
    create_agent_def pop_free_list_def round_protected_def reinit_slot_def alloc_fresh_def net_new_def cong: bind_weak_cong)

text \<open>
  A pending wire to an agent of an earlier batch is never installed: the stream ends with an error
  although the target is known.
\<close>

definition late_pending :: "agent_batch list" where
  "late_pending = [\<lparr>ab_agents = [(0, Era)], ab_connections = []\<rparr>, \<lparr>ab_agents = [(1, Era)], ab_connections = [Pending (1, 0) 0 0]\<rparr>]"

lemma late_pending_rejected:
  "generate_and_partition_chunked sorted_env late_pending 2 rr_alloc rr_finalize (rr_zero 2) = Some (Inl (UnresolvedForwardReferences 0))"
  by (simp add: stream_eval late_pending_def generate_and_partition_chunked_def
    generate_and_partition_chunked_with_chunk_size_def numeral_2_eq_2 [symmetric] cong: bind_weak_cong)

end
