(* ===== verification/Compact.thy ===== *)
theory Compact
  imports Merge_Props
begin

text \<open>
  The compact form in which a partition travels (\<open>partition/compact.rs\<close>): only live slots with their three
  ports, the queue, the next identifier, the root and the free list.  The receiver checks the free list
  before it rebuilds the dense arena.  The byte codec between the two ends is third-party code and is a
  parameter.  The theorems: what arrives is what was sent, exactly the free lists that cannot hand out a
  live slot are accepted, and merging partitions that travelled gives the same net.
\<close>

section \<open>Data\<close>

datatype compact_subnet_error =
    FreeListIdOutOfBounds agent_id nat
  | FreeListIdAboveNextId agent_id agent_id
  | FreeListDuplicateId agent_id
  | FreeListOverlapsLiveAgent agent_id

type_synonym live_entry = "agent_id \<times> agent \<times> port_ref \<times> port_ref \<times> port_ref"

record compact_subnet =
  cs_agent_arena_len :: nat
  cs_live :: "live_entry list"
  cs_redex_queue :: "(agent_id \<times> agent_id) list"
  cs_next_id :: agent_id
  cs_root :: "port_ref option"
  cs_free_list :: "agent_id list"

section \<open>Sending\<close>

text \<open>One slot of the arena; \<open>None\<close> is the panic of an index beyond the port array.  Indices are cast to 32 bits.\<close>

definition live_slot_entry :: "net \<Rightarrow> nat \<times> agent option \<Rightarrow> live_entry list \<Rightarrow> live_entry list option" where
  "live_slot_entry n sl acc =
     (case snd sl of
        None \<Rightarrow> Some acc
      | Some ag \<Rightarrow>
          let idx = fst sl mod 2 ^ 32; base = port_index idx 0
          in if base + 2 < length (ports n)
             then Some (acc @ [(idx, ag, ports n ! base, ports n ! (base + 1), ports n ! (base + 2))])
             else None)"

definition from_net :: "net \<Rightarrow> compact_subnet option" where
  "from_net n = do {
     entries \<leftarrow> ofold (live_slot_entry n) (List.enumerate 0 (agents n)) [];
     Some \<lparr>cs_agent_arena_len = length (agents n) mod 2 ^ 32, cs_live = entries, cs_redex_queue = redex_queue n,
           cs_next_id = next_id n, cs_root = root n, cs_free_list = free_list n\<rparr>
   }"

section \<open>Receiving\<close>

definition compact_live_ids :: "compact_subnet \<Rightarrow> agent_id set" where
  "compact_live_ids c = set (map fst (cs_live c))"

fun check_free_ids :: "compact_subnet \<Rightarrow> agent_id set \<Rightarrow> agent_id list \<Rightarrow> compact_subnet_error + unit" where
  "check_free_ids c seen [] = Inr ()"
| "check_free_ids c seen (i # is) =
     (if i \<ge> cs_agent_arena_len c then Inl (FreeListIdOutOfBounds i (cs_agent_arena_len c))
      else if i \<ge> cs_next_id c then Inl (FreeListIdAboveNextId i (cs_next_id c))
      else if i \<in> seen then Inl (FreeListDuplicateId i)
      else if i \<in> compact_live_ids c then Inl (FreeListOverlapsLiveAgent i)
      else check_free_ids c (insert i seen) is)"

definition compact_validate_free_list :: "compact_subnet \<Rightarrow> compact_subnet_error + unit" where
  "compact_validate_free_list c = (if cs_free_list c = [] then Inr () else check_free_ids c {} (cs_free_list c))"

text \<open>Writing one entry into the arena under construction; entries beyond the arena are dropped.\<close>

fun place_live :: "live_entry \<Rightarrow> agent option list \<times> port_ref list \<Rightarrow> agent option list \<times> port_ref list" where
  "place_live (i, ag, p0, p1, p2) (ags, prts) =
     (if i < length ags
      then (ags[i := Some ag],
            let base = port_index i 0
            in if base + PORTS_PER_SLOT \<le> length prts then prts[base := p0, base + 1 := p1, base + 2 := p2] else prts)
      else (ags, prts))"

definition into_net_unchecked :: "compact_subnet \<Rightarrow> net" where
  "into_net_unchecked c =
     (let (ags, prts) = fold place_live (cs_live c)
        (replicate (cs_agent_arena_len c) None, replicate (cs_agent_arena_len c * PORTS_PER_SLOT) DISCONNECTED)
      in \<lparr>agents = ags, ports = prts, redex_queue = cs_redex_queue c, next_id = cs_next_id c, root = cs_root c,
          freeport_redirects = Map.empty, free_list = cs_free_list c, id_range = None,
          border_entries_shadow = None, recycle_policy = DisableUnderDelta,
          is_in_delta_round = False, streaming_active = False, protected_tombstones = None,
          free_list_pops = 0, free_list_pops_border = 0, free_list_pops_non_border = 0,
          lifo_stalemate_fallbacks = 0, stalemate_warned = False\<rparr>)"

definition try_into_net :: "compact_subnet \<Rightarrow> compact_subnet_error + net" where
  "try_into_net c = (case compact_validate_free_list c of Inl e \<Rightarrow> Inl e | Inr u \<Rightarrow> Inr (into_net_unchecked c))"

text \<open>The closure of \<open>retain\<close>: it marks an identifier as seen only when the other tests pass.\<close>

fun retain_free_ids :: "compact_subnet \<Rightarrow> agent_id set \<Rightarrow> agent_id list \<Rightarrow> agent_id list" where
  "retain_free_ids c seen [] = []"
| "retain_free_ids c seen (i # is) =
     (if i < cs_agent_arena_len c \<and> i < cs_next_id c \<and> i \<notin> compact_live_ids c
      then if i \<in> seen then retain_free_ids c seen is else i # retain_free_ids c (insert i seen) is
      else retain_free_ids c seen is)"

definition into_net :: "compact_subnet \<Rightarrow> net" where
  "into_net c =
     (case compact_validate_free_list c of
        Inr u \<Rightarrow> into_net_unchecked c
      | Inl e \<Rightarrow> into_net_unchecked (c\<lparr>cs_free_list := retain_free_ids c {} (cs_free_list c)\<rparr>))"

text \<open>The adapters around the serializer, whose two directions are parameters.\<close>

datatype 'e wire_error = DeserializerError 'e | IntegrityViolation compact_subnet_error

definition serialize_subnet_compact :: "(compact_subnet \<Rightarrow> 'b) \<Rightarrow> net \<Rightarrow> 'b option" where
  "serialize_subnet_compact ser n = map_option ser (from_net n)"

definition deserialize_subnet_compact :: "('b \<Rightarrow> 'e + compact_subnet) \<Rightarrow> 'b \<Rightarrow> 'e wire_error + net" where
  "deserialize_subnet_compact de bs =
     (case de bs of
        Inl e \<Rightarrow> Inl (DeserializerError e)
      | Inr c \<Rightarrow> (case try_into_net c of Inl e \<Rightarrow> Inl (IntegrityViolation e) | Inr n \<Rightarrow> Inr n))"

section \<open>The free-list check\<close>

definition free_ids_ok :: "compact_subnet \<Rightarrow> agent_id list \<Rightarrow> bool" where
  "free_ids_ok c is \<longleftrightarrow>
     distinct is \<and> (\<forall>i \<in> set is. i < cs_agent_arena_len c \<and> i < cs_next_id c \<and> i \<notin> compact_live_ids c)"

lemma check_free_ids_iff:
  "check_free_ids c seen is = Inr () \<longleftrightarrow> free_ids_ok c is \<and> set is \<inter> seen = {}"
  by (induction c seen "is" rule: check_free_ids.induct) (auto simp: free_ids_ok_def)

lemma validate_iff: "compact_validate_free_list c = Inr u \<longleftrightarrow> free_ids_ok c (cs_free_list c)"
  by (simp add: compact_validate_free_list_def check_free_ids_iff) (simp add: free_ids_ok_def)

lemma retain_set:
  "set (retain_free_ids c seen is) = {i \<in> set is. i < cs_agent_arena_len c \<and> i < cs_next_id c \<and> i \<notin> compact_live_ids c} - seen"
  by (induction c seen "is" rule: retain_free_ids.induct) auto

lemma retain_distinct: "distinct (retain_free_ids c seen is)"
  by (induction c seen "is" rule: retain_free_ids.induct) (simp_all add: retain_set)

lemma retain_ok: "free_ids_ok c (retain_free_ids c seen is)"
  by (auto simp: free_ids_ok_def retain_distinct retain_set)

lemma retain_id: "free_ids_ok c is \<Longrightarrow> set is \<inter> seen = {} \<Longrightarrow> retain_free_ids c seen is = is"
  by (induction c seen "is" rule: retain_free_ids.induct) (auto simp: free_ids_ok_def)

section \<open>Rebuilding the arena\<close>

lemma place_live_length [simp]:
  "length (fst (place_live e st)) = length (fst st)" "length (snd (place_live e st)) = length (snd st)"
  by (cases e; cases st; simp add: Let_def)+

lemma fold_place_length [simp]:
  "length (fst (fold place_live es st)) = length (fst st)" "length (snd (fold place_live es st)) = length (snd st)"
  by (induction es arbitrary: st) simp_all

lemma into_net_frame [simp]:
  "redex_queue (into_net_unchecked c) = cs_redex_queue c" "next_id (into_net_unchecked c) = cs_next_id c"
  "root (into_net_unchecked c) = cs_root c" "free_list (into_net_unchecked c) = cs_free_list c"
  "length (agents (into_net_unchecked c)) = cs_agent_arena_len c"
  "length (ports (into_net_unchecked c)) = 3 * cs_agent_arena_len c"
  by (simp_all add: into_net_unchecked_def PORTS_PER_SLOT_def split_beta)

lemma agents_untouched:
  "i \<notin> set (map fst es) \<Longrightarrow> fst (fold place_live es st) ! i = fst st ! i"
proof (induction es arbitrary: st)
  case (Cons e es)
  have "fst (place_live e st) ! i = fst st ! i"
    using Cons.prems by (cases e; cases st) simp
  then show ?case
    using Cons by simp
qed simp

lemma live_subset: "live (into_net_unchecked c) i \<Longrightarrow> i \<in> compact_live_ids c"
proof (rule ccontr)
  assume live: "live (into_net_unchecked c) i" and no: "i \<notin> compact_live_ids c"
  have "i < cs_agent_arena_len c"
    using live_length [OF live] by simp
  moreover have "agents (into_net_unchecked c) ! i = None"
    using agents_untouched [of i "cs_live c"] no calculation
    by (simp add: compact_live_ids_def into_net_unchecked_def split_beta)
  ultimately show False
    using live by (simp add: sym_at_def get_agent_def vec_get_def split: if_splits)
qed

lemma fold_place_agents:
  assumes "distinct (map fst es)" "i < length (fst st)"
  shows "fst (fold place_live es st) ! i = (case map_of es i of None \<Rightarrow> fst st ! i | Some (ag, _) \<Rightarrow> Some ag)"
  using assms
proof (induction es arbitrary: st)
  case (Cons e es)
  obtain j ag p0 p1 p2 where e: "e = (j, ag, p0, p1, p2)"
    by (cases e)
  have "fst (place_live e st) ! i = (if i = j then Some ag else fst st ! i)"
    using Cons.prems(2) by (cases st) (simp add: e)
  moreover have "map_of es i = None" if "i = j"
    using Cons.prems(1) that by (simp add: e map_of_eq_None_iff)
  ultimately show ?case
    using Cons.IH [of "place_live e st"] Cons.prems by (cases "i = j") (simp_all add: e split: option.splits prod.splits)
qed simp

lemma place_live_ports:
  assumes "length (snd st) = 3 * length (fst st)" "i < length (fst st)" "p < 3"
  shows "snd (place_live (j, ag, p0, p1, p2) st) ! port_index i p =
    (if i = j then [p0, p1, p2] ! p else snd st ! port_index i p)"
proof -
  have "p = 0 \<or> p = 1 \<or> p = 2"
    using assms(3) by auto
  then show ?thesis
    using assms by (cases st) (auto simp: Let_def port_index_def PORTS_PER_SLOT_def nth_list_update)
qed

lemma fold_place_ports:
  assumes "distinct (map fst es)" "length (snd st) = 3 * length (fst st)" "i < length (fst st)" "p < 3"
  shows "snd (fold place_live es st) ! port_index i p =
    (case map_of es i of None \<Rightarrow> snd st ! port_index i p | Some (ag, p0, p1, p2) \<Rightarrow> [p0, p1, p2] ! p)"
  using assms
proof (induction es arbitrary: st)
  case (Cons e es)
  obtain j ag p0 p1 p2 where e: "e = (j, ag, p0, p1, p2)"
    by (cases e)
  have "map_of es i = None" if "i = j"
    using Cons.prems(1) that by (simp add: e map_of_eq_None_iff)
  then show ?case
    using Cons.IH [of "place_live e st"] Cons.prems place_live_ports [OF Cons.prems(2-4), of j ag p0 p1 p2]
    by (cases "i = j") (simp_all add: e split: option.splits prod.splits)
qed simp

section \<open>What is sent\<close>

definition live_entry_of :: "net \<Rightarrow> nat \<Rightarrow> live_entry option" where
  "live_entry_of n i = map_option (\<lambda>ag. (i, ag, tgt n i 0, tgt n i 1, tgt n i 2)) (get_agent n i)"

definition net_entries :: "net \<Rightarrow> nat list \<Rightarrow> live_entry list" where
  "net_entries n is = List.map_filter (live_entry_of n) is"

lemma net_entries_ids: "map fst (net_entries n is) = filter (\<lambda>i. get_agent n i \<noteq> None) is"
  by (induction "is") (auto simp: net_entries_def live_entry_of_def map_filter_simps split: option.splits)

lemma map_of_net_entries:
  "map_of (net_entries n is) i =
     (if i \<in> set is then map_option (\<lambda>ag. (ag, tgt n i 0, tgt n i 1, tgt n i 2)) (get_agent n i) else None)"
  by (induction "is") (auto simp: net_entries_def live_entry_of_def map_filter_simps split: option.splits)

lemma live_slot_entry_step:
  assumes "slots_ok n" "i < length (agents n)" "length (agents n) \<le> u32_MAX"
  shows "live_slot_entry n (i, agents n ! i) acc = Some (acc @ net_entries n [i])"
proof (cases "agents n ! i")
  case (Some ag)
  have small: "i mod 4294967296 = i"
    using assms(2,3) by simp
  have "live n i"
    using Some assms(2) by (simp add: sym_at_def get_agent_def vec_get_def)
  note slot = live_slot [OF assms(1) this]
  have len: "port_index i 0 + 2 < length (ports n)"
    using slot [of 2] by (simp add: port_index_def)
  have t: "ports n ! (port_index i 0 + p) = tgt n i p" if "p < 3" for p
    using slot [OF that] ports_nth [of "port_index i p" i p n] by (simp add: port_index_def)
  show ?thesis
    using t [of 0] t [of 1] t [of 2] len Some assms(2)
    by (simp add: live_slot_entry_def small Let_def net_entries_def live_entry_of_def map_filter_simps get_agent_def vec_get_def)
qed (use assms(2) in \<open>simp add: live_slot_entry_def net_entries_def live_entry_of_def map_filter_simps get_agent_def vec_get_def\<close>)

lemma live_slot_entries:
  assumes "slots_ok n" "length (agents n) \<le> u32_MAX" "k \<le> length (agents n)"
  shows "ofold (live_slot_entry n) (List.enumerate 0 (take k (agents n))) [] = Some (net_entries n [0..<k])"
  using assms(3)
proof (induction k)
  case (Suc k)
  have "List.enumerate 0 (take (Suc k) (agents n)) = List.enumerate 0 (take k (agents n)) @ [(k, agents n ! k)]"
    using Suc.prems by (simp add: take_Suc_conv_app_nth enumerate_append_eq)
  then show ?case
    using Suc live_slot_entry_step [OF assms(1) _ assms(2), of k]
    by (simp add: net_entries_def map_filter_def)
qed (simp add: net_entries_def map_filter_simps)

lemma from_net_spec:
  assumes "slots_ok n" "length (agents n) \<le> u32_MAX"
  shows "from_net n = Some \<lparr>cs_agent_arena_len = length (agents n), cs_live = net_entries n [0..<length (agents n)],
     cs_redex_queue = redex_queue n, cs_next_id = next_id n, cs_root = root n, cs_free_list = free_list n\<rparr>"
  using assms live_slot_entries [OF assms order_refl] by (simp add: from_net_def)

section \<open>The round trip\<close>

text \<open>A net that passes the check of the receiver: its free list lies inside the arena, and the arena has a 32-bit length.\<close>

definition wire_ready :: "net \<Rightarrow> bool" where
  "wire_ready n \<longleftrightarrow>
     core_inv n \<and> length (agents n) \<le> u32_MAX \<and> (\<forall>i \<in> set (free_list n). i < length (agents n))"

text \<open>What the receiver gets: the arena, the queue and the counters, with every other field reset.\<close>

definition same_arena :: "net \<Rightarrow> net \<Rightarrow> bool" where
  "same_arena n m \<longleftrightarrow>
     agents m = agents n \<and> (\<forall>i p. p < 3 \<longrightarrow> tgt m i p = tgt n i p) \<and> redex_queue m = redex_queue n \<and>
     next_id m = next_id n \<and> root m = root n \<and> free_list m = free_list n"

lemma same_arena_core:
  assumes "core_inv n" "same_arena n m" "3 * length (agents m) \<le> length (ports m)"
  shows "core_inv m"
proof -
  note E = assms(2) [unfolded same_arena_def]
  have ag: "get_agent m = get_agent n"
    using E by (simp add: get_agent_def fun_eq_iff)
  then have sy: "sym_at m = sym_at n"
    by (simp add: sym_at_def fun_eq_iff)
  note vp = valid_port_cong [OF sy]
  have "symmetric_wires m"
    unfolding symmetric_wires_def
  proof (intro allI impI conjI)
    fix i p j q
    assume "p < 3" "tgt m i p = AgentPort j q"
    then have t: "tgt n i p = AgentPort j q"
      using E by simp
    note w = symmetric_wiresD [OF core_invD(3) [OF assms(1)] \<open>p < 3\<close> t]
    show "q < 3" "tgt m j q = AgentPort i p" "(i, p) \<noteq> (j, q)"
      using w E by auto
  qed
  then show ?thesis
    using assms(1,3) E ag sy vp
    by (simp add: core_inv_def slots_ok_def ports_clean_def ids_below_def free_list_ok_def)
qed

lemma wire_transfer:
  assumes "wire_ready n" "\<And>c. de (ser c) = Inr c"
  obtains bs m where "serialize_subnet_compact ser n = Some bs" "deserialize_subnet_compact de bs = Inr m"
    "same_arena n m" "core_inv m" "length (ports m) = 3 * length (agents n)"
proof -
  note core = assms(1) [unfolded wire_ready_def, THEN conjunct1]
  let ?c = "\<lparr>cs_agent_arena_len = length (agents n), cs_live = net_entries n [0..<length (agents n)],
     cs_redex_queue = redex_queue n, cs_next_id = next_id n, cs_root = root n, cs_free_list = free_list n\<rparr>"
  let ?m = "into_net_unchecked ?c"
  let ?es = "net_entries n [0..<length (agents n)]"
  have sent: "from_net n = Some ?c"
    using assms(1) core_invD(1) [OF core] by (intro from_net_spec) (simp_all add: wire_ready_def)
  have ids: "compact_live_ids ?c = {i. get_agent n i \<noteq> None}"
    by (auto simp: compact_live_ids_def net_entries_ids get_agent_def vec_get_def simp flip: list.set_map split: if_splits)
  have "free_ids_ok ?c (free_list n)"
    using assms(1) core_invD(5) [OF core] ids by (auto simp: free_ids_ok_def free_list_ok_def wire_ready_def sym_at_def)
  then have ok: "try_into_net ?c = Inr ?m"
    using validate_iff [of ?c "()"] by (simp add: try_into_net_def)
  have dist: "distinct (map fst ?es)"
    by (simp add: net_entries_ids)
  have ag: "agents ?m = agents n"
  proof (rule nth_equalityI)
    fix i
    assume "i < length (agents ?m)"
    then have i: "i < length (agents n)"
      by simp
    have "agents ?m ! i = fst (fold place_live ?es (replicate (length (agents n)) None,
        replicate (length (agents n) * PORTS_PER_SLOT) DISCONNECTED)) ! i"
      by (simp add: into_net_unchecked_def split_beta)
    also have "\<dots> = agents n ! i"
      using i by (subst fold_place_agents [OF dist]) (simp_all add: map_of_net_entries get_agent_def vec_get_def split: option.split)
    finally show "agents ?m ! i = agents n ! i" .
  qed simp
  have three: "p = 0 \<or> p = 1 \<or> p = 2" if "p < 3" for p :: nat
    using that by auto
  have tg: "tgt ?m i p = tgt n i p" if p: "p < 3" for i p
  proof (cases "i < length (agents n)")
    case True
    have "tgt ?m i p = ports ?m ! port_index i p"
      using port_index_bound [OF p True] by (simp add: tgt_def get_target_def)
    also have "\<dots> = snd (fold place_live ?es (replicate (length (agents n)) None,
        replicate (length (agents n) * PORTS_PER_SLOT) DISCONNECTED)) ! port_index i p"
      by (simp add: into_net_unchecked_def split_beta)
    also have "\<dots> = (case get_agent n i of None \<Rightarrow> DISCONNECTED | Some ag \<Rightarrow> tgt n i p)"
      using three [OF p] True port_index_bound [OF p True]
      by (subst fold_place_ports [OF dist _ _ p])
        (auto simp: map_of_net_entries PORTS_PER_SLOT_def mult.commute split: option.split)
    finally show ?thesis
      using dead_tgt [OF core _ p, of i] by (auto simp: sym_at_def split: option.splits)
  next
    case False
    have "\<not> live n i"
      using False live_length [of n i] by blast
    moreover have "\<not> port_index i p < 3 * length (agents n)"
      using False by (simp add: port_index_def PORTS_PER_SLOT_def)
    ultimately show ?thesis
      using dead_tgt [OF core _ p, of i] tgt_out_of_range [of i p ?m] by simp
  qed
  have same: "same_arena n ?m"
    using ag tg by (simp add: same_arena_def)
  show ?thesis
  proof (rule that)
    show "serialize_subnet_compact ser n = Some (ser ?c)"
      using sent by (simp add: serialize_subnet_compact_def)
    show "deserialize_subnet_compact de (ser ?c) = Inr ?m"
      using ok assms(2) by (simp add: deserialize_subnet_compact_def)
    show "core_inv ?m"
      by (rule same_arena_core [OF core same]) simp
  qed (use same in simp_all)
qed

text \<open>
  A partition arrives as it was sent (C24): for every serializer that reads back what it wrote, the arena,
  the wires, the queue, the next identifier, the root and the free list of a well-formed net survive the
  journey, also the port array as a list when it has no spare room, and the received net is well-formed.
\<close>

theorem wire_roundtrip:
  assumes "wire_ready n" "\<forall>c. de (ser c) = Inr c"
  shows "\<exists>bs m. serialize_subnet_compact ser n = Some bs \<and> deserialize_subnet_compact de bs = Inr m \<and>
    core_inv m \<and> agents m = agents n \<and> (\<forall>i p. p < 3 \<longrightarrow> tgt m i p = tgt n i p) \<and>
    (length (ports n) = 3 * length (agents n) \<longrightarrow> ports m = ports n) \<and>
    redex_queue m = redex_queue n \<and> next_id m = next_id n \<and> root m = root n \<and> free_list m = free_list n"
proof -
  obtain bs m where m: "serialize_subnet_compact ser n = Some bs" "deserialize_subnet_compact de bs = Inr m"
      "same_arena n m" "core_inv m" "length (ports m) = 3 * length (agents n)"
    using wire_transfer [OF assms(1)] assms(2) by metis
  have "ports m = ports n" if len: "length (ports n) = 3 * length (agents n)"
  proof (rule nth_equalityI)
    show "length (ports m) = length (ports n)"
      using m(5) len by simp
    fix k
    assume "k < length (ports m)"
    moreover have "k = port_index (k div 3) (k mod 3)" "k mod 3 < 3"
      by (simp_all add: port_index_def PORTS_PER_SLOT_def)
    ultimately show "ports m ! k = ports n ! k"
      using m(3,5) len ports_nth [of k "k div 3" "k mod 3"] unfolding same_arena_def by metis
  qed
  then show ?thesis
    using m unfolding same_arena_def by blast
qed

theorem wire_roundtrip_witness:
  "\<exists>m. deserialize_subnet_compact (Inr :: compact_subnet \<Rightarrow> unit + compact_subnet)
        (the (serialize_subnet_compact id (pair_net Con Dup))) = Inr m \<and>
     agents m = agents (pair_net Con Dup) \<and> redex_queue m = redex_queue (pair_net Con Dup)"
proof -
  have "wire_ready (pair_net Con Dup)"
    using pair_net_core [of Con Dup] by (simp add: wire_ready_def) (simp add: pair_net_def net_new_def)
  then show ?thesis
    using wire_roundtrip [of "pair_net Con Dup" "Inr :: compact_subnet \<Rightarrow> unit + compact_subnet" id] by auto
qed

text \<open>
  The receiver accepts exactly the safe free lists (C32): a payload is accepted if and only if its free list
  has no duplicates and holds only issued identifiers of empty slots inside the arena.  The sanitising
  constructor keeps exactly those entries, and whatever payload arrives, its free list holds distinct
  identifiers below the next one whose slots are empty, so that recycling never overwrites an agent.
\<close>

theorem compact_free_list_safe:
  "((\<exists>n. try_into_net c = Inr n) \<longleftrightarrow>
      distinct (cs_free_list c) \<and>
      (\<forall>i \<in> set (cs_free_list c). i < cs_agent_arena_len c \<and> i < cs_next_id c \<and> i \<notin> compact_live_ids c)) \<and>
   set (free_list (into_net c)) =
      {i \<in> set (cs_free_list c). i < cs_agent_arena_len c \<and> i < cs_next_id c \<and> i \<notin> compact_live_ids c} \<and>
   free_list_ok (into_net c) \<and> (\<forall>n. try_into_net c = Inr n \<longrightarrow> n = into_net c)"
proof -
  have safe: "free_list_ok (into_net_unchecked d)" if "free_ids_ok d (cs_free_list d)" for d
    using that live_subset [of d] unfolding free_ids_ok_def free_list_ok_def by (metis into_net_frame(2,4))
  show ?thesis
  proof (cases "compact_validate_free_list c")
    case (Inl e)
    let ?d = "c\<lparr>cs_free_list := retain_free_ids c {} (cs_free_list c)\<rparr>"
    have bad: "\<not> free_ids_ok c (cs_free_list c)"
      using Inl validate_iff [of c "()"] by auto
    have "free_ids_ok ?d (cs_free_list ?d)"
      using retain_ok [of c "{}" "cs_free_list c"] by (simp add: free_ids_ok_def compact_live_ids_def)
    note fl = safe [OF this]
    have "into_net c = into_net_unchecked ?d"
      using Inl by (simp add: into_net_def)
    then show ?thesis
      using bad fl Inl by (auto simp: try_into_net_def free_ids_ok_def retain_set)
  next
    case (Inr u)
    then have ok: "free_ids_ok c (cs_free_list c)"
      using validate_iff by blast
    have "into_net c = into_net_unchecked c"
      using Inr by (simp add: into_net_def)
    then show ?thesis
      using ok safe [OF ok] Inr by (auto simp: try_into_net_def free_ids_ok_def)
  qed
qed

theorem compact_free_list_safe_witness:
  "(\<nexists>n. try_into_net \<lparr>cs_agent_arena_len = 3, cs_live = [], cs_redex_queue = [], cs_next_id = 2, cs_root = None, cs_free_list = [1, 1, 2]\<rparr> = Inr n) \<and>
   set (free_list (into_net \<lparr>cs_agent_arena_len = 3, cs_live = [], cs_redex_queue = [], cs_next_id = 2, cs_root = None, cs_free_list = [1, 1, 2]\<rparr>)) = {1}"
proof -
  let ?c = "\<lparr>cs_agent_arena_len = 3, cs_live = [], cs_redex_queue = [], cs_next_id = 2, cs_root = None, cs_free_list = [1, 1, 2]\<rparr>"
  have "{i \<in> set (cs_free_list ?c). i < cs_agent_arena_len ?c \<and> i < cs_next_id ?c \<and> i \<notin> compact_live_ids ?c} = {1}"
    by (auto simp: compact_live_ids_def)
  moreover have "\<not> distinct (cs_free_list ?c)"
    by simp
  ultimately show ?thesis
    using compact_free_list_safe [of ?c] by metis
qed

section \<open>Merging partitions that travelled\<close>

text \<open>A partition after the journey: the derived codec of the other fields is exact.\<close>

definition send_partition ::
  "(compact_subnet \<Rightarrow> 'b) \<Rightarrow> ('b \<Rightarrow> 'e + compact_subnet) \<Rightarrow> partition \<Rightarrow> partition option" where
  "send_partition ser de p = do {
     bs \<leftarrow> serialize_subnet_compact ser (p_subnet p);
     case deserialize_subnet_compact de bs of Inl e \<Rightarrow> None | Inr m \<Rightarrow> Some (p\<lparr>p_subnet := m\<rparr>)
   }"

definition same_partition :: "partition \<Rightarrow> partition \<Rightarrow> bool" where
  "same_partition p q \<longleftrightarrow> same_arena (p_subnet p) (p_subnet q) \<and> p_free_port_index q = p_free_port_index p"

lemma merge_partition_same:
  assumes "same_partition p q"
  shows "merge_partition borders q = merge_partition borders p"
proof -
  note E = assms [unfolded same_partition_def same_arena_def]
  have port: "merge_port borders (p_subnet q) i k = merge_port borders (p_subnet p) i k" if "k < 3" for i k
    using E that by (simp add: merge_port_def fun_eq_iff flip: tgt_def)
  have ports: "fold (merge_port borders (p_subnet q) i) [0..<total_ports s] x =
      fold (merge_port borders (p_subnet p) i) [0..<total_ports s] x" for i s x
    using total_ports_le [of s] by (intro fold_cong) (simp_all add: port)
  have "merge_slot borders (p_subnet q) = merge_slot borders (p_subnet p)"
    using E by (simp add: merge_slot_def fun_eq_iff ports split: option.split)
  then show ?thesis
    using E by (intro ext) (simp add: merge_partition_def)
qed

lemma resolve_border_same:
  "list_all2 same_partition ps qs \<Longrightarrow> resolve_border qs b r = resolve_border ps b r"
  by (induction ps qs arbitrary: r rule: list_all2_induct)
    (simp_all add: same_partition_def split: option.split port_ref.split)

lemma resolve_chain_same:
  "list_all2 same_partition ps qs \<Longrightarrow> resolve_chain d borders qs x = resolve_chain d borders ps x"
  by (induction d arbitrary: x) (simp_all add: resolve_border_same split: option.split port_ref.split)

lemma border_ends_same:
  assumes "list_all2 same_partition ps qs"
  shows "border_ends qs b = border_ends ps b"
proof -
  have "fold (\<lambda>p (a, c). case p_free_port_index p b of None \<Rightarrow> (a, c) | Some x \<Rightarrow> if a = None then (Some x, c) else (a, Some x)) qs z =
    fold (\<lambda>p (a, c). case p_free_port_index p b of None \<Rightarrow> (a, c) | Some x \<Rightarrow> if a = None then (Some x, c) else (a, Some x)) ps z"
    for z :: "port_ref option \<times> port_ref option"
    using assms by (induction ps qs arbitrary: z rule: list_all2_induct) (simp_all add: same_partition_def)
  then show ?thesis
    by (simp add: border_ends_def)
qed

lemma merge_border_same:
  "list_all2 same_partition ps qs \<Longrightarrow> merge_border borders qs = merge_border borders ps"
  by (simp add: merge_border_def fun_eq_iff border_ends_same resolve_freeport_chain_def resolve_chain_same cong: option.case_cong)

lemma map_same:
  assumes "list_all2 same_partition ps qs" "\<And>p q. same_partition p q \<Longrightarrow> f q = f p"
  shows "map f qs = map f ps"
  using assms by (induction ps qs rule: list_all2_induct) simp_all

lemma fold_merge_same:
  "list_all2 same_partition ps qs \<Longrightarrow> fold (merge_partition borders) qs = fold (merge_partition borders) ps"
  by (induction ps qs rule: list_all2_induct) (simp_all add: merge_partition_same)

lemma merge_same:
  assumes "list_all2 same_partition (pl_partitions plan) qs"
  shows "merge border_order (plan\<lparr>pl_partitions := qs\<rparr>) = merge border_order plan"
proof -
  have "map (\<lambda>p. next_id (p_subnet p)) qs = map (\<lambda>p. next_id (p_subnet p)) (pl_partitions plan)"
    "map (\<lambda>p. length (agents (p_subnet p))) qs = map (\<lambda>p. length (agents (p_subnet p))) (pl_partitions plan)"
    "map (\<lambda>p. free_list (p_subnet p)) qs = map (\<lambda>p. free_list (p_subnet p)) (pl_partitions plan)"
    by (rule map_same [OF assms]; simp add: same_partition_def same_arena_def)+
  then show ?thesis
    by (simp add: merge_def Let_def fold_merge_same [OF assms] merge_border_same [OF assms])
qed

text \<open>
  Sending the partitions to the workers and back changes nothing for the merge (C13): every partition that
  is ready for the wire arrives, and merging the partitions that arrived gives the same net and the same
  count of border redexes as merging the ones that were sent.
\<close>

theorem wire_merge:
  assumes "\<forall>p \<in> set (pl_partitions plan). wire_ready (p_subnet p)" "\<forall>c. de (ser c) = Inr c"
  shows "\<exists>qs. map (send_partition ser de) (pl_partitions plan) = map Some qs \<and>
    merge border_order (plan\<lparr>pl_partitions := qs\<rparr>) = merge border_order plan"
proof -
  have one: "\<exists>q. send_partition ser de p = Some q \<and> same_partition p q" if ready: "wire_ready (p_subnet p)" for p
  proof -
    obtain bs m where "serialize_subnet_compact ser (p_subnet p) = Some bs" "deserialize_subnet_compact de bs = Inr m"
        "same_arena (p_subnet p) m"
      using wire_transfer [OF ready] assms(2) by metis
    then show ?thesis
      by (simp add: send_partition_def same_partition_def)
  qed
  have "\<exists>qs. map (send_partition ser de) ps = map Some qs \<and> list_all2 same_partition ps qs"
    if "\<forall>p \<in> set ps. wire_ready (p_subnet p)" for ps
    using that
  proof (induction ps)
    case (Cons p ps)
    then obtain q qs where "send_partition ser de p = Some q" "same_partition p q"
        "map (send_partition ser de) ps = map Some qs" "list_all2 same_partition ps qs"
      using one [of p] by auto
    then show ?case
      by (intro exI [of _ "q # qs"]) simp
  qed simp
  then show ?thesis
    using assms(1) merge_same by metis
qed

theorem wire_merge_witness:
  "\<exists>q. map (send_partition id (Inr :: compact_subnet \<Rightarrow> unit + compact_subnet))
         [(partition_empty 0)\<lparr>p_subnet := pair_net Con Dup\<rparr>] = [Some q] \<and>
     merge [] \<lparr>pl_partitions = [q], pl_borders = Map.empty, pl_next_border_id = 0\<rparr> =
     merge [] \<lparr>pl_partitions = [(partition_empty 0)\<lparr>p_subnet := pair_net Con Dup\<rparr>], pl_borders = Map.empty, pl_next_border_id = 0\<rparr>"
proof -
  let ?p = "(partition_empty 0)\<lparr>p_subnet := pair_net Con Dup\<rparr>"
  let ?plan = "\<lparr>pl_partitions = [?p], pl_borders = Map.empty, pl_next_border_id = 0\<rparr>"
  have "wire_ready (pair_net Con Dup)"
    using pair_net_core [of Con Dup] by (simp add: wire_ready_def) (simp add: pair_net_def net_new_def)
  then show ?thesis
    using wire_merge [of ?plan "Inr :: compact_subnet \<Rightarrow> unit + compact_subnet" id "[]"] by auto
qed

end
