(* ===== verification/Text_Dsl.thy ===== *)
theory Text_Dsl
  imports Builder "HOL-Library.Char_ord"
begin

text \<open>
  The text format of nets (\<open>io/text_dsl.rs\<close>): the two-pass parser and the printer.  A string is a list of
  characters with code points below 256; the error messages are constructors that carry the line number
  and the text they quote.  \<open>None\<close> is the panic of an exhausted identifier space.  Reading and writing the
  file is left out.
\<close>

section \<open>The string operations of the standard library\<close>

definition code :: "char \<Rightarrow> nat" where
  "code c = of_char c"

text \<open>\<open>char::is_whitespace\<close> below 256.\<close>

definition is_whitespace :: "char \<Rightarrow> bool" where
  "is_whitespace c \<longleftrightarrow> code c \<in> {9, 10, 11, 12, 13, 32, 133, 160}"

definition newline :: char where
  "newline = CHR 10"

definition strip_cr :: "string \<Rightarrow> string" where
  "strip_cr s = (if s \<noteq> [] \<and> last s = CHR 13 then butlast s else s)"

fun str_lines_from :: "string \<Rightarrow> string \<Rightarrow> string list" where
  "str_lines_from acc [] = (if acc = [] then [] else [acc])"
| "str_lines_from acc (c # cs) =
     (if c = newline then strip_cr acc # str_lines_from [] cs else str_lines_from (acc @ [c]) cs)"

definition str_lines :: "string \<Rightarrow> string list" where
  "str_lines s = str_lines_from [] s"

definition trim :: "string \<Rightarrow> string" where
  "trim s = rev (dropWhile is_whitespace (rev (dropWhile is_whitespace s)))"

fun split_whitespace_from :: "string \<Rightarrow> string \<Rightarrow> string list" where
  "split_whitespace_from acc [] = (if acc = [] then [] else [acc])"
| "split_whitespace_from acc (c # cs) =
     (if is_whitespace c then (if acc = [] then split_whitespace_from [] cs else acc # split_whitespace_from [] cs)
      else split_whitespace_from (acc @ [c]) cs)"

definition split_whitespace :: "string \<Rightarrow> string list" where
  "split_whitespace s = split_whitespace_from [] s"

definition strip_prefix :: "string \<Rightarrow> string \<Rightarrow> string option" where
  "strip_prefix p s = (if take (length p) s = p then Some (drop (length p) s) else None)"

definition strip_suffix :: "char \<Rightarrow> string \<Rightarrow> string option" where
  "strip_suffix c s = (if s \<noteq> [] \<and> last s = c then Some (butlast s) else None)"

text \<open>\<open>splitn(2, '.')\<close>: the part before the first dot, and the rest if there is a dot.\<close>

definition splitn_dot :: "string \<Rightarrow> string \<times> string option" where
  "splitn_dot s =
     (let a = takeWhile (\<lambda>c. c \<noteq> CHR ''.'') s
      in (a, if length a < length s then Some (drop (length a + 1) s) else None))"

text \<open>\<open>str::parse\<close> for 32-bit numbers: an optional plus sign, at least one digit, no overflow.\<close>

definition push_digit :: "char \<Rightarrow> nat \<Rightarrow> nat option" where
  "push_digit c acc =
     (if 48 \<le> code c \<and> code c \<le> 57 \<and> acc * 10 + (code c - 48) \<le> u32_MAX
      then Some (acc * 10 + (code c - 48)) else None)"

definition parse_u32 :: "string \<Rightarrow> nat option" where
  "parse_u32 s =
     (let ds = (case s of c # t \<Rightarrow> if c = CHR ''+'' \<and> t \<noteq> [] then t else s | [] \<Rightarrow> s)
      in if ds = [] then None else ofold push_digit ds 0)"

text \<open>Decimal notation, as \<open>format!\<close> prints it.\<close>

fun decimal :: "nat \<Rightarrow> string" where
  "decimal n = (if n < 10 then [char_of (48 + n)] else decimal (n div 10) @ [char_of (48 + n mod 10)])"

declare decimal.simps [simp del]

section \<open>The parser\<close>

datatype parse_error =
    AgentSyntax nat
  | UnknownSymbol nat string
  | DuplicateName nat string
  | WireSyntax nat
  | SelfLoop nat
  | FreeToFree nat
  | DuplicateRoot nat
  | RootSyntax nat
  | UnknownKeyword nat string
  | InvalidFreeId nat string
  | InvalidPortRef nat string
  | UnknownAgent nat string
  | EraAuxiliary nat string
  | UnknownPortName nat string

definition parse_symbol :: "string \<Rightarrow> nat \<Rightarrow> parse_error + symbol" where
  "parse_symbol s line =
     (if s = ''CON'' then Inr Con else if s = ''DUP'' then Inr Dup else if s = ''ERA'' then Inr Era
      else Inl (UnknownSymbol line s))"

definition parse_port_name :: "string \<Rightarrow> nat \<Rightarrow> parse_error + port_id" where
  "parse_port_name name line =
     (if name = ''principal'' \<or> name = ''p0'' then Inr 0
      else if name = ''left'' \<or> name = ''p1'' then Inr 1
      else if name = ''right'' \<or> name = ''p2'' then Inr 2
      else Inl (UnknownPortName line name))"

definition parse_port_ref :: "string \<Rightarrow> (string \<rightharpoonup> agent_id) \<Rightarrow> net \<Rightarrow> nat \<Rightarrow> parse_error + port_ref" where
  "parse_port_ref s names n line =
     (case Option.bind (strip_prefix ''free('' s) (strip_suffix (CHR '')'')) of
        Some inner \<Rightarrow> (case parse_u32 inner of Some f \<Rightarrow> Inr (FreePort f) | None \<Rightarrow> Inl (InvalidFreeId line inner))
      | None \<Rightarrow>
          (case splitn_dot s of
             (_, None) \<Rightarrow> Inl (InvalidPortRef line s)
           | (agent_name, Some port_name) \<Rightarrow>
               (case names agent_name of
                  None \<Rightarrow> Inl (UnknownAgent line agent_name)
                | Some i \<Rightarrow>
                    (case parse_port_name port_name line of
                       Inl e \<Rightarrow> Inl e
                     | Inr p \<Rightarrow>
                         if (case get_agent n i of Some ag \<Rightarrow> a_symbol ag = Era \<and> p > 0 | None \<Rightarrow> False)
                         then Inl (EraAuxiliary line agent_name)
                         else Inr (AgentPort i p)))))"

text \<open>The tokens of a line; comments and blank lines have none.\<close>

definition line_tokens :: "string \<Rightarrow> string list" where
  "line_tokens l =
     (let line = trim l
      in if line = [] \<or> hd line = CHR ''#'' then [] else split_whitespace line)"

definition pass1_line :: "nat \<times> string \<Rightarrow> net \<times> (string \<rightharpoonup> agent_id) \<Rightarrow> (parse_error + net \<times> (string \<rightharpoonup> agent_id)) option" where
  "pass1_line ln st =
     (let tokens = line_tokens (snd ln); num = fst ln + 1
      in if tokens = [] then Some (Inr st)
         else if tokens ! 0 = ''agent'' then
           if length tokens \<noteq> 3 then Some (Inl (AgentSyntax num))
           else
             (case parse_symbol (tokens ! 2) num of
                Inl e \<Rightarrow> Some (Inl e)
              | Inr s \<Rightarrow>
                  if snd st (tokens ! 1) \<noteq> None then Some (Inl (DuplicateName num (tokens ! 1)))
                  else
                    (case create_agent s (fst st) of
                       None \<Rightarrow> None
                     | Some (i, n) \<Rightarrow> Some (Inr (n, (snd st)(tokens ! 1 \<mapsto> i)))))
         else Some (Inr st))"

definition pass2_line :: "(string \<rightharpoonup> agent_id) \<Rightarrow> nat \<times> string \<Rightarrow> net \<times> bool \<Rightarrow> parse_error + net \<times> bool" where
  "pass2_line names ln st =
     (let tokens = line_tokens (snd ln); num = fst ln + 1; n = fst st
      in if tokens = [] then Inr st
         else if tokens ! 0 = ''agent'' then Inr st
         else if tokens ! 0 = ''wire'' then
           if length tokens \<noteq> 3 then Inl (WireSyntax num)
           else
             (case parse_port_ref (tokens ! 1) names n num of
                Inl e \<Rightarrow> Inl e
              | Inr a \<Rightarrow>
                  (case parse_port_ref (tokens ! 2) names n num of
                     Inl e \<Rightarrow> Inl e
                   | Inr b \<Rightarrow>
                       if a = b then Inl (SelfLoop num)
                       else if (case (a, b) of (FreePort f, FreePort g) \<Rightarrow> True | _ \<Rightarrow> False) then Inl (FreeToFree num)
                       else Inr (connect a b n, snd st)))
         else if tokens ! 0 = ''root'' then
           if snd st then Inl (DuplicateRoot num)
           else if length tokens \<noteq> 2 then Inl (RootSyntax num)
           else
             (case parse_port_ref (tokens ! 1) names n num of
                Inl e \<Rightarrow> Inl e
              | Inr r \<Rightarrow> Inr (n\<lparr>root := Some r\<rparr>, True))
         else Inl (UnknownKeyword num (tokens ! 0)))"

fun pass1 :: "(nat \<times> string) list \<Rightarrow> net \<times> (string \<rightharpoonup> agent_id) \<Rightarrow> (parse_error + net \<times> (string \<rightharpoonup> agent_id)) option" where
  "pass1 [] st = Some (Inr st)"
| "pass1 (l # ls) st =
     (case pass1_line l st of
        None \<Rightarrow> None
      | Some (Inl e) \<Rightarrow> Some (Inl e)
      | Some (Inr st1) \<Rightarrow> pass1 ls st1)"

fun pass2 :: "(string \<rightharpoonup> agent_id) \<Rightarrow> (nat \<times> string) list \<Rightarrow> net \<times> bool \<Rightarrow> parse_error + net \<times> bool" where
  "pass2 names [] st = Inr st"
| "pass2 names (l # ls) st = (case pass2_line names l st of Inl e \<Rightarrow> Inl e | Inr st1 \<Rightarrow> pass2 names ls st1)"

definition parse_ic :: "string \<Rightarrow> (parse_error + net) option" where
  "parse_ic input =
     (let ls = List.enumerate 0 (str_lines input)
      in case pass1 ls (net_new, Map.empty) of
           None \<Rightarrow> None
         | Some (Inl e) \<Rightarrow> Some (Inl e)
         | Some (Inr (n, names)) \<Rightarrow>
             (case pass2 names ls (n, False) of Inl e \<Rightarrow> Some (Inl e) | Inr (m, _) \<Rightarrow> Some (Inr m)))"

section \<open>The printer\<close>

fun symbol_name :: "symbol \<Rightarrow> string" where
  "symbol_name Con = ''CON''"
| "symbol_name Dup = ''DUP''"
| "symbol_name Era = ''ERA''"

definition port_name :: "port_id \<Rightarrow> string" where
  "port_name p = (if p = 0 then ''principal'' else if p = 1 then ''left'' else if p = 2 then ''right'' else ''p?'')"

definition agent_name :: "agent_id \<Rightarrow> string" where
  "agent_name i = ''a'' @ decimal i"

fun format_port_ref :: "port_ref \<Rightarrow> string" where
  "format_port_ref (AgentPort i p) = agent_name i @ ''.'' @ port_name p"
| "format_port_ref (FreePort f) = ''free('' @ decimal f @ '')''"

definition agent_line :: "agent \<Rightarrow> string" where
  "agent_line ag = ''agent '' @ agent_name (a_id ag) @ '' '' @ symbol_name (a_symbol ag) @ [newline]"

definition wire_line :: "port_ref \<Rightarrow> port_ref \<Rightarrow> string" where
  "wire_line a b = ''wire '' @ format_port_ref a @ '' '' @ format_port_ref b @ [newline]"

text \<open>Each wire is printed once: \<open>emitted\<close> holds the pairs of port indices printed so far.\<close>

definition format_port :: "net \<Rightarrow> agent_id \<Rightarrow> port_id \<Rightarrow> (nat \<times> nat) set \<times> string \<Rightarrow> (nat \<times> nat) set \<times> string" where
  "format_port n i p st =
     (let src_idx = i * 3 + p
      in if src_idx \<ge> length (ports n) then st
         else
           let target = ports n ! src_idx;
               target_idx = (case target of AgentPort j q \<Rightarrow> j * 3 + q | FreePort _ \<Rightarrow> 2 ^ 64 - 1);
               key = (if src_idx < target_idx then (src_idx, target_idx) else (target_idx, src_idx))
           in if key \<in> fst st then st
              else (insert key (fst st), snd st @ wire_line (AgentPort i p) target))"

definition format_ic :: "net \<Rightarrow> string" where
  "format_ic n =
     (let out1 = concat (map agent_line (live_agents n));
          out2 = snd (fold (\<lambda>ag. fold (format_port n (a_id ag)) [0..<arity (a_symbol ag) + 1]) (live_agents n) ({}, out1))
      in case root n of None \<Rightarrow> out2 | Some r \<Rightarrow> out2 @ ''root '' @ format_port_ref r @ [newline])"

end
