(* ===== verification/Text_Lex.thy ===== *)
theory Text_Lex
  imports Text_Dsl
begin

text \<open>
  The lexical layer of the text format: decimal numbers read back, and lines of words printed with single
  spaces are split into the same words.
\<close>

section \<open>Numbers\<close>

definition digit :: "char \<Rightarrow> bool" where
  "digit c \<longleftrightarrow> 48 \<le> code c \<and> code c \<le> 57"

lemma code_digit: "d < 10 \<Longrightarrow> code (char_of (48 + d)) = 48 + d"
  by (simp add: code_def)

lemma decimal_digits: "c \<in> set (decimal n) \<Longrightarrow> digit c"
proof (induction n rule: decimal.induct)
  case (1 n)
  show ?case
  proof (cases "n < 10")
    case True
    then show ?thesis
      using 1(2) code_digit [of n] by (subst (asm) decimal.simps) (simp add: digit_def)
  next
    case False
    then show ?thesis
      using 1 code_digit [of "n mod 10"] by (subst (asm) (2) decimal.simps) (auto simp: digit_def)
  qed
qed

lemma decimal_nonempty [simp]: "decimal n \<noteq> []"
  by (subst decimal.simps) simp

lemma ofold_decimal: "n \<le> u32_MAX \<Longrightarrow> ofold push_digit (decimal n) 0 = Some n"
proof (induction n rule: decimal.induct)
  case (1 n)
  show ?case
  proof (cases "n < 10")
    case True
    then show ?thesis
      using code_digit [of n] by (subst decimal.simps) (simp add: push_digit_def)
  next
    case False
    have "ofold push_digit (decimal (n div 10)) 0 = Some (n div 10)"
      using 1 False by simp
    then show ?thesis
      using False 1(2) code_digit [of "n mod 10"] by (subst decimal.simps) (simp add: push_digit_def)
  qed
qed

lemma parse_u32_decimal: "n \<le> u32_MAX \<Longrightarrow> parse_u32 (decimal n) = Some n"
proof -
  assume n: "n \<le> u32_MAX"
  obtain c cs where d: "decimal n = c # cs"
    using decimal_nonempty by (cases "decimal n") auto
  have "c \<noteq> CHR ''+''"
    using decimal_digits [of c n] by (auto simp: d digit_def code_def)
  then show ?thesis
    using ofold_decimal [OF n] by (simp add: parse_u32_def d)
qed

lemma decimal_inj: "decimal m = decimal n \<Longrightarrow> m = n"
proof (induction m arbitrary: n rule: decimal.induct)
  case (1 m)
  have dig: "char_of (48 + a) = (char_of (48 + b) :: char) \<Longrightarrow> a < 10 \<Longrightarrow> b < 10 \<Longrightarrow> a = b" for a b :: nat
    using code_digit [of a] code_digit [of b] by simp
  show ?case
  proof (cases "m < 10")
    case True
    then have "n < 10"
      using 1(2) decimal.simps [of m] decimal.simps [of n] decimal_nonempty [of "n div 10", symmetric] by (auto split: if_splits)
    then show ?thesis
      using True 1(2) dig decimal.simps [of m] decimal.simps [of n] by simp
  next
    case False
    then have n: "\<not> n < 10"
      using 1(2) decimal.simps [of m] decimal.simps [of n] by (auto split: if_splits)
    have "decimal (m div 10) @ [char_of (48 + m mod 10)] = decimal (n div 10) @ [char_of (48 + n mod 10)]"
      using 1(2) False n decimal.simps [of m] decimal.simps [of n] by simp
    then have "decimal (m div 10) = decimal (n div 10)" "char_of (48 + m mod 10) = (char_of (48 + n mod 10) :: char)"
      by (simp_all only: append1_eq_conv)
    then have "m div 10 = n div 10" "m mod 10 = n mod 10"
      using 1(1) [OF False, of "n div 10"] dig [of "m mod 10" "n mod 10"] by (blast, simp)
    then show ?thesis
      by (metis div_mult_mod_eq)
  qed
qed

section \<open>Lines and tokens\<close>

definition plain :: "string \<Rightarrow> bool" where
  "plain w \<longleftrightarrow> w \<noteq> [] \<and> (\<forall>c \<in> set w. \<not> is_whitespace c)"

fun unwords :: "string list \<Rightarrow> string" where
  "unwords [] = []"
| "unwords [w] = w"
| "unwords (w # v # ws) = w @ '' '' @ unwords (v # ws)"

definition render :: "string list list \<Rightarrow> string" where
  "render tss = concat (map (\<lambda>ts. unwords ts @ [newline]) tss)"

definition clean_line :: "string list \<Rightarrow> bool" where
  "clean_line ts \<longleftrightarrow> ts \<noteq> [] \<and> (\<forall>t \<in> set ts. plain t) \<and> hd (hd ts) \<noteq> CHR ''#''"

lemma space_ws [simp]: "is_whitespace (CHR '' '')" "is_whitespace newline" "is_whitespace (CHR 13)"
  by (simp_all add: is_whitespace_def code_def newline_def)

lemma split_word:
  "\<forall>c \<in> set w. \<not> is_whitespace c \<Longrightarrow> split_whitespace_from acc (w @ cs) = split_whitespace_from (acc @ w) cs"
  by (induction w arbitrary: acc) simp_all

lemma split_unwords: "\<forall>t \<in> set ts. plain t \<Longrightarrow> split_whitespace (unwords ts) = ts"
proof (induction ts rule: unwords.induct)
  case (2 w)
  then show ?case
    using split_word [of w "[]" "[]"] by (simp add: split_whitespace_def plain_def)
next
  case (3 w v ws)
  then show ?case
    using split_word [of w "[]"] by (simp add: split_whitespace_def plain_def)
qed (simp add: split_whitespace_def)

lemma unwords_ends:
  assumes "ts \<noteq> []" "\<forall>t \<in> set ts. plain t"
  shows "unwords ts \<noteq> []" "hd (unwords ts) = hd (hd ts)" "last (unwords ts) = last (last ts)"
  using assms by (induction ts rule: unwords.induct) (auto simp: plain_def)

lemma unwords_chars:
  assumes "\<forall>t \<in> set ts. plain t" "c \<in> set (unwords ts)"
  shows "c = CHR '' '' \<or> \<not> is_whitespace c"
  using assms by (induction ts rule: unwords.induct) (auto simp: plain_def)

lemma trim_id:
  assumes "\<not> is_whitespace (hd s)" "\<not> is_whitespace (last s)" "s \<noteq> []"
  shows "trim s = s"
proof -
  have "dropWhile is_whitespace t = t" if "\<not> is_whitespace (hd t)" for t
    using that by (cases t) simp_all
  then show ?thesis
    using assms by (simp add: trim_def hd_rev)
qed

lemma line_tokens_unwords:
  assumes "clean_line ts"
  shows "line_tokens (unwords ts) = ts"
proof -
  have pl: "\<forall>t \<in> set ts. plain t" and ne: "ts \<noteq> []"
    using assms by (simp_all add: clean_line_def)
  note E = unwords_ends [OF ne pl]
  have "plain (hd ts)" "plain (last ts)"
    using pl ne by simp_all
  then have "\<not> is_whitespace (hd (unwords ts))" "\<not> is_whitespace (last (unwords ts))"
    unfolding E(2,3) plain_def by simp_all
  then have "trim (unwords ts) = unwords ts"
    using E(1) by (rule trim_id)
  then show ?thesis
    using E(1,2) assms split_unwords [OF pl] by (simp add: line_tokens_def Let_def clean_line_def)
qed

lemma lines_step:
  "newline \<notin> set l \<Longrightarrow> str_lines_from acc (l @ newline # cs) = strip_cr (acc @ l) # str_lines_from [] cs"
  by (induction l arbitrary: acc) auto

lemma str_lines_render:
  assumes "\<forall>ts \<in> set tss. clean_line ts"
  shows "str_lines (render tss) = map unwords tss"
  using assms
proof (induction tss)
  case (Cons ts tss)
  then have pl: "\<forall>t \<in> set ts. plain t" and ne: "ts \<noteq> []"
    by (simp_all add: clean_line_def)
  have no: "newline \<notin> set (unwords ts)"
    using unwords_chars [OF pl, of newline] space_ws(2) by (auto simp: newline_def simp del: space_ws)
  have "plain (last ts)"
    using pl ne by simp
  then have "\<not> is_whitespace (last (unwords ts))"
    by (simp add: unwords_ends(3) [OF ne pl] plain_def)
  then have "strip_cr (unwords ts) = unwords ts"
    by (auto simp: strip_cr_def)
  then show ?case
    using Cons lines_step [OF no, of "[]"] by (simp add: str_lines_def render_def)
qed (simp add: str_lines_def render_def)

end
