(* ===== verification/Text_Props.thy ===== *)
theory Text_Props
  imports Text_Lex
begin

text \<open>
  Printing and parsing the text format: which wires are printed, how tokens read back, and the round trip
  of a net up to the renumbering of its agents.  The parser does not check that a port is wired once.
\<close>

section \<open>The wires that are printed\<close>

definition live_ids_of :: "net \<Rightarrow> agent_id list" where
  "live_ids_of n = filter (\<lambda>i. live n i) [0..<length (agents n)]"

lemma live_agents_ids:
  assumes "slots_ok n"
  shows "live_agents n = map (\<lambda>i. the (get_agent n i)) (live_ids_of n)"
proof -
  have "List.map_filter (\<lambda>slot. slot) xs = map (\<lambda>i. the (xs ! i)) (filter (\<lambda>i. xs ! i \<noteq> None) [0..<length xs])" for xs :: "agent option list"
    by (induction xs rule: rev_induct) (auto simp: map_filter_def nth_append intro!: map_cong filter_cong)
  then have "live_agents n = map (\<lambda>i. the (agents n ! i)) (filter (\<lambda>i. agents n ! i \<noteq> None) [0..<length (agents n)])"
    by (simp add: live_agents_def)
  also have "\<dots> = map (\<lambda>i. the (get_agent n i)) (live_ids_of n)"
    unfolding live_ids_of_def by (intro map_cong filter_cong) (auto simp: sym_at_def get_agent_def vec_get_def)
  finally show ?thesis .
qed

lemma set_live_ids_of [simp]: "set (live_ids_of n) = {i. live n i}"
  using live_length by (auto simp: live_ids_of_def)

lemma live_ids_sorted: "sorted_wrt (<) (live_ids_of n)"
  by (simp add: live_ids_of_def sorted_wrt_filter)

definition port_list :: "net \<Rightarrow> (agent_id \<times> port_id) list" where
  "port_list n = concat (map (\<lambda>i. map (Pair i) [0..<total_ports (the (sym_at n i))]) (live_ids_of n))"

lemma set_port_list: "set (port_list n) = {(i, p). valid_port n i p}"
proof -
  have "(i, p) \<in> set (port_list n) \<longleftrightarrow> live n i \<and> p < total_ports (the (sym_at n i))" for i p
    by (auto simp: port_list_def image_iff)
  then show ?thesis
    by (auto simp: valid_port_def split: option.splits)
qed

lemma sorted_wrt_concat:
  assumes "\<And>xs. xs \<in> set xss \<Longrightarrow> sorted_wrt P xs" "sorted_wrt (\<lambda>xs ys. \<forall>x \<in> set xs. \<forall>y \<in> set ys. P x y) xss"
  shows "sorted_wrt P (concat xss)"
  using assms by (induction xss) (auto simp: sorted_wrt_append)

lemma strict_distinct: "sorted_wrt (\<lambda>x y. (f x :: nat) < f y) xs \<Longrightarrow> distinct xs"
  by (induction xs) auto

abbreviation idx_of :: "agent_id \<times> port_id \<Rightarrow> nat" where
  "idx_of x \<equiv> port_index (fst x) (snd x)"

lemma port_list_sorted: "sorted_wrt (\<lambda>x y. idx_of x < idx_of y) (port_list n)"
  unfolding port_list_def
proof (rule sorted_wrt_concat)
  let ?row = "\<lambda>i. map (Pair i) [0..<total_ports (the (sym_at n i))]"
  show "sorted_wrt (\<lambda>x y. idx_of x < idx_of y) xs" if "xs \<in> set (map ?row (live_ids_of n))" for xs
    using that by (auto simp: sorted_wrt_map port_index_def)
  have "idx_of x < idx_of y" if "i < j" "x \<in> set (?row i)" "y \<in> set (?row j)" for i j x y
    using that total_ports_le [of "the (sym_at n i)"] by (auto simp: port_index_def PORTS_PER_SLOT_def)
  then show "sorted_wrt (\<lambda>xs ys. \<forall>x \<in> set xs. \<forall>y \<in> set ys. idx_of x < idx_of y) (map ?row (live_ids_of n))"
    unfolding sorted_wrt_map by (intro sorted_wrt_mono_rel [OF _ live_ids_sorted]) blast
qed

definition first_end :: "net \<Rightarrow> agent_id \<times> port_id \<Rightarrow> bool" where
  "first_end n x =
     (case tgt n (fst x) (snd x) of AgentPort j q \<Rightarrow> port_index (fst x) (snd x) < port_index j q | FreePort f \<Rightarrow> True)"

definition printed_wires :: "net \<Rightarrow> (port_ref \<times> port_ref) list" where
  "printed_wires n = map (\<lambda>(i, p). (AgentPort i p, tgt n i p)) (filter (first_end n) (port_list n))"

definition wire_key :: "net \<Rightarrow> agent_id \<times> port_id \<Rightarrow> nat \<times> nat" where
  "wire_key n x =
     (let t = (case tgt n (fst x) (snd x) of AgentPort j q \<Rightarrow> port_index j q | FreePort _ \<Rightarrow> 2 ^ 64 - 1)
      in if idx_of x < t then (idx_of x, t) else (t, idx_of x))"

lemma format_port_step:
  assumes "core_inv n" "valid_port n i p"
  shows "format_port n i p st =
    (if wire_key n (i, p) \<in> fst st then st
     else (insert (wire_key n (i, p)) (fst st), snd st @ wire_line (AgentPort i p) (tgt n i p)))"
proof -
  have "port_index i p < length (ports n)"
    using live_slot [OF core_invD(1) [OF assms(1)] valid_port_live [OF assms(2)] valid_port_less [OF assms(2)]] .
  moreover have idx: "i * 3 + p = port_index i p" for i p
    by (simp add: port_index_def PORTS_PER_SLOT_def)
  moreover have "ports n ! port_index i p = tgt n i p"
    using ports_nth [OF refl calculation(1)] .
  ultimately show ?thesis
    by (cases "tgt n i p") (simp_all add: format_port_def wire_key_def Let_def)
qed

lemma wire_key_fresh:
  assumes "core_inv n" "port_list n = xs @ x # ys"
  shows "wire_key n x \<in> wire_key n ` set xs \<longleftrightarrow> \<not> first_end n x"
proof -
  obtain i p where x: "x = (i, p)"
    by (cases x)
  have less: "idx_of y < idx_of x" if "y \<in> set xs" for y
    using port_list_sorted [of n] that by (simp add: assms(2) sorted_wrt_append)
  have more: "idx_of x < idx_of y" if "y \<in> set ys" for y
    using port_list_sorted [of n] that by (simp add: assms(2) sorted_wrt_append)
  have valid: "valid_port n i p"
    using set_port_list [of n] by (auto simp: assms(2) x)
  have small: "idx_of x < 2 ^ 64 - 1"
    using core_invD(4) [OF assms(1)] valid_port_live [OF valid] valid_port_less [OF valid]
    by (auto simp: x ids_below_def port_index_def PORTS_PER_SLOT_def)
  show ?thesis
  proof (cases "tgt n i p")
    case (AgentPort j q)
    note p = valid_port_less [OF valid]
    note w = symmetric_wiresD [OF core_invD(3) [OF assms(1)] p AgentPort]
    have jq: "(j, q) \<in> set (port_list n)"
      using tgt_valid(1) [OF assms(1) p AgentPort] by (simp add: set_port_list)
    have neq: "port_index i p \<noteq> port_index j q"
      using port_index_inj [OF p w(1), of i j] w(3) by auto
    have same: "wire_key n (j, q) = wire_key n x"
      using neq by (simp add: wire_key_def x AgentPort w(2) Let_def)
    show ?thesis
    proof (cases "first_end n x")
      case True
      then have lt: "port_index i p < port_index j q"
        by (simp add: first_end_def x AgentPort)
      have "wire_key n y \<noteq> wire_key n x" if "y \<in> set xs" for y
        using less [OF that] lt by (auto simp: wire_key_def x AgentPort Let_def split: port_ref.splits if_splits)
      then show ?thesis
        using True by (metis imageE)
    next
      case False
      then have "port_index j q < port_index i p"
        using neq by (simp add: first_end_def x AgentPort)
      then have "(j, q) \<in> set xs"
        using jq more [of "(j, q)"] by (auto simp: assms(2) x)
      then show ?thesis
        using False same by (metis imageI)
    qed
  next
    case (FreePort f)
    have "wire_key n y \<noteq> wire_key n x" if "y \<in> set xs" for y
      using less [OF that] small by (auto simp: wire_key_def x FreePort Let_def split: port_ref.splits if_splits)
    moreover have "first_end n x"
      by (simp add: first_end_def x FreePort)
    ultimately show ?thesis
      by (metis imageE)
  qed
qed

lemma fold_format_ports:
  assumes "core_inv n" "port_list n = xs @ ys" "fst st = wire_key n ` set xs"
  shows "snd (fold (\<lambda>(i, p). format_port n i p) ys st) =
    snd st @ concat (map (\<lambda>(i, p). wire_line (AgentPort i p) (tgt n i p)) (filter (first_end n) ys))"
  using assms(2,3)
proof (induction ys arbitrary: xs st)
  case (Cons x ys)
  obtain i p where x: "x = (i, p)"
    by (cases x)
  have valid: "valid_port n i p"
    using set_port_list [of n] by (auto simp: Cons.prems(1) x)
  have key: "wire_key n x \<in> fst st \<longleftrightarrow> \<not> first_end n x"
    using wire_key_fresh [OF assms(1) Cons.prems(1)] Cons.prems(2) by simp
  let ?st = "format_port n i p st"
  have st: "fst ?st = wire_key n ` set (xs @ [x])"
    "snd ?st = snd st @ (if first_end n x then wire_line (AgentPort i p) (tgt n i p) else [])"
    using key Cons.prems(2) by (auto simp: format_port_step [OF assms(1) valid] x)
  show ?case
    using Cons.IH [of "xs @ [x]" ?st] Cons.prems(1) st by (simp add: x)
qed simp

lemma fold_concat: "fold (\<lambda>x. fold f (g x)) xs s = fold f (concat (map g xs)) s"
  by (induction xs arbitrary: s) simp_all

lemma fold_row: "fold (h i) ps s = fold (\<lambda>(i, p). h i p) (map (Pair i) ps) s"
  by (induction ps arbitrary: s) simp_all

lemma arity_total: "arity s + 1 = total_ports s"
  by (simp add: total_ports_def)

lemma live_agent_at:
  assumes "slots_ok n" "live n i"
  shows "a_id (the (get_agent n i)) = i" "a_symbol (the (get_agent n i)) = the (sym_at n i)"
  using assms by (auto simp: slots_ok_def sym_at_def)

text \<open>The printed text as lines of tokens.\<close>

definition agent_tokens :: "net \<Rightarrow> string list list" where
  "agent_tokens n = map (\<lambda>i. [''agent'', agent_name i, symbol_name (the (sym_at n i))]) (live_ids_of n)"

definition wire_tokens :: "(port_ref \<times> port_ref) list \<Rightarrow> string list list" where
  "wire_tokens ws = map (\<lambda>(a, b). [''wire'', format_port_ref a, format_port_ref b]) ws"

definition root_tokens :: "port_ref option \<Rightarrow> string list list" where
  "root_tokens r = (case r of None \<Rightarrow> [] | Some x \<Rightarrow> [[''root'', format_port_ref x]])"

lemma format_ic_render:
  assumes "core_inv n"
  shows "format_ic n = render (agent_tokens n @ wire_tokens (printed_wires n) @ root_tokens (root n))"
proof -
  note slots = core_invD(1) [OF assms]
  have ags: "concat (map agent_line (live_agents n)) = render (agent_tokens n)"
    unfolding live_agents_ids [OF slots] agent_tokens_def render_def
    by (auto simp: agent_line_def live_agent_at [OF slots] intro!: arg_cong [of _ _ concat] map_cong)
  have "fold (\<lambda>ag. fold (format_port n (a_id ag)) [0..<arity (a_symbol ag) + 1]) (live_agents n) st =
      fold (\<lambda>(i, p). format_port n i p) (port_list n) st" for st
  proof -
    have "fold (\<lambda>ag. fold (format_port n (a_id ag)) [0..<arity (a_symbol ag) + 1]) (live_agents n) st =
        fold (\<lambda>i. fold (\<lambda>(i, p). format_port n i p) (map (Pair i) [0..<total_ports (the (sym_at n i))])) (live_ids_of n) st"
      unfolding live_agents_ids [OF slots] fold_map [of _ "\<lambda>i. the (get_agent n i)"] comp_def
    proof (rule fold_cong)
      fix i
      assume "i \<in> set (live_ids_of n)"
      then have "live n i"
        by simp
      note at = live_agent_at [OF slots this]
      show "fold (format_port n (a_id (the (get_agent n i)))) [0..<arity (a_symbol (the (get_agent n i))) + 1] =
          fold (\<lambda>(i, p). format_port n i p) (map (Pair i) [0..<total_ports (the (sym_at n i))])"
        unfolding at arity_total by (rule ext, rule fold_row)
    qed simp_all
    then show ?thesis
      by (simp only: fold_concat port_list_def)
  qed
  moreover have "snd (fold (\<lambda>(i, p). format_port n i p) (port_list n) ({}, out)) = out @ render (wire_tokens (printed_wires n))" for out
    using fold_format_ports [OF assms, of "[]" "port_list n" "({}, out)"]
    by (simp add: render_def wire_tokens_def printed_wires_def wire_line_def comp_def case_prod_unfold)
  ultimately show ?thesis
    by (simp add: format_ic_def ags Let_def render_def root_tokens_def del: upt_Suc split: option.split)
qed

section \<open>Reading tokens back\<close>

lemma digit_plain: "digit c \<Longrightarrow> \<not> is_whitespace c \<and> c \<noteq> CHR ''.'' \<and> c \<noteq> CHR '')''"
  by (auto simp: digit_def is_whitespace_def code_def)

lemma plain_append [simp]: "plain v \<Longrightarrow> plain w \<Longrightarrow> plain (v @ w)"
  by (auto simp: plain_def)

lemma plain_decimal [simp]: "plain (decimal k)"
  using digit_plain decimal_digits by (auto simp: plain_def)

lemma plain_const:
  "plain ''a''" "plain ''.''" "plain ''free(''" "plain '')''" "plain ''principal''" "plain ''left''" "plain ''right''" "plain ''p?''"
  "plain ''CON''" "plain ''DUP''" "plain ''ERA''" "plain ''agent''" "plain ''wire''" "plain ''root''"
  by (simp_all add: plain_def is_whitespace_def code_def)

lemma plain_name [simp]: "plain (agent_name i)" "plain (symbol_name s)" "plain (port_name p)"
  unfolding agent_name_def port_name_def by (simp_all only: plain_append plain_const plain_decimal split: if_split)
    (cases s; simp add: plain_const)+

lemma plain_port_ref [simp]: "plain (format_port_ref x)"
  by (cases x) (simp_all only: format_port_ref.simps plain_append plain_const plain_decimal plain_name)

lemma agent_name_no_dot: "\<forall>c \<in> set (agent_name i). c \<noteq> CHR ''.''"
  using digit_plain decimal_digits by (fastforce simp: agent_name_def)

lemma agent_name_inj: "agent_name i = agent_name j \<longleftrightarrow> i = j"
  using decimal_inj by (auto simp: agent_name_def)

lemma splitn_dot_name: "splitn_dot (agent_name i @ ''.'' @ port_name p) = (agent_name i, Some (port_name p))"
proof -
  have "takeWhile (\<lambda>c. c \<noteq> CHR ''.'') (agent_name i @ ''.'' @ port_name p) = agent_name i"
    using agent_name_no_dot [of i] by (simp add: takeWhile_append)
  then show ?thesis
    by (simp add: splitn_dot_def Let_def)
qed

lemma parse_port_name_print: "p < 3 \<Longrightarrow> parse_port_name (port_name p) line = Inr p"
  by (auto simp: parse_port_name_def port_name_def)

lemma parse_agent_port:
  assumes "names (agent_name i) = Some j" "sym_at n j = Some s" "p < total_ports s"
  shows "parse_port_ref (format_port_ref (AgentPort i p)) names n line = Inr (AgentPort j p)"
proof -
  have p: "p < 3"
    using assms(3) total_ports_le [of s] by simp
  have "strip_prefix ''free('' (format_port_ref (AgentPort i p)) = None"
    by (simp add: strip_prefix_def agent_name_def)
  moreover have "\<not> (case get_agent n j of Some ag \<Rightarrow> a_symbol ag = Era \<and> p > 0 | None \<Rightarrow> False)"
    using assms(2,3) by (auto simp: sym_at_def split: option.splits)
  ultimately show ?thesis
    using assms(1) splitn_dot_name [of i p] parse_port_name_print [OF p] by (simp add: parse_port_ref_def)
qed

lemma parse_free_port:
  assumes "f \<le> u32_MAX"
  shows "parse_port_ref (format_port_ref (FreePort f)) names n line = Inr (FreePort f)"
  using parse_u32_decimal [OF assms] by (simp add: parse_port_ref_def strip_prefix_def strip_suffix_def butlast_append)

lemma pass1_append:
  "pass1 (xs @ ys) st =
     (case pass1 xs st of None \<Rightarrow> None | Some (Inl e) \<Rightarrow> Some (Inl e) | Some (Inr st1) \<Rightarrow> pass1 ys st1)"
  by (induction xs arbitrary: st) (simp_all split: option.split sum.split)

lemma pass2_append:
  "pass2 names (xs @ ys) st = (case pass2 names xs st of Inl e \<Rightarrow> Inl e | Inr st1 \<Rightarrow> pass2 names ys st1)"
  by (induction xs arbitrary: st) (simp_all split: sum.split)

lemma parse_symbol_print [simp]: "parse_symbol (symbol_name s) line = Inr s"
  by (cases s) (simp_all add: parse_symbol_def)

lemma clean_tokens [simp]:
  "clean_line [''agent'', agent_name i, symbol_name s]" "clean_line [''wire'', format_port_ref a, format_port_ref b]"
  "clean_line [''root'', format_port_ref a]"
  by (simp_all add: clean_line_def plain_const)

lemma pass1_agents:
  assumes "distinct is" "\<forall>i \<in> set is. names (agent_name i) = None" "create_agents (map f is) n = Some (js, m)"
  shows "pass1 (List.enumerate k (map (\<lambda>i. unwords [''agent'', agent_name i, symbol_name (f i)]) is)) (n, names) =
    Some (Inr (m, names(map agent_name is [\<mapsto>] js)))"
  using assms
proof (induction "is" arbitrary: n names k js)
  case (Cons i "is")
  obtain j n1 ks where c: "create_agent (f i) n = Some (j, n1)" "create_agents (map f is) n1 = Some (ks, m)" "js = j # ks"
    using Cons.prems(3) by (auto split: bind_splits)
  have "pass1_line (k, unwords [''agent'', agent_name i, symbol_name (f i)]) (n, names) = Some (Inr (n1, names(agent_name i \<mapsto> j)))"
    using Cons.prems(2) c(1) by (simp only: pass1_line_def line_tokens_unwords [OF clean_tokens(1)] Let_def snd_conv fst_conv) simp
  moreover have "\<forall>h \<in> set is. (names(agent_name i \<mapsto> j)) (agent_name h) = None"
    using Cons.prems(1,2) by (auto simp: agent_name_inj)
  moreover have "distinct is"
    using Cons.prems(1) by simp
  ultimately show ?case
    using Cons.IH [OF _ _ c(2), of "names(agent_name i \<mapsto> j)" "Suc k"] by (simp add: c(3) del: unwords.simps fun_upd_apply)
qed simp

lemma pass1_skip:
  assumes "\<forall>ts \<in> set tss. clean_line ts \<and> ts ! 0 \<noteq> ''agent''"
  shows "pass1 (List.enumerate k (map unwords tss)) st = Some (Inr st)"
  using assms
proof (induction tss arbitrary: k)
  case (Cons ts tss)
  have "pass1_line (k, unwords ts) st = Some (Inr st)"
    using Cons.prems by (simp add: pass1_line_def line_tokens_unwords Let_def)
  then show ?case
    using Cons by simp
qed simp

lemma pass2_skip:
  assumes "\<forall>ts \<in> set tss. clean_line ts \<and> ts ! 0 = ''agent''"
  shows "pass2 names (List.enumerate k (map unwords tss)) st = Inr st"
  using assms
proof (induction tss arbitrary: k)
  case (Cons ts tss)
  have "pass2_line names (k, unwords ts) st = Inr st"
    using Cons.prems by (simp add: pass2_line_def line_tokens_unwords Let_def)
  then show ?case
    using Cons by simp
qed simp

text \<open>A port that reads back as \<open>y\<close> in every net with the given symbols.\<close>

definition reads_as :: "(string \<rightharpoonup> agent_id) \<Rightarrow> (agent_id \<rightharpoonup> symbol) \<Rightarrow> port_ref \<Rightarrow> port_ref \<Rightarrow> bool" where
  "reads_as names syms x y \<longleftrightarrow>
     (\<forall>n line. sym_at n = syms \<longrightarrow> parse_port_ref (format_port_ref x) names n line = Inr y)"

definition both_free :: "port_ref \<Rightarrow> port_ref \<Rightarrow> bool" where
  "both_free a b \<longleftrightarrow> (case (a, b) of (FreePort f, FreePort g) \<Rightarrow> True | _ \<Rightarrow> False)"

lemma pass2_wires:
  assumes "\<forall>(a, b) \<in> set ws. reads_as names syms a (r a) \<and> reads_as names syms b (r b) \<and> r a \<noteq> r b \<and> \<not> both_free (r a) (r b)"
    and "sym_at n = syms"
  shows "pass2 names (List.enumerate k (map unwords (wire_tokens ws))) (n, b) = Inr (wire_all (map (map_prod r r) ws) n, b)"
  using assms
proof (induction ws arbitrary: n k)
  case (Cons w ws)
  obtain x y where w: "w = (x, y)"
    by (cases w)
  have R: "reads_as names syms x (r x)" "reads_as names syms y (r y)" "r x \<noteq> r y" "\<not> both_free (r x) (r y)"
    using Cons.prems(1) by (auto simp: w)
  have P: "parse_port_ref (format_port_ref x) names n line = Inr (r x)" "parse_port_ref (format_port_ref y) names n line = Inr (r y)" for line
    using R(1,2) Cons.prems(2) unfolding reads_as_def by blast+
  have "pass2_line names (k, unwords [''wire'', format_port_ref x, format_port_ref y]) (n, b) = Inr (connect (r x) (r y) n, b)"
    using P R(3,4)
    by (simp only: pass2_line_def line_tokens_unwords [OF clean_tokens(2)] Let_def snd_conv fst_conv) (simp add: both_free_def)
  moreover have "sym_at (connect (r x) (r y) n) = syms"
    using Cons.prems(2) by simp
  moreover have "\<forall>(a, b) \<in> set ws. reads_as names syms a (r a) \<and> reads_as names syms b (r b) \<and> r a \<noteq> r b \<and> \<not> both_free (r a) (r b)"
    using Cons.prems(1) by simp
  ultimately show ?case
    using Cons.IH [of "connect (r x) (r y) n" "Suc k"]
    by (simp add: w wire_tokens_def wire_all_def del: unwords.simps format_port_ref.simps)
qed (simp add: wire_tokens_def wire_all_def)

lemma pass2_root:
  assumes "case x of None \<Rightarrow> True | Some y \<Rightarrow> reads_as names (sym_at n) y (r y)"
  shows "\<exists>b. pass2 names (List.enumerate k (map unwords (root_tokens x))) (n, False) =
    Inr (case x of None \<Rightarrow> n | Some y \<Rightarrow> n\<lparr>root := Some (r y)\<rparr>, b)"
proof (cases x)
  case (Some y)
  have "parse_port_ref (format_port_ref y) names n line = Inr (r y)" for line
    using assms by (simp add: Some reads_as_def)
  then have "pass2_line names (k, unwords [''root'', format_port_ref y]) (n, False) = Inr (n\<lparr>root := Some (r y)\<rparr>, True)"
    by (simp only: pass2_line_def line_tokens_unwords [OF clean_tokens(3)] Let_def snd_conv fst_conv) simp
  then show ?thesis
    by (intro exI [of _ True]) (simp add: Some root_tokens_def del: unwords.simps)
qed (intro exI [of _ False], simp add: root_tokens_def)

lemma create_agents_fresh:
  assumes "free_list n = []" "create_agents ss n = Some (js, m)"
  shows "js = [next_id n..<next_id n + length ss]"
  using assms
proof (induction ss arbitrary: n js)
  case (Cons s ss)
  obtain j n1 ks where c: "create_agent s n = Some (j, n1)" "create_agents ss n1 = Some (ks, m)" "js = j # ks"
    using Cons.prems(2) by (auto split: bind_splits)
  have pop: "pop_free_list n = (None, [])"
    using Cons.prems(1) by (simp add: pop_free_list_def)
  have "j = next_id n \<and> next_id n1 = Suc (next_id n) \<and> free_list n1 = []"
    using c(1) by (auto simp: create_agent_def pop alloc_fresh_def Let_def split: if_splits)
  then show ?case
    using Cons.IH [OF _ c(2)] c(3) upt_conv_Cons [of "next_id n" "Suc (next_id n + length ss)"] by (simp del: upt_Suc)
qed simp

section \<open>Renumbering\<close>

text \<open>The number of an agent among the live agents, in the order in which they are printed.\<close>

definition rank :: "net \<Rightarrow> agent_id \<Rightarrow> nat" where
  "rank n i = length (filter (\<lambda>j. live n j) [0..<i])"

fun rename_port :: "net \<Rightarrow> port_ref \<Rightarrow> port_ref" where
  "rename_port n (AgentPort i p) = AgentPort (rank n i) p"
| "rename_port n (FreePort f) = FreePort f"

lemma rank_nth:
  assumes "live n i"
  shows "rank n i < length (live_ids_of n)" "live_ids_of n ! rank n i = i"
proof -
  have i: "i < length (agents n)"
    using assms by (rule live_length)
  have "[0..<length (agents n)] = [0..<i] @ i # [Suc i..<length (agents n)]"
    using i by (metis upt_conv_Cons upt_add_eq_append le_add_diff_inverse less_imp_le_nat zero_le)
  then have "live_ids_of n = filter (\<lambda>j. live n j) [0..<i] @ i # filter (\<lambda>j. live n j) [Suc i..<length (agents n)]"
    using assms by (simp add: live_ids_of_def)
  then show "rank n i < length (live_ids_of n)" "live_ids_of n ! rank n i = i"
    by (simp_all add: rank_def)
qed

lemma live_ids_distinct: "distinct (live_ids_of n)"
  by (simp add: live_ids_of_def)

lemma rank_inj: "live n i \<Longrightarrow> live n j \<Longrightarrow> rank n i = rank n j \<longleftrightarrow> i = j"
  using rank_nth(2) by metis

lemma rank_surj: "k < length (live_ids_of n) \<Longrightarrow> rank n (live_ids_of n ! k) = k"
  using rank_nth [of n "live_ids_of n ! k"] live_ids_distinct [of n] set_live_ids_of [of n] nth_mem
  by (metis (mono_tags, lifting) mem_Collect_eq nth_eq_iff_index_eq)

lemma rank_bij: "bij_betw (rank n) {i. live n i} {..<length (live_ids_of n)}"
  unfolding bij_betw_def
proof
  show "inj_on (rank n) {i. live n i}"
    using rank_inj by (auto simp: inj_on_def)
  show "rank n ` {i. live n i} = {..<length (live_ids_of n)}"
    using rank_nth(1) rank_surj nth_mem [of _ "live_ids_of n"] by (force simp: image_iff)
qed

lemma rename_inj:
  assumes "valid_port n i p" "valid_port n j q"
  shows "rename_port n (AgentPort i p) = rename_port n (AgentPort j q) \<longleftrightarrow> (i, p) = (j, q)"
  using rank_inj [OF valid_port_live [OF assms(1)] valid_port_live [OF assms(2)]] by auto

section \<open>The wires of the printed text\<close>

lemma printed_wire:
  assumes "core_inv n" "(x, t) \<in> set (printed_wires n)"
  obtains i p where "x = AgentPort i p" "valid_port n i p" "t = tgt n i p" "first_end n (i, p)"
  using assms set_port_list [of n] by (auto simp: printed_wires_def)

lemma printed_wire_ends:
  assumes "core_inv n" "(x, t) \<in> set (printed_wires n)"
  shows "t = AgentPort j q \<Longrightarrow> valid_port n j q \<and> tgt n j q = x \<and> \<not> first_end n (j, q)"
proof -
  assume t: "t = AgentPort j q"
  obtain i p where x: "x = AgentPort i p" "valid_port n i p" "t = tgt n i p" "first_end n (i, p)"
    using printed_wire [OF assms] .
  note p = valid_port_less [OF x(2)]
  have w: "tgt n i p = AgentPort j q"
    using x(3) t by simp
  note s = symmetric_wiresD [OF core_invD(3) [OF assms(1)] p w]
  have "port_index i p < port_index j q"
    using x(4) w by (simp add: first_end_def)
  then show ?thesis
    using tgt_valid(1) [OF assms(1) p w] s(2) x(1) by (simp add: first_end_def)
qed

lemma printed_ends_distinct:
  assumes "core_inv n"
  shows "distinct (agent_ends (printed_wires n))"
proof -
  have "distinct (agent_ends (map (\<lambda>(i, p). (AgentPort i p, tgt n i p)) xs))"
    if "distinct xs" "\<forall>x \<in> set xs. (case x of (i, p) \<Rightarrow> valid_port n i p) \<and> first_end n x" for xs
    using that
  proof (induction xs)
    case (Cons x xs)
    obtain i p where x: "x = (i, p)" "valid_port n i p" "first_end n (i, p)"
      using Cons.prems(2) by (cases x) auto
    note p = valid_port_less [OF x(2)]
    let ?ws = "map (\<lambda>(i, p). (AgentPort i p, tgt n i p)) xs"
    have member: "\<exists>k r. (k, r) \<in> set xs \<and> valid_port n k r \<and> first_end n (k, r) \<and> (z = AgentPort k r \<or> z = tgt n k r)"
      if z: "z \<in> set (agent_ends ?ws)" for z
      using agent_ends_in [OF z] Cons.prems(2) by fastforce
    have mirror: "tgt n j q = AgentPort k r \<and> \<not> first_end n (j, q) \<and> q < 3"
      if "valid_port n k r" "first_end n (k, r)" "tgt n k r = AgentPort j q" for j q k r
      using symmetric_wiresD [OF core_invD(3) [OF assms] valid_port_less [OF that(1)] that(3)] that(2,3)
      by (simp add: first_end_def)
    have fresh: "AgentPort i p \<notin> set (agent_ends ?ws)"
      using member [of "AgentPort i p"] mirror [of _ _ i p] Cons.prems(1) x by (metis distinct.simps(2) port_ref.inject(1))
    have fresh2: "AgentPort j q \<notin> set (agent_ends ?ws)" "(j, q) \<noteq> (i, p)" if t: "tgt n i p = AgentPort j q" for j q
    proof -
      show "(j, q) \<noteq> (i, p)"
        using mirror [OF x(2,3) t] x(3) by auto
      show "AgentPort j q \<notin> set (agent_ends ?ws)"
        using member [of "AgentPort j q"] mirror [OF x(2,3) t] mirror [of _ _ j q] Cons.prems(1) x(1)
        by (metis distinct.simps(2) port_ref.inject(1))
    qed
    show ?case
      using Cons.IH Cons.prems fresh fresh2 by (cases "tgt n i p") (auto simp: x(1))
  qed simp
  moreover have "distinct (port_list n)"
    using port_list_sorted by (rule strict_distinct)
  ultimately show ?thesis
    using set_port_list [of n] by (auto simp: printed_wires_def intro!: distinct_filter)
qed

lemma agent_ends_rename: "agent_ends (map (map_prod (rename_port n) (rename_port n)) ws) = map (rename_port n) (agent_ends ws)"
proof (induction ws)
  case (Cons w ws)
  then show ?case
    by (cases w; cases "fst w"; cases "snd w") auto
qed simp

section \<open>The round trip\<close>

text \<open>What the printer can express: free identifiers have 32 bits, and the root is a port of the net.\<close>

definition printable :: "net \<Rightarrow> bool" where
  "printable n \<longleftrightarrow>
     core_inv n \<and> (\<forall>i p f. valid_port n i p \<longrightarrow> tgt n i p = FreePort f \<longrightarrow> f \<le> u32_MAX) \<and>
     (case root n of None \<Rightarrow> True | Some (AgentPort i p) \<Rightarrow> valid_port n i p | Some (FreePort f) \<Rightarrow> f \<le> u32_MAX)"

text \<open>The net that is read: the live agents renumbered in order, with the renamed wires.\<close>

definition reread :: "net \<Rightarrow> net \<Rightarrow> bool" where
  "reread n m \<longleftrightarrow>
     core_inv m \<and> queue_complete m \<and> bij_betw (rank n) {i. live n i} {j. live m j} \<and>
     (\<forall>i. live n i \<longrightarrow> sym_at m (rank n i) = sym_at n i) \<and>
     (\<forall>i p. valid_port n i p \<longrightarrow> tgt m (rank n i) p = rename_port n (tgt n i p)) \<and>
     root m = map_option (rename_port n) (root n)"

lemma created_view:
  assumes "core_inv n"
  obtains m where "create_agents (map (\<lambda>i. the (sym_at n i)) (live_ids_of n)) net_new = Some ([0..<length (live_ids_of n)], m)"
    "core_inv m" "redex_queue m = []" "root m = None" "\<And>j q. q < 3 \<Longrightarrow> tgt m j q = DISCONNECTED"
    "\<And>j. live m j \<longleftrightarrow> j < length (live_ids_of n)" "\<And>i. live n i \<Longrightarrow> sym_at m (rank n i) = sym_at n i"
proof -
  let ?is = "live_ids_of n" and ?ss = "map (\<lambda>i. the (sym_at n i)) (live_ids_of n)"
  have "set ?is \<subseteq> {..<next_id n}"
    using core_invD(4) [OF assms] by (auto simp: ids_below_def)
  then have "length ?is \<le> next_id n"
    using card_mono [of "{..<next_id n}" "set ?is"] distinct_card [OF live_ids_distinct [of n]] by simp
  then have room: "next_id net_new + length ?ss \<le> u32_MAX"
    using core_invD(4) [OF assms] core_inv_new(5) by (simp add: ids_below_def)
  obtain js m where c: "create_agents ?ss net_new = Some (js, m)"
    using create_agents_total [OF core_inv_new(1) room] by blast
  have "js = [0..<length ?is]"
    using create_agents_fresh [OF _ c] core_inv_new(5) by (simp add: net_new_def)
  note V = create_agents_view [OF core_inv_new(1) c, unfolded this]
  have sy: "sym_at m = [[0..<length ?is] [\<mapsto>] ?ss]"
    using V(4) core_inv_new(7) by simp
  have at: "sym_at m k = Some (the (sym_at n (?is ! k)))" if "k < length ?is" for k
    using map_upds_nth [of "[0..<length ?is]" ?ss k Map.empty] that by (simp add: sy)
  show thesis
  proof (rule that)
    show "create_agents ?ss net_new = Some ([0..<length ?is], m)"
      using c \<open>js = _\<close> by simp
    have "sym_at m j = None" if "\<not> j < length ?is" for j
      using that by (simp add: sy map_upds_apply_nontin)
    then show "live m j \<longleftrightarrow> j < length ?is" for j
      using at [of j] by (metis option.distinct(1))
    show "sym_at m (rank n i) = sym_at n i" if "live n i" for i
      using at [OF rank_nth(1) [OF that]] rank_nth(2) [OF that] that by auto
  qed (use V core_inv_new in \<open>simp_all add: net_new_def\<close>)
qed

lemma reread_wired:
  assumes "core_inv n" "core_inv m" "redex_queue m = []" "\<And>j q. q < 3 \<Longrightarrow> tgt m j q = DISCONNECTED"
    and "\<And>j. live m j \<longleftrightarrow> j < length (live_ids_of n)" "\<And>i. live n i \<Longrightarrow> sym_at m (rank n i) = sym_at n i"
    and "root m = None" "w = wire_all (map (map_prod (rename_port n) (rename_port n)) (printed_wires n)) m"
  shows "reread n (w\<lparr>root := map_option (rename_port n) (root n)\<rparr>)" "sym_at w = sym_at m" "root w = None"
proof -
  let ?r = "rename_port n"
  let ?ws = "map (map_prod ?r ?r) (printed_wires n)"
  have port: "valid_port m (rank n i) p" if "valid_port n i p" for i p
    using that assms(6) [OF valid_port_live [OF that]] by (auto simp: valid_port_def)
  have ends: "\<exists>i p. x = AgentPort i p \<and> valid_port n i p" if x: "x \<in> set (agent_ends (printed_wires n))" for x
    using agent_ends_in [OF x] printed_wire [OF assms(1)] printed_wire_ends [OF assms(1)] x agent_ends_agent
    by (metis port_ref.exhaust)
  have inj: "inj_on ?r (set (agent_ends (printed_wires n)))"
    using ends rename_inj unfolding inj_on_def by (metis prod.inject)
  have dist: "distinct (agent_ends ?ws)"
    using printed_ends_distinct [OF assms(1)] inj by (simp add: agent_ends_rename distinct_map)
  have J: "joinable ?ws m"
    unfolding joinable_def
  proof (intro conjI ballI dist)
    fix x
    assume "x \<in> set (agent_ends ?ws)"
    then obtain y where y: "y \<in> set (agent_ends (printed_wires n))" "x = ?r y"
      by (auto simp: agent_ends_rename)
    then obtain i p where "x = AgentPort (rank n i) p" "valid_port n i p"
      using ends [OF y(1)] by auto
    then show "open_end m x"
      using port assms(4) valid_port_less by simp
  qed
  have w: "w = link_all ?ws m"
    using wire_all_link [OF assms(2) J] assms(8) by simp
  note L = link_all_view [OF assms(2) J, folded w]
  show sy: "sym_at w = sym_at m" and "root w = None"
    using L(2,4) assms(7) by simp_all
  have wired: "tgt w (rank n i) p = ?r (tgt n i p)" if v: "valid_port n i p" for i p
  proof -
    note p = valid_port_less [OF v]
    have "other_end ?ws (AgentPort (rank n i) p) = Some (?r (tgt n i p))"
    proof (cases "first_end n (i, p)")
      case True
      then have "(AgentPort i p, tgt n i p) \<in> set (printed_wires n)"
        using v set_port_list [of n] by (force simp: printed_wires_def)
      then have "(AgentPort (rank n i) p, ?r (tgt n i p)) \<in> set ?ws"
        by force
      then show ?thesis
        by (rule other_end_fst [OF dist])
    next
      case False
      then obtain j q where t: "tgt n i p = AgentPort j q" "port_index j q \<le> port_index i p"
        by (auto simp: first_end_def split: port_ref.splits)
      note s = symmetric_wiresD [OF core_invD(3) [OF assms(1)] p t(1)]
      have "first_end n (j, q)"
        using t(2) s(2,3) port_index_inj [OF p s(1), of i j] by (auto simp: first_end_def le_less)
      then have "(AgentPort j q, AgentPort i p) \<in> set (printed_wires n)"
        using s(2) tgt_valid(1) [OF assms(1) p t(1)] set_port_list [of n] by (force simp: printed_wires_def)
      then have "(?r (AgentPort j q), AgentPort (rank n i) p) \<in> set ?ws"
        by force
      then show ?thesis
        unfolding t(1) by (rule other_end_snd [OF dist])
    qed
    then show ?thesis
      using L(6) [OF p] by simp
  qed
  have queue: "queue_complete w"
    unfolding queue_complete_def
  proof (intro allI impI)
    fix a b
    assume "active_pair w a b"
    then have "other_end ?ws (AgentPort a 0) = Some (AgentPort b 0)"
      using L(6) [of 0 a] assms(4) by (auto simp: active_pair_def split: option.splits)
    then show "(a, b) \<in> set (redex_queue w) \<or> (b, a) \<in> set (redex_queue w)"
      using other_end_in [of ?ws] L(3) by (force simp: new_redexes_def)
  qed
  have rt: "sym_at (w\<lparr>root := r\<rparr>) = sym_at w" "tgt (w\<lparr>root := r\<rparr>) = tgt w" "queue_complete (w\<lparr>root := r\<rparr>) \<longleftrightarrow> queue_complete w" for r
    by (simp_all add: queue_complete_def active_pair_def)
  have "bij_betw (rank n) {i. live n i} {j. live m j}"
    using rank_bij [of n] assms(5) by (simp add: lessThan_def)
  then show "reread n (w\<lparr>root := map_option ?r (root n)\<rparr>)"
    using L(1) queue wired assms(6) by (simp add: reread_def rt sy core_inv_root)
qed

text \<open>The names of the printed text, and how its ports read back.\<close>

definition printed_names :: "net \<Rightarrow> (string \<rightharpoonup> agent_id)" where
  "printed_names n = [map agent_name (live_ids_of n) [\<mapsto>] [0..<length (live_ids_of n)]]"

lemma printed_name:
  assumes "live n i"
  shows "printed_names n (agent_name i) = Some (rank n i)"
proof -
  have "distinct (map agent_name (live_ids_of n))"
    using live_ids_distinct by (simp add: distinct_map inj_on_def agent_name_inj)
  then show ?thesis
    using map_upds_nth [of "map agent_name (live_ids_of n)" "[0..<length (live_ids_of n)]" "rank n i" Map.empty] rank_nth [OF assms]
    by (simp add: printed_names_def)
qed

lemma agent_reads:
  assumes "\<And>i. live n i \<Longrightarrow> syms (rank n i) = sym_at n i" "valid_port n i p"
  shows "reads_as (printed_names n) syms (AgentPort i p) (rename_port n (AgentPort i p))"
proof -
  obtain s where "sym_at n i = Some s" "p < total_ports s"
    using assms(2) by (auto simp: valid_port_def split: option.splits)
  then show ?thesis
    using parse_agent_port [of "printed_names n" i "rank n i" _ s p] printed_name assms(1) valid_port_live [OF assms(2)]
    by (simp add: reads_as_def del: format_port_ref.simps)
qed

lemma free_reads: "f \<le> u32_MAX \<Longrightarrow> reads_as names syms (FreePort f) (rename_port n (FreePort f))"
  using parse_free_port by (simp add: reads_as_def del: format_port_ref.simps)

lemma wires_read:
  assumes "printable n" "\<And>i. live n i \<Longrightarrow> syms (rank n i) = sym_at n i"
  shows "\<forall>(a, b) \<in> set (printed_wires n).
    reads_as (printed_names n) syms a (rename_port n a) \<and> reads_as (printed_names n) syms b (rename_port n b) \<and>
    rename_port n a \<noteq> rename_port n b \<and> \<not> both_free (rename_port n a) (rename_port n b)"
proof (intro ballI, clarify)
  fix a b
  assume ab: "(a, b) \<in> set (printed_wires n)"
  have core: "core_inv n"
    using assms(1) by (simp add: printable_def)
  obtain i p where a: "a = AgentPort i p" "valid_port n i p" "b = tgt n i p" "first_end n (i, p)"
    using printed_wire [OF core ab] .
  show "reads_as (printed_names n) syms a (rename_port n a) \<and> reads_as (printed_names n) syms b (rename_port n b) \<and>
    rename_port n a \<noteq> rename_port n b \<and> \<not> both_free (rename_port n a) (rename_port n b)"
  proof (cases b)
    case (AgentPort j q)
    have "valid_port n j q" "(i, p) \<noteq> (j, q)"
      using printed_wire_ends [OF core ab AgentPort] a(4) by auto
    then show ?thesis
      using agent_reads [OF assms(2)] a(1,2) rename_inj [OF a(2), of j q] AgentPort by (simp add: both_free_def)
  next
    case (FreePort f)
    then have "f \<le> u32_MAX"
      using assms(1) a by (simp add: printable_def)
    then show ?thesis
      using agent_reads [OF assms(2) a(2)] free_reads a(1) FreePort by (simp add: both_free_def)
  qed
qed

lemma root_reads:
  assumes "printable n" "\<And>i. live n i \<Longrightarrow> syms (rank n i) = sym_at n i"
  shows "case root n of None \<Rightarrow> True | Some y \<Rightarrow> reads_as (printed_names n) syms y (rename_port n y)"
  using assms(1) agent_reads [OF assms(2)] free_reads by (auto simp: printable_def split: option.splits port_ref.splits)

lemma printed_lines:
  assumes "core_inv n"
  shows "List.enumerate 0 (str_lines (format_ic n)) =
    List.enumerate 0 (map unwords (agent_tokens n)) @
    List.enumerate (length (live_ids_of n)) (map unwords (wire_tokens (printed_wires n) @ root_tokens (root n)))"
    and "\<forall>ts \<in> set (agent_tokens n). clean_line ts \<and> ts ! 0 = ''agent''"
    and "\<forall>ts \<in> set (wire_tokens (printed_wires n) @ root_tokens (root n)). clean_line ts \<and> ts ! 0 \<noteq> ''agent''"
proof -
  show clean: "\<forall>ts \<in> set (agent_tokens n). clean_line ts \<and> ts ! 0 = ''agent''"
      "\<forall>ts \<in> set (wire_tokens (printed_wires n) @ root_tokens (root n)). clean_line ts \<and> ts ! 0 \<noteq> ''agent''"
    by (auto simp: agent_tokens_def wire_tokens_def root_tokens_def simp del: format_port_ref.simps split: option.splits)
  show "List.enumerate 0 (str_lines (format_ic n)) =
    List.enumerate 0 (map unwords (agent_tokens n)) @
    List.enumerate (length (live_ids_of n)) (map unwords (wire_tokens (printed_wires n) @ root_tokens (root n)))"
    unfolding format_ic_render [OF assms] using clean
    by (subst str_lines_render) (auto simp: enumerate_append_eq agent_tokens_def)
qed

text \<open>
  Printing and parsing is the identity up to renumbering (C14): the text of a well-formed net parses without
  an error to a well-formed net that has the same agents, numbered in order, the same wires, free ports
  and root, and a complete queue of active pairs.
\<close>

theorem format_parse_roundtrip:
  assumes "printable n"
  shows "\<exists>m. parse_ic (format_ic n) = Some (Inr m) \<and> reread n m"
proof -
  have core: "core_inv n"
    using assms by (simp add: printable_def)
  let ?is = "live_ids_of n" and ?r = "rename_port n" and ?names = "printed_names n"
  obtain m where m: "create_agents (map (\<lambda>i. the (sym_at n i)) ?is) net_new = Some ([0..<length ?is], m)" "core_inv m"
      "redex_queue m = []" "root m = None" "\<And>j q. q < 3 \<Longrightarrow> tgt m j q = DISCONNECTED" "\<And>j. live m j \<longleftrightarrow> j < length ?is"
      "\<And>i. live n i \<Longrightarrow> sym_at m (rank n i) = sym_at n i"
    by (rule created_view [OF core]) (rule that)
  define w where "w = wire_all (map (map_prod ?r ?r) (printed_wires n)) m"
  note W = reread_wired [OF core m(2,3,5-7,4) w_def]
  note lines = printed_lines [OF core]
  have "pass1 (List.enumerate 0 (map unwords (agent_tokens n))) (net_new, Map.empty) = Some (Inr (m, ?names))"
    using pass1_agents [OF live_ids_distinct _ m(1), of Map.empty 0]
    by (simp add: agent_tokens_def printed_names_def comp_def del: unwords.simps)
  then have one: "pass1 (List.enumerate 0 (str_lines (format_ic n))) (net_new, Map.empty) = Some (Inr (m, ?names))"
    unfolding lines(1) pass1_append using pass1_skip [OF lines(3)] by simp
  have "case root n of None \<Rightarrow> True | Some y \<Rightarrow> reads_as ?names (sym_at w) y (?r y)"
    by (rule root_reads [OF assms]) (use W(2) m(7) in simp)
  then obtain b where
    "pass2 ?names (List.enumerate (length ?is + length (wire_tokens (printed_wires n))) (map unwords (root_tokens (root n)))) (w, False) =
      Inr (case root n of None \<Rightarrow> w | Some y \<Rightarrow> w\<lparr>root := Some (?r y)\<rparr>, b)"
    using pass2_root by blast
  then have two: "pass2 ?names (List.enumerate 0 (str_lines (format_ic n))) (m, False) =
      Inr (case root n of None \<Rightarrow> w | Some y \<Rightarrow> w\<lparr>root := Some (?r y)\<rparr>, b)"
    unfolding lines(1) pass2_append map_append enumerate_append_eq
    using pass2_skip [OF lines(2)] pass2_wires [OF wires_read [OF assms m(7)] refl] by (simp add: w_def)
  have "(case root n of None \<Rightarrow> w | Some y \<Rightarrow> w\<lparr>root := Some (?r y)\<rparr>) = w\<lparr>root := map_option ?r (root n)\<rparr>"
    using W(3) by (cases "root n") simp_all
  then show ?thesis
    using one two W(1) by (simp add: parse_ic_def Let_def)
qed

lemma printable_pair: "printable (pair_net s t)"
proof -
  have "f \<le> u32_MAX" if "tgt (pair_net s t) i p = FreePort f" for i p f
  proof -
    have "FreePort f \<in> insert DISCONNECTED (set (ports (pair_net s t)))"
      using that nth_mem [of "port_index i p" "ports (pair_net s t)"]
      by (cases "port_index i p < length (ports (pair_net s t))") (simp_all add: tgt_def get_target_def Let_def)
    then show ?thesis
      by (auto simp: pair_net_def DISCONNECTED_def split: if_splits)
  qed
  moreover have "root (pair_net s t) = None"
    by (simp add: pair_net_def net_new_def)
  ultimately show ?thesis
    using pair_net_core [of s t] by (simp add: printable_def)
qed

theorem format_parse_roundtrip_witness:
  "\<exists>m. parse_ic (format_ic (pair_net Con Dup)) = Some (Inr m) \<and> reread (pair_net Con Dup) m"
  by (rule format_parse_roundtrip [OF printable_pair])

section \<open>What the parser does not check\<close>

definition reused_port_tokens :: "string list list" where
  "reused_port_tokens = [[''agent'', ''a'', ''CON''], [''agent'', ''b'', ''ERA''], [''agent'', ''c'', ''ERA''],
     [''wire'', ''a.left'', ''b.principal''], [''wire'', ''a.left'', ''c.principal'']]"

definition reused_port :: string where
  "reused_port = render reused_port_tokens"

lemma reused_port_clean: "\<forall>ts \<in> set reused_port_tokens. clean_line ts"
  by (simp add: reused_port_tokens_def clean_line_def plain_def is_whitespace_def code_def)

lemma reused_port_run:
  "\<exists>m. parse_ic reused_port = Some (Inr m) \<and>
     ports m = [DISCONNECTED, AgentPort 2 0, DISCONNECTED, AgentPort 0 1, DISCONNECTED, DISCONNECTED, AgentPort 0 1, DISCONNECTED, DISCONNECTED]"
proof -
  have tok: "line_tokens (unwords ts) = ts" if "ts \<in> set reused_port_tokens" for ts
    using line_tokens_unwords reused_port_clean that by blast
  have ls: "str_lines reused_port = map unwords reused_port_tokens"
    unfolding reused_port_def by (rule str_lines_render [OF reused_port_clean])
  have three: "replicate 3 x = [x, x, x]" for x :: port_ref
    by (simp add: numeral_eq_Suc)
  show ?thesis
    unfolding parse_ic_def ls reused_port_tokens_def
    by (simp add: tok [unfolded reused_port_tokens_def] pass1_line_def pass2_line_def parse_symbol_def create_agent_def
      pop_free_list_def round_protected_def alloc_fresh_def net_new_def vec_grow_def parse_port_ref_def strip_prefix_def
      splitn_dot_def parse_port_name_def get_agent_def vec_get_def connect_def set_port_def port_index_def PORTS_PER_SLOT_def
      new_redexes_def redirect_freeports_def Let_def vec_resize_def three del: unwords.simps)
qed

text \<open>
  The parser accepts a port that is wired twice: the second wire replaces the first at the shared port
  only, and the net that is returned has a wire with one end.
\<close>

lemma parse_accepts_reused_port:
  "\<exists>m. parse_ic reused_port = Some (Inr m) \<and> tgt m 1 0 = AgentPort 0 1 \<and> tgt m 0 1 = AgentPort 2 0 \<and> \<not> symmetric_wires m"
proof -
  obtain m where m: "parse_ic reused_port = Some (Inr m)"
      "ports m = [DISCONNECTED, AgentPort 2 0, DISCONNECTED, AgentPort 0 1, DISCONNECTED, DISCONNECTED, AgentPort 0 1, DISCONNECTED, DISCONNECTED]"
    using reused_port_run by blast
  have t: "tgt m 1 0 = AgentPort 0 1" "tgt m 0 1 = AgentPort 2 0"
    using m by (simp_all add: tgt_def get_target_def port_index_def PORTS_PER_SLOT_def)
  then have "\<not> symmetric_wires m"
    using symmetric_wiresD(2) [of m 0 1 0 1] by auto
  then show ?thesis
    using m(1) t by blast
qed

end
