(* ===== verification/Spec2Isabelle.thy ===== *)
theory Spec2Isabelle
  imports Net_Props Loops Sparse_Props Merge_Props Worker_Props Resolver_Rules Coordinator_Props Grid_Props Delta_Runs Remap Addition Stream_Runs Compact Text_Props
begin

text \<open>
  \<^bold>\<open>Relativist: distributed reduction of interaction combinators.\<close>

  Relativist reduces a net of three kinds of agents (constructor, duplicator, eraser) on a grid of
  machines.  A coordinator splits the net into partitions, workers reduce their partition without
  communication, and the coordinator merges the partitions, resolves the active pairs that lie across a
  border and repeats until no pair is left.  In delta mode the partitions stay on the workers: only the
  changes of border wires travel, and the coordinator resolves border redexes on a graph of borders.
  The theories below follow the modules of \<open>src/relativist-core/src\<close>.

  \<^bold>\<open>Nets\<close> (\<open>net/\<close>).  \<open>Prelude\<close> has the shared lemmas.  \<open>Net_Types\<close> models \<open>types.rs\<close> (symbols, ports,
  agents), \<open>Net_Core\<close> the arena of \<open>core.rs\<close> with all its operations; \<open>Net_View\<close> reads a net as the
  symbols at its identifiers and the wires between its ports.  \<open>Net_Inv\<close> has the runtime checks of
  \<open>debug.rs\<close> and the invariant \<open>net_inv\<close> that implies them, \<open>Net_Check\<close> its executable form.
  \<open>Net_Props\<close> shows allocation under both recycling policies, the free-list discipline, union and
  behavioural equality.  \<open>Sparse\<close> models \<open>sparse.rs\<close>; \<open>Arena\<close> states the contract that both
  representations keep as a locale, interpreted on each; \<open>Sparse_Props\<close> shows that the dense arena
  refines the sparse net and that the conversions are inverse.

  \<^bold>\<open>Reduction\<close> (\<open>reduction/\<close>).  \<open>Rules\<close> models \<open>rules.rs\<close> with the self-loop cases; \<open>Rule_Laws\<close> and
  \<open>Rule_Props\<close> show what each rule does to the view.  \<open>Engine\<close> models \<open>dispatch.rs\<close> and \<open>engine.rs\<close>;
  \<open>Engine_Laws\<close> and \<open>Reduction\<close> show that a step keeps the invariants and the completeness of the redex
  queue, \<open>Loops\<close> the statistics, normal forms, the agreement of the loops and termination without
  duplicators.

  \<^bold>\<open>Partitions\<close> (\<open>partition/\<close>).  \<open>Partition_Types\<close> models \<open>types.rs\<close>, \<open>Id_Ranges\<close>, \<open>Wires\<close> and \<open>Subnet\<close>
  the parts of \<open>helpers.rs\<close>, \<open>Strategy\<close> the strategy trait (a locale, with \<open>ContiguousIdStrategy\<close> as its
  interpretation), \<open>Split\<close> the splitting of a net.  The theorems: ranges are disjoint and within bounds,
  a split succeeds under every lawful strategy, passes its own checks and loses nothing.  \<open>Remap\<close> models
  \<open>remap.rs\<close> and shows that the renumbering keeps symbols, wires, root and redexes under an
  order-preserving renaming.

  \<^bold>\<open>Streaming\<close> (\<open>partition/streaming.rs\<close>).  \<open>Streaming\<close> models the pipeline that builds partitions from a
  stream of batches: both strategies, the accumulators with their switch from sparse to dense, borders,
  pending wires and the single-chunk path.  \<open>Stream_Strategy\<close> states the contract of a strategy as a locale,
  interpreted on round robin and on the greedy strategy; \<open>Stream_Inv\<close>, \<open>Stream_Steps\<close> and \<open>Stream_Loop\<close>
  relate the accumulators after every batch to the net the stream describes; \<open>Stream_Finish\<close> and
  \<open>Stream_Props\<close> show that an accepted stream gives lawful partitions and that merging them gives that
  net.  \<open>Stream_Runs\<close> has the limit of round robin at four workers and the inputs on which the pipeline
  loses a wire or shares an identifier.

  \<^bold>\<open>Formats.\<close>  \<open>Compact\<close> models \<open>partition/compact.rs\<close>, the form in which a partition travels, with the byte
  codec as a parameter; it shows the round trip, that exactly the safe free lists are accepted, and that
  merging partitions that travelled gives the same net.  \<open>Text_Dsl\<close> models the text format of
  \<open>io/text_dsl.rs\<close> (parser and printer on characters below 256), \<open>Text_Lex\<close> shows that numbers and lines
  survive printing, \<open>Text_Props\<close> that a printed net parses to the same net up to renumbering, and that the
  parser accepts a port that is wired twice.

  \<^bold>\<open>Merge\<close> (\<open>merge/\<close>).  \<open>Merge_Core\<close> models \<open>core.rs\<close>; \<open>Merge_Props\<close> shows that merging restores every
  border and that merging a split gives the net back.  \<open>Border_Graph\<close> models \<open>border_graph.rs\<close> with its
  invariant, \<open>Deltas\<close> the helpers of \<open>helpers.rs\<close>, \<open>Request_Ids\<close> the packing of request identifiers,
  \<open>Resolver\<close> the border resolver of \<open>border_resolver.rs\<close>; \<open>Resolver_Props\<close> shows that a
  commutation across a border completes with all its wires and that the echo of an erasure next to a local
  agent is refused, \<open>Resolver_Rules\<close> that every resolution describes the sequential step on the same pair.  \<open>Grid\<close> models \<open>run_grid\<close> of \<open>grid.rs\<close>;
  \<open>Grid_Props\<close> shows its report and the soundness of coordinator-free rounds.  \<open>Grid_Delta\<close> models
  the delta loop of the same file with its driver; \<open>Grid_Delta_Props\<close> shows the invariant of the loop,
  what convergence means and what is reported, and \<open>Delta_Runs\<close> runs the two inputs on which the loop
  loses part of the net.

  \<^bold>\<open>State machines\<close>.  \<open>Messages\<close> has the messages of \<open>protocol/types.rs\<close>.  \<open>Worker_Fsm\<close> models \<open>worker.rs\<close>
  (push, delta and pull machines), \<open>Coordinator_Fsm\<close> models \<open>coordinator.rs\<close>.  \<open>Worker_Props\<close> shows that a
  delta round keeps coordinator and worker in step and that logs account for every run;
  \<open>Coordinator_Props\<close> shows safety of the barrier, completion under every interleaving of membership
  events, the events that no state handles, and the invariant of the pull machine.

  \<^bold>\<open>Encodings\<close> (\<open>encoding/\<close>).  \<open>Builder\<close> follows nets under construction, \<open>Church\<close> models \<open>church.rs\<close> with
  the round trip of a numeral and the nets the decoder accepts, \<open>Arithmetic\<close> models \<open>arithmetic.rs\<close>; \<open>Arith_Props\<close> shows that the builders
  give closed nets (a locale for the combinators, interpreted on addition, multiplication and power)
  and that decoding returns; \<open>Addition\<close> shows that the reduced sum decodes to the sum.

  \<^bold>\<open>Conventions.\<close>  The model is the release build with default features.  Identifiers are natural numbers
  with their \<open>u32\<close> bounds written out; counters of the coordinator and request identifiers are words.
  The border counter of a split, the metrics and the counts of the decoders are natural numbers without
  wrap-around; a partition that travels keeps its fields other than the net as they are.
  A panic is \<open>None\<close>.  The loops that need not end (\<open>reduce_all\<close>, \<open>grid_loop\<close>) are least fixed points in
  the option order: \<open>None\<close> is divergence, \<open>Some None\<close> a panic; no fuel is used.  Hash maps are partial
  functions and every iteration over one takes the order as an argument, so that the theorems hold for
  every order.  Chains of border ports are followed for at most 8 steps (\<open>MAX_CHAIN_DEPTH\<close>), as in the
  code; request identifiers have 28 bits for the commutation and 4 for the slot.

  \<^bold>\<open>Not modelled.\<close>  The byte codecs (bincode, rkyv, lz4) and the frames of \<open>protocol/frame.rs\<close> rest on
  third-party serializers.  The drivers
  \<open>protocol/coordinator.rs\<close> and \<open>protocol/worker.rs\<close> are asynchronous input and output around the modelled
  state machines; TLS, tracing, metrics export, the command line and the benchmark harness are input and
  output around the core.  The score of the greedy streaming strategy is floating-point arithmetic and is
  a parameter of the model.  The codec registry, the lambda and polynomial encoders and the generators of
  \<open>io/\<close> are not covered.
\<close>

end
